(* ===== verification/Prelude.thy ===== *)
theory Prelude
  imports Main "HOL-Library.Word" "HOL-Library.Monad_Syntax"
begin

text \<open>
  Shared vocabulary of the development: the byte type, the ordered container that stands for the
  library's sorted sets (a list that is strictly increasing), and the generic list facts that the
  component theories use.  Nothing here models a function of the program; the container
  operations are the mathematical ones of an ordered set (position of the first element not below
  a key, insertion, union, removal) on its list of elements.
\<close>

named_theorems flat_simps \<open>laws of the ordered containers\<close>

type_synonym byte = "8 word"
type_synonym bytes = "byte list"

section \<open>Lists cut by a monotone predicate\<close>

lemma takeWhile_eq_filter_wrt:
  assumes "sorted_wrt R xs" and "\<And>a b. a \<in> set xs \<Longrightarrow> b \<in> set xs \<Longrightarrow> R a b \<Longrightarrow> P b \<Longrightarrow> P a"
  shows "takeWhile P xs = filter P xs"
  using assms
proof (induction xs)
  case Nil
  then show ?case by simp
next
  case (Cons x xs)
  show ?case
  proof (cases "P x")
    case True
    have "takeWhile P xs = filter P xs"
      using Cons.prems by (intro Cons.IH) auto
    with True show ?thesis by simp
  next
    case False
    with Cons.prems have "\<forall>b \<in> set xs. \<not> P b" by auto
    with False show ?thesis by simp
  qed
qed

lemma dropWhile_eq_filter_wrt:
  assumes "sorted_wrt R xs" and "\<And>a b. a \<in> set xs \<Longrightarrow> b \<in> set xs \<Longrightarrow> R a b \<Longrightarrow> P b \<Longrightarrow> P a"
  shows "dropWhile P xs = filter (\<lambda>x. \<not> P x) xs"
  using assms
proof (induction xs)
  case Nil
  then show ?case by simp
next
  case (Cons x xs)
  show ?case
  proof (cases "P x")
    case True
    have "dropWhile P xs = filter (\<lambda>x. \<not> P x) xs"
      using Cons.prems by (intro Cons.IH) auto
    with True show ?thesis by simp
  next
    case False
    with Cons.prems have "\<forall>b \<in> set xs. \<not> P b" by auto
    then have "filter (\<lambda>x. \<not> P x) xs = xs" by simp
    with False show ?thesis by simp
  qed
qed

lemma take_length_takeWhile [simp]: "take (length (takeWhile P xs)) xs = takeWhile P xs"
  by (induction xs) auto

lemma drop_length_takeWhile [simp]: "drop (length (takeWhile P xs)) xs = dropWhile P xs"
  by (induction xs) auto

section \<open>Ordered sets as strictly increasing lists\<close>

abbreviation flat_ok :: "'a::linorder list \<Rightarrow> bool" where
  "flat_ok xs \<equiv> sorted_wrt (<) xs"

text \<open>The index of the first element that is not below the key, and of the first above it.\<close>

definition flat_lower :: "'a::linorder list \<Rightarrow> 'a \<Rightarrow> nat" where
  "flat_lower xs k = length (takeWhile (\<lambda>x. x < k) xs)"

definition flat_upper :: "'a::linorder list \<Rightarrow> 'a \<Rightarrow> nat" where
  "flat_upper xs k = length (takeWhile (\<lambda>x. x \<le> k) xs)"

fun flat_insert :: "'a::linorder \<Rightarrow> 'a list \<Rightarrow> 'a list" where
  "flat_insert x [] = [x]"
| "flat_insert x (y # ys) =
     (if x < y then x # y # ys else if x = y then y # ys else y # flat_insert x ys)"

definition flat_merge :: "'a::linorder list \<Rightarrow> 'a list \<Rightarrow> 'a list" where
  "flat_merge xs ys = fold flat_insert ys xs"

definition flat_remove :: "'a::linorder \<Rightarrow> 'a list \<Rightarrow> 'a list" where
  "flat_remove x xs = remove1 x xs"

lemma flat_ok_sorted_distinct: "flat_ok xs \<longleftrightarrow> sorted xs \<and> distinct xs"
  by (simp add: strict_sorted_iff)

lemma set_flat_insert [flat_simps, simp]: "set (flat_insert x xs) = insert x (set xs)"
  by (induction xs) auto

lemma flat_ok_insert [flat_simps, simp]: "flat_ok xs \<Longrightarrow> flat_ok (flat_insert x xs)"
  by (induction xs) auto

lemma flat_insert_absorb: "flat_ok xs \<Longrightarrow> x \<in> set xs \<Longrightarrow> flat_insert x xs = xs"
  by (induction xs) auto

lemma set_flat_merge [flat_simps, simp]: "set (flat_merge xs ys) = set xs \<union> set ys"
proof -
  have "set (fold flat_insert ys xs) = set xs \<union> set ys"
    by (induction ys arbitrary: xs) auto
  then show ?thesis by (simp add: flat_merge_def)
qed

lemma flat_ok_merge [flat_simps, simp]: "flat_ok xs \<Longrightarrow> flat_ok (flat_merge xs ys)"
proof -
  assume "flat_ok xs"
  then have "flat_ok (fold flat_insert ys xs)"
    by (induction ys arbitrary: xs) auto
  then show ?thesis by (simp add: flat_merge_def)
qed

lemma flat_merge_Nil [simp]: "flat_merge xs [] = xs"
  by (simp add: flat_merge_def)

lemma flat_ok_remove [flat_simps, simp]: "flat_ok xs \<Longrightarrow> flat_ok (flat_remove x xs)"
  by (simp add: flat_remove_def flat_ok_sorted_distinct sorted_remove1)

lemma set_flat_remove [flat_simps, simp]:
  "flat_ok xs \<Longrightarrow> set (flat_remove x xs) = set xs - {x}"
  by (simp add: flat_remove_def flat_ok_sorted_distinct set_remove1_eq)

lemma flat_lower_le: "flat_lower xs k \<le> length xs"
  by (simp add: flat_lower_def length_takeWhile_le)

lemma flat_upper_le: "flat_upper xs k \<le> length xs"
  by (simp add: flat_upper_def length_takeWhile_le)

lemma take_flat_lower: "flat_ok xs \<Longrightarrow> take (flat_lower xs k) xs = filter (\<lambda>x. x < k) xs"
  by (auto simp: flat_lower_def intro: takeWhile_eq_filter_wrt [where R = "(<)"])

lemma drop_flat_lower: "flat_ok xs \<Longrightarrow> drop (flat_lower xs k) xs = filter (\<lambda>x. k \<le> x) xs"
  by (simp add: flat_lower_def dropWhile_eq_filter_wrt [where R = "(<)"] not_less)

lemma flat_lower_filter: "flat_ok xs \<Longrightarrow> flat_lower xs k = length (filter (\<lambda>x. x < k) xs)"
  by (metis flat_lower_def length_take length_takeWhile_le min.absorb2 take_flat_lower)

lemma drop_flat_upper: "flat_ok xs \<Longrightarrow> drop (flat_upper xs k) xs = filter (\<lambda>x. k < x) xs"
  by (simp add: flat_upper_def dropWhile_eq_filter_wrt [where R = "(<)"] not_le)

lemma flat_ok_take [simp]: "flat_ok xs \<Longrightarrow> flat_ok (take n xs)"
  by (rule sorted_wrt_take)

lemma flat_ok_drop [simp]: "flat_ok xs \<Longrightarrow> flat_ok (drop n xs)"
  by (rule sorted_wrt_drop)

lemma flat_ok_unique: "flat_ok xs \<Longrightarrow> flat_ok ys \<Longrightarrow> set xs = set ys \<Longrightarrow> xs = ys"
  by (rule strict_sorted_equal)

lemma length_flat_merge_ge: "flat_ok xs \<Longrightarrow> length xs \<le> length (flat_merge xs ys)"
proof -
  assume ok: "flat_ok xs"
  then have "distinct xs" and "distinct (flat_merge xs ys)"
    using flat_ok_merge [of xs ys] by (simp_all add: flat_ok_sorted_distinct)
  then have "length xs = card (set xs)" and "length (flat_merge xs ys) = card (set (flat_merge xs ys))"
    by (simp_all only: distinct_card)
  moreover have "card (set xs) \<le> card (set (flat_merge xs ys))"
    by (rule card_mono) auto
  ultimately show ?thesis by simp
qed

section \<open>Ordered maps as lists of pairs\<close>

text \<open>Insertion by key into a list of pairs ordered by key; a key that is there keeps its value.\<close>

fun flat_emplace :: "'k::linorder \<Rightarrow> 'v \<Rightarrow> ('k \<times> 'v) list \<Rightarrow> ('k \<times> 'v) list" where
  "flat_emplace k v [] = [(k, v)]"
| "flat_emplace k v ((k', v') # q) =
     (if k < k' then (k, v) # (k', v') # q
      else if k = k' then (k', v') # q
      else (k', v') # flat_emplace k v q)"

lemma set_flat_emplace:
  "k \<notin> fst ` set m \<Longrightarrow> set (flat_emplace k v m) = insert (k, v) (set m)"
  by (induction k v m rule: flat_emplace.induct) (simp_all add: insert_commute)

lemma flat_emplace_keys: "fst ` set (flat_emplace k v m) = insert k (fst ` set m)"
  by (induction k v m rule: flat_emplace.induct) (simp_all add: insert_commute)

lemma flat_ok_emplace: "flat_ok (map fst m) \<Longrightarrow> flat_ok (map fst (flat_emplace k v m))"
proof (induction m)
  case Nil
  then show ?case by simp
next
  case (Cons e m)
  obtain k' v' where e: "e = (k', v')" by fastforce
  show ?case
    using Cons flat_emplace_keys [of k v m] by (auto simp: e simp flip: set_map)
qed

lemma length_flat_emplace: "k \<notin> fst ` set m \<Longrightarrow> length (flat_emplace k v m) = Suc (length m)"
  by (induction m) auto

section \<open>Optional integers\<close>

text \<open>Adding to an optional count that may be unknown.\<close>

definition opt_add :: "int \<Rightarrow> int option \<Rightarrow> int option" where
  "opt_add d c = map_option (\<lambda>n. n + d) c"

lemma opt_add_simps [simp]: "opt_add d None = None" "opt_add d (Some n) = Some (n + d)"
  by (simp_all add: opt_add_def)

end
