(* ===== verification/Slices.thy ===== *)
theory Slices
  imports Prelude
begin

text \<open>
  The list of slices that \<open>Data::MessagesList\<close> and \<open>Storage::SparseIdsList\<close> share: a slice
  is an ordered set of message keys together with the closed range of keys it is known to hold
  without gaps.  The two classes repeat the same templates (\<open>Slice::merge\<close>,
  \<open>uniteAndAdd\<close>, the search of \<open>addRangeItemsAndCountNew\<close>, \<open>removeOne\<close>,
  \<open>invalidateBottom\<close>) over different key types and differ in how \<open>merge\<close> unites the key
  sets, so the functions below take that routine as an argument and the locale
  \<open>slice_container\<close> states what the rest relies on.  A failed \<open>Expects\<close> is
  \<open>None\<close>.

  The abstract view is the pair of the set of ids held and the set of keys known to be covered;
  the lemmas of the locale show that adding a range computes exactly the union on both.
\<close>

record 'k range =
  rng_from :: 'k
  rng_till :: 'k

record 'k slice =
  sl_messages :: "'k list"
  sl_range :: "'k range"

abbreviation sl_from :: "'k slice \<Rightarrow> 'k" where
  "sl_from s \<equiv> rng_from (sl_range s)"

abbreviation sl_till :: "'k slice \<Rightarrow> 'k" where
  "sl_till s \<equiv> rng_till (sl_range s)"

section \<open>The operations on slices\<close>

definition slice_merge ::
  "('k::linorder list \<Rightarrow> 'k list \<Rightarrow> 'k list) \<Rightarrow> 'k slice \<Rightarrow> 'k list \<Rightarrow> 'k range \<Rightarrow> 'k slice option" where
  "slice_merge unite s ms r =
     (if rng_from r \<le> sl_till s \<and> sl_from s \<le> rng_till r
      then Some \<lparr> sl_messages = unite (sl_messages s) ms,
                  sl_range = \<lparr> rng_from = min (sl_from s) (rng_from r),
                               rng_till = max (sl_till s) (rng_till r) \<rparr> \<rparr>
      else None)"

fun slice_merge_all ::
  "('k::linorder list \<Rightarrow> 'k list \<Rightarrow> 'k list) \<Rightarrow> 'k slice \<Rightarrow> 'k slice list \<Rightarrow> 'k slice option" where
  "slice_merge_all unite s [] = Some s"
| "slice_merge_all unite s (t # ts) =
     Option.bind (slice_merge unite s (sl_messages t) (sl_range t))
       (\<lambda>s'. slice_merge_all unite s' ts)"

text \<open>
  \<open>uniteAndAdd\<close>: the slices with index from \<open>i\<close> (included) to \<open>j\<close> (excluded) become
  one; the result is the new list, the united slice and the number of keys it gained.
\<close>

definition unite_and_add ::
  "('k::linorder list \<Rightarrow> 'k list \<Rightarrow> 'k list) \<Rightarrow> 'k slice list \<Rightarrow> nat \<Rightarrow> nat \<Rightarrow> 'k list \<Rightarrow> 'k range
     \<Rightarrow> ('k slice list \<times> 'k slice \<times> int) option" where
  "unite_and_add unite ss i j ms r =
     (let was = int (length (sl_messages (ss ! i))) in
      do {
        s0 \<leftarrow> slice_merge unite (ss ! i) ms r;
        s \<leftarrow> slice_merge_all unite s0 (drop (Suc i) (take j ss));
        Some (take i ss @ s # drop j ss, s, int (length (sl_messages s)) - was)
      })"

text \<open>Insertion into the set of slices, ordered by where the ranges start.\<close>

definition slices_emplace :: "'k::linorder slice \<Rightarrow> 'k slice list \<Rightarrow> 'k slice list \<times> 'k slice" where
  "slices_emplace s ss =
     (let p = length (takeWhile (\<lambda>t. sl_from t < sl_from s) ss)
      in if p < length ss \<and> sl_from (ss ! p) = sl_from s
         then (ss, ss ! p)
         else (take p ss @ s # drop p ss, s))"

text \<open>The positions of the first slice that ends at or after a key and of the first that
  starts after it.\<close>

definition slices_lower :: "'k::linorder slice list \<Rightarrow> 'k \<Rightarrow> nat" where
  "slices_lower ss k = length (takeWhile (\<lambda>s. sl_till s < k) ss)"

definition slices_upper :: "'k::linorder slice list \<Rightarrow> 'k \<Rightarrow> nat" where
  "slices_upper ss k = length (takeWhile (\<lambda>s. sl_from s \<le> k) ss)"

definition slices_add ::
  "('k::linorder list \<Rightarrow> 'k list \<Rightarrow> 'k list) \<Rightarrow> 'k slice list \<Rightarrow> 'k list \<Rightarrow> 'k range
     \<Rightarrow> ('k slice list \<times> 'k slice \<times> int) option" where
  "slices_add unite ss ms r =
     (let i = slices_lower ss (rng_from r);
          j = slices_upper ss (rng_till r)
      in if i < j then unite_and_add unite ss i j ms r
         else (let (ss', s) = slices_emplace \<lparr> sl_messages = flat_merge [] ms, sl_range = r \<rparr> ss
               in Some (ss', s, int (length (sl_messages s)))))"

text \<open>The slice whose range holds a key, if there is one.\<close>

definition slices_find :: "'k::linorder slice list \<Rightarrow> 'k \<Rightarrow> nat option" where
  "slices_find ss k =
     (let i = slices_lower ss k
      in if i < length ss \<and> sl_from (ss ! i) \<le> k then Some i else None)"

section \<open>Well-formed slice lists and their abstraction\<close>

definition slice_ok :: "'k::linorder slice \<Rightarrow> bool" where
  "slice_ok s \<longleftrightarrow> flat_ok (sl_messages s) \<and> sl_from s \<le> sl_till s
     \<and> (\<forall>m \<in> set (sl_messages s). sl_from s \<le> m \<and> m \<le> sl_till s)"

definition slices_ok :: "'k::linorder slice list \<Rightarrow> bool" where
  "slices_ok ss \<longleftrightarrow> (\<forall>s \<in> set ss. slice_ok s) \<and> sorted_wrt (\<lambda>a b. sl_till a < sl_from b) ss"

definition slices_ids :: "'k slice list \<Rightarrow> 'k set" where
  "slices_ids ss = (\<Union>s \<in> set ss. set (sl_messages s))"

definition slices_known :: "'k::linorder slice list \<Rightarrow> 'k set" where
  "slices_known ss = (\<Union>s \<in> set ss. {sl_from s .. sl_till s})"

lemma slice_okI:
  "flat_ok (sl_messages s) \<Longrightarrow> sl_from s \<le> sl_till s \<Longrightarrow>
   (\<And>m. m \<in> set (sl_messages s) \<Longrightarrow> sl_from s \<le> m \<and> m \<le> sl_till s) \<Longrightarrow> slice_ok s"
  by (auto simp: slice_ok_def)

lemma slices_ok_Nil [simp]: "slices_ok []"
  by (simp add: slices_ok_def)

lemma slices_ids_simps [simp]:
  "slices_ids [] = {}"
  "slices_ids (s # ss) = set (sl_messages s) \<union> slices_ids ss"
  "slices_ids (ss @ ts) = slices_ids ss \<union> slices_ids ts"
  by (auto simp: slices_ids_def)

lemma slices_known_simps [simp]:
  "slices_known [] = {}"
  "slices_known (s # ss) = {sl_from s .. sl_till s} \<union> slices_known ss"
  "slices_known (ss @ ts) = slices_known ss \<union> slices_known ts"
  by (auto simp: slices_known_def)

lemma slices_ok_append:
  "slices_ok (ss @ ts) \<longleftrightarrow> slices_ok ss \<and> slices_ok ts
     \<and> (\<forall>a \<in> set ss. \<forall>b \<in> set ts. sl_till a < sl_from b)"
  by (auto simp: slices_ok_def sorted_wrt_append)

lemma slices_ok_Cons:
  "slices_ok (s # ts) \<longleftrightarrow> slice_ok s \<and> slices_ok ts \<and> (\<forall>b \<in> set ts. sl_till s < sl_from b)"
  by (auto simp: slices_ok_def)

lemma slices_ids_known: "slices_ok ss \<Longrightarrow> slices_ids ss \<subseteq> slices_known ss"
  by (fastforce simp: slices_ok_def slice_ok_def slices_ids_def slices_known_def)

text \<open>In a well-formed list both searches cut the list by a predicate.\<close>

lemma slices_cut_lower:
  assumes "slices_ok ss"
  shows "take (slices_lower ss k) ss = filter (\<lambda>s. sl_till s < k) ss"
    and "drop (slices_lower ss k) ss = filter (\<lambda>s. k \<le> sl_till s) ss"
proof -
  have sw: "sorted_wrt (\<lambda>a b. sl_till a < sl_from b) ss" using assms by (simp add: slices_ok_def)
  have mono: "sl_till a < k"
    if "b \<in> set ss" "sl_till a < sl_from b" "sl_till b < k" for a b
    using that assms by (fastforce simp: slices_ok_def slice_ok_def)
  show "take (slices_lower ss k) ss = filter (\<lambda>s. sl_till s < k) ss"
    unfolding slices_lower_def take_length_takeWhile
    by (rule takeWhile_eq_filter_wrt [OF sw]) (blast intro: mono)
  have "dropWhile (\<lambda>s. sl_till s < k) ss = filter (\<lambda>s. \<not> sl_till s < k) ss"
    by (rule dropWhile_eq_filter_wrt [OF sw]) (blast intro: mono)
  then show "drop (slices_lower ss k) ss = filter (\<lambda>s. k \<le> sl_till s) ss"
    by (simp add: slices_lower_def not_less)
qed

lemma slices_cut_upper:
  assumes "slices_ok ss"
  shows "take (slices_upper ss k) ss = filter (\<lambda>s. sl_from s \<le> k) ss"
    and "drop (slices_upper ss k) ss = filter (\<lambda>s. k < sl_from s) ss"
proof -
  have sw: "sorted_wrt (\<lambda>a b. sl_till a < sl_from b) ss" using assms by (simp add: slices_ok_def)
  have mono: "sl_from a \<le> k"
    if "a \<in> set ss" "sl_till a < sl_from b" "sl_from b \<le> k" for a b
    using that assms by (fastforce simp: slices_ok_def slice_ok_def)
  show "take (slices_upper ss k) ss = filter (\<lambda>s. sl_from s \<le> k) ss"
    unfolding slices_upper_def take_length_takeWhile
    by (rule takeWhile_eq_filter_wrt [OF sw]) (blast intro: mono)
  have "dropWhile (\<lambda>s. sl_from s \<le> k) ss = filter (\<lambda>s. \<not> sl_from s \<le> k) ss"
    by (rule dropWhile_eq_filter_wrt [OF sw]) (blast intro: mono)
  then show "drop (slices_upper ss k) ss = filter (\<lambda>s. k < sl_from s) ss"
    by (simp add: slices_upper_def not_le)
qed

lemma slices_lower_le: "slices_lower ss k \<le> length ss"
  by (simp add: slices_lower_def length_takeWhile_le)

lemma slices_upper_le: "slices_upper ss k \<le> length ss"
  by (simp add: slices_upper_def length_takeWhile_le)

lemma slices_lower_le_upper:
  assumes "slices_ok ss" and "f \<le> t"
  shows "slices_lower ss f \<le> slices_upper ss t"
proof -
  have "slices_lower ss f = length (filter (\<lambda>s. sl_till s < f) ss)"
    using slices_cut_lower(1) [OF assms(1), of f] slices_lower_le [of ss f]
    by (metis length_take min.absorb2)
  moreover have "slices_upper ss t = length (filter (\<lambda>s. sl_from s \<le> t) ss)"
    using slices_cut_upper(1) [OF assms(1), of t] slices_upper_le [of ss t]
    by (metis length_take min.absorb2)
  moreover have "filter (\<lambda>s. sl_till s < f) ss = filter (\<lambda>s. sl_till s < f) (filter (\<lambda>s. sl_from s \<le> t) ss)"
    using assms by (auto simp: slices_ok_def slice_ok_def filter_empty_conv intro!: filter_cong)
  ultimately show ?thesis by (metis length_filter_le)
qed

section \<open>Finding and inserting slices\<close>

lemma slices_findD:
  assumes "slices_ok ss" and "slices_find ss k = Some i"
  shows "i < length ss" and "sl_from (ss ! i) \<le> k" and "k \<le> sl_till (ss ! i)"
proof -
  from assms(2) show i: "i < length ss" and "sl_from (ss ! i) \<le> k"
    by (auto simp: slices_find_def Let_def split: if_splits)
  from assms(2) have "i = slices_lower ss k"
    by (auto simp: slices_find_def Let_def split: if_splits)
  then have "ss ! i \<in> set (drop (slices_lower ss k) ss)"
    using i by (metis Cons_nth_drop_Suc list.set_intros(1))
  then show "k \<le> sl_till (ss ! i)"
    by (simp add: slices_cut_lower(2) [OF assms(1)])
qed

lemma slices_find_None:
  assumes "slices_ok ss" and "slices_find ss k = None"
  shows "k \<notin> slices_known ss"
proof
  assume "k \<in> slices_known ss"
  then obtain s where s: "s \<in> set ss" "sl_from s \<le> k" "k \<le> sl_till s"
    by (auto simp: slices_known_def)
  let ?i = "slices_lower ss k"
  have "s \<in> set (drop ?i ss)" using s by (simp add: slices_cut_lower(2) [OF assms(1)])
  then obtain n where n: "n < length (drop ?i ss)" "drop ?i ss ! n = s"
    by (metis in_set_conv_nth)
  then have len: "?i < length ss" by simp
  with assms(2) have far: "k < sl_from (ss ! ?i)"
    by (auto simp: slices_find_def Let_def split: if_splits)
  have eq: "s = ss ! (?i + n)" and bound: "?i + n < length ss" using n by auto
  have "sl_from (ss ! ?i) \<le> sl_from s"
  proof (cases "n = 0")
    case True
    then show ?thesis using eq by simp
  next
    case False
    then have "sl_till (ss ! ?i) < sl_from s"
      using assms(1) bound unfolding eq
      by (intro sorted_wrt_nth_less [of "\<lambda>a b. sl_till a < sl_from b"]) (auto simp: slices_ok_def)
    moreover have "sl_from (ss ! ?i) \<le> sl_till (ss ! ?i)"
      using assms(1) len by (auto simp: slices_ok_def slice_ok_def)
    ultimately show ?thesis by simp
  qed
  with far s show False by simp
qed

lemma slices_emplace_between:
  assumes "slices_ok (A @ C)" and "sl_from s \<le> sl_till s"
    and "\<forall>a \<in> set A. sl_till a < sl_from s" and "\<forall>c \<in> set C. sl_till s < sl_from c"
  shows "slices_emplace s (A @ C) = (A @ s # C, s)"
proof -
  have A: "\<forall>a \<in> set A. sl_from a < sl_from s"
    using assms(1,3) by (auto simp: slices_ok_def slice_ok_def intro: order_le_less_trans)
  have C: "\<forall>c \<in> set C. sl_from s < sl_from c"
    using assms(2,4) by fastforce
  have "takeWhile (\<lambda>t. sl_from t < sl_from s) (A @ C) = A"
    using A C by (cases C) (auto simp: takeWhile_append not_less less_imp_le)
  then have "length (takeWhile (\<lambda>t. sl_from t < sl_from s) (A @ C)) = length A"
    by (rule arg_cong)
  then show ?thesis
    using C unfolding slices_emplace_def Let_def by (cases C) (auto simp del: takeWhile_append)
qed

section \<open>The contract of a slice container\<close>

text \<open>
  What both classes rely on: uniting a slice's keys with more keys keeps them ordered and yields
  exactly the union.
\<close>

locale slice_container =
  fixes unite :: "'k::linorder list \<Rightarrow> 'k list \<Rightarrow> 'k list"
  assumes flat_unite: "flat_ok xs \<Longrightarrow> flat_ok (unite xs ys)"
    and set_unite: "flat_ok xs \<Longrightarrow> set (unite xs ys) = set xs \<union> set ys"
begin

lemma merge_ok:
  assumes "slice_merge unite s ms r = Some s'" and "slice_ok s" and "rng_from r \<le> rng_till r"
    and "\<forall>m \<in> set ms. rng_from r \<le> m \<and> m \<le> rng_till r"
  shows "slice_ok s'" and "set (sl_messages s') = set (sl_messages s) \<union> set ms"
    and "{sl_from s' .. sl_till s'} = {sl_from s .. sl_till s} \<union> {rng_from r .. rng_till r}"
proof -
  from assms(1) have eq: "s' = \<lparr> sl_messages = unite (sl_messages s) ms,
      sl_range = \<lparr> rng_from = min (sl_from s) (rng_from r), rng_till = max (sl_till s) (rng_till r) \<rparr> \<rparr>"
    and touch: "rng_from r \<le> sl_till s" "sl_from s \<le> rng_till r"
    by (auto simp: slice_merge_def split: if_splits)
  from assms(2) have flat: "flat_ok (sl_messages s)" by (simp add: slice_ok_def)
  show "set (sl_messages s') = set (sl_messages s) \<union> set ms"
    using flat by (simp add: eq set_unite)
  show "slice_ok s'"
    using assms(2-4) flat
    by (intro slice_okI) (auto simp: eq set_unite flat_unite slice_ok_def min_le_iff_disj le_max_iff_disj)
  show "{sl_from s' .. sl_till s'} = {sl_from s .. sl_till s} \<union> {rng_from r .. rng_till r}"
    using touch assms(2,3) by (auto simp: eq slice_ok_def min_le_iff_disj le_max_iff_disj)
qed

lemma merge_defined:
  "rng_from r \<le> sl_till s \<Longrightarrow> sl_from s \<le> rng_till r \<Longrightarrow> \<exists>s'. slice_merge unite s ms r = Some s'"
  by (simp add: slice_merge_def)

text \<open>Merging several slices into one that meets the same range never violates the
  precondition of \<open>merge\<close>.\<close>

lemma merge_all_ok:
  assumes "slice_ok s" and "\<forall>t \<in> set ts. slice_ok t"
    and "f \<le> u" and "sl_from s \<le> f" and "u \<le> sl_till s"
    and "\<forall>t \<in> set ts. f \<le> sl_till t \<and> sl_from t \<le> u"
  shows "\<exists>s'. slice_merge_all unite s ts = Some s' \<and> slice_ok s'
     \<and> set (sl_messages s') = set (sl_messages s) \<union> slices_ids ts
     \<and> {sl_from s' .. sl_till s'} = {sl_from s .. sl_till s} \<union> slices_known ts"
  using assms
proof (induction ts arbitrary: s)
  case Nil
  then show ?case by simp
next
  case (Cons t ts)
  have t: "slice_ok t" "f \<le> sl_till t" "sl_from t \<le> u" using Cons.prems by auto
  have tr: "sl_from t \<le> sl_till t" "\<forall>m \<in> set (sl_messages t). sl_from t \<le> m \<and> m \<le> sl_till t"
    using t(1) by (auto simp: slice_ok_def)
  have "sl_from t \<le> sl_till s" "sl_from s \<le> sl_till t"
    using Cons.prems(3,4,5) t by (auto intro: order_trans)
  then obtain s1 where s1: "slice_merge unite s (sl_messages t) (sl_range t) = Some s1"
    using merge_defined by blast
  note m = merge_ok [OF s1 Cons.prems(1) tr]
  have sub: "{sl_from s .. sl_till s} \<subseteq> {sl_from s1 .. sl_till s1}" using m(3) by auto
  then have "sl_from s1 \<le> f" "u \<le> sl_till s1"
    using Cons.prems(1,3,4,5) by (auto simp: slice_ok_def)
  then obtain s' where "slice_merge_all unite s1 ts = Some s'" "slice_ok s'"
     "set (sl_messages s') = set (sl_messages s1) \<union> slices_ids ts"
     "{sl_from s' .. sl_till s'} = {sl_from s1 .. sl_till s1} \<union> slices_known ts"
    using Cons.IH [of s1] m(1) Cons.prems by auto
  then show ?case using s1 m by auto
qed

text \<open>Adding a range: it never fails, keeps the list well formed and computes the union.\<close>

theorem add_refines:
  assumes ok: "slices_ok ss" and range: "rng_from r \<le> rng_till r"
    and inside: "\<forall>m \<in> set ms. rng_from r \<le> m \<and> m \<le> rng_till r"
  shows "\<exists>ss' s n. slices_add unite ss ms r = Some (ss', s, n) \<and> slices_ok ss' \<and> s \<in> set ss'
     \<and> slices_ids ss' = slices_ids ss \<union> set ms
     \<and> slices_known ss' = slices_known ss \<union> {rng_from r .. rng_till r}
     \<and> {rng_from r .. rng_till r} \<subseteq> {sl_from s .. sl_till s}"
proof -
  let ?i = "slices_lower ss (rng_from r)" and ?j = "slices_upper ss (rng_till r)"
  define A where "A = take ?i ss"
  define B where "B = drop ?i (take ?j ss)"
  define C where "C = drop ?j ss"
  have ij: "?i \<le> ?j" by (rule slices_lower_le_upper [OF ok range])
  have split: "ss = A @ B @ C"
  proof -
    have "take ?i ss = take ?i (take ?j ss)" using ij by (simp add: min_absorb1)
    then have "A @ B = take ?j ss" unfolding A_def B_def by (metis append_take_drop_id)
    then show ?thesis unfolding C_def by (metis append.assoc append_take_drop_id)
  qed
  have Aok: "\<forall>a \<in> set A. sl_till a < rng_from r"
    unfolding A_def slices_cut_lower(1) [OF ok] by auto
  have Cok: "\<forall>c \<in> set C. rng_till r < sl_from c"
    unfolding C_def slices_cut_upper(2) [OF ok] by auto
  have "set B \<subseteq> set (drop ?i ss)" "set B \<subseteq> set (take ?j ss)"
    unfolding B_def by (simp add: drop_take set_take_subset) (rule set_drop_subset)
  then have Bok: "\<forall>b \<in> set B. rng_from r \<le> sl_till b \<and> sl_from b \<le> rng_till r"
    by (auto simp: slices_cut_lower(2) [OF ok] slices_cut_upper(1) [OF ok])
  have okABC: "slices_ok A" "slices_ok C" "\<forall>b \<in> set B. slice_ok b"
    "\<forall>a \<in> set A. \<forall>c \<in> set C. sl_till a < sl_from c"
    "\<forall>a \<in> set A. \<forall>b \<in> set B. sl_till a < sl_from b"
    "\<forall>b \<in> set B. \<forall>c \<in> set C. sl_till b < sl_from c"
    using ok unfolding split by (auto simp: slices_ok_append) (auto simp: slices_ok_def)
  show ?thesis
  proof (cases "?i < ?j")
    case True
    then have "B \<noteq> []" using slices_upper_le [of ss "rng_till r"] by (auto simp: B_def)
    then obtain b bs where B: "B = b # bs" by (cases B) auto
    have len: "length A = ?i" unfolding A_def using slices_lower_le [of ss] by simp
    have b: "ss ! ?i = b" using split B len by (metis append_Cons nth_append_length)
    have bs: "drop (Suc ?i) (take ?j ss) = bs" using B unfolding B_def
      by (metis drop_Suc list.sel(3) tl_drop)
    have bok: "slice_ok b" using okABC(3) B by simp
    obtain s0 where s0: "slice_merge unite b ms r = Some s0"
      using merge_defined [of r b ms] Bok B by auto
    note m = merge_ok [OF s0 bok range inside]
    have s0r: "sl_from s0 \<le> rng_from r" "rng_till r \<le> sl_till s0"
      using m(3) range by (auto simp: set_eq_iff)
    obtain s where s: "slice_merge_all unite s0 bs = Some s" "slice_ok s"
       "set (sl_messages s) = set (sl_messages s0) \<union> slices_ids bs"
       "{sl_from s .. sl_till s} = {sl_from s0 .. sl_till s0} \<union> slices_known bs"
      using merge_all_ok [OF m(1) _ range s0r, of bs] okABC(3) Bok B by auto
    have cover: "{sl_from s .. sl_till s} = {rng_from r .. rng_till r} \<union> slices_known B"
      using s(4) m(3) B by auto
    have ends: "sl_from s \<in> {rng_from r .. rng_till r} \<union> slices_known B"
      "sl_till s \<in> {rng_from r .. rng_till r} \<union> slices_known B"
      using s(2) unfolding cover [symmetric] by (auto simp: slice_ok_def)
    have left: "\<forall>a \<in> set A. sl_till a < sl_from s"
      using ends(1) Aok okABC(5) by (fastforce simp: slices_known_def)
    have right: "\<forall>c \<in> set C. sl_till s < sl_from c"
      using ends(2) Cok okABC(6) by (fastforce simp: slices_known_def)
    have res: "slices_add unite ss ms r
        = Some (A @ s # C, s, int (length (sl_messages s)) - int (length (sl_messages b)))"
      using True by (simp add: slices_add_def unite_and_add_def Let_def b bs s0 s A_def C_def)
    have "slices_ok (A @ s # C)"
      using okABC left right s(2) by (auto simp: slices_ok_append slices_ok_Cons)
    moreover have "slices_ids (A @ s # C) = slices_ids ss \<union> set ms"
      unfolding split B using s(3) m(2) by auto
    moreover have "slices_known (A @ s # C) = slices_known ss \<union> {rng_from r .. rng_till r}"
      unfolding split using cover by auto
    ultimately show ?thesis using res cover by auto
  next
    case False
    with ij have "?i = ?j" by simp
    then have B: "B = []" by (simp add: B_def)
    let ?s = "\<lparr> sl_messages = flat_merge [] ms, sl_range = r \<rparr>"
    have emp: "slices_emplace ?s (A @ C) = (A @ ?s # C, ?s)"
      using ok split B range Aok Cok by (intro slices_emplace_between) auto
    have sok: "slice_ok ?s"
      using range inside by (intro slice_okI) auto
    have "slices_ok (A @ ?s # C)"
      using okABC Aok Cok sok by (auto simp: slices_ok_append slices_ok_Cons)
    moreover have "slices_add unite ss ms r
        = Some (A @ ?s # C, ?s, int (length (flat_merge [] ms)))"
      using False emp split B by (simp add: slices_add_def)
    ultimately show ?thesis unfolding split B by auto
  qed
qed

end

section \<open>Removing a key\<close>

definition slices_remove_at :: "'k::linorder slice list \<Rightarrow> nat \<Rightarrow> 'k \<Rightarrow> 'k slice list" where
  "slices_remove_at ss i k = ss[i := (ss ! i)\<lparr> sl_messages := flat_remove k (sl_messages (ss ! i)) \<rparr>]"

definition slices_remove :: "'k::linorder slice list \<Rightarrow> 'k \<Rightarrow> 'k slice list" where
  "slices_remove ss k = (case slices_find ss k of Some i \<Rightarrow> slices_remove_at ss i k | None \<Rightarrow> ss)"

lemma slices_ok_update:
  assumes "slices_ok ss" and "i < length ss" and "slice_ok s"
    and "sl_from (ss ! i) \<le> sl_from s" and "sl_till s \<le> sl_till (ss ! i)"
  shows "slices_ok (ss[i := s])"
proof -
  define A where "A = take i ss"
  define C where "C = drop (Suc i) ss"
  have ss: "ss = A @ ss ! i # C" using assms(2) by (simp add: A_def C_def id_take_nth_drop)
  have upd: "ss[i := s] = A @ s # C" using assms(2) by (simp add: A_def C_def upd_conv_take_nth_drop)
  have "slices_ok (A @ ss ! i # C)" using assms(1) ss by simp
  then show ?thesis unfolding upd using assms(3-5)
    by (auto simp: slices_ok_append slices_ok_Cons intro: order_less_le_trans order_le_less_trans)
qed

lemma slices_ids_update:
  assumes "i < length ss"
  shows "slices_ids (ss[i := s]) = set (sl_messages s) \<union> slices_ids (take i ss @ drop (Suc i) ss)"
  using assms by (simp add: upd_conv_take_nth_drop Un_left_commute)

lemma slices_known_update_same_range:
  assumes "sl_range s = sl_range (ss ! i)"
  shows "slices_known (ss[i := s]) = slices_known ss"
proof (cases "i < length ss")
  case True
  have "slices_known ss = slices_known (take i ss @ ss ! i # drop (Suc i) ss)"
    using True by (metis id_take_nth_drop)
  then show ?thesis using True assms by (simp add: upd_conv_take_nth_drop)
next
  case False
  then show ?thesis by (simp add: list_update_beyond)
qed

text \<open>A key is in no slice but the one whose range holds it.\<close>

lemma slices_key_unique:
  assumes "slices_ok ss" and "i < length ss" and "sl_from (ss ! i) \<le> k" and "k \<le> sl_till (ss ! i)"
  shows "k \<notin> slices_ids (take i ss @ drop (Suc i) ss)"
proof
  assume "k \<in> slices_ids (take i ss @ drop (Suc i) ss)"
  then obtain t where t: "t \<in> set (take i ss) \<union> set (drop (Suc i) ss)" "k \<in> set (sl_messages t)"
    by (auto simp: slices_ids_def)
  have "slices_ok (take i ss @ ss ! i # drop (Suc i) ss)"
    using assms(1,2) by (simp flip: id_take_nth_drop)
  then have "slice_ok t" and "sl_till t < sl_from (ss ! i) \<or> sl_till (ss ! i) < sl_from t"
    using t(1) by (auto simp: slices_ok_append slices_ok_Cons) (auto simp: slices_ok_def)
  with t(2) assms(3,4) show False by (auto simp: slice_ok_def)
qed

lemma slices_remove_refines:
  assumes "slices_ok ss"
  shows "slices_ok (slices_remove ss k)"
    and "slices_ids (slices_remove ss k) = slices_ids ss - {k}"
    and "slices_known (slices_remove ss k) = slices_known ss"
proof -
  show "slices_ok (slices_remove ss k)"
  proof (cases "slices_find ss k")
    case None
    with assms show ?thesis by (simp add: slices_remove_def)
  next
    case (Some i)
    then have "i < length ss" by (rule slices_findD(1) [OF assms])
    moreover from this have "slice_ok (ss ! i)" using assms by (simp add: slices_ok_def)
    ultimately show ?thesis using Some assms
      by (auto simp: slices_remove_def slices_remove_at_def slice_ok_def intro!: slices_ok_update)
  qed
  show "slices_ids (slices_remove ss k) = slices_ids ss - {k}"
  proof (cases "slices_find ss k")
    case None
    then have "k \<notin> slices_ids ss"
      using slices_find_None [OF assms None] slices_ids_known [OF assms] by blast
    with None show ?thesis by (simp add: slices_remove_def)
  next
    case (Some i)
    note i = slices_findD [OF assms Some]
    have "flat_ok (sl_messages (ss ! i))" using assms i(1) by (simp add: slices_ok_def slice_ok_def)
    moreover have "k \<notin> slices_ids (take i ss @ drop (Suc i) ss)"
      by (rule slices_key_unique [OF assms i])
    moreover have "slices_ids ss = set (sl_messages (ss ! i)) \<union> slices_ids (take i ss @ drop (Suc i) ss)"
      using slices_ids_update [OF i(1), of "ss ! i"] by simp
    ultimately show ?thesis using i(1) Some
      by (auto simp: slices_remove_def slices_remove_at_def slices_ids_update simp del: slices_ids_simps)
  qed
  show "slices_known (slices_remove ss k) = slices_known ss"
    by (simp add: slices_remove_def slices_remove_at_def slices_known_update_same_range
        split: option.split)
qed

section \<open>Forgetting what is above the last key\<close>

definition slices_invalidate_bottom :: "'k::linorder \<Rightarrow> 'k slice list \<Rightarrow> 'k slice list" where
  "slices_invalidate_bottom hi ss =
     (if ss \<noteq> [] \<and> sl_till (last ss) = hi
      then butlast ss @
        [(last ss)\<lparr> sl_range := \<lparr> rng_from = sl_from (last ss),
           rng_till = (if sl_messages (last ss) = [] then sl_from (last ss)
                       else last (sl_messages (last ss))) \<rparr> \<rparr>]
      else ss)"

lemma slices_invalidate_bottom_refines:
  assumes "slices_ok ss"
  shows "slices_ok (slices_invalidate_bottom hi ss)"
    and "slices_ids (slices_invalidate_bottom hi ss) = slices_ids ss"
    and "slices_known (slices_invalidate_bottom hi ss) \<subseteq> slices_known ss"
proof (atomize (full), cases "ss = []")
  case True
  with assms show "slices_ok (slices_invalidate_bottom hi ss)
    \<and> slices_ids (slices_invalidate_bottom hi ss) = slices_ids ss
    \<and> slices_known (slices_invalidate_bottom hi ss) \<subseteq> slices_known ss"
    by (simp add: slices_invalidate_bottom_def)
next
  case False
  then obtain ts s where ss: "ss = ts @ [s]" by (metis rev_exhaust)
  let ?t = "if sl_messages s = [] then sl_from s else last (sl_messages s)"
  have s: "slice_ok s" using assms ss by (simp add: slices_ok_append slices_ok_def)
  then have t: "sl_from s \<le> ?t" "?t \<le> sl_till s"
    by (auto simp: slice_ok_def)
  have le: "m \<le> ?t" if "m \<in> set (sl_messages s)" for m
  proof -
    from s have "sorted (sl_messages s)" by (simp add: slice_ok_def flat_ok_sorted_distinct)
    with that show ?thesis
      by (auto simp: in_set_conv_nth last_conv_nth intro!: sorted_nth_mono)
  qed
  have "slice_ok (s\<lparr> sl_range := \<lparr> rng_from = sl_from s, rng_till = ?t \<rparr> \<rparr>)"
    using s t le by (intro slice_okI) (auto simp: slice_ok_def)
  then show "slices_ok (slices_invalidate_bottom hi ss)
    \<and> slices_ids (slices_invalidate_bottom hi ss) = slices_ids ss
    \<and> slices_known (slices_invalidate_bottom hi ss) \<subseteq> slices_known ss"
    using assms ss t by (auto simp: slices_invalidate_bottom_def slices_ok_append slices_ok_Cons)
qed

section \<open>Forgetting the keys below a key\<close>

text \<open>
  The loop of \<open>removeLessThan\<close>: slices that end at or before the key are dropped whole; the
  first slice that holds the key loses what is below it and starts at the lowest key; the rest is
  untouched.  The second component counts the removed ids.
\<close>

fun slices_remove_less_than :: "'k::linorder \<Rightarrow> 'k \<Rightarrow> 'k slice list \<Rightarrow> 'k slice list \<times> nat" where
  "slices_remove_less_than lo k [] = ([], 0)"
| "slices_remove_less_than lo k (s # ss) =
     (if sl_till s \<le> k then
        (let (ss', n) = slices_remove_less_than lo k ss
         in (ss', length (sl_messages s) + n))
      else if sl_from s \<le> k then
        (s\<lparr> sl_messages := drop (flat_lower (sl_messages s) k) (sl_messages s),
            sl_range := (sl_range s)\<lparr> rng_from := lo \<rparr> \<rparr> # ss,
         flat_lower (sl_messages s) k)
      else (s # ss, 0))"

lemma slices_remove_less_than_refines:
  assumes "slices_ok ss" and "\<forall>s \<in> set ss. lo \<le> sl_from s"
    and "slices_remove_less_than lo k ss = (ss', n)"
  shows "slices_ok ss' \<and> (\<forall>s \<in> set ss'. lo \<le> sl_from s) \<and> slices_ids ss' \<subseteq> slices_ids ss
    \<and> slices_ids ss' \<subseteq> {k..} \<and> {m \<in> slices_ids ss. k < m} \<subseteq> slices_ids ss'
    \<and> (\<forall>s' \<in> set ss'. \<exists>s \<in> set ss. sl_till s' = sl_till s)"
  using assms
proof (induction ss arbitrary: ss' n)
  case Nil
  then show ?case by simp
next
  case (Cons s ss)
  have s: "slice_ok s" "slices_ok ss" "\<forall>b \<in> set ss. sl_till s < sl_from b"
    using Cons.prems(1) by (auto simp: slices_ok_Cons)
  have above: "sl_till s < m" if "m \<in> slices_ids ss" for m
    using that s by (fastforce simp: slices_ids_def slices_ok_def slice_ok_def)
  show ?case
  proof (cases "sl_till s \<le> k")
    case True
    obtain ts m where ts: "slices_remove_less_than lo k ss = (ts, m)" by fastforce
    with True Cons.prems(3) have "ss' = ts" by simp
    moreover have "m \<le> k" if "m \<in> set (sl_messages s)" for m
      using that True s(1) by (auto simp: slice_ok_def)
    ultimately show ?thesis
      using Cons.IH [OF s(2) _ ts] Cons.prems(2) by (fastforce simp flip: not_le)
  next
    case above_k: False
    show ?thesis
    proof (cases "sl_from s \<le> k")
      case True
      let ?t = "s\<lparr> sl_messages := drop (flat_lower (sl_messages s) k) (sl_messages s),
            sl_range := (sl_range s)\<lparr> rng_from := lo \<rparr> \<rparr>"
      have ss': "ss' = ?t # ss" using above_k True Cons.prems(3) by auto
      have flat: "flat_ok (sl_messages s)" using s(1) by (simp add: slice_ok_def)
      have lo: "lo \<le> sl_from s" using Cons.prems(2) by simp
      have "slice_ok ?t"
        using s(1) lo by (auto simp: slice_ok_def drop_flat_lower [OF flat] intro: sorted_wrt_filter)
      then have "slices_ok ss'" using s ss' by (simp add: slices_ok_Cons)
      then show ?thesis
        using ss' Cons.prems(2) above above_k
        by (auto simp: drop_flat_lower [OF flat] not_le intro: less_imp_le less_trans)
    next
      case False
      then have "k < m" if "m \<in> set (sl_messages s)" for m
        using that s(1) by (auto simp: slice_ok_def not_le intro: order_less_le_trans)
      moreover have "ss' = s # ss" using above_k False Cons.prems(3) by auto
      ultimately show ?thesis
        using above_k Cons.prems(1,2) above by (auto simp: not_le intro: less_imp_le less_trans)
    qed
  qed
qed

lemma slices_ids_card:
  assumes "slices_ok ss"
  shows "card (slices_ids ss) = (\<Sum>s \<leftarrow> ss. length (sl_messages s))"
  using assms
proof (induction ss)
  case Nil
  then show ?case by simp
next
  case (Cons s ss)
  have s: "slice_ok s" "slices_ok ss" "\<forall>b \<in> set ss. sl_till s < sl_from b"
    using Cons.prems by (auto simp: slices_ok_Cons)
  have "set (sl_messages s) \<inter> slices_ids ss = {}"
    using s by (fastforce simp: slices_ids_def slices_ok_def slice_ok_def)
  moreover have "finite (slices_ids ss)" by (simp add: slices_ids_def)
  moreover have "card (set (sl_messages s)) = length (sl_messages s)"
    using s(1) by (simp add: slice_ok_def flat_ok_sorted_distinct distinct_card)
  ultimately show ?case using Cons.IH s(2) by (simp add: card_Un_disjoint)
qed

lemma slices_remove_less_than_count:
  assumes "slices_ok ss" and "slices_remove_less_than lo k ss = (ss', n)"
  shows "(\<Sum>s \<leftarrow> ss. length (sl_messages s)) = (\<Sum>s \<leftarrow> ss'. length (sl_messages s)) + n"
  using assms
proof (induction ss arbitrary: ss' n)
  case Nil
  then show ?case by simp
next
  case (Cons s ss)
  obtain ts m where ts: "slices_remove_less_than lo k ss = (ts, m)" by fastforce
  have "slices_ok ss" using Cons.prems(1) by (simp add: slices_ok_Cons)
  with Cons.IH [OF _ ts] Cons.prems(2) ts flat_lower_le [of "sl_messages s" k] show ?case
    by (auto split: if_splits)
qed

text \<open>What a change of the list reports to its observers.\<close>

record 'k slice_update =
  up_messages :: "'k list option"
  up_range :: "'k range"
  up_count :: "int option"

section \<open>Answering a query from a slice\<close>

record 'k list_query =
  q_around :: 'k
  q_before :: int
  q_after :: int

record 'k list_result =
  res_count :: "int option"
  res_skipped_before :: "int option"
  res_skipped_after :: "int option"
  res_ids :: "'k list"

definition no_result :: "'k list_result" where
  "no_result = \<lparr> res_count = None, res_skipped_before = None, res_skipped_after = None, res_ids = [] \<rparr>"

text \<open>The ids between two offsets of the position of a key.\<close>

definition ids_window :: "'k::linorder list \<Rightarrow> 'k \<Rightarrow> int \<Rightarrow> int \<Rightarrow> 'k list" where
  "ids_window ids k before equal_or_after =
     (let p = int (flat_lower ids k)
      in take (nat (before + equal_or_after)) (drop (nat (p - before)) ids))"

definition query_from_slice ::
  "'k::linorder \<Rightarrow> 'k \<Rightarrow> int option \<Rightarrow> 'k list_query \<Rightarrow> 'k slice \<Rightarrow> 'k list_result" where
  "query_from_slice lo hi cnt q s =
     (let p = flat_lower (sl_messages s) (q_around q);
          have_before = int p;
          have_after = int (length (sl_messages s)) - int p;
          before = min have_before (q_before q);
          after = min have_after (q_after q + 1);
          ids = ids_window (sl_messages s) (q_around q) before after;
          skipped_before = (if sl_from s = lo then Some (have_before - before) else None);
          skipped_after = (if sl_till s = hi then Some (have_after - after) else None)
      in case cnt of
           None \<Rightarrow> \<lparr> res_count = None, res_skipped_before = skipped_before,
                    res_skipped_after = skipped_after, res_ids = ids \<rparr>
         | Some c \<Rightarrow>
             (case (skipped_before, skipped_after) of
                (None, Some a) \<Rightarrow>
                  \<lparr> res_count = Some c, res_skipped_before = Some (c - a - int (length ids)),
                    res_skipped_after = Some a, res_ids = ids \<rparr>
              | (Some b, None) \<Rightarrow>
                  \<lparr> res_count = Some c, res_skipped_before = Some b,
                    res_skipped_after = Some (c - b - int (length ids)), res_ids = ids \<rparr>
              | (b, a) \<Rightarrow>
                  \<lparr> res_count = Some c, res_skipped_before = b, res_skipped_after = a,
                    res_ids = ids \<rparr>))"

lemma res_ids_query_from_slice:
  "res_ids (query_from_slice lo hi cnt q s) =
     ids_window (sl_messages s) (q_around q)
       (min (int (flat_lower (sl_messages s) (q_around q))) (q_before q))
       (min (int (length (sl_messages s)) - int (flat_lower (sl_messages s) (q_around q))) (q_after q + 1))"
  by (simp add: query_from_slice_def Let_def split: option.splits)

lemma ids_window_eq:
  assumes "flat_ok ids" and "0 \<le> b" and "0 \<le> a"
  shows "ids_window ids k (min (int (flat_lower ids k)) b) (min (int (length ids) - int (flat_lower ids k)) a) =
     drop (flat_lower ids k - nat b) (filter (\<lambda>x. x < k) ids) @ take (nat a) (filter (\<lambda>x. k \<le> x) ids)"
proof -
  let ?p = "flat_lower ids k"
  let ?b = "min ?p (nat b)" and ?a = "min (length ids - ?p) (nat a)"
  have p: "?p \<le> length ids" by (rule flat_lower_le)
  obtain b' a' where ba: "b = int b'" "a = int a'" using assms(2,3) by (metis nat_0_le)
  have n: "nat (min (int ?p) b + min (int (length ids) - int ?p) a) = ?b + ?a"
    unfolding ba by (simp only: of_nat_diff [OF p, symmetric] of_nat_min [symmetric]
        of_nat_add [symmetric] nat_int)
  have d: "nat (int ?p - min (int ?p) b) = ?p - nat b"
    unfolding ba by linarith
  have "?p - nat b - length (take ?p ids) = 0" using p by simp
  then have "drop (?p - nat b) (take ?p ids @ drop ?p ids) = drop (?p - nat b) (take ?p ids) @ drop ?p ids"
    by (simp only: drop_append drop_0)
  then have "take (?b + ?a) (drop (?p - nat b) ids)
      = take (?b + ?a) (drop (?p - nat b) (take ?p ids) @ drop ?p ids)"
    by simp
  also have "\<dots> = drop (?p - nat b) (take ?p ids) @ take ?a (drop ?p ids)"
  proof -
    let ?x = "drop (?p - nat b) (take ?p ids)"
    have len: "length ?x = ?b"
      using p by (simp only: length_drop length_take)
    have "take (?b + ?a) ?x = ?x" by (rule take_all) (simp only: len le_add1)
    moreover have "?b + ?a - length ?x = ?a" by (simp only: len add_diff_cancel_left')
    ultimately show ?thesis by (simp only: take_append)
  qed
  also have "take ?a (drop ?p ids) = take (nat a) (drop ?p ids)"
    by (simp add: min_def)
  finally show ?thesis
    unfolding ids_window_def Let_def n d
    by (simp only: take_flat_lower [OF assms(1)] drop_flat_lower [OF assms(1)])
qed

text \<open>
  The answer of a slice: up to \<open>limitBefore\<close> of the slice's ids below the key (the largest ones)
  and up to \<open>limitAfter + 1\<close> from the key on (the smallest ones), in order.
\<close>

lemma query_from_slice_window:
  assumes "slice_ok s" and "0 \<le> q_before q" and "0 \<le> q_after q"
  shows "res_ids (query_from_slice lo hi cnt q s) =
     drop (length (filter (\<lambda>x. x < q_around q) (sl_messages s)) - nat (q_before q))
       (filter (\<lambda>x. x < q_around q) (sl_messages s))
     @ take (nat (q_after q + 1)) (filter (\<lambda>x. q_around q \<le> x) (sl_messages s))"
proof -
  have flat: "flat_ok (sl_messages s)" using assms(1) by (simp add: slice_ok_def)
  show ?thesis
    using ids_window_eq [OF flat assms(2), of "q_after q + 1" "q_around q"] assms(3)
    by (simp add: res_ids_query_from_slice flat_lower_filter [OF flat])
qed

lemma query_from_slice_counts:
  assumes "slice_ok s" and "0 \<le> q_before q" and "0 \<le> q_after q"
    and "sl_from s = lo" and "sl_till s = hi"
  shows "\<exists>b a. res_skipped_before (query_from_slice lo hi cnt q s) = Some b
     \<and> res_skipped_after (query_from_slice lo hi cnt q s) = Some a \<and> 0 \<le> b \<and> 0 \<le> a
     \<and> b + int (length (res_ids (query_from_slice lo hi cnt q s))) + a = int (length (sl_messages s))"
proof -
  let ?p = "flat_lower (sl_messages s) (q_around q)"
  have flat: "flat_ok (sl_messages s)" using assms(1) by (simp add: slice_ok_def)
  have p: "?p \<le> length (sl_messages s)" by (rule flat_lower_le)
  obtain b' a' where ba: "q_before q = int b'" "q_after q = int a'" using assms(2,3) by (metis nat_0_le)
  have len: "int (length (res_ids (query_from_slice lo hi cnt q s))) =
      min (int ?p) (q_before q) + min (int (length (sl_messages s)) - int ?p) (q_after q + 1)"
  proof -
    have le: "min ?p b' + min (length (sl_messages s) - ?p) (Suc a') \<le> length (sl_messages s) - (?p - b')"
      using p by (cases "?p \<le> b'") auto
    have "int ?p - min (int ?p) (int b') = int (?p - b')" by simp
    moreover have "nat (min (int ?p) (int b') + min (int (length (sl_messages s)) - int ?p) (int a' + 1))
        = min ?p b' + min (length (sl_messages s) - ?p) (Suc a')"
    proof -
      have "int a' + 1 = int (Suc a')" by simp
      then show ?thesis
        using p by (simp only: of_nat_diff [OF p, symmetric] of_nat_min [symmetric] of_nat_add [symmetric] nat_int)
    qed
    ultimately show ?thesis
      unfolding ba res_ids_query_from_slice ids_window_def Let_def
      using p le by (simp add: min_absorb2 of_nat_min of_nat_diff add.commute)
  qed
  let ?b = "int ?p - min (int ?p) (q_before q)"
  let ?a = "int (length (sl_messages s)) - int ?p
    - min (int (length (sl_messages s)) - int ?p) (q_after q + 1)"
  have "res_skipped_before (query_from_slice lo hi cnt q s) = Some ?b"
    "res_skipped_after (query_from_slice lo hi cnt q s) = Some ?a"
    by (simp_all add: query_from_slice_def Let_def assms(4,5) split: option.split)
  moreover have "0 \<le> ?b" "0 \<le> ?a" by simp_all
  ultimately show ?thesis using len by auto
qed

lemma res_ids_query_subset:
  assumes "slice_ok s" and "0 \<le> q_before q" and "0 \<le> q_after q"
  shows "set (res_ids (query_from_slice lo hi cnt q s)) \<subseteq> set (sl_messages s)"
    and "flat_ok (res_ids (query_from_slice lo hi cnt q s))"
proof -
  show "set (res_ids (query_from_slice lo hi cnt q s)) \<subseteq> set (sl_messages s)"
    unfolding res_ids_query_from_slice ids_window_def Let_def
    by (rule order_trans [OF set_take_subset set_drop_subset])
  show "flat_ok (res_ids (query_from_slice lo hi cnt q s))"
    using assms(1) by (simp add: res_ids_query_from_slice ids_window_def Let_def slice_ok_def)
qed

end
