(* ===== verification/Message_Position.thy ===== *)
theory Message_Position
  imports Prelude
begin

text \<open>
  Message identifiers and positions (\<open>data/data_msg_id.h\<close>, \<open>data/data_messages.h\<close>).  A
  \<open>MsgId\<close> wraps a signed 64-bit integer that is only compared and shifted by constants far
  from its limits, and is an \<open>int\<close> here; a \<open>PeerId\<close> is an unsigned 64-bit value.  The
  defaulted three-way comparisons of the structs compare member by member.
\<close>

type_synonym msg_id = int
type_synonym peer_id = "64 word"
type_synonym time_id = int

definition server_max_msg_id :: msg_id where
  "server_max_msg_id = 2 ^ 56"

definition scheduled_max_msg_id :: msg_id where
  "scheduled_max_msg_id = server_max_msg_id + 2 ^ 32"

definition is_server_msg_id :: "msg_id \<Rightarrow> bool" where
  "is_server_msg_id i \<longleftrightarrow> i > 0 \<and> i < server_max_msg_id"

datatype full_msg_id = FullMsgId (fid_peer: peer_id) (fid_msg: msg_id)

definition full_msg_id_bool :: "full_msg_id \<Rightarrow> bool" where
  "full_msg_id_bool f \<longleftrightarrow> fid_msg f \<noteq> 0"

instantiation full_msg_id :: linorder
begin

definition less_full_msg_id :: "full_msg_id \<Rightarrow> full_msg_id \<Rightarrow> bool" where
  "less_full_msg_id a b \<longleftrightarrow> fid_peer a < fid_peer b \<or> (fid_peer a = fid_peer b \<and> fid_msg a < fid_msg b)"

definition less_eq_full_msg_id :: "full_msg_id \<Rightarrow> full_msg_id \<Rightarrow> bool" where
  "less_eq_full_msg_id a b \<longleftrightarrow> a < b \<or> a = (b::full_msg_id)"

instance
  by standard (auto simp: less_full_msg_id_def less_eq_full_msg_id_def intro: full_msg_id.expand)

end

text \<open>\<open>MessagePosition\<close>: the date decides first, then the full id.\<close>

datatype message_position =
  MessagePosition (pos_full_id: full_msg_id) (pos_date: time_id)

definition message_position_bool :: "message_position \<Rightarrow> bool" where
  "message_position_bool p \<longleftrightarrow> fid_msg (pos_full_id p) \<noteq> 0"

definition message_position_before :: "message_position \<Rightarrow> message_position \<Rightarrow> bool" where
  "message_position_before a b \<longleftrightarrow>
     (if pos_date a < pos_date b then True
      else if pos_date b < pos_date a then False
      else pos_full_id a < pos_full_id b)"

instantiation message_position :: linorder
begin

definition less_message_position :: "message_position \<Rightarrow> message_position \<Rightarrow> bool" where
  "less_message_position = message_position_before"

definition less_eq_message_position :: "message_position \<Rightarrow> message_position \<Rightarrow> bool" where
  "less_eq_message_position a b \<longleftrightarrow> \<not> b < (a::message_position)"

instance
proof
  fix x y z :: message_position
  show "(x < y) = (x \<le> y \<and> \<not> y \<le> x)"
    by (auto simp: less_message_position_def message_position_before_def less_eq_message_position_def)
  show "x \<le> x" by (simp add: less_message_position_def message_position_before_def less_eq_message_position_def)
  show "x \<le> y \<Longrightarrow> y \<le> z \<Longrightarrow> x \<le> z"
    by (auto simp: less_message_position_def message_position_before_def less_eq_message_position_def not_less split: if_splits)
  show "x \<le> y \<Longrightarrow> y \<le> x \<Longrightarrow> x = y"
    by (rule message_position.expand)
       (auto simp: less_message_position_def message_position_before_def less_eq_message_position_def not_less split: if_splits)
  show "x \<le> y \<or> y \<le> x"
    by (auto simp: less_message_position_def message_position_before_def less_eq_message_position_def)
qed

end

definition max_date :: time_id where
  "max_date = 2 ^ 31 - 1"

definition min_message_position :: message_position where
  "min_message_position = MessagePosition (FullMsgId 0 1) 0"

definition max_message_position :: message_position where
  "max_message_position = MessagePosition (FullMsgId 0 (server_max_msg_id - 1)) max_date"

lemma min_le_max_message_position: "min_message_position \<le> max_message_position"
  by (simp add: min_message_position_def max_message_position_def less_eq_message_position_def
      less_message_position_def message_position_before_def max_date_def)

text \<open>\<open>Data::LoadDirection\<close>.\<close>

datatype load_direction = Around | Before | After

end
