(* ===== verification/Messages_List.thy ===== *)
theory Messages_List
  imports Slices Message_Position
begin

text \<open>
  \<open>Data::MessagesList\<close> (\<open>data/data_messages.cpp\<close>): the history of a thread as slices of
  message positions.  One definition per method; a method whose \<open>Expects\<close> can fail returns
  \<open>None\<close> there; the update a method fires is returned next to the new state.  The lemmas show
  that no method leaves the well-formed states, that the methods compute the expected sets of ids
  and of covered positions, and that a query is answered from the right slice.
\<close>

type_synonym messages_range = "message_position range"
type_synonym messages_slice = "message_position slice"
type_synonym messages_query = "message_position list_query"
type_synonym messages_result = "message_position list_result"
type_synonym messages_slice_update = "message_position slice_update"

definition full_messages_range :: messages_range where
  "full_messages_range = \<lparr> rng_from = min_message_position, rng_till = max_message_position \<rparr>"

record messages_list =
  ml_count :: "int option"
  ml_slices :: "messages_slice list"

definition messages_list_empty :: messages_list where
  "messages_list_empty = \<lparr> ml_count = None, ml_slices = [] \<rparr>"

section \<open>The methods\<close>

definition messages_add_range_items ::
  "messages_slice list \<Rightarrow> message_position list \<Rightarrow> messages_range
     \<Rightarrow> (messages_slice list \<times> messages_slice \<times> int) option" where
  "messages_add_range_items ss ms r =
     (if rng_from r \<le> rng_till r then slices_add flat_merge ss ms r else None)"

definition messages_add_range ::
  "message_position list \<Rightarrow> messages_range \<Rightarrow> int option \<Rightarrow> bool \<Rightarrow> messages_list
     \<Rightarrow> (messages_list \<times> messages_slice_update) option" where
  "messages_add_range ms r cnt increment l =
     (if cnt \<noteq> None \<and> increment then None
      else do {
        (ss, s, added) \<leftarrow> messages_add_range_items (ml_slices l) ms r;
        let count1 = (if cnt \<noteq> None then cnt
                      else if increment \<and> added > 0 then opt_add added (ml_count l)
                      else ml_count l);
        let count2 = (if length ss = 1 \<and> sl_range (hd ss) = full_messages_range
                      then Some (int (length (sl_messages (hd ss)))) else count1);
        Some (\<lparr> ml_count = count2, ml_slices = ss \<rparr>,
              \<lparr> up_messages = Some (sl_messages s), up_range = sl_range s, up_count = count2 \<rparr>)
      })"

definition messages_add_one ::
  "message_position \<Rightarrow> messages_list \<Rightarrow> (messages_list \<times> messages_slice_update) option" where
  "messages_add_one p l = messages_add_range [p] \<lparr> rng_from = p, rng_till = p \<rparr> None True l"

definition messages_add_new ::
  "message_position \<Rightarrow> messages_list \<Rightarrow> (messages_list \<times> messages_slice_update) option" where
  "messages_add_new p l =
     messages_add_range [p] \<lparr> rng_from = p, rng_till = max_message_position \<rparr> None True l"

definition messages_add_slice ::
  "message_position list \<Rightarrow> messages_range \<Rightarrow> int option \<Rightarrow> messages_list
     \<Rightarrow> (messages_list \<times> messages_slice_update) option" where
  "messages_add_slice ps r cnt l = messages_add_range ps r cnt False l"

definition messages_remove_one ::
  "message_position \<Rightarrow> messages_list \<Rightarrow> messages_list \<times> messages_slice_update option" where
  "messages_remove_one p l =
     (let count' = opt_add (- 1) (ml_count l)
      in case slices_find (ml_slices l) p of
           Some i \<Rightarrow>
             (let ss = slices_remove_at (ml_slices l) i p
              in (\<lparr> ml_count = count', ml_slices = ss \<rparr>,
                  Some \<lparr> up_messages = Some (sl_messages (ss ! i)), up_range = sl_range (ss ! i),
                         up_count = count' \<rparr>))
         | None \<Rightarrow> (l\<lparr> ml_count := count' \<rparr>, None))"

definition messages_remove_less_than :: "message_position \<Rightarrow> messages_list \<Rightarrow> messages_list" where
  "messages_remove_less_than p l =
     (let (ss, removed) = slices_remove_less_than min_message_position p (ml_slices l)
      in \<lparr> ml_count = (if removed \<noteq> 0 then opt_add (- int removed) (ml_count l) else ml_count l),
           ml_slices = ss \<rparr>)"

definition messages_invalidate :: "messages_list \<Rightarrow> messages_list" where
  "messages_invalidate l = \<lparr> ml_count = None, ml_slices = [] \<rparr>"

definition messages_invalidate_bottom :: "messages_list \<Rightarrow> messages_list" where
  "messages_invalidate_bottom l =
     \<lparr> ml_count = None, ml_slices = slices_invalidate_bottom max_message_position (ml_slices l) \<rparr>"

definition messages_query_from_slice ::
  "messages_list \<Rightarrow> messages_query \<Rightarrow> messages_slice \<Rightarrow> messages_result" where
  "messages_query_from_slice l q s =
     query_from_slice min_message_position max_message_position (ml_count l) q s"

definition messages_query_current :: "messages_list \<Rightarrow> messages_query \<Rightarrow> messages_result" where
  "messages_query_current l q =
     (if \<not> message_position_bool (q_around q) then no_result
      else case slices_find (ml_slices l) (q_around q) of
             Some i \<Rightarrow> messages_query_from_slice l q (ml_slices l ! i)
           | None \<Rightarrow> no_result)"

text \<open>What \<open>query\<close> delivers (nothing when there is neither a count nor an id) and what
  \<open>viewer\<close> delivers over the states of the list after each of its updates.\<close>

definition messages_query_deliver :: "messages_list \<Rightarrow> messages_query \<Rightarrow> messages_result option" where
  "messages_query_deliver l q =
     (let r = messages_query_current l q
      in if res_count r \<noteq> None \<or> res_ids r \<noteq> [] then Some r else None)"

definition messages_viewer :: "messages_list list \<Rightarrow> messages_query \<Rightarrow> messages_result list" where
  "messages_viewer states q =
     filter (\<lambda>r. res_count r \<noteq> None \<or> res_ids r \<noteq> []) (map (\<lambda>l. messages_query_current l q) states)"

definition messages_empty :: "messages_list \<Rightarrow> bool" where
  "messages_empty l = list_all (\<lambda>s. sl_messages s = []) (ml_slices l)"

section \<open>The contract of the slices\<close>

interpretation messages_slices: slice_container "flat_merge :: message_position list \<Rightarrow> _"
  by unfold_locales auto

section \<open>Invariant and abstract view\<close>

abbreviation ml_ids :: "messages_list \<Rightarrow> message_position set" where
  "ml_ids l \<equiv> slices_ids (ml_slices l)"

abbreviation ml_known :: "messages_list \<Rightarrow> message_position set" where
  "ml_known l \<equiv> slices_known (ml_slices l)"

definition messages_list_ok :: "messages_list \<Rightarrow> bool" where
  "messages_list_ok l \<longleftrightarrow> slices_ok (ml_slices l)
     \<and> ml_known l \<subseteq> {min_message_position .. max_message_position}"

lemma messages_list_ok_empty [simp]: "messages_list_ok messages_list_empty"
  by (simp add: messages_list_ok_def messages_list_empty_def)

lemma messages_list_ok_from:
  "messages_list_ok l \<Longrightarrow> s \<in> set (ml_slices l) \<Longrightarrow> min_message_position \<le> sl_from s"
  by (fastforce simp: messages_list_ok_def slices_known_def slices_ok_def slice_ok_def subset_iff)

lemma slices_known_full:
  assumes "slices_ok ss" and "slices_known ss = {lo .. hi}" and "lo \<le> hi" and "length ss = 1"
  shows "sl_range (hd ss) = \<lparr> rng_from = lo, rng_till = hi \<rparr>"
proof -
  obtain s where ss: "ss = [s]" using assms(4) by (auto simp: length_Suc_conv)
  then have "{sl_from s .. sl_till s} = {lo .. hi}" using assms(2) by simp
  moreover have "sl_from s \<le> sl_till s" using assms(1) ss by (simp add: slices_ok_Cons slice_ok_def)
  ultimately have "sl_from s = lo" "sl_till s = hi"
    using assms(3) by (metis Icc_eq_Icc)+
  then show ?thesis using ss by simp
qed

lemma messages_add_range_refines:
  assumes "messages_list_ok l" and "rng_from r \<le> rng_till r" and "cnt = None \<or> \<not> increment"
    and "min_message_position \<le> rng_from r" and "rng_till r \<le> max_message_position"
    and "\<forall>m \<in> set ms. rng_from r \<le> m \<and> m \<le> rng_till r"
  shows "\<exists>l' u. messages_add_range ms r cnt increment l = Some (l', u) \<and> messages_list_ok l'
     \<and> ml_ids l' = ml_ids l \<union> set ms \<and> ml_known l' = ml_known l \<union> {rng_from r .. rng_till r}
     \<and> up_count u = ml_count l'"
proof -
  obtain ss s n where add: "slices_add flat_merge (ml_slices l) ms r = Some (ss, s, n)"
    and ss: "slices_ok ss" "slices_ids ss = ml_ids l \<union> set ms"
      "slices_known ss = ml_known l \<union> {rng_from r .. rng_till r}"
    using messages_slices.add_refines [of "ml_slices l" r ms] assms(1,2,6)
    by (auto simp: messages_list_ok_def)
  show ?thesis
    using assms add ss
    by (auto simp: messages_add_range_def messages_add_range_items_def messages_list_ok_def Let_def)
qed

lemma messages_remove_one_slices:
  "ml_slices (fst (messages_remove_one p l)) = slices_remove (ml_slices l) p"
  by (simp add: messages_remove_one_def slices_remove_def Let_def split: option.split)

lemma messages_list_ok_remove_one:
  "messages_list_ok l \<Longrightarrow> messages_list_ok (fst (messages_remove_one p l))"
  by (simp add: messages_list_ok_def messages_remove_one_slices slices_remove_refines)

lemma slices_known_less_than:
  assumes "slices_ok ss'" and "\<forall>s \<in> set ss'. lo \<le> sl_from s"
    and "\<forall>s' \<in> set ss'. \<exists>s \<in> set ss. sl_till s' = sl_till s"
    and "slices_ok ss" and "slices_known ss \<subseteq> {lo .. hi}"
  shows "slices_known ss' \<subseteq> {lo .. hi}"
proof
  fix x assume "x \<in> slices_known ss'"
  then obtain s' where s': "s' \<in> set ss'" "sl_from s' \<le> x" "x \<le> sl_till s'"
    by (auto simp: slices_known_def)
  then obtain s where s: "s \<in> set ss" "sl_till s' = sl_till s" using assms(3) by blast
  then have "sl_till s \<in> slices_known ss"
    using assms(4) by (auto simp: slices_known_def slices_ok_def slice_ok_def)
  then show "x \<in> {lo .. hi}" using assms(2,5) s s' by fastforce
qed

lemma messages_remove_less_than_refines:
  assumes "messages_list_ok l"
  shows "messages_list_ok (messages_remove_less_than p l)"
    and "ml_ids (messages_remove_less_than p l) \<subseteq> {m \<in> ml_ids l. p \<le> m}"
    and "{m \<in> ml_ids l. p < m} \<subseteq> ml_ids (messages_remove_less_than p l)"
    and "ml_count (messages_remove_less_than p l) =
      opt_add (int (card (ml_ids (messages_remove_less_than p l))) - int (card (ml_ids l))) (ml_count l)"
proof -
  obtain ss n where r: "slices_remove_less_than min_message_position p (ml_slices l) = (ss, n)"
    by fastforce
  have ok: "slices_ok (ml_slices l)" and ge: "\<forall>s \<in> set (ml_slices l). min_message_position \<le> sl_from s"
    using assms messages_list_ok_from by (auto simp: messages_list_ok_def)
  note ref = slices_remove_less_than_refines [OF ok ge r]
  have sl: "ml_slices (messages_remove_less_than p l) = ss"
    using r by (simp add: messages_remove_less_than_def)
  show "messages_list_ok (messages_remove_less_than p l)"
    using ref assms ok slices_known_less_than [of ss min_message_position "ml_slices l" max_message_position]
    by (auto simp: messages_list_ok_def sl)
  show "ml_ids (messages_remove_less_than p l) \<subseteq> {m \<in> ml_ids l. p \<le> m}"
    and "{m \<in> ml_ids l. p < m} \<subseteq> ml_ids (messages_remove_less_than p l)"
    using ref by (auto simp: sl)
  have "card (ml_ids l) = card (slices_ids ss) + n"
    using slices_remove_less_than_count [OF ok r] slices_ids_card ok ref by metis
  then show "ml_count (messages_remove_less_than p l) =
      opt_add (int (card (ml_ids (messages_remove_less_than p l))) - int (card (ml_ids l))) (ml_count l)"
    using r sl by (cases "ml_count l") (auto simp: messages_remove_less_than_def)
qed

lemma messages_invalidate_bottom_refines:
  assumes "messages_list_ok l"
  shows "messages_list_ok (messages_invalidate_bottom l)"
    and "ml_ids (messages_invalidate_bottom l) = ml_ids l"
    and "ml_known (messages_invalidate_bottom l) \<subseteq> ml_known l"
  using assms slices_invalidate_bottom_refines [of "ml_slices l" max_message_position]
  by (auto simp: messages_list_ok_def messages_invalidate_bottom_def)


section \<open>Runs against the history of the thread\<close>

text \<open>
  The calls a thread makes, each with what it means for the history \<open>T\<close> that the list caches:
  a new or edited-in message extends it, a loaded slice states exactly which messages a range
  holds, a removal shrinks it, an invalidation says nothing.
\<close>

datatype messages_op =
    AddNew message_position
  | AddOne message_position
  | AddSlice "message_position list" messages_range "int option"
  | RemoveOne message_position
  | RemoveLessThan message_position
  | Invalidate
  | InvalidateBottom

fun messages_apply :: "messages_op \<Rightarrow> messages_list \<Rightarrow> messages_list option" where
  "messages_apply (AddNew p) l = map_option fst (messages_add_new p l)"
| "messages_apply (AddOne p) l = map_option fst (messages_add_one p l)"
| "messages_apply (AddSlice ps r c) l = map_option fst (messages_add_slice ps r c l)"
| "messages_apply (RemoveOne p) l = Some (fst (messages_remove_one p l))"
| "messages_apply (RemoveLessThan p) l = Some (messages_remove_less_than p l)"
| "messages_apply Invalidate l = Some (messages_invalidate l)"
| "messages_apply InvalidateBottom l = Some (messages_invalidate_bottom l)"

abbreviation in_bounds :: "message_position \<Rightarrow> bool" where
  "in_bounds p \<equiv> min_message_position \<le> p \<and> p \<le> max_message_position"

fun history_faithful :: "messages_op \<Rightarrow> message_position set \<Rightarrow> bool" where
  "history_faithful (AddNew p) T \<longleftrightarrow> in_bounds p \<and> (\<forall>m \<in> T. m \<le> p)"
| "history_faithful (AddOne p) T \<longleftrightarrow> in_bounds p"
| "history_faithful (AddSlice ps r c) T \<longleftrightarrow>
     in_bounds (rng_from r) \<and> in_bounds (rng_till r) \<and> rng_from r \<le> rng_till r
     \<and> set ps = {m \<in> T. rng_from r \<le> m \<and> m \<le> rng_till r}"
| "history_faithful _ T \<longleftrightarrow> True"

fun history_after :: "messages_op \<Rightarrow> message_position set \<Rightarrow> message_position set" where
  "history_after (AddNew p) T = insert p T"
| "history_after (AddOne p) T = insert p T"
| "history_after (RemoveOne p) T = T - {p}"
| "history_after (RemoveLessThan p) T = {m \<in> T. p \<le> m}"
| "history_after _ T = T"

inductive messages_reach :: "message_position set \<Rightarrow> messages_list \<Rightarrow> bool" where
  reach_empty: "messages_reach T messages_list_empty"
| reach_apply: "messages_reach T l \<Longrightarrow> history_faithful op T \<Longrightarrow> messages_apply op l = Some l' \<Longrightarrow>
    messages_reach (history_after op T) l'"

text \<open>The cache invariant: within what is known the list holds exactly the history.\<close>

definition messages_covers :: "message_position set \<Rightarrow> messages_list \<Rightarrow> bool" where
  "messages_covers T l \<longleftrightarrow> messages_list_ok l \<and> ml_ids l = T \<inter> ml_known l"

lemma messages_remove_less_than_known:
  assumes "slices_ok ss" and "\<forall>s \<in> set ss. lo \<le> sl_from s"
    and "slices_remove_less_than lo k ss = (ss', n)" and "slices_ids ss = T \<inter> slices_known ss"
  shows "slices_ids ss' = {m \<in> T. k \<le> m} \<inter> slices_known ss'"
  using assms
proof (induction ss arbitrary: ss' n T)
  case Nil
  then show ?case by simp
next
  case (Cons s ss)
  have s: "slice_ok s" "slices_ok ss" "\<forall>b \<in> set ss. sl_till s < sl_from b"
    using Cons.prems(1) by (auto simp: slices_ok_Cons)
  have flat: "flat_ok (sl_messages s)" using s(1) by (simp add: slice_ok_def)
  have apart: "slices_known ss \<inter> {sl_from s .. sl_till s} = {}"
    using s by (fastforce simp: slices_known_def)
  have eqs: "set (sl_messages s) = T \<inter> {sl_from s .. sl_till s}"
    using Cons.prems(4) apart slices_ids_known [OF s(2)] s(1)
    by (auto simp: slice_ok_def set_eq_iff)
  have eqss: "slices_ids ss = T \<inter> slices_known ss"
    using Cons.prems(4) apart slices_ids_known [OF s(2)] s(1)
    by (auto simp: slice_ok_def set_eq_iff)
  have above: "sl_till s < m" if "m \<in> slices_known ss" for m
    using that s by (fastforce simp: slices_known_def)
  show ?case
  proof (cases "sl_till s \<le> k")
    case True
    obtain ts m where ts: "slices_remove_less_than lo k ss = (ts, m)" by fastforce
    with True Cons.prems(3) have "ss' = ts" by simp
    then show ?thesis using Cons.IH [OF s(2) _ ts eqss] Cons.prems(2) by simp
  next
    case above_k: False
    have rest: "slices_ids ss = {m \<in> T. k \<le> m} \<inter> slices_known ss"
      using eqss above above_k by fastforce
    show ?thesis
    proof (cases "sl_from s \<le> k")
      case True
      then have ss': "ss' = s\<lparr> sl_messages := drop (flat_lower (sl_messages s) k) (sl_messages s),
            sl_range := (sl_range s)\<lparr> rng_from := lo \<rparr> \<rparr> # ss"
        using above_k Cons.prems(3) by auto
      have "lo \<le> k" using Cons.prems(2) True by (auto intro: order_trans)
      then have "{m \<in> set (sl_messages s). k \<le> m} = {m \<in> T. k \<le> m} \<inter> {lo .. sl_till s}"
        unfolding eqs using True by auto
      then show ?thesis using rest by (auto simp: ss' drop_flat_lower [OF flat])
    next
      case False
      then have "ss' = s # ss" using above_k Cons.prems(3) by auto
      moreover have "set (sl_messages s) = {m \<in> T. k \<le> m} \<inter> {sl_from s .. sl_till s}"
        unfolding eqs using False by auto
      ultimately show ?thesis using rest by auto
    qed
  qed
qed

lemma messages_covers_empty [simp]: "messages_covers T messages_list_empty"
  by (simp add: messages_covers_def) (simp add: messages_list_empty_def)

lemma messages_covers_add_range:
  assumes "messages_covers T l" and "rng_from r \<le> rng_till r" and "cnt = None \<or> \<not> increment"
    and "min_message_position \<le> rng_from r" and "rng_till r \<le> max_message_position"
    and ms: "set ms = T' \<inter> {rng_from r .. rng_till r}" and T: "T' = T \<union> set ms"
  shows "\<exists>l' u. messages_add_range ms r cnt increment l = Some (l', u) \<and> messages_covers T' l'"
proof -
  have l: "messages_list_ok l" and eq: "ml_ids l = T \<inter> ml_known l"
    using assms(1) by (simp_all add: messages_covers_def)
  have "\<forall>m \<in> set ms. rng_from r \<le> m \<and> m \<le> rng_till r" using ms by simp
  then obtain l' u where l': "messages_add_range ms r cnt increment l = Some (l', u)"
     "messages_list_ok l'" "ml_ids l' = ml_ids l \<union> set ms"
     "ml_known l' = ml_known l \<union> {rng_from r .. rng_till r}"
    using messages_add_range_refines [OF l assms(2-5)] by blast
  have "ml_ids l' = T' \<inter> ml_known l'"
    unfolding l'(3,4) eq using ms T by blast
  with l' show ?thesis by (auto simp: messages_covers_def)
qed

lemma messages_covers_add_new:
  assumes "messages_covers T l" and p: "min_message_position \<le> p" "p \<le> max_message_position"
    and "\<forall>m \<in> T. m \<le> p"
  shows "\<exists>l'. messages_apply (AddNew p) l = Some l' \<and> messages_covers (insert p T) l'"
proof -
  have s: "set [p] = insert p T \<inter> {p .. max_message_position}" using p(2) assms(4) by fastforce
  have "\<exists>l' u. messages_add_range [p] \<lparr> rng_from = p, rng_till = max_message_position \<rparr> None True l
      = Some (l', u) \<and> messages_covers (insert p T) l'"
    using p s by (intro messages_covers_add_range [OF assms(1)]) (simp_all only: range.simps, simp_all)
  then obtain l' u where "messages_add_new p l = Some (l', u)" "messages_covers (insert p T) l'"
    unfolding messages_add_new_def by blast
  then show ?thesis by simp
qed

lemma messages_covers_add_one:
  assumes "messages_covers T l" and p: "min_message_position \<le> p" "p \<le> max_message_position"
  shows "\<exists>l'. messages_apply (AddOne p) l = Some l' \<and> messages_covers (insert p T) l'"
proof -
  have "\<exists>l' u. messages_add_range [p] \<lparr> rng_from = p, rng_till = p \<rparr> None True l
      = Some (l', u) \<and> messages_covers (insert p T) l'"
    using p by (intro messages_covers_add_range [OF assms(1)]) simp_all
  then obtain l' u where "messages_add_one p l = Some (l', u)" "messages_covers (insert p T) l'"
    unfolding messages_add_one_def by blast
  then show ?thesis by simp
qed

lemma messages_covers_add_slice:
  assumes "messages_covers T l" and "history_faithful (AddSlice ps r c) T"
  shows "\<exists>l'. messages_apply (AddSlice ps r c) l = Some l' \<and> messages_covers T l'"
proof -
  have r: "rng_from r \<le> rng_till r" "min_message_position \<le> rng_from r"
    "rng_till r \<le> max_message_position" and ps: "set ps = T \<inter> {rng_from r .. rng_till r}"
    using assms(2) by (simp_all only: history_faithful.simps) (simp add: set_eq_iff)
  have T: "T = T \<union> set ps" using ps by blast
  have "c = None \<or> \<not> False" by simp
  from messages_covers_add_range [OF assms(1) r(1) this r(2,3) ps T]
  obtain l' u where "messages_add_slice ps r c l = Some (l', u)" "messages_covers T l'"
    by (auto simp only: messages_add_slice_def)
  then show ?thesis by simp
qed

lemma messages_covers_remove_one:
  assumes "messages_covers T l"
  shows "messages_covers (T - {p}) (fst (messages_remove_one p l))"
proof -
  have ok: "slices_ok (ml_slices l)" and eq: "ml_ids l = T \<inter> ml_known l"
    using assms by (auto simp: messages_covers_def messages_list_ok_def)
  show ?thesis
    using assms eq slices_remove_refines [OF ok, of p]
    by (auto simp: messages_covers_def messages_list_ok_remove_one messages_remove_one_slices)
qed

lemma messages_covers_remove_less_than:
  assumes "messages_covers T l"
  shows "messages_covers {m \<in> T. p \<le> m} (messages_remove_less_than p l)"
proof -
  obtain ss n where r: "slices_remove_less_than min_message_position p (ml_slices l) = (ss, n)"
    by fastforce
  have l: "messages_list_ok l" "ml_ids l = T \<inter> ml_known l"
    using assms by (simp_all add: messages_covers_def)
  have "\<forall>s \<in> set (ml_slices l). min_message_position \<le> sl_from s"
    using messages_list_ok_from [OF l(1)] by blast
  then have "slices_ids ss = {m \<in> T. p \<le> m} \<inter> slices_known ss"
    using messages_remove_less_than_known [OF _ _ r l(2)] l(1) by (simp add: messages_list_ok_def)
  moreover have "ml_slices (messages_remove_less_than p l) = ss"
    using r by (simp add: messages_remove_less_than_def)
  ultimately show ?thesis
    using messages_remove_less_than_refines(1) [OF l(1)] by (simp add: messages_covers_def)
qed

lemma messages_covers_invalidate_bottom:
  assumes "messages_covers T l"
  shows "messages_covers T (messages_invalidate_bottom l)"
proof -
  have l: "messages_list_ok l" "ml_ids l = T \<inter> ml_known l"
    using assms by (simp_all add: messages_covers_def)
  note inv = messages_invalidate_bottom_refines [OF l(1)]
  have "ml_ids (messages_invalidate_bottom l) \<subseteq> ml_known (messages_invalidate_bottom l)"
    using inv(1) by (intro slices_ids_known) (simp add: messages_list_ok_def)
  then have "ml_ids (messages_invalidate_bottom l) = T \<inter> ml_known (messages_invalidate_bottom l)"
    using inv(2,3) l(2) by blast
  with inv(1) show ?thesis by (simp add: messages_covers_def)
qed

lemma messages_covers_apply:
  assumes "messages_covers T l" and "history_faithful op T"
  shows "\<exists>l'. messages_apply op l = Some l' \<and> messages_covers (history_after op T) l'"
proof (cases op)
  case (AddNew p)
  then show ?thesis using assms messages_covers_add_new [of T l p] by simp
next
  case (AddOne p)
  then show ?thesis using assms messages_covers_add_one [of T l p] by simp
next
  case (AddSlice ps r c)
  then show ?thesis using assms messages_covers_add_slice [of T l ps r c] by simp
next
  case Invalidate
  then show ?thesis
    using messages_covers_empty [of T] by (simp add: messages_invalidate_def messages_list_empty_def)
qed (use assms messages_covers_remove_one messages_covers_remove_less_than
       messages_covers_invalidate_bottom in simp_all)

lemma messages_reach_covers: "messages_reach T l \<Longrightarrow> messages_covers T l"
proof (induction rule: messages_reach.induct)
  case (reach_empty T)
  then show ?case by simp
next
  case (reach_apply T l op l')
  then show ?case using messages_covers_apply [of T l op] by auto
qed

text \<open>An answer comes from one slice, and a slice has no gaps.\<close>

lemma query_from_slice_convex:
  assumes "slice_ok s" and "0 \<le> q_before q" and "0 \<le> q_after q"
    and "a \<in> set (res_ids (query_from_slice lo hi cnt q s))"
    and "b \<in> set (res_ids (query_from_slice lo hi cnt q s))"
    and "m \<in> set (sl_messages s)" and "a \<le> m" and "m \<le> b"
  shows "m \<in> set (res_ids (query_from_slice lo hi cnt q s))"
proof -
  let ?ids = "sl_messages s"
  obtain i n where w: "res_ids (query_from_slice lo hi cnt q s) = take n (drop i ?ids)"
    by (simp add: res_ids_query_from_slice ids_window_def Let_def)
  have srt: "sorted ?ids" "distinct ?ids" using assms(1) by (simp_all add: slice_ok_def flat_ok_sorted_distinct)
  have pos: "x \<in> set (take n (drop i ?ids)) \<longleftrightarrow> (\<exists>k. i \<le> k \<and> k < i + n \<and> k < length ?ids \<and> x = ?ids ! k)" for x
  proof
    assume "x \<in> set (take n (drop i ?ids))"
    then obtain j where "j < length (take n (drop i ?ids))" "x = take n (drop i ?ids) ! j"
      by (metis in_set_conv_nth)
    then show "\<exists>k. i \<le> k \<and> k < i + n \<and> k < length ?ids \<and> x = ?ids ! k"
      by (intro exI [of _ "i + j"]) auto
  next
    assume "\<exists>k. i \<le> k \<and> k < i + n \<and> k < length ?ids \<and> x = ?ids ! k"
    then obtain k where k: "i \<le> k" "k < i + n" "k < length ?ids" "x = ?ids ! k" by blast
    then have "take n (drop i ?ids) ! (k - i) = x" "k - i < length (take n (drop i ?ids))" by auto
    then show "x \<in> set (take n (drop i ?ids))" by (metis nth_mem)
  qed
  obtain ka kb where k: "i \<le> ka" "a = ?ids ! ka" "kb < i + n" "kb < length ?ids" "b = ?ids ! kb"
    "ka < length ?ids" using assms(4,5) unfolding w pos by blast
  obtain km where km: "km < length ?ids" "m = ?ids ! km" using assms(6) by (metis in_set_conv_nth)
  have mono: "x \<le> y" if "?ids ! x \<le> ?ids ! y" "x < length ?ids" "y < length ?ids" for x y
  proof (rule ccontr)
    assume "\<not> x \<le> y"
    then have "?ids ! y \<le> ?ids ! x" using srt(1) that by (intro sorted_nth_mono) auto
    then have "x = y" using that srt(2) by (simp add: nth_eq_iff_index_eq)
    with \<open>\<not> x \<le> y\<close> show False by simp
  qed
  have "ka \<le> km" "km \<le> kb" using mono k km assms(7,8) by auto
  then show ?thesis unfolding w pos using k km by (intro exI [of _ km]) auto
qed

lemma messages_query_no_gaps_covers:
  assumes "messages_covers T l" and "0 \<le> q_before q" and "0 \<le> q_after q"
    and "r = messages_query_current l q"
  shows "set (res_ids r) \<subseteq> T"
    and "a \<in> set (res_ids r) \<Longrightarrow> b \<in> set (res_ids r) \<Longrightarrow> m \<in> T \<Longrightarrow> a \<le> m \<Longrightarrow> m \<le> b \<Longrightarrow>
      m \<in> set (res_ids r)"
proof -
  have ok: "slices_ok (ml_slices l)" and eq: "ml_ids l = T \<inter> ml_known l"
    using assms(1) by (auto simp: messages_covers_def messages_list_ok_def)
  have "res_ids r = [] \<or> (\<exists>s \<in> set (ml_slices l). r = messages_query_from_slice l q s)"
    using assms(4) slices_findD(1) [OF ok, of "q_around q"]
    by (auto simp: messages_query_current_def no_result_def split: option.splits)
  then consider "res_ids r = []" | s where "s \<in> set (ml_slices l)" "r = messages_query_from_slice l q s"
    by blast
  then show "set (res_ids r) \<subseteq> T"
    and "a \<in> set (res_ids r) \<Longrightarrow> b \<in> set (res_ids r) \<Longrightarrow> m \<in> T \<Longrightarrow> a \<le> m \<Longrightarrow> m \<le> b \<Longrightarrow>
      m \<in> set (res_ids r)"
  proof (atomize (full), cases)
    case 1
    then show "set (res_ids r) \<subseteq> T \<and> (a \<in> set (res_ids r) \<longrightarrow> b \<in> set (res_ids r) \<longrightarrow> m \<in> T \<longrightarrow>
      a \<le> m \<longrightarrow> m \<le> b \<longrightarrow> m \<in> set (res_ids r))" by simp
  next
    case (2 s)
    have s: "slice_ok s" using ok 2(1) by (simp add: slices_ok_def)
    have r: "r = query_from_slice min_message_position max_message_position (ml_count l) q s"
      using 2(2) by (simp add: messages_query_from_slice_def)
    have sub: "set (res_ids r) \<subseteq> set (sl_messages s)"
      unfolding r by (rule res_ids_query_subset(1) [OF s assms(2,3)])
    have sT: "set (sl_messages s) \<subseteq> T" using 2(1) eq by (auto simp: slices_ids_def)
    have "m \<in> set (res_ids r)" if "a \<in> set (res_ids r)" "b \<in> set (res_ids r)" "m \<in> T" "a \<le> m" "m \<le> b"
    proof -
      have ab: "sl_from s \<le> a" "b \<le> sl_till s" using that(1,2) sub s by (auto simp: slice_ok_def)
      then have "m \<in> ml_ids l"
        using that 2(1) eq order_trans [OF ab(1) that(4)] order_trans [OF that(5) ab(2)]
        by (auto simp: slices_known_def)
      then obtain t where t: "t \<in> set (ml_slices l)" "m \<in> set (sl_messages t)"
        by (auto simp: slices_ids_def)
      have "m \<in> set (sl_messages s)"
      proof -
        obtain i where i: "i < length (ml_slices l)" "ml_slices l ! i = s"
          using 2(1) by (metis in_set_conv_nth)
        have "m \<in> set (sl_messages s) \<union> slices_ids (take i (ml_slices l) @ drop (Suc i) (ml_slices l))"
          using \<open>m \<in> ml_ids l\<close> slices_ids_update [OF i(1), of s] i(2) by (metis list_update_id)
        then show ?thesis
          using slices_key_unique [OF ok i(1), of m] i(2) order_trans [OF ab(1) that(4)]
            order_trans [OF that(5) ab(2)] by auto
      qed
      then show ?thesis using query_from_slice_convex [OF s assms(2,3)] that unfolding r by blast
    qed
    then show "set (res_ids r) \<subseteq> T \<and> (a \<in> set (res_ids r) \<longrightarrow> b \<in> set (res_ids r) \<longrightarrow> m \<in> T \<longrightarrow>
      a \<le> m \<longrightarrow> m \<le> b \<longrightarrow> m \<in> set (res_ids r))" using sub sT by blast
  qed
qed

section \<open>Properties\<close>

text \<open>C1.  Whatever sequence of calls a thread makes, as long as each call says the truth about
  the history, the list stays a set of disjoint, ordered slices and holds, inside the ranges it
  claims to know, exactly the messages of the history: nothing missing, nothing stale.\<close>

theorem messages_list_tracks_history:
  assumes "messages_reach T l"
  shows "messages_list_ok l \<and> ml_ids l = T \<inter> ml_known l"
  using messages_reach_covers [OF assms] by (simp add: messages_covers_def)

definition wpos :: "int \<Rightarrow> message_position" where
  "wpos n = MessagePosition (FullMsgId 7 n) n"

lemmas position_less_simps = less_eq_message_position_def less_message_position_def message_position_before_def
  less_full_msg_id_def wpos_def min_message_position_def max_message_position_def
  server_max_msg_id_def max_date_def

lemma messages_reach_example:
  "messages_reach {wpos 3, wpos 5} \<lparr> ml_count = None,
     ml_slices = [\<lparr> sl_messages = [wpos 3, wpos 5],
                    sl_range = \<lparr> rng_from = wpos 2, rng_till = wpos 6 \<rparr> \<rparr>] \<rparr>"
proof -
  have "messages_reach (history_after (AddSlice [wpos 3, wpos 5] \<lparr> rng_from = wpos 2, rng_till = wpos 6 \<rparr> None)
      {wpos 3, wpos 5}) \<lparr> ml_count = None,
     ml_slices = [\<lparr> sl_messages = [wpos 3, wpos 5],
                    sl_range = \<lparr> rng_from = wpos 2, rng_till = wpos 6 \<rparr> \<rparr>] \<rparr>"
    by (rule messages_reach.reach_apply [OF messages_reach.reach_empty])
       (auto simp: position_less_simps messages_list_empty_def messages_add_slice_def messages_add_range_def
         messages_add_range_items_def slices_add_def slices_lower_def slices_upper_def slices_emplace_def
         flat_merge_def full_messages_range_def Let_def)
  then show ?thesis by simp
qed

lemma messages_list_tracks_history_witness:
  "\<exists>l. messages_list_ok l \<and> ml_ids l = {wpos 3, wpos 5} \<inter> ml_known l \<and> ml_ids l \<noteq> {}"
  using messages_list_tracks_history [OF messages_reach_example]
  by (intro exI [of _ "\<lparr> ml_count = None, ml_slices = [\<lparr> sl_messages = [wpos 3, wpos 5],
     sl_range = \<lparr> rng_from = wpos 2, rng_till = wpos 6 \<rparr> \<rparr>] \<rparr>"]) simp

text \<open>C13.  No call on a reachable list can fail an \<open>Expects\<close>: every truthful call returns,
  and the state it returns is again one that tracks the history the call leaves.\<close>

theorem messages_calls_never_fail:
  assumes "messages_reach T l" and "history_faithful op T"
  shows "\<exists>l'. messages_apply op l = Some l' \<and> messages_reach (history_after op T) l'"
proof -
  obtain l' where "messages_apply op l = Some l'"
    using messages_covers_apply [OF messages_reach_covers [OF assms(1)] assms(2)] by blast
  then show ?thesis using messages_reach.reach_apply [OF assms] by blast
qed

lemma messages_calls_never_fail_witness:
  "\<exists>l'. messages_apply (AddNew (wpos 9)) messages_list_empty = Some l' \<and> messages_reach {wpos 9} l'"
  using messages_calls_never_fail [OF messages_reach.reach_empty [of "{}"], of "AddNew (wpos 9)"]
  by (simp add: position_less_simps)

text \<open>C38.  An answer to a query has no gaps: all its ids are messages of the history, and a message
  of the history that lies between two of them is in the answer too.\<close>

theorem messages_query_no_gaps:
  assumes "messages_reach T l" and "0 \<le> q_before q" and "0 \<le> q_after q"
  shows "set (res_ids (messages_query_current l q)) \<subseteq> T
    \<and> (\<forall>a b m. a \<in> set (res_ids (messages_query_current l q)) \<and> b \<in> set (res_ids (messages_query_current l q))
         \<and> m \<in> T \<and> a \<le> m \<and> m \<le> b \<longrightarrow> m \<in> set (res_ids (messages_query_current l q)))"
  using messages_query_no_gaps_covers [OF messages_reach_covers [OF assms(1)] assms(2,3) refl] by blast

lemma messages_query_no_gaps_witness:
  "wpos 5 \<in> {wpos 3, wpos 5} \<and> set (res_ids (messages_query_current \<lparr> ml_count = None,
     ml_slices = [\<lparr> sl_messages = [wpos 3, wpos 5],
                    sl_range = \<lparr> rng_from = wpos 2, rng_till = wpos 6 \<rparr> \<rparr>] \<rparr>
     \<lparr> q_around = wpos 4, q_before = 1, q_after = 1 \<rparr>)) = {wpos 3, wpos 5}"
proof -
  let ?r = "messages_query_current \<lparr> ml_count = None,
     ml_slices = [\<lparr> sl_messages = [wpos 3, wpos 5],
                    sl_range = \<lparr> rng_from = wpos 2, rng_till = wpos 6 \<rparr> \<rparr>] \<rparr>
     \<lparr> q_around = wpos 4, q_before = 1, q_after = 1 \<rparr>"
  have ids: "res_ids ?r = [wpos 3, wpos 5]"
    by (simp add: messages_query_current_def message_position_bool_def slices_find_def slices_lower_def
        messages_query_from_slice_def res_ids_query_from_slice ids_window_def flat_lower_def position_less_simps)
  have "set (res_ids ?r) \<subseteq> {wpos 3, wpos 5}"
    using messages_query_no_gaps [OF messages_reach_example, of "\<lparr> q_around = wpos 4, q_before = 1, q_after = 1 \<rparr>"]
    by simp
  then show ?thesis unfolding ids by simp
qed

text \<open>When a slice ends at the bound, nothing up to the bound survives.\<close>

lemma slices_remove_less_than_above:
  assumes "slices_ok ss" and "s \<in> set ss" and "sl_till s = k" and "slices_remove_less_than lo k ss = (ss', n)"
  shows "\<forall>t \<in> set ss'. k < sl_from t"
  using assms
proof (induction ss arbitrary: ss' n)
  case (Cons u ss)
  have u: "slices_ok ss" "\<forall>b \<in> set ss. sl_till u < sl_from b" "\<forall>b \<in> set ss. sl_from b \<le> sl_till b"
    using Cons.prems(1) by (auto simp: slices_ok_Cons slices_ok_def slice_ok_def)
  have "sl_till u \<le> k" using Cons.prems(2,3) u by fastforce
  then obtain m where ts: "slices_remove_less_than lo k ss = (ss', m)"
    using Cons.prems(4) by (auto split: prod.splits)
  show ?case
  proof (cases "s \<in> set ss")
    case True
    then show ?thesis by (rule Cons.IH [OF u(1) _ Cons.prems(3) ts])
  next
    case False
    then have "\<forall>b \<in> set ss. k < sl_from b" using Cons.prems(2,3) u(2) by auto
    moreover have "\<forall>b \<in> set ss. \<not> sl_till b \<le> k \<and> \<not> sl_from b \<le> k"
      using calculation u(3) by (auto simp: not_le dest: order.strict_trans2)
    ultimately have "ss' = ss" using ts by (cases ss) auto
    then show ?thesis using \<open>\<forall>b \<in> set ss. k < sl_from b\<close> by simp
  qed
qed simp

text \<open>C39.  \<open>removeLessThan\<close> drops more than its name says when a slice ends exactly at the given
  message: that message itself is forgotten with those before it and, when a total is known, the
  total is decremented for it too.\<close>

theorem messages_remove_less_than_drops_bound:
  assumes "messages_list_ok l" and "s \<in> set (ml_slices l)" and "sl_till s = p" and "p \<in> ml_ids l"
  shows "ml_ids (messages_remove_less_than p l) = {m \<in> ml_ids l. p < m}
    \<and> ml_count (messages_remove_less_than p l) = opt_add (- int (card {m \<in> ml_ids l. m < p}) - 1) (ml_count l)"
proof -
  let ?l = "messages_remove_less_than p l"
  have ok: "slices_ok (ml_slices l)" "slices_ok (ml_slices ?l)"
    using assms(1) messages_remove_less_than_refines(1) [OF assms(1), of p] by (simp_all add: messages_list_ok_def)
  obtain ss n where r: "slices_remove_less_than min_message_position p (ml_slices l) = (ss, n)" by fastforce
  have "ml_slices ?l = ss" using r by (simp add: messages_remove_less_than_def)
  then have "\<forall>m \<in> ml_ids ?l. p < m"
    using slices_remove_less_than_above [OF ok(1) assms(2,3) r] ok(2)
    by (fastforce simp: slices_ids_def slices_ok_def slice_ok_def)
  then have ids: "ml_ids ?l = {m \<in> ml_ids l. p < m}"
    using messages_remove_less_than_refines(2,3) [OF assms(1), of p] by blast
  have fin: "finite (ml_ids l)" by (simp add: slices_ids_def)
  have "ml_ids l = {m \<in> ml_ids l. p < m} \<union> insert p {m \<in> ml_ids l. m < p}" using assms(4) by auto
  then have "card (ml_ids l) = card ({m \<in> ml_ids l. p < m} \<union> insert p {m \<in> ml_ids l. m < p})" by (rule arg_cong)
  also have "\<dots> = card {m \<in> ml_ids l. p < m} + Suc (card {m \<in> ml_ids l. m < p})"
    using fin by (subst card_Un_disjoint) auto
  finally show ?thesis
    using ids messages_remove_less_than_refines(4) [OF assms(1), of p]
    by (cases "ml_count l") (simp_all add: opt_add_def)
qed

lemma messages_remove_less_than_drops_bound_witness:
  "ml_ids (messages_remove_less_than (wpos 2) \<lparr> ml_count = Some 2,
     ml_slices = [\<lparr> sl_messages = [wpos 2], sl_range = \<lparr> rng_from = wpos 1, rng_till = wpos 2 \<rparr> \<rparr>,
                  \<lparr> sl_messages = [wpos 5], sl_range = \<lparr> rng_from = wpos 4, rng_till = wpos 6 \<rparr> \<rparr>] \<rparr>) = {wpos 5}
   \<and> ml_count (messages_remove_less_than (wpos 2) \<lparr> ml_count = Some 2,
     ml_slices = [\<lparr> sl_messages = [wpos 2], sl_range = \<lparr> rng_from = wpos 1, rng_till = wpos 2 \<rparr> \<rparr>,
                  \<lparr> sl_messages = [wpos 5], sl_range = \<lparr> rng_from = wpos 4, rng_till = wpos 6 \<rparr> \<rparr>] \<rparr>) = Some 1"
proof -
  let ?l = "\<lparr> ml_count = Some 2,
     ml_slices = [\<lparr> sl_messages = [wpos 2], sl_range = \<lparr> rng_from = wpos 1, rng_till = wpos 2 \<rparr> \<rparr>,
                  \<lparr> sl_messages = [wpos 5], sl_range = \<lparr> rng_from = wpos 4, rng_till = wpos 6 \<rparr> \<rparr>] \<rparr>"
  have ids: "ml_ids ?l = {wpos 2, wpos 5}" by (auto simp: slices_ids_def)
  have sets: "{m \<in> {wpos 2, wpos 5}. wpos 2 < m} = {wpos 5}" "{m \<in> {wpos 2, wpos 5}. m < wpos 2} = {}"
    by (auto simp: position_less_simps)
  have "messages_list_ok ?l"
    by (simp add: messages_list_ok_def slices_ok_Cons slice_ok_def slices_known_def position_less_simps)
  then show ?thesis
    using messages_remove_less_than_drops_bound [of ?l
      "\<lparr> sl_messages = [wpos 2], sl_range = \<lparr> rng_from = wpos 1, rng_till = wpos 2 \<rparr> \<rparr>" "wpos 2"]
    unfolding ids sets by (simp add: opt_add_def)
qed

end
