(* ===== verification/Slice_Builder.thy ===== *)
theory Slice_Builder
  imports Slices Message_Position
begin

text \<open>
  The builder that turns list results and updates into the slice a viewer shows around a key
  (\<open>MessagesSliceBuilder\<close> in \<open>data/data_messages.cpp\<close>, \<open>SparseIdsSliceBuilder\<close> in
  \<open>data/data_sparse_ids.cpp\<close>).  The two classes repeat one text over two key types; what
  differs between them (the empty key, when a key is set, the ends of the full range, which former
  ends of the ids count as present) is the record \<open>key_kind\<close>.  Requests for more data that an
  operation fires are returned, in their order, next to the new state; a failed \<open>Assert\<close> is
  \<open>None\<close>.
\<close>

record 'k key_kind =
  kk_zero :: 'k
  kk_set :: "'k \<Rightarrow> bool"
  kk_min :: 'k
  kk_max :: 'k
  kk_valid :: "'k \<Rightarrow> bool"

datatype 'k around_data = AroundData (around_id: 'k) (around_direction: load_direction)

record 'k slice_builder =
  sb_key :: 'k
  sb_ids :: "'k list"
  sb_full_count :: "int option"
  sb_skipped_before :: "int option"
  sb_skipped_after :: "int option"
  sb_limit_before :: int
  sb_limit_after :: int

section \<open>Cutting to the limits and asking for more\<close>

definition builder_request :: "load_direction \<Rightarrow> ('k, 'z) slice_builder_scheme \<Rightarrow> 'k around_data" where
  "builder_request direction b =
     (if sb_ids b = [] then AroundData (sb_key b) Around
      else if direction = Before then AroundData (hd (sb_ids b)) Before
      else AroundData (last (sb_ids b)) After)"

definition builder_request_count :: "'k key_kind \<Rightarrow> 'k around_data" where
  "builder_request_count kk = AroundData (kk_zero kk) Around"

definition builder_cut_begin ::
  "int \<Rightarrow> ('k, 'z) slice_builder_scheme \<Rightarrow> ('k, 'z) slice_builder_scheme \<times> 'k around_data list" where
  "builder_cut_begin remove b =
     (if remove > 0 then
        (b\<lparr> sb_ids := drop (nat remove) (sb_ids b),
            sb_skipped_before := opt_add remove (sb_skipped_before b) \<rparr>, [])
      else if remove < 0 \<and> (case sb_skipped_before b of None \<Rightarrow> True | Some n \<Rightarrow> n > 0) then
        (b, [builder_request Before b])
      else (b, []))"

definition builder_cut_end ::
  "int \<Rightarrow> ('k, 'z) slice_builder_scheme \<Rightarrow> ('k, 'z) slice_builder_scheme \<times> 'k around_data list" where
  "builder_cut_end remove b =
     (if remove > 0 then
        (b\<lparr> sb_ids := take (length (sb_ids b) - nat remove) (sb_ids b),
            sb_skipped_after := opt_add remove (sb_skipped_after b) \<rparr>, [])
      else if remove < 0 \<and> (case sb_skipped_after b of None \<Rightarrow> True | Some n \<Rightarrow> n > 0) then
        (b, [builder_request After b])
      else (b, []))"

definition builder_slice_to_limits ::
  "'k::linorder key_kind \<Rightarrow> ('k, 'z) slice_builder_scheme
     \<Rightarrow> ('k, 'z) slice_builder_scheme \<times> 'k around_data list" where
  "builder_slice_to_limits kk b =
     (if \<not> kk_set kk (sb_key b) then
        (b, if sb_full_count b = None then [builder_request_count kk] else [])
      else
        (let p = int (flat_lower (sb_ids b) (sb_key b));
             remove_begin = p - sb_limit_before b;
             remove_end = int (length (sb_ids b)) - p - sb_limit_after b - 1;
             (b1, r1) = builder_cut_begin remove_begin b;
             (b2, r2) = builder_cut_end remove_end b1;
             r = r1 @ r2
         in (b2, if sb_full_count b2 = None \<and> r = [] then [builder_request_count kk] else r)))"

definition builder_fill_skipped :: "('k, 'z) slice_builder_scheme \<Rightarrow> ('k, 'z) slice_builder_scheme" where
  "builder_fill_skipped b =
     (case (sb_full_count b, sb_skipped_before b, sb_skipped_after b) of
        (Some n, Some x, None) \<Rightarrow> b\<lparr> sb_skipped_after := Some (n - x - int (length (sb_ids b))) \<rparr>
      | (Some n, None, Some y) \<Rightarrow> b\<lparr> sb_skipped_before := Some (n - y - int (length (sb_ids b))) \<rparr>
      | _ \<Rightarrow> b)"

definition builder_fill_skipped_and_slice ::
  "'k::linorder key_kind \<Rightarrow> ('k, 'z) slice_builder_scheme
     \<Rightarrow> ('k, 'z) slice_builder_scheme \<times> 'k around_data list" where
  "builder_fill_skipped_and_slice kk b = builder_slice_to_limits kk (builder_fill_skipped b)"

section \<open>Merging data\<close>

text \<open>The position of a key that must be there.\<close>

definition position_of :: "'k \<Rightarrow> 'k list \<Rightarrow> nat option" where
  "position_of k ids = (let p = length (takeWhile (\<lambda>x. x \<noteq> k) ids) in if p < length ids then Some p else None)"

definition adjust_skipped_before :: "'k \<Rightarrow> int \<Rightarrow> ('k, 'z) slice_builder_scheme \<Rightarrow> ('k, 'z) slice_builder_scheme option" where
  "adjust_skipped_before old_id old b =
     map_option (\<lambda>p. b\<lparr> sb_skipped_before := Some (max (old - int p) 0) \<rparr>) (position_of old_id (sb_ids b))"

definition adjust_skipped_after :: "'k \<Rightarrow> int \<Rightarrow> ('k, 'z) slice_builder_scheme \<Rightarrow> ('k, 'z) slice_builder_scheme option" where
  "adjust_skipped_after old_id old b =
     map_option (\<lambda>p. b\<lparr> sb_skipped_after := Some (max (old - (int (length (sb_ids b)) - int p - 1)) 0) \<rparr>)
       (position_of old_id (sb_ids b))"

definition builder_merge_empty ::
  "int option \<Rightarrow> ('k, 'z) slice_builder_scheme \<Rightarrow> ('k, 'z) slice_builder_scheme" where
  "builder_merge_empty cnt b =
     (case cnt of
        None \<Rightarrow> b
      | Some c \<Rightarrow>
          (if sb_full_count b = Some c then b
           else if 0 \<le> c \<and> c \<le> int (length (sb_ids b))
           then b\<lparr> sb_full_count := Some (int (length (sb_ids b))),
                   sb_skipped_before := Some 0, sb_skipped_after := Some 0 \<rparr>
           else b\<lparr> sb_full_count := Some c \<rparr>))"

definition builder_merge_ids ::
  "'k::linorder key_kind \<Rightarrow> int option \<Rightarrow> 'k list \<Rightarrow> int option \<Rightarrow> int option
     \<Rightarrow> ('k, 'z) slice_builder_scheme \<Rightarrow> ('k, 'z) slice_builder_scheme option" where
  "builder_merge_ids kk cnt ids before after b =
     (let b0 = (if cnt \<noteq> None then b\<lparr> sb_full_count := cnt \<rparr> else b);
          has_was = (sb_ids b \<noteq> []);
          was_min = hd (sb_ids b);
          was_max = last (sb_ids b);
          b1 = b0\<lparr> sb_ids := flat_merge (sb_ids b) ids \<rparr>
      in do {
        b2 \<leftarrow> (case (before, sb_skipped_before b1) of
                (Some n, _) \<Rightarrow> adjust_skipped_before (hd ids) n b1
              | (None, Some n) \<Rightarrow>
                  (if has_was \<and> kk_valid kk was_min then adjust_skipped_before was_min n b1
                   else Some (b1\<lparr> sb_skipped_before := None \<rparr>))
              | (None, None) \<Rightarrow> Some (b1\<lparr> sb_skipped_before := None \<rparr>));
        case (after, sb_skipped_after b2) of
                (Some n, _) \<Rightarrow> adjust_skipped_after (last ids) n b2
              | (None, Some n) \<Rightarrow>
                  (if has_was \<and> kk_valid kk was_max then adjust_skipped_after was_max n b2
                   else Some (b2\<lparr> sb_skipped_after := None \<rparr>))
              | (None, None) \<Rightarrow> Some (b2\<lparr> sb_skipped_after := None \<rparr>)
      })"

definition builder_merge_slice_data ::
  "'k::linorder key_kind \<Rightarrow> int option \<Rightarrow> 'k list \<Rightarrow> int option \<Rightarrow> int option
     \<Rightarrow> ('k, 'z) slice_builder_scheme \<Rightarrow> (('k, 'z) slice_builder_scheme \<times> 'k around_data list) option" where
  "builder_merge_slice_data kk cnt ids before after b =
     (if ids = [] then Some (builder_fill_skipped_and_slice kk (builder_merge_empty cnt b))
      else map_option (builder_fill_skipped_and_slice kk) (builder_merge_ids kk cnt ids before after b))"

section \<open>The handlers\<close>

definition builder_apply_initial ::
  "'k::linorder key_kind \<Rightarrow> 'k list_result \<Rightarrow> ('k, 'z) slice_builder_scheme
     \<Rightarrow> (('k, 'z) slice_builder_scheme \<times> 'k around_data list) option" where
  "builder_apply_initial kk r b =
     builder_merge_slice_data kk (res_count r) (res_ids r) (res_skipped_before r) (res_skipped_after r) b"

text \<open>The result is also whether there is anything new to show.\<close>

definition builder_apply_update ::
  "'k::linorder key_kind \<Rightarrow> 'k slice_update \<Rightarrow> ('k, 'z) slice_builder_scheme
     \<Rightarrow> (bool \<times> ('k, 'z) slice_builder_scheme \<times> 'k around_data list) option" where
  "builder_apply_update kk u b =
     (let lo = (if sb_ids b = [] then sb_key b else hd (sb_ids b));
          hi = (if sb_ids b = [] then sb_key b else last (sb_ids b));
          need = (up_messages u \<noteq> None \<and> rng_from (up_range u) \<le> hi \<and> lo \<le> rng_till (up_range u));
          before = (if rng_from (up_range u) = kk_min kk then Some 0 else None);
          after = (if rng_till (up_range u) = kk_max kk then Some 0 else None);
          ids = (case up_messages u of Some ms \<Rightarrow> if need then ms else [] | None \<Rightarrow> [])
      in if \<not> need \<and> up_count u = None then Some (False, b, [])
         else map_option (\<lambda>(b', r). (True, b', r))
           (builder_merge_slice_data kk (up_count u) ids before after b))"

definition builder_remove_one ::
  "'k::linorder \<Rightarrow> ('k, 'z) slice_builder_scheme \<Rightarrow> bool \<times> ('k, 'z) slice_builder_scheme" where
  "builder_remove_one i b =
     (let (changed, b1) = (case sb_full_count b of
              Some n \<Rightarrow> if n > 0 then (True, b\<lparr> sb_full_count := Some (n - 1) \<rparr>) else (False, b)
            | None \<Rightarrow> (False, b))
      in if i \<in> set (sb_ids b1) then (True, b1\<lparr> sb_ids := flat_remove i (sb_ids b1) \<rparr>)
         else if sb_ids b1 \<noteq> [] then
           (if hd (sb_ids b1) > i \<and> (case sb_skipped_before b1 of Some n \<Rightarrow> n > 0 | None \<Rightarrow> False)
            then (True, b1\<lparr> sb_skipped_before := opt_add (- 1) (sb_skipped_before b1) \<rparr>)
            else if last (sb_ids b1) < i \<and> (case sb_skipped_after b1 of Some n \<Rightarrow> n > 0 | None \<Rightarrow> False)
            then (True, b1\<lparr> sb_skipped_after := opt_add (- 1) (sb_skipped_after b1) \<rparr>)
            else (changed, b1))
         else (changed, b1))"

definition builder_remove_all :: "('k, 'z) slice_builder_scheme \<Rightarrow> ('k, 'z) slice_builder_scheme" where
  "builder_remove_all b =
     b\<lparr> sb_ids := [], sb_full_count := Some 0, sb_skipped_before := Some 0, sb_skipped_after := Some 0 \<rparr>"

definition builder_bottom_invalidated ::
  "'k::linorder key_kind \<Rightarrow> ('k, 'z) slice_builder_scheme
     \<Rightarrow> ('k, 'z) slice_builder_scheme \<times> 'k around_data list" where
  "builder_bottom_invalidated kk b =
     builder_slice_to_limits kk (b\<lparr> sb_full_count := None, sb_skipped_after := None \<rparr>)"

section \<open>What the numbers of a builder mean\<close>

text \<open>
  Against the set \<open>T\<close> of all ids: the builder's ids are a block of \<open>T\<close> without gaps, and each
  known number counts what it names: all of \<open>T\<close>, what lies before the block, what lies after.
\<close>

definition builder_exact :: "'k::linorder set \<Rightarrow> ('k, 'z) slice_builder_scheme \<Rightarrow> bool" where
  "builder_exact T b \<longleftrightarrow> flat_ok (sb_ids b) \<and>
     (\<exists>A C. T = A \<union> set (sb_ids b) \<union> C
        \<and> (\<forall>a \<in> A. \<forall>x \<in> set (sb_ids b) \<union> C. a < x) \<and> (\<forall>x \<in> set (sb_ids b). \<forall>c \<in> C. x < c)
        \<and> (\<forall>n. sb_skipped_before b = Some n \<longrightarrow> n = int (card A))
        \<and> (\<forall>n. sb_skipped_after b = Some n \<longrightarrow> n = int (card C)))
     \<and> (\<forall>n. sb_full_count b = Some n \<longrightarrow> n = int (card T))"

lemma builder_exactI:
  assumes "flat_ok (sb_ids b)" and "T = A \<union> set (sb_ids b) \<union> C"
    and "\<And>a x. a \<in> A \<Longrightarrow> x \<in> set (sb_ids b) \<Longrightarrow> a < x" and "\<And>a x. a \<in> A \<Longrightarrow> x \<in> C \<Longrightarrow> a < x"
    and "\<And>x c. x \<in> set (sb_ids b) \<Longrightarrow> c \<in> C \<Longrightarrow> x < c"
    and "\<And>n. sb_skipped_before b = Some n \<Longrightarrow> n = int (card A)"
    and "\<And>n. sb_skipped_after b = Some n \<Longrightarrow> n = int (card C)"
    and "\<And>n. sb_full_count b = Some n \<Longrightarrow> n = int (card T)"
  shows "builder_exact T b"
  unfolding builder_exact_def using assms by (intro conjI exI [of _ A] exI [of _ C]) auto

lemma builder_exactE:
  assumes "builder_exact T b"
  obtains A C where "flat_ok (sb_ids b)" "T = A \<union> set (sb_ids b) \<union> C"
    "\<And>a x. a \<in> A \<Longrightarrow> x \<in> set (sb_ids b) \<Longrightarrow> a < x" "\<And>a x. a \<in> A \<Longrightarrow> x \<in> C \<Longrightarrow> a < x"
    "\<And>x c. x \<in> set (sb_ids b) \<Longrightarrow> c \<in> C \<Longrightarrow> x < c"
    "\<And>n. sb_skipped_before b = Some n \<Longrightarrow> n = int (card A)"
    "\<And>n. sb_skipped_after b = Some n \<Longrightarrow> n = int (card C)"
    "\<And>n. sb_full_count b = Some n \<Longrightarrow> n = int (card T)"
proof -
  from assms obtain A C where *: "T = A \<union> set (sb_ids b) \<union> C"
    "\<forall>a \<in> A. \<forall>x \<in> set (sb_ids b) \<union> C. a < x" "\<forall>x \<in> set (sb_ids b). \<forall>c \<in> C. x < c"
    "\<forall>n. sb_skipped_before b = Some n \<longrightarrow> n = int (card A)"
    "\<forall>n. sb_skipped_after b = Some n \<longrightarrow> n = int (card C)"
    unfolding builder_exact_def by blast
  show ?thesis
    by (rule that [of A C]) (use assms * in \<open>simp_all add: builder_exact_def\<close>)
qed

text \<open>The three counts of an exact builder add up.\<close>

lemma builder_exact_card:
  assumes "T = A \<union> set ids \<union> C" and "finite T" and "distinct ids"
    and "\<And>a x. a \<in> A \<Longrightarrow> x \<in> set ids \<Longrightarrow> a < (x::'k::linorder)" and "\<And>a x. a \<in> A \<Longrightarrow> x \<in> C \<Longrightarrow> a < x"
    and "\<And>x c. x \<in> set ids \<Longrightarrow> c \<in> C \<Longrightarrow> x < c"
  shows "card T = card A + length ids + card C"
proof -
  have "A \<inter> set ids = {}" "(A \<union> set ids) \<inter> C = {}"
    using assms(4-6) by fastforce+
  then have "card T = card A + card (set ids) + card C"
    using assms(1,2) by (simp add: card_Un_disjoint)
  then show ?thesis using assms(3) by (simp add: distinct_card)
qed

lemma flat_ok_take_drop:
  assumes "flat_ok xs" and "x \<in> set (take k xs)" and "y \<in> set (drop k xs)"
  shows "x < y"
proof -
  have "flat_ok (take k xs @ drop k xs)" using assms(1) by simp
  then show ?thesis using assms(2,3) unfolding sorted_wrt_append by blast
qed

lemma builder_cut_begin_exact:
  assumes "builder_exact T b" and "finite T" and "remove \<le> int (length (sb_ids b))"
  shows "builder_exact T (fst (builder_cut_begin remove b))"
proof (cases "remove > 0")
  case False
  then show ?thesis using assms(1) by (simp add: builder_cut_begin_def)
next
  case True
  obtain A C where e: "flat_ok (sb_ids b)" "T = A \<union> set (sb_ids b) \<union> C"
    "\<And>a x. a \<in> A \<Longrightarrow> x \<in> set (sb_ids b) \<Longrightarrow> a < x" "\<And>a x. a \<in> A \<Longrightarrow> x \<in> C \<Longrightarrow> a < x"
    "\<And>x c. x \<in> set (sb_ids b) \<Longrightarrow> c \<in> C \<Longrightarrow> x < c"
    "\<And>n. sb_skipped_before b = Some n \<Longrightarrow> n = int (card A)"
    "\<And>n. sb_skipped_after b = Some n \<Longrightarrow> n = int (card C)"
    "\<And>n. sb_full_count b = Some n \<Longrightarrow> n = int (card T)"
    by (rule builder_exactE [OF assms(1)], rule that, assumption+)
  let ?k = "nat remove"
  let ?D = "set (take ?k (sb_ids b))"
  have split: "set (sb_ids b) = ?D \<union> set (drop ?k (sb_ids b))"
    by (metis append_take_drop_id set_append)
  have dist: "distinct (take ?k (sb_ids b))" using e(1) by (simp add: flat_ok_sorted_distinct)
  have "card ?D = ?k" using assms(3) distinct_card [OF dist] by simp
  moreover have "A \<inter> ?D = {}" using e(3) split by fastforce
  ultimately have card: "int (card (A \<union> ?D)) = int (card A) + remove"
    using e(2) assms(2) True by (simp add: card_Un_disjoint)
  have sub: "?D \<subseteq> set (sb_ids b)" by (rule set_take_subset)
  have subs: "\<And>x. x \<in> ?D \<Longrightarrow> x \<in> set (sb_ids b)" "\<And>x. x \<in> set (drop ?k (sb_ids b)) \<Longrightarrow> x \<in> set (sb_ids b)"
    by (auto dest: in_set_takeD in_set_dropD)
  let ?b = "fst (builder_cut_begin remove b)"
  have b: "sb_ids ?b = drop ?k (sb_ids b)" "sb_skipped_before ?b = opt_add remove (sb_skipped_before b)"
    "sb_skipped_after ?b = sb_skipped_after b" "sb_full_count ?b = sb_full_count b"
    using True by (simp_all add: builder_cut_begin_def)
  show ?thesis
  proof (rule builder_exactI [where A = "A \<union> ?D" and C = "C"], unfold b)
    show "flat_ok (drop ?k (sb_ids b))" using e(1) by simp
    show "T = A \<union> ?D \<union> set (drop ?k (sb_ids b)) \<union> C" unfolding e(2) split by (simp only: Un_assoc)
    fix a x
    show "a \<in> A \<union> ?D \<Longrightarrow> x \<in> set (drop ?k (sb_ids b)) \<Longrightarrow> a < x"
      using e(3) subs flat_ok_take_drop [OF e(1), of a ?k x] by blast
    show "a \<in> A \<union> ?D \<Longrightarrow> x \<in> C \<Longrightarrow> a < x" using e(3,4,5) subs by blast
    show "a \<in> set (drop ?k (sb_ids b)) \<Longrightarrow> x \<in> C \<Longrightarrow> a < x"
      using e(5) subs flat_ok_take_drop [OF e(1), of a ?k x] by blast
  next
    fix n
    show "opt_add remove (sb_skipped_before b) = Some n \<Longrightarrow> n = int (card (A \<union> ?D))"
      using e(6) card by (auto simp: opt_add_def)
  qed (use e(6-8) in blast)+
qed

lemma builder_cut_end_exact:
  assumes "builder_exact T b" and "finite T" and "remove \<le> int (length (sb_ids b))"
  shows "builder_exact T (fst (builder_cut_end remove b))"
proof (cases "remove > 0")
  case False
  then show ?thesis using assms(1) by (simp add: builder_cut_end_def)
next
  case True
  obtain A C where e: "flat_ok (sb_ids b)" "T = A \<union> set (sb_ids b) \<union> C"
    "\<And>a x. a \<in> A \<Longrightarrow> x \<in> set (sb_ids b) \<Longrightarrow> a < x" "\<And>a x. a \<in> A \<Longrightarrow> x \<in> C \<Longrightarrow> a < x"
    "\<And>x c. x \<in> set (sb_ids b) \<Longrightarrow> c \<in> C \<Longrightarrow> x < c"
    "\<And>n. sb_skipped_before b = Some n \<Longrightarrow> n = int (card A)"
    "\<And>n. sb_skipped_after b = Some n \<Longrightarrow> n = int (card C)"
    "\<And>n. sb_full_count b = Some n \<Longrightarrow> n = int (card T)"
    by (rule builder_exactE [OF assms(1)], rule that, assumption+)
  let ?k = "length (sb_ids b) - nat remove"
  let ?D = "set (drop ?k (sb_ids b))"
  have split: "set (sb_ids b) = set (take ?k (sb_ids b)) \<union> ?D"
    by (metis append_take_drop_id set_append)
  have dist: "distinct (drop ?k (sb_ids b))" using e(1) by (simp add: flat_ok_sorted_distinct)
  have "card ?D = nat remove" using assms(3) True distinct_card [OF dist] by simp
  moreover have "?D \<inter> C = {}" using e(5) split by fastforce
  ultimately have card: "int (card (?D \<union> C)) = int (card C) + remove"
    using e(2) assms(2) True by (simp add: card_Un_disjoint)
  have sub: "?D \<subseteq> set (sb_ids b)" by (rule set_drop_subset)
  have subs: "\<And>x. x \<in> ?D \<Longrightarrow> x \<in> set (sb_ids b)" "\<And>x. x \<in> set (take ?k (sb_ids b)) \<Longrightarrow> x \<in> set (sb_ids b)"
    by (auto dest: in_set_takeD in_set_dropD)
  let ?b = "fst (builder_cut_end remove b)"
  have b: "sb_ids ?b = take ?k (sb_ids b)" "sb_skipped_after ?b = opt_add remove (sb_skipped_after b)"
    "sb_skipped_before ?b = sb_skipped_before b" "sb_full_count ?b = sb_full_count b"
    using True by (simp_all add: builder_cut_end_def)
  show ?thesis
  proof (rule builder_exactI [where A = "A" and C = "?D \<union> C"], unfold b)
    show "flat_ok (take ?k (sb_ids b))" using e(1) by simp
    show "T = A \<union> set (take ?k (sb_ids b)) \<union> (?D \<union> C)" unfolding e(2) split by (simp only: Un_assoc)
    fix a x
    show "a \<in> A \<Longrightarrow> x \<in> set (take ?k (sb_ids b)) \<Longrightarrow> a < x"
      using e(3) subs flat_ok_take_drop [OF e(1), of a ?k x] by blast
    show "a \<in> A \<Longrightarrow> x \<in> ?D \<union> C \<Longrightarrow> a < x" using e(3,4,5) subs by blast
    show "a \<in> set (take ?k (sb_ids b)) \<Longrightarrow> x \<in> ?D \<union> C \<Longrightarrow> a < x"
      using e(5) subs flat_ok_take_drop [OF e(1), of a ?k x] by blast
  next
    fix n
    show "opt_add remove (sb_skipped_after b) = Some n \<Longrightarrow> n = int (card (?D \<union> C))"
      using e(7) card by (auto simp: opt_add_def)
  qed (use e(6-8) in blast)+
qed

lemma builder_cut_keys [simp]:
  "sb_key (fst (builder_cut_begin r b)) = sb_key b"
  "sb_limit_before (fst (builder_cut_begin r b)) = sb_limit_before b"
  "sb_limit_after (fst (builder_cut_begin r b)) = sb_limit_after b"
  "sb_full_count (fst (builder_cut_begin r b)) = sb_full_count b"
  "sb_skipped_after (fst (builder_cut_begin r b)) = sb_skipped_after b"
  "sb_key (fst (builder_cut_end r b)) = sb_key b"
  "sb_limit_before (fst (builder_cut_end r b)) = sb_limit_before b"
  "sb_limit_after (fst (builder_cut_end r b)) = sb_limit_after b"
  "sb_full_count (fst (builder_cut_end r b)) = sb_full_count b"
  "sb_skipped_before (fst (builder_cut_end r b)) = sb_skipped_before b"
  by (simp_all add: builder_cut_begin_def builder_cut_end_def)

lemma builder_cut_ids:
  "sb_ids (fst (builder_cut_begin r b)) = drop (nat r) (sb_ids b)"
  "sb_ids (fst (builder_cut_end r b)) = take (length (sb_ids b) - nat r) (sb_ids b)"
  by (simp_all add: builder_cut_begin_def builder_cut_end_def)

text \<open>The state after the cut, without the requests.\<close>

lemma builder_slice_fst:
  "kk_set kk (sb_key b) \<Longrightarrow> fst (builder_slice_to_limits kk b) =
     fst (builder_cut_end (int (length (sb_ids b)) - int (flat_lower (sb_ids b) (sb_key b)) - sb_limit_after b - 1)
       (fst (builder_cut_begin (int (flat_lower (sb_ids b) (sb_key b)) - sb_limit_before b) b)))"
  by (simp add: builder_slice_to_limits_def Let_def split: prod.split)

lemma builder_slice_unset: "\<not> kk_set kk (sb_key b) \<Longrightarrow> fst (builder_slice_to_limits kk b) = b"
  by (simp add: builder_slice_to_limits_def)

lemma builder_slice_keys [simp]:
  "sb_key (fst (builder_slice_to_limits kk b)) = sb_key b"
  "sb_limit_before (fst (builder_slice_to_limits kk b)) = sb_limit_before b"
  "sb_limit_after (fst (builder_slice_to_limits kk b)) = sb_limit_after b"
  "sb_full_count (fst (builder_slice_to_limits kk b)) = sb_full_count b"
  by (cases "kk_set kk (sb_key b)"; simp add: builder_slice_fst builder_slice_unset)+

lemma builder_slice_exact:
  assumes "builder_exact T b" and "finite T" and "0 \<le> sb_limit_before b" and "0 \<le> sb_limit_after b"
  shows "builder_exact T (fst (builder_slice_to_limits kk b))"
proof (cases "kk_set kk (sb_key b)")
  case False
  then show ?thesis using assms(1) by (simp add: builder_slice_unset)
next
  case True
  let ?p = "flat_lower (sb_ids b) (sb_key b)"
  have p: "?p \<le> length (sb_ids b)" by (rule flat_lower_le)
  have 1: "builder_exact T (fst (builder_cut_begin (int ?p - sb_limit_before b) b))"
    using p assms(3) by (intro builder_cut_begin_exact [OF assms(1,2)]) simp
  show ?thesis unfolding builder_slice_fst [OF True]
    by (rule builder_cut_end_exact [OF 1 assms(2)]) (use p assms(3,4) in \<open>simp add: builder_cut_ids\<close>)
qed

text \<open>The ids that are left: the last ones below the key and the first ones from it on.\<close>

lemma builder_slice_window:
  assumes "flat_ok (sb_ids b)" and "kk_set kk (sb_key b)"
    and "0 \<le> sb_limit_before b" and "0 \<le> sb_limit_after b"
  shows "sb_ids (fst (builder_slice_to_limits kk b)) =
     drop (length (filter (\<lambda>x. x < sb_key b) (sb_ids b)) - nat (sb_limit_before b))
       (filter (\<lambda>x. x < sb_key b) (sb_ids b))
     @ take (nat (sb_limit_after b + 1)) (filter (\<lambda>x. sb_key b \<le> x) (sb_ids b))"
proof -
  let ?ids = "sb_ids b" and ?p = "flat_lower (sb_ids b) (sb_key b)"
  have p: "?p \<le> length ?ids" by (rule flat_lower_le)
  obtain l where l: "sb_limit_before b = int l" using assms(3) by (metis nat_0_le)
  obtain a where a: "sb_limit_after b = int a" using assms(4) by (metis nat_0_le)
  have n: "nat (int ?p - int l) = ?p - l" "nat (int a + 1) = Suc a"
    "nat (int (length ?ids) - int ?p - int a - 1) = length ?ids - ?p - Suc a"
    by linarith+
  have "?p - l - length (take ?p ?ids) = 0" using p by simp
  then have cut: "drop (?p - l) ?ids = drop (?p - l) (take ?p ?ids) @ drop ?p ?ids"
    by (metis append_take_drop_id drop_0 drop_append)
  let ?x = "drop (?p - l) (take ?p ?ids)" and ?y = "drop ?p ?ids"
  have len: "length ?y = length ?ids - ?p" by simp
  have "sb_ids (fst (builder_slice_to_limits kk b)) =
      take (length (?x @ ?y) - (length ?ids - ?p - Suc a)) (?x @ ?y)"
    unfolding builder_slice_fst [OF assms(2)] builder_cut_ids l a n cut ..
  also have "\<dots> = ?x @ take (Suc a) ?y"
    by (cases "length ?ids - ?p \<le> Suc a") (auto simp: len)
  finally show ?thesis
    unfolding l a n nat_int flat_lower_filter [OF assms(1), symmetric]
    unfolding take_flat_lower [OF assms(1), symmetric] drop_flat_lower [OF assms(1), symmetric] .
qed

text \<open>If a side is short and not known to be complete, data for that side is asked for; and a
  builder that asks for nothing has its count.\<close>

lemma builder_slice_requests:
  assumes "kk_set kk (sb_key b)"
    and "b' = fst (builder_slice_to_limits kk b)" and "r = snd (builder_slice_to_limits kk b)"
    and "r = []"
  shows "(sb_limit_before b \<le> int (flat_lower (sb_ids b) (sb_key b)) \<or> (\<exists>n \<le> 0. sb_skipped_before b = Some n))
    \<and> (sb_limit_after b < int (length (sb_ids b)) - int (flat_lower (sb_ids b) (sb_key b))
        \<or> (\<exists>n \<le> 0. sb_skipped_after b = Some n))
    \<and> sb_full_count b \<noteq> None"
  using assms(1,3,4)
  by (auto simp: builder_slice_to_limits_def builder_cut_begin_def builder_cut_end_def Let_def not_less
      split: if_splits option.splits prod.splits)

lemma builder_fill_exact:
  assumes "builder_exact T b" and "finite T"
  shows "builder_exact T (builder_fill_skipped b)"
proof -
  obtain A C where e: "flat_ok (sb_ids b)" "T = A \<union> set (sb_ids b) \<union> C"
    "\<And>a x. a \<in> A \<Longrightarrow> x \<in> set (sb_ids b) \<Longrightarrow> a < x" "\<And>a x. a \<in> A \<Longrightarrow> x \<in> C \<Longrightarrow> a < x"
    "\<And>x c. x \<in> set (sb_ids b) \<Longrightarrow> c \<in> C \<Longrightarrow> x < c"
    "\<And>n. sb_skipped_before b = Some n \<Longrightarrow> n = int (card A)"
    "\<And>n. sb_skipped_after b = Some n \<Longrightarrow> n = int (card C)"
    "\<And>n. sb_full_count b = Some n \<Longrightarrow> n = int (card T)"
    by (rule builder_exactE [OF assms(1)], rule that, assumption+)
  have "distinct (sb_ids b)" using e(1) by (simp add: flat_ok_sorted_distinct)
  then have card: "card T = card A + length (sb_ids b) + card C"
    by (rule builder_exact_card [OF e(2) assms(2) _ e(3,4,5)])
  have ids: "sb_ids (builder_fill_skipped b) = sb_ids b" "sb_full_count (builder_fill_skipped b) = sb_full_count b"
    by (simp_all add: builder_fill_skipped_def split: option.split)
  show ?thesis
  proof (rule builder_exactI [OF _ _ e(3) e(4) e(5), folded ids], unfold ids)
    fix n
    show "sb_skipped_before (builder_fill_skipped b) = Some n \<Longrightarrow> n = int (card A)"
      using e(6,7,8) card by (auto simp: builder_fill_skipped_def split: option.splits)
    show "sb_skipped_after (builder_fill_skipped b) = Some n \<Longrightarrow> n = int (card C)"
      using e(6,7,8) card by (auto simp: builder_fill_skipped_def split: option.splits)
  qed (use e(1,2,8) in simp_all)
qed

lemma builder_fill_keys [simp]:
  "sb_key (builder_fill_skipped b) = sb_key b"
  "sb_limit_before (builder_fill_skipped b) = sb_limit_before b"
  "sb_limit_after (builder_fill_skipped b) = sb_limit_after b"
  "sb_ids (builder_fill_skipped b) = sb_ids b"
  "sb_full_count (builder_fill_skipped b) = sb_full_count b"
  by (simp_all add: builder_fill_skipped_def split: option.split)

section \<open>Merging keeps a builder exact\<close>

lemma position_of_flat:
  assumes "flat_ok xs" and "x \<in> set xs"
  shows "\<exists>p. position_of x xs = Some p \<and> p < length xs \<and> xs ! p = x
    \<and> card {m \<in> set xs. m < x} = p \<and> card {m \<in> set xs. x < m} = length xs - p - 1"
proof -
  obtain ys zs where xs: "xs = ys @ x # zs" using assms(2) by (metis split_list)
  have ok: "flat_ok ys" "flat_ok zs" "\<forall>y \<in> set ys. y < x" "\<forall>z \<in> set zs. x < z"
    using assms(1) by (auto simp: xs sorted_wrt_append)
  have "x \<notin> set ys" using ok(3) by auto
  then have "takeWhile (\<lambda>y. y \<noteq> x) xs = ys"
    unfolding xs by (induction ys) auto
  then have pos: "position_of x xs = Some (length ys)" by (simp add: position_of_def xs)
  have "{m \<in> set xs. m < x} = set ys" "{m \<in> set xs. x < m} = set zs"
    using ok(3,4) by (auto simp: xs)
  moreover have "card (set ys) = length ys" "card (set zs) = length zs"
    using ok(1,2) by (simp_all add: flat_ok_sorted_distinct distinct_card)
  ultimately show ?thesis using pos by (simp add: xs)
qed

text \<open>What a known number of ids before (after) some id of the block becomes after merging.\<close>

lemma adjust_before_exact:
  assumes "flat_ok (sb_ids b)" and "x \<in> set (sb_ids b)" and "finite A"
    and "\<And>a y. a \<in> A \<Longrightarrow> y \<in> set (sb_ids b) \<Longrightarrow> a < y"
    and "n = int (card (A \<union> {m \<in> set (sb_ids b). m < x}))"
  shows "adjust_skipped_before x n b = Some (b\<lparr> sb_skipped_before := Some (int (card A)) \<rparr>)"
proof -
  obtain p where p: "position_of x (sb_ids b) = Some p" "card {m \<in> set (sb_ids b). m < x} = p"
    using position_of_flat [OF assms(1,2)] by blast
  have "A \<inter> {m \<in> set (sb_ids b). m < x} = {}" using assms(4) by fastforce
  then have "n = int (card A) + int p"
    using assms(3,5) p(2) by (simp add: card_Un_disjoint)
  then show ?thesis by (simp add: adjust_skipped_before_def p(1))
qed

lemma adjust_after_exact:
  assumes "flat_ok (sb_ids b)" and "x \<in> set (sb_ids b)" and "finite C"
    and "\<And>y c. y \<in> set (sb_ids b) \<Longrightarrow> c \<in> C \<Longrightarrow> y < c"
    and "n = int (card ({m \<in> set (sb_ids b). x < m} \<union> C))"
  shows "adjust_skipped_after x n b = Some (b\<lparr> sb_skipped_after := Some (int (card C)) \<rparr>)"
proof -
  obtain p where p: "position_of x (sb_ids b) = Some p" "p < length (sb_ids b)"
      "card {m \<in> set (sb_ids b). x < m} = length (sb_ids b) - p - 1"
    using position_of_flat [OF assms(1,2)] by blast
  have "{m \<in> set (sb_ids b). x < m} \<inter> C = {}" using assms(4) by fastforce
  then have "n = int (length (sb_ids b) - p - 1) + int (card C)"
    using assms(3,5) p(3) by (simp add: card_Un_disjoint)
  then show ?thesis using p(2) by (simp add: adjust_skipped_after_def p(1))
qed

text \<open>The ids \<open>ms\<close> and the block together must be a block of \<open>T\<close>, and the numbers that come
  with \<open>ms\<close> must be right for \<open>ms\<close>.\<close>

definition merge_faithful ::
  "'k::linorder set \<Rightarrow> int option \<Rightarrow> 'k list \<Rightarrow> int option \<Rightarrow> int option \<Rightarrow> 'k list \<Rightarrow> bool" where
  "merge_faithful T cnt ms before after ids \<longleftrightarrow> flat_ok ms \<and> set ms \<subseteq> T
     \<and> (\<forall>c. cnt = Some c \<longrightarrow> c = int (card T))
     \<and> (ms \<noteq> [] \<longrightarrow>
          (\<forall>m \<in> T - (set ids \<union> set ms). (\<forall>x \<in> set ids \<union> set ms. m < x) \<or> (\<forall>x \<in> set ids \<union> set ms. x < m))
        \<and> (\<forall>n. before = Some n \<longrightarrow> n = int (card {m \<in> T. m < hd ms}))
        \<and> (\<forall>n. after = Some n \<longrightarrow> n = int (card {m \<in> T. last ms < m})))"

lemma flat_hd_last:
  assumes "flat_ok xs" and "x \<in> set xs"
  shows "hd xs \<le> x" and "x \<le> last xs" and "hd xs \<in> set xs" and "last xs \<in> set xs"
proof -
  have "xs \<noteq> []" using assms(2) by auto
  then show "hd xs \<in> set xs" "last xs \<in> set xs" by simp_all
  have srt: "sorted xs" using assms(1) by (simp add: flat_ok_sorted_distinct)
  show "hd xs \<le> x" using srt assms(2) by (cases xs) auto
  show "x \<le> last xs" using srt assms(2) \<open>xs \<noteq> []\<close>
    by (auto simp: in_set_conv_nth last_conv_nth intro!: sorted_nth_mono)
qed

text \<open>What must hold of the builder itself: its ids are ids of \<open>T\<close>, and the numbers it keeps
  through the merge, because none comes with \<open>ms\<close>, are right for \<open>T\<close>.\<close>

definition builder_near ::
  "'k::linorder set \<Rightarrow> int option \<Rightarrow> int option \<Rightarrow> int option \<Rightarrow> ('k, 'z) slice_builder_scheme \<Rightarrow> bool" where
  "builder_near T cnt before after b \<longleftrightarrow> flat_ok (sb_ids b) \<and> set (sb_ids b) \<subseteq> T
     \<and> (sb_ids b \<noteq> [] \<and> before = None \<longrightarrow>
          (\<forall>n. sb_skipped_before b = Some n \<longrightarrow> n = int (card {m \<in> T. m < hd (sb_ids b)})))
     \<and> (sb_ids b \<noteq> [] \<and> after = None \<longrightarrow>
          (\<forall>n. sb_skipped_after b = Some n \<longrightarrow> n = int (card {m \<in> T. last (sb_ids b) < m})))
     \<and> (cnt = None \<longrightarrow> (\<forall>n. sb_full_count b = Some n \<longrightarrow> n = int (card T)))"

text \<open>The ids before and after the block of an exact builder.\<close>

lemma builder_exact_ends:
  assumes "builder_exact T b"
  shows "flat_ok (sb_ids b)" and "set (sb_ids b) \<subseteq> T"
    and "sb_ids b \<noteq> [] \<Longrightarrow> sb_skipped_before b = Some n \<Longrightarrow> n = int (card {m \<in> T. m < hd (sb_ids b)})"
    and "sb_ids b \<noteq> [] \<Longrightarrow> sb_skipped_after b = Some n \<Longrightarrow> n = int (card {m \<in> T. last (sb_ids b) < m})"
    and "sb_full_count b = Some n \<Longrightarrow> n = int (card T)"
proof -
  obtain A C where e: "flat_ok (sb_ids b)" "T = A \<union> set (sb_ids b) \<union> C"
    "\<And>a x. a \<in> A \<Longrightarrow> x \<in> set (sb_ids b) \<Longrightarrow> a < x" "\<And>a x. a \<in> A \<Longrightarrow> x \<in> C \<Longrightarrow> a < x"
    "\<And>x c. x \<in> set (sb_ids b) \<Longrightarrow> c \<in> C \<Longrightarrow> x < c"
    "\<And>n. sb_skipped_before b = Some n \<Longrightarrow> n = int (card A)"
    "\<And>n. sb_skipped_after b = Some n \<Longrightarrow> n = int (card C)"
    "\<And>n. sb_full_count b = Some n \<Longrightarrow> n = int (card T)"
    by (rule builder_exactE [OF assms], rule that, assumption+)
  show "flat_ok (sb_ids b)" "set (sb_ids b) \<subseteq> T" using e(1,2) by auto
  show "sb_full_count b = Some n \<Longrightarrow> n = int (card T)" by (rule e(8))
  assume ne: "sb_ids b \<noteq> []"
  have h: "hd (sb_ids b) \<in> set (sb_ids b)" "last (sb_ids b) \<in> set (sb_ids b)" using ne by simp_all
  have "A = {m \<in> T. m < hd (sb_ids b)}"
    using e(3) [OF _ h(1)] e(5) [OF h(1)] flat_hd_last(1) [OF e(1)] unfolding e(2)
    by (auto dest: less_asym leD)
  then show "sb_skipped_before b = Some n \<Longrightarrow> n = int (card {m \<in> T. m < hd (sb_ids b)})" using e(6) by blast
  have "C = {m \<in> T. last (sb_ids b) < m}"
    using e(3) [OF _ h(2)] e(5) [OF h(2)] flat_hd_last(2) [OF e(1)] unfolding e(2)
    by (auto dest: less_asym leD)
  then show "sb_skipped_after b = Some n \<Longrightarrow> n = int (card {m \<in> T. last (sb_ids b) < m})" using e(7) by blast
qed

lemma builder_exact_near: "builder_exact T b \<Longrightarrow> builder_near T cnt before after b"
  unfolding builder_near_def using builder_exact_ends [of T b] by blast

lemma builder_merge_ids_exact:
  assumes near: "builder_near T cnt before after b" and fin: "finite T"
    and "merge_faithful T cnt ms before after (sb_ids b)"
    and ms: "ms \<noteq> []"
  shows "\<exists>b'. builder_merge_ids kk cnt ms before after b = Some b' \<and> builder_exact T b'
    \<and> sb_ids b' = flat_merge (sb_ids b) ms \<and> sb_key b' = sb_key b
    \<and> sb_limit_before b' = sb_limit_before b \<and> sb_limit_after b' = sb_limit_after b"
proof -
  have e: "flat_ok (sb_ids b)" "set (sb_ids b) \<subseteq> T"
    "\<And>n. sb_ids b \<noteq> [] \<Longrightarrow> before = None \<Longrightarrow> sb_skipped_before b = Some n \<Longrightarrow> n = int (card {m \<in> T. m < hd (sb_ids b)})"
    "\<And>n. sb_ids b \<noteq> [] \<Longrightarrow> after = None \<Longrightarrow> sb_skipped_after b = Some n \<Longrightarrow> n = int (card {m \<in> T. last (sb_ids b) < m})"
    "\<And>n. cnt = None \<Longrightarrow> sb_full_count b = Some n \<Longrightarrow> n = int (card T)"
    using near unfolding builder_near_def by blast+
  have f: "flat_ok ms" "set ms \<subseteq> T" "\<And>c. cnt = Some c \<Longrightarrow> c = int (card T)"
    "\<And>m. m \<in> T \<Longrightarrow> m \<notin> set (sb_ids b) \<union> set ms \<Longrightarrow>
      (\<forall>x \<in> set (sb_ids b) \<union> set ms. m < x) \<or> (\<forall>x \<in> set (sb_ids b) \<union> set ms. x < m)"
    "\<And>n. before = Some n \<Longrightarrow> n = int (card {m \<in> T. m < hd ms})"
    "\<And>n. after = Some n \<Longrightarrow> n = int (card {m \<in> T. last ms < m})"
    using assms(3) ms unfolding merge_faithful_def by blast+
  define M where "M = flat_merge (sb_ids b) ms"
  have M: "flat_ok M" "set M = set (sb_ids b) \<union> set ms" using e(1) by (simp_all add: M_def)
  have "M \<noteq> []" using M(2) ms by auto
  define A where "A = {m \<in> T. \<forall>x \<in> set M. m < x}"
  define C where "C = {m \<in> T. \<forall>x \<in> set M. x < m}"
  have AC: "finite A" "finite C" using fin by (simp_all add: A_def C_def)
  have sub: "set M \<subseteq> T" using M(2) e(2) f(2) by blast
  have T: "T = A \<union> set M \<union> C"
    using f(4) sub unfolding A_def C_def M(2) [symmetric] by blast
  have ord: "a < x" if "a \<in> A" "x \<in> set M" for a x using that by (simp add: A_def)
  have ord': "x < c" if "x \<in> set M" "c \<in> C" for x c using that by (simp add: C_def)
  have ordAC: "a < c" if "a \<in> A" "c \<in> C" for a c
    using ord [OF that(1)] ord' [OF _ that(2)] \<open>M \<noteq> []\<close> by (meson last_in_set less_trans)
  have below: "{m \<in> T. m < x} = A \<union> {m \<in> set M. m < x}" if "x \<in> set M" for x
    unfolding T using ord ord' that by (auto dest: less_asym)
  have above: "{m \<in> T. x < m} = {m \<in> set M. x < m} \<union> C" if "x \<in> set M" for x
    unfolding T using ord ord' that by (auto dest: less_asym)
  have hdms: "hd ms \<in> set M" "last ms \<in> set M" using ms M(2) by auto
  define b1 where "b1 = (if cnt \<noteq> None then b\<lparr> sb_full_count := cnt \<rparr> else b)\<lparr> sb_ids := M \<rparr>"
  have b1: "sb_ids b1 = M" "sb_skipped_before b1 = sb_skipped_before b"
    "sb_skipped_after b1 = sb_skipped_after b" "sb_key b1 = sb_key b"
    "sb_limit_before b1 = sb_limit_before b" "sb_limit_after b1 = sb_limit_after b"
    by (simp_all add: b1_def)
  have full: "sb_full_count b1 = Some n \<Longrightarrow> n = int (card T)" for n
    using e(5) f(3) by (cases cnt) (auto simp: b1_def)
  have was: "hd (sb_ids b) \<in> set M" "last (sb_ids b) \<in> set M" if "sb_ids b \<noteq> []"
    using that M(2) by auto
  define sb where "sb = (if before \<noteq> None \<or> (sb_skipped_before b \<noteq> None \<and> sb_ids b \<noteq> [] \<and> kk_valid kk (hd (sb_ids b)))
     then Some (int (card A)) else None)"
  define sa where "sa = (if after \<noteq> None \<or> (sb_skipped_after b \<noteq> None \<and> sb_ids b \<noteq> [] \<and> kk_valid kk (last (sb_ids b)))
     then Some (int (card C)) else None)"
  define b2 where "b2 = b1\<lparr> sb_skipped_before := sb \<rparr>"
  define b3 where "b3 = b2\<lparr> sb_skipped_after := sa \<rparr>"
  have b2: "sb_ids b2 = M" "sb_skipped_after b2 = sb_skipped_after b" by (simp_all add: b2_def b1)
  have adjb: "adjust_skipped_before x n b1 = Some (b1\<lparr> sb_skipped_before := Some (int (card A)) \<rparr>)"
    if "x \<in> set M" "n = int (card {m \<in> T. m < x})" for x n
    using that by (intro adjust_before_exact) (simp_all add: b1(1) M(1) AC(1) ord below)
  have adja: "adjust_skipped_after x n b2 = Some (b2\<lparr> sb_skipped_after := Some (int (card C)) \<rparr>)"
    if "x \<in> set M" "n = int (card {m \<in> T. x < m})" for x n
    using that by (intro adjust_after_exact) (simp_all add: b2(1) M(1) AC(2) ord' above)
  have 1: "(case (before, sb_skipped_before b1) of
                (Some n, _) \<Rightarrow> adjust_skipped_before (hd ms) n b1
              | (None, Some n) \<Rightarrow>
                  (if sb_ids b \<noteq> [] \<and> kk_valid kk (hd (sb_ids b)) then adjust_skipped_before (hd (sb_ids b)) n b1
                   else Some (b1\<lparr> sb_skipped_before := None \<rparr>))
              | (None, None) \<Rightarrow> Some (b1\<lparr> sb_skipped_before := None \<rparr>)) = Some b2"
    using adjb [OF hdms(1)] adjb [OF was(1)] f(5) e(3)
    by (auto simp: b2_def sb_def b1(2) split: option.split)
  have 2: "(case (after, sb_skipped_after b2) of
                (Some n, _) \<Rightarrow> adjust_skipped_after (last ms) n b2
              | (None, Some n) \<Rightarrow>
                  (if sb_ids b \<noteq> [] \<and> kk_valid kk (last (sb_ids b)) then adjust_skipped_after (last (sb_ids b)) n b2
                   else Some (b2\<lparr> sb_skipped_after := None \<rparr>))
              | (None, None) \<Rightarrow> Some (b2\<lparr> sb_skipped_after := None \<rparr>)) = Some b3"
    using adja [OF hdms(2)] adja [OF was(2)] f(6) e(4)
    by (auto simp: b3_def sa_def b2(2) split: option.split)
  have "builder_merge_ids kk cnt ms before after b = Some b3"
    unfolding builder_merge_ids_def Let_def M_def [symmetric] b1_def [symmetric] 1 using 2 by simp
  moreover have "builder_exact T b3"
    by (rule builder_exactI [OF _ _ ord ordAC ord'])
      (use M(1) T full in \<open>auto simp: b3_def b2_def b1 sa_def sb_def split: if_splits\<close>)
  ultimately show ?thesis by (simp add: b3_def b2_def b1 M_def)
qed

lemma builder_merge_empty_exact:
  assumes "builder_exact T b" and "finite T" and "\<And>c. cnt = Some c \<Longrightarrow> c = int (card T)"
  shows "builder_exact T (builder_merge_empty cnt b)"
proof -
  obtain A C where e: "flat_ok (sb_ids b)" "T = A \<union> set (sb_ids b) \<union> C"
    "\<And>a x. a \<in> A \<Longrightarrow> x \<in> set (sb_ids b) \<Longrightarrow> a < x" "\<And>a x. a \<in> A \<Longrightarrow> x \<in> C \<Longrightarrow> a < x"
    "\<And>x c. x \<in> set (sb_ids b) \<Longrightarrow> c \<in> C \<Longrightarrow> x < c"
    "\<And>n. sb_skipped_before b = Some n \<Longrightarrow> n = int (card A)"
    "\<And>n. sb_skipped_after b = Some n \<Longrightarrow> n = int (card C)"
    "\<And>n. sb_full_count b = Some n \<Longrightarrow> n = int (card T)"
    by (rule builder_exactE [OF assms(1)], rule that, assumption+)
  have "distinct (sb_ids b)" using e(1) by (simp add: flat_ok_sorted_distinct)
  then have card: "card T = card A + length (sb_ids b) + card C"
    by (rule builder_exact_card [OF e(2) assms(2) _ e(3,4,5)])
  have ids: "sb_ids (builder_merge_empty cnt b) = sb_ids b"
    by (simp add: builder_merge_empty_def split: option.split)
  show ?thesis
  proof (rule builder_exactI [OF _ _ e(3) e(4) e(5), folded ids], unfold ids)
    fix n
    show "sb_skipped_before (builder_merge_empty cnt b) = Some n \<Longrightarrow> n = int (card A)"
      using e(6) card assms(3) by (auto simp: builder_merge_empty_def split: option.splits if_splits)
    show "sb_skipped_after (builder_merge_empty cnt b) = Some n \<Longrightarrow> n = int (card C)"
      using e(7) card assms(3) by (auto simp: builder_merge_empty_def split: option.splits if_splits)
    show "sb_full_count (builder_merge_empty cnt b) = Some n \<Longrightarrow> n = int (card T)"
      using e(8) card assms(3) by (auto simp: builder_merge_empty_def split: option.splits if_splits)
  qed (use e(1,2) in simp_all)
qed

lemma builder_merge_empty_keys [simp]:
  "sb_key (builder_merge_empty cnt b) = sb_key b"
  "sb_limit_before (builder_merge_empty cnt b) = sb_limit_before b"
  "sb_limit_after (builder_merge_empty cnt b) = sb_limit_after b"
  "sb_ids (builder_merge_empty cnt b) = sb_ids b"
  by (simp_all add: builder_merge_empty_def split: option.split)

definition builder_ok :: "'k::linorder set \<Rightarrow> ('k, 'z) slice_builder_scheme \<Rightarrow> bool" where
  "builder_ok T b \<longleftrightarrow> builder_exact T b \<and> 0 \<le> sb_limit_before b \<and> 0 \<le> sb_limit_after b"

lemma builder_merge_slice_data_ok:
  assumes "ms = [] \<Longrightarrow> builder_ok T b" and near: "builder_near T cnt before after b"
    and lim: "0 \<le> sb_limit_before b" "0 \<le> sb_limit_after b"
    and "finite T" and "merge_faithful T cnt ms before after (sb_ids b)"
  shows "\<exists>b' r. builder_merge_slice_data kk cnt ms before after b = Some (b', r) \<and> builder_ok T b'"
proof -
  note b = near lim
  have fin: "\<exists>b' r. builder_fill_skipped_and_slice kk c = (b', r) \<and> builder_ok T b'"
    if "builder_exact T c" "sb_limit_before c = sb_limit_before b" "sb_limit_after c = sb_limit_after b" for c
  proof -
    have "builder_exact T (fst (builder_slice_to_limits kk (builder_fill_skipped c)))"
      using that b by (intro builder_slice_exact builder_fill_exact assms(5)) simp_all
    then show ?thesis
      using that b by (cases "builder_slice_to_limits kk (builder_fill_skipped c)")
        (auto simp: builder_fill_skipped_and_slice_def builder_ok_def
          dest: arg_cong [where f = fst] intro: builder_slice_keys(2,3) [THEN eq_refl, THEN order_trans [rotated]],
         (metis builder_fill_keys(2,3) builder_slice_keys(2,3) fst_conv)+)
  qed
  show ?thesis
  proof (cases "ms = []")
    case True
    have "builder_exact T (builder_merge_empty cnt b)"
      using assms(1,6) True by (intro builder_merge_empty_exact assms(5)) (simp_all add: merge_faithful_def builder_ok_def)
    then show ?thesis using True fin [of "builder_merge_empty cnt b"]
      by (simp add: builder_merge_slice_data_def)
  next
    case False
    obtain b' where "builder_merge_ids kk cnt ms before after b = Some b'" "builder_exact T b'"
      "sb_limit_before b' = sb_limit_before b" "sb_limit_after b' = sb_limit_after b"
      using builder_merge_ids_exact [OF near assms(5,6) False] by blast
    then show ?thesis using False fin [of b'] by (simp add: builder_merge_slice_data_def)
  qed
qed

text \<open>An update tells the truth when its ids are all ids of its range and its count is the total.\<close>

definition update_faithful :: "'k::linorder key_kind \<Rightarrow> 'k set \<Rightarrow> 'k slice_update \<Rightarrow> bool" where
  "update_faithful kk T u \<longleftrightarrow> T \<subseteq> {kk_min kk .. kk_max kk}
     \<and> (\<forall>c. up_count u = Some c \<longrightarrow> c = int (card T))
     \<and> (\<forall>ms. up_messages u = Some ms \<longrightarrow> flat_ok ms \<and> set ms = T \<inter> {rng_from (up_range u) .. rng_till (up_range u)})"

text \<open>The update meets what the builder holds: its ids, or its key when it has none.\<close>

definition update_meets :: "'k::linorder slice_update \<Rightarrow> ('k, 'z) slice_builder_scheme \<Rightarrow> bool" where
  "update_meets u b \<longleftrightarrow> up_messages u \<noteq> None
     \<and> rng_from (up_range u) \<le> (if sb_ids b = [] then sb_key b else last (sb_ids b))
     \<and> (if sb_ids b = [] then sb_key b else hd (sb_ids b)) \<le> rng_till (up_range u)"

text \<open>A builder that is exact for \<open>T0\<close> learns enough from the update to be exact for a grown \<open>T\<close>: the
  update meets it, has the total when the builder shows one, and an id that is new beyond an end of
  the builder's ids comes with that end of everything.\<close>

definition update_reaches ::
  "'k::linorder key_kind \<Rightarrow> 'k set \<Rightarrow> 'k set \<Rightarrow> 'k slice_update \<Rightarrow> ('k, 'z) slice_builder_scheme \<Rightarrow> bool" where
  "update_reaches kk T0 T u b \<longleftrightarrow> update_meets u b
     \<and> (sb_full_count b \<noteq> None \<longrightarrow> up_count u \<noteq> None)
     \<and> (sb_ids b \<noteq> [] \<and> rng_from (up_range u) \<noteq> kk_min kk \<longrightarrow> (\<forall>m \<in> T - T0. hd (sb_ids b) \<le> m))
     \<and> (sb_ids b \<noteq> [] \<and> rng_till (up_range u) \<noteq> kk_max kk \<longrightarrow> (\<forall>m \<in> T - T0. m \<le> last (sb_ids b)))"

lemma update_merge_faithful:
  assumes "builder_exact T0 b" and "update_faithful kk T u" and "up_messages u = Some ms"
    and touch: "sb_ids b \<noteq> [] \<Longrightarrow> rng_from (up_range u) \<le> last (sb_ids b) \<and> hd (sb_ids b) \<le> rng_till (up_range u)"
    and T0: "T0 \<subseteq> T" "T - T0 \<subseteq> {rng_from (up_range u) .. rng_till (up_range u)}"
  shows "merge_faithful T (up_count u) ms
     (if rng_from (up_range u) = kk_min kk then Some 0 else None)
     (if rng_till (up_range u) = kk_max kk then Some 0 else None) (sb_ids b)"
proof -
  let ?f = "rng_from (up_range u)" and ?t = "rng_till (up_range u)"
  have u: "T \<subseteq> {kk_min kk .. kk_max kk}" "\<And>c. up_count u = Some c \<Longrightarrow> c = int (card T)"
    "flat_ok ms" "set ms = T \<inter> {?f .. ?t}"
    using assms(2,3) by (simp_all add: update_faithful_def)
  obtain A C where e: "flat_ok (sb_ids b)" "T0 = A \<union> set (sb_ids b) \<union> C"
    "\<And>a x. a \<in> A \<Longrightarrow> x \<in> set (sb_ids b) \<Longrightarrow> a < x" "\<And>x c. x \<in> set (sb_ids b) \<Longrightarrow> c \<in> C \<Longrightarrow> x < c"
    by (rule builder_exactE [OF assms(1)], rule that, assumption+)
  have block: "(\<forall>x \<in> set (sb_ids b) \<union> set ms. m < x) \<or> (\<forall>x \<in> set (sb_ids b) \<union> set ms. x < m)"
    if m: "m \<in> T" "m \<notin> set (sb_ids b)" "m \<notin> set ms" for m
  proof -
    have out: "m < ?f \<or> ?t < m" using m u(4) by (auto simp: not_le)
    show ?thesis
    proof (cases "sb_ids b = []")
      case True
      then show ?thesis using out u(4) by fastforce
    next
      case False
      note ends = last_in_set [OF False] hd_in_set [OF False]
      have "m \<in> T0" using m(1,3) u(4) T0(2) by blast
      with m(2) e(2) have "m \<in> A \<or> m \<in> C" by blast
      then show ?thesis
      proof
        assume a: "m \<in> A"
        then have "m < ?t" using e(3) [OF a ends(2)] touch [OF False] by (meson less_le_trans)
        then have "m < ?f" using out by auto
        then show ?thesis using e(3) [OF a] u(4) by fastforce
      next
        assume c: "m \<in> C"
        then have "?f < m" using e(4) [OF ends(1) c] touch [OF False] by (meson le_less_trans)
        then have "?t < m" using out by auto
        then show ?thesis using e(4) [OF _ c] u(4) by fastforce
      qed
    qed
  qed
  have first: "card {m \<in> T. m < hd ms} = 0" if "?f = kk_min kk" "ms \<noteq> []"
  proof -
    have "hd ms \<in> set ms" using that by simp
    then have "m \<in> set ms" if "m \<in> T" "m < hd ms" for m
      using that u(1,4) \<open>?f = kk_min kk\<close> by fastforce
    then have "{m \<in> T. m < hd ms} = {}" using flat_hd_last(1) [OF u(3)] by (auto simp: not_less [symmetric])
    then show ?thesis by (simp only: card.empty)
  qed
  have final: "card {m \<in> T. last ms < m} = 0" if "?t = kk_max kk" "ms \<noteq> []"
  proof -
    have "last ms \<in> set ms" using that by simp
    then have "m \<in> set ms" if "m \<in> T" "last ms < m" for m
      using that u(1,4) \<open>?t = kk_max kk\<close> by fastforce
    then have "{m \<in> T. last ms < m} = {}" using flat_hd_last(2) [OF u(3)] by (auto simp: not_less [symmetric])
    then show ?thesis by (simp only: card.empty)
  qed
  have numbers: "\<forall>n. (if ?f = kk_min kk then Some 0 else None) = Some n \<longrightarrow> n = int (card {m \<in> T. m < hd ms})"
    "\<forall>n. (if ?t = kk_max kk then Some 0 else None) = Some n \<longrightarrow> n = int (card {m \<in> T. last ms < m})"
    if "ms \<noteq> []"
    using first final that by (simp_all split: if_split)
  have "set ms \<subseteq> T" "\<forall>c. up_count u = Some c \<longrightarrow> c = int (card T)" using u(2,4) by blast+
  then show ?thesis
    unfolding merge_faithful_def using u(3) block numbers by blast
qed

lemma merge_faithful_Nil [simp]:
  "merge_faithful T cnt [] before after ids \<longleftrightarrow> (\<forall>c. cnt = Some c \<longrightarrow> c = int (card T))"
  by (auto simp: merge_faithful_def)

lemma update_near:
  assumes "builder_exact T0 b" and "T0 \<subseteq> T" and "update_reaches kk T0 T u b"
  shows "builder_near T (up_count u)
     (if rng_from (up_range u) = kk_min kk then Some 0 else None)
     (if rng_till (up_range u) = kk_max kk then Some 0 else None) b"
proof -
  note e = builder_exact_ends [OF assms(1)]
  have "{m \<in> T. m < hd (sb_ids b)} = {m \<in> T0. m < hd (sb_ids b)}"
    if "sb_ids b \<noteq> []" "rng_from (up_range u) \<noteq> kk_min kk"
  proof -
    have "hd (sb_ids b) \<le> m" if "m \<in> T" "m \<notin> T0" for m
      using assms(3) that \<open>sb_ids b \<noteq> []\<close> \<open>rng_from (up_range u) \<noteq> kk_min kk\<close> by (simp add: update_reaches_def)
    then show ?thesis using assms(2) by (auto simp: not_le [symmetric])
  qed
  moreover have "{m \<in> T. last (sb_ids b) < m} = {m \<in> T0. last (sb_ids b) < m}"
    if "sb_ids b \<noteq> []" "rng_till (up_range u) \<noteq> kk_max kk"
  proof -
    have "m \<le> last (sb_ids b)" if "m \<in> T" "m \<notin> T0" for m
      using assms(3) that \<open>sb_ids b \<noteq> []\<close> \<open>rng_till (up_range u) \<noteq> kk_max kk\<close> by (simp add: update_reaches_def)
    then show ?thesis using assms(2) by (auto simp: not_le [symmetric])
  qed
  moreover have "up_count u = None \<Longrightarrow> sb_full_count b = None"
    using assms(3) by (auto simp: update_reaches_def)
  ultimately show ?thesis
    using e assms(2) unfolding builder_near_def by (auto split: if_split_asm)
qed

lemma builder_apply_update_ok:
  assumes ok: "builder_ok T0 b" and fin: "finite T" and u: "update_faithful kk T u"
    and T0: "T0 \<subseteq> T" "T - T0 \<subseteq> {rng_from (up_range u) .. rng_till (up_range u)}"
    and reaches: "T = T0 \<or> update_reaches kk T0 T u b"
  shows "\<exists>ch b' r. builder_apply_update kk u b = Some (ch, b', r) \<and> builder_ok T b'"
proof -
  let ?need = "update_meets u b"
  let ?b4 = "if rng_from (up_range u) = kk_min kk then Some 0 else None"
  let ?af = "if rng_till (up_range u) = kk_max kk then Some 0 else None"
  define ids where "ids = (case up_messages u of Some ms \<Rightarrow> if ?need then ms else [] | None \<Rightarrow> [])"
  have ex: "builder_exact T0 b" and lim: "0 \<le> sb_limit_before b" "0 \<le> sb_limit_after b"
    using ok by (simp_all add: builder_ok_def)
  have cnt: "\<forall>c. up_count u = Some c \<longrightarrow> c = int (card T)" using u by (simp add: update_faithful_def)
  have "merge_faithful T (up_count u) ids ?b4 ?af (sb_ids b)"
  proof (cases ?need)
    case True
    then obtain ms where ms: "up_messages u = Some ms" by (auto simp: update_meets_def)
    then have "ids = ms" using True by (simp add: ids_def)
    then show ?thesis using update_merge_faithful [OF ex u ms _ T0] True by (simp add: update_meets_def split: if_splits)
  next
    case False
    then have "ids = []" unfolding ids_def by (simp only: if_False) (simp split: option.split)
    then show ?thesis using cnt by simp
  qed
  moreover have "builder_near T (up_count u) ?b4 ?af b"
    using reaches builder_exact_near [OF ex] update_near [OF ex T0(1)] by blast
  moreover have same: "T = T0" if "ids = []"
  proof (rule ccontr)
    assume "T \<noteq> T0"
    then have need: ?need using reaches by (simp add: update_reaches_def)
    then obtain ms where ms: "up_messages u = Some ms" by (auto simp: update_meets_def)
    then have "set ids = T \<inter> {rng_from (up_range u) .. rng_till (up_range u)}"
      using u need by (simp add: ids_def update_faithful_def)
    then show False using that T0 \<open>T \<noteq> T0\<close> by auto
  qed
  ultimately obtain b' r where b': "builder_merge_slice_data kk (up_count u) ids ?b4 ?af b = Some (b', r)" "builder_ok T b'"
    using builder_merge_slice_data_ok [of ids T b "up_count u" ?b4 ?af kk] ok lim fin by blast
  have "builder_ok T b" if "\<not> ?need" using reaches that ok by (auto simp: update_reaches_def)
  then show ?thesis
    using b' unfolding builder_apply_update_def Let_def ids_def update_meets_def by auto
qed

text \<open>An update that does not meet the builder changes the total alone, so that the numbers of the
  builder no longer add up when the ids have become more.\<close>

lemma builder_cut_full [simp]:
  "fst (builder_cut_begin k (b\<lparr> sb_full_count := c \<rparr>)) = (fst (builder_cut_begin k b))\<lparr> sb_full_count := c \<rparr>"
  "fst (builder_cut_end k (b\<lparr> sb_full_count := c \<rparr>)) = (fst (builder_cut_end k b))\<lparr> sb_full_count := c \<rparr>"
  by (simp_all add: builder_cut_begin_def builder_cut_end_def)

lemma builder_slice_full:
  "fst (builder_slice_to_limits kk (b\<lparr> sb_full_count := c \<rparr>)) = (fst (builder_slice_to_limits kk b))\<lparr> sb_full_count := c \<rparr>"
  by (cases "kk_set kk (sb_key b)") (simp_all add: builder_slice_fst builder_slice_unset)

lemma builder_slice_skipped:
  "sb_skipped_before b \<noteq> None \<Longrightarrow> sb_skipped_before (fst (builder_slice_to_limits kk b)) \<noteq> None"
  "sb_skipped_after b \<noteq> None \<Longrightarrow> sb_skipped_after (fst (builder_slice_to_limits kk b)) \<noteq> None"
  by (cases "kk_set kk (sb_key b)";
      auto simp: builder_slice_fst builder_slice_unset builder_cut_begin_def builder_cut_end_def opt_add_def)+

lemma builder_update_missed:
  assumes ok: "builder_ok T b" and fin: "finite T" and miss: "\<not> update_meets u b"
    and c: "up_count u = Some c" "int (card T) < c"
    and known: "sb_skipped_before b \<noteq> None" "sb_skipped_after b \<noteq> None"
  shows "\<exists>b' r x y. builder_apply_update kk u b = Some (True, b', r) \<and> sb_full_count b' = Some c
    \<and> sb_skipped_before b' = Some x \<and> sb_skipped_after b' = Some y \<and> x + int (length (sb_ids b')) + y = int (card T)"
proof -
  have ex: "builder_exact T b" and lim: "0 \<le> sb_limit_before b" "0 \<le> sb_limit_after b"
    using ok by (simp_all add: builder_ok_def)
  have "distinct (sb_ids b)" using builder_exact_ends(1) [OF ex] by (simp add: flat_ok_sorted_distinct)
  then have "int (length (sb_ids b)) \<le> int (card T)"
    using card_mono [OF fin builder_exact_ends(2) [OF ex]] by (simp add: distinct_card)
  moreover have "sb_full_count b \<noteq> Some c" using builder_exact_ends(5) [OF ex] c(2) by fastforce
  ultimately have "builder_merge_empty (up_count u) b = b\<lparr> sb_full_count := Some c \<rparr>"
    using c by (simp add: builder_merge_empty_def)
  moreover have "builder_fill_skipped (b\<lparr> sb_full_count := Some c \<rparr>) = b\<lparr> sb_full_count := Some c \<rparr>"
    using known by (auto simp: builder_fill_skipped_def)
  ultimately obtain r where r: "builder_merge_slice_data kk (up_count u) [] before after b
      = Some ((fst (builder_slice_to_limits kk b))\<lparr> sb_full_count := Some c \<rparr>, r)" for before after
    using builder_slice_full [of kk "Some c" b]
    by (cases "builder_slice_to_limits kk (b\<lparr> sb_full_count := Some c \<rparr>)")
      (auto simp: builder_merge_slice_data_def builder_fill_skipped_and_slice_def)
  define b' where "b' = fst (builder_slice_to_limits kk b)"
  have ids: "(case up_messages u of Some ms \<Rightarrow> if update_meets u b then ms else [] | None \<Rightarrow> []) = []"
    using miss by (simp split: option.split)
  have "builder_apply_update kk u b = Some (True, b'\<lparr> sb_full_count := Some c \<rparr>, r)"
    using r [folded b'_def] miss c(1) ids unfolding builder_apply_update_def Let_def update_meets_def
    by (simp only: simp_thms option.map) simp
  moreover obtain x y where xy: "sb_skipped_before b' = Some x" "sb_skipped_after b' = Some y"
    using builder_slice_skipped known unfolding b'_def by blast
  have ex': "builder_exact T b'" unfolding b'_def by (rule builder_slice_exact [OF ex fin lim])
  obtain A C where e: "flat_ok (sb_ids b')" "T = A \<union> set (sb_ids b') \<union> C"
    "\<And>a x. a \<in> A \<Longrightarrow> x \<in> set (sb_ids b') \<Longrightarrow> a < x" "\<And>a x. a \<in> A \<Longrightarrow> x \<in> C \<Longrightarrow> a < x"
    "\<And>x c. x \<in> set (sb_ids b') \<Longrightarrow> c \<in> C \<Longrightarrow> x < c"
    "\<And>n. sb_skipped_before b' = Some n \<Longrightarrow> n = int (card A)"
    "\<And>n. sb_skipped_after b' = Some n \<Longrightarrow> n = int (card C)"
    "\<And>n. sb_full_count b' = Some n \<Longrightarrow> n = int (card T)"
    by (rule builder_exactE [OF ex'], rule that, assumption+)
  have "distinct (sb_ids b')" using e(1) by (simp add: flat_ok_sorted_distinct)
  then have "card T = card A + length (sb_ids b') + card C"
    by (rule builder_exact_card [OF e(2) fin _ e(3,4,5)])
  then have "x + int (length (sb_ids b')) + y = int (card T)" using e(6) [OF xy(1)] e(7) [OF xy(2)] by simp
  ultimately show ?thesis using xy by auto
qed

section \<open>Removing ids\<close>

lemma card_remove_int:
  "finite A \<Longrightarrow> i \<in> A \<Longrightarrow> int (card A) - 1 = int (card (A - {i})) \<and> 0 < card A"
  by (cases "card A") (auto simp: card_gt_0_iff)

lemma builder_remove_one_fields:
  "sb_ids (snd (builder_remove_one i b)) = flat_remove i (sb_ids b)"
  "sb_full_count (snd (builder_remove_one i b)) =
     (case sb_full_count b of Some n \<Rightarrow> Some (if n > 0 then n - 1 else n) | None \<Rightarrow> None)"
  "sb_skipped_before (snd (builder_remove_one i b)) =
     (case sb_skipped_before b of
        Some n \<Rightarrow> Some (if i \<notin> set (sb_ids b) \<and> sb_ids b \<noteq> [] \<and> i < hd (sb_ids b) \<and> n > 0 then n - 1 else n)
      | None \<Rightarrow> None)"
  "sb_skipped_after (snd (builder_remove_one i b)) =
     (case sb_skipped_after b of
        Some n \<Rightarrow> Some (if i \<notin> set (sb_ids b) \<and> sb_ids b \<noteq> [] \<and> last (sb_ids b) < i \<and> n > 0
          \<and> \<not> (i < hd (sb_ids b) \<and> (\<exists>k > 0. sb_skipped_before b = Some k)) then n - 1 else n)
      | None \<Rightarrow> None)"
  by (cases "sb_full_count b"; cases "sb_skipped_before b"; cases "sb_skipped_after b";
      auto simp: builder_remove_one_def flat_remove_def remove1_idem)+

lemma builder_remove_one_exact:
  assumes "builder_exact T b" and "finite T" and "i \<in> T" and "sb_ids b \<noteq> []"
  shows "builder_exact (T - {i}) (snd (builder_remove_one i b))"
proof -
  obtain A C where e: "flat_ok (sb_ids b)" "T = A \<union> set (sb_ids b) \<union> C"
    "\<And>a x. a \<in> A \<Longrightarrow> x \<in> set (sb_ids b) \<Longrightarrow> a < x" "\<And>a x. a \<in> A \<Longrightarrow> x \<in> C \<Longrightarrow> a < x"
    "\<And>x c. x \<in> set (sb_ids b) \<Longrightarrow> c \<in> C \<Longrightarrow> x < c"
    "\<And>n. sb_skipped_before b = Some n \<Longrightarrow> n = int (card A)"
    "\<And>n. sb_skipped_after b = Some n \<Longrightarrow> n = int (card C)"
    "\<And>n. sb_full_count b = Some n \<Longrightarrow> n = int (card T)"
    by (rule builder_exactE [OF assms(1)], rule that, assumption+)
  let ?b = "snd (builder_remove_one i b)"
  have fin: "finite A" "finite C" using assms(2) e(2) by simp_all
  note cT = card_remove_int [OF assms(2,3)]
  have full: "n = int (card (T - {i}))" if h: "sb_full_count ?b = Some n" for n
  proof -
    obtain k where k: "sb_full_count b = Some k" "n = (if k > 0 then k - 1 else k)"
      using h by (auto simp: builder_remove_one_fields split: option.splits)
    then show ?thesis using e(8) [OF k(1)] cT by simp
  qed
  have ends: "hd (sb_ids b) \<in> set (sb_ids b)" "last (sb_ids b) \<in> set (sb_ids b)"
    using assms(4) by simp_all
  have ord: "a < x" if "a \<in> A - {i}" "x \<in> set (flat_remove i (sb_ids b))" for a x
    using that e(1,3) by simp
  have ord': "x < c" if "x \<in> set (flat_remove i (sb_ids b))" "c \<in> C - {i}" for x c
    using that e(1,5) by simp
  have ordAC: "a < c" if "a \<in> A - {i}" "c \<in> C - {i}" for a c using that e(4) by simp
  have T: "T - {i} = (A - {i}) \<union> set (flat_remove i (sb_ids b)) \<union> (C - {i})"
    using e(1,2) by (simp add: Un_Diff)
  have ids: "sb_ids ?b = flat_remove i (sb_ids b)" by (rule builder_remove_one_fields)
  have where_i: "i \<in> A \<longleftrightarrow> i \<notin> set (sb_ids b) \<and> i < hd (sb_ids b)"
    "i \<in> C \<longleftrightarrow> i \<notin> set (sb_ids b) \<and> last (sb_ids b) < i"
  proof -
    have nA: "i \<in> A \<Longrightarrow> i \<notin> set (sb_ids b) \<and> i < hd (sb_ids b) \<and> \<not> last (sb_ids b) < i"
      using e(3) [of i i] e(3) [OF _ ends(1)] e(3) [OF _ ends(2)] by (auto dest: less_asym)
    have nC: "i \<in> C \<Longrightarrow> i \<notin> set (sb_ids b) \<and> last (sb_ids b) < i \<and> \<not> i < hd (sb_ids b)"
      using e(5) [of i i] e(5) [OF ends(1)] e(5) [OF ends(2)] by (auto dest: less_asym)
    have "i \<in> A \<or> i \<in> set (sb_ids b) \<or> i \<in> C" using assms(3) e(2) by blast
    then show "i \<in> A \<longleftrightarrow> i \<notin> set (sb_ids b) \<and> i < hd (sb_ids b)"
      "i \<in> C \<longleftrightarrow> i \<notin> set (sb_ids b) \<and> last (sb_ids b) < i"
      using nA nC by blast+
  qed
  have hl: "hd (sb_ids b) \<le> last (sb_ids b)" using flat_hd_last(2) [OF e(1) ends(1)] .
  have before: "n = int (card (A - {i}))" if h: "sb_skipped_before ?b = Some n" for n
  proof -
    obtain k where k: "sb_skipped_before b = Some k"
      "n = (if i \<notin> set (sb_ids b) \<and> sb_ids b \<noteq> [] \<and> i < hd (sb_ids b) \<and> k > 0 then k - 1 else k)"
      using h by (auto simp: builder_remove_one_fields split: option.splits)
    show ?thesis
    proof (cases "i \<in> A")
      case True
      note c = card_remove_int [OF fin(1) True]
      have "i \<notin> set (sb_ids b)" "i < hd (sb_ids b)" "k > 0"
        using where_i(1) True e(6) [OF k(1)] c by simp_all
      then have "n = k - 1" using k(2) assms(4) by simp
      then show ?thesis using e(6) [OF k(1)] c by simp
    next
      case False
      then have "n = k" using k(2) where_i(1) by argo
      then show ?thesis using e(6) [OF k(1)] False by simp
    qed
  qed
  have after: "n = int (card (C - {i}))" if h: "sb_skipped_after ?b = Some n" for n
  proof -
    obtain k where k: "sb_skipped_after b = Some k"
      "n = (if i \<notin> set (sb_ids b) \<and> sb_ids b \<noteq> [] \<and> last (sb_ids b) < i \<and> k > 0
         \<and> \<not> (i < hd (sb_ids b) \<and> (\<exists>m > 0. sb_skipped_before b = Some m)) then k - 1 else k)"
      using h unfolding builder_remove_one_fields by (cases "sb_skipped_after b") simp_all
    have "last (sb_ids b) < i \<Longrightarrow> \<not> i < hd (sb_ids b)" using hl by auto
    then have front: "last (sb_ids b) < i \<Longrightarrow> \<not> i < hd (sb_ids b)" .
    show ?thesis
    proof (cases "i \<in> C")
      case True
      note c = card_remove_int [OF fin(2) True]
      have "i \<notin> set (sb_ids b)" "last (sb_ids b) < i" "k > 0"
        using where_i(2) True e(7) [OF k(1)] c by simp_all
      then have "n = k - 1" using k(2) assms(4) front by simp
      then show ?thesis using e(7) [OF k(1)] c by simp
    next
      case False
      then have "n = k" using k(2) where_i(2) by argo
      then show ?thesis using e(7) [OF k(1)] False by simp
    qed
  qed
  show ?thesis
  proof (rule builder_exactI [where A = "A - {i}" and C = "C - {i}"])
    show "flat_ok (sb_ids ?b)" unfolding ids using e(1) by (rule flat_ok_remove)
    show "T - {i} = (A - {i}) \<union> set (sb_ids ?b) \<union> (C - {i})" unfolding ids by (rule T)
    fix a x
    show "a \<in> A - {i} \<Longrightarrow> x \<in> set (sb_ids ?b) \<Longrightarrow> a < x" unfolding ids by (rule ord)
    show "a \<in> set (sb_ids ?b) \<Longrightarrow> x \<in> C - {i} \<Longrightarrow> a < x" unfolding ids by (rule ord')
  qed (rule ordAC before after full, assumption+)+
qed

lemma builder_remove_all_exact: "builder_exact {} (builder_remove_all b)"
  by (rule builder_exactI [where A = "{}" and C = "{}"]) (simp_all add: builder_remove_all_def)

lemma builder_remove_one_keys [simp]:
  "sb_limit_before (snd (builder_remove_one i b)) = sb_limit_before b"
  "sb_limit_after (snd (builder_remove_one i b)) = sb_limit_after b"
  "sb_key (snd (builder_remove_one i b)) = sb_key b"
  by (simp_all add: builder_remove_one_def Let_def split: option.split)

section \<open>When nothing more is asked for\<close>

text \<open>The block sits at the key: what is missing before it is below the key, what is missing after
  it is not.\<close>

definition builder_centered :: "'k::linorder set \<Rightarrow> ('k, 'z) slice_builder_scheme \<Rightarrow> bool" where
  "builder_centered T b \<longleftrightarrow> (\<forall>m \<in> T - set (sb_ids b).
     (m < sb_key b \<and> (\<forall>x \<in> set (sb_ids b). m < x)) \<or> (sb_key b \<le> m \<and> (\<forall>x \<in> set (sb_ids b). x < m)))"

text \<open>The window of \<open>T\<close> a viewer is meant to show.\<close>

definition full_window :: "'k::linorder set \<Rightarrow> 'k \<Rightarrow> int \<Rightarrow> int \<Rightarrow> 'k list" where
  "full_window T k before after =
     (let below = filter (\<lambda>x. x < k) (sorted_list_of_set T)
      in drop (length below - nat before) below
         @ take (nat (after + 1)) (filter (\<lambda>x. k \<le> x) (sorted_list_of_set T)))"

lemma sorted_list_of_blocks:
  assumes "finite (T :: 'k::linorder set)" and "T = A \<union> set ids \<union> C" and "flat_ok ids"
    and "\<And>a x. a \<in> A \<Longrightarrow> x \<in> set ids \<Longrightarrow> a < x" and "\<And>a x. a \<in> A \<Longrightarrow> x \<in> C \<Longrightarrow> a < x"
    and "\<And>x c. x \<in> set ids \<Longrightarrow> c \<in> C \<Longrightarrow> x < c"
  shows "sorted_list_of_set T = sorted_list_of_set A @ ids @ sorted_list_of_set C"
proof (rule flat_ok_unique)
  have fin: "finite A" "finite C" using assms(1,2) by simp_all
  show "flat_ok (sorted_list_of_set T)" by simp
  show "flat_ok (sorted_list_of_set A @ ids @ sorted_list_of_set C)"
    using assms(3-6) fin by (auto simp: sorted_wrt_append)
  show "set (sorted_list_of_set T) = set (sorted_list_of_set A @ ids @ sorted_list_of_set C)"
    using assms(1,2) fin by (simp add: Un_assoc)
qed

lemma builder_centered_split:
  assumes "builder_centered T b" and "T = A \<union> set (sb_ids b) \<union> C" and "sb_ids b \<noteq> []"
    and "\<And>a x. a \<in> A \<Longrightarrow> x \<in> set (sb_ids b) \<Longrightarrow> a < x" and "\<And>x c. x \<in> set (sb_ids b) \<Longrightarrow> c \<in> C \<Longrightarrow> x < c"
  shows "a \<in> A \<Longrightarrow> a < sb_key b" and "c \<in> C \<Longrightarrow> sb_key b \<le> c"
proof -
  have h: "hd (sb_ids b) \<in> set (sb_ids b)" using assms(3) by simp
  show "a < sb_key b" if "a \<in> A"
  proof -
    have "a < hd (sb_ids b)" "a \<notin> set (sb_ids b)" using assms(4) [OF that] h by blast+
    then show ?thesis using assms(1,2) h that unfolding builder_centered_def by (blast dest: less_asym)
  qed
  show "sb_key b \<le> c" if "c \<in> C"
  proof -
    have "hd (sb_ids b) < c" "c \<notin> set (sb_ids b)" using assms(5) [OF _ that] h by blast+
    then show ?thesis using assms(1,2) h that unfolding builder_centered_def by (blast dest: less_asym)
  qed
qed

lemma builder_complete_window:
  assumes "builder_exact T b" and "builder_centered T b" and "finite T" and set: "kk_set kk (sb_key b)"
    and lim: "0 \<le> sb_limit_before b" "0 \<le> sb_limit_after b" and ne: "sb_ids b \<noteq> []"
    and quiet: "snd (builder_slice_to_limits kk b) = []"
  shows "sb_ids (fst (builder_slice_to_limits kk b)) = full_window T (sb_key b) (sb_limit_before b) (sb_limit_after b)"
proof -
  let ?k = "sb_key b" and ?ids = "sb_ids b"
  obtain A C where e: "flat_ok ?ids" "T = A \<union> set ?ids \<union> C"
    "\<And>a x. a \<in> A \<Longrightarrow> x \<in> set ?ids \<Longrightarrow> a < x" "\<And>a x. a \<in> A \<Longrightarrow> x \<in> C \<Longrightarrow> a < x"
    "\<And>x c. x \<in> set ?ids \<Longrightarrow> c \<in> C \<Longrightarrow> x < c"
    "\<And>n. sb_skipped_before b = Some n \<Longrightarrow> n = int (card A)"
    "\<And>n. sb_skipped_after b = Some n \<Longrightarrow> n = int (card C)"
    "\<And>n. sb_full_count b = Some n \<Longrightarrow> n = int (card T)"
    by (rule builder_exactE [OF assms(1)], rule that, assumption+)
  note cen = builder_centered_split [OF assms(2) e(2) ne e(3,5)]
  have T: "sorted_list_of_set T = sorted_list_of_set A @ ?ids @ sorted_list_of_set C"
    by (rule sorted_list_of_blocks [OF assms(3) e(2,1,3,4,5)])
  have fin: "finite A" "finite C" using assms(3) e(2) by simp_all
  have fA: "filter (\<lambda>x. x < ?k) (sorted_list_of_set A) = sorted_list_of_set A"
      "filter (\<lambda>x. ?k \<le> x) (sorted_list_of_set A) = []"
    using fin cen(1) by (auto simp: filter_id_conv filter_empty_conv not_le)
  have fC: "filter (\<lambda>x. x < ?k) (sorted_list_of_set C) = []"
      "filter (\<lambda>x. ?k \<le> x) (sorted_list_of_set C) = sorted_list_of_set C"
    using fin cen(2) by (auto simp: filter_id_conv filter_empty_conv not_less)
  let ?lo = "filter (\<lambda>x. x < ?k) ?ids" and ?hi = "filter (\<lambda>x. ?k \<le> x) ?ids"
  have p: "flat_lower ?ids ?k = length ?lo" by (rule flat_lower_filter [OF e(1)])
  have len: "length ?ids = length ?lo + length ?hi"
    using sum_length_filter_compl [of "\<lambda>x. x < ?k" ?ids] by (simp add: not_less)
  note q = builder_slice_requests [OF set refl refl quiet]
  have lo: "nat (sb_limit_before b) \<le> length ?lo \<or> A = {}"
  proof (cases "sb_limit_before b \<le> int (length ?lo)")
    case False
    then obtain n where "n \<le> 0" "sb_skipped_before b = Some n" using q unfolding p by blast
    then show ?thesis using e(6) fin(1) by fastforce
  next
    case True
    then have "nat (sb_limit_before b) \<le> length ?lo" by linarith
    then show ?thesis ..
  qed
  have hi: "nat (sb_limit_after b + 1) \<le> length ?hi \<or> C = {}"
  proof (cases "sb_limit_after b < int (length ?ids) - int (length ?lo)")
    case True
    then have "nat (sb_limit_after b + 1) \<le> length ?hi" using len by linarith
    then show ?thesis ..
  next
    case False
    then obtain n where "n \<le> 0" "sb_skipped_after b = Some n" using q unfolding p by blast
    then show ?thesis using e(7) fin(2) by fastforce
  qed
  have "full_window T ?k (sb_limit_before b) (sb_limit_after b) =
      drop (length (sorted_list_of_set A @ ?lo) - nat (sb_limit_before b)) (sorted_list_of_set A @ ?lo)
      @ take (nat (sb_limit_after b + 1)) (?hi @ sorted_list_of_set C)"
    unfolding full_window_def Let_def T filter_append fA fC by simp
  also have "drop (length (sorted_list_of_set A @ ?lo) - nat (sb_limit_before b)) (sorted_list_of_set A @ ?lo)
      = drop (length ?lo - nat (sb_limit_before b)) ?lo"
    using lo by (auto simp: le_diff_conv2)
  also have "take (nat (sb_limit_after b + 1)) (?hi @ sorted_list_of_set C) = take (nat (sb_limit_after b + 1)) ?hi"
    using hi by auto
  finally show ?thesis using builder_slice_window [OF e(1) set lim] by simp
qed

section \<open>Starting from the answer of a list\<close>

text \<open>An answer cuts the slice's ids in three; the numbers are the lengths of the outer parts or
  what they must be to make the total.\<close>

lemma query_from_slice_split:
  assumes lim: "0 \<le> q_before q" "0 \<le> q_after q" and r: "r = query_from_slice lo hi cnt q s"
  shows "\<exists>X Z. sl_messages s = X @ res_ids r @ Z
    \<and> set X \<subseteq> set (take (flat_lower (sl_messages s) (q_around q)) (sl_messages s))
    \<and> set Z \<subseteq> set (drop (flat_lower (sl_messages s) (q_around q)) (sl_messages s))
    \<and> res_skipped_before r = (if sl_from s = lo then Some (int (length X))
        else if sl_till s = hi then map_option (\<lambda>c. c - int (length Z) - int (length (res_ids r))) cnt
        else None)
    \<and> res_skipped_after r = (if sl_till s = hi then Some (int (length Z))
        else if sl_from s = lo then map_option (\<lambda>c. c - int (length X) - int (length (res_ids r))) cnt
        else None)
    \<and> res_count r = cnt"
proof -
  let ?ids = "sl_messages s" and ?p = "flat_lower (sl_messages s) (q_around q)"
  have p: "?p \<le> length ?ids" by (rule flat_lower_le)
  define b where "b = min ?p (nat (q_before q))"
  define a where "a = min (length ?ids - ?p) (nat (q_after q + 1))"
  have nums: "min (int ?p) (q_before q) = int b" "min (int (length ?ids) - int ?p) (q_after q + 1) = int a"
    using lim p unfolding a_def b_def by linarith+
  have le: "b \<le> ?p" "a \<le> length ?ids - ?p" by (simp_all add: a_def b_def)
  define X where "X = take (?p - b) ?ids"
  define Y where "Y = take (b + a) (drop (?p - b) ?ids)"
  define Z where "Z = drop (b + a) (drop (?p - b) ?ids)"
  have ints: "int ?p - int b = int (?p - b)" "nat (int b + int a) = b + a"
    using le(1) by (simp_all add: of_nat_diff)
  have Y: "ids_window ?ids (q_around q) (int b) (int a) = Y"
    unfolding ids_window_def Let_def ints nat_int Y_def ..
  have "?ids = X @ drop (?p - b) ?ids" unfolding X_def by (rule append_take_drop_id [symmetric])
  also have "drop (?p - b) ?ids = Y @ Z" unfolding Y_def Z_def by (rule append_take_drop_id [symmetric])
  finally have split: "?ids = X @ Y @ Z" .
  have lX: "int ?p - int b = int (length X)"
    using p le(1) unfolding X_def by simp
  have lZ: "int (length ?ids) - int ?p - int a = int (length Z)"
    using p le unfolding Z_def by simp
  have ids: "res_ids r = Y" and cnt: "res_count r = cnt"
    by (simp_all add: r query_from_slice_def Let_def nums Y split: option.split)
  have before: "res_skipped_before r = (if sl_from s = lo then Some (int (length X))
        else if sl_till s = hi then map_option (\<lambda>c. c - int (length Z) - int (length Y)) cnt else None)"
    and after: "res_skipped_after r = (if sl_till s = hi then Some (int (length Z))
        else if sl_from s = lo then map_option (\<lambda>c. c - int (length X) - int (length Y)) cnt else None)"
    by (simp_all add: r query_from_slice_def Let_def nums Y lX lZ split: option.split)
  have inX: "set X \<subseteq> set (take ?p ?ids)" unfolding X_def by (rule set_take_subset_set_take) simp
  have "Z = drop a (drop ?p ?ids)" unfolding Z_def using le(1) by (simp add: add.commute)
  then have inZ: "set Z \<subseteq> set (drop ?p ?ids)" by (simp only: set_drop_subset)
  show ?thesis
    by (rule exI [of _ X], rule exI [of _ Z]) (unfold ids, intro conjI split before after cnt inX inZ)
qed

text \<open>Between them they count the ids outside the answer, given that the known total is right.\<close>

lemma query_from_slice_numbers:
  assumes s: "slice_ok s" and lim: "0 \<le> q_before q" "0 \<le> q_after q"
    and T: "finite T" "T \<subseteq> {lo .. hi}" "set (sl_messages s) = T \<inter> {sl_from s .. sl_till s}"
    and cnt: "\<And>c. cnt = Some c \<Longrightarrow> c = int (card T)"
    and r: "r = query_from_slice lo hi cnt q s" and ne: "res_ids r \<noteq> []"
  shows "\<forall>n. res_skipped_before r = Some n \<longrightarrow> n = int (card {m \<in> T. m < hd (res_ids r)})"
    and "\<forall>n. res_skipped_after r = Some n \<longrightarrow> n = int (card {m \<in> T. last (res_ids r) < m})"
    and "\<forall>m \<in> T - set (res_ids r). (\<forall>x \<in> set (res_ids r). m < x) \<or> (\<forall>x \<in> set (res_ids r). x < m)"
proof -
  obtain X Z where split: "sl_messages s = X @ res_ids r @ Z"
    and before: "res_skipped_before r = (if sl_from s = lo then Some (int (length X))
        else if sl_till s = hi then map_option (\<lambda>c. c - int (length Z) - int (length (res_ids r))) cnt
        else None)"
    and after: "res_skipped_after r = (if sl_till s = hi then Some (int (length Z))
        else if sl_from s = lo then map_option (\<lambda>c. c - int (length X) - int (length (res_ids r))) cnt
        else None)"
    using query_from_slice_split [OF lim r] by blast
  define Y where "Y = res_ids r"
  have "flat_ok (sl_messages s)" using s by (simp add: slice_ok_def)
  then have flats: "flat_ok X" "flat_ok Y" "flat_ok Z" and XY: "\<And>x y. x \<in> set X \<Longrightarrow> y \<in> set Y \<Longrightarrow> x < y"
    and YZ: "\<And>y z. y \<in> set Y \<Longrightarrow> z \<in> set Z \<Longrightarrow> y < z"
    unfolding split Y_def [symmetric] sorted_wrt_append by auto
  have hl: "hd Y \<in> set Y" "last Y \<in> set Y" using ne by (simp_all add: Y_def)
  have ends: "hd Y \<le> y" "y \<le> last Y" if "y \<in> set Y" for y
    using flat_hd_last [OF flats(2) that] by simp_all
  have sets: "T \<inter> {sl_from s .. sl_till s} = set X \<union> set Y \<union> set Z"
    unfolding T(3) [symmetric] split Y_def by auto
  have inT: "sl_from s \<le> hd Y" "last Y \<le> sl_till s" using hl sets by auto
  define A where "A = {m \<in> T. m < hd Y}"
  define C where "C = {m \<in> T. last Y < m}"
  have mid: "m \<in> set X \<union> set Y \<union> set Z" if "m \<in> T" "hd Y \<le> m" "m \<le> last Y" for m
  proof -
    have "m \<in> T \<inter> {sl_from s .. sl_till s}"
      using that(1) order_trans [OF inT(1) that(2)] order_trans [OF that(3) inT(2)] by simp
    then show ?thesis unfolding sets .
  qed
  have midY: "m \<in> set Y" if "m \<in> T" "hd Y \<le> m" "m \<le> last Y" for m
    using mid [OF that] that XY [OF _ hl(1)] YZ [OF hl(2)] by (auto dest: leD)
  have YT: "set Y \<subseteq> T" using sets by blast
  have split3: "T = A \<union> set Y \<union> C"
    unfolding A_def C_def using midY YT by (auto simp: not_less [symmetric])
  have aY: "a < y" if "a \<in> A" "y \<in> set Y" for a y
    using that ends(1) [OF that(2)] by (auto simp: A_def intro: less_le_trans)
  have Yc: "y < c" if "y \<in> set Y" "c \<in> C" for y c
    using that ends(2) [OF that(1)] by (auto simp: C_def intro: le_less_trans)
  have ac: "a < c" if "a \<in> A" "c \<in> C" for a c
    using aY [OF that(1) hl(1)] Yc [OF hl(1) that(2)] by (rule less_trans)
  have dist: "distinct Y" using flats(2) by (simp add: flat_ok_sorted_distinct)
  have card: "card T = card A + length Y + card C"
    by (rule builder_exact_card [OF split3 T(1) dist aY ac Yc])
  have low: "length X = card A" if "sl_from s = lo"
  proof -
    have "A = set X"
    proof
      show "set X \<subseteq> A" using sets XY hl by (auto simp: A_def)
      show "A \<subseteq> set X"
      proof
        fix m assume "m \<in> A"
        then have m: "m \<in> T" "m < hd Y" by (simp_all add: A_def)
        then have "sl_from s \<le> m" using T(2) that by auto
        moreover have "m \<le> sl_till s" using m(2) ends(1) [OF hl(2)] inT(2) by (meson less_imp_le order_trans)
        ultimately have "m \<in> T \<inter> {sl_from s .. sl_till s}" using m(1) by simp
        then have "m \<in> set X \<union> set Y \<union> set Z" unfolding sets .
        then show "m \<in> set X" using m(2) ends(1) YZ [OF hl(1)] by (auto dest: leD less_asym)
      qed
    qed
    then show ?thesis using flats(1) by (simp add: flat_ok_sorted_distinct distinct_card)
  qed
  have high: "length Z = card C" if "sl_till s = hi"
  proof -
    have "C = set Z"
    proof
      show "set Z \<subseteq> C" using sets YZ hl by (auto simp: C_def)
      show "C \<subseteq> set Z"
      proof
        fix m assume "m \<in> C"
        then have m: "m \<in> T" "last Y < m" by (simp_all add: C_def)
        then have "m \<le> sl_till s" using T(2) that by auto
        moreover have "sl_from s \<le> m" using m(2) ends(1) [OF hl(2)] inT(1) by (meson less_imp_le order_trans)
        ultimately have "m \<in> T \<inter> {sl_from s .. sl_till s}" using m(1) by simp
        then have "m \<in> set X \<union> set Y \<union> set Z" unfolding sets .
        then show "m \<in> set Z" using m(2) ends(2) XY [OF _ hl(2)] by (auto dest: leD less_asym)
      qed
    qed
    then show ?thesis using flats(3) by (simp add: flat_ok_sorted_distinct distinct_card)
  qed
  show "\<forall>n. res_skipped_before r = Some n \<longrightarrow> n = int (card {m \<in> T. m < hd (res_ids r)})"
  proof (intro allI impI)
    fix n assume n: "res_skipped_before r = Some n"
    show "n = int (card {m \<in> T. m < hd (res_ids r)})"
    proof (cases "sl_from s = lo")
      case True
      then show ?thesis using n low unfolding before A_def [symmetric] Y_def [symmetric] by simp
    next
      case False
      then have hi: "sl_till s = hi" and "map_option (\<lambda>c. c - int (length Z) - int (length Y)) cnt = Some n"
        using n unfolding before Y_def by (auto split: if_splits)
      then obtain c where "cnt = Some c" "n = c - int (length Z) - int (length Y)" by blast
      then show ?thesis using cnt high [OF hi] card unfolding A_def [symmetric] Y_def [symmetric] by simp
    qed
  qed
  show "\<forall>n. res_skipped_after r = Some n \<longrightarrow> n = int (card {m \<in> T. last (res_ids r) < m})"
  proof (intro allI impI)
    fix n assume n: "res_skipped_after r = Some n"
    show "n = int (card {m \<in> T. last (res_ids r) < m})"
    proof (cases "sl_till s = hi")
      case True
      then show ?thesis using n high unfolding after C_def [symmetric] Y_def [symmetric] by simp
    next
      case False
      then have lo: "sl_from s = lo" and "map_option (\<lambda>c. c - int (length X) - int (length Y)) cnt = Some n"
        using n unfolding after Y_def by (auto split: if_splits)
      then obtain c where "cnt = Some c" "n = c - int (length X) - int (length Y)" by blast
      then show ?thesis using cnt low [OF lo] card unfolding C_def [symmetric] Y_def [symmetric] by simp
    qed
  qed
  show "\<forall>m \<in> T - set (res_ids r). (\<forall>x \<in> set (res_ids r). m < x) \<or> (\<forall>x \<in> set (res_ids r). x < m)"
    unfolding Y_def [symmetric] using split3 aY Yc by blast
qed

text \<open>What an answer around a key must say for a fresh builder: its ids are a block of \<open>T\<close> that
  sits at the key and its numbers are right.\<close>

definition answer_faithful :: "'k::linorder set \<Rightarrow> 'k \<Rightarrow> 'k list_result \<Rightarrow> bool" where
  "answer_faithful T k r \<longleftrightarrow>
     merge_faithful T (res_count r) (res_ids r) (res_skipped_before r) (res_skipped_after r) []
     \<and> (\<forall>m \<in> T - set (res_ids r). (m < k \<and> (\<forall>x \<in> set (res_ids r). m < x))
          \<or> (k \<le> m \<and> (\<forall>x \<in> set (res_ids r). x < m)))"

lemma query_from_slice_faithful:
  assumes s: "slice_ok s" and lim: "0 \<le> q_before q" "0 \<le> q_after q"
    and T: "finite T" "T \<subseteq> {lo .. hi}" "set (sl_messages s) = T \<inter> {sl_from s .. sl_till s}"
    and cnt: "\<And>c. cnt = Some c \<Longrightarrow> c = int (card T)"
    and key: "sl_from s \<le> q_around q" "q_around q \<le> sl_till s"
  shows "answer_faithful T (q_around q) (query_from_slice lo hi cnt q s)"
proof -
  define r where "r = query_from_slice lo hi cnt q s"
  have flat: "flat_ok (sl_messages s)" using s by (simp add: slice_ok_def)
  obtain X Z where split: "sl_messages s = X @ res_ids r @ Z"
    and X: "set X \<subseteq> set (take (flat_lower (sl_messages s) (q_around q)) (sl_messages s))"
    and Z: "set Z \<subseteq> set (drop (flat_lower (sl_messages s) (q_around q)) (sl_messages s))"
    and rc: "res_count r = cnt"
    using query_from_slice_split [OF lim r_def] by blast
  have flats: "flat_ok (X @ res_ids r @ Z)" using flat split by simp
  have below: "x < q_around q" if "x \<in> set X" for x
    using that X unfolding take_flat_lower [OF flat] by auto
  have above: "q_around q \<le> z" if "z \<in> set Z" for z
    using that Z unfolding drop_flat_lower [OF flat] by auto
  have sub: "set (res_ids r) \<subseteq> T" using T(3) split by auto
  have inR: "sl_from s \<le> y" "y \<le> sl_till s" if "y \<in> set (res_ids r)" for y
    using that T(3) split by auto
  have centered: "(m < q_around q \<and> (\<forall>x \<in> set (res_ids r). m < x))
      \<or> (q_around q \<le> m \<and> (\<forall>x \<in> set (res_ids r). x < m))"
    if m: "m \<in> T" "m \<notin> set (res_ids r)" for m
  proof -
    consider "m < sl_from s" | "sl_till s < m" | "m \<in> set (sl_messages s)"
      using m(1) T(3) by (auto simp: not_le [symmetric])
    then show ?thesis
    proof cases
      case 1
      then show ?thesis using key(1) inR(1) by (blast intro: less_le_trans)
    next
      case 2
      then show ?thesis using key(2) inR(2) by (blast intro: le_less_trans less_imp_le)
    next
      case 3
      then have "m \<in> set X \<or> m \<in> set Z" using m(2) split by auto
      then show ?thesis using below above flats by (auto simp: sorted_wrt_append)
    qed
  qed
  note numbers = query_from_slice_numbers [OF s lim T cnt r_def]
  have "merge_faithful T (res_count r) (res_ids r) (res_skipped_before r) (res_skipped_after r) []"
    unfolding merge_faithful_def rc using flats sub cnt numbers by (simp add: sorted_wrt_append)
  then show ?thesis using centered unfolding answer_faithful_def r_def [symmetric] by blast
qed

lemma builder_initial_complete:
  assumes "answer_faithful T (sb_key b) r" and fin: "finite T" and set: "kk_set kk (sb_key b)"
    and lim: "0 \<le> sb_limit_before b" "0 \<le> sb_limit_after b"
    and fresh: "sb_ids b = []" "sb_full_count b = None" "sb_skipped_before b = None" "sb_skipped_after b = None"
  shows "\<exists>b' q. builder_apply_initial kk r b = Some (b', q) \<and> builder_ok T b'
    \<and> (q = [] \<longrightarrow> sb_ids b' = full_window T (sb_key b) (sb_limit_before b) (sb_limit_after b))"
proof -
  have ex: "builder_exact T b"
    using fresh by (intro builder_exactI [where A = "{}" and C = T]) simp_all
  then have ok: "builder_ok T b" using lim by (simp add: builder_ok_def)
  have faithful: "merge_faithful T (res_count r) (res_ids r) (res_skipped_before r) (res_skipped_after r) (sb_ids b)"
    using assms(1) fresh(1) by (simp add: answer_faithful_def)
  obtain b' q where b': "builder_apply_initial kk r b = Some (b', q)" "builder_ok T b'"
    using builder_merge_slice_data_ok [OF ok builder_exact_near [OF ex] lim fin faithful] unfolding builder_apply_initial_def by blast
  have "sb_ids b' = full_window T (sb_key b) (sb_limit_before b) (sb_limit_after b)" if quiet: "q = []"
  proof (cases "res_ids r = []")
    case True
    define b0 where "b0 = builder_fill_skipped (builder_merge_empty (res_count r) b)"
    have sl: "builder_slice_to_limits kk b0 = (b', [])"
      using b'(1) True quiet
      by (simp add: builder_apply_initial_def builder_merge_slice_data_def builder_fill_skipped_and_slice_def b0_def)
    have b0: "sb_ids b0 = []" "sb_key b0 = sb_key b" "sb_limit_before b0 = sb_limit_before b"
      "sb_limit_after b0 = sb_limit_after b"
      using fresh(1) by (simp_all add: b0_def)
    have "kk_set kk (sb_key b0)" using set b0(2) by simp
    from builder_slice_requests [OF this refl refl, unfolded sl]
    have "\<exists>n \<le> 0. sb_skipped_after b0 = Some n"
      using lim(2) by (auto simp: b0 flat_lower_def)
    then have "res_count r = Some 0"
      using fresh by (auto simp: b0_def builder_fill_skipped_def builder_merge_empty_def split: option.splits if_splits)
    then have "card T = 0" using faithful by (simp add: merge_faithful_def)
    then have "T = {}" using fin by simp
    moreover have "sb_ids b' = []"
      using arg_cong [OF sl, of "\<lambda>x. sb_ids (fst x)"] set b0
      by (simp add: builder_slice_fst builder_cut_ids)
    ultimately show ?thesis by (simp add: full_window_def)
  next
    case False
    obtain b1 where b1: "builder_merge_ids kk (res_count r) (res_ids r) (res_skipped_before r) (res_skipped_after r) b = Some b1"
      "builder_exact T b1" "sb_ids b1 = flat_merge (sb_ids b) (res_ids r)" "sb_key b1 = sb_key b"
      "sb_limit_before b1 = sb_limit_before b" "sb_limit_after b1 = sb_limit_after b"
      using builder_merge_ids_exact [OF builder_exact_near [OF ex] fin faithful False] by blast
    have "flat_ok (res_ids r)" using faithful by (simp add: merge_faithful_def)
    then have ids: "sb_ids b1 = res_ids r"
      unfolding b1(3) fresh(1) by (intro flat_ok_unique) simp_all
    define b2 where "b2 = builder_fill_skipped b1"
    have sl: "builder_slice_to_limits kk b2 = (b', [])"
      using b'(1) b1(1) False quiet
      by (simp add: builder_apply_initial_def builder_merge_slice_data_def builder_fill_skipped_and_slice_def b2_def)
    have b2: "sb_ids b2 = res_ids r" "sb_key b2 = sb_key b" "sb_limit_before b2 = sb_limit_before b"
      "sb_limit_after b2 = sb_limit_after b"
      using b1 ids by (simp_all add: b2_def)
    have "builder_centered T b2" using assms(1) by (simp add: builder_centered_def answer_faithful_def b2)
    moreover have "builder_exact T b2" unfolding b2_def by (rule builder_fill_exact [OF b1(2) fin])
    ultimately have "sb_ids (fst (builder_slice_to_limits kk b2))
        = full_window T (sb_key b2) (sb_limit_before b2) (sb_limit_after b2)"
      using set lim False sl fin by (intro builder_complete_window) (simp_all add: b2)
    then show ?thesis by (simp add: sl b2)
  qed
  then show ?thesis using b' by blast
qed

end
