(* ===== verification/Messages_Builder.thy ===== *)
theory Messages_Builder
  imports Messages_List Slice_Builder
begin

text \<open>
  \<open>Data::MessagesSliceBuilder\<close> (\<open>data/data_messages.cpp\<close>): the builder over message positions,
  the slice it shows, and what connects it to the list it is fed from: an answer of a list that
  tracks the history makes an exact builder, and once a builder asks for nothing more the slice it
  shows is the whole window of the history around its key.
\<close>

record messages_builder = "message_position slice_builder" +
  mb_range :: messages_range

definition no_position :: message_position where
  "no_position = MessagePosition (FullMsgId 0 0) 0"

definition impossible_position :: message_position where
  "impossible_position = MessagePosition (FullMsgId 0 0) (- 1)"

definition messages_kind :: "message_position key_kind" where
  "messages_kind = \<lparr> kk_zero = no_position, kk_set = message_position_bool,
     kk_min = min_message_position, kk_max = max_message_position,
     kk_valid = (\<lambda>p. p \<noteq> impossible_position) \<rparr>"

definition messages_builder_new :: "message_position \<Rightarrow> int \<Rightarrow> int \<Rightarrow> messages_builder" where
  "messages_builder_new key before after =
     \<lparr> sb_key = key, sb_ids = [], sb_full_count = None, sb_skipped_before = None,
       sb_skipped_after = None, sb_limit_before = before, sb_limit_after = after,
       mb_range = \<lparr> rng_from = no_position, rng_till = no_position \<rparr> \<rparr>"

type_synonym messages_requests = "message_position around_data list"

definition messages_builder_apply_initial ::
  "messages_result \<Rightarrow> messages_builder \<Rightarrow> (bool \<times> messages_builder \<times> messages_requests) option" where
  "messages_builder_apply_initial r b =
     map_option (\<lambda>(b', q). (True, b', q)) (builder_apply_initial messages_kind r b)"

definition messages_builder_apply_update ::
  "messages_slice_update \<Rightarrow> messages_builder \<Rightarrow> (bool \<times> messages_builder \<times> messages_requests) option" where
  "messages_builder_apply_update u b = builder_apply_update messages_kind u b"

definition messages_builder_remove_one ::
  "message_position \<Rightarrow> messages_builder \<Rightarrow> bool \<times> messages_builder" where
  "messages_builder_remove_one p b = builder_remove_one p b"

definition messages_builder_remove_all :: "messages_builder \<Rightarrow> bool \<times> messages_builder" where
  "messages_builder_remove_all b = (True, (builder_remove_all b)\<lparr> mb_range := full_messages_range \<rparr>)"

definition messages_builder_invalidated ::
  "messages_builder \<Rightarrow> bool \<times> messages_builder \<times> messages_requests" where
  "messages_builder_invalidated b =
     (let (b', q) = builder_slice_to_limits messages_kind
        (b\<lparr> sb_ids := [], sb_full_count := None, sb_skipped_before := None, sb_skipped_after := None \<rparr>)
      in (False, b', q))"

definition messages_builder_bottom_invalidated ::
  "messages_builder \<Rightarrow> bool \<times> messages_builder \<times> messages_requests" where
  "messages_builder_bottom_invalidated b =
     (let (b', q) = builder_bottom_invalidated messages_kind b in (True, b', q))"

text \<open>What is shown.\<close>

record messages_view =
  mv_ids :: "full_msg_id list"
  mv_nearest_to_around :: full_msg_id
  mv_skipped_before :: "int option"
  mv_skipped_after :: "int option"
  mv_full_count :: "int option"

definition messages_builder_snapshot :: "messages_builder \<Rightarrow> messages_view" where
  "messages_builder_snapshot b =
     \<lparr> mv_ids = map pos_full_id (sb_ids b),
       mv_nearest_to_around =
         (case List.find (\<lambda>p. p \<ge> sb_key b) (sb_ids b) of
            Some p \<Rightarrow> pos_full_id p
          | None \<Rightarrow> if sb_ids b = [] then FullMsgId 0 0 else pos_full_id (last (sb_ids b))),
       mv_skipped_before = sb_skipped_before b,
       mv_skipped_after = sb_skipped_after b,
       mv_full_count = sb_full_count b \<rparr>"

section \<open>From the list to the builder\<close>

lemma messages_builder_new_ok:
  "finite T \<Longrightarrow> 0 \<le> before \<Longrightarrow> 0 \<le> after \<Longrightarrow> builder_ok T (messages_builder_new key before after)"
  unfolding builder_ok_def messages_builder_new_def
  by (simp add: builder_exact_def) (intro exI [of _ "{}"] exI [of _ T], simp)

lemma messages_query_faithful:
  assumes "messages_covers T l" and "finite T" and "T \<subseteq> {min_message_position .. max_message_position}"
    and cnt: "\<And>c. ml_count l = Some c \<Longrightarrow> c = int (card T)"
    and lim: "0 \<le> q_before q" "0 \<le> q_after q" and key: "message_position_bool (q_around q)"
    and "slices_find (ml_slices l) (q_around q) = Some i"
  shows "answer_faithful T (q_around q) (messages_query_current l q)"
proof -
  have ok: "slices_ok (ml_slices l)" and eq: "ml_ids l = T \<inter> ml_known l"
    using assms(1) by (auto simp: messages_covers_def messages_list_ok_def)
  note i = slices_findD [OF ok assms(8)]
  let ?s = "ml_slices l ! i"
  have s: "slice_ok ?s" using ok i(1) by (simp add: slices_ok_def)
  have "slices_ok (take i (ml_slices l) @ ?s # drop (Suc i) (ml_slices l))"
    using ok i(1) by (simp flip: id_take_nth_drop)
  then have rest: "{sl_from ?s .. sl_till ?s} \<inter> slices_ids (take i (ml_slices l) @ drop (Suc i) (ml_slices l)) = {}"
    using slices_key_unique [OF ok i(1)] by (auto simp: disjoint_iff)
  have "ml_ids l = set (sl_messages ?s) \<union> slices_ids (take i (ml_slices l) @ drop (Suc i) (ml_slices l))"
    using slices_ids_update [OF i(1), of ?s] by simp
  moreover have "{sl_from ?s .. sl_till ?s} \<subseteq> ml_known l"
    using nth_mem [OF i(1)] by (fastforce simp: slices_known_def)
  moreover have "set (sl_messages ?s) \<subseteq> {sl_from ?s .. sl_till ?s}" using s by (auto simp: slice_ok_def)
  ultimately have "set (sl_messages ?s) = T \<inter> {sl_from ?s .. sl_till ?s}"
    using eq rest by blast
  then have "answer_faithful T (q_around q)
      (query_from_slice min_message_position max_message_position (ml_count l) q ?s)"
    using s lim assms(2,3) cnt i(2,3) by (intro query_from_slice_faithful)
  then show ?thesis
    using key assms(8) by (simp add: messages_query_current_def messages_query_from_slice_def)
qed

lemma messages_update_faithful:
  assumes "messages_list_ok l" and "rng_from r \<le> rng_till r"
    and "\<forall>m \<in> set ms. rng_from r \<le> m \<and> m \<le> rng_till r"
    and add: "messages_add_range ms r cnt increment l = Some (l', u)" and cov: "messages_covers T l'"
    and "T \<subseteq> {min_message_position .. max_message_position}"
    and "\<And>c. ml_count l' = Some c \<Longrightarrow> c = int (card T)"
  shows "update_faithful messages_kind T u"
    and "{rng_from r .. rng_till r} \<subseteq> {rng_from (up_range u) .. rng_till (up_range u)}"
proof -
  have ok: "slices_ok (ml_slices l)" using assms(1) by (simp add: messages_list_ok_def)
  obtain ss s n where "slices_add flat_merge (ml_slices l) ms r = Some (ss, s, n)" "s \<in> set ss"
      and range: "{rng_from r .. rng_till r} \<subseteq> {sl_from s .. sl_till s}"
    using messages_slices.add_refines [OF ok assms(2,3)] by blast
  then have s: "s \<in> set (ml_slices l')" and u: "up_messages u = Some (sl_messages s)" "up_range u = sl_range s"
      "up_count u = ml_count l'"
    using add assms(2) by (auto simp: messages_add_range_def messages_add_range_items_def Let_def split: if_splits)
  have ok': "slices_ok (ml_slices l')" and eq: "ml_ids l' = T \<inter> ml_known l'"
    using cov by (auto simp: messages_covers_def messages_list_ok_def)
  obtain i where i: "i < length (ml_slices l')" "ml_slices l' ! i = s" using s by (metis in_set_conv_nth)
  have sok: "slice_ok s" using ok' s by (simp add: slices_ok_def)
  have "ml_ids l' = set (sl_messages s) \<union> slices_ids (take i (ml_slices l') @ drop (Suc i) (ml_slices l'))"
    using slices_ids_update [OF i(1), of s] i(2) by (metis list_update_id)
  moreover have "{sl_from s .. sl_till s} \<inter> slices_ids (take i (ml_slices l') @ drop (Suc i) (ml_slices l')) = {}"
    using slices_key_unique [OF ok' i(1)] i(2) by (auto simp: disjoint_iff)
  moreover have "{sl_from s .. sl_till s} \<subseteq> ml_known l'" using s by (auto simp: slices_known_def)
  moreover have "set (sl_messages s) \<subseteq> {sl_from s .. sl_till s}" using sok by (auto simp: slice_ok_def)
  ultimately have "set (sl_messages s) = T \<inter> {sl_from s .. sl_till s}" using eq by blast
  then show "update_faithful messages_kind T u"
    using assms(6,7) sok u by (simp add: update_faithful_def messages_kind_def slice_ok_def)
  show "{rng_from r .. rng_till r} \<subseteq> {rng_from (up_range u) .. rng_till (up_range u)}" using range u(2) by simp
qed

section \<open>Example states\<close>

definition wlist :: messages_list where
  "wlist = \<lparr> ml_count = Some 2, ml_slices = [\<lparr> sl_messages = [wpos 3, wpos 5], sl_range = full_messages_range \<rparr>] \<rparr>"

lemma wlist_add:
  "messages_add_range [wpos 3, wpos 5] full_messages_range None False messages_list_empty =
     Some (wlist, \<lparr> up_messages = Some [wpos 3, wpos 5], up_range = full_messages_range, up_count = Some 2 \<rparr>)"
  by (simp add: wlist_def position_less_simps messages_list_empty_def messages_add_range_def
      messages_add_range_items_def slices_add_def slices_lower_def slices_upper_def slices_emplace_def
      flat_merge_def full_messages_range_def Let_def)

lemma wlist_reach: "messages_reach {wpos 3, wpos 5} wlist"
proof -
  have "messages_apply (AddSlice [wpos 3, wpos 5] full_messages_range None) messages_list_empty = Some wlist"
    by (simp add: messages_add_slice_def wlist_add)
  then have "messages_reach (history_after (AddSlice [wpos 3, wpos 5] full_messages_range None) {wpos 3, wpos 5}) wlist"
    by (rule messages_reach.reach_apply [OF messages_reach.reach_empty, rotated])
      (auto simp: full_messages_range_def position_less_simps)
  then show ?thesis by simp
qed

lemma wlist_query: "messages_query_current wlist \<lparr> q_around = wpos 3, q_before = 1, q_after = 1 \<rparr> =
  \<lparr> res_count = Some 2, res_skipped_before = Some 0, res_skipped_after = Some 0, res_ids = [wpos 3, wpos 5] \<rparr>"
  by (simp add: messages_query_current_def message_position_bool_def slices_find_def slices_lower_def wlist_def
      full_messages_range_def messages_query_from_slice_def query_from_slice_def ids_window_def flat_lower_def position_less_simps Let_def)

lemma wlist_quiet: "\<exists>b. messages_builder_apply_initial
  \<lparr> res_count = Some 2, res_skipped_before = Some 0, res_skipped_after = Some 0, res_ids = [wpos 3, wpos 5] \<rparr>
        (messages_builder_new (wpos 3) 1 1) = Some (True, b, [])"
  by (simp add: messages_builder_apply_initial_def builder_apply_initial_def builder_merge_slice_data_def messages_builder_new_def
   builder_merge_ids_def flat_merge_def Let_def adjust_skipped_before_def adjust_skipped_after_def position_of_def wpos_def less_message_position_def message_position_before_def
   builder_fill_skipped_and_slice_def builder_fill_skipped_def builder_slice_to_limits_def messages_kind_def message_position_bool_def
   builder_cut_begin_def builder_cut_end_def flat_lower_def)

section \<open>Properties\<close>

text \<open>C14.  A viewer is done exactly when it has everything: a builder that starts from the list's
  answer around its key and then asks for nothing more shows the whole window of the history around
  that key, up to \<open>limitBefore\<close> messages below it and \<open>limitAfter + 1\<close> from it on, with no message
  missing.\<close>

theorem messages_viewer_complete:
  assumes "messages_reach T l" and "finite T" and "T \<subseteq> {min_message_position .. max_message_position}"
    and "\<forall>c. ml_count l = Some c \<longrightarrow> c = int (card T)"
    and "message_position_bool key" and "0 \<le> before" and "0 \<le> after"
    and "key \<in> ml_known l"
  shows "\<exists>b q. messages_builder_apply_initial
        (messages_query_current l \<lparr> q_around = key, q_before = before, q_after = after \<rparr>)
        (messages_builder_new key before after) = Some (True, b, q)
    \<and> (q = [] \<longrightarrow> mv_ids (messages_builder_snapshot b) = map pos_full_id (full_window T key before after))"
proof -
  let ?q = "\<lparr> q_around = key, q_before = before, q_after = after \<rparr>"
  have cov: "messages_covers T l" by (rule messages_reach_covers [OF assms(1)])
  then have "slices_ok (ml_slices l)" by (simp add: messages_covers_def messages_list_ok_def)
  then obtain i where i: "slices_find (ml_slices l) key = Some i"
    using slices_find_None assms(8) by (cases "slices_find (ml_slices l) key") blast+
  have "answer_faithful T (q_around ?q) (messages_query_current l ?q)"
    by (rule messages_query_faithful [OF cov assms(2,3)]) (use assms(4-7) i in simp_all)
  then have "answer_faithful T (sb_key (messages_builder_new key before after)) (messages_query_current l ?q)"
    by (simp add: messages_builder_new_def)
  from builder_initial_complete [OF this assms(2), of messages_kind]
  obtain b q where "builder_apply_initial messages_kind (messages_query_current l ?q)
      (messages_builder_new key before after) = Some (b, q)"
    "q = [] \<longrightarrow> sb_ids b = full_window T key before after"
    using assms(5-7) by (auto simp: messages_builder_new_def messages_kind_def)
  then show ?thesis
    by (auto simp: messages_builder_apply_initial_def messages_builder_snapshot_def)
qed

lemma messages_viewer_complete_witness:
  "\<exists>b. messages_builder_apply_initial
        (messages_query_current wlist \<lparr> q_around = wpos 3, q_before = 1, q_after = 1 \<rparr>)
        (messages_builder_new (wpos 3) 1 1) = Some (True, b, [])
    \<and> mv_ids (messages_builder_snapshot b) = map pos_full_id (full_window {wpos 3, wpos 5} (wpos 3) 1 1)"
proof -
  have "\<exists>b q. messages_builder_apply_initial
        (messages_query_current wlist \<lparr> q_around = wpos 3, q_before = 1, q_after = 1 \<rparr>)
        (messages_builder_new (wpos 3) 1 1) = Some (True, b, q)
    \<and> (q = [] \<longrightarrow> mv_ids (messages_builder_snapshot b) = map pos_full_id (full_window {wpos 3, wpos 5} (wpos 3) 1 1))"
    by (rule messages_viewer_complete [OF wlist_reach])
      (auto simp: wlist_def full_messages_range_def position_less_simps message_position_bool_def)
  then show ?thesis using wlist_quiet by (auto simp: wlist_query)
qed

text \<open>C12.  An update that the list fires when it adds messages keeps a viewer's slice exact, for the history as the call
  leaves it: the builder never fails its \<open>Assert\<close>, its ids stay a block of the history without gaps,
  and every number it shows counts the messages it names.  Where the call adds messages to the
  history, the update must reach the builder (\<open>update_reaches\<close>): it meets the builder's ids, it has the
  total when the builder shows one, and a new message beyond an end of the ids comes with that end of
  the history.\<close>

theorem messages_builder_follows_updates:
  assumes "messages_reach T l" and "messages_add_range ms r cnt increment l = Some (l', u)"
    and "in_bounds (rng_from r)" and "in_bounds (rng_till r)" and "rng_from r \<le> rng_till r"
    and "set ms = (T \<union> set ms) \<inter> {rng_from r .. rng_till r}"
    and "T \<subseteq> {min_message_position .. max_message_position}" and "finite T"
    and "\<forall>c. ml_count l' = Some c \<longrightarrow> c = int (card (T \<union> set ms))"
    and "builder_ok T b"
    and "set ms \<subseteq> T \<or> update_reaches messages_kind T (T \<union> set ms) u b"
  shows "\<exists>changed b' q. messages_builder_apply_update u b = Some (changed, b', q) \<and> builder_ok (T \<union> set ms) b'"
proof -
  have cov: "messages_covers T l" by (rule messages_reach_covers [OF assms(1)])
  then have ok: "messages_list_ok l" by (simp add: messages_covers_def)
  have inc: "cnt = None \<or> \<not> increment" using assms(2) by (auto simp: messages_add_range_def split: if_splits)
  have bounds: "min_message_position \<le> rng_from r" "rng_till r \<le> max_message_position" using assms(3,4) by simp_all
  have inside: "\<forall>m \<in> set ms. rng_from r \<le> m \<and> m \<le> rng_till r" using assms(6) by auto
  have T': "T \<union> set ms \<subseteq> {min_message_position .. max_message_position}"
    using assms(7) inside order_trans [OF bounds(1)] order_trans [OF _ bounds(2)] by fastforce
  obtain l2 u2 where "messages_add_range ms r cnt increment l = Some (l2, u2)" "messages_covers (T \<union> set ms) l2"
    using messages_covers_add_range [OF cov assms(5) inc bounds assms(6) refl] by blast
  then have cov': "messages_covers (T \<union> set ms) l'" using assms(2) by simp
  have u: "update_faithful messages_kind (T \<union> set ms) u"
    "{rng_from r .. rng_till r} \<subseteq> {rng_from (up_range u) .. rng_till (up_range u)}"
    using messages_update_faithful [OF ok assms(5) inside assms(2) cov' T'] assms(9) by blast+
  then have "T \<union> set ms - T \<subseteq> {rng_from (up_range u) .. rng_till (up_range u)}" using inside by fastforce
  moreover have "T \<union> set ms = T \<or> update_reaches messages_kind T (T \<union> set ms) u b" using assms(11) by blast
  moreover have "finite (T \<union> set ms)" using assms(8) by simp
  ultimately show ?thesis
    unfolding messages_builder_apply_update_def
    by (intro builder_apply_update_ok [OF assms(10) _ u(1)]) auto
qed

definition wbuilder :: messages_builder where
  "wbuilder = (messages_builder_new (wpos 3) 1 1)\<lparr> sb_ids := [wpos 3, wpos 5], sb_full_count := Some 2,
     sb_skipped_before := Some 0, sb_skipped_after := Some 0 \<rparr>"

lemma wbuilder_ok: "builder_ok {wpos 3, wpos 5} wbuilder"
  unfolding builder_ok_def
  by (intro conjI builder_exactI [where A = "{}" and C = "{}"])
    (simp_all add: wbuilder_def messages_builder_new_def position_less_simps)

definition wupdate :: messages_slice_update where
  "wupdate = \<lparr> up_messages = Some [wpos 3, wpos 5, wpos 9], up_range = full_messages_range, up_count = Some 3 \<rparr>"

lemma wlist_add_new:
  "messages_add_range [wpos 9] \<lparr> rng_from = wpos 9, rng_till = max_message_position \<rparr> None True wlist =
     Some (\<lparr> ml_count = Some 3, ml_slices = [\<lparr> sl_messages = [wpos 3, wpos 5, wpos 9], sl_range = full_messages_range \<rparr>] \<rparr>,
       wupdate)"
  by (simp add: wlist_def wupdate_def position_less_simps messages_add_range_def messages_add_range_items_def slices_add_def
      slices_lower_def slices_upper_def unite_and_add_def slice_merge_def full_messages_range_def flat_merge_def
      opt_add_def min_def max_def Let_def)

text \<open>A new message at the bottom of a history that is known down to there: the viewer gets it.\<close>

lemma messages_builder_follows_updates_witness:
  "\<exists>changed b' q. messages_builder_apply_update wupdate wbuilder = Some (changed, b', q)
     \<and> builder_ok ({wpos 3, wpos 5} \<union> set [wpos 9]) b'"
proof (rule messages_builder_follows_updates [OF wlist_reach wlist_add_new])
  show "builder_ok {wpos 3, wpos 5} wbuilder" by (rule wbuilder_ok)
  show "set [wpos 9] \<subseteq> {wpos 3, wpos 5}
      \<or> update_reaches messages_kind {wpos 3, wpos 5} ({wpos 3, wpos 5} \<union> set [wpos 9]) wupdate wbuilder"
    by (simp add: update_reaches_def update_meets_def wupdate_def wbuilder_def messages_builder_new_def messages_kind_def
        full_messages_range_def position_less_simps)
qed (auto simp: position_less_simps)

text \<open>A new message that does not reach the builder leaves its numbers wrong: the total has the
  message, but what the viewer shows, with what it says is skipped on both sides, counts the history
  before it.\<close>

theorem messages_builder_misses_new:
  assumes "messages_add_new p l = Some (l', u)" and "ml_count l' = Some (int (card (insert p T)))"
    and "finite T" and "p \<notin> T" and "builder_ok T b" and "\<not> update_meets u b"
    and "sb_skipped_before b \<noteq> None" and "sb_skipped_after b \<noteq> None"
  shows "\<exists>b' q x y. messages_builder_apply_update u b = Some (True, b', q)
    \<and> mv_full_count (messages_builder_snapshot b') = Some (int (card T) + 1)
    \<and> mv_skipped_before (messages_builder_snapshot b') = Some x \<and> mv_skipped_after (messages_builder_snapshot b') = Some y
    \<and> x + int (length (mv_ids (messages_builder_snapshot b'))) + y = int (card T)"
proof -
  have "up_count u = ml_count l'"
    using assms(1) by (auto simp: messages_add_new_def messages_add_range_def Let_def bind_eq_Some_conv)
  then have "up_count u = Some (int (card T) + 1)" using assms(2-4) by simp
  then show ?thesis
    using builder_update_missed [OF assms(5,3,6) _ _ assms(7,8)]
    unfolding messages_builder_apply_update_def messages_builder_snapshot_def by fastforce
qed

text \<open>The list gets there: a known beginning of a history whose total is known, and a new message
  far after it.\<close>

definition wtop :: messages_list where
  "wtop = \<lparr> ml_count = Some 2, ml_slices = [\<lparr> sl_messages = [wpos 3], sl_range = \<lparr> rng_from = min_message_position, rng_till = wpos 4 \<rparr> \<rparr>] \<rparr>"

definition wtop_builder :: messages_builder where
  "wtop_builder = (messages_builder_new (wpos 3) 1 0)\<lparr> sb_ids := [wpos 3], sb_full_count := Some 2,
     sb_skipped_before := Some 0, sb_skipped_after := Some 1 \<rparr>"

lemma messages_builder_misses_new_witness:
  "\<exists>b' q x y. messages_builder_apply_update
       \<lparr> up_messages = Some [wpos 9], up_range = \<lparr> rng_from = wpos 9, rng_till = max_message_position \<rparr>, up_count = Some 3 \<rparr>
       wtop_builder = Some (True, b', q)
    \<and> mv_full_count (messages_builder_snapshot b') = Some 3
    \<and> mv_skipped_before (messages_builder_snapshot b') = Some x \<and> mv_skipped_after (messages_builder_snapshot b') = Some y
    \<and> x + int (length (mv_ids (messages_builder_snapshot b'))) + y = 2"
proof -
  have new: "messages_add_new (wpos 9) wtop = Some (\<lparr> ml_count = Some 3,
      ml_slices = ml_slices wtop @ [\<lparr> sl_messages = [wpos 9], sl_range = \<lparr> rng_from = wpos 9, rng_till = max_message_position \<rparr> \<rparr>] \<rparr>,
      \<lparr> up_messages = Some [wpos 9], up_range = \<lparr> rng_from = wpos 9, rng_till = max_message_position \<rparr>, up_count = Some 3 \<rparr>)"
    by (simp add: wtop_def messages_add_new_def position_less_simps messages_add_range_def messages_add_range_items_def
        slices_add_def slices_lower_def slices_upper_def slices_emplace_def full_messages_range_def flat_merge_def opt_add_def Let_def)
  have ok: "builder_ok {wpos 3, wpos 5} wtop_builder"
    unfolding builder_ok_def
    by (intro conjI builder_exactI [where A = "{}" and C = "{wpos 5}"])
      (auto simp: wtop_builder_def messages_builder_new_def position_less_simps)
  have card: "card {wpos 3, wpos 5} = 2" "card {wpos 9, wpos 3, wpos 5} = 3" by (simp_all add: wpos_def)
  show ?thesis
    using messages_builder_misses_new [OF new, of "{wpos 3, wpos 5}" wtop_builder] ok
    by (simp add: card) (simp add: update_meets_def wtop_builder_def messages_builder_new_def position_less_simps)
qed

text \<open>Removing a message from the slice shown keeps it exact for the history without it, as long
  as something is shown.\<close>

lemma messages_builder_remove_one_exact:
  assumes "builder_exact T b" and "finite T" and "p \<in> T" and "sb_ids b \<noteq> []"
  shows "builder_exact (T - {p}) (snd (messages_builder_remove_one p b))"
  unfolding messages_builder_remove_one_def by (rule builder_remove_one_exact [OF assms])

lemma messages_builder_remove_one_exact_witness:
  "builder_exact ({wpos 3, wpos 5} - {wpos 3}) (snd (messages_builder_remove_one (wpos 3)
     (messages_builder_new (wpos 3) 1 1 \<lparr> sb_ids := [wpos 3, wpos 5] \<rparr>)))"
proof (rule messages_builder_remove_one_exact)
  show "builder_exact {wpos 3, wpos 5} (messages_builder_new (wpos 3) 1 1 \<lparr> sb_ids := [wpos 3, wpos 5] \<rparr>)"
    by (rule builder_exactI [where A = "{}" and C = "{}"])
      (simp_all add: messages_builder_new_def position_less_simps)
qed simp_all

end
