(* ===== verification/Sparse_Ids_List.thy ===== *)
theory Sparse_Ids_List
  imports Slices Message_Position
begin

text \<open>
  \<open>Storage::SparseIdsList\<close> (\<open>storage/storage_sparse_ids_list.cpp\<close>): the shared-media and thread
  lists as slices of message ids.  It differs from the messages list in how a slice unites ids, in
  two early returns, and in what it does with the total: a single slice that holds as many ids as
  the total says is widened to the full range, and a removal never takes the total below zero.
  The lemmas show that the list tracks the set of ids it caches and that its total stays exact.
\<close>

type_synonym sparse_slice = "msg_id slice"
type_synonym sparse_query = "msg_id list_query"
type_synonym sparse_result = "msg_id list_result"

type_synonym sparse_update = "msg_id slice_update"

record sparse_ids_list =
  sil_count :: "int option"
  sil_slices :: "sparse_slice list"

definition sparse_full_range :: "msg_id range" where
  "sparse_full_range = \<lparr> rng_from = 0, rng_till = server_max_msg_id \<rparr>"

definition sparse_list_empty :: sparse_ids_list where
  "sparse_list_empty = \<lparr> sil_count = None, sil_slices = [] \<rparr>"

section \<open>The methods\<close>

text \<open>How \<open>Slice::merge\<close> unites the ids: none, one inserted, several merged.\<close>

fun sparse_unite :: "msg_id list \<Rightarrow> msg_id list \<Rightarrow> msg_id list" where
  "sparse_unite xs [] = xs"
| "sparse_unite xs [y] = flat_insert y xs"
| "sparse_unite xs ys = flat_merge xs ys"

text \<open>The new slices, the slice to report if there is one, and the number of ids gained.\<close>

definition sparse_add_range_items ::
  "sparse_slice list \<Rightarrow> msg_id list \<Rightarrow> msg_id range \<Rightarrow> (sparse_slice list \<times> sparse_slice option \<times> int) option" where
  "sparse_add_range_items ss ms r =
     (if \<not> rng_from r \<le> rng_till r then Some (ss, None, 0)
      else if rng_from r = rng_till r \<and> ms = [] then Some (ss, None, 0)
      else map_option (\<lambda>(ss', s, n). (ss', Some s, n)) (slices_add sparse_unite ss ms r))"

text \<open>A single slice that has everything is known to be full, and then gives the total.\<close>

definition sparse_settle_single :: "int option \<Rightarrow> sparse_slice list \<Rightarrow> int option \<times> sparse_slice list" where
  "sparse_settle_single cnt ss =
     (case ss of
        [s] \<Rightarrow>
          (let s' = (case cnt of
                 Some c \<Rightarrow> if 0 \<le> c \<and> c \<le> int (length (sl_messages s))
                           then s\<lparr> sl_range := sparse_full_range \<rparr> else s
               | None \<Rightarrow> s)
           in (if sl_range s' = sparse_full_range then Some (int (length (sl_messages s'))) else cnt, [s']))
      | _ \<Rightarrow> (cnt, ss))"

text \<open>The total after the ids are in: the given one, or the old one with what was gained.\<close>

definition sparse_new_count :: "int option \<Rightarrow> bool \<Rightarrow> int \<Rightarrow> int option \<Rightarrow> int option" where
  "sparse_new_count cnt increment added was =
     (if cnt \<noteq> None then cnt
      else if increment \<and> added > 0 then opt_add added was
      else was)"

text \<open>It is never below the size of the slice that is reported.\<close>

definition sparse_accumulate :: "int option \<Rightarrow> sparse_slice option \<Rightarrow> int option" where
  "sparse_accumulate cnt s =
     (case (cnt, s) of (Some c, Some t) \<Rightarrow> Some (max c (int (length (sl_messages t)))) | _ \<Rightarrow> cnt)"

definition sparse_add_range ::
  "msg_id list \<Rightarrow> msg_id range \<Rightarrow> int option \<Rightarrow> bool \<Rightarrow> sparse_ids_list
     \<Rightarrow> (sparse_ids_list \<times> sparse_update) option" where
  "sparse_add_range ms r cnt increment l =
     (if cnt \<noteq> None \<and> increment then None
      else do {
        (ss, s, added) \<leftarrow> sparse_add_range_items (sil_slices l) ms r;
        let (count2, ss2) = sparse_settle_single (sparse_new_count cnt increment added (sil_count l)) ss;
        let count3 = sparse_accumulate count2 s;
        Some (\<lparr> sil_count = count3, sil_slices = ss2 \<rparr>,
              \<lparr> up_messages = map_option sl_messages s,
                up_range = (case s of Some s' \<Rightarrow> sl_range s' | None \<Rightarrow> \<lparr> rng_from = 0, rng_till = 0 \<rparr>),
                up_count = count3 \<rparr>)
      })"

definition sparse_add_new :: "msg_id \<Rightarrow> sparse_ids_list \<Rightarrow> (sparse_ids_list \<times> sparse_update) option" where
  "sparse_add_new i l = sparse_add_range [i] \<lparr> rng_from = i, rng_till = server_max_msg_id \<rparr> None True l"

definition sparse_add_existing ::
  "msg_id \<Rightarrow> msg_id range \<Rightarrow> sparse_ids_list \<Rightarrow> (sparse_ids_list \<times> sparse_update) option" where
  "sparse_add_existing i r l = sparse_add_range [i] r None False l"

definition sparse_add_slice ::
  "msg_id list \<Rightarrow> msg_id range \<Rightarrow> int option \<Rightarrow> sparse_ids_list \<Rightarrow> (sparse_ids_list \<times> sparse_update) option" where
  "sparse_add_slice ms r cnt l = sparse_add_range ms r cnt False l"

definition sparse_remove_one :: "msg_id \<Rightarrow> sparse_ids_list \<Rightarrow> sparse_ids_list" where
  "sparse_remove_one i l =
     \<lparr> sil_count = (case sil_count l of Some c \<Rightarrow> if c > 0 then Some (c - 1) else Some c | None \<Rightarrow> None),
       sil_slices = slices_remove (sil_slices l) i \<rparr>"

definition sparse_remove_all :: "sparse_ids_list \<Rightarrow> sparse_ids_list" where
  "sparse_remove_all l =
     \<lparr> sil_count = Some 0, sil_slices = [\<lparr> sl_messages = [], sl_range = sparse_full_range \<rparr>] \<rparr>"

definition sparse_count_after :: "msg_id \<Rightarrow> int \<Rightarrow> (msg_id \<Rightarrow> bool) \<Rightarrow> sparse_ids_list \<Rightarrow> int option" where
  "sparse_count_after till limit counts l =
     (if sil_slices l = [] then None
      else let bottom = last (sil_slices l) in
        if sl_till bottom \<noteq> server_max_msg_id then None
        else if sl_from bottom > till \<and> sl_from bottom \<noteq> 0 then None
        else let rest = drop (flat_upper (sl_messages bottom) till) (sl_messages bottom) in
          if int (length rest) > limit then None
          else Some (int (length (filter counts rest))))"

definition sparse_invalidate_bottom :: "sparse_ids_list \<Rightarrow> sparse_ids_list" where
  "sparse_invalidate_bottom l =
     \<lparr> sil_count = None, sil_slices = slices_invalidate_bottom server_max_msg_id (sil_slices l) \<rparr>"

definition sparse_query_from_slice :: "sparse_ids_list \<Rightarrow> sparse_query \<Rightarrow> sparse_slice \<Rightarrow> sparse_result" where
  "sparse_query_from_slice l q s = query_from_slice 0 server_max_msg_id (sil_count l) q s"

definition sparse_snapshot :: "sparse_ids_list \<Rightarrow> sparse_query \<Rightarrow> sparse_result" where
  "sparse_snapshot l q =
     (case (if q_around q \<noteq> 0 then slices_find (sil_slices l) (q_around q) else None) of
        Some i \<Rightarrow> sparse_query_from_slice l q (sil_slices l ! i)
      | None \<Rightarrow> (case sil_count l of
            Some c \<Rightarrow> no_result\<lparr> res_count := Some c \<rparr>
          | None \<Rightarrow> no_result))"

definition sparse_query :: "sparse_ids_list \<Rightarrow> sparse_query \<Rightarrow> sparse_result option" where
  "sparse_query l q =
     (let now = sparse_snapshot l q
      in if res_ids now \<noteq> [] \<or> res_count now \<noteq> None then Some now else None)"

definition sparse_list_is_empty :: "sparse_ids_list \<Rightarrow> bool" where
  "sparse_list_is_empty l = list_all (\<lambda>s. sl_messages s = []) (sil_slices l)"

section \<open>The contract of the slices\<close>

interpretation sparse_slices: slice_container sparse_unite
proof
  fix xs ys :: "msg_id list" assume "flat_ok xs"
  then show "flat_ok (sparse_unite xs ys)" "set (sparse_unite xs ys) = set xs \<union> set ys"
    by (cases "(xs, ys)" rule: sparse_unite.cases; simp)+
qed

section \<open>What the list tracks\<close>

text \<open>Within what is known the list holds exactly \<open>T\<close>, and a known total is the size of \<open>T\<close>.\<close>

definition sparse_covers :: "msg_id set \<Rightarrow> sparse_ids_list \<Rightarrow> bool" where
  "sparse_covers T l \<longleftrightarrow> slices_ok (sil_slices l) \<and> slices_known (sil_slices l) \<subseteq> {0 .. server_max_msg_id}
     \<and> slices_ids (sil_slices l) = T \<inter> slices_known (sil_slices l)
     \<and> (\<forall>c. sil_count l = Some c \<longrightarrow> c = int (card T))"

definition sparse_bounded :: "msg_id set \<Rightarrow> bool" where
  "sparse_bounded T \<longleftrightarrow> finite T \<and> T \<subseteq> {0 .. server_max_msg_id}"

lemma sparse_settle_single_covers:
  assumes T: "sparse_bounded T" and ok: "slices_ok ss" and known: "slices_known ss \<subseteq> {0 .. server_max_msg_id}"
    and eq: "slices_ids ss = T \<inter> slices_known ss" and cnt: "\<And>c. cnt = Some c \<Longrightarrow> c = int (card T)"
    and settle: "sparse_settle_single cnt ss = (cnt', ss')"
  shows "sparse_covers T \<lparr> sil_count = cnt', sil_slices = ss' \<rparr>"
proof (cases "\<exists>s. ss = [s]")
  case False
  then have "cnt' = cnt" "ss' = ss" using settle by (auto simp: sparse_settle_single_def split: list.splits)
  then show ?thesis using assms(2-5) by (simp add: sparse_covers_def)
next
  case True
  then obtain s where ss: "ss = [s]" by blast
  have s: "slice_ok s" using ok ss by (simp add: slices_ok_Cons)
  have len: "length (sl_messages s) = card (set (sl_messages s))"
    using s by (simp add: slice_ok_def flat_ok_sorted_distinct distinct_card)
  have eqs: "set (sl_messages s) = T \<inter> {sl_from s .. sl_till s}" using eq ss by simp
  have fin: "finite T" "T \<subseteq> {0 .. server_max_msg_id}" using T by (simp_all add: sparse_bounded_def)
  have pos: "(0::int) \<le> server_max_msg_id" by (simp add: server_max_msg_id_def)
  show ?thesis
  proof (cases "\<exists>c. cnt = Some c \<and> c \<le> int (length (sl_messages s))")
    case True
    then obtain c where c: "cnt = Some c" "c \<le> int (length (sl_messages s))" by blast
    then have "card T \<le> card (set (sl_messages s))" using cnt len by simp
    then have all: "set (sl_messages s) = T"
      using eqs fin(1) by (metis card_seteq inf_le1)
    let ?s = "s\<lparr> sl_range := sparse_full_range \<rparr>"
    have "cnt' = Some (int (length (sl_messages s)))" "ss' = [?s]"
      using settle ss c cnt by (auto simp: sparse_settle_single_def)
    moreover have "slice_ok ?s"
      using s all fin pos by (auto simp: slice_ok_def sparse_full_range_def)
    ultimately show ?thesis
      using all len fin pos by (auto simp: sparse_covers_def slices_ok_Cons sparse_full_range_def)
  next
    case False
    then have "ss' = [s]" and cnt': "cnt' = (if sl_range s = sparse_full_range then Some (int (length (sl_messages s))) else cnt)"
      using settle ss by (auto simp: sparse_settle_single_def split: option.splits if_splits)
    moreover have "length (sl_messages s) = card T" if "sl_range s = sparse_full_range"
    proof -
      have "set (sl_messages s) = T" using eqs fin that by (auto simp: sparse_full_range_def)
      then show ?thesis using len by simp
    qed
    ultimately show ?thesis using assms(2-5) ss by (simp add: sparse_covers_def)
  qed
qed

lemma sparse_slices_card_le:
  assumes "sparse_covers T l" and "finite T" and "s \<in> set (sil_slices l)"
  shows "int (length (sl_messages s)) \<le> int (card T)"
proof -
  have "slice_ok s" using assms by (simp add: sparse_covers_def slices_ok_def)
  then have "length (sl_messages s) = card (set (sl_messages s))"
    by (simp add: slice_ok_def flat_ok_sorted_distinct distinct_card)
  moreover have "set (sl_messages s) \<subseteq> T"
    using assms(1,3) unfolding sparse_covers_def slices_ids_def by blast
  ultimately show ?thesis using card_mono [OF assms(2)] by simp
qed

section \<open>The total stays exact\<close>

text \<open>When every id held lies below the added range, adding gains exactly the added ids.\<close>

context slice_container
begin

lemma add_gain:
  assumes ok: "slices_ok ss" and range: "rng_from r \<le> rng_till r"
    and inside: "\<forall>m \<in> set ms. rng_from r \<le> m \<and> m \<le> rng_till r"
    and below: "\<forall>x \<in> slices_ids ss. x < rng_from r"
    and add: "slices_add unite ss ms r = Some (ss', s, n)"
  shows "n = int (card (set ms))"
proof (cases "slices_lower ss (rng_from r) < slices_upper ss (rng_till r)")
  case False
  let ?i = "slices_lower ss (rng_from r)" and ?j = "slices_upper ss (rng_till r)"
  have ij: "?i = ?j" using slices_lower_le_upper [OF ok range] False by simp
  have "\<forall>a \<in> set (take ?i ss). sl_till a < rng_from r" "\<forall>c \<in> set (drop ?i ss). rng_till r < sl_from c"
    unfolding slices_cut_lower(1) [OF ok] by simp (simp add: ij slices_cut_upper(2) [OF ok])
  moreover have "slices_ok (take ?i ss @ drop ?i ss)" using ok by simp
  ultimately have "slices_emplace \<lparr> sl_messages = flat_merge [] ms, sl_range = r \<rparr> (take ?i ss @ drop ?i ss)
      = (take ?i ss @ \<lparr> sl_messages = flat_merge [] ms, sl_range = r \<rparr> # drop ?i ss,
         \<lparr> sl_messages = flat_merge [] ms, sl_range = r \<rparr>)"
    using range by (intro slices_emplace_between) simp_all
  then have "n = int (length (flat_merge [] ms))"
    using add False by (simp add: slices_add_def Let_def)
  moreover have "flat_ok (flat_merge [] ms)" by simp
  then have "length (flat_merge [] ms) = card (set ms)"
    using distinct_card [of "flat_merge [] ms"] by (simp add: flat_ok_sorted_distinct)
  ultimately show ?thesis by simp
next
  case True
  let ?i = "slices_lower ss (rng_from r)" and ?j = "slices_upper ss (rng_till r)"
  let ?b = "ss ! ?i" and ?bs = "drop (Suc ?i) (take ?j ss)"
  have lt: "?i < length ss" using True slices_upper_le [of ss "rng_till r"] by simp
  have drop: "drop ?i (take ?j ss) = ?b # ?bs"
    using True lt by (metis Cons_nth_drop_Suc length_take min_less_iff_conj nth_take)
  have sub: "set (drop ?i (take ?j ss)) \<subseteq> set (drop ?i ss)" "set (drop ?i (take ?j ss)) \<subseteq> set (take ?j ss)"
    by (simp add: drop_take set_take_subset) (rule set_drop_subset)
  have touch: "rng_from r \<le> sl_till t \<and> sl_from t \<le> rng_till r \<and> slice_ok t" if "t \<in> set (?b # ?bs)" for t
    using that sub ok unfolding drop [symmetric]
    by (auto simp: slices_cut_lower(2) [OF ok] slices_cut_upper(1) [OF ok] slices_ok_def)
  have b: "slice_ok ?b" "rng_from r \<le> sl_till ?b" "sl_from ?b \<le> rng_till r" using touch [of ?b] by simp_all
  obtain s0 where s0: "slice_merge unite ?b ms r = Some s0" using merge_defined [OF b(2,3)] by blast
  note m = merge_ok [OF s0 b(1) range inside]
  have s0r: "sl_from s0 \<le> rng_from r" "rng_till r \<le> sl_till s0"
    using m(3) range by (auto simp: set_eq_iff)
  have "\<forall>t \<in> set ?bs. slice_ok t" "\<forall>t \<in> set ?bs. rng_from r \<le> sl_till t \<and> sl_from t \<le> rng_till r"
    using touch by auto
  from merge_all_ok [OF m(1) this(1) range s0r this(2)] obtain s1 where
    s1: "slice_merge_all unite s0 ?bs = Some s1" "slice_ok s1"
      "set (sl_messages s1) = set (sl_messages s0) \<union> slices_ids ?bs" by blast
  have "slices_ids ?bs = {}"
  proof -
    have "slices_ok (take ?i ss @ ?b # drop (Suc ?i) ss)" using ok lt by (simp flip: id_take_nth_drop)
    then have "slices_ok (drop (Suc ?i) ss)" "\<forall>t \<in> set (drop (Suc ?i) ss). sl_till ?b < sl_from t"
      by (simp_all add: slices_ok_append slices_ok_Cons)
    moreover have "set ?bs \<subseteq> set (drop (Suc ?i) ss)" by (simp add: drop_take set_take_subset)
    ultimately have "\<forall>t \<in> set ?bs. sl_till ?b < sl_from t \<and> slice_ok t"
      by (auto simp: slices_ok_def)
    then have "rng_from r < x" if "x \<in> slices_ids ?bs" for x
      using that b(2) by (fastforce simp: slices_ids_def slice_ok_def)
    moreover have "slices_ids ?bs \<subseteq> slices_ids ss"
      by (auto simp: slices_ids_def dest: in_set_dropD in_set_takeD)
    ultimately show ?thesis using below by fastforce
  qed
  then have set: "set (sl_messages s1) = set (sl_messages ?b) \<union> set ms" using s1(3) m(2) by simp
  have "set (sl_messages ?b) \<subseteq> slices_ids ss" using nth_mem [OF lt] by (auto simp: slices_ids_def)
  then have disj: "set (sl_messages ?b) \<inter> set ms = {}" using below inside by fastforce
  have card: "length (sl_messages t) = card (set (sl_messages t))" if "slice_ok t" for t
    using that by (simp add: slice_ok_def flat_ok_sorted_distinct distinct_card)
  have "n = int (length (sl_messages s1)) - int (length (sl_messages ?b))"
    using add True s0 s1(1) by (auto simp: slices_add_def unite_and_add_def Let_def)
  then show ?thesis
    using card [OF s1(2)] card [OF b(1)] set card_Un_disjoint [OF _ _ disj] by simp
qed

end

lemma sparse_add_range_covers:
  assumes cov: "sparse_covers T l" and T': "sparse_bounded T'"
    and range: "0 \<le> rng_from r" "rng_till r \<le> server_max_msg_id" and cnt: "cnt = None \<or> \<not> increment"
    and c: "\<And>c. cnt = Some c \<Longrightarrow> c = int (card T')"
    and ms: "rng_from r \<le> rng_till r \<Longrightarrow> set ms = T' \<inter> {rng_from r .. rng_till r}" and TT: "T' = T \<union> set ms"
    and new: "increment \<Longrightarrow> rng_from r \<le> rng_till r \<and> ms \<noteq> [] \<and> (\<forall>m \<in> T. m < rng_from r)"
    and same: "\<not> increment \<Longrightarrow> T' = T"
  shows "\<exists>l' u. sparse_add_range ms r cnt increment l = Some (l', u) \<and> sparse_covers T' l'"
proof -
  have ok: "slices_ok (sil_slices l)" and known: "slices_known (sil_slices l) \<subseteq> {0 .. server_max_msg_id}"
    and eq: "slices_ids (sil_slices l) = T \<inter> slices_known (sil_slices l)"
    and total: "\<And>c. sil_count l = Some c \<Longrightarrow> c = int (card T)"
    using cov by (simp_all add: sparse_covers_def)
  have finish: "\<exists>l' u. sparse_add_range ms r cnt increment l = Some (l', u) \<and> sparse_covers T' l'"
    if items: "sparse_add_range_items (sil_slices l) ms r = Some (ss, s, n)"
      and ss: "slices_ok ss" "slices_known ss \<subseteq> {0 .. server_max_msg_id}" "slices_ids ss = T' \<inter> slices_known ss"
      and s: "\<And>t. s = Some t \<Longrightarrow> t \<in> set ss"
      and n: "increment \<Longrightarrow> n = int (card T') - int (card T)" "increment \<Longrightarrow> n > 0" for ss s n
  proof -
    define count1 where "count1 = sparse_new_count cnt increment n (sil_count l)"
    have c1: "c = int (card T')" if "count1 = Some c" for c
      using that c total n same by (cases increment) (auto simp: count1_def sparse_new_count_def opt_add_def split: if_splits)
    obtain count2 ss2 where settle: "sparse_settle_single count1 ss = (count2, ss2)" by fastforce
    have cov2: "sparse_covers T' \<lparr> sil_count = count2, sil_slices = ss2 \<rparr>"
      by (rule sparse_settle_single_covers [OF T' ss c1 settle])
    define count3 where "count3 = sparse_accumulate count2 s"
    have "count3 = count2"
    proof (cases s)
      case (Some t)
      have "slice_ok t" and "set (sl_messages t) \<subseteq> T'"
        using s [OF Some] ss(1,3) by (auto simp: slices_ok_def slices_ids_def)
      then have "length (sl_messages t) \<le> card T'"
        using T' card_mono [of T' "set (sl_messages t)"]
        by (simp add: sparse_bounded_def slice_ok_def flat_ok_sorted_distinct distinct_card)
      then show ?thesis using cov2 Some by (auto simp: count3_def sparse_accumulate_def sparse_covers_def split: option.split)
    qed (simp add: count3_def sparse_accumulate_def split: option.split)
    then have "sparse_covers T' \<lparr> sil_count = count3, sil_slices = ss2 \<rparr>" using cov2 by simp
    moreover have "fst (the (sparse_add_range ms r cnt increment l)) = \<lparr> sil_count = count3, sil_slices = ss2 \<rparr>"
      "sparse_add_range ms r cnt increment l \<noteq> None"
      using cnt by (auto simp: sparse_add_range_def items settle [unfolded count1_def] count3_def Let_def)
    ultimately show ?thesis by (metis option.collapse prod.collapse)
  qed
  show ?thesis
  proof (cases "rng_from r \<le> rng_till r \<and> \<not> (rng_from r = rng_till r \<and> ms = [])")
    case False
    then have "sparse_add_range_items (sil_slices l) ms r = Some (sil_slices l, None, 0)"
      by (auto simp: sparse_add_range_items_def)
    moreover have "\<not> increment" using False new by auto
    ultimately show ?thesis using finish ok known eq same by blast
  next
    case True
    then have r: "rng_from r \<le> rng_till r" by blast
    have inside: "\<forall>m \<in> set ms. rng_from r \<le> m \<and> m \<le> rng_till r" using ms [OF r] by simp
    obtain ss s n where add: "slices_add sparse_unite (sil_slices l) ms r = Some (ss, s, n)" and ss: "slices_ok ss"
        "s \<in> set ss" "slices_ids ss = slices_ids (sil_slices l) \<union> set ms"
        "slices_known ss = slices_known (sil_slices l) \<union> {rng_from r .. rng_till r}"
      using sparse_slices.add_refines [OF ok r inside] by blast
    have ids: "slices_ids ss = T' \<inter> slices_known ss"
      unfolding ss(3,4) eq using ms [OF r] TT by blast
    have kn: "slices_known ss \<subseteq> {0 .. server_max_msg_id}" using ss(4) known range by auto
    have gain: "n = int (card T') - int (card T)" "n > 0" if i: "increment"
    proof -
      have "\<forall>x \<in> slices_ids (sil_slices l). x < rng_from r" using eq new [OF i] by blast
      from sparse_slices.add_gain [OF ok r inside this add]
      have "n = int (card (set ms))" .
      moreover have "card T' = card T + card (set ms)"
      proof -
        have "T \<inter> set ms = {}" using inside new [OF i] by fastforce
        moreover have "finite T" using T' TT by (simp add: sparse_bounded_def)
        ultimately show ?thesis unfolding TT by (simp add: card_Un_disjoint)
      qed
      moreover have "card (set ms) > 0" using new [OF i] by (simp add: card_gt_0_iff)
      ultimately show "n = int (card T') - int (card T)" "n > 0" by simp_all
    qed
    have "sparse_add_range_items (sil_slices l) ms r = Some (ss, Some s, n)"
      using True add by (auto simp: sparse_add_range_items_def)
    then show ?thesis using finish ss(1,2) kn ids gain by blast
  qed
qed

section \<open>Runs against the set of ids\<close>

datatype sparse_op =
    SparseAddNew msg_id
  | SparseAddExisting msg_id "msg_id range"
  | SparseAddSlice "msg_id list" "msg_id range" "int option"
  | SparseRemoveOne msg_id
  | SparseRemoveAll
  | SparseInvalidateBottom

fun sparse_apply :: "sparse_op \<Rightarrow> sparse_ids_list \<Rightarrow> sparse_ids_list option" where
  "sparse_apply (SparseAddNew i) l = map_option fst (sparse_add_new i l)"
| "sparse_apply (SparseAddExisting i r) l = map_option fst (sparse_add_existing i r l)"
| "sparse_apply (SparseAddSlice ms r c) l = map_option fst (sparse_add_slice ms r c l)"
| "sparse_apply (SparseRemoveOne i) l = Some (sparse_remove_one i l)"
| "sparse_apply SparseRemoveAll l = Some (sparse_remove_all l)"
| "sparse_apply SparseInvalidateBottom l = Some (sparse_invalidate_bottom l)"

text \<open>What a call says about the ids \<open>T\<close>, and when it says the truth.  An empty range (one whose end is
  below its start, which the list ignores) says nothing.\<close>

fun sparse_faithful :: "sparse_op \<Rightarrow> msg_id set \<Rightarrow> bool" where
  "sparse_faithful (SparseAddNew i) T \<longleftrightarrow> 0 \<le> i \<and> i \<le> server_max_msg_id \<and> (\<forall>m \<in> T. m < i)"
| "sparse_faithful (SparseAddExisting i r) T \<longleftrightarrow> 0 \<le> rng_from r \<and> rng_till r \<le> server_max_msg_id \<and> i \<in> T
     \<and> (rng_from r \<le> rng_till r \<longrightarrow> T \<inter> {rng_from r .. rng_till r} = {i})"
| "sparse_faithful (SparseAddSlice ms r c) T \<longleftrightarrow> 0 \<le> rng_from r \<and> rng_till r \<le> server_max_msg_id \<and> set ms \<subseteq> T
     \<and> (rng_from r \<le> rng_till r \<longrightarrow> set ms = T \<inter> {rng_from r .. rng_till r})
     \<and> (\<forall>n. c = Some n \<longrightarrow> n = int (card T))"
| "sparse_faithful (SparseRemoveOne i) T \<longleftrightarrow> i \<in> T"
| "sparse_faithful _ T \<longleftrightarrow> True"

fun sparse_after :: "sparse_op \<Rightarrow> msg_id set \<Rightarrow> msg_id set" where
  "sparse_after (SparseAddNew i) T = insert i T"
| "sparse_after (SparseRemoveOne i) T = T - {i}"
| "sparse_after SparseRemoveAll T = {}"
| "sparse_after _ T = T"

inductive sparse_reach :: "msg_id set \<Rightarrow> sparse_ids_list \<Rightarrow> bool" where
  sparse_reach_empty: "sparse_bounded T \<Longrightarrow> sparse_reach T sparse_list_empty"
| sparse_reach_apply: "sparse_reach T l \<Longrightarrow> sparse_faithful op T \<Longrightarrow> sparse_apply op l = Some l' \<Longrightarrow>
    sparse_reach (sparse_after op T) l'"

lemma sparse_covers_empty: "sparse_covers T sparse_list_empty"
  by (simp add: sparse_covers_def sparse_list_empty_def)

lemma sparse_covers_remove_one:
  assumes "sparse_covers T l" and "finite T" and "i \<in> T"
  shows "sparse_covers (T - {i}) (sparse_remove_one i l)"
proof -
  have ok: "slices_ok (sil_slices l)" and eq: "slices_ids (sil_slices l) = T \<inter> slices_known (sil_slices l)"
    and total: "\<And>c. sil_count l = Some c \<Longrightarrow> c = int (card T)"
    and known: "slices_known (sil_slices l) \<subseteq> {0 .. server_max_msg_id}"
    using assms(1) by (simp_all add: sparse_covers_def)
  note rem = slices_remove_refines [OF ok, of i]
  have "card T > 0" and "int (card (T - {i})) = int (card T) - 1"
    using assms(2,3) by (auto simp: card_gt_0_iff) (metis Suc_diff_1 card_gt_0_iff empty_iff of_nat_1 of_nat_diff Suc_leI One_nat_def)
  then show ?thesis
    using rem total eq known unfolding sparse_covers_def sparse_remove_one_def
    by (auto split: option.splits if_splits)
qed

lemma sparse_covers_apply:
  assumes "sparse_covers T l" and T: "sparse_bounded T" and f: "sparse_faithful op T"
  shows "sparse_bounded (sparse_after op T)
    \<and> (\<exists>l'. sparse_apply op l = Some l' \<and> sparse_covers (sparse_after op T) l')"
proof (cases op)
  case (SparseAddNew i)
  then have i: "0 \<le> i" "i \<le> server_max_msg_id" "\<forall>m \<in> T. m < i" using f by simp_all
  have T': "sparse_bounded (insert i T)" using T i by (simp add: sparse_bounded_def)
  have "set [i] = insert i T \<inter> {i .. server_max_msg_id}" using i(2,3) by auto
  then have "\<exists>l' u. sparse_add_range [i] \<lparr> rng_from = i, rng_till = server_max_msg_id \<rparr> None True l = Some (l', u)
      \<and> sparse_covers (insert i T) l'"
    using i by (intro sparse_add_range_covers [OF assms(1) T']) simp_all
  then obtain l' u where "sparse_add_new i l = Some (l', u)" "sparse_covers (insert i T) l'"
    unfolding sparse_add_new_def by blast
  then show ?thesis using SparseAddNew T' by simp
next
  case (SparseAddExisting i r)
  then have r: "0 \<le> rng_from r" "rng_till r \<le> server_max_msg_id" "i \<in> T"
    "rng_from r \<le> rng_till r \<Longrightarrow> set [i] = T \<inter> {rng_from r .. rng_till r}" using f by simp_all
  have "T = T \<union> set [i]" using r(3) by auto
  with r have "\<exists>l' u. sparse_add_range [i] r None False l = Some (l', u) \<and> sparse_covers T l'"
    by (intro sparse_add_range_covers [OF assms(1) T]) simp_all
  then obtain l' u where "sparse_add_existing i r l = Some (l', u)" "sparse_covers T l'"
    unfolding sparse_add_existing_def by blast
  then show ?thesis using SparseAddExisting T by simp
next
  case (SparseAddSlice ms r c)
  then have r: "0 \<le> rng_from r" "rng_till r \<le> server_max_msg_id" "set ms \<subseteq> T"
    "rng_from r \<le> rng_till r \<Longrightarrow> set ms = T \<inter> {rng_from r .. rng_till r}"
    "\<And>n. c = Some n \<Longrightarrow> n = int (card T)" using f by simp_all
  have "T = T \<union> set ms" using r(3) by blast
  with r have "\<exists>l' u. sparse_add_range ms r c False l = Some (l', u) \<and> sparse_covers T l'"
    by (intro sparse_add_range_covers [OF assms(1) T]) simp_all
  then obtain l' u where "sparse_add_slice ms r c l = Some (l', u)" "sparse_covers T l'"
    unfolding sparse_add_slice_def by blast
  then show ?thesis using SparseAddSlice T by simp
next
  case (SparseRemoveOne i)
  then show ?thesis
    using f sparse_covers_remove_one [OF assms(1), of i] T by (auto simp: sparse_bounded_def)
next
  case SparseRemoveAll
  have "sparse_covers {} (sparse_remove_all l)"
    by (simp add: sparse_covers_def sparse_remove_all_def slices_ok_Cons slice_ok_def sparse_full_range_def
        server_max_msg_id_def)
  then show ?thesis using SparseRemoveAll by (simp add: sparse_bounded_def)
next
  case SparseInvalidateBottom
  have ok: "slices_ok (sil_slices l)" and eq: "slices_ids (sil_slices l) = T \<inter> slices_known (sil_slices l)"
    and known: "slices_known (sil_slices l) \<subseteq> {0 .. server_max_msg_id}"
    using assms(1) by (simp_all add: sparse_covers_def)
  note inv = slices_invalidate_bottom_refines [OF ok, of server_max_msg_id]
  have "slices_ids (slices_invalidate_bottom server_max_msg_id (sil_slices l))
      \<subseteq> slices_known (slices_invalidate_bottom server_max_msg_id (sil_slices l))"
    by (rule slices_ids_known [OF inv(1)])
  then have "sparse_covers T (sparse_invalidate_bottom l)"
    using inv eq known unfolding sparse_covers_def sparse_invalidate_bottom_def by auto
  then show ?thesis using SparseInvalidateBottom T by simp
qed

lemma sparse_reach_covers: "sparse_reach T l \<Longrightarrow> sparse_bounded T \<and> sparse_covers T l"
proof (induction rule: sparse_reach.induct)
  case (sparse_reach_empty T)
  then show ?case by (simp add: sparse_covers_empty)
next
  case (sparse_reach_apply T l op l')
  then show ?case using sparse_covers_apply [of T l op] by auto
qed

section \<open>An example state\<close>

definition wsparse :: sparse_ids_list where
  "wsparse = \<lparr> sil_count = Some 2, sil_slices = [\<lparr> sl_messages = [3, 5], sl_range = sparse_full_range \<rparr>] \<rparr>"

lemma wsparse_reach: "sparse_reach {3, 5} wsparse"
proof -
  have "sparse_apply (SparseAddSlice [3, 5] \<lparr> rng_from = 2, rng_till = 6 \<rparr> (Some 2)) sparse_list_empty = Some wsparse"
    by (simp add: sparse_add_slice_def sparse_add_range_def sparse_add_range_items_def sparse_list_empty_def
        slices_add_def slices_lower_def slices_upper_def slices_emplace_def flat_merge_def Let_def
        sparse_new_count_def sparse_settle_single_def sparse_accumulate_def wsparse_def)
  then have "sparse_reach (sparse_after (SparseAddSlice [3, 5] \<lparr> rng_from = 2, rng_till = 6 \<rparr> (Some 2)) {3, 5}) wsparse"
    by (rule sparse_reach.sparse_reach_apply [OF sparse_reach.sparse_reach_empty, rotated 2])
      (auto simp: sparse_bounded_def server_max_msg_id_def)
  then show ?thesis by simp
qed

section \<open>Properties\<close>

text \<open>C11.  Under truthful calls the list tracks the set of ids: its slices stay disjoint and ordered,
  inside the known ranges it holds exactly the ids, and a total it knows is exactly their number -
  also where the list infers that a single slice is everything.\<close>

theorem sparse_list_tracks_ids:
  assumes "sparse_reach T l"
  shows "slices_ok (sil_slices l) \<and> slices_ids (sil_slices l) = T \<inter> slices_known (sil_slices l)
    \<and> (\<forall>c. sil_count l = Some c \<longrightarrow> c = int (card T))"
  using sparse_reach_covers [OF assms] by (simp add: sparse_covers_def)

lemma sparse_list_tracks_ids_witness:
  "slices_ids (sil_slices wsparse) = {3, 5} \<inter> slices_known (sil_slices wsparse) \<and> sil_count wsparse = Some (int (card {3, 5::int}))"
  using sparse_list_tracks_ids [OF wsparse_reach] by (simp add: wsparse_def)

text \<open> Every truthful call returns.\<close>

theorem sparse_calls_never_fail:
  assumes "sparse_reach T l" and "sparse_faithful op T"
  shows "\<exists>l'. sparse_apply op l = Some l' \<and> sparse_reach (sparse_after op T) l'"
proof -
  obtain l' where "sparse_apply op l = Some l'"
    using sparse_covers_apply [of T l op] sparse_reach_covers [OF assms(1)] assms(2) by blast
  then show ?thesis using sparse_reach.sparse_reach_apply [OF assms] by blast
qed

lemma sparse_calls_never_fail_witness:
  "\<exists>l'. sparse_apply (SparseAddNew 9) wsparse = Some l' \<and> sparse_reach {9, 3, 5} l'"
  using sparse_calls_never_fail [OF wsparse_reach, of "SparseAddNew 9"] by (simp add: server_max_msg_id_def)

text \<open>An answer of \<open>countAfter\<close> is right: it is the number of ids above the given one that the
  caller's predicate counts, and the ids looked at are within the caller's limit.\<close>

lemma sparse_count_after_exact:
  assumes "sparse_reach T l" and "sparse_count_after till limit counts l = Some n"
  shows "n = int (card {m \<in> T. till < m \<and> counts m}) \<and> int (card {m \<in> T. till < m}) \<le> limit"
proof -
  let ?b = "last (sil_slices l)"
  let ?rest = "drop (flat_upper (sl_messages ?b) till) (sl_messages ?b)"
  have ne: "sil_slices l \<noteq> []" and full: "sl_till ?b = server_max_msg_id"
    and reach: "sl_from ?b \<le> till \<or> sl_from ?b = 0"
    and n: "n = int (length (filter counts ?rest))" and lim: "int (length ?rest) \<le> limit"
    using assms(2) by (auto simp: sparse_count_after_def Let_def split: if_splits)
  have T: "sparse_bounded T" and ok: "slices_ok (sil_slices l)"
    and eq: "slices_ids (sil_slices l) = T \<inter> slices_known (sil_slices l)"
    using sparse_reach_covers [OF assms(1)] by (simp_all add: sparse_covers_def)
  have split: "sil_slices l = butlast (sil_slices l) @ [?b]" using ne by simp
  have "slices_ok (butlast (sil_slices l) @ [?b])" using ok split by simp
  then have b: "slice_ok ?b" and before: "\<forall>a \<in> set (butlast (sil_slices l)). sl_till a < sl_from ?b \<and> slice_ok a"
    by (auto simp: slices_ok_append slices_ok_Cons) (simp add: slices_ok_def)
  have flat: "flat_ok (sl_messages ?b)" using b by (simp add: slice_ok_def)
  have bT: "m \<in> set (sl_messages ?b)" if m: "m \<in> T" "till < m" for m
  proof -
    have rangem: "sl_from ?b \<le> m" "m \<le> sl_till ?b"
      using reach m T full by (auto simp: sparse_bounded_def)
    then have "m \<in> slices_known (sil_slices l)" by (subst split) simp
    then have "m \<in> slices_ids (butlast (sil_slices l) @ [?b])" using eq m(1) split by simp
    moreover have "m \<notin> slices_ids (butlast (sil_slices l))"
      using before rangem by (fastforce simp: slices_ids_def slice_ok_def)
    ultimately show ?thesis by simp
  qed
  have "set (sl_messages ?b) \<subseteq> T" using eq ne by (auto simp: slices_ids_def)
  then have rest: "set ?rest = {m \<in> T. till < m}"
    using bT by (auto simp: drop_flat_upper [OF flat])
  have dist: "distinct ?rest" using flat by (simp add: flat_ok_sorted_distinct)
  have "card {m \<in> T. till < m} = length ?rest" using distinct_card [OF dist] rest by simp
  moreover have "set (filter counts ?rest) = {m \<in> T. till < m \<and> counts m}" using rest by auto
  then have "card {m \<in> T. till < m \<and> counts m} = length (filter counts ?rest)"
    using distinct_card [OF distinct_filter [OF dist], of counts] by simp
  ultimately show ?thesis using n lim by simp
qed

lemma sparse_count_after_exact_witness:
  "sparse_count_after 3 10 (\<lambda>i. 0 < i) wsparse = Some 1 \<and> (1::int) = int (card {m \<in> {3, 5}. (3::int) < m \<and> 0 < m})"
proof -
  have "sparse_count_after 3 10 (\<lambda>i. 0 < i) wsparse = Some 1"
    by (simp add: sparse_count_after_def wsparse_def sparse_full_range_def flat_upper_def server_max_msg_id_def)
  then show ?thesis using sparse_count_after_exact [OF wsparse_reach] by blast
qed

end
