(* ===== verification/Sparse_Ids_Slice.thy ===== *)
theory Sparse_Ids_Slice
  imports Sparse_Ids_List Slice_Builder
begin

text \<open>
  What a shared-media viewer shows (\<open>data/data_abstract_sparse_ids.h\<close>, \<open>data/data_sparse_ids.h\<close>,
  \<open>data/data_sparse_ids.cpp\<close>): the immutable slice of ids with its counts, the builder over
  message ids, and the slice merged from a chat and the group it migrated from.  In the merged slice
  a use of an absent optional part, which the source leaves undefined, is \<open>None\<close>; the answers that
  are themselves optional are options inside it.
\<close>

section \<open>A slice of ids\<close>

record abstract_sparse_ids =
  asi_ids :: "msg_id list"
  asi_full_count :: "int option"
  asi_skipped_before :: "int option"
  asi_skipped_after :: "int option"

definition asi_empty :: abstract_sparse_ids where
  "asi_empty = \<lparr> asi_ids = [], asi_full_count = None, asi_skipped_before = None, asi_skipped_after = None \<rparr>"

definition asi_index_of :: "abstract_sparse_ids \<Rightarrow> msg_id \<Rightarrow> int option" where
  "asi_index_of s i = map_option int (position_of i (asi_ids s))"

definition asi_size :: "abstract_sparse_ids \<Rightarrow> int" where
  "asi_size s = int (length (asi_ids s))"

definition asi_at :: "abstract_sparse_ids \<Rightarrow> int \<Rightarrow> msg_id option" where
  "asi_at s i = (if 0 \<le> i \<and> i < asi_size s then Some (asi_ids s ! nat i) else None)"

definition asi_distance :: "abstract_sparse_ids \<Rightarrow> msg_id \<Rightarrow> msg_id \<Rightarrow> int option" where
  "asi_distance s a b =
     (case asi_index_of s a of
        None \<Rightarrow> None
      | Some i \<Rightarrow> (case asi_index_of s b of None \<Rightarrow> None | Some j \<Rightarrow> Some (j - i)))"

definition asi_nearest :: "abstract_sparse_ids \<Rightarrow> msg_id \<Rightarrow> msg_id option" where
  "asi_nearest s i =
     (let p = flat_lower (asi_ids s) i
      in if p < length (asi_ids s) then Some (asi_ids s ! p)
         else if asi_ids s = [] then None
         else Some (last (asi_ids s)))"

definition asi_reverse :: "abstract_sparse_ids \<Rightarrow> abstract_sparse_ids" where
  "asi_reverse s = s\<lparr> asi_ids := rev (asi_ids s), asi_skipped_before := asi_skipped_after s,
                      asi_skipped_after := asi_skipped_before s \<rparr>"

section \<open>The builder over message ids\<close>

definition sparse_kind :: "msg_id key_kind" where
  "sparse_kind = \<lparr> kk_zero = 0, kk_set = (\<lambda>k. k \<noteq> 0), kk_min = 0, kk_max = server_max_msg_id,
     kk_valid = (\<lambda>k. k \<ge> 0) \<rparr>"

type_synonym sparse_builder = "msg_id slice_builder"
type_synonym sparse_requests = "msg_id around_data list"

definition sparse_builder_new :: "msg_id \<Rightarrow> int \<Rightarrow> int \<Rightarrow> sparse_builder" where
  "sparse_builder_new key before after =
     \<lparr> sb_key = key, sb_ids = [], sb_full_count = None, sb_skipped_before = None,
       sb_skipped_after = None, sb_limit_before = before, sb_limit_after = after \<rparr>"

definition sparse_builder_apply_initial ::
  "sparse_result \<Rightarrow> sparse_builder \<Rightarrow> (bool \<times> sparse_builder \<times> sparse_requests) option" where
  "sparse_builder_apply_initial r b =
     map_option (\<lambda>(b', q). (True, b', q)) (builder_apply_initial sparse_kind r b)"

definition sparse_builder_apply_update ::
  "sparse_update \<Rightarrow> sparse_builder \<Rightarrow> (bool \<times> sparse_builder \<times> sparse_requests) option" where
  "sparse_builder_apply_update u b = builder_apply_update sparse_kind u b"

definition sparse_builder_merge_slice_data ::
  "int option \<Rightarrow> msg_id list \<Rightarrow> int option \<Rightarrow> int option \<Rightarrow> sparse_builder
     \<Rightarrow> (sparse_builder \<times> sparse_requests) option" where
  "sparse_builder_merge_slice_data = builder_merge_slice_data sparse_kind"

definition sparse_builder_slice_to_limits :: "sparse_builder \<Rightarrow> sparse_builder \<times> sparse_requests" where
  "sparse_builder_slice_to_limits = builder_slice_to_limits sparse_kind"

text \<open>Unlike the messages builder, this one asks for what is missing after a removal.\<close>

definition sparse_builder_remove_one ::
  "msg_id \<Rightarrow> sparse_builder \<Rightarrow> bool \<times> sparse_builder \<times> sparse_requests" where
  "sparse_builder_remove_one i b =
     (let (changed, b1) = builder_remove_one i b
      in if changed then (let (b2, q) = sparse_builder_slice_to_limits b1 in (True, b2, q))
         else (False, b1, []))"

definition sparse_builder_remove_all :: "sparse_builder \<Rightarrow> bool \<times> sparse_builder" where
  "sparse_builder_remove_all b = (True, builder_remove_all b)"

definition sparse_builder_invalidate_bottom ::
  "sparse_builder \<Rightarrow> bool \<times> sparse_builder \<times> sparse_requests" where
  "sparse_builder_invalidate_bottom b =
     (let (b', q) = builder_bottom_invalidated sparse_kind b in (True, b', q))"

definition sparse_builder_snapshot :: "sparse_builder \<Rightarrow> abstract_sparse_ids" where
  "sparse_builder_snapshot b =
     \<lparr> asi_ids = sb_ids b, asi_full_count = sb_full_count b,
       asi_skipped_before = sb_skipped_before b, asi_skipped_after = sb_skipped_after b \<rparr>"

section \<open>The merged slice\<close>

record merged_key =
  mk_peer_id :: peer_id
  mk_topic_root_id :: msg_id
  mk_monoforum_peer_id :: peer_id
  mk_migrated_peer_id :: peer_id
  mk_universal_id :: msg_id

definition merged_key_new :: "peer_id \<Rightarrow> msg_id \<Rightarrow> peer_id \<Rightarrow> peer_id \<Rightarrow> msg_id \<Rightarrow> merged_key" where
  "merged_key_new peer topic monoforum migrated universal =
     \<lparr> mk_peer_id = peer, mk_topic_root_id = topic, mk_monoforum_peer_id = monoforum,
       mk_migrated_peer_id = (if topic \<noteq> 0 \<or> monoforum \<noteq> 0 then 0 else migrated),
       mk_universal_id = universal \<rparr>"

definition part_key :: "merged_key \<Rightarrow> msg_id" where
  "part_key k = (if mk_universal_id k < 0 then 1 else mk_universal_id k)"

definition migrated_key :: "merged_key \<Rightarrow> msg_id" where
  "migrated_key k =
     (if mk_universal_id k < 0 then server_max_msg_id + mk_universal_id k
      else if mk_universal_id k > 0 then server_max_msg_id - 1 else 0)"

definition migrated_slice :: "merged_key \<Rightarrow> abstract_sparse_ids option" where
  "migrated_slice k = (if mk_migrated_peer_id k \<noteq> 0 then Some asi_empty else None)"

definition compute_id :: "merged_key \<Rightarrow> full_msg_id" where
  "compute_id k =
     (if mk_universal_id k \<ge> 0 then FullMsgId (mk_peer_id k) (mk_universal_id k)
      else FullMsgId (mk_migrated_peer_id k) (server_max_msg_id + mk_universal_id k))"

fun add_counts :: "int option \<Rightarrow> int option \<Rightarrow> int option" where
  "add_counts (Some a) (Some b) = Some (a + b)"
| "add_counts _ _ = None"

record merged_slice =
  mg_key :: merged_key
  mg_part :: abstract_sparse_ids
  mg_migrated :: "abstract_sparse_ids option"
  mg_unsorted :: "abstract_sparse_ids option"

definition merged_slice_of_key :: "merged_key \<Rightarrow> merged_slice" where
  "merged_slice_of_key k =
     \<lparr> mg_key = k, mg_part = asi_empty, mg_migrated = migrated_slice k, mg_unsorted = None \<rparr>"

definition merged_slice_of_parts ::
  "merged_key \<Rightarrow> abstract_sparse_ids \<Rightarrow> abstract_sparse_ids option \<Rightarrow> merged_slice" where
  "merged_slice_of_parts k part migrated =
     \<lparr> mg_key = k, mg_part = part, mg_migrated = migrated, mg_unsorted = None \<rparr>"

definition merged_slice_of_unsorted :: "merged_key \<Rightarrow> abstract_sparse_ids \<Rightarrow> merged_slice" where
  "merged_slice_of_unsorted k unsorted =
     \<lparr> mg_key = k, mg_part = asi_empty, mg_migrated = None, mg_unsorted = Some unsorted \<rparr>"

definition isolated_in_part :: "merged_slice \<Rightarrow> bool" where
  "isolated_in_part m \<longleftrightarrow> is_server_msg_id (mk_universal_id (mg_key m))
     \<and> (mg_migrated m = None \<or> asi_skipped_before (mg_part m) \<noteq> Some 0)"

definition isolated_in_migrated :: "merged_slice \<Rightarrow> bool option" where
  "isolated_in_migrated m =
     (if is_server_msg_id (server_max_msg_id + mk_universal_id (mg_key m))
      then map_option (\<lambda>g. asi_skipped_after g \<noteq> Some 0) (mg_migrated m)
      else Some False)"

definition migrated_size :: "merged_slice \<Rightarrow> int option" where
  "migrated_size m = (if isolated_in_part m then Some 0 else map_option asi_size (mg_migrated m))"

definition merged_full_count :: "merged_slice \<Rightarrow> int option" where
  "merged_full_count m =
     (case mg_unsorted m of
        Some u \<Rightarrow> asi_full_count u
      | None \<Rightarrow> add_counts (asi_full_count (mg_part m))
          (case mg_migrated m of Some g \<Rightarrow> asi_full_count g | None \<Rightarrow> Some 0))"

definition merged_skipped_before :: "merged_slice \<Rightarrow> int option option" where
  "merged_skipped_before m =
     (case mg_unsorted m of
        Some u \<Rightarrow> Some (asi_skipped_before u)
      | None \<Rightarrow> do {
          iso \<leftarrow> isolated_in_migrated m;
          Some (add_counts
            (if iso then Some 0 else asi_skipped_before (mg_part m))
            (case mg_migrated m of
               Some g \<Rightarrow> if isolated_in_part m then asi_full_count g else asi_skipped_before g
             | None \<Rightarrow> Some 0))
        })"

definition merged_skipped_after :: "merged_slice \<Rightarrow> int option option" where
  "merged_skipped_after m =
     (case mg_unsorted m of
        Some u \<Rightarrow> Some (asi_skipped_after u)
      | None \<Rightarrow> do {
          iso \<leftarrow> isolated_in_migrated m;
          rest \<leftarrow> (if isolated_in_part m then Some (Some 0) else map_option asi_skipped_after (mg_migrated m));
          Some (add_counts (if iso then asi_full_count (mg_part m) else asi_skipped_after (mg_part m)) rest)
        })"

definition merged_index_of :: "merged_slice \<Rightarrow> full_msg_id \<Rightarrow> int option option" where
  "merged_index_of m f =
     (case mg_unsorted m of
        Some u \<Rightarrow> Some (asi_index_of u (fid_msg f))
      | None \<Rightarrow>
          if mk_peer_id (mg_key m) = fid_peer f then
            map_option (\<lambda>n. map_option (\<lambda>i. i + n) (asi_index_of (mg_part m) (fid_msg f))) (migrated_size m)
          else if isolated_in_part m then Some None
          else (case mg_migrated m of
              Some g \<Rightarrow> Some (if mk_migrated_peer_id (mg_key m) = fid_peer f
                              then asi_index_of g (fid_msg f) else None)
            | None \<Rightarrow> Some None))"

definition merged_size :: "merged_slice \<Rightarrow> int option" where
  "merged_size m =
     (case mg_unsorted m of
        Some u \<Rightarrow> Some (asi_size u)
      | None \<Rightarrow> do {
          g \<leftarrow> (if isolated_in_part m then Some 0 else migrated_size m);
          iso \<leftarrow> isolated_in_migrated m;
          Some (g + (if iso then 0 else asi_size (mg_part m)))
        })"

definition merged_at :: "merged_slice \<Rightarrow> int \<Rightarrow> full_msg_id option" where
  "merged_at m i = do {
     size \<leftarrow> merged_size m;
     if 0 \<le> i \<and> i < size then
       (case mg_unsorted m of
          Some u \<Rightarrow> map_option (FullMsgId (mk_peer_id (mg_key m))) (asi_at u i)
        | None \<Rightarrow> do {
            n \<leftarrow> migrated_size m;
            if n \<noteq> 0 \<and> i < n
            then Option.bind (mg_migrated m)
              (\<lambda>g. map_option (FullMsgId (mk_migrated_peer_id (mg_key m))) (asi_at g i))
            else map_option (FullMsgId (mk_peer_id (mg_key m))) (asi_at (mg_part m) (i - n))
          })
     else None
   }"

definition merged_distance :: "merged_slice \<Rightarrow> merged_key \<Rightarrow> merged_key \<Rightarrow> int option option" where
  "merged_distance m a b = do {
     i \<leftarrow> merged_index_of m (compute_id a);
     (case i of
        None \<Rightarrow> Some None
      | Some i' \<Rightarrow> map_option (map_option (\<lambda>j. j - i')) (merged_index_of m (compute_id b)))
   }"

definition merged_nearest :: "merged_slice \<Rightarrow> msg_id \<Rightarrow> full_msg_id option option" where
  "merged_nearest m i =
     (let from_part = map_option (FullMsgId (mk_peer_id (mg_key m)));
          from_migrated = map_option (FullMsgId (mk_migrated_peer_id (mg_key m)))
      in case mg_unsorted m of
           Some u \<Rightarrow>
             (if asi_index_of u i \<noteq> None then Some (Some (FullMsgId (mk_peer_id (mg_key m)) i))
              else if asi_size u \<noteq> 0 then Some (from_part (asi_at u (asi_size u div 2)))
              else Some None)
         | None \<Rightarrow>
             if is_server_msg_id i then
               (case asi_nearest (mg_part m) i of
                  Some r \<Rightarrow> Some (from_part (Some r))
                | None \<Rightarrow>
                    if isolated_in_part m then Some None
                    else map_option (\<lambda>g. from_migrated (asi_nearest g (server_max_msg_id - 1))) (mg_migrated m))
             else
               (case Option.bind (mg_migrated m) (\<lambda>g. asi_nearest g (i + server_max_msg_id)) of
                  Some r \<Rightarrow> Some (from_migrated (Some r))
                | None \<Rightarrow> do {
                    iso \<leftarrow> isolated_in_migrated m;
                    Some (if iso then None else from_part (asi_nearest (mg_part m) 0))
                  }))"

text \<open>The viewers of the two parts that a merged viewer combines: peer, topic, monoforum peer, key
  and limits of each.  The preconditions are those of \<open>CreateViewer\<close>.\<close>

definition merged_viewer_parts ::
  "merged_key \<Rightarrow> int \<Rightarrow> int \<Rightarrow> (peer_id \<times> msg_id \<times> peer_id \<times> msg_id \<times> int \<times> int) list option" where
  "merged_viewer_parts k before after =
     (let u = mk_universal_id k in
      if (mk_topic_root_id k = 0 \<or> (mk_monoforum_peer_id k = 0 \<and> mk_migrated_peer_id k = 0))
        \<and> (mk_monoforum_peer_id k = 0 \<or> (mk_topic_root_id k = 0 \<and> mk_migrated_peer_id k = 0))
        \<and> (is_server_msg_id u \<or> u = 0
            \<or> (is_server_msg_id (server_max_msg_id + u) \<and> mk_migrated_peer_id k \<noteq> 0))
        \<and> (u \<noteq> 0 \<or> (before = 0 \<and> after = 0))
      then Some ((mk_peer_id k, mk_topic_root_id k, mk_monoforum_peer_id k, part_key k, before, after)
        # (if mk_migrated_peer_id k = 0 then []
           else [(mk_migrated_peer_id k, 0, 0, migrated_key k, before, after)]))
      else None)"

section \<open>Lemmas on slices\<close>

lemma position_of_nth:
  assumes "distinct xs" and "i < length xs"
  shows "position_of (xs ! i) xs = Some i"
proof -
  have "takeWhile (\<lambda>x. x \<noteq> xs ! i) xs = take i xs"
    using assms by (intro takeWhile_eq_take_P_nth) (auto simp: nth_eq_iff_index_eq)
  then show ?thesis using assms(2) by (simp add: position_of_def)
qed

lemma asi_index_at:
  assumes "distinct (asi_ids s)" and "asi_at s i = Some x"
  shows "asi_index_of s x = Some i"
  using assms position_of_nth [OF assms(1), of "nat i"]
  by (auto simp: asi_at_def asi_size_def asi_index_of_def split: if_splits)

lemma asi_at_defined: "0 \<le> i \<Longrightarrow> i < asi_size s \<Longrightarrow> \<exists>x. asi_at s i = Some x"
  by (simp add: asi_at_def)

text \<open>Slices whose three counts add up, which is what an exact builder shows.\<close>

definition asi_total :: "abstract_sparse_ids \<Rightarrow> bool" where
  "asi_total s \<longleftrightarrow> (\<forall>n x y. asi_full_count s = Some n \<longrightarrow> asi_skipped_before s = Some x
     \<longrightarrow> asi_skipped_after s = Some y \<longrightarrow> n = x + asi_size s + y)"

lemma asi_totalD:
  "asi_total s \<Longrightarrow> asi_full_count s = Some n \<Longrightarrow> asi_skipped_before s = Some x \<Longrightarrow>
   asi_skipped_after s = Some y \<Longrightarrow> n = x + asi_size s + y"
  unfolding asi_total_def by blast

lemma sparse_builder_snapshot_total:
  assumes "builder_exact T b" and "finite T"
  shows "asi_total (sparse_builder_snapshot b)"
proof -
  obtain A C where e: "flat_ok (sb_ids b)" "T = A \<union> set (sb_ids b) \<union> C"
    "\<And>a x. a \<in> A \<Longrightarrow> x \<in> set (sb_ids b) \<Longrightarrow> a < x" "\<And>a x. a \<in> A \<Longrightarrow> x \<in> C \<Longrightarrow> a < x"
    "\<And>x c. x \<in> set (sb_ids b) \<Longrightarrow> c \<in> C \<Longrightarrow> x < c"
    "\<And>n. sb_skipped_before b = Some n \<Longrightarrow> n = int (card A)"
    "\<And>n. sb_skipped_after b = Some n \<Longrightarrow> n = int (card C)"
    "\<And>n. sb_full_count b = Some n \<Longrightarrow> n = int (card T)"
    by (rule builder_exactE [OF assms(1)], rule that, assumption+)
  have "distinct (sb_ids b)" using e(1) by (simp add: flat_ok_sorted_distinct)
  then have "card T = card A + length (sb_ids b) + card C"
    by (rule builder_exact_card [OF e(2) assms(2) _ e(3,4,5)])
  then show ?thesis
    unfolding asi_total_def sparse_builder_snapshot_def asi_size_def using e(6-8) by fastforce
qed

lemma add_counts_Some: "add_counts a b = Some n \<Longrightarrow> \<exists>x y. a = Some x \<and> b = Some y \<and> n = x + y"
  by (cases "(a, b)" rule: add_counts.cases) auto

text \<open>The key's universal id is in one of the two chats, never in both.\<close>

lemma universal_one_side:
  "is_server_msg_id u \<Longrightarrow> \<not> is_server_msg_id (server_max_msg_id + u)"
  by (simp add: is_server_msg_id_def)

lemma isolated_one_side:
  "isolated_in_part m \<Longrightarrow> isolated_in_migrated m = Some False"
  by (simp add: isolated_in_part_def isolated_in_migrated_def universal_one_side)

lemma sparse_snapshot_faithful:
  assumes cov: "sparse_covers T l" and T: "sparse_bounded T"
    and lim: "0 \<le> q_before q" "0 \<le> q_after q"
  shows "answer_faithful T (q_around q) (sparse_snapshot l q)"
proof (cases "if q_around q \<noteq> 0 then slices_find (sil_slices l) (q_around q) else None")
  case None
  have "\<forall>c. sil_count l = Some c \<longrightarrow> c = int (card T)" using cov by (simp add: sparse_covers_def)
  then show ?thesis
    using None by (auto simp: sparse_snapshot_def answer_faithful_def no_result_def not_less split: option.split)
next
  case (Some i)
  then have found: "slices_find (sil_slices l) (q_around q) = Some i" by (simp split: if_splits)
  have ok: "slices_ok (sil_slices l)" and eq: "slices_ids (sil_slices l) = T \<inter> slices_known (sil_slices l)"
    and cnt: "\<And>c. sil_count l = Some c \<Longrightarrow> c = int (card T)"
    using cov by (simp_all add: sparse_covers_def)
  note i = slices_findD [OF ok found]
  let ?s = "sil_slices l ! i"
  have s: "slice_ok ?s" using ok i(1) by (simp add: slices_ok_def)
  have rest: "{sl_from ?s .. sl_till ?s} \<inter> slices_ids (take i (sil_slices l) @ drop (Suc i) (sil_slices l)) = {}"
    using slices_key_unique [OF ok i(1)] by (auto simp: disjoint_iff)
  have "slices_ids (sil_slices l) = set (sl_messages ?s) \<union> slices_ids (take i (sil_slices l) @ drop (Suc i) (sil_slices l))"
    using slices_ids_update [OF i(1), of ?s] by simp
  moreover have "{sl_from ?s .. sl_till ?s} \<subseteq> slices_known (sil_slices l)"
    using nth_mem [OF i(1)] by (fastforce simp: slices_known_def)
  moreover have "set (sl_messages ?s) \<subseteq> {sl_from ?s .. sl_till ?s}" using s by (auto simp: slice_ok_def)
  ultimately have eqs: "set (sl_messages ?s) = T \<inter> {sl_from ?s .. sl_till ?s}" using eq rest by blast
  have "finite T" "T \<subseteq> {0 .. server_max_msg_id}" using T by (simp_all add: sparse_bounded_def)
  from query_from_slice_faithful [OF s lim this eqs cnt i(2,3)]
  show ?thesis using Some by (simp add: sparse_snapshot_def sparse_query_from_slice_def)
qed

section \<open>Properties\<close>

text \<open> A merged slice is indexed consistently: every index below its size has an id, and the id at
  an index has that index, whether the slice shows one chat, the other or both in a row.\<close>

theorem merged_index_of_at:
  assumes "merged_size m = Some n" and "0 \<le> i" and "i < n"
    and "distinct (asi_ids (mg_part m))" and "\<forall>g. mg_migrated m = Some g \<longrightarrow> distinct (asi_ids g)"
    and "\<forall>u. mg_unsorted m = Some u \<longrightarrow> distinct (asi_ids u)"
    and "mk_peer_id (mg_key m) \<noteq> mk_migrated_peer_id (mg_key m)"
  shows "\<exists>f. merged_at m i = Some f \<and> merged_index_of m f = Some (Some i)"
proof (cases "mg_unsorted m")
  case (Some u)
  then have "n = asi_size u" using assms(1) by (simp add: merged_size_def)
  then obtain x where "asi_at u i = Some x" using asi_at_defined assms(2,3) by blast
  then show ?thesis
    using Some assms asi_index_at [of u i x] by (simp add: merged_at_def merged_index_of_def)
next
  case None
  obtain g iso where g: "(if isolated_in_part m then Some 0 else migrated_size m) = Some g"
    and iso: "isolated_in_migrated m = Some iso" and n: "n = g + (if iso then 0 else asi_size (mg_part m))"
    using assms(1) None by (auto simp: merged_size_def Option.bind_eq_Some_conv split: if_splits)
  have msize: "migrated_size m = Some g" using g by (auto simp: migrated_size_def split: if_splits)
  have "0 \<le> g" using msize by (auto simp: migrated_size_def asi_size_def split: if_splits)
  show ?thesis
  proof (cases "g \<noteq> 0 \<and> i < g")
    case True
    then have nip: "\<not> isolated_in_part m" using msize by (auto simp: migrated_size_def)
    then obtain s where s: "mg_migrated m = Some s" "g = asi_size s" using msize by (auto simp: migrated_size_def)
    obtain x where x: "asi_at s i = Some x" using asi_at_defined assms(2) True s(2) by blast
    have "asi_index_of s x = Some i" using asi_index_at x assms(5) s(1) by blast
    then show ?thesis
      using assms(1-3,7) None msize True s(1) x nip by (simp add: merged_at_def merged_index_of_def)
  next
    case False
    then have "g \<le> i" using \<open>0 \<le> g\<close> assms(2) by auto
    then have "\<not> iso" using n assms(3) by (auto split: if_splits)
    then have "i - g < asi_size (mg_part m)" using n assms(3) by simp
    then obtain x where x: "asi_at (mg_part m) (i - g) = Some x"
      using asi_at_defined \<open>g \<le> i\<close> by (metis diff_ge_0_iff_ge)
    have "asi_index_of (mg_part m) x = Some (i - g)" using asi_index_at x assms(4) by blast
    then show ?thesis
      using assms(1-3) None msize False x by (auto simp: merged_at_def merged_index_of_def)
  qed
qed

lemma merged_index_of_at_witness:
  "\<exists>f. merged_at (merged_slice_of_parts (merged_key_new 1 0 0 2 (- 5))
        \<lparr> asi_ids = [3], asi_full_count = None, asi_skipped_before = Some 0, asi_skipped_after = None \<rparr>
        (Some \<lparr> asi_ids = [7, 8], asi_full_count = None, asi_skipped_before = None, asi_skipped_after = Some 0 \<rparr>)) 2 = Some f
    \<and> merged_index_of (merged_slice_of_parts (merged_key_new 1 0 0 2 (- 5))
        \<lparr> asi_ids = [3], asi_full_count = None, asi_skipped_before = Some 0, asi_skipped_after = None \<rparr>
        (Some \<lparr> asi_ids = [7, 8], asi_full_count = None, asi_skipped_before = None, asi_skipped_after = Some 0 \<rparr>)) f
      = Some (Some 2)"
  by (rule merged_index_of_at [where n = 3])
    (simp_all add: merged_slice_of_parts_def merged_key_new_def merged_size_def migrated_size_def
      isolated_in_part_def isolated_in_migrated_def is_server_msg_id_def server_max_msg_id_def asi_size_def)

text \<open>The counts of a merged slice add up: whenever both parts' counts do, the total is what is
  skipped before, shown, and skipped after, with a part that is left out counted as skipped.\<close>

lemma merged_counts_add_up:
  assumes "asi_total (mg_part m)" and "\<forall>g. mg_migrated m = Some g \<longrightarrow> asi_total g"
    and "\<forall>u. mg_unsorted m = Some u \<longrightarrow> asi_total u"
    and "merged_full_count m = Some n" and "merged_size m = Some k"
    and "merged_skipped_before m = Some (Some x)" and "merged_skipped_after m = Some (Some y)"
  shows "n = x + k + y"
proof (cases "mg_unsorted m")
  case (Some u)
  then show ?thesis
    using assms by (auto simp: merged_full_count_def merged_size_def merged_skipped_before_def
        merged_skipped_after_def intro: asi_totalD)
next
  case None
  obtain iso where iso: "isolated_in_migrated m = Some iso"
    using assms(6) None by (auto simp: merged_skipped_before_def Option.bind_eq_Some_conv)
  show ?thesis
  proof (cases "mg_migrated m")
    case no_migrated: None
    have ip: "isolated_in_part m"
      using assms(5) None no_migrated by (auto simp: merged_size_def migrated_size_def split: if_splits)
    then have "\<not> iso" using isolated_one_side [OF ip] iso by simp
    then show ?thesis
      using assms(4-7) None no_migrated ip iso
      by (auto simp: merged_full_count_def merged_size_def merged_skipped_before_def merged_skipped_after_def
          dest!: add_counts_Some dest: asi_totalD [OF assms(1)])
  next
    case (Some g)
    have g: "asi_total g" using assms(2) Some by blast
    show ?thesis
    proof (cases "isolated_in_part m")
      case True
      then have "\<not> iso" using isolated_one_side [OF True] iso by simp
      then show ?thesis
        using assms(4-7) None Some True iso
        by (auto simp: merged_full_count_def merged_size_def merged_skipped_before_def merged_skipped_after_def
            dest!: add_counts_Some dest: asi_totalD [OF assms(1)])
    next
      case nip: False
      show ?thesis
        using assms(4-7) None Some nip iso
        by (cases iso) (auto simp: merged_full_count_def merged_size_def merged_skipped_before_def
            merged_skipped_after_def migrated_size_def dest!: add_counts_Some dest: asi_totalD [OF g],
            frule (2) asi_totalD [OF assms(1)], frule (2) asi_totalD [OF g], simp)
    qed
  qed
qed

lemma merged_counts_add_up_witness:
  "(10::int) = 4 + 3 + 3 \<and>
   merged_full_count (merged_slice_of_parts (merged_key_new 1 0 0 2 (- 5))
        \<lparr> asi_ids = [3], asi_full_count = Some 4, asi_skipped_before = Some 0, asi_skipped_after = Some 3 \<rparr>
        (Some \<lparr> asi_ids = [7, 8], asi_full_count = Some 6, asi_skipped_before = Some 4, asi_skipped_after = Some 0 \<rparr>)) = Some 10"
proof
  let ?m = "merged_slice_of_parts (merged_key_new 1 0 0 2 (- 5))
        \<lparr> asi_ids = [3], asi_full_count = Some 4, asi_skipped_before = Some 0, asi_skipped_after = Some 3 \<rparr>
        (Some \<lparr> asi_ids = [7, 8], asi_full_count = Some 6, asi_skipped_before = Some 4, asi_skipped_after = Some 0 \<rparr>)"
  show full: "merged_full_count ?m = Some 10"
    by (simp add: merged_slice_of_parts_def merged_full_count_def)
  show "(10::int) = 4 + 3 + 3"
    by (rule merged_counts_add_up [where m = ?m, OF _ _ _ full])
      (simp_all add: merged_slice_of_parts_def merged_key_new_def merged_size_def migrated_size_def
        merged_skipped_before_def merged_skipped_after_def isolated_in_part_def isolated_in_migrated_def
        is_server_msg_id_def server_max_msg_id_def asi_size_def asi_total_def)
qed

text \<open>C37.  A shared-media viewer is done exactly when it has everything: if after the list's answer the
  builder asks for nothing, the slice shown is the whole window of ids around the key.\<close>

theorem sparse_viewer_complete:
  assumes "sparse_reach T l" and "key \<noteq> 0" and "0 \<le> before" and "0 \<le> after"
  shows "\<exists>b q. sparse_builder_apply_initial
        (sparse_snapshot l \<lparr> q_around = key, q_before = before, q_after = after \<rparr>)
        (sparse_builder_new key before after) = Some (True, b, q)
    \<and> asi_total (sparse_builder_snapshot b)
    \<and> (q = [] \<longrightarrow> asi_ids (sparse_builder_snapshot b) = full_window T key before after)"
proof -
  let ?q = "\<lparr> q_around = key, q_before = before, q_after = after \<rparr>"
  have cov: "sparse_covers T l" and T: "sparse_bounded T" using sparse_reach_covers [OF assms(1)] by simp_all
  have "answer_faithful T (q_around ?q) (sparse_snapshot l ?q)"
    using assms(3,4) by (intro sparse_snapshot_faithful [OF cov T]) simp_all
  then have "answer_faithful T (sb_key (sparse_builder_new key before after)) (sparse_snapshot l ?q)"
    by (simp add: sparse_builder_new_def)
  from builder_initial_complete [OF this, of sparse_kind]
  obtain b q where b: "builder_apply_initial sparse_kind (sparse_snapshot l ?q)
      (sparse_builder_new key before after) = Some (b, q)" "builder_ok T b"
    "q = [] \<longrightarrow> sb_ids b = full_window T key before after"
    using assms(2-4) T by (auto simp: sparse_builder_new_def sparse_kind_def sparse_bounded_def)
  have "asi_total (sparse_builder_snapshot b)"
    using b(2) T by (intro sparse_builder_snapshot_total [of T]) (simp_all add: builder_ok_def sparse_bounded_def)
  then show ?thesis
    using b by (auto simp: sparse_builder_apply_initial_def sparse_builder_snapshot_def)
qed

lemma sparse_viewer_complete_witness:
  "\<exists>b q. sparse_builder_apply_initial
        (sparse_snapshot wsparse \<lparr> q_around = 3, q_before = 1, q_after = 1 \<rparr>)
        (sparse_builder_new 3 1 1) = Some (True, b, q)
    \<and> asi_total (sparse_builder_snapshot b)
    \<and> (q = [] \<longrightarrow> asi_ids (sparse_builder_snapshot b) = full_window {3, 5} 3 1 1)"
  by (rule sparse_viewer_complete [OF wsparse_reach]) simp_all

text \<open>Removing an id from a shown slice keeps the builder exact and asks for what the smaller slice
  lacks: if it asks for nothing, the window around the key is complete again.\<close>

lemma sparse_remove_one_refills:
  assumes "builder_exact T b" and "builder_centered T b" and "finite T" and "i \<in> T" and "sb_key b \<noteq> 0"
    and "0 \<le> sb_limit_before b" and "0 \<le> sb_limit_after b" and "sb_ids b \<noteq> []"
    and "flat_remove i (sb_ids b) \<noteq> []"
    and "sparse_builder_remove_one i b = (True, b', q)"
  shows "builder_exact (T - {i}) b'
    \<and> (q = [] \<longrightarrow> sb_ids b' = full_window (T - {i}) (sb_key b) (sb_limit_before b) (sb_limit_after b))"
proof -
  let ?b1 = "snd (builder_remove_one i b)"
  have b': "builder_slice_to_limits sparse_kind ?b1 = (b', q)"
    using assms(10) by (auto simp: sparse_builder_remove_one_def sparse_builder_slice_to_limits_def
        split: prod.splits if_splits)
  have ex: "builder_exact (T - {i}) ?b1" by (rule builder_remove_one_exact [OF assms(1,3,4,8)])
  have flat: "flat_ok (sb_ids b)" using assms(1) by (simp add: builder_exact_def)
  have cen: "builder_centered (T - {i}) ?b1"
    using assms(2) set_flat_remove [OF flat, of i] unfolding builder_centered_def builder_remove_one_keys(3) builder_remove_one_fields(1)
    by auto
  have fin: "finite (T - {i})" using assms(3) by simp
  have "builder_exact (T - {i}) (fst (builder_slice_to_limits sparse_kind ?b1))"
    using assms(6,7) by (intro builder_slice_exact [OF ex fin]) simp_all
  moreover have "sb_ids (fst (builder_slice_to_limits sparse_kind ?b1))
      = full_window (T - {i}) (sb_key ?b1) (sb_limit_before ?b1) (sb_limit_after ?b1)" if "q = []"
    by (rule builder_complete_window [OF ex cen fin])
      (use assms(5-7,9) b' that in \<open>simp_all add: sparse_kind_def builder_remove_one_fields(1)\<close>)
  ultimately show ?thesis using b' by simp
qed

definition wbuilder :: sparse_builder where
  "wbuilder = \<lparr> sb_key = 3, sb_ids = [2, 3, 5], sb_full_count = Some 3, sb_skipped_before = Some 0,
     sb_skipped_after = Some 0, sb_limit_before = 1, sb_limit_after = 1 \<rparr>"

lemma sparse_remove_one_refills_witness:
  "\<exists>b' q. sparse_builder_remove_one 5 wbuilder = (True, b', q) \<and> builder_exact ({2, 3, 5} - {5}) b'"
proof -
  obtain ch b' q where r: "sparse_builder_remove_one 5 wbuilder = (ch, b', q)" by (metis prod_cases3)
  have ch: "ch"
    using r by (auto simp: sparse_builder_remove_one_def builder_remove_one_def wbuilder_def Let_def split: prod.splits)
  have ex: "builder_exact {2, 3, 5} wbuilder"
    by (rule builder_exactI [where A = "{}" and C = "{}"]) (auto simp: wbuilder_def)
  have "builder_exact ({2, 3, 5} - {5}) b' \<and> (q = [] \<longrightarrow> sb_ids b' = full_window ({2, 3, 5} - {5})
      (sb_key wbuilder) (sb_limit_before wbuilder) (sb_limit_after wbuilder))"
    by (rule sparse_remove_one_refills [OF ex])
      (use r ch in \<open>simp_all add: wbuilder_def builder_centered_def flat_remove_def\<close>)
  then show ?thesis using r ch by (intro exI [of _ b'] exI [of _ q]) simp
qed

end
