(* ===== verification/User_Photos.thy ===== *)
theory User_Photos
  imports Slice_Builder
begin

text \<open>
  Profile photos of users: \<open>Storage::UserPhotos\<close> (\<open>storage/storage_user_photos.cpp\<close>) and the slice
  builder of \<open>data/data_user_photos.cpp\<close>.  The list keeps photo ids newest last, with the fallback
  photo (the back photo) held at the front; every operation returns the new list and the updates it
  fires in order.
\<close>

type_synonym photo_id = "64 word"
type_synonym user_id = "64 word"

record photos_update =
  pu_photo_ids :: "photo_id list"
  pu_count :: "int option"

record photos_list =
  pl_count :: "int option"
  pl_photo_ids :: "photo_id list"
  pl_back :: photo_id

definition photos_list_new :: photos_list where
  "photos_list_new = \<lparr> pl_count = None, pl_photo_ids = [], pl_back = 0 \<rparr>"

section \<open>The list\<close>

definition photos_send_update :: "photos_list \<Rightarrow> photos_update" where
  "photos_send_update l = \<lparr> pu_photo_ids = pl_photo_ids l, pu_count = pl_count l \<rparr>"

definition photos_remove_one :: "photo_id \<Rightarrow> photos_list \<Rightarrow> photos_list \<times> photos_update list" where
  "photos_remove_one p l =
     (let l' = (if p \<in> set (pl_photo_ids l)
                then l\<lparr> pl_count := opt_add (- 1) (pl_count l), pl_photo_ids := remove1 p (pl_photo_ids l) \<rparr>
                else l\<lparr> pl_count := None \<rparr>)
      in (l', [photos_send_update l']))"

definition photos_detach_back :: "photos_list \<Rightarrow> photos_list \<times> photos_update list" where
  "photos_detach_back l = (if pl_back l \<noteq> 0 then photos_remove_one (pl_back l) l else (l, []))"

definition photos_attach_back :: "photos_list \<Rightarrow> photos_list" where
  "photos_attach_back l =
     (if pl_back l \<noteq> 0
      then l\<lparr> pl_photo_ids := pl_back l # pl_photo_ids l, pl_count := opt_add 1 (pl_count l) \<rparr>
      else l)"

definition photos_set_back :: "photo_id \<Rightarrow> photos_list \<Rightarrow> photos_list \<times> photos_update list" where
  "photos_set_back p l =
     (if pl_back l \<noteq> p then
        (let (l1, us) = photos_detach_back l;
             l2 = photos_attach_back (l1\<lparr> pl_back := p \<rparr>)
         in (l2, us @ [photos_send_update l2]))
      else (l, []))"

definition photos_add_new :: "photo_id \<Rightarrow> photos_list \<Rightarrow> photos_list \<times> photos_update list" where
  "photos_add_new p l =
     (if p \<notin> set (pl_photo_ids l) then
        (let (l1, us) = photos_detach_back l;
             l2 = l1\<lparr> pl_photo_ids := pl_photo_ids l1 @ [p], pl_count := opt_add 1 (pl_count l1) \<rparr>;
             l3 = photos_attach_back l2
         in (l3, us @ [photos_send_update l3]))
      else (l, []))"

fun photos_push_slice :: "photo_id list \<Rightarrow> photo_id list \<Rightarrow> photo_id list" where
  "photos_push_slice [] ids = ids"
| "photos_push_slice (p # ps) ids = photos_push_slice ps (if p \<in> set ids then ids else p # ids)"

definition photos_add_slice :: "photo_id list \<Rightarrow> int \<Rightarrow> photos_list \<Rightarrow> photos_list \<times> photos_update list" where
  "photos_add_slice ps cnt l =
     (let (l1, us) = photos_detach_back l;
          ids = photos_push_slice ps (pl_photo_ids l1);
          size = int (length ids);
          l2 = l1\<lparr> pl_photo_ids := ids,
                  pl_count := Some (if (0 \<le> cnt \<and> cnt < size) \<or> ps = [] then size else cnt) \<rparr>;
          l3 = photos_attach_back l2
      in (l3, us @ [photos_send_update l3]))"

definition photos_remove_after :: "photo_id \<Rightarrow> photos_list \<Rightarrow> photos_list \<times> photos_update list" where
  "photos_remove_after p l =
     (let l' = (case position_of p (pl_photo_ids l) of
            None \<Rightarrow> l\<lparr> pl_count := None, pl_photo_ids := [] \<rparr>
          | Some i \<Rightarrow> l\<lparr> pl_count := opt_add (- (int (length (pl_photo_ids l)) - int i)) (pl_count l),
                         pl_photo_ids := take i (pl_photo_ids l) \<rparr>)
      in (l', [photos_send_update l']))"

definition photos_replace :: "photo_id \<Rightarrow> photo_id \<Rightarrow> photos_list \<Rightarrow> photos_list \<times> photos_update list" where
  "photos_replace old new l =
     (let l1 = (case position_of old (pl_photo_ids l) of
            None \<Rightarrow> l
          | Some i \<Rightarrow> l\<lparr> pl_photo_ids := (pl_photo_ids l)[i := new] \<rparr>);
          l2 = (if pl_back l1 = old then l1\<lparr> pl_back := new \<rparr> else l1)
      in (l2, [photos_send_update l2]))"

section \<open>Queries\<close>

record photos_key =
  pk_user :: user_id
  pk_photo :: photo_id
  pk_back :: bool

record photos_query =
  pq_key :: photos_key
  pq_before :: int
  pq_after :: int

record photos_result =
  pr_count :: "int option"
  pr_skipped_before :: "int option"
  pr_skipped_after :: int
  pr_photo_ids :: "photo_id list"

definition photos_query_list :: "photos_list \<Rightarrow> photos_query \<Rightarrow> photos_result option" where
  "photos_query_list l q =
     (let ids = pl_photo_ids l in
      case position_of (pk_photo (pq_key q)) ids of
        Some p \<Rightarrow>
          (let have_before = int p;
               have_after = int (length ids) - int p;
               before = min have_before (pq_before q);
               after = min have_after (pq_after q + 1)
           in Some \<lparr> pr_count = pl_count l, pr_skipped_before = Some (have_before - before),
                     pr_skipped_after = have_after - after,
                     pr_photo_ids = take (nat (before + after)) (drop (nat (have_before - before)) ids) \<rparr>)
      | None \<Rightarrow>
          if pk_back (pq_key q) \<and> pl_back l \<noteq> 0 then
            Some \<lparr> pr_count = Some 1, pr_skipped_before = None, pr_skipped_after = 0, pr_photo_ids = [pl_back l] \<rparr>
          else if pl_count l \<noteq> None then
            Some \<lparr> pr_count = pl_count l, pr_skipped_before = None, pr_skipped_after = 0, pr_photo_ids = [] \<rparr>
          else None)"

section \<open>The lists of all users\<close>

type_synonym user_photos = "user_id \<Rightarrow> photos_list option"

record user_photos_update =
  uu_user :: user_id
  uu_update :: photos_update

definition photos_enforce :: "user_id \<Rightarrow> user_photos \<Rightarrow> photos_list" where
  "photos_enforce u m = (case m u of Some l \<Rightarrow> l | None \<Rightarrow> photos_list_new)"

datatype photos_op =
    SetBack user_id photo_id
  | AddNewPhoto user_id photo_id
  | AddPhotos user_id "photo_id list" int
  | RemovePhoto user_id photo_id
  | RemoveAfter user_id photo_id
  | ReplacePhoto user_id photo_id photo_id

fun user_photos_apply :: "photos_op \<Rightarrow> user_photos \<Rightarrow> user_photos \<times> user_photos_update list" where
  "user_photos_apply (SetBack u p) m =
     (let (l, us) = photos_set_back p (photos_enforce u m) in (m(u \<mapsto> l), map (user_photos_update.make u) us))"
| "user_photos_apply (AddNewPhoto u p) m =
     (let (l, us) = photos_add_new p (photos_enforce u m) in (m(u \<mapsto> l), map (user_photos_update.make u) us))"
| "user_photos_apply (AddPhotos u ps c) m =
     (let (l, us) = photos_add_slice ps c (photos_enforce u m) in (m(u \<mapsto> l), map (user_photos_update.make u) us))"
| "user_photos_apply (RemovePhoto u p) m =
     (case m u of None \<Rightarrow> (m, [])
      | Some l \<Rightarrow> (let (l', us) = photos_remove_one p l in (m(u \<mapsto> l'), map (user_photos_update.make u) us)))"
| "user_photos_apply (RemoveAfter u p) m =
     (case m u of None \<Rightarrow> (m, [])
      | Some l \<Rightarrow> (let (l', us) = photos_remove_after p l in (m(u \<mapsto> l'), map (user_photos_update.make u) us)))"
| "user_photos_apply (ReplacePhoto u old new) m =
     (case m u of None \<Rightarrow> (m, [])
      | Some l \<Rightarrow> (let (l', us) = photos_replace old new l in (m(u \<mapsto> l'), map (user_photos_update.make u) us)))"

definition user_photos_query :: "user_photos \<Rightarrow> photos_query \<Rightarrow> photos_result option" where
  "user_photos_query m q = Option.bind (m (pk_user (pq_key q))) (\<lambda>l. photos_query_list l q)"

section \<open>The slice builder\<close>

record photos_builder =
  pb_key :: photos_key
  pb_ids :: "photo_id list"
  pb_full_count :: "int option"
  pb_skipped_before :: "int option"
  pb_skipped_after :: int
  pb_limit_before :: int
  pb_limit_after :: int

definition photos_builder_new :: "photos_key \<Rightarrow> int \<Rightarrow> int \<Rightarrow> photos_builder" where
  "photos_builder_new k before after =
     \<lparr> pb_key = k, pb_ids = [], pb_full_count = None, pb_skipped_before = None, pb_skipped_after = 0,
       pb_limit_before = before, pb_limit_after = after \<rparr>"

text \<open>The requests are the photo ids to load around.\<close>

definition photos_builder_slice_to_limits :: "photos_builder \<Rightarrow> photos_builder \<times> photo_id list" where
  "photos_builder_slice_to_limits b =
     (let ids = pb_ids b;
          p = (case position_of (pk_photo (pb_key b)) ids of Some i \<Rightarrow> int i | None \<Rightarrow> int (length ids));
          remove_begin = p - pb_limit_before b;
          remove_end = int (length ids) - p - pb_limit_after b - 1;
          b1 = (if remove_end > 0
                then b\<lparr> pb_ids := take (length ids - nat remove_end) ids,
                        pb_skipped_after := pb_skipped_after b + remove_end \<rparr>
                else b)
      in if remove_begin > 0 then
           (b1\<lparr> pb_ids := drop (nat remove_begin) (pb_ids b1),
                pb_skipped_before := opt_add remove_begin (pb_skipped_before b1) \<rparr>, [])
         else if remove_begin < 0 \<and> (case pb_skipped_before b1 of None \<Rightarrow> True | Some n \<Rightarrow> n > 0) then
           (b1, [if pb_ids b1 = [] then 0 else hd (pb_ids b1)])
         else (b1, []))"

definition photos_builder_merge ::
  "int option \<Rightarrow> photo_id list \<Rightarrow> int \<Rightarrow> photos_builder \<Rightarrow> photos_builder" where
  "photos_builder_merge cnt ids after b =
     (if ids = [] then
        (if pb_full_count b \<noteq> cnt then
           (case cnt of
              Some c \<Rightarrow> (if 0 \<le> c \<and> c \<le> int (length (pb_ids b))
                        then b\<lparr> pb_full_count := Some (int (length (pb_ids b))),
                                pb_skipped_before := Some 0, pb_skipped_after := 0 \<rparr>
                        else b\<lparr> pb_full_count := cnt \<rparr>)
            | None \<Rightarrow> b\<lparr> pb_full_count := None \<rparr>)
         else b)
      else
        (let b1 = (if cnt \<noteq> None then b\<lparr> pb_full_count := cnt \<rparr> else b);
             b2 = b1\<lparr> pb_skipped_after := after, pb_ids := ids \<rparr>
         in case pb_full_count b2 of
              Some n \<Rightarrow> b2\<lparr> pb_skipped_before := Some (n - after - int (length ids)) \<rparr>
            | None \<Rightarrow> b2))"

definition photos_builder_merge_slice_data ::
  "int option \<Rightarrow> photo_id list \<Rightarrow> int \<Rightarrow> photos_builder \<Rightarrow> photos_builder \<times> photo_id list" where
  "photos_builder_merge_slice_data cnt ids after b =
     photos_builder_slice_to_limits (photos_builder_merge cnt ids after b)"

definition photos_builder_apply_result ::
  "photos_result \<Rightarrow> photos_builder \<Rightarrow> bool \<times> photos_builder \<times> photo_id list" where
  "photos_builder_apply_result r b =
     (let (b', q) = photos_builder_merge_slice_data (pr_count r) (pr_photo_ids r) (pr_skipped_after r) b
      in (True, b', q))"

definition photos_builder_apply_update ::
  "user_photos_update \<Rightarrow> photos_builder \<Rightarrow> bool \<times> photos_builder \<times> photo_id list" where
  "photos_builder_apply_update u b =
     (if uu_user u \<noteq> pk_user (pb_key b) then (False, b, [])
      else (let (b', q) = photos_builder_merge_slice_data (pu_count (uu_update u)) (pu_photo_ids (uu_update u)) 0 b
            in (True, b', q)))"

section \<open>The invariant of a list\<close>

text \<open>No photo twice; a known total covers what is held; the back photo, when held, is at the front.\<close>

definition photos_ok :: "photos_list \<Rightarrow> bool" where
  "photos_ok l \<longleftrightarrow> distinct (pl_photo_ids l) \<and> 0 \<notin> set (pl_photo_ids l)
     \<and> (\<forall>c. pl_count l = Some c \<longrightarrow> int (length (pl_photo_ids l)) \<le> c)
     \<and> (pl_back l \<in> set (pl_photo_ids l) \<longrightarrow> hd (pl_photo_ids l) = pl_back l)"

lemma photos_enforce_Some [simp]: "m u = Some l \<Longrightarrow> photos_enforce u m = l"
  by (simp add: photos_enforce_def)

text \<open>What the calls are expected to keep apart: photo 0 is no photo, and the back photo is not one of
  the photos added.\<close>

fun photos_op_ok :: "photos_op \<Rightarrow> user_photos \<Rightarrow> bool" where
  "photos_op_ok (SetBack u p) m \<longleftrightarrow>
     p = pl_back (photos_enforce u m) \<or> p \<notin> set (pl_photo_ids (photos_enforce u m))"
| "photos_op_ok (AddNewPhoto u p) m \<longleftrightarrow> p \<noteq> 0 \<and> p \<noteq> pl_back (photos_enforce u m)"
| "photos_op_ok (AddPhotos u ps c) m \<longleftrightarrow> 0 \<le> c \<and> 0 \<notin> set ps \<and> pl_back (photos_enforce u m) \<notin> set ps"
| "photos_op_ok (ReplacePhoto u old new) m \<longleftrightarrow> new \<noteq> 0 \<and> new \<notin> insert (pl_back (photos_enforce u m)) (set (pl_photo_ids (photos_enforce u m)))"
| "photos_op_ok _ m \<longleftrightarrow> True"

lemma photos_ok_new: "photos_ok photos_list_new"
  by (simp add: photos_ok_def photos_list_new_def)

lemma length_remove1_int: "p \<in> set xs \<Longrightarrow> int (length (remove1 p xs)) = int (length xs) - 1"
proof -
  assume "p \<in> set xs"
  then have "0 < length xs" "length (remove1 p xs) = length xs - 1"
    using length_pos_if_in_set by (auto simp: length_remove1)
  then show ?thesis by linarith
qed

lemma photos_ok_remove_one:
  assumes "photos_ok l"
  shows "photos_ok (fst (photos_remove_one p l))"
    and "p \<notin> set (pl_photo_ids (fst (photos_remove_one p l)))"
    and "pl_back (fst (photos_remove_one p l)) = pl_back l"
    and "set (pl_photo_ids (fst (photos_remove_one p l))) \<subseteq> set (pl_photo_ids l)"
proof -
  have hd: "hd (remove1 p xs) = b" if "hd xs = b" "b \<in> set (remove1 p xs)" "distinct xs" for xs and b :: photo_id
    using that by (cases xs) auto
  show "photos_ok (fst (photos_remove_one p l))"
    using assms length_remove1_int [of p "pl_photo_ids l"] hd [of "pl_photo_ids l" "pl_back l"]
      set_remove1_subset [of p "pl_photo_ids l"]
    by (auto simp: photos_ok_def photos_remove_one_def Let_def opt_add_def dest: notin_set_remove1)
  show "p \<notin> set (pl_photo_ids (fst (photos_remove_one p l)))"
    using assms by (auto simp: photos_ok_def photos_remove_one_def Let_def)
  show "pl_back (fst (photos_remove_one p l)) = pl_back l"
    by (simp add: photos_remove_one_def Let_def)
  show "set (pl_photo_ids (fst (photos_remove_one p l))) \<subseteq> set (pl_photo_ids l)"
    using set_remove1_subset [of p "pl_photo_ids l"] by (auto simp: photos_remove_one_def Let_def)
qed

lemma photos_ok_detach:
  assumes "photos_ok l"
  shows "photos_ok (fst (photos_detach_back l))"
    and "pl_back l \<notin> set (pl_photo_ids (fst (photos_detach_back l)))"
    and "pl_back (fst (photos_detach_back l)) = pl_back l"
    and "set (pl_photo_ids (fst (photos_detach_back l))) \<subseteq> set (pl_photo_ids l)"
proof -
  note rem = photos_ok_remove_one [OF assms, of "pl_back l"]
  show "photos_ok (fst (photos_detach_back l))" using assms rem by (simp add: photos_detach_back_def)
  show "pl_back l \<notin> set (pl_photo_ids (fst (photos_detach_back l)))"
    using assms rem by (auto simp: photos_detach_back_def photos_ok_def)
  show "pl_back (fst (photos_detach_back l)) = pl_back l" using rem by (simp add: photos_detach_back_def)
  show "set (pl_photo_ids (fst (photos_detach_back l))) \<subseteq> set (pl_photo_ids l)"
    using rem by (simp add: photos_detach_back_def)
qed

lemma photos_ok_attach:
  assumes "distinct (pl_photo_ids l)" and "0 \<notin> set (pl_photo_ids l)"
    and "\<And>c. pl_count l = Some c \<Longrightarrow> int (length (pl_photo_ids l)) \<le> c"
    and "pl_back l \<notin> set (pl_photo_ids l)"
  shows "photos_ok (photos_attach_back l)"
  using assms by (auto simp: photos_ok_def photos_attach_back_def opt_add_def)

lemma photos_push_slice_set:
  "distinct ids \<Longrightarrow> distinct (photos_push_slice ps ids) \<and> set (photos_push_slice ps ids) = set ids \<union> set ps"
  by (induction ps arbitrary: ids) auto

lemma photos_ok_set_back:
  assumes "photos_ok l" and "p = pl_back l \<or> p \<notin> set (pl_photo_ids l)"
  shows "photos_ok (fst (photos_set_back p l))"
proof (cases "pl_back l = p")
  case True
  then show ?thesis using assms(1) by (simp add: photos_set_back_def)
next
  case False
  note d = photos_ok_detach [OF assms(1)]
  have "photos_ok (photos_attach_back (fst (photos_detach_back l)\<lparr> pl_back := p \<rparr>))"
    using d assms(2) False by (intro photos_ok_attach) (auto simp: photos_ok_def)
  then show ?thesis using False by (simp add: photos_set_back_def case_prod_beta Let_def)
qed

lemma photos_ok_add_new:
  assumes "photos_ok l" and "p \<noteq> 0" and "p \<noteq> pl_back l"
  shows "photos_ok (fst (photos_add_new p l))"
proof (cases "p \<in> set (pl_photo_ids l)")
  case True
  then show ?thesis using assms(1) by (simp add: photos_add_new_def)
next
  case False
  note d = photos_ok_detach [OF assms(1)]
  let ?l1 = "fst (photos_detach_back l)"
  have "photos_ok (photos_attach_back (?l1\<lparr> pl_photo_ids := pl_photo_ids ?l1 @ [p], pl_count := opt_add 1 (pl_count ?l1) \<rparr>))"
    using d assms(2,3) False by (intro photos_ok_attach) (auto simp: photos_ok_def opt_add_def)
  then show ?thesis using False by (simp add: photos_add_new_def case_prod_beta Let_def)
qed

lemma photos_ok_add_slice:
  assumes "photos_ok l" and "0 \<le> c" and "0 \<notin> set ps" and "pl_back l \<notin> set ps"
  shows "photos_ok (fst (photos_add_slice ps c l))"
proof -
  note d = photos_ok_detach [OF assms(1)]
  let ?l1 = "fst (photos_detach_back l)"
  let ?ids = "photos_push_slice ps (pl_photo_ids ?l1)"
  let ?c = "if (0 \<le> c \<and> c < int (length ?ids)) \<or> ps = [] then int (length ?ids) else c"
  have "distinct (pl_photo_ids ?l1)" using d(1) by (simp add: photos_ok_def)
  note push = photos_push_slice_set [OF this, of ps]
  have "photos_ok (photos_attach_back (?l1\<lparr> pl_photo_ids := ?ids, pl_count := Some ?c \<rparr>))"
    using d assms(2-4) push by (intro photos_ok_attach) (auto simp: photos_ok_def split: if_splits)
  then show ?thesis by (simp add: photos_add_slice_def case_prod_beta Let_def)
qed

lemma photos_ok_remove_after:
  assumes "photos_ok l"
  shows "photos_ok (fst (photos_remove_after p l))"
proof (cases "position_of p (pl_photo_ids l)")
  case None
  then show ?thesis using assms by (simp add: photos_remove_after_def photos_ok_def Let_def)
next
  case (Some i)
  then have "i < length (pl_photo_ids l)" by (simp add: position_of_def Let_def split: if_splits)
  moreover have "set (take i (pl_photo_ids l)) \<subseteq> set (pl_photo_ids l)" by (rule set_take_subset)
  ultimately show ?thesis
    using assms Some
    by (cases i) (auto simp: photos_remove_after_def photos_ok_def Let_def opt_add_def hd_take dest: in_set_takeD)
qed

lemma photos_ok_replace:
  assumes "photos_ok l" and "new \<noteq> 0" and "new \<notin> insert (pl_back l) (set (pl_photo_ids l))"
  shows "photos_ok (fst (photos_replace old new l))"
proof (cases "position_of old (pl_photo_ids l)")
  case None
  then show ?thesis using assms by (auto simp: photos_replace_def photos_ok_def Let_def)
next
  case (Some i)
  let ?ids = "pl_photo_ids l"
  have i: "i < length ?ids" using Some by (simp add: position_of_def Let_def split: if_splits)
  have old: "?ids ! i = old"
    using Some nth_length_takeWhile [of "\<lambda>x. x \<noteq> old" ?ids] by (auto simp: position_of_def Let_def split: if_splits)
  have dist: "distinct ?ids" using assms(1) by (simp add: photos_ok_def)
  have set: "set (?ids[i := new]) = insert new (set ?ids - {old})"
    using i old dist by (metis set_update_distinct)
  have hd: "hd (?ids[i := new]) = (if i = 0 then new else hd ?ids)" using i by (cases ?ids; cases i) auto
  have hd0: "hd ?ids = ?ids ! 0" using i by (cases ?ids) auto
  have "distinct (?ids[i := new])" using dist assms(3) by (intro distinct_list_update) auto
  moreover have "pl_back l = old \<Longrightarrow> i = 0"
    using assms(1) i old hd0 nth_mem [OF i] nth_eq_iff_index_eq [OF dist i, of 0] order_le_less_trans [OF le0 i]
    by (auto simp: photos_ok_def)
  moreover have "pl_back l \<in> set ?ids \<Longrightarrow> pl_back l \<noteq> old \<Longrightarrow> i \<noteq> 0"
    using assms(1) old hd0 by (cases "i = 0") (auto simp: photos_ok_def)
  ultimately show ?thesis
    using assms Some set hd by (auto simp: photos_replace_def photos_ok_def Let_def)
qed

section \<open>Properties\<close>

text \<open>Every call on the profile photos keeps every user's list in order: no photo twice, the back
  photo at the front when held, and a known total that is never below what is held.\<close>

theorem user_photos_invariant:
  assumes "\<forall>u l. m u = Some l \<longrightarrow> photos_ok l" and "photos_op_ok op m"
    and "fst (user_photos_apply op m) u = Some l"
  shows "photos_ok l"
proof -
  have enf: "photos_ok (photos_enforce v m)" for v
    using assms(1) photos_ok_new by (simp add: photos_enforce_def split: option.split)
  show ?thesis
    using assms enf
    by (cases op) (auto simp: case_prod_beta Let_def split: option.splits if_splits
        intro!: photos_ok_set_back photos_ok_add_new photos_ok_add_slice photos_ok_replace
          photos_ok_remove_one(1) photos_ok_remove_after)
qed

lemma user_photos_invariant_witness:
  "\<exists>l. fst (user_photos_apply (AddPhotos 1 [4, 5] 2) Map.empty) 1 = Some l \<and> photos_ok l"
proof -
  have op: "photos_op_ok (AddPhotos 1 [4, 5] 2) Map.empty"
    by (simp add: photos_enforce_def photos_list_new_def)
  obtain l where l: "fst (user_photos_apply (AddPhotos 1 [4, 5] 2) Map.empty) 1 = Some l"
    by (auto simp: case_prod_beta)
  then show ?thesis using user_photos_invariant [OF _ op l] by simp
qed

text \<open>What a profile-photo viewer shows adds up: after any update that brings photos and a total,
  the total is the photos skipped before, shown and skipped after, also after the slice is cut to the
  viewer's limits.\<close>

lemma photos_builder_adds_up:
  assumes "ids \<noteq> []" and "cnt = Some n \<or> (cnt = None \<and> pb_full_count b = Some n)"
    and "0 \<le> pb_limit_before b" and "0 \<le> pb_limit_after b"
    and "photos_builder_merge_slice_data cnt ids after b = (b', q)"
  shows "\<exists>x. pb_full_count b' = Some n \<and> pb_skipped_before b' = Some x
    \<and> n = x + int (length (pb_ids b')) + pb_skipped_after b'"
proof -
  define c where "c = photos_builder_merge cnt ids after b"
  have c: "pb_full_count c = Some n" "pb_ids c = ids" "pb_skipped_after c = after"
    "pb_skipped_before c = Some (n - after - int (length ids))"
    "pb_limit_before c = pb_limit_before b" "pb_limit_after c = pb_limit_after b"
    using assms(1,2) by (auto simp: c_def photos_builder_merge_def Let_def split: option.split)
  define p where "p = (case position_of (pk_photo (pb_key c)) ids of Some i \<Rightarrow> int i | None \<Rightarrow> int (length ids))"
  have p: "0 \<le> p" "p \<le> int (length ids)"
    by (auto simp: p_def position_of_def Let_def split: option.split if_splits)
  define rb where "rb = p - pb_limit_before c"
  define re where "re = int (length ids) - p - pb_limit_after c - 1"
  define c1 where "c1 = (if re > 0 then c\<lparr> pb_ids := take (length ids - nat re) ids,
      pb_skipped_after := pb_skipped_after c + re \<rparr> else c)"
  have c1: "pb_full_count c1 = Some n" "pb_skipped_before c1 = Some (n - after - int (length ids))"
    "int (length (pb_ids c1)) = int (length ids) - max re 0" "pb_skipped_after c1 = after + max re 0"
    using c p assms(4) by (auto simp: c1_def re_def of_nat_diff)
  have rb: "rb \<le> int (length (pb_ids c1))"
    unfolding c1(3) using p assms(3,4) c(5,6) by (simp add: rb_def re_def)
  have "fst (photos_builder_slice_to_limits c) = (if rb > 0
      then c1\<lparr> pb_ids := drop (nat rb) (pb_ids c1), pb_skipped_before := opt_add rb (pb_skipped_before c1) \<rparr> else c1)"
    unfolding photos_builder_slice_to_limits_def Let_def c(2) p_def [symmetric] rb_def [symmetric]
      re_def [symmetric] c1_def [symmetric] by simp
  moreover have "fst (photos_builder_slice_to_limits c) = b'"
    using assms(5) by (simp add: photos_builder_merge_slice_data_def c_def)
  ultimately show ?thesis
    using c1 rb by (cases "rb > 0") (simp_all add: of_nat_diff)
qed

lemma photos_builder_adds_up_witness:
  "\<exists>b' q x. photos_builder_merge_slice_data (Some 9) [4, 5, 6, 7] 2
      (photos_builder_new \<lparr> pk_user = 1, pk_photo = 5, pk_back = False \<rparr> 0 1) = (b', q)
    \<and> pb_skipped_before b' = Some x \<and> 9 = x + int (length (pb_ids b')) + pb_skipped_after b'"
proof -
  let ?b = "photos_builder_new \<lparr> pk_user = 1, pk_photo = 5, pk_back = False \<rparr> 0 1"
  obtain b' q where r: "photos_builder_merge_slice_data (Some 9) [4, 5, 6, 7] 2 ?b = (b', q)" by fastforce
  then show ?thesis
    using photos_builder_adds_up [OF _ _ _ _ r, of 9] by (auto simp: photos_builder_new_def)
qed

end
