(* ===== verification/Pts_Waiter.thy ===== *)
theory Pts_Waiter
  imports Prelude
begin

text \<open>
  \<open>PtsWaiter\<close> (\<open>data/data_pts_waiter.h\<close>, \<open>data/data_pts_waiter.cpp\<close>): the part of the update
  machinery that decides whether an update with a point in time \<open>pts\<close> and a step \<open>count\<close> can be
  applied now, must wait for a gap before it to be filled, or is a repeat.  The calls to the owner
  (start the wait timer, apply an update or a container of updates) are the events an operation
  returns in their order; what the owner does inside those calls is not modelled.  \<open>int32\<close> values
  are integers; the key of the skipped queue is the 64-bit word of the source.
\<close>

datatype pts_skipped_queue = SkippedUpdate | SkippedUpdates

datatype ('c, 'u, 'us) pts_event =
    StartTimer 'c int
  | ApplyUpdate "'u option"
  | ApplyUpdates "'us option"

text \<open>The queue is ordered by its keys; the two value maps are looked up by key, where a missing value
  is the default one (\<open>None\<close>).\<close>

record ('u, 'us) pts_waiter =
  pw_queue :: "(64 word \<times> pts_skipped_queue) list"
  pw_update_queue :: "64 word \<Rightarrow> 'u option"
  pw_updates_queue :: "64 word \<Rightarrow> 'us option"
  pw_good :: int
  pw_last :: int
  pw_count :: int
  pw_apply_level :: int
  pw_requesting :: bool
  pw_waiting_skipped :: bool
  pw_waiting_short_poll :: bool
  pw_skipped_key :: "32 word"

definition pts_waiter_new :: "('u, 'us) pts_waiter" where
  "pts_waiter_new = \<lparr> pw_queue = [], pw_update_queue = Map.empty, pw_updates_queue = Map.empty,
     pw_good = 0, pw_last = 0, pw_count = 0, pw_apply_level = 0, pw_requesting = False,
     pw_waiting_skipped = False, pw_waiting_short_poll = False, pw_skipped_key = 0 \<rparr>"

definition wait_for_skipped_timeout :: int where
  "wait_for_skipped_timeout = 1000"

section \<open>The operations\<close>

definition pts_clear_skipped :: "('u, 'us) pts_waiter \<Rightarrow> ('u, 'us) pts_waiter" where
  "pts_clear_skipped w =
     w\<lparr> pw_queue := [], pw_update_queue := Map.empty, pw_updates_queue := Map.empty, pw_apply_level := 0 \<rparr>"

definition pts_init :: "int \<Rightarrow> ('u, 'us) pts_waiter \<Rightarrow> ('u, 'us) pts_waiter" where
  "pts_init pts w = pts_clear_skipped (w\<lparr> pw_good := pts, pw_last := pts, pw_count := pts \<rparr>)"

definition pts_inited :: "('u, 'us) pts_waiter \<Rightarrow> bool" where
  "pts_inited w \<longleftrightarrow> pw_good w > 0"

definition pts_set_requesting :: "bool \<Rightarrow> ('u, 'us) pts_waiter \<Rightarrow> ('u, 'us) pts_waiter" where
  "pts_set_requesting r w =
     (if r then pts_clear_skipped (w\<lparr> pw_requesting := True \<rparr>) else w\<lparr> pw_requesting := False \<rparr>)"

definition pts_check_for_waiting :: "'c \<Rightarrow> ('u, 'us) pts_waiter \<Rightarrow> ('c, 'u, 'us) pts_event list" where
  "pts_check_for_waiting ch w =
     (if \<not> pw_waiting_skipped w \<and> \<not> pw_waiting_short_poll w then [StartTimer ch (- 1)] else [])"

definition pts_set_waiting_skipped ::
  "'c \<Rightarrow> int \<Rightarrow> ('u, 'us) pts_waiter \<Rightarrow> ('u, 'us) pts_waiter \<times> ('c, 'u, 'us) pts_event list" where
  "pts_set_waiting_skipped ch ms w =
     (if ms \<ge> 0 then (w\<lparr> pw_waiting_skipped := True \<rparr>, [StartTimer ch ms])
      else (let w' = w\<lparr> pw_waiting_skipped := False \<rparr> in (w', pts_check_for_waiting ch w')))"

definition pts_set_waiting_short_poll ::
  "'c \<Rightarrow> int \<Rightarrow> ('u, 'us) pts_waiter \<Rightarrow> ('u, 'us) pts_waiter \<times> ('c, 'u, 'us) pts_event list" where
  "pts_set_waiting_short_poll ch ms w =
     (if ms \<ge> 0 then (w\<lparr> pw_waiting_short_poll := True \<rparr>, [StartTimer ch ms])
      else (let w' = w\<lparr> pw_waiting_short_poll := False \<rparr> in (w', pts_check_for_waiting ch w')))"

text \<open>\<open>ptsKey\<close>: the key orders by \<open>pts\<close> and then by arrival; an existing key is kept.\<close>

definition pts_key_value :: "int \<Rightarrow> 32 word \<Rightarrow> 64 word" where
  "pts_key_value pts n = Bit_Operations.or (push_bit 32 (ucast (word_of_int pts :: 32 word))) (ucast n)"

definition pts_key ::
  "pts_skipped_queue \<Rightarrow> int \<Rightarrow> ('u, 'us) pts_waiter \<Rightarrow> ('u, 'us) pts_waiter \<times> 64 word" where
  "pts_key q pts w =
     (let n = pw_skipped_key w + 1;
          k = pts_key_value pts n
      in (w\<lparr> pw_skipped_key := n, pw_queue := flat_emplace k q (pw_queue w) \<rparr>, k))"

definition map_emplace :: "'k \<Rightarrow> 'v \<Rightarrow> ('k \<Rightarrow> 'v option) \<Rightarrow> 'k \<Rightarrow> 'v option" where
  "map_emplace k v m = (if m k = None then m(k \<mapsto> v) else m)"

definition pts_skip_update :: "int \<Rightarrow> 'u \<Rightarrow> ('u, 'us) pts_waiter \<Rightarrow> ('u, 'us) pts_waiter" where
  "pts_skip_update pts u w =
     (let (w', k) = pts_key SkippedUpdate pts w in w'\<lparr> pw_update_queue := map_emplace k u (pw_update_queue w') \<rparr>)"

definition pts_skip_updates :: "int \<Rightarrow> 'us \<Rightarrow> ('u, 'us) pts_waiter \<Rightarrow> ('u, 'us) pts_waiter" where
  "pts_skip_updates pts us w =
     (let (w', k) = pts_key SkippedUpdates pts w in w'\<lparr> pw_updates_queue := map_emplace k us (pw_updates_queue w') \<rparr>)"

definition pts_queue_events :: "('u, 'us) pts_waiter \<Rightarrow> ('c, 'u, 'us) pts_event list" where
  "pts_queue_events w =
     map (\<lambda>(k, q). case q of
            SkippedUpdate \<Rightarrow> ApplyUpdate (pw_update_queue w k)
          | SkippedUpdates \<Rightarrow> ApplyUpdates (pw_updates_queue w k)) (pw_queue w)"

definition pts_apply_skipped ::
  "'c \<Rightarrow> ('u, 'us) pts_waiter \<Rightarrow> ('u, 'us) pts_waiter \<times> ('c, 'u, 'us) pts_event list" where
  "pts_apply_skipped ch w =
     (if \<not> pw_waiting_skipped w then (w, [])
      else (let (w1, es) = pts_set_waiting_skipped ch (- 1) w
            in if pw_queue w1 = [] then (w1, es)
               else (pts_clear_skipped w1, es @ pts_queue_events w1)))"

definition pts_check ::
  "'c \<Rightarrow> int \<Rightarrow> int \<Rightarrow> ('u, 'us) pts_waiter \<Rightarrow> bool \<times> ('u, 'us) pts_waiter \<times> ('c, 'u, 'us) pts_event list" where
  "pts_check ch pts cnt w =
     (if \<not> pts_inited w then (True, pts_init pts w, [])
      else
        (let w1 = w\<lparr> pw_last := max (pw_last w) pts, pw_count := pw_count w + cnt \<rparr>
         in if pw_last w1 = pw_count w1 then (True, w1\<lparr> pw_good := pw_last w1 \<rparr>, [])
            else (let (w2, es) = pts_set_waiting_skipped ch
                    (if pw_last w1 < pw_count w1 then 1 else wait_for_skipped_timeout) w1
                  in (cnt = 0, w2, es))))"

text \<open>\<open>updated\<close> in its three forms; what is put aside is the update, the container or nothing.\<close>

datatype ('u, 'us) pts_payload = PtsUpdate 'u | PtsUpdates 'us | PtsNothing

fun pts_skip :: "int \<Rightarrow> ('u, 'us) pts_payload \<Rightarrow> ('u, 'us) pts_waiter \<Rightarrow> ('u, 'us) pts_waiter" where
  "pts_skip pts (PtsUpdate u) w = pts_skip_update pts u w"
| "pts_skip pts (PtsUpdates us) w = pts_skip_updates pts us w"
| "pts_skip pts PtsNothing w = w"

definition pts_updated ::
  "'c \<Rightarrow> int \<Rightarrow> int \<Rightarrow> ('u, 'us) pts_payload \<Rightarrow> ('u, 'us) pts_waiter
     \<Rightarrow> bool \<times> ('u, 'us) pts_waiter \<times> ('c, 'u, 'us) pts_event list" where
  "pts_updated ch pts cnt p w =
     (if pw_requesting w \<or> pw_apply_level w \<noteq> 0 then (True, w, [])
      else if pts \<le> pw_good w \<and> cnt > 0 then (False, w, [])
      else (let (ok, w1, es) = pts_check ch pts cnt w
            in if ok then (True, w1, es) else (False, pts_skip pts p w1, es)))"

fun pts_apply_now :: "('u, 'us) pts_payload \<Rightarrow> ('c, 'u, 'us) pts_event list" where
  "pts_apply_now (PtsUpdate u) = [ApplyUpdate (Some u)]"
| "pts_apply_now (PtsUpdates us) = [ApplyUpdates (Some us)]"
| "pts_apply_now PtsNothing = []"

definition pts_update_and_apply ::
  "'c \<Rightarrow> int \<Rightarrow> int \<Rightarrow> ('u, 'us) pts_payload \<Rightarrow> ('u, 'us) pts_waiter
     \<Rightarrow> bool \<times> ('u, 'us) pts_waiter \<times> ('c, 'u, 'us) pts_event list" where
  "pts_update_and_apply ch pts cnt p w =
     (let (ok, w1, es) = pts_updated ch pts cnt p w
      in if \<not> ok then (False, w1, es)
         else if p = PtsNothing then
           (let (w2, es2) = pts_apply_skipped ch w1 in (True, w2, es @ es2))
         else if \<not> pw_waiting_skipped w1 \<or> pw_queue w1 = [] then (True, w1, es @ pts_apply_now p)
         else (let (w2, es2) = pts_apply_skipped ch (pts_skip pts p w1) in (True, w2, es @ es2)))"

section \<open>The keys of the queue\<close>

lemma unat_less_exp: "unat (n :: 32 word) < 4294967296"
  using unsigned_less [of n] by simp

lemma unat_pts_key_value:
  assumes "0 \<le> pts" and "pts < 2 ^ 32"
  shows "unat (pts_key_value pts n) = nat pts * 2 ^ 32 + unat n"
proof -
  let ?w = "word_of_int pts :: 32 word"
  let ?a = "push_bit 32 (ucast ?w) :: 64 word" and ?b = "ucast n :: 64 word"
  have "Bit_Operations.and ?a ?b = 0"
    by (rule bit_eqI) (auto simp: bit_simps dest: bit_imp_le_length)
  then have sum: "Bit_Operations.or ?a ?b = ?a + ?b" by (simp add: disjunctive_add_eq_or)
  have b: "unat ?b = unat n"
    using unat_less_exp [of n] by (simp add: unsigned_ucast_eq take_bit_nat_eq_self)
  have w: "unat ?w = nat pts"
    using assms by (simp add: unat_eq_nat_uint uint_word_of_int_eq take_bit_int_eq_self)
  then have "unat (ucast ?w :: 64 word) = nat pts"
    using assms by (simp add: unsigned_ucast_eq take_bit_nat_eq_self nat_less_iff)
  moreover have le: "nat pts \<le> 4294967295" using assms by simp
  ultimately have a: "unat ?a = nat pts * 2 ^ 32"
    by (simp add: push_bit_eq_mult unat_word_ariths)
  have "unat ?a + unat ?b < 2 ^ 64"
    using le unat_less_exp [of n] unfolding a b by simp
  then show ?thesis
    unfolding pts_key_value_def sum using a b by (simp add: unat_word_ariths)
qed

lemma pts_key_value_less:
  assumes "0 \<le> p" and "p < q" and "q < 2 ^ 32"
  shows "pts_key_value p m < pts_key_value q n"
proof -
  have "nat p + 1 \<le> nat q" using assms by simp
  then have "(nat p + 1) * 2 ^ 32 \<le> nat q * 2 ^ 32" by (rule mult_le_mono1)
  then have "nat p * 2 ^ 32 + unat m < nat q * 2 ^ 32 + unat n" using unat_less_exp [of m] by simp
  then show ?thesis
    using assms by (simp add: word_less_nat_alt unat_pts_key_value)
qed

section \<open>Chains of updates arriving in any order\<close>

text \<open>An update is its \<open>pts\<close>, its step and its content; in a chain each starts where the one before
  it ends.\<close>

type_synonym 'u pts_update = "int \<times> int \<times> 'u"

abbreviation up_pts :: "'u pts_update \<Rightarrow> int" where "up_pts x \<equiv> fst x"
abbreviation up_step :: "'u pts_update \<Rightarrow> int" where "up_step x \<equiv> fst (snd x)"
abbreviation up_data :: "'u pts_update \<Rightarrow> 'u" where "up_data x \<equiv> snd (snd x)"

fun pts_chain :: "int \<Rightarrow> 'u pts_update list \<Rightarrow> bool" where
  "pts_chain p [] \<longleftrightarrow> True"
| "pts_chain p (x # xs) \<longleftrightarrow> up_step x > 0 \<and> up_pts x = p + up_step x \<and> up_pts x < 2 ^ 31 \<and> pts_chain (up_pts x) xs"

definition pts_end :: "int \<Rightarrow> 'u pts_update list \<Rightarrow> int" where
  "pts_end p xs = (if xs = [] then p else up_pts (last xs))"

text \<open>The highest point and the point the steps add up to, for the updates seen so far.\<close>

definition seen_last :: "int \<Rightarrow> 'u pts_update set \<Rightarrow> int" where
  "seen_last p S = Max (insert p (up_pts ` S))"

definition seen_count :: "int \<Rightarrow> 'u pts_update set \<Rightarrow> int" where
  "seen_count p S = p + sum up_step S"

lemma pts_chain_above: "pts_chain p xs \<Longrightarrow> x \<in> set xs \<Longrightarrow> p < up_pts x \<and> up_pts x < 2 ^ 31"
  by (induction xs arbitrary: p) (fastforce)+

lemma pts_chain_sorted: "pts_chain p xs \<Longrightarrow> sorted_wrt (\<lambda>a b. up_pts a < up_pts b) xs"
proof (induction xs arbitrary: p)
  case (Cons x xs)
  then show ?case using pts_chain_above [of "up_pts x" xs] by auto
qed simp

lemma pts_chain_append: "pts_chain p (xs @ ys) \<longleftrightarrow> pts_chain p xs \<and> pts_chain (pts_end p xs) ys"
  by (induction xs arbitrary: p) (auto simp: pts_end_def)

lemma sorted_pts_distinct: "sorted_wrt (\<lambda>a b. up_pts a < up_pts b) xs \<Longrightarrow> distinct xs"
  by (induction xs) auto

lemma seen_last_insert:
  assumes "finite S"
  shows "seen_last p (insert x S) = max (seen_last p S) (up_pts x)"
  using assms unfolding seen_last_def by (simp add: insert_commute [of p] max.commute)

lemma seen_last_ge: "finite S \<Longrightarrow> p \<le> seen_last p S"
  by (simp add: seen_last_def)

lemma seen_last_shift:
  assumes "finite S" and "p < q" and "\<And>y. y \<in> S \<Longrightarrow> q < up_pts y" and "S \<noteq> {}"
  shows "seen_last p S = seen_last q S"
proof -
  obtain y where y: "y \<in> S" using assms(4) by blast
  have ge: "q < Max (up_pts ` S)" using assms(1,3) y by (meson Max_ge finite_imageI image_eqI less_le_trans)
  then show ?thesis using assms(1,2,4) unfolding seen_last_def by (simp add: max_def)
qed

lemma seen_count_le_last:
  assumes "pts_chain p xs" and "S \<subseteq> set xs"
  shows "seen_count p S \<le> seen_last p S"
  using assms
proof (induction xs arbitrary: p S)
  case Nil
  then show ?case by (simp add: seen_count_def seen_last_def)
next
  case (Cons x xs)
  have fin: "finite S" using Cons.prems(2) finite_subset by blast
  have chain: "pts_chain (up_pts x) xs" and x: "up_step x > 0" "up_pts x = p + up_step x"
    using Cons.prems(1) unfolding pts_chain.simps by blast+
  let ?S = "S - {x}"
  have sub: "?S \<subseteq> set xs" using Cons.prems(2) by auto
  have above: "\<And>y. y \<in> ?S \<Longrightarrow> up_pts x < up_pts y" using pts_chain_above [OF chain] sub by blast
  note IH = Cons.IH [OF chain sub]
  show ?case
  proof (cases "x \<in> S")
    case True
    then have S: "S = insert x ?S" by blast
    have "seen_count p S = seen_count (up_pts x) ?S"
      using x sum.remove [OF fin True, of up_step] by (simp add: seen_count_def)
    moreover have "seen_last (up_pts x) ?S = seen_last p S"
    proof (cases "?S = {}")
      case True
      then have "S = {x}" using \<open>x \<in> S\<close> by blast
      then show ?thesis using x by (simp add: seen_last_def)
    next
      case False
      have "seen_last p S = max (seen_last p ?S) (up_pts x)"
        using fin by (subst S) (rule seen_last_insert, simp)
      also have "seen_last p ?S = seen_last (up_pts x) ?S"
        using fin x above False by (intro seen_last_shift) simp_all
      finally show ?thesis using seen_last_ge [of ?S "up_pts x"] fin by (simp add: max_def)
    qed
    ultimately show ?thesis using IH by simp
  next
    case False
    then have S: "?S = S" by blast
    show ?thesis
    proof (cases "S = {}")
      case True
      then show ?thesis by (simp add: seen_count_def seen_last_def)
    next
      case ne: False
      have "seen_last p S = seen_last (up_pts x) S"
        using fin x above S ne by (intro seen_last_shift) auto
      then show ?thesis using IH x unfolding S by (simp add: seen_count_def)
    qed
  qed
qed

text \<open>The two points agree exactly when what was seen is a beginning of the chain.\<close>

lemma seen_complete:
  assumes "pts_chain p xs" and "S \<subseteq> set xs"
  shows "seen_last p S = seen_count p S \<longleftrightarrow> S = set (take (card S) xs)"
  using assms
proof (induction xs arbitrary: p S)
  case Nil
  then show ?case by (simp add: seen_count_def seen_last_def)
next
  case (Cons x xs)
  have fin: "finite S" using Cons.prems(2) finite_subset by blast
  have chain: "pts_chain (up_pts x) xs" and x: "up_step x > 0" "up_pts x = p + up_step x"
    using Cons.prems(1) unfolding pts_chain.simps by blast+
  let ?S = "S - {x}"
  have sub: "?S \<subseteq> set xs" using Cons.prems(2) by auto
  have above: "\<And>y. y \<in> ?S \<Longrightarrow> up_pts x < up_pts y" using pts_chain_above [OF chain] sub by blast
  have notin: "x \<notin> set xs" using pts_chain_above [OF chain, of x] by auto
  show ?case
  proof (cases "x \<in> S")
    case True
    then have S: "S = insert x ?S" by blast
    have c: "seen_count p S = seen_count (up_pts x) ?S"
      using x sum.remove [OF fin True, of up_step] by (simp add: seen_count_def)
    have l: "seen_last p S = seen_last (up_pts x) ?S"
    proof (cases "?S = {}")
      case True
      then have "S = {x}" using \<open>x \<in> S\<close> by blast
      then show ?thesis using x by (simp add: seen_last_def)
    next
      case False
      have "seen_last p S = max (seen_last p ?S) (up_pts x)"
        using fin by (subst S) (rule seen_last_insert, simp)
      also have "seen_last p ?S = seen_last (up_pts x) ?S"
        using fin x above False by (intro seen_last_shift) simp_all
      finally show ?thesis using seen_last_ge [of ?S "up_pts x"] fin by (simp add: max_def)
    qed
    have card: "card S = Suc (card ?S)" by (rule card_Suc_Diff1 [OF fin True, symmetric])
    have "S = set (take (card S) (x # xs)) \<longleftrightarrow> ?S = set (take (card ?S) xs)"
    proof -
      have eq: "S = insert x B \<longleftrightarrow> S - {x} = B" if "x \<notin> B" for B using that True by blast
      have "x \<notin> set (take (card ?S) xs)" using notin by (auto dest: in_set_takeD)
      note eq [OF this]
      moreover have "set (take (card S) (x # xs)) = insert x (set (take (card ?S) xs))" unfolding card by simp
      ultimately show ?thesis by (simp only:)
    qed
    then show ?thesis using Cons.IH [OF chain sub] c l by simp
  next
    case False
    then have S: "?S = S" by blast
    show ?thesis
    proof (cases "S = {}")
      case True
      then show ?thesis by (simp add: seen_count_def seen_last_def)
    next
      case ne: False
      have "seen_last p S = seen_last (up_pts x) S"
        using fin x above S ne by (intro seen_last_shift) auto
      moreover have "seen_count (up_pts x) S \<le> seen_last (up_pts x) S"
        using seen_count_le_last [OF chain sub] S by simp
      ultimately have "seen_last p S \<noteq> seen_count p S" using x by (simp add: seen_count_def)
      moreover have "x \<in> set (take (card S) (x # xs))" using ne fin by (cases "card S") auto
      ultimately show ?thesis using False by blast
    qed
  qed
qed

text \<open>Putting an update aside keeps the queue in the order of the chain.\<close>

abbreviation chain_key :: "(int \<Rightarrow> 32 word) \<Rightarrow> 'u pts_update \<Rightarrow> 64 word" where
  "chain_key n x \<equiv> pts_key_value (up_pts x) (n (up_pts x))"

definition chain_queue ::
  "(int \<Rightarrow> 32 word) \<Rightarrow> 'u pts_update set \<Rightarrow> 'u pts_update list \<Rightarrow> (64 word \<times> pts_skipped_queue) list" where
  "chain_queue n S xs = map (\<lambda>y. (chain_key n y, SkippedUpdate)) (filter (\<lambda>y. y \<in> S) xs)"

lemma chain_key_less:
  "0 \<le> up_pts x \<Longrightarrow> up_pts x < up_pts y \<Longrightarrow> up_pts y < 2 ^ 32 \<Longrightarrow> chain_key n x < chain_key n y"
  by (rule pts_key_value_less)

lemma flat_emplace_chain:
  assumes "sorted_wrt (\<lambda>a b. up_pts a < up_pts b) xs" and "\<And>y. y \<in> set xs \<Longrightarrow> 0 \<le> up_pts y \<and> up_pts y < 2 ^ 32"
    and "x \<in> set xs" and "x \<notin> S"
  shows "flat_emplace (chain_key n x) SkippedUpdate (chain_queue n S xs) = chain_queue n (insert x S) xs"
  using assms
proof (induction xs)
  case Nil
  then show ?case by simp
next
  case (Cons y ys)
  show ?case
  proof (cases "x = y")
    case True
    then have "x \<notin> set ys" using Cons.prems(1) by auto
    then have rest: "chain_queue n (insert x S) ys = chain_queue n S ys"
      unfolding chain_queue_def by (metis (mono_tags, lifting) filter_cong insert_iff)
    have first: "chain_key n x < fst e" if e: "e \<in> set (chain_queue n S ys)" for e
    proof -
      obtain z where z: "z \<in> set ys" "e = (chain_key n z, SkippedUpdate)"
        using e by (auto simp: chain_queue_def)
      have "chain_key n y < chain_key n z"
        using Cons.prems(1) z(1) Cons.prems(2) [of y] Cons.prems(2) [of z] by (intro chain_key_less) simp_all
      then show ?thesis using z(2) True by simp
    qed
    have "flat_emplace (chain_key n x) SkippedUpdate (chain_queue n S ys)
        = (chain_key n x, SkippedUpdate) # chain_queue n S ys"
    proof (cases "chain_queue n S ys")
      case (Cons e es)
      then have "chain_key n x < fst e" using first by simp
      then show ?thesis unfolding Cons by (cases e) simp
    qed simp
    then show ?thesis using True Cons.prems(4) rest by (simp add: chain_queue_def)
  next
    case False
    then have x: "x \<in> set ys" using Cons.prems(3) by simp
    then have less: "chain_key n y < chain_key n x"
      using Cons.prems(1) Cons.prems(2) [of x] Cons.prems(2) [of y] by (intro chain_key_less) simp_all
    have "flat_emplace (chain_key n x) SkippedUpdate (chain_queue n S ys) = chain_queue n (insert x S) ys"
      using Cons.prems x by (intro Cons.IH) auto
    then show ?thesis using less False by (auto simp: chain_queue_def)
  qed
qed

section \<open>Runs\<close>

fun pts_run ::
  "'c \<Rightarrow> 'u pts_update list \<Rightarrow> ('u, 'us) pts_waiter \<Rightarrow> ('u, 'us) pts_waiter \<times> ('c, 'u, 'us) pts_event list" where
  "pts_run ch [] w = (w, [])"
| "pts_run ch (x # xs) w =
     (let (ok, w1, es) = pts_update_and_apply ch (up_pts x) (up_step x) (PtsUpdate (up_data x)) w;
          (w2, es2) = pts_run ch xs w1
      in (w2, es @ es2))"

fun pts_applied :: "('c, 'u, 'us) pts_event list \<Rightarrow> 'u option list" where
  "pts_applied [] = []"
| "pts_applied (ApplyUpdate u # es) = u # pts_applied es"
| "pts_applied (_ # es) = pts_applied es"

lemma pts_applied_append [simp]: "pts_applied (es @ es') = pts_applied es @ pts_applied es'"
  by (induction es rule: pts_applied.induct) auto

definition pts_synced :: "int \<Rightarrow> ('u, 'us) pts_waiter \<Rightarrow> bool" where
  "pts_synced p w \<longleftrightarrow> pw_good w = p \<and> pw_last w = p \<and> pw_count w = p \<and> pw_queue w = []
     \<and> pw_update_queue w = Map.empty \<and> pw_apply_level w = 0 \<and> \<not> pw_requesting w \<and> \<not> pw_waiting_skipped w"

text \<open>In the middle of a run: the updates in \<open>S\<close> were seen, the first \<open>j\<close> of the chain are applied,
  the others seen are queued in the order of the chain.\<close>

definition chain_queued ::
  "(int \<Rightarrow> 32 word) \<Rightarrow> 'u pts_update set \<Rightarrow> 'u pts_update list \<Rightarrow> ('u, 'us) pts_waiter \<Rightarrow> bool" where
  "chain_queued n S xs w \<longleftrightarrow> pw_queue w = chain_queue n S xs
     \<and> (\<forall>y \<in> S \<inter> set xs. pw_update_queue w (chain_key n y) = Some (up_data y))
     \<and> dom (pw_update_queue w) \<subseteq> chain_key n ` (S \<inter> set xs)"

definition pts_midway ::
  "int \<Rightarrow> 'u pts_update list \<Rightarrow> 'u pts_update set \<Rightarrow> nat \<Rightarrow> ('u, 'us) pts_waiter \<Rightarrow> bool" where
  "pts_midway p us S j w \<longleftrightarrow>
     pw_good w = pts_end p (take j us) \<and> pw_last w = seen_last p S \<and> pw_count w = seen_count p S
     \<and> j \<le> length us \<and> set (take j us) \<subseteq> S \<and> S \<subseteq> set us \<and> pw_apply_level w = 0 \<and> \<not> pw_requesting w
     \<and> (\<exists>n. chain_queued n S (drop j us) w)
     \<and> (pw_waiting_skipped w \<longleftrightarrow> S \<inter> set (drop j us) \<noteq> {})
     \<and> (pw_last w = pw_count w \<longrightarrow> set (take j us) = S)"

lemma chain_queue_events:
  assumes "pw_queue w = chain_queue n S xs" and "\<forall>y \<in> S \<inter> set xs. pw_update_queue w (chain_key n y) = Some (up_data y)"
  shows "pts_applied (pts_queue_events w) = map (\<lambda>y. Some (up_data y)) (filter (\<lambda>y. y \<in> S) xs)"
  using assms(2) unfolding pts_queue_events_def assms(1) chain_queue_def
  by (induction xs) auto

lemma chain_key_inj:
  assumes "0 \<le> up_pts x" "up_pts x < 2 ^ 32" "0 \<le> up_pts y" "up_pts y < 2 ^ 32" "up_pts x \<noteq> up_pts y"
  shows "pts_key_value (up_pts x) a \<noteq> pts_key_value (up_pts y) b"
proof (cases "up_pts x < up_pts y")
  case True
  then show ?thesis using assms pts_key_value_less [of "up_pts x" "up_pts y" a b] by auto
next
  case False
  then show ?thesis using assms pts_key_value_less [of "up_pts y" "up_pts x" b a] by auto
qed

lemma chain_queued_skip:
  assumes q: "chain_queued n S xs w" and srt: "sorted_wrt (\<lambda>a b. up_pts a < up_pts b) xs"
    and bounds: "\<And>y. y \<in> set xs \<Longrightarrow> 0 \<le> up_pts y \<and> up_pts y < 2 ^ 32" and x: "x \<in> set xs" "x \<notin> S"
  shows "\<exists>n'. chain_queued n' (insert x S) xs (pts_skip_update (up_pts x) (up_data x) w)"
proof -
  define n' where "n' = n(up_pts x := pw_skipped_key w + 1)"
  have other: "up_pts y \<noteq> up_pts x" if "y \<in> set xs" "y \<noteq> x" for y
    using srt that x(1) by (induction xs) auto
  have key: "chain_key n' y = chain_key n y" if "y \<in> set xs" "y \<in> S" for y
    using other [OF that(1)] that x(2) by (auto simp: n'_def)
  have "chain_queue n' S xs = chain_queue n S xs"
    unfolding chain_queue_def using key by auto
  then have queue: "flat_emplace (chain_key n' x) SkippedUpdate (pw_queue w) = chain_queue n' (insert x S) xs"
    using flat_emplace_chain [OF srt bounds x, of n'] q by (simp add: chain_queued_def)
  have free: "pw_update_queue w (chain_key n' x) = None"
  proof (rule ccontr)
    assume "pw_update_queue w (chain_key n' x) \<noteq> None"
    then obtain y where y: "y \<in> S" "y \<in> set xs" "chain_key n' x = chain_key n y"
      using q unfolding chain_queued_def by blast
    then have "up_pts y \<noteq> up_pts x" using other x(2) by metis
    then show False using chain_key_inj [of x y] bounds [OF x(1)] bounds [OF y(2)] y(3) by metis
  qed
  let ?w = "pts_skip_update (up_pts x) (up_data x) w"
  have w: "pw_queue ?w = chain_queue n' (insert x S) xs"
    "pw_update_queue ?w = (pw_update_queue w)(chain_key n' x \<mapsto> up_data x)"
    using queue free by (simp_all add: pts_skip_update_def pts_key_def Let_def map_emplace_def n'_def)
  have "pw_update_queue ?w (chain_key n' y) = Some (up_data y)" if "y \<in> insert x S" "y \<in> set xs" for y
  proof (cases "y = x")
    case False
    then have "y \<in> S" using that(1) by simp
    then have "pw_update_queue w (chain_key n' y) = Some (up_data y)"
      using q that(2) key unfolding chain_queued_def by simp
    then show ?thesis using free w(2) by (metis fun_upd_other option.distinct(1))
  qed (simp add: w(2))
  moreover have "dom (pw_update_queue ?w) \<subseteq> chain_key n' ` (insert x S \<inter> set xs)"
  proof
    fix k assume "k \<in> dom (pw_update_queue ?w)"
    then consider "k = chain_key n' x" | "k \<in> dom (pw_update_queue w)" by (auto simp: w(2) split: if_splits)
    then show "k \<in> chain_key n' ` (insert x S \<inter> set xs)"
    proof cases
      case 1
      then show ?thesis using x(1) by blast
    next
      case 2
      then obtain y where y: "y \<in> S" "y \<in> set xs" "k = chain_key n y"
        using q unfolding chain_queued_def by blast
      then have "k = chain_key n' y" using key by simp
      then show ?thesis using y(1,2) by (intro image_eqI [of _ _ y]) simp_all
    qed
  qed
  ultimately show ?thesis using w(1) unfolding chain_queued_def by blast
qed

lemma pts_skip_update_fields [simp]:
  "pw_good (pts_skip_update q u w) = pw_good w" "pw_last (pts_skip_update q u w) = pw_last w"
  "pw_count (pts_skip_update q u w) = pw_count w" "pw_apply_level (pts_skip_update q u w) = pw_apply_level w"
  "pw_requesting (pts_skip_update q u w) = pw_requesting w"
  "pw_waiting_skipped (pts_skip_update q u w) = pw_waiting_skipped w"
  by (simp_all add: pts_skip_update_def pts_key_def Let_def)

lemma chain_queued_cong:
  "pw_queue w' = pw_queue w \<Longrightarrow> pw_update_queue w' = pw_update_queue w \<Longrightarrow> chain_queued n S xs w' = chain_queued n S xs w"
  by (simp add: chain_queued_def)

lemma filter_seen_prefix:
  assumes "distinct us" and "j \<le> k" and "k \<le> length us"
  shows "filter (\<lambda>y. y \<in> set (take k us)) (drop j us) = drop j (take k us)"
proof -
  have split: "drop j us = drop j (take k us) @ drop k us"
    using assms(2,3) by (metis append_take_drop_id drop_append diff_is_0_eq drop_0 length_take min.absorb2)
  have disj: "set (take k us) \<inter> set (drop k us) = {}"
    using assms(1) by (metis append_take_drop_id distinct_append)
  have "filter (\<lambda>y. y \<in> set (take k us)) (drop j (take k us)) = drop j (take k us)"
    by (rule filter_True) (auto dest: in_set_dropD)
  moreover have "filter (\<lambda>y. y \<in> set (take k us)) (drop k us) = []"
    by (rule filter_False) (use disj in blast)
  ultimately show ?thesis by (simp only: split filter_append append_Nil2)
qed

lemma seen_last_prefix:
  assumes "pts_chain p us" and "k \<le> length us"
  shows "seen_last p (set (take k us)) = pts_end p (take k us)"
  using assms
proof (induction us arbitrary: p k)
  case Nil
  then show ?case by (simp add: seen_last_def pts_end_def)
next
  case (Cons x xs)
  show ?case
  proof (cases k)
    case 0
    then show ?thesis by (simp add: seen_last_def pts_end_def)
  next
    case (Suc i)
    have chain: "pts_chain (up_pts x) xs" "p < up_pts x" using Cons.prems(1) by auto
    have IH: "seen_last (up_pts x) (set (take i xs)) = pts_end (up_pts x) (take i xs)"
      using Cons.IH [OF chain(1)] Cons.prems(2) Suc by simp
    have "up_pts x \<le> seen_last (up_pts x) (set (take i xs))" by (rule seen_last_ge) simp
    moreover have "seen_last p (set (take k (x # xs))) = max p (seen_last (up_pts x) (set (take i xs)))"
      by (simp add: Suc seen_last_def)
    ultimately show ?thesis using IH chain(2) by (simp add: Suc pts_end_def max_def)
  qed
qed

lemma pts_end_ge: "pts_chain p us \<Longrightarrow> p \<le> pts_end p us"
  using pts_chain_above [of p us "last us"] by (auto simp: pts_end_def intro: less_imp_le)

lemma filter_eq_single: "x \<in> set xs \<Longrightarrow> distinct xs \<Longrightarrow> filter (\<lambda>y. y = x) xs = [x]"
  by (induction xs) (auto simp: filter_empty_conv)

lemma pts_midway_step:
  assumes chain: "pts_chain p us" and p: "p > 0" and mid: "pts_midway p us S j w"
    and x: "x \<in> set us" "x \<notin> S"
    and step: "pts_update_and_apply ch (up_pts x) (up_step x) (PtsUpdate (up_data x)) w = (ok, w', es)"
  shows "\<exists>k \<ge> j. pts_midway p us (insert x S) k w'
    \<and> pts_applied es = map (\<lambda>y. Some (up_data y)) (drop j (take k us))"
proof -
  let ?S = "insert x S"
  obtain n where m: "pw_good w = pts_end p (take j us)" "pw_last w = seen_last p S" "pw_count w = seen_count p S"
    "j \<le> length us" "set (take j us) \<subseteq> S" "S \<subseteq> set us" "pw_apply_level w = 0" "\<not> pw_requesting w"
    "chain_queued n S (drop j us) w" "pw_waiting_skipped w \<longleftrightarrow> S \<inter> set (drop j us) \<noteq> {}"
    using mid unfolding pts_midway_def by blast
  have fin: "finite S" using m(6) finite_subset by blast
  have srt: "sorted_wrt (\<lambda>a b. up_pts a < up_pts b) us" by (rule pts_chain_sorted [OF chain])
  have dist: "distinct us" by (rule sorted_pts_distinct [OF srt])
  have split: "us = take j us @ drop j us" by simp
  have chain_j: "pts_chain p (take j us)" "pts_chain (pts_end p (take j us)) (drop j us)"
    using chain split pts_chain_append by metis+
  have xj: "x \<in> set (drop j us)" 
  proof -
    have "x \<in> set (take j us) \<union> set (drop j us)" using x(1) by (metis append_take_drop_id set_append)
    then show ?thesis using m(5) x(2) by blast
  qed
  have bounds: "0 \<le> up_pts y \<and> up_pts y < 2 ^ 32" if "y \<in> set (drop j us)" for y
    using pts_chain_above [OF chain in_set_dropD [OF that]] p by simp
  have srt_j: "sorted_wrt (\<lambda>a b. up_pts a < up_pts b) (drop j us)" using srt by (rule sorted_wrt_drop)
  have new: "pw_good w < up_pts x" using pts_chain_above [OF chain_j(2) xj] m(1) by simp
  have inited: "pts_inited w" using pts_end_ge [OF chain_j(1)] p m(1) by (simp add: pts_inited_def)
  have pos: "up_step x > 0" using chain x(1) by (induction us arbitrary: p) auto
  define w1 where "w1 = w\<lparr> pw_last := max (pw_last w) (up_pts x), pw_count := pw_count w + up_step x \<rparr>"
  have w1: "pw_last w1 = seen_last p ?S" "pw_count w1 = seen_count p ?S"
    using fin x(2) by (simp_all add: w1_def m(2,3) seen_last_insert seen_count_def)
  have sub: "?S \<subseteq> set us" using m(6) x(1) by blast
  have upd: "pts_updated ch (up_pts x) (up_step x) (PtsUpdate (up_data x)) w =
      (let (ok, v, e) = pts_check ch (up_pts x) (up_step x) w
       in if ok then (True, v, e) else (False, pts_skip_update (up_pts x) (up_data x) v, e))"
    using m(7,8) new pos by (simp add: pts_updated_def Let_def split: prod.split)
  show ?thesis
  proof (cases "pw_last w1 = pw_count w1")
    case False
    define w2 where "w2 = w1\<lparr> pw_waiting_skipped := True \<rparr>"
    have "\<exists>ms. pts_check ch (up_pts x) (up_step x) w = (False, w2, [StartTimer ch ms])"
      using inited False pos unfolding pts_check_def Let_def w1_def [symmetric] w2_def
      by (cases "pw_last w1 < pw_count w1") (simp_all add: pts_set_waiting_skipped_def wait_for_skipped_timeout_def)
    then obtain ms where "pts_check ch (up_pts x) (up_step x) w = (False, w2, [StartTimer ch ms])" by blast
    then have res: "w' = pts_skip_update (up_pts x) (up_data x) w2" "es = [StartTimer ch ms]"
      using step upd by (auto simp: pts_update_and_apply_def)
    have "chain_queued n S (drop j us) w2"
      using m(9) chain_queued_cong [of w2 w] by (simp add: w2_def w1_def)
    then obtain n' where "chain_queued n' ?S (drop j us) w'"
      using chain_queued_skip [OF _ srt_j bounds xj x(2)] res(1) by blast
    then have "pts_midway p us ?S j w'"
      unfolding pts_midway_def using m w1 sub xj res(1) False by (auto simp: w2_def w1_def)
    then show ?thesis using res(2) by (intro exI [of _ j]) simp
  next
    case True
    define k where "k = card ?S"
    have Sk: "?S = set (take k us)" using seen_complete [OF chain sub] True w1 by (simp add: k_def)
    have kle: "k \<le> length us" using card_mono [OF _ sub] distinct_card [OF dist] by (simp add: k_def)
    have jk: "j \<le> k"
    proof -
      have "card (set (take j us)) = j" using dist m(4) distinct_card [of "take j us"] by simp
      moreover have "card (set (take j us)) \<le> card ?S" using m(5) fin by (intro card_mono) auto
      ultimately show ?thesis by (simp add: k_def)
    qed
    have disj: "?S \<inter> set (drop k us) = {}"
      unfolding Sk using dist by (metis append_take_drop_id distinct_append)
    define w2 where "w2 = w1\<lparr> pw_good := pw_last w1 \<rparr>"
    have chk: "pts_check ch (up_pts x) (up_step x) w = (True, w2, [])"
      using inited True by (simp add: pts_check_def w1_def [symmetric] w2_def Let_def)
    have good: "pw_last w1 = pts_end p (take k us)"
      using seen_last_prefix [OF chain kle] w1(1) Sk by simp
    have applied_filter: "filter (\<lambda>y. y \<in> ?S) (drop j us) = drop j (take k us)"
      unfolding Sk by (rule filter_seen_prefix [OF dist jk kle])
    show ?thesis
    proof (cases "S \<inter> set (drop j us) = {}")
      case none: True
      have queue: "pw_queue w = []"
        using m(9) none by (auto simp: chain_queued_def chain_queue_def filter_empty_conv)
      have empty: "dom (pw_update_queue w) = {}" using m(9) none by (simp add: chain_queued_def)
      have res: "w' = w2" "es = [ApplyUpdate (Some (up_data x))]"
        using step upd chk queue by (auto simp: pts_update_and_apply_def w2_def w1_def)
      have "filter (\<lambda>y. y \<in> ?S) (drop j us) = filter (\<lambda>y. y = x) (drop j us)"
        using none by (intro filter_cong) auto
      also have "\<dots> = [x]"
        by (rule filter_eq_single [OF xj distinct_drop [OF dist]])
      finally have one: "drop j (take k us) = [x]" using applied_filter by simp
      have "pts_midway p us ?S k w'"
        unfolding pts_midway_def
        using m w1 sub kle Sk disj good queue empty none
        by (auto simp: res(1) w2_def w1_def chain_queued_def chain_queue_def filter_empty_conv)
      then show ?thesis using jk res(2) one by (intro exI [of _ k]) simp
    next
      case some: False
      then have waiting: "pw_waiting_skipped w2" using m(10) by (simp add: w2_def w1_def)
      define w3 where "w3 = pts_skip_update (up_pts x) (up_data x) w2"
      have "chain_queued n S (drop j us) w2"
        using m(9) chain_queued_cong [of w2 w] by (simp add: w2_def w1_def)
      then obtain n' where q3: "chain_queued n' ?S (drop j us) w3"
        using chain_queued_skip [OF _ srt_j bounds xj x(2)] unfolding w3_def by blast
      have ne: "pw_queue w2 \<noteq> []"
        using m(9) some by (auto simp: w2_def w1_def chain_queued_def chain_queue_def filter_empty_conv)
      have ne3: "pw_queue w3 \<noteq> []"
        using q3 xj by (auto simp: chain_queued_def chain_queue_def filter_empty_conv)
      define w4 where "w4 = w3\<lparr> pw_waiting_skipped := False \<rparr>"
      have app: "pts_apply_skipped ch w3 = (pts_clear_skipped w4, pts_check_for_waiting ch w4 @ pts_queue_events w4)"
        using waiting ne3 by (simp add: pts_apply_skipped_def pts_set_waiting_skipped_def w4_def w3_def Let_def)
      have res: "w' = pts_clear_skipped w4" "es = pts_check_for_waiting ch w4 @ pts_queue_events w4"
        using step upd chk waiting ne app by (auto simp: pts_update_and_apply_def w3_def)
      have q4: "chain_queued n' ?S (drop j us) w4" using q3 chain_queued_cong [of w4 w3] by (simp add: w4_def)
      have "pts_applied (pts_queue_events w4) = map (\<lambda>y. Some (up_data y)) (filter (\<lambda>y. y \<in> ?S) (drop j us))"
        using q4 unfolding chain_queued_def by (intro chain_queue_events) blast+
      moreover have "pts_applied (pts_check_for_waiting ch w4) = []" by (simp add: pts_check_for_waiting_def)
      ultimately have applied: "pts_applied es = map (\<lambda>y. Some (up_data y)) (drop j (take k us))"
        using res(2) applied_filter by simp
      have "pts_midway p us ?S k w'"
        unfolding pts_midway_def
        using m w1 sub kle Sk disj good
        by (auto simp: res(1) w4_def w3_def w2_def w1_def pts_clear_skipped_def chain_queued_def chain_queue_def
            filter_empty_conv)
      then show ?thesis using jk applied by (intro exI [of _ k]) simp
    qed
  qed
qed

lemma pts_run_midway:
  assumes "pts_chain p us" and "p > 0"
  shows "pts_midway p us S j w \<Longrightarrow> distinct arr \<Longrightarrow> set arr \<subseteq> set us - S \<Longrightarrow> pts_run ch arr w = (w', es) \<Longrightarrow>
    \<exists>k \<ge> j. pts_midway p us (S \<union> set arr) k w' \<and> pts_applied es = map (\<lambda>y. Some (up_data y)) (drop j (take k us))"
proof (induction arr arbitrary: S j w es)
  case Nil
  then show ?case by (intro exI [of _ j]) simp
next
  case (Cons x arr)
  obtain ok w1 es1 where step: "pts_update_and_apply ch (up_pts x) (up_step x) (PtsUpdate (up_data x)) w = (ok, w1, es1)"
    by (metis prod_cases3)
  obtain es2 where run: "pts_run ch arr w1 = (w', es2)" and es: "es = es1 @ es2"
    using Cons.prems(4) step by (auto split: prod.splits)
  have x: "x \<in> set us" "x \<notin> S" using Cons.prems(3) by auto
  obtain k where k: "j \<le> k" "pts_midway p us (insert x S) k w1"
      "pts_applied es1 = map (\<lambda>y. Some (up_data y)) (drop j (take k us))"
    using pts_midway_step [OF assms Cons.prems(1) x step] by blast
  have "set arr \<subseteq> set us - insert x S" "distinct arr" using Cons.prems(2,3) by auto
  then obtain i where i: "k \<le> i" "pts_midway p us (insert x S \<union> set arr) i w'"
      "pts_applied es2 = map (\<lambda>y. Some (up_data y)) (drop k (take i us))"
    using Cons.IH [OF k(2) _ _ run] by blast
  have "drop j (take k us) @ drop k (take i us) = drop j (take i us)"
  proof -
    have ki: "k \<le> length us" using k(2) by (simp add: pts_midway_def)
    have "take i us = take k us @ drop k (take i us)"
      using i(1) by (metis append_take_drop_id min.absorb1 take_take)
    then show ?thesis using k(1) ki by (metis drop_append diff_is_0_eq drop_0 length_take min.absorb2)
  qed
  then have "pts_applied es = map (\<lambda>y. Some (up_data y)) (drop j (take i us))"
    unfolding es by (simp add: k(3) i(3) flip: map_append)
  then show ?case using k(1) i(1,2) by (intro exI [of _ i]) simp
qed

section \<open>Properties\<close>

text \<open>C4.  Updates are never lost, repeated or applied out of order: whatever order the updates of a
  gapless stretch arrive in, once they are all there each was applied exactly once, in the order of
  their points in time, and the waiter is synchronised at the end of the stretch with nothing queued
  and not waiting.\<close>

theorem pts_updates_applied_in_order:
  assumes "pts_chain p us" and "p > 0" and "pts_synced p w" and "distinct arr" and "set arr = set us"
    and "pts_run ch arr w = (w', es)"
  shows "pts_applied es = map (\<lambda>x. Some (up_data x)) us \<and> pts_synced (pts_end p us) w'"
proof -
  have start: "pts_midway p us {} 0 w"
    using assms(3) by (simp add: pts_midway_def pts_synced_def pts_end_def seen_last_def seen_count_def
        chain_queued_def chain_queue_def)
  have "set arr \<subseteq> set us - {}" using assms(5) by simp
  from pts_run_midway [OF assms(1,2) start assms(4) this assms(6)]
  obtain k where k: "pts_midway p us (set us) k w'" "pts_applied es = map (\<lambda>y. Some (up_data y)) (take k us)"
    using assms(5) by auto
  have dist: "distinct us" by (rule sorted_pts_distinct [OF pts_chain_sorted [OF assms(1)]])
  have "set us = set (take (card (set us)) us)" using distinct_card [OF dist] by simp
  then have "pw_last w' = pw_count w'"
    using seen_complete [OF assms(1) order_refl] k(1) by (simp add: pts_midway_def)
  then have all: "set (take k us) = set us" using k(1) by (simp add: pts_midway_def)
  have kle: "k \<le> length us" using k(1) by (simp add: pts_midway_def)
  have "k = length us"
    using all dist kle distinct_card [of "take k us"] distinct_card [OF dist] by simp
  then have end': "pts_midway p us (set us) (length us) w'" "pts_applied es = map (\<lambda>y. Some (up_data y)) us"
    using k by simp_all
  then have "pts_synced (pts_end p us) w'"
    using \<open>pw_last w' = pw_count w'\<close> by (auto simp: pts_midway_def pts_synced_def chain_queued_def chain_queue_def
        seen_last_prefix [OF assms(1), of "length us", simplified])
  then show ?thesis using end'(2) by blast
qed

lemma pts_updates_applied_in_order_witness:
  "\<exists>w' es. pts_run () [(5, 2, ''b''), (3, 2, ''a'')] (pts_init 1 pts_waiter_new :: (string, unit) pts_waiter) = (w', es)
     \<and> pts_applied es = [Some ''a'', Some ''b''] \<and> pts_synced 5 w'"
proof -
  obtain w' es where run: "pts_run () [(5, 2, ''b''), (3, 2, ''a'')]
      (pts_init 1 pts_waiter_new :: (string, unit) pts_waiter) = (w', es)" by fastforce
  have "pts_applied es = map (\<lambda>x. Some (up_data x)) [(3, 2, ''a''), (5, 2, ''b'')]
      \<and> pts_synced (pts_end 1 [(3, 2, ''a''), (5, 2, ''b'')]) w'"
    by (rule pts_updates_applied_in_order [OF _ _ _ _ _ run])
      (auto simp: pts_synced_def pts_init_def pts_clear_skipped_def pts_waiter_new_def)
  then show ?thesis using run by (simp add: pts_end_def)
qed

text \<open> A repeated update is refused and changes nothing, and an update that leaves a gap is put aside
  while the wait for the missing ones is started.\<close>

theorem pts_gap_or_repeat:
  assumes "pts_inited w" and "\<not> pw_requesting w" and "pw_apply_level w = 0" and "cnt > 0"
    and "pw_last w = pw_good w" and "pw_count w = pw_good w"
  shows "(pts \<le> pw_good w \<longrightarrow> pts_update_and_apply ch pts cnt p w = (False, w, []))
    \<and> (pts > pw_good w + cnt \<longrightarrow>
        (\<exists>w'. pts_update_and_apply ch pts cnt p w = (False, w', [StartTimer ch wait_for_skipped_timeout])
          \<and> pw_waiting_skipped w' \<and> pw_good w' = pw_good w))"
proof (intro conjI impI)
  assume "pts \<le> pw_good w"
  then show "pts_update_and_apply ch pts cnt p w = (False, w, [])"
    using assms by (simp add: pts_update_and_apply_def pts_updated_def)
next
  assume gap: "pts > pw_good w + cnt"
  have good: "pw_good (pts_skip pts p v) = pw_good v" "pw_waiting_skipped (pts_skip pts p v) = pw_waiting_skipped v" for v
    by (cases p; simp add: pts_skip_updates_def pts_key_def Let_def)+
  have "max (pw_last w) pts = pts" "pts \<noteq> pw_count w + cnt" "\<not> pts < pw_count w + cnt" "\<not> pts \<le> pw_good w"
    using gap assms(4-6) by simp_all
  then show "\<exists>w'. pts_update_and_apply ch pts cnt p w = (False, w', [StartTimer ch wait_for_skipped_timeout])
      \<and> pw_waiting_skipped w' \<and> pw_good w' = pw_good w"
    using assms(1-4) by (simp add: pts_update_and_apply_def pts_updated_def pts_check_def Let_def
        pts_set_waiting_skipped_def wait_for_skipped_timeout_def good)
qed

lemma pts_gap_or_repeat_witness:
  "pts_update_and_apply () 1 1 (PtsUpdate ''x'') (pts_init 1 pts_waiter_new :: (string, unit) pts_waiter)
     = (False, pts_init 1 pts_waiter_new, [])"
  using pts_gap_or_repeat [of "pts_init 1 pts_waiter_new :: (string, unit) pts_waiter" 1 1 "()" "PtsUpdate ''x''"]
  by (simp add: pts_inited_def pts_init_def pts_clear_skipped_def pts_waiter_new_def)

end
