(* ===== verification/Received_Ids.thy ===== *)
theory Received_Ids
  imports Prelude
begin

text \<open>
  \<open>ReceivedIdsManager\<close> (\<open>mtproto/details/mtproto_received_ids_manager.cpp\<close>): the ids of the server
  messages a session has handled, each with whether it must be acknowledged.  The map is the list of
  its pairs in the order of the ids.  The property is protection against replay: over any sequence of
  registrations and shrinkings no id is accepted twice.
\<close>

type_synonym mtp_msg_id = "64 word"
type_synonym received_ids = "(mtp_msg_id \<times> bool) list"

datatype received_state = NotFound | NeedsAck | NoAckNeeded
datatype received_result = Success | Duplicate | TooOld

definition ids_buffer_size :: nat where
  "ids_buffer_size = 400"

definition received_min :: "received_ids \<Rightarrow> mtp_msg_id" where
  "received_min m = (if m = [] then 0 else fst (hd m))"

definition received_max :: "received_ids \<Rightarrow> mtp_msg_id" where
  "received_max m = (if m = [] then 0 else fst (last m))"

definition received_register :: "mtp_msg_id \<Rightarrow> bool \<Rightarrow> received_ids \<Rightarrow> received_result \<times> received_ids" where
  "received_register i need_ack m =
     (if map_of m i \<noteq> None then (Duplicate, m)
      else if length m < ids_buffer_size \<or> i > received_min m then (Success, flat_emplace i need_ack m)
      else (TooOld, m))"

definition received_lookup :: "mtp_msg_id \<Rightarrow> received_ids \<Rightarrow> received_state" where
  "received_lookup i m =
     (case map_of m i of None \<Rightarrow> NotFound | Some need_ack \<Rightarrow> if need_ack then NeedsAck else NoAckNeeded)"

definition received_shrink :: "received_ids \<Rightarrow> received_ids" where
  "received_shrink m = drop (length m - ids_buffer_size) m"

definition received_clear :: "received_ids \<Rightarrow> received_ids" where
  "received_clear m = []"

text \<open>The loop of \<open>shrink\<close>, which erases the first entry while the size it counts down is above the
  bound.\<close>

fun received_shrink_loop :: "nat \<Rightarrow> received_ids \<Rightarrow> received_ids" where
  "received_shrink_loop 0 m = m"
| "received_shrink_loop (Suc n) m =
     (if Suc n > ids_buffer_size then received_shrink_loop n (tl m) else m)"

lemma received_shrink_loop_eq: "received_shrink_loop (length m) m = received_shrink m"
proof -
  have "received_shrink_loop n xs = drop (n - ids_buffer_size) xs" for n xs
    by (induction n arbitrary: xs) (auto simp: drop_Suc Suc_diff_le)
  then show ?thesis by (simp add: received_shrink_def)
qed

section \<open>Runs\<close>

datatype received_op = Register mtp_msg_id bool | Shrink

fun received_run :: "received_op list \<Rightarrow> received_ids \<Rightarrow> mtp_msg_id list \<times> received_ids" where
  "received_run [] m = ([], m)"
| "received_run (Register i a # ops) m =
     (let (r, m1) = received_register i a m;
          (acc, m2) = received_run ops m1
      in (if r = Success then i # acc else acc, m2))"
| "received_run (Shrink # ops) m = received_run ops (received_shrink_loop (length m) m)"

text \<open>Ids accepted before are in the map, or the map is full and they are below all of it.\<close>

definition received_guards :: "mtp_msg_id set \<Rightarrow> received_ids \<Rightarrow> bool" where
  "received_guards A m \<longleftrightarrow> flat_ok (map fst m) \<and> fst ` set m \<subseteq> A
     \<and> (\<forall>i \<in> A. i \<in> fst ` set m \<or> (ids_buffer_size \<le> length m \<and> i < received_min m))"

lemma map_of_in: "map_of m i \<noteq> None \<longleftrightarrow> i \<in> fst ` set m"
  by (simp add: map_of_eq_None_iff)

lemma received_min_le: "flat_ok (map fst m) \<Longrightarrow> i \<in> fst ` set m \<Longrightarrow> received_min m \<le> i"
  by (cases m) (auto simp: received_min_def less_imp_le)

lemma received_register_guards:
  assumes g: "received_guards A m" and r: "received_register i a m = (res, m')"
  shows "received_guards (if res = Success then insert i A else A) m' \<and> (res = Success \<longrightarrow> i \<notin> A)"
proof (cases "res = Success")
  case False
  then show ?thesis using assms by (auto simp: received_register_def split: if_splits)
next
  case True
  have ok: "flat_ok (map fst m)" using g by (simp add: received_guards_def)
  have i: "i \<notin> fst ` set m" and m': "m' = flat_emplace i a m"
    and room: "length m < ids_buffer_size \<or> received_min m < i"
    using r True map_of_in [of m i] by (simp_all add: received_register_def split: if_splits)
  have "i \<notin> A"
    using g i room unfolding received_guards_def by (auto dest: less_asym)
  moreover have "received_guards (insert i A) m'"
  proof -
    have len: "length m' = Suc (length m)" unfolding m' by (rule length_flat_emplace [OF i])
    have keys: "fst ` set m' = insert i (fst ` set m)" unfolding m' by (rule flat_emplace_keys)
    have full: "received_min m' = received_min m" if f: "ids_buffer_size \<le> length m"
    proof -
      obtain e q where m: "m = e # q" using f by (cases m) (auto simp: ids_buffer_size_def)
      have "fst e < i" using room f by (simp add: m received_min_def)
      then show ?thesis by (cases e) (auto simp: m m' received_min_def)
    qed
    show ?thesis
      unfolding received_guards_def keys
    proof (intro conjI ballI)
      show "flat_ok (map fst m')" unfolding m' by (rule flat_ok_emplace [OF ok])
      show "insert i (fst ` set m) \<subseteq> insert i A" using g by (auto simp: received_guards_def)
      fix j assume "j \<in> insert i A"
      then consider "j = i" | "j \<in> fst ` set m" | "ids_buffer_size \<le> length m" "j < received_min m"
        using g unfolding received_guards_def by blast
      then show "j \<in> insert i (fst ` set m) \<or> (ids_buffer_size \<le> length m' \<and> j < received_min m')"
        using full len by cases auto
    qed
  qed
  ultimately show ?thesis using True by simp
qed

lemma received_shrink_guards:
  assumes g: "received_guards A m"
  shows "received_guards A (received_shrink m)"
proof (cases "length m \<le> ids_buffer_size")
  case True
  then show ?thesis using g by (simp add: received_shrink_def)
next
  case False
  define k where "k = length m - ids_buffer_size"
  have ok: "flat_ok (map fst m)" using g by (simp add: received_guards_def)
  have split: "m = take k m @ received_shrink m" by (simp add: received_shrink_def k_def)
  have len: "length (received_shrink m) = ids_buffer_size" using False by (simp add: received_shrink_def)
  then have ne: "received_shrink m \<noteq> []" by (auto simp: ids_buffer_size_def)
  have "flat_ok (map fst (take k m) @ map fst (received_shrink m))" using ok arg_cong [OF split, of "map fst"] by (simp only: map_append)
  then have oks: "flat_ok (map fst (received_shrink m))"
    and below: "\<And>x y. x \<in> fst ` set (take k m) \<Longrightarrow> y \<in> fst ` set (received_shrink m) \<Longrightarrow> x < y"
    by (auto simp: sorted_wrt_append)
  have min: "received_min (received_shrink m) \<in> fst ` set (received_shrink m)"
    using ne by (simp add: received_min_def)
  have keys: "fst ` set m = fst ` set (take k m) \<union> fst ` set (received_shrink m)"
    using arg_cong [OF split, of "\<lambda>x. fst ` set x"] by (simp only: set_append image_Un)
  have minle: "received_min m \<le> received_min (received_shrink m)"
    using received_min_le [OF ok] min keys by blast
  show ?thesis
    unfolding received_guards_def
  proof (intro conjI ballI)
    show "flat_ok (map fst (received_shrink m))" by (rule oks)
    show "fst ` set (received_shrink m) \<subseteq> A" using g keys by (auto simp: received_guards_def)
    fix i assume "i \<in> A"
    then have "i \<in> fst ` set m \<or> i < received_min m" using g by (auto simp: received_guards_def)
    then consider "i \<in> fst ` set (received_shrink m)" | "i \<in> fst ` set (take k m)" | "i < received_min m"
      unfolding keys by (elim disjE UnE)
    then show "i \<in> fst ` set (received_shrink m)
        \<or> (ids_buffer_size \<le> length (received_shrink m) \<and> i < received_min (received_shrink m))"
      using below min minle len by cases (auto intro: less_le_trans)
  qed
qed

lemma received_run_guards:
  "received_guards A m \<Longrightarrow> received_run ops m = (acc, m') \<Longrightarrow>
     distinct acc \<and> set acc \<inter> A = {} \<and> received_guards (A \<union> set acc) m'"
proof (induction ops m arbitrary: A acc m' rule: received_run.induct)
  case (1 m)
  then show ?case by simp
next
  case (2 i a ops m)
  obtain r m1 where r: "received_register i a m = (r, m1)" by fastforce
  obtain acc1 m2 where run: "received_run ops m1 = (acc1, m2)" by fastforce
  have acc: "acc = (if r = Success then i # acc1 else acc1)" "m' = m2" using 2(3) r run by auto
  let ?A = "if r = Success then insert i A else A"
  have g: "received_guards ?A m1" "r = Success \<Longrightarrow> i \<notin> A" using received_register_guards [OF 2(2) r] by auto
  from "2.IH" [OF r [symmetric] refl g(1) run]
  have "distinct acc1" "set acc1 \<inter> ?A = {}" "received_guards (?A \<union> set acc1) m2" by blast+
  then show ?case using acc g(2) by (auto split: if_splits)
next
  case (3 ops m)
  then show ?case using received_shrink_guards [of A m] by (simp add: received_shrink_loop_eq)
qed

section \<open>Properties\<close>

text \<open>C28.  No replay: over any sequence of registrations and shrinkings that starts from an empty
  manager, the accepted ids are all different - an id that was accepted once is refused for good, as a
  duplicate while it is remembered and as too old after it was dropped.\<close>

theorem received_no_replay:
  shows "distinct (fst (received_run ops []))"
proof -
  have "received_guards {} []" by (simp add: received_guards_def)
  then show ?thesis
    using received_run_guards [of "{}" "[]" ops] by (cases "received_run ops []") auto
qed

text \<open>The memory is bounded and keeps the newest: after shrinking there are at most 400 ids, they are
  the largest of those held, and looking any of them up is unchanged.\<close>

lemma received_shrink_keeps_newest:
  assumes "flat_ok (map fst m)"
  shows "length (received_shrink_loop (length m) m) \<le> ids_buffer_size
    \<and> (\<forall>i \<in> fst ` set (received_shrink_loop (length m) m).
         received_lookup i (received_shrink_loop (length m) m) = received_lookup i m
         \<and> (\<forall>j \<in> fst ` set m - fst ` set (received_shrink_loop (length m) m). j < i))"
proof -
  let ?s = "received_shrink m"
  define k where "k = length m - ids_buffer_size"
  have split: "m = take k m @ ?s" by (simp add: received_shrink_def k_def)
  have "flat_ok (map fst (take k m) @ map fst ?s)" using assms split by (metis map_append)
  then have below: "\<And>x y. x \<in> fst ` set (take k m) \<Longrightarrow> y \<in> fst ` set ?s \<Longrightarrow> x < y"
    by (auto simp: sorted_wrt_append)
  have keys: "fst ` set m = fst ` set (take k m) \<union> fst ` set ?s"
    using split by (metis image_Un set_append)
  have "received_lookup i ?s = received_lookup i m" if "i \<in> fst ` set ?s" for i
  proof -
    have "i \<notin> fst ` set (take k m)" using below [OF _ that] by auto
    then have "map_of (take k m) i = None" by (simp add: map_of_eq_None_iff)
    then have "map_of m i = map_of ?s i" by (subst split) (simp add: map_add_def split: option.split)
    then show ?thesis by (simp add: received_lookup_def)
  qed
  then show ?thesis
    unfolding received_shrink_loop_eq using below keys by (auto simp: received_shrink_def)
qed

lemma received_shrink_keeps_newest_witness:
  "length (received_shrink_loop (length [(1, True), (2, False)]) [(1, True), (2, False)]) \<le> ids_buffer_size"
  using received_shrink_keeps_newest [of "[(1, True), (2, False)]"] by simp

end
