(* ===== verification/Bytes.thy ===== *)
theory Bytes
  imports Prelude
begin

unbundle bit_operations_syntax

text \<open>
  Bytes and the integers they carry: the little-endian view of 32-bit integers as memory (what the
  \<open>reinterpret_cast\<close>s of the source read on the platforms it is built for), the big-endian
  integers that the program writes byte by byte, and the operations on byte buffers: the span of a
  buffer from an offset, and a copy into a buffer.
\<close>

section \<open>Integers as bytes\<close>

definition le32_bytes :: "32 word \<Rightarrow> bytes" where
  "le32_bytes w = [ucast w, ucast (drop_bit 8 w), ucast (drop_bit 16 w), ucast (drop_bit 24 w)]"

definition le32 :: "byte \<Rightarrow> byte \<Rightarrow> byte \<Rightarrow> byte \<Rightarrow> 32 word" where
  "le32 a b c d = ucast a OR push_bit 8 (ucast b) OR push_bit 16 (ucast c) OR push_bit 24 (ucast d)"

definition ints_bytes :: "32 word list \<Rightarrow> bytes" where
  "ints_bytes ws = concat (map le32_bytes ws)"

fun bytes_ints :: "bytes \<Rightarrow> 32 word list" where
  "bytes_ints (a # b # c # d # bs) = le32 a b c d # bytes_ints bs"
| "bytes_ints _ = []"

lemma bit_byte_bound: "bit (b :: byte) n \<Longrightarrow> n < 8"
  using bit_imp_le_length by fastforce

lemma bit_int_bound: "bit (w :: 32 word) n \<Longrightarrow> n < 32"
  using bit_imp_le_length by fastforce

lemma le32_of_word:
  "le32 (ucast w) (ucast (drop_bit 8 w)) (ucast (drop_bit 16 w)) (ucast (drop_bit 24 w)) = w"
proof (rule bit_word_eqI)
  fix n assume "n < LENGTH(32)"
  then have "n < 32" by simp
  then consider "n < 8" | "8 \<le> n" "n < 16" | "16 \<le> n" "n < 24" | "24 \<le> n" "n < 32" by linarith
  then show "bit (le32 (ucast w) (ucast (drop_bit 8 w)) (ucast (drop_bit 16 w)) (ucast (drop_bit 24 w))) n = bit w n"
    by cases (auto simp: le32_def bit_simps)
qed

lemma bytes_of_le32:
  "ucast (le32 a b c d) = a" "ucast (drop_bit 8 (le32 a b c d)) = b"
  "ucast (drop_bit 16 (le32 a b c d)) = c" "ucast (drop_bit 24 (le32 a b c d)) = d"
  by (rule bit_word_eqI; auto simp: le32_def bit_simps dest: bit_byte_bound)+

lemma le32_bytes_le32 [simp]: "le32_bytes (le32 a b c d) = [a, b, c, d]"
  by (simp add: le32_bytes_def bytes_of_le32)

lemma length_le32_bytes [simp]: "length (le32_bytes w) = 4"
  by (simp add: le32_bytes_def)

lemma length_ints_bytes [simp]: "length (ints_bytes ws) = 4 * length ws"
  by (induction ws) (auto simp: ints_bytes_def)

lemma ints_bytes_simps [simp]:
  "ints_bytes [] = []" "ints_bytes (w # ws) = le32_bytes w @ ints_bytes ws"
  "ints_bytes (ws @ vs) = ints_bytes ws @ ints_bytes vs"
  by (simp_all add: ints_bytes_def)

lemma bytes_ints_le32_bytes [simp]: "bytes_ints (le32_bytes w @ bs) = w # bytes_ints bs"
  by (simp add: le32_bytes_def le32_of_word)

lemma bytes_ints_ints_bytes: "bytes_ints (ints_bytes ws @ bs) = ws @ bytes_ints bs"
  by (induction ws) (simp_all)

lemma bytes_ints_of_ints [simp]: "bytes_ints (ints_bytes ws) = ws"
  using bytes_ints_ints_bytes [of ws "[]"] by simp

lemma length_bytes_ints: "length (bytes_ints bs) = length bs div 4"
  by (induction bs rule: bytes_ints.induct) auto

text \<open>Big-endian integers of four bytes.\<close>

definition be32_bytes :: "32 word \<Rightarrow> bytes" where
  "be32_bytes w = [ucast (drop_bit 24 w), ucast (drop_bit 16 w), ucast (drop_bit 8 w), ucast w]"

definition be32 :: "byte \<Rightarrow> byte \<Rightarrow> byte \<Rightarrow> byte \<Rightarrow> 32 word" where
  "be32 a b c d = le32 d c b a"

lemma be32_of_word: "be32 (ucast (drop_bit 24 w)) (ucast (drop_bit 16 w)) (ucast (drop_bit 8 w)) (ucast w) = w"
  by (simp add: be32_def le32_of_word)

lemma be32_bytes_be32: "be32_bytes (be32 a b c d) = [a, b, c, d]"
  by (simp add: be32_def be32_bytes_def bytes_of_le32)

lemma length_be32_bytes [simp]: "length (be32_bytes w) = 4"
  by (simp add: be32_bytes_def)

text \<open>Three bytes as an integer, and integers below the sign bit.\<close>

definition le24 :: "byte \<Rightarrow> byte \<Rightarrow> byte \<Rightarrow> 32 word" where
  "le24 a b c = ucast a OR push_bit 8 (ucast b) OR push_bit 16 (ucast c)"

lemma unat_le24: "unat (le24 a b c) < 2 ^ 24"
proof -
  have "take_bit 24 (le24 a b c) = le24 a b c"
    by (rule bit_word_eqI) (auto simp: le24_def bit_simps dest: bit_byte_bound)
  then show ?thesis by (metis take_bit_nat_less_exp unsigned_take_bit_eq)
qed

lemma bytes_of_le24:
  "ucast (le24 a b c) = a" "ucast (drop_bit 8 (le24 a b c)) = b" "ucast (drop_bit 16 (le24 a b c)) = c"
  by (rule bit_word_eqI; auto simp: le24_def bit_simps dest: bit_byte_bound)+

lemma le24_of_small:
  assumes "unat w < 2 ^ 24"
  shows "le24 (ucast w) (ucast (drop_bit 8 w)) (ucast (drop_bit 16 w)) = w"
proof (rule bit_word_eqI)
  have "take_bit 24 w = w" using assms by (simp add: word_unat_eq_iff unsigned_take_bit_eq take_bit_nat_eq_self)
  then have high: "\<not> bit w n" if "24 \<le> n" for n by (metis bit_take_bit_iff not_less that)
  fix n assume "n < LENGTH(32)"
  consider "n < 8" | "8 \<le> n" "n < 16" | "16 \<le> n" "n < 24" | "24 \<le> n" by linarith
  then show "bit (le24 (ucast w) (ucast (drop_bit 8 w)) (ucast (drop_bit 16 w))) n = bit w n"
    using \<open>n < LENGTH(32)\<close> high [of n] by cases (auto simp: le24_def bit_simps)
qed

lemma le24_of_word:
  assumes "unat w < 2 ^ 24"
  shows "le24 (ucast (w AND 0xFF)) (ucast (drop_bit 8 w AND 0xFF)) (ucast (drop_bit 16 w AND 0xFF)) = w"
proof (rule bit_word_eqI)
  have "take_bit 24 w = w" using assms by (simp add: word_unat_eq_iff unsigned_take_bit_eq take_bit_nat_eq_self)
  then have high: "\<not> bit w n" if "24 \<le> n" for n by (metis bit_take_bit_iff not_less that)
  have ff: "bit (0xFF :: 32 word) n \<longleftrightarrow> n < 8" for n
  proof -
    have "(0xFF :: 32 word) = mask 8" by (simp add: mask_eq_exp_minus_1)
    moreover have "bit (mask 8 :: 32 word) n \<longleftrightarrow> n < 8" by (auto simp: bit_mask_iff)
    ultimately show ?thesis by simp
  qed
  have ffb: "bit (0xFF :: int) n \<longleftrightarrow> n < 8" for n
  proof -
    have "(0xFF :: int) = mask 8" by (simp add: mask_eq_exp_minus_1)
    moreover have "bit (mask 8 :: int) n \<longleftrightarrow> n < 8" by (auto simp: bit_mask_iff)
    ultimately show ?thesis by simp
  qed
  fix n assume "n < LENGTH(32)"
  consider "n < 8" | "8 \<le> n" "n < 16" | "16 \<le> n" "n < 24" | "24 \<le> n" by linarith
  then show "bit (le24 (ucast (w AND 0xFF)) (ucast (drop_bit 8 w AND 0xFF)) (ucast (drop_bit 16 w AND 0xFF))) n = bit w n"
    using \<open>n < LENGTH(32)\<close> high [of n] by cases (auto simp: le24_def bit_simps ff ffb)
qed

lemma sint_eq_unat:
  assumes "unat (w :: 32 word) < 2 ^ 31"
  shows "sint w = int (unat w)"
proof -
  have "int (unat w) < int (2 ^ 31)" using assms by (simp only: of_nat_less_iff)
  then have "uint w < 2 ^ 31" by simp
  moreover have "- (2 ^ 31) \<le> uint w" by (rule order_trans [of _ 0]) simp_all
  ultimately show ?thesis by (simp add: sint_uint signed_take_bit_int_eq_self)
qed

lemma sint_shift2:
  assumes "unat (w :: 32 word) < 2 ^ 24"
  shows "sint (push_bit 2 w) = 4 * int (unat w)"
proof -
  have "unat (push_bit 2 w) = 4 * unat w"
    using assms by (simp add: push_bit_eq_mult unat_word_ariths)
  then show ?thesis using assms sint_eq_unat [of "push_bit 2 w"] by simp
qed

lemma unat_byte_less: "unat (b :: byte) < 256"
  using unsigned_less [of b] by simp

lemma sint_byte_pos:
  assumes "sint (b :: byte) > 0"
  shows "sint b = int (unat b)"
proof -
  have nb: "\<not> bit (uint b) 7"
  proof
    assume "bit (uint b) 7"
    then have "sint b < 0" by (simp add: sint_uint)
    then show False using assms by simp
  qed
  then have "sint b = take_bit 7 (uint b)" by (simp add: sint_uint signed_take_bit_eq_if_positive)
  also have "\<dots> = uint b"
  proof (rule bit_eqI)
    fix n
    show "bit (take_bit 7 (uint b)) n = bit (uint b) n"
      using nb by (cases "n = 7") (auto simp: bit_simps dest: bit_byte_bound)
  qed
  finally show ?thesis by simp
qed

lemma sint_byte_small:
  assumes "unat (b :: byte) < 128"
  shows "sint b = int (unat b)"
proof -
  have "int (unat b) < int 128" using assms by (simp only: of_nat_less_iff)
  then have "uint b < 2 ^ 7" by simp
  moreover have "- (2 ^ 7) \<le> uint b" by (rule order_trans [of _ 0]) simp_all
  ultimately show ?thesis by (simp add: sint_uint signed_take_bit_int_eq_self)
qed

lemma unat_ucast_byte [simp]: "unat (ucast (b :: byte) :: 32 word) = unat b"
  using unat_byte_less [of b] by (simp add: unsigned_ucast_eq take_bit_nat_eq_self)

section \<open>Spans and copies\<close>

definition bytes_at :: "nat \<Rightarrow> nat \<Rightarrow> bytes \<Rightarrow> bytes" where
  "bytes_at i n b = take n (drop i b)"

definition bytes_put :: "nat \<Rightarrow> bytes \<Rightarrow> bytes \<Rightarrow> bytes" where
  "bytes_put i d b = take i b @ d @ drop (i + length d) b"

lemma length_bytes_at: "i + n \<le> length b \<Longrightarrow> length (bytes_at i n b) = n"
  by (simp add: bytes_at_def)

lemma length_bytes_put [simp]: "i + length d \<le> length b \<Longrightarrow> length (bytes_put i d b) = length b"
  by (simp add: bytes_put_def)

lemma bytes_at_0 [simp]: "bytes_at i 0 b = []"
  by (simp add: bytes_at_def)

lemma bytes_at_add: "bytes_at i (m + n) b = bytes_at i m b @ bytes_at (i + m) n b"
  by (simp add: bytes_at_def take_add add.commute)

lemma bytes_at_put: "i + length d \<le> length b \<Longrightarrow> bytes_at i (length d) (bytes_put i d b) = d"
  by (simp add: bytes_at_def bytes_put_def)

lemma bytes_at_put_before: "j + n \<le> i \<Longrightarrow> i \<le> length b \<Longrightarrow> bytes_at j n (bytes_put i d b) = bytes_at j n b"
proof -
  assume le: "j + n \<le> i" "i \<le> length b"
  have "take n (drop j (take i b @ ys)) = take n (drop j (take i b))" for ys
  proof -
    have "drop j (take i b @ ys) = drop j (take i b) @ ys" using le by (cases "j = i") auto
    moreover have "length (drop j (take i b)) \<ge> n" using le by simp
    ultimately show ?thesis by simp
  qed
  moreover have "take n (drop j (take i b)) = take n (drop j b)" using le by (simp add: drop_take min_def)
  ultimately show ?thesis unfolding bytes_at_def bytes_put_def by metis
qed

lemma bytes_at_put_after: "i + length d \<le> j \<Longrightarrow> i \<le> length b \<Longrightarrow> bytes_at j n (bytes_put i d b) = bytes_at j n b"
  by (simp add: bytes_at_def bytes_put_def min_def)

lemma drop_bytes_at: "m \<le> n \<Longrightarrow> drop m (bytes_at i n b) = bytes_at (i + m) (n - m) b"
  by (simp add: bytes_at_def drop_take add.commute)

lemma take_bytes_at: "m \<le> n \<Longrightarrow> take m (bytes_at i n b) = bytes_at i m b"
  by (simp add: bytes_at_def min_def)

end
