(* ===== verification/Tcp_Protocol.thy ===== *)
theory Tcp_Protocol
  imports Bytes
begin

text \<open>
  The transport protocols of \<open>mtproto/connection_tcp.cpp\<close> (\<open>TcpConnection::Protocol\<close> and its three
  versions): how a packet is framed for the wire (\<open>finalizePacket\<close>), how its length is read from
  the bytes received so far (\<open>readPacketLength\<close>) and how its content is taken out (\<open>readPacket\<close>).
  The virtual functions are functions on a datatype with one constructor per version.  Failed
  \<open>Expects\<close> and \<open>Assert\<close> are \<open>None\<close>.  The hash function and the random values are arguments.
\<close>

section \<open>The protocols\<close>

definition unknown_size :: int where "unknown_size = - 1"
definition invalid_size :: int where "invalid_size = - 2"

definition packet_size_max :: int where
  "packet_size_max = 0x01000000 * 4"

datatype tcp_protocol = Version0 | Version1 bytes | VersionD bytes

fun protocol_id :: "tcp_protocol \<Rightarrow> 32 word" where
  "protocol_id (VersionD _) = 0xDDDDDDDD"
| "protocol_id _ = 0xEFEFEFEF"

fun supports_arbitrary_length :: "tcp_protocol \<Rightarrow> bool" where
  "supports_arbitrary_length (VersionD _) = True"
| "supports_arbitrary_length _ = False"

fun prepare_key :: "(bytes \<Rightarrow> bytes) \<Rightarrow> tcp_protocol \<Rightarrow> bytes \<Rightarrow> bytes" where
  "prepare_key sha256 Version0 source = source"
| "prepare_key sha256 (Version1 secret) source = sha256 (source @ secret)"
| "prepare_key sha256 (VersionD secret) source = sha256 (source @ secret)"

text \<open>\<open>Protocol::Create\<close>; a secret of any other form reaches \<open>Unexpected\<close>.\<close>

definition protocol_create :: "bytes \<Rightarrow> tcp_protocol option" where
  "protocol_create secret =
     (if (length secret \<ge> 21 \<and> secret ! 0 = 0xEE) \<or> (length secret = 17 \<and> secret ! 0 = 0xDD)
      then Some (VersionD (bytes_at 1 16 secret))
      else if length secret = 16 then Some (Version1 secret)
      else if secret = [] then Some Version0
      else None)"

section \<open>Writing a packet\<close>

text \<open>The buffer has two integers in front of the content.  \<open>Version0\<close> writes the number of integers
  into the last byte in front of the content, or a marker and three bytes.\<close>

definition finalize_v0 :: "32 word list \<Rightarrow> bytes option" where
  "finalize_v0 buf =
     (if length buf > 2 \<and> length buf < 0x1000003 then
        (let ints_size = (of_nat (length buf - 2) :: 32 word);
             bytes_size = unat ints_size * 4;
             data = ints_bytes buf
         in if ints_size < 0x7F
            then Some (bytes_at (8 - 1) (1 + bytes_size) (data[7 := ucast ints_size]))
            else Some (bytes_at (8 - 4) (4 + bytes_size)
                   (data[4 := 0x7F,
                         5 := ucast (ints_size AND 0xFF),
                         6 := ucast (drop_bit 8 ints_size AND 0xFF),
                         7 := ucast (drop_bit 16 ints_size AND 0xFF)])))
      else None)"

text \<open>\<open>VersionD\<close> pads with up to 15 random bytes and writes the number of bytes; \<open>r\<close> is the random
  value drawn for the padding and \<open>fill\<close> the integers drawn for its content.\<close>

fun push_padding :: "(nat \<Rightarrow> 32 word) \<Rightarrow> nat \<Rightarrow> nat \<Rightarrow> nat \<Rightarrow> 32 word list \<Rightarrow> 32 word list" where
  "push_padding fill 0 added padding buf = buf"
| "push_padding fill (Suc n) added padding buf =
     (if added < padding then push_padding fill n (added + 4) padding (buf @ [fill (added div 4)]) else buf)"

definition finalize_vd :: "32 word \<Rightarrow> (nat \<Rightarrow> 32 word) \<Rightarrow> 32 word list \<Rightarrow> bytes option" where
  "finalize_vd r fill buf =
     (if length buf > 2 \<and> length buf < 0x1000003 then
        (let ints_size = (of_nat (length buf - 2) :: 32 word);
             padding = unat (r AND 0x0F);
             bytes_size = unat ints_size * 4 + padding;
             buf' = push_padding fill 16 0 padding (buf[1 := of_nat bytes_size])
         in Some (bytes_at 4 (4 + bytes_size) (ints_bytes buf')))
      else None)"

fun finalize_packet :: "32 word \<Rightarrow> (nat \<Rightarrow> 32 word) \<Rightarrow> tcp_protocol \<Rightarrow> 32 word list \<Rightarrow> bytes option" where
  "finalize_packet r fill (VersionD _) buf = finalize_vd r fill buf"
| "finalize_packet r fill _ buf = finalize_v0 buf"

section \<open>Reading a packet\<close>

definition packet_length_v0 :: "bytes \<Rightarrow> int" where
  "packet_length_v0 bs =
     (if bs = [] then unknown_size
      else (let first = bs ! 0
            in if first = 0x7F then
                 (if length bs < 4 then unknown_size
                  else (let n = le24 (bs ! 1) (bs ! 2) (bs ! 3)
                        in if n \<ge> 0x7F then sint (push_bit 2 n) + 4 else invalid_size))
               else if sint first > 0 \<and> sint first < 0x7F then
                 sint (push_bit 2 (ucast first :: 32 word)) + 1
               else invalid_size))"

definition packet_length_vd :: "bytes \<Rightarrow> int" where
  "packet_length_vd bs =
     (if length bs < 4 then unknown_size
      else (let value = le32 (bs ! 0) (bs ! 1) (bs ! 2) (bs ! 3) + 4
            in if value \<ge> 8 \<and> value < word_of_int packet_size_max then sint value else invalid_size))"

fun packet_length :: "tcp_protocol \<Rightarrow> bytes \<Rightarrow> int" where
  "packet_length (VersionD _) bs = packet_length_vd bs"
| "packet_length _ bs = packet_length_v0 bs"

fun size_length :: "tcp_protocol \<Rightarrow> bytes \<Rightarrow> nat" where
  "size_length (VersionD _) bs = 4"
| "size_length _ bs = (if bs ! 0 = 0x7F then 4 else 1)"

definition read_packet :: "tcp_protocol \<Rightarrow> bytes \<Rightarrow> bytes option" where
  "read_packet p bs =
     (let size = packet_length p bs
      in if size \<noteq> unknown_size \<and> size \<noteq> invalid_size \<and> size \<le> int (length bs)
         then Some (bytes_at (size_length p bs) (nat size - size_length p bs) bs)
         else None)"

section \<open>The framing laws\<close>

text \<open>What the connection needs of a protocol: no length before the header is there, a length that later
  bytes do not change, room for at least one integer after the header, and a bound.\<close>

locale packet_framing =
  fixes len :: "bytes \<Rightarrow> int" and hdr :: "bytes \<Rightarrow> nat"
  assumes len_empty: "len [] = unknown_size"
    and len_cases: "len bs = unknown_size \<or> len bs = invalid_size \<or> int (hdr bs) + 4 \<le> len bs \<and> len bs \<le> packet_size_max"
    and len_append: "len bs \<noteq> unknown_size \<Longrightarrow> len (bs @ cs) = len bs \<and> hdr (bs @ cs) = hdr bs"
    and len_long: "4 \<le> length bs \<Longrightarrow> len bs \<noteq> unknown_size"

lemma packet_length_v0_cases:
  obtains "packet_length_v0 bs = unknown_size" | "packet_length_v0 bs = invalid_size"
  | n where "packet_length_v0 bs = 4 * int n + 4" "0x7F \<le> n" "n < 2 ^ 24" "bs ! 0 = 0x7F" "4 \<le> length bs"
  | n where "packet_length_v0 bs = 4 * int n + 1" "0 < n" "n < 0x7F" "bs ! 0 \<noteq> 0x7F" "bs \<noteq> []"
proof -
  consider "bs = []" | "bs \<noteq> []" "bs ! 0 = 0x7F" "length bs < 4" | "bs ! 0 = 0x7F" "4 \<le> length bs"
    | "bs \<noteq> []" "bs ! 0 \<noteq> 0x7F" by linarith
  then show ?thesis
  proof cases
    case 1
    then show ?thesis using that(1) by (simp add: packet_length_v0_def)
  next
    case 2
    then show ?thesis using that(1) by (simp add: packet_length_v0_def)
  next
    case 3
    let ?n = "le24 (bs ! 1) (bs ! 2) (bs ! 3)"
    have len: "packet_length_v0 bs = (if ?n \<ge> 0x7F then sint (push_bit 2 ?n) + 4 else invalid_size)"
      using 3 by (auto simp: packet_length_v0_def Let_def)
    have lt: "unat ?n < 2 ^ 24" by (rule unat_le24)
    show ?thesis
    proof (cases "?n \<ge> 0x7F")
      case True
      then have "0x7F \<le> unat ?n" by (simp add: word_le_nat_alt)
      with True lt len show ?thesis by (intro that(3) [of "unat ?n"]) (simp_all add: sint_shift2 3)
    next
      case False
      then show ?thesis using len that(2) by simp
    qed
  next
    case 4
    let ?f = "bs ! 0"
    have len: "packet_length_v0 bs = (if sint ?f > 0 \<and> sint ?f < 0x7F then sint (push_bit 2 (ucast ?f :: 32 word)) + 1 else invalid_size)"
      using 4 by (simp add: packet_length_v0_def Let_def)
    show ?thesis
    proof (cases "sint ?f > 0 \<and> sint ?f < 0x7F")
      case True
      then have f: "0 < unat ?f" "unat ?f < 0x7F" using sint_byte_pos [of ?f] by linarith+
      then show ?thesis using True len f 4 sint_shift2 [of "ucast ?f"] by (intro that(4) [of "unat ?f"]) simp_all
    next
      case False
      have "packet_length_v0 bs = invalid_size" using len unfolding if_not_P [OF False] .
      then show ?thesis by (rule that(2))
    qed
  qed
qed

lemma packet_length_vd_cases:
  obtains "packet_length_vd bs = unknown_size" "length bs < 4"
  | "packet_length_vd bs = invalid_size" "4 \<le> length bs"
  | n where "packet_length_vd bs = int n" "8 \<le> n" "n < 2 ^ 26" "4 \<le> length bs"
proof (cases "length bs < 4")
  case True
  then show ?thesis using that(1) by (simp add: packet_length_vd_def)
next
  case False
  define v where "v = le32 (bs ! 0) (bs ! 1) (bs ! 2) (bs ! 3) + 4"
  have len: "packet_length_vd bs = (if 8 \<le> v \<and> v < word_of_int packet_size_max then sint v else invalid_size)"
    using False by (simp add: packet_length_vd_def v_def Let_def)
  show ?thesis
  proof (cases "8 \<le> v \<and> v < word_of_int packet_size_max")
    case True
    then have "8 \<le> unat v" "unat v < 2 ^ 26"
      by (simp_all add: word_le_nat_alt word_less_nat_alt packet_size_max_def)
    then show ?thesis
      using True len False sint_eq_unat [of v] by (intro that(3) [of "unat v"]) simp_all
  next
    case False
    have "packet_length_vd bs = invalid_size" using len unfolding if_not_P [OF False] .
    then show ?thesis using that(2) \<open>\<not> length bs < 4\<close> by simp
  qed
qed

lemmas size_simps = unknown_size_def invalid_size_def packet_size_max_def

lemma packet_length_v0_append:
  assumes "packet_length_v0 bs \<noteq> unknown_size"
  shows "packet_length_v0 (bs @ cs) = packet_length_v0 bs \<and> (bs @ cs) ! 0 = bs ! 0"
proof -
  have ne: "bs \<noteq> []" using assms by (auto simp: packet_length_v0_def)
  then have hd: "(bs @ cs) ! 0 = bs ! 0" by (simp add: nth_append)
  show ?thesis
  proof (cases "bs ! 0 = 0x7F")
    case True
    then have "4 \<le> length bs" using assms ne by (auto simp: packet_length_v0_def Let_def split: if_splits)
    then show ?thesis using True ne hd by (simp add: packet_length_v0_def nth_append)
  next
    case False
    then show ?thesis using ne hd by (simp add: packet_length_v0_def)
  qed
qed

lemma packet_length_v0_long: "4 \<le> length bs \<Longrightarrow> packet_length_v0 bs \<noteq> unknown_size"
proof (cases rule: packet_length_v0_cases [of bs])
  case 1
  assume "4 \<le> length bs"
  moreover have "sint (push_bit 2 (le24 (bs ! 1) (bs ! 2) (bs ! 3))) + 4 \<noteq> unknown_size"
    unfolding sint_shift2 [OF unat_le24] size_simps by linarith
  moreover have "sint (push_bit 2 (ucast (bs ! 0) :: 32 word)) + 1 \<noteq> unknown_size"
  proof -
    have "unat (ucast (bs ! 0) :: 32 word) < 2 ^ 24" using unat_byte_less [of "bs ! 0"] by simp
    from sint_shift2 [OF this] show ?thesis unfolding size_simps by linarith
  qed
  ultimately show ?thesis using 1 by (auto simp: packet_length_v0_def Let_def size_simps split: if_splits)
qed (simp_all add: size_simps)

interpretation v0: packet_framing packet_length_v0 "size_length Version0"
proof
  show "packet_length_v0 [] = unknown_size" by (simp add: packet_length_v0_def)
  fix bs cs :: bytes
  show "packet_length_v0 bs = unknown_size \<or> packet_length_v0 bs = invalid_size
      \<or> int (size_length Version0 bs) + 4 \<le> packet_length_v0 bs \<and> packet_length_v0 bs \<le> packet_size_max"
    by (cases rule: packet_length_v0_cases [of bs]) (simp_all add: size_simps)
  show "packet_length_v0 (bs @ cs) = packet_length_v0 bs \<and> size_length Version0 (bs @ cs) = size_length Version0 bs"
    if "packet_length_v0 bs \<noteq> unknown_size"
    using packet_length_v0_append [OF that, of cs] by simp
  show "packet_length_v0 bs \<noteq> unknown_size" if "4 \<le> length bs" using that by (rule packet_length_v0_long)
qed

interpretation vd: packet_framing packet_length_vd "\<lambda>_. 4"
proof
  show "packet_length_vd [] = unknown_size" by (simp add: packet_length_vd_def)
  fix bs cs :: bytes
  show "packet_length_vd bs = unknown_size \<or> packet_length_vd bs = invalid_size
      \<or> int 4 + 4 \<le> packet_length_vd bs \<and> packet_length_vd bs \<le> packet_size_max"
    by (cases rule: packet_length_vd_cases [of bs]) (simp_all add: size_simps)
  show "packet_length_vd (bs @ cs) = packet_length_vd bs \<and> (4::nat) = 4" if "packet_length_vd bs \<noteq> unknown_size"
    using that by (auto simp: packet_length_vd_def nth_append split: if_splits)
  show "packet_length_vd bs \<noteq> unknown_size" if "4 \<le> length bs"
    using that by (cases rule: packet_length_vd_cases [of bs]) (simp_all add: size_simps)
qed

lemma protocol_cases [case_names V0 VD]:
  obtains "packet_length p = packet_length_v0" "size_length p = size_length Version0"
    "finalize_packet r fill p = finalize_v0" "\<not> supports_arbitrary_length p"
  | "packet_length p = packet_length_vd" "size_length p = (\<lambda>_. 4)"
    "finalize_packet r fill p = finalize_vd r fill" "supports_arbitrary_length p"
  by (cases p) (auto simp: fun_eq_iff)

text \<open>Whichever version was created, its framing obeys the laws.\<close>

interpretation tcp: packet_framing "packet_length p" "size_length p" for p
  by (rule protocol_cases [where p = p]) (simp_all add: v0.packet_framing_axioms vd.packet_framing_axioms)

section \<open>Properties\<close>

lemma ints_size_unat: "n < 2 ^ 32 \<Longrightarrow> unat (of_nat n :: 32 word) = n"
  by (simp add: unat_of_nat take_bit_nat_eq_self)

lemma finalize_v0_small:
  assumes "0 < length ws" and "length ws < 0x7F"
  shows "finalize_v0 (a # b # ws) = Some (ucast (of_nat (length ws) :: 32 word) # ints_bytes ws)"
proof -
  have u: "unat (of_nat (length ws) :: 32 word) = length ws" using assms by (intro ints_size_unat) simp
  have lt: "(of_nat (length ws) :: 32 word) < 0x7F" using u assms by (simp add: word_less_nat_alt)
  have "(ints_bytes (a # b # ws))[7 := x] = le32_bytes a @ take 3 (le32_bytes b) @ x # ints_bytes ws" for x
    by (simp add: le32_bytes_def eval_nat_numeral)
  then show ?thesis
    using assms u lt by (auto simp: finalize_v0_def Let_def bytes_at_def)
qed

lemma finalize_v0_large:
  assumes "0x7F \<le> length ws" and "length ws \<le> 0x1000000"
  shows "finalize_v0 (a # b # ws) =
    Some (0x7F # ucast (of_nat (length ws) AND 0xFF :: 32 word)
       # ucast (drop_bit 8 (of_nat (length ws)) AND 0xFF :: 32 word)
       # ucast (drop_bit 16 (of_nat (length ws)) AND 0xFF :: 32 word) # ints_bytes ws)"
proof -
  have u: "unat (of_nat (length ws) :: 32 word) = length ws" using assms by (intro ints_size_unat) simp
  have lt: "\<not> (of_nat (length ws) :: 32 word) < 0x7F" using u assms by (simp add: word_less_nat_alt)
  have "(ints_bytes (a # b # ws))[4 := x, 5 := y, 6 := z, 7 := t] = le32_bytes a @ [x, y, z, t] @ ints_bytes ws" for x y z t
    by (simp add: le32_bytes_def eval_nat_numeral)
  then show ?thesis
    using assms u lt by (auto simp: finalize_v0_def Let_def bytes_at_def)
qed

lemma finalize_v0_read:
  assumes "ws \<noteq> []" and "length ws \<le> 0xFFFFFF"
  obtains bs where "finalize_v0 (a # b # ws) = Some bs"
    and "\<And>rest. packet_length_v0 (bs @ rest) = int (length bs)"
    and "drop (size_length Version0 bs) bs = ints_bytes ws"
proof (cases "length ws < 0x7F")
  case True
  let ?x = "ucast (of_nat (length ws) :: 32 word) :: byte"
  have u: "unat ?x = length ws" using True by (simp add: unsigned_ucast_eq unsigned_of_nat take_bit_nat_eq_self)
  have x: "?x \<noteq> 0x7F" using u True by (auto simp: word_unat_eq_iff)
  have s: "sint ?x = int (length ws)" using u sint_byte_small [of ?x] True by simp
  have l: "sint (push_bit 2 (ucast ?x :: 32 word)) = 4 * int (length ws)"
    using sint_shift2 [of "ucast ?x"] True u by simp
  have "packet_length_v0 ((?x # ints_bytes ws) @ rest) = int (length (?x # ints_bytes ws))" for rest
    using assms True x s l by (simp add: packet_length_v0_def Let_def)
  then show ?thesis
    using True x assms finalize_v0_small [of ws a b] by (intro that [of "?x # ints_bytes ws"]) simp_all
next
  case False
  let ?n = "of_nat (length ws) :: 32 word"
  have u: "unat ?n = length ws" using assms by (intro ints_size_unat) simp
  have n: "le24 (ucast (?n AND 0xFF)) (ucast (drop_bit 8 ?n AND 0xFF)) (ucast (drop_bit 16 ?n AND 0xFF)) = ?n"
    using u assms by (intro le24_of_word) simp
  have ge: "0x7F \<le> ?n" using u False by (simp add: word_le_nat_alt)
  have "sint (push_bit 2 ?n) = 4 * int (length ws)" using sint_shift2 [of ?n] u assms by simp
  then show ?thesis
    using assms False n ge finalize_v0_large [of ws a b]
    by (intro that [OF finalize_v0_large [of ws a b]]) (simp_all add: packet_length_v0_def)
qed

lemma push_padding_extends:
  "padding \<le> added + 4 * n \<Longrightarrow>
     \<exists>ext. push_padding fill n added padding buf = buf @ ext \<and> padding \<le> added + 4 * length ext"
proof (induction n arbitrary: added buf)
  case 0
  then show ?case by simp
next
  case (Suc n)
  show ?case
  proof (cases "added < padding")
    case True
    have "\<exists>ext. push_padding fill n (added + 4) padding (buf @ [fill (added div 4)])
        = (buf @ [fill (added div 4)]) @ ext \<and> padding \<le> added + 4 + 4 * length ext"
      using Suc.prems by (intro Suc.IH) simp
    then obtain ext where "push_padding fill n (added + 4) padding (buf @ [fill (added div 4)])
        = (buf @ [fill (added div 4)]) @ ext" "padding \<le> added + 4 + 4 * length ext" by blast
    then show ?thesis using True by (intro exI [of _ "fill (added div 4) # ext"]) simp
  next
    case False
    then show ?thesis by (intro exI [of _ "[]"]) simp
  qed
qed

lemma padding_less: "unat ((r :: 32 word) AND 0x0F) < 16"
proof -
  have "(0x0F :: 32 word) = mask 4" by (simp add: mask_eq_exp_minus_1)
  then have "r AND 0x0F = take_bit 4 r" by (simp add: take_bit_eq_mask)
  then show ?thesis using take_bit_nat_less_exp [of 4 "unat r"] by (simp add: unsigned_take_bit_eq)
qed

lemma finalize_vd_eq:
  assumes "ws \<noteq> []" and "length ws \<le> 0x1000000"
  obtains pad where "length pad = unat (r AND 0x0F)"
    and "finalize_vd r fill (a # b # ws) =
      Some (le32_bytes (of_nat (4 * length ws + length pad)) @ ints_bytes ws @ pad)"
proof -
  let ?p = "unat (r AND 0x0F)" and ?n = "of_nat (4 * length ws + unat (r AND 0x0F)) :: 32 word"
  have u: "unat (of_nat (length ws) :: 32 word) = length ws" using assms by (intro ints_size_unat) simp
  obtain ext where ext: "push_padding fill 16 0 ?p (a # ?n # ws) = (a # ?n # ws) @ ext" "?p \<le> 4 * length ext"
    using push_padding_extends [of ?p 0 16 fill "a # ?n # ws"] padding_less [of r] by auto
  have "bytes_at 4 (4 + (4 * length ws + ?p)) (ints_bytes (a # ?n # ws @ ext))
      = le32_bytes ?n @ ints_bytes ws @ take ?p (ints_bytes ext)"
    by (simp add: bytes_at_def)
  then have "finalize_vd r fill (a # b # ws) = Some (le32_bytes ?n @ ints_bytes ws @ take ?p (ints_bytes ext))"
    using assms u ext(1) by (auto simp: finalize_vd_def Let_def mult.commute)
  then show ?thesis using ext(2) by (intro that [of "take ?p (ints_bytes ext)"]) simp_all
qed

lemma finalize_vd_read:
  assumes "ws \<noteq> []" and "length ws \<le> 0xFFFFFB"
  obtains bs pad where "finalize_vd r fill (a # b # ws) = Some bs" "length pad < 16"
    and "\<And>rest. packet_length_vd (bs @ rest) = int (length bs)"
    and "drop 4 bs = ints_bytes ws @ pad"
proof -
  obtain pad where pad: "length pad = unat (r AND 0x0F)"
    and fin: "finalize_vd r fill (a # b # ws) =
      Some (le32_bytes (of_nat (4 * length ws + length pad)) @ ints_bytes ws @ pad)"
    using finalize_vd_eq [of ws r fill a b] assms by auto
  let ?m = "4 * length ws + length pad"
  let ?bs = "le32_bytes (of_nat ?m) @ ints_bytes ws @ pad"
  have m: "4 \<le> ?m" "?m + 4 < 2 ^ 26" using assms pad padding_less [of r] by (cases ws; simp)+
  then have v: "unat ((of_nat ?m :: 32 word) + 4) = ?m + 4"
    using ints_size_unat [of "?m + 4"] by simp
  have "packet_length_vd (?bs @ rest) = int (length ?bs)" for rest
  proof -
    have "packet_length_vd (?bs @ rest) = (if 8 \<le> (of_nat ?m :: 32 word) + 4 \<and> (of_nat ?m :: 32 word) + 4 < word_of_int packet_size_max
        then sint ((of_nat ?m :: 32 word) + 4) else invalid_size)"
      unfolding packet_length_vd_def Let_def by (simp add: le32_bytes_def le32_of_word)
    moreover have "8 \<le> (of_nat ?m :: 32 word) + 4" "(of_nat ?m :: 32 word) + 4 < word_of_int packet_size_max"
      using m v by (simp_all add: word_le_nat_alt word_less_nat_alt packet_size_max_def)
    moreover have "sint ((of_nat ?m :: 32 word) + 4) = int ?m + 4"
    proof -
      have "unat ((of_nat ?m :: 32 word) + 4) < 2 ^ 31" using m v by simp
      from sint_eq_unat [OF this] show ?thesis unfolding v by simp
    qed
    ultimately show ?thesis by simp
  qed
  then show ?thesis using fin pad padding_less [of r] by (intro that [of ?bs pad]) simp_all
qed

lemma frame_roundtrip:
  assumes "ws \<noteq> []" and "length ws \<le> (if supports_arbitrary_length p then 0xFFFFFB else 0xFFFFFF)"
  shows "\<exists>bs pad. finalize_packet r fill p (a # b # ws) = Some bs
    \<and> packet_length p (bs @ rest) = int (length bs)
    \<and> read_packet p (bs @ rest) = Some (ints_bytes ws @ pad)
    \<and> take (length ws) (bytes_ints (ints_bytes ws @ pad)) = ws
    \<and> length pad < 16 \<and> (\<not> supports_arbitrary_length p \<longrightarrow> pad = [])"
proof -
  have ok: "\<exists>bs pad. finalize_packet r fill p (a # b # ws) = Some bs \<and> length pad < 16
      \<and> (\<not> supports_arbitrary_length p \<longrightarrow> pad = [])
      \<and> packet_length p (bs @ rest) = int (length bs) \<and> packet_length p bs = int (length bs)
      \<and> drop (size_length p bs) bs = ints_bytes ws @ pad"
  proof (rule protocol_cases [of p r fill])
    assume p: "packet_length p = packet_length_v0" "size_length p = size_length Version0"
      "finalize_packet r fill p = finalize_v0" "\<not> supports_arbitrary_length p"
    have le: "length ws \<le> 0xFFFFFF" using assms(2) p(4) by simp
    obtain bs where bs: "finalize_v0 (a # b # ws) = Some bs"
      "\<And>rest. packet_length_v0 (bs @ rest) = int (length bs)" "drop (size_length Version0 bs) bs = ints_bytes ws"
      by (rule finalize_v0_read [OF assms(1) le, of a b], rule that, assumption+)
    then show ?thesis using p bs(2) [of "[]"] by (intro exI [of _ bs] exI [of _ "[]"]) simp
  next
    assume p: "packet_length p = packet_length_vd" "size_length p = (\<lambda>_. 4)"
      "finalize_packet r fill p = finalize_vd r fill" "supports_arbitrary_length p"
    have le: "length ws \<le> 0xFFFFFB" using assms(2) p(4) by simp
    obtain bs pad where bs: "finalize_vd r fill (a # b # ws) = Some bs" "length pad < 16"
      "\<And>rest. packet_length_vd (bs @ rest) = int (length bs)" "drop 4 bs = ints_bytes ws @ pad"
      by (rule finalize_vd_read [OF assms(1) le, of r fill a b], rule that, assumption+)
    then show ?thesis using p bs(3) [of "[]"] by (intro exI [of _ bs] exI [of _ pad]) simp
  qed
  then obtain bs pad where bs: "finalize_packet r fill p (a # b # ws) = Some bs" "length pad < 16"
    "\<not> supports_arbitrary_length p \<longrightarrow> pad = []" "packet_length p (bs @ rest) = int (length bs)"
    "packet_length p bs = int (length bs)" "drop (size_length p bs) bs = ints_bytes ws @ pad" by blast
  have "size_length p (bs @ rest) = size_length p bs" "size_length p bs \<le> length bs"
    using tcp.len_append [of p bs rest] tcp.len_cases [of p bs] bs(5) by (simp_all add: size_simps)
  moreover from this have "bytes_at (size_length p bs) (length bs - size_length p bs) (bs @ rest) = drop (size_length p bs) bs"
    by (simp add: bytes_at_def)
  ultimately have "read_packet p (bs @ rest) = Some (ints_bytes ws @ pad)"
    using bs(4,6) by (simp add: read_packet_def size_simps Let_def)
  then show ?thesis using bs by (simp add: bytes_ints_ints_bytes)
qed

text \<open>C23.  Framing round trip: a packet written by any version of the protocol is read back from the
  front of whatever follows it - its length is known and exact, and its content is the integers that
  were sent, followed by fewer than 16 padding bytes, and by none where the version does not pad.\<close>

theorem tcp_frame_roundtrip:
  assumes "ws \<noteq> []" and "length ws \<le> (if supports_arbitrary_length p then 0xFFFFFB else 0xFFFFFF)"
  shows "\<exists>bs pad. finalize_packet r fill p (a # b # ws) = Some bs
    \<and> packet_length p (bs @ rest) = int (length bs)
    \<and> read_packet p (bs @ rest) = Some (ints_bytes ws @ pad)
    \<and> take (length ws) (bytes_ints (ints_bytes ws @ pad)) = ws
    \<and> length pad < 16 \<and> (\<not> supports_arbitrary_length p \<longrightarrow> pad = [])"
  using frame_roundtrip [OF assms] by blast

theorem tcp_frame_roundtrip_witness:
  "\<exists>bs pad. finalize_packet 5 (\<lambda>_. 7) (VersionD []) [0, 0, 1, 2] = Some bs
    \<and> read_packet (VersionD []) (bs @ [9]) = Some (ints_bytes [1, 2] @ pad)"
  using tcp_frame_roundtrip [of "[1, 2]" "VersionD []" 5 "\<lambda>_. 7" 0 0 "[9]"] by auto

text \<open>The largest packet that \<open>finalizePacket\<close> accepts does not fit the three bytes of its length: it is
  written with the length zero, and no reader accepts it.\<close>

theorem finalize_v0_largest_unreadable:
  assumes "length ws = 0x1000000"
  shows "\<exists>bs. finalize_v0 (a # b # ws) = Some bs \<and> packet_length_v0 bs = invalid_size"
proof -
  let ?n = "of_nat (length ws) :: 32 word"
  have "?n = 0x1000000" using assms by simp
  then have "finalize_v0 (a # b # ws) = Some (0x7F # 0 # 0 # 0 # ints_bytes ws)"
    using finalize_v0_large [of ws a b] assms by simp
  then show ?thesis by (intro exI conjI) (auto simp: packet_length_v0_def le24_def)
qed

theorem finalize_v0_largest_unreadable_witness:
  "\<exists>bs. finalize_v0 (0 # 0 # replicate 0x1000000 1) = Some bs \<and> packet_length_v0 bs = invalid_size"
  by (rule finalize_v0_largest_unreadable) (rule length_replicate)

end
