(* ===== verification/Tcp_Connection.thy ===== *)
theory Tcp_Connection
  imports Tcp_Protocol
begin

text \<open>
  \<open>TcpConnection\<close> (\<open>mtproto/connection_tcp.cpp\<close>): the receiving side with its two buffers
  (\<open>ensureAvailableInBuffer\<close>, \<open>socketRead\<close>), the handling of a packet (\<open>parsePacket\<close>,
  \<open>socketPacket\<close>) and the start prefix of the sending side (\<open>prepareConnectionStartPrefix\<close>,
  \<open>sendData\<close>).  Buffers are lists that are written in place, so a span is a position in them.
  Arguments stand for code outside: the stream cipher (\<open>crypt\<close>, the state holds key and counter), the
  parser of the fake handshake reply (\<open>pq\<close>), the hash, and the reaction of the owner to a signal
  (\<open>keeps\<close>: whether the socket is still there and connected afterwards).  A failed \<open>Expects\<close>, \<open>Assert\<close>
  or span bound is \<open>None\<close>; the signals fired are returned in their order.
\<close>

section \<open>Packets\<close>

definition error_code_other :: int where "error_code_other = - 499"
definition small_buffer_size :: nat where "small_buffer_size = 256 * 1024"
definition min_packet_buffer :: nat where "min_packet_buffer = 256"

datatype conn_status = Waiting | Ready | Finished
datatype conn_event = ConnError int | ConnConnected | ConnReceivedData | ConnReceivedSome

record 'n tcp_session =
  sess_protocol :: tcp_protocol
  sess_nonce :: 'n
  sess_status :: conn_status
  sess_received :: "32 word list list"
  sess_alive :: bool

type_synonym 'a emits = "'a \<times> conn_event list"

definition session_emit :: "(conn_event \<Rightarrow> bool) \<Rightarrow> conn_event \<Rightarrow> 'n tcp_session \<Rightarrow> 'n tcp_session emits" where
  "session_emit keeps e s = (s\<lparr> sess_alive := sess_alive s \<and> keeps e \<rparr>, [e])"

definition parse_packet :: "tcp_protocol \<Rightarrow> bytes \<Rightarrow> 32 word list option" where
  "parse_packet p bs =
     (case read_packet p bs of None \<Rightarrow> None
      | Some packet \<Rightarrow>
          (let ints = bytes_ints packet
           in if ints = [] then None
              else if length ints < 3 then Some [ints ! 0]
              else Some ints))"

definition socket_packet ::
  "(32 word list \<Rightarrow> 'n option) \<Rightarrow> (conn_event \<Rightarrow> bool) \<Rightarrow> bytes \<Rightarrow> 'n tcp_session \<Rightarrow> 'n tcp_session emits option" where
  "socket_packet pq keeps bs s =
     (if \<not> sess_alive s then None
      else case parse_packet (sess_protocol s) bs of None \<Rightarrow> None
      | Some data \<Rightarrow>
          Some (if length data = 1 then
                  (if data ! 0 \<noteq> 0 then session_emit keeps (ConnError (sint (data ! 0))) s else (s, []))
                else if sess_status s = Ready then
                  session_emit keeps ConnReceivedData (s\<lparr> sess_received := sess_received s @ [data] \<rparr>)
                else if sess_status s = Waiting then
                  (case pq data of
                     Some nonce \<Rightarrow>
                       if nonce = sess_nonce s then session_emit keeps ConnConnected (s\<lparr> sess_status := Ready \<rparr>)
                       else session_emit keeps (ConnError error_code_other) s
                   | None \<Rightarrow> session_emit keeps (ConnError error_code_other) s)
                else (s, [])))"

section \<open>Buffers\<close>

record ('n, 's) tcp_connection =
  conn_session :: "'n tcp_session"
  conn_small :: bytes
  conn_large :: bytes
  conn_using_large :: bool
  conn_offset :: nat
  conn_read :: nat
  conn_left :: nat
  conn_receive :: 's

abbreviation conn_alive :: "('n, 's) tcp_connection \<Rightarrow> bool" where
  "conn_alive c \<equiv> sess_alive (conn_session c)"

abbreviation conn_protocol :: "('n, 's) tcp_connection \<Rightarrow> tcp_protocol" where
  "conn_protocol c \<equiv> sess_protocol (conn_session c)"

definition conn_buffer :: "('n, 's) tcp_connection \<Rightarrow> bytes" where
  "conn_buffer c = (if conn_using_large c then conn_large c else conn_small c)"

definition conn_set_buffer :: "bytes \<Rightarrow> ('n, 's) tcp_connection \<Rightarrow> ('n, 's) tcp_connection" where
  "conn_set_buffer b c = (if conn_using_large c then c\<lparr> conn_large := b \<rparr> else c\<lparr> conn_small := b \<rparr>)"

definition conn_emit :: "(conn_event \<Rightarrow> bool) \<Rightarrow> conn_event \<Rightarrow> ('n, 's) tcp_connection \<Rightarrow> ('n, 's) tcp_connection emits" where
  "conn_emit keeps e c = (let (s, es) = session_emit keeps e (conn_session c) in (c\<lparr> conn_session := s \<rparr>, es))"

definition conn_packet ::
  "(32 word list \<Rightarrow> 'n option) \<Rightarrow> (conn_event \<Rightarrow> bool) \<Rightarrow> bytes \<Rightarrow> ('n, 's) tcp_connection
     \<Rightarrow> ('n, 's) tcp_connection emits option" where
  "conn_packet pq keeps bs c =
     map_option (\<lambda>(s, es). (c\<lparr> conn_session := s \<rparr>, es)) (socket_packet pq keeps bs (conn_session c))"

definition ensure_available :: "nat \<Rightarrow> ('n, 's) tcp_connection \<Rightarrow> ('n, 's) tcp_connection option" where
  "ensure_available amount c =
     (if conn_offset c > length (conn_buffer c) then None
      else if length (conn_buffer c) - conn_offset c \<ge> amount then Some c
      else if conn_read c > length (conn_buffer c) - conn_offset c then None
      else
        (let r = bytes_at (conn_offset c) (conn_read c) (conn_buffer c)
         in if amount \<le> length (conn_small c) then
              (if conn_using_large c then
                 (if length r > length (conn_small c) then None
                  else Some (c\<lparr> conn_small := bytes_put 0 r (conn_small c), conn_using_large := False,
                                 conn_large := [], conn_offset := 0 \<rparr>))
               else Some (c\<lparr> conn_small := bytes_put 0 r (conn_small c), conn_offset := 0 \<rparr>))
            else if amount \<le> length (conn_large c) then
              (if \<not> conn_using_large c then None
               else Some (c\<lparr> conn_large := bytes_put 0 r (conn_large c), conn_offset := 0 \<rparr>))
            else if length r > amount then None
            else Some (c\<lparr> conn_large := bytes_put 0 r (replicate amount 0), conn_using_large := True,
                           conn_offset := 0 \<rparr>)))"

section \<open>Reading from the socket\<close>

text \<open>The loop over the packets in the small buffer.  \<open>pos\<close> and \<open>n\<close> are the span \<open>available\<close>: it keeps
  pointing into the small buffer where it was even when \<open>ensureAvailableInBuffer\<close> moves the bytes to
  the beginning.  The result says whether reading goes on.\<close>

function conn_drain ::
  "(32 word list \<Rightarrow> 'n option) \<Rightarrow> (conn_event \<Rightarrow> bool) \<Rightarrow> nat \<Rightarrow> nat \<Rightarrow> ('n, 's) tcp_connection
     \<Rightarrow> (bool \<times> ('n, 's) tcp_connection emits) option" where
  "conn_drain pq keeps pos n c =
     (if conn_using_large c then None
      else if conn_read c = 0 then Some (True, c, [])
      else
        (let size = packet_length (conn_protocol c) (bytes_at pos n (conn_small c))
         in if size = unknown_size then Some (True, c, [])
            else if size \<le> 0 then Some (False, conn_emit keeps (ConnError error_code_other) c)
            else if int n \<ge> size then
              (case conn_packet pq keeps (bytes_at pos (nat size) (conn_small c)) c of None \<Rightarrow> None
               | Some (c1, es) \<Rightarrow>
                   if \<not> conn_alive c1 then Some (False, c1, es)
                   else (case ensure_available min_packet_buffer
                       (c1\<lparr> conn_offset := conn_offset c1 + nat size, conn_read := conn_read c1 - nat size \<rparr>) of None \<Rightarrow> None
                     | Some c2 \<Rightarrow> map_option (\<lambda>(go, c3, es3). (go, c3, es @ es3))
                         (conn_drain pq keeps (pos + nat size) (n - nat size) c2)))
            else
              (case ensure_available (nat size) (c\<lparr> conn_left := nat size - n \<rparr>) of None \<Rightarrow> None
               | Some c1 \<Rightarrow> Some (True, conn_emit keeps ConnReceivedSome c1))))"
  by pat_completeness auto

termination
  by (relation "measure (\<lambda>(_, _, _, n, _). n)") auto

declare conn_drain.simps [simp del]

definition conn_read_limit :: "('n, 's) tcp_connection \<Rightarrow> nat" where
  "conn_read_limit c =
     (if conn_left c > 0 then conn_left c else small_buffer_size - conn_offset c - conn_read c)"

definition conn_can_read :: "('n, 's) tcp_connection \<Rightarrow> bool" where
  "conn_can_read c \<longleftrightarrow> conn_read_limit c > 0
     \<and> conn_offset c + conn_read c + conn_read_limit c \<le> length (conn_buffer c)"

text \<open>One turn of the loop, with the bytes that \<open>_socket->read\<close> delivered; the result says whether
  reading goes on.\<close>

definition conn_read_once ::
  "('s \<Rightarrow> bytes \<Rightarrow> bytes \<times> 's) \<Rightarrow> (32 word list \<Rightarrow> 'n option) \<Rightarrow> (conn_event \<Rightarrow> bool) \<Rightarrow> bytes
     \<Rightarrow> ('n, 's) tcp_connection \<Rightarrow> (bool \<times> ('n, 's) tcp_connection emits) option" where
  "conn_read_once crypt pq keeps chunk c =
     (let (plain, st) = crypt (conn_receive c) chunk;
          c1 = conn_set_buffer (bytes_put (conn_offset c + conn_read c) plain (conn_buffer c)) c
                 \<lparr> conn_receive := st, conn_read := conn_read c + length chunk \<rparr>
      in if conn_left c > 0 then
           (if length chunk > conn_left c then None
            else
              (let c2 = c1\<lparr> conn_left := conn_left c - length chunk \<rparr>
               in if conn_left c2 = 0 then
                    (case conn_packet pq keeps (bytes_at (conn_offset c2) (conn_read c2) (conn_buffer c2)) c2 of None \<Rightarrow> None
                     | Some (c3, es) \<Rightarrow>
                         if \<not> conn_alive c3 then Some (False, c3, es)
                         else Some (True, c3\<lparr> conn_using_large := False, conn_large := [],
                                              conn_offset := 0, conn_read := 0 \<rparr>, es))
                  else Some (True, conn_emit keeps ConnReceivedSome c2)))
         else conn_drain pq keeps (conn_offset c1) (conn_read c1) c1)"

text \<open>The loop over the reads; \<open>avail\<close> are the bytes the socket has.\<close>

function conn_read_loop ::
  "('s \<Rightarrow> bytes \<Rightarrow> bytes \<times> 's) \<Rightarrow> (32 word list \<Rightarrow> 'n option) \<Rightarrow> (conn_event \<Rightarrow> bool) \<Rightarrow> bytes
     \<Rightarrow> ('n, 's) tcp_connection \<Rightarrow> ('n, 's) tcp_connection emits option" where
  "conn_read_loop crypt pq keeps avail c =
     (let limit = conn_read_limit c
      in if \<not> conn_can_read c then None
         else if avail = [] then Some (c, [])
         else
           (case conn_read_once crypt pq keeps (take limit avail) c of None \<Rightarrow> None
            | Some (go, c1, es) \<Rightarrow>
                if go \<and> conn_alive c1 \<and> drop limit avail \<noteq> [] then
                  map_option (\<lambda>(c2, es2). (c2, es @ es2)) (conn_read_loop crypt pq keeps (drop limit avail) c1)
                else Some (c1, es)))"
  by pat_completeness auto

termination
  by (relation "measure (\<lambda>(_, _, _, avail, _). length avail)") (auto simp: conn_can_read_def)

declare conn_read_loop.simps [simp del]

datatype socket_input = SocketHas bytes | SocketFails

definition socket_read ::
  "('s \<Rightarrow> bytes \<Rightarrow> bytes \<times> 's) \<Rightarrow> (32 word list \<Rightarrow> 'n option) \<Rightarrow> (conn_event \<Rightarrow> bool) \<Rightarrow> socket_input
     \<Rightarrow> ('n, 's) tcp_connection \<Rightarrow> ('n, 's) tcp_connection emits option" where
  "socket_read crypt pq keeps inp c =
     (if \<not> (conn_left c > 0 \<or> \<not> conn_using_large c) then None
      else if \<not> conn_alive c then Some (conn_emit keeps (ConnError error_code_other) c)
      else
        (let c1 = (if conn_small c = [] then c\<lparr> conn_small := replicate small_buffer_size 0 \<rparr> else c)
         in case inp of
              SocketHas avail \<Rightarrow> conn_read_loop crypt pq keeps avail c1
            | SocketFails \<Rightarrow> if \<not> conn_can_read c1 then None else Some (conn_emit keeps (ConnError error_code_other) c1)))"

fun socket_reads ::
  "('s \<Rightarrow> bytes \<Rightarrow> bytes \<times> 's) \<Rightarrow> (32 word list \<Rightarrow> 'n option) \<Rightarrow> (conn_event \<Rightarrow> bool) \<Rightarrow> bytes list
     \<Rightarrow> ('n, 's) tcp_connection \<Rightarrow> ('n, 's) tcp_connection emits option" where
  "socket_reads crypt pq keeps [] c = Some (c, [])"
| "socket_reads crypt pq keeps (chunk # chunks) c =
     (case socket_read crypt pq keeps (SocketHas chunk) c of None \<Rightarrow> None
      | Some (c1, es) \<Rightarrow> map_option (\<lambda>(c2, es2). (c2, es @ es2)) (socket_reads crypt pq keeps chunks c1))"

section \<open>The stream as packets\<close>

text \<open>The specification: the packets of a stream, the bytes of an unfinished packet, and \<open>None\<close> when a
  length is invalid.\<close>

function tcp_split :: "(bytes \<Rightarrow> int) \<Rightarrow> bytes \<Rightarrow> (bytes list \<times> bytes) option" where
  "tcp_split len bs =
     (if bs = [] \<or> len bs = unknown_size then Some ([], bs)
      else if len bs \<le> 0 then None
      else if len bs > int (length bs) then Some ([], bs)
      else map_option (\<lambda>(fs, r). (take (nat (len bs)) bs # fs, r)) (tcp_split len (drop (nat (len bs)) bs)))"
  by pat_completeness auto

termination
  by (relation "measure (\<lambda>(_, bs). length bs)") auto

declare tcp_split.simps [simp del]

fun session_packets ::
  "(32 word list \<Rightarrow> 'n option) \<Rightarrow> (conn_event \<Rightarrow> bool) \<Rightarrow> bytes list \<Rightarrow> 'n tcp_session \<Rightarrow> 'n tcp_session emits option" where
  "session_packets pq keeps [] s = Some (s, [])"
| "session_packets pq keeps (f # fs) s =
     (case socket_packet pq keeps f s of None \<Rightarrow> None
      | Some (s1, es) \<Rightarrow> map_option (\<lambda>(s2, es2). (s2, es @ es2)) (session_packets pq keeps fs s1))"

section \<open>Streams are cut the same way in every chunking\<close>

context packet_framing begin

lemma split_nil [simp]: "tcp_split len [] = Some ([], [])"
  by (simp add: tcp_split.simps)

lemma split_unknown: "len bs = unknown_size \<Longrightarrow> tcp_split len bs = Some ([], bs)"
  by (simp add: tcp_split.simps)

lemma split_short: "len bs > int (length bs) \<Longrightarrow> tcp_split len bs = Some ([], bs)"
  by (subst tcp_split.simps) (auto simp: unknown_size_def)

lemma split_packet:
  assumes "len bs \<noteq> unknown_size" and "0 < len bs" and "len bs \<le> int (length bs)"
  shows "tcp_split len bs =
    map_option (\<lambda>(fs, r). (take (nat (len bs)) bs # fs, r)) (tcp_split len (drop (nat (len bs)) bs))"
  using assms by (subst tcp_split.simps) auto

lemma split_packet_some:
  assumes "len bs \<noteq> unknown_size" and "0 < len bs" and "len bs \<le> int (length bs)"
    and "tcp_split len bs = Some (fs, r)"
  obtains gs where "tcp_split len (drop (nat (len bs)) bs) = Some (gs, r)" "fs = take (nat (len bs)) bs # gs"
proof -
  have "map_option (\<lambda>(fs, r). (take (nat (len bs)) bs # fs, r)) (tcp_split len (drop (nat (len bs)) bs)) = Some (fs, r)"
    using split_packet assms by simp
  then show ?thesis using that by auto
qed

lemma split_invalid: "bs \<noteq> [] \<Longrightarrow> len bs \<noteq> unknown_size \<Longrightarrow> len bs \<le> 0 \<Longrightarrow> tcp_split len bs = None"
  by (subst tcp_split.simps) auto

lemma split_append:
  "tcp_split len (xs @ ys) = Some (fs, r) \<Longrightarrow>
     \<exists>f1 r1 f2. tcp_split len xs = Some (f1, r1) \<and> tcp_split len (r1 @ ys) = Some (f2, r) \<and> fs = f1 @ f2"
proof (induction xs arbitrary: fs rule: length_induct)
  case (1 xs)
  consider "xs = [] \<or> len xs = unknown_size \<or> len xs > int (length xs)"
    | "xs \<noteq> []" "len xs \<noteq> unknown_size" "len xs \<le> int (length xs)" "len xs \<le> 0"
    | "xs \<noteq> []" "len xs \<noteq> unknown_size" "len xs \<le> int (length xs)" "0 < len xs" by linarith
  then show ?case
  proof cases
    case 1
    then have "tcp_split len xs = Some ([], xs)" using split_unknown split_short by auto
    then show ?thesis using \<open>tcp_split len (xs @ ys) = Some (fs, r)\<close> by simp
  next
    case 2
    then have "tcp_split len (xs @ ys) = None"
      using len_append [of xs ys] by (intro split_invalid) auto
    then show ?thesis using \<open>tcp_split len (xs @ ys) = Some (fs, r)\<close> by simp
  next
    case 3
    let ?n = "nat (len xs)"
    have n: "?n \<le> length xs" using 3 by simp
    have len: "len (xs @ ys) = len xs" using len_append 3 by blast
    obtain gs where "tcp_split len (drop ?n (xs @ ys)) = Some (gs, r)" "fs = take ?n (xs @ ys) # gs"
      using split_packet_some [of "xs @ ys" fs r] "1.prems" 3 unfolding len by auto
    then have gs: "tcp_split len (drop ?n xs @ ys) = Some (gs, r)" "fs = take ?n xs # gs" using n by simp_all
    have "length (drop ?n xs) < length xs" using 3 by (cases xs) auto
    then obtain f1 r1 f2 where IH: "tcp_split len (drop ?n xs) = Some (f1, r1)"
      "tcp_split len (r1 @ ys) = Some (f2, r)" "gs = f1 @ f2" using "1.IH" gs(1) by blast
    have "tcp_split len xs = Some (take ?n xs # f1, r1)" using split_packet [of xs] 3 IH(1) by simp
    then show ?thesis using IH gs by auto
  qed
qed

lemma split_rest: "tcp_split len xs = Some (fs, r) \<Longrightarrow> tcp_split len r = Some ([], r)"
proof (induction xs arbitrary: fs rule: length_induct)
  case (1 xs)
  consider "xs = [] \<or> len xs = unknown_size \<or> len xs > int (length xs)"
    | "xs \<noteq> []" "len xs \<noteq> unknown_size" "len xs \<le> int (length xs)" "len xs \<le> 0"
    | "xs \<noteq> []" "len xs \<noteq> unknown_size" "len xs \<le> int (length xs)" "0 < len xs" by linarith
  then show ?case
  proof cases
    case 1
    then have "tcp_split len xs = Some ([], xs)" using split_unknown split_short by auto
    then show ?thesis using \<open>tcp_split len xs = Some (fs, r)\<close> by simp
  next
    case 2
    then show ?thesis using split_invalid [of xs] "1.prems" by simp
  next
    case 3
    obtain gs where "tcp_split len (drop (nat (len xs)) xs) = Some (gs, r)"
      using split_packet_some [of xs fs r] 3 "1.prems" by blast
    moreover have "length (drop (nat (len xs)) xs) < length xs" using 3 by (cases xs) auto
    ultimately show ?thesis using "1.IH" by blast
  qed
qed

end

section \<open>Sessions\<close>

lemma session_emit_simps [simp]:
  "sess_protocol (fst (session_emit keeps e s)) = sess_protocol s"
  "sess_alive (fst (session_emit keeps e s)) \<longleftrightarrow> sess_alive s \<and> keeps e"
  "snd (session_emit keeps e s) = [e]"
  by (simp_all add: session_emit_def)

lemma socket_packet_facts:
  assumes "socket_packet pq keeps f s = Some (s', es)"
  shows "sess_alive s" "sess_protocol s' = sess_protocol s" "ConnReceivedSome \<notin> set es"
  using assms by (auto simp: socket_packet_def session_emit_def Let_def split: if_splits option.splits)

lemma session_packets_facts:
  "session_packets pq keeps fs s = Some (s', es) \<Longrightarrow>
     (sess_alive s' \<longrightarrow> sess_alive s) \<and> sess_protocol s' = sess_protocol s \<and> ConnReceivedSome \<notin> set es"
proof (induction fs arbitrary: s es)
  case (Cons f fs)
  then obtain s1 es1 es2 where "socket_packet pq keeps f s = Some (s1, es1)"
    "session_packets pq keeps fs s1 = Some (s', es2)" "es = es1 @ es2"
    by (auto split: option.splits)
  then show ?case using Cons.IH [of s1 es2] socket_packet_facts [of pq keeps f s s1 es1] by auto
qed simp

lemma session_packets_append:
  "session_packets pq keeps (fs @ gs) s = Some (s', es) \<Longrightarrow>
     \<exists>s1 es1 es2. session_packets pq keeps fs s = Some (s1, es1)
       \<and> session_packets pq keeps gs s1 = Some (s', es2) \<and> es = es1 @ es2"
proof (induction fs arbitrary: s es)
  case (Cons f fs)
  then obtain s1 es1 es2 where "socket_packet pq keeps f s = Some (s1, es1)"
    "session_packets pq keeps (fs @ gs) s1 = Some (s', es2)" "es = es1 @ es2"
    by (auto split: option.splits)
  then show ?case using Cons.IH [of s1 es2] by fastforce
qed simp

section \<open>The buffers hold the bytes not handled yet\<close>

definition conn_pending :: "('n, 's) tcp_connection \<Rightarrow> bytes" where
  "conn_pending c = bytes_at (conn_offset c) (conn_read c) (conn_buffer c)"

definition conn_ok :: "('n, 's) tcp_connection \<Rightarrow> bool" where
  "conn_ok c \<longleftrightarrow> conn_alive c \<and> length (conn_small c) = small_buffer_size
     \<and> (\<not> conn_using_large c \<longrightarrow> conn_large c = [])
     \<and> (if conn_left c = 0
        then \<not> conn_using_large c \<and> conn_offset c + min_packet_buffer \<le> small_buffer_size
          \<and> packet_length (conn_protocol c) (conn_pending c) = unknown_size \<and> conn_read c < 4
        else packet_length (conn_protocol c) (conn_pending c) = int (conn_read c + conn_left c)
          \<and> conn_offset c + conn_read c + conn_left c \<le> length (conn_buffer c))"

lemma length_pending: "conn_offset c + conn_read c \<le> length (conn_buffer c) \<Longrightarrow> length (conn_pending c) = conn_read c"
  by (simp add: conn_pending_def length_bytes_at)

text \<open>What stays the same when the bytes are moved to make room.\<close>

definition same_conn :: "('n, 's) tcp_connection \<Rightarrow> ('n, 's) tcp_connection \<Rightarrow> bool" where
  "same_conn c c' \<longleftrightarrow> conn_session c' = conn_session c \<and> conn_read c' = conn_read c \<and> conn_left c' = conn_left c
     \<and> conn_receive c' = conn_receive c \<and> length (conn_small c') = length (conn_small c)
     \<and> conn_pending c' = conn_pending c \<and> (\<not> conn_using_large c' \<longrightarrow> conn_large c' = [])"

lemma same_conn_refl: "(\<not> conn_using_large c \<longrightarrow> conn_large c = []) \<Longrightarrow> same_conn c c"
  by (simp add: same_conn_def)

lemma bytes_at_put_0: "length d \<le> length b \<Longrightarrow> bytes_at 0 (length d) (bytes_put 0 d b) = d"
  using bytes_at_put [of 0 d b] by simp

lemma ensure_available_ok:
  assumes c: "\<not> conn_using_large c" "conn_large c = []" "conn_offset c + conn_read c \<le> length (conn_small c)"
    and amount: "conn_read c \<le> amount" "0 < amount"
  obtains c' where "ensure_available amount c = Some c'" "same_conn c c'"
    "conn_offset c' + amount \<le> length (conn_buffer c')"
    "amount \<le> length (conn_small c) \<Longrightarrow> \<not> conn_using_large c'"
proof -
  have buf: "conn_buffer c = conn_small c" using c(1) by (simp add: conn_buffer_def)
  define d where "d = bytes_at (conn_offset c) (conn_read c) (conn_small c)"
  have d: "length d = conn_read c" "conn_pending c = d" using c(3) buf by (simp_all add: d_def length_bytes_at conn_pending_def)
  consider "amount \<le> length (conn_small c) - conn_offset c"
    | "\<not> amount \<le> length (conn_small c) - conn_offset c" "amount \<le> length (conn_small c)"
    | "\<not> amount \<le> length (conn_small c)" by linarith
  then show ?thesis
  proof cases
    case 1
    then show ?thesis
      using c amount buf by (intro that [of c]) (auto simp: ensure_available_def same_conn_refl)
  next
    case 2
    let ?c = "c\<lparr> conn_small := bytes_put 0 d (conn_small c), conn_offset := 0 \<rparr>"
    have "bytes_at 0 (conn_read c) (bytes_put 0 d (conn_small c)) = d"
      using bytes_at_put_0 [of d "conn_small c"] d c(3) by simp
    then have "same_conn c ?c" using d c by (simp add: same_conn_def conn_pending_def conn_buffer_def)
    moreover have "ensure_available amount c = Some ?c"
      using 2 c buf by (simp add: ensure_available_def d_def Let_def)
    ultimately show ?thesis using 2 c d by (intro that [of ?c]) (simp_all add: conn_buffer_def)
  next
    case 3
    let ?b = "bytes_put 0 d (replicate amount 0)"
    let ?c = "c\<lparr> conn_large := ?b, conn_using_large := True, conn_offset := 0 \<rparr>"
    have "bytes_at 0 (conn_read c) ?b = d"
      using bytes_at_put_0 [of d "replicate amount 0"] d amount by simp
    then have "same_conn c ?c" using d c by (simp add: same_conn_def conn_pending_def conn_buffer_def)
    moreover have "ensure_available amount c = Some ?c"
      using 3 c buf amount d(1) by (simp add: ensure_available_def d_def Let_def)
    ultimately show ?thesis using 3 c d amount by (intro that [of ?c]) (simp_all add: conn_buffer_def)
  qed
qed

text \<open>Making room after a packet: the bytes stay readable at their old place too.\<close>

lemma ensure_available_min:
  assumes c: "\<not> conn_using_large c" "conn_large c = []" "length (conn_small c) = small_buffer_size"
    "conn_offset c + conn_read c \<le> small_buffer_size" "pos + conn_read c \<le> small_buffer_size"
    and at: "bytes_at pos (conn_read c) (conn_small c) = bytes_at (conn_offset c) (conn_read c) (conn_small c)"
    and pos: "pos = conn_offset c \<or> conn_offset c + conn_read c < min_packet_buffer"
  obtains c' where "ensure_available min_packet_buffer c = Some c'" "same_conn c c'" "\<not> conn_using_large c'"
    "conn_offset c' + min_packet_buffer \<le> small_buffer_size"
    "bytes_at pos (conn_read c') (conn_small c') = conn_pending c'"
    "pos = conn_offset c' \<or> conn_offset c' + conn_read c' < min_packet_buffer"
proof -
  have buf: "conn_buffer c = conn_small c" using c(1) by (simp add: conn_buffer_def)
  define d where "d = bytes_at (conn_offset c) (conn_read c) (conn_small c)"
  have d: "length d = conn_read c" "conn_pending c = d" using c buf by (simp_all add: d_def length_bytes_at conn_pending_def)
  show ?thesis
  proof (cases "min_packet_buffer \<le> small_buffer_size - conn_offset c")
    case True
    then have "ensure_available min_packet_buffer c = Some c" using c buf by (auto simp: ensure_available_def)
    then show ?thesis
      using True c d at pos by (intro that [of c]) (auto simp: same_conn_refl d_def min_packet_buffer_def)
  next
    case False
    let ?c = "c\<lparr> conn_small := bytes_put 0 d (conn_small c), conn_offset := 0 \<rparr>"
    have le: "min_packet_buffer \<le> small_buffer_size" by (simp add: min_packet_buffer_def small_buffer_size_def)
    have far: "small_buffer_size < conn_offset c + min_packet_buffer" using False by linarith
    then have p: "pos = conn_offset c" "conn_read c < min_packet_buffer"
      using pos c(4) by (auto simp: min_packet_buffer_def small_buffer_size_def)
    have new: "bytes_at 0 (conn_read c) (bytes_put 0 d (conn_small c)) = d"
      using bytes_at_put_0 [of d "conn_small c"] d c(3,4) by simp
    have old: "bytes_at pos (conn_read c) (bytes_put 0 d (conn_small c)) = d"
      using far p d c(3) by (subst bytes_at_put_after) (simp_all add: d_def min_packet_buffer_def small_buffer_size_def)
    have "same_conn c ?c" using d c new by (simp add: same_conn_def conn_pending_def conn_buffer_def)
    moreover have "ensure_available min_packet_buffer c = Some ?c"
      using False c buf le by (simp add: ensure_available_def d_def Let_def)
    ultimately show ?thesis
      using c(1) le new old p(2) by (intro that [of ?c]) (simp_all add: conn_pending_def conn_buffer_def)
  qed
qed

definition quiet :: "conn_event list \<Rightarrow> conn_event list" where
  "quiet es = filter (\<lambda>e. e \<noteq> ConnReceivedSome) es"

lemma quiet_simps [simp]:
  "quiet [] = []" "quiet (es @ es') = quiet es @ quiet es'" "quiet [ConnReceivedSome] = []"
  "ConnReceivedSome \<notin> set es \<Longrightarrow> quiet es = es"
  by (auto simp: quiet_def filter_id_conv)

lemma conn_packet_eq:
  "socket_packet pq keeps f (conn_session c) = Some (s, es) \<Longrightarrow>
     conn_packet pq keeps f c = Some (c\<lparr> conn_session := s \<rparr>, es)"
  by (simp add: conn_packet_def)

lemma conn_emit_some:
  "keeps ConnReceivedSome \<Longrightarrow> conn_emit keeps ConnReceivedSome c
     = (c\<lparr> conn_session := (conn_session c)\<lparr> sess_alive := sess_alive (conn_session c) \<rparr> \<rparr>, [ConnReceivedSome])"
  by (simp add: conn_emit_def session_emit_def)

lemma conn_emit_keeps:
  "keeps ConnReceivedSome \<Longrightarrow> conn_emit keeps ConnReceivedSome c = (c, [ConnReceivedSome])"
  by (simp add: conn_emit_some)

lemma drain_ok:
  assumes "\<not> conn_using_large c" and "conn_large c = []" and "length (conn_small c) = small_buffer_size"
    and "conn_left c = 0" and "n = conn_read c"
    and "conn_offset c + conn_read c \<le> small_buffer_size" and "pos + conn_read c \<le> small_buffer_size"
    and "bytes_at pos (conn_read c) (conn_small c) = conn_pending c"
    and "pos = conn_offset c \<or> conn_offset c + conn_read c < min_packet_buffer"
    and "conn_offset c + min_packet_buffer \<le> small_buffer_size"
    and "tcp_split (packet_length (conn_protocol c)) (conn_pending c) = Some (fs, r)"
    and "session_packets pq keeps fs (conn_session c) = Some (s', es')" and "sess_alive s'"
    and "keeps ConnReceivedSome"
  shows "\<exists>c' es. conn_drain pq keeps pos n c = Some (True, c', es) \<and> conn_ok c'
    \<and> conn_pending c' = r \<and> conn_session c' = s' \<and> quiet es = es' \<and> conn_receive c' = conn_receive c"
  using assms
proof (induction n arbitrary: pos c fs es' rule: less_induct)
  case (less n)
  note c = less.prems
  let ?p = "conn_protocol c" and ?at = "bytes_at pos n (conn_small c)"
  let ?size = "packet_length ?p ?at"
  have buf: "conn_buffer c = conn_small c" using c(1) by (simp add: conn_buffer_def)
  have at: "?at = conn_pending c" using c(5,8) by simp
  have len: "length ?at = n" using c(3,5,7) by (simp add: length_bytes_at)
  have alive: "conn_alive c" using session_packets_facts [OF c(12)] c(13) by blast
  note split = c(11) [folded at]
  consider "n = 0" | "n \<noteq> 0" "?size = unknown_size" | "n \<noteq> 0" "?size \<noteq> unknown_size" "?size \<le> 0"
    | "n \<noteq> 0" "?size \<noteq> unknown_size" "0 < ?size" "?size \<le> int n" | "n \<noteq> 0" "0 < ?size" "int n < ?size"
    by linarith
  then show ?case
  proof cases
    case 1
    then have "conn_drain pq keeps pos n c = Some (True, c, [])" using c(1,5) by (simp add: conn_drain.simps)
    moreover have "fs = []" "r = conn_pending c" using 1 c(5,11) by (simp_all add: conn_pending_def)
    moreover have "conn_ok c"
      using 1 c tcp.len_empty by (simp add: conn_ok_def alive conn_pending_def)
    ultimately show ?thesis using c(12) by simp
  next
    case 2
    then have "conn_drain pq keeps pos n c = Some (True, c, [])"
      using c(1,5) by (simp add: conn_drain.simps Let_def)
    moreover have "fs = []" "r = conn_pending c" using 2(2) c(11) at tcp.split_unknown by simp_all
    moreover have "n < 4" using tcp.len_long [of ?at ?p] 2(2) len by linarith
    ultimately show ?thesis using c 2(2) at by (simp add: conn_ok_def alive)
  next
    case 3
    then have "tcp_split (packet_length ?p) ?at = None" using len by (intro tcp.split_invalid) auto
    then show ?thesis using split by simp
  next
    case 4
    let ?k = "nat ?size"
    have k: "0 < ?k" "?k \<le> n" using 4 by simp_all
    obtain gs where gs: "tcp_split (packet_length ?p) (drop ?k ?at) = Some (gs, r)" "fs = take ?k ?at # gs"
      by (rule tcp.split_packet_some [of ?p ?at fs r]) (use 4 len split in simp_all)
    obtain s1 es1 es2 where s1: "socket_packet pq keeps (take ?k ?at) (conn_session c) = Some (s1, es1)"
      "session_packets pq keeps gs s1 = Some (s', es2)" "es' = es1 @ es2"
      using c(12) unfolding gs(2) by (auto split: option.splits)
    have alive1: "sess_alive s1" using session_packets_facts [OF s1(2)] c(13) by blast
    have prot1: "sess_protocol s1 = ?p" and es1: "ConnReceivedSome \<notin> set es1"
      using socket_packet_facts [OF s1(1)] by auto
    let ?c1 = "c\<lparr> conn_session := s1, conn_offset := conn_offset c + ?k, conn_read := conn_read c - ?k \<rparr>"
    have pend: "conn_pending ?c1 = drop ?k ?at" "bytes_at (pos + ?k) (conn_read ?c1) (conn_small ?c1) = drop ?k ?at"
    proof -
      have "bytes_at (pos + ?k) (n - ?k) (conn_small c) = drop ?k ?at"
        using k(2) by (simp only: drop_bytes_at)
      then show "bytes_at (pos + ?k) (conn_read ?c1) (conn_small ?c1) = drop ?k ?at" using c(5) by simp
      have "drop ?k (conn_pending c) = bytes_at (conn_offset c + ?k) (n - ?k) (conn_small c)"
        unfolding conn_pending_def buf using k(2) c(5) by (simp only: drop_bytes_at)
      then show "conn_pending ?c1 = drop ?k ?at" using at c(1,5) by (simp add: conn_pending_def conn_buffer_def)
    qed
    obtain c2 where c2: "ensure_available min_packet_buffer ?c1 = Some c2" "same_conn ?c1 c2" "\<not> conn_using_large c2"
      "conn_offset c2 + min_packet_buffer \<le> small_buffer_size"
      "bytes_at (pos + ?k) (conn_read c2) (conn_small c2) = conn_pending c2"
      "pos + ?k = conn_offset c2 \<or> conn_offset c2 + conn_read c2 < min_packet_buffer"
    proof (rule ensure_available_min [of ?c1 "pos + ?k"])
      show "bytes_at (pos + ?k) (conn_read ?c1) (conn_small ?c1) = bytes_at (conn_offset ?c1) (conn_read ?c1) (conn_small ?c1)"
        using pend c(1) by (simp add: conn_pending_def conn_buffer_def)
    qed (use c k in \<open>auto\<close>)
    have c2s: "conn_session c2 = s1" "conn_read c2 = n - ?k" "conn_left c2 = 0" "conn_receive c2 = conn_receive c"
      "length (conn_small c2) = small_buffer_size" "conn_pending c2 = drop ?k ?at" "conn_large c2 = []"
      using c2(2,3) c pend by (simp_all add: same_conn_def)
    have "\<exists>c' es. conn_drain pq keeps (pos + ?k) (n - ?k) c2 = Some (True, c', es) \<and> conn_ok c'
        \<and> conn_pending c' = r \<and> conn_session c' = s' \<and> quiet es = es2 \<and> conn_receive c' = conn_receive c2"
    proof (rule less.IH)
      show "conn_offset c2 + conn_read c2 \<le> small_buffer_size"
        using c2(4,6) c2s c(5,6,7) k by (auto simp: min_packet_buffer_def small_buffer_size_def)
      show "n - ?k < n" using k by linarith
      show "pos + ?k + conn_read c2 \<le> small_buffer_size" using c2s(2) c(5,7) k(2) by linarith
      show "tcp_split (packet_length (conn_protocol c2)) (conn_pending c2) = Some (gs, r)"
        unfolding c2s(1,6) prot1 by (rule gs(1))
      show "session_packets pq keeps gs (conn_session c2) = Some (s', es2)" unfolding c2s(1) by (rule s1(2))
      show "n - ?k = conn_read c2" by (rule c2s(2) [symmetric])
    qed (fact c2 c2s c)+
    then obtain c' es where IH: "conn_drain pq keeps (pos + ?k) (n - ?k) c2 = Some (True, c', es)" "conn_ok c'"
      "conn_pending c' = r" "conn_session c' = s'" "quiet es = es2" "conn_receive c' = conn_receive c2" by blast
    have "bytes_at pos ?k (conn_small c) = take ?k ?at" using k by (simp add: take_bytes_at)
    then have "conn_packet pq keeps (bytes_at pos ?k (conn_small c)) c = Some (c\<lparr> conn_session := s1 \<rparr>, es1)"
      using conn_packet_eq [OF s1(1)] by simp
    then have "conn_drain pq keeps pos n c = Some (True, c', es1 @ es)"
      using 4 c(1,5) alive1 c2(1) IH(1) by (subst conn_drain.simps) (simp add: Let_def)
    then show ?thesis using IH c2s es1 s1(3) by simp
  next
    case 5
    let ?c1 = "c\<lparr> conn_left := nat ?size - n \<rparr>"
    have fs: "fs = []" "r = ?at" using tcp.split_short [of ?at ?p] 5(3) len split by simp_all
    have pend1: "conn_pending ?c1 = ?at" unfolding at by (simp add: conn_pending_def conn_buffer_def)
    obtain c2 where c2: "ensure_available (nat ?size) ?c1 = Some c2" "same_conn ?c1 c2"
      "conn_offset c2 + nat ?size \<le> length (conn_buffer c2)"
      by (rule ensure_available_ok [of ?c1 "nat ?size"]) (use c 5 in \<open>auto\<close>)
    have c2s: "conn_session c2 = conn_session c" "conn_read c2 = n" "conn_left c2 = nat ?size - n"
      "conn_pending c2 = ?at" "conn_receive c2 = conn_receive c" "length (conn_small c2) = small_buffer_size"
      "\<not> conn_using_large c2 \<longrightarrow> conn_large c2 = []"
      using c2(2) c pend1 by (simp_all add: same_conn_def)
    have "n < nat ?size" using 5(3) by linarith
    then have "conn_ok c2" unfolding conn_ok_def using c2(3) c2s alive 5 by simp
    moreover have "conn_drain pq keeps pos n c = Some (True, c2, [ConnReceivedSome])"
      using 5 c(1,5,14) c2(1) by (subst conn_drain.simps) (simp add: Let_def conn_emit_keeps unknown_size_def)
    ultimately show ?thesis using fs c2s c(12) by simp
  qed
qed

section \<open>Chunks\<close>

text \<open>The counter mode of the cipher: a stream can be processed in pieces, and keeps its length.\<close>

definition stream_cipher :: "('s \<Rightarrow> bytes \<Rightarrow> bytes \<times> 's) \<Rightarrow> bool" where
  "stream_cipher crypt \<longleftrightarrow>
     (\<forall>s. crypt s [] = ([], s))
   \<and> (\<forall>s xs. length (fst (crypt s xs)) = length xs)
   \<and> (\<forall>s xs ys. crypt s (xs @ ys) =
        (fst (crypt s xs) @ fst (crypt (snd (crypt s xs)) ys), snd (crypt (snd (crypt s xs)) ys)))"

lemma stream_cipher_length: "stream_cipher crypt \<Longrightarrow> length (fst (crypt s xs)) = length xs"
  by (simp add: stream_cipher_def)

lemma stream_cipher_nil: "stream_cipher crypt \<Longrightarrow> crypt s [] = ([], s)"
  by (simp add: stream_cipher_def)

lemma stream_cipher_append:
  "stream_cipher crypt \<Longrightarrow> fst (crypt s (xs @ ys)) = fst (crypt s xs) @ fst (crypt (snd (crypt s xs)) ys)"
  "stream_cipher crypt \<Longrightarrow> snd (crypt s (xs @ ys)) = snd (crypt (snd (crypt s xs)) ys)"
  unfolding stream_cipher_def by simp_all

lemma conn_ok_can_read:
  assumes "conn_ok c"
  shows "conn_can_read c"
proof (cases "conn_left c = 0")
  case True
  then have "conn_offset c + 256 \<le> small_buffer_size" "conn_read c < 4" "\<not> conn_using_large c"
    "length (conn_small c) = small_buffer_size"
    using assms by (simp_all add: conn_ok_def min_packet_buffer_def)
  then show ?thesis using True by (simp add: conn_can_read_def conn_read_limit_def conn_buffer_def)
next
  case False
  then show ?thesis using assms by (simp add: conn_ok_def conn_can_read_def conn_read_limit_def)
qed

lemma bytes_at_write:
  assumes "i + n + length d \<le> length b"
  shows "bytes_at i (n + length d) (bytes_put (i + n) d b) = bytes_at i n b @ d"
  using assms by (simp add: bytes_at_add bytes_at_put bytes_at_put_before)

lemma conn_set_buffer_simps [simp]:
  "conn_session (conn_set_buffer b c) = conn_session c" "conn_using_large (conn_set_buffer b c) = conn_using_large c"
  "conn_offset (conn_set_buffer b c) = conn_offset c" "conn_read (conn_set_buffer b c) = conn_read c"
  "conn_left (conn_set_buffer b c) = conn_left c" "conn_buffer (conn_set_buffer b c) = b"
  "\<not> conn_using_large c \<Longrightarrow> conn_small (conn_set_buffer b c) = b"
  "\<not> conn_using_large c \<Longrightarrow> conn_large (conn_set_buffer b c) = conn_large c"
  "conn_using_large c \<Longrightarrow> conn_small (conn_set_buffer b c) = conn_small c"
  by (simp_all add: conn_set_buffer_def conn_buffer_def)

lemma read_once_left:
  assumes ok: "conn_ok c" and left: "conn_left c > 0" and chunk: "chunk \<noteq> []" "length chunk \<le> conn_left c"
    and crypt: "crypt (conn_receive c) chunk = (plain, st)" "length plain = length chunk"
    and split: "tcp_split (packet_length (conn_protocol c)) (conn_pending c @ plain) = Some (fs, r)"
    and run: "session_packets pq keeps fs (conn_session c) = Some (s', es')" and alive: "sess_alive s'"
    and keeps: "keeps ConnReceivedSome"
  shows "\<exists>c' es. conn_read_once crypt pq keeps chunk c = Some (True, c', es) \<and> conn_ok c'
    \<and> conn_pending c' = r \<and> conn_session c' = s' \<and> quiet es = es' \<and> conn_receive c' = st"
proof -
  let ?p = "conn_protocol c" and ?buf = "bytes_put (conn_offset c + conn_read c) plain (conn_buffer c)"
  have room: "conn_offset c + conn_read c + conn_left c \<le> length (conn_buffer c)"
    and known: "packet_length ?p (conn_pending c) = int (conn_read c + conn_left c)"
    and small: "length (conn_small c) = small_buffer_size"
    and large: "\<not> conn_using_large c \<longrightarrow> conn_large c = []"
    using ok left by (simp_all add: conn_ok_def)
  let ?c2 = "conn_set_buffer ?buf c \<lparr> conn_receive := st, conn_read := conn_read c + length chunk,
    conn_left := conn_left c - length chunk \<rparr>"
  have buf2: "conn_buffer ?c2 = ?buf" by (simp add: conn_set_buffer_def conn_buffer_def)
  have blen: "length ?buf = length (conn_buffer c)" using room crypt(2) chunk(2) by simp
  have small2: "length (conn_small ?c2) = small_buffer_size"
    using small blen by (cases "conn_using_large c") (simp_all add: conn_buffer_def)
  have pend2: "conn_pending ?c2 = conn_pending c @ plain"
    using bytes_at_write [of "conn_offset c" "conn_read c" plain "conn_buffer c"] room chunk(2) crypt(2)
    by (simp add: conn_pending_def buf2)
  have known2: "packet_length ?p (conn_pending c @ plain) = int (conn_read c + conn_left c)"
    using tcp.len_append [of ?p "conn_pending c" plain] known by (simp add: unknown_size_def)
  have plen: "length (conn_pending c @ plain) = conn_read c + length chunk"
    using length_pending [of c] room crypt(2) by simp
  have alive0: "conn_alive c" using ok by (simp add: conn_ok_def)
  show ?thesis
  proof (cases "length chunk = conn_left c")
    case False
    then have "fs = []" "r = conn_pending c @ plain"
      using tcp.split_short [of "conn_pending c @ plain" ?p] known2 plen chunk(2) split by simp_all
    moreover have "conn_read_once crypt pq keeps chunk c = Some (True, ?c2, [ConnReceivedSome])"
      using False left chunk(2) crypt(1) keeps by (simp add: conn_read_once_def Let_def conn_emit_keeps)
    moreover have "conn_ok ?c2"
      unfolding conn_ok_def pend2 buf2 using False chunk(2) known2 room blen small2 large alive0
      by (cases "conn_using_large c") simp_all
    ultimately show ?thesis using run pend2 by simp
  next
    case True
    let ?l = "nat (packet_length ?p (conn_pending c @ plain))"
    have l: "?l = length (conn_pending c @ plain)" using known2 plen True by simp
    obtain gs where gs: "tcp_split (packet_length ?p) (drop ?l (conn_pending c @ plain)) = Some (gs, r)"
      "fs = take ?l (conn_pending c @ plain) # gs"
      by (rule tcp.split_packet_some [of ?p "conn_pending c @ plain" fs r])
         (use known2 plen True left split in \<open>simp_all add: unknown_size_def\<close>)
    then have fs: "fs = [conn_pending c @ plain]" "r = []" unfolding l by simp_all
    then have packet: "socket_packet pq keeps (conn_pending c @ plain) (conn_session c) = Some (s', es')"
      using run by (auto split: option.splits)
    let ?c3 = "?c2\<lparr> conn_session := s', conn_using_large := False, conn_large := [], conn_offset := 0, conn_read := 0 \<rparr>"
    have "bytes_at (conn_offset ?c2) (conn_read ?c2) (conn_buffer ?c2) = conn_pending c @ plain"
      using pend2 by (simp add: conn_pending_def)
    then have "conn_packet pq keeps (bytes_at (conn_offset ?c2) (conn_read ?c2) (conn_buffer ?c2)) ?c2
        = Some (?c2\<lparr> conn_session := s' \<rparr>, es')"
      using conn_packet_eq [of pq keeps "conn_pending c @ plain" ?c2] packet by simp
    then have "conn_read_once crypt pq keeps chunk c = Some (True, ?c3, es')"
      using True left crypt(1) alive by (simp add: conn_read_once_def Let_def)
    moreover have "conn_ok ?c3"
      using small2 alive tcp.len_empty True
      by (simp add: conn_ok_def conn_pending_def min_packet_buffer_def small_buffer_size_def)
    moreover have "ConnReceivedSome \<notin> set es'" using socket_packet_facts [OF packet] by simp
    ultimately show ?thesis using fs by (simp add: conn_pending_def)
  qed
qed

lemma read_once_drain:
  assumes ok: "conn_ok c" and left: "conn_left c = 0" and chunk: "length chunk \<le> conn_read_limit c"
    and crypt: "crypt (conn_receive c) chunk = (plain, st)" "length plain = length chunk"
    and split: "tcp_split (packet_length (conn_protocol c)) (conn_pending c @ plain) = Some (fs, r)"
    and run: "session_packets pq keeps fs (conn_session c) = Some (s', es')" and alive: "sess_alive s'"
    and keeps: "keeps ConnReceivedSome"
  shows "\<exists>c' es. conn_read_once crypt pq keeps chunk c = Some (True, c', es) \<and> conn_ok c'
    \<and> conn_pending c' = r \<and> conn_session c' = s' \<and> quiet es = es' \<and> conn_receive c' = st"
proof -
  let ?buf = "bytes_put (conn_offset c + conn_read c) plain (conn_buffer c)"
  let ?c1 = "conn_set_buffer ?buf c \<lparr> conn_receive := st, conn_read := conn_read c + length chunk \<rparr>"
  have c: "\<not> conn_using_large c" "conn_large c = []" "length (conn_small c) = small_buffer_size"
    "conn_offset c + min_packet_buffer \<le> small_buffer_size" "conn_read c < 4"
    using ok left by (simp_all add: conn_ok_def)
  have room: "conn_offset c + conn_read c + length chunk \<le> small_buffer_size"
    using chunk left c(4,5) by (simp add: conn_read_limit_def min_packet_buffer_def)
  have buf: "conn_buffer c = conn_small c" using c(1) by (simp add: conn_buffer_def)
  have blen: "length ?buf = small_buffer_size" using room crypt(2) c(3) buf by simp
  have small1: "conn_small ?c1 = ?buf" using c(1) by (simp add: conn_set_buffer_def)
  have pend1: "conn_pending ?c1 = conn_pending c @ plain"
    using bytes_at_write [of "conn_offset c" "conn_read c" plain "conn_buffer c"] room crypt(2) c(1,3)
    by (simp add: conn_pending_def conn_buffer_def)
  have at: "bytes_at (conn_offset ?c1) (conn_read ?c1) (conn_small ?c1) = conn_pending ?c1"
    using c(1) by (simp add: conn_pending_def conn_buffer_def)
  have "\<exists>c' es. conn_drain pq keeps (conn_offset ?c1) (conn_read ?c1) ?c1 = Some (True, c', es) \<and> conn_ok c'
    \<and> conn_pending c' = r \<and> conn_session c' = s' \<and> quiet es = es' \<and> conn_receive c' = conn_receive ?c1"
  proof (rule drain_ok [where fs = fs])
    show "tcp_split (packet_length (conn_protocol ?c1)) (conn_pending ?c1) = Some (fs, r)"
      unfolding pend1 using split by simp
    show "length (conn_small ?c1) = small_buffer_size" unfolding small1 by (rule blen)
    show "bytes_at (conn_offset ?c1) (conn_read ?c1) (conn_small ?c1) = conn_pending ?c1" by (rule at)
  qed (use c left room run alive keeps in \<open>simp_all add: conn_set_buffer_def\<close>)
  moreover have "conn_read_once crypt pq keeps chunk c = conn_drain pq keeps (conn_offset ?c1) (conn_read ?c1) ?c1"
    using left crypt(1) by (simp add: conn_read_once_def Let_def)
  ultimately show ?thesis by simp
qed

lemma read_once_ok:
  assumes "conn_ok c" and "chunk \<noteq> []" and "length chunk \<le> conn_read_limit c"
    and "crypt (conn_receive c) chunk = (plain, st)" and "length plain = length chunk"
    and "tcp_split (packet_length (conn_protocol c)) (conn_pending c @ plain) = Some (fs, r)"
    and "session_packets pq keeps fs (conn_session c) = Some (s', es')" and "sess_alive s'"
    and "keeps ConnReceivedSome"
  shows "\<exists>c' es. conn_read_once crypt pq keeps chunk c = Some (True, c', es) \<and> conn_ok c'
    \<and> conn_pending c' = r \<and> conn_session c' = s' \<and> quiet es = es' \<and> conn_receive c' = st"
proof (cases "conn_left c = 0")
  case True
  show ?thesis by (rule read_once_drain [where crypt = crypt and pq = pq and keeps = keeps, OF assms(1) True assms(3-9)])
next
  case False
  then have left: "conn_left c > 0" "length chunk \<le> conn_left c" using assms(3) by (simp_all add: conn_read_limit_def)
  show ?thesis by (rule read_once_left [where crypt = crypt and pq = pq and keeps = keeps, OF assms(1) left(1) assms(2) left(2) assms(4-9)])
qed

lemma read_loop_ok:
  assumes cipher: "stream_cipher crypt" and keeps: "keeps ConnReceivedSome"
    and "conn_ok c"
    and "tcp_split (packet_length (conn_protocol c)) (conn_pending c @ fst (crypt (conn_receive c) avail)) = Some (fs, r)"
    and "session_packets pq keeps fs (conn_session c) = Some (s', es')" and "sess_alive s'"
    and "avail \<noteq> []"
  shows "\<exists>c' es. conn_read_loop crypt pq keeps avail c = Some (c', es) \<and> conn_ok c' \<and> conn_pending c' = r
    \<and> conn_session c' = s' \<and> quiet es = es' \<and> conn_receive c' = snd (crypt (conn_receive c) avail)"
  using assms(3-7)
proof (induction avail arbitrary: c fs es' rule: length_induct)
  case (1 avail)
  let ?p = "conn_protocol c" and ?n = "conn_read_limit c"
  let ?a = "take ?n avail" and ?b = "drop ?n avail"
  note prems = "1.prems"
  have can: "conn_can_read c" by (rule conn_ok_can_read [OF prems(1)])
  then have n: "0 < ?n" by (simp add: conn_can_read_def)
  obtain plain st where crypt: "crypt (conn_receive c) ?a = (plain, st)" by fastforce
  have plen: "length plain = length ?a" using stream_cipher_length [OF cipher, of "conn_receive c" ?a] crypt by simp
  have all: "fst (crypt (conn_receive c) avail) = plain @ fst (crypt st ?b)"
    "snd (crypt (conn_receive c) avail) = snd (crypt st ?b)"
    using stream_cipher_append [OF cipher, of "conn_receive c" ?a ?b] crypt by simp_all
  obtain f1 r1 f2 where split: "tcp_split (packet_length ?p) (conn_pending c @ plain) = Some (f1, r1)"
    "tcp_split (packet_length ?p) (r1 @ fst (crypt st ?b)) = Some (f2, r)" "fs = f1 @ f2"
    using tcp.split_append [of ?p "conn_pending c @ plain" "fst (crypt st ?b)" fs r] prems(2) all(1) by auto
  obtain s1 es1 es2 where run: "session_packets pq keeps f1 (conn_session c) = Some (s1, es1)"
    "session_packets pq keeps f2 s1 = Some (s', es2)" "es' = es1 @ es2"
    using session_packets_append prems(3) unfolding split(3) by blast
  have alive1: "sess_alive s1" and prot: "sess_protocol s1 = ?p"
    using session_packets_facts [OF run(2)] session_packets_facts [OF run(1)] prems(4) by auto
  have ne: "?a \<noteq> []" using n prems(5) by simp
  have le: "length ?a \<le> ?n" by simp
  obtain c1 es where c1: "conn_read_once crypt pq keeps ?a c = Some (True, c1, es)" "conn_ok c1"
    "conn_pending c1 = r1" "conn_session c1 = s1" "quiet es = es1" "conn_receive c1 = st"
    using read_once_ok [where crypt = crypt and pq = pq and keeps = keeps, OF prems(1) ne le crypt plen split(1) run(1) alive1 keeps] by blast
  show ?case
  proof (cases "?b = []")
    case True
    have nil: "crypt st ?b = ([], st)" using True stream_cipher_nil [OF cipher] by simp
    have same: "tcp_split (packet_length ?p) r1 = Some ([], r1)" by (rule tcp.split_rest [OF split(1)])
    have f2: "f2 = []" "r = r1" using split(2) same nil by simp_all
    have "conn_read_loop crypt pq keeps avail c = Some (c1, es)"
      using can prems(5) c1(1) True by (subst conn_read_loop.simps) (simp add: Let_def)
    then show ?thesis using c1 f2 run all(2) nil by simp
  next
    case False
    have "length ?b < length avail" using n prems(5) by simp
    then obtain c2 es' where c2: "conn_read_loop crypt pq keeps ?b c1 = Some (c2, es')" "conn_ok c2"
      "conn_pending c2 = r" "conn_session c2 = s'" "quiet es' = es2" "conn_receive c2 = snd (crypt st ?b)"
      using "1.IH" [rule_format, of ?b c1 f2 es2] c1 split(2) run(2) prems(4) prot False by auto
    have "conn_read_loop crypt pq keeps avail c = Some (c2, es @ es')"
      using can prems(5) c1(1,4) c2(1) False alive1 by (subst conn_read_loop.simps) (simp add: Let_def)
    then show ?thesis using c1 c2 run(3) all(2) by simp
  qed
qed

definition conn_prepared :: "('n, 's) tcp_connection \<Rightarrow> ('n, 's) tcp_connection" where
  "conn_prepared c = (if conn_small c = [] then c\<lparr> conn_small := replicate small_buffer_size 0 \<rparr> else c)"

definition conn_fresh :: "('n, 's) tcp_connection \<Rightarrow> bool" where
  "conn_fresh c \<longleftrightarrow> conn_alive c \<and> conn_small c = [] \<and> conn_large c = [] \<and> \<not> conn_using_large c
     \<and> conn_offset c = 0 \<and> conn_read c = 0 \<and> conn_left c = 0"

lemma conn_ok_prepared: "conn_ok c \<Longrightarrow> conn_prepared c = c"
  by (auto simp: conn_ok_def conn_prepared_def small_buffer_size_def)

lemma conn_fresh_prepared:
  assumes "conn_fresh c"
  shows "conn_ok (conn_prepared c)" "conn_pending (conn_prepared c) = []"
  using assms tcp.len_empty
  by (simp_all add: conn_fresh_def conn_ok_def conn_prepared_def conn_pending_def min_packet_buffer_def small_buffer_size_def)

lemma conn_prepared_simps [simp]:
  "conn_session (conn_prepared c) = conn_session c" "conn_receive (conn_prepared c) = conn_receive c"
  "conn_left (conn_prepared c) = conn_left c" "conn_using_large (conn_prepared c) = conn_using_large c"
  by (simp_all add: conn_prepared_def)

lemma conn_ok_pending_settled:
  assumes "conn_ok c"
  shows "tcp_split (packet_length (conn_protocol c)) (conn_pending c) = Some ([], conn_pending c)"
proof (cases "conn_left c = 0")
  case True
  then show ?thesis using assms tcp.split_unknown by (simp add: conn_ok_def)
next
  case False
  then have "length (conn_pending c) = conn_read c" using assms by (intro length_pending) (simp add: conn_ok_def)
  then show ?thesis using assms False by (intro tcp.split_short) (simp add: conn_ok_def)
qed

lemma socket_read_eq:
  assumes "conn_ok (conn_prepared c)"
  shows "socket_read crypt pq keeps (SocketHas avail) c = conn_read_loop crypt pq keeps avail (conn_prepared c)"
proof -
  have "conn_alive c" "conn_left c > 0 \<or> \<not> conn_using_large c"
    using assms by (auto simp: conn_ok_def split: if_splits)
  then show ?thesis by (simp add: socket_read_def conn_prepared_def Let_def)
qed

lemma socket_reads_ok:
  assumes cipher: "stream_cipher crypt" and keeps: "keeps ConnReceivedSome"
    and "conn_ok (conn_prepared c)"
    and "tcp_split (packet_length (conn_protocol c))
      (conn_pending (conn_prepared c) @ fst (crypt (conn_receive c) (concat chunks))) = Some (fs, r)"
    and "session_packets pq keeps fs (conn_session c) = Some (s', es')" and "sess_alive s'"
  shows "\<exists>c' es. socket_reads crypt pq keeps chunks c = Some (c', es) \<and> conn_ok (conn_prepared c')
    \<and> conn_pending (conn_prepared c') = r \<and> conn_session c' = s' \<and> quiet es = es'
    \<and> conn_receive c' = snd (crypt (conn_receive c) (concat chunks))"
  using assms(3-6)
proof (induction chunks arbitrary: c fs es')
  case Nil
  have "fs = []" "r = conn_pending (conn_prepared c)"
    using Nil.prems(2) conn_ok_pending_settled [OF Nil.prems(1)] by (simp_all add: stream_cipher_nil [OF cipher])
  then show ?case using Nil.prems by (simp add: stream_cipher_nil [OF cipher])
next
  case (Cons chunk chunks)
  let ?p = "conn_protocol c" and ?c = "conn_prepared c" and ?st = "snd (crypt (conn_receive c) chunk)"
  let ?tail = "fst (crypt ?st (concat chunks))"
  note prems = Cons.prems
  have all: "fst (crypt (conn_receive c) (concat (chunk # chunks))) = fst (crypt (conn_receive c) chunk) @ ?tail"
    "snd (crypt (conn_receive c) (concat (chunk # chunks))) = snd (crypt ?st (concat chunks))"
    by (simp_all add: stream_cipher_append [OF cipher])
  obtain f1 r1 f2 where split: "tcp_split (packet_length ?p) (conn_pending ?c @ fst (crypt (conn_receive c) chunk)) = Some (f1, r1)"
    "tcp_split (packet_length ?p) (r1 @ ?tail) = Some (f2, r)" "fs = f1 @ f2"
    using tcp.split_append [of ?p "conn_pending ?c @ fst (crypt (conn_receive c) chunk)" ?tail fs r] prems(2) all(1) by auto
  obtain s1 es1 es2 where run: "session_packets pq keeps f1 (conn_session c) = Some (s1, es1)"
    "session_packets pq keeps f2 s1 = Some (s', es2)" "es' = es1 @ es2"
    using session_packets_append prems(3) unfolding split(3) by blast
  have alive1: "sess_alive s1" and prot: "sess_protocol s1 = ?p"
    using session_packets_facts [OF run(2)] session_packets_facts [OF run(1)] prems(4) by auto
  have "\<exists>c1 es. socket_read crypt pq keeps (SocketHas chunk) c = Some (c1, es) \<and> conn_ok c1
    \<and> conn_pending c1 = r1 \<and> conn_session c1 = s1 \<and> quiet es = es1 \<and> conn_receive c1 = ?st"
  proof (cases "chunk = []")
    case True
    then have "f1 = []" "r1 = conn_pending ?c"
      using split(1) conn_ok_pending_settled [OF prems(1)] by (simp_all add: stream_cipher_nil [OF cipher])
    then show ?thesis
      using True run(1) prems(1) conn_ok_can_read [OF prems(1)] socket_read_eq [OF prems(1), of crypt pq keeps "[]"]
      by (simp add: conn_read_loop.simps Let_def stream_cipher_nil [OF cipher])
  next
    case False
    show ?thesis
      using read_loop_ok [where crypt = crypt and pq = pq and keeps = keeps and c = ?c and avail = chunk,
          OF cipher keeps prems(1) _ _ alive1 False, of f1 r1 es1] split(1) run(1)
        socket_read_eq [OF prems(1), of crypt pq keeps chunk] by simp
  qed
  then obtain c1 es where c1: "socket_read crypt pq keeps (SocketHas chunk) c = Some (c1, es)" "conn_ok c1"
    "conn_pending c1 = r1" "conn_session c1 = s1" "quiet es = es1" "conn_receive c1 = ?st" by blast
  have "conn_ok (conn_prepared c1)" "conn_prepared c1 = c1" using conn_ok_prepared [OF c1(2)] c1(2) by simp_all
  then obtain c2 es3 where "socket_reads crypt pq keeps chunks c1 = Some (c2, es3)" "conn_ok (conn_prepared c2)"
    "conn_pending (conn_prepared c2) = r" "conn_session c2 = s'" "quiet es3 = es2"
    "conn_receive c2 = snd (crypt ?st (concat chunks))"
    using Cons.IH [of c1 f2 es2] c1 split(2) run(2) prems(4) prot by auto
  then show ?case using c1(1,5) run(3) all(2) by simp
qed

section \<open>Properties of the receiving side\<close>

text \<open>C3.  Reassembly: however the socket cuts the encrypted stream into reads, a new connection handles
  exactly the packets of the decrypted stream, once each and in order, and keeps the bytes of an
  unfinished packet; apart from the progress signals the signals are those of the packets.  No
  assertion, span bound or buffer move goes wrong on the way.\<close>

theorem tcp_stream_reassembled:
  assumes "stream_cipher crypt" and "conn_fresh c" and "keeps ConnReceivedSome"
    and "tcp_split (packet_length (conn_protocol c)) (fst (crypt (conn_receive c) (concat chunks))) = Some (packets, rest)"
    and "session_packets pq keeps packets (conn_session c) = Some (s', es')" and "sess_alive s'"
  shows "\<exists>c' es. socket_reads crypt pq keeps chunks c = Some (c', es) \<and> conn_session c' = s'
    \<and> filter (\<lambda>e. e \<noteq> ConnReceivedSome) es = es' \<and> conn_pending (conn_prepared c') = rest"
  using socket_reads_ok [where crypt = crypt and pq = pq and keeps = keeps and c = c,
      OF assms(1,3) _ _ assms(5,6), of chunks rest] conn_fresh_prepared [OF assms(2)] assms(4)
  by (auto simp: quiet_def)

definition xor_cipher :: "nat \<Rightarrow> bytes \<Rightarrow> bytes \<times> nat" where
  "xor_cipher k xs = (map (\<lambda>b. b XOR 0x5A) xs, k + length xs)"

lemma xor_cipher_stream: "stream_cipher xor_cipher"
  by (simp add: stream_cipher_def xor_cipher_def)

definition example_session :: "nat tcp_session" where
  "example_session = \<lparr> sess_protocol = Version0, sess_nonce = 1, sess_status = Ready, sess_received = [], sess_alive = True \<rparr>"

definition example_connection :: "(nat, nat) tcp_connection" where
  "example_connection = \<lparr> conn_session = example_session, conn_small = [], conn_large = [], conn_using_large = False,
     conn_offset = 0, conn_read = 0, conn_left = 0, conn_receive = 0 \<rparr>"

text \<open>The packet of one integer (7) is an error with that code; it arrives in two reads.\<close>

theorem tcp_stream_reassembled_witness:
  "\<exists>c' es. socket_reads xor_cipher (\<lambda>_. None) (\<lambda>_. True) [[0x5B, 0x5D], [0x5A, 0x5A, 0x5A, 0x5B]] example_connection = Some (c', es)
    \<and> conn_session c' = example_session
    \<and> filter (\<lambda>e. e \<noteq> ConnReceivedSome) es = [ConnError 7] \<and> conn_pending (conn_prepared c') = [1]"
proof (rule tcp_stream_reassembled [OF xor_cipher_stream])
  show "conn_fresh example_connection"
    by (simp add: conn_fresh_def example_connection_def example_session_def)
  have one: "packet_length_v0 [1, 7, 0, 0, 0, 1] = 5" "packet_length_v0 [1] = 5"
    by (simp_all add: packet_length_v0_def)
  show "tcp_split (packet_length (conn_protocol example_connection))
      (fst (xor_cipher (conn_receive example_connection) (concat [[0x5B, 0x5D], [0x5A, 0x5A, 0x5A, 0x5B]])))
    = Some ([[1, 7, 0, 0, 0]], [1])"
    using one by (simp add: xor_cipher_def example_connection_def example_session_def tcp_split.simps unknown_size_def)
  have "packet_length_v0 [1, 7, 0, 0, 0] = 5" by (simp add: packet_length_v0_def)
  then have "parse_packet Version0 [1, 7, 0, 0, 0] = Some [7]"
    by (simp add: parse_packet_def read_packet_def size_simps bytes_at_def le32_def Let_def)
  then show "session_packets (\<lambda>_. None) (\<lambda>_. True) [[1, 7, 0, 0, 0]] (conn_session example_connection)
      = Some (example_session, [ConnError 7])"
    by (simp add: socket_packet_def example_connection_def example_session_def session_emit_def)
  show "sess_alive example_session" by (simp add: example_session_def)
qed simp

text \<open>C27.  A bad length ends the reading: when the stream after the last packet starts with an invalid
  length, the connection reports the general error, handles nothing more, and what it received and
  its status are unchanged.\<close>

theorem tcp_bad_length_reported:
  assumes cipher: "stream_cipher crypt" and ok: "conn_ok c" and left: "conn_left c = 0"
    and bad: "packet_length (conn_protocol c) (conn_pending c @ fst (crypt (conn_receive c) avail)) = invalid_size"
  shows "\<exists>c'. socket_read crypt pq keeps (SocketHas avail) c = Some (c', [ConnError error_code_other])
    \<and> conn_session c' = (conn_session c)\<lparr> sess_alive := keeps (ConnError error_code_other) \<rparr>"
proof -
  let ?n = "conn_read_limit c" and ?p = "conn_protocol c"
  let ?a = "take ?n avail"
  have can: "conn_can_read c" by (rule conn_ok_can_read [OF ok])
  obtain plain st where crypt: "crypt (conn_receive c) ?a = (plain, st)" by fastforce
  have plen: "length plain = length ?a" using stream_cipher_length [OF cipher, of "conn_receive c" ?a] crypt by simp
  have all: "fst (crypt (conn_receive c) avail) = plain @ fst (crypt st (drop ?n avail))"
    using stream_cipher_append [OF cipher, of "conn_receive c" ?a "drop ?n avail"] crypt by simp
  have c: "conn_alive c" "\<not> conn_using_large c" "length (conn_small c) = small_buffer_size" "conn_read c < 4"
    "conn_offset c + min_packet_buffer \<le> small_buffer_size"
    "packet_length ?p (conn_pending c) = unknown_size"
    using ok left by (simp_all add: conn_ok_def)
  have ne: "avail \<noteq> []" using bad c(6) by (auto simp: stream_cipher_nil [OF cipher] size_simps)
  have big: "4 \<le> ?n" using c(4,5) left by (simp add: conn_read_limit_def min_packet_buffer_def)
  have bad1: "packet_length ?p (conn_pending c @ plain) = invalid_size"
  proof (cases "length avail \<le> ?n")
    case True
    then show ?thesis using bad all stream_cipher_nil [OF cipher, of st] by simp
  next
    case False
    then have "4 \<le> length (conn_pending c @ plain)" using big plen by simp
    from tcp.len_long [OF this, of ?p]
    have "packet_length ?p ((conn_pending c @ plain) @ fst (crypt st (drop ?n avail))) = packet_length ?p (conn_pending c @ plain)"
      by (rule tcp.len_append [THEN conjunct1])
    then show ?thesis using bad all by simp
  qed
  let ?buf = "bytes_put (conn_offset c + conn_read c) plain (conn_buffer c)"
  let ?c1 = "conn_set_buffer ?buf c \<lparr> conn_receive := st, conn_read := conn_read c + length ?a \<rparr>"
  have room: "conn_offset c + conn_read c + length ?a \<le> length (conn_buffer c)"
    using can by (auto simp: conn_can_read_def)
  have at: "bytes_at (conn_offset ?c1) (conn_read ?c1) (conn_small ?c1) = conn_pending c @ plain"
    using bytes_at_write [of "conn_offset c" "conn_read c" plain "conn_buffer c"] room plen c(2)
    by (simp add: conn_pending_def)
  have pos: "conn_read ?c1 \<noteq> 0" using ne big by (cases avail) auto
  have "conn_read_once crypt pq keeps ?a c = conn_drain pq keeps (conn_offset ?c1) (conn_read ?c1) ?c1"
    using left crypt by (simp add: conn_read_once_def Let_def)
  also have "\<dots> = Some (False, conn_emit keeps (ConnError error_code_other) ?c1)"
    unfolding conn_drain.simps [of pq keeps "conn_offset ?c1" "conn_read ?c1" ?c1] at
    using pos bad1 c(2) by (simp add: Let_def size_simps)
  finally have "conn_read_loop crypt pq keeps avail c = Some (conn_emit keeps (ConnError error_code_other) ?c1)"
    using can ne by (subst conn_read_loop.simps) (simp add: Let_def conn_emit_def session_emit_def)
  then show ?thesis
    using socket_read_eq [of c crypt pq keeps avail] conn_ok_prepared [OF ok] ok c(1)
    by (simp add: conn_emit_def session_emit_def)
qed

theorem tcp_bad_length_reported_witness:
  "\<exists>c'. socket_read xor_cipher (\<lambda>_. None) (\<lambda>_. False) (SocketHas [0x5A]) (conn_prepared example_connection)
     = Some (c', [ConnError error_code_other])"
proof -
  have "conn_fresh example_connection" by (simp add: conn_fresh_def example_connection_def example_session_def)
  note ok = conn_fresh_prepared [OF this]
  have "packet_length_v0 [0] = invalid_size" by (simp add: packet_length_v0_def)
  then show ?thesis
    using tcp_bad_length_reported [OF xor_cipher_stream ok(1), of "[0x5A]" "\<lambda>_. None" "\<lambda>_. False"] ok(2)
    by (auto simp: example_connection_def example_session_def xor_cipher_def)
qed

end
