(* ===== verification/Tcp_Start.thy ===== *)
theory Tcp_Start
  imports Tcp_Connection
begin

text \<open>
  The sending side of \<open>TcpConnection\<close> (\<open>mtproto/connection_tcp.cpp\<close>): the 64-byte prefix that starts
  a connection (\<open>prepareConnectionStartPrefix\<close>, with \<open>isGoodStartNonce\<close> of
  \<open>mtproto/details/mtproto_tcp_socket.cpp\<close>) and \<open>sendData\<close>.  The random nonces are a list of draws;
  the cipher is an argument, its state made from a key and a counter by \<open>ctr\<close>.
\<close>

definition good_start_nonce :: "bytes \<Rightarrow> bool" where
  "good_start_nonce nonce \<longleftrightarrow>
     (let zero = nonce ! 0;
          first = le32 (nonce ! 0) (nonce ! 1) (nonce ! 2) (nonce ! 3);
          second = le32 (nonce ! 4) (nonce ! 5) (nonce ! 6) (nonce ! 7)
      in zero \<noteq> 0xEF \<and> first \<noteq> 0x44414548 \<and> first \<noteq> 0x54534F50 \<and> first \<noteq> 0x20544547
         \<and> first \<noteq> 0xEEEEEEEE \<and> first \<noteq> 0xDDDDDDDD \<and> first \<noteq> 0x02010316 \<and> second \<noteq> 0)"

record 's tcp_sender =
  send_protocol :: tcp_protocol
  send_dc :: "16 word"
  send_started :: bool
  send_state :: 's
  receive_state :: 's

definition start_prefix ::
  "(bytes \<Rightarrow> bytes \<Rightarrow> 's) \<Rightarrow> ('s \<Rightarrow> bytes \<Rightarrow> bytes \<times> 's) \<Rightarrow> (bytes \<Rightarrow> bytes) \<Rightarrow> bytes list
     \<Rightarrow> 's tcp_sender \<Rightarrow> ('s tcp_sender \<times> bytes) option" where
  "start_prefix ctr crypt sha256 draws s =
     (if send_started s then Some (s, [])
      else case find good_start_nonce draws of None \<Rightarrow> None
      | Some nonce \<Rightarrow>
          (let send_key = prepare_key sha256 (send_protocol s) (bytes_at 8 32 nonce);
               send_iv = bytes_at (8 + 32) 16 nonce;
               reversed = rev (bytes_at 8 48 nonce);
               receive_key = prepare_key sha256 (send_protocol s) (bytes_at 0 32 reversed);
               receive_iv = bytes_at 32 16 reversed;
               nonce1 = bytes_put 56 (le32_bytes (protocol_id (send_protocol s))) nonce;
               nonce2 = bytes_put 60 [ucast (send_dc s), ucast (drop_bit 8 (send_dc s))] nonce1;
               buffer = bytes_at 0 56 nonce2;
               (nonce3, st) = crypt (ctr send_key send_iv) nonce2
           in Some (s\<lparr> send_started := True, send_state := st, receive_state := ctr receive_key receive_iv \<rparr>,
                    buffer @ bytes_at 56 8 nonce3)))"

text \<open>\<open>sendData\<close>: the bytes written to the socket.\<close>

definition send_data ::
  "(bytes \<Rightarrow> bytes \<Rightarrow> 's) \<Rightarrow> ('s \<Rightarrow> bytes \<Rightarrow> bytes \<times> 's) \<Rightarrow> (bytes \<Rightarrow> bytes) \<Rightarrow> bytes list
     \<Rightarrow> 32 word \<Rightarrow> (nat \<Rightarrow> 32 word) \<Rightarrow> 32 word list \<Rightarrow> 's tcp_sender \<Rightarrow> ('s tcp_sender \<times> bytes) option" where
  "send_data ctr crypt sha256 draws r fill buf s =
     (if length buf \<le> 2 then None
      else case start_prefix ctr crypt sha256 draws s of None \<Rightarrow> None
      | Some (s1, prefix) \<Rightarrow>
          (case finalize_packet r fill (send_protocol s1) buf of None \<Rightarrow> None
           | Some packet \<Rightarrow>
               (let (enc, st) = crypt (send_state s1) packet
                in Some (s1\<lparr> send_state := st \<rparr>, prefix @ enc))))"

section \<open>What the other side can do with it\<close>

text \<open>A counter-mode cipher undoes itself, and its next state depends only on how many bytes it
  processed.\<close>

definition ctr_cipher :: "('s \<Rightarrow> bytes \<Rightarrow> bytes \<times> 's) \<Rightarrow> bool" where
  "ctr_cipher crypt \<longleftrightarrow> stream_cipher crypt
     \<and> (\<forall>s xs. fst (crypt s (fst (crypt s xs))) = xs)
     \<and> (\<forall>s xs ys. length xs = length ys \<longrightarrow> snd (crypt s xs) = snd (crypt s ys))"

lemma ctr_cipher_undo:
  assumes "ctr_cipher crypt"
  shows "crypt s (fst (crypt s xs)) = (xs, snd (crypt s xs))"
proof -
  have "length (fst (crypt s xs)) = length xs"
    using assms stream_cipher_length by (auto simp: ctr_cipher_def)
  then have "snd (crypt s (fst (crypt s xs))) = snd (crypt s xs)" using assms unfolding ctr_cipher_def by blast
  moreover have "fst (crypt s (fst (crypt s xs))) = xs" using assms unfolding ctr_cipher_def by blast
  ultimately show ?thesis by (metis prod.collapse)
qed

text \<open>A part in front that is replaced by other bytes does not disturb what follows.\<close>

lemma ctr_cipher_tail:
  assumes "ctr_cipher crypt" and "length xs = length zs"
  shows "drop (length zs) (fst (crypt s (zs @ drop (length xs) (fst (crypt s (xs @ ys)))))) = ys"
proof -
  have stream: "stream_cipher crypt" using assms(1) by (simp add: ctr_cipher_def)
  have state: "snd (crypt s zs) = snd (crypt s xs)"
    using assms unfolding ctr_cipher_def by metis
  have "drop (length xs) (fst (crypt s (xs @ ys))) = fst (crypt (snd (crypt s xs)) ys)"
    by (simp add: stream_cipher_append [OF stream] stream_cipher_length [OF stream])
  then show ?thesis
    using assms(1) by (simp add: stream_cipher_append [OF stream] stream_cipher_length [OF stream] state
        ctr_cipher_undo)
qed

text \<open> The start of a connection can be read by the other side: from the first bytes, sent in the
  clear, a peer that knows the secret derives the key and the counter, decrypts the prefix and finds
  the protocol and the data centre in its last eight bytes; the prefix is sent once, starts with a
  nonce that no other protocol could be taken for, and leaves both ciphers in the same state.\<close>

theorem tcp_start_prefix_decodes:
  assumes cipher: "ctr_cipher crypt" and draws: "\<forall>d \<in> set draws. length d = 64"
    and good: "\<exists>d \<in> set draws. good_start_nonce d" and fresh: "\<not> send_started s"
  shows "\<exists>s' prefix. start_prefix ctr crypt sha256 draws s = Some (s', prefix)
    \<and> length prefix = 64 \<and> good_start_nonce prefix
    \<and> (let key = prepare_key sha256 (send_protocol s) (bytes_at 8 32 prefix);
            (plain, st) = crypt (ctr key (bytes_at 40 16 prefix)) prefix
        in bytes_at 56 4 plain = le32_bytes (protocol_id (send_protocol s))
         \<and> bytes_at 60 2 plain = [ucast (send_dc s), ucast (drop_bit 8 (send_dc s))]
         \<and> st = send_state s')
    \<and> start_prefix ctr crypt sha256 draws' s' = Some (s', [])"
proof -
  obtain nonce where n: "find good_start_nonce draws = Some nonce"
    using good by (cases "find good_start_nonce draws") (auto simp: find_None_iff)
  then have nonce: "length nonce = 64" "good_start_nonce nonce"
    using draws by (auto simp: find_Some_iff dest: nth_mem)
  let ?id = "le32_bytes (protocol_id (send_protocol s))" and ?dc = "[ucast (send_dc s), ucast (drop_bit 8 (send_dc s))] :: bytes"
  let ?front = "take 56 nonce" and ?rear_part = "?id @ ?dc @ drop 62 nonce"
  have two: "bytes_put 60 ?dc (bytes_put 56 ?id nonce) = ?front @ ?rear_part"
    using nonce(1) by (simp add: bytes_put_def drop_Cons')
  let ?key = "prepare_key sha256 (send_protocol s) (bytes_at 8 32 nonce)"
  let ?s0 = "ctr ?key (bytes_at 40 16 nonce)"
  obtain enc st where enc: "crypt ?s0 (?front @ ?rear_part) = (enc, st)" by fastforce
  have stream: "stream_cipher crypt" using cipher by (simp add: ctr_cipher_def)
  have elen: "length enc = 64"
    using stream_cipher_length [OF stream, of ?s0 "?front @ ?rear_part"] enc nonce(1) by simp
  let ?prefix = "?front @ drop 56 enc"
  let ?s' = "s\<lparr> send_started := True, send_state := st, receive_state :=
    ctr (prepare_key sha256 (send_protocol s) (bytes_at 0 32 (rev (bytes_at 8 48 nonce)))) (bytes_at 32 16 (rev (bytes_at 8 48 nonce))) \<rparr>"
  have run: "start_prefix ctr crypt sha256 draws s = Some (?s', ?prefix)"
  proof -
    have "bytes_at 0 56 (?front @ ?rear_part) = ?front" using nonce(1) by (simp add: bytes_at_def)
    moreover have "bytes_at 56 8 enc = drop 56 enc" using elen by (simp add: bytes_at_def)
    ultimately show ?thesis using fresh n enc two by (simp add: start_prefix_def Let_def)
  qed
  have same: "bytes_at i k ?prefix = bytes_at i k nonce" if "i + k \<le> 56" for i k
  proof -
    have "bytes_at i k ?prefix = take k (drop i ?front)" using that nonce(1) by (auto simp: bytes_at_def)
    also have "\<dots> = bytes_at i k nonce" using that by (simp add: bytes_at_def drop_take)
    finally show ?thesis .
  qed
  have nth: "?prefix ! i = nonce ! i" if "i < 56" for i using that nonce(1) by (simp add: nth_append)
  have good1: "good_start_nonce ?prefix" using nonce(2) by (simp add: good_start_nonce_def nth)
  let ?plain = "fst (crypt ?s0 ?prefix)"
  have rear: "drop 56 ?plain = ?rear_part"
    using ctr_cipher_tail [OF cipher, of ?front ?front ?s0 ?rear_part] enc nonce(1) by simp
  have "length ?prefix = length (?front @ ?rear_part)" using nonce(1) elen by simp
  then have "snd (crypt ?s0 ?prefix) = snd (crypt ?s0 (?front @ ?rear_part))"
    using cipher unfolding ctr_cipher_def by blast
  then have st: "snd (crypt ?s0 ?prefix) = st" using enc by simp
  have at: "bytes_at 56 4 xs = take 4 (drop 56 xs)" "bytes_at 60 2 xs = take 2 (drop 4 (drop 56 xs))" for xs :: bytes
    by (simp_all add: bytes_at_def)
  have "bytes_at 56 4 ?plain = ?id" unfolding at rear by simp
  moreover have "bytes_at 60 2 ?plain = ?dc"
    unfolding at rear by simp
  moreover have "bytes_at 8 32 ?prefix = bytes_at 8 32 nonce" "bytes_at 40 16 ?prefix = bytes_at 40 16 nonce"
    by (rule same, simp)+
  moreover have "start_prefix ctr crypt sha256 draws' ?s' = Some (?s', [])" by (simp add: start_prefix_def)
  moreover have "length ?prefix = 64" using nonce(1) elen by simp
  ultimately show ?thesis using run good1 st
    by (intro exI [of _ ?s'] exI [of _ ?prefix]) (simp only: Let_def split_beta simp_thms, simp)
qed

lemma xor_cipher_ctr: "ctr_cipher xor_cipher"
  using xor_cipher_stream by (simp add: ctr_cipher_def xor_cipher_def comp_def xor.assoc)

theorem tcp_start_prefix_decodes_witness:
  "\<exists>s' prefix. start_prefix (\<lambda>k i. length i) xor_cipher id [replicate 64 1]
      \<lparr> send_protocol = Version0, send_dc = 2, send_started = False, send_state = 0, receive_state = 0 \<rparr> = Some (s', prefix)
    \<and> length prefix = 64"
proof -
  have "ctr_cipher xor_cipher" by (rule xor_cipher_ctr)
  moreover have "good_start_nonce (replicate 64 1)"
    by (simp add: good_start_nonce_def le32_def)
  ultimately show ?thesis
    using tcp_start_prefix_decodes [of xor_cipher "[replicate 64 1]"
        "\<lparr> send_protocol = Version0, send_dc = 2, send_started = False, send_state = 0, receive_state = 0 \<rparr>"
        "\<lambda>k i. length i" id "[]"]
    by auto
qed

section \<open>Both sides together\<close>

text \<open>A run of \<open>sendData\<close> on a started connection, with the random values of each call.\<close>

fun send_all ::
  "(bytes \<Rightarrow> bytes \<Rightarrow> 's) \<Rightarrow> ('s \<Rightarrow> bytes \<Rightarrow> bytes \<times> 's) \<Rightarrow> (bytes \<Rightarrow> bytes)
     \<Rightarrow> (32 word \<times> (nat \<Rightarrow> 32 word) \<times> 32 word list) list \<Rightarrow> 's tcp_sender \<Rightarrow> bytes list option" where
  "send_all ctr crypt sha256 [] s = Some []"
| "send_all ctr crypt sha256 ((r, fill, buf) # calls) s =
     (case send_data ctr crypt sha256 [] r fill buf s of None \<Rightarrow> None
      | Some (s', out) \<Rightarrow> map_option ((#) out) (send_all ctr crypt sha256 calls s'))"

abbreviation sent_ints :: "32 word \<times> (nat \<Rightarrow> 32 word) \<times> 32 word list \<Rightarrow> 32 word list" where
  "sent_ints call \<equiv> drop 2 (snd (snd call))"

definition sendable :: "tcp_protocol \<Rightarrow> 32 word list \<Rightarrow> bool" where
  "sendable p buf \<longleftrightarrow> 2 < length buf
     \<and> length buf \<le> (if supports_arbitrary_length p then 0xFFFFFD else 0x1000001)"

lemma sendable_frame:
  assumes "sendable p buf"
  obtains f pad where "finalize_packet r fill p buf = Some f" "packet_length p f = int (length f)" "f \<noteq> []"
    "\<And>rest. packet_length p (f @ rest) = int (length f)"
    "read_packet p f = Some (ints_bytes (drop 2 buf) @ pad)" "length pad < 16"
proof -
  obtain a b ws where buf: "buf = a # b # ws"
    using assms by (cases buf; cases "tl buf") (auto simp: sendable_def)
  have ws: "ws \<noteq> []" "length ws \<le> (if supports_arbitrary_length p then 0xFFFFFB else 0xFFFFFF)"
    using assms by (auto simp: sendable_def buf)
  obtain f pad where f: "finalize_packet r fill p buf = Some f" "packet_length p f = int (length f)"
    "read_packet p f = Some (ints_bytes ws @ pad)" "length pad < 16"
    using frame_roundtrip [OF ws, of r fill a b "[]"] by (auto simp: buf)
  have known: "packet_length p f \<noteq> unknown_size" using f(2) by (simp add: unknown_size_def)
  have "f \<noteq> []" using f(2) tcp.len_empty [of p] known by auto
  moreover have "packet_length p (f @ rest) = int (length f)" for rest
    using tcp.len_append [OF known, of rest] f(2) by simp
  ultimately show ?thesis using f buf by (intro that [of f pad]) simp_all
qed

lemma tcp_split_frame:
  assumes "f \<noteq> []" and "packet_length p (f @ rest) = int (length f)"
  shows "tcp_split (packet_length p) (f @ rest) = map_option (\<lambda>(fs, r). (f # fs, r)) (tcp_split (packet_length p) rest)"
  using tcp.split_packet [of p "f @ rest"] assms by (simp add: unknown_size_def)

text \<open>C26.  Sent and received: what a started connection writes for any list of packets, decrypted as one
  stream by the other side, is cut back into one packet per call and nothing more, and each holds the
  integers of its call followed by fewer than 16 padding bytes.\<close>

theorem tcp_send_receive:
  assumes "ctr_cipher crypt" and "send_started s" and "\<forall>call \<in> set calls. sendable (send_protocol s) (snd (snd call))"
  shows "\<exists>outs packets. send_all ctr crypt sha256 calls s = Some outs
    \<and> tcp_split (packet_length (send_protocol s)) (fst (crypt (send_state s) (concat outs))) = Some (packets, [])
    \<and> list_all2 (\<lambda>call f. \<exists>pad. length pad < 16
         \<and> read_packet (send_protocol s) f = Some (ints_bytes (sent_ints call) @ pad)) calls packets"
  using assms(2,3)
proof (induction calls arbitrary: s)
  case Nil
  have "stream_cipher crypt" using assms(1) by (simp add: ctr_cipher_def)
  then show ?case by (simp add: stream_cipher_nil)
next
  case (Cons call calls)
  obtain r fill buf where call: "call = (r, fill, buf)" by (cases call) auto
  let ?p = "send_protocol s"
  have stream: "stream_cipher crypt" using assms(1) by (simp add: ctr_cipher_def)
  have ok: "sendable ?p buf" using Cons.prems(2) call by simp
  obtain f pad where f: "finalize_packet r fill ?p buf = Some f" "packet_length ?p f = int (length f)" "f \<noteq> []"
    "\<And>rest. packet_length ?p (f @ rest) = int (length f)"
    "read_packet ?p f = Some (ints_bytes (drop 2 buf) @ pad)" "length pad < 16"
    by (rule sendable_frame [OF ok, of r fill], rule that, assumption+)
  obtain enc st where enc: "crypt (send_state s) f = (enc, st)" by fastforce
  let ?s = "s\<lparr> send_state := st \<rparr>"
  have step: "send_data ctr crypt sha256 [] r fill buf s = Some (?s, enc)"
    using ok f(1) enc Cons.prems(1) by (simp add: send_data_def start_prefix_def sendable_def)
  obtain outs packets where IH: "send_all ctr crypt sha256 calls ?s = Some outs"
    "tcp_split (packet_length ?p) (fst (crypt st (concat outs))) = Some (packets, [])"
    "list_all2 (\<lambda>call f. \<exists>pad. length pad < 16 \<and> read_packet ?p f = Some (ints_bytes (sent_ints call) @ pad)) calls packets"
    using Cons.IH [of ?s] Cons.prems by auto
  have undo: "crypt (send_state s) enc = (f, st)"
    using ctr_cipher_undo [OF assms(1), of "send_state s" f] enc by simp
  have "fst (crypt (send_state s) (concat (enc # outs))) = f @ fst (crypt st (concat outs))"
    using undo by (simp add: stream_cipher_append [OF stream])
  then have "tcp_split (packet_length ?p) (fst (crypt (send_state s) (concat (enc # outs)))) = Some (f # packets, [])"
    using tcp_split_frame [OF f(3) f(4)] IH(2) by simp
  then show ?case
    using step IH(1,3) f(5,6) by (intro exI [of _ "enc # outs"] exI [of _ "f # packets"]) (auto simp: call)
qed

theorem tcp_send_receive_witness:
  "\<exists>outs packets. send_all (\<lambda>k i. 0) xor_cipher id [(3, \<lambda>_. 9, [0, 0, 42])]
      \<lparr> send_protocol = VersionD [], send_dc = 2, send_started = True, send_state = 0, receive_state = 0 \<rparr> = Some outs
    \<and> tcp_split (packet_length (VersionD [])) (fst (xor_cipher 0 (concat outs))) = Some (packets, [])"
proof -
  have "ctr_cipher xor_cipher" by (rule xor_cipher_ctr)
  then show ?thesis
    using tcp_send_receive [of xor_cipher
        "\<lparr> send_protocol = VersionD [], send_dc = 2, send_started = True, send_state = 0, receive_state = 0 \<rparr>"
        "[(3, \<lambda>_. 9, [0, 0, 42])]" "\<lambda>k i. 0" id]
    by (auto simp: sendable_def)
qed

end
