(* ===== verification/Web_Proxy_Frame.thy ===== *)
theory Web_Proxy_Frame
  imports Bytes
begin

text \<open>
  The frames of the web proxy transport (\<open>mtproto/web_proxy/web_proxy_frame.h\<close> and \<open>.cpp\<close>): a header
  of eight bytes - the type, the stream in three bytes and the size in four, most significant first -
  and the payload.  \<open>ParseFrames\<close> takes the complete frames off the front of a buffer and leaves the
  beginning of an incomplete one; what it returns is the verdict, the buffer and the output.
\<close>

definition frame_header_size :: nat where "frame_header_size = 8"
definition max_frame_payload :: nat where "max_frame_payload = 1024 * 1024"
definition max_batch_frames :: nat where "max_batch_frames = 4096"
definition initial_stream_window :: nat where "initial_stream_window = 4 * 1024 * 1024"

datatype frame_type = FrameOpen | FrameData | FrameClose | FrameWindow | FramePing | FramePong | FrameHello
  | FrameWelcome | FrameAuthChallenge | FrameAuthResponse | FrameBye

fun frame_type_code :: "frame_type \<Rightarrow> byte" where
  "frame_type_code FrameOpen = 0x01"
| "frame_type_code FrameData = 0x02"
| "frame_type_code FrameClose = 0x03"
| "frame_type_code FrameWindow = 0x04"
| "frame_type_code FramePing = 0x05"
| "frame_type_code FramePong = 0x06"
| "frame_type_code FrameHello = 0x10"
| "frame_type_code FrameWelcome = 0x11"
| "frame_type_code FrameAuthChallenge = 0x12"
| "frame_type_code FrameAuthResponse = 0x13"
| "frame_type_code FrameBye = 0x1F"

text \<open>\<open>IsKnownType\<close>, with the value the byte is cast to when it is known.\<close>

definition known_type :: "byte \<Rightarrow> frame_type option" where
  "known_type b =
     (if b = 0x01 then Some FrameOpen else if b = 0x02 then Some FrameData
      else if b = 0x03 then Some FrameClose else if b = 0x04 then Some FrameWindow
      else if b = 0x05 then Some FramePing else if b = 0x06 then Some FramePong
      else if b = 0x10 then Some FrameHello else if b = 0x11 then Some FrameWelcome
      else if b = 0x12 then Some FrameAuthChallenge else if b = 0x13 then Some FrameAuthResponse
      else if b = 0x1F then Some FrameBye else None)"

record frame =
  frame_kind :: frame_type
  frame_stream :: "32 word"
  frame_payload :: bytes

definition serialize_frame :: "frame_type \<Rightarrow> 32 word \<Rightarrow> bytes \<Rightarrow> bytes option" where
  "serialize_frame t stream payload =
     (if stream \<le> 0x00FFFFFF \<and> length payload \<le> max_frame_payload then
        (let size = (of_nat (length payload) :: 32 word)
         in Some ([frame_type_code t, ucast (drop_bit 16 stream), ucast (drop_bit 8 stream), ucast stream,
                   ucast (drop_bit 24 size), ucast (drop_bit 16 size), ucast (drop_bit 8 size), ucast size]
                  @ payload))
      else None)"

function parse_frames_loop :: "bytes \<Rightarrow> nat \<Rightarrow> frame list \<Rightarrow> bool \<times> nat \<times> frame list" where
  "parse_frames_loop buffer offset out =
     (if length buffer - offset < frame_header_size then (True, offset, out)
      else
        (let data = drop offset buffer
         in case known_type (data ! 0) of None \<Rightarrow> (False, offset, out)
            | Some t \<Rightarrow>
                (let stream = le24 (data ! 3) (data ! 2) (data ! 1);
                     size = be32 (data ! 4) (data ! 5) (data ! 6) (data ! 7)
                 in if size > of_nat max_frame_payload then (False, offset, out)
                    else
                      (let full = frame_header_size + unat size
                       in if length buffer - offset < full then (True, offset, out)
                          else if length out \<ge> max_batch_frames then (False, offset, out)
                          else parse_frames_loop buffer (offset + full)
                            (out @ [\<lparr> frame_kind = t, frame_stream = stream,
                                         frame_payload = bytes_at (offset + frame_header_size) (unat size) buffer \<rparr>])))))"
  by pat_completeness auto

termination
  by (relation "measure (\<lambda>(buffer, offset, _). length buffer - offset)") (auto simp: frame_header_size_def)

declare parse_frames_loop.simps [simp del]

definition parse_frames :: "bytes \<Rightarrow> frame list \<Rightarrow> bool \<times> bytes \<times> frame list" where
  "parse_frames buffer out =
     (let (ok, offset, out') = parse_frames_loop buffer 0 out
      in if ok then (True, drop offset buffer, out') else (False, buffer, out'))"

section \<open>Frames and their bytes\<close>

definition frame_ok :: "frame \<Rightarrow> bool" where
  "frame_ok f \<longleftrightarrow> frame_stream f \<le> 0x00FFFFFF \<and> length (frame_payload f) \<le> max_frame_payload"

definition frame_bytes :: "frame \<Rightarrow> bytes" where
  "frame_bytes f = the (serialize_frame (frame_kind f) (frame_stream f) (frame_payload f))"

lemma known_type_code [simp]: "known_type (frame_type_code t) = Some t"
  by (cases t) (simp_all add: known_type_def)

lemma known_type_some: "known_type b = Some t \<Longrightarrow> frame_type_code t = b"
  by (auto simp: known_type_def split: if_splits)

lemma serialize_frame_some: "frame_ok f \<Longrightarrow> serialize_frame (frame_kind f) (frame_stream f) (frame_payload f) = Some (frame_bytes f)"
  by (simp add: frame_ok_def frame_bytes_def serialize_frame_def Let_def)

lemma frame_bytes_eq:
  assumes "frame_ok f"
  shows "frame_bytes f =
    [frame_type_code (frame_kind f), ucast (drop_bit 16 (frame_stream f)), ucast (drop_bit 8 (frame_stream f)), ucast (frame_stream f)]
    @ be32_bytes (of_nat (length (frame_payload f))) @ frame_payload f"
  using assms by (simp add: frame_ok_def frame_bytes_def serialize_frame_def Let_def be32_bytes_def)

lemma length_frame_bytes: "frame_ok f \<Longrightarrow> length (frame_bytes f) = frame_header_size + length (frame_payload f)"
  by (simp add: frame_bytes_eq frame_header_size_def)

lemma frame_ok_stream: "frame_ok f \<Longrightarrow> unat (frame_stream f) < 2 ^ 24"
  by (simp add: frame_ok_def word_le_nat_alt)

lemma frame_size_unat:
  assumes "frame_ok f"
  shows "unat (of_nat (length (frame_payload f)) :: 32 word) = length (frame_payload f)"
  using assms by (simp add: frame_ok_def max_frame_payload_def unat_of_nat take_bit_nat_eq_self)

lemma max_frame_payload_unat: "(n :: 32 word) > of_nat max_frame_payload \<longleftrightarrow> unat n > max_frame_payload"
  by (simp add: max_frame_payload_def word_less_nat_alt)

text \<open>The header of a frame, read at an offset.\<close>

lemma frame_header_read:
  assumes ok: "frame_ok f" and data: "take 8 data = take 8 (frame_bytes f)"
  shows "known_type (data ! 0) = Some (frame_kind f)"
    "le24 (data ! 3) (data ! 2) (data ! 1) = frame_stream f"
    "be32 (data ! 4) (data ! 5) (data ! 6) (data ! 7) = of_nat (length (frame_payload f))"
proof -
  let ?n = "of_nat (length (frame_payload f)) :: 32 word"
  have nth: "data ! i = (frame_bytes f) ! i" if "i < 8" for i
    using arg_cong [OF data, of "\<lambda>xs. xs ! i"] that by simp
  note b = frame_bytes_eq [OF ok]
  have "frame_bytes f ! 0 = frame_type_code (frame_kind f)" "frame_bytes f ! 1 = ucast (drop_bit 16 (frame_stream f))"
    "frame_bytes f ! 2 = ucast (drop_bit 8 (frame_stream f))" "frame_bytes f ! 3 = ucast (frame_stream f)"
    "frame_bytes f ! 4 = ucast (drop_bit 24 ?n)" "frame_bytes f ! 5 = ucast (drop_bit 16 ?n)"
    "frame_bytes f ! 6 = ucast (drop_bit 8 ?n)" "frame_bytes f ! 7 = ucast ?n"
    unfolding b be32_bytes_def by simp_all
  then show "known_type (data ! 0) = Some (frame_kind f)"
    "le24 (data ! 3) (data ! 2) (data ! 1) = frame_stream f"
    "be32 (data ! 4) (data ! 5) (data ! 6) (data ! 7) = ?n"
    using nth le24_of_small [OF frame_ok_stream [OF ok]] be32_of_word [of ?n] by simp_all
qed

lemma parse_step:
  assumes ok: "frame_ok f" and buffer: "buffer = pre @ frame_bytes f @ rest"
  shows "parse_frames_loop buffer (length pre) out =
    (if length out \<ge> max_batch_frames then (False, length pre, out)
     else parse_frames_loop buffer (length pre + length (frame_bytes f)) (out @ [f]))"
proof -
  let ?data = "drop (length pre) buffer" and ?n = "length (frame_payload f)"
  have len: "length (frame_bytes f) = 8 + ?n" using length_frame_bytes [OF ok] by (simp add: frame_header_size_def)
  have data: "?data = frame_bytes f @ rest" by (simp add: buffer)
  have head: "take 8 ?data = take 8 (frame_bytes f)" unfolding data using len by simp
  have size: "length buffer - length pre = 8 + ?n + length rest" using len by (simp add: buffer)
  have payload: "bytes_at (length pre + 8) ?n buffer = frame_payload f"
    unfolding buffer bytes_at_def by (simp add: frame_bytes_eq [OF ok] eval_nat_numeral be32_bytes_def)
  note read = frame_header_read [OF ok head]
  have max: "\<not> (of_nat ?n :: 32 word) > of_nat max_frame_payload"
    using ok frame_size_unat [OF ok] by (simp add: max_frame_payload_unat frame_ok_def)
  have eq: "\<lparr> frame_kind = frame_kind f, frame_stream = frame_stream f, frame_payload = frame_payload f \<rparr> = f" by simp
  show ?thesis
    unfolding parse_frames_loop.simps [of buffer "length pre" out] Let_def read
    using max size payload frame_size_unat [OF ok] len by (simp add: frame_header_size_def eq)
qed

lemma parse_stop:
  assumes ok: "frame_ok f" and buffer: "buffer = pre @ rest" and part: "rest = take n (frame_bytes f)" "n < length (frame_bytes f)"
  shows "parse_frames_loop buffer (length pre) out = (True, length pre, out)"
proof (cases "length rest < 8")
  case True
  then show ?thesis by (simp add: parse_frames_loop.simps buffer frame_header_size_def)
next
  case False
  let ?data = "drop (length pre) buffer" and ?n = "length (frame_payload f)"
  have len: "length (frame_bytes f) = 8 + ?n" using length_frame_bytes [OF ok] by (simp add: frame_header_size_def)
  have data: "?data = rest" by (simp add: buffer)
  have "8 \<le> n" using False part len by simp
  then have head: "take 8 ?data = take 8 (frame_bytes f)" unfolding data part(1) by (simp add: min_def)
  note read = frame_header_read [OF ok head]
  have max: "\<not> (of_nat ?n :: 32 word) > of_nat max_frame_payload"
    using ok frame_size_unat [OF ok] by (simp add: max_frame_payload_unat frame_ok_def)
  have short: "length buffer - length pre = n" "n < 8 + ?n" using part len by (simp_all add: buffer)
  show ?thesis
    unfolding parse_frames_loop.simps [of buffer "length pre" out] Let_def read
    using max short \<open>8 \<le> n\<close> frame_size_unat [OF ok] by (simp add: frame_header_size_def)
qed

lemma parse_many:
  "\<forall>f \<in> set fs. frame_ok f \<Longrightarrow> length out + length fs \<le> max_batch_frames \<Longrightarrow>
     parse_frames_loop (pre @ concat (map frame_bytes fs) @ rest) (length pre) out
     = parse_frames_loop (pre @ concat (map frame_bytes fs) @ rest) (length (pre @ concat (map frame_bytes fs))) (out @ fs)"
proof (induction fs arbitrary: pre out)
  case (Cons f fs)
  let ?b = "pre @ concat (map frame_bytes (f # fs)) @ rest"
  have "parse_frames_loop ?b (length pre) out = parse_frames_loop ?b (length (pre @ frame_bytes f)) (out @ [f])"
    using parse_step [of f ?b pre "concat (map frame_bytes fs) @ rest" out] Cons.prems by simp
  also have "\<dots> = parse_frames_loop ?b (length ((pre @ frame_bytes f) @ concat (map frame_bytes fs))) ((out @ [f]) @ fs)"
    using Cons.IH [of "out @ [f]" "pre @ frame_bytes f"] Cons.prems by simp
  finally show ?case by simp
qed simp

text \<open>What one turn of the loop takes off is the serialized form of the frame it adds.\<close>

lemma read_frame_bytes:
  assumes long: "8 \<le> length data" and t: "known_type (data ! 0) = Some t"
    and n: "n = unat (be32 (data ! 4) (data ! 5) (data ! 6) (data ! 7))" "n \<le> max_frame_payload" "8 + n \<le> length data"
    and f: "f = \<lparr> frame_kind = t, frame_stream = le24 (data ! 3) (data ! 2) (data ! 1), frame_payload = take n (drop 8 data) \<rparr>"
  shows "frame_ok f \<and> frame_bytes f = take (8 + n) data"
proof -
  let ?size = "be32 (data ! 4) (data ! 5) (data ! 6) (data ! 7)"
  have len: "length (frame_payload f) = n" using n(3) by (simp add: f)
  have "unat (frame_stream f) < 2 ^ 24" using unat_le24 [of "data ! 3" "data ! 2" "data ! 1"] by (simp add: f)
  then have ok: "frame_ok f" using n(2) len by (simp add: frame_ok_def word_le_nat_alt)
  have size: "(of_nat n :: 32 word) = ?size" unfolding n(1) by simp
  have "frame_bytes f = [data ! 0, data ! 1, data ! 2, data ! 3] @ [data ! 4, data ! 5, data ! 6, data ! 7] @ take n (drop 8 data)"
    unfolding frame_bytes_eq [OF ok] len size be32_bytes_be32
    using known_type_some [OF t] by (simp add: f bytes_of_le24)
  also have "\<dots> = take 8 data @ take n (drop 8 data)"
  proof -
    have "[data ! 0, data ! 1, data ! 2, data ! 3] @ [data ! 4, data ! 5, data ! 6, data ! 7] = take 8 data"
      using long by (intro nth_equalityI) (auto simp: less_Suc_eq eval_nat_numeral)
    then show ?thesis by (metis append_assoc)
  qed
  also have "\<dots> = take (8 + n) data" by (simp add: take_add)
  finally show ?thesis using ok by simp
qed

lemma parse_loop_sound:
  "parse_frames_loop buffer offset out = (True, offset', out') \<Longrightarrow> offset \<le> length buffer \<Longrightarrow>
     \<exists>fs. out' = out @ fs \<and> (\<forall>f \<in> set fs. frame_ok f)
       \<and> drop offset buffer = concat (map frame_bytes fs) @ drop offset' buffer
       \<and> (fs \<noteq> [] \<longrightarrow> length out' \<le> max_batch_frames)"
proof (induction buffer offset out arbitrary: offset' out' rule: parse_frames_loop.induct)
  case (1 buffer offset out)
  let ?data = "drop offset buffer"
  let ?size = "be32 (?data ! 4) (?data ! 5) (?data ! 6) (?data ! 7)"
  have stop: ?case if "offset' = offset" "out' = out"
    using that by (intro exI [of _ "[]"]) simp
  show ?case
  proof (cases "length buffer - offset < frame_header_size")
    case True
    then show ?thesis using "1.prems"(1) stop by (simp add: parse_frames_loop.simps [of buffer])
  next
    case long: False
    show ?thesis
    proof (cases "known_type (?data ! 0)")
      case None
      then show ?thesis using "1.prems"(1) long by (simp add: parse_frames_loop.simps [of buffer] Let_def)
    next
      case (Some t)
      let ?full = "frame_header_size + unat ?size"
      let ?f = "\<lparr> frame_kind = t, frame_stream = le24 (?data ! 3) (?data ! 2) (?data ! 1),
        frame_payload = bytes_at (offset + frame_header_size) (unat ?size) buffer \<rparr>"
      consider "?size > of_nat max_frame_payload" | "\<not> ?size > of_nat max_frame_payload" "length buffer - offset < ?full"
        | "\<not> ?size > of_nat max_frame_payload" "\<not> length buffer - offset < ?full" "length out \<ge> max_batch_frames"
        | "\<not> ?size > of_nat max_frame_payload" "\<not> length buffer - offset < ?full" "\<not> length out \<ge> max_batch_frames"
        by blast
      then show ?thesis
      proof cases
        case 1
        then show ?thesis using "1.prems"(1) long Some by (simp add: parse_frames_loop.simps [of buffer] Let_def)
      next
        case 2
        then show ?thesis using "1.prems"(1) long Some stop by (simp add: parse_frames_loop.simps [of buffer] Let_def)
      next
        case 3
        then show ?thesis using "1.prems"(1) long Some by (simp add: parse_frames_loop.simps [of buffer] Let_def)
      next
        case 4
        have rec: "parse_frames_loop buffer (offset + ?full) (out @ [?f]) = (True, offset', out')"
          using "1.prems"(1) 4 long Some by (simp add: parse_frames_loop.simps [of buffer offset] Let_def)
        have le: "offset + ?full \<le> length buffer" using 4(2) "1.prems"(2) long by (simp add: frame_header_size_def)
        have "frame_ok ?f \<and> frame_bytes ?f = take (8 + unat ?size) ?data"
        proof (rule read_frame_bytes [where t = t and n = "unat ?size"])
          show "8 \<le> length ?data" using long by (simp only: length_drop frame_header_size_def not_less)
          show "unat ?size \<le> max_frame_payload" using 4(1) unfolding max_frame_payload_unat by simp
          show "8 + unat ?size \<le> length ?data" using 4(2) by (simp only: length_drop frame_header_size_def not_less)
          show "?f = \<lparr> frame_kind = t, frame_stream = le24 (?data ! 3) (?data ! 2) (?data ! 1),
              frame_payload = take (unat ?size) (drop 8 ?data) \<rparr>"
            by (simp only: bytes_at_def drop_drop frame_header_size_def add.commute)
        qed (rule Some refl)+
        then have f: "frame_ok ?f" "frame_bytes ?f = take ?full ?data" by (simp_all add: frame_header_size_def)
        obtain fs where fs: "out' = (out @ [?f]) @ fs" "\<forall>f \<in> set fs. frame_ok f"
          "drop (offset + ?full) buffer = concat (map frame_bytes fs) @ drop offset' buffer"
          "fs \<noteq> [] \<longrightarrow> length out' \<le> max_batch_frames"
          using "1.IH" [OF long refl Some refl refl _ refl _ _ rec le] 4 by blast
        have "?data = take ?full ?data @ drop (offset + ?full) buffer"
        proof -
          have "drop (offset + ?full) buffer = drop ?full ?data" by (simp only: drop_drop add.commute)
          then show ?thesis by (simp only: append_take_drop_id)
        qed
        then have "?data = concat (map frame_bytes (?f # fs)) @ drop offset' buffer" using f fs(3) by simp
        then show ?thesis
          using fs f(1) 4(3) by (intro exI [of _ "?f # fs"]) (cases "fs = []"; simp)
      qed
    qed
  qed
qed

section \<open>Properties\<close>

text \<open>C29.  Frames round trip: the frames of a batch, serialized one after the other and followed by the
  beginning of another frame, are all parsed and in order, and the beginning of the other one stays in
  the buffer.\<close>

theorem web_frames_roundtrip:
  assumes "\<forall>f \<in> set fs. frame_ok f" and "length out + length fs \<le> max_batch_frames"
    and "frame_ok next_frame" and "n < length (frame_bytes next_frame)"
  shows "parse_frames (concat (map frame_bytes fs) @ take n (frame_bytes next_frame)) out
    = (True, take n (frame_bytes next_frame), out @ fs)"
proof -
  let ?pre = "concat (map frame_bytes fs)" and ?rest = "take n (frame_bytes next_frame)"
  have "parse_frames_loop (?pre @ ?rest) 0 out = parse_frames_loop (?pre @ ?rest) (length ?pre) (out @ fs)"
    using parse_many [OF assms(1,2), of "[]" ?rest] by simp
  also have "\<dots> = (True, length ?pre, out @ fs)" by (rule parse_stop [OF assms(3) refl refl assms(4)])
  finally show ?thesis by (simp add: parse_frames_def)
qed

theorem web_frames_roundtrip_witness:
  "parse_frames (concat (map frame_bytes [\<lparr> frame_kind = FrameData, frame_stream = 7, frame_payload = [1, 2] \<rparr>])
      @ take 3 (frame_bytes \<lparr> frame_kind = FrameClose, frame_stream = 7, frame_payload = [] \<rparr>)) []
   = (True, take 3 (frame_bytes \<lparr> frame_kind = FrameClose, frame_stream = 7, frame_payload = [] \<rparr>),
      [\<lparr> frame_kind = FrameData, frame_stream = 7, frame_payload = [1, 2] \<rparr>])"
  using web_frames_roundtrip [of "[\<lparr> frame_kind = FrameData, frame_stream = 7, frame_payload = [1, 2] \<rparr>]" "[]"
      "\<lparr> frame_kind = FrameClose, frame_stream = 7, frame_payload = [] \<rparr>" 3]
  by (simp add: frame_ok_def max_frame_payload_def max_batch_frames_def length_frame_bytes frame_header_size_def)

text \<open>Nothing is invented: when parsing succeeds, the frames added are within the limits, their
  serialized forms are exactly the bytes taken off the buffer, and a batch never exceeds its limit;
  when it fails, the buffer is left as it was.\<close>

lemma web_frames_sound:
  assumes "parse_frames buffer out = (ok, rest, out')"
  shows "if ok then \<exists>fs. out' = out @ fs \<and> (\<forall>f \<in> set fs. frame_ok f)
      \<and> buffer = concat (map frame_bytes fs) @ rest \<and> (fs \<noteq> [] \<longrightarrow> length out' \<le> max_batch_frames)
    else rest = buffer"
proof -
  obtain ok1 k out1 where loop: "parse_frames_loop buffer 0 out = (ok1, k, out1)" by (metis prod_cases3)
  show ?thesis
  proof (cases ok1)
    case True
    then have ok: "ok" "rest = drop k buffer" "out' = out1" using assms loop by (auto simp: parse_frames_def)
    then show ?thesis using parse_loop_sound [of buffer 0 out k out1] loop True by auto
  next
    case False
    then show ?thesis using assms loop by (auto simp: parse_frames_def)
  qed
qed

theorem web_frames_sound_witness:
  "\<exists>fs. [] = ([] :: frame list) @ fs \<and> [0x01] = concat (map frame_bytes fs) @ [0x01 :: byte]"
proof -
  have "parse_frames [0x01] [] = (True, [0x01], [])"
    by (simp add: parse_frames_def parse_frames_loop.simps frame_header_size_def)
  then show ?thesis using web_frames_sound [of "[0x01]" "[]" True "[0x01]" "[]"] by auto
qed

end
