(* ===== verification/Web_Socket.thy ===== *)
theory Web_Socket
  imports Bytes
begin

text \<open>
  The local WebSocket between the program and the browser page
  (\<open>mtproto/web_proxy/web_proxy_transport.cpp\<close>): the frames it writes (\<open>WebSocketFrame\<close>,
  \<open>WebSocketHeaderSize\<close>) and the loop that takes the frames of a client off its input
  (\<open>processWebSocket\<close>).  What the loop does outside the client is returned as a list of effects in
  their order.  A complete message is handled outside; the argument \<open>react\<close> says for a message
  whether the client is still there afterwards and whether it is authenticated.
\<close>

definition max_local_payload :: nat where "max_local_payload = 2 * 1024 * 1024"

section \<open>Writing\<close>

definition be64_bytes :: "64 word \<Rightarrow> bytes" where
  "be64_bytes w = map (\<lambda>shift. ucast (drop_bit shift w)) [56, 48, 40, 32, 24, 16, 8, 0]"

definition web_socket_frame :: "byte \<Rightarrow> bytes \<Rightarrow> bytes" where
  "web_socket_frame opcode payload =
     (let n = (of_nat (length payload) :: 64 word)
      in [0x80 OR opcode]
         @ (if n < 126 then [ucast n]
            else if n \<le> 0xFFFF then [126, ucast (drop_bit 8 n), ucast n]
            else 127 # be64_bytes n)
         @ payload)"

definition web_socket_header_size :: "nat \<Rightarrow> nat" where
  "web_socket_header_size n = (if n < 126 then 2 else if n \<le> 0xFFFF then 4 else 10)"

section \<open>Reading\<close>

record ws_client =
  ws_input :: bytes
  ws_fragmented :: bytes
  ws_fragmented_opcode :: byte
  ws_authenticated :: bool

datatype ws_effect = WsClose nat | WsWrite byte bytes | WsDisconnect | WsMessage byte bytes

text \<open>The header: whether there is enough of it, the close code of a bad one, or the payload size and
  the header's length without the mask.\<close>

datatype ws_header = HeaderWait | HeaderBad nat | HeaderOk nat nat

definition ws_read_header :: "bytes \<Rightarrow> ws_header" where
  "ws_read_header data =
     (let masked = (data ! 1 AND 0x80 \<noteq> 0);
          n = unat (data ! 1 AND 0x7F)
      in if data ! 0 AND 0x70 \<noteq> 0 \<or> \<not> masked then HeaderBad 1002
         else if n = 126 then
           (if length data < 4 then HeaderWait
            else (let n = unat (data ! 2) * 256 + unat (data ! 3)
                  in if n < 126 then HeaderBad 1002 else HeaderOk n 4))
         else if n = 127 then
           (if length data < 10 then HeaderWait
            else if data ! 2 AND 0x80 \<noteq> 0 then HeaderBad 1002
            else (let n = foldl (\<lambda>n b. n * 256 + unat b) 0 (bytes_at 2 8 data)
                  in if n \<le> 0xFFFF then HeaderBad 1002 else HeaderOk n 10))
         else HeaderOk n 2)"

definition ws_unmask :: "bytes \<Rightarrow> bytes \<Rightarrow> bytes" where
  "ws_unmask key payload = map (\<lambda>i. payload ! i XOR key ! (i mod 4)) [0..<length payload]"

text \<open>One turn of the loop: not enough input, the end of the client, the next turn, or a complete message.\<close>

datatype ws_step = StepWait | StepEnd "ws_effect list" | StepNext ws_client "ws_effect list"
  | StepMessage ws_client byte bytes

definition ws_handle_frame :: "bool \<Rightarrow> byte \<Rightarrow> bytes \<Rightarrow> ws_client \<Rightarrow> ws_step" where
  "ws_handle_frame fin opcode payload c =
     (if opcode = 0x08 then
        (if length payload = 1 then StepEnd [WsClose 1002]
         else StepEnd [WsWrite 0x08 (take 125 payload), WsDisconnect])
      else if opcode = 0x09 then
        StepNext c (if ws_authenticated c then [WsWrite 0x0A payload] else [])
      else if opcode = 0x0A then StepNext c []
      else if opcode = 0x00 then
        (if ws_fragmented_opcode c = 0 then StepEnd [WsClose 1002]
         else
           (let parts = ws_fragmented c @ payload
            in if length parts > max_local_payload then StepEnd [WsClose 1009]
               else if fin then
                 StepMessage (c\<lparr> ws_fragmented := [], ws_fragmented_opcode := 0 \<rparr>) (ws_fragmented_opcode c) parts
               else StepNext (c\<lparr> ws_fragmented := parts \<rparr>) []))
      else if opcode = 0x01 \<or> opcode = 0x02 then
        (if ws_fragmented_opcode c \<noteq> 0 then StepEnd [WsClose 1002]
         else if fin then StepMessage c opcode payload
         else StepNext (c\<lparr> ws_fragmented_opcode := opcode, ws_fragmented := payload \<rparr>) [])
      else StepEnd [WsClose 1002])"

definition ws_turn :: "ws_client \<Rightarrow> ws_step" where
  "ws_turn c =
     (if length (ws_input c) < 2 then StepWait
      else
        (let data = ws_input c;
             fin = (data ! 0 AND 0x80 \<noteq> 0);
             opcode = data ! 0 AND 0x0F
         in case ws_read_header data of
              HeaderWait \<Rightarrow> StepWait
            | HeaderBad code \<Rightarrow> StepEnd [WsClose code]
            | HeaderOk n header \<Rightarrow>
                (if n > max_local_payload \<or> opcode AND 0x08 \<noteq> 0 \<and> (\<not> fin \<or> n > 125) then StepEnd [WsClose 1009]
                 else if length data < header + 4 + n then StepWait
                 else ws_handle_frame fin opcode (ws_unmask (drop header data) (bytes_at (header + 4) n data))
                        (c\<lparr> ws_input := drop (header + 4 + n) data \<rparr>))))"

lemma ws_handle_frame_input:
  "ws_handle_frame fin opcode payload c = StepNext c' es \<Longrightarrow> ws_input c' = ws_input c"
  "ws_handle_frame fin opcode payload c = StepMessage c' op msg \<Longrightarrow> ws_input c' = ws_input c"
  by (auto simp: ws_handle_frame_def Let_def split: if_splits)

lemma ws_turn_shorter [termination_simp]:
  "ws_turn c = StepNext c' es \<Longrightarrow> length (ws_input c') < length (ws_input c)"
  "ws_turn c = StepMessage c' op msg \<Longrightarrow> length (ws_input c') < length (ws_input c)"
  by (auto simp: ws_turn_def Let_def split: if_splits ws_header.splits dest!: ws_handle_frame_input)

function process_web_socket ::
  "(byte \<Rightarrow> bytes \<Rightarrow> bool \<Rightarrow> bool \<times> bool) \<Rightarrow> ws_client \<Rightarrow> ws_client option \<times> ws_effect list" where
  "process_web_socket react c =
     (case ws_turn c of
        StepWait \<Rightarrow> (Some c, [])
      | StepEnd es \<Rightarrow> (None, es)
      | StepNext c1 es \<Rightarrow> (let (r, es1) = process_web_socket react c1 in (r, es @ es1))
      | StepMessage c1 op msg \<Rightarrow>
          (let (there, auth) = react op msg (ws_authenticated c1)
           in if there then
                (let (r, es1) = process_web_socket react (c1\<lparr> ws_authenticated := auth \<rparr>) in (r, WsMessage op msg # es1))
              else (None, [WsMessage op msg])))"
  by pat_completeness auto

termination
  by (relation "measure (\<lambda>(_, c). length (ws_input c))") (auto simp: ws_turn_shorter)

declare process_web_socket.simps [simp del]

section \<open>The frames of a client\<close>

text \<open>The encoding of RFC 6455 that the browser uses: a masked frame with the shortest form of its length.\<close>

definition client_frame :: "bool \<Rightarrow> byte \<Rightarrow> bytes \<Rightarrow> bytes \<Rightarrow> bytes" where
  "client_frame fin opcode key payload =
     [(if fin then 0x80 else 0) OR opcode]
     @ (if length payload < 126 then [0x80 OR of_nat (length payload)]
        else if length payload \<le> 0xFFFF
        then [0x80 OR 126, of_nat (length payload div 256), of_nat (length payload mod 256)]
        else (0x80 OR 127) # be64_bytes (of_nat (length payload)))
     @ key @ ws_unmask key payload"

lemma length_be64_bytes [simp]: "length (be64_bytes w) = 8"
  by (simp add: be64_bytes_def)

lemma length_ws_unmask [simp]: "length (ws_unmask key payload) = length payload"
  by (simp add: ws_unmask_def)

lemma length_web_socket_frame:
  assumes "length payload < 2 ^ 32"
  shows "length (web_socket_frame opcode payload) = web_socket_header_size (length payload) + length payload"
proof -
  have "unat (of_nat (length payload) :: 64 word) = length payload"
    using assms by (simp add: unat_of_nat take_bit_nat_eq_self)
  then show ?thesis
    by (simp add: web_socket_frame_def web_socket_header_size_def Let_def word_less_nat_alt word_le_nat_alt)
qed

lemma ws_unmask_twice: "length key = 4 \<Longrightarrow> ws_unmask (key @ xs) (ws_unmask key payload) = payload"
  by (rule nth_equalityI) (simp_all add: ws_unmask_def nth_append xor.assoc)

lemma unat_byte_of: "unat (ucast (drop_bit k (w :: 64 word)) :: byte) = unat w div 2 ^ k mod 256"
proof -
  have "unat w < 2 ^ 64" using unsigned_less [of w] by simp
  then show ?thesis by (simp add: unsigned_ucast_eq unsigned_drop_bit_eq take_bit_nat_def drop_bit_nat_def)
qed

lemma be64_read: "foldl (\<lambda>n b. n * 256 + unat b) 0 (be64_bytes w) = unat w"
proof -
  define n where "n = unat w"
  have n: "n < 2 ^ 64" using unsigned_less [of w] by (simp add: n_def)
  have step: "n div 2 ^ (k + 8) * 256 + n div 2 ^ k mod 256 = n div 2 ^ k" for k
  proof -
    have "n div 2 ^ (k + 8) = n div 2 ^ k div 256" by (simp add: power_add div_mult2_eq)
    then show ?thesis by simp
  qed
  have top: "n div 2 ^ 56 mod 256 = n div 2 ^ 56" using n by simp
  have "foldl (\<lambda>n b. n * 256 + unat b) 0 (be64_bytes w)
    = (((((((n div 2 ^ 56) * 256 + n div 2 ^ 48 mod 256) * 256 + n div 2 ^ 40 mod 256) * 256
       + n div 2 ^ 32 mod 256) * 256 + n div 2 ^ 24 mod 256) * 256 + n div 2 ^ 16 mod 256) * 256
       + n div 2 ^ 8 mod 256) * 256 + n div 2 ^ 0 mod 256"
    unfolding be64_bytes_def using top unat_byte_of [of 0 w] by (simp add: unat_byte_of n_def)
  also have "\<dots> = n"
    using step [of 48] step [of 40] step [of 32] step [of 24] step [of 16] step [of 8] step [of 0] by simp
  finally show ?thesis by (simp add: n_def)
qed

lemma byte_mask_facts:
  assumes "unat (b :: byte) < 128"
  shows "(0x80 OR b) AND 0x80 \<noteq> 0" "unat ((0x80 OR b) AND 0x7F) = unat b"
proof -
  have "bit ((0x80 OR b) AND 0x80) 7" by (simp add: bit_simps)
  then show "(0x80 OR b) AND 0x80 \<noteq> 0" by auto
  have "(0x80 OR b) AND 0x7F = (0x80 AND 0x7F) OR (b AND 0x7F)" by (rule bit.conj_disj_distrib2)
  then have "(0x80 OR b) AND 0x7F = b AND 0x7F" by simp
  moreover have "(0x7F :: byte) = mask 7" by (simp add: mask_eq_exp_minus_1)
  ultimately have "(0x80 OR b) AND 0x7F = take_bit 7 b" by (simp add: take_bit_eq_mask)
  then show "unat ((0x80 OR b) AND 0x7F) = unat b"
    using assms by (simp add: unsigned_take_bit_eq take_bit_nat_eq_self)
qed

lemma opcode_facts:
  assumes "opcode \<in> {0x00, 0x01, 0x02}"
  shows "((if fin then 0x80 else 0) OR opcode) AND 0x70 = (0 :: byte)"
    "((if fin then 0x80 else 0) OR opcode) AND 0x0F = opcode"
    "((if fin then 0x80 else 0) OR opcode) AND 0x80 \<noteq> (0 :: byte) \<longleftrightarrow> fin"
    "opcode AND 0x08 = (0 :: byte)"
  using assms by auto

text \<open>The length bytes of a client frame are read back.\<close>

lemma read_client_header:
  assumes op: "opcode \<in> {0x00, 0x01, 0x02}" and len: "length payload \<le> max_local_payload"
  shows "ws_read_header (client_frame fin opcode key payload @ rest)
    = HeaderOk (length payload) (web_socket_header_size (length payload))"
proof -
  let ?n = "length payload"
  note o = opcode_facts [OF op]
  consider "?n < 126" | "126 \<le> ?n" "?n \<le> 0xFFFF" | "0xFFFF < ?n" by linarith
  then show ?thesis
  proof cases
    case 1
    then have "unat (of_nat ?n :: byte) = ?n" by (simp add: unat_of_nat take_bit_nat_eq_self)
    then show ?thesis
      using 1 o byte_mask_facts [of "of_nat ?n"]
      by (simp add: ws_read_header_def client_frame_def web_socket_header_size_def Let_def)
  next
    case 2
    have hi: "unat (of_nat (?n div 256) :: byte) = ?n div 256" and lo: "unat (of_nat (?n mod 256) :: byte) = ?n mod 256"
      using 2 by (simp_all add: unat_of_nat take_bit_nat_eq_self)
    show ?thesis
      using 2 o byte_mask_facts [of 126] hi lo
      by (simp add: ws_read_header_def client_frame_def web_socket_header_size_def Let_def)
  next
    case 3
    have u: "unat (of_nat ?n :: 64 word) = ?n" using len by (simp add: max_local_payload_def unat_of_nat take_bit_nat_eq_self)
    have at: "bytes_at 2 8 (client_frame fin opcode key payload @ rest) = be64_bytes (of_nat ?n)"
      using 3 by (simp add: client_frame_def bytes_at_def)
    have top: "(client_frame fin opcode key payload @ rest) ! 2 = 0"
    proof -
      have "unat (ucast (drop_bit 56 (of_nat ?n :: 64 word)) :: byte) = 0"
        unfolding unat_byte_of u using len by (simp add: max_local_payload_def)
      then show ?thesis using 3 by (simp add: client_frame_def be64_bytes_def unat_eq_0)
    qed
    have "length (client_frame fin opcode key payload @ rest) \<ge> 10" using 3 by (simp add: client_frame_def)
    moreover have "(client_frame fin opcode key payload @ rest) ! 0 = (if fin then 0x80 else 0) OR opcode"
      "(client_frame fin opcode key payload @ rest) ! 1 = 0x80 OR 127" using 3 by (simp_all add: client_frame_def)
    ultimately show ?thesis
      using 3 o byte_mask_facts [of 127] be64_read [of "of_nat ?n"] u top
      unfolding ws_read_header_def Let_def at by (simp add: web_socket_header_size_def)
  qed
qed

lemma turn_client_frame:
  assumes op: "opcode \<in> {0x00, 0x01, 0x02}" and len: "length payload \<le> max_local_payload" and key: "length key = 4"
    and c: "ws_input c = client_frame fin opcode key payload @ rest"
  shows "ws_turn c = ws_handle_frame fin opcode payload (c\<lparr> ws_input := rest \<rparr>)"
proof -
  let ?h = "web_socket_header_size (length payload)" and ?data = "ws_input c"
  obtain pre where pre: "client_frame fin opcode key payload = pre @ key @ ws_unmask key payload" "length pre = ?h"
    "pre ! 0 = (if fin then 0x80 else 0) OR opcode" "2 \<le> length pre"
  proof -
    let ?pre = "[(if fin then 0x80 else 0) OR opcode]
     @ (if length payload < 126 then [0x80 OR of_nat (length payload)]
        else if length payload \<le> 0xFFFF
        then [0x80 OR 126, of_nat (length payload div 256), of_nat (length payload mod 256)]
        else (0x80 OR 127) # be64_bytes (of_nat (length payload)))"
    show ?thesis
      by (rule that [of ?pre]) (simp_all add: client_frame_def web_socket_header_size_def)
  qed
  have data: "?data = pre @ key @ ws_unmask key payload @ rest" unfolding c pre(1) by simp
  have "drop ?h ?data = key @ ws_unmask key payload @ rest" "bytes_at (?h + 4) (length payload) ?data = ws_unmask key payload"
    "drop (?h + 4 + length payload) ?data = rest" "length ?data \<ge> ?h + 4 + length payload" "length ?data \<ge> 2"
    using key pre(2,4) unfolding data by (simp_all add: bytes_at_def)
  moreover have "?data ! 0 = (if fin then 0x80 else 0) OR opcode"
    using pre(3,4) unfolding data by (cases pre) auto
  moreover have "ws_read_header ?data = HeaderOk (length payload) ?h" unfolding c by (rule read_client_header [OF op len])
  ultimately show ?thesis
    using opcode_facts [OF op] len ws_unmask_twice [OF key]
    by (simp add: ws_turn_def Let_def)
qed

text \<open>A message in one or more frames.\<close>

fun encode_parts :: "byte \<Rightarrow> (bytes \<times> bytes) list \<Rightarrow> bytes" where
  "encode_parts op [] = []"
| "encode_parts op [(key, payload)] = client_frame True op key payload"
| "encode_parts op ((key, payload) # p # ps) = client_frame False op key payload @ encode_parts 0 (p # ps)"

definition message_ok :: "byte \<times> (bytes \<times> bytes) list \<Rightarrow> bool" where
  "message_ok m \<longleftrightarrow> fst m \<in> {0x01, 0x02} \<and> snd m \<noteq> [] \<and> (\<forall>p \<in> set (snd m). length (fst p) = 4)
     \<and> length (concat (map snd (snd m))) \<le> max_local_payload"

abbreviation message_text :: "byte \<times> (bytes \<times> bytes) list \<Rightarrow> bytes" where
  "message_text m \<equiv> concat (map snd (snd m))"

lemma process_step:
  "ws_turn c = StepNext c1 es \<Longrightarrow> process_web_socket react c = (let (r, es1) = process_web_socket react c1 in (r, es @ es1))"
  "ws_turn c = StepMessage c1 op msg \<Longrightarrow> fst (react op msg (ws_authenticated c1)) \<Longrightarrow>
     process_web_socket react c = (let (r, es1) = process_web_socket react
       (c1\<lparr> ws_authenticated := snd (react op msg (ws_authenticated c1)) \<rparr>) in (r, WsMessage op msg # es1))"
  by (simp_all add: process_web_socket.simps [of react c] split_beta Let_def)

lemma process_continuation:
  assumes "ps \<noteq> []" and "\<forall>p \<in> set ps. length (fst p) = 4" and "fo \<noteq> 0"
    and "length (sofar @ concat (map snd ps)) \<le> max_local_payload"
    and "ws_input c = encode_parts 0 ps @ rest" and "ws_fragmented_opcode c = fo" and "ws_fragmented c = sofar"
    and react: "\<And>op msg a. fst (react op msg a)"
  shows "\<exists>a. process_web_socket react c =
    (let (r, es) = process_web_socket react (c\<lparr> ws_input := rest, ws_fragmented := [], ws_fragmented_opcode := 0, ws_authenticated := a \<rparr>)
     in (r, WsMessage fo (sofar @ concat (map snd ps)) # es))"
  using assms(1-7)
proof (induction ps arbitrary: sofar c)
  case (Cons p ps)
  obtain key payload where p: "p = (key, payload)" by fastforce
  show ?case
  proof (cases ps)
    case Nil
    have "ws_turn c = ws_handle_frame True 0 payload (c\<lparr> ws_input := rest \<rparr>)"
      using Cons.prems Nil p by (intro turn_client_frame [of 0 payload key]) auto
    also have "\<dots> = StepMessage (c\<lparr> ws_input := rest, ws_fragmented := [], ws_fragmented_opcode := 0 \<rparr>) fo (sofar @ payload)"
      using Cons.prems Nil p by (simp add: ws_handle_frame_def Let_def)
    finally show ?thesis
      using process_step(2) [of c _ fo "sofar @ payload" react] react Nil p
      by (intro exI [of _ "snd (react fo (sofar @ payload) (ws_authenticated c))"]) simp
  next
    case (Cons q qs)
    let ?c = "c\<lparr> ws_input := encode_parts 0 ps @ rest, ws_fragmented := sofar @ payload \<rparr>"
    have "ws_turn c = ws_handle_frame False 0 payload (c\<lparr> ws_input := encode_parts 0 ps @ rest \<rparr>)"
      using Cons.prems Cons p by (intro turn_client_frame [of 0 payload key]) auto
    also have "\<dots> = StepNext ?c []"
      using Cons.prems Cons p by (simp add: ws_handle_frame_def Let_def)
    finally have "process_web_socket react c = process_web_socket react ?c" by (simp add: process_step(1))
    then show ?thesis using Cons.IH [of "sofar @ payload" ?c] Cons.prems Cons p by simp
  qed
qed simp

lemma process_message:
  assumes m: "message_ok m" and c: "ws_input c = encode_parts (fst m) (snd m) @ rest" "ws_fragmented_opcode c = 0" "ws_fragmented c = []"
    and react: "\<And>op msg a. fst (react op msg a)"
  shows "\<exists>a. process_web_socket react c =
    (let (r, es) = process_web_socket react (c\<lparr> ws_input := rest, ws_authenticated := a \<rparr>)
     in (r, WsMessage (fst m) (message_text m) # es))"
proof -
  obtain op p ps where mp: "m = (op, p # ps)" using m by (cases m; cases "snd m") (auto simp: message_ok_def)
  obtain key payload where p: "p = (key, payload)" by fastforce
  have op: "op \<in> {0x01, 0x02}" "op \<noteq> 0" using m by (auto simp: message_ok_def mp)
  have len: "length payload \<le> max_local_payload" "length key = 4" using m by (simp_all add: message_ok_def mp p)
  show ?thesis
  proof (cases ps)
    case Nil
    have "ws_turn c = ws_handle_frame True op payload (c\<lparr> ws_input := rest \<rparr>)"
      using c op len Nil by (intro turn_client_frame [of op payload key]) (auto simp: mp p)
    also have "\<dots> = StepMessage (c\<lparr> ws_input := rest \<rparr>) op payload"
      using op c by (auto simp: ws_handle_frame_def)
    finally show ?thesis
      using process_step(2) [of c _ op payload react] react
      by (intro exI [of _ "snd (react op payload (ws_authenticated c))"]) (simp add: mp p Nil)
  next
    case (Cons q qs)
    let ?c = "c\<lparr> ws_input := encode_parts 0 ps @ rest, ws_fragmented_opcode := op, ws_fragmented := payload \<rparr>"
    have "ws_turn c = ws_handle_frame False op payload (c\<lparr> ws_input := encode_parts 0 ps @ rest \<rparr>)"
      using c op len Cons by (intro turn_client_frame [of op payload key]) (auto simp: mp p)
    also have "\<dots> = StepNext ?c []" using op c by (auto simp: ws_handle_frame_def)
    finally have step: "process_web_socket react c = process_web_socket react ?c" by (simp add: process_step(1))
    have "\<exists>a. process_web_socket react ?c =
      (let (r, es) = process_web_socket react (?c\<lparr> ws_input := rest, ws_fragmented := [], ws_fragmented_opcode := 0, ws_authenticated := a \<rparr>)
       in (r, WsMessage op (payload @ concat (map snd ps)) # es))"
      using m Cons op by (intro process_continuation react) (auto simp: message_ok_def mp p)
    moreover have "?c\<lparr> ws_input := rest, ws_fragmented := [], ws_fragmented_opcode := 0, ws_authenticated := a \<rparr>
        = c\<lparr> ws_input := rest, ws_authenticated := a \<rparr>" for a
      using c by (cases c) simp
    ultimately show ?thesis unfolding step by (simp add: mp p)
  qed
qed

section \<open>Properties\<close>

text \<open>C20.  Messages arrive as they were sent: for any messages of a browser, each in one or more masked
  frames, followed by input that holds no complete frame, the loop delivers exactly these messages,
  joined, unmasked and in order, and leaves the rest of the input.\<close>

theorem web_socket_messages:
  assumes "\<forall>m \<in> set msgs. message_ok m"
    and "ws_input c = concat (map (\<lambda>m. encode_parts (fst m) (snd m)) msgs) @ rest"
    and "ws_fragmented_opcode c = 0" and "ws_fragmented c = []"
    and "\<And>op msg a. fst (react op msg a)" and "\<And>c. ws_input c = rest \<Longrightarrow> ws_turn c = StepWait"
  shows "\<exists>c'. process_web_socket react c = (Some c', map (\<lambda>m. WsMessage (fst m) (message_text m)) msgs)
    \<and> ws_input c' = rest \<and> ws_fragmented_opcode c' = 0"
  using assms(1-4)
proof (induction msgs arbitrary: c)
  case Nil
  then have "ws_turn c = StepWait" using assms(6) by simp
  then show ?case using Nil by (simp add: process_web_socket.simps [of react c])
next
  case (Cons m ms)
  let ?rest = "concat (map (\<lambda>m. encode_parts (fst m) (snd m)) ms) @ rest"
  obtain a where a: "process_web_socket react c =
    (let (r, es) = process_web_socket react (c\<lparr> ws_input := ?rest, ws_authenticated := a \<rparr>)
     in (r, WsMessage (fst m) (message_text m) # es))"
    using process_message [of m c ?rest react] Cons.prems assms(5) by auto
  obtain c' where "process_web_socket react (c\<lparr> ws_input := ?rest, ws_authenticated := a \<rparr>)
      = (Some c', map (\<lambda>m. WsMessage (fst m) (message_text m)) ms)" "ws_input c' = rest" "ws_fragmented_opcode c' = 0"
    using Cons.IH [of "c\<lparr> ws_input := ?rest, ws_authenticated := a \<rparr>"] Cons.prems by auto
  then show ?case using a by simp
qed

theorem web_socket_messages_witness:
  "\<exists>c'. process_web_socket (\<lambda>op msg a. (True, a))
      \<lparr> ws_input = encode_parts 2 [([1, 2, 3, 4], [7, 8]), ([5, 6, 7, 8], [9])] @ [0x82],
        ws_fragmented = [], ws_fragmented_opcode = 0, ws_authenticated = True \<rparr>
    = (Some c', [WsMessage 2 [7, 8, 9]]) \<and> ws_input c' = [0x82]"
proof -
  have "\<And>c. ws_input c = [0x82] \<Longrightarrow> ws_turn c = StepWait" by (simp add: ws_turn_def)
  then show ?thesis
    using web_socket_messages [of "[(2, [([1, 2, 3, 4], [7, 8]), ([5, 6, 7, 8], [9])])]"
        "\<lparr> ws_input = encode_parts 2 [([1, 2, 3, 4], [7, 8]), ([5, 6, 7, 8], [9])] @ [0x82],
          ws_fragmented = [], ws_fragmented_opcode = 0, ws_authenticated = True \<rparr>" "[0x82]" "\<lambda>op msg a. (True, a)"]
    by (auto simp: message_ok_def max_local_payload_def)
qed

definition ws_ok :: "ws_client \<Rightarrow> bool" where
  "ws_ok c \<longleftrightarrow> length (ws_fragmented c) \<le> max_local_payload \<and> ws_fragmented_opcode c \<in> {0, 1, 2}
     \<and> (ws_fragmented_opcode c = 0 \<longrightarrow> ws_fragmented c = [])"

definition ws_effect_ok :: "ws_effect \<Rightarrow> bool" where
  "ws_effect_ok e \<longleftrightarrow> (\<forall>op msg. e = WsMessage op msg \<longrightarrow> op \<in> {1, 2} \<and> length msg \<le> max_local_payload)"

lemma ws_handle_frame_ok:
  assumes "ws_ok c" and "length payload \<le> max_local_payload"
  shows "ws_handle_frame fin op payload c = StepNext c' es \<Longrightarrow> ws_ok c' \<and> list_all ws_effect_ok es"
    "ws_handle_frame fin op payload c = StepMessage c' op' msg \<Longrightarrow> ws_ok c' \<and> ws_effect_ok (WsMessage op' msg)"
    "ws_handle_frame fin op payload c = StepEnd es \<Longrightarrow> list_all ws_effect_ok es"
  using assms by (auto simp: ws_handle_frame_def ws_ok_def ws_effect_ok_def max_local_payload_def Let_def split: if_splits)

lemma ws_turn_ok:
  assumes "ws_ok c"
  shows "ws_turn c = StepNext c' es \<Longrightarrow> ws_ok c' \<and> list_all ws_effect_ok es"
    "ws_turn c = StepMessage c' op' msg \<Longrightarrow> ws_ok c' \<and> ws_effect_ok (WsMessage op' msg)"
    "ws_turn c = StepEnd es \<Longrightarrow> list_all ws_effect_ok es"
proof -
  have *: "ws_turn c = StepWait \<or> (\<exists>code. ws_turn c = StepEnd [WsClose code])
    \<or> (\<exists>fin op payload data. length payload \<le> max_local_payload
        \<and> ws_turn c = ws_handle_frame fin op payload (c\<lparr> ws_input := data \<rparr>))"
  proof (cases "length (ws_input c) < 2")
    case True
    then show ?thesis by (simp add: ws_turn_def)
  next
    case long: False
    show ?thesis
    proof (cases "ws_read_header (ws_input c)")
      case (HeaderOk n h)
      have "length (ws_unmask k (bytes_at i n b)) \<le> n" for k i b by (simp add: bytes_at_def)
      let ?op = "ws_input c ! 0 AND 0x0F" and ?fin = "ws_input c ! 0 AND 0x80 \<noteq> 0"
      let ?payload = "ws_unmask (drop h (ws_input c)) (bytes_at (h + 4) n (ws_input c))"
      consider "n > max_local_payload \<or> ?op AND 0x08 \<noteq> 0 \<and> (\<not> ?fin \<or> n > 125)" | "length (ws_input c) < h + 4 + n"
        | "\<not> (n > max_local_payload \<or> ?op AND 0x08 \<noteq> 0 \<and> (\<not> ?fin \<or> n > 125))" "\<not> length (ws_input c) < h + 4 + n"
        by blast
      then show ?thesis
      proof cases
        case 1
        then have "ws_turn c = StepEnd [WsClose 1009]" using long HeaderOk by (simp add: ws_turn_def Let_def)
        then show ?thesis by blast
      next
        case 2
        then have "ws_turn c = StepEnd [WsClose 1009] \<or> ws_turn c = StepWait" using long HeaderOk by (simp add: ws_turn_def Let_def)
        then show ?thesis by blast
      next
        case 3
        have "ws_turn c = ws_handle_frame ?fin ?op ?payload (c\<lparr> ws_input := drop (h + 4 + n) (ws_input c) \<rparr>)"
          unfolding ws_turn_def Let_def HeaderOk if_not_P [OF long] ws_header.case if_not_P [OF 3(1)] if_not_P [OF 3(2)]
          by (rule refl)
        moreover have "length ?payload \<le> max_local_payload"
          using 3(1) by (simp add: bytes_at_def min.coboundedI2 not_less)
        ultimately show ?thesis by blast
      qed
    qed (use long in \<open>auto simp: ws_turn_def Let_def\<close>)
  qed
  have ok: "ws_ok (c\<lparr> ws_input := data \<rparr>)" for data using assms by (simp add: ws_ok_def)
  show "ws_ok c' \<and> list_all ws_effect_ok es" if h: "ws_turn c = StepNext c' es"
    using * h ws_handle_frame_ok(1) [OF ok] by fastforce
  show "ws_ok c' \<and> ws_effect_ok (WsMessage op' msg)" if h: "ws_turn c = StepMessage c' op' msg"
    using * h ws_handle_frame_ok(2) [OF ok] by fastforce
  show "list_all ws_effect_ok es" if h: "ws_turn c = StepEnd es"
  proof -
    consider code where "es = [WsClose code]" | fin op payload data where "length payload \<le> max_local_payload"
      "ws_handle_frame fin op payload (c\<lparr> ws_input := data \<rparr>) = StepEnd es" using * h by fastforce
    then show ?thesis by cases (simp add: ws_effect_ok_def, rule ws_handle_frame_ok(3) [OF ok])
  qed
qed

text \<open> Whatever a client sends, the memory held for it stays bounded: while it is there, the parts of
  an unfinished message are at most 2 MiB and are held only inside one; a message handed on is a text
  or binary one of at most 2 MiB.\<close>

theorem web_socket_bounded:
  assumes "ws_ok c"
  shows "pred_option ws_ok (fst (process_web_socket react c))
    \<and> list_all ws_effect_ok (snd (process_web_socket react c))"
  using assms
proof (induction react c rule: process_web_socket.induct)
  case (1 react c)
  note eq = process_web_socket.simps [of react c]
  show ?case
  proof (cases "ws_turn c")
    case StepWait
    then show ?thesis using "1.prems" by (simp add: eq)
  next
    case (StepEnd es)
    then show ?thesis using ws_turn_ok(3) [OF "1.prems"] by (simp add: eq)
  next
    case (StepNext c1 es)
    then show ?thesis using ws_turn_ok(1) [OF "1.prems" StepNext] "1.IH"(1) [OF StepNext]
      by (simp add: eq split_beta Let_def)
  next
    case (StepMessage c1 op msg)
    obtain there auth where r: "react op msg (ws_authenticated c1) = (there, auth)" by fastforce
    have ok: "ws_ok (c1\<lparr> ws_authenticated := auth \<rparr>)" "ws_effect_ok (WsMessage op msg)"
      using ws_turn_ok(2) [OF "1.prems" StepMessage] by (simp_all add: ws_ok_def)
    show ?thesis
      using ok "1.IH"(2) [OF StepMessage r [symmetric] refl] StepMessage r
      by (cases there) (simp_all add: eq split_beta Let_def)
  qed
qed

theorem web_socket_bounded_witness:
  "pred_option ws_ok (fst (process_web_socket (\<lambda>op msg a. (True, a))
      \<lparr> ws_input = [0x81], ws_fragmented = [], ws_fragmented_opcode = 0, ws_authenticated = False \<rparr>))"
  using web_socket_bounded [of "\<lparr> ws_input = [0x81], ws_fragmented = [], ws_fragmented_opcode = 0, ws_authenticated = False \<rparr>"]
  by (simp add: ws_ok_def)

end
