(* ===== verification/Web_Proxy_Transport.thy ===== *)
theory Web_Proxy_Transport
  imports Web_Proxy_Frame Web_Socket
begin

text \<open>
  \<open>WebProxy::Transport::Private\<close> (\<open>mtproto/web_proxy/web_proxy_transport.cpp\<close>): many streams share one
  carrier (a web view or a browser socket) with flow control, bounded queues and control frames that
  go before data.  An operation takes the state and returns it with the effects in their order, or
  \<open>None\<close> when an \<open>Expects\<close> or \<open>Assert\<close> fails.  The two atomic counters of the owner that bound all
  pending data are part of the state, as are the calls queued for the transport's thread.  The write
  buffer of the browser socket is its number of bytes, and browser sockets are numbered as they come;
  the disconnection of a socket after a close is a later operation, because the close frame is still
  in that buffer.  Times are arguments.
\<close>

definition max_pending_stream_bytes :: int where "max_pending_stream_bytes = 8 * 1024 * 1024"
definition max_pending_stream_items :: nat where "max_pending_stream_items = 1024"
definition max_pending_transport_bytes :: int where "max_pending_transport_bytes = 64 * 1024 * 1024"
definition max_pending_transport_items :: int where "max_pending_transport_items = 8192"
definition max_socket_pending_bytes :: int where "max_socket_pending_bytes = 4 * 1024 * 1024"
definition socket_control_reserve :: int where "socket_control_reserve = 64 * 1024"
definition max_pending_control_bytes :: int where "max_pending_control_bytes = 64 * 1024"
definition max_pending_control_frames :: nat where "max_pending_control_frames = 1024"
definition max_flush_frames_per_turn :: nat where "max_flush_frames_per_turn = 256"
definition data_frame_size :: nat where "data_frame_size = 64 * 1024"
definition max_closed_stream_ids :: nat where "max_closed_stream_ids = 4096"
definition max_webview_pending_items :: int where "max_webview_pending_items = 512"
definition webview_items_control_reserve :: int where "webview_items_control_reserve = 64"
definition window_flush_bytes :: nat where "window_flush_bytes = 256 * 1024"
definition write_progress_timeout :: int where "write_progress_timeout = 30 * 1000"

section \<open>The state\<close>

type_synonym stream_id = "32 word"

record wt_stream =
  st_pending :: "(bytes \<times> nat) list"
  st_send_window :: nat
  st_receive_window :: nat
  st_pending_window :: nat
  st_pending_bytes :: int
  st_opened :: bool

definition new_stream :: wt_stream where
  "new_stream = \<lparr> st_pending = [], st_send_window = initial_stream_window, st_receive_window = initial_stream_window,
     st_pending_window = 0, st_pending_bytes = 0, st_opened = False \<rparr>"

datatype wt_state = Idle | Connecting | WaitingForBrowser | Connected | Failed

datatype wt_task = TaskSend stream_id bytes | TaskPayload "64 word" bytes | TaskProtocolError | TaskSocketError nat

datatype wt_event =
    NotifyConnected stream_id
  | NotifyData stream_id bytes
  | NotifyDisconnected stream_id
  | NotifyFailed stream_id
  | CarrierWebview "64 word" bytes
  | CarrierSocket bytes
  | StateChanged wt_state string
  | StartProgressTimer "64 word"
  | StartWindowTimer
  | FinishWebview "64 word"
  | CloseSocket

record web_transport =
  wt_streams :: "(stream_id \<times> wt_stream) list"
  wt_ready :: "stream_id list"
  wt_ready_set :: "stream_id set"
  wt_closed :: "stream_id set"
  wt_closed_order :: "stream_id list"
  wt_control :: "bytes list"
  wt_control_bytes :: int
  wt_browser :: "int option"
  wt_socket :: nat
  wt_proxy :: "string option"
  wt_browser_name :: string
  wt_conn_state :: wt_state
  wt_candidate :: "64 word"
  wt_generation :: "64 word"
  wt_webview_bytes :: int
  wt_webview_items :: int
  wt_welcomed :: bool
  wt_write_failed :: bool
  wt_progress_scheduled :: bool
  wt_window_scheduled :: bool
  wt_last_progress :: int
  wt_owner_bytes :: int
  wt_owner_items :: int
  wt_queue :: "wt_task list"

type_synonym wt_op = "web_transport \<Rightarrow> (web_transport \<times> wt_event list) option"

definition wt_pure :: "(web_transport \<Rightarrow> web_transport) \<Rightarrow> wt_op" where
  "wt_pure f s = Some (f s, [])"

definition wt_emit :: "wt_event \<Rightarrow> wt_op" where
  "wt_emit e s = Some (s, [e])"

definition wt_when :: "bool \<Rightarrow> wt_op \<Rightarrow> wt_op" where
  "wt_when b f s = (if b then f s else Some (s, []))"

fun wt_all :: "wt_op list \<Rightarrow> wt_op" where
  "wt_all [] s = Some (s, [])"
| "wt_all (f # fs) s =
     (case f s of None \<Rightarrow> None
      | Some (s1, es1) \<Rightarrow> map_option (\<lambda>(s2, es2). (s2, es1 @ es2)) (wt_all fs s1))"

section \<open>The owner's counters\<close>

definition owner_reserve :: "int \<Rightarrow> web_transport \<Rightarrow> bool \<times> web_transport" where
  "owner_reserve n s =
     (if wt_owner_items s \<ge> max_pending_transport_items then (False, s)
      else if wt_owner_bytes s > max_pending_transport_bytes - n then (False, s)
      else (True, s\<lparr> wt_owner_bytes := wt_owner_bytes s + n, wt_owner_items := wt_owner_items s + 1 \<rparr>))"

definition owner_release :: "int \<Rightarrow> int \<Rightarrow> wt_op" where
  "owner_release n items s =
     (if n < 0 \<or> items < 0 then None
      else if n \<noteq> 0 \<and> wt_owner_bytes s < n then None
      else if items \<noteq> 0 \<and> wt_owner_items s < items then None
      else Some (s\<lparr> wt_owner_bytes := wt_owner_bytes s - n, wt_owner_items := wt_owner_items s - items \<rparr>, []))"

section \<open>Streams by id\<close>

definition wt_find :: "stream_id \<Rightarrow> web_transport \<Rightarrow> wt_stream option" where
  "wt_find i s = map_of (wt_streams s) i"

definition wt_update :: "stream_id \<Rightarrow> (wt_stream \<Rightarrow> wt_stream) \<Rightarrow> web_transport \<Rightarrow> web_transport" where
  "wt_update i f s = s\<lparr> wt_streams := map (\<lambda>(j, st). if j = i then (j, f st) else (j, st)) (wt_streams s) \<rparr>"

definition wt_erase :: "stream_id \<Rightarrow> web_transport \<Rightarrow> web_transport" where
  "wt_erase i s = s\<lparr> wt_streams := filter (\<lambda>(j, _). j \<noteq> i) (wt_streams s) \<rparr>"

definition release_stream :: "wt_stream \<Rightarrow> wt_op" where
  "release_stream st = owner_release (st_pending_bytes st) (int (length (st_pending st)))"

definition unmark_ready :: "stream_id \<Rightarrow> web_transport \<Rightarrow> web_transport" where
  "unmark_ready i s = s\<lparr> wt_ready_set := wt_ready_set s - {i} \<rparr>"

definition mark_ready :: "stream_id \<Rightarrow> web_transport \<Rightarrow> web_transport" where
  "mark_ready i s =
     (case wt_find i s of None \<Rightarrow> s
      | Some st \<Rightarrow>
          if \<not> st_opened st \<or> st_send_window st = 0 \<or> st_pending st = [] \<or> i \<in> wt_ready_set s then s
          else s\<lparr> wt_ready_set := insert i (wt_ready_set s), wt_ready := wt_ready s @ [i] \<rparr>)"

definition remember_closed :: "stream_id \<Rightarrow> web_transport \<Rightarrow> web_transport" where
  "remember_closed i s =
     (if i \<in> wt_closed s then s
      else
        (let order = wt_closed_order s @ [i]; closed = insert i (wt_closed s)
         in if length order > max_closed_stream_ids
            then s\<lparr> wt_closed := closed - {hd order}, wt_closed_order := tl order \<rparr>
            else s\<lparr> wt_closed := closed, wt_closed_order := order \<rparr>))"

text \<open>The common end of a stream: erased, unmarked, its pending data released.\<close>

definition drop_stream :: "stream_id \<Rightarrow> wt_stream \<Rightarrow> wt_op" where
  "drop_stream i st = wt_all [wt_pure (wt_erase i), wt_pure (unmark_ready i), release_stream st]"

definition close_all_streams :: "bool \<Rightarrow> wt_op" where
  "close_all_streams fail s =
     wt_all (wt_pure (\<lambda>s. s\<lparr> wt_streams := [], wt_ready := [], wt_ready_set := {} \<rparr>)
       # map (\<lambda>(i, st). wt_all [release_stream st, wt_emit (if fail then NotifyFailed i else NotifyDisconnected i)])
           (wt_streams s)) s"

section \<open>The carrier\<close>

definition set_conn_state :: "wt_state \<Rightarrow> string \<Rightarrow> wt_op" where
  "set_conn_state st name s =
     (if wt_conn_state s = st \<and> wt_browser_name s = name then Some (s, [])
      else Some (s\<lparr> wt_conn_state := st, wt_browser_name := name \<rparr>, [StateChanged st name]))"

definition carrier_available :: "web_transport \<Rightarrow> bool" where
  "carrier_available s \<longleftrightarrow> wt_generation s \<noteq> 0 \<or> wt_browser s \<noteq> None"

definition carrier_pending_bytes :: "web_transport \<Rightarrow> int" where
  "carrier_pending_bytes s =
     (if wt_generation s \<noteq> 0 then wt_webview_bytes s
      else case wt_browser s of Some n \<Rightarrow> n | None \<Rightarrow> 0)"

definition carrier_pending_items :: "web_transport \<Rightarrow> int" where
  "carrier_pending_items s = (if wt_generation s \<noteq> 0 then wt_webview_items s else 0)"

definition carrier_frame_size :: "nat \<Rightarrow> web_transport \<Rightarrow> int" where
  "carrier_frame_size n s = int n + (if wt_generation s \<noteq> 0 then 0 else int (web_socket_header_size n))"

definition carrier_accepts :: "nat \<Rightarrow> bool \<Rightarrow> web_transport \<Rightarrow> bool" where
  "carrier_accepts n control s \<longleftrightarrow>
     (let bytes_limit = (if control then max_socket_pending_bytes else max_socket_pending_bytes - socket_control_reserve);
          items_limit = (if control then max_webview_pending_items
                         else max_webview_pending_items - webview_items_control_reserve)
      in carrier_pending_bytes s \<le> bytes_limit - carrier_frame_size n s \<and> carrier_pending_items s < items_limit)"

definition write_carrier_frame :: "bytes \<Rightarrow> wt_op" where
  "write_carrier_frame b s =
     (if wt_generation s \<noteq> 0 then
        Some (s\<lparr> wt_webview_bytes := wt_webview_bytes s + int (length b), wt_webview_items := wt_webview_items s + 1 \<rparr>,
              [CarrierWebview (wt_generation s) b])
      else case wt_browser s of None \<Rightarrow> Some (s, [])
      | Some n \<Rightarrow> Some (s\<lparr> wt_browser := Some (n + int (length (web_socket_frame 0x02 b))) \<rparr>,
                        [CarrierSocket (web_socket_frame 0x02 b)]))"

definition ensure_write_progress :: wt_op where
  "ensure_write_progress s =
     (if wt_progress_scheduled s \<or> \<not> carrier_available s then Some (s, [])
      else Some (s\<lparr> wt_progress_scheduled := True \<rparr>, [StartProgressTimer (wt_generation s)]))"

definition queue_control_frame :: "bytes \<Rightarrow> wt_op" where
  "queue_control_frame b s =
     (if \<not> carrier_available s \<or> wt_write_failed s then Some (s, [])
      else if wt_control s = [] \<and> carrier_accepts (length b) True s then
        wt_all [write_carrier_frame b, ensure_write_progress] s
      else if int (length b) > max_pending_control_bytes \<or> length (wt_control s) \<ge> max_pending_control_frames
           \<or> wt_control_bytes s > max_pending_control_bytes - int (length b) then
        Some (s\<lparr> wt_write_failed := True, wt_queue := wt_queue s @ [TaskProtocolError] \<rparr>, [])
      else
        wt_all [wt_pure (\<lambda>s. s\<lparr> wt_control_bytes := wt_control_bytes s + int (length b), wt_control := wt_control s @ [b] \<rparr>),
                ensure_write_progress] s)"

definition send_frame :: "frame_type \<Rightarrow> stream_id \<Rightarrow> bytes \<Rightarrow> wt_op" where
  "send_frame t i payload s =
     (if \<not> carrier_available s then Some (s, [])
      else case serialize_frame t i payload of None \<Rightarrow> None | Some b \<Rightarrow> queue_control_frame b s)"

fun flush_control_loop :: "bytes list \<Rightarrow> wt_op" where
  "flush_control_loop [] s = Some (s, [])"
| "flush_control_loop (b # bs) s =
     (if \<not> carrier_available s \<or> \<not> carrier_accepts (length b) True s then Some (s, [])
      else wt_all [write_carrier_frame b,
                   wt_pure (\<lambda>s. s\<lparr> wt_control_bytes := wt_control_bytes s - int (length b), wt_control := bs \<rparr>),
                   flush_control_loop bs] s)"

definition flush_control_frames :: wt_op where
  "flush_control_frames s =
     wt_all [flush_control_loop (wt_control s),
             \<lambda>s. wt_when (carrier_available s \<and> (wt_control s \<noteq> [] \<or> carrier_pending_bytes s > 0)) ensure_write_progress s] s"

section \<open>Sending data\<close>

definition flush_stream :: "stream_id \<Rightarrow> wt_op" where
  "flush_stream i s =
     (case wt_find i s of None \<Rightarrow> Some (s, [])
      | Some st \<Rightarrow>
          if \<not> st_opened st \<or> \<not> carrier_available s then Some (s, [])
          else if st_send_window st = 0 \<or> st_pending st = [] \<or> wt_write_failed s then Some (s, [])
          else
            (let allowance = max_socket_pending_bytes - socket_control_reserve - carrier_pending_bytes s
             in if allowance \<le> int frame_header_size + 10 \<or> \<not> carrier_accepts (frame_header_size + 1) False s
                then Some (s, [])
                else
                  (let (data, offset) = hd (st_pending st);
                       remaining = length data - offset;
                       n = min (st_send_window st) (min remaining
                             (min data_frame_size (nat (allowance - int frame_header_size - 10))))
                   in case serialize_frame FrameData i (bytes_at offset n data) of None \<Rightarrow> None
                      | Some b \<Rightarrow>
                          wt_all
                            [write_carrier_frame b,
                             wt_pure (wt_update i (\<lambda>st. st\<lparr> st_pending := (data, offset + n) # tl (st_pending st),
                               st_pending_bytes := st_pending_bytes st - int n, st_send_window := st_send_window st - n \<rparr>)),
                             owner_release (int n) (if offset + n = length data then 1 else 0),
                             wt_when (offset + n = length data)
                               (wt_pure (wt_update i (\<lambda>st. st\<lparr> st_pending := tl (st_pending st) \<rparr>))),
                             ensure_write_progress] s)))"

text \<open>The loop over the ready streams; the first argument counts the frames it may still write.\<close>

function flush_streams_loop :: "nat \<Rightarrow> wt_op" where
  "flush_streams_loop n s =
     (case wt_ready s of [] \<Rightarrow> Some (s, [])
      | i # rest \<Rightarrow>
          if n = 0 \<or> \<not> carrier_accepts (frame_header_size + 1) False s then Some (s, [])
          else if i \<notin> wt_ready_set s then flush_streams_loop n (s\<lparr> wt_ready := rest \<rparr>)
          else
            (case flush_stream i (s\<lparr> wt_ready := rest, wt_ready_set := wt_ready_set s - {i} \<rparr>) of None \<Rightarrow> None
             | Some (s1, es1) \<Rightarrow>
                 map_option (\<lambda>(s2, es2). (s2, es1 @ es2)) (flush_streams_loop (n - 1) (mark_ready i s1))))"
  by pat_completeness auto

termination
  by (relation "measures [\<lambda>(n, s). n, \<lambda>(n, s). length (wt_ready s)]") auto

declare flush_streams_loop.simps [simp del]

definition flush_streams :: wt_op where
  "flush_streams s =
     (if \<not> carrier_available s \<or> wt_write_failed s then Some (s, [])
      else
        wt_all [flush_control_frames,
                \<lambda>s. wt_when (wt_control s = [])
                     (wt_all [flush_streams_loop max_flush_frames_per_turn,
                              \<lambda>s. wt_when (carrier_pending_bytes s > 0) ensure_write_progress s]) s] s)"

section \<open>Errors and the start of a session\<close>

text \<open>\<open>writeWebSocket\<close> on the browser's socket, and \<open>closeWebSocket\<close> on it.\<close>

definition write_web_socket :: "byte \<Rightarrow> bytes \<Rightarrow> wt_op" where
  "write_web_socket opcode payload s =
     (case wt_browser s of None \<Rightarrow> Some (s, [])
      | Some n \<Rightarrow>
          (let b = web_socket_frame opcode payload
           in if wt_write_failed s \<or> int (length b) > max_socket_pending_bytes
                 \<or> n > max_socket_pending_bytes - int (length b)
              then Some (if wt_write_failed s then s
                         else s\<lparr> wt_write_failed := True, wt_queue := wt_queue s @ [TaskSocketError (wt_socket s)] \<rparr>, [])
              else Some (s\<lparr> wt_browser := Some (n + int (length b)) \<rparr>, [CarrierSocket b])))"

definition close_payload :: "nat \<Rightarrow> bytes" where
  "close_payload code = [of_nat (code div 256), of_nat code]"

definition close_browser_socket :: "nat \<Rightarrow> wt_op" where
  "close_browser_socket code s =
     wt_when (wt_browser s \<noteq> None) (wt_all [write_web_socket 0x08 (close_payload code), wt_emit CloseSocket]) s"

text \<open>\<open>closeWebSocket\<close> on a socket that is not the browser's: nothing bounds its buffer.\<close>

definition close_other_socket :: "nat \<Rightarrow> wt_op" where
  "close_other_socket code = wt_all [wt_emit (CarrierSocket (web_socket_frame 0x08 (close_payload code))), wt_emit CloseSocket]"

definition webview_failed :: "64 word \<Rightarrow> wt_op" where
  "webview_failed gen s =
     (let candidate = (wt_candidate s = gen); active = (wt_generation s = gen)
      in if \<not> candidate \<and> \<not> active then Some (s, [])
         else
           wt_all
             [wt_when candidate (wt_pure (\<lambda>s. s\<lparr> wt_candidate := 0 \<rparr>)),
              wt_when active (wt_all
                [wt_pure (\<lambda>s. s\<lparr> wt_generation := 0, wt_webview_bytes := 0, wt_webview_items := 0, wt_welcomed := False \<rparr>),
                 close_all_streams False,
                 wt_pure (\<lambda>s. s\<lparr> wt_ready := [], wt_ready_set := {}, wt_control := [], wt_control_bytes := 0,
                   wt_write_failed := False, wt_progress_scheduled := False, wt_last_progress := 0,
                   wt_closed := {}, wt_closed_order := [] \<rparr>)]),
              \<lambda>s. wt_when (wt_browser s = None \<and> wt_conn_state s \<noteq> WaitingForBrowser) (set_conn_state Connecting []) s] s)"

definition protocol_error :: wt_op where
  "protocol_error s =
     (if wt_generation s \<noteq> 0 then
        wt_all [close_all_streams True, webview_failed (wt_generation s), wt_emit (FinishWebview (wt_generation s))] s
      else
        wt_all
          [close_all_streams True,
           wt_pure (\<lambda>s. s\<lparr> wt_ready := [], wt_ready_set := {}, wt_control := [], wt_control_bytes := 0,
             wt_closed := {}, wt_closed_order := [], wt_welcomed := False \<rparr>),
           \<lambda>s. set_conn_state Failed (wt_browser_name s) s,
           close_browser_socket 1002] s)"

definition lose_browser :: "bool \<Rightarrow> wt_op" where
  "lose_browser fail s =
     wt_all
       [wt_pure (\<lambda>s. s\<lparr> wt_welcomed := False \<rparr>),
        close_all_streams fail,
        wt_pure (\<lambda>s. s\<lparr> wt_ready := [], wt_ready_set := {}, wt_control := [], wt_control_bytes := 0,
          wt_closed := {}, wt_closed_order := [] \<rparr>),
        \<lambda>s. set_conn_state (if wt_candidate s \<noteq> 0 then Connecting else if fail then Failed else WaitingForBrowser)
              (wt_browser_name s) s] s"

definition relay_welcome :: wt_op where
  "relay_welcome s =
     (if wt_welcomed s \<or> \<not> carrier_available s then protocol_error s
      else
        wt_all
          [wt_pure (\<lambda>s. s\<lparr> wt_welcomed := True \<rparr>),
           \<lambda>s. set_conn_state Connected (wt_browser_name s) s,
           wt_all (map (\<lambda>(i, _). wt_all [wt_pure (wt_update i (\<lambda>st. st\<lparr> st_opened := True \<rparr>)),
                                          send_frame FrameOpen i [], wt_emit (NotifyConnected i), wt_pure (mark_ready i)])
                     (wt_streams s)),
           flush_streams] s)"

section \<open>Frames from the relay\<close>

definition read_window :: "bytes \<Rightarrow> 32 word" where
  "read_window payload = be32 (payload ! 0) (payload ! 1) (payload ! 2) (payload ! 3)"

text \<open>The handler's verdict comes with the state; \<open>wt_ok\<close> is a handler that is content.\<close>

type_synonym wt_verdict = "web_transport \<Rightarrow> (bool \<times> web_transport \<times> wt_event list) option"

definition wt_ok :: "wt_op \<Rightarrow> wt_verdict" where
  "wt_ok f s = map_option (\<lambda>(s1, es). (True, s1, es)) (f s)"

definition wt_refuse :: wt_verdict where
  "wt_refuse s = Some (False, s, [])"

definition relay_session_frame :: "frame \<Rightarrow> wt_verdict" where
  "relay_session_frame f s =
     (case frame_kind f of
        FrameWelcome \<Rightarrow>
          if wt_welcomed s \<or> frame_payload f \<noteq> [] then wt_refuse s else wt_ok relay_welcome s
      | FramePing \<Rightarrow>
          if length (frame_payload f) > 64 then wt_refuse s else wt_ok (send_frame FramePong 0 (frame_payload f)) s
      | FrameBye \<Rightarrow>
          wt_ok (\<lambda>s. wt_all
            [if wt_generation s \<noteq> 0
             then wt_all [webview_failed (wt_generation s), wt_emit (FinishWebview (wt_generation s))]
             else lose_browser True,
             close_browser_socket 1000] s) s
      | _ \<Rightarrow> wt_refuse s)"

definition relay_closed_frame :: "frame \<Rightarrow> bool" where
  "relay_closed_frame f =
     (case frame_kind f of
        FrameData \<Rightarrow> frame_payload f \<noteq> []
      | FrameWindow \<Rightarrow> length (frame_payload f) = 4 \<and> read_window (frame_payload f) \<noteq> 0
      | FrameClose \<Rightarrow> frame_payload f = []
      | _ \<Rightarrow> False)"

definition relay_stream_frame :: "frame \<Rightarrow> wt_stream \<Rightarrow> wt_verdict" where
  "relay_stream_frame f st s =
     (let i = frame_stream f
      in case frame_kind f of
        FrameData \<Rightarrow>
          if frame_payload f = [] \<or> length (frame_payload f) > st_receive_window st then wt_refuse s
          else wt_ok (wt_all [wt_pure (wt_update i (\<lambda>st. st\<lparr> st_receive_window := st_receive_window st - length (frame_payload f) \<rparr>)),
                              wt_emit (NotifyData i (frame_payload f))]) s
      | FrameWindow \<Rightarrow>
          if length (frame_payload f) \<noteq> 4 \<or> read_window (frame_payload f) = 0 then wt_refuse s
          else wt_ok (wt_all [wt_pure (wt_update i (\<lambda>st. st\<lparr> st_send_window :=
                                min (st_send_window st + unat (read_window (frame_payload f))) (2 ^ 32 - 1) \<rparr>)),
                              wt_pure (mark_ready i), flush_streams]) s
      | FrameClose \<Rightarrow>
          if frame_payload f \<noteq> [] then wt_refuse s
          else wt_ok (wt_all [wt_pure (remember_closed i), drop_stream i st, wt_emit (NotifyDisconnected i)]) s
      | _ \<Rightarrow> wt_refuse s)"

definition process_relay_frame :: "frame \<Rightarrow> wt_verdict" where
  "process_relay_frame f s =
     (if \<not> wt_welcomed s \<and> (frame_kind f \<noteq> FrameWelcome \<or> frame_stream f \<noteq> 0) then wt_refuse s
      else if frame_stream f = 0 then relay_session_frame f s
      else case wt_find (frame_stream f) s of
             None \<Rightarrow> if frame_stream f \<notin> wt_closed s then wt_refuse s else Some (relay_closed_frame f, s, [])
           | Some st \<Rightarrow> if \<not> st_opened st then wt_refuse s else relay_stream_frame f st s)"

fun process_relay_frames :: "frame list \<Rightarrow> wt_op" where
  "process_relay_frames [] s = Some (s, [])"
| "process_relay_frames (f # fs) s =
     (case process_relay_frame f s of None \<Rightarrow> None
      | Some (ok, s1, es1) \<Rightarrow>
          map_option (\<lambda>(s2, es2). (s2, es1 @ es2)) (if ok then process_relay_frames fs s1 else protocol_error s1))"

definition process_relay_payload :: "bytes \<Rightarrow> wt_op" where
  "process_relay_payload payload s =
     (let (ok, rest, frames) = parse_frames payload []
      in if \<not> ok \<or> rest \<noteq> [] \<or> frames = [] then protocol_error s else process_relay_frames frames s)"

section \<open>Calls of the streams\<close>

definition register_stream :: "stream_id \<Rightarrow> wt_op" where
  "register_stream i s =
     (if wt_proxy s = None \<or> wt_find i s \<noteq> None \<or> i \<in> wt_closed s then Some (s, [NotifyFailed i])
      else
        wt_all
          [wt_pure (\<lambda>s. s\<lparr> wt_streams := flat_emplace i new_stream (wt_streams s) \<rparr>),
           wt_when (wt_welcomed s) (wt_all [wt_pure (wt_update i (\<lambda>st. st\<lparr> st_opened := True \<rparr>)),
                                            send_frame FrameOpen i [], wt_emit (NotifyConnected i)])] s)"

definition close_opened :: "stream_id \<Rightarrow> wt_stream \<Rightarrow> wt_op" where
  "close_opened i st = wt_when (st_opened st) (wt_all [send_frame FrameClose i [], wt_pure (remember_closed i)])"

definition close_stream :: "stream_id \<Rightarrow> wt_op" where
  "close_stream i s =
     (case wt_find i s of None \<Rightarrow> Some (s, [])
      | Some st \<Rightarrow> wt_all [close_opened i st, drop_stream i st] s)"

definition fail_stream :: "stream_id \<Rightarrow> wt_op" where
  "fail_stream i s =
     (case wt_find i s of None \<Rightarrow> Some (s, [])
      | Some st \<Rightarrow> wt_all [close_opened i st, drop_stream i st, wt_emit (NotifyFailed i)] s)"

definition coalesces :: "bytes \<Rightarrow> wt_stream \<Rightarrow> bool" where
  "coalesces data st \<longleftrightarrow> st_pending st \<noteq> [] \<and> snd (last (st_pending st)) = 0
     \<and> length (fst (last (st_pending st))) + length data \<le> data_frame_size"

definition stream_send_data :: "stream_id \<Rightarrow> bytes \<Rightarrow> wt_op" where
  "stream_send_data i data s =
     (case (if data = [] then None else wt_find i s) of
        None \<Rightarrow> owner_release (int (length data)) (if data = [] then 0 else 1) s
      | Some st \<Rightarrow>
          if st_pending_bytes st + int (length data) > max_pending_stream_bytes
             \<or> (\<not> coalesces data st \<and> length (st_pending st) \<ge> max_pending_stream_items) then
            wt_all [owner_release (int (length data)) 1, close_opened i st, drop_stream i st, wt_emit (NotifyFailed i)] s
          else
            wt_all
              [wt_pure (wt_update i (\<lambda>st. st\<lparr> st_pending_bytes := st_pending_bytes st + int (length data),
                 st_pending := (if coalesces data st
                                then butlast (st_pending st) @ [(fst (last (st_pending st)) @ data, 0)]
                                else st_pending st @ [(data, 0)]) \<rparr>)),
               wt_when (coalesces data st) (owner_release 0 1),
               wt_pure (mark_ready i),
               flush_streams] s)"

text \<open>\<open>receiveWindow\<close> and \<open>pendingWindow\<close> are 32-bit values; the subtraction and the sums wrap.\<close>

definition grant_window :: "stream_id \<Rightarrow> nat \<Rightarrow> wt_op" where
  "grant_window i amount s =
     (case wt_find i s of None \<Rightarrow> Some (s, [])
      | Some st \<Rightarrow>
          if \<not> st_opened st \<or> amount = 0 then Some (s, [])
          else if amount > (2 ^ 32 + initial_stream_window - st_receive_window st) mod 2 ^ 32 then protocol_error s
          else
            (let received = (st_receive_window st + amount) mod 2 ^ 32;
                 waiting = (st_pending_window st + amount) mod 2 ^ 32
             in if waiting \<ge> window_flush_bytes then
                  wt_all [wt_pure (wt_update i (\<lambda>st. st\<lparr> st_receive_window := received, st_pending_window := 0 \<rparr>)),
                          send_frame FrameWindow i (be32_bytes (of_nat waiting))] s
                else
                  wt_all [wt_pure (wt_update i (\<lambda>st. st\<lparr> st_receive_window := received, st_pending_window := waiting \<rparr>)),
                          \<lambda>s. if wt_window_scheduled s then Some (s, [])
                              else Some (s\<lparr> wt_window_scheduled := True \<rparr>, [StartWindowTimer])] s))"

definition flush_windows :: wt_op where
  "flush_windows s =
     wt_all (map (\<lambda>(i, st). wt_when (st_opened st \<and> st_pending_window st \<noteq> 0)
              (wt_all [wt_pure (wt_update i (\<lambda>st. st\<lparr> st_pending_window := 0 \<rparr>)),
                       send_frame FrameWindow i (be32_bytes (of_nat (st_pending_window st)))]))
            (wt_streams s)) s"

section \<open>Events of the carrier\<close>

definition browser_bytes_written :: "int \<Rightarrow> wt_op" where
  "browser_bytes_written now s =
     wt_all [wt_pure (\<lambda>s. s\<lparr> wt_last_progress := now \<rparr>), flush_control_frames, flush_streams] s"

definition webview_written :: "int \<Rightarrow> 64 word \<Rightarrow> int \<Rightarrow> wt_op" where
  "webview_written now gen n s =
     (if wt_generation s \<noteq> gen then Some (s, [])
      else if n \<le> 0 \<or> n > wt_webview_bytes s \<or> wt_webview_items s \<le> 0 then protocol_error s
      else
        wt_all [wt_pure (\<lambda>s. s\<lparr> wt_webview_bytes := wt_webview_bytes s - n, wt_webview_items := wt_webview_items s - 1,
                               wt_last_progress := now \<rparr>),
                flush_control_frames, flush_streams] s)"

definition webview_starting :: "64 word \<Rightarrow> wt_op" where
  "webview_starting gen s =
     (if wt_proxy s = None \<or> gen = 0 then Some (s, [])
      else
        wt_all [wt_pure (\<lambda>s. s\<lparr> wt_candidate := gen \<rparr>),
                \<lambda>s. wt_when (\<not> carrier_available s \<and> wt_conn_state s \<noteq> WaitingForBrowser) (set_conn_state Connecting []) s] s)"

definition webview_ready :: "int \<Rightarrow> 64 word \<Rightarrow> wt_op" where
  "webview_ready now gen s =
     (if wt_candidate s \<noteq> gen \<or> wt_generation s \<noteq> 0 then Some (s, [])
      else
        wt_all
          [wt_pure (\<lambda>s. s\<lparr> wt_candidate := 0 \<rparr>),
           wt_when (wt_browser s \<noteq> None \<and> wt_welcomed s) (close_all_streams False),
           wt_pure (\<lambda>s. s\<lparr> wt_browser := None, wt_write_failed := False, wt_control := [], wt_control_bytes := 0,
             wt_progress_scheduled := False, wt_last_progress := now, wt_welcomed := False \<rparr>),
           wt_when (wt_browser s \<noteq> None) (close_other_socket 1000),
           wt_pure (\<lambda>s. s\<lparr> wt_generation := gen, wt_webview_bytes := 0, wt_webview_items := 0, wt_browser_name := ''WebView'' \<rparr>),
           relay_welcome] s)"

definition webview_unavailable :: wt_op where
  "webview_unavailable s =
     (if wt_proxy s = None \<or> wt_browser s \<noteq> None \<or> wt_generation s \<noteq> 0 then Some (s, [])
      else set_conn_state WaitingForBrowser [] s)"

definition webview_payload :: "64 word \<Rightarrow> bytes \<Rightarrow> wt_op" where
  "webview_payload gen payload s = (if wt_generation s = gen then process_relay_payload payload s else Some (s, []))"

definition client_disconnected :: wt_op where
  "client_disconnected s =
     (if wt_browser s = None then Some (s, [])
      else
        wt_all [wt_pure (\<lambda>s. s\<lparr> wt_browser := None, wt_write_failed := False, wt_control := [], wt_control_bytes := 0,
                           wt_progress_scheduled := False, wt_last_progress := 0 \<rparr>),
                \<lambda>s. lose_browser (wt_conn_state s = Failed) s] s)"

text \<open>The part of \<open>authenticateBrowser\<close> after the token was found right; a second browser replaces the
  first.  The text message \<open>bridge\<close> (\<open>bridgeControl\<close>) is the first on the new socket, whose buffer is empty.\<close>

definition browser_authenticated :: "int \<Rightarrow> bytes \<Rightarrow> string \<Rightarrow> wt_op" where
  "browser_authenticated now bridge name s =
     (if wt_generation s \<noteq> 0 then close_other_socket 1000 s
      else
        wt_all
          [wt_when (wt_browser s \<noteq> None) (wt_all [close_all_streams False, close_browser_socket 1000]),
           wt_pure (\<lambda>s. s\<lparr> wt_browser := Some 0, wt_socket := wt_socket s + 1, wt_write_failed := False, wt_control := [], wt_control_bytes := 0,
             wt_progress_scheduled := False, wt_last_progress := now, wt_browser_name := name,
             wt_closed := {}, wt_closed_order := [], wt_welcomed := False \<rparr>),
           set_conn_state Connecting name,
           write_web_socket 0x01 bridge,
           send_frame FrameHello 0 [1]] s)"

text \<open>\<open>processBrowserControl\<close> for the authenticated browser; the JSON text has been read already.\<close>

datatype browser_status = StatusFailed | StatusConnecting | StatusReconnecting | StatusConnected | StatusUnknown

definition browser_control :: "browser_status \<Rightarrow> wt_op" where
  "browser_control st s =
     (case st of
        StatusFailed \<Rightarrow> wt_all [lose_browser True, close_browser_socket 1000] s
      | StatusConnecting \<Rightarrow> set_conn_state Connecting (wt_browser_name s) s
      | StatusReconnecting \<Rightarrow> set_conn_state Connecting (wt_browser_name s) s
      | StatusConnected \<Rightarrow> set_conn_state (if wt_welcomed s then Connected else Connecting) (wt_browser_name s) s
      | StatusUnknown \<Rightarrow> close_browser_socket 1008 s)"

definition progress_timer :: "int \<Rightarrow> bool \<Rightarrow> wt_op" where
  "progress_timer now current s =
     (let s1 = s\<lparr> wt_progress_scheduled := False \<rparr>
      in if \<not> current then Some (s1, [])
         else if carrier_pending_bytes s1 = 0 \<and> wt_control s1 = [] then Some (s1, [])
         else if now - wt_last_progress s1 \<ge> write_progress_timeout then protocol_error s1
         else ensure_write_progress s1)"

definition deactivate :: wt_op where
  "deactivate s =
     wt_all
       [close_all_streams False,
        \<lambda>s. wt_when (wt_browser s \<noteq> None) (wt_emit CloseSocket) s,
        wt_pure (\<lambda>s. s\<lparr> wt_browser := None, wt_closed := {}, wt_closed_order := [], wt_ready := [], wt_ready_set := {},
          wt_control := [], wt_control_bytes := 0, wt_browser_name := [], wt_candidate := 0, wt_generation := 0,
          wt_webview_bytes := 0, wt_webview_items := 0, wt_welcomed := False, wt_write_failed := False,
          wt_progress_scheduled := False, wt_last_progress := 0, wt_proxy := None, wt_conn_state := Idle \<rparr>)] s"

definition configure :: "string \<Rightarrow> wt_op" where
  "configure proxy s =
     (if wt_proxy s = Some proxy then Some (s, [])
      else wt_all [deactivate, wt_pure (\<lambda>s. s\<lparr> wt_proxy := Some proxy \<rparr>), set_conn_state Connecting []] s)"

section \<open>Runs of the transport\<close>

text \<open>\<open>Transport::sendData\<close> and \<open>Transport::webviewPayload\<close> reserve room at the caller's side and queue
  the rest; everything else runs on the transport's thread.\<close>

definition api_send_data :: "stream_id \<Rightarrow> bytes \<Rightarrow> wt_op" where
  "api_send_data i data s =
     (if data = [] then Some (s, [])
      else case owner_reserve (int (length data)) s of
        (False, s1) \<Rightarrow> fail_stream i s1
      | (True, s1) \<Rightarrow> Some (s1\<lparr> wt_queue := wt_queue s1 @ [TaskSend i data] \<rparr>, []))"

definition api_webview_payload :: "64 word \<Rightarrow> bytes \<Rightarrow> wt_op" where
  "api_webview_payload gen payload s =
     (if payload = [] then wt_all [wt_emit (FinishWebview gen), webview_failed gen] s
      else case owner_reserve (int (length payload)) s of
        (False, s1) \<Rightarrow> wt_all [wt_emit (FinishWebview gen), webview_failed gen] s1
      | (True, s1) \<Rightarrow> Some (s1\<lparr> wt_queue := wt_queue s1 @ [TaskPayload gen payload] \<rparr>, []))"

text \<open>A payload is counted until it has been processed.\<close>

fun run_task :: "wt_task \<Rightarrow> wt_op" where
  "run_task (TaskSend i data) s = stream_send_data i data s"
| "run_task (TaskPayload gen payload) s =
     wt_all [webview_payload gen payload, owner_release (int (length payload)) 1] s"
| "run_task TaskProtocolError s = (if carrier_available s then protocol_error s else Some (s, []))"
| "run_task (TaskSocketError k) s =
     (if wt_browser s \<noteq> None \<and> wt_socket s = k then protocol_error s else Some (s, []))"

datatype wt_call =
    CallConfigure string | CallDeactivate | CallRegister stream_id | CallClose stream_id
  | CallSend stream_id bytes | CallGrant stream_id nat | CallStarting "64 word" | CallReady int "64 word"
  | CallPayload "64 word" bytes | CallWritten int "64 word" int | CallFailed "64 word" | CallUnavailable
  | CallAuthenticated int bytes string | CallBrowserPayload bytes | CallBrowserStatus browser_status | CallDisconnected
  | CallSocketWritten int int | CallWindowTimer | CallProgressTimer int bool | CallWelcomeTimer | CallTask

fun wt_step :: "wt_call \<Rightarrow> wt_op" where
  "wt_step (CallConfigure p) s = configure p s"
| "wt_step CallDeactivate s = deactivate s"
| "wt_step (CallRegister i) s = register_stream i s"
| "wt_step (CallClose i) s = close_stream i s"
| "wt_step (CallSend i data) s = api_send_data i data s"
| "wt_step (CallGrant i n) s = grant_window i n s"
| "wt_step (CallStarting gen) s = webview_starting gen s"
| "wt_step (CallReady now gen) s = webview_ready now gen s"
| "wt_step (CallPayload gen payload) s = api_webview_payload gen payload s"
| "wt_step (CallWritten now gen n) s = webview_written now gen n s"
| "wt_step (CallFailed gen) s = wt_all [wt_emit (FinishWebview gen), webview_failed gen] s"
| "wt_step CallUnavailable s = webview_unavailable s"
| "wt_step (CallAuthenticated now bridge name) s = browser_authenticated now bridge name s"
| "wt_step (CallBrowserPayload payload) s = (if wt_browser s = None then Some (s, []) else process_relay_payload payload s)"
| "wt_step (CallBrowserStatus st) s = (if wt_browser s = None then Some (s, []) else browser_control st s)"
| "wt_step CallDisconnected s = client_disconnected s"
| "wt_step (CallSocketWritten now n) s =
     (case wt_browser s of None \<Rightarrow> Some (s, [])
      | Some k \<Rightarrow> browser_bytes_written now (s\<lparr> wt_browser := Some (k - max 0 (min n k)) \<rparr>))"
| "wt_step CallWindowTimer s =
     (if wt_window_scheduled s then flush_windows (s\<lparr> wt_window_scheduled := False \<rparr>) else Some (s, []))"
| "wt_step (CallProgressTimer now current) s = progress_timer now current s"
| "wt_step CallWelcomeTimer s =
     (if wt_browser s \<noteq> None \<and> \<not> wt_welcomed s then protocol_error s else Some (s, []))"
| "wt_step CallTask s =
     (case wt_queue s of [] \<Rightarrow> Some (s, []) | t # ts \<Rightarrow> run_task t (s\<lparr> wt_queue := ts \<rparr>))"

text \<open>\<open>NextStreamId\<close>, with the value of its counter.\<close>

definition next_stream_id :: "64 word \<Rightarrow> stream_id \<times> 64 word" where
  "next_stream_id next = (ucast (next mod 0x00FFFFFF + 1), next + 1)"

definition wt_initial :: web_transport where
  "wt_initial = \<lparr> wt_streams = [], wt_ready = [], wt_ready_set = {}, wt_closed = {}, wt_closed_order = [],
     wt_control = [], wt_control_bytes = 0, wt_browser = None, wt_socket = 0, wt_proxy = None, wt_browser_name = [],
     wt_conn_state = Idle, wt_candidate = 0, wt_generation = 0, wt_webview_bytes = 0, wt_webview_items = 0,
     wt_welcomed = False, wt_write_failed = False, wt_progress_scheduled = False, wt_window_scheduled = False,
     wt_last_progress = 0, wt_owner_bytes = 0, wt_owner_items = 0, wt_queue = [] \<rparr>"

fun wt_run :: "wt_call list \<Rightarrow> wt_op" where
  "wt_run [] s = Some (s, [])"
| "wt_run (c # cs) s =
     (case wt_step c s of None \<Rightarrow> None
      | Some (s1, es1) \<Rightarrow> map_option (\<lambda>(s2, es2). (s2, es1 @ es2)) (wt_run cs s1))"

end
