(* ===== verification/Web_Proxy_Invariant.thy ===== *)
theory Web_Proxy_Invariant
  imports Web_Proxy_Transport
begin

text \<open>
  The invariant of the web proxy transport: the owner's counters are exactly what the streams and the
  queued calls hold and stay within their limits, every stream that can send is marked as ready, the
  memory of closed streams and of waiting control frames is bounded, and streams are open exactly
  while the session is welcomed.  Every operation returns - no assertion fails - and keeps it.
\<close>

named_theorems wt_simps \<open>the combinators of the transport's operations\<close>

lemma wt_combinators [wt_simps]:
  "wt_pure f s = Some (f s, [])" "wt_emit e s = Some (s, [e])"
  "wt_when True g s = g s" "wt_when False g s = Some (s, [])"
  by (simp_all add: wt_pure_def wt_emit_def wt_when_def)

section \<open>What is held\<close>

fun task_load :: "wt_task \<Rightarrow> nat list" where
  "task_load (TaskSend i data) = [length data]"
| "task_load (TaskPayload gen payload) = [length payload]"
| "task_load TaskProtocolError = []"
| "task_load (TaskSocketError k) = []"

definition queue_loads :: "wt_task list \<Rightarrow> nat list" where
  "queue_loads q = concat (map task_load q)"

text \<open>\<open>L\<close> lists the sizes of the calls that run at the moment: their data are still counted.\<close>

definition queue_bytes :: "nat list \<Rightarrow> web_transport \<Rightarrow> int" where
  "queue_bytes L s = int (sum_list (L @ queue_loads (wt_queue s)))"

definition queue_items :: "nat list \<Rightarrow> web_transport \<Rightarrow> int" where
  "queue_items L s = int (length (L @ queue_loads (wt_queue s)))"

definition pending_sum :: "(bytes \<times> nat) list \<Rightarrow> int" where
  "pending_sum p = sum_list (map (\<lambda>(d, k). int (length d) - int k) p)"

definition streams_bytes :: "(stream_id \<times> wt_stream) list \<Rightarrow> int" where
  "streams_bytes ss = sum_list (map (\<lambda>(_, st). st_pending_bytes st) ss)"

definition streams_items :: "(stream_id \<times> wt_stream) list \<Rightarrow> int" where
  "streams_items ss = sum_list (map (\<lambda>(_, st). int (length (st_pending st))) ss)"

definition stream_ok :: "wt_stream \<Rightarrow> bool" where
  "stream_ok st \<longleftrightarrow> st_pending_bytes st = pending_sum (st_pending st)
     \<and> (\<forall>(d, k) \<in> set (st_pending st). k < length d)
     \<and> st_pending_bytes st \<le> max_pending_stream_bytes \<and> length (st_pending st) \<le> max_pending_stream_items
     \<and> st_receive_window st \<le> initial_stream_window \<and> st_pending_window st < window_flush_bytes
     \<and> st_send_window st < 2 ^ 32"

definition id_ok :: "stream_id \<Rightarrow> bool" where
  "id_ok i \<longleftrightarrow> i \<noteq> 0 \<and> i \<le> 0x00FFFFFF"

text \<open>The parts of the invariant.\<close>

definition closed_ok :: "web_transport \<Rightarrow> bool" where
  "closed_ok s \<longleftrightarrow> wt_closed s = set (wt_closed_order s) \<and> distinct (wt_closed_order s)
     \<and> length (wt_closed_order s) \<le> max_closed_stream_ids"

definition acct_ok :: "nat list \<Rightarrow> web_transport \<Rightarrow> bool" where
  "acct_ok L s \<longleftrightarrow> flat_ok (map fst (wt_streams s)) \<and> (\<forall>(i, st) \<in> set (wt_streams s). id_ok i \<and> stream_ok st)
     \<and> wt_owner_bytes s = streams_bytes (wt_streams s) + queue_bytes L s
     \<and> wt_owner_items s = streams_items (wt_streams s) + queue_items L s
     \<and> wt_owner_bytes s \<le> max_pending_transport_bytes \<and> wt_owner_items s \<le> max_pending_transport_items
     \<and> (\<forall>n \<in> set (queue_loads (wt_queue s)). n \<noteq> 0) \<and> closed_ok s"

definition can_send :: "wt_stream \<Rightarrow> bool" where
  "can_send st \<longleftrightarrow> st_opened st \<and> st_send_window st > 0 \<and> st_pending st \<noteq> []"

definition ready_ok :: "web_transport \<Rightarrow> bool" where
  "ready_ok s \<longleftrightarrow> wt_ready_set s \<subseteq> set (wt_ready s)
     \<and> (\<forall>(i, st) \<in> set (wt_streams s). can_send st \<longrightarrow> i \<in> wt_ready_set s)
     \<and> (\<forall>i \<in> wt_ready_set s. \<exists>st. (i, st) \<in> set (wt_streams s) \<and> can_send st)"

definition session_ok :: "web_transport \<Rightarrow> bool" where
  "session_ok s \<longleftrightarrow> (\<forall>(i, st) \<in> set (wt_streams s). st_opened st \<longleftrightarrow> wt_welcomed s)
     \<and> (wt_welcomed s \<longrightarrow> carrier_available s)"

definition control_ok :: "web_transport \<Rightarrow> bool" where
  "control_ok s \<longleftrightarrow> wt_control_bytes s = int (length (concat (wt_control s)))
     \<and> wt_control_bytes s \<le> max_pending_control_bytes \<and> length (wt_control s) \<le> max_pending_control_frames"

definition wt_inv :: "nat list \<Rightarrow> web_transport \<Rightarrow> bool" where
  "wt_inv L s \<longleftrightarrow> acct_ok L s \<and> ready_ok s \<and> session_ok s \<and> control_ok s"

lemma wt_inv_initial: "wt_inv [] wt_initial"
  by (simp add: wt_inv_def acct_ok_def ready_ok_def session_ok_def control_ok_def closed_ok_def wt_initial_def
      streams_bytes_def streams_items_def queue_bytes_def queue_items_def queue_loads_def
      max_pending_transport_bytes_def max_pending_transport_items_def max_pending_control_bytes_def max_pending_control_frames_def
      max_closed_stream_ids_def)

section \<open>Operations on the carrier leave the streams alone\<close>

definition wt_core :: "web_transport \<Rightarrow> (stream_id \<times> wt_stream) list \<times> stream_id list \<times> stream_id set
    \<times> stream_id set \<times> stream_id list \<times> int \<times> int \<times> bool \<times> bool \<times> nat list" where
  "wt_core s = (wt_streams s, wt_ready s, wt_ready_set s, wt_closed s, wt_closed_order s, wt_owner_bytes s,
     wt_owner_items s, wt_welcomed s, carrier_available s, queue_loads (wt_queue s))"

lemma wt_core_parts:
  assumes "wt_core s' = wt_core s"
  shows "acct_ok L s' \<longleftrightarrow> acct_ok L s" "ready_ok s' \<longleftrightarrow> ready_ok s" "session_ok s' \<longleftrightarrow> session_ok s"
  using assms by (auto simp: wt_core_def acct_ok_def ready_ok_def session_ok_def closed_ok_def queue_bytes_def queue_items_def)

text \<open>An operation that returns, keeps the core and keeps the control queue in order.\<close>

definition carrier_op :: "wt_op \<Rightarrow> bool" where
  "carrier_op f \<longleftrightarrow> (\<forall>s. control_ok s \<longrightarrow> (\<exists>s' es. f s = Some (s', es) \<and> wt_core s' = wt_core s \<and> control_ok s'))"

lemma carrier_opE:
  assumes "carrier_op f" and "control_ok s"
  obtains s' es where "f s = Some (s', es)" "wt_core s' = wt_core s" "control_ok s'"
  using assms unfolding carrier_op_def by blast

lemma carrier_op_all: "(\<And>f. f \<in> set fs \<Longrightarrow> carrier_op f) \<Longrightarrow> carrier_op (wt_all fs)"
proof (induction fs)
  case Nil
  then show ?case by (simp add: carrier_op_def)
next
  case (Cons f fs)
  have f: "carrier_op f" and fs: "carrier_op (wt_all fs)" using Cons by simp_all
  show ?case
    unfolding carrier_op_def
  proof (intro allI impI)
    fix s :: web_transport assume "control_ok s"
    obtain s1 es1 where 1: "f s = Some (s1, es1)" "wt_core s1 = wt_core s" "control_ok s1"
      by (rule carrier_opE [OF f \<open>control_ok s\<close>])
    obtain s2 es2 where 2: "wt_all fs s1 = Some (s2, es2)" "wt_core s2 = wt_core s1" "control_ok s2"
      by (rule carrier_opE [OF fs 1(3)])
    show "\<exists>s' es. wt_all (f # fs) s = Some (s', es) \<and> wt_core s' = wt_core s \<and> control_ok s'"
      using 1 2 by simp
  qed
qed

lemma carrier_op_when: "(b \<Longrightarrow> carrier_op f) \<Longrightarrow> carrier_op (wt_when b f)"
  by (cases b) (simp_all add: carrier_op_def wt_simps)

lemma carrier_op_emit: "carrier_op (wt_emit e)"
  by (simp add: carrier_op_def wt_simps)

lemma carrier_op_fun: "(\<And>s. carrier_op (f s)) \<Longrightarrow> carrier_op (\<lambda>s. f s s)"
  unfolding carrier_op_def by blast

lemma carrier_op_set_conn_state: "carrier_op (set_conn_state st name)"
  by (simp add: carrier_op_def set_conn_state_def wt_core_def control_ok_def carrier_available_def)

lemma carrier_op_write: "carrier_op (write_carrier_frame b)"
  by (auto simp: carrier_op_def write_carrier_frame_def wt_core_def control_ok_def carrier_available_def split: option.splits)

lemma carrier_op_progress: "carrier_op ensure_write_progress"
  by (simp add: carrier_op_def ensure_write_progress_def wt_core_def control_ok_def carrier_available_def)

lemma carrier_op_queue_control: "carrier_op (queue_control_frame b)"
  unfolding carrier_op_def
proof (intro allI impI)
  fix s assume ok: "control_ok s"
  let ?push = "s\<lparr> wt_control_bytes := wt_control_bytes s + int (length b), wt_control := wt_control s @ [b] \<rparr>"
  consider "\<not> carrier_available s \<or> wt_write_failed s"
    | "carrier_available s" "\<not> wt_write_failed s" "wt_control s = [] \<and> carrier_accepts (length b) True s"
    | "carrier_available s" "\<not> wt_write_failed s" "\<not> (wt_control s = [] \<and> carrier_accepts (length b) True s)"
      "int (length b) > max_pending_control_bytes \<or> length (wt_control s) \<ge> max_pending_control_frames
           \<or> wt_control_bytes s > max_pending_control_bytes - int (length b)"
    | "carrier_available s" "\<not> wt_write_failed s" "\<not> (wt_control s = [] \<and> carrier_accepts (length b) True s)"
      "\<not> (int (length b) > max_pending_control_bytes \<or> length (wt_control s) \<ge> max_pending_control_frames
           \<or> wt_control_bytes s > max_pending_control_bytes - int (length b))" by blast
  then show "\<exists>s' es. queue_control_frame b s = Some (s', es) \<and> wt_core s' = wt_core s \<and> control_ok s'"
  proof cases
    case 1
    then show ?thesis using ok by (auto simp: queue_control_frame_def)
  next
    case 2
    have "carrier_op (wt_all [write_carrier_frame b, ensure_write_progress])"
      by (rule carrier_op_all) (auto intro: carrier_op_write carrier_op_progress)
    then show ?thesis using 2 ok unfolding carrier_op_def by (simp add: queue_control_frame_def)
  next
    case 3
    then have first: "\<not> (\<not> carrier_available s \<or> wt_write_failed s)" by blast
    have "queue_control_frame b s = Some (s\<lparr> wt_write_failed := True, wt_queue := wt_queue s @ [TaskProtocolError] \<rparr>, [])"
      unfolding queue_control_frame_def if_not_P [OF first] if_not_P [OF 3(3)] if_P [OF 3(4)] by (rule refl)
    then show ?thesis
      using ok by (simp add: wt_core_def control_ok_def queue_loads_def carrier_available_def)
  next
    case 4
    have push: "control_ok ?push" "wt_core ?push = wt_core s"
      using 4(4) ok by (auto simp: control_ok_def wt_core_def carrier_available_def)
    obtain s2 es2 where "ensure_write_progress ?push = Some (s2, es2)" "wt_core s2 = wt_core ?push" "control_ok s2"
      by (rule carrier_opE [OF carrier_op_progress push(1)])
    moreover have first: "\<not> (\<not> carrier_available s \<or> wt_write_failed s)" using 4 by blast
    ultimately show ?thesis
      using push(2) unfolding queue_control_frame_def if_not_P [OF first] if_not_P [OF 4(3)] if_not_P [OF 4(4)]
      by (simp add: wt_simps)
  qed
qed

lemma carrier_op_send_frame:
  assumes "i \<le> 0x00FFFFFF" and "length payload \<le> max_frame_payload"
  shows "carrier_op (send_frame t i payload)"
proof -
  obtain b where b: "serialize_frame t i payload = Some b"
    using assms by (simp add: serialize_frame_def Let_def)
  then show ?thesis
    using carrier_op_queue_control [of b] by (auto simp: carrier_op_def send_frame_def)
qed

lemma flush_control_loop_ok:
  "control_ok s \<Longrightarrow> wt_control s = bs \<Longrightarrow>
     \<exists>s' es. flush_control_loop bs s = Some (s', es) \<and> wt_core s' = wt_core s \<and> control_ok s'"
proof (induction bs arbitrary: s)
  case (Cons b bs)
  show ?case
  proof (cases "carrier_available s \<and> carrier_accepts (length b) True s")
    case False
    then show ?thesis using Cons.prems by auto
  next
    case True
    obtain s1 es1 where 1: "write_carrier_frame b s = Some (s1, es1)" "wt_core s1 = wt_core s" "control_ok s1"
      by (rule carrier_opE [OF carrier_op_write Cons.prems(1)])
    have same: "wt_control s1 = b # bs"
      using 1(1) Cons.prems(2) by (auto simp: write_carrier_frame_def split: if_splits option.splits)
    let ?s2 = "s1\<lparr> wt_control_bytes := wt_control_bytes s1 - int (length b), wt_control := bs \<rparr>"
    have "control_ok ?s2" "wt_core ?s2 = wt_core s1" using 1(3) same by (auto simp: control_ok_def wt_core_def carrier_available_def)
    then show ?thesis using Cons.IH [of ?s2] True 1 by (auto simp: wt_simps)
  qed
qed simp

lemma carrier_op_flush_control: "carrier_op flush_control_frames"
  unfolding carrier_op_def
proof (intro allI impI)
  fix s assume ok: "control_ok s"
  obtain s1 es1 where 1: "flush_control_loop (wt_control s) s = Some (s1, es1)" "wt_core s1 = wt_core s" "control_ok s1"
    using flush_control_loop_ok [OF ok refl] by blast
  let ?w = "wt_when (carrier_available s1 \<and> (wt_control s1 \<noteq> [] \<or> carrier_pending_bytes s1 > 0)) ensure_write_progress"
  have "carrier_op ?w" by (rule carrier_op_when) (rule carrier_op_progress)
  then obtain s2 es2 where "?w s1 = Some (s2, es2)" "wt_core s2 = wt_core s1" "control_ok s2"
    by (rule carrier_opE [OF _ 1(3)])
  then show "\<exists>s' es. flush_control_frames s = Some (s', es) \<and> wt_core s' = wt_core s \<and> control_ok s'"
    using 1 by (simp add: flush_control_frames_def)
qed

lemma carrier_op_write_web_socket: "carrier_op (write_web_socket opcode payload)"
  by (auto simp: carrier_op_def write_web_socket_def wt_core_def control_ok_def carrier_available_def queue_loads_def
      Let_def split: option.splits)

lemma carrier_op_close_socket: "carrier_op (close_browser_socket code)"
proof -
  have "carrier_op (wt_when b (wt_all [write_web_socket 0x08 (close_payload code), wt_emit CloseSocket]))" for b
    by (rule carrier_op_when, rule carrier_op_all) (auto intro: carrier_op_write_web_socket carrier_op_emit)
  then have "carrier_op (\<lambda>s. wt_when (wt_browser s \<noteq> None) (wt_all [write_web_socket 0x08 (close_payload code), wt_emit CloseSocket]) s)"
    by (rule carrier_op_fun)
  then show ?thesis by (simp add: carrier_op_def close_browser_socket_def)
qed

lemma carrier_op_close_other: "carrier_op (close_other_socket code)"
  unfolding close_other_socket_def by (rule carrier_op_all) (auto intro: carrier_op_emit)

lemmas carrier_ops = carrier_op_set_conn_state carrier_op_write carrier_op_progress carrier_op_queue_control
  carrier_op_send_frame carrier_op_flush_control carrier_op_close_socket carrier_op_close_other carrier_op_write_web_socket carrier_op_emit

section \<open>Streams in the list\<close>

lemma streams_sums [simp]:
  "streams_bytes [] = 0" "streams_bytes ((i, st) # ss) = st_pending_bytes st + streams_bytes ss"
  "streams_bytes (ss @ ts) = streams_bytes ss + streams_bytes ts"
  "streams_items [] = 0" "streams_items ((i, st) # ss) = int (length (st_pending st)) + streams_items ss"
  "streams_items (ss @ ts) = streams_items ss + streams_items ts"
  by (simp_all add: streams_bytes_def streams_items_def)

lemma pending_sum_nonneg: "\<forall>(d, k) \<in> set p. k < length d \<Longrightarrow> 0 \<le> pending_sum p"
  by (induction p) (auto simp: pending_sum_def)

lemma stream_ok_nonneg: "stream_ok st \<Longrightarrow> 0 \<le> st_pending_bytes st"
  using pending_sum_nonneg by (simp add: stream_ok_def)

lemma streams_nonneg:
  assumes "\<forall>(i, st) \<in> set ss. stream_ok st"
  shows "0 \<le> streams_bytes ss" "0 \<le> streams_items ss"
  using assms stream_ok_nonneg by (induction ss) (auto simp: streams_items_def streams_bytes_def)

lemma find_split:
  assumes "flat_ok (map fst (wt_streams s))" and "wt_find i s = Some st"
  obtains xs ys where "wt_streams s = xs @ (i, st) # ys" "i \<notin> fst ` set xs" "i \<notin> fst ` set ys"
    "\<And>f. wt_streams (wt_update i f s) = xs @ (i, f st) # ys" "wt_streams (wt_erase i s) = xs @ ys"
proof -
  have "(i, st) \<in> set (wt_streams s)" using assms(2) by (auto simp: wt_find_def dest: map_of_SomeD)
  then obtain xs ys where split: "wt_streams s = xs @ (i, st) # ys" by (auto dest: split_list)
  have "distinct (map fst (wt_streams s))" using assms(1) by (simp add: flat_ok_sorted_distinct)
  then have notin: "i \<notin> fst ` set xs" "i \<notin> fst ` set ys" unfolding split by auto
  have map: "map (\<lambda>(j, st). if j = i then (j, f st) else (j, st)) zs = zs" if "i \<notin> fst ` set zs" for f zs
    using that by (induction zs) auto
  have flt: "filter (\<lambda>(j, _). j \<noteq> i) zs = zs" if "i \<notin> fst ` set zs" for zs :: "(stream_id \<times> wt_stream) list"
    using that by (induction zs) auto
  show ?thesis
    by (rule that [OF split notin]) (simp_all add: wt_update_def wt_erase_def split map [OF notin(1)] map [OF notin(2)]
        flt [OF notin(1)] flt [OF notin(2)])
qed

lemma wt_update_simps [simp]:
  "wt_ready (wt_update i f s) = wt_ready s" "wt_ready_set (wt_update i f s) = wt_ready_set s"
  "wt_closed (wt_update i f s) = wt_closed s" "wt_closed_order (wt_update i f s) = wt_closed_order s"
  "wt_owner_bytes (wt_update i f s) = wt_owner_bytes s" "wt_owner_items (wt_update i f s) = wt_owner_items s"
  "wt_welcomed (wt_update i f s) = wt_welcomed s" "carrier_available (wt_update i f s) = carrier_available s"
  "wt_queue (wt_update i f s) = wt_queue s" "wt_control (wt_update i f s) = wt_control s"
  "wt_control_bytes (wt_update i f s) = wt_control_bytes s" "wt_window_scheduled (wt_update i f s) = wt_window_scheduled s"
  "control_ok (wt_update i f s) = control_ok s" "wt_proxy (wt_update i f s) = wt_proxy s"
  by (simp_all add: wt_update_def carrier_available_def control_ok_def)

lemma wt_find_update: "wt_find j (wt_update i f s) = (if j = i then map_option f (wt_find i s) else wt_find j s)"
proof -
  have "map_of (map (\<lambda>(j, st). if j = i then (j, f st) else (j, st)) zs) j
      = (if j = i then map_option f (map_of zs i) else map_of zs j)" for zs
    by (induction zs) auto
  then show ?thesis by (simp add: wt_find_def wt_update_def)
qed

lemma acct_okD:
  assumes "acct_ok L s"
  shows "flat_ok (map fst (wt_streams s))" "wt_find i s = Some st \<Longrightarrow> stream_ok st \<and> id_ok i"
    "0 \<le> queue_bytes L s" "0 \<le> queue_items L s"
    "0 \<le> wt_owner_bytes s" "0 \<le> wt_owner_items s"
proof -
  show "flat_ok (map fst (wt_streams s))" using assms by (simp add: acct_ok_def)
  show "stream_ok st \<and> id_ok i" if "wt_find i s = Some st"
    using assms that by (auto simp: acct_ok_def wt_find_def dest!: map_of_SomeD)
  show q: "0 \<le> queue_bytes L s" "0 \<le> queue_items L s" by (simp_all add: queue_bytes_def queue_items_def)
  have "\<forall>(i, st) \<in> set (wt_streams s). stream_ok st" using assms by (auto simp: acct_ok_def)
  from streams_nonneg [OF this] show "0 \<le> wt_owner_bytes s" "0 \<le> wt_owner_items s"
    using assms q by (simp_all add: acct_ok_def)
qed

text \<open>A stream in the list holds no more than the owner counts.\<close>

lemma acct_stream_le:
  assumes "acct_ok L s" and "wt_find i s = Some st"
  shows "st_pending_bytes st + queue_bytes L s \<le> wt_owner_bytes s"
    "int (length (st_pending st)) + queue_items L s \<le> wt_owner_items s"
proof -
  obtain xs ys where split: "wt_streams s = xs @ (i, st) # ys" by (rule find_split [OF acct_okD(1) [OF assms(1)] assms(2)])
  have "\<forall>(i, st) \<in> set xs. stream_ok st" "\<forall>(i, st) \<in> set ys. stream_ok st" using assms(1) split by (auto simp: acct_ok_def)
  note nn = streams_nonneg [OF this(1)] streams_nonneg [OF this(2)]
  show "st_pending_bytes st + queue_bytes L s \<le> wt_owner_bytes s"
    "int (length (st_pending st)) + queue_items L s \<le> wt_owner_items s"
    using assms(1) nn split by (simp_all add: acct_ok_def)
qed

text \<open>Replacing a stream, with the counters moved by the difference.\<close>

lemma acct_update:
  assumes acct: "acct_ok L s" and find: "wt_find i s = Some st" and st: "stream_ok (f st)"
    and b: "b = wt_owner_bytes s + st_pending_bytes (f st) - st_pending_bytes st" "b \<le> max_pending_transport_bytes"
    and k: "k = wt_owner_items s + int (length (st_pending (f st))) - int (length (st_pending st))" "k \<le> max_pending_transport_items"
  shows "acct_ok L ((wt_update i f s)\<lparr> wt_owner_bytes := b, wt_owner_items := k \<rparr>)"
proof -
  obtain xs ys where split: "wt_streams s = xs @ (i, st) # ys" "wt_streams (wt_update i f s) = xs @ (i, f st) # ys"
    by (rule find_split [OF acct_okD(1) [OF acct] find], rule that, assumption+)
  show ?thesis
    using acct st b k split by (simp add: acct_ok_def closed_ok_def queue_bytes_def queue_items_def)
qed

lemma acct_update_same:
  assumes "acct_ok L s" and "wt_find i s = Some st" and "stream_ok (f st)" and "st_pending (f st) = st_pending st"
  shows "acct_ok L (wt_update i f s)"
proof -
  have "st_pending_bytes (f st) = st_pending_bytes st"
    using assms acct_okD(2) [OF assms(1,2)] by (simp add: stream_ok_def)
  moreover have "wt_owner_bytes s \<le> max_pending_transport_bytes" "wt_owner_items s \<le> max_pending_transport_items"
    using assms(1) by (simp_all add: acct_ok_def)
  ultimately have "acct_ok L ((wt_update i f s)\<lparr> wt_owner_bytes := wt_owner_bytes s, wt_owner_items := wt_owner_items s \<rparr>)"
    using acct_update [where f = f, OF assms(1-3), of "wt_owner_bytes s" "wt_owner_items s"] assms(4) by simp
  moreover have "(wt_update i f s)\<lparr> wt_owner_bytes := wt_owner_bytes s, wt_owner_items := wt_owner_items s \<rparr> = wt_update i f s"
    by (simp add: wt_update_def)
  ultimately show ?thesis by (simp only:)
qed

section \<open>Ends of streams\<close>

lemma owner_release_eq:
  assumes "0 \<le> n" "n \<le> wt_owner_bytes s" "0 \<le> k" "k \<le> wt_owner_items s"
  shows "owner_release n k s = Some (s\<lparr> wt_owner_bytes := wt_owner_bytes s - n, wt_owner_items := wt_owner_items s - k \<rparr>, [])"
  using assms by (simp add: owner_release_def)

lemma drop_stream_ok:
  assumes acct: "acct_ok L s" and find: "wt_find i s = Some st"
  shows "\<exists>s'. drop_stream i st s = Some (s', []) \<and> acct_ok L s' \<and> wt_streams s' = wt_streams (wt_erase i s)
    \<and> wt_ready s' = wt_ready s \<and> wt_ready_set s' = wt_ready_set s - {i} \<and> wt_welcomed s' = wt_welcomed s
    \<and> carrier_available s' = carrier_available s \<and> wt_queue s' = wt_queue s
    \<and> wt_closed s' = wt_closed s \<and> wt_closed_order s' = wt_closed_order s
    \<and> control_ok s' = control_ok s \<and> wt_write_failed s' = wt_write_failed s \<and> wt_control s' = wt_control s"
proof -
  let ?s1 = "unmark_ready i (wt_erase i s)"
  let ?s = "?s1\<lparr> wt_owner_bytes := wt_owner_bytes s - st_pending_bytes st, wt_owner_items := wt_owner_items s - int (length (st_pending st)) \<rparr>"
  obtain xs ys where split: "wt_streams s = xs @ (i, st) # ys" "wt_streams (wt_erase i s) = xs @ ys"
    by (rule find_split [OF acct_okD(1) [OF acct] find], rule that, assumption+)
  have nn: "0 \<le> st_pending_bytes st" using acct_okD(2) [OF acct find] stream_ok_nonneg by simp
  have "release_stream st ?s1 = Some (?s, [])"
    using acct_stream_le [OF acct find] acct_okD(3,4) [OF acct] nn
    by (simp add: release_stream_def owner_release_eq unmark_ready_def wt_erase_def)
  then have "drop_stream i st s = Some (?s, [])" by (simp add: drop_stream_def wt_simps)
  moreover have "acct_ok L ?s"
  proof -
    have str: "wt_streams ?s = xs @ ys" using split(2) by (simp add: unmark_ready_def)
    have flat: "flat_ok (map fst (wt_streams ?s))"
      using acct unfolding str acct_ok_def split(1) by (auto simp: flat_ok_sorted_distinct sorted_append)
    have each: "\<forall>(i, st) \<in> set (wt_streams ?s). id_ok i \<and> stream_ok st"
      using acct unfolding str acct_ok_def split(1) by simp
    have same: "queue_bytes L ?s = queue_bytes L s" "queue_items L ?s = queue_items L s" "closed_ok ?s = closed_ok s"
      "wt_queue ?s = wt_queue s"
      by (simp_all add: queue_bytes_def queue_items_def closed_ok_def unmark_ready_def wt_erase_def)
    show ?thesis
      unfolding acct_ok_def same using acct flat each nn unfolding acct_ok_def str split(1) by simp
  qed
  ultimately show ?thesis
    by (intro exI [of _ ?s]) (simp add: unmark_ready_def wt_erase_def carrier_available_def control_ok_def)
qed

lemma remember_closed_simps [simp]:
  "wt_streams (remember_closed i s) = wt_streams s" "wt_ready (remember_closed i s) = wt_ready s"
  "wt_ready_set (remember_closed i s) = wt_ready_set s" "wt_owner_bytes (remember_closed i s) = wt_owner_bytes s"
  "wt_owner_items (remember_closed i s) = wt_owner_items s" "wt_welcomed (remember_closed i s) = wt_welcomed s"
  "carrier_available (remember_closed i s) = carrier_available s" "wt_queue (remember_closed i s) = wt_queue s"
  "control_ok (remember_closed i s) = control_ok s" "wt_find j (remember_closed i s) = wt_find j s"
  by (simp_all add: remember_closed_def carrier_available_def control_ok_def wt_find_def Let_def)

lemma remember_closed_ok:
  assumes ok: "closed_ok s"
  shows "closed_ok (remember_closed i s)"
proof (cases "i \<in> wt_closed s")
  case True
  then show ?thesis using ok by (simp add: remember_closed_def)
next
  case new: False
  show ?thesis
  proof (cases "length (wt_closed_order s @ [i]) \<le> max_closed_stream_ids")
    case True
    then show ?thesis using ok new by (simp add: remember_closed_def closed_ok_def)
  next
    case False
    then obtain x xs where o: "wt_closed_order s = x # xs"
      by (cases "wt_closed_order s") (simp_all add: max_closed_stream_ids_def)
    have "set (xs @ [i]) = insert i (set (x # xs)) - {x}" "distinct (xs @ [i])"
      using ok new o by (auto simp: closed_ok_def)
    then show ?thesis using ok new False o by (simp add: remember_closed_def closed_ok_def)
  qed
qed

lemma remember_closed_acct: "acct_ok L s \<Longrightarrow> acct_ok L (remember_closed i s)"
  using remember_closed_ok [of s i] by (simp add: acct_ok_def queue_bytes_def queue_items_def)

lemma remember_closed_inv: "wt_inv L s \<Longrightarrow> wt_inv L (remember_closed i s)"
  using remember_closed_acct [of L s i] by (simp add: wt_inv_def ready_ok_def session_ok_def)

section \<open>Steps that return and keep the invariant\<close>

definition good :: "nat list \<Rightarrow> wt_op \<Rightarrow> web_transport \<Rightarrow> bool" where
  "good L f s \<longleftrightarrow> (\<exists>s' es. f s = Some (s', es) \<and> wt_inv L s')"

lemma goodI: "f s = Some (s', es) \<Longrightarrow> wt_inv L s' \<Longrightarrow> good L f s"
  by (auto simp: good_def)

lemma goodE:
  assumes "good L f s"
  obtains s' es where "f s = Some (s', es)" "wt_inv L s'"
  using assms by (auto simp: good_def)

lemma good_cong: "f s = g t \<Longrightarrow> good L g t \<Longrightarrow> good L f s"
  by (simp add: good_def)

lemma wt_all_next: "f s = Some (s1, es1) \<Longrightarrow> wt_all fs s1 = Some (s2, es2) \<Longrightarrow> wt_all (f # fs) s = Some (s2, es1 @ es2)"
  by simp

lemma good_nil: "wt_inv L s \<Longrightarrow> good L (wt_all []) s"
  by (simp add: good_def)

lemma good_none: "wt_inv L s \<Longrightarrow> good L (\<lambda>s. Some (s, [])) s"
  by (simp add: good_def)

lemma good_next: "f s = Some (s1, es) \<Longrightarrow> good L (wt_all fs) s1 \<Longrightarrow> good L (wt_all (f # fs)) s"
  by (auto simp: good_def)

lemma good_pure_next: "good L (wt_all fs) (f s) \<Longrightarrow> good L (wt_all (wt_pure f # fs)) s"
  by (rule good_next) (simp add: wt_simps)

lemma good_skip: "\<not> b \<Longrightarrow> good L (wt_all fs) s \<Longrightarrow> good L (wt_all (wt_when b f # fs)) s"
  by (rule good_next) (simp add: wt_simps)

lemma good_emit_next: "good L (wt_all fs) s \<Longrightarrow> good L (wt_all (wt_emit e # fs)) s"
  by (rule good_next) (simp add: wt_simps)

lemma good_step:
  assumes "good L f s" and "\<And>s1. wt_inv L s1 \<Longrightarrow> good L (wt_all fs) s1"
  shows "good L (wt_all (f # fs)) s"
  using assms(1) by (rule goodE) (rule good_next, assumption, rule assms(2))

lemma good_all_step: "(\<And>f. f \<in> set fs \<Longrightarrow> \<forall>s. wt_inv L s \<longrightarrow> good L f s) \<Longrightarrow> wt_inv L s \<Longrightarrow> good L (wt_all fs) s"
  by (induction fs arbitrary: s) (auto intro: good_nil good_step)

lemma good_carrier:
  assumes "carrier_op f" and "wt_inv L s"
  shows "good L f s"
proof -
  have "control_ok s" using assms(2) by (simp add: wt_inv_def)
  then obtain s' es where "f s = Some (s', es)" "wt_core s' = wt_core s" "control_ok s'"
    by (rule carrier_opE [OF assms(1)])
  then show ?thesis using wt_core_parts [of s' s] assms(2) by (auto simp: good_def wt_inv_def)
qed

lemma good_when: "wt_inv L s \<Longrightarrow> (b \<Longrightarrow> good L f s) \<Longrightarrow> good L (wt_when b f) s"
  by (cases b) (simp_all add: good_def wt_simps)

section \<open>Ends of sessions\<close>

text \<open>Closing all streams never fails: the counters hold at least what the streams hold.\<close>

definition no_streams :: "nat list \<Rightarrow> web_transport \<Rightarrow> web_transport" where
  "no_streams L s = s\<lparr> wt_streams := [], wt_ready := [], wt_ready_set := {}, wt_owner_bytes := queue_bytes L s,
     wt_owner_items := queue_items L s \<rparr>"

lemma release_all:
  assumes "\<forall>(i, st) \<in> set ss. stream_ok st" and "0 \<le> q" "0 \<le> k"
    and "wt_owner_bytes s = streams_bytes ss + q" "wt_owner_items s = streams_items ss + k"
  shows "\<exists>es. wt_all (map (\<lambda>(i, st). wt_all [release_stream st, wt_emit (e i)]) ss) s
     = Some (s\<lparr> wt_owner_bytes := q, wt_owner_items := k \<rparr>, es)"
  using assms
proof (induction ss arbitrary: s)
  case Nil
  then show ?case by simp
next
  case (Cons x ss)
  obtain i st where x: "x = (i, st)" by (cases x)
  have "stream_ok st" using Cons.prems(1) x by simp
  then have nn: "0 \<le> st_pending_bytes st" by (rule stream_ok_nonneg)
  have rest: "\<forall>(i, st) \<in> set ss. stream_ok st" using Cons.prems(1) by simp
  note sums = streams_nonneg [OF rest]
  let ?s = "s\<lparr> wt_owner_bytes := wt_owner_bytes s - st_pending_bytes st, wt_owner_items := wt_owner_items s - int (length (st_pending st)) \<rparr>"
  have rel: "release_stream st s = Some (?s, [])"
    unfolding release_stream_def by (rule owner_release_eq) (use Cons.prems sums nn x in simp_all)
  have one: "wt_all [release_stream st, wt_emit (e i)] s = Some (?s, [e i])"
    by (simp add: rel wt_simps)
  have "\<exists>es. wt_all (map (\<lambda>(i, st). wt_all [release_stream st, wt_emit (e i)]) ss) ?s
      = Some (?s\<lparr> wt_owner_bytes := q, wt_owner_items := k \<rparr>, es)"
    by (rule Cons.IH [OF rest Cons.prems(2,3)]) (use Cons.prems x in simp_all)
  then obtain es where "wt_all (map (\<lambda>(i, st). wt_all [release_stream st, wt_emit (e i)]) ss) ?s
      = Some (?s\<lparr> wt_owner_bytes := q, wt_owner_items := k \<rparr>, es)" by blast
  from wt_all_next [where f = "wt_all [release_stream st, wt_emit (e i)]", OF one this] show ?case unfolding x list.map prod.case by auto
qed

lemma close_all_eq:
  assumes "acct_ok L s"
  shows "\<exists>es. close_all_streams b s = Some (no_streams L s, es)"
proof -
  let ?s = "s\<lparr> wt_streams := [], wt_ready := [], wt_ready_set := {} \<rparr>"
  have each: "\<forall>(i, st) \<in> set (wt_streams s). stream_ok st" using assms by (auto simp: acct_ok_def)
  have "\<exists>es. wt_all (map (\<lambda>(i, st). wt_all [release_stream st, wt_emit ((if b then NotifyFailed else NotifyDisconnected) i)])
      (wt_streams s)) ?s = Some (?s\<lparr> wt_owner_bytes := queue_bytes L s, wt_owner_items := queue_items L s \<rparr>, es)"
    by (rule release_all [OF each acct_okD(3,4) [OF assms]]) (use assms in \<open>simp_all add: acct_ok_def\<close>)
  moreover have "(\<lambda>i. (if b then NotifyFailed else NotifyDisconnected) i) = (\<lambda>i. if b then NotifyFailed i else NotifyDisconnected i)"
    by simp
  ultimately show ?thesis by (auto simp: close_all_streams_def wt_simps no_streams_def)
qed

lemma queue_simps [simp]:
  "queue_bytes L (wt_streams_update f s) = queue_bytes L s" "queue_items L (wt_streams_update f s) = queue_items L s"
  "queue_bytes L (no_streams L s) = queue_bytes L s" "queue_items L (no_streams L s) = queue_items L s"
  by (simp_all add: queue_bytes_def queue_items_def no_streams_def)

text \<open>A state without streams, session and waiting control frames.\<close>

definition idle_ok :: "nat list \<Rightarrow> web_transport \<Rightarrow> bool" where
  "idle_ok L s \<longleftrightarrow> wt_streams s = [] \<and> wt_ready_set s = {} \<and> \<not> wt_welcomed s \<and> wt_control s = [] \<and> wt_control_bytes s = 0
     \<and> acct_ok L s"

lemma idle_inv: "idle_ok L s \<Longrightarrow> wt_inv L s"
  by (simp add: idle_ok_def wt_inv_def ready_ok_def session_ok_def control_ok_def max_pending_control_bytes_def)

lemma acct_no_streams:
  assumes "acct_ok L s"
  shows "acct_ok L (no_streams L s)"
proof -
  have "\<forall>(i, st) \<in> set (wt_streams s). stream_ok st" using assms by (auto simp: acct_ok_def)
  from streams_nonneg [OF this] have "queue_bytes L s \<le> max_pending_transport_bytes" "queue_items L s \<le> max_pending_transport_items"
    using assms by (simp_all add: acct_ok_def)
  moreover have "closed_ok (no_streams L s) = closed_ok s" by (simp add: closed_ok_def no_streams_def)
  ultimately show ?thesis
    using assms unfolding acct_ok_def queue_simps by (simp add: no_streams_def flat_ok_sorted_distinct streams_items_def)
qed

text \<open>The fields a reset may write.\<close>

lemma acct_reset:
  assumes "acct_ok L s" "wt_streams s' = wt_streams s" "wt_queue s' = wt_queue s" "wt_owner_bytes s' = wt_owner_bytes s"
    "wt_owner_items s' = wt_owner_items s" "closed_ok s \<Longrightarrow> closed_ok s'"
  shows "acct_ok L s'"
  using assms by (simp add: acct_ok_def queue_bytes_def queue_items_def)

lemma closed_ok_empty: "wt_closed s = {} \<Longrightarrow> wt_closed_order s = [] \<Longrightarrow> closed_ok s"
  by (simp add: closed_ok_def)

lemma good_close_next:
  assumes "acct_ok L s" and "good L (wt_all fs) (no_streams L s)"
  shows "good L (wt_all (close_all_streams b # fs)) s"
proof -
  obtain es where "close_all_streams b s = Some (no_streams L s, es)" using close_all_eq [OF assms(1)] by blast
  then show ?thesis using assms(2) by (rule good_next)
qed

lemma good_conn_state: "wt_inv L s \<Longrightarrow> good L (set_conn_state st name) s"
  by (rule good_carrier [OF carrier_op_set_conn_state])

lemma idle_no_streams:
  assumes "acct_ok L s" and "wt_streams s' = [] \<and> wt_ready_set s' = {} \<and> \<not> wt_welcomed s' \<and> wt_control s' = [] \<and> wt_control_bytes s' = 0"
    and "wt_queue s' = wt_queue s" "wt_owner_bytes s' = queue_bytes L s" "wt_owner_items s' = queue_items L s"
    and "closed_ok s'"
  shows "wt_inv L s'"
proof -
  have "acct_ok L s'"
    by (rule acct_reset [OF acct_no_streams [OF assms(1)]]) (use assms in \<open>simp_all add: no_streams_def\<close>)
  then show ?thesis using assms(2) by (intro idle_inv) (simp add: idle_ok_def)
qed

lemma good_when_fun: "(\<And>s. wt_inv L s \<Longrightarrow> good L (f s) s) \<Longrightarrow> wt_inv L s \<Longrightarrow> good L (wt_all [\<lambda>s. wt_when (b s) (f s) s]) s"
  by (rule good_step, rule good_cong [of _ s "wt_when (b s) (f s)"], rule refl) (auto intro: good_when good_nil)

lemma acct_carrier: "acct_ok L s \<Longrightarrow> wt_core s' = wt_core s \<Longrightarrow> acct_ok L s'"
  using wt_core_parts(1) by blast

text \<open>The carrier of the current web view has failed: all streams end.\<close>

lemma good_webview_failed_active:
  assumes "acct_ok L s" and "wt_generation s = gen"
  shows "good L (webview_failed gen) s"
proof -
  define c where "c = (wt_candidate s = gen)"
  let ?a = "if c then s\<lparr> wt_candidate := 0 \<rparr> else s"
  let ?b = "?a\<lparr> wt_generation := 0, wt_webview_bytes := 0, wt_webview_items := 0, wt_welcomed := False \<rparr>"
  let ?c = "(no_streams L ?b)\<lparr> wt_ready := [], wt_ready_set := {}, wt_control := [], wt_control_bytes := 0,
     wt_write_failed := False, wt_progress_scheduled := False, wt_last_progress := 0, wt_closed := {}, wt_closed_order := [] \<rparr>"
  have acct: "acct_ok L ?b" by (rule acct_reset [OF assms(1)]) (simp_all add: closed_ok_def)
  have inv: "wt_inv L ?c"
    by (rule idle_no_streams [OF acct]) (simp_all add: no_streams_def closed_ok_def)
  have tail: "good L (wt_all [\<lambda>s. wt_when (wt_browser s = None \<and> wt_conn_state s \<noteq> WaitingForBrowser) (set_conn_state Connecting []) s]) ?c"
    by (rule good_when_fun [OF good_conn_state inv])
  obtain es where closed: "close_all_streams False ?b = Some (no_streams L ?b, es)" using close_all_eq [OF acct] by blast
  have one: "wt_when c (wt_pure (\<lambda>s. s\<lparr> wt_candidate := 0 \<rparr>)) s = Some (?a, [])" by (cases c) (simp_all add: wt_simps)
  have two: "wt_all [wt_pure (\<lambda>s. s\<lparr> wt_generation := 0, wt_webview_bytes := 0, wt_webview_items := 0, wt_welcomed := False \<rparr>),
      close_all_streams False,
      wt_pure (\<lambda>s. s\<lparr> wt_ready := [], wt_ready_set := {}, wt_control := [], wt_control_bytes := 0,
         wt_write_failed := False, wt_progress_scheduled := False, wt_last_progress := 0,
         wt_closed := {}, wt_closed_order := [] \<rparr>)] ?a = Some (?c, es)"
    using closed by (simp add: wt_simps)
  have "good L (wt_all
      [wt_when c (wt_pure (\<lambda>s. s\<lparr> wt_candidate := 0 \<rparr>)),
       wt_when True (wt_all [wt_pure (\<lambda>s. s\<lparr> wt_generation := 0, wt_webview_bytes := 0, wt_webview_items := 0, wt_welcomed := False \<rparr>),
         close_all_streams False,
         wt_pure (\<lambda>s. s\<lparr> wt_ready := [], wt_ready_set := {}, wt_control := [], wt_control_bytes := 0,
           wt_write_failed := False, wt_progress_scheduled := False, wt_last_progress := 0,
           wt_closed := {}, wt_closed_order := [] \<rparr>)]),
       \<lambda>s. wt_when (wt_browser s = None \<and> wt_conn_state s \<noteq> WaitingForBrowser) (set_conn_state Connecting []) s]) s"
    by (rule good_next, rule one, rule good_next, simp only: wt_simps two, rule tail)
  then show ?thesis
    using assms(2) unfolding good_def webview_failed_def Let_def c_def by simp
qed

lemma good_webview_failed: "wt_inv L s \<Longrightarrow> good L (webview_failed gen) s"
proof -
  assume inv: "wt_inv L s"
  consider "wt_generation s = gen" | "wt_generation s \<noteq> gen" "wt_candidate s \<noteq> gen" | "wt_generation s \<noteq> gen" "wt_candidate s = gen" by blast
  then show ?thesis
  proof cases
    case 1
    then show ?thesis using inv by (intro good_webview_failed_active) (simp_all add: wt_inv_def)
  next
    case 2
    then show ?thesis using inv by (simp add: good_def webview_failed_def)
  next
    case 3
    let ?a = "s\<lparr> wt_candidate := 0 \<rparr>"
    have "wt_inv L ?a"
      using inv wt_core_parts [of ?a s] by (simp add: wt_inv_def wt_core_def carrier_available_def control_ok_def)
    from good_when_fun [OF good_conn_state this, of "\<lambda>s. wt_browser s = None \<and> wt_conn_state s \<noteq> WaitingForBrowser"]
    show ?thesis using 3 by (simp add: good_def webview_failed_def wt_simps)
  qed
qed

lemma good_protocol_error:
  assumes acct: "acct_ok L s"
  shows "good L protocol_error s"
proof (cases "wt_generation s \<noteq> 0")
  case True
  have "good L (wt_all [close_all_streams True, webview_failed (wt_generation s), wt_emit (FinishWebview (wt_generation s))]) s"
  proof (rule good_close_next [OF acct], rule good_step)
    show "good L (webview_failed (wt_generation s)) (no_streams L s)"
      by (rule good_webview_failed_active [OF acct_no_streams [OF acct]]) (simp add: no_streams_def)
  qed (rule good_emit_next, rule good_nil)
  then show ?thesis using True by (simp add: good_def protocol_error_def)
next
  case False
  let ?c = "(no_streams L s)\<lparr> wt_ready := [], wt_ready_set := {}, wt_control := [], wt_control_bytes := 0,
     wt_closed := {}, wt_closed_order := [], wt_welcomed := False \<rparr>"
  have inv: "wt_inv L ?c" by (rule idle_no_streams [OF acct]) (simp_all add: no_streams_def closed_ok_def)
  have "good L (wt_all [close_all_streams True,
           wt_pure (\<lambda>s. s\<lparr> wt_ready := [], wt_ready_set := {}, wt_control := [], wt_control_bytes := 0,
             wt_closed := {}, wt_closed_order := [], wt_welcomed := False \<rparr>),
           \<lambda>s. set_conn_state Failed (wt_browser_name s) s,
           close_browser_socket 1002]) s"
    by (rule good_close_next [OF acct], rule good_pure_next, rule good_step,
        rule good_carrier [OF carrier_op_fun [OF carrier_op_set_conn_state] inv], rule good_step,
        rule good_carrier [OF carrier_op_close_socket], assumption, rule good_nil)
  then show ?thesis using False by (simp add: good_def protocol_error_def)
qed

lemma good_lose_browser:
  assumes "acct_ok L s"
  shows "good L (lose_browser b) s"
proof -
  let ?a = "s\<lparr> wt_welcomed := False \<rparr>"
  let ?c = "(no_streams L ?a)\<lparr> wt_ready := [], wt_ready_set := {}, wt_control := [], wt_control_bytes := 0,
          wt_closed := {}, wt_closed_order := [] \<rparr>"
  have acct: "acct_ok L ?a" by (rule acct_reset [OF assms]) (simp_all add: closed_ok_def)
  have inv: "wt_inv L ?c" by (rule idle_no_streams [OF acct]) (simp_all add: no_streams_def closed_ok_def)
  have "good L (wt_all
       [wt_pure (\<lambda>s. s\<lparr> wt_welcomed := False \<rparr>),
        close_all_streams b,
        wt_pure (\<lambda>s. s\<lparr> wt_ready := [], wt_ready_set := {}, wt_control := [], wt_control_bytes := 0,
          wt_closed := {}, wt_closed_order := [] \<rparr>),
        \<lambda>s. set_conn_state (if wt_candidate s \<noteq> 0 then Connecting else if b then Failed else WaitingForBrowser)
              (wt_browser_name s) s]) s"
    by (rule good_pure_next, rule good_close_next [OF acct], rule good_pure_next, rule good_step,
        rule good_carrier [OF carrier_op_fun [OF carrier_op_set_conn_state] inv], rule good_nil)
  then show ?thesis by (simp add: good_def lose_browser_def)
qed

end
