(* ===== verification/Web_Proxy_Flow.thy ===== *)
theory Web_Proxy_Flow
  imports Web_Proxy_Invariant
begin

text \<open>
  The data path of the web proxy transport: what one turn of a stream sends (the next bytes, within the
  stream's window and the carrier's room), and that the loop over the ready streams keeps the
  invariant of the transport.
\<close>

section \<open>One turn of a stream\<close>

definition unsent :: "wt_stream \<Rightarrow> bytes" where
  "unsent st = concat (map (\<lambda>(data, k). drop k data) (st_pending st))"

definition carrier_event :: "bytes \<Rightarrow> web_transport \<Rightarrow> wt_event" where
  "carrier_event b s = (if wt_generation s \<noteq> 0 then CarrierWebview (wt_generation s) b else CarrierSocket (web_socket_frame 0x02 b))"

definition turn_room :: "web_transport \<Rightarrow> nat" where
  "turn_room s = nat (max_socket_pending_bytes - socket_control_reserve - carrier_pending_bytes s - int frame_header_size - 10)"

definition turn_size :: "wt_stream \<Rightarrow> web_transport \<Rightarrow> nat" where
  "turn_size st s =
     (case st_pending st of [] \<Rightarrow> 0
      | (data, offset) # _ \<Rightarrow> min (st_send_window st) (min (length data - offset) (min data_frame_size (turn_room s))))"

definition turn_sends :: "wt_stream \<Rightarrow> web_transport \<Rightarrow> bool" where
  "turn_sends st s \<longleftrightarrow> can_send st \<and> carrier_available s \<and> \<not> wt_write_failed s
     \<and> turn_room s > 0 \<and> carrier_accepts (frame_header_size + 1) False s"

definition after_turn :: "nat \<Rightarrow> wt_stream \<Rightarrow> wt_stream" where
  "after_turn n st = st\<lparr>
     st_pending := (let (data, offset) = hd (st_pending st)
                    in if offset + n = length data then tl (st_pending st) else (data, offset + n) # tl (st_pending st)),
     st_pending_bytes := st_pending_bytes st - int n, st_send_window := st_send_window st - n \<rparr>"

lemma wt_update_update [simp]: "wt_update i g (wt_update i f s) = wt_update i (g \<circ> f) s"
  by (simp add: wt_update_def comp_def case_prod_beta)

lemma wt_update_cong:
  assumes "flat_ok (map fst (wt_streams s))" and "wt_find i s = Some st" and "f st = g st"
  shows "wt_update i f s = wt_update i g s"
proof -
  have "f t = g t" if "(i, t) \<in> set (wt_streams s)" for t
    using assms that by (simp add: wt_find_def flat_ok_sorted_distinct)
  then have "map (\<lambda>(j, st). if j = i then (j, f st) else (j, st)) (wt_streams s)
      = map (\<lambda>(j, st). if j = i then (j, g st) else (j, st)) (wt_streams s)" by auto
  then show ?thesis by (simp only: wt_update_def)
qed

lemma wt_update_owner [simp]:
  "wt_update i f (s\<lparr> wt_owner_bytes := b, wt_owner_items := k \<rparr>) = (wt_update i f s)\<lparr> wt_owner_bytes := b, wt_owner_items := k \<rparr>"
  by (simp add: wt_update_def)

lemma write_carrier_frame_eq:
  assumes "carrier_available s"
  obtains s1 where "write_carrier_frame b s = Some (s1, [carrier_event b s])" "wt_core s1 = wt_core s"
    "control_ok s1 = control_ok s" "wt_control s1 = wt_control s" "wt_write_failed s1 = wt_write_failed s"
    "wt_generation s1 = wt_generation s"
proof (cases "wt_generation s \<noteq> 0")
  case True
  show ?thesis
    by (rule that [of "s\<lparr> wt_webview_bytes := wt_webview_bytes s + int (length b), wt_webview_items := wt_webview_items s + 1 \<rparr>"])
      (use True in \<open>simp_all add: write_carrier_frame_def carrier_event_def wt_core_def control_ok_def carrier_available_def\<close>)
next
  case False
  then obtain n where n: "wt_browser s = Some n" using assms by (auto simp: carrier_available_def)
  show ?thesis
    by (rule that [of "s\<lparr> wt_browser := Some (n + int (length (web_socket_frame 0x02 b))) \<rparr>"])
      (use False n in \<open>simp_all add: write_carrier_frame_def carrier_event_def wt_core_def control_ok_def carrier_available_def\<close>)
qed

lemma wt_core_find: "wt_core s' = wt_core s \<Longrightarrow> wt_find i s' = wt_find i s"
  by (simp add: wt_core_def wt_find_def)

lemma turn_size_pos:
  assumes "stream_ok st" and "turn_sends st s"
  shows "0 < turn_size st s"
proof -
  obtain data k rest where p: "st_pending st = (data, k) # rest"
    using assms(2) by (cases "st_pending st") (auto simp: turn_sends_def can_send_def)
  then show ?thesis
    using assms by (simp add: turn_size_def turn_sends_def can_send_def stream_ok_def data_frame_size_def)
qed

lemma after_turn_unsent:
  assumes "stream_ok st" "st_pending st = (data, k) # rest" "n \<le> length data - k"
  shows "bytes_at k n data @ unsent (after_turn n st) = unsent st"
proof -
  have "k < length data" using assms(1,2) by (simp add: stream_ok_def)
  then have "bytes_at k n data @ drop (k + n) data = drop k data"
    using append_take_drop_id [of n "drop k data"] by (simp add: bytes_at_def add.commute)
  moreover have "bytes_at k n data = drop k data" if "k + n = length data"
    using that by (simp add: bytes_at_def)
  ultimately show ?thesis using assms(2) by (simp add: unsent_def after_turn_def)
qed

lemma after_turn_ok:
  assumes st: "stream_ok st" and p: "st_pending st = (data, k) # rest" and n: "n \<le> length data - k"
  shows "stream_ok (after_turn n st)"
    "int (length (st_pending (after_turn n st))) = int (length (st_pending st)) - (if k + n = length data then 1 else 0)"
    "st_pending_bytes (after_turn n st) = st_pending_bytes st - int n"
proof -
  have k: "k < length data" and rest: "\<forall>(d, j) \<in> set rest. j < length d" using st p by (auto simp: stream_ok_def)
  have sum: "st_pending_bytes st = int (length data) - int k + pending_sum rest"
    using st p by (simp add: stream_ok_def pending_sum_def)
  have len: "length (st_pending (after_turn n st)) \<le> length (st_pending st)"
    using p by (simp add: after_turn_def)
  have "pending_sum (st_pending (after_turn n st)) = st_pending_bytes st - int n"
    using p k n sum by (auto simp: after_turn_def pending_sum_def)
  moreover have "\<forall>(d, j) \<in> set (st_pending (after_turn n st)). j < length d"
    using p k n rest by (auto simp: after_turn_def)
  ultimately show "stream_ok (after_turn n st)"
    using st len by (simp add: stream_ok_def) (simp add: after_turn_def less_imp_diff_less)
  show "int (length (st_pending (after_turn n st))) = int (length (st_pending st)) - (if k + n = length data then 1 else 0)"
    using p by (simp add: after_turn_def)
  show "st_pending_bytes (after_turn n st) = st_pending_bytes st - int n" by (simp add: after_turn_def)
qed

lemma flush_stream_sends:
  assumes find: "wt_find i s = Some st" and sends: "turn_sends st s" and p: "st_pending st = (data, k) # rest"
    and b: "serialize_frame FrameData i (bytes_at k (turn_size st s) data) = Some b"
  shows "flush_stream i s = wt_all
     [write_carrier_frame b,
      wt_pure (wt_update i (\<lambda>t. t\<lparr> st_pending := (data, k + turn_size st s) # tl (st_pending t),
        st_pending_bytes := st_pending_bytes t - int (turn_size st s), st_send_window := st_send_window t - turn_size st s \<rparr>)),
      owner_release (int (turn_size st s)) (if k + turn_size st s = length data then 1 else 0),
      wt_when (k + turn_size st s = length data) (wt_pure (wt_update i (\<lambda>st. st\<lparr> st_pending := tl (st_pending st) \<rparr>))),
      ensure_write_progress] s"
proof -
  have one: "\<not> (\<not> st_opened st \<or> \<not> carrier_available s)"
    and two: "\<not> (st_send_window st = 0 \<or> st_pending st = [] \<or> wt_write_failed s)"
    and three: "\<not> (max_socket_pending_bytes - socket_control_reserve - carrier_pending_bytes s \<le> int frame_header_size + 10
      \<or> \<not> carrier_accepts (frame_header_size + 1) False s)"
    using sends by (auto simp: turn_sends_def can_send_def turn_room_def)
  have size: "min (st_send_window st) (min (length data - k) (min data_frame_size
       (nat (max_socket_pending_bytes - socket_control_reserve - carrier_pending_bytes s - int frame_header_size - 10))))
     = turn_size st s"
    by (simp add: turn_size_def p turn_room_def)
  show ?thesis
    unfolding flush_stream_def find option.case if_not_P [OF one] if_not_P [OF two] Let_def if_not_P [OF three]
    unfolding p list.sel prod.case size b option.case by (rule refl)
qed

text \<open>The whole turn, with the state it leaves.\<close>

lemma flush_stream_turn:
  assumes acct: "acct_ok L s" and ctl: "control_ok s" and find: "wt_find i s = Some st" and sends: "turn_sends st s"
    and p: "st_pending st = (data, k) # rest"
  defines "n \<equiv> turn_size st s"
  obtains b s' es where "flush_stream i s = Some (s', carrier_event b s # es)"
    "serialize_frame FrameData i (bytes_at k n data) = Some b"
    "es = [] \<or> es = [StartProgressTimer (wt_generation s)]"
    "wt_core s' = wt_core ((wt_update i (after_turn n) s)\<lparr> wt_owner_bytes := wt_owner_bytes s - int n,
       wt_owner_items := wt_owner_items s - (if k + n = length data then 1 else 0) \<rparr>)"
    "control_ok s'"
proof -
  note D = acct_okD(2) [OF acct find]
  have st: "stream_ok st" and i: "i \<le> 0x00FFFFFF" using D by (simp_all add: id_ok_def)
  have n: "n \<le> length data - k" "n \<le> data_frame_size" "0 < n"
    using turn_size_pos [OF st sends] p by (auto simp: n_def turn_size_def)
  have k: "k < length data" using st p by (simp add: stream_ok_def)
  have "length (bytes_at k n data) \<le> max_frame_payload"
    using n k by (simp add: length_bytes_at data_frame_size_def max_frame_payload_def)
  then obtain b where b: "serialize_frame FrameData i (bytes_at k n data) = Some b"
    using i by (simp add: serialize_frame_def Let_def)
  have av: "carrier_available s" using sends by (simp add: turn_sends_def)
  obtain s1 where s1: "write_carrier_frame b s = Some (s1, [carrier_event b s])" "wt_core s1 = wt_core s"
    "control_ok s1 = control_ok s" "wt_generation s1 = wt_generation s"
    by (rule write_carrier_frame_eq [OF av, of b], rule that, assumption+)
  define f1 where "f1 = (\<lambda>st :: wt_stream. st\<lparr> st_pending := (data, k + n) # tl (st_pending st),
     st_pending_bytes := st_pending_bytes st - int n, st_send_window := st_send_window st - n \<rparr>)"
  define f2 where "f2 = (\<lambda>st :: wt_stream. st\<lparr> st_pending := tl (st_pending st) \<rparr>)"
  define items :: int where "items = (if k + n = length data then 1 else 0)"
  define s2 where "s2 = wt_update i f1 s1"
  define s3 where "s3 = s2\<lparr> wt_owner_bytes := wt_owner_bytes s2 - int n, wt_owner_items := wt_owner_items s2 - items \<rparr>"
  define s4 where "s4 = (if k + n = length data then wt_update i f2 s3 else s3)"
  note le = acct_stream_le [OF acct find] acct_okD(3,4) [OF acct]
  have own: "wt_owner_bytes s2 = wt_owner_bytes s" "wt_owner_items s2 = wt_owner_items s"
    using s1(2) by (simp_all add: s2_def wt_core_def)
  have held: "int n \<le> st_pending_bytes st" "items \<le> int (length (st_pending st))"
    using n k p st pending_sum_nonneg [of rest] by (auto simp: stream_ok_def pending_sum_def items_def)
  have rel: "owner_release (int n) items s2 = Some (s3, [])"
    unfolding s3_def by (rule owner_release_eq) (use own held le in \<open>simp_all add: items_def\<close>)
  obtain s5 es where s5: "ensure_write_progress s4 = Some (s5, es)" "wt_core s5 = wt_core s4" "control_ok s5 = control_ok s4"
    "es = [] \<or> es = [StartProgressTimer (wt_generation s4)]"
    by (cases "ensure_write_progress s4")
      (auto simp: ensure_write_progress_def wt_core_def carrier_available_def control_ok_def split: if_splits)
  have s4w: "wt_when (k + n = length data) (wt_pure (wt_update i f2)) s3 = Some (s4, [])"
    by (simp add: s4_def wt_simps wt_when_def)
  have "flush_stream i s = wt_all [write_carrier_frame b, wt_pure (wt_update i f1), owner_release (int n) items,
      wt_when (k + n = length data) (wt_pure (wt_update i f2)), ensure_write_progress] s"
    unfolding f1_def f2_def items_def n_def by (rule flush_stream_sends [OF find sends p b [unfolded n_def]])
  also have "\<dots> = Some (s5, carrier_event b s # es)"
    by (simp add: s1(1) rel s4w s5(1) wt_simps s2_def [symmetric])
  finally have run: "flush_stream i s = Some (s5, carrier_event b s # es)" .
  let ?f = "if k + n = length data then f2 \<circ> f1 else f1"
  have same: "wt_update i ?f s = wt_update i (after_turn n) s"
    by (rule wt_update_cong [OF acct_okD(1) [OF acct] find]) (simp add: after_turn_def p f1_def f2_def)
  have "wt_core s4 = wt_core ((wt_update i ?f s1)\<lparr> wt_owner_bytes := wt_owner_bytes s - int n, wt_owner_items := wt_owner_items s - items \<rparr>)"
    using own by (simp add: s4_def s3_def s2_def)
  also have "\<dots> = wt_core ((wt_update i ?f s)\<lparr> wt_owner_bytes := wt_owner_bytes s - int n, wt_owner_items := wt_owner_items s - items \<rparr>)"
    using s1(2) by (simp add: wt_core_def wt_update_def carrier_available_def)
  finally have core: "wt_core s5 = wt_core ((wt_update i (after_turn n) s)\<lparr> wt_owner_bytes := wt_owner_bytes s - int n,
       wt_owner_items := wt_owner_items s - items \<rparr>)"
    unfolding same s5(2) .
  have c5: "control_ok s5"
    using ctl s1(3) unfolding s5(3) s4_def s3_def s2_def by (simp add: control_ok_def)
  have "wt_generation s4 = wt_generation s"
    by (simp add: s4_def s3_def s2_def wt_update_def s1(4))
  then show ?thesis using that [OF run b _ core [unfolded items_def] c5] s5(4) by simp
qed

lemma flush_stream_idle:
  assumes "wt_find i s = Some st" and "\<not> turn_sends st s"
  shows "flush_stream i s = Some (s, [])"
  using assms by (auto simp: flush_stream_def turn_sends_def can_send_def turn_room_def)

section \<open>Ready streams\<close>

text \<open>The invariant of the ready streams with the exception of one stream, which is being served.\<close>

definition ready_but :: "stream_id \<Rightarrow> web_transport \<Rightarrow> bool" where
  "ready_but i s \<longleftrightarrow> wt_ready_set s \<subseteq> set (wt_ready s)
     \<and> (\<forall>(j, st) \<in> set (wt_streams s). can_send st \<longrightarrow> j \<noteq> i \<longrightarrow> j \<in> wt_ready_set s)
     \<and> (\<forall>j \<in> wt_ready_set s. \<exists>st. (j, st) \<in> set (wt_streams s) \<and> can_send st)"

lemma set_update: "set (wt_streams (wt_update i f s)) = (\<lambda>(j, st). if j = i then (j, f st) else (j, st)) ` set (wt_streams s)"
  by (simp add: wt_update_def)

lemma ready_but_update:
  assumes ready: "ready_but i s" and mono: "\<And>st. i \<in> wt_ready_set s \<Longrightarrow> can_send st \<Longrightarrow> can_send (f st)"
  shows "ready_but i (wt_update i f s)"
proof -
  have in_ready: "\<forall>j \<in> wt_ready_set s. \<exists>st. (j, st) \<in> set (wt_streams s) \<and> can_send st"
    and others: "\<forall>(j, st) \<in> set (wt_streams s). can_send st \<longrightarrow> j \<noteq> i \<longrightarrow> j \<in> wt_ready_set s"
    using ready by (simp_all add: ready_but_def)
  have "\<exists>st. (j, st) \<in> set (wt_streams (wt_update i f s)) \<and> can_send st" if "j \<in> wt_ready_set s" for j
  proof -
    from bspec [OF in_ready that] obtain st where st: "(j, st) \<in> set (wt_streams s)" "can_send st" by (elim exE conjE)
    have "(j, if j = i then f st else st) \<in> set (wt_streams (wt_update i f s))"
      unfolding set_update by (rule image_eqI [where x = "(j, st)"]) (simp_all add: st(1))
    moreover have "can_send (if j = i then f st else st)" using st(2) mono [of st] that by (cases "j = i") simp_all
    ultimately show ?thesis by blast
  qed
  moreover have "\<forall>(j, st) \<in> set (wt_streams (wt_update i f s)). can_send st \<longrightarrow> j \<noteq> i \<longrightarrow> j \<in> wt_ready_set s"
    using others by (auto simp: set_update split: if_splits)
  ultimately show ?thesis using ready by (simp add: ready_but_def)
qed

lemma ready_ok_but: "ready_ok s \<Longrightarrow> ready_but i s"
  by (auto simp: ready_ok_def ready_but_def)

lemma ready_but_core: "wt_core s' = wt_core s \<Longrightarrow> ready_but i s' = ready_but i s"
  by (simp add: wt_core_def ready_but_def)

lemma wt_find_set: "flat_ok (map fst (wt_streams s)) \<Longrightarrow> (i, st) \<in> set (wt_streams s) \<longleftrightarrow> wt_find i s = Some st"
  by (simp add: wt_find_def flat_ok_sorted_distinct)

lemma mark_ready_simps [simp]:
  "wt_streams (mark_ready i s) = wt_streams s" "carrier_available (mark_ready i s) = carrier_available s"
  "control_ok (mark_ready i s) = control_ok s" "wt_welcomed (mark_ready i s) = wt_welcomed s"
  "acct_ok L (mark_ready i s) = acct_ok L s" "session_ok (mark_ready i s) = session_ok s" "wt_find j (mark_ready i s) = wt_find j s"
  by (simp_all add: mark_ready_def carrier_available_def control_ok_def acct_ok_def session_ok_def closed_ok_def
      queue_bytes_def queue_items_def wt_find_def split: option.split)

lemma mark_ready_ok:
  assumes "ready_but i s" and "flat_ok (map fst (wt_streams s))"
  shows "ready_ok (mark_ready i s)"
proof (cases "wt_find i s")
  case None
  have "(i, st) \<notin> set (wt_streams s)" for st using wt_find_set [OF assms(2)] None by simp
  then have "\<forall>(j, st) \<in> set (wt_streams s). j \<noteq> i" by auto
  then show ?thesis using assms(1) None by (fastforce simp: mark_ready_def ready_ok_def ready_but_def)
next
  case (Some st)
  show ?thesis
  proof (cases "can_send st \<and> i \<notin> wt_ready_set s")
    case True
    then have "mark_ready i s = s\<lparr> wt_ready_set := insert i (wt_ready_set s), wt_ready := wt_ready s @ [i] \<rparr>"
      using Some by (simp add: mark_ready_def can_send_def)
    moreover have "(i, st) \<in> set (wt_streams s)" using wt_find_set [OF assms(2)] Some by simp
    ultimately show ?thesis using assms(1) True by (auto simp: ready_ok_def ready_but_def)
  next
    case False
    then have "mark_ready i s = s" using Some by (auto simp: mark_ready_def can_send_def)
    moreover have "t = st" if "(i, t) \<in> set (wt_streams s)" for t using wt_find_set [OF assms(2)] Some that by simp
    ultimately show ?thesis using assms(1) False by (fastforce simp: ready_ok_def ready_but_def)
  qed
qed

text \<open>The invariant without the ready streams.\<close>

definition flow_ok :: "nat list \<Rightarrow> web_transport \<Rightarrow> bool" where
  "flow_ok L s \<longleftrightarrow> acct_ok L s \<and> session_ok s \<and> control_ok s"

lemma wt_inv_flow: "wt_inv L s \<longleftrightarrow> flow_ok L s \<and> ready_ok s"
  by (auto simp: wt_inv_def flow_ok_def)

lemma session_update:
  assumes "session_ok s" and "\<And>st. st_opened (f st) = st_opened st"
  shows "session_ok (wt_update i f s)"
  using assms by (fastforce simp: session_ok_def set_update split: if_splits)

lemma session_carrier: "wt_core s' = wt_core s \<Longrightarrow> carrier_available s' = carrier_available s"
  by (simp add: wt_core_def)

lemma flush_stream_flow:
  assumes flow: "flow_ok L s" and ready: "ready_but i s" and out: "i \<notin> wt_ready_set s"
  shows "\<exists>s' es. flush_stream i s = Some (s', es) \<and> flow_ok L s' \<and> ready_but i s'"
proof (cases "wt_find i s")
  case None
  then show ?thesis using assms by (simp add: flush_stream_def)
next
  case (Some st)
  note acct = flow [unfolded flow_ok_def, THEN conjunct1]
  show ?thesis
  proof (cases "turn_sends st s")
    case False
    then show ?thesis using flush_stream_idle [OF Some] assms by auto
  next
    case True
    then obtain data k rest where p: "st_pending st = (data, k) # rest"
      by (cases "st_pending st") (auto simp: turn_sends_def can_send_def)
    let ?n = "turn_size st s"
    let ?s = "(wt_update i (after_turn ?n) s)\<lparr> wt_owner_bytes := wt_owner_bytes s - int ?n,
       wt_owner_items := wt_owner_items s - (if k + ?n = length data then 1 else 0) \<rparr>"
    have ctl: "control_ok s" using flow by (simp add: flow_ok_def)
    obtain s' es where run: "flush_stream i s = Some (s', es)" "wt_core s' = wt_core ?s" "control_ok s'"
      by (rule flush_stream_turn [OF acct ctl Some True p], rule that, assumption+)
    have n: "?n \<le> length data - k" by (simp add: turn_size_def p)
    have st: "stream_ok st" using acct_okD(2) [OF acct Some] by simp
    note after = after_turn_ok [OF st p n]
    have "acct_ok L ?s"
      by (rule acct_update [where f = "after_turn ?n", OF acct Some after(1)]) (use after(2,3) acct in \<open>auto simp: acct_ok_def\<close>)
    moreover have "session_ok ?s"
    proof -
      have "session_ok (wt_update i (after_turn ?n) s)"
        by (rule session_update) (use flow in \<open>simp_all add: flow_ok_def after_turn_def\<close>)
      then show ?thesis by (simp add: session_ok_def carrier_available_def)
    qed
    moreover have "ready_but i ?s" using ready_but_update [where f = "after_turn ?n", OF ready] out by (simp add: ready_but_def)
    ultimately show ?thesis
      using run wt_core_parts [OF run(2)] ready_but_core [OF run(2)] by (auto simp: flow_ok_def)
  qed
qed

lemma flush_streams_loop_inv:
  "wt_inv L s \<Longrightarrow> \<exists>s' es. flush_streams_loop n s = Some (s', es) \<and> wt_inv L s'"
proof (induction n s rule: flush_streams_loop.induct)
  case (1 n s)
  show ?case
  proof (cases "wt_ready s")
    case Nil
    then show ?thesis using 1(3) by (simp add: flush_streams_loop.simps)
  next
    case (Cons i rest)
    show ?thesis
    proof (cases "n = 0 \<or> \<not> carrier_accepts (frame_header_size + 1) False s")
      case True
      then show ?thesis using 1(3) Cons by (auto simp: flush_streams_loop.simps)
    next
      case False
      show ?thesis
      proof (cases "i \<in> wt_ready_set s")
        case notin: False
        let ?s = "s\<lparr> wt_ready := rest \<rparr>"
        have "flow_ok L ?s" using 1(3) by (simp add: wt_inv_flow flow_ok_def acct_ok_def session_ok_def control_ok_def
            closed_ok_def queue_bytes_def queue_items_def carrier_available_def)
        moreover have "ready_ok ?s" using 1(3) Cons notin by (auto simp: wt_inv_flow ready_ok_def)
        ultimately have "wt_inv L ?s" by (simp add: wt_inv_flow)
        from 1(1) [OF Cons False notin this] show ?thesis
          by (subst flush_streams_loop.simps) (simp only: Cons list.case if_not_P [OF False] if_P [OF notin])
      next
        case isin: True
        let ?s = "s\<lparr> wt_ready := rest, wt_ready_set := wt_ready_set s - {i} \<rparr>"
        have flow: "flow_ok L ?s" using 1(3) by (simp add: wt_inv_flow flow_ok_def acct_ok_def session_ok_def control_ok_def
            closed_ok_def queue_bytes_def queue_items_def carrier_available_def)
        have ready: "ready_but i ?s" using 1(3) Cons by (auto simp: wt_inv_flow ready_ok_def ready_but_def)
        obtain s1 es1 where 2: "flush_stream i ?s = Some (s1, es1)" "flow_ok L s1" "ready_but i s1"
          using flush_stream_flow [OF flow ready] by auto
        have "wt_inv L (mark_ready i s1)"
          using 2 mark_ready_ok [OF 2(3)] acct_okD(1) [of L s1] by (simp add: wt_inv_flow flow_ok_def)
        moreover have "\<not> i \<notin> wt_ready_set s" using isin by simp
        ultimately have "\<exists>s' es. flush_streams_loop (n - 1) (mark_ready i s1) = Some (s', es) \<and> wt_inv L s'"
          using 1(2) [OF Cons False _ 2(1) refl] by blast
        then show ?thesis
          unfolding flush_streams_loop.simps [of n s] Cons list.case if_not_P [OF False] if_not_P [OF \<open>\<not> i \<notin> wt_ready_set s\<close>]
          using 2(1) by auto
      qed
    qed
  qed
qed

lemma good_flush_streams:
  assumes "wt_inv L s"
  shows "good L flush_streams s"
proof (cases "\<not> carrier_available s \<or> wt_write_failed s")
  case True
  then show ?thesis using assms by (simp add: good_def flush_streams_def)
next
  case False
  have "good L (wt_all [flush_streams_loop max_flush_frames_per_turn,
                      \<lambda>s. wt_when (carrier_pending_bytes s > 0) ensure_write_progress s]) s" if "wt_inv L s" for s
    by (rule good_step, unfold good_def, rule flush_streams_loop_inv [OF that], fold good_def)
      (rule good_when_fun [OF good_carrier [OF carrier_op_progress]])
  then have "good L (wt_all [flush_control_frames,
                \<lambda>s. wt_when (wt_control s = [])
                     (wt_all [flush_streams_loop max_flush_frames_per_turn,
                              \<lambda>s. wt_when (carrier_pending_bytes s > 0) ensure_write_progress s]) s]) s"
    by (intro good_step [OF good_carrier [OF carrier_op_flush_control assms]] good_when_fun)
  then show ?thesis using False by (simp add: good_def flush_streams_def)
qed

end
