(* ===== verification/Web_Proxy_Safety.thy ===== *)
theory Web_Proxy_Safety
  imports Web_Proxy_Flow
begin

text \<open>
  Every call of the web proxy transport returns and keeps its invariant: no assertion of the code
  fails, the counters of pending data are exact and within their limits, and no stream that can send
  is left out of the queue of ready streams.
\<close>

section \<open>Streams\<close>

lemma good_fun: "good L (f s) s \<Longrightarrow> good L (\<lambda>s. f s s) s"
  by (simp add: good_def)

lemma good_when_true: "b \<Longrightarrow> good L f s \<Longrightarrow> good L (wt_when b f) s"
  by (simp add: good_def wt_simps)

lemma wt_inv_parts:
  assumes "wt_inv L s"
  shows "acct_ok L s" "ready_ok s" "session_ok s" "control_ok s" "flat_ok (map fst (wt_streams s))"
  using assms acct_okD(1) [of L s] by (auto simp: wt_inv_def)

lemma good_drop_stream:
  assumes inv: "wt_inv L s" and find: "wt_find i s = Some st"
  shows "good L (drop_stream i st) s"
proof -
  note parts = wt_inv_parts [OF inv]
  obtain s' where s': "drop_stream i st s = Some (s', [])" "acct_ok L s'" "wt_streams s' = wt_streams (wt_erase i s)"
    "wt_ready s' = wt_ready s" "wt_ready_set s' = wt_ready_set s - {i}" "wt_welcomed s' = wt_welcomed s"
    "carrier_available s' = carrier_available s" "control_ok s' = control_ok s"
    using drop_stream_ok [OF parts(1) find] by blast
  have str: "set (wt_streams s') = {(j, st) \<in> set (wt_streams s). j \<noteq> i}" by (auto simp: s'(3) wt_erase_def)
  have "ready_ok s'" using parts(2) str by (auto simp: ready_ok_def s')
  moreover have "session_ok s'" using parts(3) str by (auto simp: session_ok_def s')
  ultimately show ?thesis using s' parts(4) by (auto simp: good_def wt_inv_def)
qed

lemma inv_update:
  assumes inv: "wt_inv L s" and find: "wt_find i s = Some st" and ok: "stream_ok (f st)"
    and same: "\<And>st. st_pending (f st) = st_pending st \<and> st_opened (f st) = st_opened st"
  shows "flow_ok L (wt_update i f s)" "(\<And>st. can_send st \<Longrightarrow> can_send (f st)) \<Longrightarrow> ready_but i (wt_update i f s)"
    "(\<And>st. st_send_window (f st) = st_send_window st) \<Longrightarrow> wt_inv L (wt_update i f s)"
proof -
  note parts = wt_inv_parts [OF inv]
  have acct: "acct_ok L (wt_update i f s)" by (rule acct_update_same [where f = f, OF parts(1) find ok]) (simp add: same)
  moreover have "session_ok (wt_update i f s)" by (rule session_update [OF parts(3)]) (simp add: same)
  ultimately show flow: "flow_ok L (wt_update i f s)" using parts(4) by (simp add: flow_ok_def)
  show "ready_but i (wt_update i f s)" if "\<And>st. can_send st \<Longrightarrow> can_send (f st)"
    by (rule ready_but_update [OF ready_ok_but [OF parts(2)]]) (rule that)
  show "wt_inv L (wt_update i f s)" if w: "\<And>st. st_send_window (f st) = st_send_window st"
  proof -
    have same_send: "can_send (f st) = can_send st" for st using same w by (simp add: can_send_def)
    have "ready_but i (wt_update i f s)" by (rule ready_but_update [OF ready_ok_but [OF parts(2)]]) (simp add: same_send)
    moreover have "\<forall>(j, st) \<in> set (wt_streams (wt_update i f s)). can_send st \<longrightarrow> j \<in> wt_ready_set s"
      using parts(2) unfolding ready_ok_def set_update by (auto simp: same_send split: if_splits)
    ultimately have "ready_ok (wt_update i f s)" by (simp add: ready_ok_def ready_but_def)
    then show ?thesis using flow by (simp add: wt_inv_flow)
  qed
qed

lemma inv_mark_ready: "flow_ok L s \<Longrightarrow> ready_but i s \<Longrightarrow> wt_inv L (mark_ready i s)"
  using mark_ready_ok [of i s] acct_okD(1) [of L s] by (simp add: wt_inv_flow flow_ok_def)

lemma find_carrier: "carrier_op f \<Longrightarrow> control_ok s \<Longrightarrow> f s = Some (s', es) \<Longrightarrow> wt_find i s' = wt_find i s"
  by (erule (1) carrier_opE) (auto intro: wt_core_find)

text \<open>The end of an open stream: a close frame, the id remembered, the stream dropped.\<close>

lemma good_end_stream:
  assumes inv: "wt_inv L s" and find: "wt_find i s = Some st" and tail: "\<And>s. wt_inv L s \<Longrightarrow> good L (wt_all fs) s"
  shows "good L (wt_all (close_opened i st # drop_stream i st # fs)) s"
proof -
  have i: "i \<le> 0x00FFFFFF" using acct_okD(2) [OF wt_inv_parts(1) [OF inv] find] by (simp add: id_ok_def)
  have send: "carrier_op (send_frame FrameClose i [])" by (rule carrier_op_send_frame [OF i]) (simp add: max_frame_payload_def)
  obtain s1 es1 where 1: "close_opened i st s = Some (s1, es1)" "wt_inv L s1" "wt_find i s1 = Some st"
  proof (cases "st_opened st")
    case False
    then show ?thesis using that [of s "[]"] inv find by (simp add: close_opened_def wt_simps)
  next
    case True
    obtain s1 es1 where "send_frame FrameClose i [] s = Some (s1, es1)" "wt_inv L s1"
      by (rule goodE [OF good_carrier [OF send inv]])
    moreover from this(1) have "wt_find i s1 = Some st"
      using find_carrier [OF send wt_inv_parts(4) [OF inv]] find by simp
    ultimately show ?thesis
      using that [of "remember_closed i s1" es1] True by (simp add: close_opened_def wt_simps remember_closed_inv)
  qed
  show ?thesis
    by (rule good_next, rule 1(1), rule good_step, rule good_drop_stream [OF 1(2,3)], rule tail)
qed

lemma good_close_stream: "wt_inv L s \<Longrightarrow> good L (close_stream i) s"
proof (cases "wt_find i s")
  case (Some st)
  assume "wt_inv L s"
  from good_end_stream [OF this Some, of "[]"] show ?thesis
    using Some by (simp add: good_def close_stream_def)
qed (simp add: good_def close_stream_def)

lemma good_fail_stream: "wt_inv L s \<Longrightarrow> good L (fail_stream i) s"
proof (cases "wt_find i s")
  case (Some st)
  assume inv: "wt_inv L s"
  have "good L (wt_all [close_opened i st, drop_stream i st, wt_emit (NotifyFailed i)]) s"
    by (rule good_end_stream [OF inv Some]) (rule good_emit_next, rule good_nil)
  then show ?thesis using Some by (simp add: good_def fail_stream_def)
qed (simp add: good_def fail_stream_def)

section \<open>New streams and data\<close>

lemma flat_emplace_streams:
  assumes "flat_ok (map fst ss)" and "i \<notin> fst ` set ss"
  shows "flat_ok (map fst (flat_emplace i st ss))" "set (flat_emplace i st ss) = insert (i, st) (set ss)"
    "streams_bytes (flat_emplace i st ss) = st_pending_bytes st + streams_bytes ss"
    "streams_items (flat_emplace i st ss) = int (length (st_pending st)) + streams_items ss"
proof -
  have "streams_bytes (flat_emplace i st ss) = st_pending_bytes st + streams_bytes ss
      \<and> streams_items (flat_emplace i st ss) = int (length (st_pending st)) + streams_items ss"
    using assms(2) by (induction i st ss rule: flat_emplace.induct) auto
  then show "streams_bytes (flat_emplace i st ss) = st_pending_bytes st + streams_bytes ss"
    "streams_items (flat_emplace i st ss) = int (length (st_pending st)) + streams_items ss" by simp_all
qed (rule flat_ok_emplace [OF assms(1)], rule set_flat_emplace [OF assms(2)])

lemma map_flat_emplace:
  "i \<notin> fst ` set ss \<Longrightarrow>
     map (\<lambda>(j, st). if j = i then (j, f st) else (j, st)) (flat_emplace i st ss) = flat_emplace i (f st) ss"
proof (induction i st ss rule: flat_emplace.induct)
  case (2 k v k' v' q)
  have "map (\<lambda>(j, st). if j = k then (j, f st) else (j, st)) zs = zs" if "k \<notin> fst ` set zs" for zs
    using that by (induction zs) auto
  then show ?case using 2 by auto
qed simp

lemma good_register_stream:
  assumes inv: "wt_inv L s" and i: "id_ok i"
  shows "good L (register_stream i) s"
proof (cases "wt_proxy s = None \<or> wt_find i s \<noteq> None \<or> i \<in> wt_closed s")
  case True
  then show ?thesis using inv by (auto simp: good_def register_stream_def)
next
  case fresh: False
  note parts = wt_inv_parts [OF inv]
  define st where "st = new_stream\<lparr> st_opened := wt_welcomed s \<rparr>"
  let ?new = "s\<lparr> wt_streams := flat_emplace i new_stream (wt_streams s) \<rparr>"
  let ?s = "s\<lparr> wt_streams := flat_emplace i st (wt_streams s) \<rparr>"
  have notin: "i \<notin> fst ` set (wt_streams s)"
    using fresh by (auto simp: wt_find_def map_of_eq_None_iff)
  note ins = flat_emplace_streams [OF parts(5) notin]
  have st: "stream_ok st" "\<not> can_send st"
    by (simp_all add: st_def new_stream_def stream_ok_def can_send_def pending_sum_def initial_stream_window_def window_flush_bytes_def
        max_pending_stream_bytes_def)
  have "closed_ok ?s = closed_ok s" by (simp add: closed_ok_def)
  moreover have "st_pending_bytes st = 0" "st_pending st = []" by (simp_all add: st_def new_stream_def)
  ultimately have "acct_ok L ?s"
    using parts(1) ins [of st] st i unfolding acct_ok_def queue_simps by simp
  moreover have "ready_ok ?s" using parts(2) ins(2) [of st] st unfolding ready_ok_def by auto
  moreover have "session_ok ?s" using parts(3) ins(2) [of st] by (simp add: session_ok_def st_def carrier_available_def)
  moreover have "control_ok ?s" using parts(4) by (simp add: control_ok_def)
  ultimately have new: "wt_inv L ?s" by (simp add: wt_inv_def)
  show ?thesis
  proof (cases "wt_welcomed s")
    case False
    then have "st = new_stream" by (simp add: st_def new_stream_def)
    then show ?thesis
      using new False unfolding good_def register_stream_def if_not_P [OF fresh] by (simp add: wt_simps)
  next
    case True
    have open_new: "wt_update i (\<lambda>st. st\<lparr> st_opened := True \<rparr>) ?new = ?s"
      using True by (simp add: wt_update_def map_flat_emplace [OF notin] st_def)
    have send: "carrier_op (send_frame FrameOpen i [])"
      using i by (intro carrier_op_send_frame) (simp_all add: id_ok_def max_frame_payload_def)
    have "good L (wt_when (wt_welcomed s) (wt_all [wt_pure (wt_update i (\<lambda>st. st\<lparr> st_opened := True \<rparr>)),
                          send_frame FrameOpen i [], wt_emit (NotifyConnected i)])) ?new"
      by (rule good_when_true, rule True, rule good_pure_next, unfold open_new, rule good_step, rule good_carrier [OF send new],
          rule good_emit_next, rule good_nil)
    then have "good L (wt_all
          [wt_pure (\<lambda>s. s\<lparr> wt_streams := flat_emplace i new_stream (wt_streams s) \<rparr>),
           wt_when (wt_welcomed s) (wt_all [wt_pure (wt_update i (\<lambda>st. st\<lparr> st_opened := True \<rparr>)),
                                            send_frame FrameOpen i [], wt_emit (NotifyConnected i)])]) s"
      by (intro good_pure_next good_step good_nil)
    then show ?thesis by (rule good_cong [rotated]) (simp only: register_stream_def if_not_P [OF fresh])
  qed
qed

text \<open>Before the data of a call are handed over they are counted in \<open>L\<close>; afterwards the stream holds them.\<close>

lemma inv_release:
  assumes "wt_inv (n # L) s"
  shows "owner_release (int n) 1 s = Some (s\<lparr> wt_owner_bytes := wt_owner_bytes s - int n, wt_owner_items := wt_owner_items s - 1 \<rparr>, [])"
    "wt_inv L (s\<lparr> wt_owner_bytes := wt_owner_bytes s - int n, wt_owner_items := wt_owner_items s - 1 \<rparr>)"
proof -
  let ?s = "s\<lparr> wt_owner_bytes := wt_owner_bytes s - int n, wt_owner_items := wt_owner_items s - 1 \<rparr>"
  note parts = wt_inv_parts [OF assms]
  have q: "queue_bytes (n # L) s = int n + queue_bytes L s" "queue_items (n # L) s = 1 + queue_items L s"
    by (simp_all add: queue_bytes_def queue_items_def)
  have "\<forall>(i, st) \<in> set (wt_streams s). stream_ok st" using parts(1) by (auto simp: acct_ok_def)
  note nn = streams_nonneg [OF this]
  have nq: "0 \<le> queue_bytes L s" "0 \<le> queue_items L s" by (simp_all add: queue_bytes_def queue_items_def)
  have own: "wt_owner_bytes s = streams_bytes (wt_streams s) + (int n + queue_bytes L s)"
    "wt_owner_items s = streams_items (wt_streams s) + (1 + queue_items L s)"
    using parts(1) q by (simp_all add: acct_ok_def)
  then show "owner_release (int n) 1 s = Some (?s, [])"
    using nn nq by (intro owner_release_eq) simp_all
  have same: "queue_bytes L ?s = queue_bytes L s" "queue_items L ?s = queue_items L s" "closed_ok ?s = closed_ok s"
    by (simp_all add: queue_bytes_def queue_items_def closed_ok_def)
  have "acct_ok L ?s" using parts(1) own unfolding acct_ok_def same by simp
  then show "wt_inv L ?s" using parts(2-4) by (simp add: wt_inv_def ready_ok_def session_ok_def control_ok_def carrier_available_def)
qed

lemma good_release_next:
  assumes "wt_inv (n # L) s" and "\<And>s1. wt_inv L s1 \<Longrightarrow> wt_streams s1 = wt_streams s \<Longrightarrow> good L (wt_all fs) s1"
  shows "good L (wt_all (owner_release (int n) 1 # fs)) s"
  by (rule good_next, rule inv_release(1) [OF assms(1)], rule assms(2) [OF inv_release(2) [OF assms(1)]]) simp

definition append_data :: "bytes \<Rightarrow> wt_stream \<Rightarrow> wt_stream" where
  "append_data data st = st\<lparr> st_pending_bytes := st_pending_bytes st + int (length data),
     st_pending := (if coalesces data st then butlast (st_pending st) @ [(fst (last (st_pending st)) @ data, 0)]
                    else st_pending st @ [(data, 0)]) \<rparr>"

lemma pending_sum_append: "pending_sum (p @ q) = pending_sum p + pending_sum q"
  by (simp add: pending_sum_def)

lemma append_data_ok:
  assumes st: "stream_ok st" and data: "data \<noteq> []"
    and room: "\<not> (st_pending_bytes st + int (length data) > max_pending_stream_bytes
             \<or> (\<not> coalesces data st \<and> length (st_pending st) \<ge> max_pending_stream_items))"
  shows "stream_ok (append_data data st)"
    "int (length (st_pending (append_data data st))) = int (length (st_pending st)) + (if coalesces data st then 0 else 1)"
    "st_pending_bytes (append_data data st) = st_pending_bytes st + int (length data)"
    "unsent (append_data data st) = unsent st @ data"
proof -
  have "stream_ok (append_data data st) \<and>
    int (length (st_pending (append_data data st))) = int (length (st_pending st)) + (if coalesces data st then 0 else 1)
    \<and> unsent (append_data data st) = unsent st @ data"
  proof (cases "coalesces data st")
    case True
    then obtain p d where p: "st_pending st = p @ [(d, 0)]"
      by (cases "st_pending st" rule: rev_cases) (auto simp: coalesces_def)
    then have "st_pending (append_data data st) = p @ [(d @ data, 0)]" using True by (simp add: append_data_def)
    then show ?thesis
      using st data room True p by (simp add: stream_ok_def unsent_def pending_sum_append)
        (simp add: append_data_def pending_sum_def)
  next
    case False
    then have "st_pending (append_data data st) = st_pending st @ [(data, 0)]" by (simp add: append_data_def)
    then show ?thesis
      using st data room False by (simp add: stream_ok_def unsent_def pending_sum_append)
        (auto simp add: append_data_def pending_sum_def)
  qed
  then show "stream_ok (append_data data st)"
    "int (length (st_pending (append_data data st))) = int (length (st_pending st)) + (if coalesces data st then 0 else 1)"
    "unsent (append_data data st) = unsent st @ data" by blast+
  show "st_pending_bytes (append_data data st) = st_pending_bytes st + int (length data)" by (simp add: append_data_def)
qed

lemma append_can_send: "can_send st \<Longrightarrow> can_send (append_data data st)"
  by (simp add: can_send_def append_data_def)

lemma append_inv:
  assumes inv: "wt_inv (length data # L) s" and find: "wt_find i s = Some st" and data: "data \<noteq> []"
    and room: "\<not> (st_pending_bytes st + int (length data) > max_pending_stream_bytes
             \<or> (\<not> coalesces data st \<and> length (st_pending st) \<ge> max_pending_stream_items))"
  defines "s2 \<equiv> (wt_update i (append_data data) s)\<lparr> wt_owner_items := wt_owner_items s - (if coalesces data st then 1 else 0) \<rparr>"
  shows "flow_ok L s2" "ready_but i s2"
proof -
  let ?b = "s\<lparr> wt_owner_bytes := wt_owner_bytes s - int (length data), wt_owner_items := wt_owner_items s - 1 \<rparr>"
  have base: "acct_ok L ?b" "session_ok ?b" "ready_ok ?b" using inv_release(2) [OF inv] by (simp_all add: wt_inv_def)
  have find': "wt_find i ?b = Some st" using find by (simp add: wt_find_def)
  have st: "stream_ok st" using acct_okD(2) [OF base(1) find'] by simp
  note app = append_data_ok [OF st data room]
  have le: "wt_owner_bytes s \<le> max_pending_transport_bytes" "wt_owner_items s \<le> max_pending_transport_items"
    using wt_inv_parts(1) [OF inv] by (simp_all add: acct_ok_def)
  have eq: "s2 = (wt_update i (append_data data) ?b)\<lparr> wt_owner_bytes := wt_owner_bytes s,
      wt_owner_items := wt_owner_items s - (if coalesces data st then 1 else 0) \<rparr>"
    by (simp add: s2_def wt_update_def)
  have "acct_ok L s2"
    unfolding eq by (rule acct_update [where f = "append_data data", OF base(1) find' app(1)]) (use app(2,3) le in auto)
  moreover have "session_ok s2"
    using session_update [OF base(2), of "append_data data" i] unfolding eq
    by (simp add: append_data_def session_ok_def carrier_available_def)
  moreover have "control_ok s2" using wt_inv_parts(4) [OF inv] by (simp add: s2_def control_ok_def wt_update_def)
  ultimately show "flow_ok L s2" by (simp add: flow_ok_def)
  show "ready_but i s2"
    using ready_but_update [OF ready_ok_but [OF base(3)], of i "append_data data"] unfolding eq
    by (simp add: ready_but_def append_can_send)
qed

lemma good_flush_marked:
  assumes "flow_ok L s" and "ready_but i s"
  shows "good L (wt_all [wt_pure (mark_ready i), flush_streams]) s"
  by (rule good_pure_next, rule good_step, rule good_flush_streams [OF inv_mark_ready [OF assms]], rule good_nil)

lemma good_send_data:
  assumes inv: "wt_inv (length data # L) s" and data: "data \<noteq> []"
  shows "good L (stream_send_data i data) s"
proof (cases "wt_find i s")
  case None
  have "good L (owner_release (int (length data)) 1) s"
    using inv_release [OF inv] by (auto simp: good_def)
  then show ?thesis using None data by (simp add: good_def stream_send_data_def)
next
  case (Some st)
  let ?full = "st_pending_bytes st + int (length data) > max_pending_stream_bytes
             \<or> (\<not> coalesces data st \<and> length (st_pending st) \<ge> max_pending_stream_items)"
  show ?thesis
  proof (cases ?full)
    case True
    have "good L (wt_all [owner_release (int (length data)) 1, close_opened i st, drop_stream i st, wt_emit (NotifyFailed i)]) s"
    proof (rule good_release_next [OF inv])
      fix s1 assume s1: "wt_inv L s1" "wt_streams s1 = wt_streams s"
      then have "wt_find i s1 = Some st" using Some by (simp add: wt_find_def)
      from good_end_stream [OF s1(1) this] show "good L (wt_all [close_opened i st, drop_stream i st, wt_emit (NotifyFailed i)]) s1"
        by (meson good_emit_next good_nil)
    qed
    then show ?thesis
      by (rule good_cong [rotated]) (simp only: stream_send_data_def data if_False Some option.case if_P [OF True])
  next
    case False
    let ?s1 = "wt_update i (append_data data) s"
    let ?s2 = "?s1\<lparr> wt_owner_items := wt_owner_items s - (if coalesces data st then 1 else 0) \<rparr>"
    note app = append_inv [OF inv Some data False]
    have pos: "1 \<le> wt_owner_items s"
      using acct_okD(6) [OF wt_inv_parts(1) [OF inv_release(2) [OF inv]]] by simp
    have rel: "wt_when (coalesces data st) (owner_release 0 1) ?s1 = Some (?s2, [])"
      using pos by (simp add: wt_when_def owner_release_def)
    have "good L (wt_all [wt_pure (wt_update i (append_data data)), wt_when (coalesces data st) (owner_release 0 1),
            wt_pure (mark_ready i), flush_streams]) s"
      by (rule good_pure_next, rule good_next, rule rel, rule good_flush_marked [OF app])
    then show ?thesis
      by (rule good_cong [rotated])
        (simp only: stream_send_data_def data if_False Some option.case if_not_P [OF False] append_data_def [abs_def])
  qed
qed

section \<open>Receive windows\<close>

lemma good_send_frame:
  assumes "wt_inv L s" and "i \<le> 0x00FFFFFF" and "length payload \<le> max_frame_payload"
  shows "good L (send_frame t i payload) s"
  by (rule good_carrier [OF carrier_op_send_frame [OF assms(2,3)] assms(1)])

lemma window_room:
  assumes "r \<le> initial_stream_window"
  shows "(2 ^ 32 + initial_stream_window - r) mod 2 ^ 32 = initial_stream_window - r"
proof -
  have "2 ^ 32 + initial_stream_window - r = initial_stream_window - r + 2 ^ 32" using assms by simp
  moreover have "initial_stream_window - r < 2 ^ 32" by (simp add: initial_stream_window_def less_imp_diff_less)
  ultimately show ?thesis by (simp only: mod_add_self2 mod_less)
qed

lemma good_grant_window:
  assumes inv: "wt_inv L s" and amount: "amount < 2 ^ 32"
  shows "good L (grant_window i amount) s"
proof (cases "wt_find i s")
  case None
  then show ?thesis using inv by (simp add: good_def grant_window_def)
next
  case (Some st)
  note D = acct_okD(2) [OF wt_inv_parts(1) [OF inv] Some]
  have st: "stream_ok st" and i: "i \<le> 0x00FFFFFF" using D by (simp_all add: id_ok_def)
  have win: "st_receive_window st \<le> initial_stream_window" "st_pending_window st < window_flush_bytes"
    using st by (simp_all add: stream_ok_def)
  let ?over = "amount > (2 ^ 32 + initial_stream_window - st_receive_window st) mod 2 ^ 32"
  let ?r = "(st_receive_window st + amount) mod 2 ^ 32"
  let ?w = "(st_pending_window st + amount) mod 2 ^ 32"
  consider "\<not> st_opened st \<or> amount = 0" | "\<not> (\<not> st_opened st \<or> amount = 0)" ?over | "\<not> (\<not> st_opened st \<or> amount = 0)" "\<not> ?over" by blast
  then show ?thesis
  proof cases
    case 1
    then show ?thesis using inv Some by (auto simp: good_def grant_window_def)
  next
    case 2
    then show ?thesis
      using good_protocol_error [OF wt_inv_parts(1) [OF inv]] unfolding good_def grant_window_def Some option.case
        if_not_P [OF 2(1)] if_P [OF 2(2)] by simp
  next
    case 3
    have r: "?r \<le> initial_stream_window"
      using 3(2) win(1) unfolding window_room [OF win(1)] by (simp add: initial_stream_window_def)
    let ?f = "\<lambda>st :: wt_stream. st\<lparr> st_receive_window := ?r, st_pending_window := 0 \<rparr>"
    let ?g = "\<lambda>st :: wt_stream. st\<lparr> st_receive_window := ?r, st_pending_window := ?w \<rparr>"
    have f: "wt_inv L (wt_update i ?f s)"
      by (rule inv_update(3) [OF inv Some]) (use st r in \<open>simp_all add: stream_ok_def window_flush_bytes_def\<close>)
    show ?thesis
    proof (cases "?w \<ge> window_flush_bytes")
      case True
      have "good L (wt_all [wt_pure (wt_update i ?f), send_frame FrameWindow i (be32_bytes (of_nat ?w))]) s"
        by (rule good_pure_next, rule good_step, rule good_send_frame [OF f i])
          (simp_all add: be32_bytes_def max_frame_payload_def good_nil)
      then show ?thesis
        by (rule good_cong [rotated])
          (simp only: grant_window_def Some option.case if_not_P [OF 3(1)] if_not_P [OF 3(2)] Let_def if_P [OF True])
    next
      case False
      have g: "wt_inv L (wt_update i ?g s)"
        by (rule inv_update(3) [OF inv Some]) (use st r False in \<open>simp_all add: stream_ok_def\<close>)
      have sched: "wt_inv L (s\<lparr> wt_window_scheduled := True \<rparr>)" if "wt_inv L s" for s
        using that by (simp add: wt_inv_def acct_ok_def ready_ok_def session_ok_def control_ok_def closed_ok_def
            queue_bytes_def queue_items_def carrier_available_def)
      have "good L (wt_all [wt_pure (wt_update i ?g), \<lambda>s. if wt_window_scheduled s then Some (s, [])
                              else Some (s\<lparr> wt_window_scheduled := True \<rparr>, [StartWindowTimer])]) s"
        by (rule good_pure_next, rule good_step) (use g sched [OF g] in \<open>auto simp: good_def\<close>)
      then show ?thesis
        by (rule good_cong [rotated])
          (simp only: grant_window_def Some option.case if_not_P [OF 3(1)] if_not_P [OF 3(2)] Let_def if_not_P [OF False])
    qed
  qed
qed

lemma map_of_find: "(i, st) \<in> set (wt_streams s) \<Longrightarrow> flat_ok (map fst (wt_streams s)) \<Longrightarrow> wt_find i s = Some st"
  by (simp add: wt_find_set)

text \<open>The updates that were collected go out; the streams themselves stay as they are.\<close>

lemma good_flush_windows_loop:
  assumes "wt_inv L s" and "\<forall>(i, st) \<in> set ss. wt_find i s = Some st" and "distinct (map fst ss)"
  shows "good L (wt_all (map (\<lambda>(i, st). wt_when (st_opened st \<and> st_pending_window st \<noteq> 0)
              (wt_all [wt_pure (wt_update i (\<lambda>st. st\<lparr> st_pending_window := 0 \<rparr>)),
                       send_frame FrameWindow i (be32_bytes (of_nat (st_pending_window st)))])) ss)) s"
  using assms
proof (induction ss arbitrary: s)
  case Nil
  then show ?case by (simp add: good_nil del: wt_all.simps)
next
  case (Cons x ss)
  obtain i st where x: "x = (i, st)" by (cases x)
  have find: "wt_find i s = Some st" using Cons.prems(2) x by simp
  have fresh: "i \<notin> fst ` set ss" and rest: "\<forall>(i, st) \<in> set ss. wt_find i s = Some st" "distinct (map fst ss)"
    using Cons.prems x by auto
  show ?case
  proof (cases "st_opened st \<and> st_pending_window st \<noteq> 0")
    case False
    then show ?thesis unfolding x list.map prod.case
      by (rule good_skip) (rule Cons.IH [OF Cons.prems(1) rest])
  next
    case True
    note D = acct_okD(2) [OF wt_inv_parts(1) [OF Cons.prems(1)] find]
    let ?s = "wt_update i (\<lambda>st. st\<lparr> st_pending_window := 0 \<rparr>) s"
    have inv: "wt_inv L ?s"
      by (rule inv_update(3) [OF Cons.prems(1) find]) (use D in \<open>simp_all add: stream_ok_def window_flush_bytes_def\<close>)
    have op: "carrier_op (send_frame FrameWindow i (be32_bytes (of_nat (st_pending_window st))))"
      by (rule carrier_op_send_frame) (use D in \<open>simp_all add: id_ok_def be32_bytes_def max_frame_payload_def\<close>)
    obtain s1 es where 1: "send_frame FrameWindow i (be32_bytes (of_nat (st_pending_window st))) ?s = Some (s1, es)" "wt_inv L s1"
      by (rule goodE [OF good_carrier [OF op inv]])
    have "wt_find j s1 = wt_find j ?s" for j by (rule find_carrier [OF op wt_inv_parts(4) [OF inv] 1(1)])
    then have "\<forall>(j, st) \<in> set ss. wt_find j s1 = Some st" using rest(1) fresh by (force simp: wt_find_update)
    then have tail: "good L (wt_all (map (\<lambda>(i, st). wt_when (st_opened st \<and> st_pending_window st \<noteq> 0)
              (wt_all [wt_pure (wt_update i (\<lambda>st. st\<lparr> st_pending_window := 0 \<rparr>)),
                       send_frame FrameWindow i (be32_bytes (of_nat (st_pending_window st)))])) ss)) s1"
      by (intro Cons.IH 1(2) rest(2))
    have head: "wt_when (st_opened st \<and> st_pending_window st \<noteq> 0)
              (wt_all [wt_pure (wt_update i (\<lambda>st. st\<lparr> st_pending_window := 0 \<rparr>)),
                       send_frame FrameWindow i (be32_bytes (of_nat (st_pending_window st)))]) s = Some (s1, es)"
      using True 1(1) by (simp add: wt_simps)
    show ?thesis unfolding x list.map prod.case by (rule good_next, rule head, rule tail)
  qed
qed

lemma good_flush_windows:
  assumes "wt_inv L s"
  shows "good L flush_windows s"
proof -
  note flat = wt_inv_parts(5) [OF assms]
  have "\<forall>(i, st) \<in> set (wt_streams s). wt_find i s = Some st" using map_of_find [OF _ flat] by auto
  moreover have "distinct (map fst (wt_streams s))" using flat by (simp add: flat_ok_sorted_distinct)
  ultimately show ?thesis
    by (intro good_cong [OF _ good_flush_windows_loop [OF assms]]) (simp_all only: flush_windows_def)
qed

end
