(* ===== verification/Web_Proxy_Run.thy ===== *)
theory Web_Proxy_Run
  imports Web_Proxy_Safety
begin

text \<open>
  Sessions of the web proxy transport and whole runs: the welcome that opens the waiting streams, the
  frames of the relay, the carriers that come and go, and the calls that are queued.
\<close>

section \<open>The welcome\<close>

text \<open>While the welcome opens the streams one by one, \<open>D\<close> are those already open.\<close>

definition welcoming :: "nat list \<Rightarrow> stream_id set \<Rightarrow> web_transport \<Rightarrow> bool" where
  "welcoming L D s \<longleftrightarrow> acct_ok L s \<and> ready_ok s \<and> control_ok s \<and> wt_welcomed s \<and> carrier_available s
     \<and> (\<forall>(i, st) \<in> set (wt_streams s). st_opened st \<longleftrightarrow> i \<in> D)"

lemma welcoming_step:
  assumes op: "welcoming L D s" and i: "i \<in> fst ` set (wt_streams s)"
  shows "\<exists>s' es. wt_all [wt_pure (wt_update i (\<lambda>st. st\<lparr> st_opened := True \<rparr>)),
       send_frame FrameOpen i [], wt_emit (NotifyConnected i), wt_pure (mark_ready i)] s = Some (s', es)
     \<and> welcoming L (insert i D) s' \<and> map fst (wt_streams s') = map fst (wt_streams s)"
proof -
  let ?f = "\<lambda>st :: wt_stream. st\<lparr> st_opened := True \<rparr>"
  let ?s = "wt_update i ?f s"
  have acct: "acct_ok L s" and ready: "ready_ok s" and ctl: "control_ok s" using op by (simp_all add: welcoming_def)
  note flat = acct_okD(1) [OF acct]
  obtain st where find: "wt_find i s = Some st" using i wt_find_set [OF flat] by auto
  note D = acct_okD(2) [OF acct find]
  have acct': "acct_ok L ?s"
    by (rule acct_update_same [where f = ?f, OF acct find]) (use D in \<open>simp_all add: stream_ok_def\<close>)
  have ready': "ready_but i ?s" by (rule ready_but_update [OF ready_ok_but [OF ready]]) (simp add: can_send_def)
  have send: "carrier_op (send_frame FrameOpen i [])"
    by (rule carrier_op_send_frame) (use D in \<open>simp_all add: id_ok_def max_frame_payload_def\<close>)
  have "control_ok ?s" using ctl by simp
  then obtain s1 es1 where 1: "send_frame FrameOpen i [] ?s = Some (s1, es1)" "wt_core s1 = wt_core ?s" "control_ok s1"
    by (rule carrier_opE [OF send])
  have core: "wt_streams s1 = wt_streams ?s" "wt_welcomed s1 = wt_welcomed s" "carrier_available s1 = carrier_available s"
    using 1(2) by (simp_all add: wt_core_def)
  have acct1: "acct_ok L s1" using acct' wt_core_parts(1) [OF 1(2)] by blast
  have "ready_ok (mark_ready i s1)"
    by (rule mark_ready_ok) (use ready' ready_but_core [OF 1(2)] acct_okD(1) [OF acct1] in simp_all)
  moreover have "\<forall>(j, st) \<in> set (wt_streams s1). st_opened st \<longleftrightarrow> j \<in> insert i D"
    using op unfolding core(1) set_update by (auto simp: welcoming_def split: if_splits)
  ultimately have "welcoming L (insert i D) (mark_ready i s1)"
    using acct1 1(3) core op by (simp add: welcoming_def)
  moreover have "map fst (wt_streams (mark_ready i s1)) = map fst (wt_streams s)"
    by (simp add: core(1)) (auto simp: wt_update_def)
  ultimately show ?thesis using 1(1) by (simp add: wt_simps)
qed

lemma welcoming_all:
  assumes "welcoming L D s" and "fst ` set ss \<subseteq> fst ` set (wt_streams s)"
  shows "\<exists>s' es. wt_all (map (\<lambda>(i, _). wt_all [wt_pure (wt_update i (\<lambda>st. st\<lparr> st_opened := True \<rparr>)),
       send_frame FrameOpen i [], wt_emit (NotifyConnected i), wt_pure (mark_ready i)]) ss) s = Some (s', es)
     \<and> welcoming L (D \<union> fst ` set ss) s' \<and> map fst (wt_streams s') = map fst (wt_streams s)"
  using assms
proof (induction ss arbitrary: D s)
  case Nil
  then show ?case by simp
next
  case (Cons x ss)
  obtain i st where x: "x = (i, st)" by (cases x)
  obtain s1 es1 where 1: "wt_all [wt_pure (wt_update i (\<lambda>st. st\<lparr> st_opened := True \<rparr>)),
       send_frame FrameOpen i [], wt_emit (NotifyConnected i), wt_pure (mark_ready i)] s = Some (s1, es1)"
     "welcoming L (insert i D) s1" "map fst (wt_streams s1) = map fst (wt_streams s)"
    using welcoming_step [OF Cons.prems(1), of i] Cons.prems(2) x by auto
  have "fst ` set (wt_streams s1) = fst ` set (wt_streams s)" using 1(3) by (metis set_map)
  then have "fst ` set ss \<subseteq> fst ` set (wt_streams s1)" using Cons.prems(2) by simp
  from Cons.IH [OF 1(2) this] obtain s2 es2 where 2:
    "wt_all (map (\<lambda>(i, _). wt_all [wt_pure (wt_update i (\<lambda>st. st\<lparr> st_opened := True \<rparr>)),
       send_frame FrameOpen i [], wt_emit (NotifyConnected i), wt_pure (mark_ready i)]) ss) s1 = Some (s2, es2)"
    "welcoming L (insert i D \<union> fst ` set ss) s2" "map fst (wt_streams s2) = map fst (wt_streams s1)" by blast
  have "wt_all (map (\<lambda>(i, _). wt_all [wt_pure (wt_update i (\<lambda>st. st\<lparr> st_opened := True \<rparr>)),
       send_frame FrameOpen i [], wt_emit (NotifyConnected i), wt_pure (mark_ready i)]) (x # ss)) s = Some (s2, es1 @ es2)"
    unfolding x list.map prod.case by (rule wt_all_next, rule 1(1), rule 2(1))
  moreover have "welcoming L (D \<union> fst ` set (x # ss)) s2" using 2(2) x by simp
  moreover have "map fst (wt_streams s2) = map fst (wt_streams s)" using 2(3) 1(3) by simp
  ultimately show ?case by blast
qed

lemma welcoming_done: "welcoming L D s \<Longrightarrow> fst ` set (wt_streams s) \<subseteq> D \<Longrightarrow> wt_inv L s"
  by (fastforce simp: welcoming_def wt_inv_def session_ok_def)

lemma good_relay_welcome:
  assumes inv: "wt_inv L s"
  shows "good L relay_welcome s"
proof (cases "wt_welcomed s \<or> \<not> carrier_available s")
  case True
  then show ?thesis using good_protocol_error [OF wt_inv_parts(1) [OF inv]] by (auto simp: good_def relay_welcome_def)
next
  case False
  let ?loop = "wt_all (map (\<lambda>(i, _). wt_all [wt_pure (wt_update i (\<lambda>st. st\<lparr> st_opened := True \<rparr>)),
       send_frame FrameOpen i [], wt_emit (NotifyConnected i), wt_pure (mark_ready i)]) (wt_streams s))"
  let ?s = "s\<lparr> wt_welcomed := True \<rparr>"
  note parts = wt_inv_parts [OF inv]
  have "acct_ok L ?s" by (rule acct_reset [OF parts(1)]) (simp_all add: closed_ok_def)
  moreover have "ready_ok ?s" "control_ok ?s" "carrier_available ?s"
    using parts(2,4) False by (simp_all add: ready_ok_def control_ok_def carrier_available_def)
  ultimately have op: "welcoming L {} ?s" using parts(3) False by (auto simp: welcoming_def session_ok_def)
  have ctl: "control_ok ?s" using op by (simp add: welcoming_def)
  obtain s1 es1 where 1: "set_conn_state Connected (wt_browser_name ?s) ?s = Some (s1, es1)" "wt_core s1 = wt_core ?s" "control_ok s1"
    by (rule carrier_opE [OF carrier_op_set_conn_state ctl])
  have str: "wt_streams s1 = wt_streams s" using 1(2) by (simp add: wt_core_def)
  have "welcoming L {} s1"
    using op wt_core_parts(1,2) [OF 1(2)] 1(2,3) str by (simp add: welcoming_def) (simp add: wt_core_def)
  then obtain s2 es2 where 2: "?loop s1 = Some (s2, es2)" "welcoming L (fst ` set (wt_streams s)) s2"
      "map fst (wt_streams s2) = map fst (wt_streams s)"
    using welcoming_all [of L "{}" s1 "wt_streams s"] str by auto
  have "fst ` set (wt_streams s2) = fst ` set (wt_streams s)" using 2(3) by (metis set_map)
  then have inv2: "wt_inv L s2" using welcoming_done [OF 2(2)] by simp
  have "good L (wt_all [wt_pure (\<lambda>s. s\<lparr> wt_welcomed := True \<rparr>),
           \<lambda>s. set_conn_state Connected (wt_browser_name s) s, ?loop, flush_streams]) s"
    by (rule good_pure_next, rule good_next, rule 1(1), rule good_next, rule 2(1), rule good_step,
        rule good_flush_streams [OF inv2], rule good_nil)
  then show ?thesis by (rule good_cong [rotated]) (simp only: relay_welcome_def if_not_P [OF False])
qed

section \<open>Frames of the relay\<close>

definition verdict_ok :: "nat list \<Rightarrow> (bool \<times> web_transport \<times> wt_event list) option \<Rightarrow> bool" where
  "verdict_ok L r \<longleftrightarrow> (\<exists>ok s' es. r = Some (ok, s', es) \<and> wt_inv L s')"

lemma good_verdicts:
  "good L f s \<Longrightarrow> verdict_ok L (wt_ok f s)" "wt_inv L s \<Longrightarrow> verdict_ok L (wt_refuse s)"
  by (auto simp: good_def verdict_ok_def wt_ok_def wt_refuse_def)

lemma good_close_socket: "wt_inv L s \<Longrightarrow> good L (close_browser_socket code) s"
  by (rule good_carrier [OF carrier_op_close_socket])

lemma good_bye:
  assumes "wt_inv L s"
  shows "good L (wt_all
            [if wt_generation s \<noteq> 0
             then wt_all [webview_failed (wt_generation s), wt_emit (FinishWebview (wt_generation s))]
             else lose_browser True,
             close_browser_socket 1000]) s"
proof (rule good_step)
  show "good L (if wt_generation s \<noteq> 0
             then wt_all [webview_failed (wt_generation s), wt_emit (FinishWebview (wt_generation s))]
             else lose_browser True) s"
    using good_lose_browser [OF wt_inv_parts(1) [OF assms]]
      good_step [OF good_webview_failed [OF assms] good_emit_next [OF good_nil]] by simp
  show "good L (wt_all [close_browser_socket 1000]) s1" if "wt_inv L s1" for s1
    by (rule good_step, rule good_close_socket [OF that], rule good_nil)
qed

lemma good_session_frame:
  assumes inv: "wt_inv L s"
  shows "verdict_ok L (relay_session_frame f s)"
proof -
  have pong: "good L (send_frame FramePong 0 (frame_payload f)) s" if "\<not> length (frame_payload f) > 64"
    by (rule good_send_frame [OF inv]) (use that in \<open>simp_all add: max_frame_payload_def\<close>)
  note v = good_verdicts(1) [OF good_relay_welcome [OF inv]] good_verdicts(2) [OF inv]
    good_verdicts(1) [OF pong] good_verdicts(1) [OF good_fun [where f = "\<lambda>s. wt_all
            [if wt_generation s \<noteq> 0
             then wt_all [webview_failed (wt_generation s), wt_emit (FinishWebview (wt_generation s))]
             else lose_browser True,
             close_browser_socket 1000]", OF good_bye [OF inv]]]
  show ?thesis
    unfolding relay_session_frame_def by (cases "frame_kind f") (simp_all only: frame_type.case, auto intro: v simp del: wt_all.simps)
qed

lemma good_stream_frame:
  assumes inv: "wt_inv L s" and find: "wt_find (frame_stream f) s = Some st"
  shows "verdict_ok L (relay_stream_frame f st s)"
proof -
  let ?i = "frame_stream f"
  let ?n = "length (frame_payload f)"
  note D = acct_okD(2) [OF wt_inv_parts(1) [OF inv] find]
  have st: "stream_ok st" using D by simp
  let ?data = "\<lambda>st :: wt_stream. st\<lparr> st_receive_window := st_receive_window st - ?n \<rparr>"
  let ?win = "\<lambda>st :: wt_stream. st\<lparr> st_send_window := min (st_send_window st + unat (read_window (frame_payload f))) 4294967295 \<rparr>"
  have data: "good L (wt_all [wt_pure (wt_update ?i ?data), wt_emit (NotifyData ?i (frame_payload f))]) s"
    by (rule good_pure_next, rule good_emit_next, rule good_nil, rule inv_update(3) [OF inv find])
      (use st in \<open>auto simp: stream_ok_def intro: le_trans [OF diff_le_self]\<close>)
  have win: "good L (wt_all [wt_pure (wt_update ?i ?win), wt_pure (mark_ready ?i), flush_streams]) s"
  proof -
    have "stream_ok (?win st)" using st by (simp add: stream_ok_def min_def)
    note up = inv_update(1,2) [where f = ?win, OF inv find this]
    show ?thesis by (rule good_pure_next, rule good_flush_marked, rule up(1), simp, rule up(2), simp, simp add: can_send_def)
  qed
  have "wt_inv L (remember_closed ?i s)" by (rule remember_closed_inv [OF inv])
  moreover have "wt_find ?i (remember_closed ?i s) = Some st" using find by simp
  ultimately have closing: "good L (wt_all [wt_pure (remember_closed ?i), drop_stream ?i st, wt_emit (NotifyDisconnected ?i)]) s"
    by (intro good_pure_next good_step [OF good_drop_stream] good_emit_next good_nil)
  note v = good_verdicts(2) [OF inv] good_verdicts(1) [OF data] good_verdicts(1) [OF win] good_verdicts(1) [OF closing]
  show ?thesis
    unfolding relay_stream_frame_def Let_def by (cases "frame_kind f") (simp_all only: frame_type.case, auto intro: v simp del: wt_all.simps)
qed

lemma good_relay_frame:
  assumes inv: "wt_inv L s"
  shows "verdict_ok L (process_relay_frame f s)"
proof -
  have keep: "verdict_ok L (Some (b, s, []))" for b using inv by (simp add: verdict_ok_def)
  show ?thesis
    using good_session_frame [OF inv] good_verdicts(2) [OF inv] good_stream_frame [OF inv] keep
    unfolding process_relay_frame_def by (auto split: option.split)
qed

lemma good_relay_frames: "wt_inv L s \<Longrightarrow> good L (process_relay_frames fs) s"
proof (induction fs arbitrary: s)
  case Nil
  then show ?case by (simp add: good_def)
next
  case (Cons f fs)
  obtain ok s1 es1 where 1: "process_relay_frame f s = Some (ok, s1, es1)" "wt_inv L s1"
    using good_relay_frame [OF Cons.prems, of f] by (auto simp: verdict_ok_def)
  show ?case
    using Cons.IH [OF 1(2)] good_protocol_error [OF wt_inv_parts(1) [OF 1(2)]] 1(1)
    by (cases ok) (auto simp: good_def)
qed

lemma good_relay_payload:
  assumes "wt_inv L s"
  shows "good L (process_relay_payload payload) s"
proof -
  obtain ok rest frames where p: "parse_frames payload [] = (ok, rest, frames)" by (cases "parse_frames payload []") auto
  show ?thesis
    using good_relay_frames [OF assms] good_protocol_error [OF wt_inv_parts(1) [OF assms]]
    by (simp add: good_def process_relay_payload_def p)
qed

section \<open>Carriers\<close>

lemma inv_carrier: "wt_inv L s \<Longrightarrow> wt_core s' = wt_core s \<Longrightarrow> control_ok s' = control_ok s \<Longrightarrow> wt_inv L s'"
  using wt_core_parts [of s' s] by (simp add: wt_inv_def)

lemma good_flushes: "wt_inv L s \<Longrightarrow> good L (wt_all [flush_control_frames, flush_streams]) s"
  by (rule good_step, rule good_carrier [OF carrier_op_flush_control], assumption, rule good_step,
      rule good_flush_streams, assumption, rule good_nil)

lemma good_browser_bytes_written:
  assumes "wt_inv L s"
  shows "good L (browser_bytes_written now) s"
proof -
  have "wt_inv L (s\<lparr> wt_last_progress := now \<rparr>)"
    by (rule inv_carrier [OF assms]) (simp_all add: wt_core_def carrier_available_def control_ok_def)
  then have "good L (wt_all [wt_pure (\<lambda>s. s\<lparr> wt_last_progress := now \<rparr>), flush_control_frames, flush_streams]) s"
    by (rule good_pure_next [OF good_flushes])
  then show ?thesis by (rule good_cong [rotated]) (simp only: browser_bytes_written_def)
qed

lemma good_webview_written:
  assumes inv: "wt_inv L s"
  shows "good L (webview_written now gen n) s"
proof -
  let ?s = "s\<lparr> wt_webview_bytes := wt_webview_bytes s - n, wt_webview_items := wt_webview_items s - 1, wt_last_progress := now \<rparr>"
  have "wt_inv L ?s"
    by (rule inv_carrier [OF inv]) (simp_all add: wt_core_def carrier_available_def control_ok_def)
  then have g: "good L (wt_all [wt_pure (\<lambda>s. s\<lparr> wt_webview_bytes := wt_webview_bytes s - n, wt_webview_items := wt_webview_items s - 1,
                               wt_last_progress := now \<rparr>),
                flush_control_frames, flush_streams]) s"
    by (rule good_pure_next [OF good_flushes])
  consider "wt_generation s \<noteq> gen" | "\<not> wt_generation s \<noteq> gen" "n \<le> 0 \<or> n > wt_webview_bytes s \<or> wt_webview_items s \<le> 0"
    | "\<not> wt_generation s \<noteq> gen" "\<not> (n \<le> 0 \<or> n > wt_webview_bytes s \<or> wt_webview_items s \<le> 0)" by blast
  then show ?thesis
  proof cases
    case 1
    then show ?thesis using inv by (simp add: good_def webview_written_def)
  next
    case 2
    then show ?thesis using good_protocol_error [OF wt_inv_parts(1) [OF inv]]
      unfolding good_def webview_written_def if_not_P [OF 2(1)] if_P [OF 2(2)] by blast
  next
    case 3
    show ?thesis by (rule good_cong [OF _ g]) (simp only: webview_written_def if_not_P [OF 3(1)] if_not_P [OF 3(2)])
  qed
qed

lemma good_webview_starting:
  assumes "wt_inv L s"
  shows "good L (webview_starting gen) s"
proof -
  have "wt_inv L (s\<lparr> wt_candidate := gen \<rparr>)"
    by (rule inv_carrier [OF assms]) (simp_all add: wt_core_def carrier_available_def control_ok_def)
  then have g: "good L (wt_all [wt_pure (\<lambda>s. s\<lparr> wt_candidate := gen \<rparr>),
                \<lambda>s. wt_when (\<not> carrier_available s \<and> wt_conn_state s \<noteq> WaitingForBrowser) (set_conn_state Connecting []) s]) s"
    by (intro good_pure_next good_when_fun [OF good_conn_state])
  show ?thesis
  proof (cases "wt_proxy s = None \<or> gen = 0")
    case True
    then show ?thesis using assms by (auto simp: good_def webview_starting_def)
  next
    case False
    show ?thesis by (rule good_cong [OF _ g]) (simp only: webview_starting_def if_not_P [OF False])
  qed
qed

lemma inv_unwelcomed:
  assumes "acct_ok L s" "ready_ok s" "\<forall>(i, st) \<in> set (wt_streams s). \<not> st_opened st" "\<not> wt_welcomed s"
    "wt_control s = []" "wt_control_bytes s = 0"
  shows "wt_inv L s"
  using assms by (simp add: wt_inv_def session_ok_def control_ok_def max_pending_control_bytes_def)

lemma close_other_eq:
  "close_other_socket code s = Some (s, [CarrierSocket (web_socket_frame 0x08 (close_payload code)), CloseSocket])"
  by (simp add: close_other_socket_def wt_simps)

lemma good_webview_ready:
  assumes inv: "wt_inv L s"
  shows "good L (webview_ready now gen) s"
proof (cases "wt_candidate s \<noteq> gen \<or> wt_generation s \<noteq> 0")
  case True
  then show ?thesis using inv by (auto simp: good_def webview_ready_def)
next
  case False
  note parts = wt_inv_parts [OF inv]
  let ?a = "s\<lparr> wt_candidate := 0 \<rparr>"
  let ?c = "wt_browser s \<noteq> None \<and> wt_welcomed s"
  define b where "b = (if ?c then no_streams L ?a else ?a)"
  let ?d = "b\<lparr> wt_browser := None, wt_write_failed := False, wt_control := [], wt_control_bytes := 0,
             wt_progress_scheduled := False, wt_last_progress := now, wt_welcomed := False \<rparr>"
  let ?e = "?d\<lparr> wt_generation := gen, wt_webview_bytes := 0, wt_webview_items := 0, wt_browser_name := ''WebView'' \<rparr>"
  have acct: "acct_ok L ?a" by (rule acct_reset [OF parts(1)]) (simp_all add: closed_ok_def)
  have closed: "\<exists>es. wt_when ?c (close_all_streams False) ?a = Some (b, es)"
    using close_all_eq [OF acct] by (simp add: b_def wt_when_def)
  have acct_b: "acct_ok L b" using acct acct_no_streams [OF acct] by (simp add: b_def)
  have "acct_ok L ?e" by (rule acct_reset [OF acct_b]) (simp_all add: closed_ok_def)
  moreover have "ready_ok ?e" using parts(2) by (simp add: ready_ok_def b_def no_streams_def)
  moreover have "\<forall>(i, st) \<in> set (wt_streams ?e). \<not> st_opened st"
  proof (cases ?c)
    case False
    then have "\<not> wt_welcomed s"
      using parts(3) \<open>\<not> (wt_candidate s \<noteq> gen \<or> wt_generation s \<noteq> 0)\<close> by (auto simp: session_ok_def carrier_available_def)
    then show ?thesis using parts(3) False by (auto simp: session_ok_def b_def)
  qed (simp add: b_def no_streams_def)
  ultimately have e: "wt_inv L ?e" by (rule inv_unwelcomed) simp_all
  have tail: "good L (wt_all [wt_when (wt_browser s \<noteq> None) (close_other_socket 1000),
           wt_pure (\<lambda>s. s\<lparr> wt_generation := gen, wt_webview_bytes := 0, wt_webview_items := 0, wt_browser_name := ''WebView'' \<rparr>),
           relay_welcome]) ?d"
  proof (rule good_next)
    show "wt_when (wt_browser s \<noteq> None) (close_other_socket 1000) ?d = Some (?d, if wt_browser s \<noteq> None
        then [CarrierSocket (web_socket_frame 0x08 (close_payload 1000)), CloseSocket] else [])"
      by (simp add: wt_when_def close_other_eq)
    show "good L (wt_all [wt_pure (\<lambda>s. s\<lparr> wt_generation := gen, wt_webview_bytes := 0, wt_webview_items := 0, wt_browser_name := ''WebView'' \<rparr>),
           relay_welcome]) ?d"
      by (rule good_pure_next, rule good_step, rule good_relay_welcome [OF e], rule good_nil)
  qed
  have "good L (wt_all
          [wt_pure (\<lambda>s. s\<lparr> wt_candidate := 0 \<rparr>),
           wt_when ?c (close_all_streams False),
           wt_pure (\<lambda>s. s\<lparr> wt_browser := None, wt_write_failed := False, wt_control := [], wt_control_bytes := 0,
             wt_progress_scheduled := False, wt_last_progress := now, wt_welcomed := False \<rparr>),
           wt_when (wt_browser s \<noteq> None) (close_other_socket 1000),
           wt_pure (\<lambda>s. s\<lparr> wt_generation := gen, wt_webview_bytes := 0, wt_webview_items := 0, wt_browser_name := ''WebView'' \<rparr>),
           relay_welcome]) s"
    by (rule good_pure_next, insert closed, erule exE, rule good_next, assumption, rule good_pure_next, rule tail)
  then show ?thesis by (rule good_cong [rotated]) (simp only: webview_ready_def if_not_P [OF False])
qed

lemma good_webview_unavailable: "wt_inv L s \<Longrightarrow> good L webview_unavailable s"
  using good_conn_state [of L s WaitingForBrowser "[]"] by (auto simp: good_def webview_unavailable_def)

lemma good_webview_payload: "wt_inv L s \<Longrightarrow> good L (webview_payload gen payload) s"
  using good_relay_payload [of L s payload] by (auto simp: good_def webview_payload_def)

lemma good_client_disconnected:
  assumes inv: "wt_inv L s"
  shows "good L client_disconnected s"
proof (cases "wt_browser s = None")
  case True
  then show ?thesis using inv by (simp add: good_def client_disconnected_def)
next
  case False
  let ?s = "s\<lparr> wt_browser := None, wt_write_failed := False, wt_control := [], wt_control_bytes := 0,
                           wt_progress_scheduled := False, wt_last_progress := 0 \<rparr>"
  have "acct_ok L ?s" by (rule acct_reset [OF wt_inv_parts(1) [OF inv]]) (simp_all add: closed_ok_def)
  then have "good L (wt_all [wt_pure (\<lambda>s. s\<lparr> wt_browser := None, wt_write_failed := False, wt_control := [], wt_control_bytes := 0,
                           wt_progress_scheduled := False, wt_last_progress := 0 \<rparr>),
                \<lambda>s. lose_browser (wt_conn_state s = Failed) s]) s"
    by (intro good_pure_next good_step [OF good_fun [where f = "\<lambda>s. lose_browser (wt_conn_state s = Failed)", OF good_lose_browser]] good_nil)
  then show ?thesis by (rule good_cong [rotated]) (simp only: client_disconnected_def if_not_P [OF False])
qed

lemma good_browser_authenticated:
  assumes inv: "wt_inv L s"
  shows "good L (browser_authenticated now bridge name) s"
proof (cases "wt_generation s \<noteq> 0")
  case True
  then show ?thesis using inv by (simp add: good_def browser_authenticated_def close_other_eq)
next
  case False
  note parts = wt_inv_parts [OF inv]
  let ?f = "\<lambda>s. s\<lparr> wt_browser := Some 0, wt_socket := wt_socket s + 1, wt_write_failed := False, wt_control := [], wt_control_bytes := 0,
             wt_progress_scheduled := False, wt_last_progress := now, wt_browser_name := name,
             wt_closed := {}, wt_closed_order := [], wt_welcomed := False \<rparr> :: web_transport"
  have "\<exists>b es. wt_when (wt_browser s \<noteq> None) (wt_all [close_all_streams False, close_browser_socket 1000]) s = Some (b, es)
     \<and> acct_ok L b \<and> ready_ok b \<and> (\<forall>(i, st) \<in> set (wt_streams b). \<not> st_opened st)"
  proof (cases "wt_browser s \<noteq> None")
    case True
    have "control_ok (no_streams L s)" using parts(4) by (simp add: no_streams_def control_ok_def)
    then obtain b es where b: "close_browser_socket 1000 (no_streams L s) = Some (b, es)" "wt_core b = wt_core (no_streams L s)"
      by (rule carrier_opE [OF carrier_op_close_socket])
    obtain es0 where "close_all_streams False s = Some (no_streams L s, es0)" using close_all_eq [OF parts(1)] by blast
    moreover have "acct_ok L b" "ready_ok b" "wt_streams b = []"
      using wt_core_parts(1,2) [OF b(2)] acct_no_streams [OF parts(1)] b(2)
      by (simp_all add: ready_ok_def no_streams_def wt_core_def)
    ultimately show ?thesis using True b(1) by (simp add: wt_when_def)
  next
    case nb: False
    then have "\<not> wt_welcomed s" using parts(3) False by (auto simp: session_ok_def carrier_available_def)
    then show ?thesis using nb parts by (auto simp: wt_when_def session_ok_def)
  qed
  then obtain b es where b: "wt_when (wt_browser s \<noteq> None) (wt_all [close_all_streams False, close_browser_socket 1000]) s = Some (b, es)"
     "acct_ok L b" "ready_ok b" "\<forall>(i, st) \<in> set (wt_streams b). \<not> st_opened st" by blast
  have "acct_ok L (?f b)" by (rule acct_reset [OF b(2)]) (simp_all add: closed_ok_def)
  moreover have "ready_ok (?f b)" using b(3) by (simp add: ready_ok_def)
  ultimately have c: "wt_inv L (?f b)" by (rule inv_unwelcomed) (use b(4) in simp_all)
  have ctl: "control_ok (?f b)" using c by (simp add: wt_inv_def)
  obtain d es1 where d: "set_conn_state Connecting name (?f b) = Some (d, es1)" "wt_core d = wt_core (?f b)" "control_ok d"
    by (rule carrier_opE [OF carrier_op_set_conn_state ctl])
  have inv_d: "wt_inv L d" by (rule inv_carrier [OF c d(2)]) (use d(3) ctl in simp)
  have "good L (wt_all
          [wt_when (wt_browser s \<noteq> None) (wt_all [close_all_streams False, close_browser_socket 1000]), wt_pure ?f,
           set_conn_state Connecting name, write_web_socket 0x01 bridge, send_frame FrameHello 0 [1]]) s"
    by (rule good_next, rule b(1), rule good_pure_next, rule good_next, rule d(1), rule good_step,
        rule good_carrier [OF carrier_op_write_web_socket inv_d], rule good_step, rule good_send_frame)
      (simp_all add: max_frame_payload_def good_nil del: wt_all.simps)
  then show ?thesis by (rule good_cong [rotated]) (simp only: browser_authenticated_def if_not_P [OF False])
qed

lemma good_progress_timer:
  assumes "wt_inv L s"
  shows "good L (progress_timer now current) s"
proof -
  let ?s = "s\<lparr> wt_progress_scheduled := False \<rparr>"
  have inv: "wt_inv L ?s"
    by (rule inv_carrier [OF assms]) (simp_all add: wt_core_def carrier_available_def control_ok_def)
  show ?thesis
    using good_protocol_error [OF wt_inv_parts(1) [OF inv]] good_carrier [OF carrier_op_progress inv] inv
    by (simp add: good_def progress_timer_def Let_def)
qed

lemma deactivate_inv:
  assumes "wt_inv L s"
  shows "good L deactivate s"
proof -
  let ?f = "\<lambda>s. s\<lparr> wt_browser := None, wt_closed := {}, wt_closed_order := [], wt_ready := [], wt_ready_set := {},
          wt_control := [], wt_control_bytes := 0, wt_browser_name := [], wt_candidate := 0, wt_generation := 0,
          wt_webview_bytes := 0, wt_webview_items := 0, wt_welcomed := False, wt_write_failed := False,
          wt_progress_scheduled := False, wt_last_progress := 0, wt_proxy := None, wt_conn_state := Idle \<rparr> :: web_transport"
  note acct = wt_inv_parts(1) [OF assms]
  have "wt_inv L (?f (no_streams L s))"
    by (rule idle_no_streams [OF acct]) (simp_all add: no_streams_def closed_ok_def)
  then have tail: "good L (wt_all [wt_pure ?f]) (no_streams L s)"
    by (intro good_pure_next good_nil)
  have "good L (wt_all [close_all_streams False, \<lambda>s. wt_when (wt_browser s \<noteq> None) (wt_emit CloseSocket) s, wt_pure ?f]) s"
  proof (rule good_close_next [OF acct], rule good_next)
    show "wt_when (wt_browser (no_streams L s) \<noteq> None) (wt_emit CloseSocket) (no_streams L s)
      = Some (no_streams L s, if wt_browser (no_streams L s) \<noteq> None then [CloseSocket] else [])"
      by (simp add: wt_when_def wt_emit_def)
  qed (rule tail)
  then show ?thesis by (rule good_cong [rotated]) (simp only: deactivate_def)
qed

lemma good_configure:
  assumes "wt_inv L s"
  shows "good L (configure p) s"
proof (cases "wt_proxy s = Some p")
  case True
  then show ?thesis using assms by (simp add: good_def configure_def)
next
  case False
  have proxy: "wt_inv L (s\<lparr> wt_proxy := Some p \<rparr>)" if "wt_inv L s" for s
    by (rule inv_carrier [OF that]) (simp_all add: wt_core_def carrier_available_def control_ok_def)
  have "good L (wt_all [deactivate, wt_pure (\<lambda>s. s\<lparr> wt_proxy := Some p \<rparr>), set_conn_state Connecting []]) s"
    by (rule good_step [OF deactivate_inv [OF assms]], rule good_pure_next, rule good_step,
        rule good_conn_state, rule proxy, assumption, rule good_nil)
  then show ?thesis by (rule good_cong [rotated]) (simp only: configure_def if_not_P [OF False])
qed

section \<open>Calls that are queued\<close>

text \<open>Room is reserved when a call is queued; the call holds it until it has run.\<close>

lemma queue_loads_append: "queue_loads (q @ r) = queue_loads q @ queue_loads r"
  by (simp add: queue_loads_def)

lemma reserve_inv:
  assumes inv: "wt_inv L s" and res: "owner_reserve (int n) s = (True, s1)" and load: "task_load t = [n]" and n: "n \<noteq> 0"
  shows "wt_inv L (s1\<lparr> wt_queue := wt_queue s1 @ [t] \<rparr>)"
proof -
  have s1: "s1 = s\<lparr> wt_owner_bytes := wt_owner_bytes s + int n, wt_owner_items := wt_owner_items s + 1 \<rparr>"
    and room: "wt_owner_items s < max_pending_transport_items" "wt_owner_bytes s \<le> max_pending_transport_bytes - int n"
    using res by (auto simp: owner_reserve_def split: if_splits)
  have loads: "queue_loads [t] = [n]" using load by (simp add: queue_loads_def)
  let ?s = "s1\<lparr> wt_queue := wt_queue s1 @ [t] \<rparr>"
  have q: "queue_bytes L ?s = queue_bytes L s + int n" "queue_items L ?s = queue_items L s + 1"
    "closed_ok ?s = closed_ok s"
    by (simp_all add: queue_bytes_def queue_items_def closed_ok_def s1 queue_loads_append loads)
  have "acct_ok L ?s"
    using wt_inv_parts(1) [OF inv] room n unfolding acct_ok_def q by (simp add: s1 queue_loads_append loads)
  then show ?thesis
    using wt_inv_parts(2-4) [OF inv] by (simp add: wt_inv_def ready_ok_def session_ok_def control_ok_def s1 carrier_available_def)
qed

lemma reserve_refused: "owner_reserve n s = (False, s1) \<Longrightarrow> s1 = s"
  by (auto simp: owner_reserve_def split: if_splits)

lemma pop_inv:
  assumes inv: "wt_inv L s" and q: "wt_queue s = t # ts"
  shows "wt_inv (task_load t @ L) (s\<lparr> wt_queue := ts \<rparr>)" "\<forall>n \<in> set (task_load t). n \<noteq> 0"
proof -
  let ?s = "s\<lparr> wt_queue := ts \<rparr>"
  have loads: "queue_loads (wt_queue s) = task_load t @ queue_loads ts" by (simp add: q queue_loads_def)
  have same: "queue_bytes (task_load t @ L) ?s = queue_bytes L s" "queue_items (task_load t @ L) ?s = queue_items L s"
    "closed_ok ?s = closed_ok s"
    by (simp_all add: queue_bytes_def queue_items_def loads closed_ok_def)
  have "acct_ok (task_load t @ L) ?s"
    using wt_inv_parts(1) [OF inv] unfolding acct_ok_def same by (simp add: loads)
  then show "wt_inv (task_load t @ L) ?s"
    using wt_inv_parts(2-4) [OF inv] by (simp add: wt_inv_def ready_ok_def session_ok_def control_ok_def carrier_available_def)
  show "\<forall>n \<in> set (task_load t). n \<noteq> 0" using wt_inv_parts(1) [OF inv] by (simp add: acct_ok_def loads)
qed

lemma good_run_task:
  assumes inv: "wt_inv (task_load t @ L) s" and nz: "\<forall>n \<in> set (task_load t). n \<noteq> 0"
  shows "good L (run_task t) s"
proof (cases t)
  case (TaskSend i data)
  then show ?thesis using good_send_data [of data L s i] inv nz by (simp add: good_def)
next
  case (TaskPayload gen payload)
  have "good L (wt_all [webview_payload gen payload, owner_release (int (length payload)) 1]) s"
  proof -
    have inv': "wt_inv (length payload # L) s" using inv TaskPayload by simp
    obtain s1 es1 where 1: "webview_payload gen payload s = Some (s1, es1)" "wt_inv (length payload # L) s1"
      by (rule goodE [OF good_webview_payload [OF inv']])
    show ?thesis
      by (rule good_next, rule 1(1), rule good_release_next [OF 1(2)], rule good_nil)
  qed
  then show ?thesis unfolding TaskPayload by (rule good_cong [rotated]) (simp only: run_task.simps)
next
  case TaskProtocolError
  then show ?thesis using inv good_protocol_error [OF wt_inv_parts(1), of L s] by (simp add: good_def)
next
  case (TaskSocketError k)
  then show ?thesis using inv good_protocol_error [OF wt_inv_parts(1), of L s] by (simp add: good_def)
qed

lemma good_failed: "wt_inv L s \<Longrightarrow> good L (wt_all [wt_emit (FinishWebview gen), webview_failed gen]) s"
  by (rule good_emit_next, rule good_step, rule good_webview_failed, assumption, rule good_nil)

lemma good_api_send_data:
  assumes "wt_inv L s"
  shows "good L (api_send_data i data) s"
proof (cases "data = []")
  case False
  obtain b s1 where r: "owner_reserve (int (length data)) s = (b, s1)" by (cases "owner_reserve (int (length data)) s")
  show ?thesis
  proof (cases b)
    case True
    have "wt_inv L (s1\<lparr> wt_queue := wt_queue s1 @ [TaskSend i data] \<rparr>)"
      by (rule reserve_inv [OF assms, of "length data"]) (use r True False in simp_all)
    then show ?thesis using r True False by (simp add: good_def api_send_data_def)
  next
    case full: False
    then have "s1 = s" using reserve_refused [of "int (length data)" s s1] r by simp
    then show ?thesis using good_fail_stream [OF assms, of i] r full False by (simp add: good_def api_send_data_def)
  qed
qed (use assms in \<open>simp add: good_def api_send_data_def\<close>)

lemma good_api_payload:
  assumes "wt_inv L s"
  shows "good L (api_webview_payload gen payload) s"
proof (cases "payload = []")
  case True
  show ?thesis
    by (rule good_cong [OF _ good_failed [OF assms, of gen]]) (simp add: api_webview_payload_def True del: wt_all.simps)
next
  case False
  obtain b s1 where r: "owner_reserve (int (length payload)) s = (b, s1)" by (cases "owner_reserve (int (length payload)) s")
  show ?thesis
  proof (cases b)
    case True
    have "wt_inv L (s1\<lparr> wt_queue := wt_queue s1 @ [TaskPayload gen payload] \<rparr>)"
      by (rule reserve_inv [OF assms, of "length payload"]) (use r True False in simp_all)
    then show ?thesis using r True False by (simp add: good_def api_webview_payload_def)
  next
    case full: False
    then have s1: "s1 = s" using reserve_refused [of "int (length payload)" s s1] r by simp
    show ?thesis
      by (rule good_cong [OF _ good_failed [OF assms]])
        (use r full False s1 in \<open>simp add: api_webview_payload_def del: wt_all.simps\<close>)
  qed
qed

section \<open>Runs\<close>

text \<open>What a caller may pass: ids as \<open>NextStreamId\<close> makes them, 32-bit amounts.\<close>

fun call_ok :: "wt_call \<Rightarrow> bool" where
  "call_ok (CallRegister i) \<longleftrightarrow> id_ok i"
| "call_ok (CallGrant i n) \<longleftrightarrow> n < 2 ^ 32"
| "call_ok _ \<longleftrightarrow> True"

lemma good_socket_written:
  assumes "wt_inv L s"
  shows "good L (wt_step (CallSocketWritten now n)) s"
proof (cases "wt_browser s")
  case None
  then show ?thesis using assms by (simp add: good_def)
next
  case (Some k)
  let ?s = "s\<lparr> wt_browser := Some (k - max 0 (min n k)) \<rparr>"
  have "wt_inv L ?s"
    by (rule inv_carrier [OF assms]) (simp_all add: wt_core_def carrier_available_def control_ok_def Some)
  from good_browser_bytes_written [OF this] show ?thesis by (simp add: good_def Some)
qed

lemma good_browser_control:
  assumes "wt_inv L s"
  shows "good L (browser_control st) s"
proof -
  have "good L (wt_all [lose_browser True, close_browser_socket 1000]) s"
    by (rule good_step [OF good_lose_browser [OF wt_inv_parts(1) [OF assms]]], rule good_step,
        rule good_close_socket, assumption, rule good_nil)
  then show ?thesis
    using good_conn_state [OF assms] good_close_socket [OF assms] by (cases st) (auto simp: good_def browser_control_def)
qed

lemma good_window_timer:
  assumes "wt_inv L s"
  shows "good L (wt_step CallWindowTimer) s"
proof -
  have "wt_inv L (s\<lparr> wt_window_scheduled := False \<rparr>)"
    by (rule inv_carrier [OF assms]) (simp_all add: wt_core_def carrier_available_def control_ok_def)
  from good_flush_windows [OF this] show ?thesis using assms by (simp add: good_def)
qed

lemma wt_step_good:
  assumes inv: "wt_inv L s" and ok: "call_ok c"
  shows "good L (wt_step c) s"
proof -
  note acct = wt_inv_parts(1) [OF inv]
  have same: "good L (\<lambda>s. Some (s, [])) s" using inv by (rule good_none)
  note goods = good_configure [OF inv] deactivate_inv [OF inv] good_register_stream [OF inv] good_close_stream [OF inv]
    good_api_send_data [OF inv] good_grant_window [OF inv] good_webview_starting [OF inv] good_webview_ready [OF inv]
    good_api_payload [OF inv] good_webview_written [OF inv] good_failed [OF inv] good_webview_unavailable [OF inv]
    good_browser_authenticated [OF inv] good_client_disconnected [OF inv]
    good_progress_timer [OF inv]
  show ?thesis
  proof (cases c)
    case (CallBrowserStatus st)
    then show ?thesis using good_browser_control [OF inv, of st] inv by (simp add: good_def)
  next
    case (CallBrowserPayload payload)
    then show ?thesis using good_relay_payload [OF inv, of payload] inv by (simp add: good_def)
  next
    case CallWelcomeTimer
    then show ?thesis using good_protocol_error [OF acct] inv by (simp add: good_def)
  next
    case CallTask
    show ?thesis
    proof (cases "wt_queue s")
      case Nil
      then show ?thesis using CallTask inv by (simp add: good_def)
    next
      case (Cons t ts)
      from good_run_task [OF pop_inv [OF inv Cons]] show ?thesis using CallTask Cons by (simp add: good_def)
    qed
  qed (use goods ok good_socket_written [OF inv] good_window_timer [OF inv] in
      \<open>simp_all add: good_def del: wt_all.simps\<close>)
qed

lemma wt_run_good: "wt_inv L s \<Longrightarrow> \<forall>c \<in> set cs. call_ok c \<Longrightarrow> good L (wt_run cs) s"
proof (induction cs arbitrary: s)
  case Nil
  then show ?case by (simp add: good_def)
next
  case (Cons c cs)
  obtain s1 es1 where 1: "wt_step c s = Some (s1, es1)" "wt_inv L s1"
    by (rule goodE [OF wt_step_good [OF Cons.prems(1), of c]]) (use Cons.prems(2) in simp_all)
  obtain s2 es2 where "wt_run cs s1 = Some (s2, es2)" "wt_inv L s2"
    by (rule goodE [OF Cons.IH [OF 1(2)]]) (use Cons.prems(2) in simp_all)
  then show ?case using 1 by (simp add: good_def)
qed

end
