(* ===== verification/Web_Proxy_Windows.thy ===== *)
theory Web_Proxy_Windows
  imports Web_Proxy_Run
begin

text \<open>
  Flow control of what is received: the relay can deliver to a stream no more than the stream's window,
  which starts at its initial size and grows only by what the stream grants.
\<close>

section \<open>What a step delivers\<close>

fun event_data :: "stream_id \<Rightarrow> wt_event \<Rightarrow> nat" where
  "event_data i (NotifyData j d) = (if j = i then length d else 0)"
| "event_data i _ = 0"

definition delivered :: "stream_id \<Rightarrow> wt_event list \<Rightarrow> nat" where
  "delivered i es = sum_list (map (event_data i) es)"

definition window_of :: "stream_id \<Rightarrow> web_transport \<Rightarrow> nat" where
  "window_of i s = (case wt_find i s of None \<Rightarrow> 0 | Some st \<Rightarrow> st_receive_window st)"

text \<open>A step that delivers at most what it takes from the windows, up to the amount \<open>g\<close>.\<close>

definition windowed :: "(stream_id \<Rightarrow> nat) \<Rightarrow> wt_op \<Rightarrow> bool" where
  "windowed g f \<longleftrightarrow> (\<forall>s s' es i. f s = Some (s', es) \<longrightarrow> delivered i es + window_of i s' \<le> window_of i s + g i)"

abbreviation quiet :: "wt_op \<Rightarrow> bool" where
  "quiet \<equiv> windowed (\<lambda>_. 0)"

named_theorems quiets \<open>steps that deliver no more than they take from the windows\<close>

lemma windowedI: "(\<And>s s' es i. f s = Some (s', es) \<Longrightarrow> delivered i es + window_of i s' \<le> window_of i s + g i) \<Longrightarrow> windowed g f"
  by (auto simp: windowed_def)

lemma windowedD: "windowed g f \<Longrightarrow> f s = Some (s', es) \<Longrightarrow> delivered i es + window_of i s' \<le> window_of i s + g i"
  by (auto simp: windowed_def)

lemma delivered_simps [simp]: "delivered i [] = 0" "delivered i (e # es) = event_data i e + delivered i es"
  "delivered i (es @ es') = delivered i es + delivered i es'"
  by (simp_all add: delivered_def)

lemma quiet_all:
  "quiet (wt_all [])" "quiet f \<Longrightarrow> quiet (wt_all fs) \<Longrightarrow> quiet (wt_all (f # fs))"
  subgoal by (rule windowedI) auto
  subgoal premises prems
  proof (rule windowedI)
    fix s s' es i assume "wt_all (f # fs) s = Some (s', es)"
    then obtain s1 es1 es2 where "f s = Some (s1, es1)" "wt_all fs s1 = Some (s', es2)" "es = es1 @ es2"
      by (auto split: option.splits)
    then show "delivered i es + window_of i s' \<le> window_of i s + 0"
      using windowedD [OF prems(1), of s s1 es1 i] windowedD [OF prems(2), of s1 s' es2 i] by simp
  qed
  done

lemma windowed_all: "(\<And>f. f \<in> set fs \<Longrightarrow> quiet f) \<Longrightarrow> quiet (wt_all fs)"
  by (induction fs) (simp_all add: quiet_all del: wt_all.simps)

lemma quiet_pure: "(\<And>s i. window_of i (g s) \<le> window_of i s) \<Longrightarrow> quiet (wt_pure g)"
  by (auto simp: windowed_def wt_pure_def)

lemma quiet_emit: "(\<And>i. event_data i e = 0) \<Longrightarrow> quiet (wt_emit e)"
  by (auto simp: windowed_def wt_emit_def)

lemma quiet_when: "quiet f \<Longrightarrow> quiet (wt_when b f)"
  by (auto simp: windowed_def wt_when_def)

lemma quiet_none: "quiet (\<lambda>s. Some (s, []))"
  by (simp add: windowed_def)

lemma quiet_fun: "(\<And>s. quiet (f s)) \<Longrightarrow> quiet (\<lambda>s. f s s)"
  unfolding windowed_def by blast

lemma quiet_if: "quiet f \<Longrightarrow> quiet g \<Longrightarrow> quiet (\<lambda>s. if b s then f s else g s)"
  unfolding windowed_def by auto

lemma quiet_same:
  assumes "\<And>s s' es. f s = Some (s', es) \<Longrightarrow> wt_streams s' = wt_streams s \<and> (\<forall>i. delivered i es = 0)"
  shows "quiet f"
  using assms by (fastforce simp: windowed_def window_of_def wt_find_def)

lemma window_same: "wt_streams s' = wt_streams s \<Longrightarrow> window_of i s' = window_of i s"
  by (simp add: window_of_def wt_find_def)

lemma window_update: "(\<And>st. st_receive_window (f st) \<le> st_receive_window st) \<Longrightarrow> window_of i (wt_update j f s) \<le> window_of i s"
  by (auto simp: window_of_def wt_find_update split: option.split)

lemma window_erase: "window_of i (wt_erase j s) \<le> window_of i s"
proof -
  have "map_of (filter (\<lambda>(k, _). k \<noteq> j) zs) i = (if i = j then None else map_of zs i)" for zs :: "(stream_id \<times> wt_stream) list"
    by (induction zs) auto
  then show ?thesis by (simp add: window_of_def wt_find_def wt_erase_def split: option.split)
qed

section \<open>The operations\<close>

text \<open>The same, of one result.\<close>

definition quiet_res :: "web_transport \<Rightarrow> (web_transport \<times> wt_event list) option \<Rightarrow> bool" where
  "quiet_res s r \<longleftrightarrow> (\<forall>s' es i. r = Some (s', es) \<longrightarrow> delivered i es + window_of i s' \<le> window_of i s)"

lemma quietI: "(\<And>s. quiet_res s (f s)) \<Longrightarrow> quiet f"
  by (simp add: windowed_def quiet_res_def)

lemma quietD: "quiet f \<Longrightarrow> quiet_res s (f s)"
  by (simp add: windowed_def quiet_res_def)

lemma quiet_res_rules:
  "quiet_res s None"
  "(b \<Longrightarrow> quiet_res s x) \<Longrightarrow> (\<not> b \<Longrightarrow> quiet_res s y) \<Longrightarrow> quiet_res s (if b then x else y)"
  "(m = None \<Longrightarrow> quiet_res s x) \<Longrightarrow> (\<And>v. m = Some v \<Longrightarrow> quiet_res s (z v)) \<Longrightarrow> quiet_res s (case m of None \<Rightarrow> x | Some v \<Rightarrow> z v)"
  "(\<And>f. f \<in> set fs \<Longrightarrow> quiet f) \<Longrightarrow> quiet_res s (wt_all fs s)"
proof -
  show "quiet_res s (wt_all fs s)" if "\<And>f. f \<in> set fs \<Longrightarrow> quiet f"
    by (rule quietD [OF windowed_all [OF that]])
  show "quiet_res s (if b then x else y)" if "b \<Longrightarrow> quiet_res s x" "\<not> b \<Longrightarrow> quiet_res s y"
    using that by (cases b) simp_all
  show "quiet_res s (case m of None \<Rightarrow> x | Some v \<Rightarrow> z v)"
    if "m = None \<Longrightarrow> quiet_res s x" "\<And>v. m = Some v \<Longrightarrow> quiet_res s (z v)"
    using that by (cases m) simp_all
  show "quiet_res s None" unfolding quiet_res_def by (intro allI impI) (erule option.distinct(1) [THEN notE])
qed

lemma Some_Pair_inject: "Some (a, b) = Some (c, d) \<Longrightarrow> (c = a \<Longrightarrow> d = b \<Longrightarrow> R) \<Longrightarrow> R"
  by simp

lemma quiet_res_keep:
  assumes "wt_streams s' = wt_streams s" and "\<And>i. delivered i es = 0"
  shows "quiet_res s (Some (s', es))"
proof -
  have "window_of i s' = window_of i s" for i by (rule window_same [OF assms(1)])
  then show ?thesis
    unfolding quiet_res_def by (intro allI impI, elim Some_Pair_inject) (use assms(2) in simp)
qed

lemma quiet_res_seq:
  assumes "\<And>i. delivered i es1 + window_of i s1 \<le> window_of i s" and "quiet_res s1 (Some (s2, es2))"
  shows "quiet_res s (Some (s2, es1 @ es2))"
proof -
  have "delivered i es2 + window_of i s2 \<le> window_of i s1" for i using assms(2) by (auto simp: quiet_res_def)
  then show ?thesis
    unfolding quiet_res_def by (intro allI impI, elim Some_Pair_inject) (use assms(1) in \<open>simp, metis add.assoc add_left_mono le_trans\<close>)
qed

lemma quiet_res_then:
  assumes "quiet f" and "\<And>s1 es1. f s = Some (s1, es1) \<Longrightarrow> quiet_res s1 (g s1)"
  shows "quiet_res s (case f s of None \<Rightarrow> None | Some (s1, es1) \<Rightarrow> map_option (\<lambda>(s2, es2). (s2, es1 @ es2)) (g s1))"
proof (cases "f s")
  case None
  then show ?thesis by (simp add: quiet_res_rules(1))
next
  case (Some r)
  obtain s1 es1 where r: "r = (s1, es1)" by (cases r)
  show ?thesis
    using windowedD [OF assms(1) Some [unfolded r]] assms(2) [OF Some [unfolded r]]
    unfolding Some r option.case prod.case by (cases "g s1") (auto simp: quiet_res_rules(1) intro: quiet_res_seq)
qed

lemma quiet_carrier:
  "quiet (set_conn_state st name)" "quiet (write_carrier_frame b)" "quiet ensure_write_progress"
  "quiet (write_web_socket opcode payload)" "quiet (owner_release n k)"
  by (rule quietI, simp add: set_conn_state_def write_carrier_frame_def ensure_write_progress_def
      write_web_socket_def owner_release_def Let_def quiet_res_keep quiet_res_rules(1) split: option.split)+

lemma quiet_close_socket: "quiet (close_browser_socket code)" "quiet (close_other_socket code)"
proof -
  have "quiet (\<lambda>s. wt_when (wt_browser s \<noteq> None) (wt_all [write_web_socket 0x08 (close_payload code), wt_emit CloseSocket]) s)"
    by (rule quiet_fun, rule quiet_when, intro quiet_all quiet_carrier quiet_emit) simp
  then show "quiet (close_browser_socket code)" by (simp add: close_browser_socket_def [abs_def])
  show "quiet (close_other_socket code)"
    unfolding close_other_socket_def by (intro quiet_all quiet_emit) simp_all
qed

lemma quiet_fields: "(\<And>s. wt_streams (g s) = wt_streams s) \<Longrightarrow> quiet (wt_pure g)"
  by (rule quietI) (simp add: wt_pure_def quiet_res_keep)

lemma quiet_queue_control: "quiet (queue_control_frame b)"
  unfolding queue_control_frame_def
  by (rule quietI, intro quiet_res_rules) (auto intro: quiet_carrier quiet_fields quiet_res_keep)

lemma quiet_send_frame: "quiet (send_frame t i payload)"
  by (rule quietI, unfold send_frame_def, intro quiet_res_rules)
    (auto intro: quietD [OF quiet_queue_control] quiet_res_keep)

lemma quiet_flush_control_loop: "quiet_res s (flush_control_loop bs s)"
proof (induction bs arbitrary: s)
  case (Cons b bs)
  have "quiet (flush_control_loop bs)" by (rule quietI) (rule Cons.IH)
  then show ?case
    by (simp only: flush_control_loop.simps, intro quiet_res_rules) (auto intro: quiet_carrier quiet_fields quiet_res_keep)
qed (simp add: quiet_res_keep)

lemma quiet_flush_control: "quiet flush_control_frames"
proof -
  have "quiet (\<lambda>s. flush_control_loop (wt_control s) s)" by (rule quietI) (rule quiet_flush_control_loop)
  moreover have "quiet (flush_control_loop bs)" for bs by (rule quietI) (rule quiet_flush_control_loop)
  moreover have "quiet (\<lambda>s. wt_when (b s) ensure_write_progress s)" for b
    by (rule quiet_fun) (rule quiet_when, rule quiet_carrier)
  ultimately show ?thesis
    by (intro quietI, unfold flush_control_frames_def, intro quiet_res_rules) auto
qed

lemma quiet_update: "(\<And>st. st_receive_window (f st) \<le> st_receive_window st) \<Longrightarrow> quiet (wt_pure (wt_update i f))"
  by (rule quiet_pure) (rule window_update)

lemma quiet_mark_ready: "quiet (wt_pure (mark_ready i))"
  by (rule quiet_fields) simp

lemma quiet_res_all: "quiet (wt_all fs) \<Longrightarrow> quiet_res s (wt_all fs s)"
  by (rule quietD)

lemma quiet_res_none: "quiet_res s (Some (s, []))"
  by (rule quiet_res_keep) simp_all

lemmas quiet_steps = quiet_res_rules(1-3) quiet_res_all quiet_res_none quiet_all quiet_when

lemma quiet_flush_stream: "quiet (flush_stream i)"
  by (rule quietI, unfold flush_stream_def Let_def case_prod_beta, intro quiet_steps quiet_carrier quiet_update) simp_all

lemma quiet_flush_loop: "quiet_res s (flush_streams_loop n s)"
proof (induction n s rule: flush_streams_loop.induct)
  case (1 n s)
  show ?case
  proof (cases "wt_ready s")
    case Nil
    then show ?thesis by (simp add: flush_streams_loop.simps quiet_res_keep)
  next
    case (Cons i rest)
    show ?thesis
    proof (cases "n = 0 \<or> \<not> carrier_accepts (frame_header_size + 1) False s")
      case True
      then show ?thesis by (simp only: flush_streams_loop.simps [of n s] Cons list.case if_P [OF True]) (simp add: quiet_res_keep)
    next
      case False
      show ?thesis
      proof (cases "i \<notin> wt_ready_set s")
        case True
        have w: "window_of j (s\<lparr> wt_ready := rest \<rparr>) = window_of j s" for j by (rule window_same) simp
        show ?thesis
          using 1(1) [OF Cons False True]
          unfolding flush_streams_loop.simps [of n s] Cons list.case if_not_P [OF False] if_P [OF True] quiet_res_def w .
      next
        case in_set: False
        let ?s = "s\<lparr> wt_ready := rest, wt_ready_set := wt_ready_set s - {i} \<rparr>"
        have w: "window_of j ?s = window_of j s" for j by (rule window_same) simp
        have m: "window_of j (mark_ready i s1) = window_of j s1" for j s1 by (rule window_same) simp
        have "quiet_res s1 (flush_streams_loop (n - 1) (mark_ready i s1))" if "flush_stream i ?s = Some (s1, es1)" for s1 es1
          using 1(2) [OF Cons False in_set that refl] unfolding quiet_res_def m .
        from quiet_res_then [OF quiet_flush_stream this]
        have "quiet_res ?s (case flush_stream i ?s of None \<Rightarrow> None
             | Some (s1, es1) \<Rightarrow> map_option (\<lambda>(s2, es2). (s2, es1 @ es2)) (flush_streams_loop (n - 1) (mark_ready i s1)))" .
        then show ?thesis
          unfolding flush_streams_loop.simps [of n s] Cons list.case if_not_P [OF False] if_not_P [OF in_set] quiet_res_def w .
      qed
    qed
  qed
qed

lemma quiet_flush_streams: "quiet flush_streams"
proof -
  have loop: "quiet (flush_streams_loop n)" for n by (rule quietI) (rule quiet_flush_loop)
  have "quiet (\<lambda>s. wt_when (b s) ensure_write_progress s)" for b
    by (rule quiet_fun) (rule quiet_when, rule quiet_carrier)
  then have "quiet (wt_all [flush_streams_loop max_flush_frames_per_turn, \<lambda>s. wt_when (carrier_pending_bytes s > 0) ensure_write_progress s])"
    by - (rule quiet_all, rule loop, rule quiet_all, assumption, rule quiet_all)
  then have tail: "quiet (\<lambda>s. wt_when (wt_control s = []) (wt_all [flush_streams_loop max_flush_frames_per_turn,
      \<lambda>s. wt_when (carrier_pending_bytes s > 0) ensure_write_progress s]) s)"
    by - (rule quiet_fun, rule quiet_when)
  then show ?thesis
    by (intro quietI, unfold flush_streams_def, intro quiet_steps quiet_flush_control tail)
qed

lemma quiet_close_all: "quiet (close_all_streams b)"
proof (rule quietI)
  fix s
  have "window_of i (s\<lparr> wt_streams := [], wt_ready := [], wt_ready_set := {} \<rparr>) \<le> window_of i s" for i s
    by (simp add: window_of_def wt_find_def)
  then have "quiet (wt_pure (\<lambda>s. s\<lparr> wt_streams := [], wt_ready := [], wt_ready_set := {} \<rparr>))" by (rule quiet_pure)
  moreover have "quiet (wt_all [release_stream st, wt_emit (if b then NotifyFailed i else NotifyDisconnected i)])" for i st
    by (intro windowed_all) (auto simp: release_stream_def intro: quiet_carrier quiet_emit)
  ultimately show "quiet_res s (close_all_streams b s)"
    unfolding close_all_streams_def by (intro quiet_res_rules) auto
qed

lemma quiet_conn_fun: "quiet (\<lambda>s. set_conn_state (a s) (b s) s)"
  by (rule quiet_fun) (rule quiet_carrier)

lemma quiet_webview_failed: "quiet (webview_failed gen)"
proof -
  have "quiet (\<lambda>s. wt_when (c s) (set_conn_state Connecting []) s)" for c
    by (rule quiet_fun) (rule quiet_when, rule quiet_carrier)
  then show ?thesis
    by (intro quietI, unfold webview_failed_def Let_def, intro quiet_res_rules)
      (auto intro!: quiet_when windowed_all quiet_fields quiet_close_all intro: quiet_res_keep)
qed

lemma quiet_protocol_error: "quiet protocol_error"
  by (rule quietI, unfold protocol_error_def, intro quiet_res_rules)
    (auto intro: quiet_fields quiet_close_all quiet_webview_failed quiet_emit quiet_close_socket quiet_conn_fun)

lemma quiet_lose_browser: "quiet (lose_browser b)"
  by (rule quietI, unfold lose_browser_def, intro quiet_res_rules)
    (auto intro: quiet_fields quiet_close_all quiet_conn_fun)

lemma quiet_relay_welcome: "quiet relay_welcome"
proof -
  have "quiet (wt_all [wt_pure (wt_update i (\<lambda>st. st\<lparr> st_opened := True \<rparr>)),
      send_frame FrameOpen i [], wt_emit (NotifyConnected i), wt_pure (mark_ready i)])" for i
    by (intro windowed_all) (auto intro: quiet_update quiet_send_frame quiet_emit quiet_mark_ready)
  then have "quiet (wt_all (map (\<lambda>(i, _). wt_all [wt_pure (wt_update i (\<lambda>st. st\<lparr> st_opened := True \<rparr>)),
      send_frame FrameOpen i [], wt_emit (NotifyConnected i), wt_pure (mark_ready i)]) ss))" for ss :: "(stream_id \<times> wt_stream) list"
    by (intro windowed_all) auto
  then show ?thesis
    by (intro quietI, unfold relay_welcome_def, intro quiet_res_rules)
      (auto simp del: wt_all.simps intro: quietD [OF quiet_protocol_error] quiet_fields quiet_conn_fun quiet_flush_streams)
qed

lemma quiet_drop_stream: "quiet (drop_stream i st)"
  unfolding drop_stream_def release_stream_def
  by (intro windowed_all) (auto intro: quiet_pure window_erase quiet_carrier quiet_fields simp: unmark_ready_def)

lemma quiet_remember_closed: "quiet (wt_pure (remember_closed i))"
  by (rule quiet_fields) simp

section \<open>Frames of the relay\<close>

definition quiet_verdict :: "web_transport \<Rightarrow> (bool \<times> web_transport \<times> wt_event list) option \<Rightarrow> bool" where
  "quiet_verdict s r \<longleftrightarrow> (\<forall>b s' es i. r = Some (b, s', es) \<longrightarrow> delivered i es + window_of i s' \<le> window_of i s)"

lemma quiet_verdict_rules:
  "quiet_res s (f s) \<Longrightarrow> quiet_verdict s (wt_ok f s)" "quiet_verdict s (wt_refuse s)" "quiet_verdict s (Some (b, s, []))"
  by (auto simp: quiet_verdict_def wt_ok_def wt_refuse_def quiet_res_def)

lemma quiet_session_frame: "quiet_verdict s (relay_session_frame f s)"
proof -
  have bye: "quiet (wt_all
            [if g then wt_all [webview_failed gen, wt_emit (FinishWebview gen)] else lose_browser True,
             close_browser_socket 1000])" for g gen
    by (cases g) (simp_all only: if_True if_False, (intro quiet_all quiet_webview_failed quiet_emit quiet_lose_browser quiet_close_socket; simp)+)
  have "quiet (\<lambda>s. wt_all
            [if wt_generation s \<noteq> 0
             then wt_all [webview_failed (wt_generation s), wt_emit (FinishWebview (wt_generation s))]
             else lose_browser True,
             close_browser_socket 1000] s)"
    by (rule quiet_fun) (rule bye)
  note v = quiet_verdict_rules(1) [OF quietD [OF quiet_relay_welcome]] quiet_verdict_rules(1) [OF quietD [OF quiet_send_frame]]
    quiet_verdict_rules(1) [OF quietD [OF this]] quiet_verdict_rules(2)
  show ?thesis
    unfolding relay_session_frame_def
    by (cases "frame_kind f") (simp_all only: frame_type.case, auto intro: v simp del: wt_all.simps)
qed

text \<open>Data take their length from the window of their stream.\<close>

lemma quiet_data_frame:
  assumes find: "wt_find i s = Some st" and fits: "length d \<le> st_receive_window st"
  shows "quiet_res s (wt_all [wt_pure (wt_update i (\<lambda>st. st\<lparr> st_receive_window := st_receive_window st - length d \<rparr>)),
     wt_emit (NotifyData i d)] s)"
  unfolding quiet_res_def
proof (intro allI impI)
  fix s' es j assume run: "wt_all [wt_pure (wt_update i (\<lambda>st. st\<lparr> st_receive_window := st_receive_window st - length d \<rparr>)),
     wt_emit (NotifyData i d)] s = Some (s', es)"
  then have s': "s' = wt_update i (\<lambda>st. st\<lparr> st_receive_window := st_receive_window st - length d \<rparr>) s" "es = [NotifyData i d]"
    by (simp_all add: wt_simps)
  show "delivered j es + window_of j s' \<le> window_of j s"
    using find fits unfolding s' by (auto simp: window_of_def wt_find_update)
qed

lemma quiet_stream_frame:
  assumes find: "wt_find (frame_stream f) s = Some st"
  shows "quiet_verdict s (relay_stream_frame f st s)"
proof -
  let ?i = "frame_stream f"
  have win: "quiet (wt_all [wt_pure (wt_update ?i (\<lambda>st. st\<lparr> st_send_window := w st \<rparr>)), wt_pure (mark_ready ?i), flush_streams])" for w
    by (intro quiet_all quiet_update quiet_mark_ready quiet_flush_streams) simp
  have data: "quiet_verdict s (wt_ok (wt_all [wt_pure (wt_update ?i (\<lambda>st. st\<lparr> st_receive_window := st_receive_window st - length d \<rparr>)),
     wt_emit (NotifyData ?i d)]) s)" if "length d \<le> st_receive_window st" for d
    by (rule quiet_verdict_rules(1), rule quiet_data_frame [OF find that])
  have closing: "quiet (wt_all [wt_pure (remember_closed ?i), drop_stream ?i st, wt_emit (NotifyDisconnected ?i)])"
    by (intro quiet_all quiet_remember_closed quiet_drop_stream quiet_emit) simp
  note v = quiet_verdict_rules(1) [OF quietD [OF win]] quiet_verdict_rules(1) [OF quietD [OF closing]] quiet_verdict_rules(2) data
  show ?thesis
    unfolding relay_stream_frame_def Let_def
    by (cases "frame_kind f") (simp_all only: frame_type.case, auto intro: v simp del: wt_all.simps)
qed

lemma quiet_relay_frame: "quiet_verdict s (process_relay_frame f s)"
  unfolding process_relay_frame_def
  by (auto intro: quiet_session_frame quiet_stream_frame quiet_verdict_rules(2,3) split: option.split)

lemma quiet_relay_frames: "quiet (process_relay_frames fs)"
proof (induction fs)
  case Nil
  then show ?case by (rule quietI) (simp add: quiet_res_none)
next
  case (Cons f fs)
  show ?case
  proof (rule quietI)
    fix s
    show "quiet_res s (process_relay_frames (f # fs) s)"
    proof (cases "process_relay_frame f s")
      case None
      then show ?thesis by (simp add: quiet_res_rules(1))
    next
      case (Some r)
      obtain b s1 es1 where r: "process_relay_frame f s = Some (b, s1, es1)" using Some by (cases r) auto
      have one: "delivered i es1 + window_of i s1 \<le> window_of i s" for i
        using quiet_relay_frame [of s f] r by (auto simp: quiet_verdict_def)
      have two: "quiet_res s1 (if b then process_relay_frames fs s1 else protocol_error s1)"
        by (intro quiet_res_rules(2) quietD [OF Cons.IH] quietD [OF quiet_protocol_error])
      show ?thesis
      proof (cases "if b then process_relay_frames fs s1 else protocol_error s1")
        case None
        then show ?thesis by (simp only: process_relay_frames.simps r option.case prod.case None option.map quiet_res_rules(1))
      next
        case (Some r2)
        obtain s2 es2 where r2: "(if b then process_relay_frames fs s1 else protocol_error s1) = Some (s2, es2)"
          using Some by (cases r2) auto
        show ?thesis
          using quiet_res_seq [OF one two [unfolded r2]]
          by (simp only: process_relay_frames.simps r option.case prod.case r2 option.map)
      qed
    qed
  qed
qed

lemma quiet_relay_payload: "quiet (process_relay_payload payload)"
  by (rule quietI, unfold process_relay_payload_def Let_def case_prod_beta, intro quiet_res_rules(2))
    (rule quietD [OF quiet_protocol_error], rule quietD [OF quiet_relay_frames])

section \<open>Calls\<close>

lemma quiet_end_stream: "quiet (wt_all fs) \<Longrightarrow> quiet (wt_all (close_opened i st # drop_stream i st # fs))"
  unfolding close_opened_def
  by (intro quiet_all quiet_when quiet_drop_stream quiet_send_frame quiet_remember_closed) assumption

lemma quiet_fail_stream: "quiet (fail_stream i)"
  by (rule quietI, unfold fail_stream_def, intro quiet_steps quiet_end_stream quiet_emit) simp

lemma quiet_close_stream: "quiet (close_stream i)"
  by (rule quietI, unfold close_stream_def, intro quiet_steps quiet_end_stream)

lemma quiet_send_data: "quiet (stream_send_data i data)"
  by (rule quietI, unfold stream_send_data_def,
      intro quiet_res_rules(1-3) quiet_res_all quietD [OF quiet_carrier(5)] quiet_all quiet_carrier(5) quiet_end_stream quiet_emit
        quiet_update quiet_when quiet_mark_ready quiet_flush_streams) simp_all

lemma quiet_flush_windows: "quiet flush_windows"
proof (rule quietI)
  fix s
  have "quiet (wt_when c (wt_all [wt_pure (wt_update i (\<lambda>st. st\<lparr> st_pending_window := 0 \<rparr>)), send_frame FrameWindow i x]))" for c i x
    by (intro quiet_when quiet_all quiet_update quiet_send_frame) simp
  then show "quiet_res s (flush_windows s)"
    unfolding flush_windows_def by (intro quiet_res_all windowed_all) auto
qed

section \<open>Carriers\<close>

lemma quiet_flushes: "quiet (wt_all [flush_control_frames, flush_streams])"
  by (intro quiet_all quiet_flush_control quiet_flush_streams)

lemma quiet_carriers:
  "quiet (browser_bytes_written now)" "quiet (webview_written now gen n)" "quiet (webview_unavailable)"
  "quiet (webview_payload gen payload)" "quiet (progress_timer now current)"
proof -
  have written: "quiet (wt_all [wt_pure f, flush_control_frames, flush_streams])"
    if "\<And>s. wt_streams (f s) = wt_streams s" for f
    by (intro quiet_all quiet_flush_control quiet_flush_streams quiet_fields that)
  show "quiet (browser_bytes_written now)"
    by (rule quietI, unfold browser_bytes_written_def, rule quiet_res_all, rule written) simp
  show "quiet (webview_written now gen n)"
    by (rule quietI, unfold webview_written_def, intro quiet_res_rules(2) quiet_res_none quietD [OF quiet_protocol_error]
        quiet_res_all written) simp
  show "quiet webview_unavailable"
    by (rule quietI, unfold webview_unavailable_def, intro quiet_res_rules(2) quiet_res_none quietD [OF quiet_carrier(1)])
  show "quiet (webview_payload gen payload)"
    by (rule quietI, unfold webview_payload_def, intro quiet_res_rules(2) quiet_res_none quietD [OF quiet_relay_payload])
  show "quiet (progress_timer now current)"
  proof (rule quietI)
    fix s :: web_transport
    let ?s = "s\<lparr> wt_progress_scheduled := False \<rparr>"
    have w: "window_of i ?s = window_of i s" for i by (rule window_same) simp
    have "quiet_res ?s (progress_timer now current s)"
      unfolding progress_timer_def Let_def
      by (intro quiet_res_rules(2) quiet_res_none quietD [OF quiet_protocol_error] quietD [OF quiet_carrier(3)])
    then show "quiet_res s (progress_timer now current s)" unfolding quiet_res_def w .
  qed
qed

lemma quiet_conn_when: "quiet (\<lambda>s. wt_when (c s) (set_conn_state st name) s)"
  by (rule quiet_fun) (rule quiet_when, rule quiet_carrier)

lemma quiet_sessions:
  "quiet (webview_starting gen)" "quiet (webview_ready now gen)" "quiet client_disconnected"
  "quiet (browser_authenticated now bridge name)" "quiet deactivate" "quiet (configure p)"
proof -
  have disconnect: "quiet (\<lambda>s. wt_when (wt_browser s \<noteq> None) (wt_emit CloseSocket) s)"
    by (rule quiet_fun, rule quiet_when, rule quiet_emit) simp
  have lose: "quiet (\<lambda>s. lose_browser (c s) s)" for c by (rule quiet_fun) (rule quiet_lose_browser)
  show "quiet (webview_starting gen)"
    by (rule quietI, unfold webview_starting_def, intro quiet_res_rules(2) quiet_res_none quiet_res_all quiet_all quiet_conn_when
        quiet_fields) simp
  show "quiet (webview_ready now gen)"
    by (rule quietI, unfold webview_ready_def, intro quiet_res_rules(2) quiet_res_none quiet_res_all quiet_all quiet_when
        quiet_fields quiet_close_all quiet_close_socket quiet_relay_welcome) simp_all
  show "quiet client_disconnected"
    by (rule quietI, unfold client_disconnected_def, intro quiet_res_rules(2) quiet_res_none quiet_res_all quiet_all quiet_fields lose) simp
  show "quiet (browser_authenticated now bridge name)"
    by (rule quietI, unfold browser_authenticated_def, intro quiet_res_rules(2) quiet_res_all quiet_all quiet_when
        quiet_fields quiet_close_all quiet_close_socket quiet_carrier quiet_send_frame quietD [OF quiet_close_socket(2)]) simp_all
  show deactivate: "quiet deactivate"
    by (rule quietI, unfold deactivate_def, intro quiet_res_all quiet_all quiet_fields quiet_close_all disconnect) simp
  show "quiet (configure p)"
    by (rule quietI, unfold configure_def, intro quiet_res_rules(2) quiet_res_none quiet_res_all quiet_all quiet_fields
        quiet_carrier deactivate) simp
qed

lemma quiet_failed: "quiet (wt_all [wt_emit (FinishWebview gen), webview_failed gen])"
  by (intro quiet_all quiet_emit quiet_webview_failed) simp

lemma owner_reserve_streams: "wt_streams (snd (owner_reserve n s)) = wt_streams s"
  by (simp add: owner_reserve_def)

lemma quiet_api: "quiet (api_send_data i data)" "quiet (api_webview_payload gen payload)"
proof -
  show "quiet (api_send_data i data)"
  proof (rule quietI)
    fix s
    obtain b s1 where r: "owner_reserve (int (length data)) s = (b, s1)" by (cases "owner_reserve (int (length data)) s")
    then have "b \<or> s1 = s" "wt_streams s1 = wt_streams s"
      using reserve_refused [of "int (length data)" s s1] owner_reserve_streams [of "int (length data)" s] by auto
    then show "quiet_res s (api_send_data i data s)"
      using quietD [OF quiet_fail_stream, of s i] r by (cases b) (auto simp: api_send_data_def intro!: quiet_res_keep)
  qed
  show "quiet (api_webview_payload gen payload)"
  proof (rule quietI)
    fix s
    obtain b s1 where r: "owner_reserve (int (length payload)) s = (b, s1)" by (cases "owner_reserve (int (length payload)) s")
    then have "b \<or> s1 = s" "wt_streams s1 = wt_streams s"
      using reserve_refused [of "int (length payload)" s s1] owner_reserve_streams [of "int (length payload)" s] by auto
    then show "quiet_res s (api_webview_payload gen payload s)"
      using quietD [OF quiet_failed, of s gen] r
      by (cases b) (auto simp: api_webview_payload_def simp del: wt_all.simps intro!: quiet_res_keep)
  qed
qed

lemma quiet_run_task: "quiet (run_task t)"
proof (rule quietI)
  fix s
  show "quiet_res s (run_task t s)"
  proof (cases t)
    case (TaskSend i data)
    then show ?thesis using quietD [OF quiet_send_data] by simp
  next
    case (TaskPayload gen payload)
    show ?thesis
      unfolding TaskPayload run_task.simps by (intro quiet_res_all quiet_all quiet_carriers(4) quiet_carrier(5))
  next
    case TaskProtocolError
    then show ?thesis using quietD [OF quiet_protocol_error] by (simp add: quiet_res_none)
  next
    case (TaskSocketError k)
    then show ?thesis using quietD [OF quiet_protocol_error] by (simp add: quiet_res_none)
  qed
qed

section \<open>Runs\<close>

text \<open>What a call adds to the window of a stream: its initial size when it is made, and the grants.\<close>

fun call_grants :: "stream_id \<Rightarrow> wt_call \<Rightarrow> nat" where
  "call_grants i (CallRegister j) = (if j = i then initial_stream_window else 0)"
| "call_grants i (CallGrant j n) = (if j = i then n else 0)"
| "call_grants i _ = 0"

lemma map_of_emplace: "i \<notin> fst ` set ss \<Longrightarrow> map_of (flat_emplace i st ss) j = (if j = i then Some st else map_of ss j)"
  by (induction i st ss rule: flat_emplace.induct) auto

lemma windowed_pure_next:
  assumes "wt_all (wt_pure g # fs) s = Some (s', es)" and "window_of j (g s) \<le> window_of j s + k" and "quiet (wt_all fs)"
  shows "delivered j es + window_of j s' \<le> window_of j s + k"
proof -
  have "wt_all (wt_pure g # fs) s = wt_all fs (g s)"
    by (cases "wt_all fs (g s)") (simp_all add: wt_simps)
  then show ?thesis using windowedD [OF assms(3), of "g s" s' es j] assms(1,2) by simp
qed

lemma windowed_register: "windowed (\<lambda>j. call_grants j (CallRegister i)) (register_stream i)"
proof (rule windowedI)
  fix s s' es j assume run: "register_stream i s = Some (s', es)"
  show "delivered j es + window_of j s' \<le> window_of j s + call_grants j (CallRegister i)"
  proof (cases "wt_proxy s = None \<or> wt_find i s \<noteq> None \<or> i \<in> wt_closed s")
    case True
    then show ?thesis using run unfolding register_stream_def if_P [OF True] by auto
  next
    case False
    let ?new = "\<lambda>s. s\<lparr> wt_streams := flat_emplace i new_stream (wt_streams s) \<rparr> :: web_transport"
    have "i \<notin> fst ` set (wt_streams s)" using False by (auto simp: wt_find_def map_of_eq_None_iff)
    then have new: "window_of j (?new s) \<le> window_of j s + call_grants j (CallRegister i)"
      by (simp add: window_of_def wt_find_def map_of_emplace new_stream_def)
    have "quiet (wt_all [wt_when (wt_welcomed s) (wt_all [wt_pure (wt_update i (\<lambda>st. st\<lparr> st_opened := True \<rparr>)),
                                            send_frame FrameOpen i [], wt_emit (NotifyConnected i)])])"
      by (intro quiet_all quiet_when quiet_update quiet_send_frame quiet_emit) simp_all
    with new show ?thesis
      by (rule windowed_pure_next [OF run [unfolded register_stream_def if_not_P [OF False]]])
  qed
qed

lemma windowed_grant: "windowed (\<lambda>j. call_grants j (CallGrant i n)) (grant_window i n)"
proof (rule windowedI)
  fix s s' es j assume run: "grant_window i n s = Some (s', es)"
  show "delivered j es + window_of j s' \<le> window_of j s + call_grants j (CallGrant i n)"
  proof (cases "wt_find i s")
    case None
    then show ?thesis using run by (simp add: grant_window_def)
  next
    case (Some st)
    let ?r = "(st_receive_window st + n) mod 2 ^ 32"
    let ?w = "(st_pending_window st + n) mod 2 ^ 32"
    have r: "?r \<le> st_receive_window st + n" by simp
    have up: "window_of j (wt_update i (\<lambda>st. st\<lparr> st_receive_window := ?r, st_pending_window := w \<rparr>) s)
        \<le> window_of j s + call_grants j (CallGrant i n)" for w
      using Some r by (auto simp: window_of_def wt_find_update)
    consider "\<not> st_opened st \<or> n = 0" | "\<not> (\<not> st_opened st \<or> n = 0)" "n > (2 ^ 32 + initial_stream_window - st_receive_window st) mod 2 ^ 32"
      | "\<not> (\<not> st_opened st \<or> n = 0)" "\<not> n > (2 ^ 32 + initial_stream_window - st_receive_window st) mod 2 ^ 32" "?w \<ge> window_flush_bytes"
      | "\<not> (\<not> st_opened st \<or> n = 0)" "\<not> n > (2 ^ 32 + initial_stream_window - st_receive_window st) mod 2 ^ 32" "\<not> ?w \<ge> window_flush_bytes"
      by blast
    then show ?thesis
    proof cases
      case 1
      then show ?thesis using run Some by (auto simp: grant_window_def)
    next
      case 2
      have "protocol_error s = Some (s', es)"
        using run unfolding grant_window_def Some option.case if_not_P [OF 2(1)] if_P [OF 2(2)] .
      from windowedD [OF quiet_protocol_error this, of j] show ?thesis by simp
    next
      case 3
      have "quiet (wt_all [send_frame FrameWindow i (be32_bytes (of_nat ?w))])" by (intro quiet_all quiet_send_frame)
      with up show ?thesis
        by (rule windowed_pure_next [OF run [unfolded grant_window_def Some option.case if_not_P [OF 3(1)] if_not_P [OF 3(2)]
            Let_def if_P [OF 3(3)]]])
    next
      case 4
      have "quiet (\<lambda>s. if wt_window_scheduled s then Some (s, []) else Some (s\<lparr> wt_window_scheduled := True \<rparr>, [StartWindowTimer]))"
        by (rule quietI, rule quiet_res_rules(2), rule quiet_res_none, rule quiet_res_keep) simp_all
      then have "quiet (wt_all [\<lambda>s. if wt_window_scheduled s then Some (s, []) else Some (s\<lparr> wt_window_scheduled := True \<rparr>, [StartWindowTimer])])"
        by (rule quiet_all(2)) (rule quiet_all(1))
      with up show ?thesis
        by (rule windowed_pure_next [OF run [unfolded grant_window_def Some option.case if_not_P [OF 4(1)] if_not_P [OF 4(2)]
            Let_def if_not_P [OF 4(3)]]])
    qed
  qed
qed

lemma quiet_step:
  assumes "\<And>i. call_grants i c = 0"
  shows "quiet_res s (wt_step c s)"
proof (cases c)
  case (CallSocketWritten now n)
  have w: "window_of j (s\<lparr> wt_browser := b \<rparr>) = window_of j s" for j b by (rule window_same) simp
  have "quiet_res s (browser_bytes_written now (s\<lparr> wt_browser := b \<rparr>))" for b
    using quietD [OF quiet_carriers(1), of "s\<lparr> wt_browser := b \<rparr>" now] unfolding quiet_res_def w .
  then show ?thesis using CallSocketWritten by (auto simp: quiet_res_none split: option.split)
next
  case CallWindowTimer
  have w: "window_of j (s\<lparr> wt_window_scheduled := False \<rparr>) = window_of j s" for j by (rule window_same) simp
  have "quiet_res s (flush_windows (s\<lparr> wt_window_scheduled := False \<rparr>))"
    using quietD [OF quiet_flush_windows, of "s\<lparr> wt_window_scheduled := False \<rparr>"] unfolding quiet_res_def w .
  then show ?thesis using CallWindowTimer by (simp add: quiet_res_none)
next
  case CallTask
  have w: "window_of j (s\<lparr> wt_queue := q \<rparr>) = window_of j s" for j q by (rule window_same) simp
  have "quiet_res s (run_task t (s\<lparr> wt_queue := ts \<rparr>))" for t ts
    using quietD [OF quiet_run_task, of "s\<lparr> wt_queue := ts \<rparr>" t] unfolding quiet_res_def w .
  then show ?thesis using CallTask by (auto simp: quiet_res_none split: list.split)
next
  case (CallBrowserStatus st)
  have "quiet_res s (wt_all [lose_browser True, close_browser_socket 1000] s)"
    by (intro quiet_res_all quiet_all quiet_lose_browser quiet_close_socket)
  then have "quiet_res s (browser_control st s)"
    using quietD [OF quiet_carrier(1)] quietD [OF quiet_close_socket(1)]
    by (cases st) (simp_all only: browser_control_def browser_status.case)
  then show ?thesis using CallBrowserStatus by (simp add: quiet_res_none)
next
  case (CallFailed gen)
  then show ?thesis using quietD [OF quiet_failed, of s gen] by (simp del: wt_all.simps)
next
  case (CallRegister j)
  then show ?thesis using assms [of j] by (simp add: initial_stream_window_def)
next
  case (CallGrant j n)
  have "n = 0" using assms [of j] CallGrant by simp
  then show ?thesis using CallGrant by (auto simp: grant_window_def quiet_res_none split: option.split)
qed (simp_all add: quietD [OF quiet_sessions(1)] quietD [OF quiet_sessions(2)] quietD [OF quiet_sessions(3)]
      quietD [OF quiet_sessions(4)] quietD [OF quiet_sessions(5)] quietD [OF quiet_sessions(6)]
      quietD [OF quiet_close_stream] quietD [OF quiet_api(1)] quietD [OF quiet_api(2)] quietD [OF quiet_carriers(2)]
      quietD [OF quiet_carriers(3)] quietD [OF quiet_carriers(5)] quietD [OF quiet_relay_payload]
      quietD [OF quiet_protocol_error] quiet_res_none)

lemma windowed_step: "windowed (\<lambda>i. call_grants i c) (wt_step c)"
proof (cases c)
  case (CallRegister i)
  then show ?thesis using windowed_register [of i] by (simp add: windowed_def)
next
  case (CallGrant i n)
  then show ?thesis using windowed_grant [of i n] by (simp add: windowed_def)
qed (rule windowedI, drule quiet_step [unfolded quiet_res_def, rule_format, rotated], simp, simp)+

lemma windowed_run:
  "wt_run cs s = Some (s', es) \<Longrightarrow> delivered i es + window_of i s' \<le> window_of i s + sum_list (map (call_grants i) cs)"
proof (induction cs arbitrary: s es)
  case Nil
  then show ?case by simp
next
  case (Cons c cs)
  obtain s1 es1 es2 where 1: "wt_step c s = Some (s1, es1)" "wt_run cs s1 = Some (s', es2)" "es = es1 @ es2"
    using Cons.prems by (auto split: option.splits)
  show ?case using windowedD [OF windowed_step 1(1), of i] Cons.IH [OF 1(2)] 1(3) by simp
qed

end
