(* ===== verification/Web_Proxy_Order.thy ===== *)
theory Web_Proxy_Order
  imports Web_Proxy_Run
begin

text \<open>
  What the loop over the ready streams puts on the carrier: the data of every stream in their order,
  nothing twice and nothing lost, and as much as the carrier takes.
\<close>

section \<open>The carrier during the loop\<close>

definition lane_op :: "wt_op \<Rightarrow> bool" where
  "lane_op f \<longleftrightarrow> (\<forall>s s' es. f s = Some (s', es) \<longrightarrow> wt_generation s' = wt_generation s
     \<and> wt_write_failed s' = wt_write_failed s \<and> carrier_pending_bytes s \<le> carrier_pending_bytes s')"

lemma lane_opD:
  assumes "lane_op f" and "f s = Some (s', es)"
  shows "wt_generation s' = wt_generation s" "wt_write_failed s' = wt_write_failed s"
    "carrier_pending_bytes s \<le> carrier_pending_bytes s'"
  using assms unfolding lane_op_def by blast+

lemma lane_op_nil: "lane_op (wt_all [])"
  by (auto simp: lane_op_def)

lemma lane_op_Cons:
  assumes "lane_op f" and "lane_op (wt_all fs)"
  shows "lane_op (wt_all (f # fs))"
  unfolding lane_op_def
proof (intro allI impI)
  fix s s' es assume "wt_all (f # fs) s = Some (s', es)"
  then obtain s1 es1 es2 where 1: "f s = Some (s1, es1)" "wt_all fs s1 = Some (s', es2)"
    by (auto split: option.splits)
  show "wt_generation s' = wt_generation s \<and> wt_write_failed s' = wt_write_failed s \<and> carrier_pending_bytes s \<le> carrier_pending_bytes s'"
    using lane_opD [OF assms(1) 1(1)] lane_opD [OF assms(2) 1(2)] by simp
qed

lemma lane_op_pure:
  "(\<And>s. wt_generation (f s) = wt_generation s \<and> wt_write_failed (f s) = wt_write_failed s
     \<and> wt_webview_bytes (f s) = wt_webview_bytes s \<and> wt_browser (f s) = wt_browser s) \<Longrightarrow> lane_op (wt_pure f)"
  by (auto simp: lane_op_def wt_pure_def carrier_pending_bytes_def)

lemma lane_op_when: "lane_op f \<Longrightarrow> lane_op (wt_when b f)"
  by (auto simp: lane_op_def wt_when_def)

lemma lane_op_write: "lane_op (write_carrier_frame b)"
  by (auto simp: lane_op_def write_carrier_frame_def carrier_pending_bytes_def split: option.splits if_splits)

lemma lane_op_release: "lane_op (owner_release n k)"
  by (auto simp: lane_op_def owner_release_def carrier_pending_bytes_def split: if_splits)

lemma lane_op_progress: "lane_op ensure_write_progress"
  by (auto simp: lane_op_def ensure_write_progress_def carrier_pending_bytes_def split: if_splits)

lemmas lane_ops = lane_op_nil lane_op_Cons lane_op_when lane_op_write lane_op_release lane_op_progress lane_op_pure

lemma lane_op_flush_stream: "lane_op (flush_stream i)"
proof -
  have turn: "lane_op (wt_all [write_carrier_frame b, wt_pure (wt_update i f), owner_release n k,
      wt_when c (wt_pure (wt_update i g)), ensure_write_progress])" for b f g n k c
    by (intro lane_ops) (simp_all add: wt_update_def)
  show ?thesis
    unfolding lane_op_def
  proof (intro allI impI)
    fix s s' es assume run: "flush_stream i s = Some (s', es)"
    show "wt_generation s' = wt_generation s \<and> wt_write_failed s' = wt_write_failed s \<and> carrier_pending_bytes s \<le> carrier_pending_bytes s'"
    proof (cases "wt_find i s")
      case None
      then show ?thesis using run by (simp add: flush_stream_def)
    next
      case (Some st)
      show ?thesis
      proof (cases "turn_sends st s")
        case False
        then show ?thesis using run flush_stream_idle [OF Some] by simp
      next
        case True
        then obtain data k rest where p: "st_pending st = (data, k) # rest"
          by (cases "st_pending st") (auto simp: turn_sends_def can_send_def)
        have "serialize_frame FrameData i (bytes_at k (turn_size st s) data) \<noteq> None"
        proof
          assume none: "serialize_frame FrameData i (bytes_at k (turn_size st s) data) = None"
          have one: "\<not> (\<not> st_opened st \<or> \<not> carrier_available s)"
            and two: "\<not> (st_send_window st = 0 \<or> st_pending st = [] \<or> wt_write_failed s)"
            and three: "\<not> (max_socket_pending_bytes - socket_control_reserve - carrier_pending_bytes s \<le> int frame_header_size + 10
              \<or> \<not> carrier_accepts (frame_header_size + 1) False s)"
            using True by (auto simp: turn_sends_def can_send_def turn_room_def)
          show False
            using run none unfolding flush_stream_def Some option.case if_not_P [OF one] if_not_P [OF two] Let_def if_not_P [OF three]
            unfolding p list.sel prod.case by (simp add: turn_size_def p turn_room_def)
        qed
        then obtain b where "serialize_frame FrameData i (bytes_at k (turn_size st s) data) = Some b" by blast
        note r = run [unfolded flush_stream_sends [OF Some True p this]]
        show ?thesis using lane_opD [OF turn r] by simp
      qed
    qed
  qed
qed

section \<open>The data of the loop\<close>

text \<open>\<open>l\<close> lists the data frames by their stream, in the order they were written.\<close>

definition sent_to :: "stream_id \<Rightarrow> (stream_id \<times> bytes) list \<Rightarrow> bytes" where
  "sent_to j l = concat (map (\<lambda>(i, d). if i = j then d else []) l)"

definition unsent_of :: "stream_id \<Rightarrow> web_transport \<Rightarrow> bytes" where
  "unsent_of j s = (case wt_find j s of None \<Rightarrow> [] | Some st \<Rightarrow> unsent st)"

definition window_left :: "stream_id \<Rightarrow> web_transport \<Rightarrow> nat" where
  "window_left j s = (case wt_find j s of None \<Rightarrow> 0 | Some st \<Rightarrow> st_send_window st)"

fun is_frame :: "wt_event \<Rightarrow> bool" where
  "is_frame (CarrierWebview gen b) \<longleftrightarrow> True"
| "is_frame (CarrierSocket b) \<longleftrightarrow> True"
| "is_frame _ \<longleftrightarrow> False"

definition data_event :: "web_transport \<Rightarrow> stream_id \<times> bytes \<Rightarrow> wt_event" where
  "data_event s = (\<lambda>(i, d). carrier_event (the (serialize_frame FrameData i d)) s)"

definition sends :: "web_transport \<Rightarrow> web_transport \<Rightarrow> wt_event list \<Rightarrow> (stream_id \<times> bytes) list \<Rightarrow> bool" where
  "sends s s' es l \<longleftrightarrow> filter is_frame es = map (data_event s) l
     \<and> (\<forall>j. sent_to j l @ unsent_of j s' = unsent_of j s)
     \<and> (\<forall>j. length (sent_to j l) + window_left j s' = window_left j s)
     \<and> (\<forall>(i, d) \<in> set l. d \<noteq> [] \<and> length d \<le> data_frame_size)"

lemma sent_to_simps [simp]: "sent_to j [] = []" "sent_to j ((i, d) # l) = (if i = j then d else []) @ sent_to j l"
  "sent_to j (l @ l') = sent_to j l @ sent_to j l'"
  by (simp_all add: sent_to_def)

lemma sends_nil: "wt_streams s' = wt_streams s \<Longrightarrow> sends s s' [] []"
  by (simp add: sends_def unsent_of_def window_left_def wt_find_def)

lemma sends_append:
  assumes "sends s s1 es1 l1" and "sends s1 s2 es2 l2" and "wt_generation s1 = wt_generation s"
  shows "sends s s2 (es1 @ es2) (l1 @ l2)"
proof -
  have ev: "data_event s1 = data_event s" using assms(3) by (simp add: data_event_def carrier_event_def fun_eq_iff)
  have "sent_to j (l1 @ l2) @ unsent_of j s2 = unsent_of j s" for j
    using assms(1,2) unfolding sends_def sent_to_simps append_assoc by metis
  moreover have "length (sent_to j (l1 @ l2)) + window_left j s2 = window_left j s" for j
    using assms(1,2) unfolding sends_def sent_to_simps length_append by (metis add.assoc)
  ultimately show ?thesis using assms(1,2) ev by (auto simp: sends_def)
qed

lemma sends_same:
  assumes "sends s s1 es l" and "wt_streams t = wt_streams s" "wt_streams t1 = wt_streams s1" "wt_generation t = wt_generation s"
  shows "sends t t1 es l"
proof -
  have "unsent_of j t = unsent_of j s" "unsent_of j t1 = unsent_of j s1" "window_left j t = window_left j s"
    "window_left j t1 = window_left j s1" for j
    using assms(2,3) by (simp_all add: unsent_of_def window_left_def wt_find_def)
  moreover have "data_event t = data_event s" using assms(4) by (simp add: data_event_def carrier_event_def fun_eq_iff)
  ultimately show ?thesis using assms(1) by (simp add: sends_def)
qed

text \<open>One turn.\<close>

lemma flush_stream_sends_next:
  assumes acct: "acct_ok L s" and ctl: "control_ok s" and find: "wt_find i s = Some st" and turn: "turn_sends st s"
    and run: "flush_stream i s = Some (s', es)"
  shows "\<exists>d. sends s s' es [(i, d)]"
proof -
  obtain data k rest where p: "st_pending st = (data, k) # rest"
    using turn by (cases "st_pending st") (auto simp: turn_sends_def can_send_def)
  let ?n = "turn_size st s"
  let ?d = "bytes_at k ?n data"
  obtain b t es2 where t: "flush_stream i s = Some (t, carrier_event b s # es2)"
    "serialize_frame FrameData i ?d = Some b"
    "es2 = [] \<or> es2 = [StartProgressTimer (wt_generation s)]"
    "wt_core t = wt_core ((wt_update i (after_turn ?n) s)\<lparr> wt_owner_bytes := wt_owner_bytes s - int ?n,
       wt_owner_items := wt_owner_items s - (if k + ?n = length data then 1 else 0) \<rparr>)"
    by (rule flush_stream_turn [OF acct ctl find turn p], rule that, assumption+)
  have st: "stream_ok st" using acct_okD(2) [OF acct find] by simp
  have n: "?n \<le> length data - k" "?n \<le> st_send_window st" "?n \<le> data_frame_size" by (simp_all add: turn_size_def p)
  have k: "k < length data" using st p by (simp add: stream_ok_def)
  have len: "length ?d = ?n" using n k by (intro length_bytes_at) simp
  have find': "wt_find j t = (if j = i then Some (after_turn ?n st) else wt_find j s)" for j
  proof -
    have "wt_streams t = wt_streams (wt_update i (after_turn ?n) s)" using t(4) by (simp add: wt_core_def)
    then have "wt_find j t = wt_find j (wt_update i (after_turn ?n) s)" by (simp add: wt_find_def)
    then show ?thesis using find by (simp add: wt_find_update)
  qed
  have eq: "s' = t" "es = carrier_event b s # es2" using run t(1) by simp_all
  have "filter is_frame es = [carrier_event b s]" using t(3) by (auto simp: eq(2) carrier_event_def)
  moreover have "data_event s (i, ?d) = carrier_event b s" by (simp add: data_event_def t(2))
  moreover have "sent_to j [(i, ?d)] @ unsent_of j s' = unsent_of j s" for j
    using after_turn_unsent [OF st p n(1)] find by (cases "i = j") (simp_all add: unsent_of_def find' eq(1))
  moreover have "length (sent_to j [(i, ?d)]) + window_left j s' = window_left j s" for j
    using n(2) find len by (cases "i = j") (simp_all add: window_left_def find' eq(1) after_turn_def)
  moreover have "?d \<noteq> []" using turn_size_pos [OF st turn] len by auto
  ultimately show ?thesis using n(3) len by (intro exI [of _ ?d]) (simp add: sends_def)
qed

text \<open>The carrier takes no more data.\<close>

definition carrier_full :: "web_transport \<Rightarrow> bool" where
  "carrier_full s \<longleftrightarrow> turn_room s = 0 \<or> \<not> carrier_accepts (frame_header_size + 1) False s"

lemma turn_room_mono: "carrier_pending_bytes s \<le> carrier_pending_bytes s' \<Longrightarrow> turn_room s' \<le> turn_room s"
  by (simp add: turn_room_def)

definition loop_result :: "nat \<Rightarrow> web_transport \<Rightarrow> web_transport \<Rightarrow> wt_event list \<Rightarrow> bool" where
  "loop_result n s s' es \<longleftrightarrow> (\<exists>l. sends s s' es l \<and> length l \<le> n
     \<and> (\<not> wt_write_failed s \<longrightarrow> length l = n \<or> carrier_full s' \<or> (\<forall>(i, st) \<in> set (wt_streams s'). \<not> can_send st)))
     \<and> wt_generation s' = wt_generation s \<and> wt_write_failed s' = wt_write_failed s
     \<and> carrier_pending_bytes s \<le> carrier_pending_bytes s'"

lemma loop_result_stop:
  assumes "n = 0 \<or> carrier_full s \<or> (\<forall>(i, st) \<in> set (wt_streams s). \<not> can_send st)"
  shows "loop_result n s s []"
  unfolding loop_result_def by (intro conjI exI [of _ "[]"]) (use assms in \<open>simp_all add: sends_nil\<close>)

lemma loop_result_turn:
  assumes turn: "sends s s1 es1 l1" "length l1 \<le> 1" "\<not> wt_write_failed s \<Longrightarrow> length l1 = 1 \<or> turn_room s = 0"
    and lane: "wt_generation s1 = wt_generation s" "wt_write_failed s1 = wt_write_failed s"
      "carrier_pending_bytes s \<le> carrier_pending_bytes s1"
    and rest: "loop_result (n - 1) s1 s2 es2" and n: "n \<noteq> 0"
  shows "loop_result n s s2 (es1 @ es2)"
proof -
  obtain l2 where l2: "sends s1 s2 es2 l2" "length l2 \<le> n - 1"
    "\<not> wt_write_failed s1 \<Longrightarrow> length l2 = n - 1 \<or> carrier_full s2 \<or> (\<forall>(i, st) \<in> set (wt_streams s2). \<not> can_send st)"
    and lane2: "wt_generation s2 = wt_generation s1" "wt_write_failed s2 = wt_write_failed s1"
      "carrier_pending_bytes s1 \<le> carrier_pending_bytes s2"
    using rest unfolding loop_result_def by blast
  have "carrier_full s2" if "turn_room s = 0"
    using turn_room_mono [OF lane(3)] turn_room_mono [OF lane2(3)] that by (simp add: carrier_full_def)
  then have fin: "length (l1 @ l2) = n \<or> carrier_full s2 \<or> (\<forall>(i, st) \<in> set (wt_streams s2). \<not> can_send st)"
    if "\<not> wt_write_failed s"
    using turn(3) [OF that] l2(3) that lane(2) n by auto
  have "length (l1 @ l2) \<le> n" using turn(2) l2(2) n by simp
  then show ?thesis
    unfolding loop_result_def
    by (intro conjI exI [of _ "l1 @ l2"] impI) (use sends_append [OF turn(1) l2(1) lane(1)] fin lane lane2 in simp_all)
qed

lemma loop_result_same:
  assumes "loop_result n t s' es" and "wt_streams t = wt_streams s" "wt_generation t = wt_generation s"
    "wt_write_failed t = wt_write_failed s" "carrier_pending_bytes t = carrier_pending_bytes s"
  shows "loop_result n s s' es"
  using assms sends_same [of t s' es _ s s'] unfolding loop_result_def by auto

lemma flush_loop_result:
  "wt_inv L s \<Longrightarrow> flush_streams_loop n s = Some (s', es) \<Longrightarrow> loop_result n s s' es"
proof (induction n s arbitrary: s' es rule: flush_streams_loop.induct)
  case (1 n s)
  note inv = 1(3) and run = 1(4)
  note parts = wt_inv_parts [OF inv]
  show ?case
  proof (cases "wt_ready s")
    case Nil
    then have "s' = s" "es = []" using run by (simp_all add: flush_streams_loop.simps)
    moreover have "\<forall>(i, st) \<in> set (wt_streams s). \<not> can_send st" using parts(2) Nil by (auto simp: ready_ok_def)
    ultimately show ?thesis using loop_result_stop by blast
  next
    case (Cons i rest)
    show ?thesis
    proof (cases "n = 0 \<or> \<not> carrier_accepts (frame_header_size + 1) False s")
      case True
      then have "s' = s" "es = []"
        using run unfolding flush_streams_loop.simps [of n s] Cons list.case if_P [OF True] by simp_all
      then show ?thesis using True loop_result_stop [of n s] by (auto simp: carrier_full_def)
    next
      case go: False
      show ?thesis
      proof (cases "i \<notin> wt_ready_set s")
        case True
        let ?s = "s\<lparr> wt_ready := rest \<rparr>"
        have inv': "wt_inv L ?s"
        proof -
          have "flow_ok L ?s" using inv by (simp add: wt_inv_flow flow_ok_def acct_ok_def session_ok_def control_ok_def
              closed_ok_def queue_bytes_def queue_items_def carrier_available_def)
          moreover have "ready_ok ?s" using parts(2) Cons True by (auto simp: ready_ok_def)
          ultimately show ?thesis by (simp add: wt_inv_flow)
        qed
        have "flush_streams_loop n ?s = Some (s', es)"
          using run unfolding flush_streams_loop.simps [of n s] Cons list.case if_not_P [OF go] if_P [OF True] .
        from 1(1) [OF Cons go True inv' this] show ?thesis
          by (rule loop_result_same) (simp_all add: carrier_pending_bytes_def)
      next
        case isin: False
        let ?s = "s\<lparr> wt_ready := rest, wt_ready_set := wt_ready_set s - {i} \<rparr>"
        have flow: "flow_ok L ?s" using inv by (simp add: wt_inv_flow flow_ok_def acct_ok_def session_ok_def control_ok_def
            closed_ok_def queue_bytes_def queue_items_def carrier_available_def)
        have ready: "ready_but i ?s" using parts(2) Cons by (auto simp: ready_ok_def ready_but_def)
        obtain s1 es1 where 2: "flush_stream i ?s = Some (s1, es1)" "flow_ok L s1" "ready_but i s1"
          using flush_stream_flow [OF flow ready] by auto
        obtain es2 where 3: "flush_streams_loop (n - 1) (mark_ready i s1) = Some (s', es2)" "es = es1 @ es2"
          using run 2(1) unfolding flush_streams_loop.simps [of n s] Cons list.case if_not_P [OF go] if_not_P [OF isin] by auto
        have inv1: "wt_inv L (mark_ready i s1)" by (rule inv_mark_ready [OF 2(2,3)])
        note rest = 1(2) [OF Cons go isin 2(1) refl inv1 3(1)]
        obtain st where st: "(i, st) \<in> set (wt_streams s)" and can: "can_send st"
          using parts(2) isin by (auto simp: ready_ok_def)
        have find: "wt_find i s = Some st" using wt_find_set [OF parts(5)] st by simp
        have opened: "wt_welcomed s"
          using parts(3) st can unfolding session_ok_def can_send_def by blast
        have find': "wt_find i ?s = Some st" using find by (simp add: wt_find_def)
        have sends_iff: "turn_sends st ?s \<longleftrightarrow> \<not> wt_write_failed s \<and> turn_room s > 0"
          using can go opened parts(3)
          by (auto simp: turn_sends_def session_ok_def carrier_available_def turn_room_def carrier_pending_bytes_def
              carrier_accepts_def carrier_frame_size_def carrier_pending_items_def)
        have turn: "\<exists>l. sends ?s s1 es1 l \<and> length l \<le> 1 \<and> (\<not> wt_write_failed s \<longrightarrow> length l = 1 \<or> turn_room s = 0)"
        proof (cases "turn_sends st ?s")
          case True
          from flush_stream_sends_next [OF _ _ find' True 2(1)] flow obtain d where "sends ?s s1 es1 [(i, d)]"
            by (auto simp: flow_ok_def)
          then show ?thesis by (intro exI [of _ "[(i, d)]"]) simp
        next
          case False
          then have "s1 = ?s" "es1 = []" using flush_stream_idle [OF find'] 2(1) by simp_all
          then show ?thesis using False sends_iff by (intro exI [of _ "[]"]) (auto simp: sends_nil)
        qed
        have lane: "wt_generation s1 = wt_generation s" "wt_write_failed s1 = wt_write_failed s"
          "carrier_pending_bytes s \<le> carrier_pending_bytes s1"
          using lane_opD [OF lane_op_flush_stream 2(1)]
          by (cases "wt_generation s = 0"; simp add: carrier_pending_bytes_def)+
        have mark: "wt_generation (mark_ready i s1) = wt_generation s1" "wt_write_failed (mark_ready i s1) = wt_write_failed s1"
          "carrier_pending_bytes (mark_ready i s1) = carrier_pending_bytes s1"
          by (simp_all add: mark_ready_def carrier_pending_bytes_def split: option.split)
        from turn obtain l where l: "sends ?s s1 es1 l" "length l \<le> 1" "\<not> wt_write_failed s \<Longrightarrow> length l = 1 \<or> turn_room s = 0"
          by blast
        have "sends s (mark_ready i s1) es1 l" by (rule sends_same [OF l(1)]) simp_all
        from loop_result_turn [OF this l(2,3) _ _ _ rest] show ?thesis
          using lane mark go by (simp add: 3(2))
      qed
    qed
  qed
qed

end
