(* ===== verification/Web_Proxy_Properties.thy ===== *)
theory Web_Proxy_Properties
  imports Web_Proxy_Windows Web_Proxy_Order
begin

text \<open>
  The properties of the web proxy transport: every run returns and keeps the invariant, what is held
  is bounded, the receive windows are respected, and the loop over the ready streams sends the data in
  order and as far as the carrier allows.
\<close>

lemma length_unsent: "stream_ok st \<Longrightarrow> int (length (unsent st)) = st_pending_bytes st"
proof -
  have "int (length (concat (map (\<lambda>(data, k). drop k data) p))) = pending_sum p" if "\<forall>(d, k) \<in> set p. k < length d"
    for p :: "(bytes \<times> nat) list"
    using that by (induction p) (auto simp: pending_sum_def of_nat_diff)
  then show "stream_ok st \<Longrightarrow> ?thesis" by (simp add: unsent_def stream_ok_def)
qed

lemma sum_unsent: "\<forall>(i, st) \<in> set ss. stream_ok st \<Longrightarrow>
    int (sum_list (map (\<lambda>(i, st). length (unsent st)) ss)) = streams_bytes ss"
  by (induction ss) (auto simp: length_unsent)

lemma wt_run_initial:
  assumes "\<forall>c \<in> set cs. call_ok c"
  obtains s es where "wt_run cs wt_initial = Some (s, es)" "wt_inv [] s"
  by (rule goodE [OF wt_run_good [OF wt_inv_initial assms]])

text \<open>C2. No assertion of the transport ever fails: whatever carriers, streams, relay frames and timers do,
  in any order, every call returns, and afterwards the counters of pending data are exactly what the
  streams and the queued calls hold and within their limits, every open stream with data and window is
  queued as ready, streams are open exactly while the session is welcomed, and the queue of control
  frames and the list of closed streams are in order.\<close>

theorem web_transport_safe:
  assumes "\<forall>c \<in> set cs. call_ok c"
  shows "\<exists>s es. wt_run cs wt_initial = Some (s, es) \<and> wt_inv [] s"
  by (rule wt_run_initial [OF assms]) blast

theorem web_transport_safe_witness:
  "\<exists>s es. wt_run [CallConfigure ''p'', CallStarting 7, CallReady 0 7, CallRegister 1, CallSend 1 [1, 2, 3], CallTask,
      CallFailed 7] wt_initial = Some (s, es) \<and> wt_inv [] s"
  by (rule web_transport_safe) (simp add: id_ok_def)

text \<open>C18. What the transport holds for its streams is bounded after every run: 64 MiB together, 8 MiB and 1024
  chunks for a stream, 64 KiB of control frames that wait, 4096 remembered ids of closed streams.\<close>

theorem web_transport_bounded:
  assumes "\<forall>c \<in> set cs. call_ok c"
  shows "\<exists>s es. wt_run cs wt_initial = Some (s, es)
     \<and> sum_list (map (\<lambda>(i, st). length (unsent st)) (wt_streams s)) \<le> 64 * 1024 * 1024
     \<and> (\<forall>(i, st) \<in> set (wt_streams s). length (unsent st) \<le> 8 * 1024 * 1024 \<and> length (st_pending st) \<le> 1024)
     \<and> length (concat (wt_control s)) \<le> 64 * 1024 \<and> card (wt_closed s) \<le> 4096"
proof -
  obtain s es where run: "wt_run cs wt_initial = Some (s, es)" and inv: "wt_inv [] s" by (rule wt_run_initial [OF assms])
  note parts = wt_inv_parts [OF inv]
  have each: "\<forall>(i, st) \<in> set (wt_streams s). stream_ok st" using parts(1) by (auto simp: acct_ok_def)
  have "streams_bytes (wt_streams s) \<le> wt_owner_bytes s" "wt_owner_bytes s \<le> 64 * 1024 * 1024"
    using parts(1) acct_okD(3) [OF parts(1)] by (simp_all add: acct_ok_def max_pending_transport_bytes_def)
  then have "sum_list (map (\<lambda>(i, st). length (unsent st)) (wt_streams s)) \<le> 64 * 1024 * 1024"
    using sum_unsent [OF each] by linarith
  moreover have "length (unsent st) \<le> 8 * 1024 * 1024 \<and> length (st_pending st) \<le> 1024" if "(i, st) \<in> set (wt_streams s)" for i st
  proof -
    have ok: "stream_ok st" using each that by auto
    then have "st_pending_bytes st \<le> 8 * 1024 * 1024" "length (st_pending st) \<le> 1024"
      by (simp_all add: stream_ok_def max_pending_stream_bytes_def max_pending_stream_items_def)
    then show ?thesis using length_unsent [OF ok] by linarith
  qed
  moreover have "length (concat (wt_control s)) \<le> 64 * 1024"
    using parts(4) by (simp add: control_ok_def max_pending_control_bytes_def)
  moreover have "card (wt_closed s) \<le> 4096"
    using parts(1) card_length [of "wt_closed_order s"] by (simp add: acct_ok_def closed_ok_def max_closed_stream_ids_def)
  ultimately show ?thesis using run by blast
qed

theorem web_transport_bounded_witness:
  "\<exists>s es. wt_run [CallConfigure ''p'', CallRegister 1, CallSend 1 [1, 2, 3], CallTask] wt_initial = Some (s, es)
     \<and> sum_list (map (\<lambda>(i, st). length (unsent st)) (wt_streams s)) \<le> 64 * 1024 * 1024
     \<and> (\<forall>(i, st) \<in> set (wt_streams s). length (unsent st) \<le> 8 * 1024 * 1024 \<and> length (st_pending st) \<le> 1024)
     \<and> length (concat (wt_control s)) \<le> 64 * 1024 \<and> card (wt_closed s) \<le> 4096"
  by (rule web_transport_bounded) (simp add: id_ok_def)

text \<open>C15. The relay cannot push more data to a stream than the stream allowed: over a whole run, the bytes
  delivered to a stream are at most its initial window of 4 MiB for every registration plus what the
  stream granted; more data than the window are a protocol error.\<close>

theorem web_transport_windows:
  assumes "\<forall>c \<in> set cs. call_ok c"
  shows "\<exists>s es. wt_run cs wt_initial = Some (s, es) \<and> (\<forall>i. delivered i es \<le> sum_list (map (call_grants i) cs))"
proof -
  obtain s es where run: "wt_run cs wt_initial = Some (s, es)" by (rule wt_run_initial [OF assms])
  have "window_of i wt_initial = 0" for i by (simp add: window_of_def wt_find_def wt_initial_def)
  then have "delivered i es \<le> sum_list (map (call_grants i) cs)" for i
    using windowed_run [OF run, of i] by simp
  then show ?thesis using run by blast
qed

theorem web_transport_windows_witness:
  "\<exists>s es. wt_run [CallConfigure ''p'', CallStarting 7, CallReady 0 7, CallRegister 1, CallPayload 7 [2, 0, 0, 1, 0, 0, 0, 1, 9],
      CallTask, CallGrant 1 1] wt_initial = Some (s, es)
     \<and> (\<forall>i. delivered i es \<le> sum_list (map (call_grants i)
         [CallConfigure ''p'', CallStarting 7, CallReady 0 7, CallRegister 1, CallPayload 7 [2, 0, 0, 1, 0, 0, 0, 1, 9], CallTask, CallGrant 1 1]))"
  by (rule web_transport_windows) (simp add: id_ok_def)

definition one_stream :: web_transport where
  "one_stream = wt_initial\<lparr>
     wt_streams := [(1, new_stream\<lparr> st_pending := [([1, 2, 3], 1)], st_pending_bytes := 2, st_opened := True \<rparr>)],
     wt_ready := [1], wt_ready_set := {1}, wt_generation := 7, wt_welcomed := True, wt_owner_bytes := 2, wt_owner_items := 1 \<rparr>"

lemma one_stream_inv: "wt_inv [] one_stream"
  by (simp add: wt_inv_def acct_ok_def ready_ok_def session_ok_def control_ok_def closed_ok_def one_stream_def wt_initial_def
      streams_bytes_def streams_items_def queue_bytes_def queue_items_def queue_loads_def new_stream_def stream_ok_def
      pending_sum_def id_ok_def can_send_def carrier_available_def
      max_pending_transport_bytes_def max_pending_transport_items_def max_pending_control_bytes_def max_pending_control_frames_def
      max_closed_stream_ids_def max_pending_stream_bytes_def max_pending_stream_items_def initial_stream_window_def
      window_flush_bytes_def)

text \<open>C9. The loop over the ready streams loses, repeats and reorders nothing: the frames it writes are data frames,
  at most as many as it may write and of at most 64 KiB, and for every stream the data written followed by
  the data still pending are the data that were pending before; its send window pays for every byte.\<close>

theorem web_flush_in_order:
  assumes "wt_inv [] s"
  shows "\<exists>s' es l. flush_streams_loop n s = Some (s', es) \<and> wt_inv [] s' \<and> length l \<le> n
     \<and> filter is_frame es = map (data_event s) l
     \<and> (\<forall>(i, d) \<in> set l. d \<noteq> [] \<and> length d \<le> 64 * 1024)
     \<and> (\<forall>i. sent_to i l @ unsent_of i s' = unsent_of i s)
     \<and> (\<forall>i. length (sent_to i l) + window_left i s' = window_left i s)"
proof -
  obtain s' es where run: "flush_streams_loop n s = Some (s', es)" "wt_inv [] s'"
    using flush_streams_loop_inv [OF assms] by blast
  then obtain l where "sends s s' es l" "length l \<le> n"
    using flush_loop_result [OF assms run(1)] unfolding loop_result_def by blast
  then show ?thesis using run by (intro exI [of _ s'] exI [of _ es] exI [of _ l]) (simp add: sends_def data_frame_size_def)
qed

theorem web_flush_in_order_witness:
  "\<exists>s' es l. flush_streams_loop 5 one_stream = Some (s', es) \<and> wt_inv [] s' \<and> length l \<le> 5
     \<and> filter is_frame es = map (data_event one_stream) l
     \<and> (\<forall>(i, d) \<in> set l. d \<noteq> [] \<and> length d \<le> 64 * 1024)
     \<and> (\<forall>i. sent_to i l @ unsent_of i s' = unsent_of i one_stream)
     \<and> (\<forall>i. length (sent_to i l) + window_left i s' = window_left i one_stream)"
  by (rule web_flush_in_order [OF one_stream_inv])

text \<open>C19. The loop does not stop early: if no write has failed, it ends with its full number of frames written,
  with a carrier that takes no more, or with no stream left that could send.\<close>

theorem web_flush_progress:
  assumes "wt_inv [] s" and "\<not> wt_write_failed s"
  shows "\<exists>s' es. flush_streams_loop n s = Some (s', es)
     \<and> (length (filter is_frame es) = n \<or> carrier_full s' \<or> (\<forall>(i, st) \<in> set (wt_streams s'). \<not> can_send st))"
proof -
  obtain s' es where run: "flush_streams_loop n s = Some (s', es)"
    using flush_streams_loop_inv [OF assms(1)] by blast
  obtain l where l: "sends s s' es l" "length l = n \<or> carrier_full s' \<or> (\<forall>(i, st) \<in> set (wt_streams s'). \<not> can_send st)"
    using flush_loop_result [OF assms(1) run] assms(2) unfolding loop_result_def by blast
  have "length (filter is_frame es) = length l" using l(1) by (simp add: sends_def)
  then show ?thesis using run l(2) by auto
qed

theorem web_flush_progress_witness:
  "\<exists>s' es. flush_streams_loop 5 one_stream = Some (s', es)
     \<and> (length (filter is_frame es) = 5 \<or> carrier_full s' \<or> (\<forall>(i, st) \<in> set (wt_streams s'). \<not> can_send st))"
  by (rule web_flush_progress [OF one_stream_inv]) (simp add: one_stream_def wt_initial_def)

end
