(* ===== verification/Web_Proxy_Socket.thy ===== *)
theory Web_Proxy_Socket
  imports Web_Proxy_Transport
begin

text \<open>
  \<open>WebProxySocket\<close> (\<open>mtproto/details/mtproto_web_proxy_socket.cpp\<close>): a stream of the web proxy transport as
  a socket of the connection.  What arrives is kept in a buffer with a read offset that is compacted
  now and then, and every byte that is read is granted back to the relay.  Calls of the transport and
  signals are effects; \<open>None\<close> is a failed \<open>Expects\<close>.
\<close>

section \<open>Sources of bytes\<close>

text \<open>What the connection relies on: a read takes the next bytes, as many as there are and fit.\<close>

locale byte_source =
  fixes unread :: "'s \<Rightarrow> bytes"
    and read_bytes :: "nat \<Rightarrow> 's \<Rightarrow> bytes \<times> 's"
  assumes read_front: "read_bytes n s = (d, s') \<Longrightarrow> d @ unread s' = unread s"
    and read_size: "read_bytes n s = (d, s') \<Longrightarrow> length d = min n (length (unread s))"
begin

primrec read_all :: "nat list \<Rightarrow> 's \<Rightarrow> bytes \<times> 's" where
  "read_all [] s = ([], s)"
| "read_all (n # ns) s =
     (let (d, s1) = read_bytes n s; (ds, s2) = read_all ns s1 in (d @ ds, s2))"

lemma read_all_front: "read_all ns s = (d, s') \<Longrightarrow> d @ unread s' = unread s"
proof (induction ns arbitrary: s d s')
  case Nil
  then show ?case by simp
next
  case (Cons n ns)
  obtain d1 s1 where 1: "read_bytes n s = (d1, s1)" by (cases "read_bytes n s")
  obtain d2 s2 where 2: "read_all ns s1 = (d2, s2)" by (cases "read_all ns s1")
  have "d1 @ unread s1 = unread s" "d2 @ unread s2 = unread s1"
    using read_front [OF 1] Cons.IH [OF 2] by blast+
  then show ?case using Cons.prems 1 2 by auto
qed

lemma read_all_size: "read_all ns s = (d, s') \<Longrightarrow> length d = min (sum_list ns) (length (unread s))"
proof (induction ns arbitrary: s d s')
  case Nil
  then show ?case by simp
next
  case (Cons n ns)
  obtain d1 s1 where 1: "read_bytes n s = (d1, s1)" by (cases "read_bytes n s")
  obtain d2 s2 where 2: "read_all ns s1 = (d2, s2)" by (cases "read_all ns s1")
  have "length d1 = min n (length (unread s))" "length (unread s) = length d1 + length (unread s1)"
    using read_size [OF 1] arg_cong [OF read_front [OF 1], of length] by simp_all
  moreover have "length d2 = min (sum_list ns) (length (unread s1))" by (rule Cons.IH [OF 2])
  ultimately show ?case using Cons.prems 1 2 by auto
qed

end

section \<open>The socket\<close>

datatype wps_state = WpsNotConnected | WpsConnecting | WpsConnected | WpsDisconnected | WpsError

record wp_socket =
  wps_id :: stream_id
  wps_transport :: bool
  wps_incoming :: bytes
  wps_offset :: nat
  wps_status :: wps_state

datatype wps_effect =
    WpsRegister stream_id
  | WpsClose stream_id
  | WpsSend stream_id bytes
  | WpsGrant stream_id nat
  | FireConnected | FireReadyRead | FireDisconnected | FireError

definition new_socket :: "stream_id \<Rightarrow> bool \<Rightarrow> wp_socket" where
  "new_socket i transport = \<lparr> wps_id = i, wps_transport = transport, wps_incoming = [], wps_offset = 0,
     wps_status = WpsNotConnected \<rparr>"

definition socket_deleted :: "wp_socket \<Rightarrow> wps_effect list" where
  "socket_deleted s = (if wps_transport s then [WpsClose (wps_id s)] else [])"

definition socket_failed :: "wp_socket \<Rightarrow> wp_socket \<times> wps_effect list" where
  "socket_failed s =
     (if wps_status s = WpsDisconnected \<or> wps_status s = WpsError then (s, [])
      else (s\<lparr> wps_status := WpsError \<rparr>, [FireError]))"

definition connect_to_host :: "wp_socket \<Rightarrow> (wp_socket \<times> wps_effect list) option" where
  "connect_to_host s =
     (if wps_status s \<noteq> WpsNotConnected then None
      else
        (let s1 = s\<lparr> wps_status := WpsConnecting \<rparr>
         in Some (if wps_transport s then (s1, [WpsRegister (wps_id s)]) else socket_failed s1)))"

definition socket_connected :: "wp_socket \<Rightarrow> wp_socket \<times> wps_effect list" where
  "socket_connected s =
     (if wps_status s \<noteq> WpsConnecting then (s, []) else (s\<lparr> wps_status := WpsConnected \<rparr>, [FireConnected]))"

definition socket_data :: "bytes \<Rightarrow> wp_socket \<Rightarrow> wp_socket \<times> wps_effect list" where
  "socket_data data s =
     (if wps_status s \<noteq> WpsConnected \<or> data = [] then (s, [])
      else (s\<lparr> wps_incoming := wps_incoming s @ data \<rparr>, [FireReadyRead]))"

definition socket_disconnected :: "wp_socket \<Rightarrow> wp_socket \<times> wps_effect list" where
  "socket_disconnected s =
     (if wps_status s = WpsDisconnected \<or> wps_status s = WpsError then (s, [])
      else (s\<lparr> wps_status := WpsDisconnected \<rparr>, [FireDisconnected]))"

definition has_bytes_available :: "wp_socket \<Rightarrow> bool" where
  "has_bytes_available s \<longleftrightarrow> wps_offset s < length (wps_incoming s)"

text \<open>The read offset moves; the buffer is dropped when it is read, and shortened when much of it is read.\<close>

definition compact_incoming :: "nat \<Rightarrow> wp_socket \<Rightarrow> wp_socket" where
  "compact_incoming offset s =
     (if offset = length (wps_incoming s) then s\<lparr> wps_incoming := [], wps_offset := 0 \<rparr>
      else if offset \<ge> 64 * 1024 \<and> offset \<ge> length (wps_incoming s) div 2
      then s\<lparr> wps_incoming := drop offset (wps_incoming s), wps_offset := 0 \<rparr>
      else s\<lparr> wps_offset := offset \<rparr>)"

definition socket_read_bytes :: "nat \<Rightarrow> wp_socket \<Rightarrow> bytes \<times> wp_socket \<times> wps_effect list" where
  "socket_read_bytes n s =
     (let available = int (length (wps_incoming s)) - int (wps_offset s)
      in if available \<le> 0 then ([], s, [])
         else
           (let count = min (nat available) n
            in if count = 0 then ([], s, [])
               else
                 (let data = bytes_at (wps_offset s) count (wps_incoming s);
                      s1 = compact_incoming (wps_offset s + count) s
                  in (data, s1, if wps_transport s then [WpsGrant (wps_id s) count] else []))))"

definition socket_write :: "bytes \<Rightarrow> bytes \<Rightarrow> wp_socket \<Rightarrow> wps_effect list option" where
  "socket_write prefix buffer s =
     (if buffer = [] then None
      else if wps_status s \<noteq> WpsConnected \<or> \<not> wps_transport s then Some []
      else Some [WpsSend (wps_id s) (prefix @ buffer)])"

section \<open>What is unread\<close>

definition wps_unread :: "wp_socket \<Rightarrow> bytes" where
  "wps_unread s = drop (wps_offset s) (wps_incoming s)"

lemma compact_incoming_eq:
  "wps_unread (compact_incoming offset s) = drop offset (wps_incoming s)"
  "wps_id (compact_incoming offset s) = wps_id s" "wps_transport (compact_incoming offset s) = wps_transport s"
  "wps_status (compact_incoming offset s) = wps_status s"
  "offset \<le> length (wps_incoming s) \<Longrightarrow>
     wps_offset (compact_incoming offset s) \<le> length (wps_incoming (compact_incoming offset s))"
  by (simp_all add: compact_incoming_def wps_unread_def)

lemma socket_read_bytes_eq:
  assumes "socket_read_bytes n s = (d, s', es)"
  shows "d @ wps_unread s' = wps_unread s" "length d = min n (length (wps_unread s))"
    "es = (if d \<noteq> [] \<and> wps_transport s then [WpsGrant (wps_id s) (length d)] else [])"
    "wps_id s' = wps_id s" "wps_transport s' = wps_transport s" "wps_status s' = wps_status s"
proof -
  let ?a = "int (length (wps_incoming s)) - int (wps_offset s)"
  let ?c = "min (nat ?a) n"
  have unread: "length (wps_unread s) = nat ?a" by (simp add: wps_unread_def nat_minus_as_int)
  consider "?a \<le> 0" | "\<not> ?a \<le> 0" "?c = 0" | "\<not> ?a \<le> 0" "?c \<noteq> 0" by blast
  then have "d @ wps_unread s' = wps_unread s \<and> length d = min n (length (wps_unread s))
    \<and> es = (if d \<noteq> [] \<and> wps_transport s then [WpsGrant (wps_id s) (length d)] else [])
    \<and> wps_id s' = wps_id s \<and> wps_transport s' = wps_transport s \<and> wps_status s' = wps_status s"
  proof cases
    case 1
    then show ?thesis using assms unread unfolding socket_read_bytes_def Let_def if_P [OF 1] by auto
  next
    case 2
    then show ?thesis using assms unread unfolding socket_read_bytes_def Let_def if_not_P [OF 2(1)] if_P [OF 2(2)] by auto
  next
    case 3
    let ?d = "bytes_at (wps_offset s) ?c (wps_incoming s)"
    have len: "length ?d = ?c" by (rule length_bytes_at) (use 3 in auto)
    have cut: "?d @ drop (wps_offset s + ?c) (wps_incoming s) = wps_unread s"
      using append_take_drop_id [of ?c "drop (wps_offset s) (wps_incoming s)"]
      by (simp add: bytes_at_def wps_unread_def add.commute)
    have d: "d = ?d" and es: "es = (if wps_transport s then [WpsGrant (wps_id s) ?c] else [])"
      using assms unfolding socket_read_bytes_def Let_def if_not_P [OF 3(1)] if_not_P [OF 3(2)] by auto
    have "s' = compact_incoming (wps_offset s + ?c) s"
      using assms unfolding socket_read_bytes_def Let_def if_not_P [OF 3(1)] if_not_P [OF 3(2)] by auto
    then have "wps_unread s' = drop (wps_offset s + ?c) (wps_incoming s) \<and> wps_id s' = wps_id s
      \<and> wps_transport s' = wps_transport s \<and> wps_status s' = wps_status s"
      by (simp add: compact_incoming_eq)
    moreover have "length d = min n (length (wps_unread s))" unfolding d len unread by simp
    moreover have "d \<noteq> []" using len d 3(2) by auto
    ultimately show ?thesis using cut len d es by simp
  qed
  then show "d @ wps_unread s' = wps_unread s" "length d = min n (length (wps_unread s))"
    "es = (if d \<noteq> [] \<and> wps_transport s then [WpsGrant (wps_id s) (length d)] else [])"
    "wps_id s' = wps_id s" "wps_transport s' = wps_transport s" "wps_status s' = wps_status s" by blast+
qed

definition plain_read :: "nat \<Rightarrow> wp_socket \<Rightarrow> bytes \<times> wp_socket" where
  "plain_read n s = (fst (socket_read_bytes n s), fst (snd (socket_read_bytes n s)))"

interpretation wps: byte_source wps_unread plain_read
proof
  fix n s d s' assume "plain_read n s = (d, s')"
  then have "socket_read_bytes n s = (d, s', snd (snd (socket_read_bytes n s)))" by (auto simp: plain_read_def)
  from socket_read_bytes_eq(1,2) [OF this]
  show "d @ wps_unread s' = wps_unread s" "length d = min n (length (wps_unread s))" by blast+
qed

section \<open>The socket as a queue of bytes\<close>

text \<open>The reads and arrivals of a connected socket, and the same on a plain queue.\<close>

datatype wps_action = Arrive bytes | ReadUpTo nat

fun wps_run :: "wps_action list \<Rightarrow> wp_socket \<Rightarrow> bytes list \<times> wp_socket \<times> wps_effect list" where
  "wps_run [] s = ([], s, [])"
| "wps_run (Arrive data # as) s =
     (let (s1, es1) = socket_data data s; (ds, s2, es2) = wps_run as s1 in (ds, s2, es1 @ es2))"
| "wps_run (ReadUpTo n # as) s =
     (let (d, s1, es1) = socket_read_bytes n s; (ds, s2, es2) = wps_run as s1 in (d # ds, s2, es1 @ es2))"

fun queue_run :: "wps_action list \<Rightarrow> bytes \<Rightarrow> bytes list \<times> bytes" where
  "queue_run [] q = ([], q)"
| "queue_run (Arrive data # as) q = queue_run as (q @ data)"
| "queue_run (ReadUpTo n # as) q = (let (ds, q') = queue_run as (drop n q) in (take n q # ds, q'))"

fun granted :: "stream_id \<Rightarrow> wps_effect list \<Rightarrow> nat" where
  "granted i [] = 0"
| "granted i (WpsGrant j n # es) = (if j = i then n else 0) + granted i es"
| "granted i (_ # es) = granted i es"

lemma granted_append [simp]: "granted i (es @ es') = granted i es + granted i es'"
  by (induction i es rule: granted.induct) simp_all

lemma socket_data_eq:
  assumes "wps_status s = WpsConnected" and "socket_data data s = (s', es)" and "wps_offset s \<le> length (wps_incoming s)"
  shows "wps_unread s' = wps_unread s @ data" "wps_status s' = WpsConnected" "granted i es = 0"
    "wps_id s' = wps_id s" "wps_transport s' = wps_transport s" "wps_offset s' \<le> length (wps_incoming s')"
  using assms by (auto simp: socket_data_def wps_unread_def split: if_splits)

lemma socket_read_offset:
  assumes "socket_read_bytes n s = (d, s', es)" and "wps_offset s \<le> length (wps_incoming s)"
  shows "wps_offset s' \<le> length (wps_incoming s')"
  using assms by (auto simp: socket_read_bytes_def Let_def compact_incoming_eq split: if_splits)

lemma wps_run_queue:
  assumes "wps_status s = WpsConnected" "wps_transport s" "wps_offset s \<le> length (wps_incoming s)" and "wps_run as s = (ds, s', es)"
  shows "queue_run as (wps_unread s) = (ds, wps_unread s') \<and> granted (wps_id s) es = length (concat ds)"
  using assms
proof (induction as arbitrary: s ds es)
  case Nil
  then show ?case by simp
next
  case (Cons a as)
  show ?case
  proof (cases a)
    case (Arrive data)
    obtain s1 es1 where 1: "socket_data data s = (s1, es1)" by (cases "socket_data data s")
    obtain es2 where 2: "wps_run as s1 = (ds, s', es2)" "es = es1 @ es2"
      using Cons.prems(4) by (auto simp: Arrive 1 split: prod.splits)
    note eq = socket_data_eq [OF Cons.prems(1) 1 Cons.prems(3)]
    show ?thesis
      using Cons.IH [OF eq(2) _ eq(6) 2(1)] Cons.prems(2) eq 2(2) by (simp add: Arrive)
  next
    case (ReadUpTo n)
    obtain d s1 es1 where 1: "socket_read_bytes n s = (d, s1, es1)" by (cases "socket_read_bytes n s")
    obtain ds1 es2 where 2: "wps_run as s1 = (ds1, s', es2)" "es = es1 @ es2" "ds = d # ds1"
      using Cons.prems(4) by (auto simp: ReadUpTo 1 split: prod.splits)
    note eq = socket_read_bytes_eq [OF 1]
    have "d = take n (wps_unread s)" "wps_unread s1 = drop n (wps_unread s)"
    proof -
      have "length (wps_unread s) = length d + length (wps_unread s1)" by (simp flip: eq(1))
      then have "length d = n \<or> length d \<le> n \<and> wps_unread s1 = []" using eq(2) by (auto simp: min_def split: if_splits)
      then show "d = take n (wps_unread s)" "wps_unread s1 = drop n (wps_unread s)" by (auto simp flip: eq(1))
    qed
    moreover have "queue_run as (wps_unread s1) = (ds1, wps_unread s') \<and> granted (wps_id s1) es2 = length (concat ds1)"
      by (rule Cons.IH [OF _ _ socket_read_offset [OF 1 Cons.prems(3)] 2(1)]) (use eq Cons.prems(1,2) in simp_all)
    ultimately show ?thesis using eq(3,4) Cons.prems(2) 2(2,3) by (auto simp: ReadUpTo)
  qed
qed

text \<open>C30. With its compacted buffer the socket behaves as a plain queue of bytes: for any sequence of arrivals and
  reads every read returns what a queue would return, what is left is the queue, and exactly the bytes
  that were read are granted back to the relay.\<close>

theorem web_socket_is_queue:
  assumes "wps_status s = WpsConnected" "wps_transport s" "wps_offset s \<le> length (wps_incoming s)"
  shows "\<exists>ds s' es. wps_run as s = (ds, s', es) \<and> queue_run as (wps_unread s) = (ds, wps_unread s')
     \<and> granted (wps_id s) es = length (concat ds)"
proof -
  obtain ds s' es where run: "wps_run as s = (ds, s', es)" by (cases "wps_run as s")
  then show ?thesis using wps_run_queue [OF assms run] by blast
qed

theorem web_socket_is_queue_witness:
  "\<exists>ds s' es. wps_run [Arrive [1, 2, 3], ReadUpTo 2, Arrive [4], ReadUpTo 9] (fst (socket_connected (fst (the (connect_to_host (new_socket 1 True))))))
      = (ds, s', es) \<and> queue_run [Arrive [1, 2, 3], ReadUpTo 2, Arrive [4], ReadUpTo 9] [] = (ds, wps_unread s')
     \<and> granted 1 es = length (concat ds)"
  using web_socket_is_queue [of "fst (socket_connected (fst (the (connect_to_host (new_socket 1 True)))))"
      "[Arrive [1, 2, 3], ReadUpTo 2, Arrive [4], ReadUpTo 9]"]
  by (simp add: new_socket_def connect_to_host_def socket_connected_def wps_unread_def del: wps_run.simps queue_run.simps)

text \<open>However the connection sizes its reads, it gets the front of what has arrived, and nothing is lost.\<close>

lemma wps_read_all:
  assumes "wps.read_all ns s = (d, s')"
  shows "d @ wps_unread s' = wps_unread s" "length d = min (sum_list ns) (length (wps_unread s))"
  by (rule wps.read_all_front [OF assms], rule wps.read_all_size [OF assms])

end
