(* ===== verification/Proxy_Data.thy ===== *)
theory Proxy_Data
  imports Bytes
begin

text \<open>
  Proxies as the settings describe them, \<open>MTP::ProxyData\<close> of
  \<open>mtproto/mtproto_proxy_data.h\<close> and \<open>.cpp\<close>: when a proxy is valid, what its password stands for
  (a secret in hexadecimal or in base64url), when two proxies are the same, the normal form of a
  web proxy's host name, and the proxies derived from one.  A \<open>QString\<close> is the list of its UTF-16
  code units.  What Qt does (trimming, IDNA, base64, HMAC, address parsing) is a parameter, the
  record \<open>qt_lib\<close>; the lemmas name the documented behaviour they rely on.
\<close>

section \<open>Data\<close>

type_synonym qchar = "16 word"
type_synonym qstring = "qchar list"

datatype proxy_type = ProxyNone | ProxySocks5 | ProxyHttp | ProxyMtproto | ProxyWeb

datatype proxy_status = ProxyValid | ProxyUnsupported | ProxyIncorrectSecret | ProxyInvalid

record proxy_data =
  px_type :: proxy_type
  px_host :: qstring
  px_port :: "32 word"
  px_user :: qstring
  px_password :: qstring
  px_resolved :: "qstring list"
  px_expire_at :: int

text \<open>The value that \<open>MTP::ProxyData()\<close> builds.\<close>

definition empty_proxy :: proxy_data where
  "empty_proxy = \<lparr> px_type = ProxyNone, px_host = [], px_port = 0, px_user = [], px_password = [],
     px_resolved = [], px_expire_at = 0 \<rparr>"

record qt_lib =
  qt_trimmed :: "qstring \<Rightarrow> qstring"
  qt_to_ace :: "qstring \<Rightarrow> bytes"
  qt_to_lower :: "qstring \<Rightarrow> qstring"
  qt_letter_or_number :: "qchar \<Rightarrow> bool"
  qt_is_address :: "qstring \<Rightarrow> bool"
  qt_is_ipv6 :: "qstring \<Rightarrow> bool"
  qt_from_base64_url :: "bytes \<Rightarrow> bytes"
  qt_bridge_hash :: "bytes \<Rightarrow> bytes \<Rightarrow> qstring"

definition to_latin1 :: "qstring \<Rightarrow> bytes" where
  "to_latin1 s = map (\<lambda>c. if c \<le> 0xFF then ucast c else 0x3F) s"

definition from_latin1 :: "bytes \<Rightarrow> qstring" where
  "from_latin1 bs = map ucast bs"

section \<open>Passwords\<close>

definition hex_char :: "qchar \<Rightarrow> bool" where
  "hex_char c \<longleftrightarrow> (0x61 \<le> c \<and> c \<le> 0x66) \<or> (0x41 \<le> c \<and> c \<le> 0x46) \<or> (0x30 \<le> c \<and> c \<le> 0x39)"

definition is_hex_password :: "qstring \<Rightarrow> bool" where
  "is_hex_password p \<longleftrightarrow> \<not> (length p < 32 \<or> length p mod 2 = 1) \<and> list_all hex_char p"

text \<open>\<open>QChar::toLower\<close>, which the program only applies to the ASCII characters of a password.\<close>

definition ascii_lower :: "qchar \<Rightarrow> qchar" where
  "ascii_lower c = (if 0x41 \<le> c \<and> c \<le> 0x5A then c + 0x20 else c)"

definition hex_password_status :: "qstring \<Rightarrow> proxy_status" where
  "hex_password_status p =
     (let n = length p div 2;
          type1 = ascii_lower (p ! 0);
          type2 = ascii_lower (p ! 1)
      in if n = 16 \<or> (n = 17 \<and> type1 = 0x64 \<and> type2 = 0x64) \<or> (n \<ge> 21 \<and> type1 = 0x65 \<and> type2 = 0x65)
         then ProxyValid
         else if n < 16 then ProxyInvalid
         else ProxyUnsupported)"

definition hex_value :: "qchar \<Rightarrow> byte option" where
  "hex_value c =
     (if 0x30 \<le> c \<and> c \<le> 0x39 then Some (ucast (c - 0x30))
      else if 0x41 \<le> c \<and> c \<le> 0x46 then Some (10 + ucast (c - 0x41))
      else if 0x61 \<le> c \<and> c \<le> 0x66 then Some (10 + ucast (c - 0x61))
      else None)"

fun hex_bytes :: "qstring \<Rightarrow> bytes option" where
  "hex_bytes [] = Some []"
| "hex_bytes [_] = None"
| "hex_bytes (a # b # p) = do {
     high \<leftarrow> hex_value a;
     low \<leftarrow> hex_value b;
     rest \<leftarrow> hex_bytes p;
     Some ((high * 16 + low) # rest)
   }"

text \<open>The inner part of a base64 password: up to two padding characters are skipped.\<close>

definition skip_padding :: "qstring \<Rightarrow> qstring" where
  "skip_padding p = (if p \<noteq> [] \<and> last p = 0x3D then butlast p else p)"

definition base64_url_inner :: "qstring \<Rightarrow> qstring option" where
  "base64_url_inner p =
     (if length p > 2 then
        Some (if last p = 0x3D then skip_padding (butlast p) else p)
      else None)"

definition base64_url_char :: "qchar \<Rightarrow> bool" where
  "base64_url_char c \<longleftrightarrow> (0x61 \<le> c \<and> c \<le> 0x7A) \<or> (0x41 \<le> c \<and> c \<le> 0x5A) \<or> (0x30 \<le> c \<and> c \<le> 0x39)
     \<or> c = 0x5F \<or> c = 0x2D"

definition is_base64_url_password :: "qstring \<Rightarrow> bool option" where
  "is_base64_url_password p =
     (if length p < 22 \<or> length p mod 4 = 1 then Some False
      else map_option (list_all base64_url_char) (base64_url_inner p))"

definition base64_url_password_status :: "qstring \<Rightarrow> proxy_status option" where
  "base64_url_password_status p =
     map_option (\<lambda>inner.
       let n = length inner * 3 div 4
       in if n < 16 then ProxyInvalid
          else if n = 16
            \<or> (n = 17 \<and> p ! 0 = 0x33 \<and> ((0x51 \<le> p ! 1 \<and> p ! 1 \<le> 0x5A) \<or> (0x61 \<le> p ! 1 \<and> p ! 1 \<le> 0x66)))
            \<or> (n \<ge> 21 \<and> p ! 0 = 0x37 \<and> 0x67 \<le> p ! 1 \<and> p ! 1 \<le> 0x76) then ProxyValid
          else if n \<ge> 21 \<and> ascii_lower (p ! 0) = 0x65 \<and> ascii_lower (p ! 1) = 0x65 then ProxyIncorrectSecret
          else ProxyUnsupported) (base64_url_inner p)"

definition mtproto_password_status :: "qstring \<Rightarrow> proxy_status option" where
  "mtproto_password_status p =
     (if is_hex_password p then Some (hex_password_status p)
      else do {
        b \<leftarrow> is_base64_url_password p;
        if b then base64_url_password_status p else Some ProxyInvalid
      })"

text \<open>The secret of a proxy; the code expects a proxy of a type that has one.\<close>

definition secret_from_mtproto_password :: "qt_lib \<Rightarrow> proxy_data \<Rightarrow> bytes option" where
  "secret_from_mtproto_password q px =
     (if px_type px = ProxyMtproto \<or> px_type px = ProxyWeb then
        (if is_hex_password (px_password px) then hex_bytes (px_password px)
         else do {
           b \<leftarrow> is_base64_url_password (px_password px);
           if b then Some (qt_from_base64_url q (to_latin1 (px_password px))) else Some []
         })
      else None)"

section \<open>Host names of web proxies\<close>

fun split_at_char :: "'a \<Rightarrow> 'a list \<Rightarrow> 'a list list" where
  "split_at_char c [] = [[]]"
| "split_at_char c (x # xs) =
     (if x = c then [] # split_at_char c xs
      else (x # hd (split_at_char c xs)) # tl (split_at_char c xs))"

definition last_label_is_numeric :: "qstring \<Rightarrow> bool" where
  "last_label_is_numeric host =
     (let label = rev (takeWhile (\<lambda>c. c \<noteq> 0x2E) (rev host))
      in if label = [] then False
         else
           (let hex = length label \<ge> 2 \<and> label ! 0 = 0x30 \<and> ascii_lower (label ! 1) = 0x78;
                digits = (if hex then drop 2 label else label)
            in list_all (\<lambda>c. (0x30 \<le> c \<and> c \<le> 0x39)
                 \<or> (hex \<and> ((0x61 \<le> c \<and> c \<le> 0x66) \<or> (0x41 \<le> c \<and> c \<le> 0x46)))) digits))"

definition good_host_label :: "qt_lib \<Rightarrow> qstring \<Rightarrow> bool" where
  "good_host_label q label \<longleftrightarrow>
     \<not> (label = [] \<or> length label > 63 \<or> hd label = 0x2D \<or> last label = 0x2D)
     \<and> list_all (\<lambda>c. qt_letter_or_number q c \<or> c = 0x2D) label"

definition normalize_web_proxy_host :: "qt_lib \<Rightarrow> qstring \<Rightarrow> qstring" where
  "normalize_web_proxy_host q v =
     (let input = qt_trimmed q v
      in if input = [] \<or> list_ex (\<lambda>c. c \<in> {0x3A, 0x2F, 0x3F, 0x23, 0x40}) input \<or> last input = 0x2E then []
         else
           (let r = qt_to_lower q (from_latin1 (qt_to_ace q input))
            in if r = [] \<or> length r > 253 \<or> \<not> list_ex (\<lambda>c. c = 0x2E) r then []
               else if \<not> list_all (good_host_label q) (split_at_char 0x2E r) then []
               else if last_label_is_numeric r then []
               else if qt_is_address q r then []
               else r))"

section \<open>Status and equality\<close>

definition proxy_status :: "qt_lib \<Rightarrow> proxy_data \<Rightarrow> proxy_status option" where
  "proxy_status q px =
     (if px_type px = ProxyWeb then
        (if px_host px \<noteq> normalize_web_proxy_host q (px_host px) \<or> px_port px \<noteq> 443 \<or> px_user px \<noteq> []
         then Some ProxyInvalid
         else do {
           r \<leftarrow> mtproto_password_status (px_password px);
           if r \<noteq> ProxyValid then Some r
           else do {
             secret \<leftarrow> secret_from_mtproto_password q px;
             Some (if length secret \<ge> 21 \<and> secret ! 0 = 0xEE then ProxyUnsupported else ProxyValid)
           }
         })
      else if px_type px = ProxyNone \<or> px_host px = [] \<or> px_port px = 0 then Some ProxyInvalid
      else if px_type px = ProxyMtproto then mtproto_password_status (px_password px)
      else Some ProxyValid)"

definition proxy_valid :: "qt_lib \<Rightarrow> proxy_data \<Rightarrow> bool" where
  "proxy_valid q px \<longleftrightarrow> proxy_status q px = Some ProxyValid"

definition proxy_eq :: "qt_lib \<Rightarrow> proxy_data \<Rightarrow> proxy_data \<Rightarrow> bool" where
  "proxy_eq q a b \<longleftrightarrow>
     (if \<not> proxy_valid q a then \<not> proxy_valid q b
      else px_type a = px_type b \<and> px_host a = px_host b \<and> px_port a = px_port b
        \<and> px_user a = px_user b \<and> px_password a = px_password b)"

text \<open>The key that a web proxy's bridge page is opened with; the \<open>Expects\<close> of the code are the
  branches that give \<open>None\<close>.\<close>

definition bridge_context_prefix :: bytes where
  "bridge_context_prefix =
     [0x74, 0x64, 0x65, 0x73, 0x6B, 0x74, 0x6F, 0x70, 0x2D, 0x77, 0x65, 0x62, 0x2D, 0x70, 0x72, 0x6F,
      0x78, 0x79, 0x2D, 0x62, 0x72, 0x69, 0x64, 0x67, 0x65, 0x2D, 0x76, 0x31, 0x0A]"

definition web_proxy_bridge_capability :: "qt_lib \<Rightarrow> proxy_data \<Rightarrow> qstring option" where
  "web_proxy_bridge_capability q px =
     (if px_type px = ProxyWeb \<and> px_host px = normalize_web_proxy_host q (px_host px) then do {
        secret \<leftarrow> secret_from_mtproto_password q px;
        if secret = [] then None
        else Some (qt_bridge_hash q (bridge_context_prefix @ to_latin1 (px_host px)) secret)
      } else None)"

section \<open>Proxies derived from a proxy\<close>

text \<open>The pattern of the code matches four runs of digits; its \<open>$\<close> also matches before a final
  line feed.\<close>

definition is_dotted_quad :: "qstring \<Rightarrow> bool" where
  "is_dotted_quad host =
     (let labels = split_at_char 0x2E (if host \<noteq> [] \<and> last host = 0x0A then butlast host else host)
      in length labels = 4 \<and> list_all (\<lambda>l. l \<noteq> [] \<and> list_all (\<lambda>c. 0x30 \<le> c \<and> c \<le> 0x39) l) labels)"

definition try_custom_resolve :: "qt_lib \<Rightarrow> proxy_data \<Rightarrow> bool" where
  "try_custom_resolve q px \<longleftrightarrow>
     (px_type px = ProxySocks5 \<or> px_type px = ProxyMtproto)
     \<and> \<not> qt_is_ipv6 q (px_host px) \<and> \<not> is_dotted_quad (px_host px)"

definition to_direct_ip_proxy :: "qt_lib \<Rightarrow> proxy_data \<Rightarrow> int \<Rightarrow> proxy_data" where
  "to_direct_ip_proxy q px i =
     (if \<not> try_custom_resolve q px \<or> i < 0 \<or> i \<ge> int (length (px_resolved px)) then px
      else px\<lparr> px_host := px_resolved px ! nat i, px_resolved := [], px_expire_at := 0 \<rparr>)"

datatype network_proxy =
    DefaultNetworkProxy
  | NoNetworkProxy
  | Socks5NetworkProxy qstring "16 word" qstring qstring
  | HttpNetworkProxy qstring "16 word" qstring qstring

text \<open>The port of a \<open>QNetworkProxy\<close> has 16 bits.\<close>

definition to_network_proxy :: "proxy_data \<Rightarrow> network_proxy" where
  "to_network_proxy px =
     (if px_type px = ProxyNone then DefaultNetworkProxy
      else if px_type px = ProxyMtproto \<or> px_type px = ProxyWeb then NoNetworkProxy
      else if px_type px = ProxySocks5
        then Socks5NetworkProxy (px_host px) (ucast (px_port px)) (px_user px) (px_password px)
      else HttpNetworkProxy (px_host px) (ucast (px_port px)) (px_user px) (px_password px))"

section \<open>Totality\<close>

lemma base64_url_inner_Some: "length p \<ge> 22 \<Longrightarrow> \<exists>inner. base64_url_inner p = Some inner"
  by (simp add: base64_url_inner_def)

lemma is_base64_url_password_total: "\<exists>b. is_base64_url_password p = Some b"
  using base64_url_inner_Some [of p] by (auto simp: is_base64_url_password_def)

lemma is_base64_url_passwordD:
  assumes "is_base64_url_password p = Some True"
  obtains inner where "base64_url_inner p = Some inner" and "list_all base64_url_char inner" and "length p \<ge> 22"
  using assms by (auto simp: is_base64_url_password_def split: if_splits)

lemma mtproto_password_status_total: "\<exists>s. mtproto_password_status p = Some s"
  using is_base64_url_password_total [of p]
  by (auto simp: mtproto_password_status_def base64_url_password_status_def elim!: is_base64_url_passwordD)

lemma hex_char_cases:
  assumes "hex_char c"
  obtains n where "c = of_nat n" and "n \<in> {48, 49, 50, 51, 52, 53, 54, 55, 56, 57}"
  | n where "c = of_nat n" and "n \<in> {65, 66, 67, 68, 69, 70}"
  | n where "c = of_nat n" and "n \<in> {97, 98, 99, 100, 101, 102}"
proof -
  have c: "c = of_nat (unat c)" by simp
  have "(97 \<le> unat c \<and> unat c \<le> 102) \<or> (65 \<le> unat c \<and> unat c \<le> 70) \<or> (48 \<le> unat c \<and> unat c \<le> 57)"
    using assms by (auto simp: hex_char_def word_le_nat_alt)
  then have "unat c \<in> {48, 49, 50, 51, 52, 53, 54, 55, 56, 57} \<or> unat c \<in> {65, 66, 67, 68, 69, 70}
      \<or> unat c \<in> {97, 98, 99, 100, 101, 102}"
    unfolding insert_iff empty_iff by presburger
  then show ?thesis using that c by blast
qed

lemma hex_value_of_char:
  assumes "hex_char c"
  obtains v where "hex_value c = Some v" and "unat v < 16"
    and "v = 13 \<longleftrightarrow> ascii_lower c = 0x64" and "v = 14 \<longleftrightarrow> ascii_lower c = 0x65"
  using assms
proof (cases rule: hex_char_cases)
  case (1 n)
  then show ?thesis using that by (auto simp: hex_value_def ascii_lower_def)
next
  case (2 n)
  then show ?thesis using that by (auto simp: hex_value_def ascii_lower_def)
next
  case (3 n)
  then show ?thesis using that by (auto simp: hex_value_def ascii_lower_def)
qed

lemma hex_pair:
  assumes "unat h < 16" and "unat l < 16"
  shows "unat (h * 16 + l :: byte) = unat h * 16 + unat l"
proof -
  have "unat (h * 16) = unat h * 16" using assms(1) by (subst unat_mult_lem [THEN iffD1]) auto
  then show ?thesis using assms by (subst unat_add_lem [THEN iffD1]) auto
qed

lemma hex_bytes_total:
  assumes "even (length p)" and "list_all hex_char p"
  shows "\<exists>bs. hex_bytes p = Some bs \<and> length bs = length p div 2"
  using assms
proof (induction p rule: hex_bytes.induct)
  case (3 a b p)
  obtain h where "hex_value a = Some h" using hex_value_of_char [of a] 3(3) by auto
  moreover obtain l where "hex_value b = Some l" using hex_value_of_char [of b] 3(3) by auto
  moreover obtain bs where "hex_bytes p = Some bs" "length bs = length p div 2"
    using 3(1) 3(2,3) calculation by fastforce
  ultimately show ?case by simp
qed simp_all

section \<open>What a password stands for\<close>

text \<open>The shapes of the secrets that the protocol knows: 16 plain bytes, 17 bytes that begin with
  \<open>0xDD\<close> for padded packets, and at least 21 that begin with \<open>0xEE\<close> for the TLS disguise.\<close>

definition known_secret :: "bytes \<Rightarrow> bool" where
  "known_secret bs \<longleftrightarrow> length bs = 16 \<or> (length bs = 17 \<and> bs ! 0 = 0xDD) \<or> (length bs \<ge> 21 \<and> bs ! 0 = 0xEE)"

lemma hex_first_byte:
  assumes "hex_bytes (a # b # p) = Some bs" and "hex_char a" and "hex_char b"
  shows "bs ! 0 = 0xDD \<longleftrightarrow> ascii_lower a = 0x64 \<and> ascii_lower b = 0x64"
    and "bs ! 0 = 0xEE \<longleftrightarrow> ascii_lower a = 0x65 \<and> ascii_lower b = 0x65"
proof -
  obtain h where h: "hex_value a = Some h" "unat h < 16" "h = 13 \<longleftrightarrow> ascii_lower a = 0x64"
    "h = 14 \<longleftrightarrow> ascii_lower a = 0x65" using assms(2) by (rule hex_value_of_char)
  obtain l where l: "hex_value b = Some l" "unat l < 16" "l = 13 \<longleftrightarrow> ascii_lower b = 0x64"
    "l = 14 \<longleftrightarrow> ascii_lower b = 0x65" using assms(3) by (rule hex_value_of_char)
  have b0: "bs ! 0 = h * 16 + l" using assms(1) h(1) l(1) by (auto split: bind_splits)
  have "unat (bs ! 0) = unat h * 16 + unat l" using hex_pair [OF h(2) l(2)] b0 by simp
  moreover have "bs ! 0 = 0xDD \<longleftrightarrow> unat (bs ! 0) = 221" "bs ! 0 = 0xEE \<longleftrightarrow> unat (bs ! 0) = 238"
    by (simp_all add: word_unat_eq_iff)
  moreover have "h = 13 \<longleftrightarrow> unat h = 13" "h = 14 \<longleftrightarrow> unat h = 14" "l = 13 \<longleftrightarrow> unat l = 13" "l = 14 \<longleftrightarrow> unat l = 14"
    by (simp_all add: word_unat_eq_iff)
  moreover have "unat h * 16 + unat l = 221 \<longleftrightarrow> unat h = 13 \<and> unat l = 13"
    and "unat h * 16 + unat l = 238 \<longleftrightarrow> unat h = 14 \<and> unat l = 14"
    using h(2) l(2) by presburger+
  ultimately show "bs ! 0 = 0xDD \<longleftrightarrow> ascii_lower a = 0x64 \<and> ascii_lower b = 0x64"
    and "bs ! 0 = 0xEE \<longleftrightarrow> ascii_lower a = 0x65 \<and> ascii_lower b = 0x65"
    using h(3,4) l(3,4) by simp_all
qed

lemma hex_status_known:
  assumes "is_hex_password p"
  shows "\<exists>bs. hex_bytes p = Some bs \<and> (hex_password_status p = ProxyValid \<longleftrightarrow> known_secret bs)"
proof -
  have p: "length p \<ge> 32" "even (length p)" "list_all hex_char p"
    using assms by (auto simp: is_hex_password_def)
  obtain bs where bs: "hex_bytes p = Some bs" "length bs = length p div 2"
    using hex_bytes_total [OF p(2,3)] by blast
  obtain a b r where r: "p = a # b # r" using p(1) by (metis Suc_le_length_iff numeral_2_eq_2 numeral_Bit0 add_leD1 one_add_one order_trans one_le_numeral numeral_le_iff semiring_norm(68,69))
  have ab: "hex_char a" "hex_char b" using p(3) r by auto
  have "hex_password_status p = ProxyValid \<longleftrightarrow> known_secret bs"
    using hex_first_byte [OF bs(1) [unfolded r] ab] bs(2)
    by (simp add: hex_password_status_def known_secret_def Let_def r)
  with bs(1) show ?thesis by blast
qed

text \<open>The value of a character of the URL-safe base64 alphabet (RFC 4648).\<close>

definition base64_url_value :: "qchar \<Rightarrow> nat" where
  "base64_url_value c =
     (if 0x41 \<le> c \<and> c \<le> 0x5A then unat c - 65
      else if 0x61 \<le> c \<and> c \<le> 0x7A then unat c - 71
      else if 0x30 \<le> c \<and> c \<le> 0x39 then unat c + 4
      else if c = 0x2D then 62 else 63)"

lemma base64_url_char_nat:
  "base64_url_char c \<Longrightarrow> (97 \<le> unat c \<and> unat c \<le> 122) \<or> (65 \<le> unat c \<and> unat c \<le> 90)
     \<or> (48 \<le> unat c \<and> unat c \<le> 57) \<or> unat c = 95 \<or> unat c = 45"
  unfolding base64_url_char_def word_le_nat_alt word_unat_eq_iff by (simp; blast)

lemma base64_url_value_nat:
  "base64_url_value c = (if 65 \<le> unat c \<and> unat c \<le> 90 then unat c - 65
      else if 97 \<le> unat c \<and> unat c \<le> 122 then unat c - 71
      else if 48 \<le> unat c \<and> unat c \<le> 57 then unat c + 4
      else if unat c = 45 then 62 else 63)"
  unfolding base64_url_value_def word_le_nat_alt word_unat_eq_iff by simp

lemma base64_value_upper: "65 \<le> n \<Longrightarrow> n \<le> 90 \<Longrightarrow> (n - 65) div 16 = 1 \<longleftrightarrow> 81 \<le> (n::nat) \<and> n \<le> 90"
  and base64_value_lower: "97 \<le> n \<Longrightarrow> n \<le> 122 \<Longrightarrow> (n - 71) div 16 = 1 \<longleftrightarrow> 97 \<le> n \<and> n \<le> 102"
  and base64_value_lower2: "97 \<le> n \<Longrightarrow> n \<le> 122 \<Longrightarrow> (n - 71) div 16 = 2 \<longleftrightarrow> 103 \<le> n \<and> n \<le> 118"
  and base64_value_upper2: "65 \<le> n \<Longrightarrow> n \<le> 90 \<Longrightarrow> (n - 65) div 16 \<noteq> 2"
  and base64_value_digit: "48 \<le> n \<Longrightarrow> n \<le> 57 \<Longrightarrow> (n + 4) div 16 = 3"
  by linarith+

lemma base64_url_value_facts:
  assumes "base64_url_char c"
  shows "base64_url_value c < 64
      \<and> (base64_url_value c = 55 \<longleftrightarrow> unat c = 51) \<and> (base64_url_value c = 59 \<longleftrightarrow> unat c = 55)
      \<and> (base64_url_value c div 16 = 1 \<longleftrightarrow> (81 \<le> unat c \<and> unat c \<le> 90) \<or> (97 \<le> unat c \<and> unat c \<le> 102))
      \<and> (base64_url_value c div 16 = 2 \<longleftrightarrow> 103 \<le> unat c \<and> unat c \<le> 118)"
proof -
  consider "97 \<le> unat c" "unat c \<le> 122" | "65 \<le> unat c" "unat c \<le> 90" | "48 \<le> unat c" "unat c \<le> 57"
    | "unat c = 95" | "unat c = 45"
    using base64_url_char_nat [OF assms] by blast
  then show ?thesis
  proof cases
    case 1
    then have "base64_url_value c = unat c - 71" by (simp add: base64_url_value_nat)
    then show ?thesis using base64_value_lower [OF 1] base64_value_lower2 [OF 1] 1 by (simp, arith)
  next
    case 2
    then have "base64_url_value c = unat c - 65" by (simp add: base64_url_value_nat)
    then show ?thesis using base64_value_upper [OF 2] base64_value_upper2 [OF 2] 2 by (simp, arith)
  next
    case 3
    then have "base64_url_value c = unat c + 4" by (simp add: base64_url_value_nat)
    then show ?thesis using base64_value_digit [OF 3] 3 by simp
  qed (simp_all add: base64_url_value_nat)
qed

lemma base64_url_value_chars:
  assumes "base64_url_char c"
  shows "base64_url_value c < 64"
    and "base64_url_value c = 55 \<longleftrightarrow> c = 0x33" and "base64_url_value c = 59 \<longleftrightarrow> c = 0x37"
    and "base64_url_value c div 16 = 1 \<longleftrightarrow> (0x51 \<le> c \<and> c \<le> 0x5A) \<or> (0x61 \<le> c \<and> c \<le> 0x66)"
    and "base64_url_value c div 16 = 2 \<longleftrightarrow> 0x67 \<le> c \<and> c \<le> 0x76"
  using base64_url_value_facts [OF assms] unfolding word_le_nat_alt word_unat_eq_iff by simp_all

lemma status_chain:
  "((if A then ProxyInvalid else if B then ProxyValid else if C then ProxyIncorrectSecret else ProxyUnsupported)
     = ProxyValid) \<longleftrightarrow> \<not> A \<and> B"
  by simp

lemma quot_rem_4: "k < 4 \<Longrightarrow> n * 4 + k = (221::nat) \<longleftrightarrow> n = 55 \<and> k = 1"
  "k < 4 \<Longrightarrow> n * 4 + k = (238::nat) \<longleftrightarrow> n = 59 \<and> k = 2"
  by presburger+

lemma first_sextets:
  assumes "m < 64"
  shows "n * 4 + m div 16 = (221::nat) \<longleftrightarrow> n = 55 \<and> m div 16 = 1"
    and "n * 4 + m div 16 = (238::nat) \<longleftrightarrow> n = 59 \<and> m div 16 = 2"
proof -
  have k: "m div 16 < 4" using assms by simp
  show "n * 4 + m div 16 = (221::nat) \<longleftrightarrow> n = 55 \<and> m div 16 = 1" by (rule quot_rem_4(1) [OF k])
  show "n * 4 + m div 16 = (238::nat) \<longleftrightarrow> n = 59 \<and> m div 16 = 2" by (rule quot_rem_4(2) [OF k])
qed

text \<open>What the code relies on of \<open>QByteArray::fromBase64\<close> with the URL alphabet: every four
  characters give three bytes, and the first byte is made of the first character and the upper bits
  of the second.\<close>

definition decodes_base64_url :: "qt_lib \<Rightarrow> bool" where
  "decodes_base64_url q \<longleftrightarrow>
     (\<forall>p inner. base64_url_inner p = Some inner \<longrightarrow> list_all base64_url_char inner \<longrightarrow>
        length (qt_from_base64_url q (to_latin1 p)) = length inner * 3 div 4
        \<and> (length inner \<ge> 2 \<longrightarrow> unat (qt_from_base64_url q (to_latin1 p) ! 0)
             = base64_url_value (inner ! 0) * 4 + base64_url_value (inner ! 1) div 16))"

lemma base64_inner_take:
  assumes "base64_url_inner p = Some inner"
  shows "inner = take (length inner) p"
  using assms by (auto simp: base64_url_inner_def skip_padding_def butlast_conv_take min_def split: if_splits)

lemma base64_status_known:
  assumes q: "decodes_base64_url q" and p: "is_base64_url_password p = Some True"
  shows "base64_url_password_status p = Some ProxyValid \<longleftrightarrow> known_secret (qt_from_base64_url q (to_latin1 p))"
proof -
  obtain inner where i: "base64_url_inner p = Some inner" "list_all base64_url_char inner" "length p \<ge> 22"
    using p by (rule is_base64_url_passwordD)
  let ?bs = "qt_from_base64_url q (to_latin1 p)"
  have "inner = p \<or> inner = butlast p \<or> inner = butlast (butlast p)"
    using i(1,3) by (auto simp: base64_url_inner_def skip_padding_def split: if_splits)
  then have len: "length inner \<ge> 20" using i(3) by (elim disjE) simp_all
  then obtain a b r where inner: "inner = a # b # r"
    by (cases inner; cases "tl inner") auto
  have p01: "p ! 0 = a" "p ! 1 = b"
    using base64_inner_take [OF i(1)] len inner by (metis nth_take nth_Cons_0 length_Cons zero_less_Suc,
      metis nth_take nth_Cons_0 nth_Cons_Suc One_nat_def length_Cons Suc_less_eq zero_less_Suc)
  have ab: "base64_url_char a" "base64_url_char b" using i(2) inner by auto
  have bs: "length ?bs = length inner * 3 div 4" "unat (?bs ! 0) = base64_url_value a * 4 + base64_url_value b div 16"
    using q i(1,2) len unfolding decodes_base64_url_def by (auto simp: inner)
  note va = base64_url_value_chars [OF ab(1)] and vb = base64_url_value_chars [OF ab(2)]
  have "?bs ! 0 = 0xDD \<longleftrightarrow> unat (?bs ! 0) = 221" "?bs ! 0 = 0xEE \<longleftrightarrow> unat (?bs ! 0) = 238"
    by (simp_all add: word_unat_eq_iff)
  moreover have "base64_url_value a * 4 + base64_url_value b div 16 = 221
      \<longleftrightarrow> base64_url_value a = 55 \<and> base64_url_value b div 16 = 1"
    and "base64_url_value a * 4 + base64_url_value b div 16 = 238
      \<longleftrightarrow> base64_url_value a = 59 \<and> base64_url_value b div 16 = 2"
    by (rule first_sextets [OF vb(1)])+
  ultimately have first: "?bs ! 0 = 0xDD \<longleftrightarrow> a = 0x33 \<and> ((0x51 \<le> b \<and> b \<le> 0x5A) \<or> (0x61 \<le> b \<and> b \<le> 0x66))"
    "?bs ! 0 = 0xEE \<longleftrightarrow> a = 0x37 \<and> 0x67 \<le> b \<and> b \<le> 0x76"
    using bs(2) va(2,3) vb(4,5) by simp_all
  let ?n = "length inner * 3 div 4"
  have "base64_url_password_status p = Some ProxyValid \<longleftrightarrow> \<not> ?n < 16 \<and> (?n = 16
      \<or> (?n = 17 \<and> a = 0x33 \<and> ((0x51 \<le> b \<and> b \<le> 0x5A) \<or> (0x61 \<le> b \<and> b \<le> 0x66)))
      \<or> (?n \<ge> 21 \<and> a = 0x37 \<and> 0x67 \<le> b \<and> b \<le> 0x76))"
    unfolding base64_url_password_status_def i(1) option.map Let_def p01
    by (simp only: option.inject status_chain)
  then show ?thesis unfolding known_secret_def bs(1) first by linarith
qed

section \<open>Proxies of links\<close>

text \<open>\<open>ProxyDataFromFields\<close> of \<open>boxes/connection_box.cpp\<close>: the proxy of a parsed link.  The fields
  are a map with the empty string for an absent key, and \<open>to_uint\<close> stands for \<open>QString::toUInt\<close>.\<close>

datatype link_field = FieldServer | FieldHost | FieldPort | FieldUser | FieldPass | FieldSecret

definition link_secret :: "qstring \<Rightarrow> qstring" where
  "link_secret s = map (\<lambda>c. if c = 0x2F then 0x5F else c) (map (\<lambda>c. if c = 0x2B then 0x2D else c) s)"

definition proxy_data_from_fields ::
  "qt_lib \<Rightarrow> (qstring \<Rightarrow> 32 word) \<Rightarrow> proxy_type \<Rightarrow> (link_field \<Rightarrow> qstring) \<Rightarrow> proxy_data" where
  "proxy_data_from_fields q to_uint type fs =
     (let web = (type = ProxyWeb);
          server = fs FieldServer;
          px = empty_proxy\<lparr> px_type := type,
            px_host := (if web then normalize_web_proxy_host q (if server = [] then fs FieldHost else server)
                        else server),
            px_port := (if web then 443 else to_uint (fs FieldPort)) \<rparr>
      in if type = ProxySocks5 then px\<lparr> px_user := fs FieldUser, px_password := fs FieldPass \<rparr>
         else if type = ProxyMtproto \<or> web then px\<lparr> px_password := link_secret (fs FieldSecret) \<rparr>
         else px)"

text \<open>\<open>ProxyBox::collectData\<close> of the same file: the proxy of the form, with the field that is
  marked as wrong when there is one (the code then returns the empty proxy).\<close>

datatype form_field = FormWebHost | FormHost | FormPort | FormUser | FormSecret

record proxy_form =
  pf_type :: proxy_type
  pf_web_host :: qstring
  pf_host :: qstring
  pf_port :: qstring
  pf_user :: qstring
  pf_secret :: qstring
  pf_password :: qstring

definition form_proxy :: "qt_lib \<Rightarrow> (qstring \<Rightarrow> 32 word) \<Rightarrow> proxy_form \<Rightarrow> proxy_data" where
  "form_proxy q to_int f =
     (let web = (pf_type f = ProxyWeb);
          secret = (pf_type f = ProxyMtproto \<or> web)
      in empty_proxy\<lparr> px_type := pf_type f,
           px_host := (if web then normalize_web_proxy_host q (pf_web_host f) else qt_trimmed q (pf_host f)),
           px_port := (if web then 443 else to_int (qt_trimmed q (pf_port f))),
           px_user := (if secret then [] else pf_user f),
           px_password := (if secret then pf_secret f else pf_password f) \<rparr>)"

definition collect_proxy_data ::
  "qt_lib \<Rightarrow> (qstring \<Rightarrow> 32 word) \<Rightarrow> proxy_form \<Rightarrow> form_field + proxy_data" where
  "collect_proxy_data q to_int f =
     (let r = form_proxy q to_int f;
          web = (px_type r = ProxyWeb);
          host_error = Inl (if web then FormWebHost else FormHost)
      in if px_host r = [] then host_error
         else if \<not> web \<and> px_port r = 0 then Inl FormPort
         else if (px_type r = ProxyHttp \<or> px_type r = ProxySocks5) \<and> px_password r \<noteq> [] \<and> px_user r = []
           then Inl FormUser
         else if (px_type r = ProxyMtproto \<or> web) \<and> \<not> proxy_valid q r then Inl FormSecret
         else if \<not> proxy_valid q r then host_error
         else Inr r)"

section \<open>Properties\<close>

lemma secret_known:
  assumes "decodes_base64_url q" and "px_type px = ProxyMtproto \<or> px_type px = ProxyWeb"
  shows "\<exists>secret. secret_from_mtproto_password q px = Some secret
    \<and> (mtproto_password_status (px_password px) = Some ProxyValid \<longleftrightarrow> known_secret secret)"
proof (cases "is_hex_password (px_password px)")
  case True
  then show ?thesis
    using hex_status_known [OF True] assms(2)
    by (auto simp: secret_from_mtproto_password_def mtproto_password_status_def)
next
  case False
  obtain b where b: "is_base64_url_password (px_password px) = Some b"
    using is_base64_url_password_total by blast
  show ?thesis
  proof (cases b)
    case True
    then show ?thesis using b False base64_status_known [OF assms(1)] assms(2)
      by (simp add: secret_from_mtproto_password_def mtproto_password_status_def)
  next
    case not_base64: False
    then show ?thesis using b False assms(2)
      by (simp add: secret_from_mtproto_password_def mtproto_password_status_def known_secret_def)
  qed
qed

text \<open>A library whose base64 is the one of RFC 4648, for the examples; the other functions are the
  identity on the lower-case ASCII strings used there.\<close>

fun base64_groups :: "nat list \<Rightarrow> bytes" where
  "base64_groups (a # b # c # d # r) =
     [of_nat (a * 4 + b div 16), of_nat (b mod 16 * 16 + c div 4), of_nat (c mod 4 * 64 + d)] @ base64_groups r"
| "base64_groups [a, b, c] = [of_nat (a * 4 + b div 16), of_nat (b mod 16 * 16 + c div 4)]"
| "base64_groups [a, b] = [of_nat (a * 4 + b div 16)]"
| "base64_groups _ = []"

definition example_from_base64 :: "bytes \<Rightarrow> bytes" where
  "example_from_base64 bs =
     base64_groups (map base64_url_value (the (base64_url_inner (from_latin1 bs))))"

definition example_qt :: qt_lib where
  "example_qt = \<lparr> qt_trimmed = id, qt_to_ace = to_latin1, qt_to_lower = id,
     qt_letter_or_number = (\<lambda>c. 0x61 \<le> c \<and> c \<le> 0x7A), qt_is_address = (\<lambda>_. False),
     qt_is_ipv6 = (\<lambda>_. False), qt_from_base64_url = example_from_base64,
     qt_bridge_hash = (\<lambda>context key. from_latin1 key) \<rparr>"

lemma length_base64_groups: "length (base64_groups vs) = length vs * 3 div 4"
  by (induction vs rule: base64_groups.induct) simp_all

lemma base64_groups_first:
  assumes "length vs \<ge> 2" and "\<forall>v \<in> set vs. v < 64"
  shows "unat (base64_groups vs ! 0) = vs ! 0 * 4 + vs ! 1 div 16"
proof -
  obtain a b r where vs: "vs = a # b # r" using assms(1) by (cases vs; cases "tl vs") auto
  have "base64_groups vs ! 0 = of_nat (a * 4 + b div 16)"
    unfolding vs by (cases r rule: list.exhaust; cases "tl r") auto
  moreover have "a * 4 + b div 16 < 256" using assms(2) vs by auto
  then have "unat (of_nat (a * 4 + b div 16) :: byte) = a * 4 + b div 16"
    by (subst unat_of_nat) simp
  ultimately show ?thesis by (simp only: vs nth_Cons_0 nth_Cons_Suc One_nat_def)
qed

lemma latin1_roundtrip: "list_all (\<lambda>c. c \<le> 0xFF) s \<Longrightarrow> from_latin1 (to_latin1 s) = s"
proof (induction s)
  case (Cons c s)
  have "ucast (ucast c :: byte) = c" if "c \<le> 0xFF"
    using that by (simp add: word_unat_eq_iff word_le_nat_alt unsigned_ucast_eq unsigned_take_bit_eq take_bit_nat_eq_self)
  then show ?case using Cons by (simp add: from_latin1_def to_latin1_def)
qed (simp add: from_latin1_def to_latin1_def)

lemma base64_inner_pad:
  assumes "base64_url_inner p = Some inner"
  shows "set p \<subseteq> set inner \<union> {0x3D}"
proof -
  have bl: "set xs \<subseteq> set (butlast xs) \<union> {last xs}" for xs :: qstring
    by (cases xs rule: rev_cases) auto
  show ?thesis
    using assms bl [of p] bl [of "butlast p"]
    by (auto simp: base64_url_inner_def skip_padding_def split: if_splits)
qed

lemma base64_char_latin1: "base64_url_char c \<Longrightarrow> c \<le> 0xFF"
  using base64_url_char_nat [of c] by (auto simp: word_le_nat_alt)

lemma example_qt_base64: "decodes_base64_url example_qt"
  unfolding decodes_base64_url_def
proof (intro allI impI conjI)
  fix p inner assume i: "base64_url_inner p = Some inner" and c: "list_all base64_url_char inner"
  have "list_all (\<lambda>c. c \<le> 0xFF) p"
    using base64_inner_pad [OF i] c base64_char_latin1 by (fastforce simp: list_all_iff)
  then have d: "qt_from_base64_url example_qt (to_latin1 p) = base64_groups (map base64_url_value inner)"
    by (simp add: example_qt_def example_from_base64_def latin1_roundtrip i)
  show "length (qt_from_base64_url example_qt (to_latin1 p)) = length inner * 3 div 4"
    by (simp add: d length_base64_groups)
  assume "length inner \<ge> 2"
  moreover have "\<forall>v \<in> set (map base64_url_value inner). v < 64"
    using c base64_url_value_chars(1) by (auto simp: list_all_iff)
  ultimately show "unat (qt_from_base64_url example_qt (to_latin1 p) ! 0)
      = base64_url_value (inner ! 0) * 4 + base64_url_value (inner ! 1) div 16"
    using base64_groups_first [of "map base64_url_value inner"] by (cases inner; cases "tl inner") (simp_all add: d)
qed

text \<open>C35.  The status that the settings show for a password, computed on its characters without
  decoding it, is the right one: for a proxy that has a secret (MTProto or web) the secret is always
  computed without failing an expectation, and the password is called valid exactly when the secret
  it decodes to, from hexadecimal or from base64url, has one of the shapes the protocol knows.\<close>

theorem proxy_password_valid_iff:
  assumes "decodes_base64_url q" and "px_type px = ProxyMtproto \<or> px_type px = ProxyWeb"
  shows "\<exists>secret. secret_from_mtproto_password q px = Some secret
    \<and> (mtproto_password_status (px_password px) = Some ProxyValid \<longleftrightarrow> known_secret secret)"
  using assms by (rule secret_known)

definition example_proxy :: proxy_data where
  "example_proxy = empty_proxy\<lparr> px_type := ProxyMtproto, px_host := [0x61], px_port := 443,
     px_password := [0x33, 0x51] @ replicate 21 0x41 \<rparr>"

lemma proxy_password_valid_iff_witness:
  "\<exists>secret. secret_from_mtproto_password example_qt example_proxy = Some secret \<and> known_secret secret"
proof -
  have "mtproto_password_status (px_password example_proxy) = Some ProxyValid" by code_simp
  then show ?thesis
    using proxy_password_valid_iff [OF example_qt_base64, of example_proxy]
    by (auto simp: example_proxy_def)
qed

text \<open>A web proxy that is valid has a host in its normal form, the port 443, no user and a
  secret of the plain or the padded kind; and for it the bridge key that opens the relay page is
  always computed, so none of the expectations of that function can fail for a proxy the settings
  accept.\<close>

lemma web_proxy_valid_has_bridge:
  assumes "decodes_base64_url q" and "px_type px = ProxyWeb"
  shows "(proxy_valid q px \<longleftrightarrow>
      px_host px = normalize_web_proxy_host q (px_host px) \<and> px_port px = 443 \<and> px_user px = []
      \<and> (\<exists>secret. secret_from_mtproto_password q px = Some secret
           \<and> (length secret = 16 \<or> (length secret = 17 \<and> secret ! 0 = 0xDD))))
    \<and> (proxy_valid q px \<longrightarrow> (\<exists>key. web_proxy_bridge_capability q px = Some key))"
proof -
  obtain secret st where s: "secret_from_mtproto_password q px = Some secret"
      "mtproto_password_status (px_password px) = Some ProxyValid \<longleftrightarrow> known_secret secret"
    and st: "mtproto_password_status (px_password px) = Some st"
    using secret_known [OF assms(1), of px] assms(2) mtproto_password_status_total by blast
  have iff: "proxy_valid q px \<longleftrightarrow>
      px_host px = normalize_web_proxy_host q (px_host px) \<and> px_port px = 443 \<and> px_user px = []
      \<and> (\<exists>secret. secret_from_mtproto_password q px = Some secret
           \<and> (length secret = 16 \<or> (length secret = 17 \<and> secret ! 0 = 0xDD)))"
    using s st assms(2) by (auto simp: proxy_valid_def proxy_status_def known_secret_def)
  moreover have "\<exists>key. web_proxy_bridge_capability q px = Some key" if "proxy_valid q px"
  proof -
    have "px_host px = normalize_web_proxy_host q (px_host px)" "secret \<noteq> []" using that iff s(1) by auto
    then show ?thesis using s(1) assms(2) by (simp add: web_proxy_bridge_capability_def)
  qed
  ultimately show ?thesis by blast
qed

lemma link_secret_hex: "list_all hex_char s \<Longrightarrow> link_secret s = s"
proof (induction s)
  case (Cons c s)
  have "\<not> hex_char 0x2B" "\<not> hex_char 0x2F" by (simp_all add: hex_char_def)
  with Cons.prems have "c \<noteq> 0x2B" "c \<noteq> 0x2F" by auto
  with Cons show ?case by (simp add: link_secret_def)
qed (simp add: link_secret_def)

lemma web_proxy_valid_hex:
  assumes "px_type px = ProxyWeb" "px_host px = normalize_web_proxy_host q (px_host px)" "px_port px = 443"
    "px_user px = []" "is_hex_password (px_password px)" "hex_bytes (px_password px) = Some bs" "length bs = 16"
  shows "proxy_valid q px"
proof -
  have "length (px_password px) div 2 = 16"
    using hex_bytes_total [of "px_password px"] assms(5-7) by (auto simp: is_hex_password_def)
  then show ?thesis
    using assms by (simp add: proxy_valid_def proxy_status_def mtproto_password_status_def hex_password_status_def
      secret_from_mtproto_password_def Let_def)
qed

text \<open>C36.  The empty host is its own normal form, so a web proxy without a host is called valid:
  a link whose server is not an acceptable host name (here, one without a dot) gives a proxy with
  an empty host that \<open>status\<close> accepts, although every other type of proxy is refused without a
  host and the form of the settings refuses this one too.\<close>

theorem web_link_empty_host_valid:
  assumes trim: "qt_trimmed q [] = []" and b: "decodes_base64_url q"
    and bad: "normalize_web_proxy_host q (fs FieldServer) = []" "fs FieldServer \<noteq> []"
    and secret: "is_hex_password (fs FieldSecret)" "length (fs FieldSecret) = 32"
  shows "px_host (proxy_data_from_fields q to_uint ProxyWeb fs) = []
    \<and> proxy_valid q (proxy_data_from_fields q to_uint ProxyWeb fs)
    \<and> (\<forall>f. pf_type f = ProxyWeb \<longrightarrow> normalize_web_proxy_host q (pf_web_host f) = []
          \<longrightarrow> collect_proxy_data q to_uint f = Inl FormWebHost)"
proof -
  let ?px = "proxy_data_from_fields q to_uint ProxyWeb fs"
  have n: "normalize_web_proxy_host q [] = []"
    using trim by (simp add: normalize_web_proxy_host_def)
  have "link_secret (fs FieldSecret) = fs FieldSecret"
    using secret(1) by (intro link_secret_hex) (simp add: is_hex_password_def)
  then have px: "px_type ?px = ProxyWeb" "px_host ?px = []" "px_port ?px = 443" "px_user ?px = []"
      "px_password ?px = fs FieldSecret"
    using bad by (simp_all add: proxy_data_from_fields_def empty_proxy_def Let_def)
  obtain bs where bs: "hex_bytes (fs FieldSecret) = Some bs" "length bs = 16"
    using hex_bytes_total [of "fs FieldSecret"] secret by (auto simp: is_hex_password_def)
  have "proxy_valid q ?px"
    using px n bs secret(1) by (simp add: web_proxy_valid_hex)
  moreover have "collect_proxy_data q to_uint f = Inl FormWebHost"
    if "pf_type f = ProxyWeb" "normalize_web_proxy_host q (pf_web_host f) = []" for f
    using that by (simp add: collect_proxy_data_def form_proxy_def empty_proxy_def Let_def)
  ultimately show ?thesis using px(2) by blast
qed

definition example_link :: "link_field \<Rightarrow> qstring" where
  "example_link f = (case f of FieldServer \<Rightarrow> [0x61] | FieldSecret \<Rightarrow> replicate 32 0x61 | _ \<Rightarrow> [])"

lemma web_link_empty_host_valid_witness:
  "proxy_valid example_qt (proxy_data_from_fields example_qt (\<lambda>_. 0) ProxyWeb example_link)"
proof -
  have "qt_trimmed example_qt [] = []" by (simp add: example_qt_def)
  moreover have "normalize_web_proxy_host example_qt (example_link FieldServer) = []" by code_simp
  moreover have "is_hex_password (example_link FieldSecret)" by code_simp
  ultimately show ?thesis
    using web_link_empty_host_valid [OF _ example_qt_base64] by (simp add: example_link_def)
qed

definition example_web_proxy :: proxy_data where
  "example_web_proxy = empty_proxy\<lparr> px_type := ProxyWeb, px_host := [0x61, 0x2E, 0x62], px_port := 443,
     px_password := replicate 32 0x61 \<rparr>"

lemma web_proxy_valid_has_bridge_witness:
  "proxy_valid example_qt example_web_proxy \<and> (\<exists>key. web_proxy_bridge_capability example_qt example_web_proxy = Some key)"
proof -
  have "proxy_valid example_qt example_web_proxy" by code_simp
  moreover have "px_type example_web_proxy = ProxyWeb" by (simp add: example_web_proxy_def)
  ultimately show ?thesis using web_proxy_valid_has_bridge [OF example_qt_base64] by blast
qed

end
