(* ===== verification/Proxy_Settings.thy ===== *)
theory Proxy_Settings
  imports Proxy_Data "HOL-Library.Multiset"
begin

text \<open>
  The proxy settings, \<open>Core::SettingsProxy\<close> of \<open>core/core_settings_proxy.h\<close> and \<open>.cpp\<close>: the list
  of proxies, the selected one, the indices that the rotation prefers, the edits of the list and
  the stored form.  \<open>QDataStream\<close> is a parameter, the record \<open>data_stream\<close>: a write gives the bytes
  it appends, a read gives whether the stream is still good, the value and the bytes left.
\<close>

section \<open>State\<close>

datatype proxy_mode = ProxySystem | ProxyEnabled | ProxyDisabled

record proxy_settings =
  ps_try_ipv6 :: bool
  ps_use_for_calls :: bool
  ps_rotation_enabled :: bool
  ps_check_ip_warning_shown :: bool
  ps_rotation_timeout :: int
  ps_mode :: proxy_mode
  ps_selected :: proxy_data
  ps_list :: "proxy_data list"
  ps_preferred :: "int list"

definition default_rotation_timeout :: int where
  "default_rotation_timeout = 10"

text \<open>The settings of a new profile; IPv6 is tried except on Windows.\<close>

definition initial_proxy_settings :: "bool \<Rightarrow> proxy_settings" where
  "initial_proxy_settings is_windows =
     \<lparr> ps_try_ipv6 = \<not> is_windows, ps_use_for_calls = False, ps_rotation_enabled = False,
       ps_check_ip_warning_shown = False, ps_rotation_timeout = default_rotation_timeout,
       ps_mode = ProxySystem, ps_selected = empty_proxy, ps_list = [], ps_preferred = [] \<rparr>"

definition ps_is_enabled :: "proxy_settings \<Rightarrow> bool" where
  "ps_is_enabled s \<longleftrightarrow> ps_mode s = ProxyEnabled"

section \<open>Preferred indices\<close>

definition normalize_preferred_step :: "int \<Rightarrow> int list \<Rightarrow> int \<Rightarrow> int list" where
  "normalize_preferred_step n filtered i =
     (if i < 0 \<or> i \<ge> n \<or> i \<in> set filtered then filtered else filtered @ [i])"

definition normalize_preferred_indices :: "int list \<Rightarrow> int \<Rightarrow> int list" where
  "normalize_preferred_indices is n = foldl (normalize_preferred_step n) [] is"

definition ps_set_rotation_timeout :: "int \<Rightarrow> proxy_settings \<Rightarrow> proxy_settings" where
  "ps_set_rotation_timeout v s = s\<lparr> ps_rotation_timeout := (if v > 0 then v else default_rotation_timeout) \<rparr>"

definition ps_set_preferred :: "int list \<Rightarrow> proxy_settings \<Rightarrow> proxy_settings" where
  "ps_set_preferred is s =
     s\<lparr> ps_preferred := normalize_preferred_indices is (int (length (ps_list s))) \<rparr>"

text \<open>The position of an element in a list, or its length: \<open>ranges::find\<close>.\<close>

definition find_index :: "('a \<Rightarrow> bool) \<Rightarrow> 'a list \<Rightarrow> nat" where
  "find_index P xs = length (takeWhile (\<lambda>x. \<not> P x) xs)"

text \<open>The promotion rotates the part of the list up to the index, so that it comes first.  An index
  that is found at the beginning changes nothing; in an empty list the search also ends at the
  beginning.\<close>

definition ps_promote_preferred :: "int \<Rightarrow> proxy_settings \<Rightarrow> bool \<times> proxy_settings" where
  "ps_promote_preferred i s =
     (if i < 0 \<or> i \<ge> int (length (ps_list s)) then (False, s)
      else
        (let is = ps_preferred s;
             at = find_index (\<lambda>j. j = i) is
         in if at = 0 then (False, s)
            else if at \<noteq> length is
              then (True, s\<lparr> ps_preferred := is ! at # take at is @ drop (Suc at) is \<rparr>)
            else (True, s\<lparr> ps_preferred := i # is \<rparr>)))"

section \<open>Edits of the list\<close>

definition ps_set_list :: "proxy_data list \<Rightarrow> proxy_settings \<Rightarrow> proxy_settings" where
  "ps_set_list l s = s\<lparr> ps_list := l, ps_preferred := [] \<rparr>"

definition ps_add :: "proxy_data \<Rightarrow> proxy_settings \<Rightarrow> proxy_settings" where
  "ps_add px s = s\<lparr> ps_list := ps_list s @ [px] \<rparr>"

definition raise_index :: "int \<Rightarrow> int \<Rightarrow> int" where
  "raise_index i j = (if j \<ge> i then j + 1 else j)"

definition ps_insert :: "int \<Rightarrow> proxy_data \<Rightarrow> proxy_settings \<Rightarrow> proxy_settings" where
  "ps_insert i px s =
     (let i = max 0 (min i (int (length (ps_list s))))
      in s\<lparr> ps_list := take (nat i) (ps_list s) @ [px] @ drop (nat i) (ps_list s),
            ps_preferred := map (raise_index i) (ps_preferred s) \<rparr>)"

definition lower_index :: "int \<Rightarrow> int \<Rightarrow> int" where
  "lower_index i j = (if j > i then j - 1 else j)"

text \<open>Note the order of the two steps on the preferred indices: first the larger ones are lowered,
  then the removed index is taken out.\<close>

definition ps_remove :: "qt_lib \<Rightarrow> proxy_data \<Rightarrow> proxy_settings \<Rightarrow> bool \<times> proxy_settings" where
  "ps_remove q px s =
     (let at = find_index (\<lambda>x. proxy_eq q x px) (ps_list s)
      in if at = length (ps_list s) then (False, s)
         else
           (let i = int at;
                lowered = map (lower_index i) (ps_preferred s)
            in (True, s\<lparr> ps_list := take at (ps_list s) @ drop (Suc at) (ps_list s),
                         ps_preferred := filter (\<lambda>j. j \<noteq> i) lowered \<rparr>)))"

definition ps_replace :: "qt_lib \<Rightarrow> proxy_data \<Rightarrow> proxy_data \<Rightarrow> proxy_settings \<Rightarrow> bool \<times> proxy_settings" where
  "ps_replace q was px s =
     (let at = find_index (\<lambda>x. proxy_eq q x was) (ps_list s)
      in if at = length (ps_list s) then (False, s)
         else (True, s\<lparr> ps_list := (ps_list s)[at := px] \<rparr>))"

definition ps_index_in_list :: "qt_lib \<Rightarrow> proxy_data \<Rightarrow> proxy_settings \<Rightarrow> int" where
  "ps_index_in_list q px s =
     (let at = find_index (\<lambda>x. proxy_eq q x px) (ps_list s)
      in if at = length (ps_list s) then - 1 else int at)"

section \<open>Stored form\<close>

record data_stream =
  ds_put_int :: "32 word \<Rightarrow> bytes"
  ds_put_string :: "qstring \<Rightarrow> bytes"
  ds_put_bytes :: "bytes \<Rightarrow> bytes"
  ds_get_int :: "bytes \<Rightarrow> bool \<times> 32 word \<times> bytes"
  ds_get_string :: "bytes \<Rightarrow> bool \<times> qstring \<times> bytes"
  ds_get_bytes :: "bytes \<Rightarrow> bool \<times> bytes \<times> bytes"

definition int32 :: "int \<Rightarrow> 32 word" where
  "int32 = word_of_int"

definition proxy_type_code :: "proxy_type \<Rightarrow> 32 word" where
  "proxy_type_code t = (case t of ProxyNone \<Rightarrow> 0 | ProxySocks5 \<Rightarrow> 1 | ProxyHttp \<Rightarrow> 2 | ProxyMtproto \<Rightarrow> 3 | ProxyWeb \<Rightarrow> 4)"

definition proxy_type_of_code :: "32 word \<Rightarrow> proxy_type" where
  "proxy_type_of_code c =
     (if c = 0 then ProxyNone else if c = 1 then ProxySocks5 else if c = 2 then ProxyHttp
      else if c = 3 then ProxyMtproto else if c = 4 then ProxyWeb else ProxyNone)"

definition proxy_mode_code :: "proxy_mode \<Rightarrow> 32 word" where
  "proxy_mode_code m = (case m of ProxySystem \<Rightarrow> 0 | ProxyEnabled \<Rightarrow> 1 | ProxyDisabled \<Rightarrow> 2)"

text \<open>An unknown value is \<open>Unexpected\<close>, the failure of the program.\<close>

definition proxy_mode_of_code :: "32 word \<Rightarrow> proxy_mode option" where
  "proxy_mode_of_code c =
     (if c = 0 then Some ProxySystem else if c = 1 then Some ProxyEnabled
      else if c = 2 then Some ProxyDisabled else None)"

definition bool_code :: "bool \<Rightarrow> 32 word" where
  "bool_code b = (if b then 1 else 0)"

definition serialize_proxy_data :: "data_stream \<Rightarrow> proxy_data \<Rightarrow> bytes" where
  "serialize_proxy_data ds px =
     ds_put_int ds (proxy_type_code (px_type px)) @ ds_put_string ds (px_host px)
     @ ds_put_int ds (px_port px) @ ds_put_string ds (px_user px) @ ds_put_string ds (px_password px)"

text \<open>The reader of one proxy does not look at the status of its stream.\<close>

definition deserialize_proxy_data :: "data_stream \<Rightarrow> bytes \<Rightarrow> proxy_data" where
  "deserialize_proxy_data ds bs =
     (let (_, type, r1) = ds_get_int ds bs;
          (_, host, r2) = ds_get_string ds r1;
          (_, port, r3) = ds_get_int ds r2;
          (_, user, r4) = ds_get_string ds r3;
          (_, password, _) = ds_get_string ds r4
      in empty_proxy\<lparr> px_type := proxy_type_of_code type, px_host := host, px_port := port,
           px_user := user, px_password := password \<rparr>)"

definition serialize_settings :: "data_stream \<Rightarrow> proxy_settings \<Rightarrow> bytes" where
  "serialize_settings ds s =
     ds_put_int ds (bool_code (ps_try_ipv6 s))
     @ ds_put_int ds (bool_code (ps_use_for_calls s))
     @ ds_put_int ds (proxy_mode_code (ps_mode s))
     @ ds_put_bytes ds (serialize_proxy_data ds (ps_selected s))
     @ ds_put_int ds (int32 (int (length (ps_list s))))
     @ concat (map (\<lambda>px. ds_put_bytes ds (serialize_proxy_data ds px)) (ps_list s))
     @ ds_put_int ds (bool_code (ps_check_ip_warning_shown s))
     @ ds_put_int ds (bool_code (ps_rotation_enabled s))
     @ ds_put_int ds (int32 (ps_rotation_timeout s))
     @ ds_put_int ds (int32 (int (length (ps_preferred s))))
     @ concat (map (\<lambda>i. ds_put_int ds (int32 i)) (ps_preferred s))"

text \<open>\<open>Serialize::ByteArrayReader\<close>: whether the stream is good, and what is left.  A read of a bad
  stream, or one that makes it bad, gives the default value.\<close>

type_synonym reader = "bool \<times> bytes"

definition reader_get :: "(bytes \<Rightarrow> bool \<times> 'a \<times> bytes) \<Rightarrow> 'a \<Rightarrow> reader \<Rightarrow> 'a \<times> reader" where
  "reader_get get dflt r =
     (if \<not> fst r then (dflt, r)
      else (case get (snd r) of (ok, v, rest) \<Rightarrow> (if ok then v else dflt, (ok, rest))))"

definition reader_at_end :: "reader \<Rightarrow> bool" where
  "reader_at_end r \<longleftrightarrow> snd r = []"

abbreviation reader_int :: "data_stream \<Rightarrow> reader \<Rightarrow> 32 word \<times> reader" where
  "reader_int ds \<equiv> reader_get (ds_get_int ds) 0"

fun reader_many :: "(reader \<Rightarrow> 'a \<times> reader) \<Rightarrow> nat \<Rightarrow> reader \<Rightarrow> 'a list \<times> reader" where
  "reader_many get 0 r = ([], r)"
| "reader_many get (Suc n) r =
     (let (v, r1) = get r; (vs, r2) = reader_many get n r1 in (v # vs, r2))"

text \<open>A value that is read only when the stream is not at its end, and keeps what it was otherwise.\<close>

definition reader_int_or :: "data_stream \<Rightarrow> 32 word \<Rightarrow> reader \<Rightarrow> 32 word \<times> reader" where
  "reader_int_or ds old r = (if reader_at_end r then (old, r) else reader_int ds r)"

text \<open>The proxies of the stored list: the ones that cannot be read are skipped, and their indices
  are taken out of the stored preference, the others being shifted.\<close>

definition skipped_indices :: "proxy_data list \<Rightarrow> int list" where
  "skipped_indices pxs = filter (\<lambda>i. px_type (pxs ! nat i) = ProxyNone) (map int [0..<length pxs])"

definition shift_preferred :: "int list \<Rightarrow> int \<Rightarrow> int" where
  "shift_preferred skipped i =
     (if i \<in> set skipped then - 1 else i - int (length (filter (\<lambda>k. k < i) skipped)))"

definition set_from_serialized :: "data_stream \<Rightarrow> bytes \<Rightarrow> proxy_settings \<Rightarrow> (bool \<times> proxy_settings) option" where
  "set_from_serialized ds bs s =
     (if bs = [] then Some (True, s)
      else
        (let (try_ipv6, r1) = reader_int ds (True, bs);
             (use_for_calls, r2) = reader_int ds r1;
             (mode, r3) = reader_int ds r2;
             (selected, r4) = reader_get (ds_get_bytes ds) [] r3;
             (count, r5) = reader_int ds r4
         in if fst r5 \<and> sint count < 0 then Some (False, s)
            else
              (let (items, r6) = (if fst r5 then reader_many (reader_get (ds_get_bytes ds) []) (nat (sint count)) r5
                                  else ([], r5));
                   read = map (deserialize_proxy_data ds) items;
                   skipped = skipped_indices read;
                   (ip_warning, r7) = reader_int_or ds 0 r6;
                   (rotation, r8) = reader_int_or ds (bool_code (ps_rotation_enabled s)) r7;
                   (timeout, r9) = reader_int_or ds (int32 (ps_rotation_timeout s)) r8;
                   (preferred_count, r10) = reader_int_or ds 0 r9
               in if \<not> reader_at_end r9 \<and> fst r10 \<and> sint preferred_count < 0 then Some (False, s)
                  else
                    (let (preferred, r11) = (if \<not> reader_at_end r9 \<and> fst r10
                                             then reader_many (reader_int ds) (nat (sint preferred_count)) r10
                                             else ([], r10))
                     in if \<not> fst r11 then Some (False, s)
                        else
                          (case proxy_mode_of_code mode of None \<Rightarrow> None
                           | Some m \<Rightarrow>
                               (let px = deserialize_proxy_data ds selected;
                                    shifted = (if skipped = [] then map sint preferred
                                               else map (shift_preferred skipped \<circ> sint) preferred)
                                in Some (True, ps_set_preferred shifted
                                     (ps_set_rotation_timeout (sint timeout)
                                       (s\<lparr> ps_try_ipv6 := (try_ipv6 = 1), ps_use_for_calls := (use_for_calls = 1),
                                           ps_check_ip_warning_shown := (ip_warning = 1),
                                           ps_rotation_enabled := (rotation = 1), ps_mode := m,
                                           ps_selected := (if px_type px = ProxyNone then empty_proxy else px),
                                           ps_list := filter (\<lambda>px. px_type px \<noteq> ProxyNone) read \<rparr>)))))))))"

section \<open>Searching\<close>

lemma find_index_le: "find_index P xs \<le> length xs"
  by (simp add: find_index_def length_takeWhile_le)

lemma find_index_nth: "find_index P xs < length xs \<Longrightarrow> P (xs ! find_index P xs)"
  using nth_length_takeWhile [of "\<lambda>x. \<not> P x" xs] by (simp add: find_index_def)

lemma find_index_before: "j < find_index P xs \<Longrightarrow> \<not> P (xs ! j)"
  unfolding find_index_def by (metis nth_mem set_takeWhileD takeWhile_nth)

lemma find_index_simps:
  "find_index P [] = 0" "find_index P (x # xs) = (if P x then 0 else Suc (find_index P xs))"
  by (simp_all add: find_index_def)

lemma find_index_length: "find_index P xs = length xs \<longleftrightarrow> (\<forall>x \<in> set xs. \<not> P x)"
  by (induction xs) (simp_all add: find_index_simps)

section \<open>Well-formed settings\<close>

definition settings_ok :: "proxy_settings \<Rightarrow> bool" where
  "settings_ok s \<longleftrightarrow> ps_rotation_timeout s > 0 \<and> distinct (ps_preferred s)
     \<and> (\<forall>i \<in> set (ps_preferred s). 0 \<le> i \<and> i < int (length (ps_list s)))"

lemma normalize_preferred_ok:
  assumes "distinct fs" and "\<forall>i \<in> set fs. 0 \<le> i \<and> i < n"
  shows "distinct (foldl (normalize_preferred_step n) fs is)
    \<and> (\<forall>i \<in> set (foldl (normalize_preferred_step n) fs is). 0 \<le> i \<and> i < n)"
  using assms
proof (induction "is" arbitrary: fs)
  case (Cons i "is")
  have "distinct (normalize_preferred_step n fs i)"
    and "\<forall>j \<in> set (normalize_preferred_step n fs i). 0 \<le> j \<and> j < n"
    using Cons.prems by (auto simp: normalize_preferred_step_def)
  then show ?case unfolding foldl_Cons by (rule Cons.IH)
qed simp

lemma normalize_preferred_same:
  assumes "distinct (fs @ is)" and "\<forall>i \<in> set is. 0 \<le> i \<and> i < n"
  shows "foldl (normalize_preferred_step n) fs is = fs @ is"
  using assms
proof (induction "is" arbitrary: fs)
  case (Cons i "is")
  then have "normalize_preferred_step n fs i = fs @ [i]" by (auto simp: normalize_preferred_step_def)
  moreover have "foldl (normalize_preferred_step n) (fs @ [i]) is = (fs @ [i]) @ is"
    using Cons.prems by (intro Cons.IH) auto
  ultimately show ?case by simp
qed simp

lemma settings_ok_set_preferred: "ps_rotation_timeout s > 0 \<Longrightarrow> settings_ok (ps_set_preferred is s)"
  using normalize_preferred_ok [of "[]" "int (length (ps_list s))" "is"]
  by (simp add: settings_ok_def ps_set_preferred_def normalize_preferred_indices_def)

lemma settings_ok_initial: "settings_ok (initial_proxy_settings w)"
  by (simp add: settings_ok_def initial_proxy_settings_def default_rotation_timeout_def)

lemma timeout_positive: "ps_rotation_timeout (ps_set_rotation_timeout v s) > 0"
  by (simp add: ps_set_rotation_timeout_def default_rotation_timeout_def)

lemma settings_ok_promote:
  assumes "settings_ok s"
  shows "settings_ok (snd (ps_promote_preferred i s))"
proof (cases "i < 0 \<or> i \<ge> int (length (ps_list s))")
  case False
  let ?is = "ps_preferred s" and ?at = "find_index (\<lambda>j. j = i) (ps_preferred s)"
  have ok: "distinct ?is" "\<forall>j \<in> set ?is. 0 \<le> j \<and> j < int (length (ps_list s))" "ps_rotation_timeout s > 0"
    using assms by (simp_all add: settings_ok_def)
  consider "?at = 0" | "?at \<noteq> 0" "?at < length ?is" | "?at \<noteq> 0" "?at = length ?is"
    using find_index_le [of "\<lambda>j. j = i" ?is] by linarith
  then show ?thesis
  proof cases
    case 1
    then show ?thesis using assms False by (simp add: ps_promote_preferred_def)
  next
    case 2
    have split: "?is = take ?at ?is @ ?is ! ?at # drop (Suc ?at) ?is"
      using 2(2) by (rule id_take_nth_drop)
    have "mset (?is ! ?at # take ?at ?is @ drop (Suc ?at) ?is) = mset ?is"
      by (subst (5) split) simp
    then have "distinct (?is ! ?at # take ?at ?is @ drop (Suc ?at) ?is)"
      and "set (?is ! ?at # take ?at ?is @ drop (Suc ?at) ?is) = set ?is"
      using ok(1) mset_eq_imp_distinct_iff mset_eq_setD by blast+
    then show ?thesis using ok 2 False by (simp add: ps_promote_preferred_def settings_ok_def Let_def)
  next
    case 3
    then have "i \<notin> set ?is" using find_index_length [of "\<lambda>j. j = i" ?is] by auto
    then show ?thesis using ok 3 False by (simp add: ps_promote_preferred_def settings_ok_def Let_def)
  qed
qed (use assms in \<open>simp add: ps_promote_preferred_def\<close>)

lemma settings_ok_add: "settings_ok s \<Longrightarrow> settings_ok (ps_add px s)"
  by (fastforce simp: settings_ok_def ps_add_def)

lemma settings_ok_edit:
  "distinct is \<Longrightarrow> \<forall>i \<in> set is. 0 \<le> i \<and> i < int (length l) \<Longrightarrow> ps_rotation_timeout s > 0
    \<Longrightarrow> settings_ok (s\<lparr> ps_list := l, ps_preferred := is \<rparr>)"
  by (simp add: settings_ok_def)

lemma inj_raise_index: "inj_on (raise_index i) A"
  by (auto simp: inj_on_def raise_index_def split: if_splits)

lemma settings_ok_insert:
  assumes "settings_ok s"
  shows "settings_ok (ps_insert i px s)"
proof -
  let ?i = "max 0 (min i (int (length (ps_list s))))"
  have "int (length (take (nat ?i) (ps_list s) @ [px] @ drop (nat ?i) (ps_list s))) = int (length (ps_list s)) + 1"
    by simp
  moreover have "distinct (map (raise_index ?i) (ps_preferred s))"
    and "\<forall>j \<in> set (map (raise_index ?i) (ps_preferred s)). 0 \<le> j \<and> j < int (length (ps_list s)) + 1"
    using assms inj_raise_index by (auto simp: settings_ok_def distinct_map raise_index_def)
  ultimately show ?thesis
    using assms unfolding ps_insert_def Let_def
    by (intro settings_ok_edit) (simp_all only: settings_ok_def)
qed

text \<open>The two steps of a removal on one index: what is left is the image of the indices that are
  neither the removed one nor the one after it.\<close>

lemma lowered_preferred:
  "filter (\<lambda>j. j \<noteq> i) (map (lower_index i) is) = map (lower_index i) (filter (\<lambda>j. j \<noteq> i \<and> j \<noteq> i + 1) is)"
  by (induction "is") (auto simp: lower_index_def)

lemma inj_lower_index: "inj_on (lower_index i) {j. j \<noteq> i \<and> j \<noteq> i + 1}"
  by (auto simp: inj_on_def lower_index_def split: if_splits)

lemma distinct_lowered: "distinct is \<Longrightarrow> distinct (filter (\<lambda>j. j \<noteq> i) (map (lower_index i) is))"
  unfolding lowered_preferred distinct_map
  by (auto intro: inj_on_subset [OF inj_lower_index])

lemma lowered_range:
  "\<forall>j \<in> set is. 0 \<le> j \<and> j < n \<Longrightarrow> 0 \<le> i \<Longrightarrow> i < n \<Longrightarrow>
    \<forall>j \<in> set (filter (\<lambda>j. j \<noteq> i) (map (lower_index i) is)). 0 \<le> j \<and> j < n - 1"
  unfolding lowered_preferred by (auto simp: lower_index_def)

lemma settings_ok_remove:
  assumes "settings_ok s"
  shows "settings_ok (snd (ps_remove q px s))"
proof -
  let ?at = "find_index (\<lambda>x. proxy_eq q x px) (ps_list s)"
  show ?thesis
  proof (cases "?at = length (ps_list s)")
    case False
    then have lt: "?at < length (ps_list s)" using find_index_le [of _ "ps_list s"] le_neq_implies_less by blast
    have ok: "distinct (ps_preferred s)" "\<forall>j \<in> set (ps_preferred s). 0 \<le> j \<and> j < int (length (ps_list s))"
      "ps_rotation_timeout s > 0" using assms by (simp_all add: settings_ok_def)
    have len: "int (length (take ?at (ps_list s) @ drop (Suc ?at) (ps_list s))) = int (length (ps_list s)) - 1"
      using lt by simp
    have "\<forall>j \<in> set (filter (\<lambda>j. j \<noteq> int ?at) (map (lower_index (int ?at)) (ps_preferred s))).
        0 \<le> j \<and> j < int (length (take ?at (ps_list s) @ drop (Suc ?at) (ps_list s)))"
      unfolding len by (rule lowered_range [OF ok(2)]) (use lt in simp_all)
    then show ?thesis
      unfolding ps_remove_def Let_def if_not_P [OF False] snd_conv
      by (intro settings_ok_edit distinct_lowered ok)
  qed (use assms in \<open>simp add: ps_remove_def Let_def\<close>)
qed

lemma settings_ok_replace: "settings_ok s \<Longrightarrow> settings_ok (snd (ps_replace q was px s))"
  by (simp add: settings_ok_def ps_replace_def Let_def)

lemma settings_ok_load:
  assumes "settings_ok s" and "set_from_serialized ds bs s = Some (b, s')"
  shows "settings_ok s'"
  using assms
  by (auto simp: set_from_serialized_def Let_def settings_ok_set_preferred timeout_positive
    split: if_splits prod.splits option.splits)

section \<open>Reading what was written\<close>

text \<open>The documented behaviour of \<open>QDataStream\<close> that the stored form relies on: reading gives back
  what was written and leaves the rest, for arrays that a 32-bit length can describe.\<close>

definition storable_length :: "'a list \<Rightarrow> bool" where
  "storable_length xs \<longleftrightarrow> length xs < 2 ^ 30"

definition data_stream_ok :: "data_stream \<Rightarrow> bool" where
  "data_stream_ok ds \<longleftrightarrow>
     (\<forall>n r. ds_get_int ds (ds_put_int ds n @ r) = (True, n, r))
     \<and> (\<forall>n. ds_put_int ds n \<noteq> [])
     \<and> (\<forall>s r. storable_length s \<longrightarrow> ds_get_string ds (ds_put_string ds s @ r) = (True, s, r))
     \<and> (\<forall>b r. storable_length b \<longrightarrow> ds_get_bytes ds (ds_put_bytes ds b @ r) = (True, b, r))"

definition storable_proxy :: "data_stream \<Rightarrow> proxy_data \<Rightarrow> bool" where
  "storable_proxy ds px \<longleftrightarrow> storable_length (px_host px) \<and> storable_length (px_user px)
     \<and> storable_length (px_password px) \<and> storable_length (serialize_proxy_data ds px)
     \<and> px_resolved px = [] \<and> px_expire_at px = 0"

lemma stored_int: "data_stream_ok ds \<Longrightarrow> reader_int ds (True, ds_put_int ds n @ r) = (n, (True, r))"
  by (simp add: data_stream_ok_def reader_get_def)

lemma stored_bytes:
  "data_stream_ok ds \<Longrightarrow> storable_length b \<Longrightarrow> reader_get (ds_get_bytes ds) [] (True, ds_put_bytes ds b @ r) = (b, (True, r))"
  by (simp add: data_stream_ok_def reader_get_def)

lemma stored_int_or: "data_stream_ok ds \<Longrightarrow> reader_int_or ds old (True, ds_put_int ds n @ r) = (n, (True, r))"
  by (simp add: reader_int_or_def reader_at_end_def stored_int) (simp add: data_stream_ok_def)

lemma stored_not_end: "data_stream_ok ds \<Longrightarrow> \<not> reader_at_end (b, ds_put_int ds n @ r)"
  by (simp add: reader_at_end_def data_stream_ok_def)

lemma stored_many_bytes:
  "data_stream_ok ds \<Longrightarrow> \<forall>b \<in> set bs. storable_length b \<Longrightarrow>
    reader_many (reader_get (ds_get_bytes ds) []) (length bs) (True, concat (map (ds_put_bytes ds) bs) @ r)
      = (bs, (True, r))"
  by (induction bs) (simp_all add: stored_bytes)

lemma stored_many_ints:
  "data_stream_ok ds \<Longrightarrow> reader_many (reader_int ds) (length ns) (True, concat (map (ds_put_int ds) ns)) = (ns, (True, []))"
  by (induction ns) (simp_all add: stored_int)

lemma stored_proxy:
  assumes ds: "data_stream_ok ds" and "storable_proxy ds px"
  shows "deserialize_proxy_data ds (serialize_proxy_data ds px) = px"
proof -
  have "proxy_type_of_code (proxy_type_code t) = t" for t
    by (cases t) (simp_all add: proxy_type_of_code_def proxy_type_code_def)
  moreover have "ds_get_string ds (ds_put_string ds s) = (True, s, [])" if "storable_length s" for s
    using ds that append_Nil2 unfolding data_stream_ok_def by metis
  ultimately show ?thesis
    using ds assms by (simp add: deserialize_proxy_data_def serialize_proxy_data_def storable_proxy_def
      data_stream_ok_def empty_proxy_def)
qed

lemma sint_int32: "- (2 ^ 31) \<le> i \<Longrightarrow> i < 2 ^ 31 \<Longrightarrow> sint (int32 i) = i"
  by (simp add: int32_def sint_word_ariths signed_of_int signed_take_bit_int_eq_self)

lemma bool_code_eq_1 [simp]: "bool_code b = 1 \<longleftrightarrow> b"
  by (simp add: bool_code_def)

lemma proxy_mode_of_code_code [simp]: "proxy_mode_of_code (proxy_mode_code m) = Some m"
  by (cases m) (simp_all add: proxy_mode_of_code_def proxy_mode_code_def)

lemma skipped_none: "\<forall>px \<in> set pxs. px_type px \<noteq> ProxyNone \<Longrightarrow> skipped_indices pxs = []"
  by (simp add: skipped_indices_def)

text \<open>Settings that can be stored: well formed, with integers of the width of the program's and
  proxies that were read or made without cached addresses.\<close>

definition storable_settings :: "data_stream \<Rightarrow> proxy_settings \<Rightarrow> bool" where
  "storable_settings ds s \<longleftrightarrow> settings_ok s \<and> ps_rotation_timeout s < 2 ^ 31 \<and> length (ps_list s) < 2 ^ 30
     \<and> (\<forall>px \<in> set (ps_list s). storable_proxy ds px \<and> px_type px \<noteq> ProxyNone)
     \<and> storable_proxy ds (ps_selected s)
     \<and> (px_type (ps_selected s) = ProxyNone \<longrightarrow> ps_selected s = empty_proxy)"

lemma preferred_length: "settings_ok s \<Longrightarrow> length (ps_preferred s) \<le> length (ps_list s)"
proof -
  assume ok: "settings_ok s"
  then have "length (ps_preferred s) = card (set (ps_preferred s))"
    by (simp add: settings_ok_def distinct_card)
  also have "\<dots> \<le> card {0..<int (length (ps_list s))}"
    using ok by (intro card_mono) (auto simp: settings_ok_def)
  finally show ?thesis by simp
qed

lemma settings_roundtrip:
  assumes ds: "data_stream_ok ds" and s: "storable_settings ds s"
  shows "set_from_serialized ds (serialize_settings ds s) s0 = Some (True, s)"
proof -
  let ?items = "map (serialize_proxy_data ds) (ps_list s)"
  let ?prefs = "map int32 (ps_preferred s)"
  have ok: "settings_ok s" and len: "length (ps_list s) < 2 ^ 30"
    and list: "\<forall>px \<in> set (ps_list s). storable_proxy ds px \<and> px_type px \<noteq> ProxyNone"
    and sel: "storable_proxy ds (ps_selected s)" "px_type (ps_selected s) = ProxyNone \<longrightarrow> ps_selected s = empty_proxy"
    using s by (simp_all add: storable_settings_def)
  have n1: "sint (int32 (int (length (ps_list s)))) = int (length (ps_list s))"
    using len by (intro sint_int32) simp_all
  have n2: "sint (int32 (int (length (ps_preferred s)))) = int (length (ps_preferred s))"
    using len preferred_length [OF ok] by (intro sint_int32) simp_all
  have n3: "sint (int32 (ps_rotation_timeout s)) = ps_rotation_timeout s"
    using ok s by (intro sint_int32) (simp_all add: storable_settings_def settings_ok_def)
  have n4: "map sint ?prefs = ps_preferred s"
  proof -
    have "sint (int32 i) = i" if "i \<in> set (ps_preferred s)" for i
    proof (rule sint_int32)
      have "0 \<le> i" "i < int (length (ps_list s))" using ok that by (simp_all add: settings_ok_def)
      moreover have "int (length (ps_list s)) < 2 ^ 30" using len by simp
      ultimately show "- (2 ^ 31) \<le> i" "i < 2 ^ 31" by simp_all
    qed
    then show ?thesis by (simp add: map_idI)
  qed
  have items: "\<forall>b \<in> set ?items. storable_length b"
    and read: "map (deserialize_proxy_data ds) ?items = ps_list s"
    using list by (auto simp: storable_proxy_def stored_proxy [OF ds] intro!: map_idI)
  have many: "reader_many (reader_get (ds_get_bytes ds) []) (length (ps_list s))
      (True, concat (map (\<lambda>px. ds_put_bytes ds (serialize_proxy_data ds px)) (ps_list s)) @ r) = (?items, (True, r))" for r
    using stored_many_bytes [OF ds items, of r] by (simp add: comp_def)
  have manyi: "reader_many (reader_int ds) (length (ps_preferred s))
      (True, concat (map (\<lambda>i. ds_put_int ds (int32 i)) (ps_preferred s))) = (?prefs, (True, []))"
    using stored_many_ints [OF ds, of ?prefs] by (simp add: comp_def)
  have keep: "filter (\<lambda>px. px_type px \<noteq> ProxyNone) (ps_list s) = ps_list s"
    and skip: "skipped_indices (ps_list s) = []"
    using list by (auto simp: skipped_none)
  have sels: "storable_length (serialize_proxy_data ds (ps_selected s))" using sel by (simp add: storable_proxy_def)
  have pref: "normalize_preferred_indices (ps_preferred s) (int (length (ps_list s))) = ps_preferred s"
    using normalize_preferred_same [of "[]" "ps_preferred s" "int (length (ps_list s))"] ok
    by (simp add: normalize_preferred_indices_def settings_ok_def)
  have ne: "serialize_settings ds s \<noteq> []"
    using ds by (simp add: serialize_settings_def data_stream_ok_def)
  have read': "map (deserialize_proxy_data ds \<circ> serialize_proxy_data ds) (ps_list s) = ps_list s"
    and n4': "map (sint \<circ> int32) (ps_preferred s) = ps_preferred s"
    using read n4 by (simp_all add: comp_def)
  have t: "ps_rotation_timeout s > 0" using ok by (simp add: settings_ok_def)
  have same: "ps_set_preferred (ps_preferred s) (ps_set_rotation_timeout (ps_rotation_timeout s)
      (s0\<lparr> ps_try_ipv6 := ps_try_ipv6 s, ps_use_for_calls := ps_use_for_calls s,
           ps_check_ip_warning_shown := ps_check_ip_warning_shown s,
           ps_rotation_enabled := ps_rotation_enabled s, ps_mode := ps_mode s,
           ps_selected := ps_selected s, ps_list := ps_list s \<rparr>)) = s"
    using t pref by (intro proxy_settings.equality)
      (simp_all add: ps_set_preferred_def ps_set_rotation_timeout_def)
  have sel': "(if px_type (ps_selected s) = ProxyNone then empty_proxy else ps_selected s) = ps_selected s"
    using sel(2) by auto
  show ?thesis
    unfolding set_from_serialized_def if_not_P [OF ne] unfolding serialize_settings_def
    by (simp add: stored_int [OF ds] stored_bytes [OF ds sels] Let_def n1 many read' stored_int_or [OF ds]
      stored_not_end [OF ds] n2 manyi skip keep n3 n4' stored_proxy [OF ds sel(1)] sel' same del: if_image_distrib cong: if_cong)
qed

section \<open>What the edits do to the preference\<close>

text \<open>The proxies that the rotation prefers, in their order.\<close>

definition preferred_proxies :: "proxy_settings \<Rightarrow> proxy_data list" where
  "preferred_proxies s = map (\<lambda>i. ps_list s ! nat i) (ps_preferred s)"

lemma preferred_add: "settings_ok s \<Longrightarrow> preferred_proxies (ps_add px s) = preferred_proxies s"
  by (auto simp: preferred_proxies_def ps_add_def settings_ok_def nth_append)

lemma nth_inserted:
  assumes "0 \<le> i" "i \<le> int (length l)" "0 \<le> j" "j < int (length l)"
  shows "(take (nat i) l @ [px] @ drop (nat i) l) ! nat (raise_index i j) = l ! nat j"
proof -
  obtain m n where mn: "i = int m" "j = int n" using assms(1,3) zero_le_imp_eq_int by metis
  have "(take m l @ [px] @ drop m l) ! (if n \<ge> m then Suc n else n) = l ! n"
    using assms(2,4) mn by (simp add: nth_append min_def Suc_diff_le)
  then show ?thesis by (simp add: mn raise_index_def nat_add_distrib split: if_splits)
qed

lemma preferred_insert:
  assumes "settings_ok s"
  shows "preferred_proxies (ps_insert i px s) = preferred_proxies s"
proof -
  let ?i = "max 0 (min i (int (length (ps_list s))))"
  have "(take (nat ?i) (ps_list s) @ [px] @ drop (nat ?i) (ps_list s)) ! nat (raise_index ?i j) = ps_list s ! nat j"
    if "j \<in> set (ps_preferred s)" for j
    using assms that by (intro nth_inserted) (auto simp: settings_ok_def)
  then show ?thesis
    unfolding preferred_proxies_def ps_insert_def Let_def by simp
qed

lemma nth_removed:
  assumes "i < length l" "0 \<le> j" "j < int (length l)" "j \<noteq> int i"
  shows "(take i l @ drop (Suc i) l) ! nat (lower_index (int i) j) = l ! nat j"
proof -
  obtain n where n: "j = int n" using assms(2) zero_le_imp_eq_int by metis
  have "(take i l @ drop (Suc i) l) ! (if n > i then n - 1 else n) = l ! n"
    using assms(1,3,4) n by (auto simp: nth_append min_def)
  then show ?thesis by (simp add: n lower_index_def nat_diff_distrib split: if_splits)
qed

lemma preferred_remove:
  assumes ok: "settings_ok s" and i: "ps_index_in_list q px s = int i"
  shows "preferred_proxies (snd (ps_remove q px s))
    = map (\<lambda>j. ps_list s ! nat j) (filter (\<lambda>j. j \<noteq> int i \<and> j \<noteq> int i + 1) (ps_preferred s))"
proof -
  let ?at = "find_index (\<lambda>x. proxy_eq q x px) (ps_list s)"
  have at: "?at \<noteq> length (ps_list s)" "?at = i" using i by (auto simp: ps_index_in_list_def Let_def split: if_splits)
  then have lt: "i < length (ps_list s)" using find_index_le [of _ "ps_list s"] le_neq_implies_less by blast
  have "(take i (ps_list s) @ drop (Suc i) (ps_list s)) ! nat (lower_index (int i) j) = ps_list s ! nat j"
    if "j \<in> set (filter (\<lambda>j. j \<noteq> int i \<and> j \<noteq> int i + 1) (ps_preferred s))" for j
    using that ok lt by (intro nth_removed) (auto simp: settings_ok_def)
  then show ?thesis
    unfolding preferred_proxies_def ps_remove_def Let_def if_not_P [OF at(1)] snd_conv
    by (simp add: lowered_preferred at(2) del: filter_map)
qed

section \<open>Sequences of calls\<close>

text \<open>The calls that change the settings; the last one is the only way stored settings come in.\<close>

datatype settings_call =
    SetTryIPv6 bool
  | SetUseForCalls bool
  | SetRotationEnabled bool
  | SetCheckIpWarning bool
  | SetRotationTimeout int
  | SetMode proxy_mode
  | SetSelected proxy_data
  | SetPreferred "int list"
  | PromotePreferred int
  | SetProxyList "proxy_data list"
  | AddToList proxy_data
  | InsertToList int proxy_data
  | RemoveFromList proxy_data
  | ReplaceInList proxy_data proxy_data
  | LoadSerialized bytes

fun settings_apply :: "qt_lib \<Rightarrow> data_stream \<Rightarrow> settings_call \<Rightarrow> proxy_settings \<Rightarrow> proxy_settings option" where
  "settings_apply q ds (SetTryIPv6 b) s = Some (s\<lparr> ps_try_ipv6 := b \<rparr>)"
| "settings_apply q ds (SetUseForCalls b) s = Some (s\<lparr> ps_use_for_calls := b \<rparr>)"
| "settings_apply q ds (SetRotationEnabled b) s = Some (s\<lparr> ps_rotation_enabled := b \<rparr>)"
| "settings_apply q ds (SetCheckIpWarning b) s = Some (s\<lparr> ps_check_ip_warning_shown := b \<rparr>)"
| "settings_apply q ds (SetRotationTimeout v) s = Some (ps_set_rotation_timeout v s)"
| "settings_apply q ds (SetMode m) s = Some (s\<lparr> ps_mode := m \<rparr>)"
| "settings_apply q ds (SetSelected px) s = Some (s\<lparr> ps_selected := px \<rparr>)"
| "settings_apply q ds (SetPreferred is) s = Some (ps_set_preferred is s)"
| "settings_apply q ds (PromotePreferred i) s = Some (snd (ps_promote_preferred i s))"
| "settings_apply q ds (SetProxyList l) s = Some (ps_set_list l s)"
| "settings_apply q ds (AddToList px) s = Some (ps_add px s)"
| "settings_apply q ds (InsertToList i px) s = Some (ps_insert i px s)"
| "settings_apply q ds (RemoveFromList px) s = Some (snd (ps_remove q px s))"
| "settings_apply q ds (ReplaceInList was px) s = Some (snd (ps_replace q was px s))"
| "settings_apply q ds (LoadSerialized bs) s = map_option snd (set_from_serialized ds bs s)"

fun settings_run :: "qt_lib \<Rightarrow> data_stream \<Rightarrow> settings_call list \<Rightarrow> proxy_settings \<Rightarrow> proxy_settings option" where
  "settings_run q ds [] s = Some s"
| "settings_run q ds (c # cs) s = Option.bind (settings_apply q ds c s) (settings_run q ds cs)"

lemma settings_ok_fields [simp]:
  "settings_ok (s\<lparr> ps_try_ipv6 := b \<rparr>) = settings_ok s"
  "settings_ok (s\<lparr> ps_use_for_calls := b \<rparr>) = settings_ok s"
  "settings_ok (s\<lparr> ps_rotation_enabled := b \<rparr>) = settings_ok s"
  "settings_ok (s\<lparr> ps_check_ip_warning_shown := b \<rparr>) = settings_ok s"
  "settings_ok (s\<lparr> ps_mode := m \<rparr>) = settings_ok s"
  "settings_ok (s\<lparr> ps_selected := px \<rparr>) = settings_ok s"
  by (simp_all add: settings_ok_def)

lemma settings_ok_timeout: "settings_ok s \<Longrightarrow> settings_ok (ps_set_rotation_timeout v s)"
  by (simp add: settings_ok_def ps_set_rotation_timeout_def default_rotation_timeout_def)

lemma settings_ok_positive: "settings_ok s \<Longrightarrow> ps_rotation_timeout s > 0"
  by (simp add: settings_ok_def)

lemma settings_ok_set_list: "settings_ok s \<Longrightarrow> settings_ok (ps_set_list l s)"
  by (simp add: settings_ok_def ps_set_list_def)

lemmas settings_ok_intros = settings_ok_timeout settings_ok_set_list settings_ok_promote settings_ok_add
  settings_ok_insert settings_ok_remove settings_ok_replace settings_ok_set_preferred settings_ok_positive

lemma settings_ok_apply:
  assumes "settings_ok s" and "settings_apply q ds c s = Some s'"
  shows "settings_ok s'"
  using assms by (cases c) (auto intro: settings_ok_intros dest: settings_ok_load)

lemma settings_ok_run: "settings_ok s \<Longrightarrow> settings_run q ds cs s = Some s' \<Longrightarrow> settings_ok s'"
  by (induction cs arbitrary: s) (auto simp: bind_eq_Some_conv dest: settings_ok_apply)

text \<open>The calls that the program makes: the preference is set as a whole only by loading.\<close>

definition learns_preference :: "settings_call \<Rightarrow> bool" where
  "learns_preference c \<longleftrightarrow> (case c of SetPreferred _ \<Rightarrow> True | LoadSerialized _ \<Rightarrow> True | _ \<Rightarrow> False)"

lemma promote_empty: "ps_preferred s = [] \<Longrightarrow> ps_promote_preferred i s = (False, s)"
  by (simp add: ps_promote_preferred_def find_index_simps)

lemma preference_stays_empty_apply:
  "ps_preferred s = [] \<Longrightarrow> \<not> learns_preference c \<Longrightarrow> settings_apply q ds c s = Some s' \<Longrightarrow> ps_preferred s' = []"
  by (cases c) (auto simp: learns_preference_def promote_empty ps_set_rotation_timeout_def ps_set_list_def
    ps_add_def ps_insert_def ps_remove_def ps_replace_def Let_def)

lemma preference_stays_empty_run:
  "ps_preferred s = [] \<Longrightarrow> list_all (\<lambda>c. \<not> learns_preference c) cs \<Longrightarrow> settings_run q ds cs s = Some s'
    \<Longrightarrow> ps_preferred s' = []"
  by (induction cs arbitrary: s) (auto simp: bind_eq_Some_conv dest: preference_stays_empty_apply)

section \<open>An instance of the stream, for the examples\<close>

fun example_get_bytes :: "bytes \<Rightarrow> bool \<times> bytes \<times> bytes" where
  "example_get_bytes (t # b # r) =
     (if t = 0 then (True, [], b # r)
      else (case example_get_bytes r of (ok, bs, r') \<Rightarrow> (ok, b # bs, r')))"
| "example_get_bytes [t] = (t = 0, [], [])"
| "example_get_bytes [] = (False, [], [])"

definition example_put_bytes :: "bytes \<Rightarrow> bytes" where
  "example_put_bytes bs = concat (map (\<lambda>b. [1, b]) bs) @ [0]"

fun example_get_int :: "bytes \<Rightarrow> bool \<times> 32 word \<times> bytes" where
  "example_get_int (a # b # c # d # r) = (True, le32 a b c d, r)"
| "example_get_int _ = (False, 0, [])"

definition example_stream :: data_stream where
  "example_stream = \<lparr> ds_put_int = le32_bytes,
     ds_put_string = (\<lambda>s. example_put_bytes (ints_bytes (map ucast s))),
     ds_put_bytes = example_put_bytes,
     ds_get_int = example_get_int,
     ds_get_string = (\<lambda>bs. case example_get_bytes bs of (ok, b, r) \<Rightarrow> (ok, map ucast (bytes_ints b), r)),
     ds_get_bytes = example_get_bytes \<rparr>"

lemma example_bytes_roundtrip: "example_get_bytes (example_put_bytes bs @ r) = (True, bs, r)"
proof (induction bs)
  case Nil
  then show ?case by (cases r) (simp_all add: example_put_bytes_def)
qed (simp add: example_put_bytes_def)

lemma example_stream_ok: "data_stream_ok example_stream"
proof -
  have "ucast (ucast c :: 32 word) = c" for c :: qchar
    by (rule bit_word_eqI) (auto simp: bit_simps dest: bit_imp_le_length)
  then have "map ucast (bytes_ints (ints_bytes (map ucast s))) = s" for s :: qstring
    by (simp add: comp_def)
  then show ?thesis
    by (simp add: data_stream_ok_def example_stream_def example_bytes_roundtrip le32_bytes_def le32_of_word)
qed

section \<open>Properties\<close>

text \<open>C32.  The settings stay well formed: after any sequence of calls that returns, from a new
  profile, the rotation timeout is positive and the preferred indices are distinct and inside the
  list, whatever indices, proxies and stored bytes the calls were given.\<close>

theorem proxy_settings_well_formed:
  assumes "settings_run q ds cs (initial_proxy_settings w) = Some s"
  shows "ps_rotation_timeout s > 0 \<and> distinct (ps_preferred s)
    \<and> (\<forall>i \<in> set (ps_preferred s). 0 \<le> i \<and> i < int (length (ps_list s)))"
  using settings_ok_run [OF settings_ok_initial assms] by (simp add: settings_ok_def)

lemma proxy_settings_well_formed_witness:
  "\<exists>s. settings_run example_qt example_stream [AddToList empty_proxy, SetPreferred [3, 0, 0]]
      (initial_proxy_settings False) = Some s \<and> distinct (ps_preferred s) \<and> ps_preferred s = [0]"
proof -
  have r: "settings_run example_qt example_stream [AddToList empty_proxy, SetPreferred [3, 0, 0]]
      (initial_proxy_settings False) = Some (ps_set_preferred [3, 0, 0] (ps_add empty_proxy (initial_proxy_settings False)))"
    by simp
  show ?thesis
    using proxy_settings_well_formed [OF r]
    by (auto simp: ps_set_preferred_def ps_add_def initial_proxy_settings_def normalize_preferred_indices_def
      normalize_preferred_step_def)
qed

text \<open>C31.  The stored form: loading what was stored gives back the settings, whatever the settings
  were before the load, for well-formed settings whose integers have the width of the program's.\<close>

theorem proxy_settings_roundtrip:
  assumes "data_stream_ok ds" and "storable_settings ds s"
  shows "set_from_serialized ds (serialize_settings ds s) s0 = Some (True, s)"
  using assms by (rule settings_roundtrip)

definition socks_proxy :: "qchar \<Rightarrow> proxy_data" where
  "socks_proxy c = empty_proxy\<lparr> px_type := ProxySocks5, px_host := [c], px_port := 1 \<rparr>"

definition example_settings :: proxy_settings where
  "example_settings = (initial_proxy_settings False)
     \<lparr> ps_list := [socks_proxy 0x61, socks_proxy 0x62, socks_proxy 0x63], ps_preferred := [1, 2, 0] \<rparr>"

lemma example_settings_ok: "settings_ok example_settings"
  by (simp add: settings_ok_def example_settings_def initial_proxy_settings_def default_rotation_timeout_def)

lemma example_storable:
  "storable_proxy example_stream (socks_proxy c)" "storable_proxy example_stream empty_proxy"
  by (simp_all add: storable_proxy_def storable_length_def socks_proxy_def empty_proxy_def serialize_proxy_data_def
    example_stream_def example_put_bytes_def le32_bytes_def)

lemma proxy_settings_roundtrip_witness:
  "set_from_serialized example_stream (serialize_settings example_stream example_settings)
     (initial_proxy_settings True) = Some (True, example_settings)"
proof (rule proxy_settings_roundtrip [OF example_stream_ok])
  have "px_type (socks_proxy c) \<noteq> ProxyNone" for c by (simp add: socks_proxy_def)
  then show "storable_settings example_stream example_settings"
    using example_settings_ok example_storable
    by (simp add: storable_settings_def example_settings_def initial_proxy_settings_def default_rotation_timeout_def)
qed

text \<open>C33.  Adding and inserting a proxy keep the preferred proxies what they were, in their order.
  Removing one does not: it drops the entry of the removed proxy, and with it the entry of the
  proxy that follows it in the list, because the larger indices are lowered before the removed
  index is taken out.\<close>

theorem settings_edits_and_preference:
  assumes "settings_ok s"
  shows "preferred_proxies (ps_add px s) = preferred_proxies s
    \<and> preferred_proxies (ps_insert i px s) = preferred_proxies s
    \<and> (ps_index_in_list q px s = int n \<longrightarrow>
         preferred_proxies (snd (ps_remove q px s))
           = map (\<lambda>j. ps_list s ! nat j) (filter (\<lambda>j. j \<noteq> int n \<and> j \<noteq> int n + 1) (ps_preferred s)))"
  using preferred_add [OF assms] preferred_insert [OF assms] preferred_remove [OF assms] by blast

lemma settings_edits_and_preference_witness:
  "preferred_proxies example_settings = [socks_proxy 0x62, socks_proxy 0x63, socks_proxy 0x61]
    \<and> preferred_proxies (snd (ps_remove example_qt (socks_proxy 0x61) example_settings)) = [socks_proxy 0x63]"
proof -
  have "ps_index_in_list example_qt (socks_proxy 0x61) example_settings = int 0" by code_simp
  then show ?thesis
    using settings_edits_and_preference [OF example_settings_ok, where q = example_qt and px = "socks_proxy 0x61" and n = 0]
    by (simp add: example_settings_def preferred_proxies_def)
qed

text \<open>C34.  The rotation never learns a preference: promoting an index into an empty preference
  list is refused, because the search in an empty list ends at its beginning, so a profile that
  starts without a preference stays without one, through every call but setting or loading a
  preference that is already there.\<close>

theorem rotation_preference_never_learned:
  assumes "list_all (\<lambda>c. \<not> learns_preference c) cs"
    and "settings_run q ds cs (initial_proxy_settings w) = Some s"
  shows "ps_preferred s = [] \<and> fst (ps_promote_preferred i s) = False"
  using preference_stays_empty_run [OF _ assms] promote_empty [of s i]
  by (simp add: initial_proxy_settings_def)

lemma rotation_preference_never_learned_witness:
  "\<exists>s. settings_run example_qt example_stream [AddToList (socks_proxy 0x61), AddToList (socks_proxy 0x62), PromotePreferred 1]
      (initial_proxy_settings False) = Some s \<and> ps_preferred s = []"
proof -
  let ?s = "ps_add (socks_proxy 0x62) (ps_add (socks_proxy 0x61) (initial_proxy_settings False))"
  have r: "settings_run example_qt example_stream [AddToList (socks_proxy 0x61), AddToList (socks_proxy 0x62),
      PromotePreferred 1] (initial_proxy_settings False) = Some (snd (ps_promote_preferred 1 ?s))"
    by simp
  show ?thesis
    using rotation_preference_never_learned [OF _ r] r by (auto simp: learns_preference_def)
qed

end
