(* ===== verification/Proxy_Rotation.thy ===== *)
theory Proxy_Rotation
  imports Proxy_Settings
begin

text \<open>
  The rotation between proxies, \<open>Core::ProxyRotationManager\<close> of \<open>core/proxy_rotation_manager.h\<close> and
  \<open>.cpp\<close>, with the checks of \<open>mtproto/proxy_check.cpp\<close> it starts and the part of
  \<open>Application::setCurrentProxy\<close> it switches with.  While no account is connected, the manager checks
  the other proxies one by one, at most ten at a time, and when the timeout is over it switches to a
  proxy whose check has come through.  The state is the manager's with what it looks at: the
  settings, the accounts and the time.  Checker connections are numbers, each used once.
\<close>

section \<open>State\<close>

record rotation_entry =
  en_proxy :: proxy_data
  en_v4 :: "nat option"
  en_v6 :: "nat option"
  en_checking :: bool
  en_started_at :: int
  en_available_at :: int

record account =
  ac_session_exists :: bool
  ac_test_mode :: bool
  ac_dc_state :: int

record rotation =
  ro_now :: int
  ro_settings :: proxy_settings
  ro_accounts :: "account list"
  ro_active :: nat
  ro_fresh :: nat
  ro_check_timer :: "int option"
  ro_switch_timer :: "int option"
  ro_entries :: "rotation_entry list"
  ro_order :: "int list"
  ro_next :: nat
  ro_checking :: bool
  ro_waiting :: bool
  ro_switch_started :: int

datatype rotation_event =
    StartedCheck proxy_data
  | SwitchedTo proxy_data
  | SavedSettings

text \<open>What is outside: Qt, whether the datacenter has an endpoint of an address family for the
  connection type of a proxy, and how the accounts' connection states change, one after the other,
  when a change of the proxy is announced.\<close>

record rotation_env =
  re_qt :: qt_lib
  re_endpoint :: "bool \<Rightarrow> proxy_type \<Rightarrow> bool"
  re_reaction :: "rotation \<Rightarrow> account list list"

type_synonym rotation_op = "rotation \<Rightarrow> (rotation \<times> rotation_event list) option"

definition rotation_check_interval :: int where
  "rotation_check_interval = 2 * 1000"

definition rotation_check_lifetime :: int where
  "rotation_check_lifetime = 20 * 1000"

definition rotation_max_active_checks :: nat where
  "rotation_max_active_checks = 10"

definition connected_state :: int where
  "connected_state = 2"

definition ro_pure :: "(rotation \<Rightarrow> rotation) \<Rightarrow> rotation_op" where
  "ro_pure f w = Some (f w, [])"

text \<open>The calls of a body, one after the other.\<close>

fun ro_all :: "rotation_op list \<Rightarrow> rotation_op" where
  "ro_all [] w = Some (w, [])"
| "ro_all (f # fs) w =
     (case f w of None \<Rightarrow> None
      | Some (w1, es1) \<Rightarrow> map_option (\<lambda>(w2, es2). (w2, es1 @ es2)) (ro_all fs w1))"

section \<open>What the manager looks at\<close>

definition should_observe :: "rotation_env \<Rightarrow> rotation \<Rightarrow> bool" where
  "should_observe env w \<longleftrightarrow>
     ps_is_enabled (ro_settings w) \<and> proxy_valid (re_qt env) (ps_selected (ro_settings w))
     \<and> ps_rotation_enabled (ro_settings w) \<and> length (ps_list (ro_settings w)) > 1"

definition production_accounts :: "rotation \<Rightarrow> account list" where
  "production_accounts w = filter (\<lambda>a. \<not> (\<not> ac_session_exists a \<or> ac_test_mode a)) (ro_accounts w)"

definition production_connected :: "rotation \<Rightarrow> bool" where
  "production_connected w \<longleftrightarrow> list_ex (\<lambda>a. ac_dc_state a = connected_state) (production_accounts w)"

definition account_for_checks :: "rotation \<Rightarrow> account option" where
  "account_for_checks w =
     (if list_ex ac_session_exists (ro_accounts w) \<and> ro_active w < length (ro_accounts w)
         \<and> ac_session_exists (ro_accounts w ! ro_active w) \<and> \<not> ac_test_mode (ro_accounts w ! ro_active w)
      then Some (ro_accounts w ! ro_active w)
      else (case production_accounts w of [] \<Rightarrow> None | a # _ \<Rightarrow> Some a))"

section \<open>Entries\<close>

definition rotation_find :: "qt_lib \<Rightarrow> proxy_data \<Rightarrow> rotation_entry list \<Rightarrow> nat option" where
  "rotation_find q px es =
     (let i = find_index (\<lambda>e. proxy_eq q (en_proxy e) px) es in if i = length es then None else Some i)"

definition new_entry :: "proxy_data \<Rightarrow> rotation_entry" where
  "new_entry px = \<lparr> en_proxy = px, en_v4 = None, en_v6 = None, en_checking = False,
     en_started_at = 0, en_available_at = 0 \<rparr>"

definition rotation_ensure :: "qt_lib \<Rightarrow> proxy_data \<Rightarrow> rotation_entry list \<Rightarrow> nat \<times> rotation_entry list" where
  "rotation_ensure q px es =
     (case rotation_find q px es of Some i \<Rightarrow> (i, es) | None \<Rightarrow> (length es, es @ [new_entry px]))"

definition reset_checkers :: "rotation_entry \<Rightarrow> rotation_entry" where
  "reset_checkers e = e\<lparr> en_v4 := None, en_v6 := None \<rparr>"

definition drop_checker :: "nat \<Rightarrow> rotation_entry \<Rightarrow> rotation_entry" where
  "drop_checker raw e =
     (if en_v4 e = Some raw then e\<lparr> en_v4 := None \<rparr>
      else if en_v6 e = Some raw then e\<lparr> en_v6 := None \<rparr>
      else e)"

definition has_checkers :: "rotation_entry \<Rightarrow> bool" where
  "has_checkers e \<longleftrightarrow> en_v4 e \<noteq> None \<or> en_v6 e \<noteq> None"

definition idle_entry :: "rotation_entry \<Rightarrow> rotation_entry" where
  "idle_entry e = (reset_checkers e)\<lparr> en_checking := False, en_started_at := 0 \<rparr>"

text \<open>\<open>StartProxyCheck\<close>: the connections it creates, taken from the numbers not yet used.\<close>

definition start_proxy_check ::
  "rotation_env \<Rightarrow> proxy_data \<Rightarrow> bool \<Rightarrow> nat \<Rightarrow> nat option \<times> nat option \<times> nat" where
  "start_proxy_check env px try_ipv6 fresh =
     (if px_type px = ProxyWeb then (None, None, fresh)
      else if px_type px = ProxyMtproto then (Some fresh, None, fresh + 1)
      else
        (let (v4, fresh1) = (if \<not> re_endpoint env False (px_type px) then (None, fresh) else (Some fresh, fresh + 1));
             (v6, fresh2) = (if \<not> re_endpoint env True (px_type px) \<or> \<not> try_ipv6 then (None, fresh1)
                             else (Some fresh1, fresh1 + 1))
         in (v4, v6, fresh2)))"

section \<open>Checking\<close>

definition prune_removed_entries :: "rotation_env \<Rightarrow> rotation \<Rightarrow> rotation" where
  "prune_removed_entries env w =
     w\<lparr> ro_entries := filter (\<lambda>e. \<not> ps_index_in_list (re_qt env) (en_proxy e) (ro_settings w) < 0) (ro_entries w) \<rparr>"

definition clear_pending_checks :: "rotation \<Rightarrow> rotation" where
  "clear_pending_checks w = w\<lparr> ro_entries := map idle_entry (ro_entries w) \<rparr>"

definition stop_checking :: "rotation \<Rightarrow> rotation" where
  "stop_checking w = clear_pending_checks
     (w\<lparr> ro_check_timer := None, ro_switch_timer := None, ro_checking := False, ro_waiting := False,
         ro_switch_started := 0, ro_order := [], ro_next := 0 \<rparr>)"

definition can_check_index :: "proxy_settings \<Rightarrow> int \<Rightarrow> bool" where
  "can_check_index s i \<longleftrightarrow> i \<ge> 0 \<and> i < int (length (ps_list s)) \<and> px_type (ps_list s ! nat i) \<noteq> ProxyWeb"

definition probe_order_step :: "proxy_settings \<Rightarrow> int \<Rightarrow> int list \<Rightarrow> int \<Rightarrow> int list" where
  "probe_order_step s current order i =
     (if i = current \<or> \<not> can_check_index s i \<or> i \<in> set order then order else order @ [i])"

definition probe_order :: "qt_lib \<Rightarrow> proxy_settings \<Rightarrow> int list" where
  "probe_order q s =
     (let current = ps_index_in_list q (ps_selected s) s;
          preferred = filter (\<lambda>i. \<not> (i = current \<or> \<not> can_check_index s i)) (ps_preferred s)
      in foldl (probe_order_step s current) preferred (map int [0..<length (ps_list s)]))"

definition update_probe_order :: "rotation_env \<Rightarrow> rotation \<Rightarrow> rotation" where
  "update_probe_order env w = w\<lparr> ro_order := probe_order (re_qt env) (ro_settings w), ro_next := 0 \<rparr>"

definition continue_checking :: "int \<Rightarrow> rotation \<Rightarrow> rotation" where
  "continue_checking delay w =
     (if \<not> ro_checking w then w else w\<lparr> ro_check_timer := Some (ro_now w + delay) \<rparr>)"

definition expire_entry :: "int \<Rightarrow> rotation_entry \<Rightarrow> rotation_entry" where
  "expire_entry now e =
     (if \<not> en_checking e \<or> now - en_started_at e < rotation_check_lifetime then e else idle_entry e)"

definition prune_expired_checks :: "rotation \<Rightarrow> rotation" where
  "prune_expired_checks w = w\<lparr> ro_entries := map (expire_entry (ro_now w)) (ro_entries w) \<rparr>"

definition active_checks :: "rotation_entry list \<Rightarrow> nat" where
  "active_checks es = length (filter en_checking es)"

text \<open>The loop of \<open>startNextCheck\<close>; its first argument is the number of attempts left.\<close>

fun next_check_loop :: "rotation_env \<Rightarrow> nat \<Rightarrow> rotation_op" where
  "next_check_loop env 0 w = Some (w, [])"
| "next_check_loop env (Suc n) w =
     (let k = (if ro_next w \<ge> length (ro_order w) then 0 else ro_next w);
          i = ro_order w ! k;
          w1 = w\<lparr> ro_next := k + 1 \<rparr>;
          s = ro_settings w
      in if i < 0 \<or> i \<ge> int (length (ps_list s)) then next_check_loop env n w1
         else
           (let px = ps_list s ! nat i;
                (at, es) = rotation_ensure (re_qt env) px (ro_entries w)
            in if en_checking (es ! at) then next_check_loop env n (w1\<lparr> ro_entries := es \<rparr>)
               else
                 (case account_for_checks w of None \<Rightarrow> None
                  | Some _ \<Rightarrow>
                      (let (v4, v6, fresh) = start_proxy_check env px (ps_try_ipv6 s) (ro_fresh w)
                       in Some (w1\<lparr> ro_fresh := fresh,
                                    ro_entries := es[at := (es ! at)\<lparr> en_v4 := v4, en_v6 := v6, en_checking := True,
                                                                    en_started_at := ro_now w \<rparr>] \<rparr>,
                                [StartedCheck px])))))"

definition start_next_check :: "rotation_env \<Rightarrow> rotation_op" where
  "start_next_check env w =
     (if ro_order w = [] then Some (w, [])
      else if active_checks (ro_entries w) \<ge> rotation_max_active_checks then Some (w, [])
      else next_check_loop env (length (ro_order w)) w)"

definition run_checks :: "rotation_env \<Rightarrow> rotation_op" where
  "run_checks env w =
     (if \<not> ro_checking w then Some (w, [])
      else if \<not> should_observe env w then Some (stop_checking w, [])
      else if production_accounts w = [] \<or> production_connected w then Some (stop_checking w, [])
      else ro_all [ro_pure prune_expired_checks, start_next_check env,
                   ro_pure (continue_checking rotation_check_interval)] w)"

definition start_checking :: "rotation_env \<Rightarrow> rotation_op" where
  "start_checking env w =
     (if ro_checking w then Some (w, [])
      else ro_all
        [ro_pure (\<lambda>w. w\<lparr> ro_checking := True, ro_waiting := False, ro_switch_started := ro_now w \<rparr>),
         ro_pure (update_probe_order env),
         run_checks env,
         ro_pure (\<lambda>w. w\<lparr> ro_switch_timer := Some (ro_now w + ps_rotation_timeout (ro_settings w) * 1000) \<rparr>)] w)"

definition reevaluate :: "rotation_env \<Rightarrow> rotation_op" where
  "reevaluate env w =
     (if \<not> should_observe env w then Some (stop_checking w, [])
      else if production_accounts w = [] then Some (stop_checking w, [])
      else if production_connected w then Some (stop_checking w, [])
      else start_checking env w)"

definition rotation_settings_changed :: "rotation_env \<Rightarrow> rotation_op" where
  "rotation_settings_changed env =
     ro_all [ro_pure stop_checking, ro_pure (prune_removed_entries env), reevaluate env]"

definition rotation_accounts_changed :: "rotation_env \<Rightarrow> rotation_op" where
  "rotation_accounts_changed env = ro_all [ro_pure stop_checking, reevaluate env]"

definition handle_connection_state_changed :: "rotation_env \<Rightarrow> rotation_op" where
  "handle_connection_state_changed env = reevaluate env"

section \<open>Switching\<close>

text \<open>\<open>Application::setCurrentProxy\<close>: the settings are changed, the change is announced, which moves
  the connections of the accounts, and the manager starts over.\<close>

definition announce_proxy_change :: "rotation_env \<Rightarrow> rotation_op" where
  "announce_proxy_change env w =
     ro_all (map (\<lambda>accounts. ro_all [ro_pure (\<lambda>w. w\<lparr> ro_accounts := accounts \<rparr>),
                                      handle_connection_state_changed env]) (re_reaction env w)) w"

definition set_current_proxy :: "rotation_env \<Rightarrow> proxy_data \<Rightarrow> proxy_mode \<Rightarrow> rotation_op" where
  "set_current_proxy env px mode =
     ro_all
       [ro_pure (\<lambda>w. w\<lparr> ro_settings := (ro_settings w)\<lparr> ps_selected := px, ps_mode := mode \<rparr> \<rparr>),
        announce_proxy_change env,
        rotation_settings_changed env]"

definition should_switch_to_available :: "rotation_env \<Rightarrow> rotation \<Rightarrow> bool" where
  "should_switch_to_available env w \<longleftrightarrow>
     ro_checking w \<and> should_observe env w \<and> production_accounts w \<noteq> [] \<and> \<not> production_connected w"

text \<open>Whether the manager may switch to the proxy at an index of the list.\<close>

definition available_index :: "rotation_env \<Rightarrow> rotation \<Rightarrow> int \<Rightarrow> bool" where
  "available_index env w i \<longleftrightarrow>
     \<not> (i < 0 \<or> i \<ge> int (length (ps_list (ro_settings w))))
     \<and> (case rotation_find (re_qt env) (ps_list (ro_settings w) ! nat i) (ro_entries w) of
          None \<Rightarrow> False
        | Some k \<Rightarrow>
            (let e = ro_entries w ! k
             in \<not> (en_checking e \<or> en_available_at e = 0) \<and> \<not> en_available_at e < ro_switch_started w))"

definition switch_to_available :: "rotation_env \<Rightarrow> rotation \<Rightarrow> (bool \<times> rotation \<times> rotation_event list) option" where
  "switch_to_available env w =
     (if \<not> ro_checking w then Some (False, w, [])
      else
        (case List.find (available_index env w) (ro_order w) of
           None \<Rightarrow> Some (False, w, [])
         | Some i \<Rightarrow>
             (let px = ps_list (ro_settings w) ! nat i
              in map_option (\<lambda>(w1, es). (True, w1, SwitchedTo px # es @ [SavedSettings]))
                   (set_current_proxy env px ProxyEnabled (w\<lparr> ro_waiting := False \<rparr>)))))"

text \<open>The assignment \<open>_waitingToSwitch = !switchToAvailable()\<close>.\<close>

definition try_switch :: "rotation_env \<Rightarrow> rotation_op" where
  "try_switch env w =
     map_option (\<lambda>(b, w1, es). (w1\<lparr> ro_waiting := \<not> b \<rparr>, es)) (switch_to_available env w)"

definition switch_timer_done :: "rotation_env \<Rightarrow> rotation_op" where
  "switch_timer_done env w =
     (if \<not> ro_checking w \<or> \<not> should_switch_to_available env w then Some (w, []) else try_switch env w)"

definition promote_checked :: "rotation_env \<Rightarrow> proxy_data \<Rightarrow> rotation_op" where
  "promote_checked env px w =
     (let i = ps_index_in_list (re_qt env) px (ro_settings w)
      in if i \<ge> 0 then
           (let (b, s) = ps_promote_preferred i (ro_settings w)
            in Some (w\<lparr> ro_settings := s \<rparr>, if b then [SavedSettings] else []))
         else Some (w, []))"

definition check_done :: "rotation_env \<Rightarrow> proxy_data \<Rightarrow> nat \<Rightarrow> rotation_op" where
  "check_done env px raw w =
     (case rotation_find (re_qt env) px (ro_entries w) of None \<Rightarrow> Some (w, [])
      | Some k \<Rightarrow>
          (let e = ro_entries w ! k
           in if \<not> en_checking e \<or> (en_v4 e \<noteq> Some raw \<and> en_v6 e \<noteq> Some raw) then Some (w, [])
              else ro_all
                [ro_pure (\<lambda>w. w\<lparr> ro_entries := (ro_entries w)[k := (idle_entry (drop_checker raw e))\<lparr> en_available_at := ro_now w \<rparr>] \<rparr>),
                 promote_checked env px,
                 ro_pure (update_probe_order env),
                 (\<lambda>w. if ro_waiting w \<and> should_switch_to_available env w then try_switch env w else Some (w, []))] w))"

definition check_failed :: "rotation_env \<Rightarrow> proxy_data \<Rightarrow> nat \<Rightarrow> rotation \<Rightarrow> rotation" where
  "check_failed env px raw w =
     (case rotation_find (re_qt env) px (ro_entries w) of None \<Rightarrow> w
      | Some k \<Rightarrow>
          (let e = ro_entries w ! k
           in if \<not> en_checking e \<or> (en_v4 e \<noteq> Some raw \<and> en_v6 e \<noteq> Some raw) then w
              else
                (let e1 = drop_checker raw e
                 in w\<lparr> ro_entries := (ro_entries w)[k := if has_checkers e1 then e1
                        else e1\<lparr> en_checking := False, en_started_at := 0 \<rparr>] \<rparr>)))"

section \<open>Steps\<close>

text \<open>What can happen: a timer that is due fires, a check ends, the accounts or the settings change,
  with or without the manager being told, the user chooses a proxy, and time passes.\<close>

datatype rotation_action =
    CheckTimerFired
  | SwitchTimerFired
  | ProxyCheckDone proxy_data nat
  | ProxyCheckFailed proxy_data nat
  | ConnectionStates "account list"
  | AccountsChanged "account list" nat
  | SettingsEdited proxy_settings
  | SettingsAnnounced
  | ProxyChosen proxy_data proxy_mode
  | TimePassed int

definition timer_due :: "int option \<Rightarrow> rotation \<Rightarrow> bool" where
  "timer_due t w \<longleftrightarrow> (case t of None \<Rightarrow> False | Some at \<Rightarrow> at \<le> ro_now w)"

fun rotation_step :: "rotation_env \<Rightarrow> rotation_action \<Rightarrow> rotation_op" where
  "rotation_step env CheckTimerFired w =
     (if timer_due (ro_check_timer w) w then run_checks env (w\<lparr> ro_check_timer := None \<rparr>) else Some (w, []))"
| "rotation_step env SwitchTimerFired w =
     (if timer_due (ro_switch_timer w) w then switch_timer_done env (w\<lparr> ro_switch_timer := None \<rparr>) else Some (w, []))"
| "rotation_step env (ProxyCheckDone px raw) w = check_done env px raw w"
| "rotation_step env (ProxyCheckFailed px raw) w = Some (check_failed env px raw w, [])"
| "rotation_step env (ConnectionStates accounts) w = handle_connection_state_changed env (w\<lparr> ro_accounts := accounts \<rparr>)"
| "rotation_step env (AccountsChanged accounts active) w =
     rotation_accounts_changed env (w\<lparr> ro_accounts := accounts, ro_active := active \<rparr>)"
| "rotation_step env (SettingsEdited s) w = Some (w\<lparr> ro_settings := s \<rparr>, [])"
| "rotation_step env SettingsAnnounced w = rotation_settings_changed env w"
| "rotation_step env (ProxyChosen px mode) w = set_current_proxy env px mode w"
| "rotation_step env (TimePassed d) w = Some (w\<lparr> ro_now := ro_now w + max 0 d \<rparr>, [])"

definition initial_rotation :: "int \<Rightarrow> proxy_settings \<Rightarrow> rotation" where
  "initial_rotation now s = \<lparr> ro_now = now, ro_settings = s, ro_accounts = [], ro_active = 0, ro_fresh = 0,
     ro_check_timer = None, ro_switch_timer = None, ro_entries = [], ro_order = [], ro_next = 0,
     ro_checking = False, ro_waiting = False, ro_switch_started = 0 \<rparr>"

inductive rotation_reach :: "rotation_env \<Rightarrow> rotation \<Rightarrow> bool" for env where
  reach_start: "now > 0 \<Longrightarrow> settings_ok s \<Longrightarrow> rotation_reach env (initial_rotation now s)"
| reach_step: "rotation_reach env w \<Longrightarrow> rotation_step env a w = Some (w', es) \<Longrightarrow>
    (\<And>s. a = SettingsEdited s \<Longrightarrow> settings_ok s) \<Longrightarrow> rotation_reach env w'"

section \<open>The account of a check\<close>

lemma account_for_checks_total: "production_accounts w \<noteq> [] \<Longrightarrow> \<exists>a. account_for_checks w = Some a"
  by (auto simp: account_for_checks_def split: list.splits)

lemma production_accounts_fields [simp]:
  "production_accounts (w\<lparr> ro_next := n \<rparr>) = production_accounts w"
  "production_accounts (w\<lparr> ro_entries := es \<rparr>) = production_accounts w"
  "production_accounts (w\<lparr> ro_fresh := f \<rparr>) = production_accounts w"
  by (simp_all add: production_accounts_def)

section \<open>Triples\<close>

text \<open>From every state that satisfies the first predicate the operation returns, emits only events
  of the set and leaves a state that satisfies the second.\<close>

definition ro_triple :: "(rotation \<Rightarrow> bool) \<Rightarrow> rotation_op \<Rightarrow> rotation_event set \<Rightarrow> (rotation \<Rightarrow> bool) \<Rightarrow> bool" where
  "ro_triple P f E Q \<longleftrightarrow> (\<forall>w. P w \<longrightarrow> (\<exists>w' es. f w = Some (w', es) \<and> set es \<subseteq> E \<and> Q w'))"

lemma ro_tripleI:
  "(\<And>w. P w \<Longrightarrow> \<exists>w' es. f w = Some (w', es) \<and> set es \<subseteq> E \<and> Q w') \<Longrightarrow> ro_triple P f E Q"
  by (simp add: ro_triple_def)

lemma ro_tripleD:
  "ro_triple P f E Q \<Longrightarrow> P w \<Longrightarrow> \<exists>w' es. f w = Some (w', es) \<and> set es \<subseteq> E \<and> Q w'"
  by (simp add: ro_triple_def)

lemma triple_pure: "(\<And>w. P w \<Longrightarrow> Q (f w)) \<Longrightarrow> ro_triple P (ro_pure f) E Q"
  by (simp add: ro_triple_def ro_pure_def)

lemma triple_Nil: "(\<And>w. P w \<Longrightarrow> Q w) \<Longrightarrow> ro_triple P (ro_all []) E Q"
  by (simp add: ro_triple_def)

lemma triple_Cons:
  assumes "ro_triple P f E R" and "ro_triple R (ro_all fs) E Q"
  shows "ro_triple P (ro_all (f # fs)) E Q"
proof (rule ro_tripleI)
  fix w assume "P w"
  then obtain w1 es1 where 1: "f w = Some (w1, es1)" "set es1 \<subseteq> E" "R w1" using assms(1) ro_tripleD by blast
  then obtain w2 es2 where "ro_all fs w1 = Some (w2, es2)" "set es2 \<subseteq> E" "Q w2" using assms(2) ro_tripleD by blast
  with 1 show "\<exists>w' es. ro_all (f # fs) w = Some (w', es) \<and> set es \<subseteq> E \<and> Q w'" by simp
qed

lemma triple_weaken:
  "ro_triple P' f E' Q' \<Longrightarrow> (\<And>w. P w \<Longrightarrow> P' w) \<Longrightarrow> E' \<subseteq> E \<Longrightarrow> (\<And>w. Q' w \<Longrightarrow> Q w) \<Longrightarrow> ro_triple P f E Q"
  unfolding ro_triple_def by (meson order_trans)

lemma triple_all_same: "(\<And>f. f \<in> set fs \<Longrightarrow> ro_triple P f E P) \<Longrightarrow> ro_triple P (ro_all fs) E P"
proof (induction fs)
  case Nil
  show ?case by (rule triple_Nil)
next
  case (Cons f fs)
  have "ro_triple P f E P" using Cons.prems by simp
  then show ?case by (rule triple_Cons) (use Cons in simp)
qed

section \<open>The invariant\<close>

definition entry_ok :: "int \<Rightarrow> rotation_entry \<Rightarrow> bool" where
  "entry_ok now e \<longleftrightarrow>
     (\<not> en_checking e \<longrightarrow> en_v4 e = None \<and> en_v6 e = None \<and> en_started_at e = 0)
     \<and> en_started_at e \<le> now \<and> en_available_at e \<le> now"

definition entries_ok :: "qt_lib \<Rightarrow> int \<Rightarrow> rotation_entry list \<Rightarrow> bool" where
  "entries_ok q now es \<longleftrightarrow> now > 0 \<and> (\<forall>e \<in> set es. entry_ok now e)
     \<and> sorted_wrt (\<lambda>a b. \<not> proxy_eq q a b) (map en_proxy es)"

definition rotation_quiet :: "rotation \<Rightarrow> bool" where
  "rotation_quiet w \<longleftrightarrow> ro_order w = [] \<and> ro_next w = 0 \<and> \<not> ro_waiting w \<and> ro_check_timer w = None
     \<and> ro_switch_timer w = None \<and> ro_switch_started w = 0 \<and> active_checks (ro_entries w) = 0"

definition rotation_ok :: "rotation_env \<Rightarrow> rotation \<Rightarrow> bool" where
  "rotation_ok env w \<longleftrightarrow> entries_ok (re_qt env) (ro_now w) (ro_entries w)
     \<and> active_checks (ro_entries w) \<le> rotation_max_active_checks
     \<and> distinct (ro_order w) \<and> ro_next w \<le> length (ro_order w)
     \<and> ro_switch_started w \<le> ro_now w \<and> settings_ok (ro_settings w)
     \<and> (\<not> ro_checking w \<longrightarrow> rotation_quiet w)"

definition watched :: "rotation_env \<Rightarrow> rotation \<Rightarrow> bool" where
  "watched env w \<longleftrightarrow> should_observe env w \<and> production_accounts w \<noteq> [] \<and> \<not> production_connected w"

lemma active_checks_map_idle: "active_checks (map idle_entry es) = 0"
  by (simp add: active_checks_def idle_entry_def reset_checkers_def filter_empty_conv)

lemma entry_ok_idle: "entry_ok now e \<Longrightarrow> now > 0 \<Longrightarrow> entry_ok now (idle_entry e)"
  by (simp add: entry_ok_def idle_entry_def reset_checkers_def)

lemma en_proxy_idle [simp]: "en_proxy (idle_entry e) = en_proxy e"
  by (simp add: idle_entry_def reset_checkers_def)

lemma entries_ok_map:
  assumes "entries_ok q now es" and "\<And>e. e \<in> set es \<Longrightarrow> f e = e \<or> f e = idle_entry e"
  shows "entries_ok q now (map f es)"
proof -
  have "map en_proxy (map f es) = map en_proxy es" using assms(2) by fastforce
  moreover have "\<forall>e \<in> set (map f es). entry_ok now e"
    using assms entry_ok_idle unfolding entries_ok_def by fastforce
  ultimately show ?thesis using assms(1) unfolding entries_ok_def by (simp only:)
qed

lemma active_checks_map:
  "(\<And>e. e \<in> set es \<Longrightarrow> f e = e \<or> f e = idle_entry e) \<Longrightarrow> active_checks (map f es) \<le> active_checks es"
proof (induction es)
  case (Cons e es)
  have "active_checks (map f es) \<le> active_checks es" using Cons by simp
  moreover have "en_checking (f e) \<longrightarrow> en_checking e"
    using Cons.prems [of e] by (auto simp: idle_entry_def)
  ultimately show ?case by (auto simp: active_checks_def)
qed (simp add: active_checks_def)

lemma entries_ok_filter: "entries_ok q now es \<Longrightarrow> entries_ok q now (filter P es)"
  by (simp add: entries_ok_def sorted_wrt_map sorted_wrt_filter)

lemma active_checks_filter: "active_checks (filter P es) \<le> active_checks es"
  by (induction es) (simp_all add: active_checks_def)

lemma stop_checking_ok: "rotation_ok env w \<Longrightarrow> rotation_ok env (stop_checking w)"
  using entries_ok_map [of "re_qt env" "ro_now w" "ro_entries w" idle_entry]
  by (simp add: rotation_ok_def stop_checking_def clear_pending_checks_def rotation_quiet_def active_checks_map_idle
    entries_ok_def)

lemma stop_checking_fields [simp]:
  "ro_settings (stop_checking w) = ro_settings w" "ro_checking (stop_checking w) = False"
  "ro_accounts (stop_checking w) = ro_accounts w" "ro_now (stop_checking w) = ro_now w"
  by (simp_all add: stop_checking_def clear_pending_checks_def)

lemma watched_fields [simp]:
  "watched env (w\<lparr> ro_next := n \<rparr>) = watched env w"
  "watched env (w\<lparr> ro_entries := es \<rparr>) = watched env w"
  "watched env (w\<lparr> ro_fresh := f \<rparr>) = watched env w"
  "watched env (w\<lparr> ro_order := ord \<rparr>) = watched env w"
  "watched env (w\<lparr> ro_checking := c \<rparr>) = watched env w"
  "watched env (w\<lparr> ro_waiting := c \<rparr>) = watched env w"
  "watched env (w\<lparr> ro_switch_started := t \<rparr>) = watched env w"
  "watched env (w\<lparr> ro_check_timer := ti \<rparr>) = watched env w"
  "watched env (w\<lparr> ro_switch_timer := ti \<rparr>) = watched env w"
  by (simp_all add: watched_def should_observe_def production_accounts_def production_connected_def)

lemma rotation_ok_entries:
  assumes "rotation_ok env w" and "entries_ok (re_qt env) (ro_now w) es" and "active_checks es \<le> active_checks (ro_entries w)"
  shows "rotation_ok env (w\<lparr> ro_entries := es \<rparr>)"
  using assms by (auto simp: rotation_ok_def rotation_quiet_def)

lemma expire_entry_cases: "expire_entry now e = e \<or> expire_entry now e = idle_entry e"
  by (simp add: expire_entry_def)

lemma prune_expired_ok:
  assumes "rotation_ok env w"
  shows "rotation_ok env (prune_expired_checks w)"
  unfolding prune_expired_checks_def
  by (rule rotation_ok_entries [OF assms])
     (use assms in \<open>simp_all add: rotation_ok_def entries_ok_map active_checks_map expire_entry_cases\<close>)

lemma prune_removed_ok: "rotation_ok env w \<Longrightarrow> rotation_ok env (prune_removed_entries env w)"
  unfolding prune_removed_entries_def
  by (rule rotation_ok_entries) (simp_all add: rotation_ok_def entries_ok_filter active_checks_filter)

section \<open>Starting checks\<close>

lemma active_checks_append: "active_checks (xs @ ys) = active_checks xs + active_checks ys"
  by (simp add: active_checks_def)

lemma active_checks_update: "k < length es \<Longrightarrow>
    active_checks (es[k := e]) + (if en_checking (es ! k) then 1 else 0) = active_checks es + (if en_checking e then 1 else 0)"
proof -
  assume k: "k < length es"
  have "es = take k es @ es ! k # drop (Suc k) es" using k by (rule id_take_nth_drop)
  then have "active_checks es = active_checks (take k es @ es ! k # drop (Suc k) es)" by simp
  moreover have "es[k := e] = take k es @ e # drop (Suc k) es" using k by (rule upd_conv_take_nth_drop)
  ultimately show ?thesis by (simp add: active_checks_def)
qed

lemma entries_ok_update:
  assumes "entries_ok q now es" and "entry_ok now e" and "en_proxy e = en_proxy (es ! k)" and "k < length es"
  shows "entries_ok q now (es[k := e])"
proof -
  have "map en_proxy (es[k := e]) = map en_proxy es"
    using assms(3,4) by (metis list_update_id map_update)
  moreover have "\<forall>x \<in> set (es[k := e]). entry_ok now x"
    using assms(1,2) set_update_subset_insert [of es k e] by (auto simp: entries_ok_def)
  ultimately show ?thesis using assms(1) unfolding entries_ok_def by (simp only:)
qed

lemma rotation_find_Some:
  assumes "rotation_find q px es = Some k"
  shows "k < length es" and "proxy_eq q (en_proxy (es ! k)) px"
proof -
  have k: "k = find_index (\<lambda>e. proxy_eq q (en_proxy e) px) es" "k \<noteq> length es"
    using assms by (auto simp: rotation_find_def Let_def split: if_splits)
  then show "k < length es" using find_index_le [of "\<lambda>e. proxy_eq q (en_proxy e) px" es] by simp
  then show "proxy_eq q (en_proxy (es ! k)) px" using k(1) find_index_nth [of "\<lambda>e. proxy_eq q (en_proxy e) px" es] by simp
qed

lemma rotation_find_None: "rotation_find q px es = None \<longleftrightarrow> (\<forall>e \<in> set es. \<not> proxy_eq q (en_proxy e) px)"
  by (simp add: rotation_find_def Let_def find_index_length)

lemma rotation_ensure_spec:
  assumes "rotation_ensure q px es = (k, es')" and "entries_ok q now es"
  shows "k < length es'" and "entries_ok q now es'" and "active_checks es' = active_checks es"
    and "en_checking (es' ! k) \<Longrightarrow> es' = es"
proof -
  have "k < length es' \<and> entries_ok q now es' \<and> active_checks es' = active_checks es
      \<and> (en_checking (es' ! k) \<longrightarrow> es' = es)"
  proof (cases "rotation_find q px es")
    case None
    then have e: "k = length es" "es' = es @ [new_entry px]" using assms(1) by (auto simp: rotation_ensure_def)
    have "entry_ok now (new_entry px)" using assms(2) by (simp add: entry_ok_def entries_ok_def new_entry_def)
    then have "entries_ok q now es'"
      using assms(2) None by (auto simp: entries_ok_def e(2) sorted_wrt_append rotation_find_None new_entry_def)
    then show ?thesis by (simp add: e active_checks_append) (simp add: active_checks_def new_entry_def)
  next
    case (Some i)
    then have "k = i" "es' = es" using assms(1) by (auto simp: rotation_ensure_def)
    then show ?thesis using rotation_find_Some(1) [OF Some] assms(2) by simp
  qed
  then show "k < length es'" and "entries_ok q now es'" and "active_checks es' = active_checks es"
    and "en_checking (es' ! k) \<Longrightarrow> es' = es" by blast+
qed

text \<open>What the loop may change, and what it keeps.\<close>

definition loop_result :: "rotation_env \<Rightarrow> rotation \<Rightarrow> rotation \<Rightarrow> bool" where
  "loop_result env w w' \<longleftrightarrow>
     (\<exists>k f xs. w' = w\<lparr> ro_next := k, ro_entries := xs, ro_fresh := f \<rparr> \<and> k \<le> length (ro_order w)
        \<and> entries_ok (re_qt env) (ro_now w) xs \<and> active_checks xs \<le> Suc (active_checks (ro_entries w)))"

lemma loop_result_next:
  assumes "loop_result env (w\<lparr> ro_next := k, ro_entries := es \<rparr>) w'" and "active_checks es = active_checks (ro_entries w)"
  shows "loop_result env w w'"
  using assms by (auto simp: loop_result_def)

lemma next_check_loop_spec:
  assumes "entries_ok (re_qt env) (ro_now w) (ro_entries w)" and "production_accounts w \<noteq> []"
    and "ro_order w \<noteq> []" and "ro_next w \<le> length (ro_order w)"
  shows "\<exists>w' es. next_check_loop env n w = Some (w', es) \<and> set es \<subseteq> range StartedCheck \<and> loop_result env w w'"
  using assms
proof (induction n arbitrary: w)
  case 0
  then have "loop_result env w w"
    unfolding loop_result_def
    by (intro exI [of _ "ro_next w"] exI [of _ "ro_fresh w"] exI [of _ "ro_entries w"]) simp
  then show ?case by simp
next
  case (Suc n)
  let ?k = "if ro_next w \<ge> length (ro_order w) then 0 else ro_next w"
  let ?i = "ro_order w ! ?k" and ?s = "ro_settings w"
  have k: "?k + 1 \<le> length (ro_order w)" using Suc.prems(3) by (cases "ro_order w") auto
  have again: "\<exists>w' es. next_check_loop env n (w\<lparr> ro_next := ?k + 1, ro_entries := ro_entries w \<rparr>) = Some (w', es)
      \<and> set es \<subseteq> range StartedCheck \<and> loop_result env w w'"
  proof -
    have "\<exists>w' es. next_check_loop env n (w\<lparr> ro_next := ?k + 1, ro_entries := ro_entries w \<rparr>) = Some (w', es)
      \<and> set es \<subseteq> range StartedCheck \<and> loop_result env (w\<lparr> ro_next := ?k + 1, ro_entries := ro_entries w \<rparr>) w'"
      by (rule Suc.IH) (use Suc.prems k in simp_all)
    then show ?thesis using loop_result_next by blast
  qed
  show ?case
  proof (cases "?i < 0 \<or> ?i \<ge> int (length (ps_list ?s))")
    case True
    then show ?thesis using again by (simp add: Let_def)
  next
    case valid: False
    obtain at es where en: "rotation_ensure (re_qt env) (ps_list ?s ! nat ?i) (ro_entries w) = (at, es)" by fastforce
    note sp = rotation_ensure_spec [OF en Suc.prems(1)]
    show ?thesis
    proof (cases "en_checking (es ! at)")
      case True
      then show ?thesis using again valid en sp(4) by (simp add: Let_def)
    next
      case False
      obtain a where a: "account_for_checks w = Some a" using account_for_checks_total Suc.prems(2) by blast
      obtain v4 v6 fresh where c: "start_proxy_check env (ps_list ?s ! nat ?i) (ps_try_ipv6 ?s) (ro_fresh w) = (v4, v6, fresh)"
        by (metis prod_cases3)
      let ?e = "(es ! at)\<lparr> en_v4 := v4, en_v6 := v6, en_checking := True, en_started_at := ro_now w \<rparr>"
      have "entry_ok (ro_now w) (es ! at)" using sp(1,2) by (simp add: entries_ok_def)
      then have "entry_ok (ro_now w) ?e" by (simp add: entry_ok_def)
      then have "entries_ok (re_qt env) (ro_now w) (es[at := ?e])" using sp(1,2) by (intro entries_ok_update) simp_all
      moreover have "active_checks (es[at := ?e]) = Suc (active_checks (ro_entries w))"
        using active_checks_update [OF sp(1), of ?e] False sp(3) by simp
      ultimately have "loop_result env w (w\<lparr> ro_next := ?k + 1, ro_fresh := fresh, ro_entries := es[at := ?e] \<rparr>)"
        unfolding loop_result_def using k
        by (intro exI [of _ "?k + 1"] exI [of _ fresh] exI [of _ "es[at := ?e]"]) simp
      then show ?thesis using valid en False a c by (simp add: Let_def)
    qed
  qed
qed

section \<open>Every operation keeps the invariant\<close>

text \<open>In the following, \<open>s\<close> is what the settings are: only the switch and a promotion change them.\<close>

definition ok_with :: "rotation_env \<Rightarrow> proxy_settings \<Rightarrow> rotation \<Rightarrow> bool" where
  "ok_with env s w \<longleftrightarrow> rotation_ok env w \<and> ro_settings w = s"

definition ok_checking :: "rotation_env \<Rightarrow> proxy_settings \<Rightarrow> rotation \<Rightarrow> bool" where
  "ok_checking env s w \<longleftrightarrow> ok_with env s w \<and> watched env w \<and> ro_checking w"

lemma ok_checking_loop:
  assumes "ok_checking env s w" and "loop_result env w w'" and "active_checks (ro_entries w) < rotation_max_active_checks"
  shows "ok_checking env s w'"
  using assms by (auto simp: ok_checking_def ok_with_def loop_result_def rotation_ok_def)

lemma start_next_check_triple: "ro_triple (ok_checking env s) (start_next_check env) (range StartedCheck) (ok_checking env s)"
proof (rule ro_tripleI)
  fix w assume ok: "ok_checking env s w"
  show "\<exists>w' es. start_next_check env w = Some (w', es) \<and> set es \<subseteq> range StartedCheck \<and> ok_checking env s w'"
  proof (cases "ro_order w = [] \<or> active_checks (ro_entries w) \<ge> rotation_max_active_checks")
    case True
    then show ?thesis using ok by (auto simp: start_next_check_def)
  next
    case False
    moreover obtain w' es where "next_check_loop env (length (ro_order w)) w = Some (w', es)"
      "set es \<subseteq> range StartedCheck" "loop_result env w w'"
      using next_check_loop_spec [of env w] ok False
      by (fastforce simp: ok_checking_def ok_with_def rotation_ok_def watched_def)
    ultimately show ?thesis using ok_checking_loop [OF ok] by (auto simp: start_next_check_def)
  qed
qed

lemma ok_checking_pure:
  "ok_checking env s w \<Longrightarrow> ok_checking env s (prune_expired_checks w)"
  "ok_checking env s w \<Longrightarrow> ok_checking env s (continue_checking d w)"
  "ok_checking env s w \<Longrightarrow> ok_checking env s (w\<lparr> ro_switch_timer := t \<rparr>)"
  using prune_expired_ok [of env w]
  by (auto simp: ok_checking_def ok_with_def prune_expired_checks_def continue_checking_def rotation_ok_def)

lemma run_checks_watched: "ro_triple (ok_checking env s) (run_checks env) (range StartedCheck) (ok_checking env s)"
proof -
  have "ro_triple (ok_checking env s) (ro_all [ro_pure prune_expired_checks, start_next_check env,
      ro_pure (continue_checking rotation_check_interval)]) (range StartedCheck) (ok_checking env s)"
    by (rule triple_all_same) (auto intro: triple_pure start_next_check_triple ok_checking_pure)
  then show ?thesis by (auto simp: ro_triple_def run_checks_def ok_checking_def watched_def)
qed

lemma run_checks_triple: "ro_triple (ok_with env s) (run_checks env) (range StartedCheck) (ok_with env s)"
proof (rule ro_tripleI)
  fix w assume ok: "ok_with env s w"
  show "\<exists>w' es. run_checks env w = Some (w', es) \<and> set es \<subseteq> range StartedCheck \<and> ok_with env s w'"
  proof (cases "ro_checking w \<and> watched env w")
    case True
    then show ?thesis using ro_tripleD [OF run_checks_watched, of env s w] ok
      by (auto simp: ok_checking_def)
  next
    case False
    then show ?thesis using ok stop_checking_ok [of env w]
      by (auto simp: run_checks_def watched_def ok_with_def)
  qed
qed

lemma probe_order_distinct: "settings_ok s \<Longrightarrow> distinct (probe_order q s)"
proof -
  assume "settings_ok s"
  then have d: "distinct (filter P (ps_preferred s))" for P by (simp add: settings_ok_def)
  have "distinct (foldl (probe_order_step s c) ord is)" if "distinct ord" for c ord "is"
    using that by (induction "is" arbitrary: ord) (simp_all add: probe_order_step_def)
  then show ?thesis using d by (simp add: probe_order_def Let_def)
qed

lemma ok_with_probe:
  assumes "ok_with env s w" and "ro_checking w"
  shows "ok_with env s (update_probe_order env w)"
  using assms probe_order_distinct by (auto simp: ok_with_def rotation_ok_def update_probe_order_def)

lemma start_checking_triple:
  "ro_triple (\<lambda>w. ok_with env s w \<and> watched env w) (start_checking env) (range StartedCheck) (ok_with env s)"
proof -
  have started: "ok_checking env s (update_probe_order env (w\<lparr> ro_checking := True, ro_waiting := False, ro_switch_started := ro_now w \<rparr>))"
    if "ok_with env s w" "watched env w" "\<not> ro_checking w" for w
  proof -
    have "ok_with env s (w\<lparr> ro_checking := True, ro_waiting := False, ro_switch_started := ro_now w \<rparr>)"
      using that(1) by (auto simp: ok_with_def rotation_ok_def entries_ok_def)
    from ok_with_probe [OF this] show ?thesis using that(2) by (simp add: ok_checking_def update_probe_order_def)
  qed
  have "ro_triple (\<lambda>w. ok_with env s w \<and> watched env w \<and> \<not> ro_checking w)
      (ro_all [ro_pure (\<lambda>w. w\<lparr> ro_checking := True, ro_waiting := False, ro_switch_started := ro_now w \<rparr>),
         ro_pure (update_probe_order env), run_checks env,
         ro_pure (\<lambda>w. w\<lparr> ro_switch_timer := Some (ro_now w + ps_rotation_timeout (ro_settings w) * 1000) \<rparr>)])
      (range StartedCheck) (ok_checking env s)"
  proof (rule triple_Cons [OF triple_pure])
    show "ok_checking env s (update_probe_order env (w\<lparr> ro_checking := True, ro_waiting := False,
        ro_switch_started := ro_now w \<rparr>))" if "ok_with env s w \<and> watched env w \<and> \<not> ro_checking w" for w
      using started that by blast
    show "ro_triple (\<lambda>w. ok_checking env s (update_probe_order env w))
      (ro_all [ro_pure (update_probe_order env), run_checks env,
         ro_pure (\<lambda>w. w\<lparr> ro_switch_timer := Some (ro_now w + ps_rotation_timeout (ro_settings w) * 1000) \<rparr>)])
      (range StartedCheck) (ok_checking env s)"
    proof (rule triple_Cons)
      show "ro_triple (\<lambda>w. ok_checking env s (update_probe_order env w)) (ro_pure (update_probe_order env))
        (range StartedCheck) (ok_checking env s)" by (rule triple_pure)
      show "ro_triple (ok_checking env s) (ro_all [run_checks env,
          ro_pure (\<lambda>w. w\<lparr> ro_switch_timer := Some (ro_now w + ps_rotation_timeout (ro_settings w) * 1000) \<rparr>)])
        (range StartedCheck) (ok_checking env s)"
        by (rule triple_all_same) (auto intro: triple_pure run_checks_watched ok_checking_pure)
    qed
  qed
  then show ?thesis by (auto simp: ro_triple_def start_checking_def ok_checking_def)
qed

lemma reevaluate_triple: "ro_triple (ok_with env s) (reevaluate env) (range StartedCheck) (ok_with env s)"
proof (rule ro_tripleI)
  fix w assume ok: "ok_with env s w"
  show "\<exists>w' es. reevaluate env w = Some (w', es) \<and> set es \<subseteq> range StartedCheck \<and> ok_with env s w'"
  proof (cases "watched env w")
    case True
    then show ?thesis using ro_tripleD [OF start_checking_triple, of env s w] ok
      by (auto simp: reevaluate_def watched_def)
  next
    case False
    then show ?thesis using ok stop_checking_ok [of env w]
      by (auto simp: reevaluate_def watched_def ok_with_def)
  qed
qed

lemma ok_with_stop: "ok_with env s w \<Longrightarrow> ok_with env s (stop_checking w)"
  by (simp add: ok_with_def stop_checking_ok)

lemma ok_with_prune: "ok_with env s w \<Longrightarrow> ok_with env s (prune_removed_entries env w)"
  using prune_removed_ok [of env w] by (simp add: ok_with_def prune_removed_entries_def)

lemma settings_changed_triple:
  "ro_triple (ok_with env s) (rotation_settings_changed env) (range StartedCheck) (ok_with env s)"
  unfolding rotation_settings_changed_def
  by (rule triple_all_same) (auto intro: triple_pure reevaluate_triple ok_with_stop ok_with_prune)

lemma accounts_changed_triple:
  "ro_triple (ok_with env s) (rotation_accounts_changed env) (range StartedCheck) (ok_with env s)"
  unfolding rotation_accounts_changed_def
  by (rule triple_all_same) (auto intro: triple_pure reevaluate_triple ok_with_stop)

lemma ok_with_accounts: "ok_with env s w \<Longrightarrow> ok_with env s (w\<lparr> ro_accounts := accounts \<rparr>)"
  by (auto simp: ok_with_def rotation_ok_def rotation_quiet_def)

lemma announce_triple:
  "ro_triple (ok_with env s) (announce_proxy_change env) (range StartedCheck) (ok_with env s)"
proof -
  have "ro_triple (ok_with env s) (ro_all (map (\<lambda>accounts. ro_all [ro_pure (\<lambda>w. w\<lparr> ro_accounts := accounts \<rparr>),
      handle_connection_state_changed env]) r)) (range StartedCheck) (ok_with env s)" for r
    unfolding handle_connection_state_changed_def
  proof (rule triple_all_same)
    fix f assume "f \<in> set (map (\<lambda>accounts. ro_all [ro_pure (\<lambda>w. w\<lparr> ro_accounts := accounts \<rparr>), reevaluate env]) r)"
    then obtain accounts where f: "f = ro_all [ro_pure (\<lambda>w. w\<lparr> ro_accounts := accounts \<rparr>), reevaluate env]" by auto
    show "ro_triple (ok_with env s) f (range StartedCheck) (ok_with env s)"
      unfolding f by (rule triple_all_same) (auto intro: triple_pure reevaluate_triple ok_with_accounts)
  qed
  then show ?thesis by (simp add: ro_triple_def announce_proxy_change_def)
qed

lemma set_current_proxy_triple:
  "ro_triple (ok_with env s) (set_current_proxy env px mode) (range StartedCheck)
     (ok_with env (s\<lparr> ps_selected := px, ps_mode := mode \<rparr>))"
  unfolding set_current_proxy_def
proof (rule triple_Cons)
  let ?s = "s\<lparr> ps_selected := px, ps_mode := mode \<rparr>"
  show "ro_triple (ok_with env s) (ro_pure (\<lambda>w. w\<lparr> ro_settings := (ro_settings w)\<lparr> ps_selected := px, ps_mode := mode \<rparr> \<rparr>))
      (range StartedCheck) (ok_with env ?s)"
    by (rule triple_pure) (auto simp: ok_with_def rotation_ok_def rotation_quiet_def)
  show "ro_triple (ok_with env ?s) (ro_all [announce_proxy_change env, rotation_settings_changed env])
      (range StartedCheck) (ok_with env ?s)"
    by (rule triple_all_same) (auto intro: announce_triple settings_changed_triple)
qed

section \<open>Switching keeps the invariant and has its grounds\<close>

text \<open>What has to be the case before a step that switches to a proxy, and what is after it: the
  manager is checking, no account is connected, the proxy is in the list and a check of it (of a proxy
  equal to it) has come through since the manager began to look for one, or comes through in this
  step; afterwards the proxy is the selected one.\<close>

definition checked_since :: "rotation_env \<Rightarrow> rotation_action \<Rightarrow> rotation \<Rightarrow> proxy_data \<Rightarrow> rotation_entry \<Rightarrow> bool" where
  "checked_since env a w px e \<longleftrightarrow> proxy_eq (re_qt env) (en_proxy e) px
     \<and> ((\<not> en_checking e \<and> ro_switch_started w \<le> en_available_at e \<and> en_available_at e \<le> ro_now w)
        \<or> (\<exists>px' raw. a = ProxyCheckDone px' raw \<and> en_checking e \<and> (en_v4 e = Some raw \<or> en_v6 e = Some raw)))"

definition switch_grounds :: "rotation_env \<Rightarrow> rotation_action \<Rightarrow> rotation \<Rightarrow> rotation \<Rightarrow> proxy_data \<Rightarrow> bool" where
  "switch_grounds env a w w' px \<longleftrightarrow>
     ro_checking w \<and> watched env w \<and> px \<in> set (ps_list (ro_settings w))
     \<and> list_ex (checked_since env a w px) (ro_entries w)
     \<and> ps_selected (ro_settings w') = px \<and> ps_mode (ro_settings w') = ProxyEnabled \<and> \<not> ro_waiting w'"

lemma should_switch_watched: "should_switch_to_available env w \<longleftrightarrow> ro_checking w \<and> watched env w"
  by (simp add: should_switch_to_available_def watched_def)

lemma rotation_ok_waiting: "rotation_ok env w \<Longrightarrow> ro_checking w \<or> \<not> b \<Longrightarrow> rotation_ok env (w\<lparr> ro_waiting := b \<rparr>)"
  by (auto simp: rotation_ok_def rotation_quiet_def)

lemma try_switch_spec:
  assumes ok: "rotation_ok env w" and c: "ro_checking w"
  shows "\<exists>w' es. try_switch env w = Some (w', es) \<and> rotation_ok env w'
    \<and> (\<forall>px. SwitchedTo px \<in> set es \<longrightarrow>
         (\<exists>i. available_index env w i \<and> px = ps_list (ro_settings w) ! nat i)
         \<and> ps_selected (ro_settings w') = px \<and> ps_mode (ro_settings w') = ProxyEnabled \<and> \<not> ro_waiting w')"
proof (cases "List.find (available_index env w) (ro_order w)")
  case None
  then show ?thesis
    using rotation_ok_waiting [OF ok] c by (simp add: try_switch_def switch_to_available_def)
next
  case (Some i)
  then have i: "available_index env w i" by (auto simp: find_Some_iff)
  let ?px = "ps_list (ro_settings w) ! nat i"
  have "ok_with env (ro_settings w) (w\<lparr> ro_waiting := False \<rparr>)"
    using rotation_ok_waiting [OF ok, of False] by (simp add: ok_with_def)
  from ro_tripleD [OF set_current_proxy_triple this, of ?px ProxyEnabled]
  obtain w1 es where 1: "set_current_proxy env ?px ProxyEnabled (w\<lparr> ro_waiting := False \<rparr>) = Some (w1, es)"
    "set es \<subseteq> range StartedCheck" "ok_with env ((ro_settings w)\<lparr> ps_selected := ?px, ps_mode := ProxyEnabled \<rparr>) w1"
    by blast
  have "try_switch env w = Some (w1\<lparr> ro_waiting := False \<rparr>, SwitchedTo ?px # es @ [SavedSettings])"
    using Some c 1(1) by (simp add: try_switch_def switch_to_available_def Let_def)
  moreover have "rotation_ok env (w1\<lparr> ro_waiting := False \<rparr>)"
    using 1(3) rotation_ok_waiting by (simp add: ok_with_def)
  moreover have "SwitchedTo px \<in> set (SwitchedTo ?px # es @ [SavedSettings]) \<Longrightarrow> px = ?px" for px
    using 1(2) by auto
  ultimately show ?thesis using i 1(3) by (auto simp: ok_with_def)
qed

lemma available_index_entry:
  assumes "available_index env w i"
  obtains k where "k < length (ro_entries w)" and "ps_list (ro_settings w) ! nat i \<in> set (ps_list (ro_settings w))"
    and "proxy_eq (re_qt env) (en_proxy (ro_entries w ! k)) (ps_list (ro_settings w) ! nat i)"
    and "\<not> en_checking (ro_entries w ! k)" and "ro_switch_started w \<le> en_available_at (ro_entries w ! k)"
proof -
  let ?px = "ps_list (ro_settings w) ! nat i"
  have i: "0 \<le> i" "i < int (length (ps_list (ro_settings w)))" using assms by (auto simp: available_index_def)
  obtain k where k: "rotation_find (re_qt env) ?px (ro_entries w) = Some k"
    and e: "\<not> en_checking (ro_entries w ! k)" "ro_switch_started w \<le> en_available_at (ro_entries w ! k)"
    using assms by (auto simp: available_index_def Let_def split: option.splits)
  have "?px \<in> set (ps_list (ro_settings w))" using i by (intro nth_mem) simp
  then show ?thesis using that rotation_find_Some [OF k] e by blast
qed

lemma entry_available_le: "rotation_ok env w \<Longrightarrow> k < length (ro_entries w) \<Longrightarrow> en_available_at (ro_entries w ! k) \<le> ro_now w"
  by (auto simp: rotation_ok_def entries_ok_def entry_ok_def)

lemma switch_timer_spec:
  assumes ok: "rotation_ok env w"
  shows "\<exists>w' es. rotation_step env SwitchTimerFired w = Some (w', es) \<and> rotation_ok env w'
    \<and> (\<forall>px. SwitchedTo px \<in> set es \<longrightarrow> switch_grounds env SwitchTimerFired w w' px)"
proof -
  let ?w = "w\<lparr> ro_switch_timer := None \<rparr>"
  have ok1: "rotation_ok env ?w" using ok by (auto simp: rotation_ok_def rotation_quiet_def)
  show ?thesis
  proof (cases "timer_due (ro_switch_timer w) w \<and> ro_checking w \<and> watched env w")
    case False
    then show ?thesis using ok ok1 by (auto simp: switch_timer_done_def should_switch_watched)
  next
    case True
    obtain w' es where t: "try_switch env ?w = Some (w', es)" "rotation_ok env w'"
      and sw: "\<And>px. SwitchedTo px \<in> set es \<Longrightarrow>
         (\<exists>i. available_index env ?w i \<and> px = ps_list (ro_settings ?w) ! nat i)
         \<and> ps_selected (ro_settings w') = px \<and> ps_mode (ro_settings w') = ProxyEnabled \<and> \<not> ro_waiting w'"
      using try_switch_spec [OF ok1] True by fastforce
    have "switch_grounds env SwitchTimerFired w w' px" if p: "SwitchedTo px \<in> set es" for px
    proof -
      obtain i where i: "available_index env ?w i" "px = ps_list (ro_settings w) ! nat i" using sw [OF p] by auto
      obtain k where k: "k < length (ro_entries ?w)" "ps_list (ro_settings ?w) ! nat i \<in> set (ps_list (ro_settings ?w))"
        "proxy_eq (re_qt env) (en_proxy (ro_entries ?w ! k)) (ps_list (ro_settings ?w) ! nat i)"
        "\<not> en_checking (ro_entries ?w ! k)" "ro_switch_started ?w \<le> en_available_at (ro_entries ?w ! k)"
        using i(1) by (rule available_index_entry)
      have "checked_since env SwitchTimerFired w px (ro_entries w ! k)"
        using k i(2) entry_available_le [OF ok, of k] by (simp add: checked_since_def)
      then have "list_ex (checked_since env SwitchTimerFired w px) (ro_entries w)"
        using k(1) by (auto simp: list_ex_length)
      then show ?thesis using sw [OF p] True k(2) i(2) by (simp add: switch_grounds_def)
    qed
    then show ?thesis using t True by (simp add: switch_timer_done_def should_switch_watched)
  qed
qed

section \<open>The end of a check\<close>

definition finished_entry :: "int \<Rightarrow> nat \<Rightarrow> rotation_entry \<Rightarrow> rotation_entry" where
  "finished_entry now raw e = (idle_entry (drop_checker raw e))\<lparr> en_available_at := now \<rparr>"

lemma finished_entry_simps [simp]:
  "en_proxy (finished_entry now raw e) = en_proxy e" "\<not> en_checking (finished_entry now raw e)"
  "now > 0 \<Longrightarrow> entry_ok now (finished_entry now raw e)"
  by (simp_all add: finished_entry_def idle_entry_def reset_checkers_def drop_checker_def entry_ok_def)

text \<open>The state in which a finished check may make the manager switch.\<close>

definition after_check :: "rotation_env \<Rightarrow> proxy_data \<Rightarrow> nat \<Rightarrow> nat \<Rightarrow> rotation \<Rightarrow> rotation" where
  "after_check env px raw k w =
     (let i = ps_index_in_list (re_qt env) px (ro_settings w)
      in update_probe_order env
           (w\<lparr> ro_entries := (ro_entries w)[k := finished_entry (ro_now w) raw (ro_entries w ! k)],
               ro_settings := (if i \<ge> 0 then snd (ps_promote_preferred i (ro_settings w)) else ro_settings w) \<rparr>))"

lemma check_done_eq:
  assumes "rotation_find (re_qt env) px (ro_entries w) = Some k" and "en_checking (ro_entries w ! k)"
    and "en_v4 (ro_entries w ! k) = Some raw \<or> en_v6 (ro_entries w ! k) = Some raw"
  shows "\<exists>es. set es \<subseteq> {SavedSettings} \<and> check_done env px raw w =
    map_option (\<lambda>(w', es'). (w', es @ es'))
      (let w3 = after_check env px raw k w
       in if ro_waiting w3 \<and> should_switch_to_available env w3 then try_switch env w3 else Some (w3, []))"
proof -
  let ?es = "if ps_index_in_list (re_qt env) px (ro_settings w) \<ge> 0
      \<and> fst (ps_promote_preferred (ps_index_in_list (re_qt env) px (ro_settings w)) (ro_settings w)) then [SavedSettings] else []"
  have "\<not> (\<not> en_checking (ro_entries w ! k) \<or> (en_v4 (ro_entries w ! k) \<noteq> Some raw \<and> en_v6 (ro_entries w ! k) \<noteq> Some raw))"
    using assms(2,3) by blast
  then have "check_done env px raw w = map_option (\<lambda>(w', es'). (w', ?es @ es'))
      (let w3 = after_check env px raw k w
       in if ro_waiting w3 \<and> should_switch_to_available env w3 then try_switch env w3 else Some (w3, []))"
    unfolding check_done_def assms(1) option.case Let_def if_not_P
    by (auto simp: ro_pure_def promote_checked_def after_check_def finished_entry_def Let_def case_prod_unfold option.map_comp
        comp_def split: option.split)
  moreover have "set ?es \<subseteq> {SavedSettings}" by auto
  ultimately show ?thesis by blast
qed

lemma promote_fields: "ps_list (snd (ps_promote_preferred i s)) = ps_list s"
  "ps_mode (snd (ps_promote_preferred i s)) = ps_mode s"
  "ps_selected (snd (ps_promote_preferred i s)) = ps_selected s"
  "ps_rotation_enabled (snd (ps_promote_preferred i s)) = ps_rotation_enabled s"
  by (simp_all add: ps_promote_preferred_def Let_def)

lemma after_check_fields:
  "ps_list (ro_settings (after_check env px raw k w)) = ps_list (ro_settings w)"
  "watched env (after_check env px raw k w) = watched env w"
  "ro_checking (after_check env px raw k w) = ro_checking w"
  "ro_switch_started (after_check env px raw k w) = ro_switch_started w"
  "ro_now (after_check env px raw k w) = ro_now w"
  "ro_entries (after_check env px raw k w) = (ro_entries w)[k := finished_entry (ro_now w) raw (ro_entries w ! k)]"
  by (simp_all add: after_check_def update_probe_order_def watched_def should_observe_def production_accounts_def
    production_connected_def promote_fields ps_is_enabled_def Let_def)

lemma checking_entry:
  assumes "rotation_ok env w" and "k < length (ro_entries w)" and "en_checking (ro_entries w ! k)"
  shows "ro_checking w"
proof (rule ccontr)
  assume "\<not> ro_checking w"
  then have "filter en_checking (ro_entries w) = []"
    using assms(1) by (simp add: rotation_ok_def rotation_quiet_def active_checks_def)
  then show False using assms(2,3) by (auto simp: filter_empty_conv)
qed

lemma rotation_ok_settings: "rotation_ok env w \<Longrightarrow> settings_ok s \<Longrightarrow> rotation_ok env (w\<lparr> ro_settings := s \<rparr>)"
  by (auto simp: rotation_ok_def rotation_quiet_def)

lemma after_check_ok:
  assumes ok: "rotation_ok env w" and k: "k < length (ro_entries w)" "en_checking (ro_entries w ! k)"
  shows "rotation_ok env (after_check env px raw k w)"
proof -
  let ?es = "(ro_entries w)[k := finished_entry (ro_now w) raw (ro_entries w ! k)]"
  have now: "ro_now w > 0" and eok: "entries_ok (re_qt env) (ro_now w) (ro_entries w)"
    using ok by (simp_all add: rotation_ok_def entries_ok_def)
  have "entries_ok (re_qt env) (ro_now w) ?es"
    using entries_ok_update [OF eok] now k(1) by simp
  moreover have "active_checks ?es \<le> active_checks (ro_entries w)"
    using active_checks_update [OF k(1), of "finished_entry (ro_now w) raw (ro_entries w ! k)"] by simp
  ultimately have "rotation_ok env (w\<lparr> ro_entries := ?es \<rparr>)" by (rule rotation_ok_entries [OF ok])
  moreover have "settings_ok (ro_settings w)" using ok by (simp add: rotation_ok_def)
  ultimately have "rotation_ok env (w\<lparr> ro_entries := ?es, ro_settings := (if ps_index_in_list (re_qt env) px (ro_settings w) \<ge> 0
      then snd (ps_promote_preferred (ps_index_in_list (re_qt env) px (ro_settings w)) (ro_settings w)) else ro_settings w) \<rparr>)"
    (is "rotation_ok env ?w2")
    using settings_ok_promote by (intro rotation_ok_settings) simp_all
  moreover have "ro_checking ?w2" using checking_entry [OF ok k] by simp
  ultimately have "rotation_ok env (update_probe_order env ?w2)"
    using ok_with_probe [of env "ro_settings ?w2" ?w2] by (simp add: ok_with_def)
  then show ?thesis by (simp add: after_check_def Let_def)
qed

lemma check_done_spec:
  assumes ok: "rotation_ok env w"
  shows "\<exists>w' es. rotation_step env (ProxyCheckDone px raw) w = Some (w', es) \<and> rotation_ok env w'
    \<and> (\<forall>px2. SwitchedTo px2 \<in> set es \<longrightarrow> switch_grounds env (ProxyCheckDone px raw) w w' px2)"
proof (cases "\<exists>k. rotation_find (re_qt env) px (ro_entries w) = Some k \<and> en_checking (ro_entries w ! k)
    \<and> (en_v4 (ro_entries w ! k) = Some raw \<or> en_v6 (ro_entries w ! k) = Some raw)")
  case False
  then have "check_done env px raw w = Some (w, [])"
    by (auto simp: check_done_def Let_def split: option.split)
  then show ?thesis using ok by simp
next
  case True
  then obtain k where k: "rotation_find (re_qt env) px (ro_entries w) = Some k" "en_checking (ro_entries w ! k)"
    "en_v4 (ro_entries w ! k) = Some raw \<or> en_v6 (ro_entries w ! k) = Some raw" by blast
  note kl = rotation_find_Some(1) [OF k(1)]
  let ?w3 = "after_check env px raw k w"
  have ok3: "rotation_ok env ?w3" by (rule after_check_ok [OF ok kl k(2)])
  have c: "ro_checking w" by (rule checking_entry [OF ok kl k(2)])
  obtain es0 where es0: "set es0 \<subseteq> {SavedSettings}" and cd: "check_done env px raw w =
    map_option (\<lambda>(w', es'). (w', es0 @ es'))
      (if ro_waiting ?w3 \<and> should_switch_to_available env ?w3 then try_switch env ?w3 else Some (?w3, []))"
    using check_done_eq [OF k] by (auto simp: Let_def)
  show ?thesis
  proof (cases "ro_waiting ?w3 \<and> should_switch_to_available env ?w3")
    case False
    then show ?thesis using cd ok3 es0 by auto
  next
    case sw3: True
    then have watched: "watched env w" by (simp add: should_switch_watched after_check_fields)
    have c3: "ro_checking ?w3" using c by (simp add: after_check_fields)
    obtain w' es where t: "try_switch env ?w3 = Some (w', es)" "rotation_ok env w'"
      and sw: "\<And>px2. SwitchedTo px2 \<in> set es \<Longrightarrow>
         (\<exists>i. available_index env ?w3 i \<and> px2 = ps_list (ro_settings ?w3) ! nat i)
         \<and> ps_selected (ro_settings w') = px2 \<and> ps_mode (ro_settings w') = ProxyEnabled \<and> \<not> ro_waiting w'"
      using try_switch_spec [OF ok3 c3] by blast
    have "switch_grounds env (ProxyCheckDone px raw) w w' px2" if p: "SwitchedTo px2 \<in> set (es0 @ es)" for px2
    proof -
      have p': "SwitchedTo px2 \<in> set es" using p es0 by auto
      obtain i where i: "available_index env ?w3 i" "px2 = ps_list (ro_settings ?w3) ! nat i" using sw [OF p'] by auto
      obtain j where j: "j < length (ro_entries ?w3)" "ps_list (ro_settings ?w3) ! nat i \<in> set (ps_list (ro_settings ?w3))"
        "proxy_eq (re_qt env) (en_proxy (ro_entries ?w3 ! j)) (ps_list (ro_settings ?w3) ! nat i)"
        "\<not> en_checking (ro_entries ?w3 ! j)" "ro_switch_started ?w3 \<le> en_available_at (ro_entries ?w3 ! j)"
        using i(1) by (rule available_index_entry)
      have jl: "j < length (ro_entries w)" using j(1) by (simp add: after_check_fields)
      have "checked_since env (ProxyCheckDone px raw) w px2 (ro_entries w ! j)"
      proof (cases "j = k")
        case True
        then show ?thesis using j(3) i(2) k kl by (auto simp: checked_since_def after_check_fields)
      next
        case False
        then show ?thesis using j i(2) entry_available_le [OF ok jl] by (simp add: checked_since_def after_check_fields)
      qed
      then have "list_ex (checked_since env (ProxyCheckDone px raw) w px2) (ro_entries w)"
        using jl by (auto simp: list_ex_length)
      then show ?thesis using sw [OF p'] c watched j(2) i(2) by (simp add: switch_grounds_def after_check_fields)
    qed
    then show ?thesis using cd sw3 t by simp
  qed
qed

lemma check_failed_ok:
  assumes ok: "rotation_ok env w"
  shows "rotation_ok env (check_failed env px raw w)"
proof (cases "rotation_find (re_qt env) px (ro_entries w)")
  case None
  then show ?thesis using ok by (simp add: check_failed_def)
next
  case (Some k)
  note kl = rotation_find_Some(1) [OF Some]
  let ?e1 = "drop_checker raw (ro_entries w ! k)"
  let ?e2 = "if has_checkers ?e1 then ?e1 else ?e1\<lparr> en_checking := False, en_started_at := 0 \<rparr>"
  show ?thesis
  proof (cases "en_checking (ro_entries w ! k) \<and> (en_v4 (ro_entries w ! k) = Some raw \<or> en_v6 (ro_entries w ! k) = Some raw)")
    case False
    then show ?thesis using ok Some by (auto simp: check_failed_def Let_def)
  next
    case True
    have eok: "entries_ok (re_qt env) (ro_now w) (ro_entries w)" using ok by (simp add: rotation_ok_def)
    then have "entry_ok (ro_now w) (ro_entries w ! k)" "ro_now w > 0" using kl by (simp_all add: entries_ok_def)
    then have "entry_ok (ro_now w) ?e2"
      using True by (auto simp: entry_ok_def has_checkers_def drop_checker_def)
    moreover have "en_proxy ?e2 = en_proxy (ro_entries w ! k)" by (simp add: drop_checker_def)
    ultimately have "entries_ok (re_qt env) (ro_now w) ((ro_entries w)[k := ?e2])"
      by (rule entries_ok_update [OF eok _ _ kl])
    moreover have "active_checks ((ro_entries w)[k := ?e2]) \<le> active_checks (ro_entries w)"
      using active_checks_update [OF kl, of ?e2] True by (simp split: if_splits)
    ultimately have "rotation_ok env (w\<lparr> ro_entries := (ro_entries w)[k := ?e2] \<rparr>)" by (rule rotation_ok_entries [OF ok])
    moreover have "check_failed env px raw w = w\<lparr> ro_entries := (ro_entries w)[k := ?e2] \<rparr>"
      using True Some by (auto simp: check_failed_def Let_def)
    ultimately show ?thesis by simp
  qed
qed

section \<open>Steps keep the invariant\<close>

lemma switchless_step:
  assumes "ro_triple (ok_with env s) f (range StartedCheck) (ok_with env s')" and "ok_with env s w"
  shows "\<exists>w' es. f w = Some (w', es) \<and> rotation_ok env w' \<and> (\<forall>px. SwitchedTo px \<in> set es \<longrightarrow> switch_grounds env a w0 w' px)"
  using ro_tripleD [OF assms] by (fastforce simp: ok_with_def)

lemma ok_with_now: "rotation_ok env w \<Longrightarrow> rotation_ok env (w\<lparr> ro_now := ro_now w + max 0 d \<rparr>)"
  by (auto simp: rotation_ok_def entries_ok_def entry_ok_def rotation_quiet_def intro: order_trans)

lemma rotation_step_spec:
  assumes ok: "rotation_ok env w" and ed: "\<And>s. a = SettingsEdited s \<Longrightarrow> settings_ok s"
  shows "\<exists>w' es. rotation_step env a w = Some (w', es) \<and> rotation_ok env w'
    \<and> (\<forall>px. SwitchedTo px \<in> set es \<longrightarrow> switch_grounds env a w w' px)"
proof (cases a)
  case CheckTimerFired
  have "ok_with env (ro_settings w) (w\<lparr> ro_check_timer := None \<rparr>)"
    using ok by (auto simp: ok_with_def rotation_ok_def rotation_quiet_def)
  from switchless_step [OF run_checks_triple this, of a w] show ?thesis
    using CheckTimerFired ok by simp
next
  case SwitchTimerFired
  then show ?thesis using switch_timer_spec [OF ok] by simp
next
  case (ProxyCheckDone px raw)
  then show ?thesis using check_done_spec [OF ok] by simp
next
  case (ProxyCheckFailed px raw)
  then show ?thesis using check_failed_ok [OF ok] by simp
next
  case (ConnectionStates accounts)
  have "ok_with env (ro_settings w) (w\<lparr> ro_accounts := accounts \<rparr>)"
    using ok by (intro ok_with_accounts) (simp add: ok_with_def)
  from switchless_step [OF reevaluate_triple this, of a w] show ?thesis
    using ConnectionStates by (simp add: handle_connection_state_changed_def)
next
  case (AccountsChanged accounts active)
  have "ok_with env (ro_settings w) (w\<lparr> ro_accounts := accounts, ro_active := active \<rparr>)"
    using ok by (auto simp: ok_with_def rotation_ok_def rotation_quiet_def)
  from switchless_step [OF accounts_changed_triple this, of a w] show ?thesis using AccountsChanged by simp
next
  case (SettingsEdited s)
  then show ?thesis using rotation_ok_settings [OF ok ed] by simp
next
  case SettingsAnnounced
  have "ok_with env (ro_settings w) w" using ok by (simp add: ok_with_def)
  from switchless_step [OF settings_changed_triple this, of a w] show ?thesis using SettingsAnnounced by simp
next
  case (ProxyChosen px mode)
  have "ok_with env (ro_settings w) w" using ok by (simp add: ok_with_def)
  from switchless_step [OF set_current_proxy_triple this, of px mode a w] show ?thesis using ProxyChosen by simp
next
  case (TimePassed d)
  then show ?thesis using ok_with_now [OF ok] by simp
qed

lemma rotation_reach_ok: "rotation_reach env w \<Longrightarrow> rotation_ok env w"
proof (induction rule: rotation_reach.induct)
  case (reach_start now s)
  then show ?case
    by (simp add: rotation_ok_def initial_rotation_def entries_ok_def rotation_quiet_def active_checks_def)
next
  case (reach_step w a w' es)
  then show ?case using rotation_step_spec [of env w a] by auto
qed

section \<open>The next check\<close>

text \<open>An index of the probe order whose proxy can be checked now: it is in the list, and no check of
  it is running.\<close>

definition can_start :: "rotation_env \<Rightarrow> rotation \<Rightarrow> int \<Rightarrow> bool" where
  "can_start env w i \<longleftrightarrow>
     \<not> (i < 0 \<or> i \<ge> int (length (ps_list (ro_settings w))))
     \<and> (case rotation_find (re_qt env) (ps_list (ro_settings w) ! nat i) (ro_entries w) of
          None \<Rightarrow> True | Some k \<Rightarrow> \<not> en_checking (ro_entries w ! k))"

text \<open>The position of the probe order that comes \<open>d\<close> after the next one, around its end.\<close>

definition probe_position :: "rotation \<Rightarrow> nat \<Rightarrow> nat" where
  "probe_position w d = ((if ro_next w \<ge> length (ro_order w) then 0 else ro_next w) + d) mod length (ro_order w)"

lemma probe_position_0: "ro_order w \<noteq> [] \<Longrightarrow> probe_position w 0 = (if ro_next w \<ge> length (ro_order w) then 0 else ro_next w)"
  by (simp add: probe_position_def)

lemma wrap_around: "k < n \<Longrightarrow> ((if n \<le> Suc k then 0 else Suc k) + d) mod n = (k + Suc d) mod (n :: nat)"
proof (cases "n \<le> Suc k")
  case True
  moreover assume "k < n"
  ultimately have "k + Suc d = n + d" and "n \<le> Suc k" by linarith+
  then show ?thesis by (simp only: if_True mod_add_self1 add_0)
qed simp

lemma probe_position_from:
  "ro_order w \<noteq> [] \<Longrightarrow> probe_position w d = (probe_position w 0 + d) mod length (ro_order w)"
  by (simp add: probe_position_def mod_add_left_eq)

lemma probe_position_Suc:
  assumes "ro_order w \<noteq> []"
  shows "probe_position (w\<lparr> ro_next := Suc (probe_position w 0) \<rparr>) d = probe_position w (Suc d)"
proof -
  have "probe_position w 0 < length (ro_order w)" using assms by (simp add: probe_position_def)
  from wrap_around [OF this, of d] show ?thesis
    unfolding probe_position_from [OF assms, of "Suc d"]
    by (cases "length (ro_order w) \<le> Suc (probe_position w 0)") (simp_all add: probe_position_def [of "w\<lparr> ro_next := Suc (probe_position w 0) \<rparr>"])
qed

lemma ensure_can_start:
  assumes "rotation_ensure q px es = (k, es')"
  shows "en_checking (es' ! k) \<longleftrightarrow> (case rotation_find q px es of None \<Rightarrow> False | Some k \<Rightarrow> en_checking (es ! k))"
    and "en_checking (es' ! k) \<Longrightarrow> es' = es"
  using assms by (auto simp: rotation_ensure_def new_entry_def split: option.splits)

lemma next_check_round_robin:
  assumes "production_accounts w \<noteq> []" and "ro_order w \<noteq> []"
    and "entries_ok (re_qt env) (ro_now w) (ro_entries w)"
    and "d < n" and "can_start env w (ro_order w ! probe_position w d)"
    and "\<forall>d' < d. \<not> can_start env w (ro_order w ! probe_position w d')"
  shows "\<exists>w'. next_check_loop env n w = Some (w', [StartedCheck (ps_list (ro_settings w) ! nat (ro_order w ! probe_position w d))])
    \<and> active_checks (ro_entries w') = Suc (active_checks (ro_entries w)) \<and> ro_next w' = Suc (probe_position w d)"
  using assms
proof (induction n arbitrary: w d)
  case (Suc n)
  let ?k = "probe_position w 0"
  let ?i = "ro_order w ! ?k" and ?s = "ro_settings w"
  have k: "(if ro_next w \<ge> length (ro_order w) then 0 else ro_next w) = ?k"
    using Suc.prems(2) by (simp add: probe_position_0)
  show ?case
  proof (cases d)
    case 0
    then have st: "can_start env w ?i" using Suc.prems(5) by simp
    then have valid: "\<not> (?i < 0 \<or> ?i \<ge> int (length (ps_list ?s)))" by (simp add: can_start_def)
    obtain at es where en: "rotation_ensure (re_qt env) (ps_list ?s ! nat ?i) (ro_entries w) = (at, es)" by fastforce
    note sp = rotation_ensure_spec [OF en Suc.prems(3)]
    have nc: "\<not> en_checking (es ! at)" using st ensure_can_start(1) [OF en] by (auto simp: can_start_def split: option.splits)
    obtain a where a: "account_for_checks w = Some a" using account_for_checks_total Suc.prems(1) by blast
    obtain v4 v6 fresh where c: "start_proxy_check env (ps_list ?s ! nat ?i) (ps_try_ipv6 ?s) (ro_fresh w) = (v4, v6, fresh)"
      by (metis prod_cases3)
    have "active_checks (es[at := (es ! at)\<lparr> en_v4 := v4, en_v6 := v6, en_checking := True, en_started_at := ro_now w \<rparr>])
        = Suc (active_checks (ro_entries w))"
      using active_checks_update [OF sp(1), of "(es ! at)\<lparr> en_v4 := v4, en_v6 := v6, en_checking := True, en_started_at := ro_now w \<rparr>"]
        nc sp(3) by simp
    then show ?thesis using valid en nc a c 0 by (simp add: Let_def k)
  next
    case (Suc d2)
    let ?w1 = "w\<lparr> ro_next := Suc ?k \<rparr>"
    have pos: "probe_position ?w1 d' = probe_position w (Suc d')" for d'
      by (rule probe_position_Suc [OF Suc.prems(2)])
    have cs: "can_start env ?w1 i = can_start env w i" for i
      by (simp add: can_start_def cong: option.case_cong)
    have "\<exists>w'. next_check_loop env n ?w1 = Some (w', [StartedCheck (ps_list (ro_settings ?w1) ! nat (ro_order ?w1 ! probe_position ?w1 d2))])
      \<and> active_checks (ro_entries w') = Suc (active_checks (ro_entries ?w1)) \<and> ro_next w' = Suc (probe_position ?w1 d2)"
    proof (rule Suc.IH)
      show "can_start env ?w1 (ro_order ?w1 ! probe_position ?w1 d2)" using Suc.prems(5) Suc by (simp add: cs pos)
      show "\<forall>d' < d2. \<not> can_start env ?w1 (ro_order ?w1 ! probe_position ?w1 d')"
        using Suc.prems(6) Suc by (simp add: cs pos)
    qed (use Suc.prems Suc in simp_all)
    then have IH: "\<exists>w'. next_check_loop env n ?w1 = Some (w', [StartedCheck (ps_list ?s ! nat (ro_order w ! probe_position w d))])
      \<and> active_checks (ro_entries w') = Suc (active_checks (ro_entries w)) \<and> ro_next w' = Suc (probe_position w d)"
      by (simp add: pos Suc)
    have no: "\<not> can_start env w ?i" using Suc.prems(6) Suc by simp
    obtain at es where en: "rotation_ensure (re_qt env) (ps_list ?s ! nat ?i) (ro_entries w) = (at, es)" by fastforce
    show ?thesis
    proof (cases "?i < 0 \<or> ?i \<ge> int (length (ps_list ?s))")
      case True
      then show ?thesis using IH by (simp add: Let_def k)
    next
      case valid: False
      then have "en_checking (es ! at)"
        using no ensure_can_start(1) [OF en] by (auto simp: can_start_def split: option.splits)
      moreover from this have "es = ro_entries w" using ensure_can_start(2) [OF en] by simp
      ultimately show ?thesis using IH valid en by (simp add: Let_def k)
    qed
  qed
qed simp

lemma probe_position_surj:
  assumes "i \<in> set (ro_order w)"
  obtains d where "d < length (ro_order w)" and "ro_order w ! probe_position w d = i"
proof -
  let ?n = "length (ro_order w)" and ?k = "probe_position w 0"
  obtain j where j: "j < ?n" "ro_order w ! j = i" using assms by (metis in_set_conv_nth)
  have ne: "ro_order w \<noteq> []" using assms by auto
  then have k: "?k < ?n" by (simp add: probe_position_def)
  let ?d = "(j + (?n - ?k)) mod ?n"
  have "(?k + ?d) mod ?n = (?k + (j + (?n - ?k))) mod ?n" by (rule mod_add_right_eq)
  also have "?k + (j + (?n - ?k)) = j + ?n" using k by linarith
  finally have "probe_position w ?d = j" using j(1) by (simp add: probe_position_from [OF ne, of ?d])
  moreover have "?d < ?n" by (rule mod_less_divisor) (use ne in simp)
  ultimately show ?thesis using j(2) by (intro that [of ?d]) (simp_all only:)
qed

section \<open>Examples\<close>

fun rotation_run :: "rotation_env \<Rightarrow> rotation_action list \<Rightarrow> rotation_op" where
  "rotation_run env [] w = Some (w, [])"
| "rotation_run env (a # as) w =
     (case rotation_step env a w of None \<Rightarrow> None
      | Some (w1, es1) \<Rightarrow> map_option (\<lambda>(w2, es2). (w2, es1 @ es2)) (rotation_run env as w1))"

definition is_edit :: "rotation_action \<Rightarrow> bool" where
  "is_edit a = (case a of SettingsEdited _ \<Rightarrow> True | _ \<Rightarrow> False)"

lemma rotation_run_reach:
  "rotation_reach env w \<Longrightarrow> list_all (\<lambda>a. \<not> is_edit a) as \<Longrightarrow> rotation_run env as w = Some (w', es) \<Longrightarrow> rotation_reach env w'"
proof (induction "as" arbitrary: w es)
  case (Cons a "as")
  obtain w1 es1 es2 where 1: "rotation_step env a w = Some (w1, es1)" "rotation_run env as w1 = Some (w', es2)"
    using Cons.prems(3) by (auto split: option.splits)
  have "a \<noteq> SettingsEdited s" for s using Cons.prems(2) by (auto simp: is_edit_def)
  then have "rotation_reach env w1" using rotation_reach.reach_step [OF Cons.prems(1) 1(1)] by blast
  moreover have "list_all (\<lambda>a. \<not> is_edit a) as" using Cons.prems(2) by simp
  ultimately show ?case using 1(2) by (rule Cons.IH)
qed simp

definition is_switch_to :: "proxy_data \<Rightarrow> rotation_event \<Rightarrow> bool" where
  "is_switch_to px e = (case e of SwitchedTo px' \<Rightarrow> px' = px | _ \<Rightarrow> False)"

lemma is_switch_to_iff: "is_switch_to px e \<longleftrightarrow> e = SwitchedTo px"
  by (auto simp: is_switch_to_def split: rotation_event.splits)

definition example_env :: rotation_env where
  "example_env = \<lparr> re_qt = example_qt, re_endpoint = (\<lambda>_ _. True), re_reaction = (\<lambda>_. []) \<rparr>"

definition rotating_settings :: proxy_settings where
  "rotating_settings = (initial_proxy_settings False)
     \<lparr> ps_list := [socks_proxy 0x61, socks_proxy 0x62, socks_proxy 0x63], ps_rotation_enabled := True,
       ps_mode := ProxyEnabled, ps_selected := socks_proxy 0x61 \<rparr>"

definition connecting_account :: account where
  "connecting_account = \<lparr> ac_session_exists = True, ac_test_mode = False, ac_dc_state = 1 \<rparr>"

definition example_actions :: "rotation_action list" where
  "example_actions = [ConnectionStates [connecting_account], ProxyCheckDone (socks_proxy 0x62) 0, TimePassed 10000]"

definition example_rotation :: "nat \<Rightarrow> rotation" where
  "example_rotation n = fst (the (rotation_run example_env (take n example_actions) (initial_rotation 1 rotating_settings)))"

lemma example_rotation_reach: "n \<le> 3 \<Longrightarrow> rotation_reach example_env (example_rotation n)"
proof -
  assume n: "n \<le> 3"
  have "settings_ok rotating_settings"
    by (simp add: settings_ok_def rotating_settings_def initial_proxy_settings_def default_rotation_timeout_def)
  then have "rotation_reach example_env (initial_rotation 1 rotating_settings)"
    by (intro rotation_reach.reach_start) simp_all
  moreover have "list_all (\<lambda>a. \<not> is_edit a) (take n example_actions)"
    by (auto simp: example_actions_def is_edit_def list_all_iff dest!: in_set_takeD)
  moreover have "\<exists>r. rotation_run example_env (take n example_actions) (initial_rotation 1 rotating_settings) = Some r"
  proof -
    have "\<not> Option.is_none (rotation_run example_env example_actions (initial_rotation 1 rotating_settings))" by code_simp
    moreover have "rotation_run env (xs @ ys) w \<noteq> None \<Longrightarrow> rotation_run env xs w \<noteq> None" for env xs ys w
      by (induction xs arbitrary: w) (auto split: option.splits)
    ultimately show ?thesis by (metis append_take_drop_id is_none_code(1) option.exhaust)
  qed
  ultimately obtain r where 1: "rotation_reach example_env (initial_rotation 1 rotating_settings)"
    "list_all (\<lambda>a. \<not> is_edit a) (take n example_actions)"
    "rotation_run example_env (take n example_actions) (initial_rotation 1 rotating_settings) = Some r" by blast
  have "rotation_reach example_env (fst r)" by (rule rotation_run_reach [OF 1(1,2), of _ "snd r"]) (simp add: 1(3))
  then show ?thesis by (simp only: example_rotation_def 1(3) option.sel)
qed

lemma example_rotation_3: "example_rotation 3 =
   \<lparr> ro_now = 10001, ro_settings = rotating_settings, ro_accounts = [connecting_account], ro_active = 0, ro_fresh = 2,
     ro_check_timer = Some 2001, ro_switch_timer = Some 10001,
     ro_entries = [(new_entry (socks_proxy 0x62))\<lparr> en_available_at := 1 \<rparr>], ro_order = [1, 2], ro_next = 0,
     ro_checking = True, ro_waiting = False, ro_switch_started = 1 \<rparr>"
  by code_simp

lemma example_reach_1: "rotation_reach example_env (example_rotation 1)"
  and example_reach_3: "rotation_reach example_env (example_rotation 3)"
  by (rule example_rotation_reach, simp)+

lemma switch_timer_emits:
  assumes "rotation_reach env w" and "timer_due (ro_switch_timer w) w"
    and "should_switch_to_available env (w\<lparr> ro_switch_timer := None \<rparr>)"
    and "List.find (available_index env (w\<lparr> ro_switch_timer := None \<rparr>)) (ro_order w) = Some i"
  shows "\<exists>w' es. rotation_step env SwitchTimerFired w = Some (w', es)
    \<and> SwitchedTo (ps_list (ro_settings w) ! nat i) \<in> set es"
proof -
  have "ok_with env (ro_settings w) (w\<lparr> ro_switch_timer := None, ro_waiting := False \<rparr>)"
    using rotation_reach_ok [OF assms(1)] by (auto simp: ok_with_def rotation_ok_def rotation_quiet_def)
  from ro_tripleD [OF set_current_proxy_triple this]
  obtain w1 es where "set_current_proxy env (ps_list (ro_settings w) ! nat i) ProxyEnabled
      (w\<lparr> ro_switch_timer := None, ro_waiting := False \<rparr>) = Some (w1, es)" by blast
  moreover have "ro_checking w" using assms(3) by (simp add: should_switch_watched)
  ultimately show ?thesis using assms(2-4)
    by (simp add: switch_timer_done_def try_switch_def switch_to_available_def Let_def)
qed

section \<open>Properties\<close>

text \<open>C21.  In every state the manager can get into, whatever happens next, the step returns without
  failing an expectation (an account for the checks is always there when one is needed), at most ten
  checks run at once, no two entries are about the same proxy, the probe order has no repetitions, and
  a manager that is not checking has no timer, no probe order and no check running.\<close>

theorem rotation_steps_bounded:
  assumes "rotation_reach env w" and "\<And>s. a = SettingsEdited s \<Longrightarrow> settings_ok s"
  shows "\<exists>w' es. rotation_step env a w = Some (w', es)
    \<and> active_checks (ro_entries w') \<le> 10
    \<and> sorted_wrt (\<lambda>x y. \<not> proxy_eq (re_qt env) x y) (map en_proxy (ro_entries w'))
    \<and> distinct (ro_order w')
    \<and> (\<not> ro_checking w' \<longrightarrow> ro_order w' = [] \<and> \<not> ro_waiting w' \<and> ro_check_timer w' = None
         \<and> ro_switch_timer w' = None \<and> active_checks (ro_entries w') = 0)"
proof -
  obtain w' es where r: "rotation_step env a w = Some (w', es)" "rotation_ok env w'"
    using rotation_step_spec [OF rotation_reach_ok [OF assms(1)], of a] assms(2) by blast
  then show ?thesis by (auto simp: rotation_ok_def entries_ok_def rotation_quiet_def rotation_max_active_checks_def)
qed

lemma rotation_steps_bounded_witness:
  "\<exists>w' es. rotation_step example_env CheckTimerFired (example_rotation 3) = Some (w', es)
    \<and> active_checks (ro_entries w') \<le> 10"
  using rotation_steps_bounded [OF example_reach_3, of CheckTimerFired] by blast

text \<open>C8.  The manager switches only to a proxy of the list, while it is looking for one and no account
  is connected, and only when a check of that proxy has come through since it began to look (or comes
  through in this very step); after the step that proxy is the selected one and the proxies are
  enabled.\<close>

theorem rotation_switch_safe:
  assumes "rotation_reach env w" and "rotation_step env a w = Some (w', es)" and "SwitchedTo px \<in> set es"
  shows "ro_checking w \<and> should_observe env w \<and> \<not> production_connected w
    \<and> px \<in> set (ps_list (ro_settings w))
    \<and> (\<exists>e \<in> set (ro_entries w). proxy_eq (re_qt env) (en_proxy e) px
         \<and> ((\<not> en_checking e \<and> ro_switch_started w \<le> en_available_at e \<and> en_available_at e \<le> ro_now w)
            \<or> (\<exists>px' raw. a = ProxyCheckDone px' raw \<and> en_checking e \<and> (en_v4 e = Some raw \<or> en_v6 e = Some raw))))
    \<and> ps_selected (ro_settings w') = px \<and> ps_mode (ro_settings w') = ProxyEnabled"
proof -
  have "a \<noteq> SettingsEdited s" for s using assms(2,3) by auto
  then have "switch_grounds env a w w' px"
    using rotation_step_spec [OF rotation_reach_ok [OF assms(1)], of a] assms(2,3) by auto
  then show ?thesis by (auto simp: switch_grounds_def watched_def checked_since_def list_ex_iff)
qed

lemma rotation_switch_safe_witness:
  "\<exists>w' es. rotation_step example_env SwitchTimerFired (example_rotation 3) = Some (w', es)
    \<and> ps_selected (ro_settings w') = socks_proxy 0x62"
proof -
  let ?w = "(example_rotation 3)\<lparr> ro_switch_timer := None \<rparr>"
  have e: "timer_due (ro_switch_timer (example_rotation 3)) (example_rotation 3)
      \<and> should_switch_to_available example_env ?w
      \<and> List.find (available_index example_env ?w) (ro_order ?w) = Some 1
      \<and> ps_list (ro_settings ?w) ! 1 = socks_proxy 0x62"
    unfolding example_rotation_3 by code_simp
  then obtain w' es where r: "rotation_step example_env SwitchTimerFired (example_rotation 3) = Some (w', es)"
    "SwitchedTo (socks_proxy 0x62) \<in> set es"
    using switch_timer_emits [OF example_reach_3, of 1] by (simp del: rotation_step.simps) blast
  show ?thesis using rotation_switch_safe [OF example_reach_3 r] r(1) by blast
qed

text \<open>C22.  The checks go around the probe order: while the manager looks for a proxy, fewer than ten
  checks run and some proxy of the order is not being checked, starting the next check starts exactly
  one, of the first such proxy from where the last one left off, and moves past it.\<close>

theorem rotation_next_check:
  assumes "rotation_reach env w" and "watched env w" and "active_checks (ro_entries w) < 10"
    and "i \<in> set (ro_order w)" and "can_start env w i"
  shows "\<exists>d w'. d < length (ro_order w) \<and> can_start env w (ro_order w ! probe_position w d)
    \<and> (\<forall>d' < d. \<not> can_start env w (ro_order w ! probe_position w d'))
    \<and> start_next_check env w
        = Some (w', [StartedCheck (ps_list (ro_settings w) ! nat (ro_order w ! probe_position w d))])
    \<and> active_checks (ro_entries w') = Suc (active_checks (ro_entries w)) \<and> ro_next w' = Suc (probe_position w d)"
proof -
  obtain d0 where d0: "d0 < length (ro_order w)" "ro_order w ! probe_position w d0 = i"
    using assms(4) by (rule probe_position_surj)
  obtain d where d: "can_start env w (ro_order w ! probe_position w d)" "d \<le> d0"
    and least: "\<forall>d' < d. \<not> can_start env w (ro_order w ! probe_position w d')"
    using exists_least_iff [of "\<lambda>d. can_start env w (ro_order w ! probe_position w d)"] assms(5) d0(2)
    by (metis leI)
  have ne: "ro_order w \<noteq> []" using assms(4) by auto
  have eok: "entries_ok (re_qt env) (ro_now w) (ro_entries w)"
    using rotation_reach_ok [OF assms(1)] by (simp add: rotation_ok_def)
  have pr: "production_accounts w \<noteq> []" using assms(2) by (simp add: watched_def)
  have dl: "d < length (ro_order w)" using d(2) d0(1) by simp
  have "start_next_check env w = next_check_loop env (length (ro_order w)) w"
    using ne assms(3) by (simp add: start_next_check_def rotation_max_active_checks_def)
  with next_check_round_robin [OF pr ne eok dl d(1) least] d(1) dl least show ?thesis by metis
qed

lemma rotation_next_check_witness:
  "\<exists>w' px. start_next_check example_env (example_rotation 1) = Some (w', [StartedCheck px])"
proof -
  have e: "watched example_env (example_rotation 1) \<and> active_checks (ro_entries (example_rotation 1)) < 10
      \<and> 2 \<in> set (ro_order (example_rotation 1)) \<and> can_start example_env (example_rotation 1) 2"
    by code_simp
  show ?thesis
    using rotation_next_check [OF example_reach_1, of 2] e by blast
qed

end
