(* ===== verification/Segment_Tree.thy ===== *)
theory Segment_Tree
  imports Prelude "HOL-Library.Log_Nat"
begin

text \<open>
  The segment tree of the statistics charts, \<open>Statistic::SegmentTree\<close> of
  \<open>statistics/segment_tree.h\<close> and \<open>.cpp\<close>: the maximum and the minimum of an array over a range of
  indices.  Arrays shorter than thirty are scanned; for the others a heap of nodes is built, the
  children of node \<open>v\<close> being \<open>2 * v\<close> and \<open>2 * v + 1\<close>.  An access outside an array is \<open>None\<close>.  The two
  queries of the source differ in the field they read, the function that joins the halves and the
  value for an empty range, and are one definition here with these three as arguments.
\<close>

section \<open>State\<close>

record seg_node =
  sn_sum :: int
  sn_max :: int
  sn_min :: int
  sn_pending :: "int option"
  sn_from :: int
  sn_to :: int

record segment_tree =
  sg_array :: "int list"
  sg_heap :: "seg_node list"

definition min_array_size :: nat where
  "min_array_size = 30"

definition chart_value_max :: int where
  "chart_value_max = 2 ^ 63 - 1"

definition empty_node :: seg_node where
  "empty_node = \<lparr> sn_sum = 0, sn_max = 0, sn_min = 0, sn_pending = None, sn_from = 0, sn_to = 0 \<rparr>"

section \<open>Building\<close>

text \<open>The size of the heap; \<open>floorlog 2 n\<close> is the floor of the binary logarithm plus one.\<close>

definition seg_heap_size :: "nat \<Rightarrow> nat" where
  "seg_heap_size n = 2 * 2 ^ floorlog 2 n"

text \<open>A call with no elements would call itself without end; it does not happen.\<close>

function seg_build :: "int list \<Rightarrow> nat \<Rightarrow> nat \<Rightarrow> nat \<Rightarrow> seg_node list \<Rightarrow> seg_node list option" where
  "seg_build a v lo n h =
     (if v \<ge> length h \<or> n = 0 then None
      else
        (let h1 = h[v := (h ! v)\<lparr> sn_from := int lo, sn_to := int (lo + n) - 1 \<rparr>]
         in if n = 1 then
              (if lo < length a
               then Some (h1[v := (h1 ! v)\<lparr> sn_sum := a ! lo, sn_max := a ! lo, sn_min := a ! lo \<rparr>])
               else None)
            else do {
              h2 \<leftarrow> seg_build a (2 * v) lo (n div 2) h1;
              h3 \<leftarrow> seg_build a (2 * v + 1) (lo + n div 2) (n - n div 2) h2;
              Some (h3[v := (h3 ! v)\<lparr>
                sn_sum := sn_sum (h3 ! (2 * v)) + sn_sum (h3 ! (2 * v + 1)),
                sn_max := max (sn_max (h3 ! (2 * v))) (sn_max (h3 ! (2 * v + 1))),
                sn_min := min (sn_min (h3 ! (2 * v))) (sn_min (h3 ! (2 * v + 1))) \<rparr>])
            }))"
  by pat_completeness auto
termination by (relation "measure (\<lambda>(_, _, _, n, _). n)") auto

declare seg_build.simps [simp del]

definition make_segment_tree :: "int list \<Rightarrow> segment_tree option" where
  "make_segment_tree a =
     (if length a < min_array_size then Some \<lparr> sg_array = a, sg_heap = [] \<rparr>
      else map_option (\<lambda>h. \<lparr> sg_array = a, sg_heap = h \<rparr>)
             (seg_build a 1 0 (length a) (replicate (seg_heap_size (length a)) empty_node)))"

section \<open>Queries\<close>

definition seg_contains :: "int \<Rightarrow> int \<Rightarrow> int \<Rightarrow> int \<Rightarrow> bool" where
  "seg_contains from1 to1 from2 to2 \<longleftrightarrow> from2 \<ge> from1 \<and> to2 \<le> to1"

definition seg_intersects :: "int \<Rightarrow> int \<Rightarrow> int \<Rightarrow> int \<Rightarrow> bool" where
  "seg_intersects from1 to1 from2 to2 \<longleftrightarrow> (from1 \<le> from2 \<and> to1 \<ge> from2) \<or> (from1 \<ge> from2 \<and> from1 \<le> to2)"

definition seg_change :: "nat \<Rightarrow> int \<Rightarrow> segment_tree \<Rightarrow> segment_tree option" where
  "seg_change v x t =
     (if v \<ge> length (sg_heap t) then None
      else
        (let n = sg_heap t ! v
         in if sn_from n < 0 \<or> sn_from n \<ge> int (length (sg_array t)) then None
            else Some (t\<lparr> sg_heap := (sg_heap t)[v := n\<lparr> sn_pending := Some x,
                            sn_sum := (sn_to n - sn_from n + 1) * x, sn_max := x, sn_min := x \<rparr>],
                          sg_array := (sg_array t)[nat (sn_from n) := x] \<rparr>)))"

definition seg_propagate :: "nat \<Rightarrow> segment_tree \<Rightarrow> segment_tree option" where
  "seg_propagate v t =
     (if v \<ge> length (sg_heap t) then None
      else
        (case sn_pending (sg_heap t ! v) of None \<Rightarrow> Some t
         | Some x \<Rightarrow> do {
             t1 \<leftarrow> seg_change (2 * v) x (t\<lparr> sg_heap := (sg_heap t)[v := (sg_heap t ! v)\<lparr> sn_pending := None \<rparr>] \<rparr>);
             seg_change (2 * v + 1) x t1
           }))"

text \<open>The recursion of a query follows the heap; that it ends is a property.\<close>

partial_function (option) seg_query ::
  "(seg_node \<Rightarrow> int) \<Rightarrow> (int \<Rightarrow> int \<Rightarrow> int) \<Rightarrow> int \<Rightarrow> nat \<Rightarrow> int \<Rightarrow> int \<Rightarrow> segment_tree \<Rightarrow> (int \<times> segment_tree) option" where
  "seg_query field join none v qfrom qto t =
     (if v \<ge> length (sg_heap t) then None
      else
        (let n = sg_heap t ! v
         in if sn_pending n \<noteq> None \<and> seg_contains (sn_from n) (sn_to n) qfrom qto then Some (the (sn_pending n), t)
            else if seg_contains qfrom qto (sn_from n) (sn_to n) then Some (field n, t)
            else if seg_intersects qfrom qto (sn_from n) (sn_to n) then do {
              t1 \<leftarrow> seg_propagate v t;
              (l, t2) \<leftarrow> seg_query field join none (2 * v) qfrom qto t1;
              (r, t3) \<leftarrow> seg_query field join none (2 * v + 1) qfrom qto t2;
              Some (join l r, t3)
            }
            else Some (none, t)))"

text \<open>The scan of a short array.\<close>

definition seg_scan :: "(int \<Rightarrow> int \<Rightarrow> int) \<Rightarrow> int \<Rightarrow> int \<Rightarrow> int \<Rightarrow> int list \<Rightarrow> int" where
  "seg_scan join none qfrom qto a =
     foldl (\<lambda>m i. join m (a ! nat i)) none [max qfrom 0..min qto (int (length a) - 1)]"

definition seg_range_query ::
  "(seg_node \<Rightarrow> int) \<Rightarrow> (int \<Rightarrow> int \<Rightarrow> int) \<Rightarrow> int \<Rightarrow> int \<Rightarrow> int \<Rightarrow> segment_tree \<Rightarrow> (int \<times> segment_tree) option" where
  "seg_range_query field join none qfrom qto t =
     (if length (sg_array t) < min_array_size then Some (seg_scan join none qfrom qto (sg_array t), t)
      else seg_query field join none 1 qfrom qto t)"

definition seg_rmaxq :: "int \<Rightarrow> int \<Rightarrow> segment_tree \<Rightarrow> (int \<times> segment_tree) option" where
  "seg_rmaxq = seg_range_query sn_max max 0"

definition seg_rminq :: "int \<Rightarrow> int \<Rightarrow> segment_tree \<Rightarrow> (int \<times> segment_tree) option" where
  "seg_rminq = seg_range_query sn_min min chart_value_max"

section \<open>Subtrees\<close>

definition in_subtree :: "nat \<Rightarrow> nat \<Rightarrow> bool" where
  "in_subtree v k \<longleftrightarrow> (\<exists>e. k div 2 ^ e = v)"

lemma in_subtree_self: "in_subtree v v"
  unfolding in_subtree_def by (intro exI [of _ 0]) simp

lemma in_subtree_child:
  "in_subtree (2 * v) k \<Longrightarrow> in_subtree v k" "in_subtree (2 * v + 1) k \<Longrightarrow> in_subtree v k"
proof -
  have step: "\<exists>e'. k div 2 ^ e' = v" if "k div 2 ^ e div 2 = v" for e
    using that by (intro exI [of _ "Suc e"]) (simp add: div_mult2_eq [symmetric] mult.commute)
  show "in_subtree v k" if sub: "in_subtree (2 * v) k"
  proof -
    obtain e where "k div 2 ^ e = 2 * v" using sub unfolding in_subtree_def by blast
    then show ?thesis using step [of e] by (simp add: in_subtree_def)
  qed
  show "in_subtree v k" if sub: "in_subtree (2 * v + 1) k"
  proof -
    obtain e where "k div 2 ^ e = 2 * v + 1" using sub unfolding in_subtree_def by blast
    then show ?thesis using step [of e] by (simp add: in_subtree_def)
  qed
qed

lemma in_subtree_le: "in_subtree v k \<Longrightarrow> v \<le> k"
  unfolding in_subtree_def using div_le_dividend by blast

lemma in_subtree_div:
  fixes k :: nat
  assumes "k div 2 ^ e = v" and "k div 2 ^ e' = w" and "e \<le> e'"
  shows "w = v \<or> w \<le> v div 2"
proof -
  have w: "w = v div 2 ^ (e' - e)"
  proof -
    have "(2::nat) ^ e' = 2 ^ e * 2 ^ (e' - e)" using assms(3) by (simp flip: power_add)
    then have "w = k div (2 ^ e * 2 ^ (e' - e))" using assms(2) by simp
    also have "\<dots> = v div 2 ^ (e' - e)" by (simp only: div_mult2_eq assms(1))
    finally show ?thesis .
  qed
  show ?thesis
  proof (cases "e' - e")
    case (Suc j)
    then have "w = v div 2 div 2 ^ j" using w by (simp add: div_mult2_eq)
    then show ?thesis by simp
  qed (use w in simp)
qed

lemma subtrees_disjoint:
  assumes "v \<ge> 1" and "in_subtree (2 * v) k"
  shows "\<not> in_subtree (2 * v + 1) k"
proof
  assume "in_subtree (2 * v + 1) k"
  then obtain e e' where "k div 2 ^ e = 2 * v" "k div 2 ^ e' = 2 * v + 1" using assms(2) by (auto simp: in_subtree_def)
  then show False
    using in_subtree_div [of k e "2 * v" e' "2 * v + 1"] in_subtree_div [of k e' "2 * v + 1" e "2 * v"] assms(1)
    by (cases "e \<le> e'") auto
qed

section \<open>What is built\<close>

function seg_ok :: "int list \<Rightarrow> seg_node list \<Rightarrow> nat \<Rightarrow> nat \<Rightarrow> nat \<Rightarrow> bool" where
  "seg_ok a h v lo n =
     (if n = 0 then False
      else
        v < length h \<and> sn_pending (h ! v) = None \<and> sn_from (h ! v) = int lo \<and> sn_to (h ! v) = int (lo + n) - 1
        \<and> (if n = 1 then lo < length a \<and> sn_max (h ! v) = a ! lo \<and> sn_min (h ! v) = a ! lo
           else seg_ok a h (2 * v) lo (n div 2) \<and> seg_ok a h (2 * v + 1) (lo + n div 2) (n - n div 2)
             \<and> sn_max (h ! v) = max (sn_max (h ! (2 * v))) (sn_max (h ! (2 * v + 1)))
             \<and> sn_min (h ! v) = min (sn_min (h ! (2 * v))) (sn_min (h ! (2 * v + 1)))))"
  by pat_completeness auto
termination by (relation "measure (\<lambda>(_, _, _, _, n). n)") auto

declare seg_ok.simps [simp del]

lemma seg_ok_pos: "seg_ok a h v lo n \<Longrightarrow> n > 0 \<and> v < length h"
  by (simp add: seg_ok.simps [of a h v lo n] split: if_splits)

lemma seg_ok_cong:
  assumes "length h' = length h" and "\<And>k. in_subtree v k \<Longrightarrow> h' ! k = h ! k" and "seg_ok a h v lo n"
  shows "seg_ok a h' v lo n"
  using assms
proof (induction a h v lo n rule: seg_ok.induct)
  case (1 a h v lo n)
  note ok = 1(5) [unfolded seg_ok.simps [of a h v lo n]]
  have n0: "n \<noteq> 0" using seg_ok_pos [OF 1(5)] by simp
  have hv: "h' ! v = h ! v" using 1(4) in_subtree_self by blast
  show ?case
  proof (cases "n = 1")
    case True
    then show ?thesis using ok n0 1(3) unfolding seg_ok.simps [of a h' v lo n] by (simp add: hv)
  next
    case False
    have l: "seg_ok a h (2 * v) lo (n div 2)" and r: "seg_ok a h (2 * v + 1) (lo + n div 2) (n - n div 2)"
      using ok n0 False by simp_all
    have "seg_ok a h' (2 * v) lo (n div 2)"
      using 1(1) [OF n0 False 1(3) _ l] 1(4) in_subtree_child(1) by blast
    moreover have "seg_ok a h' (2 * v + 1) (lo + n div 2) (n - n div 2)"
      using 1(2) [OF n0 False 1(3) _ r] 1(4) in_subtree_child(2) by blast
    moreover have "h' ! (2 * v) = h ! (2 * v)" "h' ! (2 * v + 1) = h ! (2 * v + 1)"
      using 1(4) in_subtree_child in_subtree_self by blast+
    ultimately show ?thesis using ok n0 False 1(3) by (simp add: seg_ok.simps [of a h' v lo n] hv)
  qed
qed

lemma seg_build_ok:
  assumes "n > 0" and "lo + n \<le> length a" and "n \<le> 2 ^ d" and "(v + 1) * 2 ^ d \<le> length h" and "v \<ge> 1"
    and "\<forall>k < length h. sn_pending (h ! k) = None"
  shows "\<exists>h'. seg_build a v lo n h = Some h' \<and> length h' = length h \<and> seg_ok a h' v lo n
    \<and> (\<forall>k. \<not> in_subtree v k \<longrightarrow> h' ! k = h ! k) \<and> (\<forall>k < length h. sn_pending (h' ! k) = None)"
  using assms
proof (induction n arbitrary: lo d v h rule: less_induct)
  case (less n)
  have v: "v < length h"
  proof -
    have "v + 1 \<le> (v + 1) * 2 ^ d" using mult_le_mono2 [of 1 "2 ^ d" "v + 1"] by simp
    then show ?thesis using less.prems(4) by linarith
  qed
  let ?h1 = "h[v := (h ! v)\<lparr> sn_from := int lo, sn_to := int (lo + n) - 1 \<rparr>]"
  have pend1: "\<forall>k < length ?h1. sn_pending (?h1 ! k) = None"
    using less.prems(6) v by (auto simp: nth_list_update)
  show ?case
  proof (cases "n = 1")
    case True
    let ?h' = "?h1[v := (?h1 ! v)\<lparr> sn_sum := a ! lo, sn_max := a ! lo, sn_min := a ! lo \<rparr>]"
    have "seg_build a v lo n h = Some ?h'"
      using True less.prems(2) v unfolding seg_build.simps [of a v lo n h] by (simp add: Let_def)
    moreover have "seg_ok a ?h' v lo n"
      using True less.prems(2,6) v unfolding seg_ok.simps [of a ?h' v lo n] by simp
    moreover have "?h' ! k = h ! k" if "\<not> in_subtree v k" for k
    proof -
      have "k \<noteq> v" using that in_subtree_self by blast
      then show ?thesis by simp
    qed
    moreover have "\<forall>k < length h. sn_pending (?h' ! k) = None" using less.prems(6) v by (auto simp: nth_list_update)
    ultimately show ?thesis by (intro exI [of _ ?h']) simp
  next
    case False
    then have n2: "n \<ge> 2" using less.prems(1) by simp
    have "d \<noteq> 0"
    proof
      assume "d = 0"
      then show False using less.prems(3) n2 by simp
    qed
    then obtain d' where d: "d = Suc d'" by (cases d) auto
    have "n \<le> 2 * 2 ^ d'" using less.prems(3) d by simp
    then have half: "n div 2 \<le> 2 ^ d'" "n - n div 2 \<le> 2 ^ d'" by linarith+
    have space: "(2 * v + 1 + 1) * 2 ^ d' \<le> length h" using less.prems(4) d by (simp add: algebra_simps)
    then have space2: "(2 * v + 1) * 2 ^ d' \<le> length h" by (simp add: algebra_simps)
    have "\<exists>h2. seg_build a (2 * v) lo (n div 2) ?h1 = Some h2 \<and> length h2 = length ?h1 \<and> seg_ok a h2 (2 * v) lo (n div 2)
      \<and> (\<forall>k. \<not> in_subtree (2 * v) k \<longrightarrow> h2 ! k = ?h1 ! k) \<and> (\<forall>k < length ?h1. sn_pending (h2 ! k) = None)"
      by (rule less.IH) (use n2 less.prems(2,5) half space2 pend1 in simp_all)
    then obtain h2 where h2: "seg_build a (2 * v) lo (n div 2) ?h1 = Some h2" "length h2 = length h"
      "seg_ok a h2 (2 * v) lo (n div 2)" "\<And>k. \<not> in_subtree (2 * v) k \<Longrightarrow> h2 ! k = ?h1 ! k"
      "\<forall>k < length h2. sn_pending (h2 ! k) = None" by auto
    have "\<exists>h3. seg_build a (2 * v + 1) (lo + n div 2) (n - n div 2) h2 = Some h3 \<and> length h3 = length h2
      \<and> seg_ok a h3 (2 * v + 1) (lo + n div 2) (n - n div 2)
      \<and> (\<forall>k. \<not> in_subtree (2 * v + 1) k \<longrightarrow> h3 ! k = h2 ! k) \<and> (\<forall>k < length h2. sn_pending (h3 ! k) = None)"
      by (rule less.IH) (use n2 less.prems(2,5) half space h2(2,5) in simp_all)
    then obtain h3 where h3: "seg_build a (2 * v + 1) (lo + n div 2) (n - n div 2) h2 = Some h3" "length h3 = length h"
      "seg_ok a h3 (2 * v + 1) (lo + n div 2) (n - n div 2)" "\<And>k. \<not> in_subtree (2 * v + 1) k \<Longrightarrow> h3 ! k = h2 ! k"
      "\<forall>k < length h. sn_pending (h3 ! k) = None" using h2(2) by auto
    let ?e = "(h3 ! v)\<lparr> sn_sum := sn_sum (h3 ! (2 * v)) + sn_sum (h3 ! (2 * v + 1)),
                sn_max := max (sn_max (h3 ! (2 * v))) (sn_max (h3 ! (2 * v + 1))),
                sn_min := min (sn_min (h3 ! (2 * v))) (sn_min (h3 ! (2 * v + 1))) \<rparr>"
    have notv: "\<not> in_subtree (2 * v) v" "\<not> in_subtree (2 * v + 1) v"
      using in_subtree_le less.prems(5) by fastforce+
    have hv: "h3 ! v = (h ! v)\<lparr> sn_from := int lo, sn_to := int (lo + n) - 1 \<rparr>"
      using h3(4) [OF notv(2)] h2(4) [OF notv(1)] v by simp
    have left: "seg_ok a h3 (2 * v) lo (n div 2)"
      by (rule seg_ok_cong [OF _ _ h2(3)]) (use h2(2) h3(2,4) subtrees_disjoint less.prems(5) in auto)
    have l: "seg_ok a (h3[v := ?e]) (2 * v) lo (n div 2)"
      by (rule seg_ok_cong [OF _ _ left]) (use notv(1) in \<open>simp, metis nth_list_update_neq\<close>)
    have r: "seg_ok a (h3[v := ?e]) (2 * v + 1) (lo + n div 2) (n - n div 2)"
      by (rule seg_ok_cong [OF _ _ h3(3)]) (use notv(2) in \<open>simp, metis nth_list_update_neq\<close>)
    have "seg_build a v lo n h = Some (h3[v := ?e])"
      using False less.prems(1) v h2(1) h3(1) by (simp add: seg_build.simps [of a v lo n h] Let_def)
    moreover have "seg_ok a (h3[v := ?e]) v lo n"
      unfolding seg_ok.simps [of a "h3[v := ?e]" v lo n]
      using False less.prems(1,5,6) v h3(2) l r by (simp add: hv)
    moreover have "(h3[v := ?e]) ! k = h ! k" if "\<not> in_subtree v k" for k
    proof -
      have "k \<noteq> v" "\<not> in_subtree (2 * v) k" "\<not> in_subtree (2 * v + 1) k"
        using that in_subtree_self in_subtree_child by blast+
      then show ?thesis using h3(4) h2(4) by (simp add: nth_list_update)
    qed
    moreover have "\<forall>k < length h. sn_pending ((h3[v := ?e]) ! k) = None"
      using h3(5,2) v by (auto simp: nth_list_update)
    ultimately show ?thesis by (intro exI [of _ "h3[v := ?e]"]) (simp add: h3(2))
  qed
qed

lemma make_segment_tree_ok:
  assumes "length a \<ge> min_array_size"
  shows "\<exists>h. make_segment_tree a = Some \<lparr> sg_array = a, sg_heap = h \<rparr> \<and> seg_ok a h 1 0 (length a)"
proof -
  have pos: "length a > 0" using assms unfolding min_array_size_def by linarith
  let ?h = "replicate (seg_heap_size (length a)) empty_node"
  have "\<exists>h. seg_build a 1 0 (length a) ?h = Some h \<and> length h = length ?h \<and> seg_ok a h 1 0 (length a)
    \<and> (\<forall>k. \<not> in_subtree 1 k \<longrightarrow> h ! k = ?h ! k) \<and> (\<forall>k < length ?h. sn_pending (h ! k) = None)"
  proof (rule seg_build_ok)
    show "length a \<le> 2 ^ floorlog 2 (length a)" using floorlog_bounds [of "length a" 2] pos by simp
  qed (use pos in \<open>simp_all add: seg_heap_size_def empty_node_def\<close>)
  then show ?thesis using assms by (auto simp: make_segment_tree_def)
qed

section \<open>What the queries compute\<close>

text \<open>The laws of the two functions that join halves of a range: \<open>join\<close> is associative and the value
  for an empty range is neutral on the values that occur.\<close>

locale range_join =
  fixes join :: "int \<Rightarrow> int \<Rightarrow> int" and none :: int and ok :: "int \<Rightarrow> bool"
  assumes assoc: "join (join x y) z = join x (join y z)"
    and comm: "join x y = join y x"
    and ok_none: "ok none"
    and ok_join: "ok x \<Longrightarrow> ok y \<Longrightarrow> ok (join x y)"
    and neutral: "ok x \<Longrightarrow> join x none = x"
begin

definition joined :: "int list \<Rightarrow> int" where
  "joined xs = foldr join xs none"

lemma ok_joined: "\<forall>x \<in> set xs. ok x \<Longrightarrow> ok (joined xs)"
  by (induction xs) (simp_all add: joined_def ok_none ok_join)

lemma joined_append:
  assumes "\<forall>x \<in> set ys. ok x"
  shows "joined (xs @ ys) = join (joined xs) (joined ys)"
proof (induction xs)
  case Nil
  show ?case using neutral [OF ok_joined [OF assms]] by (simp add: joined_def comm)
next
  case (Cons x xs)
  then show ?case by (simp add: joined_def assoc)
qed

lemma foldl_joined: "ok m \<Longrightarrow> foldl (\<lambda>m i. join m (f i)) m is = join m (joined (map f is))"
  if "\<And>i. i \<in> set is \<Longrightarrow> ok (f i)"
  using that
proof (induction "is" arbitrary: m)
  case Nil
  then show ?case by (simp add: joined_def neutral)
next
  case (Cons i "is")
  then show ?case by (simp add: joined_def ok_join assoc)
qed

end

interpretation max_join: range_join max 0 "\<lambda>x. 0 \<le> x"
  by unfold_locales (simp_all add: max.assoc max.commute)

interpretation min_join: range_join min chart_value_max "\<lambda>x. x \<le> chart_value_max"
  by unfold_locales (simp_all add: min.assoc min.commute min.coboundedI1)

text \<open>The indices of a stretch of the array that a query asks for.\<close>

definition asked :: "int \<Rightarrow> int \<Rightarrow> nat \<Rightarrow> nat \<Rightarrow> nat list" where
  "asked qfrom qto lo n = filter (\<lambda>i. qfrom \<le> int i \<and> int i \<le> qto) [lo..<lo + n]"

lemma asked_split:
  assumes "k \<le> n"
  shows "asked qfrom qto lo n = asked qfrom qto lo k @ asked qfrom qto (lo + k) (n - k)"
proof -
  have "[lo..<lo + n] = [lo..<lo + k] @ [lo + k..<lo + n]"
    using assms upt_add_eq_append [of lo "lo + k" "n - k"] by simp
  then show ?thesis using assms by (simp add: asked_def)
qed

lemma asked_all: "qfrom \<le> int lo \<Longrightarrow> int (lo + n) - 1 \<le> qto \<Longrightarrow> asked qfrom qto lo n = [lo..<lo + n]"
  by (simp add: asked_def filter_id_conv)

lemma asked_none: "\<not> seg_intersects qfrom qto (int lo) (int (lo + n) - 1) \<Longrightarrow> asked qfrom qto lo n = []"
  by (auto simp: asked_def seg_intersects_def filter_empty_conv)

text \<open>The two fields as the nodes relate them, so that both queries have one proof.\<close>

definition field_ok :: "(seg_node \<Rightarrow> int) \<Rightarrow> (int \<Rightarrow> int \<Rightarrow> int) \<Rightarrow> bool" where
  "field_ok field join \<longleftrightarrow> (field = sn_max \<and> join = max) \<or> (field = sn_min \<and> join = min)"

lemma seg_ok_leaf: "seg_ok a h v lo 1 \<Longrightarrow> field_ok field join \<Longrightarrow> lo < length a \<and> field (h ! v) = a ! lo"
  unfolding seg_ok.simps [of a h v lo 1] field_ok_def by auto

lemma seg_ok_node:
  assumes "seg_ok a h v lo n"
  shows "v < length h" "sn_pending (h ! v) = None" "sn_from (h ! v) = int lo" "sn_to (h ! v) = int (lo + n) - 1"
  using assms unfolding seg_ok.simps [of a h v lo n] by (simp_all split: if_splits)

lemma seg_ok_inner:
  assumes "seg_ok a h v lo n" and "n \<noteq> 1"
  shows "seg_ok a h (2 * v) lo (n div 2)" "seg_ok a h (2 * v + 1) (lo + n div 2) (n - n div 2)"
    and "field_ok field join \<Longrightarrow> field (h ! v) = join (field (h ! (2 * v))) (field (h ! (2 * v + 1)))"
  using assms unfolding seg_ok.simps [of a h v lo n] field_ok_def by (auto split: if_splits)

lemma seg_ok_length: "seg_ok a h v lo n \<Longrightarrow> lo + n \<le> length a"
proof (induction n arbitrary: v lo rule: less_induct)
  case (less n)
  have n: "n > 0" using seg_ok_pos [OF less.prems] by simp
  show ?case
  proof (cases "n = 1")
    case True
    then show ?thesis using seg_ok_leaf [of a h v lo sn_max max] less.prems by (auto simp: field_ok_def)
  next
    case False
    then have "lo + n div 2 + (n - n div 2) \<le> length a"
      using n less.IH [OF _ seg_ok_inner(2) [OF less.prems False]] by auto
    then show ?thesis by simp
  qed
qed

context range_join
begin

lemma node_value:
  assumes "seg_ok a h v lo n" and "field_ok field join" and "\<forall>x \<in> set a. ok x"
  shows "field (h ! v) = joined (map ((!) a) [lo..<lo + n])"
  using assms(1)
proof (induction n arbitrary: v lo rule: less_induct)
  case (less n)
  have n: "n > 0" using seg_ok_pos [OF less.prems] by simp
  show ?case
  proof (cases "n = 1")
    case True
    then show ?thesis using seg_ok_leaf [of a h v lo field join] less.prems assms(2,3)
      by (simp add: joined_def neutral)
  next
    case False
    note node = seg_ok_inner [OF less.prems False]
    have l: "field (h ! (2 * v)) = joined (map ((!) a) [lo..<lo + n div 2])"
      by (rule less.IH [OF _ node(1)]) (use n in simp)
    have r: "field (h ! (2 * v + 1)) = joined (map ((!) a) [lo + n div 2..<lo + n])"
      using less.IH [OF _ node(2)] n False by simp
    have "[lo..<lo + n] = [lo..<lo + n div 2] @ [lo + n div 2..<lo + n]"
      using upt_add_eq_append [of lo "lo + n div 2" "n - n div 2"] by simp
    moreover have "\<forall>x \<in> set (map ((!) a) [lo + n div 2..<lo + n]). ok x"
      using seg_ok_length [OF less.prems] assms(3) by auto
    ultimately show ?thesis using node(3) [OF assms(2)] l r joined_append by simp
  qed
qed

lemma query_value:
  assumes "seg_ok a (sg_heap t) v lo n" and "field_ok field join" and "qfrom \<le> qto"
  shows "\<exists>m. seg_query field join none v qfrom qto t = Some (m, t)
    \<and> ((\<forall>x \<in> set a. ok x) \<longrightarrow> m = joined (map ((!) a) (asked qfrom qto lo n)))"
  using assms(1)
proof (induction n arbitrary: v lo rule: less_induct)
  case (less n)
  note nd = seg_ok_node [OF less.prems] and n = seg_ok_pos [OF less.prems]
  show ?case
  proof (cases "seg_contains qfrom qto (int lo) (int (lo + n) - 1)")
    case True
    then have "seg_query field join none v qfrom qto t = Some (field (sg_heap t ! v), t)"
      by (subst seg_query.simps) (simp add: nd not_le Let_def)
    moreover have "asked qfrom qto lo n = [lo..<lo + n]" using True by (intro asked_all) (simp_all add: seg_contains_def)
    ultimately show ?thesis using node_value [OF less.prems assms(2)] by simp
  next
    case nc: False
    show ?thesis
    proof (cases "seg_intersects qfrom qto (int lo) (int (lo + n) - 1)")
      case False
      then have "seg_query field join none v qfrom qto t = Some (none, t)"
        using nc by (subst seg_query.simps) (simp add: nd not_le Let_def)
      then show ?thesis using asked_none [OF False] by (simp add: joined_def)
    next
      case True
      have "n \<noteq> 1" using nc True assms(3) by (auto simp: seg_contains_def seg_intersects_def)
      note node = seg_ok_inner [OF less.prems this]
      obtain l where l: "seg_query field join none (2 * v) qfrom qto t = Some (l, t)"
        "(\<forall>x \<in> set a. ok x) \<longrightarrow> l = joined (map ((!) a) (asked qfrom qto lo (n div 2)))"
        using less.IH [OF _ node(1)] n \<open>n \<noteq> 1\<close> by auto
      have "n - n div 2 < n" using n \<open>n \<noteq> 1\<close> by linarith
      then obtain r where r: "seg_query field join none (2 * v + 1) qfrom qto t = Some (r, t)"
        "(\<forall>x \<in> set a. ok x) \<longrightarrow> r = joined (map ((!) a) (asked qfrom qto (lo + n div 2) (n - n div 2)))"
        using less.IH [OF _ node(2)] by auto
      have p: "seg_propagate v t = Some t" using nd by (simp add: seg_propagate_def)
      have "seg_query field join none v qfrom qto t = Some (join l r, t)"
        using nc True l(1) r(1) p by (subst seg_query.simps) (simp add: nd not_le Let_def)
      moreover have "join l r = joined (map ((!) a) (asked qfrom qto lo n))" if "\<forall>x \<in> set a. ok x"
      proof -
        have "\<forall>x \<in> set (map ((!) a) (asked qfrom qto (lo + n div 2) (n - n div 2))). ok x"
          using that seg_ok_length [OF less.prems] by (auto simp: asked_def)
        then show ?thesis using that l(2) r(2) asked_split [of "n div 2" n] joined_append by simp
      qed
      ultimately show ?thesis by blast
    qed
  qed
qed

lemma scan_value:
  assumes "\<forall>x \<in> set a. ok x"
  shows "seg_scan join none qfrom qto a = joined (map ((!) a) (asked qfrom qto 0 (length a)))"
proof -
  let ?is = "[max qfrom 0..min qto (int (length a) - 1)]"
  have "seg_scan join none qfrom qto a = join none (joined (map (\<lambda>i. a ! nat i) ?is))"
    unfolding seg_scan_def using assms by (intro foldl_joined ok_none) auto
  also have "\<dots> = joined (map (\<lambda>i. a ! nat i) ?is)"
  proof -
    have "\<forall>x \<in> set (map (\<lambda>i. a ! nat i) ?is). ok x" using assms by auto
    from neutral [OF ok_joined [OF this]] show ?thesis by (simp only: comm)
  qed
  also have "map (\<lambda>i. a ! nat i) ?is = map ((!) a) (map nat ?is)" by simp
  also have "map nat ?is = asked qfrom qto 0 (length a)"
  proof (rule sorted_distinct_set_unique)
    show "sorted (map nat ?is)" by (auto simp: sorted_map intro: sorted_wrt_mono_rel [OF _ sorted_upto])
    show "distinct (map nat ?is)" by (auto simp: distinct_map inj_on_def)
    show "set (map nat ?is) = set (asked qfrom qto 0 (length a))"
    proof (intro set_eqI iffI)
      fix i assume "i \<in> set (asked qfrom qto 0 (length a))"
      then have "int i \<in> set ?is" "i = nat (int i)" by (auto simp: asked_def)
      then show "i \<in> set (map nat ?is)" unfolding set_map by blast
    qed (auto simp: asked_def)
  qed (simp_all add: asked_def sorted_wrt_filter)
  finally show ?thesis .
qed

text \<open>Both together: the query of a tree made from an array returns and leaves the tree as it is.\<close>

lemma range_query_value:
  assumes "make_segment_tree a = Some t" and "field_ok field join" and "qfrom \<le> qto"
  shows "\<exists>m. seg_range_query field join none qfrom qto t = Some (m, t)
    \<and> ((\<forall>x \<in> set a. ok x) \<longrightarrow> m = joined (map ((!) a) (asked qfrom qto 0 (length a))))"
proof (cases "length a < min_array_size")
  case True
  then have t: "t = \<lparr> sg_array = a, sg_heap = [] \<rparr>" using assms(1) by (simp add: make_segment_tree_def)
  then show ?thesis using True scan_value by (simp add: seg_range_query_def)
next
  case False
  obtain h where t: "t = \<lparr> sg_array = a, sg_heap = h \<rparr>" and ok: "seg_ok a h 1 0 (length a)"
    using make_segment_tree_ok [of a] assms(1) False by auto
  then show ?thesis using False query_value [of a t 1 0 "length a"] assms(2,3) by (simp add: seg_range_query_def)
qed

end

lemma make_segment_tree_total: "\<exists>t. make_segment_tree a = Some t"
  using make_segment_tree_ok [of a] by (cases "length a < min_array_size") (auto simp: make_segment_tree_def)

text \<open>The elements of the array in a range of indices.\<close>

definition range_elements :: "int list \<Rightarrow> int \<Rightarrow> int \<Rightarrow> int set" where
  "range_elements a qfrom qto = {a ! i |i. i < length a \<and> qfrom \<le> int i \<and> int i \<le> qto}"

lemma range_elements_asked: "range_elements a qfrom qto = set (map ((!) a) (asked qfrom qto 0 (length a)))"
  by (auto simp: range_elements_def asked_def)

lemma max_joined: "max_join.joined xs = Max (insert 0 (set xs))"
  by (induction xs) (simp_all add: max_join.joined_def insert_commute)

lemma min_joined: "min_join.joined xs = Min (insert chart_value_max (set xs))"
  by (induction xs) (simp_all add: min_join.joined_def insert_commute)

section \<open>Properties\<close>

text \<open>Building the tree never leaves its arrays, for any array of values, and every query of a
  range that is not turned around ends, inside the arrays, and leaves the tree as it was.\<close>

theorem segment_tree_queries_end:
  assumes "qfrom \<le> qto"
  shows "\<exists>t hi lo. make_segment_tree a = Some t
    \<and> seg_rmaxq qfrom qto t = Some (hi, t) \<and> seg_rminq qfrom qto t = Some (lo, t)"
proof -
  obtain t where t: "make_segment_tree a = Some t" using make_segment_tree_total by blast
  then show ?thesis
    using max_join.range_query_value [OF t _ assms, of sn_max] min_join.range_query_value [OF t _ assms, of sn_min]
    by (auto simp: seg_rmaxq_def seg_rminq_def field_ok_def)
qed

lemma segment_tree_queries_end_witness:
  "\<exists>t hi lo. make_segment_tree [- 4, 7] = Some t \<and> seg_rmaxq (- 3) 9 t = Some (hi, t) \<and> seg_rminq (- 3) 9 t = Some (lo, t)"
  by (rule segment_tree_queries_end) simp

text \<open>C40.  The queries are the direct ones, for a short array that is scanned and for a long one with
  its tree: the largest and the smallest of the values in the range, cut to the array, with zero and
  the largest value of the type for a range without values; for the counts the charts are made of.\<close>

theorem segment_tree_exact:
  assumes "\<forall>x \<in> set a. 0 \<le> x \<and> x \<le> chart_value_max" and "qfrom \<le> qto"
  shows "\<exists>t. make_segment_tree a = Some t
    \<and> seg_rmaxq qfrom qto t = Some (Max (insert 0 (range_elements a qfrom qto)), t)
    \<and> seg_rminq qfrom qto t = Some (Min (insert chart_value_max (range_elements a qfrom qto)), t)"
proof -
  obtain t where t: "make_segment_tree a = Some t" using make_segment_tree_total by blast
  then show ?thesis
    using max_join.range_query_value [OF t _ assms(2), of sn_max] min_join.range_query_value [OF t _ assms(2), of sn_min] assms(1)
    unfolding range_elements_asked max_joined [symmetric] min_joined [symmetric]
    by (auto simp: seg_rmaxq_def seg_rminq_def field_ok_def)
qed

lemma segment_tree_exact_witness:
  "\<exists>t. make_segment_tree (replicate 40 3) = Some t
    \<and> seg_rmaxq 5 60 t = Some (Max (insert 0 (range_elements (replicate 40 3) 5 60)), t)"
  using segment_tree_exact [of "replicate 40 3" 5 60] by (auto simp: chart_value_max_def)

end
