(* ===== verification/Flat_Map.thy ===== *)
theory Flat_Map
  imports Prelude
begin

text \<open>
  The ordered map of the library, as the list of its entries with strictly increasing keys, with
  look-up, assignment (\<open>m[k] = v\<close>) and removal, and the laws the components use.  The last section
  says how a sum over the entries changes when one of them does.  Nothing here models a function of
  the program.
\<close>

type_synonym ('k, 'v) flat_map = "('k \<times> 'v) list"

abbreviation flat_map_ok :: "('k::linorder, 'v) flat_map \<Rightarrow> bool" where
  "flat_map_ok m \<equiv> flat_ok (map fst m)"

definition flat_get :: "('k, 'v) flat_map \<Rightarrow> 'k \<Rightarrow> 'v option" where
  "flat_get m k = map_of m k"

fun flat_put :: "'k::linorder \<Rightarrow> 'v \<Rightarrow> ('k, 'v) flat_map \<Rightarrow> ('k, 'v) flat_map" where
  "flat_put k v [] = [(k, v)]"
| "flat_put k v ((k', v') # m) =
     (if k < k' then (k, v) # (k', v') # m
      else if k = k' then (k, v) # m
      else (k', v') # flat_put k v m)"

definition flat_del :: "'k \<Rightarrow> ('k, 'v) flat_map \<Rightarrow> ('k, 'v) flat_map" where
  "flat_del k m = filter (\<lambda>(k', _). k' \<noteq> k) m"

section \<open>Look-up\<close>

lemma flat_get_Nil [simp]: "flat_get [] k = None"
  by (simp add: flat_get_def)

lemma flat_get_Cons: "flat_get ((k', v) # m) k = (if k' = k then Some v else flat_get m k)"
  by (simp add: flat_get_def)

lemma flat_get_put [simp]: "flat_get (flat_put k v m) j = (if j = k then Some v else flat_get m j)"
  by (induction k v m rule: flat_put.induct) (auto simp: flat_get_def)

lemma flat_get_del [simp]: "flat_get (flat_del k m) j = (if j = k then None else flat_get m j)"
  by (induction m) (auto simp: flat_get_def flat_del_def)

lemma flat_get_keys: "flat_get m k = None \<longleftrightarrow> k \<notin> fst ` set m"
  by (simp add: flat_get_def map_of_eq_None_iff)

lemma flat_get_in: "flat_get m k = Some v \<Longrightarrow> (k, v) \<in> set m"
  by (simp add: flat_get_def map_of_SomeD)

lemma flat_get_iff: "flat_map_ok m \<Longrightarrow> flat_get m k = Some v \<longleftrightarrow> (k, v) \<in> set m"
  by (simp add: flat_get_def flat_ok_sorted_distinct)

section \<open>Keys and order\<close>

lemma flat_put_keys [simp]: "fst ` set (flat_put k v m) = insert k (fst ` set m)"
  by (induction k v m rule: flat_put.induct) auto

lemma flat_del_keys [simp]: "fst ` set (flat_del k m) = fst ` set m - {k}"
  by (force simp: flat_del_def)

lemma flat_put_ok [simp]: "flat_map_ok m \<Longrightarrow> flat_map_ok (flat_put k v m)"
proof (induction m)
  case (Cons e m)
  obtain k' v' where e: "e = (k', v')" by fastforce
  show ?case using Cons flat_put_keys [of k v m] by (auto simp: e simp flip: set_map)
qed simp

lemma flat_del_ok [simp]: "flat_map_ok m \<Longrightarrow> flat_map_ok (flat_del k m)"
  by (induction m) (auto simp: flat_del_def)

lemma flat_put_not_Nil [simp]: "flat_put k v m \<noteq> []"
  by (induction k v m rule: flat_put.induct) auto

lemma flat_put_put [simp]: "flat_put k v (flat_put k w m) = flat_put k v m"
  by (induction k w m rule: flat_put.induct) auto

lemma flat_put_get: "flat_map_ok m \<Longrightarrow> flat_get m k = Some v \<Longrightarrow> flat_put k v m = m"
  by (induction m) (force simp: flat_get_Cons flat_get_def dest: map_of_SomeD)+

lemma set_flat_put: "flat_map_ok m \<Longrightarrow> set (flat_put k v m) = insert (k, v) {e \<in> set m. fst e \<noteq> k}"
proof (induction m)
  case (Cons e m)
  obtain k' v' where e: "e = (k', v')" by fastforce
  show ?case using Cons by (auto simp: e)
qed simp

lemma flat_del_absent: "flat_get m k = None \<Longrightarrow> flat_del k m = m"
  by (auto simp: flat_del_def flat_get_keys filter_id_conv image_iff)

section \<open>Sums over the entries\<close>

definition entry_sum :: "('k \<Rightarrow> 'v \<Rightarrow> int) \<Rightarrow> ('k, 'v) flat_map \<Rightarrow> int" where
  "entry_sum f m = sum_list (map (\<lambda>(k, v). f k v) m)"

lemma entry_sum_simps [simp]:
  "entry_sum f [] = 0" "entry_sum f ((k, v) # m) = f k v + entry_sum f m"
  by (simp_all add: entry_sum_def)

lemma entry_sum_put:
  "flat_map_ok m \<Longrightarrow>
   entry_sum f (flat_put k v m) = entry_sum f m + f k v - (case flat_get m k of None \<Rightarrow> 0 | Some w \<Rightarrow> f k w)"
proof (induction m)
  case (Cons e m)
  obtain k' v' where e: "e = (k', v')" by fastforce
  show ?case
  proof (cases "k < k'")
    case True
    then have "flat_get (e # m) k = None" using Cons.prems by (auto simp: e flat_get_keys)
    with True show ?thesis by (simp add: e)
  next
    case False
    then show ?thesis using Cons by (auto simp: e flat_get_Cons split: option.split)
  qed
qed simp

lemma entry_sum_del:
  "flat_map_ok m \<Longrightarrow>
   entry_sum f (flat_del k m) = entry_sum f m - (case flat_get m k of None \<Rightarrow> 0 | Some w \<Rightarrow> f k w)"
proof (induction m)
  case (Cons e m)
  obtain k' v' where e: "e = (k', v')" by fastforce
  show ?case
  proof (cases "k' = k")
    case True
    then have "flat_get m k = None" using Cons.prems by (auto simp: e flat_get_keys)
    then have "filter (\<lambda>(j, _). j \<noteq> k) m = m" using flat_del_absent by (auto simp: flat_del_def)
    with True show ?thesis by (simp add: e flat_del_def flat_get_Cons)
  next
    case False
    then show ?thesis using Cons by (simp add: e flat_del_def flat_get_Cons)
  qed
qed (simp add: flat_del_def)

lemma entry_sum_all_zero: "(\<And>k v. (k, v) \<in> set m \<Longrightarrow> f k v = 0) \<Longrightarrow> entry_sum f m = 0"
  by (induction m) auto

lemma entry_sum_nonneg: "(\<And>k v. (k, v) \<in> set m \<Longrightarrow> 0 \<le> f k v) \<Longrightarrow> 0 \<le> entry_sum f m"
  by (auto simp: entry_sum_def intro!: sum_list_nonneg)

lemma entry_sum_member: "(k, v) \<in> set m \<Longrightarrow> (\<And>k v. (k, v) \<in> set m \<Longrightarrow> 0 \<le> f k v) \<Longrightarrow> f k v \<le> entry_sum f m"
proof (induction m)
  case (Cons e m)
  have "0 \<le> entry_sum f m" using Cons.prems(2) by (intro entry_sum_nonneg) auto
  moreover have "0 \<le> (case e of (k, v) \<Rightarrow> f k v)" using Cons.prems(2) by (cases e) auto
  ultimately show ?case using Cons by (cases e) (auto, metis add_increasing)
qed simp

lemma entry_sum_zero: "entry_sum f m = 0 \<Longrightarrow> (\<And>k v. (k, v) \<in> set m \<Longrightarrow> 0 \<le> f k v) \<Longrightarrow> (k, v) \<in> set m \<Longrightarrow> f k v = 0"
  using entry_sum_member [of k v m f] by (metis order_antisym)

end
