(* ===== verification/Download_Queue.thy ===== *)
theory Download_Queue
  imports Flat_Map
begin

text \<open>
  The two queues of the downloads.  The queue of tasks of a datacenter, the class
  \<open>DownloadManagerMtproto::Queue\<close> of \<open>storage/download_manager_mtproto.cpp\<close>, is a vector ordered by
  priority in which a task that is queued goes before the tasks of its priority; the queue of the
  offsets of a streaming loader, \<open>PriorityQueue\<close> of \<open>media/streaming/media_streaming_loader.cpp\<close>, is
  an ordered set in which the offsets of one generation are taken in increasing order.  Both keep one
  contract, the locale \<open>prioritized\<close>.
\<close>

lemma some_eqI: "(\<And>y. a = Some y \<longleftrightarrow> b = Some y) \<Longrightarrow> a = b"
  by (cases a; cases b) auto

section \<open>The contract of a queue with priorities\<close>

locale prioritized =
  fixes entries :: "'q \<Rightarrow> ('k \<times> int) list"
    and ok :: "'q \<Rightarrow> bool"
    and add :: "'k \<Rightarrow> int \<Rightarrow> 'q \<Rightarrow> 'q"
    and remove :: "'k \<Rightarrow> 'q \<Rightarrow> 'q"
  assumes ok_sorted: "ok q \<Longrightarrow> sorted_wrt (\<lambda>a b. snd b \<le> snd a) (entries q)"
    and ok_distinct: "ok q \<Longrightarrow> distinct (map fst (entries q))"
    and ok_add: "ok q \<Longrightarrow> ok (add k p q)"
    and ok_remove: "ok q \<Longrightarrow> ok (remove k q)"
    and set_add: "ok q \<Longrightarrow> set (entries (add k p q)) = insert (k, p) {e \<in> set (entries q). fst e \<noteq> k}"
    and set_remove: "ok q \<Longrightarrow> set (entries (remove k q)) = {e \<in> set (entries q). fst e \<noteq> k}"
begin

lemma front_highest: "ok q \<Longrightarrow> entries q = e # es \<Longrightarrow> e' \<in> set (entries q) \<Longrightarrow> snd e' \<le> snd e"
  using ok_sorted [of q] by auto

lemma priority_iff: "ok q \<Longrightarrow> map_of (entries q) k = Some p \<longleftrightarrow> (k, p) \<in> set (entries q)"
  by (simp add: ok_distinct)

lemma priority_add: "ok q \<Longrightarrow> map_of (entries (add k p q)) = (map_of (entries q))(k \<mapsto> p)"
  by (rule ext, rule some_eqI) (auto simp: priority_iff ok_add set_add)

lemma priority_remove: "ok q \<Longrightarrow> map_of (entries (remove k q)) = (map_of (entries q))(k := None)"
  by (rule ext, rule some_eqI) (auto simp: priority_iff ok_remove set_remove)

lemma length_add_new: "ok q \<Longrightarrow> k \<notin> fst ` set (entries q) \<Longrightarrow> length (entries (add k p q)) = Suc (length (entries q))"
proof -
  assume ok: "ok q" and new: "k \<notin> fst ` set (entries q)"
  have "fst ` set (entries (add k p q)) = insert k (fst ` set (entries q))"
    using ok new by (force simp: set_add image_iff)
  then have "card (set (map fst (entries (add k p q)))) = Suc (card (set (map fst (entries q))))"
    using new by simp
  then show ?thesis using distinct_card [OF ok_distinct [OF ok]] distinct_card [OF ok_distinct [OF ok_add [OF ok]]] by simp
qed

lemma remove_add_same: "ok q \<Longrightarrow> set (entries (remove k (add k p q))) = set (entries (remove k q))"
  by (auto simp: ok_add set_remove set_add)

end

section \<open>The queue of tasks\<close>

type_synonym 'a task_queue = "('a \<times> int) list"

text \<open>\<open>std::rotate\<close> on positions.\<close>

definition rotate_range :: "nat \<Rightarrow> nat \<Rightarrow> nat \<Rightarrow> 'a list \<Rightarrow> 'a list" where
  "rotate_range from middle till xs =
     take from xs @ take (till - middle) (drop middle xs) @ take (middle - from) (drop from xs) @ drop till xs"

definition queue_position :: "int \<Rightarrow> 'a task_queue \<Rightarrow> nat" where
  "queue_position p q = length (takeWhile (\<lambda>(_, r). \<not> r \<le> p) q)"

definition queue_index :: "'a \<Rightarrow> 'a task_queue \<Rightarrow> nat" where
  "queue_index t q = length (takeWhile (\<lambda>(u, _). u \<noteq> t) q)"

definition queue_enqueue :: "'a \<Rightarrow> int \<Rightarrow> 'a task_queue \<Rightarrow> 'a task_queue" where
  "queue_enqueue t p q =
     (let position = queue_position p q;
          now = queue_index t q;
          (i, q1) = (if now < length q then (now, q[now := (t, p)]) else (length q, q @ [(t, p)]))
      in if position < i then rotate_range position i (i + 1) q1
         else if i + 1 < position then rotate_range i (i + 1) position q1
         else q1)"

definition queue_remove :: "'a \<Rightarrow> 'a task_queue \<Rightarrow> 'a task_queue" where
  "queue_remove t q = filter (\<lambda>(u, _). u \<noteq> t) q"

text \<open>The run of tasks with priority zero goes to minus one; the assertion is on what follows it.\<close>

fun reset_run :: "'a task_queue \<Rightarrow> 'a task_queue option" where
  "reset_run [] = Some []"
| "reset_run ((t, p) # q) =
     (if p \<noteq> 0 then (if p = -1 then Some ((t, p) # q) else None)
      else map_option (\<lambda>r. (t, -1) # r) (reset_run q))"

definition queue_reset_generation :: "'a task_queue \<Rightarrow> 'a task_queue option" where
  "queue_reset_generation q =
     map_option (\<lambda>r. takeWhile (\<lambda>(_, p). p \<noteq> 0) q @ r) (reset_run (dropWhile (\<lambda>(_, p). p \<noteq> 0) q))"

definition queue_next_task :: "('a \<Rightarrow> bool) \<Rightarrow> bool \<Rightarrow> 'a task_queue \<Rightarrow> 'a option" where
  "queue_next_task ready only_highest q =
     (case q of [] \<Rightarrow> None
      | (_, highest) # _ \<Rightarrow>
          (let candidates = (if only_highest \<and> highest > 0 then takeWhile (\<lambda>(_, p). \<not> p \<noteq> highest) q else q)
           in map_option fst (find (\<lambda>(t, _). ready t) candidates)))"

definition queue_ok :: "'a task_queue \<Rightarrow> bool" where
  "queue_ok q \<longleftrightarrow> sorted_wrt (\<lambda>a b. snd b \<le> snd a) q \<and> distinct (map fst q)"

section \<open>Queueing is insertion before the tasks of the same priority\<close>

text \<open>What queueing a task means: it is taken out, and put before the first task whose priority is not
  higher.\<close>

definition insert_by_priority :: "'a \<Rightarrow> int \<Rightarrow> 'a task_queue \<Rightarrow> 'a task_queue" where
  "insert_by_priority t p q =
     (let rest = queue_remove t q
      in takeWhile (\<lambda>(_, r). r > p) rest @ (t, p) # dropWhile (\<lambda>(_, r). r > p) rest)"

lemma rotate_to_front:
  "rotate_range (length xs) (length xs + length ys) (length xs + length ys + 1) (xs @ ys @ e # zs) = xs @ e # ys @ zs"
  by (simp add: rotate_range_def)

lemma rotate_to_back:
  "rotate_range (length xs) (length xs + 1) (length xs + 1 + length ys) (xs @ e # ys @ zs) = xs @ ys @ e # zs"
  by (simp add: rotate_range_def)

lemma queue_ok_simps:
  "queue_ok []"
  "queue_ok (e # q) \<longleftrightarrow> (\<forall>e' \<in> set q. snd e' \<le> snd e) \<and> fst e \<notin> fst ` set q \<and> queue_ok q"
  by (auto simp: queue_ok_def)

lemma queue_ok_append:
  "queue_ok (xs @ ys) \<longleftrightarrow> queue_ok xs \<and> queue_ok ys \<and> (\<forall>a \<in> set xs. \<forall>b \<in> set ys. snd b \<le> snd a)
     \<and> fst ` set xs \<inter> fst ` set ys = {}"
  by (auto simp: queue_ok_def sorted_wrt_append)

lemma queue_remove_absent: "t \<notin> fst ` set q \<Longrightarrow> queue_remove t q = q"
  by (auto simp: queue_remove_def filter_id_conv image_iff)

lemma queue_remove_append: "queue_remove t (xs @ ys) = queue_remove t xs @ queue_remove t ys"
  by (simp add: queue_remove_def)

lemma queue_remove_Cons: "queue_remove t ((u, p) # q) = (if u = t then queue_remove t q else (u, p) # queue_remove t q)"
  by (simp add: queue_remove_def)

text \<open>The entries of an ordered queue above a priority are a prefix of it.\<close>

lemma takeWhile_above: "queue_ok q \<Longrightarrow> takeWhile (\<lambda>(_, r). r > p) q = filter (\<lambda>(_, r). r > p) q"
  by (rule takeWhile_eq_filter_wrt [where R = "\<lambda>a b. snd b \<le> snd a"]) (auto simp: queue_ok_def)

lemma dropWhile_above: "queue_ok q \<Longrightarrow> dropWhile (\<lambda>(_, r). r > p) q = filter (\<lambda>e. \<not> (case e of (_, r) \<Rightarrow> r > p)) q"
  by (rule dropWhile_eq_filter_wrt [where R = "\<lambda>a b. snd b \<le> snd a"]) (auto simp: queue_ok_def)

lemma insert_by_priority_filter:
  "queue_ok q \<Longrightarrow> insert_by_priority t p q =
     filter (\<lambda>(u, r). u \<noteq> t \<and> r > p) q @ (t, p) # filter (\<lambda>(u, r). u \<noteq> t \<and> \<not> r > p) q"
proof -
  assume ok: "queue_ok q"
  have "queue_ok (queue_remove t q)"
    using ok by (auto simp: queue_ok_def queue_remove_def sorted_wrt_filter distinct_map intro: inj_on_subset)
  then show ?thesis
    by (simp add: insert_by_priority_def takeWhile_above dropWhile_above queue_remove_def Let_def)
      (auto intro!: arg_cong2 [where f = append] filter_cong)
qed

lemma queue_index_split: "t \<notin> fst ` set xs \<Longrightarrow> queue_index t (xs @ (t, r) # ys) = length xs"
proof -
  assume "t \<notin> fst ` set xs"
  then have "takeWhile (\<lambda>(u, _). u \<noteq> t) (xs @ (t, r) # ys) = xs"
    by (subst takeWhile_append2) (auto simp: image_iff)
  then show ?thesis by (simp add: queue_index_def)
qed

lemma queue_index_absent: "t \<notin> fst ` set q \<Longrightarrow> queue_index t q = length q"
  unfolding queue_index_def by (subst takeWhile_eq_all_conv [THEN iffD2]) (auto simp: image_iff)

lemma queue_position_above: "queue_position p q = length (takeWhile (\<lambda>(_, r). r > p) q)"
  by (simp add: queue_position_def not_le)

lemma enqueue_absent:
  assumes "t \<notin> fst ` set q"
  shows "queue_enqueue t p q = insert_by_priority t p q"
proof -
  let ?above = "\<lambda>(_ :: 'a, r). r > p"
  define as where "as = takeWhile ?above q"
  define bs where "bs = dropWhile ?above q"
  have q: "q = as @ bs" by (simp add: as_def bs_def)
  have pos: "queue_position p q = length as" by (simp add: queue_position_above as_def)
  have rhs: "insert_by_priority t p q = as @ (t, p) # bs"
    using assms by (simp add: insert_by_priority_def queue_remove_absent as_def bs_def Let_def)
  have "queue_enqueue t p q = (if length as < length q then rotate_range (length as) (length q) (length q + 1) (q @ [(t, p)])
      else if length q + 1 < length as then rotate_range (length q) (length q + 1) (length as) (q @ [(t, p)]) else q @ [(t, p)])"
    using assms by (simp add: queue_enqueue_def queue_index_absent pos Let_def)
  also have "\<dots> = as @ (t, p) # bs"
    using rotate_to_front [of as bs "(t, p)" "[]"] by (cases bs) (simp_all add: q)
  finally show ?thesis by (simp add: rhs)
qed

lemma enqueue_present:
  assumes ok: "queue_ok (xs @ (t, old) # ys)"
  shows "queue_enqueue t p (xs @ (t, old) # ys) = insert_by_priority t p (xs @ (t, old) # ys)"
    (is "queue_enqueue t p ?q = _")
proof -
  let ?above = "\<lambda>(_ :: 'a, r). r > p"
  let ?new = "xs @ (t, p) # ys"
  have fresh: "t \<notin> fst ` set xs" "t \<notin> fst ` set ys" using ok by (auto simp: queue_ok_append queue_ok_simps)
  have rest: "queue_remove t ?q = xs @ ys" using fresh by (simp add: queue_remove_append queue_remove_Cons queue_remove_absent)
  have enq: "queue_enqueue t p ?q =
      (let j = length (takeWhile ?above ?q)
       in if j < length xs then rotate_range j (length xs) (length xs + 1) ?new
          else if length xs + 1 < j then rotate_range (length xs) (length xs + 1) j ?new else ?new)"
    by (simp add: queue_enqueue_def queue_index_split fresh queue_position_above Let_def)
  show ?thesis
  proof (cases "old > p")
    case True
    have all: "\<forall>e \<in> set xs. ?above e" using ok True by (fastforce simp: queue_ok_append)
    define as where "as = takeWhile ?above ys"
    have ys: "ys = as @ dropWhile ?above ys" by (simp add: as_def)
    have "takeWhile ?above ?q = xs @ (t, old) # as" using all True by (simp add: as_def takeWhile_append2)
    moreover have "insert_by_priority t p ?q = xs @ as @ (t, p) # dropWhile ?above ys"
      using all by (simp add: insert_by_priority_def rest as_def dropWhile_append2 takeWhile_append2 Let_def)
    moreover have "rotate_range (length xs) (length xs + 1) (length xs + 1 + length as) ?new
        = xs @ as @ (t, p) # dropWhile ?above ys"
      using rotate_to_back [of xs as "(t, p)" "dropWhile ?above ys"] ys by metis
    ultimately show ?thesis using ys by (cases as) (simp_all add: enq Let_def)
  next
    case False
    have below: "\<forall>e \<in> set ys. \<not> ?above e" using ok False by (fastforce simp: queue_ok_append queue_ok_simps)
    define as where "as = takeWhile ?above xs"
    define cs where "cs = dropWhile ?above xs"
    have xs: "xs = as @ cs" by (simp add: as_def cs_def)
    have none: "takeWhile ?above ys = []" "dropWhile ?above ys = ys"
      using below by (cases ys; auto)+
    have same: "takeWhile ?above (xs @ (t, old) # ys) = as \<and> takeWhile ?above (xs @ ys) = as
        \<and> dropWhile ?above (xs @ ys) = cs @ ys"
    proof (cases cs)
      case Nil
      then have "\<forall>e \<in> set xs. ?above e" by (simp add: cs_def dropWhile_eq_Nil_conv)
      then show ?thesis using False none Nil xs by (simp add: takeWhile_append2 dropWhile_append2)
    next
      case (Cons c cs')
      then have c: "\<not> ?above c" and "\<forall>e \<in> set as. ?above e"
        using hd_dropWhile [of ?above xs] by (auto simp: cs_def as_def dest: set_takeWhileD)
      then show ?thesis by (simp add: xs Cons takeWhile_append2 dropWhile_append2)
    qed
    then have "insert_by_priority t p ?q = as @ (t, p) # cs @ ys"
      by (simp add: insert_by_priority_def rest Let_def)
    then show ?thesis
      unfolding enq using same rotate_to_front [of as cs "(t, p)" ys]
      by (cases cs) (simp_all add: xs Let_def)
  qed
qed

lemma queue_enqueue_eq: "queue_ok q \<Longrightarrow> queue_enqueue t p q = insert_by_priority t p q"
proof (cases "t \<in> fst ` set q")
  case True
  assume ok: "queue_ok q"
  from True obtain old where "(t, old) \<in> set q" by force
  then obtain xs ys where "q = xs @ (t, old) # ys" by (meson split_list)
  then show ?thesis using ok enqueue_present by simp
qed (simp add: enqueue_absent)

lemma queue_ok_filter: "queue_ok q \<Longrightarrow> queue_ok (filter P q)"
  by (auto simp: queue_ok_def sorted_wrt_filter distinct_map intro: inj_on_subset)

lemma queue_ok_enqueue: "queue_ok q \<Longrightarrow> queue_ok (queue_enqueue t p q)"
proof -
  assume ok: "queue_ok q"
  then have "e = e'" if "e \<in> set q" "e' \<in> set q" "fst e = fst e'" for e e'
    using that by (auto simp: queue_ok_def distinct_map inj_on_def)
  then show ?thesis using ok
    by (fastforce simp: queue_enqueue_eq insert_by_priority_filter queue_ok_append queue_ok_simps queue_ok_filter)
qed

lemma set_queue_enqueue:
  "queue_ok q \<Longrightarrow> set (queue_enqueue t p q) = insert (t, p) {e \<in> set q. fst e \<noteq> t}"
  by (auto simp: queue_enqueue_eq insert_by_priority_filter)

interpretation tasks: prioritized "\<lambda>q. q" queue_ok queue_enqueue queue_remove
  by unfold_locales
    (auto simp: queue_ok_enqueue set_queue_enqueue queue_remove_def queue_ok_filter, simp_all add: queue_ok_def)


section \<open>Starting a new generation and choosing the next task\<close>

text \<open>The priorities a loader can give: zero, a positive one, or the minus one of an older
  generation.\<close>

definition priorities_known :: "'a task_queue \<Rightarrow> bool" where
  "priorities_known q \<longleftrightarrow> (\<forall>e \<in> set q. -1 \<le> snd e)"

definition older :: "'a \<times> int \<Rightarrow> 'a \<times> int" where
  "older e = (if snd e = 0 then (fst e, -1) else e)"

lemma reset_run_negative:
  "queue_ok q \<Longrightarrow> \<forall>e \<in> set q. snd e \<le> 0 \<and> -1 \<le> snd e \<Longrightarrow> reset_run q = Some (map older q)"
proof (induction q rule: reset_run.induct)
  case (2 t p q)
  show ?case
  proof (cases "p = 0")
    case True
    then show ?thesis using 2 by (auto simp: queue_ok_simps older_def)
  next
    case False
    then have "\<forall>e \<in> set q. snd e \<noteq> 0" using 2 by (auto simp: queue_ok_simps)
    then have "map older q = q" by (intro map_idI) (simp add: older_def)
    moreover have "p = -1" using 2 False by auto
    ultimately show ?thesis by (simp add: older_def [of "(t, -1)"])
  qed
qed simp

lemma queue_reset_generation_eq:
  assumes ok: "queue_ok q" and known: "priorities_known q"
  shows "queue_reset_generation q = Some (map older q)"
proof -
  let ?P = "\<lambda>(_ :: 'a, p :: int). p \<noteq> 0"
  have split: "q = takeWhile ?P q @ dropWhile ?P q" by simp
  have up: "map older (takeWhile ?P q) = takeWhile ?P q"
    by (rule map_idI) (auto simp: older_def dest: set_takeWhileD)
  have ok': "queue_ok (takeWhile ?P q @ dropWhile ?P q)" using ok by simp
  have "\<forall>e \<in> set (dropWhile ?P q). -1 \<le> snd e"
    using known by (auto simp: priorities_known_def dest: set_dropWhileD)
  moreover have "\<forall>e \<in> set (dropWhile ?P q). snd e \<le> 0"
  proof (cases "dropWhile ?P q")
    case (Cons e es)
    then have "snd e = 0" using hd_dropWhile [of ?P q] by (cases e) auto
    moreover have "queue_ok (e # es)" using ok' Cons by (simp only: queue_ok_append)
    ultimately show ?thesis by (simp add: Cons queue_ok_simps)
  qed (simp only: list.set ball_empty)
  ultimately have low: "\<forall>e \<in> set (dropWhile ?P q). snd e \<le> 0 \<and> -1 \<le> snd e" by blast
  from ok'
  have "queue_ok (dropWhile ?P q)" by (simp only: queue_ok_append)
  then have "reset_run (dropWhile ?P q) = Some (map older (dropWhile ?P q))"
    using low by (rule reset_run_negative)
  then have "queue_reset_generation q = Some (map older (takeWhile ?P q @ dropWhile ?P q))"
    by (simp only: queue_reset_generation_def option.map map_append up)
  then show ?thesis by simp
qed

lemma queue_ok_older: "queue_ok q \<Longrightarrow> priorities_known q \<Longrightarrow> queue_ok (map older q)"
  by (induction q) (auto simp: queue_ok_simps older_def priorities_known_def; force)+

lemma priorities_known_older: "priorities_known q \<Longrightarrow> priorities_known (map older q)"
  by (auto simp: priorities_known_def older_def)

lemma priorities_known_enqueue:
  "queue_ok q \<Longrightarrow> priorities_known q \<Longrightarrow> -1 \<le> p \<Longrightarrow> priorities_known (queue_enqueue t p q)"
  by (auto simp: priorities_known_def set_queue_enqueue)

lemma priorities_known_remove: "priorities_known q \<Longrightarrow> priorities_known (queue_remove t q)"
  by (auto simp: priorities_known_def queue_remove_def)

text \<open>The task that is chosen is ready, it stands before every other ready task, and the restriction to
  the highest priority only ever leaves tasks of lower priorities out.\<close>

lemma find_first_Some: "find P xs = Some x \<Longrightarrow> P x \<and> x \<in> set xs"
  by (auto simp: find_Some_iff)

lemma queue_next_task_ready:
  "queue_next_task ready only q = Some t \<Longrightarrow> ready t \<and> t \<in> fst ` set q"
  by (auto simp: queue_next_task_def Let_def split: list.splits if_splits
        dest!: find_first_Some set_takeWhileD intro: rev_image_eqI)

lemma queue_next_task_unrestricted:
  "queue_next_task ready False q = map_option fst (find (\<lambda>(t, _). ready t) q)"
  by (auto simp: queue_next_task_def split: list.split)

lemma queue_next_task_None:
  "queue_next_task ready False q = None \<longleftrightarrow> (\<forall>e \<in> set q. \<not> ready (fst e))"
  by (auto simp: queue_next_task_unrestricted find_None_iff)

lemma find_takeWhile: "find Q (takeWhile P xs) = Some x \<Longrightarrow> find Q xs = Some x"
  by (induction xs) (auto split: if_splits)

lemma queue_next_task_find:
  "queue_next_task ready only q = Some t \<Longrightarrow> \<exists>p. find (\<lambda>(t, _). ready t) q = Some (t, p)"
  by (auto simp: queue_next_task_def Let_def split: list.splits if_splits dest!: find_takeWhile
      simp del: find.simps takeWhile.simps)

lemma queue_next_task_highest:
  assumes ok: "queue_ok q" and chosen: "queue_next_task ready only q = Some t"
    and t: "(t, p) \<in> set q" and other: "(u, r) \<in> set q" "ready u"
  shows "r \<le> p"
proof -
  obtain p' where f: "find (\<lambda>(t, _). ready t) q = Some (t, p')" using queue_next_task_find [OF chosen] by blast
  then obtain i where i: "i < length q" "q ! i = (t, p')" "\<forall>j < i. \<not> ready (fst (q ! j))"
    unfolding find_Some_iff by (auto simp: case_prod_beta)
  have "p' = p" using find_first_Some [OF f] t ok by (auto simp: queue_ok_def dest: eq_key_imp_eq_value)
  obtain k where k: "k < length q" "q ! k = (u, r)" using other(1) by (auto simp: in_set_conv_nth)
  have "i \<le> k" using i(3) k other(2) by (metis fst_conv not_le)
  moreover have "snd (q ! k) \<le> snd (q ! i)" if "i < k"
    using ok k that by (auto simp: queue_ok_def dest: sorted_wrt_nth_less)
  ultimately show ?thesis using i k \<open>p' = p\<close> by (cases "i = k") auto
qed

section \<open>The offsets of a streaming loader\<close>

record offset_queue =
  oq_data :: "(int \<times> int) list"
  oq_priority :: int

definition entry_before :: "int \<times> int \<Rightarrow> int \<times> int \<Rightarrow> bool" where
  "entry_before a b \<longleftrightarrow>
     (if snd a > snd b then True else if snd a < snd b then False else fst a < fst b)"

fun offset_insert :: "int \<times> int \<Rightarrow> (int \<times> int) list \<Rightarrow> (int \<times> int) list" where
  "offset_insert e [] = [e]"
| "offset_insert e (x # xs) =
     (if entry_before e x then e # x # xs
      else if entry_before x e then x # offset_insert e xs
      else x # xs)"

definition offset_erase :: "int \<Rightarrow> (int \<times> int) list \<Rightarrow> (int \<times> int) list" where
  "offset_erase v xs = takeWhile (\<lambda>(w, _). w \<noteq> v) xs @ tl (dropWhile (\<lambda>(w, _). w \<noteq> v) xs)"

definition offset_queue_add :: "int \<Rightarrow> offset_queue \<Rightarrow> bool \<times> offset_queue" where
  "offset_queue_add v q =
     (case find (\<lambda>(w, _). w = v) (oq_data q) of
        None \<Rightarrow> (True, q\<lparr> oq_data := offset_insert (v, oq_priority q) (oq_data q) \<rparr>)
      | Some (_, p) \<Rightarrow>
          if p \<noteq> oq_priority q
          then (True, q\<lparr> oq_data := offset_insert (v, oq_priority q) (offset_erase v (oq_data q)) \<rparr>)
          else (False, q))"

definition offset_queue_remove :: "int \<Rightarrow> offset_queue \<Rightarrow> bool \<times> offset_queue" where
  "offset_queue_remove v q =
     (case find (\<lambda>(w, _). w = v) (oq_data q) of
        None \<Rightarrow> (False, q)
      | Some _ \<Rightarrow> (True, q\<lparr> oq_data := offset_erase v (oq_data q) \<rparr>))"

definition offset_queue_empty :: "offset_queue \<Rightarrow> bool" where
  "offset_queue_empty q \<longleftrightarrow> oq_data q = []"

definition offset_queue_front :: "offset_queue \<Rightarrow> int option" where
  "offset_queue_front q = (case oq_data q of [] \<Rightarrow> None | (v, _) # _ \<Rightarrow> Some v)"

definition offset_queue_take :: "offset_queue \<Rightarrow> int option \<times> offset_queue" where
  "offset_queue_take q =
     (case oq_data q of [] \<Rightarrow> (None, q) | (v, _) # xs \<Rightarrow> (Some v, q\<lparr> oq_data := xs \<rparr>))"

fun take_range :: "int \<Rightarrow> int \<Rightarrow> (int \<times> int) list \<Rightarrow> int list \<times> (int \<times> int) list" where
  "take_range from till [] = ([], [])"
| "take_range from till ((v, p) # xs) =
     (let (result, rest) = take_range from till xs
      in if v \<ge> from \<and> v < till then (flat_insert v result, rest) else (result, (v, p) # rest))"

definition offset_queue_take_in_range :: "int \<Rightarrow> int \<Rightarrow> offset_queue \<Rightarrow> int list \<times> offset_queue" where
  "offset_queue_take_in_range from till q =
     (let (result, rest) = take_range from till (oq_data q) in (result, q\<lparr> oq_data := rest \<rparr>))"

definition offset_queue_clear :: "offset_queue \<Rightarrow> offset_queue" where
  "offset_queue_clear q = q\<lparr> oq_data := [] \<rparr>"

definition offset_queue_reset_priorities :: "offset_queue \<Rightarrow> offset_queue" where
  "offset_queue_reset_priorities q = q\<lparr> oq_priority := oq_priority q + 1 \<rparr>"

definition offset_queue_ok :: "offset_queue \<Rightarrow> bool" where
  "offset_queue_ok q \<longleftrightarrow> sorted_wrt entry_before (oq_data q) \<and> distinct (map fst (oq_data q))"

text \<open>The queue as one with priorities: an offset is added in the generation given.\<close>

definition add_in_generation :: "int \<Rightarrow> int \<Rightarrow> offset_queue \<Rightarrow> offset_queue" where
  "add_in_generation v p q = snd (offset_queue_add v (q\<lparr> oq_priority := p \<rparr>))"

definition drop_offset :: "int \<Rightarrow> offset_queue \<Rightarrow> offset_queue" where
  "drop_offset v q = snd (offset_queue_remove v q)"

lemma add_in_generation_own: "add_in_generation v (oq_priority q) q = snd (offset_queue_add v q)"
  by (simp add: add_in_generation_def)

lemma set_offset_insert: "set (offset_insert e xs) = insert e (set xs)"
proof (induction xs)
  case (Cons x xs)
  have "\<not> entry_before e x \<Longrightarrow> \<not> entry_before x e \<Longrightarrow> e = x"
    by (cases e; cases x) (auto simp: entry_before_def split: if_splits)
  then show ?case using Cons by auto
qed simp

lemma entry_before_trans: "entry_before a b \<Longrightarrow> entry_before b c \<Longrightarrow> entry_before a c"
  by (auto simp: entry_before_def split: if_splits)

lemma sorted_offset_insert: "sorted_wrt entry_before xs \<Longrightarrow> sorted_wrt entry_before (offset_insert e xs)"
  by (induction xs) (auto simp: set_offset_insert intro: entry_before_trans)

lemma offset_erase_filter: "distinct (map fst xs) \<Longrightarrow> offset_erase v xs = filter (\<lambda>(w, _). w \<noteq> v) xs"
proof (induction xs)
  case (Cons e xs)
  then show ?case
    by (cases "fst e = v")
      (auto simp: offset_erase_def case_prod_beta image_iff intro!: filter_True [symmetric])
qed (simp add: offset_erase_def)

lemma find_offset: "find (\<lambda>(w, _). w = v) xs = None \<longleftrightarrow> v \<notin> fst ` set xs"
  by (force simp: find_None_iff)

lemma distinct_offset_insert:
  "fst e \<notin> fst ` set xs \<Longrightarrow> distinct (map fst xs) \<Longrightarrow> distinct (map fst (offset_insert e xs))"
  by (induction xs) (auto simp: set_offset_insert)

lemma offset_erase_ok:
  assumes "offset_queue_ok q"
  shows "sorted_wrt entry_before (offset_erase v (oq_data q))" "distinct (map fst (offset_erase v (oq_data q)))"
    "set (offset_erase v (oq_data q)) = {e \<in> set (oq_data q). fst e \<noteq> v}"
  using assms by (auto simp: offset_queue_ok_def offset_erase_filter sorted_wrt_filter distinct_map
      intro: inj_on_subset)

lemma add_in_generation_spec:
  assumes "offset_queue_ok q"
  shows "offset_queue_ok (add_in_generation v p q)"
    "set (oq_data (add_in_generation v p q)) = insert (v, p) {e \<in> set (oq_data q). fst e \<noteq> v}"
proof -
  have ok: "sorted_wrt entry_before (oq_data q)" "distinct (map fst (oq_data q))"
    using assms by (simp_all add: offset_queue_ok_def)
  have "offset_queue_ok (add_in_generation v p q)
    \<and> set (oq_data (add_in_generation v p q)) = insert (v, p) {e \<in> set (oq_data q). fst e \<noteq> v}"
  proof (cases "find (\<lambda>(w, _). w = v) (oq_data q)")
    case None
    then have "v \<notin> fst ` set (oq_data q)" using find_offset by metis
    with None ok show ?thesis
      by (auto simp: add_in_generation_def offset_queue_add_def offset_queue_ok_def set_offset_insert
          sorted_offset_insert distinct_offset_insert)
  next
    case (Some e)
    obtain w r where e: "e = (w, r)" by fastforce
    with Some have here: "(v, r) \<in> set (oq_data q)" "w = v" by (auto dest: find_first_Some)
    have unique: "r' = r" if "(v, r') \<in> set (oq_data q)" for r'
      using eq_key_imp_eq_value [OF ok(2) that here(1)] .
    have eq: "oq_data (add_in_generation v p q)
        = (if r \<noteq> p then offset_insert (v, p) (offset_erase v (oq_data q)) else oq_data q)"
      using Some by (simp add: e add_in_generation_def offset_queue_add_def)
    show ?thesis
    proof (cases "r = p")
      case True
      have "set (oq_data q) = insert (v, p) {e \<in> set (oq_data q). fst e \<noteq> v}"
      proof (rule set_eqI)
        fix e
        show "e \<in> set (oq_data q) \<longleftrightarrow> e \<in> insert (v, p) {e \<in> set (oq_data q). fst e \<noteq> v}"
          using here(1) unique [of "snd e"] True by (cases e) fastforce
      qed
      with True eq ok show ?thesis by (simp add: offset_queue_ok_def)
    next
      case False
      have "fst (v, p) \<notin> fst ` set (offset_erase v (oq_data q))"
        unfolding offset_erase_ok(3) [OF assms] by auto
      with False eq offset_erase_ok [OF assms, of v] show ?thesis
        by (simp add: offset_queue_ok_def set_offset_insert sorted_offset_insert distinct_offset_insert)
    qed
  qed
  then show "offset_queue_ok (add_in_generation v p q)"
    "set (oq_data (add_in_generation v p q)) = insert (v, p) {e \<in> set (oq_data q). fst e \<noteq> v}" by simp_all
qed

lemma drop_offset_spec:
  assumes "offset_queue_ok q"
  shows "offset_queue_ok (drop_offset v q)" "set (oq_data (drop_offset v q)) = {e \<in> set (oq_data q). fst e \<noteq> v}"
  using assms offset_erase_ok [OF assms, of v] find_offset [of v "oq_data q"]
  by (auto simp: drop_offset_def offset_queue_remove_def offset_queue_ok_def split: option.split)

interpretation offsets: prioritized oq_data offset_queue_ok add_in_generation drop_offset
proof
  show "sorted_wrt (\<lambda>a b. snd b \<le> snd a) (oq_data q)" if "offset_queue_ok q" for q
    using that by (auto simp: offset_queue_ok_def entry_before_def elim!: sorted_wrt_mono_rel [rotated] split: if_splits)
qed (simp_all add: add_in_generation_spec drop_offset_spec, simp add: offset_queue_ok_def)

lemma offset_queue_take_spec:
  assumes "offset_queue_ok q" and "offset_queue_take q = (Some v, q')"
  shows "offset_queue_ok q'" and "v \<notin> fst ` set (oq_data q')" and "set (oq_data q') \<subseteq> set (oq_data q)"
    and "v \<in> fst ` set (oq_data q)" and "oq_priority q' = oq_priority q"
  using assms by (force simp: offset_queue_take_def offset_queue_ok_def split: list.splits)+

end
