(* ===== verification/Download_Loaders.thy ===== *)
theory Download_Loaders
  imports Download_Queue Bytes
begin

text \<open>
  The loaders that ask the download manager for parts of a file: the streaming loader
  (\<open>media/streaming/media_streaming_loader_mtproto.cpp\<close>), the file loader
  (\<open>storage/file_download.cpp\<close> and \<open>storage/file_download_mtproto.cpp\<close>) and the preloader of videos
  (\<open>data/data_media_preload.cpp\<close>).  This theory has their state and what they do with it alone;
  the calls that reach the manager are in the theories above it.  A file on disk is the list of its
  bytes; whether opening and writing it succeeds is given by the environment of a step.
\<close>

definition download_part_size :: int where
  "download_part_size = 128 * 1024"

section \<open>The streaming loader\<close>

record stats_entry =
  se_start :: int
  se_end :: int
  se_offset :: int

record streaming_loader =
  sl_priority :: int
  sl_requested :: offset_queue
  sl_stats :: "stats_entry list"
  sl_first_request :: int
  sl_stats_timer :: "int option"

record speed_estimate =
  sp_bytes_per_second :: int
  sp_unreliable :: bool

definition check_stats_interval :: int where "check_stats_interval = 1000"

definition initial_stats_wait :: int where "initial_stats_wait = 5 * 1000"

definition streaming_ready :: "streaming_loader \<Rightarrow> bool" where
  "streaming_ready l \<longleftrightarrow> \<not> offset_queue_empty (sl_requested l)"

definition streaming_take :: "int \<Rightarrow> streaming_loader \<Rightarrow> (int \<times> streaming_loader) option" where
  "streaming_take now l =
     (case offset_queue_take (sl_requested l) of
        (None, _) \<Rightarrow> None
      | (Some offset, q) \<Rightarrow>
          Some (offset, l\<lparr> sl_requested := q,
            sl_first_request := (if sl_first_request l = 0 then now else sl_first_request l),
            sl_stats := sl_stats l @ [\<lparr> se_start = now, se_end = 0, se_offset = offset \<rparr>] \<rparr>))"

text \<open>The first entry of the offset that was sent before now gets its end.\<close>

fun mark_stats :: "int \<Rightarrow> int \<Rightarrow> stats_entry list \<Rightarrow> bool \<times> stats_entry list" where
  "mark_stats now offset [] = (False, [])"
| "mark_stats now offset (e # es) =
     (if se_offset e = offset \<and> se_start e < now then (True, e\<lparr> se_end := now \<rparr> # es)
      else (let (found, rest) = mark_stats now offset es in (found, e # rest)))"

definition streaming_feed :: "int \<Rightarrow> int \<Rightarrow> streaming_loader \<Rightarrow> streaming_loader" where
  "streaming_feed now offset l =
     (let (found, stats) = mark_stats now offset (sl_stats l);
          check_at = max (now + check_stats_interval) (sl_first_request l + initial_stats_wait)
      in l\<lparr> sl_stats := stats,
            sl_stats_timer := (if found \<and> sl_stats_timer l = None then Some (now + (check_at - now))
                               else sl_stats_timer l) \<rparr>)"

fun erase_old_stats :: "int \<Rightarrow> stats_entry list \<Rightarrow> stats_entry list" where
  "erase_old_stats from [] = []"
| "erase_old_stats from (e # es) =
     (if se_start e \<ge> from then e # es
      else if se_end e \<noteq> 0 \<and> se_end e < from then erase_old_stats from es
      else e # erase_old_stats from es)"

text \<open>The time during which at least one request was in progress, and the bytes received in it.\<close>

fun count_stats :: "int \<Rightarrow> stats_entry list \<Rightarrow> int \<times> int \<times> int \<Rightarrow> int \<times> int \<times> int" where
  "count_stats now [] acc = acc"
| "count_stats now (e # es) (counted_till, duration, received) =
     (let from = (if se_start e > counted_till then se_start e else counted_till);
          till = (if se_end e \<noteq> 0 then se_end e else now);
          (counted_till1, duration1) = (if till > from then (till, duration + (till - from)) else (from, duration));
          received1 = (if se_end e \<noteq> 0 then received + download_part_size else received)
      in count_stats now es (counted_till1, duration1, received1))"

definition streaming_check_stats :: "int \<Rightarrow> streaming_loader \<Rightarrow> speed_estimate option \<times> streaming_loader" where
  "streaming_check_stats now l =
     (let stats = erase_old_stats (now - initial_stats_wait) (sl_stats l);
          l1 = l\<lparr> sl_stats := stats, sl_stats_timer := None \<rparr>
      in case stats of
           [] \<Rightarrow> (None, l1)
         | e # _ \<Rightarrow>
             (let (_, duration, received) = count_stats now stats (se_start e, 0, 0)
              in if duration \<noteq> 0
                 then (Some \<lparr> sp_bytes_per_second = min (max (received * 1000 div duration) 0) (64 * 1024 * 1024),
                              sp_unreliable = (received < 3 * download_part_size) \<rparr>, l1)
                 else (None, l1)))"

section \<open>The file loader\<close>

datatype local_status = LocalNotTried | LocalNotFound | LocalLoading | LocalLoaded

datatype load_to_cache = LoadToFileOnly | LoadToCacheAsWell

datatype load_from_cloud = LoadFromCloudOrLocal | LoadFromLocalOnly

text \<open>\<open>fl_named\<close> says whether the name of a file is set, \<open>fl_keyed\<close> whether the cache key is not zero,
  \<open>fl_located\<close> whether the location has a type; \<open>fl_file\<close> holds the bytes of the file while it is open.\<close>

record file_loader =
  fl_named :: bool
  fl_keyed :: bool
  fl_located :: bool
  fl_to_cache :: load_to_cache
  fl_from_cloud :: load_from_cloud
  fl_status :: local_status
  fl_local_loading :: bool
  fl_finished :: bool
  fl_cancelled :: bool
  fl_file :: "bytes option"
  fl_data :: bytes
  fl_load_size :: int
  fl_full_size :: int
  fl_skipped :: int
  fl_last_complete :: bool
  fl_next_offset :: int

record disk =
  dk_open :: bool
  dk_write :: bool

definition max_file_in_memory :: int where
  "max_file_in_memory = 10 * 1024 * 1024"

definition partial_prefix :: bytes where
  "partial_prefix = [112, 97, 114, 116, 105, 97, 108, 58]"

definition file_ready :: "bool \<Rightarrow> file_loader \<Rightarrow> bool" where
  "file_ready have_sent l \<longleftrightarrow>
     \<not> fl_finished l \<and> \<not> fl_last_complete l
     \<and> (fl_full_size l \<noteq> 0 \<or> \<not> have_sent)
     \<and> (fl_full_size l = 0 \<or> fl_next_offset l < fl_load_size l)"

definition file_take :: "bool \<Rightarrow> file_loader \<Rightarrow> (int \<times> file_loader) option" where
  "file_take have_sent l =
     (if \<not> file_ready have_sent l then None
      else Some (fl_next_offset l, l\<lparr> fl_next_offset := fl_next_offset l + download_part_size \<rparr>))"

text \<open>Writing at a position of a file or a buffer; a gap before it is filled with zeros, where the buffer of
  the library has bytes that are not defined.\<close>

definition grow_to :: "nat \<Rightarrow> bytes \<Rightarrow> bytes" where
  "grow_to n bs = bs @ replicate (n - length bs) 0"

definition write_at :: "nat \<Rightarrow> bytes \<Rightarrow> bytes \<Rightarrow> bytes" where
  "write_at n buffer bs = take n (grow_to n bs) @ buffer @ drop (n + length buffer) bs"

definition current_offset :: "file_loader \<Rightarrow> int" where
  "current_offset l = (case fl_file l of Some f \<Rightarrow> int (length f) | None \<Rightarrow> int (length (fl_data l))) - fl_skipped l"

text \<open>\<open>writeResultPart\<close>; the flag is False when the file could not be written, and the loader then has
  to be cancelled.\<close>

definition write_result_part :: "disk \<Rightarrow> int \<Rightarrow> bytes \<Rightarrow> file_loader \<Rightarrow> (bool \<times> file_loader) option" where
  "write_result_part dk offset buffer l =
     (if fl_finished l then None
      else if buffer = [] then Some (True, l)
      else (case fl_file l of
          Some f \<Rightarrow>
            (let fsize = int (length f);
                 skipped = (if offset < fsize then fl_skipped l - int (length buffer)
                            else if offset > fsize then fl_skipped l + (offset - fsize)
                            else fl_skipped l)
             in if \<not> dk_write dk then Some (False, l\<lparr> fl_skipped := skipped \<rparr>)
                else Some (True, l\<lparr> fl_skipped := skipped, fl_file := Some (write_at (nat offset) buffer f) \<rparr>))
        | None \<Rightarrow>
            (let dsize = int (length (fl_data l));
                 (skipped1, data1) =
                   (if offset > dsize then (fl_skipped l + (offset - dsize), grow_to (nat offset) (fl_data l))
                    else (fl_skipped l, fl_data l));
                 (skipped2, data2) =
                   (if offset = int (length data1) then (skipped1, data1 @ buffer)
                    else (skipped1 - int (length buffer),
                          write_at (nat offset) buffer
                            (if offset + int (length buffer) > int (length data1)
                             then grow_to (nat (offset + int (length buffer))) data1 else data1)))
             in Some (True, l\<lparr> fl_skipped := skipped2, fl_data := data2 \<rparr>))))"

definition mark_last_part :: "bytes \<Rightarrow> file_loader \<Rightarrow> file_loader" where
  "mark_last_part buffer l =
     (if buffer = [] \<or> length buffer mod 1024 \<noteq> 0 then l\<lparr> fl_last_complete := True \<rparr> else l)"

definition file_all_loaded :: "bool \<Rightarrow> file_loader \<Rightarrow> bool" where
  "file_all_loaded have_sent l \<longleftrightarrow>
     \<not> have_sent \<and> (fl_last_complete l \<or> (fl_full_size l \<noteq> 0 \<and> fl_next_offset l \<ge> fl_load_size l))"

definition increase_load_size :: "int \<Rightarrow> file_loader \<Rightarrow> file_loader option" where
  "increase_load_size new_size l =
     (if new_size > fl_load_size l \<and> new_size \<le> fl_full_size l then Some (l\<lparr> fl_load_size := new_size \<rparr>) else None)"

definition permit_load_from_cloud :: "file_loader \<Rightarrow> file_loader" where
  "permit_load_from_cloud l = l\<lparr> fl_from_cloud := LoadFromCloudOrLocal \<rparr>"

section \<open>The preloader of videos\<close>

record video_preload =
  vp_parts :: "(int, bytes) flat_map"
  vp_requested :: "int list"
  vp_full :: int
  vp_next :: int
  vp_finished :: bool
  vp_failed :: bool

definition preload_parts_size :: "video_preload \<Rightarrow> int" where
  "preload_parts_size p = int (length (vp_parts p)) * download_part_size"

definition preload_ready :: "video_preload \<Rightarrow> bool" where
  "preload_ready p \<longleftrightarrow> \<not> vp_failed p \<and> vp_next p < preload_parts_size p"

definition preload_take :: "video_preload \<Rightarrow> (int \<times> video_preload) option" where
  "preload_take p =
     (if \<not> preload_ready p then None
      else (let requested = flat_insert (vp_next p) (vp_requested p)
            in Some (last requested,
                 p\<lparr> vp_requested := requested, vp_next := vp_next p + download_part_size \<rparr>)))"

text \<open>The state after a part, and whether the preloader then takes itself for finished.\<close>

definition preload_feed :: "int \<Rightarrow> bytes \<Rightarrow> video_preload \<Rightarrow> (bool \<times> video_preload) option" where
  "preload_feed offset bytes p =
     (if \<not> (offset < preload_parts_size p \<and> offset \<in> set (vp_requested p)
             \<and> int (length bytes) \<le> download_part_size) then None
      else (let p1 = p\<lparr> vp_requested := flat_remove offset (vp_requested p),
                        vp_parts := flat_put offset bytes (vp_parts p) \<rparr>
            in if vp_next p1 + download_part_size \<ge> preload_parts_size p1 \<and> vp_requested p1 = []
               then Some (True, p1\<lparr> vp_finished := True \<rparr>)
               else Some (False, p1)))"

fun preload_offsets :: "nat \<Rightarrow> nat \<Rightarrow> (int, bytes) flat_map \<Rightarrow> (int, bytes) flat_map" where
  "preload_offsets 0 i m = m"
| "preload_offsets (Suc n) i m = preload_offsets n (Suc i) (flat_emplace (int i * download_part_size) [] m)"

text \<open>\<open>load\<close>: the parts of the prefix, none of them loaded.\<close>

definition preload_load :: "int \<Rightarrow> int \<Rightarrow> video_preload \<Rightarrow> video_preload option" where
  "preload_load prefix video_size p =
     (if \<not> (prefix > 0 \<and> prefix \<le> video_size) then None
      else Some (p\<lparr> vp_parts := preload_offsets (nat ((prefix + download_part_size - 1) div download_part_size)) 0 (vp_parts p) \<rparr>))"

definition serialize_parts :: "(int, bytes) flat_map \<Rightarrow> bytes" where
  "serialize_parts parts =
     le32_bytes (of_nat (length parts))
     @ concat (map (\<lambda>(offset, part). le32_bytes (word_of_int offset) @ le32_bytes (of_nat (length part)) @ part) parts)"

definition preload_result :: "video_preload \<Rightarrow> bytes" where
  "preload_result p =
     (let result = serialize_parts (vp_parts p)
      in if int (length result) = vp_full p then result @ [0] else result)"

section \<open>The loader behind a task\<close>

datatype loader = Streaming streaming_loader | FileLoad file_loader | Preload video_preload

fun loader_ready :: "bool \<Rightarrow> loader \<Rightarrow> bool" where
  "loader_ready have_sent (Streaming l) = streaming_ready l"
| "loader_ready have_sent (FileLoad l) = file_ready have_sent l"
| "loader_ready have_sent (Preload p) = preload_ready p"

fun loader_take :: "int \<Rightarrow> bool \<Rightarrow> loader \<Rightarrow> (int \<times> loader) option" where
  "loader_take now have_sent (Streaming l) = map_option (map_prod id Streaming) (streaming_take now l)"
| "loader_take now have_sent (FileLoad l) = map_option (map_prod id FileLoad) (file_take have_sent l)"
| "loader_take now have_sent (Preload p) = map_option (map_prod id Preload) (preload_take p)"

lemma loader_take_ready: "loader_ready have_sent l \<longleftrightarrow> loader_take now have_sent l \<noteq> None"
  by (cases l)
    (auto simp: streaming_ready_def streaming_take_def offset_queue_empty_def offset_queue_take_def file_take_def
      preload_take_def Let_def split: list.split)

end
