(* ===== verification/Download_Manager.thy ===== *)
theory Download_Manager
  imports Download_Loaders
begin

text \<open>
  The download manager, \<open>storage/download_manager_mtproto.cpp\<close>: for every datacenter the queue of its
  tasks and the balance of its sessions, and for every task the requests it has sent.  This theory has
  the balance of the sessions, the requests of the tasks and the sending of parts; the answers of the
  network and the calls of the loaders are in \<open>Download_Tasks\<close>.  An operation returns None where the
  code asserts; what it asks of the network and tells the loaders' owners is appended to \<open>dw_log\<close>.
  Tasks are numbers, requests are numbers each used once.
\<close>

section \<open>State\<close>

record request_data =
  rd_offset :: int
  rd_session :: nat
  rd_amount :: int
  rd_sent :: int

datatype file_location = StorageLocation bytes | WebLocation | GeoLocation | AlbumThumbLocation

record download_task =
  dt_dc :: int
  dt_location :: file_location
  dt_sent :: "(int, request_data) flat_map"
  dt_by_offset :: "(int, int) flat_map"
  dt_cdn_dc :: int
  dt_cdn_token :: bytes
  dt_cdn_key :: bytes
  dt_cdn_iv :: bytes
  dt_cdn_hashes :: "(int, int \<times> bytes) flat_map"
  dt_unchecked :: "(int, request_data \<times> bytes) flat_map"
  dt_hashes_request :: int
  dt_loader :: loader

record session_balance =
  sb_requested :: int
  sb_successes :: int
  sb_max_waited :: int

record dc_balance =
  db_sessions :: "session_balance list"
  db_last_remove :: int
  db_remove_index :: int
  db_remove_times :: int
  db_timeouts :: int
  db_total :: int

datatype request_kind = GetFile bytes | GetWebFile | GetCdnFile bytes | GetCdnHashes bytes | ReuploadCdn bytes bytes

datatype failure = NoFailure | FileWriteFailure | OtherFailure

datatype download_event =
    Sent nat int request_kind int nat int
  | CancelledRequest int
  | SessionKilled int nat
  | SessionStopped int nat
  | PartReady nat int bytes
  | PartFailed nat
  | SpeedEstimated nat speed_estimate
  | LoadProgress nat
  | FileLoaded nat bytes
  | FileSaved nat bytes
  | FileFailed nat failure bool
  | LocationSaved nat
  | CachePut nat bytes
  | CacheAsked nat
  | PreloadDone nat bytes
  | RefreshAsked nat int bytes

datatype deferred_call = SignalTimeout int nat | MoreHashes nat

record downloads =
  dw_now :: int
  dw_balance :: "(int, dc_balance) flat_map"
  dw_queues :: "(int, nat task_queue) flat_map"
  dw_kill_when :: "(int, int) flat_map"
  dw_kill_timer :: "int option"
  dw_reset_timer :: "int option"
  dw_tasks :: "(nat, download_task) flat_map"
  dw_next_request :: int
  dw_deferred :: "deferred_call list"
  dw_log :: "download_event list"

type_synonym download_op = "downloads \<Rightarrow> downloads option"

definition initial_downloads :: "int \<Rightarrow> downloads" where
  "initial_downloads now = \<lparr> dw_now = now, dw_balance = [], dw_queues = [], dw_kill_when = [], dw_kill_timer = None,
     dw_reset_timer = None, dw_tasks = [], dw_next_request = 1, dw_deferred = [], dw_log = [] \<rparr>"

definition log_event :: "download_event \<Rightarrow> downloads \<Rightarrow> downloads" where
  "log_event e s = s\<lparr> dw_log := dw_log s @ [e] \<rparr>"

definition set_task :: "nat \<Rightarrow> download_task \<Rightarrow> downloads \<Rightarrow> downloads" where
  "set_task t task s = s\<lparr> dw_tasks := flat_put t task (dw_tasks s) \<rparr>"

definition set_balance :: "int \<Rightarrow> dc_balance \<Rightarrow> downloads \<Rightarrow> downloads" where
  "set_balance dc b s = s\<lparr> dw_balance := flat_put dc b (dw_balance s) \<rparr>"

section \<open>Constants\<close>

definition kill_session_timeout :: int where "kill_session_timeout = 15 * 1000"
definition start_waited_in_session :: int where "start_waited_in_session = 4 * download_part_size"
definition max_waited_in_session :: int where "max_waited_in_session = 16 * download_part_size"
definition start_sessions_count :: nat where "start_sessions_count = 1"
definition max_sessions_count :: nat where "max_sessions_count = 8"
definition max_tracked_session_removes :: int where "max_tracked_session_removes = 64"
definition retry_add_session_timeout :: int where "retry_add_session_timeout = 8 * 1000"
definition retry_add_session_successes :: int where "retry_add_session_successes = 3"
definition max_tracked_successes :: int where
  "max_tracked_successes = retry_add_session_successes * max_tracked_session_removes"
definition remove_session_after_timeouts :: int where "remove_session_after_timeouts = 4"
definition reset_priorities_timeout :: int where "reset_priorities_timeout = 200"
definition bad_request_duration :: int where "bad_request_duration = 8 * 1000"
definition max_media_dc_count :: nat where "max_media_dc_count = 16"

definition new_session_balance :: session_balance where
  "new_session_balance = \<lparr> sb_requested = 0, sb_successes = 0, sb_max_waited = start_waited_in_session \<rparr>"

definition new_dc_balance :: dc_balance where
  "new_dc_balance = \<lparr> db_sessions = replicate start_sessions_count new_session_balance, db_last_remove = 0,
     db_remove_index = 0, db_remove_times = 0, db_timeouts = 0, db_total = 0 \<rparr>"

section \<open>Killing the sessions of an idle datacenter\<close>

definition kill_sessions_schedule :: "int \<Rightarrow> downloads \<Rightarrow> downloads" where
  "kill_sessions_schedule dc s =
     s\<lparr> dw_kill_when := (if flat_get (dw_kill_when s) dc = None
                         then flat_put dc (dw_now s + kill_session_timeout) (dw_kill_when s) else dw_kill_when s),
        dw_kill_timer := (if dw_kill_timer s = None then Some (dw_now s + (kill_session_timeout + 5))
                          else dw_kill_timer s) \<rparr>"

definition kill_sessions_cancel :: "int \<Rightarrow> downloads \<Rightarrow> downloads" where
  "kill_sessions_cancel dc s =
     (let left = flat_del dc (dw_kill_when s)
      in s\<lparr> dw_kill_when := left, dw_kill_timer := (if left = [] then None else dw_kill_timer s) \<rparr>)"

definition kill_dc_sessions :: "int \<Rightarrow> download_op" where
  "kill_dc_sessions dc s =
     (case flat_get (dw_balance s) dc of
        None \<Rightarrow> Some s
      | Some b \<Rightarrow>
          if db_total b \<noteq> 0 \<or> (\<exists>x \<in> set (db_sessions b). sb_requested x \<noteq> 0) then None
          else Some ((set_balance dc
                 (new_dc_balance\<lparr> db_sessions := map (\<lambda>_. new_session_balance) (db_sessions b) \<rparr>) s)
               \<lparr> dw_log := dw_log s @ map (SessionStopped dc) [0..<length (db_sessions b)] \<rparr>))"

text \<open>The loop of \<open>killSessions\<close> over the datacenters: those whose time has come are killed and left out
  of the result; the number is the time until the next.\<close>

fun kill_due :: "int \<Rightarrow> (int \<times> int) list \<Rightarrow> downloads \<Rightarrow> (int \<times> (int \<times> int) list \<times> downloads) option" where
  "kill_due left [] s = Some (left, [], s)"
| "kill_due left ((dc, at) # rest) s =
     (if at \<le> dw_now s
      then (case kill_dc_sessions dc s of None \<Rightarrow> None | Some s1 \<Rightarrow> kill_due left rest s1)
      else map_option (\<lambda>(l, kept, s1). (l, (dc, at) # kept, s1))
             (kill_due (if at - dw_now s < left then at - dw_now s else left) rest s))"

definition kill_sessions :: download_op where
  "kill_sessions s =
     map_option (\<lambda>(left, kept, s1). s1\<lparr> dw_kill_when := kept,
         dw_kill_timer := (if kept \<noteq> [] then Some (dw_now s + left) else dw_kill_timer s1) \<rparr>)
       (kill_due kill_session_timeout (dw_kill_when s) s)"

section \<open>The balance of the sessions\<close>

fun first_min :: "('a \<Rightarrow> int) \<Rightarrow> 'a list \<Rightarrow> nat" where
  "first_min f [] = 0"
| "first_min f (x # xs) = (if xs = [] \<or> f x \<le> f (xs ! first_min f xs) then 0 else Suc (first_min f xs))"

definition session_key :: "session_balance \<Rightarrow> int" where
  "session_key b = (if sb_requested b < sb_max_waited b then sb_requested b else max_waited_in_session)"

definition best_session :: "session_balance list \<Rightarrow> nat option" where
  "best_session ss =
     (let j = first_min session_key ss
      in if sb_requested (ss ! j) + download_part_size \<le> sb_max_waited (ss ! j) then Some j else None)"

definition choose_session_index :: "int \<Rightarrow> downloads \<Rightarrow> nat option" where
  "choose_session_index dc s = map_option (\<lambda>b. first_min sb_requested (db_sessions b)) (flat_get (dw_balance s) dc)"

definition add_requested :: "int \<Rightarrow> session_balance \<Rightarrow> session_balance" where
  "add_requested delta x = x\<lparr> sb_requested := sb_requested x + delta \<rparr>"

definition change_requested_amount :: "int \<Rightarrow> nat \<Rightarrow> int \<Rightarrow> downloads \<Rightarrow> (int \<times> downloads) option" where
  "change_requested_amount dc i delta s =
     (case flat_get (dw_balance s) dc of
        None \<Rightarrow> None
      | Some b \<Rightarrow>
          if \<not> i < length (db_sessions b) then None
          else
            (let ss = (db_sessions b)[i := add_requested delta (db_sessions b ! i)];
                 s1 = set_balance dc (b\<lparr> db_sessions := ss, db_total := db_total b + delta \<rparr>) s
             in Some (sb_requested (ss ! i),
                  if delta > 0 then kill_sessions_cancel dc s1
                  else if \<not> (\<exists>x \<in> set ss. sb_requested x > 0) then kill_sessions_schedule dc s1
                  else s1)))"

definition clear_successes :: "session_balance \<Rightarrow> session_balance" where
  "clear_successes x = x\<lparr> sb_successes := 0 \<rparr>"

text \<open>A session after a request in it succeeded without having been overloaded.\<close>

definition count_success :: "int \<Rightarrow> session_balance \<Rightarrow> session_balance" where
  "count_success amount x =
     x\<lparr> sb_max_waited := (if amount = sb_max_waited x \<and> sb_max_waited x < max_waited_in_session
                          then min (sb_max_waited x + download_part_size) max_waited_in_session
                          else sb_max_waited x),
        sb_successes := min (sb_successes x + 1) max_tracked_successes \<rparr>"

text \<open>What follows a success: nothing until every session has enough of them, then one timeout is
  forgotten or a session is added.\<close>

definition balance_success :: "int \<Rightarrow> int \<Rightarrow> nat \<Rightarrow> dc_balance \<Rightarrow> dc_balance" where
  "balance_success now amount i b =
     (let ss = (db_sessions b)[i := count_success amount (db_sessions b ! i)];
          cleared = map clear_successes ss
      in if \<exists>x \<in> set ss. sb_successes x < (db_remove_times b + 1) * retry_add_session_successes
         then b\<lparr> db_sessions := ss \<rparr>
         else if db_timeouts b > 0 then b\<lparr> db_sessions := cleared, db_timeouts := db_timeouts b - 1 \<rparr>
         else if length ss = max_sessions_count then b\<lparr> db_sessions := cleared \<rparr>
         else if db_last_remove b \<noteq> 0
              \<and> now < db_last_remove b + (db_remove_times b + 1) * retry_add_session_timeout
         then b\<lparr> db_sessions := cleared \<rparr>
         else b\<lparr> db_sessions := cleared @ [new_session_balance] \<rparr>)"

definition request_succeeded :: "int \<Rightarrow> nat \<Rightarrow> int \<Rightarrow> int \<Rightarrow> download_op" where
  "request_succeeded dc i amount started s =
     (case flat_get (dw_balance s) dc of
        None \<Rightarrow> None
      | Some b \<Rightarrow>
          if \<not> i < length (db_sessions b) then None
          else if started \<le> db_last_remove b \<or> amount > sb_max_waited (db_sessions b ! i) then Some s
          else if dw_now s - started \<ge> bad_request_duration
          then Some (s\<lparr> dw_deferred := dw_deferred s @ [SignalTimeout dc i] \<rparr>)
          else Some (set_balance dc (balance_success (dw_now s) amount i b) s))"

section \<open>The requests of a task\<close>

definition have_sent_requests :: "download_task \<Rightarrow> bool" where
  "have_sent_requests task \<longleftrightarrow> dt_sent task \<noteq> [] \<or> dt_unchecked task \<noteq> []"

definition have_sent_for_offset :: "int \<Rightarrow> download_task \<Rightarrow> bool" where
  "have_sent_for_offset offset task \<longleftrightarrow>
     flat_get (dt_by_offset task) offset \<noteq> None \<or> flat_get (dt_unchecked task) offset \<noteq> None"

definition ready_to_request :: "downloads \<Rightarrow> nat \<Rightarrow> bool" where
  "ready_to_request s t =
     (case flat_get (dw_tasks s) t of None \<Rightarrow> False | Some task \<Rightarrow> loader_ready (have_sent_requests task) (dt_loader task))"

text \<open>\<open>MTP::downloadDcId\<close> accepts sixteen sessions.\<close>

definition send_kind :: "nat \<Rightarrow> request_kind \<Rightarrow> int \<Rightarrow> request_data \<Rightarrow> downloads \<Rightarrow> (int \<times> downloads) option" where
  "send_kind t kind dc r s =
     (if \<not> rd_session r < max_media_dc_count then None
      else Some (dw_next_request s,
        log_event (Sent t (dw_next_request s) kind dc (rd_session r) (rd_offset r))
          (s\<lparr> dw_next_request := dw_next_request s + 1 \<rparr>)))"

definition request_kind_of :: "download_task \<Rightarrow> request_kind" where
  "request_kind_of task =
     (if dt_cdn_dc task \<noteq> 0 then GetCdnFile (dt_cdn_token task)
      else (case dt_location task of StorageLocation reference \<Rightarrow> GetFile reference | _ \<Rightarrow> GetWebFile))"

definition send_request :: "nat \<Rightarrow> request_data \<Rightarrow> downloads \<Rightarrow> (int \<times> downloads) option" where
  "send_request t r s =
     (case flat_get (dw_tasks s) t of None \<Rightarrow> None
      | Some task \<Rightarrow> send_kind t (request_kind_of task)
          (if dt_cdn_dc task \<noteq> 0 then dt_cdn_dc task else dt_dc task) r s)"

definition add_sent :: "int \<Rightarrow> request_data \<Rightarrow> download_task \<Rightarrow> download_task" where
  "add_sent rid r task = task\<lparr> dt_sent := flat_put rid r (dt_sent task),
     dt_by_offset := flat_put (rd_offset r) rid (dt_by_offset task) \<rparr>"

definition place_sent_request :: "nat \<Rightarrow> int \<Rightarrow> request_data \<Rightarrow> download_op" where
  "place_sent_request t rid r s =
     do { task \<leftarrow> flat_get (dw_tasks s) t;
          (amount, s1) \<leftarrow> change_requested_amount (dt_dc task) (rd_session r) download_part_size s;
          if flat_get (dt_sent task) rid \<noteq> None \<or> flat_get (dt_by_offset task) (rd_offset r) \<noteq> None then None
          else Some (set_task t (add_sent rid (r\<lparr> rd_amount := amount, rd_sent := dw_now s \<rparr>) task) s1) }"

definition make_request :: "nat \<Rightarrow> request_data \<Rightarrow> download_op" where
  "make_request t r s = do { (rid, s1) \<leftarrow> send_request t r s; place_sent_request t rid r s1 }"

definition new_request :: "int \<Rightarrow> nat \<Rightarrow> request_data" where
  "new_request offset i = \<lparr> rd_offset = offset, rd_session = i, rd_amount = 0, rd_sent = 0 \<rparr>"

datatype finish_reason = FinishSuccess | FinishRedirect | FinishCancel

definition drop_sent :: "int \<Rightarrow> request_data \<Rightarrow> download_task \<Rightarrow> download_task" where
  "drop_sent rid r task = task\<lparr> dt_hashes_request := (if dt_hashes_request task = rid then 0 else dt_hashes_request task),
     dt_sent := flat_del rid (dt_sent task), dt_by_offset := flat_del (rd_offset r) (dt_by_offset task) \<rparr>"

definition finish_sent_request :: "nat \<Rightarrow> int \<Rightarrow> finish_reason \<Rightarrow> downloads \<Rightarrow> (request_data \<times> downloads) option" where
  "finish_sent_request t rid reason s =
     do { task \<leftarrow> flat_get (dw_tasks s) t;
          r \<leftarrow> flat_get (dt_sent task) rid;
          (_, s1) \<leftarrow> change_requested_amount (dt_dc task) (rd_session r) (- download_part_size) s;
          s2 \<leftarrow> Some (set_task t (drop_sent rid r task) s1);
          s3 \<leftarrow> (if reason = FinishSuccess
                 then request_succeeded (dt_dc task) (rd_session r) (rd_amount r) (rd_sent r) s2 else Some s2);
          if flat_get (dt_by_offset task) (rd_offset r) = None then None else Some (r, s3) }"

definition cancel_request :: "nat \<Rightarrow> int \<Rightarrow> download_op" where
  "cancel_request t rid s =
     do { task \<leftarrow> flat_get (dw_tasks s) t;
          (_, s1) \<leftarrow> finish_sent_request t rid FinishCancel (log_event (CancelledRequest rid) s);
          Some (if dt_hashes_request task = rid \<and> dt_unchecked task \<noteq> []
                then s1\<lparr> dw_deferred := dw_deferred s1 @ [MoreHashes t] \<rparr> else s1) }"

section \<open>Sending parts\<close>

definition load_part :: "nat \<Rightarrow> nat \<Rightarrow> download_op" where
  "load_part t i s =
     do { task \<leftarrow> flat_get (dw_tasks s) t;
          (offset, l) \<leftarrow> loader_take (dw_now s) (have_sent_requests task) (dt_loader task);
          make_request t (new_request offset i) (set_task t (task\<lparr> dt_loader := l \<rparr>) s) }"

definition queue_of :: "int \<Rightarrow> downloads \<Rightarrow> nat task_queue" where
  "queue_of dc s = (case flat_get (dw_queues s) dc of None \<Rightarrow> [] | Some q \<Rightarrow> q)"

definition set_queue :: "int \<Rightarrow> nat task_queue \<Rightarrow> downloads \<Rightarrow> downloads" where
  "set_queue dc q s = s\<lparr> dw_queues := flat_put dc q (dw_queues s) \<rparr>"

text \<open>\<open>operator[]\<close> of the map of balances creates the entry.\<close>

definition balance_of :: "int \<Rightarrow> downloads \<Rightarrow> dc_balance" where
  "balance_of dc s = (case flat_get (dw_balance s) dc of None \<Rightarrow> new_dc_balance | Some b \<Rightarrow> b)"

definition touch_balance :: "int \<Rightarrow> downloads \<Rightarrow> downloads" where
  "touch_balance dc s = set_balance dc (balance_of dc s) s"

definition try_send_next_part :: "int \<Rightarrow> downloads \<Rightarrow> (bool \<times> downloads) option" where
  "try_send_next_part dc s =
     (let b = balance_of dc s; s1 = touch_balance dc s
      in if db_sessions b = [] then None
         else (case best_session (db_sessions b) of
             None \<Rightarrow> Some (False, s1)
           | Some i \<Rightarrow>
               (case queue_next_task (ready_to_request s1) (db_total b > 0) (queue_of dc s1) of
                  None \<Rightarrow> Some (False, s1)
                | Some t \<Rightarrow> map_option (Pair True) (load_part t i s1))))"

text \<open>The loop of \<open>checkSendNext\<close>; that it ends is a theorem.\<close>

partial_function (option) check_send_next :: "int \<Rightarrow> download_op" where
  "check_send_next dc s =
     do { (again, s1) \<leftarrow> try_send_next_part dc s;
          if again then check_send_next dc s1 else Some s1 }"

declare check_send_next.simps [code]

fun check_send_all :: "int list \<Rightarrow> download_op" where
  "check_send_all [] s = Some s"
| "check_send_all (dc # dcs) s =
     (if queue_of dc s = [] then check_send_all dcs s
      else do { s1 \<leftarrow> check_send_next dc s; check_send_all dcs s1 })"

definition enqueue_task :: "nat \<Rightarrow> int \<Rightarrow> download_op" where
  "enqueue_task t priority s =
     do { task \<leftarrow> flat_get (dw_tasks s) t;
          let dc = dt_dc task;
              s1 = set_queue dc (queue_enqueue t priority (queue_of dc s)) s;
              s2 = (if dw_reset_timer s1 = None
                    then s1\<lparr> dw_reset_timer := Some (dw_now s1 + reset_priorities_timeout) \<rparr> else s1)
          in check_send_next dc s2 }"

definition remove_task :: "nat \<Rightarrow> download_op" where
  "remove_task t s =
     do { task \<leftarrow> flat_get (dw_tasks s) t;
          let dc = dt_dc task
          in check_send_next dc (set_queue dc (queue_remove t (queue_of dc s)) s) }"

fun reset_queues :: "(int, nat task_queue) flat_map \<Rightarrow> (int, nat task_queue) flat_map option" where
  "reset_queues [] = Some []"
| "reset_queues ((dc, q) # rest) =
     do { q1 \<leftarrow> queue_reset_generation q; rest1 \<leftarrow> reset_queues rest; Some ((dc, q1) # rest1) }"

definition reset_generation :: download_op where
  "reset_generation s =
     map_option (\<lambda>queues. s\<lparr> dw_reset_timer := None, dw_queues := queues \<rparr>) (reset_queues (dw_queues s))"

section \<open>Removing a session\<close>

text \<open>The unchecked parts of a task that came through the session move to another one.\<close>

fun move_unchecked :: "int \<Rightarrow> nat \<Rightarrow> (int, request_data \<times> bytes) flat_map \<Rightarrow> downloads
    \<Rightarrow> (int, request_data \<times> bytes) flat_map option" where
  "move_unchecked dc i [] s = Some []"
| "move_unchecked dc i ((offset, r, part) # rest) s =
     (if rd_session r = i
      then do { j \<leftarrow> choose_session_index dc s;
                if \<not> j < i then None
                else do { rest1 \<leftarrow> move_unchecked dc i rest s; Some ((offset, r\<lparr> rd_session := j \<rparr>, part) # rest1) } }
      else do { rest1 \<leftarrow> move_unchecked dc i rest s; Some ((offset, r, part) # rest1) })"

fun redirect_requests :: "nat \<Rightarrow> nat \<Rightarrow> (int \<times> int) list \<Rightarrow> download_op" where
  "redirect_requests t i [] s = Some s"
| "redirect_requests t i ((rid, offset) # rest) s =
     do { task \<leftarrow> flat_get (dw_tasks s) t;
          s1 \<leftarrow> cancel_request t rid s;
          s2 \<leftarrow> (if rid \<noteq> dt_hashes_request task
                 then do { j \<leftarrow> choose_session_index (dt_dc task) s1;
                           if \<not> j < i then None else make_request t (new_request offset j) s1 }
                 else Some s1);
          redirect_requests t i rest s2 }"

definition sent_in_session :: "nat \<Rightarrow> download_task \<Rightarrow> (int \<times> int) list" where
  "sent_in_session i task =
     map (\<lambda>(rid, r). (rid, rd_offset r)) (filter (\<lambda>(rid, r). rd_session r = i) (dt_sent task))"

definition task_remove_session :: "nat \<Rightarrow> nat \<Rightarrow> download_op" where
  "task_remove_session i t s =
     do { task \<leftarrow> flat_get (dw_tasks s) t;
          unchecked \<leftarrow> move_unchecked (dt_dc task) i (dt_unchecked task) s;
          redirect_requests t i (sent_in_session i task) (set_task t (task\<lparr> dt_unchecked := unchecked \<rparr>) s) }"

fun queue_remove_session :: "nat \<Rightarrow> nat task_queue \<Rightarrow> download_op" where
  "queue_remove_session i [] s = Some s"
| "queue_remove_session i ((t, _) # q) s = do { s1 \<leftarrow> task_remove_session i t s; queue_remove_session i q s1 }"

definition note_session_removed :: "int \<Rightarrow> dc_balance \<Rightarrow> dc_balance" where
  "note_session_removed i b =
     (if db_remove_index b = i
      then b\<lparr> db_remove_times := min (db_remove_times b + 1) max_tracked_session_removes \<rparr>
      else b\<lparr> db_remove_index := i, db_remove_times := 1 \<rparr>)"

definition redirect_reserve :: int where
  "redirect_reserve = max_waited_in_session * int max_sessions_count"

definition reserve_session :: "nat \<Rightarrow> dc_balance \<Rightarrow> dc_balance" where
  "reserve_session i b = b\<lparr> db_sessions := (db_sessions b)[i := add_requested redirect_reserve (db_sessions b ! i)] \<rparr>"

definition remove_session :: "int \<Rightarrow> download_op" where
  "remove_session dc s =
     (let b = balance_of dc s; i = length (db_sessions b) - 1
      in if \<not> length (db_sessions b) > start_sessions_count then None
         else do {
           s1 \<leftarrow> queue_remove_session i (queue_of dc s)
                  (set_queue dc (queue_of dc s) (set_balance dc (reserve_session i (note_session_removed (int i) b)) s));
           let b1 = balance_of dc s1
           in if sb_requested (last (db_sessions b1)) \<noteq> redirect_reserve then None
              else Some (log_event (SessionKilled dc i)
                (set_balance dc (b1\<lparr> db_sessions := butlast (db_sessions b1), db_last_remove := dw_now s1 \<rparr>) s1)) })"

definition session_timed_out :: "int \<Rightarrow> nat \<Rightarrow> download_op" where
  "session_timed_out dc i s =
     (case flat_get (dw_balance s) dc of
        None \<Rightarrow> Some s
      | Some b \<Rightarrow>
          if i \<ge> length (db_sessions b) then Some s
          else
            (let b1 = b\<lparr> db_sessions := map clear_successes (db_sessions b) \<rparr>
             in if length (db_sessions b) = start_sessions_count then Some (set_balance dc b1 s)
                else
                  (let b2 = b1\<lparr> db_timeouts := db_timeouts b + 1 \<rparr>
                   in if db_timeouts b2 < remove_session_after_timeouts then Some (set_balance dc b2 s)
                      else remove_session dc (set_balance dc (b2\<lparr> db_timeouts := 0 \<rparr>) s))))"

end
