(* ===== verification/Download_Tasks.thy ===== *)
theory Download_Tasks
  imports Download_Manager
begin

text \<open>
  The tasks of the download manager: what a task does with a part it has received, with an error and
  with the answers of the network (\<open>storage/download_manager_mtproto.cpp\<close>, with the handling of content
  servers), and the calls of the three loaders that reach the manager
  (\<open>media/streaming/media_streaming_loader_mtproto.cpp\<close>, \<open>storage/file_download.cpp\<close>,
  \<open>storage/file_download_mtproto.cpp\<close>, \<open>data/data_media_preload.cpp\<close>).  The last section makes them a
  machine whose steps are the calls of the outside.  The owners of the loaders hear what happens through
  the log, after the call that caused it.
\<close>

record download_env =
  de_disk :: disk
  de_sha256 :: "bytes \<Rightarrow> bytes"
  de_aes_ctr :: "bytes \<Rightarrow> bytes \<Rightarrow> bytes \<Rightarrow> bytes"

definition set_loader :: "nat \<Rightarrow> loader \<Rightarrow> downloads \<Rightarrow> downloads" where
  "set_loader t l s =
     (case flat_get (dw_tasks s) t of None \<Rightarrow> s | Some task \<Rightarrow> set_task t (task\<lparr> dt_loader := l \<rparr>) s)"

definition clear_unchecked :: "nat \<Rightarrow> downloads \<Rightarrow> downloads" where
  "clear_unchecked t s =
     (case flat_get (dw_tasks s) t of None \<Rightarrow> s | Some task \<Rightarrow> set_task t (task\<lparr> dt_unchecked := [] \<rparr>) s)"

section \<open>Cancelling\<close>

text \<open>Cancelling removes the request from the map and adds none, so the loop over the map while it is
  not empty takes its keys one after the other.\<close>

fun cancel_requests :: "nat \<Rightarrow> int list \<Rightarrow> download_op" where
  "cancel_requests t [] s = Some s"
| "cancel_requests t (rid # rids) s = do { s1 \<leftarrow> cancel_request t rid s; cancel_requests t rids s1 }"

definition cancel_all_requests :: "nat \<Rightarrow> download_op" where
  "cancel_all_requests t s =
     do { task \<leftarrow> flat_get (dw_tasks s) t;
          s1 \<leftarrow> cancel_requests t (map fst (dt_sent task)) s;
          Some (clear_unchecked t s1) }"

definition cancel_request_for_offset :: "nat \<Rightarrow> int \<Rightarrow> download_op" where
  "cancel_request_for_offset t offset s =
     do { task \<leftarrow> flat_get (dw_tasks s) t;
          s1 \<leftarrow> (case flat_get (dt_by_offset task) offset of None \<Rightarrow> Some s | Some rid \<Rightarrow> cancel_request t rid s);
          task1 \<leftarrow> flat_get (dw_tasks s1) t;
          Some (set_task t (task1\<lparr> dt_unchecked := flat_del offset (dt_unchecked task1) \<rparr>) s1) }"

definition file_cancelled :: "file_loader \<Rightarrow> file_loader" where
  "file_cancelled l = l\<lparr> fl_cancelled := True, fl_finished := True, fl_file := None, fl_data := [], fl_named := False \<rparr>"

definition file_cancel :: "nat \<Rightarrow> failure \<Rightarrow> file_loader \<Rightarrow> download_op" where
  "file_cancel t fail l s =
     do { s1 \<leftarrow> cancel_all_requests t s;
          Some (log_event (FileFailed t fail (current_offset l > 0)) (set_loader t (FileLoad (file_cancelled l)) s1)) }"

definition preload_fail :: "nat \<Rightarrow> video_preload \<Rightarrow> download_op" where
  "preload_fail t p s =
     do { s1 \<leftarrow> cancel_all_requests t (set_loader t (Preload (p\<lparr> vp_failed := True \<rparr>)) s);
          Some (log_event (PreloadDone t []) s1) }"

definition cancel_on_fail :: "nat \<Rightarrow> download_op" where
  "cancel_on_fail t s =
     do { task \<leftarrow> flat_get (dw_tasks s) t;
          case dt_loader task of
            Streaming _ \<Rightarrow> Some (log_event (PartFailed t) s)
          | FileLoad l \<Rightarrow> file_cancel t OtherFailure l s
          | Preload p \<Rightarrow> preload_fail t p s }"

section \<open>Parts\<close>

definition file_saved_events :: "nat \<Rightarrow> file_loader \<Rightarrow> download_event list" where
  "file_saved_events t l = (case fl_file l of None \<Rightarrow> [] | Some f \<Rightarrow> [FileSaved t f])"

definition file_cache_events :: "nat \<Rightarrow> file_loader \<Rightarrow> download_event list" where
  "file_cache_events t l =
     (if fl_status l = LocalNotFound
      then (if fl_located l \<and> fl_named l then [LocationSaved t] else [])
        @ (if fl_to_cache l = LoadToCacheAsWell \<and> int (length (fl_data l)) \<le> max_file_in_memory \<and> fl_keyed l
           then [CachePut t (if fl_full_size l = 0 \<or> int (length (fl_data l)) = fl_full_size l
                             then fl_data l else partial_prefix @ fl_data l)] else [])
      else [])"

text \<open>Copying the data to the named file: the file when this fails, else the one with the data.\<close>

definition copy_to_file :: "disk \<Rightarrow> file_loader \<Rightarrow> bool \<times> file_loader" where
  "copy_to_file dk l =
     (if fl_named l \<and> fl_to_cache l = LoadToCacheAsWell
      then (let opened = (case fl_file l of None \<Rightarrow> if dk_open dk then Some [] else None | Some f \<Rightarrow> Some f)
            in case opened of
                 None \<Rightarrow> (False, l)
               | Some f \<Rightarrow> if dk_write dk then (True, l\<lparr> fl_file := Some (write_at 0 (fl_data l) f) \<rparr>)
                           else (False, l\<lparr> fl_file := Some f \<rparr>))
      else (True, l))"

definition file_finish :: "nat \<Rightarrow> file_loader \<Rightarrow> downloads \<Rightarrow> downloads" where
  "file_finish t l s =
     (set_loader t (FileLoad (l\<lparr> fl_finished := True, fl_file := None \<rparr>)) s)
       \<lparr> dw_log := dw_log s @ file_saved_events t l @ file_cache_events t l @ [FileLoaded t (fl_data l)] \<rparr>"

definition finalize_result :: "download_env \<Rightarrow> nat \<Rightarrow> file_loader \<Rightarrow> downloads \<Rightarrow> (bool \<times> downloads) option" where
  "finalize_result env t l s =
     (if fl_finished l then None
      else (case copy_to_file (de_disk env) l of
          (False, l1) \<Rightarrow> map_option (Pair False) (file_cancel t FileWriteFailure l1 s)
        | (True, l1) \<Rightarrow> Some (True, file_finish t l1 s)))"

definition file_feed_part :: "download_env \<Rightarrow> nat \<Rightarrow> int \<Rightarrow> bytes \<Rightarrow> file_loader \<Rightarrow> downloads \<Rightarrow> (bool \<times> downloads) option" where
  "file_feed_part env t offset buffer l s =
     do { (ok, l1) \<leftarrow> write_result_part (de_disk env) offset buffer l;
          if \<not> ok then map_option (Pair False) (file_cancel t FileWriteFailure l1 s)
          else do {
            task \<leftarrow> flat_get (dw_tasks s) t;
            let l2 = mark_last_part buffer l1;
                s1 = set_loader t (FileLoad l2) s
            in if file_all_loaded (have_sent_requests task) l2
               then do { s2 \<leftarrow> remove_task t s1; finalize_result env t l2 s2 }
               else Some (True, log_event (LoadProgress t) s1) } }"

definition preload_feed_part :: "nat \<Rightarrow> int \<Rightarrow> bytes \<Rightarrow> video_preload \<Rightarrow> downloads \<Rightarrow> (bool \<times> downloads) option" where
  "preload_feed_part t offset part p s =
     do { (finished, p1) \<leftarrow> preload_feed offset part p;
          let s1 = set_loader t (Preload p1) s
          in if finished
             then do { s2 \<leftarrow> remove_task t s1; Some (True, log_event (PreloadDone t (preload_result p1)) s2) }
             else Some (True, s1) }"

definition feed_part :: "download_env \<Rightarrow> nat \<Rightarrow> int \<Rightarrow> bytes \<Rightarrow> downloads \<Rightarrow> (bool \<times> downloads) option" where
  "feed_part env t offset part s =
     do { task \<leftarrow> flat_get (dw_tasks s) t;
          case dt_loader task of
            Streaming l \<Rightarrow> Some (True, log_event (PartReady t offset part)
                              (set_loader t (Streaming (streaming_feed (dw_now s) offset l)) s))
          | FileLoad l \<Rightarrow> file_feed_part env t offset part l s
          | Preload p \<Rightarrow> preload_feed_part t offset part p s }"

definition part_loaded :: "download_env \<Rightarrow> nat \<Rightarrow> int \<Rightarrow> bytes \<Rightarrow> download_op" where
  "part_loaded env t offset part s = map_option snd (feed_part env t offset part s)"

section \<open>Content servers\<close>

definition ctr_key_size :: nat where "ctr_key_size = 32"
definition ctr_ivec_size :: nat where "ctr_ivec_size = 16"

datatype hash_check = NoHash | InvalidHash | GoodHash

definition check_cdn_hash :: "download_env \<Rightarrow> int \<Rightarrow> bytes \<Rightarrow> download_task \<Rightarrow> hash_check" where
  "check_cdn_hash env offset buffer task =
     (case flat_get (dt_cdn_hashes task) offset of
        None \<Rightarrow> NoHash
      | Some (_, hash) \<Rightarrow> if de_sha256 env buffer \<noteq> hash then InvalidHash else GoodHash)"

text \<open>The counter in the last four bytes of the vector.\<close>

definition counter_ivec :: "int \<Rightarrow> bytes \<Rightarrow> bytes" where
  "counter_ivec offset iv = take 12 iv @ be32_bytes (word_of_int (offset div 16))"

definition request_more_hashes :: "nat \<Rightarrow> download_op" where
  "request_more_hashes t s =
     (case flat_get (dw_tasks s) t of
        None \<Rightarrow> Some s
      | Some task \<Rightarrow>
          if dt_hashes_request task \<noteq> 0 then Some s
          else (case dt_unchecked task of
              [] \<Rightarrow> Some s
            | (_, r, _) # _ \<Rightarrow>
                do { (rid, s1) \<leftarrow> send_kind t (GetCdnHashes (dt_cdn_token task)) (dt_dc task) r s;
                     place_sent_request t rid r (set_task t (task\<lparr> dt_hashes_request := rid \<rparr>) s1) }))"

definition add_cdn_hashes :: "(int \<times> int \<times> bytes) list \<Rightarrow> download_task \<Rightarrow> download_task" where
  "add_cdn_hashes hashes task =
     task\<lparr> dt_cdn_hashes := fold (\<lambda>(offset, limit, hash). flat_emplace offset (limit, hash)) hashes (dt_cdn_hashes task) \<rparr>"

definition update_task :: "nat \<Rightarrow> (download_task \<Rightarrow> download_task) \<Rightarrow> downloads \<Rightarrow> downloads" where
  "update_task t f s = (case flat_get (dw_tasks s) t of None \<Rightarrow> s | Some task \<Rightarrow> set_task t (f task) s)"

fun finish_all :: "nat \<Rightarrow> int list \<Rightarrow> downloads \<Rightarrow> (request_data list \<times> downloads) option" where
  "finish_all t [] s = Some ([], s)"
| "finish_all t (rid # rids) s =
     do { (r, s1) \<leftarrow> finish_sent_request t rid FinishRedirect (log_event (CancelledRequest rid) s);
          (rs, s2) \<leftarrow> finish_all t rids s1;
          Some (r # rs, s2) }"

fun make_requests :: "nat \<Rightarrow> request_data list \<Rightarrow> download_op" where
  "make_requests t [] s = Some s"
| "make_requests t (r # rs) s = do { s1 \<leftarrow> make_request t r s; make_requests t rs s1 }"

record cdn_params =
  cp_dc :: int
  cp_token :: bytes
  cp_key :: bytes
  cp_iv :: bytes

definition same_cdn :: "cdn_params \<Rightarrow> download_task \<Rightarrow> bool" where
  "same_cdn c task \<longleftrightarrow> dt_cdn_dc task = cp_dc c \<and> dt_cdn_token task = cp_token c
     \<and> dt_cdn_key task = cp_key c \<and> dt_cdn_iv task = cp_iv c"

definition set_cdn :: "cdn_params \<Rightarrow> download_task \<Rightarrow> download_task" where
  "set_cdn c task = task\<lparr> dt_cdn_dc := cp_dc c, dt_cdn_token := cp_token c, dt_cdn_key := cp_key c, dt_cdn_iv := cp_iv c \<rparr>"

definition change_cdn_params :: "nat \<Rightarrow> request_data \<Rightarrow> cdn_params \<Rightarrow> (int \<times> int \<times> bytes) list \<Rightarrow> download_op" where
  "change_cdn_params t r c hashes s =
     (if cp_dc c \<noteq> 0 \<and> (length (cp_key c) \<noteq> ctr_key_size \<or> length (cp_iv c) \<noteq> ctr_ivec_size)
      then cancel_on_fail t s
      else do {
        task \<leftarrow> flat_get (dw_tasks s) t;
        let s1 = set_task t (add_cdn_hashes hashes (set_cdn c task)) s
        in if \<not> same_cdn c task \<and> dt_sent task \<noteq> []
           then do { (rs, s2) \<leftarrow> finish_all t (map fst (dt_sent task)) s1;
                     s3 \<leftarrow> make_requests t rs s2;
                     make_request t r s3 }
           else make_request t r s1 })"

section \<open>Answers\<close>

datatype file_answer = FileBytes bytes | CdnRedirect cdn_params "(int \<times> int \<times> bytes) list"

datatype cdn_answer = CdnBytes bytes | ReuploadNeeded bytes

definition check_send_next_after_success :: "int \<Rightarrow> download_op" where
  "check_send_next_after_success dc s = check_send_next dc (set_queue dc (queue_of dc s) s)"

definition normal_part_loaded :: "download_env \<Rightarrow> nat \<Rightarrow> int \<Rightarrow> file_answer \<Rightarrow> download_op" where
  "normal_part_loaded env t rid answer s =
     do { task \<leftarrow> flat_get (dw_tasks s) t;
          (r, s1) \<leftarrow> finish_sent_request t rid FinishSuccess s;
          s2 \<leftarrow> (case answer of
                   CdnRedirect c hashes \<Rightarrow> change_cdn_params t r c hashes s1
                 | FileBytes part \<Rightarrow> part_loaded env t (rd_offset r) part s1);
          check_send_next_after_success (dt_dc task) s2 }"

definition set_web_file_size :: "nat \<Rightarrow> int \<Rightarrow> downloads \<Rightarrow> (bool \<times> downloads) option" where
  "set_web_file_size t web_size s =
     do { task \<leftarrow> flat_get (dw_tasks s) t;
          case dt_loader task of
            Streaming _ \<Rightarrow> Some (True, s)
          | FileLoad l \<Rightarrow>
              if fl_full_size l = 0 \<or> fl_full_size l = web_size
              then Some (True, set_loader t (FileLoad (l\<lparr> fl_full_size := web_size, fl_load_size := web_size \<rparr>)) s)
              else map_option (Pair False) (file_cancel t OtherFailure l s)
          | Preload p \<Rightarrow> map_option (Pair False) (preload_fail t p s) }"

definition web_part_loaded :: "download_env \<Rightarrow> nat \<Rightarrow> int \<Rightarrow> int \<Rightarrow> bytes \<Rightarrow> download_op" where
  "web_part_loaded env t rid web_size part s =
     do { task \<leftarrow> flat_get (dw_tasks s) t;
          (r, s1) \<leftarrow> finish_sent_request t rid FinishSuccess s;
          (ok, s2) \<leftarrow> set_web_file_size t web_size s1;
          s3 \<leftarrow> (if ok then part_loaded env t (rd_offset r) part s2 else Some s2);
          check_send_next_after_success (dt_dc task) s3 }"

definition cdn_part_loaded :: "download_env \<Rightarrow> nat \<Rightarrow> int \<Rightarrow> cdn_answer \<Rightarrow> download_op" where
  "cdn_part_loaded env t rid answer s =
     (case answer of
        ReuploadNeeded request_token \<Rightarrow>
          do { (r, s1) \<leftarrow> finish_sent_request t rid FinishRedirect s;
               task \<leftarrow> flat_get (dw_tasks s1) t;
               (rid1, s2) \<leftarrow> send_kind t (ReuploadCdn (dt_cdn_token task) request_token) (dt_dc task) r s1;
               place_sent_request t rid1 r s2 }
      | CdnBytes part \<Rightarrow>
          do { (r, s1) \<leftarrow> finish_sent_request t rid FinishSuccess s;
               task \<leftarrow> flat_get (dw_tasks s1) t;
               if length (dt_cdn_key task) \<noteq> ctr_key_size \<or> length (dt_cdn_iv task) \<noteq> ctr_ivec_size then None
               else do {
                 let plain = de_aes_ctr env (dt_cdn_key task) (counter_ivec (rd_offset r) (dt_cdn_iv task)) part
                 in do {
                   s2 \<leftarrow> (case check_cdn_hash env (rd_offset r) plain task of
                       NoHash \<Rightarrow> request_more_hashes t
                         (set_task t (task\<lparr> dt_unchecked := flat_emplace (rd_offset r) (r, plain) (dt_unchecked task) \<rparr>) s1)
                     | InvalidHash \<Rightarrow> cancel_on_fail t s1
                     | GoodHash \<Rightarrow> part_loaded env t (rd_offset r) plain s1);
                   check_send_next_after_success (dt_dc task) s2 } } })"

definition reupload_done :: "nat \<Rightarrow> int \<Rightarrow> (int \<times> int \<times> bytes) list \<Rightarrow> download_op" where
  "reupload_done t rid hashes s =
     do { (r, s1) \<leftarrow> finish_sent_request t rid FinishRedirect s;
          make_request t r (update_task t (add_cdn_hashes hashes) s1) }"

text \<open>The loop of \<open>getCdnFileHashesDone\<close> over the unchecked parts: None as the flag when the handler
  returned inside it, else whether some part was checked.\<close>

fun check_unchecked :: "download_env \<Rightarrow> nat \<Rightarrow> (int, request_data \<times> bytes) flat_map \<Rightarrow> bool \<Rightarrow> downloads
    \<Rightarrow> (bool option \<times> downloads) option" where
  "check_unchecked env t [] checked s = Some (Some checked, s)"
| "check_unchecked env t ((offset, r, part) # rest) checked s =
     do { task \<leftarrow> flat_get (dw_tasks s) t;
          case check_cdn_hash env offset part task of
            NoHash \<Rightarrow> check_unchecked env t rest checked s
          | InvalidHash \<Rightarrow> map_option (Pair None) (cancel_on_fail t s)
          | GoodHash \<Rightarrow>
              do { (ok, s1) \<leftarrow> feed_part env t offset part
                     (set_task t (task\<lparr> dt_unchecked := flat_del offset (dt_unchecked task) \<rparr>) s);
                   if ok then check_unchecked env t rest True s1 else Some (None, s1) } }"

definition get_cdn_hashes_done :: "download_env \<Rightarrow> nat \<Rightarrow> int \<Rightarrow> (int \<times> int \<times> bytes) list \<Rightarrow> download_op" where
  "get_cdn_hashes_done env t rid hashes s =
     do { task \<leftarrow> flat_get (dw_tasks s) t;
          if dt_hashes_request task \<noteq> rid then None
          else do {
            (r, s1) \<leftarrow> finish_sent_request t rid FinishRedirect s;
            let s2 = update_task t (add_cdn_hashes hashes) s1
            in do {
              task2 \<leftarrow> flat_get (dw_tasks s2) t;
              (checked, s3) \<leftarrow> check_unchecked env t (dt_unchecked task2) False s2;
              case checked of
                None \<Rightarrow> Some s3
              | Some False \<Rightarrow> cancel_on_fail t s3
              | Some True \<Rightarrow> request_more_hashes t s3 } } }"

section \<open>Errors\<close>

record rpc_error =
  er_code :: int
  er_type :: string

definition starts_with :: "string \<Rightarrow> string \<Rightarrow> bool" where
  "starts_with prefix str \<longleftrightarrow> take (length prefix) str = prefix"

definition is_flood_error :: "rpc_error \<Rightarrow> bool" where
  "is_flood_error e \<longleftrightarrow> starts_with ''FLOOD_WAIT_'' (er_type e) \<or> starts_with ''FLOOD_PREMIUM_WAIT_'' (er_type e)"

definition is_temporary_error :: "rpc_error \<Rightarrow> bool" where
  "is_temporary_error e \<longleftrightarrow> er_code e < 0 \<or> er_code e \<ge> 500 \<or> is_flood_error e"

definition part_failed :: "nat \<Rightarrow> rpc_error \<Rightarrow> download_op" where
  "part_failed t e s = (if is_temporary_error e then Some s else cancel_on_fail t s)"

definition normal_part_failed :: "nat \<Rightarrow> bytes \<Rightarrow> rpc_error \<Rightarrow> int \<Rightarrow> download_op" where
  "normal_part_failed t reference e rid s =
     (if is_temporary_error e then Some s
      else if er_code e = 400 \<and> starts_with ''FILE_REFERENCE_'' (er_type e)
      then Some (log_event (RefreshAsked t rid reference) s)
      else part_failed t e s)"

definition cdn_part_failed :: "nat \<Rightarrow> rpc_error \<Rightarrow> int \<Rightarrow> download_op" where
  "cdn_part_failed t e rid s =
     (if is_temporary_error e then Some s
      else if er_type e = ''FILE_TOKEN_INVALID'' \<or> er_type e = ''REQUEST_TOKEN_INVALID''
      then do { (r, s1) \<leftarrow> finish_sent_request t rid FinishRedirect s;
                change_cdn_params t r \<lparr> cp_dc = 0, cp_token = [], cp_key = [], cp_iv = [] \<rparr> [] s1 }
      else part_failed t e s)"

definition refresh_file_reference :: "nat \<Rightarrow> bytes \<Rightarrow> int \<Rightarrow> bytes \<Rightarrow> download_op" where
  "refresh_file_reference t updated rid current s =
     do { task \<leftarrow> flat_get (dw_tasks s) t;
          case dt_location task of
            StorageLocation _ \<Rightarrow>
              let s1 = set_task t (task\<lparr> dt_location := StorageLocation updated \<rparr>) s
              in if updated = current then cancel_on_fail t s1
                 else if flat_get (dt_sent task) rid \<noteq> None
                 then do { (r, s2) \<leftarrow> finish_sent_request t rid FinishRedirect s1; make_request t r s2 }
                 else Some s1
          | _ \<Rightarrow> cancel_on_fail t s }"

end
