(* ===== verification/Download_Machine.thy ===== *)
theory Download_Machine
  imports Download_Tasks
begin

text \<open>
  The calls of the loaders (\<open>media/streaming/media_streaming_loader_mtproto.cpp\<close>,
  \<open>storage/file_download.cpp\<close>, \<open>storage/file_download_mtproto.cpp\<close>, \<open>data/data_media_preload.cpp\<close>), and
  the downloads as a machine: its inputs are the calls of the loaders' owners, the answers and errors
  of the network, the timers and the calls deferred to the main loop.
\<close>

section \<open>The streaming loader\<close>

definition streaming_of :: "nat \<Rightarrow> downloads \<Rightarrow> streaming_loader option" where
  "streaming_of t s =
     (case flat_get (dw_tasks s) t of
        None \<Rightarrow> None
      | Some task \<Rightarrow> (case dt_loader task of Streaming l \<Rightarrow> Some l | _ \<Rightarrow> None))"

definition streaming_cancel_offset :: "nat \<Rightarrow> int \<Rightarrow> download_op" where
  "streaming_cancel_offset t offset s =
     do { task \<leftarrow> flat_get (dw_tasks s) t;
          l \<leftarrow> streaming_of t s;
          if have_sent_for_offset offset task
          then do { s1 \<leftarrow> cancel_request_for_offset t offset s;
                    if \<not> offset_queue_empty (sl_requested l) then enqueue_task t (sl_priority l) s1 else Some s1 }
          else Some (set_loader t (Streaming (l\<lparr> sl_requested := snd (offset_queue_remove offset (sl_requested l)) \<rparr>)) s) }"

text \<open>\<open>load\<close>; the bytes are those the attached downloader already has, empty without it.\<close>

definition streaming_load :: "nat \<Rightarrow> int \<Rightarrow> bytes \<Rightarrow> download_op" where
  "streaming_load t offset loaded s =
     do { task \<leftarrow> flat_get (dw_tasks s) t;
          l \<leftarrow> streaming_of t s;
          if loaded \<noteq> []
          then do { s1 \<leftarrow> streaming_cancel_offset t offset s; Some (log_event (PartReady t offset loaded) s1) }
          else if have_sent_for_offset offset task then Some s
          else (case offset_queue_add offset (sl_requested l) of
              (True, q) \<Rightarrow> enqueue_task t (sl_priority l) (set_loader t (Streaming (l\<lparr> sl_requested := q \<rparr>)) s)
            | (False, q) \<Rightarrow> Some (set_loader t (Streaming (l\<lparr> sl_requested := q \<rparr>)) s)) }"

definition streaming_stop :: "nat \<Rightarrow> download_op" where
  "streaming_stop t s =
     do { l \<leftarrow> streaming_of t s;
          s1 \<leftarrow> cancel_all_requests t s;
          remove_task t (set_loader t (Streaming (l\<lparr> sl_requested := offset_queue_clear (sl_requested l) \<rparr>)) s1) }"

definition streaming_try_remove :: "nat \<Rightarrow> download_op" where
  "streaming_try_remove t s =
     do { task \<leftarrow> flat_get (dw_tasks s) t;
          l \<leftarrow> streaming_of t s;
          if offset_queue_empty (sl_requested l) \<and> \<not> have_sent_requests task then remove_task t s else Some s }"

definition streaming_set_priority :: "nat \<Rightarrow> int \<Rightarrow> download_op" where
  "streaming_set_priority t priority s =
     do { task \<leftarrow> flat_get (dw_tasks s) t;
          l \<leftarrow> streaming_of t s;
          if sl_priority l = priority then Some s
          else (let s1 = set_loader t (Streaming (l\<lparr> sl_priority := priority \<rparr>)) s
                in if have_sent_requests task then enqueue_task t priority s1 else Some s1) }"

definition streaming_reset_priorities :: "nat \<Rightarrow> download_op" where
  "streaming_reset_priorities t s =
     do { l \<leftarrow> streaming_of t s;
          Some (set_loader t (Streaming (l\<lparr> sl_requested := offset_queue_reset_priorities (sl_requested l) \<rparr>)) s) }"

definition streaming_stats_timer :: "nat \<Rightarrow> download_op" where
  "streaming_stats_timer t s =
     do { l \<leftarrow> streaming_of t s;
          let (estimate, l1) = streaming_check_stats (dw_now s) l;
              s1 = set_loader t (Streaming l1) s
          in Some (case estimate of None \<Rightarrow> s1 | Some e \<Rightarrow> log_event (SpeedEstimated t e) s1) }"

section \<open>The file loader\<close>

definition file_of :: "nat \<Rightarrow> downloads \<Rightarrow> file_loader option" where
  "file_of t s =
     (case flat_get (dw_tasks s) t of
        None \<Rightarrow> None
      | Some task \<Rightarrow> (case dt_loader task of FileLoad l \<Rightarrow> Some l | _ \<Rightarrow> None))"

definition try_load_local :: "nat \<Rightarrow> file_loader \<Rightarrow> bool \<times> file_loader \<times> download_event list" where
  "try_load_local t l =
     (case fl_status l of
        LocalNotFound \<Rightarrow> (False, l, [])
      | LocalLoaded \<Rightarrow> (False, l, [])
      | LocalLoading \<Rightarrow> (True, l, [])
      | LocalNotTried \<Rightarrow>
          (let (l1, es) = (if fl_to_cache l = LoadToCacheAsWell \<and> fl_keyed l
                           then (l\<lparr> fl_local_loading := True \<rparr>, [CacheAsked t, LoadProgress t]) else (l, []))
           in if fl_local_loading l1 then (True, l1\<lparr> fl_status := LocalLoading \<rparr>, es)
              else (False, l1\<lparr> fl_status := LocalNotFound \<rparr>, es)))"

text \<open>\<open>checkForOpen\<close>: nothing to open, the file opened, or a failure.\<close>

definition check_for_open :: "disk \<Rightarrow> file_loader \<Rightarrow> file_loader option" where
  "check_for_open dk l =
     (if \<not> fl_named l \<or> fl_to_cache l \<noteq> LoadToFileOnly \<or> fl_file l \<noteq> None then Some l
      else if dk_open dk then Some (l\<lparr> fl_file := Some [] \<rparr>) else None)"

definition file_open_and :: "download_env \<Rightarrow> nat \<Rightarrow> file_loader \<Rightarrow> download_op \<Rightarrow> download_op" where
  "file_open_and env t l f s =
     (case check_for_open (de_disk env) l of
        None \<Rightarrow> file_cancel t FileWriteFailure l s
      | Some l1 \<Rightarrow> f (set_loader t (FileLoad l1) s))"

definition file_start :: "download_env \<Rightarrow> nat \<Rightarrow> download_op" where
  "file_start env t s =
     do { l \<leftarrow> file_of t s;
          if fl_finished l then Some s
          else (let (local, l1, es) = try_load_local t l;
                    s1 = (set_loader t (FileLoad l1) s)\<lparr> dw_log := dw_log s @ es \<rparr>
                in if local then Some s1
                   else if fl_from_cloud l1 = LoadFromLocalOnly then file_cancel t NoFailure l1 s1
                   else file_open_and env t l1 (enqueue_task t 0) s1) }"

definition start_with_partial :: "download_env \<Rightarrow> nat \<Rightarrow> bytes \<Rightarrow> download_op" where
  "start_with_partial env t stored s =
     (let parts = (int (length stored) - 8) div download_part_size; used = parts * download_part_size
      in if take 8 stored \<noteq> partial_prefix then None
         else do {
           s1 \<leftarrow> (if used > 0
                  then do { l \<leftarrow> file_of t s;
                            (_, s2) \<leftarrow> feed_part env t 0 (take (nat used) (drop 8 stored))
                              (set_loader t (FileLoad (l\<lparr> fl_next_offset := used \<rparr>)) s);
                            Some s2 }
                  else Some s);
           enqueue_task t 0 s1 })"

definition finish_with_bytes :: "download_env \<Rightarrow> nat \<Rightarrow> bytes \<Rightarrow> file_loader \<Rightarrow> download_op" where
  "finish_with_bytes env t stored l s =
     (case copy_to_file (de_disk env) (l\<lparr> fl_data := stored, fl_status := LocalLoaded \<rparr>) of
        (False, l1) \<Rightarrow> file_cancel t FileWriteFailure l1 s
      | (True, l1) \<Rightarrow>
          Some ((set_loader t (FileLoad (l1\<lparr> fl_finished := True, fl_file := None \<rparr>)) s)
            \<lparr> dw_log := dw_log s @ file_saved_events t l1 @ [FileLoaded t (fl_data l1)] \<rparr>))"

definition local_loaded :: "download_env \<Rightarrow> nat \<Rightarrow> bytes \<Rightarrow> download_op" where
  "local_loaded env t stored s =
     do { l0 \<leftarrow> file_of t s;
          let l = l0\<lparr> fl_local_loading := False \<rparr>;
              not_found = l\<lparr> fl_status := LocalNotFound \<rparr>;
              partial = (take 8 stored = partial_prefix)
          in if stored = [] then file_start env t (set_loader t (FileLoad not_found) s)
             else if partial \<and> int (length stored) < fl_load_size l + 8
             then file_open_and env t not_found (start_with_partial env t stored) (set_loader t (FileLoad not_found) s)
             else finish_with_bytes env t (if partial then drop 8 stored else stored) l
                    (set_loader t (FileLoad l) s) }"

definition file_cancel_call :: "nat \<Rightarrow> download_op" where
  "file_cancel_call t s = do { l \<leftarrow> file_of t s; file_cancel t NoFailure l s }"

section \<open>The preloader and the end of a task\<close>

definition preload_start :: "nat \<Rightarrow> int \<Rightarrow> int \<Rightarrow> download_op" where
  "preload_start t prefix video_size s =
     do { task \<leftarrow> flat_get (dw_tasks s) t;
          case dt_loader task of
            Preload p \<Rightarrow> do { p1 \<leftarrow> preload_load prefix video_size p; enqueue_task t 0 (set_loader t (Preload p1) s) }
          | _ \<Rightarrow> None }"

definition destroy_loader :: "nat \<Rightarrow> download_op" where
  "destroy_loader t s =
     do { task \<leftarrow> flat_get (dw_tasks s) t;
          case dt_loader task of
            Streaming _ \<Rightarrow> Some s
          | FileLoad l \<Rightarrow> if \<not> fl_finished l then file_cancel t NoFailure l s else Some s
          | Preload p \<Rightarrow> if \<not> vp_finished p \<and> \<not> vp_failed p then cancel_all_requests t s else Some s }"

definition destroy_task :: "nat \<Rightarrow> download_op" where
  "destroy_task t s =
     do { s1 \<leftarrow> destroy_loader t s;
          s2 \<leftarrow> cancel_all_requests t s1;
          s3 \<leftarrow> remove_task t s2;
          Some (s3\<lparr> dw_tasks := flat_del t (dw_tasks s3) \<rparr>) }"

section \<open>The machine\<close>

definition new_task :: "int \<Rightarrow> file_location \<Rightarrow> loader \<Rightarrow> download_task" where
  "new_task dc location l = \<lparr> dt_dc = dc, dt_location = location, dt_sent = [], dt_by_offset = [], dt_cdn_dc = 0,
     dt_cdn_token = [], dt_cdn_key = [], dt_cdn_iv = [], dt_cdn_hashes = [], dt_unchecked = [],
     dt_hashes_request = 0, dt_loader = l \<rparr>"

definition new_streaming :: streaming_loader where
  "new_streaming = \<lparr> sl_priority = 0, sl_requested = \<lparr> oq_data = [], oq_priority = 0 \<rparr>, sl_stats = [],
     sl_first_request = 0, sl_stats_timer = None \<rparr>"

definition new_file :: "bool \<Rightarrow> bool \<Rightarrow> bool \<Rightarrow> load_to_cache \<Rightarrow> load_from_cloud \<Rightarrow> int \<Rightarrow> int \<Rightarrow> file_loader" where
  "new_file named keyed located to_cache from_cloud load full =
     \<lparr> fl_named = named, fl_keyed = keyed, fl_located = located, fl_to_cache = to_cache, fl_from_cloud = from_cloud,
       fl_status = LocalNotTried, fl_local_loading = False, fl_finished = False, fl_cancelled = False, fl_file = None,
       fl_data = [], fl_load_size = load, fl_full_size = full, fl_skipped = 0, fl_last_complete = False,
       fl_next_offset = 0 \<rparr>"

definition new_preload :: "int \<Rightarrow> video_preload" where
  "new_preload full = \<lparr> vp_parts = [], vp_requested = [], vp_full = full, vp_next = 0, vp_finished = False, vp_failed = False \<rparr>"

text \<open>A loader as its constructor leaves it.\<close>

fun fresh_loader :: "loader \<Rightarrow> bool" where
  "fresh_loader (Streaming l) = (l = new_streaming)"
| "fresh_loader (FileLoad l) =
     (l = new_file (fl_named l) (fl_keyed l) (fl_located l) (fl_to_cache l) (fl_from_cloud l) (fl_load_size l) (fl_full_size l)
      \<and> fl_load_size l \<le> fl_full_size l)"
| "fresh_loader (Preload p) = (p = new_preload (vp_full p))"

datatype download_input =
    TimePasses int
  | NewTask nat int file_location loader
  | DestroyTask nat
  | StreamLoad nat int bytes
  | StreamCancel nat int
  | StreamStop nat
  | StreamTryRemove nat
  | StreamPriority nat int
  | StreamResetPriorities nat
  | StatsTimer nat
  | FileStart nat
  | LocalLoaded nat bytes
  | FileCancel nat
  | PreloadStart nat int int
  | NormalPart nat int file_answer
  | WebPart nat int int bytes
  | CdnPart nat int cdn_answer
  | ReuploadDone nat int "(int \<times> int \<times> bytes) list"
  | HashesDone nat int "(int \<times> int \<times> bytes) list"
  | NormalFailed nat int bytes rpc_error
  | WebFailed nat rpc_error
  | CdnFailed nat int rpc_error
  | ReferenceRefreshed nat bytes int bytes
  | ResetTimer
  | KillTimer
  | SessionRestarted int nat
  | RunDeferred

definition run_deferred :: download_op where
  "run_deferred s =
     (case dw_deferred s of
        [] \<Rightarrow> Some s
      | SignalTimeout dc i # rest \<Rightarrow> session_timed_out dc i (s\<lparr> dw_deferred := rest \<rparr>)
      | MoreHashes t # rest \<Rightarrow> request_more_hashes t (s\<lparr> dw_deferred := rest \<rparr>))"

fun download_step :: "download_env \<Rightarrow> download_input \<Rightarrow> download_op" where
  "download_step env (TimePasses d) s = Some (s\<lparr> dw_now := dw_now s + max 0 d \<rparr>)"
| "download_step env (NewTask t dc location l) s = Some (set_task t (new_task dc location l) s)"
| "download_step env (DestroyTask t) s = destroy_task t s"
| "download_step env (StreamLoad t offset loaded) s = streaming_load t offset loaded s"
| "download_step env (StreamCancel t offset) s = streaming_cancel_offset t offset s"
| "download_step env (StreamStop t) s = streaming_stop t s"
| "download_step env (StreamTryRemove t) s = streaming_try_remove t s"
| "download_step env (StreamPriority t priority) s = streaming_set_priority t priority s"
| "download_step env (StreamResetPriorities t) s = streaming_reset_priorities t s"
| "download_step env (StatsTimer t) s = streaming_stats_timer t s"
| "download_step env (FileStart t) s = file_start env t s"
| "download_step env (LocalLoaded t stored) s = local_loaded env t stored s"
| "download_step env (FileCancel t) s = file_cancel_call t s"
| "download_step env (PreloadStart t prefix video_size) s = preload_start t prefix video_size s"
| "download_step env (NormalPart t rid answer) s = normal_part_loaded env t rid answer s"
| "download_step env (WebPart t rid web_size part) s = web_part_loaded env t rid web_size part s"
| "download_step env (CdnPart t rid answer) s = cdn_part_loaded env t rid answer s"
| "download_step env (ReuploadDone t rid hashes) s = reupload_done t rid hashes s"
| "download_step env (HashesDone t rid hashes) s = get_cdn_hashes_done env t rid hashes s"
| "download_step env (NormalFailed t rid reference e) s = normal_part_failed t reference e rid s"
| "download_step env (WebFailed t e) s = part_failed t e s"
| "download_step env (CdnFailed t rid e) s = cdn_part_failed t e rid s"
| "download_step env (ReferenceRefreshed t updated rid current) s = refresh_file_reference t updated rid current s"
| "download_step env ResetTimer s = reset_generation s"
| "download_step env KillTimer s = kill_sessions (s\<lparr> dw_kill_timer := None \<rparr>)"
| "download_step env (SessionRestarted dc i) s = session_timed_out dc i s"
| "download_step env RunDeferred s = run_deferred s"

text \<open>What the outside may do: new tasks come with new numbers, timers go off when they are set, and a
  file loader hears from the cache only after asking.\<close>

definition input_possible :: "downloads \<Rightarrow> download_input \<Rightarrow> bool" where
  "input_possible s input =
     (case input of
        NewTask t dc location l \<Rightarrow> flat_get (dw_tasks s) t = None \<and> fresh_loader l
      | LocalLoaded t stored \<Rightarrow> (case file_of t s of None \<Rightarrow> False | Some l \<Rightarrow> fl_local_loading l)
      | ResetTimer \<Rightarrow> dw_reset_timer s \<noteq> None
      | KillTimer \<Rightarrow> dw_kill_timer s \<noteq> None
      | _ \<Rightarrow> True)"

inductive download_reach :: "downloads \<Rightarrow> bool" where
  reach_start: "download_reach (initial_downloads now)"
| reach_step: "download_reach s \<Longrightarrow> input_possible s input \<Longrightarrow> download_step env input s = Some s'
    \<Longrightarrow> download_reach s'"

inductive_cases download_reachE: "download_reach s"

end
