(* ===== verification/Download_Accounting.thy ===== *)
theory Download_Accounting
  imports Download_Machine
begin

text \<open>
  The accounts of the download manager: what the balance of a datacenter says a session has requested
  is the size of the requests its tasks have sent in that session, after every call and with content
  servers too.  The invariant is stated on the components of the state, with an extra amount per
  session that is zero except while a session is being removed, where the code adds a reserve to it.
\<close>

named_theorems keeps \<open>operations that keep the invariant of the downloads\<close>

section \<open>Counting requests\<close>

definition in_session :: "nat \<Rightarrow> int \<Rightarrow> request_data \<Rightarrow> int" where
  "in_session i rid r = (if rd_session r = i then 1 else 0)"

definition task_load :: "int \<Rightarrow> nat \<Rightarrow> nat \<Rightarrow> download_task \<Rightarrow> int" where
  "task_load dc i t task = (if dt_dc task = dc then entry_sum (in_session i) (dt_sent task) else 0)"

definition task_total :: "int \<Rightarrow> nat \<Rightarrow> download_task \<Rightarrow> int" where
  "task_total dc t task = (if dt_dc task = dc then int (length (dt_sent task)) else 0)"

type_synonym tasks = "(nat, download_task) flat_map"

definition sent_count :: "int \<Rightarrow> nat \<Rightarrow> tasks \<Rightarrow> int" where
  "sent_count dc i m = entry_sum (task_load dc i) m"

definition sent_total :: "int \<Rightarrow> tasks \<Rightarrow> int" where
  "sent_total dc m = entry_sum (task_total dc) m"

section \<open>The invariant\<close>

definition task_ok :: "int \<Rightarrow> download_task \<Rightarrow> bool" where
  "task_ok n task \<longleftrightarrow> flat_map_ok (dt_sent task) \<and> flat_map_ok (dt_by_offset task)
     \<and> (\<forall>rid r. flat_get (dt_sent task) rid = Some r \<longrightarrow> 0 < rid \<and> rid < n \<and> flat_get (dt_by_offset task) (rd_offset r) = Some rid)
     \<and> (\<forall>offset rid. flat_get (dt_by_offset task) offset = Some rid \<longrightarrow>
           (\<exists>r. flat_get (dt_sent task) rid = Some r \<and> rd_offset r = offset))"

definition tasks_ok :: "int \<Rightarrow> tasks \<Rightarrow> bool" where
  "tasks_ok n m \<longleftrightarrow> 0 < n \<and> flat_map_ok m \<and> (\<forall>t task. flat_get m t = Some task \<longrightarrow> task_ok n task)"

definition session_ok :: "session_balance \<Rightarrow> bool" where
  "session_ok x \<longleftrightarrow> start_waited_in_session \<le> sb_max_waited x \<and> sb_max_waited x \<le> max_waited_in_session
     \<and> download_part_size dvd sb_max_waited x \<and> 0 \<le> sb_successes x \<and> sb_successes x \<le> max_tracked_successes"

definition balance_ok :: "dc_balance \<Rightarrow> bool" where
  "balance_ok b \<longleftrightarrow> start_sessions_count \<le> length (db_sessions b) \<and> length (db_sessions b) \<le> max_sessions_count
     \<and> (\<forall>x \<in> set (db_sessions b). session_ok x)
     \<and> 0 \<le> db_remove_times b \<and> db_remove_times b \<le> max_tracked_session_removes
     \<and> 0 \<le> db_timeouts b \<and> db_timeouts b < remove_session_after_timeouts"

definition sessions_of :: "(int, dc_balance) flat_map \<Rightarrow> int \<Rightarrow> session_balance list" where
  "sessions_of bs dc = (case flat_get bs dc of None \<Rightarrow> [] | Some b \<Rightarrow> db_sessions b)"

definition total_of :: "(int, dc_balance) flat_map \<Rightarrow> int \<Rightarrow> int" where
  "total_of bs dc = (case flat_get bs dc of None \<Rightarrow> 0 | Some b \<Rightarrow> db_total b)"

type_synonym extra = "int \<Rightarrow> nat \<Rightarrow> int"

definition accounts_ok :: "extra \<Rightarrow> (int, dc_balance) flat_map \<Rightarrow> tasks \<Rightarrow> bool" where
  "accounts_ok x bs m \<longleftrightarrow> flat_map_ok bs \<and> (\<forall>dc b. flat_get bs dc = Some b \<longrightarrow> balance_ok b)
     \<and> (\<forall>dc. \<forall>i < length (sessions_of bs dc).
           sb_requested (sessions_of bs dc ! i) = download_part_size * sent_count dc i m + x dc i)
     \<and> (\<forall>dc i. length (sessions_of bs dc) \<le> i \<longrightarrow> sent_count dc i m = 0)
     \<and> (\<forall>dc. total_of bs dc = download_part_size * sent_total dc m)"

definition kill_ok :: "(int, int) flat_map \<Rightarrow> (int, dc_balance) flat_map \<Rightarrow> tasks \<Rightarrow> bool" where
  "kill_ok ks bs m \<longleftrightarrow> flat_map_ok ks \<and> (\<forall>dc. flat_get ks dc \<noteq> None \<longrightarrow> sent_total dc m = 0)"

definition queues_ok :: "(int, nat task_queue) flat_map \<Rightarrow> tasks \<Rightarrow> bool" where
  "queues_ok qs m \<longleftrightarrow> flat_map_ok qs
     \<and> (\<forall>dc q. flat_get qs dc = Some q \<longrightarrow> queue_ok q
           \<and> (\<forall>t \<in> fst ` set q. \<exists>task. flat_get m t = Some task \<and> dt_dc task = dc))"

definition downloads_inv :: "extra \<Rightarrow> downloads \<Rightarrow> bool" where
  "downloads_inv x s \<longleftrightarrow> tasks_ok (dw_next_request s) (dw_tasks s) \<and> accounts_ok x (dw_balance s) (dw_tasks s)
     \<and> kill_ok (dw_kill_when s) (dw_balance s) (dw_tasks s) \<and> queues_ok (dw_queues s) (dw_tasks s)"

abbreviation no_extra :: extra where "no_extra \<equiv> \<lambda>_ _. 0"

lemmas inv_defs = downloads_inv_def tasks_ok_def accounts_ok_def kill_ok_def queues_ok_def

lemma inv_irrelevant [simp]:
  "downloads_inv x (s\<lparr> dw_log := es \<rparr>) = downloads_inv x s"
  "downloads_inv x (s\<lparr> dw_now := n \<rparr>) = downloads_inv x s"
  "downloads_inv x (s\<lparr> dw_deferred := ds \<rparr>) = downloads_inv x s"
  "downloads_inv x (s\<lparr> dw_kill_timer := kt \<rparr>) = downloads_inv x s"
  "downloads_inv x (s\<lparr> dw_reset_timer := rt \<rparr>) = downloads_inv x s"
  "downloads_inv x (log_event e s) = downloads_inv x s"
  by (simp_all add: downloads_inv_def log_event_def)

section \<open>Counts after a change of one task\<close>

lemma in_session_nonneg: "0 \<le> in_session i rid r"
  by (simp add: in_session_def)

lemma task_load_nonneg: "0 \<le> task_load dc i t task"
  by (simp add: task_load_def entry_sum_nonneg in_session_nonneg)

lemma task_total_nonneg: "0 \<le> task_total dc t task"
  by (simp add: task_total_def)

lemma sent_count_nonneg: "0 \<le> sent_count dc i m"
  by (simp add: sent_count_def entry_sum_nonneg task_load_nonneg)

lemma sent_total_nonneg: "0 \<le> sent_total dc m"
  by (simp add: sent_total_def entry_sum_nonneg task_total_nonneg)

lemma length_entry_sum: "int (length m) = entry_sum (\<lambda>_ _. 1) m"
  by (induction m) auto

lemma sent_counts_zero_total:
  assumes ok: "tasks_ok n m" and zero: "\<And>i. sent_count dc i m = 0"
  shows "sent_total dc m = 0"
proof -
  have "task_total dc t task = 0" if "(t, task) \<in> set m" for t task
  proof (rule ccontr)
    assume "task_total dc t task \<noteq> 0"
    then obtain rid r rest where dc: "dt_dc task = dc" and sent: "dt_sent task = (rid, r) # rest"
      by (cases "dt_sent task") (auto simp: task_total_def split: if_splits)
    have "task_load dc (rd_session r) t task \<ge> 1"
      using entry_sum_nonneg [of rest "in_session (rd_session r)"] in_session_nonneg
      by (simp add: task_load_def dc sent in_session_def)
    moreover have "task_load dc (rd_session r) t task \<le> sent_count dc (rd_session r) m"
      unfolding sent_count_def using that by (rule entry_sum_member) (rule task_load_nonneg)
    ultimately show False using zero [of "rd_session r"] by simp
  qed
  then show ?thesis unfolding sent_total_def by (rule entry_sum_all_zero)
qed

lemma sent_total_zero: "sent_total dc m = 0 \<Longrightarrow> flat_get m t = Some task \<Longrightarrow> dt_dc task = dc \<Longrightarrow> dt_sent task = []"
  using entry_sum_zero [of "task_total dc" m t task] task_total_nonneg flat_get_in [of m t task]
  by (auto simp: sent_total_def task_total_def)

lemma sent_total_zero_counts: "flat_map_ok m \<Longrightarrow> sent_total dc m = 0 \<Longrightarrow> sent_count dc i m = 0"
proof -
  assume ok: "flat_map_ok m" and zero: "sent_total dc m = 0"
  have "task_load dc i t task = 0" if "(t, task) \<in> set m" for t task
    using sent_total_zero [OF zero, of t task] that ok by (auto simp: task_load_def flat_get_iff)
  then show ?thesis unfolding sent_count_def by (rule entry_sum_all_zero)
qed

lemma sent_count_put:
  assumes "flat_map_ok m" and "flat_get m t = Some task"
  shows "sent_count dc i (flat_put t task' m) = sent_count dc i m + task_load dc i t task' - task_load dc i t task"
    and "sent_total dc (flat_put t task' m) = sent_total dc m + task_total dc t task' - task_total dc t task"
  using assms by (simp_all add: sent_count_def sent_total_def entry_sum_put)

lemma sent_count_new:
  assumes "flat_map_ok m" and "flat_get m t = None" and "dt_sent task' = []"
  shows "sent_count dc i (flat_put t task' m) = sent_count dc i m" "sent_total dc (flat_put t task' m) = sent_total dc m"
  using assms by (simp_all add: sent_count_def sent_total_def entry_sum_put task_load_def task_total_def)

lemma sent_count_del:
  assumes "flat_map_ok m" and "flat_get m t = Some task" and "dt_sent task = []"
  shows "sent_count dc i (flat_del t m) = sent_count dc i m" "sent_total dc (flat_del t m) = sent_total dc m"
  using assms by (simp_all add: sent_count_def sent_total_def entry_sum_del task_load_def task_total_def)

lemma task_load_add:
  assumes "flat_map_ok (dt_sent task)" and "flat_get (dt_sent task) rid = None"
  shows "task_load dc i t (add_sent rid r task) = task_load dc i t task + (if dt_dc task = dc \<and> rd_session r = i then 1 else 0)"
    and "task_total dc t (add_sent rid r task) = task_total dc t task + (if dt_dc task = dc then 1 else 0)"
  using assms
  by (auto simp: task_load_def task_total_def add_sent_def entry_sum_put in_session_def length_entry_sum)

lemma task_load_drop:
  assumes "flat_map_ok (dt_sent task)" and "flat_get (dt_sent task) rid = Some r"
  shows "task_load dc i t (drop_sent rid r' task) = task_load dc i t task - (if dt_dc task = dc \<and> rd_session r = i then 1 else 0)"
    and "task_total dc t (drop_sent rid r' task) = task_total dc t task - (if dt_dc task = dc then 1 else 0)"
  using assms
  by (auto simp: task_load_def task_total_def drop_sent_def entry_sum_del in_session_def length_entry_sum)

lemma sent_count_member:
  assumes "flat_get m t = Some task" and "flat_get (dt_sent task) rid = Some r"
  shows "1 \<le> sent_count (dt_dc task) (rd_session r) m" and "1 \<le> sent_total (dt_dc task) m"
proof -
  have "in_session (rd_session r) rid r \<le> entry_sum (in_session (rd_session r)) (dt_sent task)"
    using flat_get_in [OF assms(2)] by (rule entry_sum_member) (rule in_session_nonneg)
  then have "1 \<le> task_load (dt_dc task) (rd_session r) t task" by (simp add: task_load_def in_session_def)
  also have "\<dots> \<le> sent_count (dt_dc task) (rd_session r) m"
    unfolding sent_count_def using flat_get_in [OF assms(1)] by (rule entry_sum_member) (rule task_load_nonneg)
  finally show "1 \<le> sent_count (dt_dc task) (rd_session r) m" .
  have "1 \<le> task_total (dt_dc task) t task"
    using flat_get_in [OF assms(2)] by (cases "dt_sent task") (auto simp: task_total_def)
  also have "\<dots> \<le> sent_total (dt_dc task) m"
    unfolding sent_total_def using flat_get_in [OF assms(1)] by (rule entry_sum_member) (rule task_total_nonneg)
  finally show "1 \<le> sent_total (dt_dc task) m" .
qed

section \<open>Changes of a task that leave its requests\<close>

definition same_requests :: "download_task \<Rightarrow> download_task \<Rightarrow> bool" where
  "same_requests a b \<longleftrightarrow> dt_dc a = dt_dc b \<and> dt_sent a = dt_sent b \<and> dt_by_offset a = dt_by_offset b"

lemma same_requests_updates [simp]:
  "same_requests (task\<lparr> dt_loader := l \<rparr>) task"
  "same_requests (task\<lparr> dt_location := loc \<rparr>) task"
  "same_requests (task\<lparr> dt_unchecked := u \<rparr>) task"
  "same_requests (task\<lparr> dt_hashes_request := h \<rparr>) task"
  "same_requests (add_cdn_hashes hs task) task"
  "same_requests (set_cdn c task) task"
  "same_requests (add_cdn_hashes hs (set_cdn c task)) task"
  by (simp_all add: same_requests_def add_cdn_hashes_def set_cdn_def)

lemma inv_same_requests:
  assumes inv: "downloads_inv x s" and get: "flat_get (dw_tasks s) t = Some task" and same: "same_requests task' task"
  shows "downloads_inv x (set_task t task' s)"
proof -
  let ?m = "flat_put t task' (dw_tasks s)"
  have load: "task_load dc i t task' = task_load dc i t task" "task_total dc t task' = task_total dc t task" for dc i
    using same by (simp_all add: same_requests_def task_load_def task_total_def)
  have ok: "flat_map_ok (dw_tasks s)" using inv by (simp add: inv_defs)
  have counts: "sent_count dc i ?m = sent_count dc i (dw_tasks s)" "sent_total dc ?m = sent_total dc (dw_tasks s)" for dc i
    using sent_count_put [OF ok get] load by simp_all
  have "task_ok n task' = task_ok n task" for n using same by (simp add: same_requests_def task_ok_def)
  then have "tasks_ok (dw_next_request s) ?m"
    using inv get by (auto simp: downloads_inv_def tasks_ok_def)
  moreover have "accounts_ok x (dw_balance s) ?m" "kill_ok (dw_kill_when s) (dw_balance s) ?m"
    using inv by (simp_all add: downloads_inv_def accounts_ok_def kill_ok_def counts)
  moreover have "queues_ok (dw_queues s) ?m"
    using inv get same by (force simp: downloads_inv_def queues_ok_def same_requests_def)
  ultimately show ?thesis by (simp add: downloads_inv_def set_task_def)
qed

section \<open>Sending and finishing a request\<close>

definition change_session :: "nat \<Rightarrow> int \<Rightarrow> dc_balance \<Rightarrow> dc_balance" where
  "change_session i delta b =
     b\<lparr> db_sessions := (db_sessions b)[i := add_requested delta (db_sessions b ! i)], db_total := db_total b + delta \<rparr>"

lemma session_ok_add_requested [simp]: "session_ok (add_requested d y) = session_ok y"
  by (simp add: session_ok_def add_requested_def)

lemma balance_ok_change: "balance_ok b \<Longrightarrow> i < length (db_sessions b) \<Longrightarrow> balance_ok (change_session i d b)"
  using set_update_subset_insert [of "db_sessions b" i "add_requested d (db_sessions b ! i)"]
  by (auto simp: balance_ok_def change_session_def dest!: subsetD)

lemma sessions_of_put [simp]: "sessions_of (flat_put dc b bs) dc' = (if dc' = dc then db_sessions b else sessions_of bs dc')"
  by (simp add: sessions_of_def)

lemma total_of_put [simp]: "total_of (flat_put dc b bs) dc' = (if dc' = dc then db_total b else total_of bs dc')"
  by (simp add: total_of_def)

lemma sessions_of_get: "flat_get bs dc = Some b \<Longrightarrow> sessions_of bs dc = db_sessions b"
  by (simp add: sessions_of_def)

lemma accounts_at:
  assumes "accounts_ok x bs m" and "flat_get bs dc = Some b"
  shows "i < length (db_sessions b) \<Longrightarrow> sb_requested (db_sessions b ! i) = download_part_size * sent_count dc i m + x dc i"
    and "length (db_sessions b) \<le> i \<Longrightarrow> sent_count dc i m = 0"
    and "db_total b = download_part_size * sent_total dc m"
    and "balance_ok b"
proof -
  have req: "\<forall>d. \<forall>j < length (sessions_of bs d). sb_requested (sessions_of bs d ! j) = download_part_size * sent_count d j m + x d j"
    and beyond: "\<forall>d j. length (sessions_of bs d) \<le> j \<longrightarrow> sent_count d j m = 0"
    and total: "\<forall>d. total_of bs d = download_part_size * sent_total d m"
    using assms(1) unfolding accounts_ok_def by blast+
  note s = sessions_of_get [OF assms(2)]
  show "i < length (db_sessions b) \<Longrightarrow> sb_requested (db_sessions b ! i) = download_part_size * sent_count dc i m + x dc i"
    using req [rule_format, of i dc] by (simp add: s)
  show "length (db_sessions b) \<le> i \<Longrightarrow> sent_count dc i m = 0" using beyond [rule_format, of dc i] by (simp add: s)
  show "db_total b = download_part_size * sent_total dc m" using total [rule_format, of dc] assms(2) by (simp add: total_of_def)
  show "balance_ok b" using assms unfolding accounts_ok_def by blast
qed

lemma accounts_change:
  assumes ok: "accounts_ok x bs m" and get: "flat_get bs dc = Some b" and i: "i < length (db_sessions b)"
    and count: "\<And>d j. sent_count d j m' = sent_count d j m + (if dc = d \<and> i = j then k else 0)"
    and total: "\<And>d. sent_total d m' = sent_total d m + (if dc = d then k else 0)"
  shows "accounts_ok x (flat_put dc (change_session i (download_part_size * k) b) bs) m'"
  unfolding accounts_ok_def
proof (intro conjI allI impI)
  show "flat_map_ok (flat_put dc (change_session i (download_part_size * k) b) bs)" using ok by (simp add: accounts_ok_def)
next
  fix d b' assume "flat_get (flat_put dc (change_session i (download_part_size * k) b) bs) d = Some b'"
  then show "balance_ok b'" using ok get i balance_ok_change by (auto simp: accounts_ok_def split: if_splits)
next
  fix d j assume j: "j < length (sessions_of (flat_put dc (change_session i (download_part_size * k) b) bs) d)"
  have old: "j < length (sessions_of bs d) \<Longrightarrow>
      sb_requested (sessions_of bs d ! j) = download_part_size * sent_count d j m + x d j"
    using ok by (simp add: accounts_ok_def)
  show "sb_requested (sessions_of (flat_put dc (change_session i (download_part_size * k) b) bs) d ! j)
      = download_part_size * sent_count d j m' + x d j"
    using j old i by (cases "d = dc"; cases "j = i")
      (simp_all add: count sessions_of_get [OF get] change_session_def add_requested_def distrib_left)
next
  fix d j assume j: "length (sessions_of (flat_put dc (change_session i (download_part_size * k) b) bs) d) \<le> j"
  then have "length (sessions_of bs d) \<le> j" using sessions_of_get [OF get] by (simp add: change_session_def split: if_splits)
  moreover have "\<not> (dc = d \<and> i = j)" using j i by (auto simp: change_session_def)
  ultimately show "sent_count d j m' = 0" using ok unfolding count accounts_ok_def by auto
next
  fix d
  show "total_of (flat_put dc (change_session i (download_part_size * k) b) bs) d = download_part_size * sent_total d m'"
  proof (cases "d = dc")
    case True
    have "db_total b = download_part_size * sent_total dc m" using ok get by (auto simp: accounts_ok_def total_of_def dest!: spec [of _ dc])
    then show ?thesis using total [of d] by (simp add: True change_session_def distrib_left)
  next
    case False
    then show ?thesis using ok total [of d] by (simp add: accounts_ok_def)
  qed
qed

lemma change_requested_amount_Some:
  "change_requested_amount dc i delta s = Some (a, s1) \<longleftrightarrow>
     (\<exists>b. flat_get (dw_balance s) dc = Some b \<and> i < length (db_sessions b)
        \<and> a = sb_requested (db_sessions b ! i) + delta
        \<and> s1 = (let s2 = set_balance dc (change_session i delta b) s
               in if delta > 0 then kill_sessions_cancel dc s2
                  else if \<not> (\<exists>y \<in> set (db_sessions (change_session i delta b)). sb_requested y > 0)
                  then kill_sessions_schedule dc s2 else s2))"
  by (auto simp: change_requested_amount_def change_session_def Let_def add_requested_def split: option.split)

lemma kill_sessions_fields [simp]:
  "dw_balance (kill_sessions_cancel dc s) = dw_balance s" "dw_balance (kill_sessions_schedule dc s) = dw_balance s"
  "dw_tasks (kill_sessions_cancel dc s) = dw_tasks s" "dw_tasks (kill_sessions_schedule dc s) = dw_tasks s"
  "dw_queues (kill_sessions_cancel dc s) = dw_queues s" "dw_queues (kill_sessions_schedule dc s) = dw_queues s"
  "dw_next_request (kill_sessions_cancel dc s) = dw_next_request s"
  "dw_next_request (kill_sessions_schedule dc s) = dw_next_request s"
  "dw_now (kill_sessions_cancel dc s) = dw_now s" "dw_now (kill_sessions_schedule dc s) = dw_now s"
  "dw_kill_when (kill_sessions_cancel dc s) = flat_del dc (dw_kill_when s)"
  by (simp_all add: kill_sessions_cancel_def kill_sessions_schedule_def Let_def)

lemma set_fields [simp]:
  "dw_balance (set_balance dc b s) = flat_put dc b (dw_balance s)" "dw_balance (set_task t task s) = dw_balance s"
  "dw_tasks (set_balance dc b s) = dw_tasks s" "dw_tasks (set_task t task s) = flat_put t task (dw_tasks s)"
  "dw_queues (set_balance dc b s) = dw_queues s" "dw_queues (set_task t task s) = dw_queues s"
  "dw_next_request (set_balance dc b s) = dw_next_request s" "dw_next_request (set_task t task s) = dw_next_request s"
  "dw_kill_when (set_balance dc b s) = dw_kill_when s" "dw_kill_when (set_task t task s) = dw_kill_when s"
  "dw_now (set_balance dc b s) = dw_now s" "dw_now (set_task t task s) = dw_now s"
  by (simp_all add: set_balance_def set_task_def)

lemma log_fields [simp]:
  "dw_balance (log_event e s) = dw_balance s" "dw_tasks (log_event e s) = dw_tasks s"
  "dw_queues (log_event e s) = dw_queues s" "dw_next_request (log_event e s) = dw_next_request s"
  "dw_kill_when (log_event e s) = dw_kill_when s" "dw_now (log_event e s) = dw_now s"
  by (simp_all add: log_event_def)

lemma task_okD:
  "task_ok n task \<Longrightarrow> flat_get (dt_sent task) rid = Some r \<Longrightarrow> flat_get (dt_by_offset task) (rd_offset r) = Some rid"
  "task_ok n task \<Longrightarrow> flat_get (dt_by_offset task) offset = Some rid \<Longrightarrow>
     \<exists>r. flat_get (dt_sent task) rid = Some r \<and> rd_offset r = offset"
  by (simp_all add: task_ok_def)

lemma task_ok_add:
  assumes "task_ok n task" and "0 < rid" "rid < n" and "flat_get (dt_sent task) rid = None"
    and "flat_get (dt_by_offset task) (rd_offset r) = None"
  shows "task_ok n (add_sent rid r task)"
proof -
  have "rd_offset r2 \<noteq> rd_offset r" if "flat_get (dt_sent task) rid2 = Some r2" for rid2 r2
    using task_okD(1) [OF assms(1) that] assms(5) by auto
  moreover have "rid2 \<noteq> rid" if "flat_get (dt_by_offset task) offset = Some rid2" for offset rid2
    using task_okD(2) [OF assms(1) that] assms(4) by auto
  ultimately show ?thesis using assms by (auto simp: task_ok_def add_sent_def)
qed

lemma task_ok_drop:
  assumes "task_ok n task" and "flat_get (dt_sent task) rid = Some r"
  shows "task_ok n (drop_sent rid r task)"
proof -
  have by_offset: "flat_get (dt_by_offset task) (rd_offset r) = Some rid" using assms by (auto simp: task_ok_def)
  have "rd_offset r2 \<noteq> rd_offset r" if "flat_get (dt_sent task) rid2 = Some r2" "rid2 \<noteq> rid" for rid2 r2
    using task_okD(1) [OF assms(1) that(1)] that(2) by_offset by auto
  moreover have "rid2 \<noteq> rid" if "flat_get (dt_by_offset task) offset = Some rid2" "offset \<noteq> rd_offset r" for offset rid2
    using task_okD(2) [OF assms(1) that(1)] that(2) assms(2) by auto
  ultimately show ?thesis using assms by (auto simp: task_ok_def drop_sent_def)
qed

lemma inv_put_task:
  assumes inv: "downloads_inv x s" and get: "flat_get (dw_tasks s) t = Some task"
    and task: "task_ok (dw_next_request s) task'" "dt_dc task' = dt_dc task"
  shows "tasks_ok (dw_next_request s) (flat_put t task' (dw_tasks s))"
    and "queues_ok (dw_queues s) (flat_put t task' (dw_tasks s))"
proof -
  show "tasks_ok (dw_next_request s) (flat_put t task' (dw_tasks s))"
    using inv task(1) by (auto simp: downloads_inv_def tasks_ok_def)
  show "queues_ok (dw_queues s) (flat_put t task' (dw_tasks s))"
    using inv get task(2) by (force simp: downloads_inv_def queues_ok_def)
qed

lemma inv_task_ok: "downloads_inv x s \<Longrightarrow> flat_get (dw_tasks s) t = Some task \<Longrightarrow> task_ok (dw_next_request s) task"
  by (auto simp: downloads_inv_def tasks_ok_def)

lemma place_sent_request_inv:
  assumes inv: "downloads_inv x s" and place: "place_sent_request t rid r s = Some s'"
    and rid: "0 < rid" "rid < dw_next_request s"
  shows "downloads_inv x s'"
proof -
  obtain task a s1 b where get: "flat_get (dw_tasks s) t = Some task"
    and b: "flat_get (dw_balance s) (dt_dc task) = Some b" "rd_session r < length (db_sessions b)"
    and s1: "s1 = kill_sessions_cancel (dt_dc task) (set_balance (dt_dc task) (change_session (rd_session r) download_part_size b) s)"
    and free: "flat_get (dt_sent task) rid = None" "flat_get (dt_by_offset task) (rd_offset r) = None"
    and s': "s' = set_task t (add_sent rid (r\<lparr> rd_amount := a, rd_sent := dw_now s \<rparr>) task) s1"
    using place by (auto simp: place_sent_request_def change_requested_amount_Some download_part_size_def
        split: Option.bind_splits if_splits)
  define task' where "task' = add_sent rid (r\<lparr> rd_amount := a, rd_sent := dw_now s \<rparr>) task"
  have tok: "task_ok (dw_next_request s) task" using inv get by (rule inv_task_ok)
  then have sorted: "flat_map_ok (dt_sent task)" by (simp add: task_ok_def)
  have tok': "task_ok (dw_next_request s) task'"
    unfolding task'_def by (rule task_ok_add) (use tok rid free in simp_all)
  have dc': "dt_dc task' = dt_dc task" by (simp add: task'_def add_sent_def)
  have mok: "flat_map_ok (dw_tasks s)" using inv by (simp add: inv_defs)
  let ?m = "flat_put t task' (dw_tasks s)"
  have count: "sent_count d j ?m = sent_count d j (dw_tasks s) + (if dt_dc task = d \<and> rd_session r = j then 1 else 0)" for d j
    by (simp add: sent_count_put [OF mok get] task'_def task_load_add [OF sorted free(1)])
  have total: "sent_total d ?m = sent_total d (dw_tasks s) + (if dt_dc task = d then 1 else 0)" for d
    by (simp add: sent_count_put [OF mok get] task'_def task_load_add [OF sorted free(1)])
  have "accounts_ok x (dw_balance s') ?m"
    using accounts_change [OF _ b count total] inv by (simp add: downloads_inv_def s' s1)
  moreover have "kill_ok (dw_kill_when s') (dw_balance s') ?m"
    using inv by (auto simp: downloads_inv_def kill_ok_def s' s1 total)
  ultimately show ?thesis using inv_put_task [OF inv get tok' dc']
    by (simp add: downloads_inv_def s' s1 task'_def)
qed

text \<open>Finishing a request, without what a success brings.\<close>

lemma finish_sent_request_unfold:
  assumes "finish_sent_request t rid reason s = Some (r, s')"
  obtains task b s1 where "flat_get (dw_tasks s) t = Some task" and "flat_get (dt_sent task) rid = Some r"
    and "flat_get (dw_balance s) (dt_dc task) = Some b" and "rd_session r < length (db_sessions b)"
    and "s1 = (let s2 = set_balance (dt_dc task) (change_session (rd_session r) (- download_part_size) b) s
               in if \<not> (\<exists>y \<in> set (db_sessions (change_session (rd_session r) (- download_part_size) b)). sb_requested y > 0)
                  then kill_sessions_schedule (dt_dc task) s2 else s2)"
    and "(if reason = FinishSuccess
          then request_succeeded (dt_dc task) (rd_session r) (rd_amount r) (rd_sent r) (set_task t (drop_sent rid r task) s1)
          else Some (set_task t (drop_sent rid r task) s1)) = Some s'"
    and "flat_get (dt_by_offset task) (rd_offset r) \<noteq> None"
  using assms
  by (auto simp: finish_sent_request_def change_requested_amount_Some download_part_size_def
      split: Option.bind_splits if_splits)

lemma finish_requests_inv:
  assumes inv: "downloads_inv x s" and nonneg: "\<And>d j. 0 \<le> x d j"
    and get: "flat_get (dw_tasks s) t = Some task" and sent: "flat_get (dt_sent task) rid = Some r"
    and b: "flat_get (dw_balance s) (dt_dc task) = Some b" "rd_session r < length (db_sessions b)"
    and s1: "s1 = (let s2 = set_balance (dt_dc task) (change_session (rd_session r) (- download_part_size) b) s
               in if \<not> (\<exists>y \<in> set (db_sessions (change_session (rd_session r) (- download_part_size) b)). sb_requested y > 0)
                  then kill_sessions_schedule (dt_dc task) s2 else s2)"
  shows "downloads_inv x (set_task t (drop_sent rid r task) s1)"
proof -
  define task' where "task' = drop_sent rid r task"
  have tok: "task_ok (dw_next_request s) task" using inv get by (rule inv_task_ok)
  then have sorted: "flat_map_ok (dt_sent task)" by (simp add: task_ok_def)
  have tok': "task_ok (dw_next_request s) task'" unfolding task'_def using tok sent by (rule task_ok_drop)
  have dc': "dt_dc task' = dt_dc task" by (simp add: task'_def drop_sent_def)
  have mok: "flat_map_ok (dw_tasks s)" using inv by (simp add: inv_defs)
  let ?m = "flat_put t task' (dw_tasks s)" and ?b = "change_session (rd_session r) (- download_part_size) b"
  have count: "sent_count d j ?m = sent_count d j (dw_tasks s) + (if dt_dc task = d \<and> rd_session r = j then -1 else 0)" for d j
    by (simp add: sent_count_put [OF mok get] task'_def task_load_drop [OF sorted sent])
  have total: "sent_total d ?m = sent_total d (dw_tasks s) + (if dt_dc task = d then -1 else 0)" for d
    by (simp add: sent_count_put [OF mok get] task'_def task_load_drop [OF sorted sent])
  have acc: "accounts_ok x (flat_put (dt_dc task) ?b (dw_balance s)) ?m"
    using accounts_change [OF _ b count total] inv by (simp add: downloads_inv_def)
  have idle: "sent_total (dt_dc task) ?m = 0" if "\<not> (\<exists>y \<in> set (db_sessions ?b). sb_requested y > 0)"
  proof (rule sent_counts_zero_total)
    show "tasks_ok (dw_next_request s) ?m" using inv_put_task [OF inv get tok' dc'] by simp
    fix j
    show "sent_count (dt_dc task) j ?m = 0"
    proof (cases "j < length (db_sessions ?b)")
      case True
      then have "sb_requested (db_sessions ?b ! j) = download_part_size * sent_count (dt_dc task) j ?m + x (dt_dc task) j"
        using acc unfolding accounts_ok_def by (metis sessions_of_put)
      moreover have "sb_requested (db_sessions ?b ! j) \<le> 0" using that True nth_mem not_less by blast
      ultimately have "download_part_size * sent_count (dt_dc task) j ?m \<le> 0" using nonneg [of "dt_dc task" j] by simp
      then show ?thesis using sent_count_nonneg [of "dt_dc task" j ?m] by (simp add: download_part_size_def)
    next
      case False
      then show ?thesis using acc unfolding accounts_ok_def by (metis not_less sessions_of_put)
    qed
  qed
  have "kill_ok (dw_kill_when s1) (dw_balance s1) ?m"
  proof -
    have old: "flat_get (dw_kill_when s) d \<noteq> None \<Longrightarrow> sent_total d ?m = 0" for d
      using inv sent_total_nonneg [of d ?m] total [of d] by (auto simp: downloads_inv_def kill_ok_def split: if_splits)
    have "flat_map_ok (dw_kill_when s)" using inv by (simp add: downloads_inv_def kill_ok_def)
    then show ?thesis using old idle
      by (auto simp: s1 kill_ok_def kill_sessions_schedule_def Let_def split: if_splits)
  qed
  moreover have "accounts_ok x (dw_balance s1) ?m" using acc by (simp add: s1 Let_def)
  moreover have "dw_tasks s1 = dw_tasks s" "dw_queues s1 = dw_queues s" "dw_next_request s1 = dw_next_request s"
    by (simp_all add: s1 Let_def)
  ultimately show ?thesis using inv_put_task [OF inv get tok' dc']
    by (simp add: downloads_inv_def task'_def)
qed

section \<open>Successes and their sessions\<close>

lemma session_ok_new [simp]: "session_ok new_session_balance"
  by (simp add: session_ok_def new_session_balance_def start_waited_in_session_def max_waited_in_session_def
      download_part_size_def max_tracked_successes_def retry_add_session_successes_def max_tracked_session_removes_def)

lemma session_ok_clear [simp]: "session_ok y \<Longrightarrow> session_ok (clear_successes y)"
  by (simp add: session_ok_def clear_successes_def max_tracked_successes_def retry_add_session_successes_def
      max_tracked_session_removes_def)

lemma session_ok_count: "session_ok y \<Longrightarrow> session_ok (count_success a y)"
  by (auto simp: session_ok_def count_success_def max_waited_in_session_def download_part_size_def min_def
      max_tracked_successes_def retry_add_session_successes_def max_tracked_session_removes_def)

lemma requested_clear [simp]: "sb_requested (clear_successes y) = sb_requested y"
  by (simp add: clear_successes_def)

lemma requested_count [simp]: "sb_requested (count_success a y) = sb_requested y"
  by (simp add: count_success_def)

lemma balance_success_ok:
  assumes "balance_ok b" and "i < length (db_sessions b)"
  shows "balance_ok (balance_success now a i b)"
proof -
  define ss where "ss = (db_sessions b)[i := count_success a (db_sessions b ! i)]"
  have len: "length ss = length (db_sessions b)" by (simp add: ss_def)
  have "session_ok y" if "y \<in> set ss" for y
  proof -
    have "y = count_success a (db_sessions b ! i) \<or> y \<in> set (db_sessions b)"
      using subsetD [OF set_update_subset_insert that [unfolded ss_def]] by simp
    then show ?thesis using assms by (auto simp: balance_ok_def intro: session_ok_count)
  qed
  then show ?thesis using assms
    by (auto simp: balance_success_def Let_def balance_ok_def len simp flip: ss_def)
qed

text \<open>The sessions after a success have requested what they had; one idle session may come at the end.\<close>

lemma map_update_same: "f (g (xs ! i)) = f (xs ! i) \<Longrightarrow> map f (xs[i := g (xs ! i)]) = map f xs"
  by (cases "i < length xs") (simp_all add: map_update list_update_same_conv list_update_beyond not_less)

lemma balance_success_requested:
  "\<exists>new. map sb_requested (db_sessions (balance_success now a i b)) = map sb_requested (db_sessions b) @ new
     \<and> (new = [] \<or> new = [0])"
proof -
  have "map sb_requested ((db_sessions b)[i := count_success a (db_sessions b ! i)]) = map sb_requested (db_sessions b)"
    by (rule map_update_same) simp
  then show ?thesis
    by (auto simp: balance_success_def Let_def comp_def new_session_balance_def)
qed

lemma balance_success_total: "db_total (balance_success now a i b) = db_total b"
  by (simp add: balance_success_def Let_def)

lemma accounts_ok_grow:
  assumes ok: "accounts_ok no_extra bs m" and get: "flat_get bs dc = Some b" and bok: "balance_ok b'"
    and req: "map sb_requested (db_sessions b') = map sb_requested (db_sessions b) @ new" "new = [] \<or> new = [0]"
    and total: "db_total b' = db_total b"
  shows "accounts_ok no_extra (flat_put dc b' bs) m"
proof -
  have len: "length (db_sessions b') = length (db_sessions b) + length new"
    using arg_cong [OF req(1), of length] by simp
  have req': "sb_requested (db_sessions b' ! i) = (if i < length (db_sessions b) then sb_requested (db_sessions b ! i) else 0)"
    if "i < length (db_sessions b')" for i
  proof -
    have "sb_requested (db_sessions b' ! i) = (map sb_requested (db_sessions b) @ new) ! i"
      using that by (simp flip: req(1))
    then show ?thesis using that len req(2) by (auto simp: nth_append)
  qed
  have old: "\<And>i. i < length (db_sessions b) \<Longrightarrow> sb_requested (db_sessions b ! i) = download_part_size * sent_count dc i m"
    "\<And>i. length (db_sessions b) \<le> i \<Longrightarrow> sent_count dc i m = 0"
    "db_total b = download_part_size * sent_total dc m"
    using accounts_at [OF ok get] by simp_all
  show ?thesis
    using ok bok old req' len total unfolding accounts_ok_def by (auto simp: not_less)
qed

lemma request_succeeded_inv:
  assumes inv: "downloads_inv no_extra s" and op: "request_succeeded dc i a started s = Some s'"
  shows "downloads_inv no_extra s'"
proof -
  obtain b where b: "flat_get (dw_balance s) dc = Some b" "i < length (db_sessions b)"
    using op by (auto simp: request_succeeded_def split: option.splits if_splits)
  have bok: "balance_ok b" using inv b(1) by (auto simp: downloads_inv_def accounts_ok_def)
  obtain new where new: "map sb_requested (db_sessions (balance_success (dw_now s) a i b)) = map sb_requested (db_sessions b) @ new"
      "new = [] \<or> new = [0]" using balance_success_requested by blast
  have "accounts_ok no_extra (flat_put dc (balance_success (dw_now s) a i b) (dw_balance s)) (dw_tasks s)"
    by (rule accounts_ok_grow [OF _ b(1) balance_success_ok [OF bok b(2)] new balance_success_total])
      (use inv in \<open>simp add: downloads_inv_def\<close>)
  then have "downloads_inv no_extra (set_balance dc (balance_success (dw_now s) a i b) s)"
    using inv by (simp add: downloads_inv_def kill_ok_def)
  then show ?thesis using op b inv
    by (auto simp: request_succeeded_def split: if_splits)
qed

lemma finish_sent_request_inv:
  assumes inv: "downloads_inv x s" and nonneg: "\<And>d j. 0 \<le> x d j"
    and op: "finish_sent_request t rid reason s = Some (r, s')" and reason: "reason \<noteq> FinishSuccess \<or> x = no_extra"
  shows "downloads_inv x s'"
proof (rule finish_sent_request_unfold [OF op])
  fix task b s1
  assume "flat_get (dw_tasks s) t = Some task" "flat_get (dt_sent task) rid = Some r"
    "flat_get (dw_balance s) (dt_dc task) = Some b" "rd_session r < length (db_sessions b)"
    "s1 = (let s2 = set_balance (dt_dc task) (change_session (rd_session r) (- download_part_size) b) s
               in if \<not> (\<exists>y \<in> set (db_sessions (change_session (rd_session r) (- download_part_size) b)). sb_requested y > 0)
                  then kill_sessions_schedule (dt_dc task) s2 else s2)"
  from finish_requests_inv [OF inv nonneg this]
  have "downloads_inv x (set_task t (drop_sent rid r task) s1)" .
  moreover assume "(if reason = FinishSuccess
          then request_succeeded (dt_dc task) (rd_session r) (rd_amount r) (rd_sent r) (set_task t (drop_sent rid r task) s1)
          else Some (set_task t (drop_sent rid r task) s1)) = Some s'"
  ultimately show ?thesis using reason request_succeeded_inv by (auto split: if_splits)
qed

section \<open>Operations that keep the invariant\<close>

lemma send_kind_Some:
  "send_kind t kind dc r s = Some (rid, s') \<longleftrightarrow> rd_session r < max_media_dc_count \<and> rid = dw_next_request s
     \<and> s' = log_event (Sent t rid kind dc (rd_session r) (rd_offset r)) (s\<lparr> dw_next_request := dw_next_request s + 1 \<rparr>)"
  by (auto simp: send_kind_def)

lemma inv_next_request: "downloads_inv x s \<Longrightarrow> downloads_inv x (s\<lparr> dw_next_request := dw_next_request s + 1 \<rparr>)"
  by (fastforce simp: downloads_inv_def tasks_ok_def task_ok_def)

lemma inv_next_positive: "downloads_inv x s \<Longrightarrow> 0 < dw_next_request s"
  by (simp add: downloads_inv_def tasks_ok_def)

lemma make_request_inv_extra:
  assumes inv: "downloads_inv x s" and op: "make_request t r s = Some s'"
  shows "downloads_inv x s'"
proof -
  obtain kind dc rid s1 where send: "send_kind t kind dc r s = Some (rid, s1)" and place: "place_sent_request t rid r s1 = Some s'"
    using op by (auto simp: make_request_def send_request_def bind_eq_Some_conv split: option.splits)
  have "downloads_inv x s1" and "0 < rid" and "rid < dw_next_request s1"
    using send inv inv_next_request [OF inv] inv_next_positive [OF inv] by (auto simp: send_kind_Some)
  then show ?thesis using place_sent_request_inv place by blast
qed

lemma cancel_request_inv_extra:
  assumes "downloads_inv x s" and "\<And>d j. 0 \<le> x d j" and "cancel_request t rid s = Some s'"
  shows "downloads_inv x s'"
  using assms finish_sent_request_inv [of x "log_event (CancelledRequest rid) s" t rid FinishCancel]
  by (auto simp: cancel_request_def bind_eq_Some_conv split: if_splits)

text \<open>The laws in the form in which the proofs below apply them.\<close>

lemma make_request_keeps [keeps]:
  "make_request t r s = Some s' \<Longrightarrow> downloads_inv no_extra s \<longrightarrow> downloads_inv no_extra s'"
  using make_request_inv_extra by blast

lemma cancel_request_keeps [keeps]:
  "cancel_request t rid s = Some s' \<Longrightarrow> downloads_inv no_extra s \<longrightarrow> downloads_inv no_extra s'"
  using cancel_request_inv_extra [of no_extra] by simp

lemma finish_sent_request_keeps [keeps]:
  "finish_sent_request t rid reason s = Some (r, s') \<Longrightarrow> downloads_inv no_extra s \<longrightarrow> downloads_inv no_extra s'"
  using finish_sent_request_inv [of no_extra] by simp

lemma inv_set_task [simp]:
  "flat_get (dw_tasks s) t = Some task \<Longrightarrow> same_requests task' task \<Longrightarrow> downloads_inv x s \<Longrightarrow> downloads_inv x (set_task t task' s)"
  by (rule inv_same_requests)

lemma inv_set_loader [simp]: "downloads_inv x s \<Longrightarrow> downloads_inv x (set_loader t l s)"
  by (auto simp: set_loader_def split: option.split)

lemma inv_clear_unchecked [simp]: "downloads_inv x s \<Longrightarrow> downloads_inv x (clear_unchecked t s)"
  by (auto simp: clear_unchecked_def split: option.split)

lemma inv_update_task [simp]:
  "(\<And>task. same_requests (f task) task) \<Longrightarrow> downloads_inv x s \<Longrightarrow> downloads_inv x (update_task t f s)"
  by (auto simp: update_task_def split: option.split)

lemma load_part_keeps [keeps]:
  "load_part t i s = Some s' \<Longrightarrow> downloads_inv no_extra s \<longrightarrow> downloads_inv no_extra s'"
  by (auto simp: load_part_def bind_eq_Some_conv dest!: keeps)

lemma balance_ok_new [simp]: "balance_ok new_dc_balance"
  by (simp add: balance_ok_def new_dc_balance_def start_sessions_count_def max_sessions_count_def
      max_tracked_session_removes_def remove_session_after_timeouts_def)

lemma touch_balance_inv [simp]:
  assumes inv: "downloads_inv no_extra s"
  shows "downloads_inv no_extra (touch_balance dc s)"
proof (cases "flat_get (dw_balance s) dc")
  case None
  have acc: "accounts_ok no_extra (dw_balance s) (dw_tasks s)" using inv by (simp add: downloads_inv_def)
  have zero: "sent_count dc i (dw_tasks s) = 0" for i using acc None unfolding accounts_ok_def sessions_of_def by auto
  have total: "sent_total dc (dw_tasks s) = 0"
    using acc None unfolding accounts_ok_def total_of_def by (auto simp: download_part_size_def dest!: spec [of _ dc])
  have new: "sb_requested (db_sessions new_dc_balance ! i) = 0" if "i < length (db_sessions new_dc_balance)" for i
    using that by (simp add: new_dc_balance_def new_session_balance_def)
  have "db_total new_dc_balance = 0" by (simp add: new_dc_balance_def)
  then have "accounts_ok no_extra (flat_put dc new_dc_balance (dw_balance s)) (dw_tasks s)"
    using acc zero total new unfolding accounts_ok_def by auto
  then show ?thesis using inv None by (simp add: touch_balance_def balance_of_def downloads_inv_def kill_ok_def)
next
  case (Some b)
  then have "flat_put dc b (dw_balance s) = dw_balance s"
    using inv flat_put_get by (auto simp: inv_defs)
  with Some show ?thesis using inv by (simp add: touch_balance_def balance_of_def set_balance_def)
qed

lemma try_send_next_part_keeps [keeps]:
  "try_send_next_part dc s = Some (again, s') \<Longrightarrow> downloads_inv no_extra s \<longrightarrow> downloads_inv no_extra s'"
  by (auto simp: try_send_next_part_def Let_def split: option.splits if_splits dest!: keeps)

lemma check_send_next_invariant:
  assumes op: "check_send_next dc s = Some s'" and "I s"
    and step: "\<And>s again s'. I s \<Longrightarrow> try_send_next_part dc s = Some (again, s') \<Longrightarrow> I s'"
  shows "I s'"
proof -
  have "(\<lambda>d a a'. d = dc \<longrightarrow> I a \<longrightarrow> I a') dc s s'"
  proof (rule check_send_next.raw_induct [OF _ op, where P = "\<lambda>d a a'. d = dc \<longrightarrow> I a \<longrightarrow> I a'"])
    fix f :: "int \<Rightarrow> download_op" and d a a'
    assume rest: "\<And>d a a'. f d a = Some a' \<Longrightarrow> d = dc \<longrightarrow> I a \<longrightarrow> I a'"
    assume "try_send_next_part d a \<bind> (\<lambda>(again, s1). if again then f d s1 else Some s1) = Some a'"
    then obtain again s1 where sent: "try_send_next_part d a = Some (again, s1)"
        "(if again then f d s1 else Some s1) = Some a'" by (auto simp: bind_eq_Some_conv)
    show "d = dc \<longrightarrow> I a \<longrightarrow> I a'"
    proof (intro impI)
      assume d: "d = dc" and "I a"
      then have "I s1" using step sent(1) by simp
      then show "I a'" using sent(2) rest [of d s1 a'] d by (cases again) simp_all
    qed
  qed
  with assms(2) show ?thesis by simp
qed

lemma check_send_next_keeps [keeps]:
  "check_send_next dc s = Some s' \<Longrightarrow> downloads_inv no_extra s \<longrightarrow> downloads_inv no_extra s'"
  using check_send_next_invariant [of dc s s' "downloads_inv no_extra"] try_send_next_part_keeps by blast

lemma set_queue_inv:
  assumes inv: "downloads_inv x s" and q: "queue_ok q"
    and members: "\<And>t p. (t, p) \<in> set q \<Longrightarrow> \<exists>task. flat_get (dw_tasks s) t = Some task \<and> dt_dc task = dc"
  shows "downloads_inv x (set_queue dc q s)"
  using inv q members by (fastforce simp: downloads_inv_def set_queue_def queues_ok_def)

lemma queue_of_ok:
  assumes "downloads_inv x s"
  shows "queue_ok (queue_of dc s)"
    and "(t, p) \<in> set (queue_of dc s) \<Longrightarrow> \<exists>task. flat_get (dw_tasks s) t = Some task \<and> dt_dc task = dc"
proof -
  have all: "flat_get (dw_queues s) dc = Some q \<Longrightarrow> queue_ok q
      \<and> (\<forall>t \<in> fst ` set q. \<exists>task. flat_get (dw_tasks s) t = Some task \<and> dt_dc task = dc)" for q
    using assms by (simp add: downloads_inv_def queues_ok_def)
  then show "queue_ok (queue_of dc s)" by (simp add: queue_of_def queue_ok_simps split: option.split)
  assume "(t, p) \<in> set (queue_of dc s)"
  then obtain q where "flat_get (dw_queues s) dc = Some q" "t \<in> fst ` set q"
    by (force simp: queue_of_def split: option.splits)
  then show "\<exists>task. flat_get (dw_tasks s) t = Some task \<and> dt_dc task = dc" using all by blast
qed

lemma set_queue_enqueue_inv:
  assumes inv: "downloads_inv x s" and get: "flat_get (dw_tasks s) t = Some task"
  shows "downloads_inv x (set_queue (dt_dc task) (queue_enqueue t p (queue_of (dt_dc task) s)) s)"
proof (rule set_queue_inv [OF inv])
  show "queue_ok (queue_enqueue t p (queue_of (dt_dc task) s))" using queue_of_ok(1) [OF inv] by (rule queue_ok_enqueue)
  fix u r assume "(u, r) \<in> set (queue_enqueue t p (queue_of (dt_dc task) s))"
  then have "u = t \<or> (u, r) \<in> set (queue_of (dt_dc task) s)" using queue_of_ok(1) [OF inv] by (auto simp: set_queue_enqueue)
  then show "\<exists>task'. flat_get (dw_tasks s) u = Some task' \<and> dt_dc task' = dt_dc task"
    using get queue_of_ok(2) [OF inv] by auto
qed

lemma set_queue_remove_inv [simp]:
  assumes inv: "downloads_inv x s"
  shows "downloads_inv x (set_queue dc (queue_remove t (queue_of dc s)) s)"
proof (rule set_queue_inv [OF inv])
  show "queue_ok (queue_remove t (queue_of dc s))" using queue_of_ok(1) [OF inv] by (simp add: queue_remove_def queue_ok_filter)
  fix u r assume "(u, r) \<in> set (queue_remove t (queue_of dc s))"
  then show "\<exists>task'. flat_get (dw_tasks s) u = Some task' \<and> dt_dc task' = dc"
    using queue_of_ok(2) [OF inv] by (auto simp: queue_remove_def)
qed

lemma set_queue_same_inv [simp]: "downloads_inv x s \<Longrightarrow> downloads_inv x (set_queue dc (queue_of dc s) s)"
  by (rule set_queue_inv) (auto dest: queue_of_ok)

lemma enqueue_task_keeps [keeps]:
  "enqueue_task t p s = Some s' \<Longrightarrow> downloads_inv no_extra s \<longrightarrow> downloads_inv no_extra s'"
  by (auto simp: enqueue_task_def bind_eq_Some_conv Let_def set_queue_enqueue_inv split: if_splits dest!: keeps)

lemma remove_task_keeps [keeps]:
  "remove_task t s = Some s' \<Longrightarrow> downloads_inv no_extra s \<longrightarrow> downloads_inv no_extra s'"
  by (auto simp: remove_task_def bind_eq_Some_conv Let_def dest!: keeps)

section \<open>A new generation\<close>

lemma reset_run_Some:
  "queue_ok q \<Longrightarrow> \<forall>e \<in> set q. snd e \<le> 0 \<Longrightarrow> reset_run q = Some q' \<Longrightarrow> q' = map older q"
proof (induction q arbitrary: q' rule: reset_run.induct)
  case (2 t p q)
  show ?case
  proof (cases "p = 0")
    case True
    then show ?thesis using 2 by (auto simp: queue_ok_simps older_def)
  next
    case False
    then have "\<forall>e \<in> set q. snd e \<noteq> 0" using 2 by (auto simp: queue_ok_simps)
    then have "map older q = q" by (intro map_idI) (simp add: older_def)
    moreover have "p = -1" "q' = (t, p) # q" using 2 False by (auto split: if_splits)
    ultimately show ?thesis by (simp add: older_def [of "(t, -1)"])
  qed
qed simp

lemma queue_reset_generation_Some:
  assumes ok: "queue_ok q" and op: "queue_reset_generation q = Some q'"
  shows "q' = map older q"
proof -
  let ?P = "\<lambda>(_ :: 'a, p :: int). p \<noteq> 0"
  have up: "map older (takeWhile ?P q) = takeWhile ?P q"
    by (rule map_idI) (auto simp: older_def dest: set_takeWhileD)
  have ok': "queue_ok (takeWhile ?P q @ dropWhile ?P q)" using ok by simp
  have low: "\<forall>e \<in> set (dropWhile ?P q). snd e \<le> 0"
  proof (cases "dropWhile ?P q")
    case (Cons e es)
    then have "snd e = 0" using hd_dropWhile [of ?P q] by (cases e) auto
    moreover have "queue_ok (e # es)" using ok' Cons by (simp only: queue_ok_append)
    ultimately show ?thesis by (simp add: Cons queue_ok_simps)
  qed (simp only: list.set ball_empty)
  obtain r where r: "reset_run (dropWhile ?P q) = Some r" "q' = takeWhile ?P q @ r"
    using op by (auto simp: queue_reset_generation_def)
  have "queue_ok (dropWhile ?P q)" using ok' by (simp only: queue_ok_append)
  then have "r = map older (dropWhile ?P q)" using low r(1) by (rule reset_run_Some)
  then have "q' = map older (takeWhile ?P q @ dropWhile ?P q)" by (simp only: r(2) map_append up)
  then show ?thesis by simp
qed

lemma queue_ok_map_older: "queue_ok q \<Longrightarrow> queue_ok (map older q)"
  by (induction q) (auto simp: queue_ok_simps older_def; force)+

lemma fst_older [simp]: "fst (older e) = fst e"
  by (simp add: older_def)

lemma reset_queues_Some:
  "reset_queues qs = Some qs' \<Longrightarrow> map fst qs' = map fst qs
     \<and> (\<forall>dc q'. flat_get qs' dc = Some q' \<longrightarrow> (\<exists>q. flat_get qs dc = Some q \<and> queue_reset_generation q = Some q'))"
proof (induction qs arbitrary: qs' rule: reset_queues.induct)
  case (2 dc q rest)
  then obtain q1 rest1 where "queue_reset_generation q = Some q1" "reset_queues rest = Some rest1" "qs' = (dc, q1) # rest1"
    by (auto simp: bind_eq_Some_conv)
  then show ?case using 2 by (simp add: flat_get_Cons)
qed simp

lemma reset_queues_ok:
  assumes ok: "queues_ok qs m" and op: "reset_queues qs = Some qs'"
  shows "queues_ok qs' m"
  unfolding queues_ok_def
proof (intro conjI allI impI)
  show "flat_map_ok qs'" using ok reset_queues_Some [OF op] by (simp add: queues_ok_def)
next
  fix dc q' assume "flat_get qs' dc = Some q'"
  then obtain q where q: "flat_get qs dc = Some q" "queue_reset_generation q = Some q'"
    using reset_queues_Some [OF op] by blast
  then have "queue_ok q" using ok by (simp add: queues_ok_def)
  then show "queue_ok q'" using queue_reset_generation_Some [OF _ q(2)] queue_ok_map_older by simp
next
  fix dc q' assume "flat_get qs' dc = Some q'"
  then obtain q where q: "flat_get qs dc = Some q" "queue_reset_generation q = Some q'"
    using reset_queues_Some [OF op] by blast
  then have "q' = map older q" using ok queue_reset_generation_Some by (auto simp: queues_ok_def)
  then have "fst ` set q' = fst ` set q" by (simp add: image_image)
  then show "\<forall>t \<in> fst ` set q'. \<exists>task. flat_get m t = Some task \<and> dt_dc task = dc"
    using ok q(1) by (simp add: queues_ok_def)
qed

lemma reset_generation_keeps [keeps]:
  "reset_generation s = Some s' \<Longrightarrow> downloads_inv no_extra s \<longrightarrow> downloads_inv no_extra s'"
  by (auto simp: reset_generation_def downloads_inv_def intro: reset_queues_ok)

section \<open>Killing sessions\<close>

lemma requested_zero_counts:
  assumes acc: "accounts_ok no_extra bs m" and get: "flat_get bs dc = Some b"
    and zero: "\<forall>y \<in> set (db_sessions b). sb_requested y = 0"
  shows "sent_count dc i m = 0"
proof (cases "i < length (db_sessions b)")
  case True
  then have "sb_requested (db_sessions b ! i) = download_part_size * sent_count dc i m"
    using accounts_at(1) [OF acc get] by simp
  then show ?thesis using zero True by (simp add: download_part_size_def)
next
  case False
  then show ?thesis using accounts_at(2) [OF acc get] by simp
qed

lemma kill_dc_sessions_spec:
  assumes inv: "downloads_inv no_extra s" and op: "kill_dc_sessions dc s = Some s'"
  shows "downloads_inv no_extra s' \<and> dw_kill_when s' = dw_kill_when s \<and> dw_now s' = dw_now s
     \<and> dw_tasks s' = dw_tasks s \<and> dw_queues s' = dw_queues s"
proof (cases "flat_get (dw_balance s) dc")
  case None
  then show ?thesis using inv op by (simp add: kill_dc_sessions_def)
next
  case (Some b)
  let ?new = "new_dc_balance\<lparr> db_sessions := map (\<lambda>_. new_session_balance) (db_sessions b) \<rparr>"
  have s': "s' = (set_balance dc ?new s)\<lparr> dw_log := dw_log s @ map (SessionStopped dc) [0..<length (db_sessions b)] \<rparr>"
    and zero: "db_total b = 0" "\<forall>y \<in> set (db_sessions b). sb_requested y = 0"
    using op Some by (auto simp: kill_dc_sessions_def split: if_splits)
  have acc: "accounts_ok no_extra (dw_balance s) (dw_tasks s)" using inv by (simp add: downloads_inv_def)
  have "map sb_requested (db_sessions ?new) = map sb_requested (db_sessions b) @ []"
    using zero(2) by (simp add: new_session_balance_def)
  moreover have "balance_ok ?new"
    using acc Some balance_ok_new by (auto simp: accounts_ok_def balance_ok_def)
  ultimately have "accounts_ok no_extra (flat_put dc ?new (dw_balance s)) (dw_tasks s)"
    using accounts_ok_grow [OF acc Some, of ?new "[]"] zero(1) by (simp add: new_dc_balance_def)
  then show ?thesis using inv by (simp add: s' downloads_inv_def kill_ok_def)
qed

lemma kill_due_spec:
  assumes "kill_due left ks s = Some (l, kept, s')" and "downloads_inv no_extra s"
  shows "downloads_inv no_extra s' \<and> dw_kill_when s' = dw_kill_when s \<and> dw_now s' = dw_now s
     \<and> dw_tasks s' = dw_tasks s \<and> kept = filter (\<lambda>(_, at). \<not> at \<le> dw_now s) ks"
  using assms
proof (induction left ks s arbitrary: l kept s' rule: kill_due.induct)
  case (2 left dc at rest s)
  show ?case
  proof (cases "at \<le> dw_now s")
    case True
    then obtain s1 where s1: "kill_dc_sessions dc s = Some s1" "kill_due left rest s1 = Some (l, kept, s')"
      using 2(3) by (auto split: option.splits)
    then show ?thesis using 2(1) [OF True s1] kill_dc_sessions_spec [OF 2(4) s1(1)] True by simp
  next
    case False
    let ?left = "if at - dw_now s < left then at - dw_now s else left"
    obtain k where k: "kill_due ?left rest s = Some (l, k, s')" "kept = (dc, at) # k"
      using 2(3) False by auto
    then show ?thesis using 2(2) [OF False k(1) 2(4)] False by simp
  qed
qed simp

lemma kill_sessions_keeps [keeps]:
  "kill_sessions s = Some s' \<Longrightarrow> downloads_inv no_extra s \<longrightarrow> downloads_inv no_extra s'"
proof
  assume op: "kill_sessions s = Some s'" and inv: "downloads_inv no_extra s"
  obtain l kept s1 where due: "kill_due kill_session_timeout (dw_kill_when s) s = Some (l, kept, s1)"
    and s': "s' = s1\<lparr> dw_kill_when := kept, dw_kill_timer := (if kept \<noteq> [] then Some (dw_now s + l) else dw_kill_timer s1) \<rparr>"
    using op by (auto simp: kill_sessions_def)
  note spec = kill_due_spec [OF due inv]
  have "flat_map_ok kept"
    using spec inv by (auto simp: downloads_inv_def kill_ok_def sorted_wrt_map sorted_wrt_filter)
  moreover have "flat_get (dw_kill_when s) d \<noteq> None" if "flat_get kept d \<noteq> None" for d
  proof -
    have "kept = filter (\<lambda>(_, at). \<not> at \<le> dw_now s) (dw_kill_when s)" using spec by simp
    then show ?thesis using that by (auto simp: flat_get_keys)
  qed
  ultimately show "downloads_inv no_extra s'"
    using spec inv by (auto simp: s' downloads_inv_def kill_ok_def)
qed

section \<open>Removing a session\<close>

lemma accounts_ok_same:
  assumes ok: "accounts_ok x bs m" and get: "flat_get bs dc = Some b" and bok: "balance_ok b'"
    and req: "map sb_requested (db_sessions b') = map sb_requested (db_sessions b)"
    and total: "db_total b' = db_total b"
  shows "accounts_ok x (flat_put dc b' bs) m"
proof -
  have len: "length (db_sessions b') = length (db_sessions b)" using arg_cong [OF req, of length] by simp
  have req': "sb_requested (db_sessions b' ! i) = sb_requested (db_sessions b ! i)" if "i < length (db_sessions b)" for i
    using that len req by (metis nth_map)
  have old: "\<And>i. i < length (db_sessions b) \<Longrightarrow> sb_requested (db_sessions b ! i) = download_part_size * sent_count dc i m + x dc i"
    "\<And>i. length (db_sessions b) \<le> i \<Longrightarrow> sent_count dc i m = 0"
    "db_total b = download_part_size * sent_total dc m"
    using accounts_at [OF ok get] by simp_all
  show ?thesis using ok bok old req' len total unfolding accounts_ok_def by (auto simp: not_less)
qed

text \<open>The sessions of every datacenter stay as many while requests are cancelled and made.\<close>

definition session_count :: "downloads \<Rightarrow> int \<Rightarrow> nat" where
  "session_count s dc = length (sessions_of (dw_balance s) dc)"

lemma session_count_simps [simp]:
  "session_count (log_event e s) = session_count s" "session_count (set_task t task s) = session_count s"
  "session_count (s\<lparr> dw_deferred := ds \<rparr>) = session_count s"
  "session_count (s\<lparr> dw_next_request := n \<rparr>) = session_count s"
  "session_count (kill_sessions_cancel dc s) = session_count s"
  "session_count (kill_sessions_schedule dc s) = session_count s"
  by (simp_all add: session_count_def fun_eq_iff)

lemma change_requested_amount_count:
  "change_requested_amount dc i d s = Some (a, s1) \<Longrightarrow> session_count s1 = session_count s"
  by (auto simp: change_requested_amount_Some Let_def session_count_def fun_eq_iff change_session_def sessions_of_get
      split: if_splits)

lemma make_request_count: "make_request t r s = Some s' \<Longrightarrow> session_count s' = session_count s"
  by (auto simp: make_request_def send_request_def send_kind_Some place_sent_request_def bind_eq_Some_conv
      dest!: change_requested_amount_count split: option.splits if_splits)

lemma finish_sent_request_count:
  "finish_sent_request t rid reason s = Some (r, s') \<Longrightarrow> reason \<noteq> FinishSuccess \<Longrightarrow> session_count s' = session_count s"
  by (auto simp: finish_sent_request_def bind_eq_Some_conv dest!: change_requested_amount_count split: if_splits)

lemma cancel_request_count: "cancel_request t rid s = Some s' \<Longrightarrow> session_count s' = session_count s"
  by (auto simp: cancel_request_def bind_eq_Some_conv dest!: finish_sent_request_count)

text \<open>Moving the requests of a session elsewhere keeps the accounts with the reserve in them, and the
  number of sessions.\<close>

definition keeps_reserve :: "extra \<Rightarrow> downloads \<Rightarrow> downloads \<Rightarrow> bool" where
  "keeps_reserve x s s' \<longleftrightarrow> (downloads_inv x s \<longrightarrow> downloads_inv x s') \<and> session_count s' = session_count s"

lemma keeps_reserve_refl [simp]: "keeps_reserve x s s"
  by (simp add: keeps_reserve_def)

lemma keeps_reserve_trans: "keeps_reserve x s1 s2 \<Longrightarrow> keeps_reserve x s2 s3 \<Longrightarrow> keeps_reserve x s1 s3"
  by (simp add: keeps_reserve_def)

lemma redirect_requests_reserve:
  assumes "\<And>d j. 0 \<le> x d j"
  shows "redirect_requests t i rs s = Some s' \<Longrightarrow> keeps_reserve x s s'"
proof (induction t i rs s rule: redirect_requests.induct)
  case (2 t i rid offset rest s)
  then obtain task s1 s2 where s1: "flat_get (dw_tasks s) t = Some task" "cancel_request t rid s = Some s1"
      and s2: "(if rid \<noteq> dt_hashes_request task
           then do { j \<leftarrow> choose_session_index (dt_dc task) s1;
                     if \<not> j < i then None else make_request t (new_request offset j) s1 }
           else Some s1) = Some s2"
      and rest: "redirect_requests t i rest s2 = Some s'"
    by (auto simp: bind_eq_Some_conv)
  have "keeps_reserve x s s1"
    using cancel_request_inv_extra [OF _ assms s1(2)] cancel_request_count [OF s1(2)] by (simp add: keeps_reserve_def)
  moreover have "keeps_reserve x s1 s2"
    using s2 make_request_inv_extra make_request_count
    by (auto simp: keeps_reserve_def bind_eq_Some_conv split: if_splits)
  moreover have "keeps_reserve x s2 s'" using 2(1) [OF s1 s2 rest] .
  ultimately show ?case by (metis keeps_reserve_trans)
qed simp

lemma task_remove_session_reserve:
  assumes nonneg: "\<And>d j. 0 \<le> x d j" and op: "task_remove_session i t s = Some s'"
  shows "keeps_reserve x s s'"
proof -
  obtain task u where get: "flat_get (dw_tasks s) t = Some task"
      and rest: "redirect_requests t i (sent_in_session i task) (set_task t (task\<lparr> dt_unchecked := u \<rparr>) s) = Some s'"
    using op by (auto simp: task_remove_session_def bind_eq_Some_conv)
  have "keeps_reserve x s (set_task t (task\<lparr> dt_unchecked := u \<rparr>) s)" using get by (simp add: keeps_reserve_def)
  then show ?thesis using redirect_requests_reserve [OF nonneg rest] by (rule keeps_reserve_trans)
qed

lemma queue_remove_session_reserve:
  assumes "\<And>d j. 0 \<le> x d j"
  shows "queue_remove_session i q s = Some s' \<Longrightarrow> keeps_reserve x s s'"
proof (induction i q s rule: queue_remove_session.induct)
  case (2 i t p q s)
  then obtain s1 where s1: "task_remove_session i t s = Some s1" "queue_remove_session i q s1 = Some s'"
    by (auto simp: bind_eq_Some_conv)
  show ?case using task_remove_session_reserve [OF assms s1(1)] 2(1) [OF s1] by (rule keeps_reserve_trans)
qed simp

definition reserve_extra :: "int \<Rightarrow> nat \<Rightarrow> extra" where
  "reserve_extra dc i = (\<lambda>d j. if d = dc \<and> j = i then redirect_reserve else 0)"

lemma redirect_reserve_nonneg: "0 \<le> redirect_reserve"
  by (simp add: redirect_reserve_def max_waited_in_session_def download_part_size_def)

lemma note_session_removed_fields [simp]:
  "db_sessions (note_session_removed i b) = db_sessions b" "db_total (note_session_removed i b) = db_total b"
  "balance_ok b \<Longrightarrow> balance_ok (note_session_removed i b)"
  by (auto simp: note_session_removed_def balance_ok_def max_tracked_session_removes_def)

lemma accounts_ok_reserve:
  assumes acc: "accounts_ok no_extra bs m" and get: "flat_get bs dc = Some b" and i: "i < length (db_sessions b)"
    and c: "balance_ok c" "db_sessions c = db_sessions b" "db_total c = db_total b"
  shows "accounts_ok (reserve_extra dc i) (flat_put dc (reserve_session i c) bs) m"
proof -
  have bok: "balance_ok (reserve_session i c)"
    using balance_ok_change [OF c(1), of i redirect_reserve] i c(2)
    by (simp add: balance_ok_def change_session_def reserve_session_def)
  have old: "\<And>j. j < length (db_sessions b) \<Longrightarrow> sb_requested (db_sessions b ! j) = download_part_size * sent_count dc j m"
    "\<And>j. length (db_sessions b) \<le> j \<Longrightarrow> sent_count dc j m = 0"
    "db_total b = download_part_size * sent_total dc m"
    using accounts_at [OF acc get] by simp_all
  have "sb_requested (db_sessions (reserve_session i c) ! j) = download_part_size * sent_count dc j m + reserve_extra dc i dc j"
    if "j < length (db_sessions (reserve_session i c))" for j
    using that old(1) i c(2) by (cases "j = i") (simp_all add: reserve_session_def add_requested_def reserve_extra_def)
  moreover have "reserve_extra dc i d j = 0" if "d \<noteq> dc" for d j using that by (simp add: reserve_extra_def)
  ultimately show ?thesis
    using acc bok old c unfolding accounts_ok_def by (auto simp: reserve_session_def)
qed

lemma last_session_free:
  assumes acc: "accounts_ok (reserve_extra dc i) bs m" and get: "flat_get bs dc = Some b"
    and len: "length (db_sessions b) = Suc i" and req: "sb_requested (last (db_sessions b)) = redirect_reserve"
  shows "sent_count dc i m = 0"
proof -
  have "last (db_sessions b) = db_sessions b ! i" using len by (metis diff_Suc_1 last_conv_nth length_0_conv nat.distinct(1))
  moreover have "sb_requested (db_sessions b ! i) = download_part_size * sent_count dc i m + redirect_reserve"
    using accounts_at(1) [OF acc get, of i] len by (simp add: reserve_extra_def)
  ultimately show ?thesis using req by (simp add: download_part_size_def)
qed

lemma accounts_ok_pop:
  assumes acc: "accounts_ok (reserve_extra dc i) bs m" and get: "flat_get bs dc = Some b"
    and len: "length (db_sessions b) = Suc i" "start_sessions_count \<le> i"
    and req: "sb_requested (last (db_sessions b)) = redirect_reserve"
  shows "accounts_ok no_extra (flat_put dc (b\<lparr> db_sessions := butlast (db_sessions b), db_last_remove := now \<rparr>) bs) m"
proof -
  have free: "sent_count dc i m = 0" using last_session_free [OF acc get len(1) req] .
  have "balance_ok b" using acc get by (auto simp: accounts_ok_def)
  then have bok: "balance_ok (b\<lparr> db_sessions := butlast (db_sessions b), db_last_remove := now \<rparr>)"
    using len by (auto simp: balance_ok_def dest: in_set_butlastD)
  have old: "\<And>j. j < i \<Longrightarrow> sb_requested (db_sessions b ! j) = download_part_size * sent_count dc j m"
    "\<And>j. Suc i \<le> j \<Longrightarrow> sent_count dc j m = 0" "db_total b = download_part_size * sent_total dc m"
    using accounts_at [OF acc get] len(1) by (simp_all add: reserve_extra_def)
  have rest: "reserve_extra dc i d j = 0" if "d \<noteq> dc" for d j using that by (simp add: reserve_extra_def)
  have "sent_count dc j m = 0" if "i \<le> j" for j using that free old(2) [of j] by (cases "j = i") auto
  then show ?thesis
    using acc bok old rest len(1) unfolding accounts_ok_def by (auto simp: nth_butlast)
qed

lemma queues_ok_set_same: "queues_ok (dw_queues s) m \<Longrightarrow> queues_ok (flat_put dc (queue_of dc s) (dw_queues s)) m"
  by (cases "flat_get (dw_queues s) dc") (auto simp: queues_ok_def queue_of_def queue_ok_simps flat_put_get)

lemma session_reserve_inv:
  assumes inv: "downloads_inv no_extra s" and get: "flat_get (dw_balance s) dc = Some b" and i: "i < length (db_sessions b)"
  shows "downloads_inv (reserve_extra dc i)
    (set_queue dc (queue_of dc s) (set_balance dc (reserve_session i (note_session_removed (int i) b)) s))"
proof -
  have acc: "accounts_ok no_extra (dw_balance s) (dw_tasks s)" using inv by (simp add: downloads_inv_def)
  have "balance_ok b" using acc get by (auto simp: accounts_ok_def)
  then have "accounts_ok (reserve_extra dc i) (flat_put dc (reserve_session i (note_session_removed (int i) b)) (dw_balance s)) (dw_tasks s)"
    using accounts_ok_reserve [OF acc get i] by simp
  then show ?thesis
    using inv by (simp add: set_queue_def downloads_inv_def kill_ok_def queues_ok_set_same)
qed

lemma remove_session_keeps [keeps]:
  assumes op: "remove_session dc s = Some s'"
  shows "downloads_inv no_extra s \<longrightarrow> downloads_inv no_extra s'"
proof
  assume inv: "downloads_inv no_extra s"
  define i where "i = length (db_sessions (balance_of dc s)) - 1"
  have long: "length (db_sessions (balance_of dc s)) > start_sessions_count"
    using op by (auto simp: remove_session_def Let_def split: if_splits)
  then obtain b where b: "flat_get (dw_balance s) dc = Some b" "balance_of dc s = b"
    by (auto simp: balance_of_def new_dc_balance_def split: option.splits)
  define s0 where "s0 = set_queue dc (queue_of dc s)
    (set_balance dc (reserve_session i (note_session_removed (int i) b)) s)"
  obtain s1 where s1: "queue_remove_session i (queue_of dc s) s0 = Some s1"
    and last: "sb_requested (last (db_sessions (balance_of dc s1))) = redirect_reserve"
    and s': "s' = log_event (SessionKilled dc i) (set_balance dc
        ((balance_of dc s1)\<lparr> db_sessions := butlast (db_sessions (balance_of dc s1)), db_last_remove := dw_now s1 \<rparr>) s1)"
    using op by (auto simp: remove_session_def Let_def b i_def s0_def bind_eq_Some_conv split: if_splits)
  have len: "length (db_sessions b) = Suc i" "start_sessions_count \<le> i" using long b by (simp_all add: i_def)
  have inv0: "downloads_inv (reserve_extra dc i) s0" unfolding s0_def by (rule session_reserve_inv [OF inv b(1)]) (use len in simp)
  have keep: "keeps_reserve (reserve_extra dc i) s0 s1"
    by (rule queue_remove_session_reserve [OF _ s1]) (simp add: reserve_extra_def redirect_reserve_nonneg)
  then have inv1: "downloads_inv (reserve_extra dc i) s1" using inv0 by (simp add: keeps_reserve_def)
  have "session_count s1 dc = Suc i"
    using keep len by (simp add: keeps_reserve_def session_count_def s0_def set_queue_def reserve_session_def)
  then obtain b1 where b1: "flat_get (dw_balance s1) dc = Some b1" "balance_of dc s1 = b1" "length (db_sessions b1) = Suc i"
    by (auto simp: session_count_def sessions_of_def balance_of_def split: option.splits)
  have "accounts_ok no_extra (flat_put dc (b1\<lparr> db_sessions := butlast (db_sessions b1), db_last_remove := dw_now s1 \<rparr>) (dw_balance s1)) (dw_tasks s1)"
    by (rule accounts_ok_pop [OF _ b1(1,3) len(2)]) (use inv1 last b1 in \<open>simp_all add: downloads_inv_def\<close>)
  then show "downloads_inv no_extra s'" using inv1 by (simp add: s' b1 downloads_inv_def kill_ok_def)
qed

lemma session_timed_out_keeps [keeps]:
  assumes op: "session_timed_out dc i s = Some s'"
  shows "downloads_inv no_extra s \<longrightarrow> downloads_inv no_extra s'"
proof
  assume inv: "downloads_inv no_extra s"
  have set: "downloads_inv no_extra (set_balance dc (b\<lparr> db_sessions := map clear_successes (db_sessions b), db_timeouts := n \<rparr>) s)"
    if b: "flat_get (dw_balance s) dc = Some b" and n: "0 \<le> n" "n < remove_session_after_timeouts" for b n
  proof -
    have acc: "accounts_ok no_extra (dw_balance s) (dw_tasks s)" using inv by (simp add: downloads_inv_def)
    have "balance_ok b" using acc b by (auto simp: accounts_ok_def)
    then have "balance_ok (b\<lparr> db_sessions := map clear_successes (db_sessions b), db_timeouts := n \<rparr>)"
      using n by (auto simp: balance_ok_def)
    from accounts_ok_same [OF acc b this] show ?thesis
      using inv by (simp add: downloads_inv_def kill_ok_def comp_def)
  qed
  show "downloads_inv no_extra s'"
  proof (cases "flat_get (dw_balance s) dc")
    case None
    then show ?thesis using op inv by (simp add: session_timed_out_def)
  next
    case (Some b)
    have t: "0 \<le> db_timeouts b" "db_timeouts b < remove_session_after_timeouts"
      using inv Some by (auto simp: downloads_inv_def accounts_ok_def balance_ok_def)
    have "downloads_inv no_extra (set_balance dc (b\<lparr> db_sessions := map clear_successes (db_sessions b) \<rparr>) s)"
      using set [OF Some t] by simp
    then show ?thesis
      using op inv Some t set [OF Some, of "db_timeouts b + 1"] set [OF Some, of 0]
      by (auto simp: session_timed_out_def Let_def remove_session_after_timeouts_def split: if_splits dest!: remove_session_keeps)
  qed
qed

end
