(* ===== verification/Download_Reach.thy ===== *)
theory Download_Reach
  imports Download_Accounting
begin

text \<open>
  Every call of a task and every step of the machine keeps the accounts of the download manager, so
  they hold in every state that can be reached; with them the bounds on the sessions.
\<close>

section \<open>The calls of a task\<close>

lemma cancel_requests_keeps [keeps]:
  "cancel_requests t rids s = Some s' \<Longrightarrow> downloads_inv no_extra s \<longrightarrow> downloads_inv no_extra s'"
proof (induction t rids s rule: cancel_requests.induct)
  case (2 t rid rids s)
  then obtain s1 where s1: "cancel_request t rid s = Some s1" "cancel_requests t rids s1 = Some s'"
    by (auto simp: bind_eq_Some_conv)
  then show ?case using 2(1) [OF s1] cancel_request_keeps [OF s1(1)] by blast
qed simp

lemma cancel_all_requests_keeps [keeps]:
  "cancel_all_requests t s = Some s' \<Longrightarrow> downloads_inv no_extra s \<longrightarrow> downloads_inv no_extra s'"
  by (auto simp: cancel_all_requests_def bind_eq_Some_conv dest!: keeps)

lemma cancel_request_for_offset_keeps [keeps]:
  "cancel_request_for_offset t offset s = Some s' \<Longrightarrow> downloads_inv no_extra s \<longrightarrow> downloads_inv no_extra s'"
  by (auto simp: cancel_request_for_offset_def bind_eq_Some_conv split: option.split_asm dest!: keeps)

lemma file_cancel_keeps [keeps]:
  "file_cancel t fail l s = Some s' \<Longrightarrow> downloads_inv no_extra s \<longrightarrow> downloads_inv no_extra s'"
  by (auto simp: file_cancel_def bind_eq_Some_conv dest!: keeps)

lemma preload_fail_keeps [keeps]:
  "preload_fail t p s = Some s' \<Longrightarrow> downloads_inv no_extra s \<longrightarrow> downloads_inv no_extra s'"
  by (auto simp: preload_fail_def bind_eq_Some_conv dest!: keeps)

lemma cancel_on_fail_keeps [keeps]:
  "cancel_on_fail t s = Some s' \<Longrightarrow> downloads_inv no_extra s \<longrightarrow> downloads_inv no_extra s'"
proof
  assume op: "cancel_on_fail t s = Some s'" and inv: "downloads_inv no_extra s"
  then obtain task where get: "flat_get (dw_tasks s) t = Some task" by (auto simp: cancel_on_fail_def bind_eq_Some_conv)
  show "downloads_inv no_extra s'"
    by (cases "dt_loader task") (use op get inv in \<open>auto simp: cancel_on_fail_def bind_eq_Some_conv Let_def split: if_split_asm dest!: keeps\<close>)
qed

lemma file_finish_inv [simp]: "downloads_inv x s \<Longrightarrow> downloads_inv x (file_finish t l s)"
  by (simp add: file_finish_def)

lemma finalize_result_keeps [keeps]:
  "finalize_result env t l s = Some (ok, s') \<Longrightarrow> downloads_inv no_extra s \<longrightarrow> downloads_inv no_extra s'"
  by (auto simp: finalize_result_def split: if_split_asm prod.splits bool.split_asm dest!: keeps)

lemma file_feed_part_keeps [keeps]:
  "file_feed_part env t offset buffer l s = Some (ok, s') \<Longrightarrow> downloads_inv no_extra s \<longrightarrow> downloads_inv no_extra s'"
  by (auto simp: file_feed_part_def bind_eq_Some_conv Let_def split: if_split_asm dest!: keeps)

lemma preload_feed_part_keeps [keeps]:
  "preload_feed_part t offset part p s = Some (ok, s') \<Longrightarrow> downloads_inv no_extra s \<longrightarrow> downloads_inv no_extra s'"
  by (auto simp: preload_feed_part_def bind_eq_Some_conv Let_def split: if_split_asm dest!: keeps)

lemma feed_part_keeps [keeps]:
  "feed_part env t offset part s = Some (ok, s') \<Longrightarrow> downloads_inv no_extra s \<longrightarrow> downloads_inv no_extra s'"
proof
  assume op: "feed_part env t offset part s = Some (ok, s')" and inv: "downloads_inv no_extra s"
  then obtain task where get: "flat_get (dw_tasks s) t = Some task" by (auto simp: feed_part_def bind_eq_Some_conv)
  show "downloads_inv no_extra s'"
    by (cases "dt_loader task") (use op get inv in \<open>auto simp: feed_part_def bind_eq_Some_conv Let_def split: if_split_asm dest!: keeps\<close>)
qed

lemma part_loaded_keeps [keeps]:
  "part_loaded env t offset part s = Some s' \<Longrightarrow> downloads_inv no_extra s \<longrightarrow> downloads_inv no_extra s'"
  by (auto simp: part_loaded_def dest!: keeps)

text \<open>A request placed with a number just taken.\<close>

lemma send_and_place_inv:
  assumes inv: "downloads_inv no_extra s" and send: "send_kind t kind dc r s = Some (rid, s1)"
    and place: "place_sent_request t rid r' s2 = Some s'"
    and s2: "downloads_inv no_extra s1 \<Longrightarrow> downloads_inv no_extra s2" "dw_next_request s2 = dw_next_request s1"
  shows "downloads_inv no_extra s'"
proof -
  have "downloads_inv no_extra s1" "0 < rid" "rid < dw_next_request s1"
    using send inv inv_next_request [OF inv] inv_next_positive [OF inv] by (auto simp: send_kind_Some)
  then show ?thesis using place_sent_request_inv [OF s2(1) place] s2(2) by simp
qed

lemma request_more_hashes_keeps [keeps]:
  assumes "request_more_hashes t s = Some s'"
  shows "downloads_inv no_extra s \<longrightarrow> downloads_inv no_extra s'"
proof
  assume inv: "downloads_inv no_extra s"
  show "downloads_inv no_extra s'"
  proof (cases "s' = s")
    case False
    then obtain task r rid s1 where get: "flat_get (dw_tasks s) t = Some task"
        and send: "send_kind t (GetCdnHashes (dt_cdn_token task)) (dt_dc task) r s = Some (rid, s1)"
        and place: "place_sent_request t rid r (set_task t (task\<lparr> dt_hashes_request := rid \<rparr>) s1) = Some s'"
      using assms by (auto simp: request_more_hashes_def bind_eq_Some_conv split: option.split_asm if_split_asm list.splits prod.splits)
    have "dw_tasks s1 = dw_tasks s" using send by (simp add: send_kind_Some)
    with get show ?thesis by (intro send_and_place_inv [OF inv send place]) simp_all
  qed (use inv in simp)
qed

lemma finish_all_keeps [keeps]:
  "finish_all t rids s = Some (rs, s') \<Longrightarrow> downloads_inv no_extra s \<longrightarrow> downloads_inv no_extra s'"
proof (induction t rids s arbitrary: rs rule: finish_all.induct)
  case (2 t rid rids s)
  then obtain r s1 rs' where s1: "finish_sent_request t rid FinishRedirect (log_event (CancelledRequest rid) s) = Some (r, s1)"
      "finish_all t rids s1 = Some (rs', s')" by (auto simp: bind_eq_Some_conv)
  then show ?case using 2(1) [OF s1(1) refl s1(2)] finish_sent_request_keeps [OF s1(1)] by simp
qed simp

lemma make_requests_keeps [keeps]:
  "make_requests t rs s = Some s' \<Longrightarrow> downloads_inv no_extra s \<longrightarrow> downloads_inv no_extra s'"
proof (induction t rs s rule: make_requests.induct)
  case (2 t r rs s)
  then obtain s1 where s1: "make_request t r s = Some s1" "make_requests t rs s1 = Some s'"
    by (auto simp: bind_eq_Some_conv)
  then show ?case using 2(1) [OF s1] make_request_keeps [OF s1(1)] by blast
qed simp

lemma change_cdn_params_keeps [keeps]:
  "change_cdn_params t r c hashes s = Some s' \<Longrightarrow> downloads_inv no_extra s \<longrightarrow> downloads_inv no_extra s'"
  by (auto simp: change_cdn_params_def bind_eq_Some_conv Let_def split: if_split_asm dest!: keeps)

lemma check_after_success_keeps [keeps]:
  "check_send_next_after_success dc s = Some s' \<Longrightarrow> downloads_inv no_extra s \<longrightarrow> downloads_inv no_extra s'"
  by (auto simp: check_send_next_after_success_def dest!: keeps)

lemma normal_part_loaded_keeps [keeps]:
  "normal_part_loaded env t rid answer s = Some s' \<Longrightarrow> downloads_inv no_extra s \<longrightarrow> downloads_inv no_extra s'"
  by (cases answer) (auto simp: normal_part_loaded_def bind_eq_Some_conv dest!: keeps)

lemma set_web_file_size_keeps [keeps]:
  "set_web_file_size t n s = Some (ok, s') \<Longrightarrow> downloads_inv no_extra s \<longrightarrow> downloads_inv no_extra s'"
proof
  assume op: "set_web_file_size t n s = Some (ok, s')" and inv: "downloads_inv no_extra s"
  then obtain task where get: "flat_get (dw_tasks s) t = Some task" by (auto simp: set_web_file_size_def bind_eq_Some_conv)
  show "downloads_inv no_extra s'"
    by (cases "dt_loader task") (use op get inv in \<open>auto simp: set_web_file_size_def bind_eq_Some_conv Let_def split: if_split_asm dest!: keeps\<close>)
qed

lemma web_part_loaded_keeps [keeps]:
  "web_part_loaded env t rid n part s = Some s' \<Longrightarrow> downloads_inv no_extra s \<longrightarrow> downloads_inv no_extra s'"
  by (auto simp: web_part_loaded_def bind_eq_Some_conv split: if_split_asm dest!: keeps)

lemma cdn_part_loaded_keeps [keeps]:
  assumes op: "cdn_part_loaded env t rid answer s = Some s'"
  shows "downloads_inv no_extra s \<longrightarrow> downloads_inv no_extra s'"
proof
  assume inv: "downloads_inv no_extra s"
  show "downloads_inv no_extra s'"
  proof (cases answer)
    case (ReuploadNeeded token)
    then obtain r s1 kind dc rid1 s2 where "finish_sent_request t rid FinishRedirect s = Some (r, s1)"
        "send_kind t kind dc r s1 = Some (rid1, s2)" "place_sent_request t rid1 r s2 = Some s'"
      using op by (auto simp: cdn_part_loaded_def bind_eq_Some_conv)
    then show ?thesis using inv send_and_place_inv [of s1] by (auto dest!: finish_sent_request_keeps)
  next
    case (CdnBytes part)
    then show ?thesis using op inv
      by (auto simp: cdn_part_loaded_def bind_eq_Some_conv Let_def split: hash_check.split_asm if_split_asm dest!: keeps)
  qed
qed

lemma reupload_done_keeps [keeps]:
  "reupload_done t rid hashes s = Some s' \<Longrightarrow> downloads_inv no_extra s \<longrightarrow> downloads_inv no_extra s'"
  by (auto simp: reupload_done_def bind_eq_Some_conv dest!: keeps)

lemma check_unchecked_keeps [keeps]:
  "check_unchecked env t us checked s = Some (flag, s') \<Longrightarrow> downloads_inv no_extra s \<longrightarrow> downloads_inv no_extra s'"
proof (induction env t us checked s arbitrary: flag s' rule: check_unchecked.induct)
  case (2 env t offset r part rest checked s)
  from 2(3) obtain task where get: "flat_get (dw_tasks s) t = Some task" by (auto simp: bind_eq_Some_conv)
  show ?case
  proof (cases "check_cdn_hash env offset part task")
    case NoHash
    with 2 get show ?thesis by simp
  next
    case InvalidHash
    with 2(3) get show ?thesis by (auto dest!: keeps)
  next
    case GoodHash
    with 2(3) get obtain ok s1 where feed: "feed_part env t offset part
          (set_task t (task\<lparr> dt_unchecked := flat_del offset (dt_unchecked task) \<rparr>) s) = Some (ok, s1)"
        and rest: "(if ok then check_unchecked env t rest True s1 else Some (None, s1)) = Some (flag, s')"
      by (auto simp: bind_eq_Some_conv)
    have "downloads_inv no_extra s \<longrightarrow> downloads_inv no_extra s1" using feed_part_keeps [OF feed] get by simp
    then show ?thesis using rest 2(2) [OF get GoodHash feed] by (cases ok) auto
  qed
qed simp

lemma get_cdn_hashes_done_keeps [keeps]:
  "get_cdn_hashes_done env t rid hashes s = Some s' \<Longrightarrow> downloads_inv no_extra s \<longrightarrow> downloads_inv no_extra s'"
proof
  assume op: "get_cdn_hashes_done env t rid hashes s = Some s'" and inv: "downloads_inv no_extra s"
  then obtain r s1 us checked s3 where finish: "finish_sent_request t rid FinishRedirect s = Some (r, s1)"
      and check: "check_unchecked env t us False (update_task t (add_cdn_hashes hashes) s1) = Some (checked, s3)"
      and rest: "(case checked of None \<Rightarrow> Some s3 | Some False \<Rightarrow> cancel_on_fail t s3 | Some True \<Rightarrow> request_more_hashes t s3) = Some s'"
    by (auto simp: get_cdn_hashes_done_def bind_eq_Some_conv Let_def split: if_split_asm)
  have "downloads_inv no_extra s1" using finish_sent_request_keeps [OF finish] inv by simp
  then have "downloads_inv no_extra s3" using check_unchecked_keeps [OF check] by simp
  then show "downloads_inv no_extra s'"
    using rest cancel_on_fail_keeps request_more_hashes_keeps by (cases checked) (auto split: bool.split_asm)
qed

lemma part_failed_keeps [keeps]:
  "part_failed t e s = Some s' \<Longrightarrow> downloads_inv no_extra s \<longrightarrow> downloads_inv no_extra s'"
  by (auto simp: part_failed_def split: if_split_asm dest!: keeps)

lemma normal_part_failed_keeps [keeps]:
  "normal_part_failed t reference e rid s = Some s' \<Longrightarrow> downloads_inv no_extra s \<longrightarrow> downloads_inv no_extra s'"
  by (auto simp: normal_part_failed_def split: if_split_asm dest!: keeps)

lemma cdn_part_failed_keeps [keeps]:
  "cdn_part_failed t e rid s = Some s' \<Longrightarrow> downloads_inv no_extra s \<longrightarrow> downloads_inv no_extra s'"
  by (auto simp: cdn_part_failed_def bind_eq_Some_conv split: if_split_asm dest!: keeps)

lemma refresh_file_reference_keeps [keeps]:
  "refresh_file_reference t updated rid current s = Some s' \<Longrightarrow> downloads_inv no_extra s \<longrightarrow> downloads_inv no_extra s'"
proof
  assume op: "refresh_file_reference t updated rid current s = Some s'" and inv: "downloads_inv no_extra s"
  then obtain task where get: "flat_get (dw_tasks s) t = Some task" by (auto simp: refresh_file_reference_def bind_eq_Some_conv)
  show "downloads_inv no_extra s'"
    by (cases "dt_location task") (use op get inv in \<open>auto simp: refresh_file_reference_def bind_eq_Some_conv Let_def split: if_split_asm dest!: keeps\<close>)
qed

section \<open>What a call does to the tasks\<close>

lemma request_succeeded_fields:
  "request_succeeded dc i a started s = Some s' \<Longrightarrow>
     dw_tasks s' = dw_tasks s \<and> dw_queues s' = dw_queues s \<and> dw_now s' = dw_now s \<and> dw_next_request s' = dw_next_request s"
  by (auto simp: request_succeeded_def split: option.splits if_splits)

lemma finish_sent_request_effect:
  assumes "finish_sent_request t rid reason s = Some (r, s')"
  shows "\<exists>task. flat_get (dw_tasks s) t = Some task \<and> flat_get (dt_sent task) rid = Some r
     \<and> dw_tasks s' = flat_put t (drop_sent rid r task) (dw_tasks s) \<and> dw_queues s' = dw_queues s
     \<and> dw_now s' = dw_now s \<and> dw_next_request s' = dw_next_request s"
proof (rule finish_sent_request_unfold [OF assms])
  fix task b s1
  assume get: "flat_get (dw_tasks s) t = Some task" "flat_get (dt_sent task) rid = Some r"
    and s1: "s1 = (let s2 = set_balance (dt_dc task) (change_session (rd_session r) (- download_part_size) b) s
               in if \<not> (\<exists>y \<in> set (db_sessions (change_session (rd_session r) (- download_part_size) b)). sb_requested y > 0)
                  then kill_sessions_schedule (dt_dc task) s2 else s2)"
    and s': "(if reason = FinishSuccess
          then request_succeeded (dt_dc task) (rd_session r) (rd_amount r) (rd_sent r) (set_task t (drop_sent rid r task) s1)
          else Some (set_task t (drop_sent rid r task) s1)) = Some s'"
  have "dw_tasks s1 = dw_tasks s" "dw_queues s1 = dw_queues s" "dw_now s1 = dw_now s" "dw_next_request s1 = dw_next_request s"
    by (simp_all add: s1 Let_def)
  then show ?thesis using get s' request_succeeded_fields by (fastforce split: if_splits)
qed

lemma place_sent_request_effect:
  assumes "place_sent_request t rid r s = Some s'"
  shows "\<exists>task a. flat_get (dw_tasks s) t = Some task \<and> flat_get (dt_sent task) rid = None
     \<and> flat_get (dt_by_offset task) (rd_offset r) = None
     \<and> dw_tasks s' = flat_put t (add_sent rid (r\<lparr> rd_amount := a, rd_sent := dw_now s \<rparr>) task) (dw_tasks s)
     \<and> dw_queues s' = dw_queues s \<and> dw_now s' = dw_now s \<and> dw_next_request s' = dw_next_request s"
  using assms by (auto simp: place_sent_request_def bind_eq_Some_conv change_requested_amount_Some download_part_size_def Let_def
      split: if_split_asm)

lemma make_request_effect:
  assumes "make_request t r s = Some s'"
  shows "\<exists>task a. flat_get (dw_tasks s) t = Some task
     \<and> flat_get (dt_by_offset task) (rd_offset r) = None
     \<and> dw_tasks s' = flat_put t (add_sent (dw_next_request s) (r\<lparr> rd_amount := a, rd_sent := dw_now s \<rparr>) task) (dw_tasks s)
     \<and> dw_queues s' = dw_queues s \<and> dw_now s' = dw_now s \<and> dw_next_request s' = dw_next_request s + 1"
proof -
  obtain rid s1 where "send_request t r s = Some (rid, s1)" and place: "place_sent_request t rid r s1 = Some s'"
    using assms by (auto simp: make_request_def bind_eq_Some_conv)
  then have "rid = dw_next_request s" "dw_tasks s1 = dw_tasks s" "dw_queues s1 = dw_queues s" "dw_now s1 = dw_now s"
      "dw_next_request s1 = dw_next_request s + 1"
    by (auto simp: send_request_def send_kind_Some split: option.split_asm)
  then show ?thesis using place_sent_request_effect [OF place] by auto
qed

lemma cancel_request_effect:
  assumes "cancel_request t rid s = Some s'"
  shows "\<exists>task r. flat_get (dw_tasks s) t = Some task \<and> flat_get (dt_sent task) rid = Some r
     \<and> dw_tasks s' = flat_put t (drop_sent rid r task) (dw_tasks s) \<and> dw_queues s' = dw_queues s
     \<and> dw_now s' = dw_now s \<and> dw_next_request s' = dw_next_request s"
proof -
  obtain task r s1 where get: "flat_get (dw_tasks s) t = Some task"
      and finish: "finish_sent_request t rid FinishCancel (log_event (CancelledRequest rid) s) = Some (r, s1)"
      and s': "s' = s1 \<or> s' = s1\<lparr> dw_deferred := dw_deferred s1 @ [MoreHashes t] \<rparr>"
    using assms by (auto simp: cancel_request_def bind_eq_Some_conv split: if_split_asm)
  show ?thesis using finish_sent_request_effect [OF finish] s' by auto
qed

text \<open>Cancelling a list of requests leaves the others of the task.\<close>

lemma cancel_requests_effect:
  assumes "cancel_requests t rids s = Some s'" and "flat_get (dw_tasks s) t = Some task"
  shows "\<exists>task'. flat_get (dw_tasks s') t = Some task' \<and> dt_sent task' = filter (\<lambda>(rid, _). rid \<notin> set rids) (dt_sent task)
     \<and> dt_dc task' = dt_dc task \<and> dt_loader task' = dt_loader task \<and> dt_unchecked task' = dt_unchecked task
     \<and> dw_queues s' = dw_queues s"
  using assms
proof (induction t rids s arbitrary: task rule: cancel_requests.induct)
  case (1 t s)
  then show ?case by (auto simp: filter_id_conv)
next
  case (2 t rid rids s)
  obtain s1 where s1: "cancel_request t rid s = Some s1" "cancel_requests t rids s1 = Some s'"
    using 2(2) by (auto simp: bind_eq_Some_conv)
  obtain r where r: "dw_tasks s1 = flat_put t (drop_sent rid r task) (dw_tasks s)" "dw_queues s1 = dw_queues s"
    using cancel_request_effect [OF s1(1)] 2(3) by auto
  then have "flat_get (dw_tasks s1) t = Some (drop_sent rid r task)" by simp
  from 2(1) [OF s1 this] show ?case
    using r(2) by (auto simp: drop_sent_def flat_del_def case_prod_beta' intro!: filter_cong)
qed

lemma cancel_all_requests_effect:
  assumes "cancel_all_requests t s = Some s'"
  shows "\<exists>task task'. flat_get (dw_tasks s) t = Some task \<and> flat_get (dw_tasks s') t = Some task' \<and> dt_sent task' = []
     \<and> dt_unchecked task' = [] \<and> dt_dc task' = dt_dc task \<and> dt_loader task' = dt_loader task \<and> dw_queues s' = dw_queues s"
proof -
  obtain task s1 where get: "flat_get (dw_tasks s) t = Some task"
      and cancel: "cancel_requests t (map fst (dt_sent task)) s = Some s1" and s': "s' = clear_unchecked t s1"
    using assms by (auto simp: cancel_all_requests_def bind_eq_Some_conv)
  have "filter (\<lambda>(rid, _). rid \<notin> set (map fst (dt_sent task))) (dt_sent task) = []"
    by (force simp: filter_empty_conv)
  then show ?thesis using cancel_requests_effect [OF cancel get] get by (auto simp: s' clear_unchecked_def)
qed

section \<open>A task that is not queued is left alone\<close>

lemma set_queue_fields [simp]:
  "dw_tasks (set_queue dc q s) = dw_tasks s" "queue_of dc (set_queue dc q s) = q"
  "dw_queues (touch_balance dc s) = dw_queues s" "dw_tasks (touch_balance dc s) = dw_tasks s"
  by (simp_all add: set_queue_def queue_of_def touch_balance_def)

lemma try_send_next_part_other:
  assumes op: "try_send_next_part dc s = Some (again, s')" and t: "t \<notin> fst ` set (queue_of dc s)"
  shows "flat_get (dw_tasks s') t = flat_get (dw_tasks s) t \<and> dw_queues s' = dw_queues s"
proof (cases again)
  case False
  then show ?thesis using op by (auto simp: try_send_next_part_def Let_def split: option.split_asm if_split_asm)
next
  case True
  then obtain u i where u: "queue_next_task (ready_to_request (touch_balance dc s)) (db_total (balance_of dc s) > 0)
        (queue_of dc (touch_balance dc s)) = Some u" and load: "load_part u i (touch_balance dc s) = Some s'"
    using op by (auto simp: try_send_next_part_def Let_def split: option.split_asm if_split_asm)
  have "u \<noteq> t" using queue_next_task_ready [OF u] t by (auto simp: queue_of_def)
  obtain task offset l where "flat_get (dw_tasks s) u = Some task"
      and make: "make_request u (new_request offset i) (set_task u (task\<lparr> dt_loader := l \<rparr>) (touch_balance dc s)) = Some s'"
    using load by (auto simp: load_part_def bind_eq_Some_conv)
  then show ?thesis using make_request_effect [OF make] \<open>u \<noteq> t\<close> by auto
qed

lemma check_send_next_other:
  assumes op: "check_send_next dc s = Some s'" and t: "t \<notin> fst ` set (queue_of dc s)"
  shows "flat_get (dw_tasks s') t = flat_get (dw_tasks s) t \<and> dw_queues s' = dw_queues s"
proof -
  let ?I = "\<lambda>a. flat_get (dw_tasks a) t = flat_get (dw_tasks s) t \<and> dw_queues a = dw_queues s"
  show ?thesis
  proof (rule check_send_next_invariant [OF op, of ?I])
    fix a again a' assume I: "?I a" and step: "try_send_next_part dc a = Some (again, a')"
    have "queue_of dc a = queue_of dc s" using I by (simp add: queue_of_def)
    then show "?I a'" using try_send_next_part_other [OF step, of t] t I by simp
  qed simp
qed

section \<open>The calls of the loaders\<close>

lemma streaming_cancel_offset_keeps [keeps]:
  "streaming_cancel_offset t offset s = Some s' \<Longrightarrow> downloads_inv no_extra s \<longrightarrow> downloads_inv no_extra s'"
  by (auto simp: streaming_cancel_offset_def bind_eq_Some_conv split: if_split_asm dest!: keeps)

lemma streaming_load_keeps [keeps]:
  "streaming_load t offset loaded s = Some s' \<Longrightarrow> downloads_inv no_extra s \<longrightarrow> downloads_inv no_extra s'"
  by (auto simp: streaming_load_def bind_eq_Some_conv split: if_split_asm prod.split_asm bool.split_asm dest!: keeps)

lemma streaming_stop_keeps [keeps]:
  "streaming_stop t s = Some s' \<Longrightarrow> downloads_inv no_extra s \<longrightarrow> downloads_inv no_extra s'"
  by (auto simp: streaming_stop_def bind_eq_Some_conv dest!: keeps)

lemma streaming_try_remove_keeps [keeps]:
  "streaming_try_remove t s = Some s' \<Longrightarrow> downloads_inv no_extra s \<longrightarrow> downloads_inv no_extra s'"
  by (auto simp: streaming_try_remove_def bind_eq_Some_conv split: if_split_asm dest!: keeps)

lemma streaming_set_priority_keeps [keeps]:
  "streaming_set_priority t p s = Some s' \<Longrightarrow> downloads_inv no_extra s \<longrightarrow> downloads_inv no_extra s'"
  by (auto simp: streaming_set_priority_def bind_eq_Some_conv Let_def split: if_split_asm dest!: keeps)

lemma streaming_reset_priorities_keeps [keeps]:
  "streaming_reset_priorities t s = Some s' \<Longrightarrow> downloads_inv no_extra s \<longrightarrow> downloads_inv no_extra s'"
  by (auto simp: streaming_reset_priorities_def bind_eq_Some_conv)

lemma streaming_stats_timer_keeps [keeps]:
  "streaming_stats_timer t s = Some s' \<Longrightarrow> downloads_inv no_extra s \<longrightarrow> downloads_inv no_extra s'"
  by (auto simp: streaming_stats_timer_def bind_eq_Some_conv Let_def case_prod_beta split: option.splits)

lemma file_open_and_keeps:
  assumes op: "file_open_and env t l f s = Some s'" and inv: "downloads_inv no_extra s"
    and f: "\<And>a. f a = Some s' \<Longrightarrow> downloads_inv no_extra a \<longrightarrow> downloads_inv no_extra s'"
  shows "downloads_inv no_extra s'"
proof (cases "check_for_open (de_disk env) l")
  case None
  then show ?thesis using op inv by (auto simp: file_open_and_def dest!: file_cancel_keeps)
next
  case (Some l1)
  then have "f (set_loader t (FileLoad l1) s) = Some s'" using op by (simp add: file_open_and_def)
  from f [OF this] show ?thesis using inv by simp
qed

lemma file_start_keeps [keeps]:
  assumes op: "file_start env t s = Some s'"
  shows "downloads_inv no_extra s \<longrightarrow> downloads_inv no_extra s'"
proof
  assume inv: "downloads_inv no_extra s"
  obtain l where l: "file_of t s = Some l" using op by (auto simp: file_start_def bind_eq_Some_conv)
  obtain local l1 es where try_local: "try_load_local t l = (local, l1, es)" by (cases "try_load_local t l") auto
  show "downloads_inv no_extra s'"
    using op inv l try_local
    by (auto simp: file_start_def Let_def split: if_split_asm dest!: file_cancel_keeps
        elim!: file_open_and_keeps dest: enqueue_task_keeps)
qed

lemma start_with_partial_keeps [keeps]:
  "start_with_partial env t stored s = Some s' \<Longrightarrow> downloads_inv no_extra s \<longrightarrow> downloads_inv no_extra s'"
  by (auto simp: start_with_partial_def bind_eq_Some_conv Let_def split: if_split_asm dest!: keeps)

lemma finish_with_bytes_keeps [keeps]:
  "finish_with_bytes env t stored l s = Some s' \<Longrightarrow> downloads_inv no_extra s \<longrightarrow> downloads_inv no_extra s'"
  by (auto simp: finish_with_bytes_def split: prod.split_asm bool.split_asm dest!: keeps)

lemma local_loaded_keeps [keeps]:
  assumes op: "local_loaded env t stored s = Some s'"
  shows "downloads_inv no_extra s \<longrightarrow> downloads_inv no_extra s'"
proof
  assume inv: "downloads_inv no_extra s"
  obtain l0 where l0: "file_of t s = Some l0" using op by (auto simp: local_loaded_def bind_eq_Some_conv)
  define l where "l = l0\<lparr> fl_local_loading := False \<rparr>"
  show "downloads_inv no_extra s'"
  proof (cases "take 8 stored = partial_prefix \<and> int (length stored) < fl_load_size l0 + 8 \<and> stored \<noteq> []")
    case True
    then have "file_open_and env t (l\<lparr> fl_status := LocalNotFound \<rparr>) (start_with_partial env t stored)
          (set_loader t (FileLoad (l\<lparr> fl_status := LocalNotFound \<rparr>)) s) = Some s'"
      using op l0 by (simp add: local_loaded_def l_def Let_def)
    then show ?thesis using inv inv_set_loader file_open_and_keeps start_with_partial_keeps by blast
  next
    case False
    then show ?thesis using op l0 inv
      by (auto simp: local_loaded_def Let_def split: if_split_asm dest!: file_start_keeps finish_with_bytes_keeps)
  qed
qed

lemma file_cancel_call_keeps [keeps]:
  "file_cancel_call t s = Some s' \<Longrightarrow> downloads_inv no_extra s \<longrightarrow> downloads_inv no_extra s'"
  by (auto simp: file_cancel_call_def bind_eq_Some_conv dest!: keeps)

lemma preload_start_keeps [keeps]:
  "preload_start t prefix n s = Some s' \<Longrightarrow> downloads_inv no_extra s \<longrightarrow> downloads_inv no_extra s'"
proof
  assume op: "preload_start t prefix n s = Some s'" and inv: "downloads_inv no_extra s"
  then obtain task where get: "flat_get (dw_tasks s) t = Some task" by (auto simp: preload_start_def bind_eq_Some_conv)
  show "downloads_inv no_extra s'"
    by (cases "dt_loader task") (use op get inv in \<open>auto simp: preload_start_def bind_eq_Some_conv dest!: keeps\<close>)
qed

lemma destroy_loader_keeps [keeps]:
  "destroy_loader t s = Some s' \<Longrightarrow> downloads_inv no_extra s \<longrightarrow> downloads_inv no_extra s'"
proof
  assume op: "destroy_loader t s = Some s'" and inv: "downloads_inv no_extra s"
  then obtain task where get: "flat_get (dw_tasks s) t = Some task" by (auto simp: destroy_loader_def bind_eq_Some_conv)
  show "downloads_inv no_extra s'"
    by (cases "dt_loader task") (use op get inv in \<open>auto simp: destroy_loader_def split: if_split_asm dest!: keeps\<close>)
qed

lemma queue_remove_absent_member: "t \<notin> fst ` set (queue_remove t q)"
  by (auto simp: queue_remove_def)

lemma remove_task_effect:
  assumes "remove_task t s = Some s'" and "flat_get (dw_tasks s) t = Some task"
  shows "flat_get (dw_tasks s') t = Some task \<and> queue_of (dt_dc task) s' = queue_remove t (queue_of (dt_dc task) s)"
proof -
  let ?s1 = "set_queue (dt_dc task) (queue_remove t (queue_of (dt_dc task) s)) s"
  have op: "check_send_next (dt_dc task) ?s1 = Some s'" using assms by (simp add: remove_task_def Let_def)
  have "t \<notin> fst ` set (queue_of (dt_dc task) ?s1)" using queue_remove_absent_member by simp
  from check_send_next_other [OF op this] have "flat_get (dw_tasks s') t = Some task" "dw_queues s' = dw_queues ?s1"
    using assms(2) by simp_all
  moreover have "queue_of (dt_dc task) s' = queue_of (dt_dc task) ?s1" using calculation(2) by (simp only: queue_of_def)
  ultimately show ?thesis by simp
qed

lemma delete_idle_task_inv:
  assumes inv: "downloads_inv x s" and get: "flat_get (dw_tasks s) t = Some task"
    and idle: "dt_sent task = []" "t \<notin> fst ` set (queue_of (dt_dc task) s)"
  shows "downloads_inv x (s\<lparr> dw_tasks := flat_del t (dw_tasks s) \<rparr>)"
proof -
  have ok: "flat_map_ok (dw_tasks s)" using inv by (simp add: inv_defs)
  note counts = sent_count_del [OF ok get idle(1)]
  have "u \<noteq> t" if q: "flat_get (dw_queues s) dc = Some q" "u \<in> fst ` set q" for dc q u
  proof
    assume "u = t"
    moreover obtain task' where "flat_get (dw_tasks s) u = Some task'" "dt_dc task' = dc"
      using inv q unfolding downloads_inv_def queues_ok_def by blast
    ultimately have "dt_dc task = dc" using get by simp
    then show False using q idle(2) \<open>u = t\<close> by (simp add: queue_of_def)
  qed
  then have "queues_ok (dw_queues s) (flat_del t (dw_tasks s))"
    using inv unfolding downloads_inv_def queues_ok_def by (metis flat_get_del)
  then show ?thesis using inv
    by (auto simp: downloads_inv_def tasks_ok_def accounts_ok_def kill_ok_def counts)
qed

lemma destroy_task_keeps [keeps]:
  assumes op: "destroy_task t s = Some s'"
  shows "downloads_inv no_extra s \<longrightarrow> downloads_inv no_extra s'"
proof
  assume inv: "downloads_inv no_extra s"
  obtain s1 s2 s3 where s1: "destroy_loader t s = Some s1" and s2: "cancel_all_requests t s1 = Some s2"
      and s3: "remove_task t s2 = Some s3" and s': "s' = s3\<lparr> dw_tasks := flat_del t (dw_tasks s3) \<rparr>"
    using op by (auto simp: destroy_task_def bind_eq_Some_conv)
  have inv3: "downloads_inv no_extra s3"
    using inv destroy_loader_keeps [OF s1] cancel_all_requests_keeps [OF s2] remove_task_keeps [OF s3] by blast
  obtain task where task: "flat_get (dw_tasks s2) t = Some task" "dt_sent task = []"
    using cancel_all_requests_effect [OF s2] by blast
  show "downloads_inv no_extra s'"
    using delete_idle_task_inv [OF inv3] remove_task_effect [OF s3 task(1)] task(2) queue_remove_absent_member [of t]
    by (simp add: s')
qed

section \<open>The steps of the machine\<close>

lemma new_task_inv:
  assumes inv: "downloads_inv x s" and free: "flat_get (dw_tasks s) t = None"
  shows "downloads_inv x (set_task t (new_task dc location l) s)"
proof -
  have ok: "flat_map_ok (dw_tasks s)" using inv by (simp add: inv_defs)
  have "dt_sent (new_task dc location l) = []" by (simp add: new_task_def)
  note counts = sent_count_new [OF ok free this]
  have "task_ok n (new_task dc location l)" for n by (simp add: task_ok_def new_task_def)
  moreover have "queues_ok (dw_queues s) (flat_put t (new_task dc location l) (dw_tasks s))"
    using inv free unfolding downloads_inv_def queues_ok_def by (metis flat_get_put option.distinct(1))
  ultimately show ?thesis using inv
    by (auto simp: downloads_inv_def tasks_ok_def accounts_ok_def kill_ok_def counts)
qed

lemma run_deferred_keeps [keeps]:
  "run_deferred s = Some s' \<Longrightarrow> downloads_inv no_extra s \<longrightarrow> downloads_inv no_extra s'"
  by (auto simp: run_deferred_def split: list.split_asm deferred_call.split_asm dest!: keeps)

lemma download_step_inv:
  assumes inv: "downloads_inv no_extra s" and possible: "input_possible s input"
    and step: "download_step env input s = Some s'"
  shows "downloads_inv no_extra s'"
proof -
  have new: "downloads_inv no_extra (set_task t (new_task dc location l) s)" if "input = NewTask t dc location l" for t dc location l
    using that possible inv by (auto simp: input_possible_def intro: new_task_inv)
  show ?thesis
    by (cases input) (use step inv new in \<open>auto dest!: keeps\<close>)
qed

lemma initial_downloads_inv: "downloads_inv no_extra (initial_downloads now)"
  by (simp add: inv_defs initial_downloads_def sessions_of_def total_of_def sent_count_def sent_total_def)

lemma reach_inv: "download_reach s \<Longrightarrow> downloads_inv no_extra s"
  by (induction rule: download_reach.induct) (auto intro: initial_downloads_inv download_step_inv)

end
