(* ===== verification/Download_Pending.thy ===== *)
theory Download_Pending
  imports Download_Reach
begin

text \<open>
  What a loader still asks for is not in flight: the second invariant of the downloads.  A task never
  has a request in flight, nor a part that waits for its hash, at an offset its loader will ask for
  again, and a file loader that still looks into the cache is in no queue.  With it a part that is
  sent never meets a request for the same offset.
\<close>

named_theorems pends \<open>operations that keep the second invariant of the downloads\<close>

section \<open>The invariant\<close>

definition file_waiting :: "file_loader \<Rightarrow> bool" where
  "file_waiting l \<longleftrightarrow> fl_status l = LocalNotTried \<or> fl_status l = LocalLoading"

fun waiting :: "loader \<Rightarrow> bool" where
  "waiting (FileLoad l) = file_waiting l"
| "waiting _ = False"

text \<open>The loader will not ask for the offset, and still takes parts.\<close>

fun passed :: "int \<Rightarrow> loader \<Rightarrow> bool" where
  "passed o1 (Streaming l) = (o1 \<notin> fst ` set (oq_data (sl_requested l)))"
| "passed o1 (FileLoad l) = (o1 < fl_next_offset l \<and> \<not> file_waiting l \<and> \<not> fl_finished l)"
| "passed o1 (Preload p) = (o1 < vp_next p)"

definition file_ok :: "file_loader \<Rightarrow> bool" where
  "file_ok l \<longleftrightarrow> (fl_local_loading l \<longrightarrow> fl_status l = LocalLoading)"

definition preload_ok :: "video_preload \<Rightarrow> bool" where
  "preload_ok p \<longleftrightarrow> flat_ok (vp_requested p) \<and> (\<forall>o1 \<in> set (vp_requested p). o1 < vp_next p)"

fun loader_ok :: "loader \<Rightarrow> bool" where
  "loader_ok (Streaming l) = offset_queue_ok (sl_requested l)"
| "loader_ok (FileLoad l) = file_ok l"
| "loader_ok (Preload p) = preload_ok p"

definition unchecked_ok :: "(int, request_data \<times> bytes) flat_map \<Rightarrow> bool" where
  "unchecked_ok us \<longleftrightarrow> (\<forall>(o1, r, part) \<in> set us. rd_offset r = o1)"

definition pending_ok :: "bool \<Rightarrow> download_task \<Rightarrow> bool" where
  "pending_ok queued task \<longleftrightarrow> unchecked_ok (dt_unchecked task)
     \<and> (\<forall>(rid, r) \<in> set (dt_sent task). passed (rd_offset r) (dt_loader task))
     \<and> (\<forall>o1. flat_get (dt_unchecked task) o1 \<noteq> None \<longrightarrow> passed o1 (dt_loader task))
     \<and> loader_ok (dt_loader task) \<and> (waiting (dt_loader task) \<longrightarrow> \<not> queued)"

definition queued_in :: "(int, nat task_queue) flat_map \<Rightarrow> nat \<Rightarrow> bool" where
  "queued_in qs t \<longleftrightarrow> (\<exists>dc q. flat_get qs dc = Some q \<and> t \<in> fst ` set q)"

definition pending_inv :: "downloads \<Rightarrow> bool" where
  "pending_inv s \<longleftrightarrow> (\<forall>t task. flat_get (dw_tasks s) t = Some task \<longrightarrow> pending_ok (queued_in (dw_queues s) t) task)"

text \<open>A request at the offset may be placed: the loader of the task has passed it.\<close>

definition may_place :: "nat \<Rightarrow> int \<Rightarrow> downloads \<Rightarrow> bool" where
  "may_place t o1 s \<longleftrightarrow> (\<forall>task. flat_get (dw_tasks s) t = Some task \<longrightarrow> passed o1 (dt_loader task))"

lemma pending_cong: "dw_tasks s' = dw_tasks s \<Longrightarrow> dw_queues s' = dw_queues s \<Longrightarrow> pending_inv s' = pending_inv s"
  by (simp add: pending_inv_def)

lemma pending_irrelevant [simp]:
  "pending_inv (s\<lparr> dw_log := es \<rparr>) = pending_inv s"
  "pending_inv (s\<lparr> dw_now := n \<rparr>) = pending_inv s"
  "pending_inv (s\<lparr> dw_deferred := ds \<rparr>) = pending_inv s"
  "pending_inv (s\<lparr> dw_kill_timer := kt \<rparr>) = pending_inv s"
  "pending_inv (s\<lparr> dw_kill_when := kw \<rparr>) = pending_inv s"
  "pending_inv (s\<lparr> dw_reset_timer := rt \<rparr>) = pending_inv s"
  "pending_inv (s\<lparr> dw_next_request := nr \<rparr>) = pending_inv s"
  "pending_inv (log_event e s) = pending_inv s"
  "pending_inv (set_balance dc b s) = pending_inv s"
  "pending_inv (touch_balance dc s) = pending_inv s"
  "pending_inv (kill_sessions_cancel dc s) = pending_inv s"
  "pending_inv (kill_sessions_schedule dc s) = pending_inv s"
  by (simp_all add: pending_inv_def)

lemma may_place_irrelevant [simp]:
  "may_place t o1 (s\<lparr> dw_log := es \<rparr>) = may_place t o1 s"
  "may_place t o1 (s\<lparr> dw_deferred := ds \<rparr>) = may_place t o1 s"
  "may_place t o1 (s\<lparr> dw_next_request := nr \<rparr>) = may_place t o1 s"
  "may_place t o1 (log_event e s) = may_place t o1 s"
  "may_place t o1 (set_balance dc b s) = may_place t o1 s"
  by (simp_all add: may_place_def)

lemma pending_at: "pending_inv s \<Longrightarrow> flat_get (dw_tasks s) t = Some task \<Longrightarrow> pending_ok (queued_in (dw_queues s) t) task"
  by (simp add: pending_inv_def)

lemma pending_put:
  assumes "pending_inv s" and "dw_tasks s' = flat_put t task' (dw_tasks s)" and "dw_queues s' = dw_queues s"
    and "pending_ok (queued_in (dw_queues s) t) task'"
  shows "pending_inv s'"
  using assms by (simp add: pending_inv_def)

lemma pending_set_task [simp]:
  "pending_inv s \<Longrightarrow> pending_ok (queued_in (dw_queues s) t) task' \<Longrightarrow> pending_inv (set_task t task' s)"
  by (erule pending_put) simp_all

lemma sent_passed:
  "pending_ok q task \<Longrightarrow> flat_get (dt_sent task) rid = Some r \<Longrightarrow> passed (rd_offset r) (dt_loader task)"
  by (auto simp: pending_ok_def dest!: flat_get_in)

section \<open>Tasks\<close>

lemma set_flat_del_subset: "set (flat_del k m) \<subseteq> set m"
  by (auto simp: flat_del_def)

lemma set_flat_put_subset: "set (flat_put k v m) \<subseteq> insert (k, v) (set m)"
  by (induction k v m rule: flat_put.induct) auto

lemma pending_drop: "pending_ok q task \<Longrightarrow> pending_ok q (drop_sent rid r task)"
  using set_flat_del_subset [of rid "dt_sent task"] by (auto simp: pending_ok_def drop_sent_def)

lemma pending_add:
  "pending_ok q task \<Longrightarrow> passed (rd_offset r) (dt_loader task) \<Longrightarrow> pending_ok q (add_sent rid r task)"
  using set_flat_put_subset [of rid r "dt_sent task"] by (fastforce simp: pending_ok_def add_sent_def)

lemma loader_add_drop [simp]:
  "dt_loader (drop_sent rid r task) = dt_loader task" "dt_loader (add_sent rid r task) = dt_loader task"
  "dt_loader (set_cdn c task) = dt_loader task" "dt_loader (add_cdn_hashes hs task) = dt_loader task"
  by (simp_all add: drop_sent_def add_sent_def set_cdn_def add_cdn_hashes_def)

lemma pending_same [simp]:
  "pending_ok q (task\<lparr> dt_location := loc \<rparr>) = pending_ok q task"
  "pending_ok q (task\<lparr> dt_hashes_request := h \<rparr>) = pending_ok q task"
  "pending_ok q (set_cdn c task) = pending_ok q task"
  "pending_ok q (add_cdn_hashes hs task) = pending_ok q task"
  by (simp_all add: pending_ok_def set_cdn_def add_cdn_hashes_def)

lemma pending_clear [simp]: "pending_ok q task \<Longrightarrow> pending_ok q (task\<lparr> dt_unchecked := [] \<rparr>)"
  by (auto simp: pending_ok_def unchecked_ok_def)

lemma unchecked_ok_del [simp]: "unchecked_ok us \<Longrightarrow> unchecked_ok (flat_del o1 us)"
  by (auto simp: unchecked_ok_def flat_del_def)

lemma pending_del_unchecked [simp]: "pending_ok q task \<Longrightarrow> pending_ok q (task\<lparr> dt_unchecked := flat_del o1 (dt_unchecked task) \<rparr>)"
  by (auto simp: pending_ok_def)

lemma set_flat_emplace_subset: "set (flat_emplace k v m) \<subseteq> insert (k, v) (set m)"
  by (induction k v m rule: flat_emplace.induct) auto

lemma pending_emplace_unchecked:
  assumes ok: "pending_ok q task" and passed: "passed (rd_offset r) (dt_loader task)"
  shows "pending_ok q (task\<lparr> dt_unchecked := flat_emplace (rd_offset r) (r, part) (dt_unchecked task) \<rparr>)"
proof -
  let ?us = "flat_emplace (rd_offset r) (r, part) (dt_unchecked task)"
  have "unchecked_ok ?us"
    using ok set_flat_emplace_subset [of "rd_offset r" "(r, part)"] by (fastforce simp: pending_ok_def unchecked_ok_def)
  moreover have "flat_get ?us o1 \<noteq> None \<longleftrightarrow> o1 = rd_offset r \<or> flat_get (dt_unchecked task) o1 \<noteq> None" for o1
    by (simp add: flat_get_keys flat_emplace_keys)
  ultimately show ?thesis using ok passed by (auto simp: pending_ok_def)
qed

section \<open>Requests\<close>

lemma finish_sent_request_pends [pends]:
  assumes inv: "pending_inv s" and op: "finish_sent_request t rid reason s = Some (r, s')"
  shows "pending_inv s' \<and> may_place t (rd_offset r) s' \<and> dw_queues s' = dw_queues s"
proof -
  obtain task where get: "flat_get (dw_tasks s) t = Some task" and sent: "flat_get (dt_sent task) rid = Some r"
      and tasks: "dw_tasks s' = flat_put t (drop_sent rid r task) (dw_tasks s)" and queues: "dw_queues s' = dw_queues s"
    using finish_sent_request_effect [OF op] by blast
  have "passed (rd_offset r) (dt_loader task)" using pending_at [OF inv get] sent by (rule sent_passed)
  then show ?thesis
    using pending_put [OF inv tasks queues] pending_drop pending_at [OF inv get] tasks queues by (simp add: may_place_def)
qed

lemma finish_sent_request_may_place:
  assumes "finish_sent_request t rid reason s = Some (r, s')"
  shows "may_place u o1 s \<longleftrightarrow> may_place u o1 s'"
proof -
  obtain task where "flat_get (dw_tasks s) t = Some task" "dw_tasks s' = flat_put t (drop_sent rid r task) (dw_tasks s)"
    using finish_sent_request_effect [OF assms] by blast
  then show ?thesis by (cases "u = t") (simp_all add: may_place_def)
qed

lemma place_sent_request_pends:
  assumes inv: "pending_inv s" and place: "may_place t (rd_offset r) s" and op: "place_sent_request t rid r s = Some s'"
  shows "pending_inv s' \<and> (\<forall>o1. may_place t o1 s' = may_place t o1 s) \<and> dw_queues s' = dw_queues s"
proof -
  obtain task a where get: "flat_get (dw_tasks s) t = Some task"
      and tasks: "dw_tasks s' = flat_put t (add_sent rid (r\<lparr> rd_amount := a, rd_sent := dw_now s \<rparr>) task) (dw_tasks s)"
      and queues: "dw_queues s' = dw_queues s"
    using place_sent_request_effect [OF op] by blast
  have "pending_ok (queued_in (dw_queues s) t) (add_sent rid (r\<lparr> rd_amount := a, rd_sent := dw_now s \<rparr>) task)"
    by (rule pending_add [OF pending_at [OF inv get]]) (use place get in \<open>simp add: may_place_def\<close>)
  from pending_put [OF inv tasks queues this] show ?thesis using get tasks queues by (simp add: may_place_def)
qed

lemma send_request_Some:
  "send_request t r s = Some (rid, s1) \<Longrightarrow> rid = dw_next_request s \<and> dw_tasks s1 = dw_tasks s \<and> dw_queues s1 = dw_queues s"
  by (auto simp: send_request_def send_kind_Some split: option.split_asm)

lemma make_request_pends [pends]:
  assumes inv: "pending_inv s" and place: "may_place t (rd_offset r) s" and op: "make_request t r s = Some s'"
  shows "pending_inv s' \<and> (\<forall>o1. may_place t o1 s' = may_place t o1 s) \<and> dw_queues s' = dw_queues s"
proof -
  obtain rid s1 where send: "send_request t r s = Some (rid, s1)" and op1: "place_sent_request t rid r s1 = Some s'"
    using op by (auto simp: make_request_def bind_eq_Some_conv)
  have same: "dw_tasks s1 = dw_tasks s" "dw_queues s1 = dw_queues s" using send_request_Some [OF send] by simp_all
  have "pending_inv s1" using pending_cong [OF same] inv by simp
  moreover have may: "may_place t o1 s1 = may_place t o1 s" for o1 by (simp add: may_place_def same)
  ultimately show ?thesis using place_sent_request_pends [OF _ _ op1] place same by simp
qed

lemma cancel_request_pends [pends]:
  assumes inv: "pending_inv s" and op: "cancel_request t rid s = Some s'"
  shows "pending_inv s' \<and> (\<forall>o1. may_place t o1 s' = may_place t o1 s) \<and> dw_queues s' = dw_queues s"
proof -
  obtain task r where get: "flat_get (dw_tasks s) t = Some task"
      and tasks: "dw_tasks s' = flat_put t (drop_sent rid r task) (dw_tasks s)" and queues: "dw_queues s' = dw_queues s"
    using cancel_request_effect [OF op] by blast
  then show ?thesis
    using pending_put [OF inv tasks queues] pending_drop pending_at [OF inv get] by (simp add: may_place_def)
qed

section \<open>Sending parts\<close>

text \<open>What the loader takes it had not passed, and has then.\<close>

lemma last_insert_largest: "flat_ok xs \<Longrightarrow> \<forall>x \<in> set xs. x < y \<Longrightarrow> flat_insert (y :: int) xs = xs @ [y]"
  by (induction xs) auto

lemma loader_take_passed:
  assumes ok: "loader_ok l" "\<not> waiting l" and take: "loader_take now have_sent l = Some (o1, l')"
  shows "\<not> passed o1 l \<and> passed o1 l' \<and> (\<forall>o2. passed o2 l \<longrightarrow> passed o2 l') \<and> loader_ok l' \<and> \<not> waiting l'"
proof (cases l)
  case (Streaming sl)
  then obtain q where q: "offset_queue_take (sl_requested sl) = (Some o1, q)" and l': "\<exists>sl'. l' = Streaming sl' \<and> sl_requested sl' = q"
    using take by (auto simp: streaming_take_def split: prod.split_asm option.split_asm)
  have "offset_queue_ok (sl_requested sl)" using ok Streaming by simp
  note spec = offset_queue_take_spec [OF this q]
  from spec(3) have "fst ` set (oq_data q) \<subseteq> fst ` set (oq_data (sl_requested sl))" by (rule image_mono)
  then show ?thesis using spec l' Streaming by auto
next
  case (FileLoad fl)
  then have "l' = FileLoad (fl\<lparr> fl_next_offset := fl_next_offset fl + download_part_size \<rparr>)" "o1 = fl_next_offset fl"
      "file_ready have_sent fl"
    using take by (auto simp: file_take_def split: if_split_asm)
  then show ?thesis using ok FileLoad by (auto simp: file_ok_def file_waiting_def file_ready_def download_part_size_def)
next
  case (Preload p)
  then have p: "flat_ok (vp_requested p)" "\<forall>o1 \<in> set (vp_requested p). o1 < vp_next p"
    using ok by (simp_all add: preload_ok_def)
  have "flat_insert (vp_next p) (vp_requested p) = vp_requested p @ [vp_next p]" by (rule last_insert_largest [OF p])
  then have "o1 = vp_next p"
      "l' = Preload (p\<lparr> vp_requested := vp_requested p @ [vp_next p], vp_next := vp_next p + download_part_size \<rparr>)"
    using take Preload by (auto simp: preload_take_def Let_def split: if_split_asm)
  then show ?thesis using p Preload
    by (auto simp: preload_ok_def sorted_wrt_append download_part_size_def)
qed

lemma load_part_pends [pends]:
  assumes inv: "pending_inv s" and queued: "queued_in (dw_queues s) t" and op: "load_part t i s = Some s'"
  shows "pending_inv s' \<and> dw_queues s' = dw_queues s"
proof -
  obtain task o1 l where get: "flat_get (dw_tasks s) t = Some task"
      and taken: "loader_take (dw_now s) (have_sent_requests task) (dt_loader task) = Some (o1, l)"
      and make: "make_request t (new_request o1 i) (set_task t (task\<lparr> dt_loader := l \<rparr>) s) = Some s'"
    using op by (auto simp: load_part_def bind_eq_Some_conv)
  have ok: "pending_ok True task" using pending_at [OF inv get] queued by simp
  then have l: "passed o1 l" "\<And>o2. passed o2 (dt_loader task) \<Longrightarrow> passed o2 l" "loader_ok l" "\<not> waiting l"
    using loader_take_passed [OF _ _ taken] by (auto simp: pending_ok_def)
  then have "pending_ok True (task\<lparr> dt_loader := l \<rparr>)" using ok by (auto simp: pending_ok_def)
  then have "pending_inv (set_task t (task\<lparr> dt_loader := l \<rparr>) s)" using inv queued by simp
  moreover have "may_place t (rd_offset (new_request o1 i)) (set_task t (task\<lparr> dt_loader := l \<rparr>) s)"
    using l by (simp add: may_place_def new_request_def)
  ultimately show ?thesis using make_request_pends [OF _ _ make] by simp
qed

lemma queue_of_queued: "t \<in> fst ` set (queue_of dc s) \<Longrightarrow> queued_in (dw_queues s) t"
  unfolding queued_in_def by (cases "flat_get (dw_queues s) dc") (simp_all add: queue_of_def, blast)

lemma try_send_next_part_pends [pends]:
  assumes inv: "pending_inv s" and op: "try_send_next_part dc s = Some (again, s')"
  shows "pending_inv s' \<and> dw_queues s' = dw_queues s"
proof (cases again)
  case False
  then show ?thesis using op inv by (auto simp: try_send_next_part_def Let_def split: option.split_asm if_split_asm)
next
  case True
  then obtain u i where u: "queue_next_task (ready_to_request (touch_balance dc s)) (db_total (balance_of dc s) > 0)
        (queue_of dc (touch_balance dc s)) = Some u" and load: "load_part u i (touch_balance dc s) = Some s'"
    using op by (auto simp: try_send_next_part_def Let_def split: option.split_asm if_split_asm)
  have "u \<in> fst ` set (queue_of dc (touch_balance dc s))" using queue_next_task_ready [OF u] by blast
  then have "queued_in (dw_queues (touch_balance dc s)) u" by (rule queue_of_queued)
  then show ?thesis using load_part_pends [OF _ _ load] inv by simp
qed

lemma check_send_next_pends [pends]:
  assumes inv: "pending_inv s" and op: "check_send_next dc s = Some s'"
  shows "pending_inv s'"
  by (rule check_send_next_invariant [OF op, of pending_inv, OF inv]) (use try_send_next_part_pends in blast)

lemma rotate_range_subset: "set (rotate_range from middle till xs) \<subseteq> set xs"
  by (auto simp: rotate_range_def dest: in_set_takeD in_set_dropD)

lemma queue_enqueue_members: "fst ` set (queue_enqueue t p q) \<subseteq> insert t (fst ` set q)"
proof -
  obtain i q1 where q1: "(if queue_index t q < length q then (queue_index t q, q[queue_index t q := (t, p)])
      else (length q, q @ [(t, p)])) = (i, q1)" by fastforce
  have "set (q[queue_index t q := (t, p)]) \<subseteq> insert (t, p) (set q)" by (rule set_update_subset_insert)
  then have "set q1 \<subseteq> insert (t, p) (set q)" using q1 by (auto split: if_split_asm)
  moreover have "set (queue_enqueue t p q) \<subseteq> set q1"
    by (simp add: queue_enqueue_def Let_def q1 rotate_range_subset)
  ultimately have "set (queue_enqueue t p q) \<subseteq> insert (t, p) (set q)" by blast
  then have "fst ` set (queue_enqueue t p q) \<subseteq> fst ` insert (t, p) (set q)" by (rule image_mono)
  then show ?thesis by simp
qed

lemma set_queue_pends:
  assumes inv: "pending_inv s"
    and members: "\<And>t. t \<in> fst ` set q \<Longrightarrow> queued_in (dw_queues s) t
      \<or> (\<forall>task. flat_get (dw_tasks s) t = Some task \<longrightarrow> \<not> waiting (dt_loader task))"
  shows "pending_inv (set_queue dc q s)"
  unfolding pending_inv_def
proof (intro allI impI)
  fix t task assume get: "flat_get (dw_tasks (set_queue dc q s)) t = Some task"
  then have ok: "pending_ok (queued_in (dw_queues s) t) task" using inv by (simp add: pending_inv_def)
  have "queued_in (dw_queues (set_queue dc q s)) t \<Longrightarrow> t \<in> fst ` set q \<or> queued_in (dw_queues s) t"
    unfolding queued_in_def set_queue_def by (fastforce split: if_split_asm)
  then have "waiting (dt_loader task) \<longrightarrow> \<not> queued_in (dw_queues (set_queue dc q s)) t"
    using ok members [of t] get by (simp add: pending_ok_def) blast
  then show "pending_ok (queued_in (dw_queues (set_queue dc q s)) t) task" using ok by (simp add: pending_ok_def)
qed

lemma set_queue_enqueue_pends:
  assumes inv: "pending_inv s" and runs: "\<And>task. flat_get (dw_tasks s) t = Some task \<Longrightarrow> \<not> waiting (dt_loader task)"
  shows "pending_inv (set_queue dc (queue_enqueue t p (queue_of dc s)) s)"
proof (rule set_queue_pends [OF inv])
  fix u assume "u \<in> fst ` set (queue_enqueue t p (queue_of dc s))"
  then have "u = t \<or> u \<in> fst ` set (queue_of dc s)"
    by (rule subsetD [OF queue_enqueue_members, unfolded insert_iff])
  then show "queued_in (dw_queues s) u \<or> (\<forall>task. flat_get (dw_tasks s) u = Some task \<longrightarrow> \<not> waiting (dt_loader task))"
    using queue_of_queued [of u dc s] runs by (elim disjE) simp_all
qed

lemma set_queue_remove_pends:
  assumes inv: "pending_inv s"
  shows "pending_inv (set_queue dc (queue_remove t (queue_of dc s)) s)"
proof -
  have "fst ` set (queue_remove t q) \<subseteq> fst ` set q" for q :: "nat task_queue" by (auto simp: queue_remove_def)
  then show ?thesis using queue_of_queued by (intro set_queue_pends [OF inv]) blast
qed

lemma set_queue_same_pends: "pending_inv s \<Longrightarrow> pending_inv (set_queue dc (queue_of dc s) s)"
  by (erule set_queue_pends) (simp add: queue_of_queued)

lemma enqueue_task_unfold:
  assumes "flat_get (dw_tasks s) t = Some task"
  shows "enqueue_task t p s = (let s1 = set_queue (dt_dc task) (queue_enqueue t p (queue_of (dt_dc task) s)) s
     in check_send_next (dt_dc task)
          (if dw_reset_timer s1 = None then s1\<lparr> dw_reset_timer := Some (dw_now s1 + reset_priorities_timeout) \<rparr> else s1))"
  by (simp add: enqueue_task_def assms Let_def)

lemma enqueue_task_pends [pends]:
  assumes inv: "pending_inv s" and op: "enqueue_task t p s = Some s'"
    and runs: "\<And>task. flat_get (dw_tasks s) t = Some task \<Longrightarrow> \<not> waiting (dt_loader task)"
  shows "pending_inv s'"
proof -
  obtain task where get: "flat_get (dw_tasks s) t = Some task"
    using op by (cases "flat_get (dw_tasks s) t") (simp_all add: enqueue_task_def)
  define s1 where "s1 = set_queue (dt_dc task) (queue_enqueue t p (queue_of (dt_dc task) s)) s"
  have send: "check_send_next (dt_dc task)
      (if dw_reset_timer s1 = None then s1\<lparr> dw_reset_timer := Some (dw_now s1 + reset_priorities_timeout) \<rparr> else s1) = Some s'"
    using op unfolding enqueue_task_unfold [OF get] Let_def s1_def .
  have "pending_inv s1" unfolding s1_def by (rule set_queue_enqueue_pends [OF inv runs])
  then show ?thesis using check_send_next_pends [OF _ send] by simp
qed

lemma remove_task_pends [pends]:
  assumes inv: "pending_inv s" and op: "remove_task t s = Some s'"
  shows "pending_inv s'"
proof -
  obtain task where "flat_get (dw_tasks s) t = Some task"
      and send: "check_send_next (dt_dc task) (set_queue (dt_dc task) (queue_remove t (queue_of (dt_dc task) s)) s) = Some s'"
    using op unfolding remove_task_def bind_eq_Some_conv Let_def by blast
  from check_send_next_pends [OF set_queue_remove_pends [OF inv] send] show ?thesis .
qed

lemma check_after_success_pends [pends]:
  assumes inv: "pending_inv s" and op: "check_send_next_after_success dc s = Some s'"
  shows "pending_inv s'"
  using check_send_next_pends [OF set_queue_same_pends [OF inv]] op by (simp add: check_send_next_after_success_def)

end
