(* ===== verification/Download_Pending_Steps.thy ===== *)
theory Download_Pending_Steps
  imports Download_Pending
begin

text \<open>
  Every step of the downloads keeps the second invariant: the calls of a task, the answers and errors of
  the network, the calls of the loaders.
\<close>

section \<open>Cancelling\<close>

lemma set_loader_pends:
  assumes "pending_inv s"
    and "\<And>task. flat_get (dw_tasks s) t = Some task \<Longrightarrow> pending_ok (queued_in (dw_queues s) t) task \<Longrightarrow>
      pending_ok (queued_in (dw_queues s) t) (task\<lparr> dt_loader := l \<rparr>)"
  shows "pending_inv (set_loader t l s)"
proof (cases "flat_get (dw_tasks s) t")
  case (Some task)
  have "pending_inv (set_task t (task\<lparr> dt_loader := l \<rparr>) s)"
    by (rule pending_set_task [OF assms(1) assms(2) [OF Some pending_at [OF assms(1) Some]]])
  with Some show ?thesis by (simp add: set_loader_def)
qed (use assms in \<open>simp add: set_loader_def\<close>)

lemma set_loader_fields [simp]:
  "dw_queues (set_loader t l s) = dw_queues s"
  "flat_get (dw_tasks (set_loader t l s)) u =
     (if u = t then map_option (\<lambda>task. task\<lparr> dt_loader := l \<rparr>) (flat_get (dw_tasks s) t) else flat_get (dw_tasks s) u)"
  by (auto simp: set_loader_def split: option.split)

text \<open>A loader that has passed what the one before it had.\<close>

lemma pending_ok_loader:
  assumes "pending_ok q task" and "\<And>o1. passed o1 (dt_loader task) \<Longrightarrow> passed o1 l" and "loader_ok l" and "waiting l \<longrightarrow> \<not> q"
  shows "pending_ok q (task\<lparr> dt_loader := l \<rparr>)"
  using assms by (auto simp: pending_ok_def)

lemma pending_ok_idle_loader:
  assumes "pending_ok q task" and "dt_sent task = []" and "dt_unchecked task = []" and "loader_ok l" and "waiting l \<longrightarrow> \<not> q"
  shows "pending_ok q (task\<lparr> dt_loader := l \<rparr>)"
  using assms by (auto simp: pending_ok_def)

lemma cancel_requests_pends [pends]:
  "pending_inv s \<Longrightarrow> cancel_requests t rids s = Some s' \<Longrightarrow> pending_inv s'"
proof (induction t rids s rule: cancel_requests.induct)
  case (2 t rid rids s)
  then obtain s1 where s1: "cancel_request t rid s = Some s1" "cancel_requests t rids s1 = Some s'"
    by (auto simp: bind_eq_Some_conv)
  then show ?case using 2(1) [OF s1(1)] cancel_request_pends [OF 2(2) s1(1)] by simp
qed simp

lemma clear_unchecked_pends [simp]: "pending_inv s \<Longrightarrow> pending_inv (clear_unchecked t s)"
  by (auto simp: clear_unchecked_def pending_at split: option.split)

lemma update_task_pends [simp]:
  "pending_inv s \<Longrightarrow> pending_inv (update_task t (add_cdn_hashes hs) s)"
  by (auto simp: update_task_def pending_at split: option.split)

lemma cancel_all_requests_pends [pends]:
  "pending_inv s \<Longrightarrow> cancel_all_requests t s = Some s' \<Longrightarrow> pending_inv s'"
  using cancel_requests_pends by (auto simp: cancel_all_requests_def bind_eq_Some_conv)

lemma cancel_request_for_offset_pends [pends]:
  assumes inv: "pending_inv s" and op: "cancel_request_for_offset t o1 s = Some s'"
  shows "pending_inv s' \<and> dw_queues s' = dw_queues s \<and> (\<forall>o2. may_place t o2 s' = may_place t o2 s)"
proof -
  obtain s1 task where s1: "(case flat_get (dt_by_offset (the (flat_get (dw_tasks s) t))) o1 of None \<Rightarrow> Some s | Some rid \<Rightarrow> cancel_request t rid s) = Some s1"
      and task: "flat_get (dw_tasks s1) t = Some task"
      and s': "s' = set_task t (task\<lparr> dt_unchecked := flat_del o1 (dt_unchecked task) \<rparr>) s1"
    using op by (auto simp: cancel_request_for_offset_def bind_eq_Some_conv)
  have "pending_inv s1 \<and> dw_queues s1 = dw_queues s \<and> (\<forall>o2. may_place t o2 s1 = may_place t o2 s)"
    using s1 cancel_request_pends [OF inv] inv by (auto split: option.split_asm)
  moreover have "pending_ok (queued_in (dw_queues s1) t) (task\<lparr> dt_unchecked := flat_del o1 (dt_unchecked task) \<rparr>)"
    using calculation pending_at [of s1 t task] task by (intro pending_del_unchecked) simp
  ultimately show ?thesis using task by (simp add: s' may_place_def)
qed

lemma file_waiting_cancelled [simp]: "file_waiting (file_cancelled l) = file_waiting l" "file_ok (file_cancelled l) = file_ok l"
  by (simp_all add: file_waiting_def file_ok_def file_cancelled_def)

lemma file_cancel_pends [pends]:
  assumes inv: "pending_inv s" and op: "file_cancel t fail l s = Some s'"
    and l: "file_ok l" "file_waiting l \<Longrightarrow> \<not> queued_in (dw_queues s) t"
  shows "pending_inv s'"
proof -
  obtain s1 where s1: "cancel_all_requests t s = Some s1"
      and s': "s' = log_event (FileFailed t fail (current_offset l > 0)) (set_loader t (FileLoad (file_cancelled l)) s1)"
    using op by (auto simp: file_cancel_def bind_eq_Some_conv)
  obtain task where "flat_get (dw_tasks s1) t = Some task" "dt_sent task = []" "dt_unchecked task = []" "dw_queues s1 = dw_queues s"
    using cancel_all_requests_effect [OF s1] by blast
  then have "pending_inv (set_loader t (FileLoad (file_cancelled l)) s1)"
    by (intro set_loader_pends [OF cancel_all_requests_pends [OF inv s1]] pending_ok_idle_loader) (use l in simp_all)
  then show ?thesis by (simp add: s')
qed

lemma preload_fail_pends [pends]:
  assumes inv: "pending_inv s" and op: "preload_fail t p s = Some s'"
    and get: "flat_get (dw_tasks s) t = Some task" "dt_loader task = Preload p"
  shows "pending_inv s'"
proof -
  have "pending_inv (set_loader t (Preload (p\<lparr> vp_failed := True \<rparr>)) s)"
    by (intro set_loader_pends [OF inv] pending_ok_loader)
      (use get in \<open>auto simp: pending_ok_def preload_ok_def\<close>)
  then show ?thesis using op cancel_all_requests_pends by (auto simp: preload_fail_def bind_eq_Some_conv)
qed

text \<open>A file loader of a task with the invariant.\<close>

lemma pending_file:
  assumes "pending_inv s" and "flat_get (dw_tasks s) t = Some task" and "dt_loader task = FileLoad l"
  shows "file_ok l" and "file_waiting l \<Longrightarrow> \<not> queued_in (dw_queues s) t"
    and "file_waiting l \<Longrightarrow> dt_sent task = [] \<and> dt_unchecked task = []"
    and "fl_finished l \<Longrightarrow> dt_sent task = [] \<and> dt_unchecked task = []"
proof -
  have ok: "pending_ok (queued_in (dw_queues s) t) task" using pending_at assms(1,2) by blast
  then show "file_ok l" "file_waiting l \<Longrightarrow> \<not> queued_in (dw_queues s) t" using assms(3) by (simp_all add: pending_ok_def)
  have sent: "\<not> file_waiting l \<and> \<not> fl_finished l" if "e \<in> set (dt_sent task)" for e
    using ok that assms(3) by (cases e) (auto simp: pending_ok_def)
  have parts: "\<not> file_waiting l \<and> \<not> fl_finished l" if "flat_get (dt_unchecked task) o1 = Some u" for o1 u
    using ok that assms(3) by (cases u) (auto simp: pending_ok_def)
  have "\<not> file_waiting l \<and> \<not> fl_finished l" if "dt_sent task \<noteq> [] \<or> dt_unchecked task \<noteq> []"
    using that sent parts by (metis flat_get_Cons list.exhaust list.set_intros(1) prod.exhaust)
  then show "file_waiting l \<Longrightarrow> dt_sent task = [] \<and> dt_unchecked task = []"
    "fl_finished l \<Longrightarrow> dt_sent task = [] \<and> dt_unchecked task = []" by blast+
qed

lemma cancel_on_fail_pends [pends]:
  assumes inv: "pending_inv s" and op: "cancel_on_fail t s = Some s'"
  shows "pending_inv s'"
proof -
  obtain task where get: "flat_get (dw_tasks s) t = Some task" using op by (auto simp: cancel_on_fail_def bind_eq_Some_conv)
  show ?thesis
  proof (cases "dt_loader task")
    case (Streaming l)
    then show ?thesis using op inv get by (auto simp: cancel_on_fail_def)
  next
    case (FileLoad l)
    then have "file_cancel t OtherFailure l s = Some s'" using op get by (simp add: cancel_on_fail_def)
    from file_cancel_pends [OF inv this] show ?thesis using pending_file [OF inv get FileLoad] by simp
  next
    case (Preload p)
    then have "preload_fail t p s = Some s'" using op get by (simp add: cancel_on_fail_def)
    from preload_fail_pends [OF inv this get Preload] show ?thesis .
  qed
qed

section \<open>Parts\<close>

lemma mark_last_part_fields [simp]:
  "fl_status (mark_last_part b l) = fl_status l" "fl_next_offset (mark_last_part b l) = fl_next_offset l"
  "fl_finished (mark_last_part b l) = fl_finished l" "fl_local_loading (mark_last_part b l) = fl_local_loading l"
  by (simp_all add: mark_last_part_def)

lemma write_result_part_fields:
  "write_result_part dk o1 b l = Some (ok, l') \<Longrightarrow>
     fl_status l' = fl_status l \<and> fl_next_offset l' = fl_next_offset l \<and> fl_finished l' = fl_finished l
     \<and> fl_local_loading l' = fl_local_loading l \<and> \<not> fl_finished l"
  by (auto simp: write_result_part_def Let_def split: if_split_asm option.split_asm prod.split_asm)

lemma copy_to_file_fields:
  "copy_to_file dk l = (ok, l') \<Longrightarrow>
     fl_status l' = fl_status l \<and> fl_next_offset l' = fl_next_offset l \<and> fl_finished l' = fl_finished l
     \<and> fl_local_loading l' = fl_local_loading l"
  by (auto simp: copy_to_file_def Let_def split: if_split_asm option.split_asm)

lemma file_same_fields:
  assumes "fl_status l' = fl_status l" "fl_next_offset l' = fl_next_offset l" "fl_finished l' = fl_finished l"
    "fl_local_loading l' = fl_local_loading l"
  shows "file_waiting l' = file_waiting l" "file_ok l' = file_ok l" "passed o1 (FileLoad l') = passed o1 (FileLoad l)"
  using assms by (simp_all add: file_waiting_def file_ok_def)

lemma finalize_result_pends:
  assumes inv: "pending_inv s" and op: "finalize_result env t l s = Some (ok, s')"
    and get: "flat_get (dw_tasks s) t = Some task" "dt_sent task = []" "dt_unchecked task = []"
    and l: "file_ok l" "file_waiting l \<Longrightarrow> \<not> queued_in (dw_queues s) t"
  shows "pending_inv s'"
proof -
  obtain good l1 where l1: "copy_to_file (de_disk env) l = (good, l1)" by fastforce
  note same = copy_to_file_fields [OF l1]
  have l1_ok: "file_ok l1" "file_waiting l1 \<Longrightarrow> \<not> queued_in (dw_queues s) t"
    using l file_same_fields [of l1 l] same by simp_all
  show ?thesis
  proof (cases good)
    case False
    then show ?thesis using op l1 file_cancel_pends [OF inv _ l1_ok] by (auto simp: finalize_result_def split: if_split_asm)
  next
    case True
    then have s': "s' = file_finish t l1 s" using op l1 by (auto simp: finalize_result_def split: if_split_asm)
    have "pending_inv (set_loader t (FileLoad (l1\<lparr> fl_finished := True, fl_file := None \<rparr>)) s)"
      by (intro set_loader_pends [OF inv] pending_ok_idle_loader)
        (use get l1_ok in \<open>simp_all add: file_ok_def file_waiting_def\<close>)
    then show ?thesis by (simp add: s' file_finish_def)
  qed
qed

lemma file_feed_part_pends:
  assumes inv: "pending_inv s" and op: "file_feed_part env t o1 buffer l s = Some (ok, s')"
    and get: "flat_get (dw_tasks s) t = Some task" "dt_loader task = FileLoad l"
  shows "pending_inv s'"
proof -
  obtain good l1 where written: "write_result_part (de_disk env) o1 buffer l = Some (good, l1)"
    using op by (auto simp: file_feed_part_def bind_eq_Some_conv)
  note same = file_same_fields [of l1 l] write_result_part_fields [OF written]
  show ?thesis
  proof (cases good)
    case False
    then obtain s1 where "file_cancel t FileWriteFailure l1 s = Some s'"
      using op written by (auto simp: file_feed_part_def)
    from file_cancel_pends [OF inv this] show ?thesis using pending_file [OF inv get] same by simp
  next
    case True
    define l2 where "l2 = mark_last_part buffer l1"
    note same2 = file_same_fields [of l2 l]
    have l2: "fl_status l2 = fl_status l" "fl_next_offset l2 = fl_next_offset l" "fl_finished l2 = fl_finished l"
      "fl_local_loading l2 = fl_local_loading l"
      using same by (simp_all add: l2_def)
    have inv1: "pending_inv (set_loader t (FileLoad l2) s)"
      by (intro set_loader_pends [OF inv] pending_ok_loader)
        (use get same2 [OF l2] pending_file [OF inv get] in simp_all)
    show ?thesis
    proof (cases "file_all_loaded (have_sent_requests task) l2")
      case False
      then show ?thesis using op written True get inv1 by (auto simp: file_feed_part_def Let_def l2_def)
    next
      case all: True
      then obtain s2 where s2: "remove_task t (set_loader t (FileLoad l2) s) = Some s2" "finalize_result env t l2 s2 = Some (ok, s')"
        using op written True get by (auto simp: file_feed_part_def Let_def bind_eq_Some_conv l2_def)
      let ?task = "task\<lparr> dt_loader := FileLoad l2 \<rparr>"
      have "flat_get (dw_tasks (set_loader t (FileLoad l2) s)) t = Some ?task" using get by simp
      from remove_task_effect [OF s2(1) this] have get2: "flat_get (dw_tasks s2) t = Some ?task" by simp
      have inv2: "pending_inv s2" using remove_task_pends [OF inv1 s2(1)] .
      have "dt_loader ?task = FileLoad l2" by simp
      note file2 = pending_file [OF inv2 get2 this]
      have "dt_sent ?task = []" "dt_unchecked ?task = []" using all by (simp_all add: file_all_loaded_def have_sent_requests_def)
      from finalize_result_pends [OF inv2 s2(2) get2 this file2(1,2)] show ?thesis .
    qed
  qed
qed

lemma preload_feed_part_pends:
  assumes inv: "pending_inv s" and op: "preload_feed_part t o1 part p s = Some (ok, s')"
    and get: "flat_get (dw_tasks s) t = Some task" "dt_loader task = Preload p"
  shows "pending_inv s'"
proof -
  obtain finished p1 where feed: "preload_feed o1 part p = Some (finished, p1)"
    using op by (auto simp: preload_feed_part_def bind_eq_Some_conv)
  have p: "preload_ok p" using pending_at [OF inv get(1)] get(2) by (simp add: pending_ok_def)
  then have "preload_ok p1" "vp_next p1 = vp_next p"
    using feed by (auto simp: preload_feed_def Let_def preload_ok_def set_flat_remove split: if_split_asm)
  then have "pending_inv (set_loader t (Preload p1) s)"
    by (intro set_loader_pends [OF inv] pending_ok_loader) (use get in simp_all)
  then show ?thesis using op feed remove_task_pends
    by (auto simp: preload_feed_part_def bind_eq_Some_conv Let_def split: if_split_asm)
qed

lemma feed_part_pends [pends]:
  assumes inv: "pending_inv s" and op: "feed_part env t o1 part s = Some (ok, s')"
  shows "pending_inv s'"
proof -
  obtain task where get: "flat_get (dw_tasks s) t = Some task" using op by (auto simp: feed_part_def bind_eq_Some_conv)
  show ?thesis
  proof (cases "dt_loader task")
    case (Streaming l)
    have requested: "sl_requested (streaming_feed now o1 l) = sl_requested l" for now
      by (simp add: streaming_feed_def Let_def case_prod_beta)
    have "pending_inv (set_loader t (Streaming (streaming_feed (dw_now s) o1 l)) s)"
      by (intro set_loader_pends [OF inv] pending_ok_loader)
        (use get Streaming in \<open>auto simp: requested pending_ok_def\<close>)
    then show ?thesis using op get Streaming by (auto simp: feed_part_def)
  next
    case (FileLoad l)
    then show ?thesis using op get file_feed_part_pends [OF inv _ get FileLoad] by (auto simp: feed_part_def)
  next
    case (Preload p)
    then show ?thesis using op get preload_feed_part_pends [OF inv _ get Preload] by (auto simp: feed_part_def)
  qed
qed

lemma part_loaded_pends [pends]:
  "pending_inv s \<Longrightarrow> part_loaded env t o1 part s = Some s' \<Longrightarrow> pending_inv s'"
  using feed_part_pends by (auto simp: part_loaded_def)

section \<open>Content servers\<close>

lemma may_place_set_task [simp]:
  "may_place t o1 (set_task t task s) = passed o1 (dt_loader task)"
  by (simp add: may_place_def)

lemma may_place_at: "flat_get (dw_tasks s) t = Some task \<Longrightarrow> may_place t o1 s = passed o1 (dt_loader task)"
  by (simp add: may_place_def)

lemma send_kind_pends:
  "send_kind t kind dc r s = Some (rid, s1) \<Longrightarrow> pending_inv s1 = pending_inv s \<and> may_place u o1 s1 = may_place u o1 s
     \<and> dw_tasks s1 = dw_tasks s \<and> dw_queues s1 = dw_queues s"
  by (auto simp: send_kind_Some)

lemma request_more_hashes_pends [pends]:
  assumes inv: "pending_inv s" and op: "request_more_hashes t s = Some s'"
  shows "pending_inv s'"
proof (cases "s' = s")
  case False
  then obtain task o1 r part rest where get: "flat_get (dw_tasks s) t = Some task"
      and us: "dt_unchecked task = (o1, r, part) # rest"
    using op by (auto simp: request_more_hashes_def split: option.split_asm if_split_asm list.splits prod.splits)
  obtain rid s1 where send: "send_kind t (GetCdnHashes (dt_cdn_token task)) (dt_dc task) r s = Some (rid, s1)"
      and place: "place_sent_request t rid r (set_task t (task\<lparr> dt_hashes_request := rid \<rparr>) s1) = Some s'"
    using op False get us
    by (auto simp: request_more_hashes_def bind_eq_Some_conv split: if_split_asm)
  have ok: "pending_ok (queued_in (dw_queues s) t) task" using pending_at [OF inv get] .
  moreover have "rd_offset r = o1" using ok by (simp add: pending_ok_def us unchecked_ok_def)
  ultimately have passed: "passed (rd_offset r) (dt_loader task)" by (simp add: pending_ok_def us flat_get_Cons)
  note same = send_kind_pends [OF send]
  have "pending_inv (set_task t (task\<lparr> dt_hashes_request := rid \<rparr>) s1)"
    using ok same inv by (intro pending_set_task) simp_all
  then show ?thesis using place_sent_request_pends [OF _ _ place] passed by simp
qed (use inv in simp)

lemma finish_all_pends:
  "finish_all t rids s = Some (rs, s') \<Longrightarrow> pending_inv s \<Longrightarrow>
     pending_inv s' \<and> (\<forall>r \<in> set rs. may_place t (rd_offset r) s') \<and> (\<forall>o1. may_place t o1 s' = may_place t o1 s)"
proof (induction t rids s arbitrary: rs rule: finish_all.induct)
  case (2 t rid rids s)
  then obtain r s1 rs' where s1: "finish_sent_request t rid FinishRedirect (log_event (CancelledRequest rid) s) = Some (r, s1)"
      "finish_all t rids s1 = Some (rs', s')" and rs: "rs = r # rs'" by (auto simp: bind_eq_Some_conv)
  have "pending_inv s1 \<and> may_place t (rd_offset r) s1" using finish_sent_request_pends [OF _ s1(1)] 2(3) by simp
  moreover have "may_place t o1 s1 = may_place t o1 s" for o1 using finish_sent_request_may_place [OF s1(1)] by simp
  ultimately have "pending_inv s' \<and> (\<forall>r \<in> set rs'. may_place t (rd_offset r) s') \<and> (\<forall>o1. may_place t o1 s' = may_place t o1 s)
      \<and> may_place t (rd_offset r) s'"
    using 2(1) [OF s1(1) refl s1(2)] by blast
  then show ?case unfolding rs list.set ball_simps by blast
qed simp

lemma make_requests_pends:
  "make_requests t rs s = Some s' \<Longrightarrow> pending_inv s \<Longrightarrow> \<forall>r \<in> set rs. may_place t (rd_offset r) s \<Longrightarrow>
     pending_inv s' \<and> (\<forall>o1. may_place t o1 s' = may_place t o1 s)"
proof (induction t rs s rule: make_requests.induct)
  case (2 t r rs s)
  then obtain s1 where s1: "make_request t r s = Some s1" "make_requests t rs s1 = Some s'"
    by (auto simp: bind_eq_Some_conv)
  have "pending_inv s1 \<and> (\<forall>o1. may_place t o1 s1 = may_place t o1 s)"
    using make_request_pends [OF 2(3) _ s1(1)] 2(4) by simp
  then show ?case using 2(1) [OF s1] 2(4) by simp
qed simp

lemma change_cdn_params_pends:
  assumes inv: "pending_inv s" and place: "may_place t (rd_offset r) s" and op: "change_cdn_params t r c hashes s = Some s'"
  shows "pending_inv s'"
proof (cases "cp_dc c \<noteq> 0 \<and> (length (cp_key c) \<noteq> ctr_key_size \<or> length (cp_iv c) \<noteq> ctr_ivec_size)")
  case True
  then show ?thesis using op cancel_on_fail_pends [OF inv] by (simp add: change_cdn_params_def)
next
  case False
  then obtain task where get: "flat_get (dw_tasks s) t = Some task"
    using op by (auto simp: change_cdn_params_def bind_eq_Some_conv)
  define s1 where "s1 = set_task t (add_cdn_hashes hashes (set_cdn c task)) s"
  have inv1: "pending_inv s1" using inv get by (simp add: s1_def pending_at)
  have may1: "may_place t o1 s1 = may_place t o1 s" for o1 using get by (simp add: s1_def may_place_at)
  show ?thesis
  proof (cases "\<not> same_cdn c task \<and> dt_sent task \<noteq> []")
    case True
    then obtain rs s2 s3 where steps: "finish_all t (map fst (dt_sent task)) s1 = Some (rs, s2)"
        "make_requests t rs s2 = Some s3" "make_request t r s3 = Some s'"
      using op False get by (auto simp: change_cdn_params_def bind_eq_Some_conv Let_def s1_def)
    note s2 = finish_all_pends [OF steps(1) inv1]
    have s3: "pending_inv s3 \<and> (\<forall>o1. may_place t o1 s3 = may_place t o1 s2)"
      using make_requests_pends [OF steps(2)] s2 by blast
    then show ?thesis using make_request_pends [OF _ _ steps(3)] s2 may1 place by simp
  next
    case other: False
    then have "make_request t r s1 = Some s'"
      using op False get by (auto simp: change_cdn_params_def Let_def s1_def)
    from make_request_pends [OF inv1 _ this] show ?thesis using may1 place by simp
  qed
qed

section \<open>Answers and errors\<close>

lemma normal_part_loaded_pends [pends]:
  assumes inv: "pending_inv s" and op: "normal_part_loaded env t rid answer s = Some s'"
  shows "pending_inv s'"
proof -
  obtain dc r s1 s2 where finish: "finish_sent_request t rid FinishSuccess s = Some (r, s1)"
      and body: "(case answer of CdnRedirect c hashes \<Rightarrow> change_cdn_params t r c hashes s1
                  | FileBytes part \<Rightarrow> part_loaded env t (rd_offset r) part s1) = Some s2"
      and send: "check_send_next_after_success dc s2 = Some s'"
    using op by (auto simp: normal_part_loaded_def bind_eq_Some_conv)
  note s1 = finish_sent_request_pends [OF inv finish]
  then have "pending_inv s2"
    using body part_loaded_pends [of s1 env t "rd_offset r" _ s2] change_cdn_params_pends [of s1 t r _ _ s2]
    by (cases answer) simp_all
  then show ?thesis using check_after_success_pends send by blast
qed

lemma set_web_file_size_pends [pends]:
  assumes inv: "pending_inv s" and op: "set_web_file_size t n s = Some (ok, s')"
  shows "pending_inv s'"
proof -
  obtain task where get: "flat_get (dw_tasks s) t = Some task" using op by (auto simp: set_web_file_size_def bind_eq_Some_conv)
  show ?thesis
  proof (cases "dt_loader task")
    case (Streaming l)
    then show ?thesis using op inv get by (simp add: set_web_file_size_def)
  next
    case (FileLoad l)
    let ?l = "l\<lparr> fl_full_size := n, fl_load_size := n \<rparr>"
    have "pending_inv (set_loader t (FileLoad ?l) s)"
      by (intro set_loader_pends [OF inv] pending_ok_loader)
        (use get FileLoad pending_file [OF inv get FileLoad] in \<open>simp_all add: file_ok_def file_waiting_def\<close>)
    then show ?thesis using op get FileLoad file_cancel_pends [OF inv] pending_file [OF inv get FileLoad]
      by (auto simp: set_web_file_size_def split: if_split_asm)
  next
    case (Preload p)
    then show ?thesis using op get preload_fail_pends [OF inv _ get Preload] by (auto simp: set_web_file_size_def)
  qed
qed

lemma web_part_loaded_pends [pends]:
  assumes inv: "pending_inv s" and op: "web_part_loaded env t rid n part s = Some s'"
  shows "pending_inv s'"
proof -
  obtain dc r s1 ok s2 s3 where finish: "finish_sent_request t rid FinishSuccess s = Some (r, s1)"
      and sized: "set_web_file_size t n s1 = Some (ok, s2)"
      and body: "(if ok then part_loaded env t (rd_offset r) part s2 else Some s2) = Some s3"
      and send: "check_send_next_after_success dc s3 = Some s'"
    using op by (auto simp: web_part_loaded_def bind_eq_Some_conv)
  have "pending_inv s2" using set_web_file_size_pends [OF _ sized] finish_sent_request_pends [OF inv finish] by blast
  then have "pending_inv s3" using body part_loaded_pends by (auto split: if_split_asm)
  then show ?thesis using check_after_success_pends send by blast
qed

lemma cdn_part_loaded_pends [pends]:
  assumes inv: "pending_inv s" and op: "cdn_part_loaded env t rid answer s = Some s'"
  shows "pending_inv s'"
proof (cases answer)
  case (ReuploadNeeded token)
  then obtain r s1 kind dc rid1 s2 where finish: "finish_sent_request t rid FinishRedirect s = Some (r, s1)"
      and send: "send_kind t kind dc r s1 = Some (rid1, s2)" and place: "place_sent_request t rid1 r s2 = Some s'"
    using op by (auto simp: cdn_part_loaded_def bind_eq_Some_conv)
  show ?thesis
    using place_sent_request_pends [OF _ _ place] finish_sent_request_pends [OF inv finish] send_kind_pends [OF send] by simp
next
  case (CdnBytes part)
  obtain r s1 where finish: "finish_sent_request t rid FinishSuccess s = Some (r, s1)"
    using op CdnBytes by (auto simp: cdn_part_loaded_def bind_eq_Some_conv)
  note s1 = finish_sent_request_pends [OF inv finish]
  obtain task where get: "flat_get (dw_tasks s1) t = Some task"
    using op CdnBytes finish by (cases "flat_get (dw_tasks s1) t") (simp_all add: cdn_part_loaded_def)
  define plain where "plain = de_aes_ctr env (dt_cdn_key task) (counter_ivec (rd_offset r) (dt_cdn_iv task)) part"
  obtain s2 where "True"
      and body: "(case check_cdn_hash env (rd_offset r) plain task of
                       NoHash \<Rightarrow> request_more_hashes t
                         (set_task t (task\<lparr> dt_unchecked := flat_emplace (rd_offset r) (r, plain) (dt_unchecked task) \<rparr>) s1)
                     | InvalidHash \<Rightarrow> cancel_on_fail t s1
                     | GoodHash \<Rightarrow> part_loaded env t (rd_offset r) plain s1) = Some s2"
      and send: "check_send_next_after_success (dt_dc task) s2 = Some s'"
    using op CdnBytes finish get
    by (simp add: cdn_part_loaded_def Let_def plain_def [symmetric] bind_eq_Some_conv split: if_split_asm) blast
  have "pending_inv (set_task t (task\<lparr> dt_unchecked := flat_emplace (rd_offset r) (r, plain) (dt_unchecked task) \<rparr>) s1)"
    using s1 get pending_at [of s1 t task] by (intro pending_set_task pending_emplace_unchecked) (simp_all add: may_place_at)
  then have "pending_inv s2"
    using body s1 request_more_hashes_pends [of _ t s2] cancel_on_fail_pends [of s1 t s2] part_loaded_pends [of s1 env t "rd_offset r" plain s2]
    by (cases "check_cdn_hash env (rd_offset r) plain task") simp_all
  then show ?thesis using check_after_success_pends send by blast
qed

lemma reupload_done_pends [pends]:
  assumes inv: "pending_inv s" and op: "reupload_done t rid hashes s = Some s'"
  shows "pending_inv s'"
proof -
  obtain r s1 where finish: "finish_sent_request t rid FinishRedirect s = Some (r, s1)"
      and make: "make_request t r (update_task t (add_cdn_hashes hashes) s1) = Some s'"
    using op by (auto simp: reupload_done_def bind_eq_Some_conv)
  note s1 = finish_sent_request_pends [OF inv finish]
  have "may_place t (rd_offset r) (update_task t (add_cdn_hashes hashes) s1)"
    using s1 by (auto simp: may_place_def update_task_def split: option.split)
  then show ?thesis using make_request_pends [OF _ _ make] s1 by simp
qed

lemma check_unchecked_pends:
  "check_unchecked env t us checked s = Some (flag, s') \<Longrightarrow> pending_inv s \<Longrightarrow> pending_inv s'"
proof (induction env t us checked s arbitrary: flag s' rule: check_unchecked.induct)
  case (2 env t o1 r part rest checked s)
  from 2(3) obtain task where get: "flat_get (dw_tasks s) t = Some task" by (auto simp: bind_eq_Some_conv)
  show ?case
  proof (cases "check_cdn_hash env o1 part task")
    case NoHash
    with 2 get show ?thesis by simp
  next
    case InvalidHash
    with 2(3,4) get show ?thesis using cancel_on_fail_pends by auto
  next
    case GoodHash
    with 2(3) get obtain ok s1 where feed: "feed_part env t o1 part
          (set_task t (task\<lparr> dt_unchecked := flat_del o1 (dt_unchecked task) \<rparr>) s) = Some (ok, s1)"
        and rest: "(if ok then check_unchecked env t rest True s1 else Some (None, s1)) = Some (flag, s')"
      by (auto simp: bind_eq_Some_conv)
    have "pending_inv s1" using feed_part_pends [OF _ feed] 2(4) get by (simp add: pending_at)
    then show ?thesis using rest 2(2) [OF get GoodHash feed] by (cases ok) auto
  qed
qed simp

lemma get_cdn_hashes_done_pends [pends]:
  assumes inv: "pending_inv s" and op: "get_cdn_hashes_done env t rid hashes s = Some s'"
  shows "pending_inv s'"
proof -
  obtain r s1 us checked s3 where finish: "finish_sent_request t rid FinishRedirect s = Some (r, s1)"
      and check: "check_unchecked env t us False (update_task t (add_cdn_hashes hashes) s1) = Some (checked, s3)"
      and rest: "(case checked of None \<Rightarrow> Some s3 | Some False \<Rightarrow> cancel_on_fail t s3 | Some True \<Rightarrow> request_more_hashes t s3) = Some s'"
    using op by (auto simp: get_cdn_hashes_done_def bind_eq_Some_conv Let_def split: if_split_asm)
  have "pending_inv s3" using check_unchecked_pends [OF check] finish_sent_request_pends [OF inv finish] by simp
  then show ?thesis
    using rest cancel_on_fail_pends [of s3 t s'] request_more_hashes_pends [of s3 t s']
    by (cases checked) (simp_all split: bool.split_asm)
qed

lemma part_failed_pends [pends]:
  "pending_inv s \<Longrightarrow> part_failed t e s = Some s' \<Longrightarrow> pending_inv s'"
  using cancel_on_fail_pends by (auto simp: part_failed_def split: if_split_asm)

lemma normal_part_failed_pends [pends]:
  "pending_inv s \<Longrightarrow> normal_part_failed t reference e rid s = Some s' \<Longrightarrow> pending_inv s'"
  using part_failed_pends by (auto simp: normal_part_failed_def split: if_split_asm)

lemma cdn_part_failed_pends [pends]:
  assumes inv: "pending_inv s" and op: "cdn_part_failed t e rid s = Some s'"
  shows "pending_inv s'"
proof -
  have "pending_inv s'" if "finish_sent_request t rid FinishRedirect s = Some (r, s1)" "change_cdn_params t r c [] s1 = Some s'" for r s1 c
    using change_cdn_params_pends [OF _ _ that(2)] finish_sent_request_pends [OF inv that(1)] by simp
  then show ?thesis using op inv part_failed_pends
    by (auto simp: cdn_part_failed_def bind_eq_Some_conv split: if_split_asm)
qed

lemma refresh_file_reference_pends [pends]:
  assumes inv: "pending_inv s" and op: "refresh_file_reference t updated rid current s = Some s'"
  shows "pending_inv s'"
proof -
  obtain task where get: "flat_get (dw_tasks s) t = Some task" using op by (auto simp: refresh_file_reference_def bind_eq_Some_conv)
  let ?s = "set_task t (task\<lparr> dt_location := StorageLocation updated \<rparr>) s"
  have inv1: "pending_inv ?s"
    by (rule pending_set_task [OF inv iffD2 [OF pending_same(1) pending_at [OF inv get]]])
  have "pending_inv s'" if "finish_sent_request t rid FinishRedirect ?s = Some (r, s2)" "make_request t r s2 = Some s'" for r s2
    using make_request_pends [OF _ _ that(2)] finish_sent_request_pends [OF inv1 that(1)] by simp
  note change = this
  show ?thesis
  proof (cases "dt_location task")
    case (StorageLocation reference)
    then have "(if updated = current then cancel_on_fail t ?s
         else if flat_get (dt_sent task) rid \<noteq> None
         then do { (r, s2) \<leftarrow> finish_sent_request t rid FinishRedirect ?s; make_request t r s2 }
         else Some ?s) = Some s'" using op get 
      unfolding refresh_file_reference_def Let_def by (simp only: bind.bind_lunit file_location.case)
    then consider "cancel_on_fail t ?s = Some s'" | "?s = s'"
      | r s2 where "finish_sent_request t rid FinishRedirect ?s = Some (r, s2)" "make_request t r s2 = Some s'"
      by (auto simp: bind_eq_Some_conv split: if_split_asm)
    then show ?thesis using inv1 change cancel_on_fail_pends [OF inv1] by cases simp_all
  qed (use op get cancel_on_fail_pends [OF inv] in \<open>simp_all add: refresh_file_reference_def\<close>)
qed

end
