(* ===== verification/Download_Pending_Loaders.thy ===== *)
theory Download_Pending_Loaders
  imports Download_Pending_Steps
begin

text \<open>
  The calls of the loaders keep the second invariant: of the streaming loader, and of the file loader
  with its look into the cache.
\<close>

section \<open>The loader of a task\<close>

definition loader_at :: "nat \<Rightarrow> downloads \<Rightarrow> loader option" where
  "loader_at t s = map_option dt_loader (flat_get (dw_tasks s) t)"

lemma loader_at_irrelevant [simp]:
  "loader_at t (log_event e s) = loader_at t s" "loader_at t (s\<lparr> dw_deferred := ds \<rparr>) = loader_at t s"
  "loader_at t (s\<lparr> dw_log := es \<rparr>) = loader_at t s"
  "loader_at t (set_task t task s) = Some (dt_loader task)"
  by (simp_all add: loader_at_def)

lemma loader_at_Some: "loader_at t s = Some l \<longleftrightarrow> (\<exists>task. flat_get (dw_tasks s) t = Some task \<and> dt_loader task = l)"
  by (auto simp: loader_at_def)

lemma streaming_of_Some: "streaming_of t s = Some l \<longleftrightarrow> loader_at t s = Some (Streaming l)"
  by (auto simp: streaming_of_def loader_at_def split: option.split loader.split)

lemma file_of_Some: "file_of t s = Some l \<longleftrightarrow> loader_at t s = Some (FileLoad l)"
  by (auto simp: file_of_def loader_at_def split: option.split loader.split)

lemma cancel_request_loader: "cancel_request t rid s = Some s' \<Longrightarrow> loader_at t s' = loader_at t s"
  using cancel_request_effect [of t rid s s'] by (auto simp: loader_at_def)

lemma cancel_request_for_offset_loader:
  assumes "cancel_request_for_offset t o1 s = Some s'"
  shows "loader_at t s' = loader_at t s"
proof -
  obtain task :: download_task and s1 task1 where s1: "(case flat_get (dt_by_offset task) o1 of None \<Rightarrow> Some s | Some rid \<Rightarrow> cancel_request t rid s) = Some s1"
      and get: "flat_get (dw_tasks s1) t = Some task1"
      and s': "set_task t (task1\<lparr> dt_unchecked := flat_del o1 (dt_unchecked task1) \<rparr>) s1 = s'"
    using assms unfolding cancel_request_for_offset_def bind_eq_Some_conv option.inject by blast
  have "loader_at t s1 = loader_at t s" using s1 cancel_request_loader by (auto split: option.split_asm)
  then show ?thesis using get by (simp add: s' [symmetric] loader_at_def)
qed

lemma set_loader_loader [simp]: "loader_at t (set_loader t l s) = (if loader_at t s = None then None else Some l)"
  by (auto simp: loader_at_def)

lemma enqueue_loader_pends:
  assumes "pending_inv s" and "enqueue_task t p s = Some s'" and "loader_at t s = Some l" and "\<not> waiting l"
  shows "pending_inv s'"
  by (rule enqueue_task_pends [OF assms(1,2)]) (use assms(3,4) in \<open>auto simp: loader_at_def\<close>)

text \<open>A loader that takes the place of one and has passed what that had.\<close>

lemma replace_loader_pends:
  assumes inv: "pending_inv s" and at: "loader_at t s = Some l"
    and more: "\<And>o1. passed o1 l \<Longrightarrow> passed o1 l'" and ok: "loader_ok l \<Longrightarrow> loader_ok l'" and wait: "waiting l' \<Longrightarrow> waiting l"
  shows "pending_inv (set_loader t l' s)"
  by (rule set_loader_pends [OF inv], rule pending_ok_loader)
    (use at more ok wait in \<open>auto simp: loader_at_Some pending_ok_def\<close>)

section \<open>The streaming loader\<close>

lemma offset_queue_remove_ok:
  assumes "offset_queue_ok q"
  shows "offset_queue_ok (snd (offset_queue_remove v q))"
    and "set (oq_data (snd (offset_queue_remove v q))) = {e \<in> set (oq_data q). fst e \<noteq> v}"
  using drop_offset_spec [OF assms, of v] by (simp_all add: drop_offset_def)

lemma offset_queue_add_ok:
  assumes "offset_queue_ok q"
  shows "offset_queue_ok (snd (offset_queue_add v q))"
    and "set (oq_data (snd (offset_queue_add v q))) = insert (v, oq_priority q) {e \<in> set (oq_data q). fst e \<noteq> v}"
  using add_in_generation_spec [OF assms, of v "oq_priority q"] by (simp_all add: add_in_generation_own)

lemma streaming_cancel_offset_pends [pends]:
  assumes inv: "pending_inv s" and op: "streaming_cancel_offset t o1 s = Some s'"
  shows "pending_inv s'"
proof -
  obtain task l where get: "flat_get (dw_tasks s) t = Some task" and at: "loader_at t s = Some (Streaming l)"
    using op by (auto simp: streaming_cancel_offset_def bind_eq_Some_conv streaming_of_Some)
  have l: "streaming_of t s = Some l" using at by (simp add: streaming_of_Some)
  show ?thesis
  proof (cases "have_sent_for_offset o1 task")
    case False
    then have s': "s' = set_loader t (Streaming (l\<lparr> sl_requested := snd (offset_queue_remove o1 (sl_requested l)) \<rparr>)) s"
      using op get l by (simp add: streaming_cancel_offset_def)
    have "offset_queue_ok (sl_requested l)" using at pending_at [OF inv get] get by (auto simp: loader_at_def pending_ok_def)
    then show ?thesis
      unfolding s' by (intro replace_loader_pends [OF inv at]) (auto simp: offset_queue_remove_ok)
  next
    case True
    then obtain s1 where s1: "cancel_request_for_offset t o1 s = Some s1"
        and rest: "(if \<not> offset_queue_empty (sl_requested l) then enqueue_task t (sl_priority l) s1 else Some s1) = Some s'"
      using op get l by (auto simp: streaming_cancel_offset_def bind_eq_Some_conv)
    have "pending_inv s1" "loader_at t s1 = Some (Streaming l)"
      using cancel_request_for_offset_pends [OF inv s1] cancel_request_for_offset_loader [OF s1] at by simp_all
    then show ?thesis using rest enqueue_loader_pends [of s1 t "sl_priority l" s' "Streaming l"] by (simp split: if_split_asm)
  qed
qed

lemma not_sent_offset:
  assumes "task_ok n task" and "\<not> have_sent_for_offset o1 task"
  shows "(rid, r) \<in> set (dt_sent task) \<Longrightarrow> rd_offset r \<noteq> o1" and "flat_get (dt_unchecked task) o1 = None"
  using assms task_okD(1) [of n task rid r] flat_get_iff [of "dt_sent task" rid r] task_ok_def [of n task]
  by (auto simp: have_sent_for_offset_def simp del: not_None_eq split_paired_Ex)

text \<open>An offset that is not in flight may be asked for.\<close>

lemma streaming_add_pends:
  assumes inv: "downloads_inv x s" "pending_inv s" and get: "flat_get (dw_tasks s) t = Some task"
    and loader: "dt_loader task = Streaming l" and new: "\<not> have_sent_for_offset o1 task"
  shows "pending_inv (set_loader t (Streaming (l\<lparr> sl_requested := snd (offset_queue_add o1 (sl_requested l)) \<rparr>)) s)"
proof -
  have ok: "pending_ok (queued_in (dw_queues s) t) task" using pending_at [OF inv(2) get] .
  have queue: "offset_queue_ok (sl_requested l)" using ok loader by (simp add: pending_ok_def)
  define q where "q = snd (offset_queue_add o1 (sl_requested l))"
  have q: "offset_queue_ok q" "set (oq_data q) = insert (o1, oq_priority (sl_requested l)) {e \<in> set (oq_data (sl_requested l)). fst e \<noteq> o1}"
    unfolding q_def by (rule offset_queue_add_ok [OF queue])+
  note not_sent = not_sent_offset [OF inv_task_ok [OF inv(1) get] new]
  have keys: "fst ` set (oq_data q) \<subseteq> insert o1 (fst ` set (oq_data (sl_requested l)))" unfolding q(2) by auto
  have passed: "passed o2 (Streaming (l\<lparr> sl_requested := q \<rparr>))" if "passed o2 (dt_loader task)" "o2 \<noteq> o1" for o2
    using that keys loader by auto
  have "pending_ok (queued_in (dw_queues s) t) (task\<lparr> dt_loader := Streaming (l\<lparr> sl_requested := q \<rparr>) \<rparr>)"
    unfolding pending_ok_def
  proof (intro conjI allI impI)
    show "\<forall>(rid, r) \<in> set (dt_sent (task\<lparr> dt_loader := Streaming (l\<lparr> sl_requested := q \<rparr>) \<rparr>)).
        passed (rd_offset r) (dt_loader (task\<lparr> dt_loader := Streaming (l\<lparr> sl_requested := q \<rparr>) \<rparr>))"
      using passed [OF _ not_sent(1)] ok by (force simp: pending_ok_def simp del: passed.simps)
    show "passed o2 (dt_loader (task\<lparr> dt_loader := Streaming (l\<lparr> sl_requested := q \<rparr>) \<rparr>))"
      if "flat_get (dt_unchecked (task\<lparr> dt_loader := Streaming (l\<lparr> sl_requested := q \<rparr>) \<rparr>)) o2 \<noteq> None" for o2
      using passed [of o2] ok that not_sent(2) by (cases "o2 = o1") (simp_all add: pending_ok_def)
  qed (use ok q(1) in \<open>simp_all add: pending_ok_def\<close>)
  then show ?thesis unfolding q_def using get by (intro set_loader_pends [OF inv(2)]) simp
qed

lemma streaming_load_pends:
  assumes inv: "downloads_inv x s" "pending_inv s" and op: "streaming_load t o1 loaded s = Some s'"
  shows "pending_inv s'"
proof -
  obtain task l where get: "flat_get (dw_tasks s) t = Some task" and loader: "dt_loader task = Streaming l"
    using op by (auto simp: streaming_load_def bind_eq_Some_conv streaming_of_Some loader_at_Some)
  have l: "streaming_of t s = Some l" using get loader by (simp add: streaming_of_def)
  define l1 where "l1 = Streaming (l\<lparr> sl_requested := snd (offset_queue_add o1 (sl_requested l)) \<rparr>)"
  have at1: "loader_at t (set_loader t l1 s) = Some l1" using get by (simp add: loader_at_def)
  consider "loaded \<noteq> []" | "loaded = []" "have_sent_for_offset o1 task" | "loaded = []" "\<not> have_sent_for_offset o1 task" by blast
  then show ?thesis
  proof cases
    case 1
    then show ?thesis using op get l streaming_cancel_offset_pends [OF inv(2)]
      by (auto simp: streaming_load_def bind_eq_Some_conv)
  next
    case 2
    then show ?thesis using op get l inv(2) by (auto simp: streaming_load_def)
  next
    case 3
    have s1: "pending_inv (set_loader t l1 s)" unfolding l1_def using streaming_add_pends [OF inv get loader 3(2)] .
    have "enqueue_task t (sl_priority l) (set_loader t l1 s) = Some s' \<or> s' = set_loader t l1 s"
      using op get l 3 by (auto simp: streaming_load_def l1_def split: prod.split_asm bool.split_asm)
    then show ?thesis using enqueue_loader_pends [OF s1 _ at1] s1 by (auto simp: l1_def)
  qed
qed

lemma streaming_stop_pends [pends]:
  assumes inv: "pending_inv s" and op: "streaming_stop t s = Some s'"
  shows "pending_inv s'"
proof -
  obtain l s1 where s1: "cancel_all_requests t s = Some s1"
      and rest: "remove_task t (set_loader t (Streaming (l\<lparr> sl_requested := offset_queue_clear (sl_requested l) \<rparr>)) s1) = Some s'"
    using op by (auto simp: streaming_stop_def bind_eq_Some_conv)
  obtain task where "flat_get (dw_tasks s1) t = Some task" "dt_sent task = []" "dt_unchecked task = []"
    using cancel_all_requests_effect [OF s1] by blast
  then have "pending_inv (set_loader t (Streaming (l\<lparr> sl_requested := offset_queue_clear (sl_requested l) \<rparr>)) s1)"
    by (intro set_loader_pends [OF cancel_all_requests_pends [OF inv s1]] pending_ok_idle_loader)
      (simp_all add: offset_queue_clear_def offset_queue_ok_def)
  then show ?thesis using remove_task_pends rest by blast
qed

lemma streaming_try_remove_pends [pends]:
  "pending_inv s \<Longrightarrow> streaming_try_remove t s = Some s' \<Longrightarrow> pending_inv s'"
  using remove_task_pends by (auto simp: streaming_try_remove_def bind_eq_Some_conv split: if_split_asm)

lemma streaming_same_offsets:
  assumes "pending_inv s" and "loader_at t s = Some (Streaming l)"
    and "oq_data (sl_requested l') = oq_data (sl_requested l)"
  shows "pending_inv (set_loader t (Streaming l') s)"
  by (rule replace_loader_pends [OF assms(1,2)]) (use assms(3) in \<open>simp_all add: offset_queue_ok_def\<close>)

lemma streaming_set_priority_pends [pends]:
  assumes inv: "pending_inv s" and op: "streaming_set_priority t p s = Some s'"
  shows "pending_inv s'"
proof -
  obtain l where at: "loader_at t s = Some (Streaming l)"
    using op by (auto simp: streaming_set_priority_def bind_eq_Some_conv streaming_of_Some)
  let ?s = "set_loader t (Streaming (l\<lparr> sl_priority := p \<rparr>)) s"
  have "pending_inv ?s" by (rule streaming_same_offsets [OF inv at]) simp
  moreover have "loader_at t ?s = Some (Streaming (l\<lparr> sl_priority := p \<rparr>))" using at by simp
  moreover have "s' = s \<or> s' = ?s \<or> enqueue_task t p ?s = Some s'"
    using op at by (auto simp: streaming_set_priority_def bind_eq_Some_conv streaming_of_Some Let_def split: if_split_asm)
  ultimately show ?thesis using inv enqueue_loader_pends [of ?s t p s'] by auto
qed

lemma streaming_reset_priorities_pends [pends]:
  assumes inv: "pending_inv s" and op: "streaming_reset_priorities t s = Some s'"
  shows "pending_inv s'"
proof -
  obtain l where at: "loader_at t s = Some (Streaming l)"
      and s': "s' = set_loader t (Streaming (l\<lparr> sl_requested := offset_queue_reset_priorities (sl_requested l) \<rparr>)) s"
    using op by (auto simp: streaming_reset_priorities_def bind_eq_Some_conv streaming_of_Some)
  show ?thesis
    unfolding s' by (rule streaming_same_offsets [OF inv at]) (simp add: offset_queue_reset_priorities_def)
qed

lemma streaming_check_stats_requested: "streaming_check_stats now l = (e, l') \<Longrightarrow> sl_requested l' = sl_requested l"
  by (auto simp: streaming_check_stats_def Let_def split: list.split_asm prod.split_asm if_split_asm)

lemma streaming_stats_timer_pends [pends]:
  assumes inv: "pending_inv s" and op: "streaming_stats_timer t s = Some s'"
  shows "pending_inv s'"
proof -
  obtain l where at: "loader_at t s = Some (Streaming l)"
    using op by (auto simp: streaming_stats_timer_def bind_eq_Some_conv streaming_of_Some)
  obtain e l1 where l1: "streaming_check_stats (dw_now s) l = (e, l1)" by fastforce
  have "pending_inv (set_loader t (Streaming l1) s)"
    by (rule streaming_same_offsets [OF inv at]) (simp add: streaming_check_stats_requested [OF l1])
  then show ?thesis using op at l1
    by (auto simp: streaming_stats_timer_def bind_eq_Some_conv streaming_of_Some Let_def split: option.split_asm)
qed

section \<open>The file loader and the preloader\<close>

lemma pending_file_at:
  assumes "pending_inv s" and "loader_at t s = Some (FileLoad l)"
  shows "file_ok l" and "file_waiting l \<Longrightarrow> \<not> queued_in (dw_queues s) t"
  using assms pending_file(1,2) by (auto simp: loader_at_Some)

lemma replace_file_pends:
  assumes inv: "pending_inv s" and at: "loader_at t s = Some (FileLoad l)"
    and "file_waiting l' \<Longrightarrow> file_waiting l" and "file_ok l'" and "fl_next_offset l \<le> fl_next_offset l'"
    and "fl_finished l' \<Longrightarrow> fl_finished l"
  shows "pending_inv (set_loader t (FileLoad l') s)"
  by (rule replace_loader_pends [OF inv at]) (use assms(3-6) in auto)

lemma check_for_open_fields:
  "check_for_open dk l = Some l' \<Longrightarrow> fl_status l' = fl_status l \<and> fl_next_offset l' = fl_next_offset l \<and> fl_finished l' = fl_finished l
     \<and> fl_local_loading l' = fl_local_loading l"
  by (auto simp: check_for_open_def split: if_split_asm)

lemma file_open_and_pends:
  assumes inv: "pending_inv s" and at: "loader_at t s = Some (FileLoad l)" and op: "file_open_and env t l f s = Some s'"
    and f: "\<And>a l1. pending_inv a \<Longrightarrow> loader_at t a = Some (FileLoad l1) \<Longrightarrow> fl_status l1 = fl_status l \<Longrightarrow>
        fl_next_offset l1 = fl_next_offset l \<Longrightarrow>
        (\<And>task. flat_get (dw_tasks s) t = Some task \<Longrightarrow> flat_get (dw_tasks a) t = Some (task\<lparr> dt_loader := FileLoad l1 \<rparr>)) \<Longrightarrow>
        f a = Some s' \<Longrightarrow> pending_inv s'"
  shows "pending_inv s'"
proof (cases "check_for_open (de_disk env) l")
  case None
  then have "file_cancel t FileWriteFailure l s = Some s'" using op by (simp add: file_open_and_def)
  from file_cancel_pends [OF inv this] show ?thesis using pending_file_at [OF inv at] by simp
next
  case (Some l1)
  then have op1: "f (set_loader t (FileLoad l1) s) = Some s'" using op by (simp add: file_open_and_def)
  note same = check_for_open_fields [OF Some]
  note fields = file_same_fields [of l1 l]
  have "pending_inv (set_loader t (FileLoad l1) s)"
    by (rule replace_file_pends [OF inv at]) (use same fields pending_file_at(1) [OF inv at] in simp_all)
  from f [OF this _ _ _ _ op1] show ?thesis using same at by simp
qed

lemma try_load_local_result:
  assumes "try_load_local t l = (wait, l1, es)" and "file_ok l"
  shows "file_ok l1" and "fl_next_offset l1 = fl_next_offset l" and "fl_finished l1 = fl_finished l"
    and "file_waiting l1 \<Longrightarrow> file_waiting l" and "\<not> wait \<Longrightarrow> \<not> file_waiting l1"
  using assms
  by (cases "fl_status l"; auto simp: try_load_local_def file_ok_def file_waiting_def Let_def split: if_split_asm)+

lemma file_start_pends [pends]:
  assumes inv: "pending_inv s" and op: "file_start env t s = Some s'"
  shows "pending_inv s'"
proof -
  obtain l where at: "loader_at t s = Some (FileLoad l)"
    using op by (auto simp: file_start_def bind_eq_Some_conv file_of_Some)
  then have l: "file_of t s = Some l" by (simp add: file_of_Some)
  obtain wait l1 es where loaded: "try_load_local t l = (wait, l1, es)" by (cases "try_load_local t l") auto
  note l1 = try_load_local_result [OF loaded pending_file_at(1) [OF inv at]]
  let ?s = "(set_loader t (FileLoad l1) s)\<lparr> dw_log := dw_log s @ es \<rparr>"
  have inv1: "pending_inv ?s"
    unfolding pending_irrelevant by (rule replace_file_pends [OF inv at]) (use l1 in simp_all)
  have at1: "loader_at t ?s = Some (FileLoad l1)" using at by simp
  consider "s' = s \<or> s' = ?s" | "\<not> wait" "file_cancel t NoFailure l1 ?s = Some s'"
    | "\<not> wait" "file_open_and env t l1 (enqueue_task t 0) ?s = Some s'"
    using op l loaded by (auto simp: file_start_def Let_def split: if_split_asm)
  then show ?thesis
  proof cases
    case 1
    then show ?thesis using inv inv1 by auto
  next
    case 2
    then show ?thesis using file_cancel_pends [OF inv1] pending_file_at [OF inv1 at1] by blast
  next
    case 3
    show ?thesis
    proof (rule file_open_and_pends [OF inv1 at1 3(2)])
      fix a l2 assume a: "pending_inv a" "loader_at t a = Some (FileLoad l2)" "fl_status l2 = fl_status l1" "enqueue_task t 0 a = Some s'"
      have "\<not> waiting (FileLoad l2)" using l1(5) [OF 3(1)] a(3) by (simp add: file_waiting_def)
      then show "pending_inv s'" by (rule enqueue_loader_pends [OF a(1,4,2)])
    qed
  qed
qed

text \<open>Feeding a part leaves a file loader with its status.\<close>

lemma file_cancel_loader:
  assumes "file_cancel t fail l s = Some s'"
  shows "loader_at t s' = Some (FileLoad (file_cancelled l))"
proof -
  obtain s1 where s1: "cancel_all_requests t s = Some s1"
      and s': "s' = log_event (FileFailed t fail (current_offset l > 0)) (set_loader t (FileLoad (file_cancelled l)) s1)"
    using assms by (auto simp: file_cancel_def bind_eq_Some_conv)
  obtain task where "flat_get (dw_tasks s1) t = Some task" using cancel_all_requests_effect [OF s1] by blast
  then show ?thesis by (simp add: s' loader_at_def)
qed

lemma file_finish_loader: "loader_at t s \<noteq> None \<Longrightarrow> loader_at t (file_finish t l s) = Some (FileLoad (l\<lparr> fl_finished := True, fl_file := None \<rparr>))"
  by (simp add: file_finish_def)

lemma remove_task_loader: "remove_task t s = Some s' \<Longrightarrow> loader_at t s = Some l \<Longrightarrow> loader_at t s' = Some l"
  using remove_task_effect by (fastforce simp: loader_at_Some)

lemma finalize_result_loader:
  assumes op: "finalize_result env t l s = Some (ok, s')" and at: "loader_at t s = Some (FileLoad l)"
  shows "\<exists>l'. loader_at t s' = Some (FileLoad l') \<and> fl_status l' = fl_status l"
proof -
  obtain good l1 where l1: "copy_to_file (de_disk env) l = (good, l1)" by fastforce
  have "file_cancel t FileWriteFailure l1 s = Some s' \<or> s' = file_finish t l1 s"
    using op l1 by (cases good) (auto simp: finalize_result_def split: if_split_asm)
  then show ?thesis
    using file_cancel_loader [of t FileWriteFailure l1 s s'] file_finish_loader [of t s l1] copy_to_file_fields [OF l1] at
    by (auto simp: file_cancelled_def)
qed

lemma file_feed_part_loader:
  assumes op: "file_feed_part env t o1 b l s = Some (ok, s')" and at: "loader_at t s = Some (FileLoad l)"
  shows "\<exists>l'. loader_at t s' = Some (FileLoad l') \<and> fl_status l' = fl_status l"
proof -
  obtain good l1 where written: "write_result_part (de_disk env) o1 b l = Some (good, l1)"
    using op by (auto simp: file_feed_part_def bind_eq_Some_conv)
  have status: "fl_status l1 = fl_status l" using write_result_part_fields [OF written] by simp
  let ?s = "set_loader t (FileLoad (mark_last_part b l1)) s"
  consider "file_cancel t FileWriteFailure l1 s = Some s'"
    | s2 where "remove_task t ?s = Some s2" "finalize_result env t (mark_last_part b l1) s2 = Some (ok, s')"
    | "s' = log_event (LoadProgress t) ?s"
    using op written by (cases good) (auto simp: file_feed_part_def Let_def bind_eq_Some_conv split: if_split_asm)
  then show ?thesis
  proof cases
    case 1
    from file_cancel_loader [OF this] show ?thesis using status by (simp add: file_cancelled_def)
  next
    case (2 s2)
    have "loader_at t s2 = Some (FileLoad (mark_last_part b l1))" by (rule remove_task_loader [OF 2(1)]) (use at in simp)
    from finalize_result_loader [OF 2(2) this] show ?thesis using status by simp
  next
    case 3
    then show ?thesis using at status by simp
  qed
qed

lemma start_with_partial_pends:
  assumes inv: "pending_inv s" and at: "loader_at t s = Some (FileLoad l)" and l: "\<not> file_waiting l"
    and idle: "\<And>task. flat_get (dw_tasks s) t = Some task \<Longrightarrow> dt_sent task = [] \<and> dt_unchecked task = []"
    and op: "start_with_partial env t stored s = Some s'"
  shows "pending_inv s'"
proof -
  define used where "used = (int (length stored) - 8) div download_part_size * download_part_size"
  define l1 where "l1 = l\<lparr> fl_next_offset := used \<rparr>"
  define s0 where "s0 = set_loader t (FileLoad l1) s"
  have l1: "file_ok l1" "\<not> file_waiting l1" "fl_status l1 = fl_status l"
    using pending_file_at(1) [OF inv at] l by (simp_all add: l1_def file_ok_def file_waiting_def)
  have inv0: "pending_inv s0"
    unfolding s0_def by (intro set_loader_pends [OF inv] pending_ok_idle_loader) (use idle l1 in auto)
  have at0: "loader_at t s0 = Some (FileLoad l1)" using at by (simp add: s0_def)
  consider "enqueue_task t 0 s = Some s'"
    | ok s1 where "feed_part env t 0 (take (nat used) (drop 8 stored)) s0 = Some (ok, s1)" "enqueue_task t 0 s1 = Some s'"
    using op at by (auto simp: start_with_partial_def Let_def bind_eq_Some_conv file_of_Some used_def s0_def l1_def split: if_split_asm)
  then show ?thesis
  proof cases
    case 1
    then show ?thesis using enqueue_loader_pends [OF inv _ at] l by simp
  next
    case (2 ok s1)
    have "file_feed_part env t 0 (take (nat used) (drop 8 stored)) l1 s0 = Some (ok, s1)"
      using 2(1) at0 by (auto simp: feed_part_def loader_at_Some)
    from file_feed_part_loader [OF this at0] obtain l2 where l2: "loader_at t s1 = Some (FileLoad l2)" "fl_status l2 = fl_status l1"
      by blast
    have "\<not> waiting (FileLoad l2)" using l1 l2(2) by (simp add: file_waiting_def)
    then show ?thesis using enqueue_loader_pends [OF feed_part_pends [OF inv0 2(1)] 2(2) l2(1)] by simp
  qed
qed

lemma local_loaded_pends:
  assumes inv: "pending_inv s" and possible: "input_possible s (LocalLoaded t stored)"
    and op: "local_loaded env t stored s = Some s'"
  shows "pending_inv s'"
proof -
  obtain l0 where at: "loader_at t s = Some (FileLoad l0)"
    using op by (auto simp: local_loaded_def bind_eq_Some_conv file_of_Some)
  then have l0: "file_of t s = Some l0" by (simp add: file_of_Some)
  have wait: "file_waiting l0"
    using possible l0 pending_file_at(1) [OF inv at] by (simp add: input_possible_def file_ok_def file_waiting_def)
  then have queued: "\<not> queued_in (dw_queues s) t" using pending_file_at(2) [OF inv at] by blast
  have idle: "dt_sent task = [] \<and> dt_unchecked task = []" if "flat_get (dw_tasks s) t = Some task" for task
    using pending_file(3) [OF inv that] at that wait by (simp add: loader_at_def)
  have fresh: "pending_inv (set_loader t (FileLoad l) s)" if "file_ok l" for l
    by (intro set_loader_pends [OF inv] pending_ok_idle_loader) (use idle that queued in auto)
  define l where "l = l0\<lparr> fl_local_loading := False \<rparr>"
  define s1 where "s1 = set_loader t (FileLoad (l\<lparr> fl_status := LocalNotFound \<rparr>)) s"
  have inv1: "pending_inv s1" unfolding s1_def by (rule fresh) (simp add: file_ok_def l_def)
  have at1: "loader_at t s1 = Some (FileLoad (l\<lparr> fl_status := LocalNotFound \<rparr>))" using at by (simp add: s1_def)
  have idle1: "dt_sent task = [] \<and> dt_unchecked task = []" if "flat_get (dw_tasks s1) t = Some task" for task
    using that idle by (auto simp: s1_def)
  consider "file_start env t s1 = Some s'"
    | "file_open_and env t (l\<lparr> fl_status := LocalNotFound \<rparr>) (start_with_partial env t stored) s1 = Some s'"
    | bytes where "finish_with_bytes env t bytes l (set_loader t (FileLoad l) s) = Some s'"
    using op l0 by (auto simp: local_loaded_def Let_def l_def s1_def split: if_split_asm)
  then show ?thesis
  proof cases
    case 1
    then show ?thesis using file_start_pends [OF inv1] by blast
  next
    case 2
    show ?thesis
    proof (rule file_open_and_pends [OF inv1 at1 2])
      fix a l2
      assume a: "pending_inv a" "loader_at t a = Some (FileLoad l2)" "fl_status l2 = fl_status (l\<lparr> fl_status := LocalNotFound \<rparr>)"
        and tasks: "\<And>task. flat_get (dw_tasks s1) t = Some task \<Longrightarrow> flat_get (dw_tasks a) t = Some (task\<lparr> dt_loader := FileLoad l2 \<rparr>)"
        and op2: "start_with_partial env t stored a = Some s'"
      have "dt_sent task = [] \<and> dt_unchecked task = []" if "flat_get (dw_tasks a) t = Some task" for task
      proof -
        obtain task1 where "flat_get (dw_tasks s1) t = Some task1" using at1 by (auto simp: loader_at_Some)
        then show ?thesis using tasks [of task1] that idle1 [of task1] by auto
      qed
      then show "pending_inv s'" using start_with_partial_pends [OF a(1,2) _ _ op2] a(3) by (simp add: file_waiting_def)
    qed
  next
    case (3 bytes)
    let ?l = "l\<lparr> fl_data := bytes, fl_status := local_status.LocalLoaded \<rparr>" and ?s = "set_loader t (FileLoad l) s"
    have invl: "pending_inv ?s" by (rule fresh) (simp add: file_ok_def l_def)
    obtain good l1 where l1: "copy_to_file (de_disk env) ?l = (good, l1)" by fastforce
    have ok1: "file_ok l1" "\<not> file_waiting l1"
      using copy_to_file_fields [OF l1] by (simp_all add: file_ok_def file_waiting_def l_def)
    show ?thesis
    proof (cases good)
      case False
      then have "file_cancel t FileWriteFailure l1 ?s = Some s'" using 3 l1 by (simp add: finish_with_bytes_def)
      from file_cancel_pends [OF invl this] show ?thesis using ok1 by simp
    next
      case True
      have "pending_inv (set_loader t (FileLoad (l1\<lparr> fl_finished := True, fl_file := None \<rparr>)) ?s)"
        by (intro set_loader_pends [OF invl] pending_ok_idle_loader) (use idle ok1 in \<open>auto simp: file_ok_def file_waiting_def\<close>)
      then show ?thesis using 3 l1 True by (auto simp: finish_with_bytes_def)
    qed
  qed
qed

lemma file_cancel_call_pends [pends]:
  assumes inv: "pending_inv s" and op: "file_cancel_call t s = Some s'"
  shows "pending_inv s'"
proof -
  obtain l where at: "loader_at t s = Some (FileLoad l)" and "file_cancel t NoFailure l s = Some s'"
    using op by (auto simp: file_cancel_call_def bind_eq_Some_conv file_of_Some)
  then show ?thesis using file_cancel_pends [OF inv] pending_file_at [OF inv at] by blast
qed

end
