(* ===== verification/Download_Progress.thy ===== *)
theory Download_Progress
  imports Download_Pending_Loaders
begin

text \<open>
  The second invariant holds in every state that can be reached.  There the loop that sends parts ends:
  each turn that sends one takes place in a session, and the places are bounded.
\<close>

section \<open>Tasks that come and go\<close>

lemma preload_start_pends [pends]:
  assumes inv: "pending_inv s" and op: "preload_start t prefix n s = Some s'"
  shows "pending_inv s'"
proof -
  obtain task where get: "flat_get (dw_tasks s) t = Some task" using op by (auto simp: preload_start_def bind_eq_Some_conv)
  obtain p p1 where p: "dt_loader task = Preload p" "preload_load prefix n p = Some p1"
      and enqueue: "enqueue_task t 0 (set_loader t (Preload p1) s) = Some s'"
    using op get by (cases "dt_loader task") (auto simp: preload_start_def bind_eq_Some_conv)
  have at: "loader_at t s = Some (Preload p)" using get p by (simp add: loader_at_def)
  have same: "vp_next p1 = vp_next p" "vp_requested p1 = vp_requested p"
    using p(2) by (auto simp: preload_load_def split: if_split_asm)
  have inv1: "pending_inv (set_loader t (Preload p1) s)"
    by (rule replace_loader_pends [OF inv at]) (simp_all add: same preload_ok_def)
  show ?thesis by (rule enqueue_loader_pends [OF inv1 enqueue, of "Preload p1"]) (use at in simp_all)
qed

lemma destroy_loader_pends [pends]:
  assumes inv: "pending_inv s" and op: "destroy_loader t s = Some s'"
  shows "pending_inv s'"
proof -
  obtain task where get: "flat_get (dw_tasks s) t = Some task" using op by (auto simp: destroy_loader_def bind_eq_Some_conv)
  show ?thesis
  proof (cases "dt_loader task")
    case (Streaming l)
    then show ?thesis using op get inv by (simp add: destroy_loader_def)
  next
    case (FileLoad l)
    then show ?thesis using op get inv file_cancel_pends [OF inv, of t NoFailure l s'] pending_file [OF inv get FileLoad]
      by (simp add: destroy_loader_def split: if_split_asm)
  next
    case (Preload p)
    then show ?thesis using op get inv cancel_all_requests_pends [of s t s']
      by (simp add: destroy_loader_def split: if_split_asm)
  qed
qed

lemma destroy_task_pends [pends]:
  assumes inv: "pending_inv s" and op: "destroy_task t s = Some s'"
  shows "pending_inv s'"
proof -
  obtain s1 s2 s3 where steps: "destroy_loader t s = Some s1" "cancel_all_requests t s1 = Some s2" "remove_task t s2 = Some s3"
      and s': "s' = s3\<lparr> dw_tasks := flat_del t (dw_tasks s3) \<rparr>"
    using op by (auto simp: destroy_task_def bind_eq_Some_conv)
  have "pending_inv s3"
    using remove_task_pends [OF cancel_all_requests_pends [OF destroy_loader_pends [OF inv steps(1)] steps(2)] steps(3)] .
  then show ?thesis by (simp add: s' pending_inv_def)
qed

lemma new_task_pends:
  assumes inv: "downloads_inv x s" "pending_inv s" and free: "flat_get (dw_tasks s) t = None" and fresh: "fresh_loader l"
  shows "pending_inv (set_task t (new_task dc location l) s)"
proof (rule pending_set_task [OF inv(2)])
  have "\<not> queued_in (dw_queues s) t"
    using inv(1) free unfolding queued_in_def downloads_inv_def queues_ok_def by (metis option.distinct(1))
  moreover have "loader_ok l"
  proof (cases l)
    case (Streaming sl)
    then show ?thesis using fresh by (simp add: new_streaming_def offset_queue_ok_def)
  next
    case (FileLoad fl)
    have "\<not> fl_local_loading (new_file named keyed located to_cache from_cloud load full)" for named keyed located to_cache from_cloud load full
      by (simp add: new_file_def)
    then have "\<not> fl_local_loading fl" using fresh FileLoad by (metis fresh_loader.simps(2))
    then show ?thesis using FileLoad by (simp add: file_ok_def)
  next
    case (Preload p)
    have "vp_requested (new_preload full) = []" for full by (simp add: new_preload_def)
    then have "vp_requested p = []" using fresh Preload by (metis fresh_loader.simps(3))
    then show ?thesis using Preload by (simp add: preload_ok_def)
  qed
  ultimately show "pending_ok (queued_in (dw_queues s) t) (new_task dc location l)"
    by (simp add: pending_ok_def new_task_def unchecked_ok_def)
qed

section \<open>Sessions\<close>

lemma move_unchecked_ok:
  "move_unchecked dc i us s = Some us' \<Longrightarrow> unchecked_ok us \<Longrightarrow>
     unchecked_ok us' \<and> (\<forall>o1. flat_get us' o1 = None \<longleftrightarrow> flat_get us o1 = None)"
proof (induction dc i us s arbitrary: us' rule: move_unchecked.induct)
  case (2 dc i o1 r part rest s)
  obtain r' rest' where us': "us' = (o1, r', part) # rest'" "rd_offset r' = rd_offset r" and rest: "move_unchecked dc i rest s = Some rest'"
    using 2(3) by (auto simp: bind_eq_Some_conv split: if_split_asm)
  have "unchecked_ok rest" using 2(4) by (simp add: unchecked_ok_def)
  then have "unchecked_ok rest' \<and> (\<forall>o1. flat_get rest' o1 = None \<longleftrightarrow> flat_get rest o1 = None)"
    using 2 rest by (auto simp: bind_eq_Some_conv split: if_split_asm)
  then show ?case using us' 2(4) by (simp add: unchecked_ok_def flat_get_Cons)
qed simp

lemma redirect_requests_pends:
  "redirect_requests t i rs s = Some s' \<Longrightarrow> pending_inv s \<Longrightarrow> \<forall>(rid, o1) \<in> set rs. may_place t o1 s \<Longrightarrow> pending_inv s'"
proof (induction t i rs s rule: redirect_requests.induct)
  case (2 t i rid o1 rest s)
  then obtain task s1 s2 where s1: "flat_get (dw_tasks s) t = Some task" "cancel_request t rid s = Some s1"
      and s2: "(if rid \<noteq> dt_hashes_request task
           then do { j \<leftarrow> choose_session_index (dt_dc task) s1;
                     if \<not> j < i then None else make_request t (new_request o1 j) s1 }
           else Some s1) = Some s2"
      and rest: "redirect_requests t i rest s2 = Some s'"
    by (auto simp: bind_eq_Some_conv)
  have 1: "pending_inv s1 \<and> (\<forall>o2. may_place t o2 s1 = may_place t o2 s)" using cancel_request_pends [OF 2(3) s1(2)] by blast
  have "s2 = s1 \<or> (\<exists>j. make_request t (new_request o1 j) s1 = Some s2)"
    using s2 by (auto simp: bind_eq_Some_conv split: if_split_asm)
  moreover have "may_place t (rd_offset (new_request o1 j)) s1" for j using 1 2(4) by (simp add: new_request_def)
  ultimately have "pending_inv s2 \<and> (\<forall>o2. may_place t o2 s2 = may_place t o2 s)" using 1 make_request_pends by metis
  then show ?case using 2(1) [OF s1 s2 rest] 2(4) by auto
qed simp

lemma task_remove_session_pends:
  assumes inv: "pending_inv s" and op: "task_remove_session i t s = Some s'"
  shows "pending_inv s'"
proof -
  obtain task us where get: "flat_get (dw_tasks s) t = Some task" and us: "move_unchecked (dt_dc task) i (dt_unchecked task) s = Some us"
      and rest: "redirect_requests t i (sent_in_session i task) (set_task t (task\<lparr> dt_unchecked := us \<rparr>) s) = Some s'"
    using op by (auto simp: task_remove_session_def bind_eq_Some_conv)
  have ok: "pending_ok (queued_in (dw_queues s) t) task" using pending_at [OF inv get] .
  then have "pending_ok (queued_in (dw_queues s) t) (task\<lparr> dt_unchecked := us \<rparr>)"
    using move_unchecked_ok [OF us] by (simp add: pending_ok_def del: not_None_eq)
  then have inv1: "pending_inv (set_task t (task\<lparr> dt_unchecked := us \<rparr>) s)" by (rule pending_set_task [OF inv])
  have "passed (rd_offset r) (dt_loader task)" if "(rid, r) \<in> set (dt_sent task)" for rid r
    using ok that by (auto simp: pending_ok_def)
  then show ?thesis
    using redirect_requests_pends [OF rest inv1] by (fastforce simp: sent_in_session_def)
qed

lemma queue_remove_session_pends:
  "queue_remove_session i q s = Some s' \<Longrightarrow> pending_inv s \<Longrightarrow> pending_inv s'"
proof (induction i q s rule: queue_remove_session.induct)
  case (2 i t p q s)
  then obtain s1 where "task_remove_session i t s = Some s1" "queue_remove_session i q s1 = Some s'"
    by (auto simp: bind_eq_Some_conv)
  then show ?case using 2(1) 2(3) task_remove_session_pends by blast
qed simp

lemma remove_session_pends [pends]:
  assumes inv: "pending_inv s" and op: "remove_session dc s = Some s'"
  shows "pending_inv s'"
proof -
  let ?b = "reserve_session (length (db_sessions (balance_of dc s)) - 1)
    (note_session_removed (int (length (db_sessions (balance_of dc s)) - 1)) (balance_of dc s))"
  obtain i b2 s1 where s1: "queue_remove_session i (queue_of dc s) (set_queue dc (queue_of dc s) (set_balance dc ?b s)) = Some s1"
      and s': "s' = log_event (SessionKilled dc i) (set_balance dc b2 s1)"
    using op by (auto simp: remove_session_def Let_def bind_eq_Some_conv split: if_split_asm)
  have "queue_of dc (set_balance dc ?b s) = queue_of dc s" by (simp add: queue_of_def)
  then have "pending_inv (set_queue dc (queue_of dc s) (set_balance dc ?b s))"
    using set_queue_same_pends [of "set_balance dc ?b s" dc] inv by simp
  from queue_remove_session_pends [OF s1 this] show ?thesis by (simp add: s')
qed

lemma session_timed_out_pends [pends]:
  assumes inv: "pending_inv s" and op: "session_timed_out dc i s = Some s'"
  shows "pending_inv s'"
proof -
  have removed: "remove_session dc (set_balance dc b s) = Some s' \<Longrightarrow> pending_inv s'" for b
    by (rule remove_session_pends [of "set_balance dc b s"]) (simp_all add: inv)
  show ?thesis
  proof (cases "flat_get (dw_balance s) dc")
    case (Some b)
    show ?thesis
      using op inv removed by (auto simp: session_timed_out_def Let_def Some split: if_split_asm)
  qed (use op inv in \<open>simp add: session_timed_out_def\<close>)
qed

lemma kill_dc_sessions_fields:
  "kill_dc_sessions dc s = Some s' \<Longrightarrow> dw_tasks s' = dw_tasks s \<and> dw_queues s' = dw_queues s"
  by (auto simp: kill_dc_sessions_def split: option.split_asm if_split_asm)

lemma kill_due_fields:
  "kill_due left ks s = Some (l, kept, s') \<Longrightarrow> dw_tasks s' = dw_tasks s \<and> dw_queues s' = dw_queues s"
proof (induction left ks s arbitrary: l kept s' rule: kill_due.induct)
  case (2 left dc at rest s)
  show ?case
  proof (cases "at \<le> dw_now s")
    case True
    then obtain s1 where s1: "kill_dc_sessions dc s = Some s1" "kill_due left rest s1 = Some (l, kept, s')"
      using 2(3) by (auto split: option.splits)
    then show ?thesis using 2(1) [OF True s1] kill_dc_sessions_fields [OF s1(1)] by simp
  next
    case False
    then show ?thesis using 2(2,3) by auto
  qed
qed simp

lemma kill_sessions_pends [pends]:
  assumes inv: "pending_inv s" and op: "kill_sessions s = Some s'"
  shows "pending_inv s'"
proof -
  obtain l kept s1 where "kill_due kill_session_timeout (dw_kill_when s) s = Some (l, kept, s1)"
      and s': "s' = s1\<lparr> dw_kill_when := kept, dw_kill_timer := (if kept \<noteq> [] then Some (dw_now s + l) else dw_kill_timer s1) \<rparr>"
    using op by (auto simp: kill_sessions_def)
  then have "dw_tasks s1 = dw_tasks s" "dw_queues s1 = dw_queues s" using kill_due_fields by blast+
  then show ?thesis using inv pending_cong [of s' s] by (simp add: s')
qed

section \<open>Steps\<close>

lemma reset_run_tasks: "reset_run q = Some q' \<Longrightarrow> map fst q' = map fst q"
  by (induction q arbitrary: q' rule: reset_run.induct) (auto split: if_split_asm)

lemma queue_reset_generation_tasks: "queue_reset_generation q = Some q' \<Longrightarrow> map fst q' = map fst q"
proof -
  assume "queue_reset_generation q = Some q'"
  then obtain r where r: "reset_run (dropWhile (\<lambda>(_, p). p \<noteq> 0) q) = Some r" "q' = takeWhile (\<lambda>(_, p). p \<noteq> 0) q @ r"
    by (auto simp: queue_reset_generation_def)
  have "map fst q' = map fst (takeWhile (\<lambda>(_, p). p \<noteq> 0) q @ dropWhile (\<lambda>(_, p). p \<noteq> 0) q)"
    using reset_run_tasks [OF r(1)] by (simp only: r(2) map_append)
  then show ?thesis by (simp only: takeWhile_dropWhile_id)
qed

lemma reset_generation_pends [pends]:
  assumes inv: "pending_inv s" and op: "reset_generation s = Some s'"
  shows "pending_inv s'"
proof -
  obtain qs where qs: "reset_queues (dw_queues s) = Some qs" and s': "s' = s\<lparr> dw_reset_timer := None, dw_queues := qs \<rparr>"
    using op by (auto simp: reset_generation_def)
  have "queued_in (dw_queues s) t" if at: "queued_in qs t" for t
  proof -
    obtain dc q' where q': "flat_get qs dc = Some q'" "t \<in> fst ` set q'" using at unfolding queued_in_def by blast
    then obtain q where q: "flat_get (dw_queues s) dc = Some q" "queue_reset_generation q = Some q'"
      using reset_queues_Some [OF qs] by blast
    have "set (map fst q') = set (map fst q)" using queue_reset_generation_tasks [OF q(2)] by simp
    then have "t \<in> fst ` set q" using q'(2) by simp
    then show ?thesis using q(1) unfolding queued_in_def by blast
  qed
  then show ?thesis using inv by (auto simp: pending_inv_def s' pending_ok_def)
qed

lemma run_deferred_pends [pends]:
  assumes inv: "pending_inv s" and op: "run_deferred s = Some s'"
  shows "pending_inv s'"
proof (cases "dw_deferred s")
  case Nil
  then show ?thesis using op inv by (simp add: run_deferred_def)
next
  case (Cons c rest)
  have "pending_inv (s\<lparr> dw_deferred := rest \<rparr>)" using inv by simp
  note steps = session_timed_out_pends [OF this] request_more_hashes_pends [OF this]
  show ?thesis
  proof (cases c)
    case (SignalTimeout dc i)
    with op Cons have "session_timed_out dc i (s\<lparr> dw_deferred := rest \<rparr>) = Some s'" by (simp add: run_deferred_def)
    then show ?thesis by (rule steps)
  next
    case (MoreHashes t)
    with op Cons have "request_more_hashes t (s\<lparr> dw_deferred := rest \<rparr>) = Some s'" by (simp add: run_deferred_def)
    then show ?thesis by (rule steps)
  qed
qed

lemma download_step_pends:
  assumes inv: "downloads_inv no_extra s" "pending_inv s" and possible: "input_possible s input"
    and step: "download_step env input s = Some s'"
  shows "pending_inv s'"
proof (cases input)
  case (NewTask t dc location l)
  then show ?thesis using step possible new_task_pends [OF inv] by (auto simp: input_possible_def)
next
  case (LocalLoaded t stored)
  then show ?thesis using step possible local_loaded_pends [OF inv(2)] by auto
next
  case (StreamLoad t o1 loaded)
  then show ?thesis using step streaming_load_pends [OF inv] by simp
next
  case (TimePasses d)
  then show ?thesis using step inv(2) by auto
next
  case KillTimer
  then show ?thesis using step inv(2) kill_sessions_pends [of "s\<lparr> dw_kill_timer := None \<rparr>" s'] by simp
qed (insert step inv(2), (simp, rule pends, assumption, assumption)+)

lemma reach_pending: "download_reach s \<Longrightarrow> pending_inv s"
proof (induction rule: download_reach.induct)
  case (reach_start now)
  show ?case by (simp add: pending_inv_def initial_downloads_def)
next
  case (reach_step s input env s')
  then show ?case using download_step_pends reach_inv by blast
qed

end
