(* ===== verification/Download_Sending.thy ===== *)
theory Download_Sending
  imports Download_Progress
begin

text \<open>
  The loop that sends parts.  Every turn that sends one takes a place in a session, so the loop ends;
  when it does, no session has a place left or no task that may be sent is ready.
\<close>

section \<open>The best session\<close>

lemma first_min_least: "xs \<noteq> [] \<Longrightarrow> first_min f xs < length xs \<and> (\<forall>x \<in> set xs. f (xs ! first_min f xs) \<le> f x)"
  by (induction xs) (auto, force+)

lemma best_session_Some:
  assumes "ss \<noteq> []" and "best_session ss = Some j"
  shows "j < length ss \<and> sb_requested (ss ! j) + download_part_size \<le> sb_max_waited (ss ! j)"
  using assms first_min_least [OF assms(1), of session_key] by (auto simp: best_session_def Let_def split: if_split_asm)

text \<open>The session whose key is smallest has a place when any has: what is requested and the limits are
  whole parts.\<close>

lemma best_session_None:
  assumes ss: "ss \<noteq> []" and none: "best_session ss = None"
    and whole: "\<And>x. x \<in> set ss \<Longrightarrow> session_ok x \<and> download_part_size dvd sb_requested x"
    and x: "x \<in> set ss"
  shows "sb_max_waited x < sb_requested x + download_part_size"
proof (rule ccontr)
  let ?y = "ss ! first_min session_key ss"
  assume "\<not> sb_max_waited x < sb_requested x + download_part_size"
  then have room: "sb_requested x + download_part_size \<le> sb_max_waited x" by simp
  have y: "?y \<in> set ss" and least: "session_key ?y \<le> session_key x"
    using first_min_least [OF ss, of session_key] x by auto
  have full: "sb_max_waited ?y < sb_requested ?y + download_part_size"
    using none by (auto simp: best_session_def Let_def split: if_split_asm)
  have positive: "0 < download_part_size" by (simp add: download_part_size_def)
  have "sb_max_waited x \<le> max_waited_in_session" using whole [OF x] by (simp add: session_ok_def)
  then have "session_key x < max_waited_in_session" using room positive by (simp add: session_key_def)
  then have less: "sb_requested ?y < sb_max_waited ?y" using least by (auto simp: session_key_def split: if_split_asm)
  obtain a where a: "sb_requested ?y = download_part_size * a" using whole [OF y] by (auto elim: dvdE)
  obtain b where b: "sb_max_waited ?y = download_part_size * b" using whole [OF y] by (auto simp: session_ok_def elim: dvdE)
  have "a < b" using less positive by (simp add: a b)
  moreover have "download_part_size * b < download_part_size * (a + 1)" using full by (simp add: a b distrib_left)
  then have "b < a + 1" using positive mult_less_cancel_left_pos by blast
  ultimately show False by simp
qed

section \<open>The places of a datacenter\<close>

definition session_room :: "session_balance \<Rightarrow> nat" where
  "session_room x = nat ((sb_max_waited x - sb_requested x) div download_part_size)"

definition dc_room :: "int \<Rightarrow> downloads \<Rightarrow> nat" where
  "dc_room dc s = sum_list (map session_room (db_sessions (balance_of dc s)))"

lemma session_room_add:
  assumes "sb_requested x + download_part_size \<le> sb_max_waited x"
  shows "session_room x = Suc (session_room (add_requested download_part_size x))"
proof -
  define d where "d = sb_max_waited x - sb_requested x"
  have "d div download_part_size = (d - download_part_size) div download_part_size + 1"
    using div_add_self2 [of download_part_size "d - download_part_size"] by (simp add: download_part_size_def)
  moreover have "0 \<le> (d - download_part_size) div download_part_size"
    using assms by (simp add: d_def download_part_size_def pos_imp_zdiv_nonneg_iff)
  ultimately show ?thesis by (simp add: session_room_def add_requested_def d_def algebra_simps)
qed

lemma room_change_session:
  assumes "i < length (db_sessions b)" and "sb_requested (db_sessions b ! i) + download_part_size \<le> sb_max_waited (db_sessions b ! i)"
  shows "sum_list (map session_room (db_sessions b))
    = Suc (sum_list (map session_room (db_sessions (change_session i download_part_size b))))"
proof -
  have "map session_room (db_sessions b) ! i \<le> sum_list (map session_room (db_sessions b))"
    using assms(1) by (intro elem_le_sum_list) simp
  then show ?thesis
    using assms(1) session_room_add [OF assms(2)]
    by (simp add: change_session_def map_update sum_list_update)
qed

lemma sessions_whole:
  assumes inv: "downloads_inv no_extra s" and get: "flat_get (dw_balance s) dc = Some b" and x: "x \<in> set (db_sessions b)"
  shows "session_ok x \<and> download_part_size dvd sb_requested x \<and> 0 \<le> sb_requested x"
proof -
  have acc: "accounts_ok no_extra (dw_balance s) (dw_tasks s)" using inv by (simp add: downloads_inv_def)
  obtain i where i: "i < length (db_sessions b)" "x = db_sessions b ! i" using x by (auto simp: in_set_conv_nth)
  have "session_ok x" using accounts_at(4) [OF acc get] x by (simp add: balance_ok_def)
  moreover have "sb_requested x = download_part_size * sent_count dc i (dw_tasks s)" using accounts_at(1) [OF acc get i(1)] i(2) by simp
  ultimately show ?thesis using sent_count_nonneg by (simp add: download_part_size_def)
qed

lemma session_room_bound: "session_ok x \<Longrightarrow> 0 \<le> sb_requested x \<Longrightarrow> session_room x \<le> 16"
  using zdiv_mono1 [of "sb_max_waited x - sb_requested x" max_waited_in_session download_part_size]
  by (simp add: session_ok_def session_room_def max_waited_in_session_def download_part_size_def)

lemma dc_room_bound:
  assumes "downloads_inv no_extra s"
  shows "dc_room dc s \<le> 128"
proof -
  let ?b = "balance_of dc s"
  have "balance_ok ?b \<and> (\<forall>x \<in> set (db_sessions ?b). 0 \<le> sb_requested x)"
  proof (cases "flat_get (dw_balance s) dc")
    case (Some b)
    have "balance_ok b" using assms Some by (auto simp: downloads_inv_def dest: accounts_at(4))
    then show ?thesis using sessions_whole [OF assms Some] Some by (simp add: balance_of_def)
  qed (simp add: balance_of_def, simp add: new_dc_balance_def new_session_balance_def)
  then have "length (db_sessions ?b) \<le> 8" and each: "\<forall>x \<in> set (db_sessions ?b). session_room x \<le> 16"
    using session_room_bound by (auto simp: balance_ok_def max_sessions_count_def)
  have "sum_list (map session_room (db_sessions ?b)) \<le> sum_list (map (\<lambda>_. 16) (db_sessions ?b))"
    using each by (intro sum_list_mono) simp
  also have "\<dots> \<le> 128" using \<open>length (db_sessions ?b) \<le> 8\<close> by (simp add: sum_list_triv)
  finally show ?thesis by (simp add: dc_room_def)
qed

section \<open>A turn of the loop\<close>

definition both_inv :: "downloads \<Rightarrow> bool" where
  "both_inv s \<longleftrightarrow> downloads_inv no_extra s \<and> pending_inv s"

lemma reach_both: "download_reach s \<Longrightarrow> both_inv s"
  by (simp add: both_inv_def reach_inv reach_pending)

lemma try_send_next_part_both: "both_inv s \<Longrightarrow> try_send_next_part dc s = Some (again, s') \<Longrightarrow> both_inv s'"
  using try_send_next_part_keeps try_send_next_part_pends by (fastforce simp: both_inv_def)

lemma touch_balance_get: "flat_get (dw_balance (touch_balance dc s)) dc = Some (balance_of dc s)"
  by (simp add: touch_balance_def)

lemma balance_of_touch [simp]: "balance_of dc (touch_balance dc s) = balance_of dc s"
  by (simp add: balance_of_def [of dc "touch_balance dc s"] touch_balance_get)

text \<open>A request at an offset that is not in flight can be placed in a session of the datacenter.\<close>

lemma make_request_defined_extra:
  assumes inv: "downloads_inv x s" and get: "flat_get (dw_tasks s) t = Some task"
    and b: "flat_get (dw_balance s) (dt_dc task) = Some b" and i: "rd_session r < length (db_sessions b)"
    and free: "flat_get (dt_by_offset task) (rd_offset r) = None"
  shows "\<exists>s'. make_request t r s = Some s' \<and> dw_next_request s' = dw_next_request s + 1
    \<and> balance_of (dt_dc task) s' = change_session (rd_session r) download_part_size b"
proof -
  have "length (db_sessions b) \<le> max_sessions_count"
    using inv b by (auto simp: downloads_inv_def balance_ok_def dest: accounts_at(4))
  then have session: "rd_session r < max_media_dc_count" using i by (simp add: max_sessions_count_def max_media_dc_count_def)
  define rid where "rid = dw_next_request s"
  define dc where "dc = (if dt_cdn_dc task \<noteq> 0 then dt_cdn_dc task else dt_dc task)"
  define s1 where "s1 = log_event (Sent t rid (request_kind_of task) dc (rd_session r) (rd_offset r))
    (s\<lparr> dw_next_request := dw_next_request s + 1 \<rparr>)"
  have send: "send_request t r s = Some (rid, s1)"
    using get session by (simp add: send_request_def send_kind_def rid_def s1_def dc_def)
  have fields: "dw_tasks s1 = dw_tasks s" "dw_balance s1 = dw_balance s" "dw_next_request s1 = dw_next_request s + 1"
    by (simp_all add: s1_def)
  have new: "flat_get (dt_sent task) rid = None"
  proof (rule ccontr)
    assume "flat_get (dt_sent task) rid \<noteq> None"
    then obtain r' where "flat_get (dt_sent task) rid = Some r'" by blast
    then have "rid < dw_next_request s" using inv_task_ok [OF inv get] by (simp add: task_ok_def)
    then show False by (simp add: rid_def)
  qed
  define s2 where "s2 = kill_sessions_cancel (dt_dc task) (set_balance (dt_dc task) (change_session (rd_session r) download_part_size b) s1)"
  have change: "change_requested_amount (dt_dc task) (rd_session r) download_part_size s1
      = Some (sb_requested (db_sessions b ! rd_session r) + download_part_size, s2)"
    unfolding change_requested_amount_Some using b i by (simp add: fields s2_def download_part_size_def)
  have "dw_balance s2 = flat_put (dt_dc task) (change_session (rd_session r) download_part_size b) (dw_balance s)"
    "dw_next_request s2 = dw_next_request s + 1"
    by (simp_all add: s2_def fields)
  then show ?thesis
    using new free get change by (simp add: make_request_def send place_sent_request_def fields balance_of_def)
qed

lemmas make_request_defined = make_request_defined_extra [of no_extra]

lemma try_send_next_part_defined:
  assumes inv: "both_inv s"
  shows "\<exists>again s'. try_send_next_part dc s = Some (again, s')
    \<and> (again \<longrightarrow> dw_next_request s' = dw_next_request s + 1 \<and> dc_room dc s = Suc (dc_room dc s'))
    \<and> (\<not> again \<longrightarrow> s' = touch_balance dc s
        \<and> (best_session (db_sessions (balance_of dc s)) = None
           \<or> queue_next_task (ready_to_request s') (db_total (balance_of dc s) > 0) (queue_of dc s') = None))"
proof -
  define b where "b = balance_of dc s"
  define s1 where "s1 = touch_balance dc s"
  have inv1: "downloads_inv no_extra s1" "pending_inv s1" using inv by (simp_all add: both_inv_def s1_def)
  have b: "flat_get (dw_balance s1) dc = Some b" by (simp add: s1_def b_def touch_balance_get)
  have "balance_ok b" using inv1(1) b by (auto simp: downloads_inv_def dest: accounts_at(4))
  then have ss: "db_sessions b \<noteq> []" by (auto simp: balance_ok_def start_sessions_count_def)
  have step: "try_send_next_part dc s = (case best_session (db_sessions b) of
             None \<Rightarrow> Some (False, s1)
           | Some i \<Rightarrow>
               (case queue_next_task (ready_to_request s1) (db_total b > 0) (queue_of dc s1) of
                  None \<Rightarrow> Some (False, s1)
                | Some t \<Rightarrow> map_option (Pair True) (load_part t i s1)))"
    using ss unfolding try_send_next_part_def Let_def b_def s1_def by simp
  show ?thesis
  proof (cases "best_session (db_sessions b) = None
      \<or> queue_next_task (ready_to_request s1) (db_total b > 0) (queue_of dc s1) = None")
    case True
    then have "try_send_next_part dc s = Some (False, s1)" using step by (auto split: option.split)
    then show ?thesis using True unfolding s1_def b_def by (intro exI [of _ False] exI [of _ "touch_balance dc s"]) simp
  next
    case False
    then obtain i t where i: "best_session (db_sessions b) = Some i"
        and t: "queue_next_task (ready_to_request s1) (db_total b > 0) (queue_of dc s1) = Some t" by auto
    note i_ok = best_session_Some [OF ss i]
    have ready: "ready_to_request s1 t" and member: "t \<in> fst ` set (queue_of dc s1)"
      using queue_next_task_ready [OF t] by simp_all
    obtain p where "(t, p) \<in> set (queue_of dc s1)" using member by auto
    from queue_of_ok(2) [OF inv1(1) this] obtain task where get: "flat_get (dw_tasks s1) t = Some task" and dc: "dt_dc task = dc"
      by blast
    have ok: "pending_ok True task" using pending_at [OF inv1(2) get] queue_of_queued [OF member] by simp
    obtain o1 l where taken: "loader_take (dw_now s1) (have_sent_requests task) (dt_loader task) = Some (o1, l)"
      using ready get loader_take_ready [of "have_sent_requests task" "dt_loader task" "dw_now s1"]
      by (auto simp: ready_to_request_def)
    have not_passed: "\<not> passed o1 (dt_loader task)"
      using loader_take_passed [OF _ _ taken] ok by (simp add: pending_ok_def)
    have free: "flat_get (dt_by_offset task) o1 = None"
    proof (rule ccontr)
      assume "flat_get (dt_by_offset task) o1 \<noteq> None"
      then obtain rid r where "flat_get (dt_sent task) rid = Some r" "rd_offset r = o1"
        using inv_task_ok [OF inv1(1) get] task_okD(2) by blast
      then show False using sent_passed [OF ok] not_passed by blast
    qed
    define s2 where "s2 = set_task t (task\<lparr> dt_loader := l \<rparr>) s1"
    have inv2: "downloads_inv no_extra s2" using inv1(1) get by (simp add: s2_def)
    have get2: "flat_get (dw_tasks s2) t = Some (task\<lparr> dt_loader := l \<rparr>)" by (simp add: s2_def)
    have b2: "flat_get (dw_balance s2) (dt_dc (task\<lparr> dt_loader := l \<rparr>)) = Some b" using b dc by (simp add: s2_def)
    obtain s' where s': "make_request t (new_request o1 i) s2 = Some s'" "dw_next_request s' = dw_next_request s2 + 1"
        "balance_of dc s' = change_session i download_part_size b"
      using make_request_defined [OF inv2 get2 b2, of "new_request o1 i"] i_ok free dc by (auto simp: new_request_def)
    have "load_part t i s1 = Some s'" using get taken s'(1) by (simp add: load_part_def s2_def)
    then have "try_send_next_part dc s = Some (True, s')" using step i t by simp
    moreover have "dw_next_request s' = dw_next_request s + 1"
      using s'(2) by (simp add: s2_def s1_def touch_balance_def)
    moreover have "dc_room dc s = Suc (dc_room dc s')"
      using room_change_session [of i b] i_ok s'(3) by (simp add: dc_room_def b_def)
    ultimately show ?thesis by blast
  qed
qed

section \<open>The loop\<close>

lemma check_send_next_ends:
  assumes "both_inv s"
  shows "\<exists>s'. check_send_next dc s = Some s' \<and> both_inv s'
    \<and> dw_next_request s' \<le> dw_next_request s + int (dc_room dc s)
    \<and> flat_get (dw_balance s') dc = Some (balance_of dc s')
    \<and> (best_session (db_sessions (balance_of dc s')) = None
       \<or> queue_next_task (ready_to_request s') (db_total (balance_of dc s') > 0) (queue_of dc s') = None)"
  using assms
proof (induction "dc_room dc s" arbitrary: s rule: less_induct)
  case less
  obtain again s1 where turn: "try_send_next_part dc s = Some (again, s1)"
      and sent: "again \<Longrightarrow> dw_next_request s1 = dw_next_request s + 1 \<and> dc_room dc s = Suc (dc_room dc s1)"
      and stops: "\<not> again \<Longrightarrow> s1 = touch_balance dc s
        \<and> (best_session (db_sessions (balance_of dc s)) = None
           \<or> queue_next_task (ready_to_request s1) (db_total (balance_of dc s) > 0) (queue_of dc s1) = None)"
    using try_send_next_part_defined [OF less.prems, of dc] by blast
  have unfolded: "check_send_next dc s = (if again then check_send_next dc s1 else Some s1)"
    using turn by (subst check_send_next.simps) simp
  have inv1: "both_inv s1" using try_send_next_part_both [OF less.prems turn] .
  show ?case
  proof (cases again)
    case True
    have "dc_room dc s1 < dc_room dc s" using sent [OF True] by simp
    from less.hyps [OF this inv1] show ?thesis using unfolded sent [OF True] True by auto
  next
    case False
    have "dw_next_request (touch_balance dc s) = dw_next_request s" by (simp add: touch_balance_def)
    moreover have s1: "s1 = touch_balance dc s" using stops [OF False] by blast
    moreover have "best_session (db_sessions (balance_of dc s1)) = None
        \<or> queue_next_task (ready_to_request s1) (db_total (balance_of dc s1) > 0) (queue_of dc s1) = None"
      using conjunct2 [OF stops [OF False]] unfolding s1 balance_of_touch .
    ultimately show ?thesis using unfolded False inv1 touch_balance_get [of dc s] by auto
  qed
qed

end
