(* ===== verification/Download_Defined.thy ===== *)
theory Download_Defined
  imports Download_Sending
begin

text \<open>
  Which calls of the downloads never fail an assertion: with the two invariants, the calls of the
  loaders, the plain answers, the errors and the timer that kills the sessions.
\<close>

section \<open>Sending\<close>

lemma check_send_next_defined: "both_inv s \<Longrightarrow> check_send_next dc s \<noteq> None"
  using check_send_next_ends [of s dc] by auto

lemma enqueue_task_defined:
  assumes inv: "both_inv s" and at: "loader_at t s = Some l" and l: "\<not> waiting l"
  shows "enqueue_task t p s \<noteq> None"
proof -
  obtain task where get: "flat_get (dw_tasks s) t = Some task" and loader: "dt_loader task = l"
    using at by (auto simp: loader_at_Some)
  define s1 where "s1 = set_queue (dt_dc task) (queue_enqueue t p (queue_of (dt_dc task) s)) s"
  have "downloads_inv no_extra s1" using inv set_queue_enqueue_inv [OF _ get] by (simp add: both_inv_def s1_def)
  moreover have "pending_inv s1"
    unfolding s1_def by (rule set_queue_enqueue_pends) (use inv get loader l in \<open>simp_all add: both_inv_def\<close>)
  ultimately have "both_inv (if dw_reset_timer s1 = None then s1\<lparr> dw_reset_timer := Some (dw_now s1 + reset_priorities_timeout) \<rparr> else s1)"
    by (simp add: both_inv_def)
  from check_send_next_defined [OF this, of "dt_dc task"] show ?thesis
    unfolding enqueue_task_unfold [OF get] Let_def s1_def .
qed

lemma remove_task_defined:
  assumes inv: "both_inv s" and get: "flat_get (dw_tasks s) t = Some task"
  shows "remove_task t s \<noteq> None"
proof -
  have "both_inv (set_queue (dt_dc task) (queue_remove t (queue_of (dt_dc task) s)) s)"
    using inv set_queue_remove_pends by (simp add: both_inv_def)
  then show ?thesis using check_send_next_defined get by (simp add: remove_task_def Let_def del: not_None_eq)
qed

lemma check_after_success_defined:
  assumes inv: "both_inv s"
  shows "check_send_next_after_success dc s \<noteq> None"
proof -
  have "both_inv (set_queue dc (queue_of dc s) s)" using inv set_queue_same_pends by (simp add: both_inv_def)
  then show ?thesis using check_send_next_defined by (simp add: check_send_next_after_success_def del: not_None_eq)
qed

section \<open>Requests\<close>

text \<open>The session of a request in flight is there.\<close>

lemma session_there:
  assumes inv: "downloads_inv x s" and get: "flat_get (dw_tasks s) t = Some task" and sent: "flat_get (dt_sent task) rid = Some r"
  shows "\<exists>b. flat_get (dw_balance s) (dt_dc task) = Some b \<and> rd_session r < length (db_sessions b)"
proof -
  have "1 \<le> sent_count (dt_dc task) (rd_session r) (dw_tasks s)" using sent_count_member(1) [OF get sent] .
  then have "rd_session r < length (sessions_of (dw_balance s) (dt_dc task))"
    using inv unfolding downloads_inv_def accounts_ok_def by (metis not_le not_one_le_zero)
  then show ?thesis by (auto simp: sessions_of_def split: option.split_asm)
qed

lemma finish_sent_request_defined:
  assumes inv: "downloads_inv x s" and get: "flat_get (dw_tasks s) t = Some task" and sent: "flat_get (dt_sent task) rid = Some r"
  shows "\<exists>s'. finish_sent_request t rid reason s = Some (r, s')"
proof -
  obtain b where b: "flat_get (dw_balance s) (dt_dc task) = Some b" "rd_session r < length (db_sessions b)"
    using session_there [OF assms] by blast
  obtain a s1 where change: "change_requested_amount (dt_dc task) (rd_session r) (- download_part_size) s = Some (a, s1)"
      and balance: "flat_get (dw_balance s1) (dt_dc task) = Some (change_session (rd_session r) (- download_part_size) b)"
    using b by (force simp: change_requested_amount_Some Let_def)
  have "request_succeeded (dt_dc task) (rd_session r) (rd_amount r) (rd_sent r) (set_task t (drop_sent rid r task) s1) \<noteq> None"
    using balance b by (simp add: request_succeeded_def change_session_def)
  then obtain s2 where "request_succeeded (dt_dc task) (rd_session r) (rd_amount r) (rd_sent r) (set_task t (drop_sent rid r task) s1) = Some s2"
    by blast
  moreover have "flat_get (dt_by_offset task) (rd_offset r) = Some rid"
    using task_okD(1) [OF inv_task_ok [OF inv get] sent] .
  ultimately show ?thesis using get sent change by (simp add: finish_sent_request_def)
qed

lemma cancel_request_defined:
  assumes inv: "downloads_inv x s" and get: "flat_get (dw_tasks s) t = Some task" and sent: "flat_get (dt_sent task) rid = Some r"
  shows "cancel_request t rid s \<noteq> None"
proof -
  obtain s1 where "finish_sent_request t rid FinishCancel (log_event (CancelledRequest rid) s) = Some (r, s1)"
    using finish_sent_request_defined [of x "log_event (CancelledRequest rid) s" t task rid r FinishCancel] assms by auto
  then show ?thesis using get by (simp add: cancel_request_def)
qed

lemma cancel_requests_defined:
  assumes "both_inv s" and "flat_get (dw_tasks s) t = Some task" and "distinct rids"
    and "\<And>rid. rid \<in> set rids \<Longrightarrow> flat_get (dt_sent task) rid \<noteq> None"
  shows "cancel_requests t rids s \<noteq> None"
  using assms
proof (induction t rids s arbitrary: task rule: cancel_requests.induct)
  case (2 t rid rids s)
  have inv: "downloads_inv no_extra s" using 2(2) by (simp add: both_inv_def)
  obtain r where "flat_get (dt_sent task) rid = Some r" using 2(5) [of rid] by auto
  then obtain s1 where s1: "cancel_request t rid s = Some s1" using cancel_request_defined [OF inv 2(3)] by blast
  have "both_inv s1"
    using 2(2) cancel_request_keeps [OF s1] cancel_request_pends [OF _ s1] by (simp add: both_inv_def)
  moreover obtain r' where "flat_get (dw_tasks s1) t = Some (drop_sent rid r' task)"
    using cancel_request_effect [OF s1] 2(3) by auto
  moreover have "flat_get (dt_sent (drop_sent rid r' task)) rid2 \<noteq> None" if "rid2 \<in> set rids" for rid2 r'
    using that 2(4,5) by (auto simp: drop_sent_def)
  ultimately have "cancel_requests t rids s1 \<noteq> None" using 2(1) [OF s1] 2(4) by simp
  then show ?case using s1 by simp
qed simp

lemma cancel_all_requests_defined:
  assumes inv: "both_inv s" and get: "flat_get (dw_tasks s) t = Some task"
  shows "\<exists>s' task'. cancel_all_requests t s = Some s' \<and> both_inv s' \<and> flat_get (dw_tasks s') t = Some task'
    \<and> dt_loader task' = dt_loader task"
proof -
  have "flat_map_ok (dt_sent task)" using inv inv_task_ok [OF _ get] by (auto simp: both_inv_def task_ok_def)
  then have "distinct (map fst (dt_sent task))" by (simp add: flat_ok_sorted_distinct)
  moreover have "flat_get (dt_sent task) rid \<noteq> None" if "rid \<in> set (map fst (dt_sent task))" for rid
    using that by (simp add: flat_get_keys del: not_None_eq)
  ultimately have "cancel_requests t (map fst (dt_sent task)) s \<noteq> None" using cancel_requests_defined [OF inv get] by blast
  then obtain s' where s': "cancel_all_requests t s = Some s'" using get by (auto simp: cancel_all_requests_def)
  have "both_inv s'"
    using inv cancel_all_requests_keeps [OF s'] cancel_all_requests_pends [OF _ s'] by (simp add: both_inv_def)
  then show ?thesis using s' cancel_all_requests_effect [OF s'] get by auto
qed

lemma cancel_request_for_offset_defined:
  assumes inv: "both_inv s" and get: "flat_get (dw_tasks s) t = Some task"
  shows "\<exists>s'. cancel_request_for_offset t o1 s = Some s' \<and> both_inv s' \<and> loader_at t s' = loader_at t s"
proof -
  have dinv: "downloads_inv no_extra s" using inv by (simp add: both_inv_def)
  obtain s1 task1 where s1: "(case flat_get (dt_by_offset task) o1 of None \<Rightarrow> Some s | Some rid \<Rightarrow> cancel_request t rid s) = Some s1"
      and get1: "flat_get (dw_tasks s1) t = Some task1"
  proof (cases "flat_get (dt_by_offset task) o1")
    case None
    then show ?thesis using that [of s task] get by simp
  next
    case (Some rid)
    then obtain r where sent: "flat_get (dt_sent task) rid = Some r" using task_okD(2) [OF inv_task_ok [OF dinv get]] by blast
    obtain s1 where s1: "cancel_request t rid s = Some s1" using cancel_request_defined [OF dinv get sent] by blast
    then obtain task1 where "flat_get (dw_tasks s1) t = Some task1" using cancel_request_effect [OF s1] by auto
    then show ?thesis using that s1 Some by simp
  qed
  then obtain s' where s': "cancel_request_for_offset t o1 s = Some s'" using get by (auto simp: cancel_request_for_offset_def)
  then show ?thesis
    using inv cancel_request_for_offset_keeps [OF s'] cancel_request_for_offset_pends [OF _ s'] cancel_request_for_offset_loader [OF s']
    by (simp add: both_inv_def)
qed

section \<open>Tasks\<close>

lemma file_cancel_defined:
  "both_inv s \<Longrightarrow> flat_get (dw_tasks s) t = Some task \<Longrightarrow> file_cancel t fail l s \<noteq> None"
  using cancel_all_requests_defined [of s t task] by (auto simp: file_cancel_def)

lemma both_set_loader: "both_inv s \<Longrightarrow> pending_inv (set_loader t l s) \<Longrightarrow> both_inv (set_loader t l s)"
  by (simp add: both_inv_def)

lemma preload_failed_pends:
  assumes inv: "pending_inv s" and get: "flat_get (dw_tasks s) t = Some task" "dt_loader task = Preload p"
  shows "pending_inv (set_loader t (Preload (p\<lparr> vp_failed := True \<rparr>)) s)"
  by (rule replace_loader_pends [OF inv]) (use get in \<open>auto simp: loader_at_Some preload_ok_def\<close>)

lemma preload_fail_defined:
  assumes inv: "both_inv s" and get: "flat_get (dw_tasks s) t = Some task" "dt_loader task = Preload p"
  shows "preload_fail t p s \<noteq> None"
proof -
  have "both_inv (set_loader t (Preload (p\<lparr> vp_failed := True \<rparr>)) s)"
    by (rule both_set_loader [OF inv preload_failed_pends]) (use inv get in \<open>simp_all add: both_inv_def\<close>)
  from cancel_all_requests_defined [OF this, of t] show ?thesis using get by (auto simp: preload_fail_def)
qed

lemma cancel_on_fail_defined:
  assumes inv: "both_inv s" and get: "flat_get (dw_tasks s) t = Some task"
  shows "cancel_on_fail t s \<noteq> None"
  using file_cancel_defined [OF inv get] preload_fail_defined [OF inv get] get
  by (cases "dt_loader task") (simp_all add: cancel_on_fail_def del: not_None_eq)

lemma part_failed_defined:
  "both_inv s \<Longrightarrow> flat_get (dw_tasks s) t = Some task \<Longrightarrow> part_failed t e s \<noteq> None"
  using cancel_on_fail_defined by (simp add: part_failed_def del: not_None_eq)

lemma normal_part_failed_defined:
  "both_inv s \<Longrightarrow> flat_get (dw_tasks s) t = Some task \<Longrightarrow> normal_part_failed t reference e rid s \<noteq> None"
  using part_failed_defined by (simp add: normal_part_failed_def del: not_None_eq)

text \<open>A part for a streaming or a file loader that has passed its offset.\<close>

lemma finalize_result_defined:
  assumes inv: "both_inv s" and get: "flat_get (dw_tasks s) t = Some task" and l: "\<not> fl_finished l"
  shows "finalize_result env t l s \<noteq> None"
proof -
  obtain good l1 where "copy_to_file (de_disk env) l = (good, l1)" by fastforce
  then show ?thesis using l file_cancel_defined [OF inv get, of FileWriteFailure l1]
    by (cases good) (simp_all add: finalize_result_def del: not_None_eq)
qed

lemma write_result_part_defined: "\<not> fl_finished l \<Longrightarrow> write_result_part dk o1 b l \<noteq> None"
  by (auto simp: write_result_part_def Let_def split: option.split prod.split)

lemma file_feed_part_defined:
  assumes inv: "both_inv s" and get: "flat_get (dw_tasks s) t = Some task" "dt_loader task = FileLoad l" and l: "\<not> fl_finished l"
  shows "file_feed_part env t o1 buffer l s \<noteq> None"
proof -
  obtain good l1 where written: "write_result_part (de_disk env) o1 buffer l = Some (good, l1)"
    using write_result_part_defined [OF l, of "de_disk env" o1 buffer] by auto
  note same = write_result_part_fields [OF written]
  define l2 where "l2 = mark_last_part buffer l1"
  define s1 where "s1 = set_loader t (FileLoad l2) s"
  show ?thesis
  proof (cases "good \<and> file_all_loaded (have_sent_requests task) l2")
    case False
    then show ?thesis using written get file_cancel_defined [OF inv get(1), of FileWriteFailure l1]
      by (cases good) (simp_all add: file_feed_part_def l2_def Let_def del: not_None_eq)
  next
    case True
    have fields: "fl_status l2 = fl_status l" "fl_next_offset l2 = fl_next_offset l" "fl_finished l2 = fl_finished l"
      "fl_local_loading l2 = fl_local_loading l" using same by (simp_all add: l2_def)
    have at: "loader_at t s = Some (FileLoad l)" using get by (simp add: loader_at_def)
    have pinv: "pending_inv s" using inv by (simp add: both_inv_def)
    have "pending_inv s1"
      unfolding s1_def by (rule replace_file_pends [OF pinv at])
        (use file_same_fields [OF fields] fields pending_file_at(1) [OF pinv at] in simp_all)
    then have inv1: "both_inv s1" using both_set_loader [OF inv] by (simp add: s1_def)
    have get1: "flat_get (dw_tasks s1) t = Some (task\<lparr> dt_loader := FileLoad l2 \<rparr>)" using get by (simp add: s1_def)
    obtain s2 where s2: "remove_task t s1 = Some s2" using remove_task_defined [OF inv1 get1] by blast
    have "both_inv s2"
      using inv1 remove_task_keeps [OF s2] remove_task_pends [OF _ s2] by (simp add: both_inv_def)
    then have "finalize_result env t l2 s2 \<noteq> None"
      using finalize_result_defined remove_task_effect [OF s2 get1] fields(3) l by simp
    then show ?thesis using written True get s2 by (simp add: file_feed_part_def l2_def s1_def Let_def)
  qed
qed

fun preloads :: "loader \<Rightarrow> bool" where
  "preloads (Preload p) = True"
| "preloads _ = False"

lemma feed_part_defined:
  assumes inv: "both_inv s" and get: "flat_get (dw_tasks s) t = Some task"
    and passed: "passed o1 (dt_loader task)" and kind: "\<not> preloads (dt_loader task)"
  shows "feed_part env t o1 part s \<noteq> None"
proof (cases "dt_loader task")
  case (FileLoad l)
  then show ?thesis using file_feed_part_defined [OF inv get FileLoad] passed get by (simp add: feed_part_def)
qed (use get kind in \<open>simp_all add: feed_part_def\<close>)

section \<open>Answers\<close>

lemma finish_both:
  assumes inv: "both_inv s" and get: "flat_get (dw_tasks s) t = Some task" and sent: "flat_get (dt_sent task) rid = Some r"
  shows "\<exists>s1. finish_sent_request t rid reason s = Some (r, s1) \<and> both_inv s1
    \<and> flat_get (dw_tasks s1) t = Some (drop_sent rid r task)"
proof -
  obtain s1 where s1: "finish_sent_request t rid reason s = Some (r, s1)"
    using finish_sent_request_defined [OF _ get sent] inv by (auto simp: both_inv_def)
  have "both_inv s1"
    using inv finish_sent_request_keeps [OF s1] finish_sent_request_pends [OF _ s1] by (simp add: both_inv_def)
  then show ?thesis using s1 finish_sent_request_effect [OF s1] get by auto
qed

lemma normal_part_defined:
  assumes inv: "both_inv s" and get: "flat_get (dw_tasks s) t = Some task" and sent: "flat_get (dt_sent task) rid = Some r"
    and kind: "\<not> preloads (dt_loader task)"
  shows "normal_part_loaded env t rid (FileBytes part) s \<noteq> None"
proof -
  obtain s1 where s1: "finish_sent_request t rid FinishSuccess s = Some (r, s1)" "both_inv s1"
      "flat_get (dw_tasks s1) t = Some (drop_sent rid r task)"
    using finish_both [OF inv get sent] by blast
  have "passed (rd_offset r) (dt_loader task)"
    using sent_passed [OF pending_at [OF _ get] sent] inv by (simp add: both_inv_def)
  then have "feed_part env t (rd_offset r) part s1 \<noteq> None" using feed_part_defined [OF s1(2,3)] kind by simp
  then obtain s2 where s2: "part_loaded env t (rd_offset r) part s1 = Some s2" by (auto simp: part_loaded_def)
  have "both_inv s2"
    using s1(2) part_loaded_keeps [OF s2] part_loaded_pends [OF _ s2] by (simp add: both_inv_def)
  then show ?thesis using check_after_success_defined get s1(1) s2 by (simp add: normal_part_loaded_def del: not_None_eq)
qed

text \<open>Placing the request that was just finished again.\<close>

lemma finish_and_make_defined:
  assumes inv: "both_inv s" and get: "flat_get (dw_tasks s) t = Some task" and sent: "flat_get (dt_sent task) rid = Some r"
    and finish: "finish_sent_request t rid reason s = Some (r, s1)"
    and s2: "both_inv s2" "flat_get (dw_tasks s2) t = Some task2" "dt_by_offset task2 = dt_by_offset (drop_sent rid r task)"
      "dt_dc task2 = dt_dc task" "session_count s2 = session_count s1" and reason: "reason \<noteq> FinishSuccess"
  shows "make_request t r s2 \<noteq> None"
proof -
  obtain b where b: "flat_get (dw_balance s) (dt_dc task) = Some b" "rd_session r < length (db_sessions b)"
    using session_there [OF _ get sent] inv by (auto simp: both_inv_def)
  have "session_count s2 (dt_dc task) = length (db_sessions b)"
    using finish_sent_request_count [OF finish reason] s2(5) b(1) by (simp add: session_count_def sessions_of_def)
  then obtain b2 where b2: "flat_get (dw_balance s2) (dt_dc task2) = Some b2" "rd_session r < length (db_sessions b2)"
    using b(2) s2(4) by (auto simp: session_count_def sessions_of_def split: option.split_asm)
  have "flat_get (dt_by_offset task2) (rd_offset r) = None" by (simp add: s2(3) drop_sent_def)
  then show ?thesis using make_request_defined [OF _ s2(2) b2] s2(1) by (auto simp: both_inv_def)
qed

lemma update_task_hashes [simp]:
  "flat_get (dw_tasks s) t = Some task \<Longrightarrow> update_task t (add_cdn_hashes hs) s = set_task t (add_cdn_hashes hs task) s"
  by (simp add: update_task_def)

lemma reupload_done_defined:
  assumes inv: "both_inv s" and get: "flat_get (dw_tasks s) t = Some task" and sent: "flat_get (dt_sent task) rid = Some r"
  shows "reupload_done t rid hashes s \<noteq> None"
proof -
  obtain s1 where s1: "finish_sent_request t rid FinishRedirect s = Some (r, s1)" "both_inv s1"
      "flat_get (dw_tasks s1) t = Some (drop_sent rid r task)"
    using finish_both [OF inv get sent] by blast
  let ?s2 = "set_task t (add_cdn_hashes hashes (drop_sent rid r task)) s1"
  have "both_inv ?s2"
    using s1(2,3) pending_at [of s1 t] by (auto simp: both_inv_def)
  then have "make_request t r ?s2 \<noteq> None"
  proof (rule finish_and_make_defined [OF inv get sent s1(1)])
    show "flat_get (dw_tasks ?s2) t = Some (add_cdn_hashes hashes (drop_sent rid r task))" by simp
  qed (simp_all add: add_cdn_hashes_def drop_sent_def)
  then show ?thesis using s1 by (simp add: reupload_done_def)
qed

lemma refresh_file_reference_defined:
  assumes inv: "both_inv s" and get: "flat_get (dw_tasks s) t = Some task"
  shows "refresh_file_reference t updated rid current s \<noteq> None"
proof (cases "dt_location task")
  case (StorageLocation reference)
  let ?task = "task\<lparr> dt_location := StorageLocation updated \<rparr>"
  let ?s = "set_task t ?task s"
  have "pending_inv ?s"
    using inv pending_at [OF _ get] by (intro pending_set_task) (simp_all add: both_inv_def)
  then have inv1: "both_inv ?s" using inv get by (simp add: both_inv_def)
  have get1: "flat_get (dw_tasks ?s) t = Some ?task" by simp
  show ?thesis
  proof (cases "updated \<noteq> current \<and> flat_get (dt_sent task) rid \<noteq> None")
    case True
    then obtain r where sent: "flat_get (dt_sent ?task) rid = Some r" by auto
    obtain s2 where s2: "finish_sent_request t rid FinishRedirect ?s = Some (r, s2)" "both_inv s2"
        "flat_get (dw_tasks s2) t = Some (drop_sent rid r ?task)"
      using finish_both [OF inv1 get1 sent] by blast
    have "make_request t r s2 \<noteq> None"
      by (rule finish_and_make_defined [OF inv1 get1 sent s2(1,2,3)]) (simp_all add: drop_sent_def)
    then show ?thesis using True get StorageLocation s2(1) by (simp add: refresh_file_reference_def Let_def)
  next
    case False
    then show ?thesis using get StorageLocation cancel_on_fail_defined [OF inv1 get1]
      by (auto simp: refresh_file_reference_def Let_def simp del: not_None_eq)
  qed
qed (use get cancel_on_fail_defined [OF inv get] in \<open>simp_all add: refresh_file_reference_def del: not_None_eq\<close>)

end
