(* ===== verification/Download_Contract.thy ===== *)
theory Download_Contract
  imports Download_Defined
begin

text \<open>
  The calls of the machine that never fail an assertion, among them the redirection of a task to a
  content server, with the conditions under which they do not.
\<close>

section \<open>Another content server\<close>

lemma finish_all_defined:
  assumes "both_inv s" and "flat_get (dw_tasks s) t = Some task" and "distinct rids"
    and "\<And>rid. rid \<in> set rids \<Longrightarrow> flat_get (dt_sent task) rid \<noteq> None"
  shows "\<exists>rs s' task'. finish_all t rids s = Some (rs, s') \<and> both_inv s' \<and> session_count s' = session_count s
    \<and> flat_get (dw_tasks s') t = Some task' \<and> dt_dc task' = dt_dc task \<and> distinct (map rd_offset rs)
    \<and> (\<forall>o1 rid. flat_get (dt_by_offset task') o1 = Some rid \<longrightarrow> flat_get (dt_by_offset task) o1 = Some rid \<and> rid \<notin> set rids)
    \<and> (\<forall>r \<in> set rs. rd_session r < session_count s (dt_dc task)
         \<and> (\<exists>rid \<in> set rids. flat_get (dt_by_offset task) (rd_offset r) = Some rid))"
  using assms
proof (induction rids arbitrary: s task)
  case (Cons rid rids)
  let ?s = "log_event (CancelledRequest rid) s"
  have dinv: "downloads_inv no_extra ?s" and inv: "both_inv ?s" using Cons.prems(1) by (simp_all add: both_inv_def)
  have get: "flat_get (dw_tasks ?s) t = Some task" using Cons.prems(2) by simp
  have "flat_get (dt_sent task) rid \<noteq> None" using Cons.prems(4) [of rid] by simp
  then obtain r where sent: "flat_get (dt_sent task) rid = Some r" by blast
  obtain s1 where s1: "finish_sent_request t rid FinishRedirect ?s = Some (r, s1)" "both_inv s1"
      "flat_get (dw_tasks s1) t = Some (drop_sent rid r task)"
    using finish_both [OF inv get sent] by blast
  have count: "session_count s1 = session_count s" using finish_sent_request_count [OF s1(1)] by simp
  have tok: "task_ok (dw_next_request s) task" using inv_task_ok [OF dinv get] by simp
  have at: "flat_get (dt_by_offset task) (rd_offset r) = Some rid" using task_okD(1) [OF tok sent] .
  have rest: "flat_get (dt_sent (drop_sent rid r task)) rid2 \<noteq> None" if "rid2 \<in> set rids" for rid2
  proof -
    have "rid2 \<noteq> rid" using that Cons.prems(3) by auto
    then show ?thesis using Cons.prems(4) [of rid2] that by (simp add: drop_sent_def del: not_None_eq)
  qed
  have "distinct rids" using Cons.prems(3) by simp
  from Cons.IH [OF s1(2,3) this rest]
  obtain rs s' task' where IH: "finish_all t rids s1 = Some (rs, s')" "both_inv s'" "session_count s' = session_count s1"
      "flat_get (dw_tasks s') t = Some task'" "dt_dc task' = dt_dc (drop_sent rid r task)" "distinct (map rd_offset rs)"
      "\<forall>o1 rid2. flat_get (dt_by_offset task') o1 = Some rid2 \<longrightarrow>
         flat_get (dt_by_offset (drop_sent rid r task)) o1 = Some rid2 \<and> rid2 \<notin> set rids"
      "\<forall>r2 \<in> set rs. rd_session r2 < session_count s1 (dt_dc (drop_sent rid r task))
         \<and> (\<exists>rid2 \<in> set rids. flat_get (dt_by_offset (drop_sent rid r task)) (rd_offset r2) = Some rid2)" by blast
  have session: "rd_session r < session_count s (dt_dc task)"
    using session_there [OF dinv get sent] by (auto simp: session_count_def sessions_of_def)
  have other: "rid2 \<noteq> rid" if found: "flat_get (dt_by_offset task) o1 = Some rid2" "o1 \<noteq> rd_offset r" for o1 rid2
  proof
    assume "rid2 = rid"
    then obtain r2 where "flat_get (dt_sent task) rid = Some r2" "rd_offset r2 = o1" using task_okD(2) [OF tok found(1)] by auto
    then show False using sent found(2) by simp
  qed
  have free: "rd_offset r2 \<noteq> rd_offset r" if "r2 \<in> set rs" for r2 using IH(8) that by (fastforce simp: drop_sent_def)
  have "finish_all t (rid # rids) s = Some (r # rs, s')" using s1(1) IH(1) by simp
  moreover have "distinct (map rd_offset (r # rs))" using IH(6) free by fastforce
  moreover have "flat_get (dt_by_offset task) o1 = Some rid2 \<and> rid2 \<notin> set (rid # rids)"
    if "flat_get (dt_by_offset task') o1 = Some rid2" for o1 rid2
  proof -
    have "flat_get (dt_by_offset (drop_sent rid r task)) o1 = Some rid2" "rid2 \<notin> set rids" using IH(7) that by blast+
    then show ?thesis using other [of o1 rid2] by (auto simp: drop_sent_def split: if_split_asm)
  qed
  moreover have "rd_session r2 < session_count s (dt_dc task)
      \<and> (\<exists>rid2 \<in> set (rid # rids). flat_get (dt_by_offset task) (rd_offset r2) = Some rid2)" if "r2 \<in> set (r # rs)" for r2
  proof (cases "r2 = r")
    case False
    then have "r2 \<in> set rs" using that by simp
    with IH(8) count obtain rid2 where "rd_session r2 < session_count s (dt_dc task)" "rid2 \<in> set rids"
        "flat_get (dt_by_offset (drop_sent rid r task)) (rd_offset r2) = Some rid2"
      by (fastforce simp: drop_sent_def)
    then show ?thesis by (auto simp: drop_sent_def split: if_split_asm)
  qed (use session at in simp)
  ultimately show ?case using IH(2,3,4,5) count by (simp add: drop_sent_def)
qed simp

lemma make_request_both:
  assumes inv: "both_inv s" and get: "flat_get (dw_tasks s) t = Some task"
    and i: "rd_session r < session_count s (dt_dc task)" and free: "flat_get (dt_by_offset task) (rd_offset r) = None"
    and place: "may_place t (rd_offset r) s"
  shows "\<exists>s' task'. make_request t r s = Some s' \<and> both_inv s' \<and> session_count s' = session_count s
    \<and> flat_get (dw_tasks s') t = Some task' \<and> dt_dc task' = dt_dc task
    \<and> (\<forall>o1. o1 \<noteq> rd_offset r \<longrightarrow> flat_get (dt_by_offset task') o1 = flat_get (dt_by_offset task) o1)
    \<and> (\<forall>o1. may_place t o1 s' = may_place t o1 s)"
proof -
  obtain b where b: "flat_get (dw_balance s) (dt_dc task) = Some b" "rd_session r < length (db_sessions b)"
    using i by (auto simp: session_count_def sessions_of_def split: option.split_asm)
  obtain s' where s': "make_request t r s = Some s'"
    using make_request_defined [OF _ get b free] inv by (auto simp: both_inv_def)
  have both: "both_inv s' \<and> (\<forall>o1. may_place t o1 s' = may_place t o1 s)"
    using inv make_request_keeps [OF s'] make_request_pends [OF _ place s'] by (simp add: both_inv_def)
  obtain a where "dw_tasks s' = flat_put t (add_sent (dw_next_request s) (r\<lparr> rd_amount := a, rd_sent := dw_now s \<rparr>) task) (dw_tasks s)"
    using make_request_effect [OF s'] get by auto
  then have "flat_get (dw_tasks s') t = Some (add_sent (dw_next_request s) (r\<lparr> rd_amount := a, rd_sent := dw_now s \<rparr>) task)" by simp
  then show ?thesis using s' both make_request_count [OF s'] by (auto simp: add_sent_def)
qed

lemma make_requests_defined:
  assumes "both_inv s" and "flat_get (dw_tasks s) t = Some task" and "distinct (map rd_offset rs)"
    and "\<And>r. r \<in> set rs \<Longrightarrow> rd_session r < session_count s (dt_dc task) \<and> flat_get (dt_by_offset task) (rd_offset r) = None
      \<and> may_place t (rd_offset r) s"
  shows "\<exists>s' task'. make_requests t rs s = Some s' \<and> both_inv s' \<and> session_count s' = session_count s
    \<and> flat_get (dw_tasks s') t = Some task' \<and> dt_dc task' = dt_dc task
    \<and> (\<forall>o1. o1 \<notin> rd_offset ` set rs \<longrightarrow> flat_get (dt_by_offset task') o1 = flat_get (dt_by_offset task) o1)
    \<and> (\<forall>o1. may_place t o1 s' = may_place t o1 s)"
  using assms
proof (induction rs arbitrary: s task)
  case (Cons r rs)
  obtain s1 task1 where s1: "make_request t r s = Some s1" "both_inv s1" "session_count s1 = session_count s"
      "flat_get (dw_tasks s1) t = Some task1" "dt_dc task1 = dt_dc task"
      "\<forall>o1. o1 \<noteq> rd_offset r \<longrightarrow> flat_get (dt_by_offset task1) o1 = flat_get (dt_by_offset task) o1"
      "\<forall>o1. may_place t o1 s1 = may_place t o1 s"
    using make_request_both [OF Cons.prems(1,2), of r] Cons.prems(4) [of r] by auto
  have rest: "rd_session r2 < session_count s1 (dt_dc task1) \<and> flat_get (dt_by_offset task1) (rd_offset r2) = None
      \<and> may_place t (rd_offset r2) s1" if "r2 \<in> set rs" for r2
  proof -
    have "rd_offset r2 \<noteq> rd_offset r" using Cons.prems(3) that by (metis distinct.simps(2) image_eqI list.set_map list.simps(9))
    then show ?thesis using Cons.prems(4) [of r2] that s1 by simp
  qed
  have "distinct (map rd_offset rs)" using Cons.prems(3) by simp
  from Cons.IH [OF s1(2,4) this rest] obtain s' task' where IH: "make_requests t rs s1 = Some s'" "both_inv s'"
      "session_count s' = session_count s1" "flat_get (dw_tasks s') t = Some task'" "dt_dc task' = dt_dc task1"
      "\<forall>o1. o1 \<notin> rd_offset ` set rs \<longrightarrow> flat_get (dt_by_offset task') o1 = flat_get (dt_by_offset task1) o1"
      "\<forall>o1. may_place t o1 s' = may_place t o1 s1" by blast
  have "flat_get (dt_by_offset task') o1 = flat_get (dt_by_offset task) o1" if "o1 \<notin> rd_offset ` set (r # rs)" for o1
    using that IH(6) s1(6) by simp
  moreover have "may_place t o1 s' = may_place t o1 s" for o1 using IH(7) s1(7) by simp
  ultimately show ?case using IH(1-5) s1(1,3,5) by auto
qed auto

lemma change_cdn_params_defined:
  assumes inv: "both_inv s" and get: "flat_get (dw_tasks s) t = Some task"
    and i: "rd_session r < session_count s (dt_dc task)" and free: "flat_get (dt_by_offset task) (rd_offset r) = None"
    and place: "may_place t (rd_offset r) s"
  shows "change_cdn_params t r c hashes s \<noteq> None"
proof (cases "cp_dc c \<noteq> 0 \<and> (length (cp_key c) \<noteq> ctr_key_size \<or> length (cp_iv c) \<noteq> ctr_ivec_size)")
  case True
  then have "change_cdn_params t r c hashes s = cancel_on_fail t s" by (simp only: change_cdn_params_def simp_thms if_True)
  then show ?thesis using cancel_on_fail_defined [OF inv get] by simp
next
  case False
  define task1 where "task1 = add_cdn_hashes hashes (set_cdn c task)"
  define s1 where "s1 = set_task t task1 s"
  have dinv: "downloads_inv no_extra s" and pinv: "pending_inv s" using inv by (simp_all add: both_inv_def)
  have "pending_inv s1" using pending_at [OF pinv get] pinv unfolding s1_def task1_def by (intro pending_set_task) simp_all
  then have inv1: "both_inv s1" using dinv get by (simp add: both_inv_def s1_def task1_def)
  have get1: "flat_get (dw_tasks s1) t = Some task1" by (simp add: s1_def)
  have same: "dt_dc task1 = dt_dc task" "dt_by_offset task1 = dt_by_offset task" "dt_sent task1 = dt_sent task"
    by (simp_all add: task1_def add_cdn_hashes_def set_cdn_def)
  have count1: "session_count s1 = session_count s" by (simp add: s1_def)
  have may1: "may_place t o1 s1 = may_place t o1 s" for o1 using get by (simp add: s1_def task1_def may_place_at)
  show ?thesis
  proof (cases "\<not> same_cdn c task \<and> dt_sent task \<noteq> []")
    case other: False
    have "make_request t r s1 \<noteq> None"
      using make_request_both [OF inv1 get1, of r] i free place by (auto simp: same count1 may1)
    then show ?thesis using False other get by (auto simp: change_cdn_params_def Let_def s1_def task1_def)
  next
    case True
    have keys: "distinct (map fst (dt_sent task))"
      using inv_task_ok [OF dinv get] by (simp add: task_ok_def flat_ok_sorted_distinct)
    have there: "flat_get (dt_sent task1) rid \<noteq> None" if "rid \<in> set (map fst (dt_sent task))" for rid
      using that by (simp add: flat_get_keys same del: not_None_eq)
    from finish_all_defined [OF inv1 get1 keys there] obtain rs s2 task2 where all: "finish_all t (map fst (dt_sent task)) s1 = Some (rs, s2)" "both_inv s2"
        "session_count s2 = session_count s1" "flat_get (dw_tasks s2) t = Some task2" "dt_dc task2 = dt_dc task1"
        "distinct (map rd_offset rs)"
        "\<forall>o1 rid. flat_get (dt_by_offset task2) o1 = Some rid \<longrightarrow>
           flat_get (dt_by_offset task1) o1 = Some rid \<and> rid \<notin> set (map fst (dt_sent task))"
        "\<forall>r \<in> set rs. rd_session r < session_count s1 (dt_dc task1)
           \<and> (\<exists>rid \<in> set (map fst (dt_sent task)). flat_get (dt_by_offset task1) (rd_offset r) = Some rid)" by blast
    note finished = finish_all_pends [OF all(1)]
    have empty: "flat_get (dt_by_offset task2) o1 = None" if "flat_get (dt_by_offset task1) o1 = None
        \<or> (\<exists>rid \<in> set (map fst (dt_sent task)). flat_get (dt_by_offset task1) o1 = Some rid)" for o1
      using that all(7) by (cases "flat_get (dt_by_offset task2) o1") auto
    have ready: "rd_session r2 < session_count s2 (dt_dc task2) \<and> flat_get (dt_by_offset task2) (rd_offset r2) = None
        \<and> may_place t (rd_offset r2) s2" if "r2 \<in> set rs" for r2
      using that all(3,5,8) empty finished inv1 by (auto simp: both_inv_def)
    obtain s3 task3 where made: "make_requests t rs s2 = Some s3" "both_inv s3" "session_count s3 = session_count s2"
        "flat_get (dw_tasks s3) t = Some task3" "dt_dc task3 = dt_dc task2"
        "\<forall>o1. o1 \<notin> rd_offset ` set rs \<longrightarrow> flat_get (dt_by_offset task3) o1 = flat_get (dt_by_offset task2) o1"
        "\<forall>o1. may_place t o1 s3 = may_place t o1 s2"
      using make_requests_defined [OF all(2,4,6) ready] by blast
    have "rd_offset r \<notin> rd_offset ` set rs" using all(8) free by (fastforce simp: same)
    then have "flat_get (dt_by_offset task3) (rd_offset r) = None" using made(6) empty [of "rd_offset r"] free by (simp add: same)
    moreover have "rd_session r < session_count s3 (dt_dc task3)" using i by (simp only: made(3,5) all(3,5) same count1)
    moreover have "may_place t (rd_offset r) s3" using made(7) finished inv1 place may1 by (simp add: both_inv_def)
    ultimately have "make_request t r s3 \<noteq> None" using make_request_both [OF made(2,4), of r] by auto
    then show ?thesis using False True get all(1) made(1)
      by (auto simp: change_cdn_params_def Let_def s1_def task1_def)
  qed
qed

section \<open>Answers\<close>

lemma session_within:
  assumes inv: "both_inv s" and get: "flat_get (dw_tasks s) t = Some task" and sent: "flat_get (dt_sent task) rid = Some r"
  shows "rd_session r < session_count s (dt_dc task)"
proof -
  have "downloads_inv no_extra s" using inv by (simp add: both_inv_def)
  from session_there [OF this get sent] show ?thesis by (auto simp: session_count_def sessions_of_def)
qed

text \<open>What a request just finished leaves: it may be placed again.\<close>

lemma finished_request:
  assumes inv: "both_inv s" and get: "flat_get (dw_tasks s) t = Some task" and sent: "flat_get (dt_sent task) rid = Some r"
  shows "\<exists>s1 task1. finish_sent_request t rid reason s = Some (r, s1) \<and> both_inv s1
    \<and> flat_get (dw_tasks s1) t = Some task1 \<and> dt_dc task1 = dt_dc task \<and> dt_loader task1 = dt_loader task
    \<and> flat_get (dt_by_offset task1) (rd_offset r) = None \<and> may_place t (rd_offset r) s1
    \<and> (reason \<noteq> FinishSuccess \<longrightarrow> rd_session r < session_count s1 (dt_dc task1))"
proof -
  obtain s1 where s1: "finish_sent_request t rid reason s = Some (r, s1)" "both_inv s1"
      "flat_get (dw_tasks s1) t = Some (drop_sent rid r task)"
    using finish_both [OF inv get sent] by blast
  have "rd_session r < session_count s (dt_dc task)"
    using session_within [OF inv get sent] .
  then have "reason \<noteq> FinishSuccess \<longrightarrow> rd_session r < session_count s1 (dt_dc task)"
    using finish_sent_request_count [OF s1(1)] by simp
  then show ?thesis
    using s1 finish_sent_request_pends [OF _ s1(1)] inv by (simp add: drop_sent_def both_inv_def)
qed

text \<open>A success leaves the sessions, or adds one.\<close>

lemma request_succeeded_count:
  "request_succeeded dc i a started s = Some s' \<Longrightarrow> session_count s d \<le> session_count s' d"
proof -
  assume op: "request_succeeded dc i a started s = Some s'"
  have grow: "length (db_sessions b) \<le> length (db_sessions (balance_success now a i b))" for now b
    by (simp add: balance_success_def Let_def)
  show ?thesis
    using op grow by (auto simp: request_succeeded_def session_count_def sessions_of_def split: option.split_asm if_split_asm)
qed

lemma finish_success_count:
  assumes "finish_sent_request t rid reason s = Some (r, s')"
  shows "session_count s d \<le> session_count s' d"
proof (rule finish_sent_request_unfold [OF assms])
  fix task b s1
  assume b: "flat_get (dw_balance s) (dt_dc task) = Some b"
    and s1: "s1 = (let s2 = set_balance (dt_dc task) (change_session (rd_session r) (- download_part_size) b) s
               in if \<not> (\<exists>y \<in> set (db_sessions (change_session (rd_session r) (- download_part_size) b)). sb_requested y > 0)
                  then kill_sessions_schedule (dt_dc task) s2 else s2)"
    and s': "(if reason = FinishSuccess
          then request_succeeded (dt_dc task) (rd_session r) (rd_amount r) (rd_sent r) (set_task t (drop_sent rid r task) s1)
          else Some (set_task t (drop_sent rid r task) s1)) = Some s'"
  have "session_count s1 d = session_count s d"
    using b by (simp add: s1 Let_def session_count_def sessions_of_def change_session_def)
  then show ?thesis using s' request_succeeded_count [of _ _ _ _ "set_task t (drop_sent rid r task) s1" s' d]
    by (auto split: if_split_asm)
qed

lemma redirect_defined:
  assumes inv: "both_inv s" and get: "flat_get (dw_tasks s) t = Some task" and sent: "flat_get (dt_sent task) rid = Some r"
  shows "normal_part_loaded env t rid (CdnRedirect c hashes) s \<noteq> None"
proof -
  obtain s1 task1 where s1: "finish_sent_request t rid FinishSuccess s = Some (r, s1)" "both_inv s1"
      "flat_get (dw_tasks s1) t = Some task1" "dt_dc task1 = dt_dc task"
      "flat_get (dt_by_offset task1) (rd_offset r) = None" "may_place t (rd_offset r) s1"
    using finished_request [OF inv get sent, of FinishSuccess] by blast
  have "rd_session r < session_count s (dt_dc task)"
    using session_within [OF inv get sent] .
  then have "rd_session r < session_count s1 (dt_dc task1)"
    using finish_success_count [OF s1(1), of "dt_dc task"] s1(4) by simp
  from change_cdn_params_defined [OF s1(2,3) this s1(5,6)] obtain s2 where s2: "change_cdn_params t r c hashes s1 = Some s2" by blast
  have "both_inv s2"
    using s1(2,6) change_cdn_params_keeps [OF s2] change_cdn_params_pends [OF _ _ s2] by (simp add: both_inv_def)
  then show ?thesis using check_after_success_defined get s1(1) s2 by (simp add: normal_part_loaded_def del: not_None_eq)
qed

lemma cdn_part_failed_defined:
  assumes inv: "both_inv s" and get: "flat_get (dw_tasks s) t = Some task" and sent: "flat_get (dt_sent task) rid = Some r"
  shows "cdn_part_failed t e rid s \<noteq> None"
proof -
  obtain s1 task1 where s1: "finish_sent_request t rid FinishRedirect s = Some (r, s1)" "both_inv s1"
      "flat_get (dw_tasks s1) t = Some task1" "rd_session r < session_count s1 (dt_dc task1)"
      "flat_get (dt_by_offset task1) (rd_offset r) = None" "may_place t (rd_offset r) s1"
    using finished_request [OF inv get sent, of FinishRedirect] by auto
  have "change_cdn_params t r c [] s1 \<noteq> None" for c by (rule change_cdn_params_defined [OF s1(2-6)])
  then show ?thesis using s1(1) part_failed_defined [OF inv get, of e] by (simp add: cdn_part_failed_def del: not_None_eq)
qed

lemma web_part_defined:
  assumes inv: "both_inv s" and get: "flat_get (dw_tasks s) t = Some task" and sent: "flat_get (dt_sent task) rid = Some r"
  shows "web_part_loaded env t rid n part s \<noteq> None"
proof -
  obtain s1 task1 where s1: "finish_sent_request t rid FinishSuccess s = Some (r, s1)" "both_inv s1"
      "flat_get (dw_tasks s1) t = Some task1" "may_place t (rd_offset r) s1"
    using finished_request [OF inv get sent, of FinishSuccess] by blast
  have passed: "passed (rd_offset r) (dt_loader task1)" using s1(3,4) by (simp add: may_place_at)
  have "\<exists>ok s2. set_web_file_size t n s1 = Some (ok, s2) \<and> (ok \<longrightarrow> (\<exists>task2. flat_get (dw_tasks s2) t = Some task2
      \<and> passed (rd_offset r) (dt_loader task2) \<and> \<not> preloads (dt_loader task2)))"
  proof (cases "dt_loader task1")
    case (Streaming l)
    then show ?thesis using s1(3) passed by (intro exI [of _ True] exI [of _ s1]) (simp add: set_web_file_size_def)
  next
    case (FileLoad l)
    then show ?thesis using s1(3) passed file_cancel_defined [OF s1(2,3), of OtherFailure l]
      by (auto simp: set_web_file_size_def file_waiting_def)
  next
    case (Preload p)
    then show ?thesis using s1(3) preload_fail_defined [OF s1(2,3) Preload] by (auto simp: set_web_file_size_def)
  qed
  then obtain ok s2 where s2: "set_web_file_size t n s1 = Some (ok, s2)"
      "ok \<Longrightarrow> \<exists>task2. flat_get (dw_tasks s2) t = Some task2 \<and> passed (rd_offset r) (dt_loader task2) \<and> \<not> preloads (dt_loader task2)"
    by blast
  have inv2: "both_inv s2"
    using s1(2) set_web_file_size_keeps [OF s2(1)] set_web_file_size_pends [OF _ s2(1)] by (simp add: both_inv_def)
  obtain s3 where s3: "(if ok then part_loaded env t (rd_offset r) part s2 else Some s2) = Some s3" "both_inv s3"
  proof (cases ok)
    case True
    then obtain task2 where "flat_get (dw_tasks s2) t = Some task2" "passed (rd_offset r) (dt_loader task2)" "\<not> preloads (dt_loader task2)"
      using s2(2) by blast
    from feed_part_defined [OF inv2 this, of env part] obtain s3 where s3: "part_loaded env t (rd_offset r) part s2 = Some s3"
      by (auto simp: part_loaded_def)
    then have "both_inv s3"
      using inv2 part_loaded_keeps [OF s3] part_loaded_pends [OF _ s3] by (simp add: both_inv_def)
    then show ?thesis using that True s3 by simp
  qed (use that inv2 in simp)
  then show ?thesis using check_after_success_defined get s1(1) s2(1) by (simp add: web_part_loaded_def del: not_None_eq)
qed

section \<open>The calls of the loaders\<close>

lemma streaming_cancel_offset_defined:
  assumes inv: "both_inv s" and at: "loader_at t s = Some (Streaming l)"
  shows "streaming_cancel_offset t o1 s \<noteq> None"
proof -
  obtain task where get: "flat_get (dw_tasks s) t = Some task" using at by (auto simp: loader_at_Some)
  have l: "streaming_of t s = Some l" using at by (simp add: streaming_of_Some)
  obtain s1 where s1: "cancel_request_for_offset t o1 s = Some s1" "both_inv s1" "loader_at t s1 = Some (Streaming l)"
    using cancel_request_for_offset_defined [OF inv get, of o1] at by auto
  have "enqueue_task t p s1 \<noteq> None" for p by (rule enqueue_task_defined [OF s1(2,3)]) simp
  then show ?thesis using get l s1(1) by (simp add: streaming_cancel_offset_def del: not_None_eq)
qed

lemma streaming_load_defined:
  assumes inv: "both_inv s" and at: "loader_at t s = Some (Streaming l)"
  shows "streaming_load t o1 loaded s \<noteq> None"
proof -
  obtain task where get: "flat_get (dw_tasks s) t = Some task" using at by (auto simp: loader_at_Some)
  have l: "streaming_of t s = Some l" using at by (simp add: streaming_of_Some)
  have cancel: "\<exists>s1. streaming_cancel_offset t o1 s = Some s1" using streaming_cancel_offset_defined [OF inv at] by simp
  obtain more q where q: "offset_queue_add o1 (sl_requested l) = (more, q)" by fastforce
  let ?s = "set_loader t (Streaming (l\<lparr> sl_requested := q \<rparr>)) s"
  have "enqueue_task t (sl_priority l) ?s \<noteq> None" if new: "\<not> have_sent_for_offset o1 task"
  proof (rule enqueue_task_defined)
    have dinv: "downloads_inv no_extra s" and pinv: "pending_inv s" using inv by (simp_all add: both_inv_def)
    have "pending_inv ?s" using streaming_add_pends [OF dinv pinv get _ new, of l] at get q by (auto simp: loader_at_def)
    then show "both_inv ?s" by (rule both_set_loader [OF inv])
    show "loader_at t ?s = Some (Streaming (l\<lparr> sl_requested := q \<rparr>))" using at by simp
  qed simp
  then show ?thesis using get l cancel q
    by (cases more) (auto simp: streaming_load_def simp del: not_None_eq)
qed

lemma streaming_stop_defined:
  assumes inv: "both_inv s" and at: "loader_at t s = Some (Streaming l)"
  shows "streaming_stop t s \<noteq> None"
proof -
  obtain task where get: "flat_get (dw_tasks s) t = Some task" using at by (auto simp: loader_at_Some)
  obtain s1 task1 where s1: "cancel_all_requests t s = Some s1" "both_inv s1" "flat_get (dw_tasks s1) t = Some task1"
    using cancel_all_requests_defined [OF inv get] by blast
  have idle: "dt_sent task1 = []" "dt_unchecked task1 = []" using cancel_all_requests_effect [OF s1(1)] s1(3) by auto
  let ?l = "Streaming (l\<lparr> sl_requested := offset_queue_clear (sl_requested l) \<rparr>)"
  have "pending_inv (set_loader t ?l s1)"
    by (rule set_loader_pends, use s1 in \<open>simp add: both_inv_def\<close>, rule pending_ok_idle_loader)
      (use idle s1 in \<open>simp_all add: offset_queue_clear_def offset_queue_ok_def\<close>)
  then have "both_inv (set_loader t ?l s1)" by (rule both_set_loader [OF s1(2)])
  then have "remove_task t (set_loader t ?l s1) \<noteq> None"
    by (rule remove_task_defined [of _ _ "task1\<lparr> dt_loader := ?l \<rparr>"]) (use s1(3) in simp)
  moreover have "streaming_of t s = Some l" using at by (simp add: streaming_of_Some)
  ultimately show ?thesis using s1(1) by (simp add: streaming_stop_def del: not_None_eq)
qed

lemma streaming_set_priority_defined:
  assumes inv: "both_inv s" and at: "loader_at t s = Some (Streaming l)"
  shows "streaming_set_priority t p s \<noteq> None"
proof -
  obtain task where get: "flat_get (dw_tasks s) t = Some task" using at by (auto simp: loader_at_Some)
  let ?s = "set_loader t (Streaming (l\<lparr> sl_priority := p \<rparr>)) s"
  have "pending_inv ?s" by (rule streaming_same_offsets [OF _ at]) (use inv in \<open>simp_all add: both_inv_def\<close>)
  then have "both_inv ?s" by (rule both_set_loader [OF inv])
  then have "enqueue_task t p ?s \<noteq> None" by (rule enqueue_task_defined) (use at in simp, simp)
  moreover have "streaming_of t s = Some l" using at by (simp add: streaming_of_Some)
  ultimately show ?thesis using get by (simp add: streaming_set_priority_def Let_def del: not_None_eq)
qed

lemma file_start_defined:
  assumes inv: "both_inv s" and at: "loader_at t s = Some (FileLoad l)"
  shows "file_start env t s \<noteq> None"
proof -
  have pinv: "pending_inv s" using inv by (simp add: both_inv_def)
  obtain wait l1 es where loaded: "try_load_local t l = (wait, l1, es)" by (cases "try_load_local t l") auto
  note l1 = try_load_local_result [OF loaded pending_file_at(1) [OF pinv at]]
  define s1 where "s1 = (set_loader t (FileLoad l1) s)\<lparr> dw_log := dw_log s @ es \<rparr>"
  have "pending_inv (set_loader t (FileLoad l1) s)"
    by (rule replace_file_pends [OF pinv at]) (use l1 in simp_all)
  then have inv1: "both_inv s1" using both_set_loader [OF inv] by (simp add: s1_def both_inv_def)
  have at1: "loader_at t s1 = Some (FileLoad l1)" using at by (simp add: s1_def)
  then obtain task1 where get1: "flat_get (dw_tasks s1) t = Some task1" by (auto simp: loader_at_Some)
  have cancel: "file_cancel t f l1 s1 \<noteq> None" for f by (rule file_cancel_defined [OF inv1 get1])
  have "file_open_and env t l1 (enqueue_task t 0) s1 \<noteq> None" if "\<not> wait"
  proof (cases "check_for_open (de_disk env) l1")
    case None
    then show ?thesis using cancel by (simp add: file_open_and_def del: not_None_eq)
  next
    case (Some l2)
    note same = check_for_open_fields [OF Some]
    have "pending_inv (set_loader t (FileLoad l2) s1)"
      by (rule replace_file_pends [OF _ at1])
        (use inv1 same file_same_fields [of l2 l1] l1(1) in \<open>simp_all add: both_inv_def\<close>)
    then have "both_inv (set_loader t (FileLoad l2) s1)" by (rule both_set_loader [OF inv1])
    then have "enqueue_task t 0 (set_loader t (FileLoad l2) s1) \<noteq> None"
      by (rule enqueue_task_defined [of _ _ "FileLoad l2"]) (use at1 l1(5) [OF that] same file_same_fields [of l2 l1] in simp_all)
    then show ?thesis using Some by (simp add: file_open_and_def)
  qed
  moreover have "file_of t s = Some l" using at by (simp add: file_of_Some)
  ultimately show ?thesis using loaded cancel [of NoFailure]
    by (simp add: file_start_def Let_def s1_def del: not_None_eq)
qed

lemma destroy_task_defined:
  assumes inv: "both_inv s" and get: "flat_get (dw_tasks s) t = Some task"
  shows "destroy_task t s \<noteq> None"
proof -
  have "\<exists>s1. destroy_loader t s = Some s1 \<and> both_inv s1 \<and> loader_at t s1 \<noteq> None"
  proof (cases "\<exists>l. dt_loader task = FileLoad l \<and> \<not> fl_finished l")
    case True
    then obtain l where l: "dt_loader task = FileLoad l" "\<not> fl_finished l" by blast
    obtain s1 where s1: "file_cancel t NoFailure l s = Some s1" using file_cancel_defined [OF inv get, of NoFailure l] by blast
    have "destroy_loader t s = Some s1" using get l s1 by (simp add: destroy_loader_def)
    then show ?thesis
      using inv destroy_loader_keeps destroy_loader_pends file_cancel_loader [OF s1] by (auto simp: both_inv_def)
  next
    case False
    then have "destroy_loader t s = Some s \<or> destroy_loader t s = cancel_all_requests t s"
      using get by (cases "dt_loader task") (auto simp: destroy_loader_def)
    then show ?thesis using inv get cancel_all_requests_defined [OF inv get] by (auto simp: loader_at_def)
  qed
  then obtain s1 task1 where s1: "destroy_loader t s = Some s1" "both_inv s1" "flat_get (dw_tasks s1) t = Some task1"
    by (auto simp: loader_at_def)
  obtain s2 task2 where s2: "cancel_all_requests t s1 = Some s2" "both_inv s2" "flat_get (dw_tasks s2) t = Some task2"
    using cancel_all_requests_defined [OF s1(2,3)] by blast
  show ?thesis using s1(1) s2(1) remove_task_defined [OF s2(2,3)] by (auto simp: destroy_task_def)
qed

section \<open>Timers\<close>

lemma kill_dc_sessions_defined:
  assumes inv: "downloads_inv no_extra s" and idle: "sent_total dc (dw_tasks s) = 0"
  shows "kill_dc_sessions dc s \<noteq> None"
proof (cases "flat_get (dw_balance s) dc")
  case (Some b)
  have acc: "accounts_ok no_extra (dw_balance s) (dw_tasks s)" and ok: "flat_map_ok (dw_tasks s)"
    using inv by (simp_all add: inv_defs)
  have "db_total b = 0" using accounts_at(3) [OF acc Some] idle by simp
  moreover have "sb_requested x = 0" if x: "x \<in> set (db_sessions b)" for x
  proof -
    obtain i where "i < length (db_sessions b)" "x = db_sessions b ! i" using x by (auto simp: in_set_conv_nth)
    then show ?thesis using accounts_at(1) [OF acc Some] sent_total_zero_counts [OF ok idle] by simp
  qed
  ultimately show ?thesis using Some by (simp add: kill_dc_sessions_def)
qed (simp add: kill_dc_sessions_def)

lemma kill_due_defined:
  assumes "downloads_inv no_extra s" and "\<And>dc at. (dc, at) \<in> set ks \<Longrightarrow> sent_total dc (dw_tasks s) = 0"
  shows "kill_due left ks s \<noteq> None"
  using assms
proof (induction left ks s rule: kill_due.induct)
  case (2 left dc at rest s)
  show ?case
  proof (cases "at \<le> dw_now s")
    case True
    have "kill_dc_sessions dc s \<noteq> None" by (rule kill_dc_sessions_defined [OF 2(3)]) (use 2(4) in auto)
    then obtain s1 where s1: "kill_dc_sessions dc s = Some s1" by blast
    have "kill_due left rest s1 \<noteq> None"
      by (rule 2(1) [OF True s1]) (use kill_dc_sessions_spec [OF 2(3) s1] 2(4) in auto)
    then show ?thesis using True s1 by simp
  next
    case False
    have "kill_due (if at - dw_now s < left then at - dw_now s else left) rest s \<noteq> None"
      by (rule 2(2) [OF False]) (use 2(3,4) in auto)
    then show ?thesis using False by auto
  qed
qed simp

lemma kill_sessions_defined:
  assumes inv: "downloads_inv no_extra s"
  shows "kill_sessions s \<noteq> None"
proof -
  have "sent_total dc (dw_tasks s) = 0" if "(dc, at) \<in> set (dw_kill_when s)" for dc at
  proof -
    have "dc \<in> fst ` set (dw_kill_when s)" using that by force
    then have "flat_get (dw_kill_when s) dc \<noteq> None" by (simp add: flat_get_keys del: not_None_eq)
    then show ?thesis using inv unfolding downloads_inv_def kill_ok_def by blast
  qed
  from kill_due_defined [OF inv this] show ?thesis by (auto simp: kill_sessions_def)
qed

section \<open>The contract\<close>

text \<open>The calls that never fail in a run with content servers too.  Left out are the parts and the hashes of
  content servers, and what is only shown for the runs without them: the calls of a preloader, the answer
  of the cache, the removal of a session and, where a priority may be unknown, the new generation.\<close>

definition in_flight :: "nat \<Rightarrow> int \<Rightarrow> downloads \<Rightarrow> bool" where
  "in_flight t rid s \<longleftrightarrow>
     (case flat_get (dw_tasks s) t of None \<Rightarrow> False | Some task \<Rightarrow> flat_get (dt_sent task) rid \<noteq> None)"

definition has_task :: "nat \<Rightarrow> downloads \<Rightarrow> bool" where
  "has_task t s \<longleftrightarrow> flat_get (dw_tasks s) t \<noteq> None"

definition has_preloader :: "nat \<Rightarrow> downloads \<Rightarrow> bool" where
  "has_preloader t s \<longleftrightarrow> (case flat_get (dw_tasks s) t of None \<Rightarrow> False | Some task \<Rightarrow> preloads (dt_loader task))"

fun in_contract :: "downloads \<Rightarrow> download_input \<Rightarrow> bool" where
  "in_contract s (TimePasses d) = True"
| "in_contract s (NewTask t dc location l) = True"
| "in_contract s (DestroyTask t) = has_task t s"
| "in_contract s (StreamLoad t o1 loaded) = (streaming_of t s \<noteq> None)"
| "in_contract s (StreamCancel t o1) = (streaming_of t s \<noteq> None)"
| "in_contract s (StreamStop t) = (streaming_of t s \<noteq> None)"
| "in_contract s (StreamTryRemove t) = (streaming_of t s \<noteq> None)"
| "in_contract s (StreamPriority t p) = (streaming_of t s \<noteq> None)"
| "in_contract s (StreamResetPriorities t) = (streaming_of t s \<noteq> None)"
| "in_contract s (StatsTimer t) = (streaming_of t s \<noteq> None)"
| "in_contract s (FileStart t) = (file_of t s \<noteq> None)"
| "in_contract s (FileCancel t) = (file_of t s \<noteq> None)"
| "in_contract s (NormalPart t rid (FileBytes part)) = (in_flight t rid s \<and> \<not> has_preloader t s)"
| "in_contract s (NormalPart t rid (CdnRedirect c hashes)) = in_flight t rid s"
| "in_contract s (WebPart t rid n part) = in_flight t rid s"
| "in_contract s (ReuploadDone t rid hashes) = in_flight t rid s"
| "in_contract s (NormalFailed t rid reference e) = has_task t s"
| "in_contract s (WebFailed t e) = has_task t s"
| "in_contract s (CdnFailed t rid e) = in_flight t rid s"
| "in_contract s (ReferenceRefreshed t updated rid current) = has_task t s"
| "in_contract s KillTimer = True"
| "in_contract s ResetTimer = list_all (\<lambda>(dc, q). priorities_known q) (dw_queues s)"
| "in_contract s _ = False"

lemma in_flight_iff: "in_flight t rid s \<longleftrightarrow> (\<exists>task r. flat_get (dw_tasks s) t = Some task \<and> flat_get (dt_sent task) rid = Some r)"
  by (auto simp: in_flight_def split: option.split)

lemma reset_queues_defined:
  "list_all (\<lambda>(dc, q). queue_ok q \<and> priorities_known q) qs \<Longrightarrow> reset_queues qs \<noteq> None"
  by (induction qs rule: reset_queues.induct) (auto simp: queue_reset_generation_eq)

lemma reset_generation_defined:
  assumes "downloads_inv no_extra s" and "list_all (\<lambda>(dc, q). priorities_known q) (dw_queues s)"
  shows "reset_generation s \<noteq> None"
proof -
  have "flat_map_ok (dw_queues s)" "\<And>dc q. flat_get (dw_queues s) dc = Some q \<Longrightarrow> queue_ok q"
    using assms(1) by (simp_all add: inv_defs)
  then have "list_all (\<lambda>(dc, q). queue_ok q \<and> priorities_known q) (dw_queues s)"
    using assms(2) by (auto simp: list_all_iff flat_get_iff)
  then show ?thesis using reset_queues_defined by (simp add: reset_generation_def del: not_None_eq)
qed

lemma streaming_input_defined:
  assumes inv: "both_inv s" and at: "loader_at t s = Some (Streaming l)"
  shows "streaming_try_remove t s \<noteq> None" "streaming_reset_priorities t s \<noteq> None" "streaming_stats_timer t s \<noteq> None"
proof -
  obtain task where get: "flat_get (dw_tasks s) t = Some task" using at by (auto simp: loader_at_Some)
  have l: "streaming_of t s = Some l" using at by (simp add: streaming_of_Some)
  show "streaming_try_remove t s \<noteq> None"
    using get l remove_task_defined [OF inv get] by (simp add: streaming_try_remove_def del: not_None_eq)
  show "streaming_reset_priorities t s \<noteq> None" using l by (simp add: streaming_reset_priorities_def)
  show "streaming_stats_timer t s \<noteq> None" using l by (simp add: streaming_stats_timer_def case_prod_beta Let_def)
qed

lemma streaming_contract:
  assumes "both_inv s" and "streaming_of t s \<noteq> None"
  shows "streaming_load t o1 loaded s \<noteq> None" "streaming_cancel_offset t o1 s \<noteq> None" "streaming_stop t s \<noteq> None"
    "streaming_set_priority t p s \<noteq> None" "streaming_try_remove t s \<noteq> None" "streaming_reset_priorities t s \<noteq> None"
    "streaming_stats_timer t s \<noteq> None"
proof -
  obtain l where at: "loader_at t s = Some (Streaming l)" using assms(2) by (auto simp: streaming_of_Some)
  show "streaming_load t o1 loaded s \<noteq> None" by (rule streaming_load_defined [OF assms(1) at])
  show "streaming_cancel_offset t o1 s \<noteq> None" by (rule streaming_cancel_offset_defined [OF assms(1) at])
  show "streaming_stop t s \<noteq> None" by (rule streaming_stop_defined [OF assms(1) at])
  show "streaming_set_priority t p s \<noteq> None" by (rule streaming_set_priority_defined [OF assms(1) at])
qed (use assms streaming_input_defined in \<open>auto simp: streaming_of_Some\<close>)

lemma in_contract_defined:
  assumes inv: "both_inv s" and contract: "in_contract s input"
  shows "download_step env input s \<noteq> None"
proof (cases "(s, input)" rule: in_contract.cases)
  case (3 s0 t)
  then show ?thesis using contract destroy_task_defined [OF inv] by (auto simp: has_task_def)
next
  case (11 s0 t)
  then show ?thesis using contract file_start_defined [OF inv] by (auto simp: file_of_Some)
next
  case (12 s0 t)
  then obtain l where "loader_at t s = Some (FileLoad l)" using contract by (auto simp: file_of_Some)
  then obtain task where "flat_get (dw_tasks s) t = Some task" "file_of t s = Some l" by (auto simp: file_of_Some loader_at_Some)
  then show ?thesis using 12 file_cancel_defined [OF inv, of t task NoFailure l] by (simp add: file_cancel_call_def)
next
  case (13 s0 t rid part)
  then obtain task r where "flat_get (dw_tasks s) t = Some task" "flat_get (dt_sent task) rid = Some r" "\<not> preloads (dt_loader task)"
    using contract by (auto simp: in_flight_iff has_preloader_def)
  then show ?thesis using 13 normal_part_defined [OF inv] by simp
next
  case (14 s0 t rid c hashes)
  then show ?thesis using contract redirect_defined [OF inv] by (auto simp: in_flight_iff)
next
  case (15 s0 t rid n part)
  then show ?thesis using contract web_part_defined [OF inv] by (auto simp: in_flight_iff)
next
  case (16 s0 t rid hashes)
  then show ?thesis using contract reupload_done_defined [OF inv] by (auto simp: in_flight_iff)
next
  case (17 s0 t rid reference e)
  then show ?thesis using contract normal_part_failed_defined [OF inv] by (auto simp: has_task_def)
next
  case (18 s0 t e)
  then show ?thesis using contract part_failed_defined [OF inv] by (auto simp: has_task_def)
next
  case (19 s0 t rid e)
  then show ?thesis using contract cdn_part_failed_defined [OF inv] by (auto simp: in_flight_iff)
next
  case (20 s0 t updated rid current)
  then show ?thesis using contract refresh_file_reference_defined [OF inv] by (auto simp: has_task_def)
next
  case (21 s0)
  have "downloads_inv no_extra (s\<lparr> dw_kill_timer := None \<rparr>)" using inv by (simp add: both_inv_def)
  then show ?thesis using 21 kill_sessions_defined by (simp del: inv_irrelevant not_None_eq)
next
  case (22 s0)
  then show ?thesis using contract inv reset_generation_defined by (simp add: both_inv_def del: not_None_eq)
qed (use contract streaming_contract [OF inv] in \<open>simp_all del: not_None_eq\<close>)

end
