(* ===== verification/Download_Hashes.thy ===== *)
theory Download_Hashes
  imports Download_Contract
begin

text \<open>
  The requests for the hashes of a content server, when the server changes: the request for hashes that is
  in flight is sent again as a request for a part, and the part stays among the unchecked ones.
\<close>

section \<open>A part that waits for its hash and is in flight too\<close>

definition hashes_stuck :: "nat \<Rightarrow> (int, request_data \<times> bytes) flat_map \<Rightarrow> int \<Rightarrow> downloads \<Rightarrow> bool" where
  "hashes_stuck t us o1 s \<longleftrightarrow>
     (\<exists>task. flat_get (dw_tasks s) t = Some task \<and> dt_unchecked task = us \<and> dt_hashes_request task = 0
        \<and> flat_get (dt_by_offset task) o1 \<noteq> None)"

lemma hashes_stuck_cong: "dw_tasks s' = dw_tasks s \<Longrightarrow> hashes_stuck t us o1 s' = hashes_stuck t us o1 s"
  by (simp add: hashes_stuck_def)

lemma add_sent_hashes [simp]:
  "dt_unchecked (add_sent rid r task) = dt_unchecked task" "dt_hashes_request (add_sent rid r task) = dt_hashes_request task"
  "flat_get (dt_by_offset (add_sent rid r task)) o1 = (if o1 = rd_offset r then Some rid else flat_get (dt_by_offset task) o1)"
  by (simp_all add: add_sent_def)

lemma hashes_stuck_put:
  "hashes_stuck t us o1 s \<Longrightarrow> flat_get (dw_tasks s) u = Some task \<Longrightarrow> dt_unchecked task' = dt_unchecked task \<Longrightarrow>
     dt_hashes_request task' = dt_hashes_request task \<Longrightarrow> dt_by_offset task' = dt_by_offset task \<Longrightarrow>
     hashes_stuck t us o1 (set_task u task' s)"
  by (auto simp: hashes_stuck_def)

lemma make_request_stuck:
  assumes "make_request u r s = Some s'" and "hashes_stuck t us o1 s"
  shows "hashes_stuck t us o1 s'"
proof -
  obtain task a where "flat_get (dw_tasks s) u = Some task"
      "dw_tasks s' = flat_put u (add_sent (dw_next_request s) (r\<lparr> rd_amount := a, rd_sent := dw_now s \<rparr>) task) (dw_tasks s)"
    using make_request_effect [OF assms(1)] by blast
  then show ?thesis using assms(2) by (auto simp: hashes_stuck_def)
qed

lemma load_part_stuck:
  assumes "load_part u i s = Some s'" and "hashes_stuck t us o1 s"
  shows "hashes_stuck t us o1 s'"
proof -
  obtain task offset l where get: "flat_get (dw_tasks s) u = Some task"
      and make: "make_request u (new_request offset i) (set_task u (task\<lparr> dt_loader := l \<rparr>) s) = Some s'"
    using assms(1) by (auto simp: load_part_def bind_eq_Some_conv)
  show ?thesis by (rule make_request_stuck [OF make hashes_stuck_put [OF assms(2) get]]) simp_all
qed

lemma check_send_next_stuck:
  assumes op: "check_send_next dc s = Some s'" and "hashes_stuck t us o1 s"
  shows "hashes_stuck t us o1 s'"
proof (rule check_send_next_invariant [OF op, of "hashes_stuck t us o1"])
  fix a again a' assume I: "hashes_stuck t us o1 a" and step: "try_send_next_part dc a = Some (again, a')"
  have touched: "hashes_stuck t us o1 (touch_balance dc a)" using I by (simp add: hashes_stuck_def)
  show "hashes_stuck t us o1 a'"
    using step touched load_part_stuck
    by (auto simp: try_send_next_part_def Let_def split: option.split_asm if_split_asm)
qed (use assms in simp)

lemma make_requests_stuck:
  "make_requests t rs s = Some s' \<Longrightarrow> hashes_stuck t us o1 s \<Longrightarrow> hashes_stuck t us o1 s'"
proof (induction t rs s rule: make_requests.induct)
  case (2 t r rs s)
  then obtain s1 where "make_request t r s = Some s1" "make_requests t rs s1 = Some s'" by (auto simp: bind_eq_Some_conv)
  then show ?case using 2(1) make_request_stuck 2(3) by blast
qed simp

lemma make_requests_hashes:
  assumes "make_requests t rs s = Some s'" and "flat_get (dw_tasks s) t = Some task"
  shows "\<exists>task'. flat_get (dw_tasks s') t = Some task' \<and> dt_unchecked task' = dt_unchecked task
    \<and> dt_hashes_request task' = dt_hashes_request task"
  using assms
proof (induction t rs s arbitrary: task rule: make_requests.induct)
  case (2 t r rs s)
  obtain s1 where s1: "make_request t r s = Some s1" "make_requests t rs s1 = Some s'"
    using 2(2) by (auto simp: bind_eq_Some_conv)
  obtain a where "dw_tasks s1 = flat_put t (add_sent (dw_next_request s) (r\<lparr> rd_amount := a, rd_sent := dw_now s \<rparr>) task) (dw_tasks s)"
    using make_request_effect [OF s1(1)] 2(3) by auto
  then show ?case using 2(1) [OF s1] by simp
qed simp

text \<open>A request for the offset makes it so.\<close>

lemma make_requests_reach_stuck:
  assumes "make_requests t rs s = Some s'" and "flat_get (dw_tasks s) t = Some task" and "dt_unchecked task = us"
    and "dt_hashes_request task = 0" and "o1 \<in> rd_offset ` set rs"
  shows "hashes_stuck t us o1 s'"
  using assms
proof (induction t rs s arbitrary: task rule: make_requests.induct)
  case (2 t r rs s)
  obtain s1 where s1: "make_request t r s = Some s1" "make_requests t rs s1 = Some s'"
    using 2(2) by (auto simp: bind_eq_Some_conv)
  obtain a where "dw_tasks s1 = flat_put t (add_sent (dw_next_request s) (r\<lparr> rd_amount := a, rd_sent := dw_now s \<rparr>) task) (dw_tasks s)"
    using make_request_effect [OF s1(1)] 2(3) by auto
  then have get1: "flat_get (dw_tasks s1) t = Some (add_sent (dw_next_request s) (r\<lparr> rd_amount := a, rd_sent := dw_now s \<rparr>) task)" by simp
  show ?case
  proof (cases "o1 = rd_offset r")
    case True
    then have "hashes_stuck t us o1 s1" using get1 2(4,5) by (simp add: hashes_stuck_def)
    then show ?thesis by (rule make_requests_stuck [OF s1(2)])
  next
    case False
    then have "o1 \<in> rd_offset ` set rs" using 2(6) by simp
    then show ?thesis using 2(1) [OF s1 get1] 2(4,5) by simp
  qed
qed simp

text \<open>Finishing all requests returns each of them and forgets the one for hashes.\<close>

lemma finish_all_returns:
  assumes "finish_all t rids s = Some (rs, s')" and "flat_get (dw_tasks s) t = Some task" and "distinct rids"
  shows "\<exists>task'. flat_get (dw_tasks s') t = Some task' \<and> dt_unchecked task' = dt_unchecked task
    \<and> dt_hashes_request task' = (if dt_hashes_request task \<in> set rids then 0 else dt_hashes_request task)
    \<and> (\<forall>rid \<in> set rids. \<forall>r. flat_get (dt_sent task) rid = Some r \<longrightarrow> r \<in> set rs)"
  using assms
proof (induction rids arbitrary: s rs task)
  case (Cons rid rids)
  obtain r s1 rs1 where s1: "finish_sent_request t rid FinishRedirect (log_event (CancelledRequest rid) s) = Some (r, s1)"
      and rest: "finish_all t rids s1 = Some (rs1, s')" and rs: "rs = r # rs1"
    using Cons.prems(1) by (auto simp: bind_eq_Some_conv)
  have sent: "flat_get (dt_sent task) rid = Some r" and get1: "flat_get (dw_tasks s1) t = Some (drop_sent rid r task)"
    using finish_sent_request_effect [OF s1] Cons.prems(2) by auto
  have "distinct rids" using Cons.prems(3) by simp
  from Cons.IH [OF rest get1 this] obtain task' where IH: "flat_get (dw_tasks s') t = Some task'"
      "dt_unchecked task' = dt_unchecked task"
      "dt_hashes_request task' = (if dt_hashes_request (drop_sent rid r task) \<in> set rids then 0 else dt_hashes_request (drop_sent rid r task))"
      "\<forall>rid2 \<in> set rids. \<forall>r2. flat_get (dt_sent (drop_sent rid r task)) rid2 = Some r2 \<longrightarrow> r2 \<in> set rs1"
    by (auto simp: drop_sent_def)
  have "r2 \<in> set rs" if "rid2 \<in> set (rid # rids)" "flat_get (dt_sent task) rid2 = Some r2" for rid2 r2
  proof (cases "rid2 = rid")
    case False
    then have "flat_get (dt_sent (drop_sent rid r task)) rid2 = Some r2" using that(2) by (simp add: drop_sent_def)
    then show ?thesis using IH(4) that(1) False rs by simp
  qed (use that sent rs in simp)
  then show ?case using IH(1-3) by (auto simp: drop_sent_def)
qed simp

section \<open>The next request for hashes\<close>

lemma request_more_hashes_stuck:
  assumes "flat_get (dw_tasks s) t = Some task" and "dt_hashes_request task = 0"
    and "dt_unchecked task = (o1, r, part) # us" and "flat_get (dt_by_offset task) (rd_offset r) \<noteq> None"
  shows "request_more_hashes t s = None"
  using assms by (auto simp: request_more_hashes_def place_sent_request_def send_kind_def split: Option.bind_split)

text \<open>A change of the parameters forgets the request for hashes and sends every request again.\<close>

lemma change_cdn_params_stuck:
  assumes op: "change_cdn_params t r c hashes s = Some s'" and get: "flat_get (dw_tasks s) t = Some task"
    and keys: "distinct (map fst (dt_sent task))"
    and valid: "cp_dc c = 0 \<or> length (cp_key c) = ctr_key_size \<and> length (cp_iv c) = ctr_ivec_size"
    and request: "dt_hashes_request task = 0 \<or> \<not> same_cdn c task \<and> flat_get (dt_sent task) (dt_hashes_request task) \<noteq> None"
    and o1: "rd_offset r = o1 \<or> flat_get (dt_by_offset task) o1 \<noteq> None \<and>
      (\<exists>rid r2. flat_get (dt_sent task) rid = Some r2 \<and> rd_offset r2 = o1)"
  shows "hashes_stuck t (dt_unchecked task) o1 s'"
proof -
  define task1 where "task1 = add_cdn_hashes hashes (set_cdn c task)"
  have same: "dt_sent task1 = dt_sent task" "dt_unchecked task1 = dt_unchecked task" "dt_hashes_request task1 = dt_hashes_request task"
      "dt_by_offset task1 = dt_by_offset task"
    by (simp_all add: task1_def add_cdn_hashes_def set_cdn_def)
  have get1: "flat_get (dw_tasks (set_task t task1 s)) t = Some task1" by simp
  note change = op [unfolded change_cdn_params_def] get valid
  have last: "hashes_stuck t (dt_unchecked task) o1 s'"
    if make: "make_request t r a = Some s'" and at: "flat_get (dw_tasks a) t = Some ta" "dt_unchecked ta = dt_unchecked task"
      "dt_hashes_request ta = 0" and held: "rd_offset r = o1 \<or> hashes_stuck t (dt_unchecked task) o1 a" for a ta
  proof (cases "rd_offset r = o1")
    case True
    have "make_requests t [r] a = Some s'" using make by simp
    from make_requests_reach_stuck [OF this at] True show ?thesis by simp
  next
    case False
    then show ?thesis using held make_request_stuck [OF make] by blast
  qed
  show ?thesis
  proof (cases "\<not> same_cdn c task \<and> dt_sent task \<noteq> []")
    case False
    then have zero: "dt_hashes_request task = 0" using request by auto
    have make: "make_request t r (set_task t task1 s) = Some s'"
      using change False by (auto simp: task1_def [symmetric] Let_def)
    have "rd_offset r = o1 \<or> hashes_stuck t (dt_unchecked task) o1 (set_task t task1 s)"
      using o1 zero by (auto simp: hashes_stuck_def same)
    then show ?thesis using last [OF make get1] zero same by simp
  next
    case True
    then obtain rs s2 s3 where all: "finish_all t (map fst (dt_sent task)) (set_task t task1 s) = Some (rs, s2)"
        and made: "make_requests t rs s2 = Some s3" and make: "make_request t r s3 = Some s'"
      using change by (auto simp: task1_def [symmetric] Let_def bind_eq_Some_conv)
    obtain task2 where task2: "flat_get (dw_tasks s2) t = Some task2" "dt_unchecked task2 = dt_unchecked task"
        "dt_hashes_request task2 = (if dt_hashes_request task \<in> set (map fst (dt_sent task)) then 0 else dt_hashes_request task)"
        "\<forall>rid \<in> set (map fst (dt_sent task)). \<forall>r. flat_get (dt_sent task) rid = Some r \<longrightarrow> r \<in> set rs"
      using finish_all_returns [OF all get1] keys by (auto simp: same)
    have zero: "dt_hashes_request task2 = 0" using request task2(3) by (auto simp: flat_get_keys)
    have held: "rd_offset r = o1 \<or> hashes_stuck t (dt_unchecked task) o1 s3"
    proof (cases "rd_offset r = o1")
      case False
      then obtain rid r2 where r2: "flat_get (dt_sent task) rid = Some r2" "rd_offset r2 = o1" using o1 by blast
      then have "rid \<in> set (map fst (dt_sent task))" using flat_get_in by force
      then have "o1 \<in> rd_offset ` set rs" using task2(4) r2 by force
      then show ?thesis using make_requests_reach_stuck [OF made task2(1,2) zero] by simp
    qed simp
    obtain task3 where "flat_get (dw_tasks s3) t = Some task3" "dt_unchecked task3 = dt_unchecked task" "dt_hashes_request task3 = 0"
      using make_requests_hashes [OF made task2(1)] task2(2) zero by auto
    then show ?thesis using last [OF make _ _ _ held] by blast
  qed
qed

text \<open>The two answers that change the parameters: a refused token, and a redirection.\<close>

lemma refused_token_stuck:
  assumes inv: "both_inv s" and get: "flat_get (dw_tasks s) t = Some task" and sent: "flat_get (dt_sent task) rid = Some r"
    and other: "rid \<noteq> dt_hashes_request task" and hashes: "flat_get (dt_sent task) (dt_hashes_request task) = Some rh"
    and cdn: "dt_cdn_dc task \<noteq> 0" and e: "er_type e = ''FILE_TOKEN_INVALID'' \<or> er_type e = ''REQUEST_TOKEN_INVALID''"
      "\<not> is_temporary_error e"
  shows "\<exists>s'. cdn_part_failed t e rid s = Some s' \<and> hashes_stuck t (dt_unchecked task) (rd_offset rh) s'"
proof -
  let ?c = "\<lparr> cp_dc = 0, cp_token = [], cp_key = [], cp_iv = [] \<rparr>"
  obtain s' where s': "cdn_part_failed t e rid s = Some s'" using cdn_part_failed_defined [OF inv get sent] by blast
  obtain s1 where s1: "finish_sent_request t rid FinishRedirect s = Some (r, s1)" "both_inv s1"
      "flat_get (dw_tasks s1) t = Some (drop_sent rid r task)" using finish_both [OF inv get sent] by blast
  have op: "change_cdn_params t r ?c [] s1 = Some s'" using s' s1(1) e by (auto simp: cdn_part_failed_def)
  have ok: "task_ok (dw_next_request s1) (drop_sent rid r task)" using s1(2) inv_task_ok [OF _ s1(3)] by (auto simp: both_inv_def)
  have there: "flat_get (dt_sent (drop_sent rid r task)) (dt_hashes_request task) = Some rh"
    using hashes other by (simp add: drop_sent_def)
  from task_okD(1) [OF ok this] have by_offset: "flat_get (dt_by_offset (drop_sent rid r task)) (rd_offset rh) = Some (dt_hashes_request task)" .
  have "hashes_stuck t (dt_unchecked (drop_sent rid r task)) (rd_offset rh) s'"
  proof (rule change_cdn_params_stuck [OF op s1(3)])
    show "distinct (map fst (dt_sent (drop_sent rid r task)))" using ok by (simp add: task_ok_def flat_ok_sorted_distinct)
    show "dt_hashes_request (drop_sent rid r task) = 0 \<or> \<not> same_cdn ?c (drop_sent rid r task)
        \<and> flat_get (dt_sent (drop_sent rid r task)) (dt_hashes_request (drop_sent rid r task)) \<noteq> None"
      using there cdn other by (auto simp: same_cdn_def drop_sent_def)
    show "rd_offset r = rd_offset rh \<or> flat_get (dt_by_offset (drop_sent rid r task)) (rd_offset rh) \<noteq> None \<and>
      (\<exists>rid2 r2. flat_get (dt_sent (drop_sent rid r task)) rid2 = Some r2 \<and> rd_offset r2 = rd_offset rh)"
      using there by_offset by auto
  qed simp
  then show ?thesis using s' by (simp add: drop_sent_def)
qed

lemma redirect_stuck:
  assumes inv: "both_inv s" and op: "normal_part_loaded env t rid (CdnRedirect c hashes) s = Some s'"
    and valid: "cp_dc c = 0 \<or> length (cp_key c) = ctr_key_size \<and> length (cp_iv c) = ctr_ivec_size"
    and stuck: "hashes_stuck t us o1 s"
  shows "hashes_stuck t us o1 s'"
proof -
  obtain task where task: "flat_get (dw_tasks s) t = Some task" "dt_unchecked task = us" "dt_hashes_request task = 0"
      "flat_get (dt_by_offset task) o1 \<noteq> None" using stuck unfolding hashes_stuck_def by blast
  obtain r s1 s2 where s1: "finish_sent_request t rid FinishSuccess s = Some (r, s1)"
      and op2: "change_cdn_params t r c hashes s1 = Some s2" and next2: "check_send_next_after_success (dt_dc task) s2 = Some s'"
    using op task(1) by (auto simp: normal_part_loaded_def bind_eq_Some_conv)
  have sent: "flat_get (dt_sent task) rid = Some r" and get1: "flat_get (dw_tasks s1) t = Some (drop_sent rid r task)"
    using finish_sent_request_effect [OF s1] task(1) by auto
  have "both_inv s1" using finish_both [OF inv task(1) sent, of FinishSuccess] s1 by auto
  then have ok: "task_ok (dw_next_request s1) (drop_sent rid r task)" using inv_task_ok [OF _ get1] by (auto simp: both_inv_def)
  have "hashes_stuck t (dt_unchecked (drop_sent rid r task)) o1 s2"
  proof (rule change_cdn_params_stuck [OF op2 get1 _ valid])
    show "distinct (map fst (dt_sent (drop_sent rid r task)))" using ok by (simp add: task_ok_def flat_ok_sorted_distinct)
    show "rd_offset r = o1 \<or> flat_get (dt_by_offset (drop_sent rid r task)) o1 \<noteq> None \<and>
      (\<exists>rid2 r2. flat_get (dt_sent (drop_sent rid r task)) rid2 = Some r2 \<and> rd_offset r2 = o1)"
    proof (cases "rd_offset r = o1")
      case False
      then have "flat_get (dt_by_offset (drop_sent rid r task)) o1 \<noteq> None" using task(4) by (simp add: drop_sent_def)
      then show ?thesis using task_okD(2) [OF ok] by blast
    qed simp
  qed (use task(3) in \<open>simp add: drop_sent_def\<close>)
  then have "hashes_stuck t us o1 (set_queue (dt_dc task) (queue_of (dt_dc task) s2) s2)"
    using task(2) by (simp add: hashes_stuck_def drop_sent_def)
  then show ?thesis using next2 check_send_next_stuck by (simp add: check_send_next_after_success_def)
qed

text \<open>After the change, bytes of another part whose hash is not known ask for more hashes, and fail.\<close>

lemma cdn_bytes_stuck:
  assumes get: "flat_get (dw_tasks s) t = Some task" and zero: "dt_hashes_request task = 0"
    and first: "dt_unchecked task = (o1, r, part) # us" "rd_offset r = o1" and busy: "flat_get (dt_by_offset task) o1 \<noteq> None"
    and sent: "flat_get (dt_sent task) rid = Some r2" and later: "o1 < rd_offset r2"
    and unknown: "flat_get (dt_cdn_hashes task) (rd_offset r2) = None"
  shows "cdn_part_loaded env t rid (CdnBytes bytes) s = None"
proof (rule ccontr)
  assume "cdn_part_loaded env t rid (CdnBytes bytes) s \<noteq> None"
  then obtain s' where "cdn_part_loaded env t rid (CdnBytes bytes) s = Some s'" by blast
  then obtain r3 s1 task1 s2 plain where s1: "finish_sent_request t rid FinishSuccess s = Some (r3, s1)"
      "flat_get (dw_tasks s1) t = Some task1"
      and s2: "(case check_cdn_hash env (rd_offset r3) plain task1 of
           NoHash \<Rightarrow> request_more_hashes t
             (set_task t (task1\<lparr> dt_unchecked := flat_emplace (rd_offset r3) (r3, plain) (dt_unchecked task1) \<rparr>) s1)
         | InvalidHash \<Rightarrow> cancel_on_fail t s1
         | GoodHash \<Rightarrow> part_loaded env t (rd_offset r3) plain s1) = Some s2"
    by (auto simp: cdn_part_loaded_def Let_def bind_eq_Some_conv split: if_split_asm)
  have r3: "r3 = r2" "task1 = drop_sent rid r2 task"
    using finish_sent_request_effect [OF s1(1)] s1(2) get sent by auto
  have "check_cdn_hash env (rd_offset r3) plain task1 = NoHash"
    using unknown by (simp add: r3 check_cdn_hash_def drop_sent_def)
  moreover have "request_more_hashes t
      (set_task t (task1\<lparr> dt_unchecked := flat_emplace (rd_offset r3) (r3, plain) (dt_unchecked task1) \<rparr>) s1) = None"
    by (rule request_more_hashes_stuck [of _ _ "task1\<lparr> dt_unchecked := flat_emplace (rd_offset r3) (r3, plain) (dt_unchecked task1) \<rparr>"
          o1 r part "flat_emplace (rd_offset r2) (r2, plain) us"])
      (use zero first busy later in \<open>simp_all add: r3 drop_sent_def\<close>)
  ultimately show False using s2 by simp
qed

end
