(* ===== verification/Download_Assembly.thy ===== *)
theory Download_Assembly
  imports Download_Loaders
begin

text \<open>
  What the file loader keeps of the parts it is fed, in memory or in its open file: whatever the order in
  which the parts of a content come, the bytes of the parts that have come are in their places, what
  \<open>currentOffset\<close> reports is how many they are, and when all have come the content is complete.
\<close>

section \<open>A content and its parts\<close>

definition content_part :: "nat \<Rightarrow> bytes \<Rightarrow> nat \<Rightarrow> bytes" where
  "content_part n c k = take n (drop (k * n) c)"

text \<open>The bytes written so far: those of the parts that have come, and zeros in the gaps.\<close>

definition masked :: "nat \<Rightarrow> bytes \<Rightarrow> nat set \<Rightarrow> nat \<Rightarrow> bytes" where
  "masked n c W len = map (\<lambda>p. if p div n \<in> W then c ! p else 0) [0..<len]"

definition holes :: "nat \<Rightarrow> nat set \<Rightarrow> nat \<Rightarrow> nat" where
  "holes n W len = length (filter (\<lambda>p. p div n \<notin> W) [0..<len])"

definition part_end :: "nat \<Rightarrow> bytes \<Rightarrow> nat \<Rightarrow> nat" where
  "part_end n c k = min ((k + 1) * n) (length c)"

text \<open>The end of what is written is the end of the last part that has come.\<close>

definition end_ok :: "nat \<Rightarrow> bytes \<Rightarrow> nat set \<Rightarrow> nat \<Rightarrow> bool" where
  "end_ok n c W len \<longleftrightarrow> (\<forall>k \<in> W. k * n < length c \<and> part_end n c k \<le> len)
     \<and> (len = 0 \<or> (\<exists>k \<in> W. len = part_end n c k))"

lemma length_masked [simp]: "length (masked n c W len) = len"
  by (simp add: masked_def)

lemma nth_masked: "p < len \<Longrightarrow> masked n c W len ! p = (if p div n \<in> W then c ! p else 0)"
  by (simp add: masked_def)

lemma length_content_part: "length (content_part n c k) = part_end n c k - k * n"
  by (simp add: content_part_def part_end_def min_def) linarith

lemma part_nonempty: "0 < n \<Longrightarrow> k * n < length c \<Longrightarrow> 0 < part_end n c k - k * n"
  by (simp add: part_end_def)

lemma nth_content_part: "p < part_end n c k - k * n \<Longrightarrow> content_part n c k ! p = c ! (k * n + p)"
  by (simp add: content_part_def part_end_def)

lemma in_part: "0 < n \<Longrightarrow> k * n \<le> p \<Longrightarrow> p < part_end n c k \<Longrightarrow> p div n = k"
  by (rule div_nat_eqI) (simp_all add: part_end_def mult.commute)

lemma before_part: "(p :: nat) < k * n \<Longrightarrow> p div n \<noteq> k"
  by (metis div_times_less_eq_dividend leD)

lemma after_part: "0 < n \<Longrightarrow> part_end n c k \<le> p \<Longrightarrow> p < length c \<Longrightarrow> p div n \<noteq> k"
  using dividend_less_div_times [of n p] by (auto simp: part_end_def min_def split: if_split_asm)

section \<open>One more part\<close>

lemma end_inside:
  assumes n: "0 < n" and ends: "end_ok n c W len" and k: "k \<notin> W" "k * n < length c" and inside: "k * n < len"
  shows "part_end n c k \<le> len" and "len \<le> length c"
proof -
  obtain j where j: "j \<in> W" "len = part_end n c j" using ends inside by (auto simp: end_ok_def)
  show "len \<le> length c" using j(2) by (simp add: part_end_def)
  have "j \<noteq> k" using j(1) k(1) by blast
  moreover have "k * n < (j + 1) * n" using inside j(2) by (simp add: part_end_def)
  then have "k < j + 1" using mult_less_cancel2 by blast
  ultimately have "k + 1 \<le> j" by simp
  then have "(k + 1) * n \<le> j * n" by (rule mult_le_mono1)
  also have "j * n \<le> len" using ends j by (auto simp: end_ok_def part_end_def)
  finally show "part_end n c k \<le> len" by (simp add: part_end_def)
qed

lemma masked_insert_inside:
  assumes n: "0 < n" and k: "k \<notin> W" and pe: "part_end n c k \<le> len" "len \<le> length c" "k * n < length c"
  shows "masked n c (insert k W) len
    = take (k * n) (masked n c W len) @ content_part n c k @ drop (k * n + length (content_part n c k)) (masked n c W len)"
proof (rule nth_equalityI)
  have start: "k * n < part_end n c k" using part_nonempty [OF n pe(3)] by simp
  then have sum: "k * n + (part_end n c k - k * n) = part_end n c k" by simp
  show "length (masked n c (insert k W) len) = length (take (k * n) (masked n c W len) @ content_part n c k
      @ drop (k * n + length (content_part n c k)) (masked n c W len))"
    using start pe(1) by (simp add: length_content_part)
  fix p assume p: "p < length (masked n c (insert k W) len)"
  consider "p < k * n" | "k * n \<le> p" "p < part_end n c k" | "part_end n c k \<le> p" by linarith
  then show "masked n c (insert k W) len ! p = (take (k * n) (masked n c W len) @ content_part n c k
      @ drop (k * n + length (content_part n c k)) (masked n c W len)) ! p"
  proof cases
    case 1
    then show ?thesis using p before_part [OF 1] by (simp add: nth_append nth_masked)
  next
    case 2
    moreover have "p - k * n < part_end n c k - k * n" using 2 by linarith
    ultimately show ?thesis using p in_part [OF n 2] pe(1) start
      by (simp add: nth_append nth_masked length_content_part nth_content_part)
  next
    case 3
    have "p div n \<noteq> k" using after_part [OF n 3] p pe(2) by simp
    moreover have "\<not> p - k * n < part_end n c k - k * n" using 3 by linarith
    ultimately show ?thesis using 3 p start sum pe(1)
      by (simp add: nth_append nth_masked length_content_part)
  qed
qed

lemma gap_unwritten:
  assumes n: "0 < n" and ends: "end_ok n c W len" and p: "len \<le> p" "p < length c"
  shows "p div n \<notin> W"
proof
  assume "p div n \<in> W"
  then have "part_end n c (p div n) \<le> p" using ends p(1) by (auto simp: end_ok_def)
  then show False using after_part [OF n _ p(2)] by blast
qed

lemma masked_insert_after:
  assumes n: "0 < n" and k: "k \<notin> W" "k * n < length c" and ends: "end_ok n c W len" and after: "len \<le> k * n"
  shows "masked n c (insert k W) (part_end n c k) = masked n c W len @ replicate (k * n - len) 0 @ content_part n c k"
proof (rule nth_equalityI)
  have start: "k * n < part_end n c k" using part_nonempty [OF n k(2)] by simp
  show "length (masked n c (insert k W) (part_end n c k)) = length (masked n c W len @ replicate (k * n - len) 0 @ content_part n c k)"
    using start after by (simp add: length_content_part)
  fix p assume p: "p < length (masked n c (insert k W) (part_end n c k))"
  consider "p < len" | "len \<le> p" "p < k * n" | "k * n \<le> p" by linarith
  then show "masked n c (insert k W) (part_end n c k) ! p = (masked n c W len @ replicate (k * n - len) 0 @ content_part n c k) ! p"
  proof cases
    case 1
    then show ?thesis using p before_part [of p k n] after by (simp add: nth_append nth_masked)
  next
    case 2
    have "p div n \<notin> W" using gap_unwritten [OF n ends 2(1)] 2(2) k(2) by simp
    moreover have "p - len < k * n - len" using 2 by linarith
    ultimately show ?thesis using 2 p before_part [OF 2(2)] by (simp add: nth_append nth_masked)
  next
    case 3
    moreover have "\<not> p - len < k * n - len" using 3 after by linarith
    ultimately show ?thesis using p in_part [OF n 3] after
      by (simp add: nth_append nth_masked nth_content_part)
  qed
qed

lemma upt_split: "i \<le> j \<Longrightarrow> j \<le> k \<Longrightarrow> [i..<k] = [i..<j] @ [j..<k]"
  using upt_add_eq_append [of i j "k - j"] by simp

lemma holes_inside:
  assumes n: "0 < n" and k: "k \<notin> W" and pe: "part_end n c k \<le> len" "len \<le> length c" "k * n < length c"
  shows "holes n W len = holes n (insert k W) len + length (content_part n c k)"
proof -
  have start: "k * n < part_end n c k" using part_nonempty [OF n pe(3)] by simp
  have split: "[0..<len] = [0..<k * n] @ [k * n..<part_end n c k] @ [part_end n c k..<len]"

    using start pe(1) upt_split [of 0 "k * n" len] upt_split [of "k * n" "part_end n c k" len] by simp
  have low: "filter (\<lambda>p. p div n \<notin> insert k W) [0..<k * n] = filter (\<lambda>p. p div n \<notin> W) [0..<k * n]"
    by (rule filter_cong) (use before_part in auto)
  have high: "filter (\<lambda>p. p div n \<notin> insert k W) [part_end n c k..<len] = filter (\<lambda>p. p div n \<notin> W) [part_end n c k..<len]"
  proof (rule filter_cong [OF refl])
    fix p assume "p \<in> set [part_end n c k..<len]"
    then have "p div n \<noteq> k" by (intro after_part [OF n]) (use pe(2) in auto)
    then show "(p div n \<notin> insert k W) = (p div n \<notin> W)" by simp
  qed
  have "filter (\<lambda>p. p div n \<notin> insert k W) [k * n..<part_end n c k] = []"
    using in_part [OF n] by (auto simp: filter_empty_conv)
  moreover have "filter (\<lambda>p. p div n \<notin> W) [k * n..<part_end n c k] = [k * n..<part_end n c k]"
    using in_part [OF n] k by (auto simp: filter_id_conv)
  ultimately show ?thesis unfolding holes_def split filter_append length_append low high by (simp add: length_content_part)
qed

lemma holes_after:
  assumes n: "0 < n" and k: "k \<notin> W" "k * n < length c" and ends: "end_ok n c W len" and after: "len \<le> k * n"
  shows "holes n (insert k W) (part_end n c k) = holes n W len + (k * n - len)"
proof -
  have start: "k * n < part_end n c k" using part_nonempty [OF n k(2)] by simp
  have split: "[0..<part_end n c k] = [0..<len] @ [len..<k * n] @ [k * n..<part_end n c k]"

    using start after upt_split [of 0 len "part_end n c k"] upt_split [of len "k * n" "part_end n c k"] by simp
  have "filter (\<lambda>p. p div n \<notin> insert k W) [0..<len] = filter (\<lambda>p. p div n \<notin> W) [0..<len]"
    by (rule filter_cong) (use before_part [of _ k n] after in auto)
  moreover have "filter (\<lambda>p. p div n \<notin> insert k W) [len..<k * n] = [len..<k * n]"
    using before_part gap_unwritten [OF n ends] k(2) by (auto simp: filter_id_conv)
  moreover have "filter (\<lambda>p. p div n \<notin> insert k W) [k * n..<part_end n c k] = []"
    using in_part [OF n] by (auto simp: filter_empty_conv)
  ultimately show ?thesis by (simp add: holes_def split)
qed

lemma end_ok_insert:
  assumes "end_ok n c W len" and "k * n < length c"
  shows "end_ok n c (insert k W) (max len (part_end n c k))"
  using assms by (auto simp: end_ok_def max_def)

section \<open>Feeding the parts\<close>

definition loaded_bytes :: "file_loader \<Rightarrow> bytes" where
  "loaded_bytes l = (case fl_file l of Some f \<Rightarrow> f | None \<Rightarrow> fl_data l)"

definition holds_parts :: "nat \<Rightarrow> bytes \<Rightarrow> nat set \<Rightarrow> file_loader \<Rightarrow> bool" where
  "holds_parts n c W l \<longleftrightarrow> (\<exists>len. end_ok n c W len \<and> loaded_bytes l = masked n c W len
     \<and> fl_skipped l = int (holes n W len)) \<and> \<not> fl_finished l"

lemma write_at_after: "length bs \<le> o1 \<Longrightarrow> write_at o1 buffer bs = bs @ replicate (o1 - length bs) 0 @ buffer"
  by (simp add: write_at_def grow_to_def)

lemma write_at_inside: "o1 \<le> length bs \<Longrightarrow> write_at o1 buffer bs = take o1 bs @ buffer @ drop (o1 + length buffer) bs"
  by (simp add: write_at_def grow_to_def)

lemma current_offset_loaded: "current_offset l = int (length (loaded_bytes l)) - fl_skipped l"
  by (simp add: current_offset_def loaded_bytes_def split: option.split)

text \<open>What \<open>writeResultPart\<close> does, in memory and in a file alike: after the end it leaves a gap, before
  the end it fills one.\<close>

lemma write_result_part_after:
  assumes "\<not> fl_finished l" and "fl_file l \<noteq> None \<longrightarrow> dk_write dk" and "buffer \<noteq> []"
    and after: "length (loaded_bytes l) \<le> o1"
  shows "\<exists>l'. write_result_part dk (int o1) buffer l = Some (True, l') \<and> \<not> fl_finished l' \<and> (fl_file l' = None) = (fl_file l = None)
    \<and> loaded_bytes l' = loaded_bytes l @ replicate (o1 - length (loaded_bytes l)) 0 @ buffer
    \<and> fl_skipped l' = fl_skipped l + int (o1 - length (loaded_bytes l))"
proof (cases "fl_file l")
  case None
  then show ?thesis using assms
    by (cases "length (fl_data l) = o1") (auto simp: write_result_part_def loaded_bytes_def Let_def grow_to_def of_nat_diff)
next
  case (Some f)
  then show ?thesis using assms
    by (cases "length f = o1") (auto simp: write_result_part_def loaded_bytes_def Let_def write_at_after of_nat_diff)
qed

lemma write_result_part_inside:
  assumes "\<not> fl_finished l" and "fl_file l \<noteq> None \<longrightarrow> dk_write dk" and "buffer \<noteq> []"
    and inside: "o1 + length buffer \<le> length (loaded_bytes l)"
  shows "\<exists>l'. write_result_part dk (int o1) buffer l = Some (True, l') \<and> \<not> fl_finished l' \<and> (fl_file l' = None) = (fl_file l = None)
    \<and> loaded_bytes l' = take o1 (loaded_bytes l) @ buffer @ drop (o1 + length buffer) (loaded_bytes l)
    \<and> fl_skipped l' = fl_skipped l - int (length buffer)"
proof -
  have "0 < length buffer" using assms(3) by simp
  then have less: "o1 < length (loaded_bytes l)" using inside by linarith
  show ?thesis
  proof (cases "fl_file l")
    case None
    then show ?thesis using assms less
      by (auto simp: write_result_part_def loaded_bytes_def Let_def write_at_inside)
  next
    case (Some f)
    then show ?thesis using assms less
      by (auto simp: write_result_part_def loaded_bytes_def Let_def write_at_inside)
  qed
qed

lemma write_part_holds:
  assumes n: "0 < n" and holds: "holds_parts n c W l" and k: "k \<notin> W" "k * n < length c"
    and disk: "fl_file l \<noteq> None \<longrightarrow> dk_write dk"
  shows "\<exists>l'. write_result_part dk (int (k * n)) (content_part n c k) l = Some (True, l') \<and> holds_parts n c (insert k W) l'
    \<and> (fl_file l' = None) = (fl_file l = None)
    \<and> current_offset l' = current_offset l + int (length (content_part n c k))"
proof -
  obtain len where len: "end_ok n c W len" "loaded_bytes l = masked n c W len" "fl_skipped l = int (holes n W len)"
      "\<not> fl_finished l"
    using holds by (auto simp: holds_parts_def)
  have nonempty: "0 < length (content_part n c k)" using part_nonempty [OF n k(2)] by (simp add: length_content_part)
  then have ne: "content_part n c k \<noteq> []" by simp
  have total: "k * n + length (content_part n c k) = part_end n c k" using nonempty by (simp add: length_content_part)
  show ?thesis
  proof (cases "k * n < len")
    case True
    note inside = end_inside [OF n len(1) k True]
    have "k * n + length (content_part n c k) \<le> length (loaded_bytes l)" using inside(1) by (simp only: total len(2) length_masked)
    from write_result_part_inside [OF len(4) disk ne this] obtain l' where
        l': "write_result_part dk (int (k * n)) (content_part n c k) l = Some (True, l')" "\<not> fl_finished l'"
          "(fl_file l' = None) = (fl_file l = None)"
          "loaded_bytes l' = take (k * n) (loaded_bytes l) @ content_part n c k @ drop (k * n + length (content_part n c k)) (loaded_bytes l)"
          "fl_skipped l' = fl_skipped l - int (length (content_part n c k))"
      by (elim exE conjE) (rule that)
    have "loaded_bytes l' = masked n c (insert k W) len"
      using masked_insert_inside [OF n k(1) inside k(2)] l'(4) by (simp only: len(2))
    moreover have "fl_skipped l' = int (holes n (insert k W) len)"
      using holes_inside [OF n k(1) inside k(2)] l'(5) len(3) by simp
    moreover have "length (loaded_bytes l') = length (loaded_bytes l)"
      unfolding l'(4) using \<open>k * n + length (content_part n c k) \<le> length (loaded_bytes l)\<close> by simp
    then have "current_offset l' = current_offset l + int (length (content_part n c k))"
      using l'(5) by (simp add: current_offset_loaded)
    moreover have "end_ok n c (insert k W) len" using end_ok_insert [OF len(1) k(2)] inside(1) by (simp add: max_absorb1)
    ultimately show ?thesis using l'(1,2,3) by (auto simp: holds_parts_def)
  next
    case False
    then have after: "len \<le> k * n" by simp
    then have "length (loaded_bytes l) \<le> k * n" by (simp add: len(2))
    from write_result_part_after [OF len(4) disk ne this] obtain l' where
        l': "write_result_part dk (int (k * n)) (content_part n c k) l = Some (True, l')" "\<not> fl_finished l'"
          "(fl_file l' = None) = (fl_file l = None)"
          "loaded_bytes l' = loaded_bytes l @ replicate (k * n - length (loaded_bytes l)) 0 @ content_part n c k"
          "fl_skipped l' = fl_skipped l + int (k * n - length (loaded_bytes l))"
      by (elim exE conjE) (rule that)
    have "loaded_bytes l' = masked n c (insert k W) (part_end n c k)"
      using masked_insert_after [OF n k len(1) after] l'(4) by (simp add: len(2))
    moreover have "fl_skipped l' = int (holes n (insert k W) (part_end n c k))"
      using holes_after [OF n k len(1) after] l'(5) len(2,3) by simp
    moreover have "current_offset l' = current_offset l + int (length (content_part n c k))"
      using l'(4,5) after by (simp add: current_offset_loaded len(2))
    moreover have "end_ok n c (insert k W) (part_end n c k)"
      using end_ok_insert [OF len(1) k(2)] total after by (simp add: max_absorb2)
    ultimately show ?thesis using l'(1,2,3) by (auto simp: holds_parts_def)
  qed
qed

text \<open>Feeding one part after the other.\<close>

fun write_parts :: "disk \<Rightarrow> (int \<times> bytes) list \<Rightarrow> file_loader \<Rightarrow> file_loader option" where
  "write_parts dk [] l = Some l"
| "write_parts dk ((o1, part) # parts) l =
     (case write_result_part dk o1 part l of Some (True, l1) \<Rightarrow> write_parts dk parts l1 | _ \<Rightarrow> None)"

definition content_parts :: "nat \<Rightarrow> bytes \<Rightarrow> nat list \<Rightarrow> (int \<times> bytes) list" where
  "content_parts n c ks = map (\<lambda>k. (int (k * n), content_part n c k)) ks"

lemma write_parts_hold:
  assumes "0 < n" and "holds_parts n c W l" and "distinct ks" and "set ks \<inter> W = {}"
    and "\<And>k. k \<in> set ks \<Longrightarrow> k * n < length c" and "fl_file l \<noteq> None \<longrightarrow> dk_write dk"
  shows "\<exists>l'. write_parts dk (content_parts n c ks) l = Some l' \<and> holds_parts n c (set ks \<union> W) l'
    \<and> current_offset l' = current_offset l + int (sum_list (map (\<lambda>k. length (content_part n c k)) ks))"
  using assms
proof (induction ks arbitrary: l W)
  case (Cons k ks)
  obtain l1 where l1: "write_result_part dk (int (k * n)) (content_part n c k) l = Some (True, l1)"
      "holds_parts n c (insert k W) l1" "(fl_file l1 = None) = (fl_file l = None)"
      "current_offset l1 = current_offset l + int (length (content_part n c k))"
    using write_part_holds [OF Cons.prems(1,2), of k dk] Cons.prems(4,5,6) by auto
  have "\<exists>l'. write_parts dk (content_parts n c ks) l1 = Some l' \<and> holds_parts n c (set ks \<union> insert k W) l'
      \<and> current_offset l' = current_offset l1 + int (sum_list (map (\<lambda>k. length (content_part n c k)) ks))"
    by (rule Cons.IH [OF Cons.prems(1) l1(2)]) (use Cons.prems l1(3) in auto)
  then show ?case using l1(1,4) by (auto simp: content_parts_def)
qed (simp add: content_parts_def)

text \<open>All the parts: no gap is left.\<close>

lemma all_parts_held:
  assumes n: "0 < n" and holds: "holds_parts n c W l" and all: "\<And>k. k * n < length c \<Longrightarrow> k \<in> W"
  shows "loaded_bytes l = c \<and> fl_skipped l = 0"
proof -
  obtain len where len: "end_ok n c W len" "loaded_bytes l = masked n c W len" "fl_skipped l = int (holes n W len)"
    using holds by (auto simp: holds_parts_def)
  have here: "p div n \<in> W" if "p < length c" for p
  proof (rule all)
    show "p div n * n < length c" using that div_times_less_eq_dividend [of p n] by linarith
  qed
  have "len \<le> length c" using len(1) by (auto simp: end_ok_def part_end_def)
  moreover have "length c \<le> len"
  proof (rule ccontr)
    assume "\<not> length c \<le> len"
    then have "len < length c" by simp
    then show False using gap_unwritten [OF n len(1) le_refl] here by blast
  qed
  ultimately have "len = length c" by simp
  then show ?thesis using len(2,3) here
    by (auto simp: holes_def filter_empty_conv nth_masked intro: nth_equalityI)
qed

end
