(* ===== verification/Download_Plain.thy ===== *)
theory Download_Plain
  imports Download_Defined
begin

text \<open>
  Downloads without content servers: the third invariant.  A task with a request in flight is in the
  queue of its datacenter, a preloader waits for every part that is in flight, no part waits for a
  hash, and the queues hold the priorities that the reset of the generation expects.  Content servers
  break it (a request for hashes that is sent again as a part), so it holds in the runs without them.
\<close>

named_theorems plains \<open>operations that keep the third invariant of the downloads\<close>

section \<open>The invariant\<close>

definition preload_sized :: "video_preload \<Rightarrow> bool" where
  "preload_sized p \<longleftrightarrow> download_part_size dvd vp_next p \<and> vp_next p \<le> preload_parts_size p"

fun asks_for :: "loader \<Rightarrow> int \<Rightarrow> bool" where
  "asks_for (Preload p) o1 = (o1 \<in> set (vp_requested p))"
| "asks_for _ o1 = True"

fun plain_loader :: "loader \<Rightarrow> bool" where
  "plain_loader (Streaming l) = (-1 \<le> sl_priority l)"
| "plain_loader (FileLoad l) = True"
| "plain_loader (Preload p) = preload_sized p"

definition plain_task :: "bool \<Rightarrow> download_task \<Rightarrow> bool" where
  "plain_task queued task \<longleftrightarrow> dt_unchecked task = [] \<and> dt_hashes_request task = 0
     \<and> (dt_sent task \<noteq> [] \<longrightarrow> queued) \<and> plain_loader (dt_loader task)
     \<and> (\<forall>(rid, r) \<in> set (dt_sent task). asks_for (dt_loader task) (rd_offset r))"

definition in_queue :: "nat \<Rightarrow> download_task \<Rightarrow> downloads \<Rightarrow> bool" where
  "in_queue t task s \<longleftrightarrow> t \<in> fst ` set (queue_of (dt_dc task) s)"

definition plain_inv :: "downloads \<Rightarrow> bool" where
  "plain_inv s \<longleftrightarrow> (\<forall>t task. flat_get (dw_tasks s) t = Some task \<longrightarrow> plain_task (in_queue t task s) task)
     \<and> (\<forall>dc. queue_ok (queue_of dc s) \<and> priorities_known (queue_of dc s))"

text \<open>A request at the offset may be placed.\<close>

definition may_ask :: "nat \<Rightarrow> int \<Rightarrow> downloads \<Rightarrow> bool" where
  "may_ask t o1 s \<longleftrightarrow> (\<forall>task. flat_get (dw_tasks s) t = Some task \<longrightarrow> in_queue t task s \<and> asks_for (dt_loader task) o1)"

lemma queue_of_cong: "dw_queues s' = dw_queues s \<Longrightarrow> queue_of dc s' = queue_of dc s"
  by (simp add: queue_of_def)

lemma in_queue_cong: "dw_queues s' = dw_queues s \<Longrightarrow> dt_dc task' = dt_dc task \<Longrightarrow> in_queue t task' s' = in_queue t task s"
  by (simp add: in_queue_def queue_of_def)

lemma plain_cong: "dw_tasks s' = dw_tasks s \<Longrightarrow> dw_queues s' = dw_queues s \<Longrightarrow> plain_inv s' = plain_inv s"
  by (simp add: plain_inv_def in_queue_def queue_of_def)

lemma may_ask_cong: "dw_tasks s' = dw_tasks s \<Longrightarrow> dw_queues s' = dw_queues s \<Longrightarrow> may_ask t o1 s' = may_ask t o1 s"
  by (simp add: may_ask_def in_queue_def queue_of_def)

lemma plain_irrelevant [simp]:
  "plain_inv (s\<lparr> dw_log := es \<rparr>) = plain_inv s"
  "plain_inv (s\<lparr> dw_now := n \<rparr>) = plain_inv s"
  "plain_inv (s\<lparr> dw_deferred := ds \<rparr>) = plain_inv s"
  "plain_inv (s\<lparr> dw_kill_timer := kt \<rparr>) = plain_inv s"
  "plain_inv (s\<lparr> dw_reset_timer := rt \<rparr>) = plain_inv s"
  "plain_inv (log_event e s) = plain_inv s"
  "plain_inv (set_balance dc b s) = plain_inv s"
  "plain_inv (touch_balance dc s) = plain_inv s"
  by (rule plain_cong; simp)+

lemma plain_at: "plain_inv s \<Longrightarrow> flat_get (dw_tasks s) t = Some task \<Longrightarrow> plain_task (in_queue t task s) task"
  by (simp add: plain_inv_def)

lemma plain_put:
  assumes "plain_inv s" and "dw_tasks s' = flat_put t task' (dw_tasks s)" and "dw_queues s' = dw_queues s"
    and "plain_task (in_queue t task' s) task'"
  shows "plain_inv s'"
  using assms unfolding plain_inv_def by (simp add: in_queue_def queue_of_def)

lemma plain_set_task:
  "plain_inv s \<Longrightarrow> plain_task (in_queue t task' s) task' \<Longrightarrow> plain_inv (set_task t task' s)"
  by (erule plain_put) simp_all

lemma plain_set_loader:
  assumes inv: "plain_inv s" and get: "flat_get (dw_tasks s) t = Some task" and l: "plain_loader l"
    and asks: "\<forall>(rid, r) \<in> set (dt_sent task). asks_for l (rd_offset r)"
  shows "plain_inv (set_loader t l s)"
proof -
  have "plain_task (in_queue t (task\<lparr> dt_loader := l \<rparr>) s) (task\<lparr> dt_loader := l \<rparr>)"
    using plain_at [OF inv get] l asks by (simp add: plain_task_def in_queue_def)
  then show ?thesis using plain_set_task [OF inv] get by (simp add: set_loader_def)
qed

section \<open>Requests\<close>

lemma plain_drop: "plain_task q task \<Longrightarrow> plain_task q (drop_sent rid r task)"
  using set_flat_del_subset [of rid "dt_sent task"] by (auto simp: plain_task_def drop_sent_def flat_del_def)

lemma plain_add:
  "plain_task q task \<Longrightarrow> q \<Longrightarrow> asks_for (dt_loader task) (rd_offset r) \<Longrightarrow> plain_task q (add_sent rid r task)"
  using set_flat_put_subset [of rid r "dt_sent task"] by (fastforce simp: plain_task_def add_sent_def)

lemma sent_may_ask:
  assumes "plain_inv s" and "flat_get (dw_tasks s) t = Some task" and "flat_get (dt_sent task) rid = Some r"
  shows "may_ask t (rd_offset r) s"
  using plain_at [OF assms(1,2)] flat_get_in [OF assms(3)] assms(2) by (auto simp: may_ask_def plain_task_def)

lemma drop_tasks_plain:
  assumes inv: "plain_inv s" and get: "flat_get (dw_tasks s) t = Some task"
    and tasks: "dw_tasks s' = flat_put t (drop_sent rid r task) (dw_tasks s)" and queues: "dw_queues s' = dw_queues s"
  shows "plain_inv s'" and "may_ask u o1 s' = may_ask u o1 s"
proof -
  have same: "in_queue t (drop_sent rid r task) s = in_queue t task s" "in_queue t (drop_sent rid r task) s' = in_queue t task s"
    using in_queue_cong [OF queues] by (simp_all add: in_queue_def drop_sent_def)
  show "plain_inv s'"
    by (rule plain_put [OF inv tasks queues]) (use plain_drop [OF plain_at [OF inv get]] in \<open>simp add: same\<close>)
  show "may_ask u o1 s' = may_ask u o1 s"
    using get tasks same in_queue_cong [OF queues] by (cases "u = t") (simp_all add: may_ask_def)
qed

lemma finish_sent_request_plain [plains]:
  assumes op: "finish_sent_request t rid reason s = Some (r, s')" and inv: "plain_inv s"
  shows "plain_inv s'" and "may_ask t (rd_offset r) s'"
proof -
  obtain task where task: "flat_get (dw_tasks s) t = Some task" "flat_get (dt_sent task) rid = Some r"
      "dw_tasks s' = flat_put t (drop_sent rid r task) (dw_tasks s)" "dw_queues s' = dw_queues s"
    using finish_sent_request_effect [OF op] by blast
  note drop = drop_tasks_plain [OF inv task(1,3,4)]
  show "plain_inv s'" by (rule drop)
  show "may_ask t (rd_offset r) s'" using sent_may_ask [OF inv task(1,2)] drop(2) by blast
qed

lemma cancel_request_plain [plains]:
  assumes op: "cancel_request t rid s = Some s'" and inv: "plain_inv s"
  shows "plain_inv s'" and "may_ask u o1 s' = may_ask u o1 s"
proof -
  obtain task r where task: "flat_get (dw_tasks s) t = Some task"
      "dw_tasks s' = flat_put t (drop_sent rid r task) (dw_tasks s)" "dw_queues s' = dw_queues s"
    using cancel_request_effect [OF op] by blast
  note drop = drop_tasks_plain [OF inv task]
  show "plain_inv s'" "may_ask u o1 s' = may_ask u o1 s" by (rule drop)+
qed

lemma make_request_plain [plains]:
  assumes op: "make_request t r s = Some s'" and inv: "plain_inv s" and ask: "may_ask t (rd_offset r) s"
  shows "plain_inv s'" and "may_ask u o1 s' = may_ask u o1 s" and "dw_queues s' = dw_queues s"
proof -
  obtain task a where get: "flat_get (dw_tasks s) t = Some task" and queues: "dw_queues s' = dw_queues s"
      and tasks: "dw_tasks s' = flat_put t (add_sent (dw_next_request s) (r\<lparr> rd_amount := a, rd_sent := dw_now s \<rparr>) task) (dw_tasks s)"
    using make_request_effect [OF op] by blast
  let ?task = "add_sent (dw_next_request s) (r\<lparr> rd_amount := a, rd_sent := dw_now s \<rparr>) task"
  have same: "in_queue t ?task s = in_queue t task s" "in_queue t ?task s' = in_queue t task s"
    using in_queue_cong [OF queues] by (simp_all add: in_queue_def add_sent_def)
  have "plain_task (in_queue t task s) ?task"
    by (rule plain_add [OF plain_at [OF inv get]]) (use ask get in \<open>simp_all add: may_ask_def\<close>)
  then show "plain_inv s'" by (intro plain_put [OF inv tasks queues]) (simp add: same)
  show "may_ask u o1 s' = may_ask u o1 s"
    using get tasks same in_queue_cong [OF queues] by (cases "u = t") (simp_all add: may_ask_def)
  show "dw_queues s' = dw_queues s" by (rule queues)
qed

section \<open>Sending parts\<close>

lemma preload_take_sized:
  assumes "preload_take p = Some (o1, p')" and "preload_sized p"
  shows "preload_sized p'" and "o1 \<in> set (vp_requested p')" and "set (vp_requested p) \<subseteq> set (vp_requested p')"
proof -
  define requested where "requested = flat_insert (vp_next p) (vp_requested p)"
  have set: "set requested = insert (vp_next p) (set (vp_requested p))" by (simp add: requested_def)
  have p': "vp_next p < preload_parts_size p" "o1 = last requested"
      "p' = p\<lparr> vp_requested := requested, vp_next := vp_next p + download_part_size \<rparr>"
    using assms(1) by (auto simp: preload_take_def preload_ready_def Let_def requested_def split: if_split_asm)
  have "requested \<noteq> []" using set by auto
  then show "o1 \<in> set (vp_requested p')" by (simp add: p')
  show "set (vp_requested p) \<subseteq> set (vp_requested p')" by (auto simp: p' set)
  have dvd: "download_part_size dvd vp_next p" "download_part_size dvd preload_parts_size p"
    using assms(2) by (simp_all add: preload_sized_def preload_parts_size_def)
  from dvd(2,1) have "download_part_size dvd preload_parts_size p - vp_next p" by (rule dvd_diff)
  then have "download_part_size \<le> preload_parts_size p - vp_next p" using p'(1) by (intro zdvd_imp_le) simp_all
  then show "preload_sized p'" using dvd by (simp add: p' preload_sized_def preload_parts_size_def)
qed

lemma loader_take_plain:
  assumes "loader_take now have_sent l = Some (o1, l')" and "plain_loader l"
  shows "plain_loader l' \<and> asks_for l' o1 \<and> (\<forall>o2. asks_for l o2 \<longrightarrow> asks_for l' o2)"
proof (cases l)
  case (Streaming sl)
  then show ?thesis using assms by (auto simp: streaming_take_def split: prod.split_asm option.split_asm)
next
  case (FileLoad fl)
  then show ?thesis using assms by (auto simp: file_take_def split: if_split_asm)
next
  case (Preload p)
  then obtain p' where p': "l' = Preload p'" "preload_take p = Some (o1, p')" using assms by auto
  then show ?thesis using preload_take_sized [OF p'(2)] assms(2) Preload by auto
qed

lemma load_part_plain [plains]:
  assumes op: "load_part t i s = Some s'" and inv: "plain_inv s"
    and queued: "\<And>task. flat_get (dw_tasks s) t = Some task \<Longrightarrow> in_queue t task s"
  shows "plain_inv s'" and "dw_queues s' = dw_queues s"
proof -
  obtain task o1 l where get: "flat_get (dw_tasks s) t = Some task"
      and taken: "loader_take (dw_now s) (have_sent_requests task) (dt_loader task) = Some (o1, l)"
      and make: "make_request t (new_request o1 i) (set_task t (task\<lparr> dt_loader := l \<rparr>) s) = Some s'"
    using op by (auto simp: load_part_def bind_eq_Some_conv)
  have ok: "plain_task (in_queue t task s) task" using plain_at [OF inv get] .
  then have l: "plain_loader l" "asks_for l o1" "\<And>o2. asks_for (dt_loader task) o2 \<Longrightarrow> asks_for l o2"
    using loader_take_plain [OF taken] by (simp_all add: plain_task_def)
  have "\<forall>(rid, r) \<in> set (dt_sent task). asks_for l (rd_offset r)" using ok l(3) by (auto simp: plain_task_def)
  then have inv1: "plain_inv (set_task t (task\<lparr> dt_loader := l \<rparr>) s)"
    using plain_set_loader [OF inv get l(1)] get by (simp add: set_loader_def)
  have ask: "may_ask t (rd_offset (new_request o1 i)) (set_task t (task\<lparr> dt_loader := l \<rparr>) s)"
    using queued [OF get] l(2) by (simp add: may_ask_def new_request_def in_queue_def queue_of_def)
  show "plain_inv s'" using make_request_plain [OF make inv1 ask] by blast
  show "dw_queues s' = dw_queues s" using make_request_plain(3) [OF make inv1 ask] by simp
qed

lemma try_send_next_part_plain [plains]:
  assumes op: "try_send_next_part dc s = Some (again, s')" and inv: "plain_inv s" and dinv: "downloads_inv x s"
  shows "plain_inv s'"
proof (cases again)
  case False
  then show ?thesis using op inv by (auto simp: try_send_next_part_def Let_def split: option.split_asm if_split_asm)
next
  case True
  then obtain u i where u: "queue_next_task (ready_to_request (touch_balance dc s)) (db_total (balance_of dc s) > 0)
        (queue_of dc (touch_balance dc s)) = Some u" and load: "load_part u i (touch_balance dc s) = Some s'"
    using op by (auto simp: try_send_next_part_def Let_def split: option.split_asm if_split_asm)
  have "u \<in> fst ` set (queue_of dc (touch_balance dc s))" using queue_next_task_ready [OF u] by blast
  moreover have "queue_of dc (touch_balance dc s) = queue_of dc s" by (rule queue_of_cong) simp
  ultimately obtain p where "(u, p) \<in> set (queue_of dc s)" by auto
  then have "in_queue u task s" if "flat_get (dw_tasks s) u = Some task" for task
    using queue_of_ok(2) [OF dinv] that by (force simp: in_queue_def)
  then show ?thesis using load_part_plain [OF load] inv in_queue_cong [of "touch_balance dc s" s] by simp
qed

lemma check_send_next_plain [plains]:
  assumes op: "check_send_next dc s = Some s'" and inv: "plain_inv s" and dinv: "downloads_inv no_extra s"
  shows "plain_inv s'"
proof -
  have "plain_inv s' \<and> downloads_inv no_extra s'"
    by (rule check_send_next_invariant [OF op, of "\<lambda>a. plain_inv a \<and> downloads_inv no_extra a"])
      (use inv dinv try_send_next_part_plain try_send_next_part_keeps in blast)+
  then show ?thesis by blast
qed

section \<open>Queues\<close>

lemma queue_of_set [simp]: "queue_of dc (set_queue dc' q s) = (if dc = dc' then q else queue_of dc s)"
  by (simp add: queue_of_def set_queue_def)

lemma set_queue_plain:
  assumes inv: "plain_inv s" and q: "queue_ok q" "priorities_known q"
    and members: "\<And>t task. flat_get (dw_tasks s) t = Some task \<Longrightarrow> dt_sent task \<noteq> [] \<Longrightarrow> t \<in> fst ` set (queue_of dc s) \<Longrightarrow> t \<in> fst ` set q"
  shows "plain_inv (set_queue dc q s)"
proof -
  have "plain_task (in_queue t task (set_queue dc q s)) task" if get: "flat_get (dw_tasks s) t = Some task" for t task
    using plain_at [OF inv get] members [OF get] by (auto simp: plain_task_def in_queue_def)
  then show ?thesis using inv q by (simp add: plain_inv_def)
qed

lemma enqueue_task_plain [plains]:
  assumes op: "enqueue_task t p s = Some s'" and inv: "plain_inv s" and dinv: "downloads_inv no_extra s" and p: "-1 \<le> p"
  shows "plain_inv s'"
proof -
  obtain task where get: "flat_get (dw_tasks s) t = Some task"
    using op by (cases "flat_get (dw_tasks s) t") (simp_all add: enqueue_task_def)
  define s1 where "s1 = set_queue (dt_dc task) (queue_enqueue t p (queue_of (dt_dc task) s)) s"
  define s2 where "s2 = (if dw_reset_timer s1 = None then s1\<lparr> dw_reset_timer := Some (dw_now s1 + reset_priorities_timeout) \<rparr> else s1)"
  have send: "check_send_next (dt_dc task) s2 = Some s'"
    using op unfolding enqueue_task_unfold [OF get] Let_def s1_def s2_def .
  have ok: "queue_ok (queue_of (dt_dc task) s)" "priorities_known (queue_of (dt_dc task) s)"
    using inv by (simp_all add: plain_inv_def)
  have "plain_inv s1" unfolding s1_def
  proof (rule set_queue_plain [OF inv queue_ok_enqueue [OF ok(1)] priorities_known_enqueue [OF ok p]])
    fix u task' assume "u \<in> fst ` set (queue_of (dt_dc task) s)"
    then show "u \<in> fst ` set (queue_enqueue t p (queue_of (dt_dc task) s))"
      using ok(1) by (cases "u = t") (force simp: set_queue_enqueue)+
  qed
  then have "plain_inv s2" by (simp add: s2_def)
  moreover have "downloads_inv no_extra s2"
    using set_queue_enqueue_inv [OF dinv get, of p] by (simp add: s2_def s1_def)
  ultimately show ?thesis by (rule check_send_next_plain [OF send])
qed

lemma remove_task_plain [plains]:
  assumes op: "remove_task t s = Some s'" and inv: "plain_inv s" and dinv: "downloads_inv no_extra s"
    and idle: "\<And>task. flat_get (dw_tasks s) t = Some task \<Longrightarrow> dt_sent task = []"
  shows "plain_inv s'"
proof -
  obtain task where get: "flat_get (dw_tasks s) t = Some task"
      and send: "check_send_next (dt_dc task) (set_queue (dt_dc task) (queue_remove t (queue_of (dt_dc task) s)) s) = Some s'"
    using op unfolding remove_task_def bind_eq_Some_conv Let_def by blast
  have ok: "queue_ok (queue_of (dt_dc task) s)" "priorities_known (queue_of (dt_dc task) s)"
    using inv by (simp_all add: plain_inv_def)
  have "plain_inv (set_queue (dt_dc task) (queue_remove t (queue_of (dt_dc task) s)) s)"
  proof (rule set_queue_plain [OF inv _ priorities_known_remove [OF ok(2)]])
    show "queue_ok (queue_remove t (queue_of (dt_dc task) s))" using ok(1) by (simp add: queue_remove_def queue_ok_filter)
    fix u task' assume "flat_get (dw_tasks s) u = Some task'" "dt_sent task' \<noteq> []" "u \<in> fst ` set (queue_of (dt_dc task) s)"
    then show "u \<in> fst ` set (queue_remove t (queue_of (dt_dc task) s))"
      using idle [of task'] by (cases "u = t") (auto simp: queue_remove_def)
  qed
  then show ?thesis by (rule check_send_next_plain [OF send _ set_queue_remove_inv [OF dinv]])
qed

lemma set_queue_same_plain: "plain_inv s \<Longrightarrow> plain_inv (set_queue dc (queue_of dc s) s)"
  by (rule set_queue_plain) (simp_all add: plain_inv_def)

lemma check_after_success_plain [plains]:
  assumes "check_send_next_after_success dc s = Some s'" and "plain_inv s" and "downloads_inv no_extra s"
  shows "plain_inv s'"
  using check_send_next_plain [OF _ set_queue_same_plain [OF assms(2)] set_queue_same_inv [OF assms(3)]] assms(1)
  by (simp add: check_send_next_after_success_def)

lemma reset_generation_plain [plains]:
  assumes op: "reset_generation s = Some s'" and inv: "plain_inv s"
  shows "plain_inv s'"
proof -
  obtain qs where qs: "reset_queues (dw_queues s) = Some qs" and s': "s' = s\<lparr> dw_reset_timer := None, dw_queues := qs \<rparr>"
    using op by (auto simp: reset_generation_def)
  note spec = reset_queues_Some [OF qs]
  have keys: "flat_get qs dc \<noteq> None \<longleftrightarrow> flat_get (dw_queues s) dc \<noteq> None" for dc
    using arg_cong [OF conjunct1 [OF spec], of set] by (simp only: flat_get_keys set_map)
  have queue: "queue_of dc s' = map older (queue_of dc s)" for dc
  proof (cases "flat_get qs dc")
    case None
    then have "flat_get (dw_queues s) dc = None" using keys [of dc] by simp
    then show ?thesis using None by (simp add: s' queue_of_def)
  next
    case (Some q')
    then obtain q where q: "flat_get (dw_queues s) dc = Some q" "queue_reset_generation q = Some q'" using spec by blast
    then have of_dc: "queue_of dc s = q" by (simp add: queue_of_def)
    have "queue_ok (queue_of dc s)" "priorities_known (queue_of dc s)" using inv unfolding plain_inv_def by blast+
    then show ?thesis using queue_reset_generation_eq [of q] q(2) Some by (simp add: of_dc s') (simp add: queue_of_def)
  qed
  have "in_queue t task s' = in_queue t task s" for t task by (simp add: in_queue_def queue image_image)
  moreover have "dw_tasks s' = dw_tasks s" by (simp add: s')
  moreover have "queue_ok (queue_of dc s)" "priorities_known (queue_of dc s)" for dc using inv unfolding plain_inv_def by blast+
  ultimately show ?thesis using inv unfolding plain_inv_def
    by (simp add: queue queue_ok_older priorities_known_older)
qed

end
