(* ===== verification/Download_Plain_Steps.thy ===== *)
theory Download_Plain_Steps
  imports Download_Plain
begin

text \<open>
  Every call without content servers keeps the third invariant of the downloads.
\<close>

section \<open>Cancelling\<close>

lemma cancel_requests_plain [plains]:
  "cancel_requests t rids s = Some s' \<Longrightarrow> plain_inv s \<Longrightarrow> plain_inv s'"
proof (induction t rids s rule: cancel_requests.induct)
  case (2 t rid rids s)
  then obtain s1 where s1: "cancel_request t rid s = Some s1" "cancel_requests t rids s1 = Some s'"
    by (auto simp: bind_eq_Some_conv)
  then show ?case using 2(1) [OF s1] cancel_request_plain(1) [OF s1(1) 2(3)] by simp
qed simp

lemma plain_same_unchecked:
  assumes "plain_inv s" and "flat_get (dw_tasks s) t = Some task" and "us = []"
  shows "plain_inv (set_task t (task\<lparr> dt_unchecked := us \<rparr>) s)"
  using plain_at [OF assms(1,2)] assms(3)
  by (intro plain_set_task [OF assms(1)]) (simp add: plain_task_def in_queue_def)

lemma cancel_all_requests_plain [plains]:
  assumes "cancel_all_requests t s = Some s'" and "plain_inv s"
  shows "plain_inv s'"
proof -
  obtain task :: download_task and s1 where s1: "cancel_requests t (map fst (dt_sent task)) s = Some s1" "s' = clear_unchecked t s1"
    using assms(1) unfolding cancel_all_requests_def bind_eq_Some_conv by auto
  have "plain_inv s1" using cancel_requests_plain [OF s1(1) assms(2)] .
  then show ?thesis using plain_same_unchecked by (auto simp: s1(2) clear_unchecked_def split: option.split)
qed

lemma cancel_request_for_offset_plain [plains]:
  assumes op: "cancel_request_for_offset t o1 s = Some s'" and inv: "plain_inv s"
  shows "plain_inv s'"
proof -
  obtain task :: download_task and s1 task1 where
      s1: "(case flat_get (dt_by_offset task) o1 of None \<Rightarrow> Some s | Some rid \<Rightarrow> cancel_request t rid s) = Some s1"
      and get: "flat_get (dw_tasks s1) t = Some task1"
      and s': "s' = set_task t (task1\<lparr> dt_unchecked := flat_del o1 (dt_unchecked task1) \<rparr>) s1"
    using op unfolding cancel_request_for_offset_def bind_eq_Some_conv option.inject by blast
  have inv1: "plain_inv s1" using s1 inv cancel_request_plain(1) by (auto split: option.split_asm)
  have "flat_del o1 (dt_unchecked task1) = []" using plain_at [OF inv1 get] by (simp add: plain_task_def flat_del_def)
  then show ?thesis using plain_same_unchecked [OF inv1 get] by (simp add: s')
qed

text \<open>A loader that asks for what the one before it asked for; a file loader always does.\<close>

lemma set_loader_plain:
  assumes inv: "plain_inv s" and l: "plain_loader l"
    and asks: "\<And>task o1. flat_get (dw_tasks s) t = Some task \<Longrightarrow> asks_for (dt_loader task) o1 \<Longrightarrow> asks_for l o1"
  shows "plain_inv (set_loader t l s)"
proof (cases "flat_get (dw_tasks s) t")
  case (Some task)
  show ?thesis
    by (rule plain_set_loader [OF inv Some l]) (use plain_at [OF inv Some] asks [OF Some] in \<open>auto simp: plain_task_def\<close>)
qed (use inv in \<open>simp add: set_loader_def\<close>)

lemma set_file_plain [simp]: "plain_inv s \<Longrightarrow> plain_inv (set_loader t (FileLoad l) s)"
  by (rule set_loader_plain) simp_all

lemma set_streaming_plain: "plain_inv s \<Longrightarrow> -1 \<le> sl_priority l \<Longrightarrow> plain_inv (set_loader t (Streaming l) s)"
  by (rule set_loader_plain) simp_all

lemma plain_preload:
  "plain_inv s \<Longrightarrow> flat_get (dw_tasks s) t = Some task \<Longrightarrow> dt_loader task = Preload p \<Longrightarrow> preload_sized p"
  using plain_at [of s t task] by (simp add: plain_task_def)

lemma plain_streaming: "plain_inv s \<Longrightarrow> loader_at t s = Some (Streaming l) \<Longrightarrow> -1 \<le> sl_priority l"
  using plain_at by (fastforce simp: loader_at_Some plain_task_def)

lemma file_cancel_plain [plains]: "file_cancel t fail l s = Some s' \<Longrightarrow> plain_inv s \<Longrightarrow> plain_inv s'"
  using cancel_all_requests_plain by (auto simp: file_cancel_def bind_eq_Some_conv)

lemma preload_fail_plain [plains]:
  assumes op: "preload_fail t p s = Some s'" and inv: "plain_inv s" and get: "flat_get (dw_tasks s) t = Some task" "dt_loader task = Preload p"
  shows "plain_inv s'"
proof -
  have "plain_inv (set_loader t (Preload (p\<lparr> vp_failed := True \<rparr>)) s)"
    by (rule set_loader_plain [OF inv])
      (use plain_preload [OF inv get] get in \<open>simp_all add: preload_sized_def preload_parts_size_def\<close>)
  then show ?thesis using op cancel_all_requests_plain by (auto simp: preload_fail_def bind_eq_Some_conv)
qed

lemma cancel_on_fail_plain [plains]:
  assumes op: "cancel_on_fail t s = Some s'" and inv: "plain_inv s"
  shows "plain_inv s'"
proof -
  obtain task where get: "flat_get (dw_tasks s) t = Some task" using op by (auto simp: cancel_on_fail_def bind_eq_Some_conv)
  show ?thesis
    by (cases "dt_loader task")
      (use op inv get file_cancel_plain preload_fail_plain [OF _ inv get] in \<open>auto simp: cancel_on_fail_def\<close>)
qed

section \<open>Parts\<close>

lemma finalize_result_plain [plains]:
  assumes "finalize_result env t l s = Some (ok, s')" and "plain_inv s"
  shows "plain_inv s'"
proof -
  obtain good l1 where "copy_to_file (de_disk env) l = (good, l1)" by fastforce
  then have "file_cancel t FileWriteFailure l1 s = Some s' \<or> s' = file_finish t l1 s"
    using assms(1) by (cases good) (auto simp: finalize_result_def split: if_split_asm)
  then show ?thesis using file_cancel_plain assms(2) by (auto simp: file_finish_def)
qed

lemma file_feed_part_plain:
  assumes op: "file_feed_part env t o1 buffer l s = Some (ok, s')" and inv: "plain_inv s" and dinv: "downloads_inv no_extra s"
  shows "plain_inv s'"
proof -
  obtain good l1 where written: "write_result_part (de_disk env) o1 buffer l = Some (good, l1)"
    using op by (auto simp: file_feed_part_def bind_eq_Some_conv)
  show ?thesis
  proof (cases good)
    case False
    then show ?thesis using op written inv file_cancel_plain by (auto simp: file_feed_part_def)
  next
    case True
    obtain task where get: "flat_get (dw_tasks s) t = Some task"
      using op written True by (auto simp: file_feed_part_def bind_eq_Some_conv)
    define s1 where "s1 = set_loader t (FileLoad (mark_last_part buffer l1)) s"
    have inv1: "plain_inv s1" "downloads_inv no_extra s1" using inv dinv by (simp_all add: s1_def)
    show ?thesis
    proof (cases "file_all_loaded (have_sent_requests task) (mark_last_part buffer l1)")
      case False
      then show ?thesis using op written True get inv1 by (auto simp: file_feed_part_def Let_def s1_def)
    next
      case all: True
      then obtain s2 where s2: "remove_task t s1 = Some s2" "finalize_result env t (mark_last_part buffer l1) s2 = Some (ok, s')"
        using op written True get by (auto simp: file_feed_part_def Let_def bind_eq_Some_conv s1_def)
      have "plain_inv s2"
        by (rule remove_task_plain [OF s2(1) inv1])
          (use get all in \<open>auto simp: s1_def file_all_loaded_def have_sent_requests_def\<close>)
      then show ?thesis using finalize_result_plain [OF s2(2)] by blast
    qed
  qed
qed

lemma length_flat_put_ge: "length m \<le> length (flat_put k v m)"
  by (induction m) auto

lemma preload_feed_part_plain:
  assumes op: "preload_feed_part t o1 part p s = Some (ok, s')" and inv: "plain_inv s" and both: "both_inv s"
    and get: "flat_get (dw_tasks s) t = Some task" "dt_loader task = Preload p"
    and other: "\<forall>(rid, r) \<in> set (dt_sent task). rd_offset r \<noteq> o1"
  shows "plain_inv s'"
proof -
  have dinv: "downloads_inv no_extra s" and ok: "preload_ok p"
    using both pending_at [OF _ get(1)] get(2) by (auto simp: both_inv_def pending_ok_def)
  obtain finished p1 where feed: "preload_feed o1 part p = Some (finished, p1)"
    using op by (auto simp: preload_feed_part_def bind_eq_Some_conv)
  have fields: "vp_requested p1 = flat_remove o1 (vp_requested p)" "vp_next p1 = vp_next p"
      "vp_parts p1 = flat_put o1 part (vp_parts p)" "finished \<Longrightarrow> vp_requested p1 = []"
    using feed by (auto simp: preload_feed_def Let_def split: if_split_asm)
  have p1: "set (vp_requested p1) = set (vp_requested p) - {o1}" "vp_next p1 = vp_next p"
      "vp_parts p1 = flat_put o1 part (vp_parts p)" "finished \<Longrightarrow> vp_requested p1 = []"
    using fields ok by (simp_all only: preload_ok_def set_flat_remove)
  have "preload_parts_size p \<le> preload_parts_size p1"
    using length_flat_put_ge [of "vp_parts p" o1 part] by (simp add: preload_parts_size_def p1(3) download_part_size_def)
  then have sized: "preload_sized p1" using plain_preload [OF inv get] by (simp add: preload_sized_def p1(2))
  have asks: "\<forall>(rid, r) \<in> set (dt_sent task). rd_offset r \<in> set (vp_requested p1)"
    using plain_at [OF inv get(1)] get(2) other by (auto simp: plain_task_def p1(1))
  define s1 where "s1 = set_loader t (Preload p1) s"
  have inv1: "plain_inv s1" "downloads_inv no_extra s1"
    using plain_set_loader [OF inv get(1), of "Preload p1"] sized asks dinv by (simp_all add: s1_def)
  show ?thesis
  proof (cases finished)
    case False
    then show ?thesis using op feed inv1(1) by (simp add: preload_feed_part_def Let_def s1_def)
  next
    case True
    then obtain s2 where s2: "remove_task t s1 = Some s2" "s' = log_event (PreloadDone t (preload_result p1)) s2"
      using op feed by (auto simp: preload_feed_part_def Let_def s1_def bind_eq_Some_conv)
    have "dt_sent task = []" using asks p1(4) True by (cases "dt_sent task") auto
    then have "plain_inv s2" using remove_task_plain [OF s2(1) inv1] get by (simp add: s1_def)
    then show ?thesis by (simp add: s2(2))
  qed
qed

lemma streaming_feed_priority [simp]: "sl_priority (streaming_feed now o1 l) = sl_priority l"
  by (simp add: streaming_feed_def Let_def case_prod_beta)

lemma feed_part_plain:
  assumes op: "feed_part env t o1 part s = Some (ok, s')" and inv: "plain_inv s" and both: "both_inv s"
    and other: "\<And>task. flat_get (dw_tasks s) t = Some task \<Longrightarrow> preloads (dt_loader task) \<Longrightarrow>
      \<forall>(rid, r) \<in> set (dt_sent task). rd_offset r \<noteq> o1"
  shows "plain_inv s'"
proof -
  obtain task where get: "flat_get (dw_tasks s) t = Some task" using op by (auto simp: feed_part_def bind_eq_Some_conv)
  show ?thesis
  proof (cases "dt_loader task")
    case (Streaming l)
    then have "-1 \<le> sl_priority l" using plain_at [OF inv get] by (simp add: plain_task_def)
    then have "plain_inv (set_loader t (Streaming (streaming_feed (dw_now s) o1 l)) s)" by (intro set_streaming_plain [OF inv]) simp
    then show ?thesis using op get Streaming by (auto simp: feed_part_def)
  next
    case (FileLoad l)
    then show ?thesis using op get file_feed_part_plain [OF _ inv] both by (auto simp: feed_part_def both_inv_def)
  next
    case (Preload p)
    then show ?thesis using op get preload_feed_part_plain [OF _ inv both get Preload] other [OF get] by (auto simp: feed_part_def)
  qed
qed

section \<open>Answers and errors\<close>

text \<open>Once a request is finished, no other of the task has its offset.\<close>

lemma finished_offset_free:
  assumes dinv: "downloads_inv x s" and op: "finish_sent_request t rid reason s = Some (r, s1)"
    and get1: "flat_get (dw_tasks s1) t = Some task1"
  shows "\<forall>(rid2, r2) \<in> set (dt_sent task1). rd_offset r2 \<noteq> rd_offset r"
proof (intro ballI, clarify)
  fix rid2 r2 assume in1: "(rid2, r2) \<in> set (dt_sent task1)" and same: "rd_offset r2 = rd_offset r"
  obtain task where get: "flat_get (dw_tasks s) t = Some task" and sent: "flat_get (dt_sent task) rid = Some r"
      and "dw_tasks s1 = flat_put t (drop_sent rid r task) (dw_tasks s)"
    using finish_sent_request_effect [OF op] by blast
  then have task1: "task1 = drop_sent rid r task" using get1 by simp
  have ok: "task_ok (dw_next_request s) task" by (rule inv_task_ok [OF dinv get])
  have "(rid2, r2) \<in> set (dt_sent task)" "rid2 \<noteq> rid" using in1 by (auto simp: task1 drop_sent_def flat_del_def)
  then have "flat_get (dt_sent task) rid2 = Some r2" using ok by (simp add: flat_get_iff task_ok_def)
  from task_okD(1) [OF ok this] task_okD(1) [OF ok sent] show False using same \<open>rid2 \<noteq> rid\<close> by simp
qed

lemma part_loaded_finished_plain:
  assumes both: "both_inv s" and inv: "plain_inv s" and op: "finish_sent_request t rid reason s = Some (r, s1)"
    and part: "part_loaded env t (rd_offset r) part s1 = Some s2"
  shows "plain_inv s2" and "downloads_inv no_extra s2"
proof -
  obtain ok where feed: "feed_part env t (rd_offset r) part s1 = Some (ok, s2)" using part by (auto simp: part_loaded_def)
  have both1: "both_inv s1"
    using finish_sent_request_keeps [OF op] finish_sent_request_pends [OF _ op] both by (simp add: both_inv_def)
  have dinv: "downloads_inv no_extra s" using both by (simp add: both_inv_def)
  show "plain_inv s2"
    by (rule feed_part_plain [OF feed finish_sent_request_plain(1) [OF op inv] both1]) (rule finished_offset_free [OF dinv op])
  show "downloads_inv no_extra s2" using part_loaded_keeps [OF part] both1 by (simp add: both_inv_def)
qed

lemma normal_part_loaded_plain:
  assumes op: "normal_part_loaded env t rid (FileBytes part) s = Some s'" and inv: "plain_inv s" and both: "both_inv s"
  shows "plain_inv s'"
proof -
  obtain dc r s1 s2 where finish: "finish_sent_request t rid FinishSuccess s = Some (r, s1)"
      and body: "part_loaded env t (rd_offset r) part s1 = Some s2" and send: "check_send_next_after_success dc s2 = Some s'"
    using op by (auto simp: normal_part_loaded_def bind_eq_Some_conv)
  show ?thesis by (rule check_after_success_plain [OF send part_loaded_finished_plain [OF both inv finish body]])
qed

lemma set_web_file_size_plain:
  assumes op: "set_web_file_size t n s = Some (ok, s')" and inv: "plain_inv s"
  shows "plain_inv s'"
    and "ok \<Longrightarrow> flat_get (dw_tasks s') t = Some task' \<Longrightarrow> \<not> preloads (dt_loader task')"
proof -
  obtain task where get: "flat_get (dw_tasks s) t = Some task" using op by (auto simp: set_web_file_size_def bind_eq_Some_conv)
  show "plain_inv s'"
    by (cases "dt_loader task")
      (use op inv get file_cancel_plain preload_fail_plain [OF _ inv get] in \<open>auto simp: set_web_file_size_def split: if_split_asm\<close>)
  show "ok \<Longrightarrow> flat_get (dw_tasks s') t = Some task' \<Longrightarrow> \<not> preloads (dt_loader task')"
    using op get by (cases "dt_loader task") (auto simp: set_web_file_size_def split: if_split_asm)
qed

lemma web_part_loaded_plain:
  assumes op: "web_part_loaded env t rid n part s = Some s'" and inv: "plain_inv s" and both: "both_inv s"
  shows "plain_inv s'"
proof -
  obtain dc r s1 ok s2 s3 where finish: "finish_sent_request t rid FinishSuccess s = Some (r, s1)"
      and sized: "set_web_file_size t n s1 = Some (ok, s2)"
      and body: "(if ok then part_loaded env t (rd_offset r) part s2 else Some s2) = Some s3"
      and send: "check_send_next_after_success dc s3 = Some s'"
    using op by (auto simp: web_part_loaded_def bind_eq_Some_conv)
  note size = set_web_file_size_plain [OF sized finish_sent_request_plain(1) [OF finish inv]]
  have "both_inv s1"
    using finish_sent_request_keeps [OF finish] finish_sent_request_pends [OF _ finish] both by (simp add: both_inv_def)
  then have both2: "both_inv s2"
    using set_web_file_size_keeps [OF sized] set_web_file_size_pends [OF _ sized] by (simp add: both_inv_def)
  then have dinv2: "downloads_inv no_extra s2" by (simp add: both_inv_def)
  have "plain_inv s3 \<and> downloads_inv no_extra s3"
  proof (cases ok)
    case True
    then have part: "part_loaded env t (rd_offset r) part s2 = Some s3" using body by simp
    then obtain ok3 where feed: "feed_part env t (rd_offset r) part s2 = Some (ok3, s3)" by (auto simp: part_loaded_def)
    have "plain_inv s3" by (rule feed_part_plain [OF feed size(1) both2]) (use size(2) True in blast)
    then show ?thesis using part_loaded_keeps [OF part] dinv2 by blast
  qed (use body size(1) dinv2 in simp)
  then show ?thesis using check_after_success_plain [OF send] by blast
qed

lemma part_failed_plain [plains]: "part_failed t e s = Some s' \<Longrightarrow> plain_inv s \<Longrightarrow> plain_inv s'"
  using cancel_on_fail_plain by (auto simp: part_failed_def split: if_split_asm)

lemma normal_part_failed_plain [plains]: "normal_part_failed t reference e rid s = Some s' \<Longrightarrow> plain_inv s \<Longrightarrow> plain_inv s'"
  using part_failed_plain by (auto simp: normal_part_failed_def split: if_split_asm)

lemma refresh_file_reference_plain [plains]:
  assumes op: "refresh_file_reference t updated rid current s = Some s'" and inv: "plain_inv s"
  shows "plain_inv s'"
proof -
  obtain task where get: "flat_get (dw_tasks s) t = Some task" using op by (auto simp: refresh_file_reference_def bind_eq_Some_conv)
  let ?s = "set_task t (task\<lparr> dt_location := StorageLocation updated \<rparr>) s"
  have inv1: "plain_inv ?s"
    using plain_at [OF inv get] by (intro plain_set_task [OF inv]) (simp add: plain_task_def in_queue_def)
  have again: "plain_inv s'" if "finish_sent_request t rid FinishRedirect ?s = Some (r, s2)" "make_request t r s2 = Some s'" for r s2
    using make_request_plain(1) [OF that(2)] finish_sent_request_plain [OF that(1) inv1] by blast
  show ?thesis
  proof (cases "dt_location task")
    case (StorageLocation reference)
    then have "(if updated = current then cancel_on_fail t ?s
         else if flat_get (dt_sent task) rid \<noteq> None
         then do { (r, s2) \<leftarrow> finish_sent_request t rid FinishRedirect ?s; make_request t r s2 }
         else Some ?s) = Some s'" using op get
      unfolding refresh_file_reference_def Let_def by (simp only: bind.bind_lunit file_location.case)
    then consider "cancel_on_fail t ?s = Some s'" | "?s = s'"
      | r s2 where "finish_sent_request t rid FinishRedirect ?s = Some (r, s2)" "make_request t r s2 = Some s'"
      by (auto simp: bind_eq_Some_conv split: if_split_asm)
    then show ?thesis using inv1 again cancel_on_fail_plain by cases blast+
  qed (use op get cancel_on_fail_plain inv in \<open>simp_all add: refresh_file_reference_def\<close>)
qed

end
