(* ===== verification/Download_Plain_Loaders.thy ===== *)
theory Download_Plain_Loaders
  imports Download_Plain_Steps
begin

text \<open>
  The calls of the loaders, the sessions and the timers keep the third invariant of the downloads, so
  that it holds in every run without content servers.
\<close>

section \<open>The streaming loader\<close>

lemma streaming_cancel_offset_plain:
  assumes op: "streaming_cancel_offset t o1 s = Some s'" and inv: "plain_inv s" and dinv: "downloads_inv no_extra s"
  shows "plain_inv s'"
proof -
  obtain task l where get: "flat_get (dw_tasks s) t = Some task" and at: "loader_at t s = Some (Streaming l)"
    using op by (auto simp: streaming_cancel_offset_def bind_eq_Some_conv streaming_of_Some)
  have l: "streaming_of t s = Some l" "-1 \<le> sl_priority l" using at plain_streaming [OF inv] by (simp_all add: streaming_of_Some)
  show ?thesis
  proof (cases "have_sent_for_offset o1 task")
    case False
    then have "s' = set_loader t (Streaming (l\<lparr> sl_requested := snd (offset_queue_remove o1 (sl_requested l)) \<rparr>)) s"
      using op get l by (simp add: streaming_cancel_offset_def)
    then show ?thesis using set_streaming_plain [OF inv] l by simp
  next
    case True
    then obtain s1 where s1: "cancel_request_for_offset t o1 s = Some s1"
        and rest: "(if \<not> offset_queue_empty (sl_requested l) then enqueue_task t (sl_priority l) s1 else Some s1) = Some s'"
      using op get l by (auto simp: streaming_cancel_offset_def bind_eq_Some_conv)
    have "plain_inv s1" "downloads_inv no_extra s1"
      using cancel_request_for_offset_plain [OF s1 inv] cancel_request_for_offset_keeps [OF s1] dinv by simp_all
    then show ?thesis using rest enqueue_task_plain [of t "sl_priority l" s1 s'] l(2) by (simp split: if_split_asm)
  qed
qed

lemma streaming_load_plain:
  assumes op: "streaming_load t o1 loaded s = Some s'" and inv: "plain_inv s" and dinv: "downloads_inv no_extra s"
  shows "plain_inv s'"
proof -
  obtain task l where get: "flat_get (dw_tasks s) t = Some task" and at: "loader_at t s = Some (Streaming l)"
    using op by (auto simp: streaming_load_def bind_eq_Some_conv streaming_of_Some)
  have l: "streaming_of t s = Some l" "-1 \<le> sl_priority l" using at plain_streaming [OF inv] by (simp_all add: streaming_of_Some)
  define s1 where "s1 = set_loader t (Streaming (l\<lparr> sl_requested := snd (offset_queue_add o1 (sl_requested l)) \<rparr>)) s"
  have s1: "plain_inv s1" "downloads_inv no_extra s1" using set_streaming_plain [OF inv] l(2) dinv by (simp_all add: s1_def)
  consider "loaded \<noteq> []" | "loaded = []" "have_sent_for_offset o1 task" | "loaded = []" "\<not> have_sent_for_offset o1 task" by blast
  then show ?thesis
  proof cases
    case 1
    then show ?thesis using op get l streaming_cancel_offset_plain [OF _ inv dinv]
      by (auto simp: streaming_load_def bind_eq_Some_conv)
  next
    case 2
    then show ?thesis using op get l inv by (auto simp: streaming_load_def)
  next
    case 3
    have "enqueue_task t (sl_priority l) s1 = Some s' \<or> s' = s1"
      using op get l 3 by (auto simp: streaming_load_def s1_def split: prod.split_asm bool.split_asm)
    then show ?thesis using enqueue_task_plain [OF _ s1 l(2)] s1 by auto
  qed
qed

lemma idle_after_cancel:
  "cancel_all_requests t s = Some s1 \<Longrightarrow> flat_get (dw_tasks s1) t = Some task \<Longrightarrow> dt_sent task = []"
  using cancel_all_requests_effect [of t s s1] by auto

lemma streaming_stop_plain:
  assumes op: "streaming_stop t s = Some s'" and inv: "plain_inv s" and dinv: "downloads_inv no_extra s"
  shows "plain_inv s'"
proof -
  obtain l s1 where at: "loader_at t s = Some (Streaming l)" and s1: "cancel_all_requests t s = Some s1"
      and rest: "remove_task t (set_loader t (Streaming (l\<lparr> sl_requested := offset_queue_clear (sl_requested l) \<rparr>)) s1) = Some s'"
    using op by (auto simp: streaming_stop_def bind_eq_Some_conv streaming_of_Some)
  have "plain_inv (set_loader t (Streaming (l\<lparr> sl_requested := offset_queue_clear (sl_requested l) \<rparr>)) s1)"
    using set_streaming_plain [OF cancel_all_requests_plain [OF s1 inv]] plain_streaming [OF inv at] by simp
  moreover have "downloads_inv no_extra s1" using cancel_all_requests_keeps [OF s1] dinv by blast
  moreover have "dt_sent task' = []"
    if "flat_get (dw_tasks (set_loader t (Streaming (l\<lparr> sl_requested := offset_queue_clear (sl_requested l) \<rparr>)) s1)) t = Some task'" for task'
    using that idle_after_cancel [OF s1] by auto
  ultimately show ?thesis using remove_task_plain [OF rest] by simp
qed

lemma streaming_try_remove_plain:
  assumes op: "streaming_try_remove t s = Some s'" and inv: "plain_inv s" and dinv: "downloads_inv no_extra s"
  shows "plain_inv s'"
proof -
  obtain task and l :: streaming_loader where get: "flat_get (dw_tasks s) t = Some task"
      and rest: "(if offset_queue_empty (sl_requested l) \<and> \<not> have_sent_requests task then remove_task t s else Some s) = Some s'"
    using op unfolding streaming_try_remove_def bind_eq_Some_conv by blast
  show ?thesis
  proof (cases "offset_queue_empty (sl_requested l) \<and> \<not> have_sent_requests task")
    case True
    then have "dt_sent task = []" "remove_task t s = Some s'" using rest by (simp_all add: have_sent_requests_def)
    from remove_task_plain [OF this(2) inv dinv] this(1) get show ?thesis by simp
  qed (use rest inv in auto)
qed

lemma streaming_set_priority_plain:
  assumes op: "streaming_set_priority t p s = Some s'" and inv: "plain_inv s" and dinv: "downloads_inv no_extra s" and p: "-1 \<le> p"
  shows "plain_inv s'"
proof -
  obtain l where at: "loader_at t s = Some (Streaming l)"
    using op by (auto simp: streaming_set_priority_def bind_eq_Some_conv streaming_of_Some)
  define s1 where "s1 = set_loader t (Streaming (l\<lparr> sl_priority := p \<rparr>)) s"
  have s1: "plain_inv s1" "downloads_inv no_extra s1" using set_streaming_plain [OF inv] p dinv by (simp_all add: s1_def)
  have "s' = s \<or> s' = s1 \<or> enqueue_task t p s1 = Some s'"
    using op at by (auto simp: s1_def streaming_set_priority_def bind_eq_Some_conv streaming_of_Some Let_def split: if_split_asm)
  then show ?thesis using inv s1 enqueue_task_plain [OF _ s1 p] by auto
qed

lemma streaming_reset_priorities_plain:
  assumes op: "streaming_reset_priorities t s = Some s'" and inv: "plain_inv s"
  shows "plain_inv s'"
proof -
  obtain l where "loader_at t s = Some (Streaming l)"
      and "s' = set_loader t (Streaming (l\<lparr> sl_requested := offset_queue_reset_priorities (sl_requested l) \<rparr>)) s"
    using op by (auto simp: streaming_reset_priorities_def bind_eq_Some_conv streaming_of_Some)
  then show ?thesis using set_streaming_plain [OF inv] plain_streaming [OF inv] by simp
qed

lemma streaming_check_stats_priority: "streaming_check_stats now l = (e, l') \<Longrightarrow> sl_priority l' = sl_priority l"
  by (auto simp: streaming_check_stats_def Let_def split: list.split_asm prod.split_asm if_split_asm)

lemma streaming_stats_timer_plain:
  assumes op: "streaming_stats_timer t s = Some s'" and inv: "plain_inv s"
  shows "plain_inv s'"
proof -
  obtain l where at: "loader_at t s = Some (Streaming l)"
    using op by (auto simp: streaming_stats_timer_def bind_eq_Some_conv streaming_of_Some)
  obtain e l1 where l1: "streaming_check_stats (dw_now s) l = (e, l1)" by fastforce
  have "plain_inv (set_loader t (Streaming l1) s)"
    using set_streaming_plain [OF inv] plain_streaming [OF inv at] streaming_check_stats_priority [OF l1] by simp
  then show ?thesis using op at l1
    by (auto simp: streaming_stats_timer_def bind_eq_Some_conv streaming_of_Some Let_def split: option.split_asm)
qed

section \<open>The file loader\<close>

lemma file_open_and_plain:
  assumes op: "file_open_and env t l f s = Some s'" and inv: "plain_inv s" and dinv: "downloads_inv no_extra s"
    and f: "\<And>a. f a = Some s' \<Longrightarrow> plain_inv a \<Longrightarrow> downloads_inv no_extra a \<Longrightarrow> loader_at t s \<noteq> None \<Longrightarrow>
      (\<exists>l1. loader_at t a = Some (FileLoad l1)) \<Longrightarrow> plain_inv s'" and at: "loader_at t s \<noteq> None"
  shows "plain_inv s'"
proof (cases "check_for_open (de_disk env) l")
  case None
  then show ?thesis using op file_cancel_plain inv by (auto simp: file_open_and_def)
next
  case (Some l1)
  then have "f (set_loader t (FileLoad l1) s) = Some s'" using op by (simp add: file_open_and_def)
  then show ?thesis by (rule f) (use inv dinv at in simp_all)
qed

lemma file_start_plain:
  assumes op: "file_start env t s = Some s'" and inv: "plain_inv s" and dinv: "downloads_inv no_extra s"
  shows "plain_inv s'"
proof -
  obtain l where at: "loader_at t s = Some (FileLoad l)"
    using op by (auto simp: file_start_def bind_eq_Some_conv file_of_Some)
  obtain wait l1 es where loaded: "try_load_local t l = (wait, l1, es)" by (cases "try_load_local t l") auto
  define s1 where "s1 = (set_loader t (FileLoad l1) s)\<lparr> dw_log := dw_log s @ es \<rparr>"
  have s1: "plain_inv s1" "downloads_inv no_extra s1" "loader_at t s1 \<noteq> None" using inv dinv at by (simp_all add: s1_def)
  have l: "file_of t s = Some l" using at by (simp add: file_of_Some)
  have step: "(if fl_finished l then Some s else if wait then Some s1
      else if fl_from_cloud l1 = LoadFromLocalOnly then file_cancel t NoFailure l1 s1
      else file_open_and env t l1 (enqueue_task t 0) s1) = Some s'"
    using op unfolding file_start_def l bind.bind_lunit loaded Let_def prod.case s1_def .
  have "plain_inv s'" if "file_open_and env t l1 (enqueue_task t 0) s1 = Some s'"
    by (rule file_open_and_plain [OF that s1(1,2) _ s1(3)]) (rule enqueue_task_plain, assumption+, simp)
  then show ?thesis using step inv s1(1) file_cancel_plain by (auto split: if_split_asm)
qed

lemma start_with_partial_plain:
  assumes op: "start_with_partial env t stored s = Some s'" and inv: "plain_inv s" and dinv: "downloads_inv no_extra s"
  shows "plain_inv s'"
proof -
  define used where "used = (int (length stored) - 8) div download_part_size * download_part_size"
  let ?feed = "if used > 0
                then do { l \<leftarrow> file_of t s;
                          (_, s2) \<leftarrow> feed_part env t 0 (take (nat used) (drop 8 stored))
                            (set_loader t (FileLoad (l\<lparr> fl_next_offset := used \<rparr>)) s);
                          Some s2 }
                else Some s"
  have "take 8 stored = partial_prefix" using op by (auto simp: start_with_partial_def Let_def split: if_split_asm)
  then have "?feed \<bind> enqueue_task t 0 = Some s'"
    using op unfolding start_with_partial_def Let_def used_def [symmetric] by (simp only: simp_thms if_False)
  then obtain s1 where s1: "?feed = Some s1" and start: "enqueue_task t 0 s1 = Some s'"
    unfolding bind_eq_Some_conv by blast
  have "plain_inv s1 \<and> downloads_inv no_extra s1"
  proof (cases "used > 0")
    case True
    then obtain l ok where l: "loader_at t s = Some (FileLoad l)"
        and feed: "feed_part env t 0 (take (nat used) (drop 8 stored)) (set_loader t (FileLoad (l\<lparr> fl_next_offset := used \<rparr>)) s) = Some (ok, s1)"
      using s1 by (auto simp: bind_eq_Some_conv file_of_Some)
    obtain task where get: "flat_get (dw_tasks s) t = Some task" using l by (auto simp: loader_at_Some)
    have "file_feed_part env t 0 (take (nat used) (drop 8 stored)) (l\<lparr> fl_next_offset := used \<rparr>)
        (set_loader t (FileLoad (l\<lparr> fl_next_offset := used \<rparr>)) s) = Some (ok, s1)"
      using feed get by (simp add: feed_part_def)
    then have "plain_inv s1" by (rule file_feed_part_plain) (use inv dinv in simp_all)
    then show ?thesis using feed_part_keeps [OF feed] dinv by simp
  qed (use s1 inv dinv in simp)
  then show ?thesis using enqueue_task_plain [OF start] by simp
qed

lemma finish_with_bytes_plain:
  assumes "finish_with_bytes env t stored l s = Some s'" and "plain_inv s"
  shows "plain_inv s'"
  using assms file_cancel_plain
  by (auto simp: finish_with_bytes_def split: prod.split_asm bool.split_asm)

lemma local_loaded_plain:
  assumes op: "local_loaded env t stored s = Some s'" and inv: "plain_inv s" and dinv: "downloads_inv no_extra s"
  shows "plain_inv s'"
proof -
  obtain l0 where at: "loader_at t s = Some (FileLoad l0)"
    using op by (auto simp: local_loaded_def bind_eq_Some_conv file_of_Some)
  define l where "l = l0\<lparr> fl_local_loading := False \<rparr>"
  define s1 where "s1 = set_loader t (FileLoad (l\<lparr> fl_status := LocalNotFound \<rparr>)) s"
  have s1: "plain_inv s1" "downloads_inv no_extra s1" "loader_at t s1 \<noteq> None" using inv dinv at by (simp_all add: s1_def)
  consider "file_start env t s1 = Some s'"
    | "file_open_and env t (l\<lparr> fl_status := LocalNotFound \<rparr>) (start_with_partial env t stored) s1 = Some s'"
    | bs where "finish_with_bytes env t bs l (set_loader t (FileLoad l) s) = Some s'"
    using op at by (auto simp: local_loaded_def bind_eq_Some_conv file_of_Some Let_def l_def s1_def split: if_split_asm)
  then show ?thesis
  proof cases
    case 1
    then show ?thesis using file_start_plain s1 by blast
  next
    case 2
    then show ?thesis by (rule file_open_and_plain [OF _ s1(1,2) _ s1(3)]) (rule start_with_partial_plain)
  next
    case 3
    then show ?thesis using finish_with_bytes_plain inv set_file_plain by blast
  qed
qed

lemma file_cancel_call_plain: "file_cancel_call t s = Some s' \<Longrightarrow> plain_inv s \<Longrightarrow> plain_inv s'"
  using file_cancel_plain by (auto simp: file_cancel_call_def bind_eq_Some_conv)

section \<open>The preloader and the tasks\<close>

lemma length_flat_emplace_ge: "length m \<le> length (flat_emplace k v m)"
  by (induction m) auto

lemma preload_offsets_ge: "length m \<le> length (preload_offsets n i m)"
proof (induction n i m rule: preload_offsets.induct)
  case (2 n i m)
  then show ?case using length_flat_emplace_ge [of m "int i * download_part_size" "[]"] by simp
qed simp

lemma preload_start_plain:
  assumes op: "preload_start t prefix n s = Some s'" and inv: "plain_inv s" and dinv: "downloads_inv no_extra s"
  shows "plain_inv s'"
proof -
  obtain task where get: "flat_get (dw_tasks s) t = Some task" using op by (auto simp: preload_start_def bind_eq_Some_conv)
  obtain p p1 where p: "dt_loader task = Preload p" "preload_load prefix n p = Some p1"
      and enqueue: "enqueue_task t 0 (set_loader t (Preload p1) s) = Some s'"
    using op get by (cases "dt_loader task") (auto simp: preload_start_def bind_eq_Some_conv)
  have same: "vp_next p1 = vp_next p" "vp_requested p1 = vp_requested p" "length (vp_parts p) \<le> length (vp_parts p1)"
    using p(2) preload_offsets_ge by (auto simp: preload_load_def split: if_split_asm)
  then have "preload_parts_size p \<le> preload_parts_size p1" by (simp add: preload_parts_size_def download_part_size_def)
  then have "preload_sized p1" using plain_preload [OF inv get p(1)] same(1) by (simp add: preload_sized_def)
  then have "plain_inv (set_loader t (Preload p1) s)"
    by (intro set_loader_plain [OF inv]) (use get p(1) same(2) in simp_all)
  then show ?thesis using enqueue_task_plain [OF enqueue] dinv by simp
qed

lemma destroy_loader_plain:
  assumes op: "destroy_loader t s = Some s'" and inv: "plain_inv s"
  shows "plain_inv s'"
proof -
  obtain task where get: "flat_get (dw_tasks s) t = Some task" using op by (auto simp: destroy_loader_def bind_eq_Some_conv)
  show ?thesis
    by (cases "dt_loader task")
      (use op get inv file_cancel_plain cancel_all_requests_plain in \<open>auto simp: destroy_loader_def split: if_split_asm\<close>)
qed

lemma destroy_task_plain:
  assumes op: "destroy_task t s = Some s'" and inv: "plain_inv s" and dinv: "downloads_inv no_extra s"
  shows "plain_inv s'"
proof -
  obtain s1 s2 s3 where steps: "destroy_loader t s = Some s1" "cancel_all_requests t s1 = Some s2" "remove_task t s2 = Some s3"
      and s': "s' = s3\<lparr> dw_tasks := flat_del t (dw_tasks s3) \<rparr>"
    using op by (auto simp: destroy_task_def bind_eq_Some_conv)
  have "downloads_inv no_extra s2"
    using dinv destroy_loader_keeps [OF steps(1)] cancel_all_requests_keeps [OF steps(2)] by blast
  then have "plain_inv s3"
    using remove_task_plain [OF steps(3) cancel_all_requests_plain [OF steps(2) destroy_loader_plain [OF steps(1) inv]]]
      idle_after_cancel [OF steps(2)] by blast
  then show ?thesis by (simp add: s' plain_inv_def in_queue_def queue_of_def)
qed

lemma new_task_plain:
  assumes inv: "plain_inv s" and fresh: "fresh_loader l"
  shows "plain_inv (set_task t (new_task dc location l) s)"
proof (rule plain_set_task [OF inv])
  have "plain_loader l"
  proof (cases l)
    case (Preload p)
    have "preload_sized (new_preload full)" for full by (simp add: preload_sized_def new_preload_def preload_parts_size_def)
    then show ?thesis using fresh Preload by (metis fresh_loader.simps(3) plain_loader.simps(3))
  qed (use fresh in \<open>simp_all add: new_streaming_def\<close>)
  then show "plain_task (in_queue t (new_task dc location l) s) (new_task dc location l)"
    by (simp add: plain_task_def new_task_def)
qed

section \<open>Sessions and timers\<close>

lemma redirect_requests_plain:
  "redirect_requests t i rs s = Some s' \<Longrightarrow> plain_inv s \<Longrightarrow> \<forall>(rid, o1) \<in> set rs. may_ask t o1 s \<Longrightarrow> plain_inv s'"
proof (induction t i rs s rule: redirect_requests.induct)
  case (2 t i rid o1 rest s)
  then obtain task s1 s2 where s1: "flat_get (dw_tasks s) t = Some task" "cancel_request t rid s = Some s1"
      and s2: "(if rid \<noteq> dt_hashes_request task
           then do { j \<leftarrow> choose_session_index (dt_dc task) s1;
                     if \<not> j < i then None else make_request t (new_request o1 j) s1 }
           else Some s1) = Some s2"
      and rest: "redirect_requests t i rest s2 = Some s'"
    by (auto simp: bind_eq_Some_conv)
  note cancel = cancel_request_plain [OF s1(2) 2(3)]
  have ask: "may_ask t (rd_offset (new_request o1 j)) s1" for j using cancel(2) 2(4) by (simp add: new_request_def)
  have "s2 = s1 \<or> (\<exists>j. make_request t (new_request o1 j) s1 = Some s2)"
    using s2 by (auto simp: bind_eq_Some_conv split: if_split_asm)
  then have "plain_inv s2 \<and> (\<forall>o2. may_ask t o2 s2 = may_ask t o2 s)"
    using cancel make_request_plain(1,2) [OF _ cancel(1) ask] by auto
  then show ?case using 2(1) [OF s1 s2 rest] 2(4) by auto
qed simp

lemma move_unchecked_Nil: "move_unchecked dc i [] s = Some us \<Longrightarrow> us = []"
  by simp

lemma task_remove_session_plain:
  assumes op: "task_remove_session i t s = Some s'" and inv: "plain_inv s"
  shows "plain_inv s'"
proof -
  obtain task us where get: "flat_get (dw_tasks s) t = Some task" and us: "move_unchecked (dt_dc task) i (dt_unchecked task) s = Some us"
      and rest: "redirect_requests t i (sent_in_session i task) (set_task t (task\<lparr> dt_unchecked := us \<rparr>) s) = Some s'"
    using op by (auto simp: task_remove_session_def bind_eq_Some_conv)
  have ok: "plain_task (in_queue t task s) task" using plain_at [OF inv get] .
  then have "us = []" using us by (simp add: plain_task_def)
  then have inv1: "plain_inv (set_task t (task\<lparr> dt_unchecked := us \<rparr>) s)" by (rule plain_same_unchecked [OF inv get])
  have "in_queue t task s \<and> asks_for (dt_loader task) (rd_offset r)" if "(rid, r) \<in> set (dt_sent task)" for rid r
    using ok that by (auto simp: plain_task_def)
  then have "may_ask t (rd_offset r) (set_task t (task\<lparr> dt_unchecked := us \<rparr>) s)" if "(rid, r) \<in> set (dt_sent task)" for rid r
    using that by (auto simp: may_ask_def in_queue_def queue_of_def)
  then show ?thesis
    by (intro redirect_requests_plain [OF rest inv1]) (auto simp: sent_in_session_def)
qed

lemma queue_remove_session_plain: "queue_remove_session i q s = Some s' \<Longrightarrow> plain_inv s \<Longrightarrow> plain_inv s'"
proof (induction i q s rule: queue_remove_session.induct)
  case (2 i t p q s)
  then obtain s1 where "task_remove_session i t s = Some s1" "queue_remove_session i q s1 = Some s'"
    by (auto simp: bind_eq_Some_conv)
  then show ?case using 2(1,3) task_remove_session_plain by blast
qed simp

lemma remove_session_plain:
  assumes op: "remove_session dc s = Some s'" and inv: "plain_inv s"
  shows "plain_inv s'"
proof -
  let ?b = "reserve_session (length (db_sessions (balance_of dc s)) - 1)
    (note_session_removed (int (length (db_sessions (balance_of dc s)) - 1)) (balance_of dc s))"
  obtain i b2 s1 where s1: "queue_remove_session i (queue_of dc s) (set_queue dc (queue_of dc s) (set_balance dc ?b s)) = Some s1"
      and s': "s' = log_event (SessionKilled dc i) (set_balance dc b2 s1)"
    using op by (auto simp: remove_session_def Let_def bind_eq_Some_conv split: if_split_asm)
  have "queue_of dc (set_balance dc ?b s) = queue_of dc s" by (simp add: queue_of_def)
  then have "plain_inv (set_queue dc (queue_of dc s) (set_balance dc ?b s))"
    using set_queue_same_plain [of "set_balance dc ?b s" dc] inv by simp
  from queue_remove_session_plain [OF s1 this] show ?thesis by (simp add: s')
qed

lemma session_timed_out_plain:
  assumes op: "session_timed_out dc i s = Some s'" and inv: "plain_inv s"
  shows "plain_inv s'"
proof -
  have removed: "remove_session dc (set_balance dc b s) = Some s' \<Longrightarrow> plain_inv s'" for b
    by (rule remove_session_plain [of dc "set_balance dc b s"]) (simp_all add: inv)
  show ?thesis
  proof (cases "flat_get (dw_balance s) dc")
    case (Some b)
    show ?thesis
      using op inv removed by (auto simp: session_timed_out_def Let_def Some split: if_split_asm)
  qed (use op inv in \<open>simp add: session_timed_out_def\<close>)
qed

lemma kill_sessions_plain:
  assumes op: "kill_sessions s = Some s'" and inv: "plain_inv s"
  shows "plain_inv s'"
proof -
  obtain l kept s1 where "kill_due kill_session_timeout (dw_kill_when s) s = Some (l, kept, s1)"
      and s': "s' = s1\<lparr> dw_kill_when := kept, dw_kill_timer := (if kept \<noteq> [] then Some (dw_now s + l) else dw_kill_timer s1) \<rparr>"
    using op by (auto simp: kill_sessions_def)
  then have "dw_tasks s1 = dw_tasks s" "dw_queues s1 = dw_queues s" using kill_due_fields by blast+
  then show ?thesis using inv plain_cong [of s' s] by (simp add: s')
qed

text \<open>Nothing waits for hashes.\<close>

lemma request_more_hashes_plain: "plain_inv s \<Longrightarrow> request_more_hashes t s = Some s"
  using plain_at [of s t] by (auto simp: request_more_hashes_def plain_task_def split: option.split)

lemma run_deferred_plain:
  assumes op: "run_deferred s = Some s'" and inv: "plain_inv s"
  shows "plain_inv s'"
proof (cases "dw_deferred s")
  case Nil
  then show ?thesis using op inv by (simp add: run_deferred_def)
next
  case (Cons c rest)
  have inv1: "plain_inv (s\<lparr> dw_deferred := rest \<rparr>)" using inv by simp
  show ?thesis
    by (cases c) (use op Cons session_timed_out_plain [OF _ inv1] request_more_hashes_plain [OF inv1] inv1 in \<open>auto simp: run_deferred_def\<close>)
qed

end
