(* ===== verification/Download_Spare.thy ===== *)
theory Download_Spare
  imports Download_Contract
begin

text \<open>
  A bound on what a datacenter has requested: the fourth invariant of the downloads.  Counting for every
  session what it has requested, and at least sixteen parts, the sessions of a datacenter together have
  at most the reserve of 128 parts.  It holds because a session is only added when every session has had
  a success since the last removal, and a request that counts as a success says that its session was
  not overfull.  The reserve then always makes the session that is removed the fullest.
\<close>

named_theorems spares \<open>operations that keep the fourth invariant of the downloads\<close>

section \<open>The invariant\<close>

definition capped :: "session_balance \<Rightarrow> int" where
  "capped x = max (sb_requested x) max_waited_in_session"

definition not_overfull :: "session_balance \<Rightarrow> bool" where
  "not_overfull x \<longleftrightarrow> sb_requested x \<le> max_waited_in_session"

definition spare_balance :: "dc_balance \<Rightarrow> bool" where
  "spare_balance b \<longleftrightarrow> sum_list (map capped (db_sessions b)) \<le> redirect_reserve
     \<and> (\<forall>x \<in> set (db_sessions b). 0 < sb_successes x \<longrightarrow> not_overfull x)"

text \<open>A request that will count as a success says that its session is not overfull.\<close>

definition spare_request :: "dc_balance \<Rightarrow> request_data \<Rightarrow> bool" where
  "spare_request b r \<longleftrightarrow> (db_last_remove b < rd_sent r \<and> rd_amount r \<le> max_waited_in_session
     \<longrightarrow> not_overfull (db_sessions b ! rd_session r))"

definition spare_task :: "int \<Rightarrow> (int, dc_balance) flat_map \<Rightarrow> download_task \<Rightarrow> bool" where
  "spare_task now bs task \<longleftrightarrow> (\<forall>(rid, r) \<in> set (dt_sent task). rd_sent r \<le> now
     \<and> (\<forall>b. flat_get bs (dt_dc task) = Some b \<longrightarrow> spare_request b r))"

definition spare_inv :: "downloads \<Rightarrow> bool" where
  "spare_inv s \<longleftrightarrow> (\<forall>dc b. flat_get (dw_balance s) dc = Some b \<longrightarrow> spare_balance b)
     \<and> (\<forall>t task. flat_get (dw_tasks s) t = Some task \<longrightarrow> spare_task (dw_now s) (dw_balance s) task)"

definition sound :: "downloads \<Rightarrow> bool" where
  "sound s \<longleftrightarrow> downloads_inv no_extra s \<and> spare_inv s"

lemma spare_cong:
  "dw_now s' = dw_now s \<Longrightarrow> dw_balance s' = dw_balance s \<Longrightarrow> dw_tasks s' = dw_tasks s \<Longrightarrow> spare_inv s' = spare_inv s"
  by (simp add: spare_inv_def)

lemma spare_irrelevant [simp]:
  "spare_inv (s\<lparr> dw_log := es \<rparr>) = spare_inv s"
  "spare_inv (s\<lparr> dw_deferred := ds \<rparr>) = spare_inv s"
  "spare_inv (s\<lparr> dw_kill_timer := kt \<rparr>) = spare_inv s"
  "spare_inv (s\<lparr> dw_kill_when := kw \<rparr>) = spare_inv s"
  "spare_inv (s\<lparr> dw_reset_timer := rt \<rparr>) = spare_inv s"
  "spare_inv (log_event e s) = spare_inv s"
  "spare_inv (set_queue dc q s) = spare_inv s"
  "spare_inv (kill_sessions_cancel dc s) = spare_inv s"
  "spare_inv (kill_sessions_schedule dc s) = spare_inv s"
  by (rule spare_cong; simp add: log_event_def set_queue_def)+

lemma sound_irrelevant [simp]:
  "sound (s\<lparr> dw_log := es \<rparr>) = sound s"
  "sound (s\<lparr> dw_deferred := ds \<rparr>) = sound s"
  "sound (s\<lparr> dw_kill_timer := kt \<rparr>) = sound s"
  "sound (s\<lparr> dw_reset_timer := rt \<rparr>) = sound s"
  "sound (log_event e s) = sound s"
  by (simp_all add: sound_def)

lemma spare_at:
  assumes "spare_inv s" and "flat_get (dw_tasks s) t = Some task" and "(rid, r) \<in> set (dt_sent task)"
  shows "rd_sent r \<le> dw_now s" and "flat_get (dw_balance s) (dt_dc task) = Some b \<Longrightarrow> spare_request b r"
  using assms unfolding spare_inv_def spare_task_def by blast+

lemma spare_balance_at: "spare_inv s \<Longrightarrow> flat_get (dw_balance s) dc = Some b \<Longrightarrow> spare_balance b"
  by (simp add: spare_inv_def)

lemma sent_task_inv:
  assumes "downloads_inv x s" and "flat_get (dw_tasks s) t = Some task" and "(rid, r) \<in> set (dt_sent task)"
  shows "flat_get (dt_sent task) rid = Some r"
  using inv_task_ok [OF assms(1,2)] assms(3) by (simp add: task_ok_def flat_get_iff)

section \<open>Changes of one balance\<close>

text \<open>What a session has requested falls, nothing is placed.\<close>

lemma spare_less:
  assumes spare: "spare_inv s" and inv: "downloads_inv no_extra s" and get: "flat_get (dw_balance s) dc = Some b"
    and now: "dw_now s' = dw_now s" and balance: "dw_balance s' = flat_put dc b' (dw_balance s)"
    and tasks: "\<And>t task'. flat_get (dw_tasks s') t = Some task' \<Longrightarrow> \<exists>task. flat_get (dw_tasks s) t = Some task
      \<and> dt_dc task' = dt_dc task \<and> set (dt_sent task') \<subseteq> set (dt_sent task)"
    and less: "\<And>j. j < length (db_sessions b) \<Longrightarrow> sb_requested (db_sessions b' ! j) \<le> sb_requested (db_sessions b ! j)"
    and last: "db_last_remove b \<le> db_last_remove b'" and ok: "spare_balance b'"
  shows "spare_inv s'"
proof -
  have "spare_task (dw_now s') (dw_balance s') task'" if get': "flat_get (dw_tasks s') t = Some task'" for t task'
  proof -
    obtain task where task: "flat_get (dw_tasks s) t = Some task" "dt_dc task' = dt_dc task" "set (dt_sent task') \<subseteq> set (dt_sent task)"
      using tasks [OF get'] by blast
    have "rd_sent r \<le> dw_now s' \<and> (\<forall>c. flat_get (dw_balance s') (dt_dc task') = Some c \<longrightarrow> spare_request c r)"
      if "(rid, r) \<in> set (dt_sent task')" for rid r
    proof -
      have r: "(rid, r) \<in> set (dt_sent task)" using that task(3) by blast
      note old = spare_at [OF spare task(1) r]
      have "spare_request b' r" if dc: "dt_dc task = dc"
      proof -
        have "rd_session r < length (db_sessions b)"
          using session_there [OF inv task(1) sent_task_inv [OF inv task(1) r]] get dc by auto
        then show ?thesis using old(2) [of b] get dc less last by (fastforce simp: spare_request_def not_overfull_def)
      qed
      then show ?thesis using old task(2) by (auto simp: now balance)
    qed
    then show ?thesis by (auto simp: spare_task_def)
  qed
  then show ?thesis using spare ok by (auto simp: spare_inv_def balance split: if_split_asm)
qed

lemma sum_capped_update:
  "i < length xs \<Longrightarrow> sum_list (map capped (xs[i := y])) = sum_list (map capped xs) - capped (xs ! i) + capped y"
proof -
  assume i: "i < length xs"
  have "xs ! i \<in> set xs" using i by simp
  have "sum_list (map capped (xs[i := y])) + capped (xs ! i) = sum_list (map capped xs) + capped y"
    using i
  proof (induction xs arbitrary: i)
    case (Cons x xs)
    then show ?case by (cases i) auto
  qed simp
  then show ?thesis by simp
qed

lemma spare_balance_change:
  assumes "spare_balance b" and "i < length (db_sessions b)"
    and "d \<le> 0 \<or> sb_requested (db_sessions b ! i) + d \<le> max_waited_in_session"
  shows "spare_balance (change_session i d b)"
proof -
  let ?x = "db_sessions b ! i"
  have "capped (add_requested d ?x) \<le> capped ?x" using assms(3) by (auto simp: capped_def add_requested_def)
  then have "sum_list (map capped (db_sessions (change_session i d b))) \<le> redirect_reserve"
    using assms(1,2) by (simp add: change_session_def sum_capped_update spare_balance_def)
  moreover have "not_overfull y" if y: "y \<in> set (db_sessions (change_session i d b))" "0 < sb_successes y" for y
  proof -
    have "y = add_requested d ?x \<or> y \<in> set (db_sessions b)"
      using y(1) set_update_subset_insert [of "db_sessions b" i] by (auto simp: change_session_def)
    moreover have "not_overfull ?x" if "0 < sb_successes ?x" using assms(1,2) that by (simp add: spare_balance_def)
    ultimately show ?thesis using y(2) assms by (auto simp: spare_balance_def not_overfull_def add_requested_def)
  qed
  ultimately show ?thesis by (simp add: spare_balance_def)
qed

section \<open>A request that is finished\<close>

lemma in_list_update: "y \<in> set (xs[i := z]) \<Longrightarrow> y = z \<or> y \<in> set xs"
  using set_update_subset_insert by fastforce

lemma spare_balance_success:
  assumes ok: "balance_ok b" and spare: "spare_balance b" and i: "i < length (db_sessions b)"
    and x: "not_overfull (db_sessions b ! i)"
  shows "spare_balance (balance_success now a i b)"
proof -
  define ss where "ss = (db_sessions b)[i := count_success a (db_sessions b ! i)]"
  have len: "length ss = length (db_sessions b)" by (simp add: ss_def)
  have capped: "capped (count_success a y) = capped y" "not_overfull (count_success a y) = not_overfull y"
    "capped (clear_successes y) = capped y" "not_overfull (clear_successes y) = not_overfull y" "sb_successes (clear_successes y) = 0" for y
    by (simp_all add: capped_def not_overfull_def count_success_def clear_successes_def)
  have "map capped ss = map capped (db_sessions b)" unfolding ss_def by (rule map_update_same) (simp add: capped)
  then have sum: "sum_list (map capped ss) \<le> redirect_reserve" using spare by (simp add: spare_balance_def)
  have counted: "not_overfull y" if "y \<in> set ss" "0 < sb_successes y" for y
    using in_list_update [OF that(1) [unfolded ss_def]] that(2) spare x by (auto simp: spare_balance_def capped)
  have cleared: "map (capped \<circ> clear_successes) ss = map capped ss" by (simp add: capped)
  have grown: "sum_list (map capped ss) + max_waited_in_session \<le> redirect_reserve"
    if all: "\<forall>y \<in> set ss. (db_remove_times b + 1) * retry_add_session_successes \<le> sb_successes y" and "length ss \<noteq> max_sessions_count"
  proof -
    have "0 < (db_remove_times b + 1) * retry_add_session_successes" using ok by (simp add: balance_ok_def retry_add_session_successes_def)
    then have "capped y = max_waited_in_session" if "y \<in> set ss" for y
      using counted [OF that] all that by (fastforce simp: capped_def not_overfull_def)
    then have "map capped ss = map (\<lambda>_. max_waited_in_session) ss" by simp
    then have "sum_list (map capped ss) = int (length ss) * max_waited_in_session" by (simp only: sum_list_triv)
    moreover have "length ss < max_sessions_count" using ok len that(2) by (simp add: balance_ok_def)
    ultimately show ?thesis by (simp add: redirect_reserve_def max_waited_in_session_def max_sessions_count_def download_part_size_def)
  qed
  have new: "capped new_session_balance = max_waited_in_session" "sb_successes new_session_balance = 0"
    by (simp_all add: capped_def new_session_balance_def max_waited_in_session_def download_part_size_def)
  show ?thesis
    using sum counted grown
    by (auto simp: balance_success_def Let_def spare_balance_def cleared capped new not_less simp flip: ss_def)
qed

lemma finish_tasks:
  assumes "dw_tasks s' = flat_put t (drop_sent rid r task) (dw_tasks s)" and "flat_get (dw_tasks s) t = Some task"
    and "flat_get (dw_tasks s') u = Some task'"
  shows "\<exists>task0. flat_get (dw_tasks s) u = Some task0 \<and> dt_dc task' = dt_dc task0 \<and> set (dt_sent task') \<subseteq> set (dt_sent task0)"
  using assms set_flat_del_subset [of rid "dt_sent task"] by (auto simp: drop_sent_def split: if_split_asm)

lemma request_succeeded_spare:
  assumes op: "request_succeeded dc i a started s = Some s'" and spare: "spare_inv s" and inv: "downloads_inv no_extra s"
    and counts: "\<And>b. flat_get (dw_balance s) dc = Some b \<Longrightarrow> db_last_remove b < started \<Longrightarrow> a \<le> max_waited_in_session \<Longrightarrow>
      not_overfull (db_sessions b ! i)"
  shows "spare_inv s'"
proof -
  obtain b where b: "flat_get (dw_balance s) dc = Some b" "i < length (db_sessions b)"
    using op by (auto simp: request_succeeded_def split: option.split_asm if_split_asm)
  have "accounts_ok no_extra (dw_balance s) (dw_tasks s)" using inv by (simp add: downloads_inv_def)
  then have ok: "balance_ok b" using b(1) by (auto dest: accounts_at(4))
  have "spare_inv (set_balance dc (balance_success (dw_now s) a i b) s)"
    if "db_last_remove b < started" "a \<le> sb_max_waited (db_sessions b ! i)"
  proof (rule spare_less [OF spare inv b(1)])
    show "dw_balance (set_balance dc (balance_success (dw_now s) a i b) s) = flat_put dc (balance_success (dw_now s) a i b) (dw_balance s)"
      by simp
    have "sb_max_waited (db_sessions b ! i) \<le> max_waited_in_session" using ok b(2) by (simp add: balance_ok_def session_ok_def)
    then have "not_overfull (db_sessions b ! i)" using counts [OF b(1)] that by simp
    then show "spare_balance (balance_success (dw_now s) a i b)"
      by (rule spare_balance_success [OF ok spare_balance_at [OF spare b(1)] b(2)])
    fix j assume j: "j < length (db_sessions b)"
    obtain new where "map sb_requested (db_sessions (balance_success (dw_now s) a i b)) = map sb_requested (db_sessions b) @ new"
      using balance_success_requested by blast
    then have "map sb_requested (db_sessions (balance_success (dw_now s) a i b)) ! j = map sb_requested (db_sessions b) ! j"
      using j by (simp add: nth_append)
    moreover have "length (db_sessions b) \<le> length (db_sessions (balance_success (dw_now s) a i b))"
      by (simp add: balance_success_def Let_def)
    ultimately show "sb_requested (db_sessions (balance_success (dw_now s) a i b) ! j) \<le> sb_requested (db_sessions b ! j)"
      using j by simp
  qed (auto simp: balance_success_def Let_def)
  then show ?thesis using op b spare by (auto simp: request_succeeded_def not_le split: if_split_asm)
qed

lemma finish_sent_request_spare [spares]:
  assumes op: "finish_sent_request t rid reason s = Some (r, s')"
  shows "sound s \<longrightarrow> sound s'"
proof
  assume sound: "sound s"
  then have spare: "spare_inv s" and inv: "downloads_inv no_extra s" by (simp_all add: sound_def)
  have "spare_inv s'"
  proof (rule finish_sent_request_unfold [OF op])
    fix task b s1
    assume get: "flat_get (dw_tasks s) t = Some task" "flat_get (dt_sent task) rid = Some r"
      and b: "flat_get (dw_balance s) (dt_dc task) = Some b" "rd_session r < length (db_sessions b)"
      and s1: "s1 = (let s2 = set_balance (dt_dc task) (change_session (rd_session r) (- download_part_size) b) s
               in if \<not> (\<exists>y \<in> set (db_sessions (change_session (rd_session r) (- download_part_size) b)). sb_requested y > 0)
                  then kill_sessions_schedule (dt_dc task) s2 else s2)"
      and s': "(if reason = FinishSuccess
          then request_succeeded (dt_dc task) (rd_session r) (rd_amount r) (rd_sent r) (set_task t (drop_sent rid r task) s1)
          else Some (set_task t (drop_sent rid r task) s1)) = Some s'"
    let ?b = "change_session (rd_session r) (- download_part_size) b" and ?s = "set_task t (drop_sent rid r task) s1"
    have fields: "dw_balance ?s = flat_put (dt_dc task) ?b (dw_balance s)" "dw_now ?s = dw_now s"
        "dw_tasks ?s = flat_put t (drop_sent rid r task) (dw_tasks s)"
      by (simp_all add: s1 Let_def)
    have inv1: "downloads_inv no_extra ?s" by (rule finish_requests_inv [OF inv _ get b s1]) simp
    have spare1: "spare_inv ?s"
    proof (rule spare_less [OF spare inv b(1) fields(2,1)])
      show "spare_balance ?b"
        by (rule spare_balance_change [OF spare_balance_at [OF spare b(1)] b(2)]) (simp add: download_part_size_def)
      show "sb_requested (db_sessions ?b ! j) \<le> sb_requested (db_sessions b ! j)" if "j < length (db_sessions b)" for j
        using b(2) that by (cases "j = rd_session r") (simp_all add: change_session_def add_requested_def download_part_size_def)
    qed (use finish_tasks [OF fields(3) get(1)] in \<open>simp_all add: change_session_def\<close>)
    have counts: "not_overfull (db_sessions ?b ! rd_session r)" if "db_last_remove ?b < rd_sent r" "rd_amount r \<le> max_waited_in_session"
      using spare_at(2) [OF spare get(1) flat_get_in [OF get(2)] b(1)] that b(2)
      by (simp add: spare_request_def change_session_def not_overfull_def add_requested_def download_part_size_def)
    have "spare_inv s2" if "request_succeeded (dt_dc task) (rd_session r) (rd_amount r) (rd_sent r) ?s = Some s2" for s2
      by (rule request_succeeded_spare [OF that spare1 inv1]) (use fields(1) counts in simp)
    then show ?thesis using s' spare1 by (auto split: if_split_asm)
  qed
  then show "sound s'" using finish_sent_request_keeps [OF op] inv by (simp add: sound_def)
qed

section \<open>A request that is placed\<close>

lemma make_request_balance:
  assumes "make_request t r s = Some s'"
  shows "\<exists>task b. flat_get (dw_tasks s) t = Some task \<and> flat_get (dw_balance s) (dt_dc task) = Some b
    \<and> rd_session r < length (db_sessions b) \<and> dw_now s' = dw_now s
    \<and> dw_balance s' = flat_put (dt_dc task) (change_session (rd_session r) download_part_size b) (dw_balance s)
    \<and> dw_tasks s' = flat_put t (add_sent (dw_next_request s)
        (r\<lparr> rd_amount := sb_requested (db_sessions b ! rd_session r) + download_part_size, rd_sent := dw_now s \<rparr>) task) (dw_tasks s)"
  using assms
  by (auto simp: make_request_def send_request_def send_kind_Some place_sent_request_def bind_eq_Some_conv
      change_requested_amount_Some download_part_size_def Let_def split: option.split_asm if_split_asm)

text \<open>A request is placed in a session, in which every request that counts finds what it says.\<close>

lemma place_request_spare:
  assumes spare: "spare_inv s" and op: "make_request t r s = Some s'" and get: "flat_get (dw_tasks s) t = Some task"
    and b: "flat_get (dw_balance s) (dt_dc task) = Some b"
    and ok: "spare_balance (change_session (rd_session r) download_part_size b)"
    and others: "\<And>u task2 rid2 r2. flat_get (dw_tasks s) u = Some task2 \<Longrightarrow> dt_dc task2 = dt_dc task \<Longrightarrow> (rid2, r2) \<in> set (dt_sent task2)
      \<Longrightarrow> spare_request (change_session (rd_session r) download_part_size b) r2"
  shows "spare_inv s'"
proof -
  let ?b = "change_session (rd_session r) download_part_size b"
  let ?r = "r\<lparr> rd_amount := sb_requested (db_sessions b ! rd_session r) + download_part_size, rd_sent := dw_now s \<rparr>"
  have s': "rd_session r < length (db_sessions b)" "dw_now s' = dw_now s"
      "dw_balance s' = flat_put (dt_dc task) ?b (dw_balance s)"
      "dw_tasks s' = flat_put t (add_sent (dw_next_request s) ?r task) (dw_tasks s)"
    using make_request_balance [OF op] get b by auto
  have new: "spare_request ?b ?r"
    using s'(1) by (simp add: spare_request_def not_overfull_def change_session_def add_requested_def)
  have old: "rd_sent r2 \<le> dw_now s' \<and> (\<forall>c. flat_get (dw_balance s') (dt_dc task2) = Some c \<longrightarrow> spare_request c r2)"
    if "flat_get (dw_tasks s) u = Some task2" "(rid2, r2) \<in> set (dt_sent task2)" for u task2 rid2 r2
    using spare_at [OF spare that] others [OF that(1) _ that(2)] s'(2,3) by (auto split: if_split_asm)
  have "spare_task (dw_now s') (dw_balance s') task2" if "flat_get (dw_tasks s') u = Some task2" for u task2
  proof (cases "u = t")
    case True
    then have task2: "task2 = add_sent (dw_next_request s) ?r task" using that by (simp add: s'(4))
    have "set (dt_sent task2) \<subseteq> insert (dw_next_request s, ?r) (set (dt_sent task))"
      using set_flat_put_subset [of "dw_next_request s" ?r "dt_sent task"] by (simp add: task2 add_sent_def)
    moreover have "dt_dc task2 = dt_dc task" by (simp add: task2 add_sent_def)
    ultimately show ?thesis using old [OF get] new s'(2,3) by (fastforce simp: spare_task_def)
  next
    case False
    then show ?thesis using that old [of u task2] by (auto simp: s'(4) spare_task_def)
  qed
  then show ?thesis using spare ok by (auto simp: spare_inv_def s'(3) split: if_split_asm)
qed

lemma make_request_room_spare:
  assumes spare: "spare_inv s" and op: "make_request t r s = Some s'" and get: "flat_get (dw_tasks s) t = Some task"
    and b: "flat_get (dw_balance s) (dt_dc task) = Some b"
    and room: "sb_requested (db_sessions b ! rd_session r) + download_part_size \<le> max_waited_in_session"
  shows "spare_inv s'"
proof (rule place_request_spare [OF spare op get b])
  have i: "rd_session r < length (db_sessions b)" using make_request_balance [OF op] get b by auto
  show "spare_balance (change_session (rd_session r) download_part_size b)"
    using spare_balance_change [OF spare_balance_at [OF spare b] i] room by simp
  fix u task2 rid2 r2
  assume "flat_get (dw_tasks s) u = Some task2" "dt_dc task2 = dt_dc task" "(rid2, r2) \<in> set (dt_sent task2)"
  then have "spare_request b r2" using spare_at(2) [OF spare] b by metis
  then show "spare_request (change_session (rd_session r) download_part_size b) r2"
    using room i by (cases "rd_session r2 = rd_session r")
      (simp_all add: spare_request_def change_session_def not_overfull_def add_requested_def)
qed

text \<open>A request that is finished and placed again leaves its session as it was.\<close>

lemma change_back:
  "i < length (db_sessions b) \<Longrightarrow> db_sessions (change_session i d (change_session i (- d) b)) = db_sessions b
     \<and> db_last_remove (change_session i d (change_session i (- d) b)) = db_last_remove b"
  by (simp add: change_session_def add_requested_def)

lemma finish_and_make_spare:
  assumes finish: "finish_sent_request t rid reason s = Some (r, s1)" and make: "make_request t r s1 = Some s2"
    and reason: "reason \<noteq> FinishSuccess" and sound: "sound s"
  shows "sound s2"
proof -
  have spare: "spare_inv s" and sound1: "sound s1" using sound finish_sent_request_spare [OF finish] by (simp_all add: sound_def)
  have "spare_inv s2"
  proof (rule finish_sent_request_unfold [OF finish])
    fix task b s0
    assume get: "flat_get (dw_tasks s) t = Some task" and b: "flat_get (dw_balance s) (dt_dc task) = Some b" "rd_session r < length (db_sessions b)"
      and s0: "s0 = (let s2 = set_balance (dt_dc task) (change_session (rd_session r) (- download_part_size) b) s
               in if \<not> (\<exists>y \<in> set (db_sessions (change_session (rd_session r) (- download_part_size) b)). sb_requested y > 0)
                  then kill_sessions_schedule (dt_dc task) s2 else s2)"
      and "(if reason = FinishSuccess
          then request_succeeded (dt_dc task) (rd_session r) (rd_amount r) (rd_sent r) (set_task t (drop_sent rid r task) s0)
          else Some (set_task t (drop_sent rid r task) s0)) = Some s1"
    then have s1: "s1 = set_task t (drop_sent rid r task) s0" using reason by simp
    let ?b = "change_session (rd_session r) (- download_part_size) b"
    have fields: "dw_balance s1 = flat_put (dt_dc task) ?b (dw_balance s)"
        "dw_tasks s1 = flat_put t (drop_sent rid r task) (dw_tasks s)"
      by (simp_all add: s1 s0 Let_def)
    have get1: "flat_get (dw_tasks s1) t = Some (drop_sent rid r task)" by (simp add: fields)
    have b1: "flat_get (dw_balance s1) (dt_dc (drop_sent rid r task)) = Some ?b" by (simp add: fields drop_sent_def)
    note same = change_back [OF b(2), of download_part_size]
    show ?thesis
    proof (rule place_request_spare [OF _ make get1 b1])
      show "spare_inv s1" using sound1 by (simp add: sound_def)
      show "spare_balance (change_session (rd_session r) download_part_size ?b)"
        using spare_balance_at [OF spare b(1)] same by (simp add: spare_balance_def)
      fix u task2 rid2 r2
      assume task2: "flat_get (dw_tasks s1) u = Some task2" "dt_dc task2 = dt_dc (drop_sent rid r task)" "(rid2, r2) \<in> set (dt_sent task2)"
      obtain task0 where "flat_get (dw_tasks s) u = Some task0" "dt_dc task2 = dt_dc task0" "set (dt_sent task2) \<subseteq> set (dt_sent task0)"
        using finish_tasks [OF fields(2) get task2(1)] by blast
      moreover have "dt_dc task2 = dt_dc task" using task2(2) by (simp add: drop_sent_def)
      ultimately have "spare_request b r2" using spare_at(2) [OF spare, of u task0 rid2 r2 b] task2(3) b(1) by auto
      then show "spare_request (change_session (rd_session r) download_part_size ?b) r2" using same by (simp add: spare_request_def)
    qed
  qed
  then show ?thesis using sound1 make_request_keeps [OF make] by (simp add: sound_def)
qed

section \<open>Sending parts\<close>

lemma spare_same_requests:
  assumes "spare_inv s" and "flat_get (dw_tasks s) t = Some task" and "same_requests task' task"
  shows "spare_inv (set_task t task' s)"
  using assms by (auto simp: spare_inv_def spare_task_def same_requests_def)

lemma sound_set_task [simp]:
  "flat_get (dw_tasks s) t = Some task \<Longrightarrow> same_requests task' task \<Longrightarrow> sound s \<Longrightarrow> sound (set_task t task' s)"
  using spare_same_requests by (auto simp: sound_def)

lemma sound_set_loader [simp]: "sound s \<Longrightarrow> sound (set_loader t l s)"
  by (auto simp: set_loader_def split: option.split)

lemma sound_clear_unchecked [simp]: "sound s \<Longrightarrow> sound (clear_unchecked t s)"
  by (auto simp: clear_unchecked_def split: option.split)

lemma spare_balance_new: "spare_balance new_dc_balance"
  by (simp add: spare_balance_def new_dc_balance_def new_session_balance_def capped_def start_sessions_count_def
      redirect_reserve_def max_waited_in_session_def max_sessions_count_def download_part_size_def)

lemma sound_touch [simp]:
  assumes sound: "sound s"
  shows "sound (touch_balance dc s)"
proof -
  have spare: "spare_inv s" and inv: "downloads_inv no_extra s" using sound by (simp_all add: sound_def)
  have "spare_inv (touch_balance dc s)"
  proof (cases "flat_get (dw_balance s) dc")
    case None
    have "dt_dc task \<noteq> dc" if "flat_get (dw_tasks s) t = Some task" "(rid, r) \<in> set (dt_sent task)" for t task rid r
      using session_there [OF inv that(1) sent_task_inv [OF inv that]] None by auto
    then show ?thesis using spare spare_balance_new None
      by (auto simp: spare_inv_def spare_task_def touch_balance_def balance_of_def split: if_split_asm)
  next
    case (Some b)
    then have "flat_put dc b (dw_balance s) = dw_balance s" using inv flat_put_get by (auto simp: inv_defs)
    then show ?thesis using spare Some by (simp add: touch_balance_def balance_of_def set_balance_def)
  qed
  then show ?thesis using inv by (simp add: sound_def)
qed

lemma try_send_next_part_spare:
  assumes op: "try_send_next_part dc s = Some (again, s')" and sound: "sound s"
  shows "sound s'"
proof (cases again)
  case False
  then have "s' = touch_balance dc s" using op by (auto simp: try_send_next_part_def Let_def split: option.split_asm if_split_asm)
  then show ?thesis using sound by simp
next
  case True
  let ?s = "touch_balance dc s" and ?b = "balance_of dc s"
  obtain i u where ss: "db_sessions ?b \<noteq> []" and i: "best_session (db_sessions ?b) = Some i"
      and u: "queue_next_task (ready_to_request ?s) (db_total ?b > 0) (queue_of dc ?s) = Some u" and load: "load_part u i ?s = Some s'"
    using op True by (auto simp: try_send_next_part_def Let_def split: option.split_asm if_split_asm)
  have sound1: "sound ?s" using sound by simp
  then have inv1: "downloads_inv no_extra ?s" by (simp add: sound_def)
  have b: "flat_get (dw_balance ?s) dc = Some ?b" by (rule touch_balance_get)
  obtain task o1 l where get: "flat_get (dw_tasks ?s) u = Some task"
      and make: "make_request u (new_request o1 i) (set_task u (task\<lparr> dt_loader := l \<rparr>) ?s) = Some s'"
    using load by (auto simp: load_part_def bind_eq_Some_conv)
  have "u \<in> fst ` set (queue_of dc ?s)" using queue_next_task_ready [OF u] by blast
  then have dc: "dt_dc task = dc" using queue_of_ok(2) [OF inv1] get by force
  let ?s2 = "set_task u (task\<lparr> dt_loader := l \<rparr>) ?s"
  have sound2: "sound ?s2" using sound1 get by simp
  note best = best_session_Some [OF ss i]
  have "balance_ok ?b" using inv1 b by (auto simp: downloads_inv_def dest: accounts_at(4))
  then have "sb_max_waited (db_sessions ?b ! i) \<le> max_waited_in_session" using best by (simp add: balance_ok_def session_ok_def)
  then have "spare_inv s'"
    by (intro make_request_room_spare [OF _ make, of "task\<lparr> dt_loader := l \<rparr>" ?b])
      (use sound2 b best dc in \<open>simp_all add: sound_def new_request_def\<close>)
  then show ?thesis using make_request_keeps [OF make] sound2 by (simp add: sound_def)
qed

lemma check_send_next_spare [spares]: "check_send_next dc s = Some s' \<Longrightarrow> sound s \<longrightarrow> sound s'"
  using check_send_next_invariant [of dc s s' sound] try_send_next_part_spare by blast

end
