(* ===== verification/Download_Spare_Steps.thy ===== *)
theory Download_Spare_Steps
  imports Download_Spare
begin

text \<open>
  The calls of the machine without content servers keep the bound on what a datacenter has requested.
  The removal of a session keeps it too: the requests of the session move to the least loaded ones.
\<close>

section \<open>Queues and requests\<close>

lemma sound_set_queue:
  "sound s \<Longrightarrow> downloads_inv no_extra (set_queue dc q s) \<Longrightarrow> sound (set_queue dc q s)"
  by (simp add: sound_def)

lemma sound_enqueue:
  "flat_get (dw_tasks s) t = Some task \<Longrightarrow> sound s \<Longrightarrow> sound (set_queue (dt_dc task) (queue_enqueue t p (queue_of (dt_dc task) s)) s)"
  by (rule sound_set_queue) (simp_all add: sound_def set_queue_enqueue_inv)

lemma sound_dequeue [simp]: "sound s \<Longrightarrow> sound (set_queue dc (queue_remove t (queue_of dc s)) s)"
  by (rule sound_set_queue) (simp_all add: sound_def)

lemma sound_same_queue [simp]: "sound s \<Longrightarrow> sound (set_queue dc (queue_of dc s) s)"
  by (rule sound_set_queue) (simp_all add: sound_def)

lemma enqueue_task_spare [spares]: "enqueue_task t p s = Some s' \<Longrightarrow> sound s \<longrightarrow> sound s'"
  by (auto simp: enqueue_task_def bind_eq_Some_conv Let_def sound_enqueue split: if_splits dest!: spares)

lemma remove_task_spare [spares]: "remove_task t s = Some s' \<Longrightarrow> sound s \<longrightarrow> sound s'"
  by (auto simp: remove_task_def bind_eq_Some_conv Let_def dest!: spares)

lemma check_after_success_spare [spares]: "check_send_next_after_success dc s = Some s' \<Longrightarrow> sound s \<longrightarrow> sound s'"
  by (auto simp: check_send_next_after_success_def dest!: spares)

lemma cancel_request_spare [spares]: "cancel_request t rid s = Some s' \<Longrightarrow> sound s \<longrightarrow> sound s'"
  by (auto simp: cancel_request_def bind_eq_Some_conv split: if_splits dest!: spares)

lemma cancel_requests_spare [spares]: "cancel_requests t rids s = Some s' \<Longrightarrow> sound s \<longrightarrow> sound s'"
proof (induction t rids s rule: cancel_requests.induct)
  case (2 t rid rids s)
  then obtain s1 where s1: "cancel_request t rid s = Some s1" "cancel_requests t rids s1 = Some s'"
    by (auto simp: bind_eq_Some_conv)
  then show ?case using 2(1) [OF s1] cancel_request_spare [OF s1(1)] by blast
qed simp

lemma cancel_all_requests_spare [spares]:
  "cancel_all_requests t s = Some s' \<Longrightarrow> sound s \<longrightarrow> sound s'"
  by (auto simp: cancel_all_requests_def bind_eq_Some_conv dest!: spares)

lemma cancel_request_for_offset_spare [spares]:
  "cancel_request_for_offset t offset s = Some s' \<Longrightarrow> sound s \<longrightarrow> sound s'"
  by (auto simp: cancel_request_for_offset_def bind_eq_Some_conv split: option.split_asm dest!: spares)

lemma file_cancel_spare [spares]:
  "file_cancel t fail l s = Some s' \<Longrightarrow> sound s \<longrightarrow> sound s'"
  by (auto simp: file_cancel_def bind_eq_Some_conv dest!: spares)

lemma preload_fail_spare [spares]:
  "preload_fail t p s = Some s' \<Longrightarrow> sound s \<longrightarrow> sound s'"
  by (auto simp: preload_fail_def bind_eq_Some_conv dest!: spares)

lemma cancel_on_fail_spare [spares]:
  "cancel_on_fail t s = Some s' \<Longrightarrow> sound s \<longrightarrow> sound s'"
proof
  assume op: "cancel_on_fail t s = Some s'" and inv: "sound s"
  then obtain task where get: "flat_get (dw_tasks s) t = Some task" by (auto simp: cancel_on_fail_def bind_eq_Some_conv)
  show "sound s'"
    by (cases "dt_loader task") (use op get inv in \<open>auto simp: cancel_on_fail_def bind_eq_Some_conv Let_def split: if_split_asm dest!: spares\<close>)
qed

section \<open>Parts and errors\<close>

lemma file_finish_sound [simp]: "sound s \<Longrightarrow> sound (file_finish t l s)"
  by (simp add: file_finish_def)

lemma finalize_result_spare [spares]:
  "finalize_result env t l s = Some (ok, s') \<Longrightarrow> sound s \<longrightarrow> sound s'"
  by (auto simp: finalize_result_def split: if_split_asm prod.splits bool.split_asm dest!: spares)

lemma file_feed_part_spare [spares]:
  "file_feed_part env t offset buffer l s = Some (ok, s') \<Longrightarrow> sound s \<longrightarrow> sound s'"
  by (auto simp: file_feed_part_def bind_eq_Some_conv Let_def split: if_split_asm dest!: spares)

lemma preload_feed_part_spare [spares]:
  "preload_feed_part t offset part p s = Some (ok, s') \<Longrightarrow> sound s \<longrightarrow> sound s'"
  by (auto simp: preload_feed_part_def bind_eq_Some_conv Let_def split: if_split_asm dest!: spares)

lemma feed_part_spare [spares]:
  "feed_part env t offset part s = Some (ok, s') \<Longrightarrow> sound s \<longrightarrow> sound s'"
proof
  assume op: "feed_part env t offset part s = Some (ok, s')" and inv: "sound s"
  then obtain task where get: "flat_get (dw_tasks s) t = Some task" by (auto simp: feed_part_def bind_eq_Some_conv)
  show "sound s'"
    by (cases "dt_loader task") (use op get inv in \<open>auto simp: feed_part_def bind_eq_Some_conv Let_def split: if_split_asm dest!: spares\<close>)
qed

lemma part_loaded_spare [spares]:
  "part_loaded env t offset part s = Some s' \<Longrightarrow> sound s \<longrightarrow> sound s'"
  by (auto simp: part_loaded_def dest!: spares)

lemma set_web_file_size_spare [spares]:
  "set_web_file_size t n s = Some (ok, s') \<Longrightarrow> sound s \<longrightarrow> sound s'"
proof
  assume op: "set_web_file_size t n s = Some (ok, s')" and inv: "sound s"
  then obtain task where get: "flat_get (dw_tasks s) t = Some task" by (auto simp: set_web_file_size_def bind_eq_Some_conv)
  show "sound s'"
    by (cases "dt_loader task") (use op get inv in \<open>auto simp: set_web_file_size_def bind_eq_Some_conv Let_def split: if_split_asm dest!: spares\<close>)
qed

lemma web_part_loaded_spare [spares]:
  "web_part_loaded env t rid n part s = Some s' \<Longrightarrow> sound s \<longrightarrow> sound s'"
  by (auto simp: web_part_loaded_def bind_eq_Some_conv split: if_split_asm dest!: spares)

lemma part_failed_spare [spares]:
  "part_failed t e s = Some s' \<Longrightarrow> sound s \<longrightarrow> sound s'"
  by (auto simp: part_failed_def split: if_split_asm dest!: spares)

lemma normal_part_failed_spare [spares]:
  "normal_part_failed t reference e rid s = Some s' \<Longrightarrow> sound s \<longrightarrow> sound s'"
  by (auto simp: normal_part_failed_def split: if_split_asm dest!: spares)

section \<open>The calls of the loaders\<close>

lemma streaming_cancel_offset_spare [spares]:
  "streaming_cancel_offset t offset s = Some s' \<Longrightarrow> sound s \<longrightarrow> sound s'"
  by (auto simp: streaming_cancel_offset_def bind_eq_Some_conv split: if_split_asm dest!: spares)

lemma streaming_load_spare [spares]:
  "streaming_load t offset loaded s = Some s' \<Longrightarrow> sound s \<longrightarrow> sound s'"
  by (auto simp: streaming_load_def bind_eq_Some_conv split: if_split_asm prod.split_asm bool.split_asm dest!: spares)

lemma streaming_stop_spare [spares]:
  "streaming_stop t s = Some s' \<Longrightarrow> sound s \<longrightarrow> sound s'"
  by (auto simp: streaming_stop_def bind_eq_Some_conv dest!: spares)

lemma streaming_try_remove_spare [spares]:
  "streaming_try_remove t s = Some s' \<Longrightarrow> sound s \<longrightarrow> sound s'"
  by (auto simp: streaming_try_remove_def bind_eq_Some_conv split: if_split_asm dest!: spares)

lemma streaming_set_priority_spare [spares]:
  "streaming_set_priority t p s = Some s' \<Longrightarrow> sound s \<longrightarrow> sound s'"
  by (auto simp: streaming_set_priority_def bind_eq_Some_conv Let_def split: if_split_asm dest!: spares)

lemma streaming_reset_priorities_spare [spares]:
  "streaming_reset_priorities t s = Some s' \<Longrightarrow> sound s \<longrightarrow> sound s'"
  by (auto simp: streaming_reset_priorities_def bind_eq_Some_conv)

lemma streaming_stats_timer_spare [spares]:
  "streaming_stats_timer t s = Some s' \<Longrightarrow> sound s \<longrightarrow> sound s'"
  by (auto simp: streaming_stats_timer_def bind_eq_Some_conv Let_def case_prod_beta split: option.splits)

lemma file_open_and_spare:
  assumes op: "file_open_and env t l f s = Some s'" and inv: "sound s"
    and f: "\<And>a. f a = Some s' \<Longrightarrow> sound a \<longrightarrow> sound s'"
  shows "sound s'"
proof (cases "check_for_open (de_disk env) l")
  case None
  then show ?thesis using op inv by (auto simp: file_open_and_def dest!: file_cancel_spare)
next
  case (Some l1)
  then have "f (set_loader t (FileLoad l1) s) = Some s'" using op by (simp add: file_open_and_def)
  from f [OF this] show ?thesis using inv by simp
qed

lemma file_start_spare [spares]:
  assumes op: "file_start env t s = Some s'"
  shows "sound s \<longrightarrow> sound s'"
proof
  assume inv: "sound s"
  obtain l where l: "file_of t s = Some l" using op by (auto simp: file_start_def bind_eq_Some_conv)
  obtain local l1 es where try_local: "try_load_local t l = (local, l1, es)" by (cases "try_load_local t l") auto
  show "sound s'"
    using op inv l try_local
    by (auto simp: file_start_def Let_def split: if_split_asm dest!: file_cancel_spare
        elim!: file_open_and_spare dest: enqueue_task_spare)
qed

lemma start_with_partial_spare [spares]:
  "start_with_partial env t stored s = Some s' \<Longrightarrow> sound s \<longrightarrow> sound s'"
  by (auto simp: start_with_partial_def bind_eq_Some_conv Let_def split: if_split_asm dest!: spares)

lemma finish_with_bytes_spare [spares]:
  "finish_with_bytes env t stored l s = Some s' \<Longrightarrow> sound s \<longrightarrow> sound s'"
  by (auto simp: finish_with_bytes_def split: prod.split_asm bool.split_asm dest!: spares)

lemma local_loaded_spare [spares]:
  assumes op: "local_loaded env t stored s = Some s'"
  shows "sound s \<longrightarrow> sound s'"
proof
  assume inv: "sound s"
  obtain l0 where l0: "file_of t s = Some l0" using op by (auto simp: local_loaded_def bind_eq_Some_conv)
  define l where "l = l0\<lparr> fl_local_loading := False \<rparr>"
  show "sound s'"
  proof (cases "take 8 stored = partial_prefix \<and> int (length stored) < fl_load_size l0 + 8 \<and> stored \<noteq> []")
    case True
    then have "file_open_and env t (l\<lparr> fl_status := LocalNotFound \<rparr>) (start_with_partial env t stored)
          (set_loader t (FileLoad (l\<lparr> fl_status := LocalNotFound \<rparr>)) s) = Some s'"
      using op l0 by (simp add: local_loaded_def l_def Let_def)
    then show ?thesis using inv sound_set_loader file_open_and_spare start_with_partial_spare by blast
  next
    case False
    then show ?thesis using op l0 inv
      by (auto simp: local_loaded_def Let_def split: if_split_asm dest!: file_start_spare finish_with_bytes_spare)
  qed
qed

lemma file_cancel_call_spare [spares]:
  "file_cancel_call t s = Some s' \<Longrightarrow> sound s \<longrightarrow> sound s'"
  by (auto simp: file_cancel_call_def bind_eq_Some_conv dest!: spares)

lemma preload_start_spare [spares]:
  "preload_start t prefix n s = Some s' \<Longrightarrow> sound s \<longrightarrow> sound s'"
proof
  assume op: "preload_start t prefix n s = Some s'" and inv: "sound s"
  then obtain task where get: "flat_get (dw_tasks s) t = Some task" by (auto simp: preload_start_def bind_eq_Some_conv)
  show "sound s'"
    by (cases "dt_loader task") (use op get inv in \<open>auto simp: preload_start_def bind_eq_Some_conv dest!: spares\<close>)
qed

lemma destroy_loader_spare [spares]:
  "destroy_loader t s = Some s' \<Longrightarrow> sound s \<longrightarrow> sound s'"
proof
  assume op: "destroy_loader t s = Some s'" and inv: "sound s"
  then obtain task where get: "flat_get (dw_tasks s) t = Some task" by (auto simp: destroy_loader_def bind_eq_Some_conv)
  show "sound s'"
    by (cases "dt_loader task") (use op get inv in \<open>auto simp: destroy_loader_def split: if_split_asm dest!: spares\<close>)
qed

section \<open>Answers, tasks and timers\<close>

lemma normal_bytes_spare [spares]:
  "normal_part_loaded env t rid (FileBytes part) s = Some s' \<Longrightarrow> sound s \<longrightarrow> sound s'"
  by (auto simp: normal_part_loaded_def bind_eq_Some_conv dest!: spares)

lemma refresh_file_reference_spare [spares]:
  "refresh_file_reference t updated rid current s = Some s' \<Longrightarrow> sound s \<longrightarrow> sound s'"
proof
  assume op: "refresh_file_reference t updated rid current s = Some s'" and sound: "sound s"
  then obtain task where get: "flat_get (dw_tasks s) t = Some task" by (auto simp: refresh_file_reference_def bind_eq_Some_conv)
  let ?s = "set_task t (task\<lparr> dt_location := StorageLocation updated \<rparr>) s"
  have sound1: "sound ?s" using sound get by simp
  have again: "sound s'" if "finish_sent_request t rid FinishRedirect ?s = Some (r, s2)" "make_request t r s2 = Some s'" for r s2
    by (rule finish_and_make_spare [OF that _ sound1]) simp
  show "sound s'"
    by (cases "dt_location task")
      (use op get sound sound1 again in \<open>auto simp: refresh_file_reference_def bind_eq_Some_conv Let_def split: if_split_asm dest!: cancel_on_fail_spare\<close>)
qed

lemma spare_fewer_tasks:
  assumes "spare_inv s" and "dw_now s \<le> dw_now s'" and "dw_balance s' = dw_balance s"
    and "\<And>t task. flat_get (dw_tasks s') t = Some task \<Longrightarrow> dt_sent task = [] \<or> flat_get (dw_tasks s) t = Some task"
  shows "spare_inv s'"
proof -
  have "rd_sent r \<le> dw_now s' \<and> (\<forall>b. flat_get (dw_balance s') (dt_dc task) = Some b \<longrightarrow> spare_request b r)"
    if get: "flat_get (dw_tasks s') t = Some task" and r: "(rid, r) \<in> set (dt_sent task)" for t task rid r
  proof -
    have "flat_get (dw_tasks s) t = Some task" using assms(4) [OF get] r by auto
    then show ?thesis using spare_at [OF assms(1) _ r] assms(2,3) by fastforce
  qed
  then show ?thesis using assms(1,3) by (auto simp: spare_inv_def spare_task_def)
qed

lemma destroy_task_spare [spares]:
  assumes op: "destroy_task t s = Some s'"
  shows "sound s \<longrightarrow> sound s'"
proof
  assume sound: "sound s"
  obtain s1 s2 s3 where steps: "destroy_loader t s = Some s1" "cancel_all_requests t s1 = Some s2" "remove_task t s2 = Some s3"
      and s': "s' = s3\<lparr> dw_tasks := flat_del t (dw_tasks s3) \<rparr>"
    using op by (auto simp: destroy_task_def bind_eq_Some_conv)
  have "spare_inv s3"
    using sound destroy_loader_spare [OF steps(1)] cancel_all_requests_spare [OF steps(2)] remove_task_spare [OF steps(3)]
    by (simp add: sound_def)
  then have "spare_inv s'" by (rule spare_fewer_tasks) (simp_all add: s' split: if_split_asm)
  then show "sound s'" using sound destroy_task_keeps [OF op] by (simp add: sound_def)
qed

lemma new_task_spare:
  assumes "sound s" and "flat_get (dw_tasks s) t = None"
  shows "sound (set_task t (new_task dc location l) s)"
proof -
  have "spare_inv s" using assms(1) by (simp add: sound_def)
  then have "spare_inv (set_task t (new_task dc location l) s)"
    by (rule spare_fewer_tasks) (auto simp: new_task_def split: if_split_asm)
  then show ?thesis using assms new_task_inv by (simp add: sound_def)
qed

lemma time_passes_spare: "sound s \<Longrightarrow> sound (s\<lparr> dw_now := dw_now s + max 0 d \<rparr>)"
  using spare_fewer_tasks [of s "s\<lparr> dw_now := dw_now s + max 0 d \<rparr>"] by (simp add: sound_def)

lemma reset_generation_spare [spares]: "reset_generation s = Some s' \<Longrightarrow> sound s \<longrightarrow> sound s'"
proof
  assume op: "reset_generation s = Some s'" and sound: "sound s"
  then have "spare_inv s' = spare_inv s" by (intro spare_cong) (auto simp: reset_generation_def)
  then show "sound s'" using sound reset_generation_keeps [OF op] by (simp add: sound_def)
qed

lemma kill_dc_sessions_spare:
  assumes op: "kill_dc_sessions dc s = Some s'" and sound: "sound s"
  shows "sound s'"
proof (cases "flat_get (dw_balance s) dc")
  case (Some b)
  have spare: "spare_inv s" and inv: "downloads_inv no_extra s" using sound by (simp_all add: sound_def)
  let ?new = "new_dc_balance\<lparr> db_sessions := map (\<lambda>_. new_session_balance) (db_sessions b) \<rparr>"
  have fields: "dw_balance s' = flat_put dc ?new (dw_balance s)" "dw_tasks s' = dw_tasks s" "dw_now s' = dw_now s"
      and zero: "\<forall>y \<in> set (db_sessions b). sb_requested y = 0"
    using op Some by (auto simp: kill_dc_sessions_def split: if_splits)
  have acc: "accounts_ok no_extra (dw_balance s) (dw_tasks s)" using inv by (simp add: downloads_inv_def)
  have idle: "dt_dc task \<noteq> dc" if get: "flat_get (dw_tasks s) t = Some task" "(rid, r) \<in> set (dt_sent task)" for t task rid r
  proof
    assume "dt_dc task = dc"
    then have "1 \<le> sent_count dc (rd_session r) (dw_tasks s)" using sent_count_member(1) [OF get(1) sent_task_inv [OF inv get]] by simp
    then show False using requested_zero_counts [OF acc Some zero] by simp
  qed
  have "capped new_session_balance = max_waited_in_session" "sb_successes new_session_balance = 0"
    by (simp_all add: capped_def new_session_balance_def max_waited_in_session_def download_part_size_def)
  moreover have "length (db_sessions b) \<le> max_sessions_count" using accounts_at(4) [OF acc Some] by (simp add: balance_ok_def)
  ultimately have "spare_balance ?new"
    by (auto simp: spare_balance_def comp_def sum_list_triv redirect_reserve_def max_waited_in_session_def
        max_sessions_count_def download_part_size_def)
  then have "spare_inv s'" using spare idle by (auto simp: spare_inv_def spare_task_def fields split: if_split_asm)
  then show ?thesis using kill_dc_sessions_spec [OF inv op] by (simp add: sound_def)
qed (use op sound in \<open>simp add: kill_dc_sessions_def\<close>)

lemma kill_due_spare: "kill_due left ks s = Some (l, kept, s') \<Longrightarrow> sound s \<Longrightarrow> sound s'"
proof (induction left ks s arbitrary: l kept s' rule: kill_due.induct)
  case (2 left dc at rest s)
  show ?case
  proof (cases "at \<le> dw_now s")
    case True
    then obtain s1 where s1: "kill_dc_sessions dc s = Some s1" "kill_due left rest s1 = Some (l, kept, s')"
      using 2(3) by (auto split: option.splits)
    then show ?thesis using 2(1) [OF True s1] kill_dc_sessions_spare [OF s1(1) 2(4)] by simp
  next
    case False
    then show ?thesis using 2(2,3,4) by auto
  qed
qed simp

lemma kill_sessions_spare [spares]: "kill_sessions s = Some s' \<Longrightarrow> sound s \<longrightarrow> sound s'"
proof
  assume op: "kill_sessions s = Some s'" and sound: "sound s"
  obtain l kept s1 where due: "kill_due kill_session_timeout (dw_kill_when s) s = Some (l, kept, s1)"
      and s': "s' = s1\<lparr> dw_kill_when := kept, dw_kill_timer := (if kept \<noteq> [] then Some (dw_now s + l) else dw_kill_timer s1) \<rparr>"
    using op by (auto simp: kill_sessions_def)
  have "spare_inv s1" using kill_due_spare [OF due sound] by (simp add: sound_def)
  moreover have "spare_inv s' = spare_inv s1" by (rule spare_cong) (simp_all add: s')
  ultimately show "sound s'" using kill_sessions_keeps [OF op] sound by (simp add: sound_def)
qed

end
