(* ===== verification/Download_Plain_Sessions.thy ===== *)
theory Download_Plain_Sessions
  imports Download_Plain_Loaders Download_Spare_Steps
begin

text \<open>
  The removal of a session never fails: the requests in it move to the other sessions, because the bound
  on what the datacenter has requested makes the session with the reserve the fullest, and then none is
  left in it, because a task with a request in flight is in the queue.
\<close>

section \<open>The state of a removal\<close>

lemma sent_count_none:
  assumes ok: "flat_map_ok m" and none: "\<And>t task rid r. flat_get m t = Some task \<Longrightarrow> dt_dc task = dc \<Longrightarrow>
    (rid, r) \<in> set (dt_sent task) \<Longrightarrow> rd_session r \<noteq> i"
  shows "sent_count dc i m = 0"
  unfolding sent_count_def
proof (rule entry_sum_all_zero)
  fix t task assume "(t, task) \<in> set m"
  then have "flat_get m t = Some task" using ok by (simp add: flat_get_iff)
  then have "dt_dc task = dc \<Longrightarrow> entry_sum (in_session i) (dt_sent task) = 0"
    using none by (intro entry_sum_all_zero) (simp add: in_session_def)
  then show "task_load dc i t task = 0" by (simp add: task_load_def)
qed

text \<open>The sessions below the one removed, with what is still to move, are within the reserve.\<close>

definition moving_balance :: "nat \<Rightarrow> dc_balance \<Rightarrow> bool" where
  "moving_balance i b \<longleftrightarrow> length (db_sessions b) = Suc i
     \<and> sum_list (map capped (take i (db_sessions b))) + sb_requested (db_sessions b ! i) \<le> 2 * redirect_reserve
     \<and> (\<forall>x \<in> set (db_sessions b). sb_successes x = 0)"

definition timely :: "downloads \<Rightarrow> bool" where
  "timely s \<longleftrightarrow> (\<forall>t task rid r. flat_get (dw_tasks s) t = Some task \<longrightarrow> (rid, r) \<in> set (dt_sent task) \<longrightarrow> rd_sent r \<le> dw_now s)"

text \<open>Nothing happens outside the datacenter.\<close>

definition same_elsewhere :: "int \<Rightarrow> downloads \<Rightarrow> downloads \<Rightarrow> bool" where
  "same_elsewhere dc s0 s \<longleftrightarrow> dw_now s = dw_now s0
     \<and> (\<forall>d. d \<noteq> dc \<longrightarrow> flat_get (dw_balance s) d = flat_get (dw_balance s0) d)
     \<and> (\<forall>t task. flat_get (dw_tasks s) t = Some task \<longrightarrow> dt_dc task = dc \<or> flat_get (dw_tasks s0) t = Some task)"

definition moving :: "int \<Rightarrow> nat \<Rightarrow> downloads \<Rightarrow> downloads \<Rightarrow> bool" where
  "moving dc i s0 s \<longleftrightarrow> downloads_inv (reserve_extra dc i) s \<and> 1 \<le> i
     \<and> (\<exists>b. flat_get (dw_balance s) dc = Some b \<and> moving_balance i b) \<and> timely s \<and> same_elsewhere dc s0 s"

lemma reserve_extra_nonneg: "0 \<le> reserve_extra dc i d j"
  by (simp add: reserve_extra_def redirect_reserve_nonneg)

section \<open>One request moves\<close>

lemma capped_add: "capped (add_requested download_part_size x) \<le> capped x + download_part_size"
  by (simp add: capped_def add_requested_def download_part_size_def)

lemma successes_change: "i < length (db_sessions b) \<Longrightarrow> \<forall>x \<in> set (db_sessions b). sb_successes x = 0 \<Longrightarrow>
    \<forall>x \<in> set (db_sessions (change_session i d b)). sb_successes x = 0"
  by (auto simp: change_session_def add_requested_def dest!: in_list_update)

lemma change_session_sessions: "db_sessions (change_session i d b) = (db_sessions b)[i := add_requested d (db_sessions b ! i)]"
  by (simp add: change_session_def)

text \<open>A request leaves the session: the least loaded session is another one, and may take the request.\<close>

lemma least_loaded:
  assumes moving: "moving_balance i b" and i: "1 \<le> i"
    and full: "redirect_reserve + download_part_size \<le> sb_requested (db_sessions b ! i)"
  shows "first_min sb_requested (db_sessions (change_session i (- download_part_size) b)) < i"
    and "j < i \<Longrightarrow> moving_balance i (change_session j download_part_size (change_session i (- download_part_size) b))"
proof -
  let ?c = "change_session i (- download_part_size) b"
  let ?j = "first_min sb_requested (db_sessions ?c)"
  have len: "length (db_sessions b) = Suc i" "length (db_sessions ?c) = Suc i"
    using moving by (simp_all add: moving_balance_def change_session_def)
  have last: "sb_requested (db_sessions ?c ! i) = sb_requested (db_sessions b ! i) - download_part_size"
    using len by (simp add: change_session_def add_requested_def)
  have front: "take i (db_sessions ?c) = take i (db_sessions b)" by (simp add: change_session_def)
  have sum: "sum_list (map capped (take i (db_sessions b))) + sb_requested (db_sessions b ! i) \<le> 2 * redirect_reserve"
    using moving by (simp add: moving_balance_def)
  have positive: "0 < download_part_size" by (simp add: download_part_size_def)
  obtain x xs where xs: "db_sessions b = x # xs" using len by (cases "db_sessions b") auto
  obtain k where k: "i = Suc k" using i by (cases i) auto
  have "0 \<le> sum_list (map capped (take k xs))"
    by (rule sum_list_nonneg) (auto simp: capped_def max_waited_in_session_def download_part_size_def)
  then have "sb_requested x \<le> sum_list (map capped (take i (db_sessions b)))" by (simp add: xs k capped_def)
  then have first: "sb_requested (db_sessions ?c ! 0) < sb_requested (db_sessions ?c ! i)"
    using sum full positive last by (simp add: xs k change_session_def)
  have "db_sessions ?c \<noteq> []" using len by auto
  note least = first_min_least [OF this, of sb_requested]
  have "db_sessions ?c ! 0 \<in> set (db_sessions ?c)" using len by simp
  then have "sb_requested (db_sessions ?c ! ?j) \<le> sb_requested (db_sessions ?c ! 0)" using least by blast
  then have "?j \<noteq> i" using first by auto
  then show "?j < i" using least len by simp
  assume j: "j < i"
  let ?d = "change_session j download_part_size ?c"
  have "db_sessions ?d = (db_sessions ?c)[j := add_requested download_part_size (db_sessions ?c ! j)]"
    by (rule change_session_sessions)
  moreover have "db_sessions ?c ! j = db_sessions b ! j" using j by (simp add: change_session_def)
  ultimately have "take i (db_sessions ?d) = (take i (db_sessions b))[j := add_requested download_part_size (db_sessions b ! j)]"
    by (simp only: take_update_swap front)
  then have "sum_list (map capped (take i (db_sessions ?d))) \<le> sum_list (map capped (take i (db_sessions b))) + download_part_size"
    using j len capped_add [of "db_sessions b ! j"] by (simp add: sum_capped_update)
  moreover have "sb_requested (db_sessions ?d ! i) = sb_requested (db_sessions b ! i) - download_part_size"
    using j last by (simp add: change_session_def [of j])
  moreover have "\<forall>x \<in> set (db_sessions ?d). sb_successes x = 0"
    by (intro successes_change) (use moving len j in \<open>simp_all add: moving_balance_def\<close>)
  moreover have "length (db_sessions ?d) = Suc i" using len by (simp add: change_session_def)
  ultimately show "moving_balance i ?d" using sum by (simp add: moving_balance_def)
qed

lemma cancel_request_balance:
  assumes "cancel_request t rid s = Some s'" and "flat_get (dw_tasks s) t = Some task" and "flat_get (dt_sent task) rid = Some r"
    and "flat_get (dw_balance s) (dt_dc task) = Some b"
  shows "dw_balance s' = flat_put (dt_dc task) (change_session (rd_session r) (- download_part_size) b) (dw_balance s)"
proof -
  obtain r1 s1 where finish: "finish_sent_request t rid FinishCancel (log_event (CancelledRequest rid) s) = Some (r1, s1)"
      and s': "s' = s1 \<or> s' = s1\<lparr> dw_deferred := dw_deferred s1 @ [MoreHashes t] \<rparr>"
    using assms(1) by (auto simp: cancel_request_def bind_eq_Some_conv split: if_split_asm)
  have "dw_balance s1 = flat_put (dt_dc task) (change_session (rd_session r) (- download_part_size) b) (dw_balance s)"
    by (rule finish_sent_request_unfold [OF finish]) (use assms(2-4) in \<open>auto simp: Let_def split: if_split_asm\<close>)
  then show ?thesis using s' by auto
qed

lemma move_request:
  assumes moving: "moving dc i s0 s" and get: "flat_get (dw_tasks s) t = Some task" and dc: "dt_dc task = dc"
    and sent: "flat_get (dt_sent task) rid = Some r" and session: "rd_session r = i"
  shows "\<exists>s1 s2 j r2. cancel_request t rid s = Some s1 \<and> choose_session_index dc s1 = Some j \<and> j < i
    \<and> make_request t (new_request (rd_offset r) j) s1 = Some s2 \<and> moving dc i s0 s2 \<and> rd_session r2 = j
    \<and> dw_tasks s2 = flat_put t (add_sent (dw_next_request s) r2 (drop_sent rid r task)) (dw_tasks s)"
proof -
  have inv: "downloads_inv (reserve_extra dc i) s" and i: "1 \<le> i" and timely: "timely s" and elsewhere: "same_elsewhere dc s0 s"
    using moving by (simp_all add: moving_def)
  obtain b where b: "flat_get (dw_balance s) dc = Some b" "moving_balance i b" using moving by (auto simp: moving_def)
  obtain s1 where s1: "cancel_request t rid s = Some s1" using cancel_request_defined [OF inv get sent] by blast
  let ?task1 = "drop_sent rid r task" and ?c = "change_session i (- download_part_size) b"
  have tasks1: "dw_tasks s1 = flat_put t ?task1 (dw_tasks s)" "dw_next_request s1 = dw_next_request s" "dw_now s1 = dw_now s"
    using cancel_request_effect [OF s1] get sent by auto
  have balance1: "dw_balance s1 = flat_put dc ?c (dw_balance s)"
    using cancel_request_balance [OF s1 get sent] b(1) dc session by simp
  have inv1: "downloads_inv (reserve_extra dc i) s1" by (rule cancel_request_inv_extra [OF inv reserve_extra_nonneg s1])
  have "accounts_ok (reserve_extra dc i) (dw_balance s) (dw_tasks s)" using inv by (simp add: downloads_inv_def)
  from accounts_at(1) [OF this b(1), of i]
  have full: "redirect_reserve + download_part_size \<le> sb_requested (db_sessions b ! i)"
    using b(2) sent_count_member(1) [OF get sent] dc session
    by (simp add: reserve_extra_def moving_balance_def download_part_size_def)
  define j where "j = first_min sb_requested (db_sessions ?c)"
  have j: "j < i" unfolding j_def by (rule least_loaded(1) [OF b(2) i full])
  have choose: "choose_session_index dc s1 = Some j" by (simp add: choose_session_index_def balance1 j_def)
  have get1: "flat_get (dw_tasks s1) t = Some ?task1" by (simp add: tasks1)
  have dc1: "dt_dc ?task1 = dc" using dc by (simp add: drop_sent_def)
  have c: "flat_get (dw_balance s1) (dt_dc ?task1) = Some ?c" by (simp add: dc1 balance1)
  have "length (db_sessions ?c) = Suc i" using b(2) by (simp add: moving_balance_def change_session_def)
  then obtain s2 where s2: "make_request t (new_request (rd_offset r) j) s1 = Some s2"
    using make_request_defined_extra [OF inv1 get1 c, of "new_request (rd_offset r) j"] j by (auto simp: new_request_def drop_sent_def)
  let ?r = "new_request (rd_offset r) j\<lparr> rd_amount := sb_requested (db_sessions ?c ! j) + download_part_size, rd_sent := dw_now s \<rparr>"
  have made: "dw_now s2 = dw_now s" "dw_balance s2 = flat_put dc (change_session j download_part_size ?c) (dw_balance s)"
      "dw_tasks s2 = flat_put t (add_sent (dw_next_request s) ?r ?task1) (dw_tasks s)"
    using make_request_balance [OF s2] get1 c dc1 by (auto simp: tasks1 balance1 new_request_def)
  have sub: "set (dt_sent (add_sent (dw_next_request s) ?r ?task1)) \<subseteq> insert (dw_next_request s, ?r) (set (dt_sent task))"
    using set_flat_put_subset [of "dw_next_request s" ?r "dt_sent ?task1"] set_flat_del_subset [of rid "dt_sent task"]
    by (auto simp: add_sent_def drop_sent_def)
  have "rd_sent r2 \<le> dw_now s2" if get2: "flat_get (dw_tasks s2) u = Some task2" "(rid2, r2) \<in> set (dt_sent task2)" for u task2 rid2 r2
  proof (cases "u = t")
    case True
    then have "(rid2, r2) \<in> insert (dw_next_request s, ?r) (set (dt_sent task))" using get2 sub by (auto simp: made(3))
    then show ?thesis using timely get by (auto simp: timely_def made(1))
  next
    case False
    then show ?thesis using get2 timely by (auto simp: timely_def made)
  qed
  then have "timely s2" unfolding timely_def by blast
  moreover have "same_elsewhere dc s0 s2"
    using elsewhere dc by (auto simp: same_elsewhere_def made add_sent_def drop_sent_def)
  moreover have "moving_balance i (change_session j download_part_size ?c)" by (rule least_loaded(2) [OF b(2) i full j])
  moreover have "downloads_inv (reserve_extra dc i) s2" by (rule make_request_inv_extra [OF inv1 s2])
  ultimately have "moving dc i s0 s2" using i by (simp add: moving_def made(2))
  then show ?thesis using s1 s2 choose j made(3)
    by (intro exI [of _ s1] exI [of _ s2] exI [of _ j] exI [of _ ?r]) (simp add: new_request_def)
qed

section \<open>The requests of a task\<close>

definition left_in :: "nat \<Rightarrow> (int \<times> int) list \<Rightarrow> download_task \<Rightarrow> bool" where
  "left_in i rs task \<longleftrightarrow> distinct (map fst rs)
     \<and> (\<forall>(rid, o1) \<in> set rs. \<exists>r. flat_get (dt_sent task) rid = Some r \<and> rd_offset r = o1 \<and> rd_session r = i)
     \<and> (\<forall>rid r. flat_get (dt_sent task) rid = Some r \<and> rd_session r = i \<longrightarrow> rid \<in> fst ` set rs)"

lemma redirect_requests_defined:
  assumes "moving dc i s0 s" and "flat_get (dw_tasks s) t = Some task" and "dt_dc task = dc"
    and "dt_hashes_request task = 0" and "left_in i rs task"
  shows "\<exists>s' task'. redirect_requests t i rs s = Some s' \<and> moving dc i s0 s' \<and> left_in i [] task' \<and> dt_dc task' = dc
    \<and> dt_hashes_request task' = 0 \<and> dt_unchecked task' = dt_unchecked task
    \<and> dw_tasks s' = flat_put t task' (dw_tasks s)"
  using assms
proof (induction t i rs s arbitrary: task rule: redirect_requests.induct)
  case (1 t i s)
  have "flat_map_ok (dw_tasks s)" using 1(1) by (simp add: moving_def inv_defs)
  then have "flat_put t task (dw_tasks s) = dw_tasks s" using 1(2) by (rule flat_put_get)
  then show ?case using 1 by (intro exI [of _ s] exI [of _ task]) simp
next
  case (2 t i rid o1 rest s)
  note moving = 2(2) and get = 2(3) and dc = 2(4) and hashes = 2(5) and left = 2(6)
  obtain r where sent: "flat_get (dt_sent task) rid = Some r" "rd_offset r = o1" "rd_session r = i" using left by (auto simp: left_in_def)
  obtain s1 s2 j r2 where steps: "cancel_request t rid s = Some s1" "choose_session_index dc s1 = Some j" "j < i"
      "make_request t (new_request o1 j) s1 = Some s2" "moving dc i s0 s2" "rd_session r2 = j"
      "dw_tasks s2 = flat_put t (add_sent (dw_next_request s) r2 (drop_sent rid r task)) (dw_tasks s)"
    using move_request [OF moving get dc sent(1,3)] sent(2) by blast
  let ?task2 = "add_sent (dw_next_request s) r2 (drop_sent rid r task)"
  have tok: "task_ok (dw_next_request s) task" using moving inv_task_ok [OF _ get] by (auto simp: moving_def)
  then have rids: "0 < rid2 \<and> rid2 < dw_next_request s" if "flat_get (dt_sent task) rid2 = Some r3" for rid2 r3
    using that by (auto simp: task_ok_def)
  have positive: "rid \<noteq> dt_hashes_request task" using rids [OF sent(1)] hashes by simp
  have body: "(if rid \<noteq> dt_hashes_request task
        then do { j \<leftarrow> choose_session_index (dt_dc task) s1;
                  if \<not> j < i then None else make_request t (new_request o1 j) s1 }
        else Some s1) = Some s2"
    using steps positive dc by simp
  have get2: "flat_get (dw_tasks s2) t = Some ?task2" by (simp add: steps(7))
  have fields: "dt_dc ?task2 = dc" "dt_hashes_request ?task2 = 0" "dt_unchecked ?task2 = dt_unchecked task"
      "dt_sent ?task2 = flat_put (dw_next_request s) r2 (flat_del rid (dt_sent task))"
    using dc hashes by (simp_all add: add_sent_def drop_sent_def)
  have "\<exists>r3. flat_get (dt_sent ?task2) rid2 = Some r3 \<and> rd_offset r3 = o2 \<and> rd_session r3 = i" if in_rest: "(rid2, o2) \<in> set rest" for rid2 o2
  proof -
    obtain r3 where r3: "flat_get (dt_sent task) rid2 = Some r3" "rd_offset r3 = o2" "rd_session r3 = i" using left in_rest by (auto simp: left_in_def)
    moreover have "rid2 \<noteq> rid" using left in_rest by (force simp: left_in_def)
    ultimately show ?thesis using rids [OF r3(1)] by (simp add: fields(4))
  qed
  moreover have "rid2 \<in> fst ` set rest" if "flat_get (dt_sent ?task2) rid2 = Some r3" "rd_session r3 = i" for rid2 r3
  proof -
    have "flat_get (dt_sent task) rid2 = Some r3" "rid2 \<noteq> rid"
      using that steps(3,6) by (auto simp: fields(4) split: if_split_asm)
    then show ?thesis using left that(2) by (fastforce simp: left_in_def)
  qed
  ultimately have left2: "left_in i rest ?task2" using left by (auto simp: left_in_def)
  obtain s' task' where rest: "redirect_requests t i rest s2 = Some s'" "moving dc i s0 s'" "left_in i [] task'" "dt_dc task' = dc"
      "dt_hashes_request task' = 0" "dt_unchecked task' = dt_unchecked ?task2" "dw_tasks s' = flat_put t task' (dw_tasks s2)"
    using 2(1) [OF get steps(1) body steps(5) get2 fields(1,2) left2] by blast
  have "redirect_requests t i ((rid, o1) # rest) s = Some s'"
    using get steps(1) body rest(1) by (simp only: redirect_requests.simps bind.bind_lunit)
  then show ?case using rest fields(3) steps(7) by (intro exI [of _ s'] exI [of _ task']) simp
qed

section \<open>The tasks of the queue\<close>

definition clean :: "downloads \<Rightarrow> bool" where
  "clean s \<longleftrightarrow> (\<forall>t task. flat_get (dw_tasks s) t = Some task \<longrightarrow> dt_unchecked task = [] \<and> dt_hashes_request task = 0)"

definition moved :: "nat \<Rightarrow> nat \<Rightarrow> downloads \<Rightarrow> bool" where
  "moved i t s \<longleftrightarrow> (\<forall>task. flat_get (dw_tasks s) t = Some task \<longrightarrow> left_in i [] task)"

definition task_in :: "int \<Rightarrow> nat \<Rightarrow> downloads \<Rightarrow> bool" where
  "task_in dc t s \<longleftrightarrow> (\<exists>task. flat_get (dw_tasks s) t = Some task \<and> dt_dc task = dc)"

lemma sent_in_session_left: "flat_map_ok (dt_sent task) \<Longrightarrow> left_in i (sent_in_session i task) task"
proof -
  assume ok: "flat_map_ok (dt_sent task)"
  have keys: "map fst (sent_in_session i task) = map fst (filter (\<lambda>(rid, r). rd_session r = i) (dt_sent task))"
    by (simp add: sent_in_session_def comp_def case_prod_beta)
  have "distinct (map fst (dt_sent task))" using ok by (simp add: flat_ok_sorted_distinct)
  then have "distinct (map fst (sent_in_session i task))" unfolding keys by (rule distinct_map_filter)
  moreover have "rid \<in> fst ` set (sent_in_session i task)" if "(rid, r) \<in> set (dt_sent task)" "rd_session r = i" for rid r
    using that by (force simp: sent_in_session_def)
  ultimately show ?thesis using ok by (auto simp: left_in_def flat_get_iff sent_in_session_def)
qed

lemma task_remove_session_defined:
  assumes moving: "moving dc i s0 s" and clean: "clean s" and task: "task_in dc t s"
  shows "\<exists>s'. task_remove_session i t s = Some s' \<and> moving dc i s0 s' \<and> clean s' \<and> moved i t s'
    \<and> (\<forall>u. u \<noteq> t \<longrightarrow> flat_get (dw_tasks s') u = flat_get (dw_tasks s) u) \<and> task_in dc t s'"
proof -
  obtain task where get: "flat_get (dw_tasks s) t = Some task" and dc: "dt_dc task = dc" using task by (auto simp: task_in_def)
  have idle: "dt_unchecked task = []" "dt_hashes_request task = 0" using clean get by (auto simp: clean_def)
  have inv: "downloads_inv (reserve_extra dc i) s" using moving by (simp add: moving_def)
  have same: "set_task t (task\<lparr> dt_unchecked := [] \<rparr>) s = s"
  proof -
    have "task\<lparr> dt_unchecked := [] \<rparr> = task" using idle(1) by simp
    moreover have "flat_map_ok (dw_tasks s)" using inv by (simp add: inv_defs)
    ultimately show ?thesis using flat_put_get [OF _ get] by (simp add: set_task_def)
  qed
  have "flat_map_ok (dt_sent task)" using inv_task_ok [OF inv get] by (simp add: task_ok_def)
  from redirect_requests_defined [OF moving get dc idle(2) sent_in_session_left [OF this]]
  obtain s' task' where s': "redirect_requests t i (sent_in_session i task) s = Some s'" "moving dc i s0 s'" "left_in i [] task'"
      "dt_dc task' = dc" "dt_hashes_request task' = 0" "dt_unchecked task' = dt_unchecked task"
      "dw_tasks s' = flat_put t task' (dw_tasks s)" by blast
  have "task_remove_session i t s = Some s'" using get idle(1) s'(1) by (simp add: task_remove_session_def same)
  then show ?thesis using s' idle clean
    by (intro exI [of _ s']) (simp add: clean_def moved_def task_in_def)
qed

lemma queue_remove_session_defined:
  assumes "moving dc i s0 s" and "clean s" and "\<And>t. t \<in> fst ` set q \<Longrightarrow> task_in dc t s"
  shows "\<exists>s'. queue_remove_session i q s = Some s' \<and> moving dc i s0 s'
    \<and> (\<forall>t. t \<in> fst ` set q \<or> moved i t s \<longrightarrow> moved i t s')
    \<and> (\<forall>t. t \<notin> fst ` set q \<longrightarrow> flat_get (dw_tasks s') t = flat_get (dw_tasks s) t)"
  using assms
proof (induction i q s rule: queue_remove_session.induct)
  case (2 i t p q s)
  have "task_in dc t s" by (rule 2(4)) simp
  from task_remove_session_defined [OF 2(2,3) this]
  obtain s1 where s1: "task_remove_session i t s = Some s1" "moving dc i s0 s1" "clean s1" "moved i t s1"
      "\<forall>u. u \<noteq> t \<longrightarrow> flat_get (dw_tasks s1) u = flat_get (dw_tasks s) u" "task_in dc t s1" by blast
  have "task_in dc u s1" if "u \<in> fst ` set q" for u
    using 2(4) [of u] that s1(5,6) by (cases "u = t") (auto simp: task_in_def)
  from 2(1) [OF s1(1,2,3) this] obtain s' where s': "queue_remove_session i q s1 = Some s'" "moving dc i s0 s'"
      "\<forall>u. u \<in> fst ` set q \<or> moved i u s1 \<longrightarrow> moved i u s'"
      "\<forall>u. u \<notin> fst ` set q \<longrightarrow> flat_get (dw_tasks s') u = flat_get (dw_tasks s1) u" by blast
  have "moved i u s1" if "u = t \<or> moved i u s" for u
    using that s1(4,5) by (cases "u = t") (auto simp: moved_def)
  then have "\<forall>u. u \<in> fst ` set ((t, p) # q) \<or> moved i u s \<longrightarrow> moved i u s'" using s'(3) by auto
  moreover have "\<forall>u. u \<notin> fst ` set ((t, p) # q) \<longrightarrow> flat_get (dw_tasks s') u = flat_get (dw_tasks s) u" using s'(4) s1(5) by auto
  ultimately show ?case using s1(1) s'(1,2) by simp
qed simp

section \<open>The session\<close>

lemma moving_start:
  assumes sound: "sound s" and b: "flat_get (dw_balance s) dc = Some b" and len: "length (db_sessions b) = Suc i" "1 \<le> i"
    and calm: "\<forall>x \<in> set (db_sessions b). sb_successes x = 0"
  shows "moving dc i s (set_queue dc (queue_of dc s) (set_balance dc (reserve_session i (note_session_removed (int i) b)) s))"
proof -
  let ?b = "reserve_session i (note_session_removed (int i) b)"
  let ?s = "set_queue dc (queue_of dc s) (set_balance dc ?b s)"
  have spare: "spare_inv s" and inv: "downloads_inv no_extra s" using sound by (simp_all add: sound_def)
  have sessions: "db_sessions b = take i (db_sessions b) @ [db_sessions b ! i]" using len(1) by (metis lessI order_refl take_Suc_conv_app_nth take_all)
  have "sum_list (map capped (db_sessions b)) \<le> redirect_reserve" using spare_balance_at [OF spare b] by (simp add: spare_balance_def)
  then have "sum_list (map capped (take i (db_sessions b))) + capped (db_sessions b ! i) \<le> redirect_reserve"
    by (subst (asm) sessions) simp
  then have "sum_list (map capped (take i (db_sessions ?b))) + sb_requested (db_sessions ?b ! i) \<le> 2 * redirect_reserve"
    using len by (simp add: reserve_session_def add_requested_def capped_def)
  moreover have "\<forall>x \<in> set (db_sessions ?b). sb_successes x = 0"
    using calm len by (auto simp: reserve_session_def add_requested_def dest!: in_list_update)
  ultimately have "moving_balance i ?b" using len by (simp add: moving_balance_def reserve_session_def)
  moreover have "downloads_inv (reserve_extra dc i) ?s" by (rule session_reserve_inv [OF inv b]) (use len in simp)
  moreover have "timely ?s" using spare_at(1) [OF spare] unfolding timely_def by (simp add: set_queue_def)
  ultimately show ?thesis using len by (simp add: moving_def same_elsewhere_def set_queue_def)
qed

lemma moving_end:
  assumes sound: "sound s" and moving: "moving dc i s s1" and b: "flat_get (dw_balance s1) dc = Some b"
    and empty: "sb_requested (db_sessions b ! i) = redirect_reserve"
  shows "spare_inv (set_balance dc (b\<lparr> db_sessions := butlast (db_sessions b), db_last_remove := dw_now s1 \<rparr>) s1)"
proof -
  let ?b = "b\<lparr> db_sessions := butlast (db_sessions b), db_last_remove := dw_now s1 \<rparr>"
  have spare: "spare_inv s" using sound by (simp add: sound_def)
  have timely: "timely s1" and elsewhere: "same_elsewhere dc s s1" and mb: "moving_balance i b" using moving b by (auto simp: moving_def)
  have "butlast (db_sessions b) = take i (db_sessions b)" using mb by (simp add: moving_balance_def butlast_conv_take)
  then have "spare_balance ?b" using mb empty by (auto simp: spare_balance_def moving_balance_def dest!: in_set_takeD)
  moreover have "spare_balance c" if "flat_get (dw_balance s1) d = Some c" "d \<noteq> dc" for d c
    using spare_balance_at [OF spare] elsewhere that by (simp add: same_elsewhere_def)
  moreover have "rd_sent r \<le> dw_now s1 \<and> (\<forall>c. flat_get (flat_put dc ?b (dw_balance s1)) (dt_dc task) = Some c \<longrightarrow> spare_request c r)"
    if get: "flat_get (dw_tasks s1) t = Some task" and r: "(rid, r) \<in> set (dt_sent task)" for t task rid r
  proof (cases "dt_dc task = dc")
    case True
    have "rd_sent r \<le> dw_now s1" using timely get r unfolding timely_def by blast
    then show ?thesis using True by (auto simp: spare_request_def)
  next
    case False
    then have "flat_get (dw_tasks s) t = Some task" using elsewhere get by (auto simp: same_elsewhere_def)
    from spare_at [OF spare this r] show ?thesis using False elsewhere by (simp add: same_elsewhere_def)
  qed
  ultimately show ?thesis by (auto simp: spare_inv_def spare_task_def split: if_split_asm)
qed

lemma remove_session_defined:
  assumes sound: "sound s" and plain: "plain_inv s" and long: "length (db_sessions (balance_of dc s)) > start_sessions_count"
    and calm: "\<forall>x \<in> set (db_sessions (balance_of dc s)). sb_successes x = 0"
  shows "\<exists>s'. remove_session dc s = Some s' \<and> sound s'"
proof -
  have inv: "downloads_inv no_extra s" using sound by (simp add: sound_def)
  define i where "i = length (db_sessions (balance_of dc s)) - 1"
  obtain b where b: "flat_get (dw_balance s) dc = Some b" "balance_of dc s = b"
    using long by (auto simp: balance_of_def new_dc_balance_def split: option.splits)
  have len: "length (db_sessions b) = Suc i" "1 \<le> i" using long b by (simp_all add: i_def start_sessions_count_def)
  define s0 where "s0 = set_queue dc (queue_of dc s) (set_balance dc (reserve_session i (note_session_removed (int i) b)) s)"
  have tasks0: "dw_tasks s0 = dw_tasks s" by (simp add: s0_def set_queue_def)
  have moving: "moving dc i s s0" unfolding s0_def by (rule moving_start [OF sound b(1) len]) (use calm b in simp)
  have clean: "clean s0" using plain_at [OF plain] by (simp add: clean_def tasks0 plain_task_def)
  have members: "task_in dc t s0" if "t \<in> fst ` set (queue_of dc s)" for t
    using that queue_of_ok(2) [OF inv] by (force simp: task_in_def tasks0)
  obtain s1 where s1: "queue_remove_session i (queue_of dc s) s0 = Some s1" "moving dc i s s1"
      "\<forall>t. t \<in> fst ` set (queue_of dc s) \<or> moved i t s0 \<longrightarrow> moved i t s1"
      "\<forall>t. t \<notin> fst ` set (queue_of dc s) \<longrightarrow> flat_get (dw_tasks s1) t = flat_get (dw_tasks s0) t"
    using queue_remove_session_defined [OF moving clean members] by blast
  have inv1: "downloads_inv (reserve_extra dc i) s1" using s1(2) by (simp add: moving_def)
  have ok1: "flat_map_ok (dw_tasks s1)" using inv1 by (simp add: inv_defs)
  have "rd_session r \<noteq> i"
    if get: "flat_get (dw_tasks s1) t = Some task" "dt_dc task = dc" "(rid, r) \<in> set (dt_sent task)" for t task rid r
  proof (cases "t \<in> fst ` set (queue_of dc s)")
    case True
    then have "left_in i [] task" using s1(3) get(1) by (auto simp: moved_def)
    then show ?thesis using sent_task_inv [OF inv1 get(1,3)] by (auto simp: left_in_def)
  next
    case False
    then have "flat_get (dw_tasks s) t = Some task" using s1(4) get(1) by (simp add: tasks0)
    then show ?thesis using plain_at [OF plain] get(2,3) False by (fastforce simp: plain_task_def in_queue_def)
  qed
  then have none: "sent_count dc i (dw_tasks s1) = 0" by (rule sent_count_none [OF ok1])
  obtain b1 where b1: "flat_get (dw_balance s1) dc = Some b1" "moving_balance i b1" using s1(2) by (auto simp: moving_def)
  have "accounts_ok (reserve_extra dc i) (dw_balance s1) (dw_tasks s1)" using inv1 by (simp add: downloads_inv_def)
  from accounts_at(1) [OF this b1(1), of i] have empty: "sb_requested (db_sessions b1 ! i) = redirect_reserve"
    using b1(2) none by (simp add: reserve_extra_def moving_balance_def)
  have "last (db_sessions b1) = db_sessions b1 ! i"
    using b1(2) by (metis diff_Suc_1 last_conv_nth length_0_conv nat.distinct(1) moving_balance_def)
  then have "sb_requested (last (db_sessions (balance_of dc s1))) = redirect_reserve" using empty b1(1) by (simp add: balance_of_def)
  then have op: "remove_session dc s = Some (log_event (SessionKilled dc i)
      (set_balance dc (b1\<lparr> db_sessions := butlast (db_sessions b1), db_last_remove := dw_now s1 \<rparr>) s1))"
    using long s1(1) b b1(1) unfolding remove_session_def Let_def s0_def i_def by (simp add: balance_of_def)
  then show ?thesis
    using remove_session_keeps [OF op] inv moving_end [OF sound s1(2) b1(1) empty] by (simp add: sound_def)
qed

lemma sound_timeout:
  assumes sound: "sound s" and b: "flat_get (dw_balance s) dc = Some b" and n: "0 \<le> n" "n < remove_session_after_timeouts"
  shows "sound (set_balance dc (b\<lparr> db_sessions := map clear_successes (db_sessions b), db_timeouts := n \<rparr>) s)"
proof -
  let ?b = "b\<lparr> db_sessions := map clear_successes (db_sessions b), db_timeouts := n \<rparr>"
  have spare: "spare_inv s" and inv: "downloads_inv no_extra s" using sound by (simp_all add: sound_def)
  have acc: "accounts_ok no_extra (dw_balance s) (dw_tasks s)" using inv by (simp add: downloads_inv_def)
  have "balance_ok ?b" using accounts_at(4) [OF acc b] n by (auto simp: balance_ok_def)
  from accounts_ok_same [OF acc b this] have "downloads_inv no_extra (set_balance dc ?b s)"
    using inv by (simp add: downloads_inv_def kill_ok_def comp_def)
  moreover have "capped \<circ> clear_successes = capped" by (simp add: fun_eq_iff capped_def)
  then have "spare_balance ?b" using spare_balance_at [OF spare b] by (auto simp: spare_balance_def clear_successes_def)
  then have "spare_inv (set_balance dc ?b s)" by (intro spare_less [OF spare inv b, of _ ?b]) simp_all
  ultimately show ?thesis by (simp add: sound_def)
qed

lemma session_timed_out_defined:
  assumes sound: "sound s" and plain: "plain_inv s"
  shows "\<exists>s'. session_timed_out dc i s = Some s' \<and> sound s'"
proof (cases "flat_get (dw_balance s) dc")
  case (Some b)
  define c where "c n = b\<lparr> db_sessions := map clear_successes (db_sessions b), db_timeouts := n \<rparr>" for n
  have "accounts_ok no_extra (dw_balance s) (dw_tasks s)" using sound by (simp add: sound_def downloads_inv_def)
  then have ok: "balance_ok b" using Some by (auto dest: accounts_at(4))
  have sound_c: "sound (set_balance dc (c n) s)" if "0 \<le> n" "n < remove_session_after_timeouts" for n
    unfolding c_def by (rule sound_timeout [OF sound Some that])
  have same: "b\<lparr> db_sessions := map clear_successes (db_sessions b) \<rparr> = c (db_timeouts b)" by (simp add: c_def)
  have removed: "\<exists>s'. remove_session dc (set_balance dc (c 0) s) = Some s' \<and> sound s'"
    if "length (db_sessions b) \<noteq> start_sessions_count"
  proof (rule remove_session_defined)
    show "length (db_sessions (balance_of dc (set_balance dc (c 0) s))) > start_sessions_count"
      using ok that by (simp add: balance_of_def c_def balance_ok_def)
  qed (use sound_c [of 0] plain in \<open>auto simp: balance_of_def c_def clear_successes_def remove_session_after_timeouts_def\<close>)
  have timeouts: "0 \<le> db_timeouts b" "db_timeouts b < remove_session_after_timeouts" using ok by (simp_all add: balance_ok_def)
  have "session_timed_out dc i s = (if length (db_sessions b) \<le> i then Some s
      else if length (db_sessions b) = start_sessions_count then Some (set_balance dc (c (db_timeouts b)) s)
      else if db_timeouts b + 1 < remove_session_after_timeouts then Some (set_balance dc (c (db_timeouts b + 1)) s)
      else remove_session dc (set_balance dc (c 0) s))"
    using Some by (simp add: session_timed_out_def Let_def c_def)
  then show ?thesis using sound removed sound_c timeouts by simp
qed (use sound in \<open>simp add: session_timed_out_def\<close>)

end
