(* ===== verification/Download_Plain_Defined.thy ===== *)
theory Download_Plain_Defined
  imports Download_Plain_Sessions
begin

text \<open>
  The calls that may fail an assertion in a run with content servers do not fail one in a run without
  them: the bytes for a preloader, the start of a preloader, the answer of the cache and the new
  generation of priorities.
\<close>

section \<open>The bytes for a preloader\<close>

lemma preload_feed_part_defined:
  assumes both: "both_inv s" and plain: "plain_inv s" and get: "flat_get (dw_tasks s) t = Some task" "dt_loader task = Preload p"
    and asks: "o1 \<in> set (vp_requested p)" and short: "int (length part) \<le> download_part_size"
  shows "preload_feed_part t o1 part p s \<noteq> None"
proof -
  have inv: "pending_inv s" using both by (simp add: both_inv_def)
  have ok: "preload_ok p" using pending_at [OF inv get(1)] get(2) by (simp add: pending_ok_def)
  then have "o1 < preload_parts_size p" using plain_preload [OF plain get] asks by (auto simp: preload_ok_def preload_sized_def)
  then have "preload_feed o1 part p \<noteq> None" using asks short by (simp add: preload_feed_def Let_def del: not_None_eq)
  then obtain finished p1 where feed: "preload_feed o1 part p = Some (finished, p1)" by auto
  then have "preload_ok p1" "vp_next p1 = vp_next p"
    using ok by (auto simp: preload_feed_def Let_def preload_ok_def set_flat_remove split: if_split_asm)
  then have "pending_inv (set_loader t (Preload p1) s)"
    by (intro set_loader_pends [OF inv] pending_ok_loader) (use get in simp_all)
  then have both1: "both_inv (set_loader t (Preload p1) s)" by (rule both_set_loader [OF both])
  have "flat_get (dw_tasks (set_loader t (Preload p1) s)) t = Some (task\<lparr> dt_loader := Preload p1 \<rparr>)" using get by simp
  from remove_task_defined [OF both1 this] show ?thesis using feed
    by (cases finished) (auto simp: preload_feed_part_def Let_def)
qed

text \<open>The answers of the network with bytes, for every loader.\<close>

lemma normal_bytes_defined:
  assumes both: "both_inv s" and plain: "plain_inv s" and get: "flat_get (dw_tasks s) t = Some task"
    and sent: "flat_get (dt_sent task) rid = Some r"
    and short: "preloads (dt_loader task) \<Longrightarrow> int (length part) \<le> download_part_size"
  shows "normal_part_loaded env t rid (FileBytes part) s \<noteq> None"
proof (cases "dt_loader task")
  case (Preload p)
  obtain s1 where s1: "finish_sent_request t rid FinishSuccess s = Some (r, s1)" "both_inv s1"
      "flat_get (dw_tasks s1) t = Some (drop_sent rid r task)"
    using finish_both [OF both get sent] by blast
  note plain1 = finish_sent_request_plain [OF s1(1) plain]
  have loader: "dt_loader (drop_sent rid r task) = Preload p" using Preload by simp
  have "rd_offset r \<in> set (vp_requested p)" using plain1(2) s1(3) loader by (simp add: may_ask_def)
  from preload_feed_part_defined [OF s1(2) plain1(1) s1(3) loader this] short Preload
  have "part_loaded env t (rd_offset r) part s1 \<noteq> None" using s1(3) loader by (simp add: part_loaded_def feed_part_def)
  then obtain s2 where s2: "part_loaded env t (rd_offset r) part s1 = Some s2" by blast
  have "both_inv s2"
    using s1(2) part_loaded_keeps [OF s2] part_loaded_pends [OF _ s2] by (simp add: both_inv_def)
  then show ?thesis using check_after_success_defined get s1(1) s2 by (simp add: normal_part_loaded_def del: not_None_eq)
qed (rule normal_part_defined [OF both get sent], simp)+

section \<open>The start of a preloader\<close>

lemma preload_start_defined:
  assumes both: "both_inv s" and at: "loader_at t s = Some (Preload p)" and size: "0 < prefix" "prefix \<le> n"
  shows "preload_start t prefix n s \<noteq> None"
proof -
  obtain task where get: "flat_get (dw_tasks s) t = Some task" "dt_loader task = Preload p" using at by (auto simp: loader_at_Some)
  obtain p1 where p1: "preload_load prefix n p = Some p1" using size by (simp add: preload_load_def)
  then have same: "vp_next p1 = vp_next p" "vp_requested p1 = vp_requested p" by (auto simp: preload_load_def split: if_split_asm)
  have inv: "pending_inv s" using both by (simp add: both_inv_def)
  have "preload_ok p" using pending_at [OF inv get(1)] get(2) by (simp add: pending_ok_def)
  then have "pending_inv (set_loader t (Preload p1) s)"
    by (intro set_loader_pends [OF inv] pending_ok_loader) (use get same in \<open>simp_all add: preload_ok_def\<close>)
  then have "both_inv (set_loader t (Preload p1) s)" by (rule both_set_loader [OF both])
  then have "enqueue_task t 0 (set_loader t (Preload p1) s) \<noteq> None" by (rule enqueue_task_defined) (use at in simp, simp)
  then show ?thesis using get p1 by (simp add: preload_start_def)
qed

section \<open>The answer of the cache\<close>

lemma start_with_partial_defined:
  assumes both: "both_inv s" and at: "loader_at t s = Some (FileLoad l)" and l: "\<not> file_waiting l" "\<not> fl_finished l"
    and idle: "\<And>task. flat_get (dw_tasks s) t = Some task \<Longrightarrow> dt_sent task = [] \<and> dt_unchecked task = []"
    and stored: "take 8 stored = partial_prefix"
  shows "start_with_partial env t stored s \<noteq> None"
proof -
  define used where "used = (int (length stored) - 8) div download_part_size * download_part_size"
  define l1 where "l1 = l\<lparr> fl_next_offset := used \<rparr>"
  define s0 where "s0 = set_loader t (FileLoad l1) s"
  have inv: "pending_inv s" using both by (simp add: both_inv_def)
  have l1: "file_ok l1" "\<not> file_waiting l1" "\<not> fl_finished l1"
    using pending_file_at(1) [OF inv at] l by (simp_all add: l1_def file_ok_def file_waiting_def)
  have "pending_inv s0"
    unfolding s0_def by (intro set_loader_pends [OF inv] pending_ok_idle_loader) (use idle l1 in auto)
  then have both0: "both_inv s0" using both_set_loader [OF both] by (simp add: s0_def)
  obtain task where get: "flat_get (dw_tasks s) t = Some task" using at by (auto simp: loader_at_Some)
  have get0: "flat_get (dw_tasks s0) t = Some (task\<lparr> dt_loader := FileLoad l1 \<rparr>)" using get by (simp add: s0_def)
  let ?part = "take (nat used) (drop 8 stored)"
  obtain ok s1 where written: "file_feed_part env t 0 ?part l1 s0 = Some (ok, s1)"
    using file_feed_part_defined [OF both0 get0 _ l1(3), of env 0 ?part] by auto
  have feed: "feed_part env t 0 ?part s0 = Some (ok, s1)" using written get0 by (simp add: feed_part_def)
  have "loader_at t s0 = Some (FileLoad l1)" using at by (simp add: s0_def)
  from file_feed_part_loader [OF written this] obtain l2 where l2: "loader_at t s1 = Some (FileLoad l2)" "fl_status l2 = fl_status l1" by blast
  have both1: "both_inv s1" using both0 feed_part_keeps [OF feed] feed_part_pends [OF _ feed] by (simp add: both_inv_def)
  have fed: "enqueue_task t 0 s1 \<noteq> None"
    by (rule enqueue_task_defined [OF both1 l2(1)]) (use l1(2) l2(2) in \<open>simp add: file_waiting_def\<close>)
  have direct: "enqueue_task t 0 s \<noteq> None" by (rule enqueue_task_defined [OF both at]) (use l in simp)
  have "file_of t s = Some l" using at by (simp add: file_of_Some)
  then show ?thesis
    using stored fed direct feed unfolding s0_def l1_def used_def by (simp add: start_with_partial_def Let_def del: not_None_eq)
qed

lemma finish_with_bytes_defined:
  "both_inv s \<Longrightarrow> flat_get (dw_tasks s) t = Some task \<Longrightarrow> finish_with_bytes env t stored l s \<noteq> None"
  using file_cancel_defined [of s t task]
  by (auto simp: finish_with_bytes_def simp del: not_None_eq split: prod.split bool.split)

lemma local_loaded_defined:
  assumes both: "both_inv s" and at: "loader_at t s = Some (FileLoad l0)" and l0: "fl_local_loading l0" "\<not> fl_finished l0"
  shows "local_loaded env t stored s \<noteq> None"
proof -
  have inv: "pending_inv s" using both by (simp add: both_inv_def)
  have wait: "file_waiting l0" using l0 pending_file_at(1) [OF inv at] by (simp add: file_ok_def file_waiting_def)
  then have queued: "\<not> queued_in (dw_queues s) t" using pending_file_at(2) [OF inv at] by blast
  have idle: "dt_sent task = [] \<and> dt_unchecked task = []" if "flat_get (dw_tasks s) t = Some task" for task
    using pending_file(3) [OF inv that] at that wait by (simp add: loader_at_def)
  have fresh: "both_inv (set_loader t (FileLoad l) s)" if "file_ok l" for l
    by (intro both_set_loader [OF both] set_loader_pends [OF inv] pending_ok_idle_loader) (use idle that queued in auto)
  define l where "l = l0\<lparr> fl_local_loading := False \<rparr>"
  define l1 where "l1 = l\<lparr> fl_status := LocalNotFound \<rparr>"
  define s1 where "s1 = set_loader t (FileLoad l1) s"
  have both1: "both_inv s1" unfolding s1_def by (rule fresh) (simp add: file_ok_def l1_def l_def)
  have at1: "loader_at t s1 = Some (FileLoad l1)" using at by (simp add: s1_def)
  obtain task where get: "flat_get (dw_tasks s) t = Some task" using at by (auto simp: loader_at_Some)
  then have get1: "flat_get (dw_tasks s1) t = Some (task\<lparr> dt_loader := FileLoad l1 \<rparr>)" by (simp add: s1_def)
  have partial: "file_open_and env t l1 (start_with_partial env t stored) s1 \<noteq> None" if "take 8 stored = partial_prefix"
  proof (cases "check_for_open (de_disk env) l1")
    case None
    then show ?thesis using file_cancel_defined [OF both1 get1] by (simp add: file_open_and_def del: not_None_eq)
  next
    case (Some l2)
    have l2: "file_ok l2" "\<not> file_waiting l2" "\<not> fl_finished l2"
      using check_for_open_fields [OF Some] l0 by (simp_all add: file_ok_def file_waiting_def l1_def l_def)
    let ?s2 = "set_loader t (FileLoad l2) s1"
    have "set_loader t (FileLoad l2) s1 = set_loader t (FileLoad l2) s" using get by (simp add: s1_def set_loader_def set_task_def)
    then have both2: "both_inv ?s2" using fresh [OF l2(1)] by simp
    have "start_with_partial env t stored ?s2 \<noteq> None"
      by (rule start_with_partial_defined [OF both2 _ l2(2,3) _ that]) (use at1 get1 idle [OF get] in auto)
    then show ?thesis using Some by (simp add: file_open_and_def)
  qed
  have "both_inv (set_loader t (FileLoad l) s)" by (rule fresh) (simp add: file_ok_def l_def)
  then have bytes: "finish_with_bytes env t bs l (set_loader t (FileLoad l) s) \<noteq> None" for bs
    by (rule finish_with_bytes_defined [where task = "task\<lparr> dt_loader := FileLoad l \<rparr>"]) (use get in simp)
  have start: "file_start env t s1 \<noteq> None" by (rule file_start_defined [OF both1 at1])
  have "file_of t s = Some l0" using at by (simp add: file_of_Some)
  then show ?thesis using partial bytes start unfolding local_loaded_def Let_def l_def s1_def l1_def
    by (simp del: not_None_eq)
qed

section \<open>The generation of priorities\<close>

lemma reset_generation_plain_defined:
  assumes "downloads_inv no_extra s" and plain: "plain_inv s"
  shows "reset_generation s \<noteq> None"
proof (rule reset_generation_defined [OF assms(1)])
  have ok: "flat_map_ok (dw_queues s)" using assms(1) by (simp add: inv_defs)
  have "priorities_known q" if "(dc, q) \<in> set (dw_queues s)" for dc q
  proof -
    have "queue_of dc s = q" using that ok by (simp add: queue_of_def flat_get_iff [symmetric])
    then show ?thesis using plain by (auto simp: plain_inv_def)
  qed
  then show "list_all (\<lambda>(dc, q). priorities_known q) (dw_queues s)" by (auto simp: list_all_iff)
qed

end
