(* ===== verification/Download_Plain_Run.thy ===== *)
theory Download_Plain_Run
  imports Download_Plain_Defined
begin

text \<open>
  The runs without content servers.  A call is \<open>plain\<close> when the outside may make it: the task is there and
  has the loader that the call is for, the network answers requests in flight, the part for a preloader is
  not longer than what was asked for, the cache answers a loader that waits for it, timers go off when they
  are set.  Redirections to content servers are not among the calls.
\<close>

fun plain_call :: "downloads \<Rightarrow> download_input \<Rightarrow> bool" where
  "plain_call s (TimePasses d) = True"
| "plain_call s (NewTask t dc location l) = (flat_get (dw_tasks s) t = None \<and> fresh_loader l)"
| "plain_call s (DestroyTask t) = has_task t s"
| "plain_call s (StreamLoad t o1 loaded) = (streaming_of t s \<noteq> None)"
| "plain_call s (StreamCancel t o1) = (streaming_of t s \<noteq> None)"
| "plain_call s (StreamStop t) = (streaming_of t s \<noteq> None)"
| "plain_call s (StreamTryRemove t) = (streaming_of t s \<noteq> None)"
| "plain_call s (StreamPriority t p) = (streaming_of t s \<noteq> None \<and> -1 \<le> p)"
| "plain_call s (StreamResetPriorities t) = (streaming_of t s \<noteq> None)"
| "plain_call s (StatsTimer t) = (streaming_of t s \<noteq> None)"
| "plain_call s (FileStart t) = (file_of t s \<noteq> None)"
| "plain_call s (FileCancel t) = (file_of t s \<noteq> None)"
| "plain_call s (LocalLoaded t stored) =
     (case file_of t s of None \<Rightarrow> False | Some l \<Rightarrow> fl_local_loading l \<and> \<not> fl_finished l)"
| "plain_call s (PreloadStart t prefix n) = (has_preloader t s \<and> 0 < prefix \<and> prefix \<le> n)"
| "plain_call s (NormalPart t rid (FileBytes part)) =
     (in_flight t rid s \<and> (has_preloader t s \<longrightarrow> int (length part) \<le> download_part_size))"
| "plain_call s (WebPart t rid n part) = in_flight t rid s"
| "plain_call s (NormalFailed t rid reference e) = has_task t s"
| "plain_call s (WebFailed t e) = has_task t s"
| "plain_call s (ReferenceRefreshed t updated rid current) = has_task t s"
| "plain_call s ResetTimer = (dw_reset_timer s \<noteq> None)"
| "plain_call s KillTimer = (dw_kill_timer s \<noteq> None)"
| "plain_call s (SessionRestarted dc i) = True"
| "plain_call s RunDeferred = True"
| "plain_call s _ = False"

inductive plain_reach :: "downloads \<Rightarrow> bool" where
  plain_start: "plain_reach (initial_downloads now)"
| plain_step: "plain_reach s \<Longrightarrow> plain_call s input \<Longrightarrow> download_step env input s = Some s' \<Longrightarrow> plain_reach s'"

inductive_cases plain_reachE: "plain_reach s"

section \<open>Every call returns\<close>

definition plain_state :: "downloads \<Rightarrow> bool" where
  "plain_state s \<longleftrightarrow> both_inv s \<and> plain_inv s \<and> spare_inv s"

lemma plain_state_sound: "plain_state s \<Longrightarrow> both_inv s \<and> plain_inv s \<and> sound s \<and> downloads_inv no_extra s"
  by (simp add: plain_state_def both_inv_def sound_def)

lemma plain_call_possible: "plain_call s input \<Longrightarrow> input_possible s input"
  by (cases "(s, input)" rule: plain_call.cases) (auto simp: input_possible_def split: option.split_asm)

lemma run_deferred_defined:
  assumes sound: "sound s" and plain: "plain_inv s"
  shows "\<exists>s'. run_deferred s = Some s' \<and> sound s'"
proof (cases "dw_deferred s")
  case (Cons c rest)
  have "sound (s\<lparr> dw_deferred := rest \<rparr>)" "plain_inv (s\<lparr> dw_deferred := rest \<rparr>)" using sound plain by simp_all
  then show ?thesis using session_timed_out_defined request_more_hashes_plain Cons
    by (cases c) (simp_all add: run_deferred_def)
qed (use sound in \<open>simp add: run_deferred_def\<close>)

lemma plain_call_defined:
  assumes state: "plain_state s" and call: "plain_call s input"
  shows "download_step env input s \<noteq> None"
proof (cases "(s, input)" rule: plain_call.cases)
  case (3 s0 t)
  then show ?thesis using call destroy_task_defined plain_state_sound [OF state] by (auto simp: has_task_def)
next
  case (11 s0 t)
  then show ?thesis using call file_start_defined plain_state_sound [OF state] by (auto simp: file_of_Some)
next
  case (12 s0 t)
  then obtain l where "loader_at t s = Some (FileLoad l)" using call by (auto simp: file_of_Some)
  then obtain task where "flat_get (dw_tasks s) t = Some task" "file_of t s = Some l" by (auto simp: file_of_Some loader_at_Some)
  then show ?thesis using 12 file_cancel_defined [of s t task NoFailure l] plain_state_sound [OF state]
    by (simp add: file_cancel_call_def)
next
  case (13 s0 t stored)
  then obtain l where "loader_at t s = Some (FileLoad l)" "fl_local_loading l" "\<not> fl_finished l"
    using call by (auto simp: file_of_Some split: option.split_asm)
  then show ?thesis using 13 local_loaded_defined plain_state_sound [OF state] by simp
next
  case (14 s0 t prefix n)
  then obtain task where task: "flat_get (dw_tasks s) t = Some task" "preloads (dt_loader task)" "0 < prefix" "prefix \<le> n"
    using call by (auto simp: has_preloader_def split: option.split_asm)
  then obtain p where "loader_at t s = Some (Preload p)" by (cases "dt_loader task") (auto simp: loader_at_Some)
  then show ?thesis using 14 task preload_start_defined plain_state_sound [OF state] by simp
next
  case (15 s0 t rid part)
  then obtain task r where task: "flat_get (dw_tasks s) t = Some task" "flat_get (dt_sent task) rid = Some r"
    using call by (auto simp: in_flight_iff)
  have "preloads (dt_loader task) \<Longrightarrow> int (length part) \<le> download_part_size"
    using call 15 task by (simp add: has_preloader_def)
  then show ?thesis using 15 normal_bytes_defined [OF _ _ task] plain_state_sound [OF state] by simp
next
  case (16 s0 t rid n part)
  then show ?thesis using call web_part_defined plain_state_sound [OF state] by (auto simp: in_flight_iff)
next
  case (17 s0 t rid reference e)
  then show ?thesis using call normal_part_failed_defined plain_state_sound [OF state] by (auto simp: has_task_def)
next
  case (18 s0 t e)
  then show ?thesis using call part_failed_defined plain_state_sound [OF state] by (auto simp: has_task_def)
next
  case (19 s0 t updated rid current)
  then show ?thesis using call refresh_file_reference_defined plain_state_sound [OF state] by (auto simp: has_task_def)
next
  case (20 s0)
  then show ?thesis using reset_generation_plain_defined plain_state_sound [OF state] by simp
next
  case (21 s0)
  have "downloads_inv no_extra (s\<lparr> dw_kill_timer := None \<rparr>)" using plain_state_sound [OF state] by simp
  then show ?thesis using 21 kill_sessions_defined by (simp del: inv_irrelevant not_None_eq)
next
  case (22 s0 dc i)
  then show ?thesis using session_timed_out_defined [of s dc i] plain_state_sound [OF state] by auto
next
  case (23 s0)
  then show ?thesis using run_deferred_defined [of s] plain_state_sound [OF state] by auto
qed (use call streaming_contract [of s] plain_state_sound [OF state] in \<open>simp_all del: not_None_eq\<close>)

section \<open>Every call keeps the invariants\<close>

lemma plain_call_plain:
  assumes state: "plain_state s" and call: "plain_call s input" and step: "download_step env input s = Some s'"
  shows "plain_inv s'"
proof -
  have both: "both_inv s" and inv: "plain_inv s" and dinv: "downloads_inv no_extra s" using plain_state_sound [OF state] by simp_all
  show ?thesis
  proof (cases "(s, input)" rule: plain_call.cases)
    case (1 s0 d)
    then show ?thesis using step inv by auto
  next
    case (2 s0 t dc location l)
    then show ?thesis using step call new_task_plain [OF inv] by auto
  next
    case (8 s0 t p)
    then show ?thesis using step call streaming_set_priority_plain [OF _ inv dinv] by simp
  next
    case (15 s0 t rid part)
    then show ?thesis using step normal_part_loaded_plain [OF _ inv both] by simp
  next
    case (16 s0 t rid n part)
    then show ?thesis using step web_part_loaded_plain [OF _ inv both] by simp
  next
    case (21 s0)
    then show ?thesis using step kill_sessions_plain [of "s\<lparr> dw_kill_timer := None \<rparr>"] inv by simp
  qed (use step call inv dinv destroy_task_plain streaming_load_plain streaming_cancel_offset_plain streaming_stop_plain
      streaming_try_remove_plain streaming_reset_priorities_plain streaming_stats_timer_plain file_start_plain
      file_cancel_call_plain local_loaded_plain preload_start_plain normal_part_failed_plain part_failed_plain
      refresh_file_reference_plain reset_generation_plain session_timed_out_plain run_deferred_plain in simp_all)
qed

lemma plain_call_sound:
  assumes state: "plain_state s" and call: "plain_call s input" and step: "download_step env input s = Some s'"
  shows "sound s'"
proof -
  have plain: "plain_inv s" and sound: "sound s" using plain_state_sound [OF state] by simp_all
  show ?thesis
  proof (cases "(s, input)" rule: plain_call.cases)
    case (1 s0 d)
    then show ?thesis using step time_passes_spare [OF sound] by auto
  next
    case (2 s0 t dc location l)
    then show ?thesis using step call new_task_spare [OF sound] by auto
  next
    case (21 s0)
    then show ?thesis using step kill_sessions_spare [of "s\<lparr> dw_kill_timer := None \<rparr>"] sound by simp
  next
    case (22 s0 dc i)
    then show ?thesis using step session_timed_out_defined [OF sound plain, of dc i] by auto
  next
    case (23 s0)
    then show ?thesis using step run_deferred_defined [OF sound plain] by auto
  qed (use step call sound in \<open>auto dest!: spares\<close>)
qed

lemma plain_call_keeps:
  assumes state: "plain_state s" and call: "plain_call s input" and step: "download_step env input s = Some s'"
  shows "plain_state s'"
proof -
  have "downloads_inv no_extra s" "pending_inv s" using state by (simp_all add: plain_state_def both_inv_def)
  note possible = plain_call_possible [OF call]
  have "both_inv s'"
    using download_step_inv [OF _ possible step] download_step_pends [OF _ _ possible step] state
    by (simp add: plain_state_def both_inv_def)
  then show ?thesis using plain_call_plain [OF assms] plain_call_sound [OF assms] by (simp add: plain_state_def sound_def)
qed

lemma plain_reach_state: "plain_reach s \<Longrightarrow> plain_state s"
proof (induction rule: plain_reach.induct)
  case (plain_start now)
  have "both_inv (initial_downloads now)" by (rule reach_both [OF reach_start])
  moreover have "plain_inv (initial_downloads now)"
    by (simp add: plain_inv_def initial_downloads_def queue_of_def queue_ok_simps priorities_known_def)
  moreover have "spare_inv (initial_downloads now)" by (simp add: spare_inv_def initial_downloads_def)
  ultimately show ?case by (simp add: plain_state_def)
next
  case (plain_step s input env s')
  then show ?case using plain_call_keeps by blast
qed

lemma plain_reach_reach: "plain_reach s \<Longrightarrow> download_reach s"
  by (induction rule: plain_reach.induct) (auto intro: reach_start reach_step plain_call_possible)

lemma spare_requested:
  assumes "spare_inv s" and "flat_get (dw_balance s) dc = Some b"
  shows "sum_list (map sb_requested (db_sessions b)) \<le> 128 * download_part_size"
proof -
  have "sum_list (map sb_requested (db_sessions b)) \<le> sum_list (map capped (db_sessions b))"
    by (rule sum_list_mono) (simp add: capped_def)
  also have "\<dots> \<le> redirect_reserve" using spare_balance_at [OF assms] by (simp add: spare_balance_def)
  finally show ?thesis by (simp add: redirect_reserve_def max_waited_in_session_def max_sessions_count_def)
qed

text \<open>Runs, to instantiate the theorem.\<close>

fun plain_run :: "download_env \<Rightarrow> download_input list \<Rightarrow> download_op" where
  "plain_run env [] s = Some s"
| "plain_run env (input # inputs) s =
     (if \<not> plain_call s input then None
      else (case download_step env input s of None \<Rightarrow> None | Some s1 \<Rightarrow> plain_run env inputs s1))"

lemma plain_run_reach: "plain_run env inputs s = Some s' \<Longrightarrow> plain_reach s \<Longrightarrow> plain_reach s'"
  by (induction env inputs s rule: plain_run.induct) (auto split: if_split_asm option.split_asm intro: plain_step)

end
