(* ===== verification/Download_Properties.thy ===== *)
theory Download_Properties
  imports Download_Hashes Download_Assembly Download_Plain_Run
begin

text \<open>
  The properties of the download manager and its loaders: the queue of tasks, the accounts of the
  sessions and their bounds, and the runs in which the code does not do what it means to.
\<close>

section \<open>A run to instantiate them\<close>

definition demo_env :: download_env where
  "demo_env = \<lparr> de_disk = \<lparr> dk_open = True, dk_write = True \<rparr>, de_sha256 = (\<lambda>bs. take 1 bs), de_aes_ctr = (\<lambda>_ _ bs. bs) \<rparr>"

fun download_run :: "download_env \<Rightarrow> download_input list \<Rightarrow> download_op" where
  "download_run env [] s = Some s"
| "download_run env (input # inputs) s =
     (if \<not> input_possible s input then None
      else (case download_step env input s of None \<Rightarrow> None | Some s1 \<Rightarrow> download_run env inputs s1))"

lemma download_run_reach: "download_run env inputs s = Some s' \<Longrightarrow> download_reach s \<Longrightarrow> download_reach s'"
  by (induction env inputs s rule: download_run.induct) (auto split: if_split_asm option.split_asm intro: reach_step)

definition demo_inputs :: "download_input list" where
  "demo_inputs = [NewTask 0 2 (StorageLocation []) (Streaming new_streaming),
     StreamLoad 0 0 [], StreamLoad 0 131072 [], NormalPart 0 1 (FileBytes [7])]"

definition demo_state :: downloads where
  "demo_state = the (download_run demo_env demo_inputs (initial_downloads 1))"

lemma demo_run: "download_run demo_env demo_inputs (initial_downloads 1) = Some demo_state
   \<and> map_option (\<lambda>b. map sb_requested (db_sessions b)) (flat_get (dw_balance demo_state) 2) = Some [131072]"
  unfolding demo_state_def by code_simp

lemma demo_reach: "download_reach demo_state"
  using download_run_reach [OF _ reach_start] demo_run by blast

definition demo_dc :: dc_balance where
  "demo_dc = the (flat_get (dw_balance demo_state) 2)"

lemma demo_balance: "flat_get (dw_balance demo_state) 2 = Some demo_dc" "map sb_requested (db_sessions demo_dc) = [131072]"
  using demo_run by (auto simp: demo_dc_def)

lemma length_flat_put_present:
  "flat_map_ok m \<Longrightarrow> flat_get m k \<noteq> None \<Longrightarrow> length (flat_put k v m) = length m"
proof (induction m)
  case (Cons e m)
  obtain k' v' where e: "e = (k', v')" by fastforce
  have "\<not> k < k'" using Cons.prems flat_get_keys [of "e # m" k] by (auto simp: e)
  then show ?case using Cons by (auto simp: e flat_get_Cons split: if_split_asm)
qed simp

section \<open>The accounts and the bounds of the sessions\<close>

text \<open>C5. In every reachable state, what the balance of a datacenter says a session has requested is the
  part size times the requests its tasks have in flight in that session, the total is the part size
  times all of them, no request is in a session that is gone, and a datacenter whose sessions are to be
  killed has no request in flight.\<close>

theorem download_accounts:
  assumes "download_reach s" and "flat_get (dw_balance s) dc = Some b"
  shows "(\<forall>i < length (db_sessions b).
            sb_requested (db_sessions b ! i) = download_part_size * sent_count dc i (dw_tasks s))
    \<and> db_total b = download_part_size * sent_total dc (dw_tasks s)
    \<and> (\<forall>t task rid r. flat_get (dw_tasks s) t = Some task \<and> dt_dc task = dc \<and> flat_get (dt_sent task) rid = Some r
          \<longrightarrow> rd_session r < length (db_sessions b))
    \<and> (flat_get (dw_kill_when s) dc \<noteq> None \<longrightarrow> sent_total dc (dw_tasks s) = 0)"
proof -
  have inv: "downloads_inv no_extra s" using assms(1) by (rule reach_inv)
  then have acc: "accounts_ok no_extra (dw_balance s) (dw_tasks s)" by (simp add: downloads_inv_def)
  have gone: "rd_session r < length (db_sessions b)"
    if "flat_get (dw_tasks s) t = Some task" "dt_dc task = dc" "flat_get (dt_sent task) rid = Some r" for t task rid r
  proof (rule ccontr)
    assume "\<not> rd_session r < length (db_sessions b)"
    then have "sent_count dc (rd_session r) (dw_tasks s) = 0" using accounts_at(2) [OF acc assms(2)] by (simp add: not_less)
    then show False using sent_count_member(1) [OF that(1,3)] that(2) by simp
  qed
  have "\<forall>t task rid r. flat_get (dw_tasks s) t = Some task \<and> dt_dc task = dc \<and> flat_get (dt_sent task) rid = Some r
      \<longrightarrow> rd_session r < length (db_sessions b)" using gone by blast
  moreover have "flat_get (dw_kill_when s) dc \<noteq> None \<longrightarrow> sent_total dc (dw_tasks s) = 0"
    using inv by (simp add: downloads_inv_def kill_ok_def)
  moreover have "\<forall>i < length (db_sessions b).
      sb_requested (db_sessions b ! i) = download_part_size * sent_count dc i (dw_tasks s)"
    using accounts_at(1) [OF acc assms(2)] by simp
  ultimately show ?thesis using accounts_at(3) [OF acc assms(2)] by blast
qed

theorem download_accounts_witness: "sent_count 2 0 (dw_tasks demo_state) = 1"
proof -
  obtain x where x: "db_sessions demo_dc = [x]" "sb_requested x = 131072"
    using demo_balance(2) by (auto simp: map_eq_Cons_conv)
  have "\<forall>i < length (db_sessions demo_dc).
      sb_requested (db_sessions demo_dc ! i) = download_part_size * sent_count 2 i (dw_tasks demo_state)"
    using download_accounts [OF demo_reach demo_balance(1)] by (rule conjunct1)
  then have "131072 = download_part_size * sent_count 2 0 (dw_tasks demo_state)" using x by simp
  then show ?thesis by (simp add: download_part_size_def)
qed

text \<open>C24. In every reachable state a datacenter has between one and eight sessions, each waits for at
  least four and at most sixteen parts, a whole number of them, and fewer than four timeouts are
  remembered.\<close>

theorem download_sessions_bounded:
  assumes "download_reach s" and "flat_get (dw_balance s) dc = Some b"
  shows "1 \<le> length (db_sessions b) \<and> length (db_sessions b) \<le> 8
    \<and> list_all (\<lambda>x. 4 * download_part_size \<le> sb_max_waited x \<and> sb_max_waited x \<le> 16 * download_part_size
          \<and> download_part_size dvd sb_max_waited x \<and> 0 \<le> sb_successes x \<and> sb_successes x \<le> 192) (db_sessions b)
    \<and> 0 \<le> db_timeouts b \<and> db_timeouts b < 4"
proof -
  have "balance_ok b"
    using reach_inv [OF assms(1)] assms(2) accounts_at(4) by (auto simp: downloads_inv_def)
  then show ?thesis
    by (auto simp: balance_ok_def session_ok_def list_all_iff start_sessions_count_def max_sessions_count_def
        start_waited_in_session_def max_waited_in_session_def max_tracked_successes_def retry_add_session_successes_def
        max_tracked_session_removes_def remove_session_after_timeouts_def)
qed

theorem download_sessions_bounded_witness: "length (db_sessions demo_dc) \<le> 8"
  using download_sessions_bounded [OF demo_reach demo_balance(1)] by (elim conjE)

section \<open>Sending\<close>

text \<open>C7. From every reachable state the loop that sends parts ends: it returns after at most 128 sends, and
  then no session of the datacenter has a place for a part, or no task that may be sent is ready.\<close>

theorem download_sending_ends:
  assumes "download_reach s"
  shows "\<exists>s' b. check_send_next dc s = Some s' \<and> dw_next_request s' \<le> dw_next_request s + 128
    \<and> flat_get (dw_balance s') dc = Some b
    \<and> (list_all (\<lambda>x. sb_max_waited x < sb_requested x + download_part_size) (db_sessions b)
       \<or> queue_next_task (ready_to_request s') (db_total b > 0) (queue_of dc s') = None)"
proof -
  obtain s' where s': "check_send_next dc s = Some s'" "both_inv s'"
      "dw_next_request s' \<le> dw_next_request s + int (dc_room dc s)"
      "flat_get (dw_balance s') dc = Some (balance_of dc s')"
      "best_session (db_sessions (balance_of dc s')) = None
       \<or> queue_next_task (ready_to_request s') (db_total (balance_of dc s') > 0) (queue_of dc s') = None"
    using check_send_next_ends [OF reach_both [OF assms]] by blast
  have inv: "downloads_inv no_extra s'" using s'(2) by (simp add: both_inv_def)
  have "dc_room dc s \<le> 128" using dc_room_bound reach_inv assms by blast
  moreover have "list_all (\<lambda>x. sb_max_waited x < sb_requested x + download_part_size) (db_sessions (balance_of dc s'))"
    if none: "best_session (db_sessions (balance_of dc s')) = None"
  proof -
    have "balance_ok (balance_of dc s')" using inv s'(4) by (auto simp: downloads_inv_def dest: accounts_at(4))
    then have "db_sessions (balance_of dc s') \<noteq> []" by (auto simp: balance_ok_def start_sessions_count_def)
    then show ?thesis using best_session_None [OF _ none] sessions_whole [OF inv s'(4)] by (auto simp: list_all_iff)
  qed
  ultimately show ?thesis using s' by auto
qed

theorem download_sending_ends_witness: "\<exists>s'. check_send_next 2 demo_state = Some s'"
  using download_sending_ends [OF demo_reach, of 2] by blast






text \<open>With content servers as well, in every reachable state, the calls of the loaders, the answers of the
  first server, the errors and the timer that kills the sessions return.  The bytes and hashes of content
  servers may fail, as the last theorem below shows.\<close>

theorem download_calls_never_fail:
  assumes "download_reach s" and "in_contract s input"
  shows "\<exists>s'. download_step env input s = Some s'"
  using in_contract_defined [OF reach_both [OF assms(1)] assms(2), of env] by (simp only: not_None_eq)

section \<open>A file from its parts\<close>

text \<open>C10. The parts of a content, fed to a file loader in any order and each once, go to their places in the
  memory or the file: the offset reported is always the number of bytes that have come, and when all parts
  have come the loader holds the content.\<close>

theorem file_parts_assemble:
  assumes "loaded_bytes l = []" and "fl_skipped l = 0" and "\<not> fl_finished l" and "fl_file l \<noteq> None \<longrightarrow> dk_write dk"
    and "distinct ks" and "\<forall>k \<in> set ks. k * nat download_part_size < length content"
  shows "\<exists>l'. write_parts dk (content_parts (nat download_part_size) content ks) l = Some l'
    \<and> current_offset l' = int (sum_list (map (\<lambda>k. length (content_part (nat download_part_size) content k)) ks))
    \<and> ((\<forall>k. k * nat download_part_size < length content \<longrightarrow> k \<in> set ks) \<longrightarrow>
         loaded_bytes l' = content \<and> current_offset l' = int (length content))"
proof -
  let ?n = "nat download_part_size"
  have n: "0 < ?n" by (simp add: download_part_size_def)
  have "holds_parts ?n content {} l"
    using assms(1-3) unfolding holds_parts_def by (intro conjI exI [of _ 0]) (simp_all add: end_ok_def masked_def holes_def)
  from write_parts_hold [OF n this assms(5) _ _ assms(4)] assms(6)
  obtain l' where l': "write_parts dk (content_parts ?n content ks) l = Some l'" "holds_parts ?n content (set ks \<union> {}) l'"
      "current_offset l' = current_offset l + int (sum_list (map (\<lambda>k. length (content_part ?n content k)) ks))" by auto
  have "current_offset l = 0" using assms(1,2) by (simp add: current_offset_loaded)
  moreover have "loaded_bytes l' = content \<and> current_offset l' = int (length content)"
    if "\<forall>k. k * ?n < length content \<longrightarrow> k \<in> set ks"
    using all_parts_held [OF n l'(2)] that by (auto simp: current_offset_loaded)
  ultimately show ?thesis using l'(1,3) by auto
qed

theorem file_parts_assemble_witness:
  "\<exists>l'. write_parts \<lparr> dk_open = True, dk_write = True \<rparr> (content_parts (nat download_part_size) (replicate 200000 1) [1, 0])
      (new_file False True True LoadToCacheAsWell LoadFromCloudOrLocal 200000 200000) = Some l'
    \<and> loaded_bytes l' = replicate 200000 1"
proof -
  let ?l = "new_file False True True LoadToCacheAsWell LoadFromCloudOrLocal 200000 200000"
  have l: "loaded_bytes ?l = []" "fl_skipped ?l = 0" "\<not> fl_finished ?l"
      "fl_file ?l \<noteq> None \<longrightarrow> dk_write \<lparr> dk_open = True, dk_write = True \<rparr>"
    by (simp_all add: new_file_def loaded_bytes_def)
  have "\<exists>l'. write_parts \<lparr> dk_open = True, dk_write = True \<rparr> (content_parts (nat download_part_size) (replicate 200000 1) [1, 0]) ?l = Some l'
    \<and> ((\<forall>k. k * nat download_part_size < length (replicate 200000 (1 :: byte)) \<longrightarrow> k \<in> set [1, 0 :: nat]) \<longrightarrow>
         loaded_bytes l' = replicate 200000 1)"
    using file_parts_assemble [OF l, of "[1, 0]" "replicate 200000 1"] by (auto simp: download_part_size_def)
  then show ?thesis by (auto simp: download_part_size_def)
qed

section \<open>The queue of tasks\<close>

text \<open>C16. Queueing a task, with its search of the position, its update in place and its rotations, takes
  the task out and puts it before the first task whose priority is not higher; the queue stays ordered
  and without repetitions.\<close>

theorem download_queue_inserts:
  assumes "queue_ok q"
  shows "queue_enqueue t p q = insert_by_priority t p q \<and> queue_ok (queue_enqueue t p q)
    \<and> map_of (queue_enqueue t p q) = (map_of q)(t \<mapsto> p)"
  using queue_enqueue_eq [OF assms] queue_ok_enqueue [OF assms] tasks.priority_add [OF assms] by simp

theorem download_queue_inserts_witness:
  "queue_enqueue (3 :: nat) 1 [(1, 2), (2, 1), (3, 0)] = [(1, 2), (3, 1), (2, 1)]"
proof -
  have ok: "queue_ok [(1 :: nat, 2), (2, 1), (3, 0)]" by (simp add: queue_ok_def)
  show ?thesis using download_queue_inserts [OF ok, of 3 1]
    by (simp add: insert_by_priority_def queue_remove_def)
qed

text \<open>The task that is sent next is ready, and no ready task of the queue has a higher priority.\<close>

theorem download_next_task_highest:
  assumes "queue_ok q" and "queue_next_task ready only q = Some t" and "map_of q t = Some p"
  shows "ready t \<and> list_all (\<lambda>(u, r). \<not> (ready u \<and> r > p)) q"
proof -
  have "(t, p) \<in> set q" using assms(1,3) by (simp add: queue_ok_def)
  then show ?thesis
    using queue_next_task_ready [OF assms(2)] queue_next_task_highest [OF assms(1,2)]
    by (fastforce simp: list_all_iff)
qed

theorem download_next_task_highest_witness:
  "list_all (\<lambda>(u, r). \<not> (u \<noteq> (1 :: nat) \<and> r > 1)) [(1, 2), (3, 1), (2, 1 :: int)]"
proof -
  have ok: "queue_ok [(1 :: nat, 2), (3, 1), (2, 1)]" by (simp add: queue_ok_def)
  show ?thesis
    using download_next_task_highest [OF ok, of "\<lambda>u. u \<noteq> 1" False 3 1] by (simp add: queue_next_task_def)
qed

section \<open>Runs that go wrong\<close>

text \<open>C25. The preloader of a video takes itself for finished when the part it is fed was the only one in
  flight and exactly the last part is still to be requested: that part is never requested, and the
  stored prefix has it empty.\<close>

theorem preload_loses_last_part:
  assumes "flat_map_ok (vp_parts p)" and "vp_requested p = [offset]" and "\<not> vp_failed p"
    and "vp_next p + download_part_size = preload_parts_size p" and "offset < vp_next p"
    and "flat_get (vp_parts p) offset \<noteq> None" and "flat_get (vp_parts p) (vp_next p) = Some []"
    and "int (length part) \<le> download_part_size"
  shows "\<exists>p'. preload_feed offset part p = Some (True, p') \<and> vp_finished p' \<and> preload_ready p'
    \<and> vp_next p' = vp_next p \<and> flat_get (vp_parts p') (vp_next p') = Some []"
proof -
  let ?p = "p\<lparr> vp_requested := [], vp_parts := flat_put offset part (vp_parts p), vp_finished := True \<rparr>"
  have size: "preload_parts_size ?p = preload_parts_size p"
    using length_flat_put_present [OF assms(1,6)] by (simp add: preload_parts_size_def)
  have "0 < download_part_size" by (simp add: download_part_size_def)
  then have less: "vp_next p < preload_parts_size p" using assms(4) by linarith
  have "preload_feed offset part p = Some (True, ?p)"
    using assms size less by (simp add: preload_feed_def Let_def flat_remove_def preload_parts_size_def)
  moreover have "preload_ready ?p" using size less assms(3) by (simp add: preload_ready_def)
  ultimately show ?thesis using assms(5,7) by simp
qed

theorem preload_loses_last_part_witness:
  "\<exists>p'. preload_feed 0 [7] \<lparr> vp_parts = [(0, []), (131072, [])], vp_requested = [0], vp_full = 800000,
      vp_next = 131072, vp_finished = False, vp_failed = False \<rparr> = Some (True, p') \<and> flat_get (vp_parts p') 131072 = Some []"
  using preload_loses_last_part [of "\<lparr> vp_parts = [(0, []), (131072, [])], vp_requested = [0], vp_full = 800000,
      vp_next = 131072, vp_finished = False, vp_failed = False \<rparr>" 0 "[7]"]
  by (fastforce simp: preload_parts_size_def download_part_size_def flat_get_def)

text \<open>The machine gets there: a streaming loader has taken three of the four places of the only session,
  so that the preloader can send one of its two parts.\<close>

definition preload_inputs :: "download_input list" where
  "preload_inputs = [NewTask 0 2 (StorageLocation []) (Preload (new_preload 800000)),
     NewTask 1 2 (StorageLocation []) (Streaming new_streaming),
     StreamLoad 1 0 [], StreamLoad 1 131072 [], StreamLoad 1 262144 [],
     PreloadStart 0 262144 800000, NormalPart 0 4 (FileBytes [7])]"

lemma preload_run:
  "map_option (\<lambda>s. last (dw_log s)) (download_run demo_env preload_inputs (initial_downloads 1))
     = Some (PreloadDone 0 (serialize_parts [(0, [7]), (131072, [])]))"
  by code_simp

text \<open>A file loader that is cancelled while it waits for the cache still takes the answer: the guard of the
  call is only reset by the answer itself.  When the cache then gives the first parts of the file, they are
  written to the loader that has finished, which fails its assertion.\<close>

theorem cancelled_loader_takes_answer:
  assumes "file_of t s = Some l" and "fl_finished l" and "\<not> fl_named l"
    and "take 8 stored = partial_prefix" and "int (length stored) < fl_load_size l + 8"
    and "download_part_size + 8 \<le> int (length stored)"
  shows "download_step env (LocalLoaded t stored) s = None"
proof -
  define l1 where "l1 = l\<lparr> fl_local_loading := False, fl_status := LocalNotFound \<rparr>"
  define used where "used = (int (length stored) - 8) div download_part_size * download_part_size"
  let ?s = "set_loader t (FileLoad l1) s"
  obtain task where task: "flat_get (dw_tasks s) t = Some task" using assms(1) by (auto simp: file_of_def split: option.split_asm)
  have "1 \<le> (int (length stored) - 8) div download_part_size"
    using assms(6) zdiv_mono1 [of download_part_size "int (length stored) - 8" download_part_size] by (simp add: download_part_size_def)
  then have used: "0 < used" by (simp add: used_def download_part_size_def)
  have l1: "fl_finished l1" "\<not> fl_named l1" "fl_load_size l1 = fl_load_size l" using assms(2,3) by (simp_all add: l1_def)
  have "set_loader t (FileLoad l1) ?s = ?s" using task by (simp add: set_loader_def set_task_def)
  moreover have at: "file_of t ?s = Some l1" using task by (simp add: file_of_def set_loader_def)
  moreover have "feed_part env t 0 (take (nat used) (drop 8 stored)) (set_loader t (FileLoad (l1\<lparr> fl_next_offset := used \<rparr>)) ?s) = None"
    using task l1(1) by (simp add: set_loader_def feed_part_def file_feed_part_def write_result_part_def)
  ultimately have "file_open_and env t l1 (start_with_partial env t stored) ?s = None"
    using assms(4) l1(2) used by (simp add: file_open_and_def check_for_open_def start_with_partial_def used_def)
  moreover have "stored \<noteq> []" using assms(6) by (auto simp: download_part_size_def)
  ultimately show ?thesis using assms(1,4,5) by (simp add: local_loaded_def Let_def l1_def)
qed

lemma cancelled_loader_run:
  "map_option (\<lambda>s. map_option (\<lambda>l. (fl_local_loading l, fl_finished l, fl_named l)) (file_of 0 s))
     (download_run demo_env [NewTask 0 2 (StorageLocation [])
        (FileLoad (new_file True True True LoadToCacheAsWell LoadFromCloudOrLocal 800000 800000)), FileStart 0, FileCancel 0]
      (initial_downloads 1)) = Some (Some (True, True, False))"
  by code_simp


text \<open>The machine gets there.\<close>

definition demo_cdn :: "byte \<Rightarrow> cdn_params" where
  "demo_cdn token = \<lparr> cp_dc = 203, cp_token = [token], cp_key = replicate 32 0, cp_iv = replicate 16 0 \<rparr>"

definition cdn_inputs :: "download_input list" where
  "cdn_inputs = [NewTask 0 2 (StorageLocation []) (Streaming new_streaming), StreamLoad 0 0 [], StreamLoad 0 131072 [],
     NormalPart 0 1 (CdnRedirect (demo_cdn 1) []), CdnPart 0 4 (CdnBytes [5])]"


definition token_error :: rpc_error where
  "token_error = \<lparr> er_code = 400, er_type = ''FILE_TOKEN_INVALID'' \<rparr>"





text \<open>Bytes of the other part fail there.\<close>

lemma cdn_bytes_run:
  "download_run demo_env (cdn_inputs @ [CdnFailed 0 3 token_error, NormalPart 0 7 (CdnRedirect (demo_cdn 2) [])]) (initial_downloads 1) \<noteq> None
   \<and> download_run demo_env (cdn_inputs @ [CdnFailed 0 3 token_error, NormalPart 0 7 (CdnRedirect (demo_cdn 2) []),
       CdnPart 0 9 (CdnBytes [6])]) (initial_downloads 1) = None"
  by code_simp

end
